(* ===== verification/Prelude.thy ===== *)
theory Prelude
  imports Main "HOL-Library.Word" "HOL-Library.Multiset"
begin

unbundle bit_operations_syntax

text \<open>
  Shared vocabulary of the development: unsigned 64-bit arithmetic on \<open>nat\<close> (the code's
  \<open>size_t\<close> and \<open>uint64_t\<close> where a count is meant), bytes, masks by a power of two,
  list facts, and the interfaces (locales) that more than one component relies on.
\<close>

named_theorems ring_simps \<open>facts about indices masked into a ring buffer\<close>

type_synonym byte = "8 word"

subsection \<open>64-bit unsigned arithmetic on naturals\<close>

definition W64 :: nat where
  "W64 = 2 ^ 64"

definition wadd :: "nat \<Rightarrow> nat \<Rightarrow> nat" where
  "wadd a b = (a + b) mod W64"

definition wsub :: "nat \<Rightarrow> nat \<Rightarrow> nat" where
  "wsub a b = (a + (W64 - b mod W64)) mod W64"

lemma W64_pos [simp]: "0 < W64"
  by (simp add: W64_def)

lemma wadd_less [simp]: "wadd a b < W64"
  by (simp add: wadd_def)

lemma wsub_less [simp]: "wsub a b < W64"
  by (simp add: wsub_def)

lemma wadd_small: "a + b < W64 \<Longrightarrow> wadd a b = a + b"
  by (simp add: wadd_def)

lemma wsub_small:
  assumes "b \<le> a" "a < W64"
  shows "wsub a b = a - b"
proof -
  have "b mod W64 = b" using assms by simp
  then have eq: "a + (W64 - b mod W64) = (a - b) + W64" using assms by simp
  show ?thesis unfolding wsub_def eq mod_add_self2 using assms by (intro mod_less) simp
qed

subsection \<open>Masking by a power of two\<close>

lemma and_pow2_minus_1 [ring_simps]: "(i::nat) AND (2 ^ k - 1) = i mod 2 ^ k"
  by (simp add: take_bit_eq_mod [symmetric] take_bit_eq_mask mask_eq_exp_minus_1)

definition pow2 :: "nat \<Rightarrow> bool" where
  "pow2 c \<longleftrightarrow> (\<exists>k. c = 2 ^ k)"

lemma pow2_and [ring_simps]: "pow2 c \<Longrightarrow> (i::nat) AND (c - 1) = i mod c"
  by (auto simp: pow2_def and_pow2_minus_1 simp del: One_nat_def)

lemma pow2_pos [simp]: "pow2 c \<Longrightarrow> 0 < c"
  by (auto simp: pow2_def)

text \<open>Two numbers of one residue that lie less than the modulus apart are equal.\<close>

lemma mod_eq_close:
  assumes "(a::nat) mod c = b mod c" "a \<le> b" "b < a + c"
  shows "a = b"
proof -
  have "c dvd b - a" using mod_eq_dvd_iff_nat [OF assms(2), of c] assms(1) by simp
  then show ?thesis using assms(2,3) by (cases "a = b") (auto dest: dvd_imp_le)
qed

text \<open>The complement of a low mask, at the width of the type, clears the low bits.\<close>

lemma and_clear_low:
  assumes "x < 2 ^ w" "k \<le> w"
  shows "(x::nat) AND (2 ^ w - 2 ^ k) = x div 2 ^ k * 2 ^ k"
proof -
  have m: "2 ^ w - 2 ^ k = push_bit k (mask (w - k) :: nat)"
    using assms(2) by (simp add: push_bit_eq_mult mask_eq_exp_minus_1 algebra_simps
        power_add [symmetric])
  have hi: "i < w" if "bit x i" for i
    using assms(1) that by (metis bit_take_bit_iff take_bit_nat_eq_self)
  have "x AND push_bit k (mask (w - k)) = push_bit k (drop_bit k x)"
    by (intro bit_eqI)
      (auto simp: bit_and_iff bit_push_bit_iff bit_mask_iff bit_drop_bit_eq dest: hi)
  then show ?thesis by (simp add: m push_bit_eq_mult drop_bit_eq_div)
qed

lemma and_high_mask:
  assumes "x < W64" "k \<le> 64"
  shows "x AND (W64 - 2 ^ k) = x div 2 ^ k * 2 ^ k"
  using and_clear_low [of x 64 k] assms by (simp add: W64_def)

text \<open>Shifting in a field and or-ing it in is positional notation.\<close>

lemma push_bit_or:
  assumes "(b::nat) < 2 ^ n"
  shows "push_bit n a OR b = a * 2 ^ n + b"
proof -
  have hi: "\<not> bit b i" if "n \<le> i" for i
    using assms that by (metis bit_take_bit_iff not_le take_bit_nat_eq_self)
  have "push_bit n a AND b = 0"
    by (intro bit_eqI) (auto simp: bit_and_iff bit_push_bit_iff hi)
  then show ?thesis by (simp add: disjunctive_add_eq_or [symmetric] push_bit_eq_mult)
qed

subsection \<open>Lists\<close>

text \<open>Overwriting a run of a buffer, as \<open>memcpy\<close> into it does.\<close>

definition wr :: "'a list \<Rightarrow> nat \<Rightarrow> 'a list \<Rightarrow> 'a list" where
  "wr buf p xs = take p buf @ xs @ drop (p + length xs) buf"

lemma wr_Nil [simp]: "wr buf p [] = buf"
  by (simp add: wr_def)

lemma length_wr [simp]: "p + length xs \<le> length buf \<Longrightarrow> length (wr buf p xs) = length buf"
  by (simp add: wr_def)

lemma wr_wr:
  assumes "p + length xs + length ys \<le> length buf"
  shows "wr (wr buf p xs) (p + length xs) ys = wr buf p (xs @ ys)"
  using assms by (simp add: wr_def add.commute add.left_commute)

lemma take_wr: "p + length xs \<le> length buf \<Longrightarrow> take (p + length xs) (wr buf p xs) = take p buf @ xs"
  by (simp add: wr_def)

lemma wr_take_drop: "p + length xs \<le> length buf \<Longrightarrow> take (length xs) (drop p (wr buf p xs)) = xs"
  by (simp add: wr_def)

lemma wr_two: "p + 2 \<le> length buf \<Longrightarrow> buf[p := a, p + 1 := b] = wr buf p [a, b]"
  by (intro nth_equalityI) (auto simp: wr_def nth_append nth_list_update nth_Cons' Suc_diff_Suc numeral_2_eq_2)

lemma take_Suc_nth: "i < length xs \<Longrightarrow> take (Suc i) xs = take i xs @ [xs ! i]"
  by (rule take_Suc_conv_app_nth)

lemma drop_nth_Cons: "i < length xs \<Longrightarrow> drop i xs = xs ! i # drop (Suc i) xs"
  by (rule Cons_nth_drop_Suc [symmetric])

lemma nth_concat_blocks:
  assumes "i < n" "j < k" "\<And>x. length (f x) = k"
  shows "concat (map f [0..<n]) ! (i * k + j) = f i ! j"
  using assms(1)
proof (induction n)
  case (Suc n)
  have len: "length (concat (map f [0..<m])) = m * k" for m
    by (induction m) (simp_all add: assms(3))
  show ?case
  proof (cases "i < n")
    case True
    then have "i * k + k \<le> n * k" using mult_le_mono1 [of "Suc i" n k] by simp
    then show ?thesis using Suc.IH [OF True] len [of n] assms(2) by (simp add: nth_append)
  next
    case False
    then show ?thesis using Suc.prems len [of n] by (simp add: nth_append less_Suc_eq)
  qed
qed simp

end
