(* ===== verification/SizeClasses.thy ===== *)
theory SizeClasses
  imports Prelude
begin

text \<open>
  Size classes of the allocator: \<open>KzAlloc/SizeUtils.h\<close> and the batch sizes of
  \<open>KzAlloc/CentralCache.h\<close>. The two tables the code generates at compile time are the
  loops of the source, run by \<open>fold\<close>; the lemmas give their closed forms.
\<close>

definition PAGE_SHIFT :: nat where "PAGE_SHIFT = 14"
definition PAGE_SIZE :: nat where "PAGE_SIZE = 16384"
definition PAGE_ROUND_UP_NUM :: nat where "PAGE_ROUND_UP_NUM = PAGE_SIZE - 1"
definition PAGE_ROUND_UP_NUM_NEGATE :: nat where
  "PAGE_ROUND_UP_NUM_NEGATE = W64 - 1 - PAGE_ROUND_UP_NUM"
definition MAX_NFREELISTS :: nat where "MAX_NFREELISTS = 264"
definition MAX_BYTES :: nat where "MAX_BYTES = 256 * 1024"

lemmas size_consts = PAGE_SHIFT_def PAGE_SIZE_def PAGE_ROUND_UP_NUM_def MAX_NFREELISTS_def
  MAX_BYTES_def

definition RoundUpToPage :: "nat \<Rightarrow> nat" where
  "RoundUpToPage sz = wadd sz PAGE_ROUND_UP_NUM AND PAGE_ROUND_UP_NUM_NEGATE"

definition CalculateNextBlockSize :: "nat \<Rightarrow> nat" where
  "CalculateNextBlockSize current_size =
     (if current_size < 128 then current_size + 8
      else if current_size < 1024 then current_size + 16
      else if current_size < 1024 * 8 then current_size + 128
      else if current_size < 1024 * 64 then current_size + 512
      else current_size + 1024 * 8)"

text \<open>One iteration of the table loop: the state is the table, \<open>block_size\<close> and \<open>index\<close>.\<close>

fun class_table_step :: "nat \<Rightarrow> nat list \<times> nat \<times> nat \<Rightarrow> nat list \<times> nat \<times> nat" where
  "class_table_step i (table, block_size, index) =
     (if i > block_size
      then let index = index + 1; block_size = CalculateNextBlockSize block_size
           in (if index < MAX_NFREELISTS then table[index := block_size] else table,
               block_size, index)
      else (table, block_size, index))"

definition GenerateClassToSizeTable :: "nat list" where
  "GenerateClassToSizeTable =
     fst (fold class_table_step [1..<MAX_BYTES + 1]
            ((replicate MAX_NFREELISTS 0)[0 := 8], 8, 0))"

definition fast_index_of :: "nat \<Rightarrow> nat" where
  "fast_index_of i =
     (if i \<le> 128 then drop_bit 3 (i + 7) - 1
      else if i \<le> 1024 then 15 + drop_bit 4 (i - 128 + 15)
      else if i \<le> 8 * 1024 then 71 + drop_bit 7 (i - 1024 + 127)
      else 127 + drop_bit 9 (i - 8192 + 511))"

definition GenerateFastIndexTable :: "nat list" where
  "GenerateFastIndexTable =
     fold (\<lambda>i table. table[drop_bit 3 (i - 1) := fast_index_of i mod 256]) [1..<32768 + 1]
       (replicate 4096 0)"

definition class_to_size :: "nat list" where
  "class_to_size = GenerateClassToSizeTable"

definition fast_size_to_class :: "nat list" where
  "fast_size_to_class = GenerateFastIndexTable"

definition Index :: "nat \<Rightarrow> nat" where
  "Index sz =
     (if sz = 0 then 0
      else if sz \<le> 32768 then fast_size_to_class ! drop_bit 3 (sz - 1)
      else if sz \<le> 64 * 1024 then 127 + drop_bit 9 (sz - 8192 + 511)
      else 239 + drop_bit 13 (sz - 65536 + 8191))"

text \<open>Two sizes that \<open>malloc\<close> and the sized \<open>free\<close> treat in the same way.\<close>

definition same_class :: "nat \<Rightarrow> nat \<Rightarrow> bool" where
  "same_class a b \<longleftrightarrow> (a \<le> MAX_BYTES \<longleftrightarrow> b \<le> MAX_BYTES) \<and> (a \<le> MAX_BYTES \<longrightarrow> Index a = Index b)"

definition RoundUp :: "nat \<Rightarrow> nat" where
  "RoundUp sz = (if sz > MAX_BYTES then RoundUpToPage sz else class_to_size ! Index sz)"

definition Size :: "nat \<Rightarrow> nat" where
  "Size index = class_to_size ! index"

definition NumMoveSize :: "nat \<Rightarrow> nat" where
  "NumMoveSize index =
     (let num = MAX_BYTES div class_to_size ! index
      in if num < 2 then 2 else if num > 32768 then 32768 else num)"

definition CalculateFetchBatchSize :: "nat \<Rightarrow> nat" where
  "CalculateFetchBatchSize aligned_size =
     (let num = MAX_BYTES div aligned_size; num = (if num = 0 then 1 else num)
      in if num > 512 then 512 else num)"

definition CalculatePageNeed :: "nat \<Rightarrow> nat" where
  "CalculatePageNeed aligned_size =
     (let num = CalculateFetchBatchSize aligned_size;
          npage = drop_bit PAGE_SHIFT (wadd ((num * aligned_size) mod W64) PAGE_ROUND_UP_NUM)
      in if npage = 0 then 1 else npage)"

subsection \<open>Closed form of the class table\<close>

primrec class_size :: "nat \<Rightarrow> nat" where
  "class_size 0 = 8"
| "class_size (Suc j) = CalculateNextBlockSize (class_size j)"

lemma class_ranges:
  obtains "j < 15" | "15 \<le> (j::nat)" "j < 71" | "71 \<le> j" "j < 127" | "127 \<le> j" "j < 239" | "239 \<le> j"
  by linarith

lemma class_size_closed:
  "class_size j =
     (if j \<le> 15 then 8 * (j + 1) else if j \<le> 71 then 128 + 16 * (j - 15)
      else if j \<le> 127 then 1024 + 128 * (j - 71) else if j \<le> 239 then 8192 + 512 * (j - 127)
      else 65536 + 8192 * (j - 239))"
proof (induction j)
  case (Suc j)
  show ?case by (cases j rule: class_ranges) (auto simp: Suc CalculateNextBlockSize_def)
qed simp

lemma class_size_less_Suc: "class_size j < class_size (Suc j)"
  by (simp add: CalculateNextBlockSize_def)

lemma class_size_strict_mono: "strict_mono class_size"
  by (simp only: strict_mono_Suc_iff class_size_less_Suc) simp

lemma class_size_263: "class_size 263 = MAX_BYTES"
  by (simp add: class_size_closed MAX_BYTES_def)

text \<open>What the table loop has established after iteration \<open>i\<close>.\<close>

definition class_table_inv :: "nat \<Rightarrow> nat list \<times> nat \<times> nat \<Rightarrow> bool" where
  "class_table_inv i s \<longleftrightarrow> (case s of (table, bs, idx) \<Rightarrow>
     bs = class_size idx \<and> i \<le> bs \<and> (\<forall>j < idx. class_size j < max i 1)
     \<and> length table = MAX_NFREELISTS
     \<and> (\<forall>j < MAX_NFREELISTS. j \<le> idx \<longrightarrow> table ! j = class_size j))"

lemma class_table_inv_step:
  assumes "class_table_inv i s"
  shows "class_table_inv (Suc i) (class_table_step (Suc i) s)"
proof -
  obtain table bs idx where s: "s = (table, bs, idx)" by (cases s)
  have *: "j \<le> idx \<Longrightarrow> class_size j \<le> class_size idx" for j
    using class_size_strict_mono by (simp add: strict_mono_less_eq)
  show ?thesis
  proof (cases "Suc i > bs")
    case True
    with assms have "bs = i" by (simp add: class_table_inv_def s)
    then show ?thesis
      using assms True class_size_less_Suc [of idx] *
      by (auto simp: class_table_inv_def s Let_def nth_list_update less_Suc_eq_le le_Suc_eq)
  next
    case False
    have "class_size j < max (Suc i) 1" if "class_size j < max i 1" for j
      using that by (simp add: max_def split: if_splits)
    then show ?thesis using assms False by (simp add: class_table_inv_def s del: class_size.simps)
  qed
qed

lemma class_table_inv_fold:
  "class_table_inv n (fold class_table_step [1..<n + 1] ((replicate MAX_NFREELISTS 0)[0 := 8], 8, 0))"
proof (induction n)
  case 0
  show ?case by (simp add: class_table_inv_def MAX_NFREELISTS_def)
next
  case (Suc n)
  from class_table_inv_step [OF Suc] show ?case by simp
qed

lemma class_to_size_nth: "j < MAX_NFREELISTS \<Longrightarrow> class_to_size ! j = class_size j"
proof -
  assume j: "j < MAX_NFREELISTS"
  obtain table bs idx where
    s: "fold class_table_step [1..<MAX_BYTES + 1] ((replicate MAX_NFREELISTS 0)[0 := 8], 8, 0)
        = (table, bs, idx)"
    by (cases "fold class_table_step [1..<MAX_BYTES + 1] ((replicate MAX_NFREELISTS 0)[0 := 8], 8, 0)")
  have inv: "class_table_inv MAX_BYTES (table, bs, idx)"
    using class_table_inv_fold [of MAX_BYTES] unfolding s .
  then have "class_size 263 \<le> class_size idx" by (simp add: class_table_inv_def class_size_263)
  then have "263 \<le> idx" by (simp add: strict_mono_less_eq [OF class_size_strict_mono])
  with inv j show ?thesis
    unfolding class_to_size_def GenerateClassToSizeTable_def s
    by (simp add: class_table_inv_def MAX_NFREELISTS_def)
qed

lemma length_class_to_size: "length class_to_size = MAX_NFREELISTS"
  using class_table_inv_fold [of MAX_BYTES]
  by (auto simp: class_to_size_def GenerateClassToSizeTable_def class_table_inv_def
      split: prod.splits)

subsection \<open>Closed form of the fast table\<close>

definition group_index :: "nat \<Rightarrow> nat" where
  "group_index g =
     (if g < 16 then g else if g < 128 then 15 + (g - 14) div 2
      else if g < 1024 then 71 + (g - 112) div 16 else 127 + (g - 960) div 64)"

text \<open>All sizes of an 8-byte group have the index of the group.\<close>

lemma fast_index_of_group:
  assumes "0 < i"
  shows "fast_index_of i = group_index ((i - 1) div 8)"
proof -
  define g where "g = (i - 1) div 8"
  define r where "r = (i - 1) mod 8"
  have i: "i = 8 * g + r + 1" and r: "r < 8"
    using assms by (simp_all add: g_def r_def)
  have d: "(8 * a + r) div (8 * m) = a div m" for a m
    using r by (simp add: div_mult2_eq)
  consider "g < 16" | "16 \<le> g" "g < 128" | "128 \<le> g" "g < 1024" | "1024 \<le> g" by linarith
  then have "fast_index_of i = group_index g"
  proof cases
    case 1
    have "(i + 7) div 8 = g + 1" using r by (simp add: i)
    then show ?thesis using 1 r by (simp add: fast_index_of_def group_index_def drop_bit_eq_div i)
  next
    case 2
    have "i - 128 + 15 = 8 * (g - 14) + r" using 2 by (simp add: i)
    then have "(i - 128 + 15) div 16 = (g - 14) div 2" using d [of "g - 14" 2] by simp
    then show ?thesis using 2 r by (simp add: fast_index_of_def group_index_def drop_bit_eq_div i)
  next
    case 3
    have "i - 1024 + 127 = 8 * (g - 112) + r" using 3 by (simp add: i)
    then have "(i - 1024 + 127) div 128 = (g - 112) div 16" using d [of "g - 112" 16] by simp
    then show ?thesis using 3 r by (simp add: fast_index_of_def group_index_def drop_bit_eq_div i)
  next
    case 4
    have "i - 8192 + 511 = 8 * (g - 960) + r" using 4 by (simp add: i)
    then have "(i - 8192 + 511) div 512 = (g - 960) div 64" using d [of "g - 960" 64] by simp
    then show ?thesis using 4 r by (simp add: fast_index_of_def group_index_def drop_bit_eq_div i)
  qed
  then show ?thesis by (simp add: g_def)
qed

lemma group_index_le: "g < 4096 \<Longrightarrow> group_index g \<le> 175"
  by (auto simp: group_index_def)

definition fast_table_upto :: "nat \<Rightarrow> nat list" where
  "fast_table_upto n =
     fold (\<lambda>i table. table[drop_bit 3 (i - 1) := fast_index_of i mod 256]) [1..<n + 1]
       (replicate 4096 0)"

lemma fast_table_upto_0: "fast_table_upto 0 = replicate 4096 0"
  by (simp add: fast_table_upto_def)

lemma fast_table_upto_Suc:
  "fast_table_upto (Suc n) = (fast_table_upto n)[n div 8 := group_index (n div 8) mod 256]"
  by (simp add: fast_table_upto_def fast_index_of_group drop_bit_eq_div)

lemma length_fast_table_upto [simp]: "length (fast_table_upto n) = 4096"
  by (induction n) (simp_all add: fast_table_upto_0 fast_table_upto_Suc)

lemma fast_table_upto_nth:
  "g < 4096 \<Longrightarrow> 8 * g < n \<Longrightarrow> fast_table_upto n ! g = group_index g mod 256"
proof (induction n)
  case (Suc n)
  show ?case
  proof (cases "n div 8 = g")
    case True
    then show ?thesis using Suc.prems by (simp add: fast_table_upto_Suc)
  next
    case False
    then have "8 * g < n" using Suc.prems by (cases "8 * g = n") auto
    then show ?thesis using Suc False by (simp add: fast_table_upto_Suc)
  qed
qed simp

lemma fast_size_to_class_nth:
  "g < 4096 \<Longrightarrow> fast_size_to_class ! g = group_index g"
  using fast_table_upto_nth [of g 32768] group_index_le [of g]
  by (simp add: fast_size_to_class_def GenerateFastIndexTable_def fast_table_upto_def)

subsection \<open>The index is the least class that fits\<close>

lemma Index_closed:
  assumes "0 < s" "s \<le> MAX_BYTES"
  shows "Index s = (if s \<le> 128 then (s + 7) div 8 - 1 else if s \<le> 1024 then 15 + (s - 113) div 16
      else if s \<le> 8192 then 71 + (s - 897) div 128 else if s \<le> 65536 then 127 + (s - 7681) div 512
      else 239 + (s - 57345) div 8192)"
proof (cases "s \<le> 32768")
  case True
  then have "(s - 1) div 8 < 4096" using assms by auto
  then have "Index s = fast_index_of s"
    using True assms by (simp add: Index_def fast_size_to_class_nth fast_index_of_group drop_bit_eq_div)
  also have "\<dots> = (if s \<le> 128 then (s + 7) div 8 - 1 else if s \<le> 1024 then 15 + (s - 113) div 16
      else if s \<le> 8192 then 71 + (s - 897) div 128 else 127 + (s - 7681) div 512)"
    by (simp add: fast_index_of_def drop_bit_eq_div)
  finally show ?thesis using True by simp
qed (simp add: Index_def drop_bit_eq_div)

lemma class_size_step:
  "class_size (Suc j) = class_size j +
     (if j < 15 then 8 else if j < 71 then 16 else if j < 127 then 128 else if j < 239 then 512 else 8192)"
  by (cases j rule: class_ranges)
    (auto simp: class_size_closed [of j] CalculateNextBlockSize_def)

text \<open>The granularity of the range a size lies in.\<close>

definition granule :: "nat \<Rightarrow> nat" where
  "granule s = (if s \<le> 128 then 8 else if s \<le> 1024 then 16 else if s \<le> 8192 then 128
     else if s \<le> 65536 then 512 else 8192)"

lemma div_bracket:
  fixes x a :: nat
  assumes "0 < a"
  shows "a * (x div a) \<le> x \<and> x < a * (x div a) + a"
  using assms by (metis add.commute div_mult_mod_eq le_add1 mod_less_divisor mult.commute
      nat_add_left_cancel_less)

lemma Index_bracket:
  assumes "0 < s" "s \<le> MAX_BYTES"
  shows "s \<le> class_size (Index s) \<and> class_size (Index s) < s + granule s"
proof -
  consider "s \<le> 128" | "128 < s" "s \<le> 1024" | "1024 < s" "s \<le> 8192"
    | "8192 < s" "s \<le> 65536" | "65536 < s" by linarith
  then show ?thesis
  proof cases
    case 1
    define q where "q = (s - 1) div 8"
    have "(s + 7) div 8 - 1 = q" using assms by (simp add: q_def)
    then have "Index s = q" using assms 1 by (simp add: Index_closed)
    moreover have "8 * q \<le> s - 1 \<and> s - 1 < 8 * q + 8" unfolding q_def by (rule div_bracket) simp
    ultimately show ?thesis using assms 1 by (auto simp: class_size_closed granule_def)
  next
    case 2
    define q where "q = (s - 113) div 16"
    have "Index s = 15 + q" using assms 2 by (simp add: Index_closed q_def)
    moreover have "16 * q \<le> s - 113 \<and> s - 113 < 16 * q + 16" unfolding q_def by (rule div_bracket) simp
    ultimately show ?thesis using assms 2 by (auto simp: class_size_closed granule_def)
  next
    case 3
    define q where "q = (s - 897) div 128"
    have "Index s = 71 + q" using assms 3 by (simp add: Index_closed q_def)
    moreover have "128 * q \<le> s - 897 \<and> s - 897 < 128 * q + 128" unfolding q_def by (rule div_bracket) simp
    ultimately show ?thesis using assms 3 by (auto simp: class_size_closed granule_def)
  next
    case 4
    define q where "q = (s - 7681) div 512"
    have "Index s = 127 + q" using assms 4 by (simp add: Index_closed q_def)
    moreover have "512 * q \<le> s - 7681 \<and> s - 7681 < 512 * q + 512" unfolding q_def by (rule div_bracket) simp
    ultimately show ?thesis using assms 4 by (auto simp: class_size_closed granule_def)
  next
    case 5
    define q where "q = (s - 57345) div 8192"
    have "Index s = 239 + q" using assms 5 by (simp add: Index_closed q_def)
    moreover have "8192 * q \<le> s - 57345 \<and> s - 57345 < 8192 * q + 8192" unfolding q_def by (rule div_bracket) simp
    ultimately show ?thesis using assms 5
      by (auto simp: class_size_closed granule_def MAX_BYTES_def)
  qed
qed

lemma granule_mono: "s \<le> t \<Longrightarrow> granule s \<le> granule t"
  by (simp add: granule_def)

lemma class_size_step_granule: "class_size (Suc j) = class_size j + granule (class_size (Suc j))"
  by (cases j rule: class_ranges)
    (auto simp: class_size_step [of j] class_size_closed [of j] granule_def simp del: class_size.simps)

lemma Index_least:
  assumes "0 < s" "s \<le> MAX_BYTES" "j < Index s"
  shows "class_size j < s"
proof -
  obtain k where k: "Index s = Suc k" using assms(3) by (cases "Index s") auto
  have "class_size j \<le> class_size k"
    using assms(3) class_size_strict_mono by (simp add: k strict_mono_less_eq)
  moreover have "granule s \<le> granule (class_size (Suc k))"
    using Index_bracket [OF assms(1,2)] by (simp add: k granule_mono del: class_size.simps)
  ultimately show ?thesis
    using Index_bracket [OF assms(1,2)] class_size_step_granule [of k] by (simp add: k del: class_size.simps)
qed

lemma Index_less: "s \<le> MAX_BYTES \<Longrightarrow> Index s < MAX_NFREELISTS"
proof (cases "s = 0")
  case False
  assume "s \<le> MAX_BYTES"
  then show ?thesis
    using False Index_least [of s 263] class_size_263 by (fastforce simp: MAX_NFREELISTS_def)
qed (simp add: Index_def MAX_NFREELISTS_def)

lemma Index_eqI:
  assumes "0 < s" "s \<le> MAX_BYTES" "s \<le> class_size j" "\<And>i. i < j \<Longrightarrow> class_size i < s"
  shows "Index s = j"
proof (rule ccontr)
  assume "Index s \<noteq> j"
  then consider "Index s < j" | "j < Index s" by linarith
  then show False
    using Index_bracket [OF assms(1,2)] Index_least [OF assms(1,2), of j] assms(3,4) by cases fastforce+
qed

lemma Index_class_size:
  assumes "j < MAX_NFREELISTS"
  shows "Index (class_size j) = j"
proof (rule Index_eqI)
  show "0 < class_size j" by (simp add: class_size_closed)
  have "class_size j \<le> class_size 263"
    using assms by (simp add: strict_mono_less_eq [OF class_size_strict_mono] MAX_NFREELISTS_def)
  then show "class_size j \<le> MAX_BYTES" by (simp add: class_size_263)
qed (use class_size_strict_mono in \<open>auto simp: strict_mono_less\<close>)

lemma RoundUp_class: "s \<le> MAX_BYTES \<Longrightarrow> RoundUp s = class_size (Index s)"
  by (simp add: RoundUp_def class_to_size_nth Index_less)

subsection \<open>Page rounding\<close>

lemma RoundUpToPage_eq: "RoundUpToPage s = wadd s 16383 div 16384 * 16384"
proof -
  have "PAGE_ROUND_UP_NUM_NEGATE = W64 - 2 ^ 14"
    by (simp add: PAGE_ROUND_UP_NUM_NEGATE_def PAGE_ROUND_UP_NUM_def PAGE_SIZE_def W64_def)
  then show ?thesis
    using and_high_mask [of "wadd s 16383" 14]
    by (simp add: RoundUpToPage_def PAGE_ROUND_UP_NUM_def PAGE_SIZE_def)
qed

lemma class_size_multiple_8: "8 dvd class_size j"
proof (induction j)
  case (Suc j)
  then show ?case by (auto simp: CalculateNextBlockSize_def intro!: dvd_add)
qed simp

lemma batch_bounds:
  assumes "0 < sz" "sz \<le> MAX_BYTES"
  shows "1 \<le> CalculateFetchBatchSize sz" "CalculateFetchBatchSize sz \<le> 512"
    "CalculateFetchBatchSize sz * sz \<le> MAX_BYTES"
proof -
  have q: "1 \<le> MAX_BYTES div sz"
    using assms by (simp add: Suc_le_eq div_greater_zero_iff)
  have m: "MAX_BYTES div sz * sz \<le> MAX_BYTES" by simp
  show "1 \<le> CalculateFetchBatchSize sz" "CalculateFetchBatchSize sz \<le> 512"
    using q by (auto simp: CalculateFetchBatchSize_def Let_def)
  have "CalculateFetchBatchSize sz \<le> MAX_BYTES div sz"
    using q by (simp add: CalculateFetchBatchSize_def Let_def)
  then show "CalculateFetchBatchSize sz * sz \<le> MAX_BYTES"
    using m by (meson le_trans mult_le_mono1)
qed

lemma ceil_pages: "0 < x \<Longrightarrow> ((x + 16383) div 16384 - 1) * 16384 < x \<and> x \<le> (x + 16383) div 16384 * (16384::nat)"
  using div_bracket [of 16384 "x + 16383"] by (cases "(x + 16383) div 16384") auto

lemma CalculatePageNeed_eq:
  assumes "0 < sz" "sz \<le> MAX_BYTES"
  shows "CalculatePageNeed sz = (CalculateFetchBatchSize sz * sz + 16383) div 16384"
proof -
  have "CalculateFetchBatchSize sz * sz + 16383 < W64"
    using batch_bounds(3) [OF assms] by (simp add: MAX_BYTES_def W64_def)
  moreover have "1 \<le> CalculateFetchBatchSize sz * sz"
    using batch_bounds(1) [OF assms] assms(1) by (simp add: Suc_le_eq)
  then have "0 < (CalculateFetchBatchSize sz * sz + 16383) div 16384"
    by (simp add: div_greater_zero_iff)
  ultimately show ?thesis
    by (simp add: CalculatePageNeed_def Let_def wadd_def drop_bit_eq_div size_consts PAGE_ROUND_UP_NUM_def)
qed

subsection \<open>Properties\<close>

text \<open>
  C29. Small sizes: \<open>RoundUp\<close> returns the least entry of the class table that is at least the
  requested size, \<open>Size(Index(s))\<close> is that entry, and rounding again keeps the class.
\<close>

theorem RoundUp_least_class:
  assumes "0 < s" "s \<le> MAX_BYTES"
  shows "RoundUp s \<in> set class_to_size \<and> s \<le> RoundUp s
    \<and> (\<forall>c \<in> set class_to_size. s \<le> c \<longrightarrow> RoundUp s \<le> c)
    \<and> Size (Index s) = RoundUp s \<and> Index (RoundUp s) = Index s"
proof (intro conjI ballI impI)
  note idx = Index_less [OF assms(2)] and ru = RoundUp_class [OF assms(2)]
  show "RoundUp s \<in> set class_to_size"
    using idx assms(2) by (simp add: RoundUp_def length_class_to_size)
  show "s \<le> RoundUp s" using Index_bracket [OF assms] by (simp add: ru)
  show "Size (Index s) = RoundUp s" by (simp add: Size_def ru class_to_size_nth idx)
  show "Index (RoundUp s) = Index s" by (simp add: ru Index_class_size idx)
  fix c assume "c \<in> set class_to_size" "s \<le> c"
  then obtain j where "j < MAX_NFREELISTS" "c = class_size j"
    by (auto simp: in_set_conv_nth length_class_to_size class_to_size_nth)
  then show "RoundUp s \<le> c"
    using Index_least [OF assms, of j] \<open>s \<le> c\<close>
    by (simp add: ru strict_mono_less_eq [OF class_size_strict_mono]) fastforce
qed

theorem RoundUp_least_class_witness:
  "RoundUp 129 \<in> set class_to_size \<and> 129 \<le> RoundUp 129
    \<and> Size (Index 129) = RoundUp 129 \<and> Index (RoundUp 129) = Index 129"
  using RoundUp_least_class [of 129] by (simp add: MAX_BYTES_def)

text \<open>
  Internal fragmentation: above 128 bytes the rounding wastes less than one eighth of the
  block, over all four wider granularities.
\<close>

theorem RoundUp_waste:
  assumes "128 < s" "s \<le> MAX_BYTES"
  shows "8 * (RoundUp s - s) < RoundUp s"
proof -
  have "s \<le> RoundUp s" "RoundUp s < s + granule s"
    using Index_bracket [of s] assms by (simp_all add: RoundUp_class)
  moreover have "8 * (granule s - 1) < s" using assms(1) by (simp add: granule_def)
  ultimately show ?thesis by linarith
qed

theorem RoundUp_waste_witness: "8 * (RoundUp 65537 - 65537) < RoundUp 65537"
  by (rule RoundUp_waste) (simp_all add: MAX_BYTES_def)

lemma RoundUp_page:
  assumes "MAX_BYTES < s" "s < W64"
  shows "PAGE_SIZE dvd RoundUp s
    \<and> (if s \<le> W64 - PAGE_SIZE then s \<le> RoundUp s \<and> RoundUp s < s + PAGE_SIZE else RoundUp s = 0)"
proof -
  have eq: "RoundUp s = wadd s 16383 div 16384 * 16384"
    using assms by (simp add: RoundUp_def RoundUpToPage_eq)
  show ?thesis
  proof (cases "s \<le> W64 - PAGE_SIZE")
    case True
    then have "wadd s 16383 = s + 16383" by (simp add: wadd_def W64_def PAGE_SIZE_def)
    moreover have "(s + 16383) div 16384 * 16384 \<le> s + 16383" by simp
    ultimately show ?thesis
      using True ceil_pages [of s] assms(1) by (simp add: eq PAGE_SIZE_def)
  next
    case False
    then have "s + 16383 = (s + 16383 - W64) + W64" "s + 16383 - W64 < 16384"
      using assms(2) by (simp_all add: W64_def PAGE_SIZE_def)
    then have "wadd s 16383 < 16384"
      by (metis le_less_trans mod_add_self2 mod_less_eq_dividend wadd_def)
    then show ?thesis using False by (simp add: eq)
  qed
qed

text \<open>
  Large sizes: \<open>RoundUp\<close> returns the least multiple of the page size that is at least the
  request, up to the last representable page; above it the addition wraps and the result is 0.
\<close>

theorem RoundUp_large:
  assumes "MAX_BYTES < s" "s < W64"
  shows "PAGE_SIZE dvd RoundUp s
    \<and> (if s \<le> W64 - PAGE_SIZE then s \<le> RoundUp s \<and> RoundUp s < s + PAGE_SIZE else RoundUp s = 0)"
  by (rule RoundUp_page [OF assms])

theorem RoundUp_large_witness:
  "(PAGE_SIZE dvd RoundUp 300000 \<and> (if 300000 \<le> W64 - PAGE_SIZE
      then 300000 \<le> RoundUp 300000 \<and> RoundUp 300000 < 300000 + PAGE_SIZE else RoundUp 300000 = 0))
   \<and> (PAGE_SIZE dvd RoundUp (W64 - 1) \<and> (if W64 - 1 \<le> W64 - PAGE_SIZE
      then W64 - 1 \<le> RoundUp (W64 - 1) \<and> RoundUp (W64 - 1) < W64 - 1 + PAGE_SIZE
      else RoundUp (W64 - 1) = 0))"
  by (intro conjI [OF RoundUp_large RoundUp_large]) (simp_all add: MAX_BYTES_def W64_def)

text \<open>
  Span sizing: for every size class the pages \<open>CalculatePageNeed\<close> asks for hold the whole
  batch of \<open>CalculateFetchBatchSize\<close> blocks, one page fewer would not, and a batch has 1 to 512
  blocks and never needs more than 16 pages.
\<close>

theorem page_need_tight:
  assumes "j < MAX_NFREELISTS"
  shows "let num = CalculateFetchBatchSize (Size j); pages = CalculatePageNeed (Size j) in
    1 \<le> num \<and> num \<le> 512 \<and> num * Size j \<le> pages * PAGE_SIZE
    \<and> (pages - 1) * PAGE_SIZE < num * Size j \<and> 1 \<le> pages \<and> pages \<le> 16"
proof -
  have sz: "0 < class_size j" by (simp add: class_size_closed)
  have le: "class_size j \<le> MAX_BYTES"
    using assms by (simp add: class_size_263 [symmetric] MAX_NFREELISTS_def
        strict_mono_less_eq [OF class_size_strict_mono])
  let ?x = "CalculateFetchBatchSize (class_size j) * class_size j"
  note b = batch_bounds [OF sz le]
  have x: "0 < ?x" using b(1) sz by simp
  have "(?x + 16383) div 16384 \<le> (MAX_BYTES + 16383) div 16384" using b(3) by (intro div_le_mono) simp
  moreover have "1 \<le> (?x + 16383) div 16384"
    using x by (simp add: Suc_le_eq div_greater_zero_iff)
  ultimately show ?thesis
    using b ceil_pages [OF x]
    by (simp add: Size_def class_to_size_nth assms Let_def CalculatePageNeed_eq [OF sz le]
        PAGE_SIZE_def MAX_BYTES_def)
qed

theorem page_need_tight_witness:
  "let num = CalculateFetchBatchSize (Size 3); pages = CalculatePageNeed (Size 3) in
    1 \<le> num \<and> num \<le> 512 \<and> num * Size 3 \<le> pages * PAGE_SIZE
    \<and> (pages - 1) * PAGE_SIZE < num * Size 3 \<and> 1 \<le> pages \<and> pages \<le> 16"
  by (rule page_need_tight) (simp add: MAX_NFREELISTS_def)

text \<open>A quarter of a size is never of its class, unless both are beyond the classes.\<close>

lemma quarter_class:
  assumes "22 < n"
  shows "same_class (n div 4 + 1) (n + 1) \<longleftrightarrow> MAX_BYTES \<le> n div 4"
proof (cases "n + 1 \<le> MAX_BYTES")
  case True
  let ?s = "n div 4 + 1"
  have s: "0 < ?s" "?s \<le> MAX_BYTES" "0 < n + 1" using True by simp_all
  have "granule ?s \<le> ?s + 7" by (simp add: granule_def)
  moreover have "n + 1 \<le> class_size (Index (n + 1))" using Index_bracket [OF s(3) True] by blast
  moreover have "class_size (Index ?s) < ?s + granule ?s" using Index_bracket [OF s(1,2)] by blast
  ultimately have "Index ?s \<noteq> Index (n + 1)" using assms by (intro notI) simp
  then show ?thesis using True s(2) by (simp add: same_class_def)
next
  case False
  then show ?thesis by (auto simp: same_class_def)
qed

end
