(* ===== verification/SpanRing.thy ===== *)
theory SpanRing
  imports Prelude
begin

text \<open>
  The intrusive doubly linked list of \<open>KzAlloc/Span.h\<close> (\<open>SpanLink\<close>, \<open>SpanList\<close>,
  \<open>Span::Remove\<close>) on an explicit store of \<open>_next\<close> and \<open>_prev\<close> fields. Addresses are
  naturals, 0 is \<open>nullptr\<close>, a list is known by the address of its sentinel \<open>_head\<close>. The
  relation \<open>ring\<close> says which addresses a sentinel's ring holds, in order; the locale
  \<open>intrusive_list\<close> states what the page cache relies on, and the lemmas prove it for the code.
\<close>

record links =
  nx :: "nat \<Rightarrow> nat"
  pv :: "nat \<Rightarrow> nat"

definition set_nx :: "nat \<Rightarrow> nat \<Rightarrow> links \<Rightarrow> links" where
  "set_nx a v h = h\<lparr>nx := (nx h)(a := v)\<rparr>"

definition set_pv :: "nat \<Rightarrow> nat \<Rightarrow> links \<Rightarrow> links" where
  "set_pv a v h = h\<lparr>pv := (pv h)(a := v)\<rparr>"

definition SpanList_init :: "nat \<Rightarrow> links \<Rightarrow> links" where
  "SpanList_init rt h = set_pv rt rt (set_nx rt rt h)"

definition SpanList_Begin :: "links \<Rightarrow> nat \<Rightarrow> nat" where
  "SpanList_Begin h rt = nx h rt"

definition SpanList_Empty :: "links \<Rightarrow> nat \<Rightarrow> bool" where
  "SpanList_Empty h rt \<longleftrightarrow> nx h rt = rt"

definition SpanList_Insert :: "nat \<Rightarrow> nat \<Rightarrow> links \<Rightarrow> links" where
  "SpanList_Insert pos span h =
     (let prev = pv h pos;
          h = set_nx prev span h;
          h = set_pv span prev h;
          h = set_nx span pos h
      in set_pv pos span h)"

definition SpanList_PushFront :: "nat \<Rightarrow> nat \<Rightarrow> links \<Rightarrow> links" where
  "SpanList_PushFront rt span h = SpanList_Insert (SpanList_Begin h rt) span h"

definition SpanList_Erase :: "nat \<Rightarrow> links \<Rightarrow> links" where
  "SpanList_Erase span h =
     (let prev = pv h span; next = nx h span;
          h = set_nx prev next h;
          h = set_pv next prev h;
          h = set_pv span 0 h
      in set_nx span 0 h)"

definition SpanList_PopFront :: "nat \<Rightarrow> links \<Rightarrow> nat option \<times> links" where
  "SpanList_PopFront rt h =
     (let front = SpanList_Begin h rt
      in if front = rt then (None, h) else (Some front, SpanList_Erase front h))"

definition Span_Remove :: "nat \<Rightarrow> links \<Rightarrow> links" where
  "Span_Remove span h =
     (let h = set_nx (pv h span) (nx h span) h;
          h = set_pv (nx h span) (pv h span) h;
          h = set_pv span 0 h
      in set_nx span 0 h)"

text \<open>Move construction of the list with sentinel \<open>rt\<close> from the list with sentinel \<open>other\<close>.\<close>

definition SpanList_move :: "nat \<Rightarrow> nat \<Rightarrow> links \<Rightarrow> links" where
  "SpanList_move rt other h =
     (if SpanList_Empty h other then set_pv rt rt (set_nx rt rt h)
      else let h = set_nx rt (nx h other) h;
               h = set_pv rt (pv h other) h;
               h = set_pv (nx h rt) rt h;
               h = set_nx (pv h rt) rt h;
               h = set_nx other other h
           in set_pv other other h)"

text \<open>Move assignment is the same copy, guarded against self-assignment.\<close>

definition SpanList_move_assign :: "nat \<Rightarrow> nat \<Rightarrow> links \<Rightarrow> links" where
  "SpanList_move_assign rt other h = (if rt \<noteq> other then SpanList_move rt other h else h)"

subsection \<open>The ring predicate\<close>

fun linked :: "links \<Rightarrow> nat list \<Rightarrow> bool" where
  "linked h (a # b # r) \<longleftrightarrow> nx h a = b \<and> pv h b = a \<and> linked h (b # r)"
| "linked h _ \<longleftrightarrow> True"

definition ring :: "links \<Rightarrow> nat \<Rightarrow> nat list \<Rightarrow> bool" where
  "ring h rt xs \<longleftrightarrow> distinct (rt # xs) \<and> 0 \<notin> set (rt # xs) \<and> linked h (rt # xs @ [rt])"

lemma sel_set [simp]:
  "nx (set_nx a v h) = (nx h)(a := v)" "pv (set_nx a v h) = pv h"
  "nx (set_pv a v h) = nx h" "pv (set_pv a v h) = (pv h)(a := v)"
  by (simp_all add: set_nx_def set_pv_def)

lemma linked_join:
  "linked h (xs @ ys) \<longleftrightarrow> linked h xs \<and> linked h ys
     \<and> (xs \<noteq> [] \<and> ys \<noteq> [] \<longrightarrow> nx h (last xs) = hd ys \<and> pv h (hd ys) = last xs)"
proof (induction xs)
  case (Cons a xs)
  then show ?case by (cases xs; cases ys) auto
qed simp

lemma linked_cong:
  assumes "linked h xs"
    "\<And>a. a \<in> set (butlast xs) \<Longrightarrow> nx h' a = nx h a" "\<And>a. a \<in> set (tl xs) \<Longrightarrow> pv h' a = pv h a"
  shows "linked h' xs"
  using assms by (induction h xs rule: linked.induct) auto

lemma ring_cong:
  assumes "ring h rt xs" "\<And>a. a \<in> set (rt # xs) \<Longrightarrow> nx h' a = nx h a \<and> pv h' a = pv h a"
  shows "ring h' rt xs"
  using assms unfolding ring_def by (auto intro!: linked_cong [of h] simp: butlast_append)

text \<open>A ring cut in two: before a cut and from it on, back to the sentinel.\<close>

lemma ring_cut:
  "ring h rt (xs @ ys) \<longleftrightarrow> distinct (rt # xs @ ys) \<and> 0 \<notin> set (rt # xs @ ys)
     \<and> linked h (rt # xs) \<and> linked h (ys @ [rt])
     \<and> nx h (last (rt # xs)) = hd (ys @ [rt]) \<and> pv h (hd (ys @ [rt])) = last (rt # xs)"
  using linked_join [of h "rt # xs" "ys @ [rt]"] by (auto simp: ring_def)

lemma cut_mem: "last (rt # xs) \<in> set (rt # xs)" "hd (ys @ [rt]) \<in> set (rt # ys)"
  by (metis last_in_set list.distinct(1)) (cases ys; simp)

lemma linked_front:
  assumes "linked h (rt # xs)" "distinct (rt # xs)"
    "\<And>a. a \<in> set (rt # xs) \<Longrightarrow> a \<noteq> last (rt # xs) \<Longrightarrow> nx h' a = nx h a"
    "\<And>a. a \<in> set xs \<Longrightarrow> pv h' a = pv h a"
  shows "linked h' (rt # xs)"
proof (rule linked_cong [OF assms(1)])
  fix a assume "a \<in> set (butlast (rt # xs))"
  then have "a \<in> set (rt # xs) \<and> a \<noteq> last (rt # xs)"
    using assms(2) by (cases xs rule: rev_cases) (auto simp: butlast_append)
  then show "nx h' a = nx h a" using assms(3) by blast
qed (use assms(4) in simp)

lemma linked_back:
  assumes "linked h (ys @ [rt])" "distinct (rt # ys)"
    "\<And>a. a \<in> set ys \<Longrightarrow> nx h' a = nx h a"
    "\<And>a. a \<in> set (rt # ys) \<Longrightarrow> a \<noteq> hd (ys @ [rt]) \<Longrightarrow> pv h' a = pv h a"
  shows "linked h' (ys @ [rt])"
  using assms by (intro linked_cong [OF assms(1)]) (cases ys; auto)+

subsection \<open>The operations on rings\<close>

lemma ring_Empty: "ring h rt xs \<Longrightarrow> SpanList_Empty h rt \<longleftrightarrow> xs = []"
  by (cases xs) (auto simp: ring_def SpanList_Empty_def)

lemma ring_init: "rt \<noteq> 0 \<Longrightarrow> ring (SpanList_init rt h) rt []"
  by (simp add: ring_def SpanList_init_def)

lemma ring_Insert:
  assumes "ring h rt (xs @ ys)" "z \<notin> set (rt # xs @ ys)" "z \<noteq> 0"
  shows "ring (SpanList_Insert (hd (ys @ [rt])) z h) rt (xs @ z # ys)"
proof -
  let ?p = "last (rt # xs)" and ?q = "hd (ys @ [rt])"
  let ?h = "SpanList_Insert ?q z h"
  have r: "distinct (rt # xs @ ys)" "0 \<notin> set (rt # xs @ ys)" "linked h (rt # xs)"
    "linked h (ys @ [rt])" "nx h ?p = ?q" "pv h ?q = ?p"
    using assms(1) unfolding ring_cut by blast+
  note m = cut_mem(1) [of rt xs] cut_mem(2) [of ys rt]
  have nx': "nx ?h = (nx h)(?p := z, z := ?q)" and pv': "pv ?h = (pv h)(z := ?p, ?q := z)"
    using r(6) by (simp_all add: SpanList_Insert_def Let_def)
  have zp: "z \<noteq> ?p" "z \<noteq> ?q" using m assms(2) by auto
  have "linked ?h (rt # xs)"
    using r(1,3) m(2) assms(2) by (intro linked_front [OF r(3)]) (auto simp: nx' pv')
  moreover have "linked ?h ((z # ys) @ [rt])"
  proof -
    have "linked ?h (ys @ [rt])"
      using r(1) m(1) assms(2) by (intro linked_back [OF r(4)]) (auto simp: nx' pv')
    then show ?thesis using zp by (simp add: linked_join [of ?h "[z]", simplified] nx' pv')
  qed
  ultimately show ?thesis
    unfolding ring_cut using r(1,2) assms(2,3) zp by (simp add: nx' pv')
qed

lemma ring_PushFront:
  assumes "ring h rt xs" "z \<notin> set (rt # xs)" "z \<noteq> 0"
  shows "ring (SpanList_PushFront rt z h) rt (z # xs)"
proof -
  have "SpanList_Begin h rt = hd (xs @ [rt])"
    using assms(1) by (cases xs) (auto simp: SpanList_Begin_def ring_def)
  then show ?thesis
    using ring_Insert [of h rt "[]" xs z] assms by (simp add: SpanList_PushFront_def)
qed

lemma Span_Remove_eq_Erase:
  assumes "pv h z \<noteq> z" "nx h z \<noteq> z"
  shows "Span_Remove z h = SpanList_Erase z h"
  using assms by (simp add: Span_Remove_def SpanList_Erase_def Let_def)

lemma ring_Erase:
  assumes "ring h rt (xs @ z # ys)"
  shows "ring (SpanList_Erase z h) rt (xs @ ys)"
    "nx (SpanList_Erase z h) z = 0" "pv (SpanList_Erase z h) z = 0"
    "Span_Remove z h = SpanList_Erase z h"
proof -
  let ?p = "last (rt # xs)" and ?q = "hd (ys @ [rt])"
  let ?h = "SpanList_Erase z h"
  have r: "distinct (rt # xs @ z # ys)" "0 \<notin> set (rt # xs @ z # ys)" "linked h (rt # xs)"
    "linked h (z # ys @ [rt])" "nx h ?p = z" "pv h z = ?p"
    using assms unfolding ring_cut by simp_all
  have l: "linked h (ys @ [rt])" "nx h z = ?q" "pv h ?q = z"
    using r(4) linked_join [of h "[z]" "ys @ [rt]"] by simp_all
  note m = cut_mem(1) [of rt xs] cut_mem(2) [of ys rt]
  have zp: "z \<noteq> ?p" "z \<noteq> ?q" using m r(1) by auto
  have nx': "nx ?h = (nx h)(?p := ?q, z := 0)" and pv': "pv ?h = (pv h)(?q := ?p, z := 0)"
    using r(6) l(2) zp by (simp_all add: SpanList_Erase_def Let_def fun_upd_twist)
  have "linked ?h (rt # xs)"
    using r(1) m(2) by (intro linked_front [OF r(3)]) (auto simp: nx' pv')
  moreover have "linked ?h (ys @ [rt])"
    using r(1) m(1) by (intro linked_back [OF l(1)]) (auto simp: nx' pv')
  ultimately show "ring ?h rt (xs @ ys)"
    unfolding ring_cut using r(1,2) zp by (simp add: nx' pv')
  show "nx ?h z = 0" "pv ?h z = 0" by (simp_all add: nx' pv')
  show "Span_Remove z h = ?h" using zp r(6) l(2) by (intro Span_Remove_eq_Erase) auto
qed

lemma ring_PopFront:
  assumes "ring h rt xs"
  shows "case xs of [] \<Rightarrow> SpanList_PopFront rt h = (None, h)
    | z # ys \<Rightarrow> fst (SpanList_PopFront rt h) = Some z \<and> ring (snd (SpanList_PopFront rt h)) rt ys"
proof (cases xs)
  case Nil
  then show ?thesis using assms by (simp add: ring_def SpanList_PopFront_def SpanList_Begin_def)
next
  case (Cons z ys)
  then have "SpanList_Begin h rt = z" "z \<noteq> rt"
    using assms by (auto simp: ring_def SpanList_Begin_def)
  then show ?thesis
    using ring_Erase(1) [of h rt "[]" z ys] assms by (simp add: Cons SpanList_PopFront_def)
qed

text \<open>The two writes of each operation stay inside its own ring.\<close>

lemma SpanList_PushFront_frame:
  assumes "ring h rt xs" "a \<notin> set (rt # xs)" "a \<noteq> z"
  shows "nx (SpanList_PushFront rt z h) a = nx h a \<and> pv (SpanList_PushFront rt z h) a = pv h a"
proof -
  have "SpanList_Begin h rt = hd (xs @ [rt])"
    using assms(1) by (cases xs) (auto simp: SpanList_Begin_def ring_def)
  moreover have "pv h (hd (xs @ [rt])) = rt"
    using assms(1) ring_cut [of h rt "[]" xs] by simp
  ultimately show ?thesis
    using assms cut_mem(2) [of xs rt]
    by (auto simp: SpanList_PushFront_def SpanList_Insert_def Let_def)
qed

lemma SpanList_Erase_frame:
  assumes "ring h rt (xs @ z # ys)" "a \<notin> set (rt # xs @ z # ys)"
  shows "nx (SpanList_Erase z h) a = nx h a \<and> pv (SpanList_Erase z h) a = pv h a"
proof -
  have "pv h z \<in> set (rt # xs)" using assms(1) cut_mem(1) [of rt xs] unfolding ring_cut by simp
  moreover have "nx h z \<in> set (rt # ys)"
    using assms(1) cut_mem(2) [of ys rt] ring_cut [of h rt "xs @ [z]" ys] by simp
  ultimately show ?thesis using assms(2) by (auto simp: SpanList_Erase_def Let_def)
qed

lemma ring_move:
  assumes "ring h other xs" "rt \<notin> set (other # xs)" "rt \<noteq> 0"
  shows "ring (SpanList_move rt other h) rt xs \<and> ring (SpanList_move rt other h) other []"
proof (cases xs)
  case Nil
  then have "SpanList_Empty h other" using ring_Empty [OF assms(1)] by simp
  then show ?thesis
    using assms Nil by (auto simp: SpanList_move_def ring_def)
next
  case (Cons z ys)
  let ?h = "SpanList_move rt other h" and ?l = "last (z # ys)"
  have r: "distinct (other # z # ys)" "0 \<notin> set (other # z # ys)" "linked h (z # ys)"
    "nx h other = z" "pv h z = other" "nx h ?l = other" "pv h other = ?l"
    using assms(1) ring_cut [of h other "z # ys" "[]"] by (auto simp: Cons)
  have "\<not> SpanList_Empty h other" using ring_Empty [OF assms(1)] Cons by simp
  moreover have "?l \<noteq> other" "?l \<noteq> rt" "z \<noteq> rt" "z \<noteq> other" "rt \<noteq> other"
    using r(1) assms(2) last_in_set [of "z # ys"] by (auto simp: Cons split: if_splits)
  ultimately have e: "nx ?h = (nx h)(rt := z, ?l := rt, other := other)"
      "pv ?h = (pv h)(rt := ?l, z := rt, other := other)"
    using r by (auto simp: SpanList_move_def Let_def)
  have "linked ?h (z # ys)"
    using r(1,3) assms(2) \<open>?l \<noteq> other\<close> \<open>?l \<noteq> rt\<close>
    by (intro linked_front [OF r(3)]) (auto simp: e Cons)
  then have "ring ?h rt (z # ys)"
    using ring_cut [of ?h rt "z # ys" "[]"] r(1,2) assms(2,3) \<open>?l \<noteq> other\<close> \<open>?l \<noteq> rt\<close>
      \<open>z \<noteq> rt\<close> \<open>z \<noteq> other\<close> \<open>rt \<noteq> other\<close>
    by (auto simp: e Cons linked_join [of ?h "[rt]" "z # ys", simplified])
  then show ?thesis using r(2) \<open>?l \<noteq> other\<close> \<open>rt \<noteq> other\<close> by (simp add: Cons ring_def [of _ other] e)
qed

subsection \<open>The interface the page cache uses\<close>

locale intrusive_list =
  fixes repr :: "'h \<Rightarrow> nat \<Rightarrow> nat list \<Rightarrow> bool"
    and init :: "nat \<Rightarrow> 'h \<Rightarrow> 'h"
    and push :: "nat \<Rightarrow> nat \<Rightarrow> 'h \<Rightarrow> 'h"
    and pop :: "nat \<Rightarrow> 'h \<Rightarrow> nat option \<times> 'h"
    and unlink :: "nat \<Rightarrow> 'h \<Rightarrow> 'h"
  assumes repr_init: "rt \<noteq> 0 \<Longrightarrow> repr (init rt h) rt []"
    and repr_push: "repr h rt xs \<Longrightarrow> z \<notin> set (rt # xs) \<Longrightarrow> z \<noteq> 0 \<Longrightarrow> repr (push rt z h) rt (z # xs)"
    and repr_pop_Nil: "repr h rt [] \<Longrightarrow> pop rt h = (None, h)"
    and repr_pop_Cons: "repr h rt (z # xs) \<Longrightarrow> pop rt h = (Some z, unlink z h)"
    and repr_unlink: "repr h rt (xs @ z # ys) \<Longrightarrow> repr (unlink z h) rt (xs @ ys)"
    and push_frame: "repr h rt xs \<Longrightarrow> repr h rt' ys \<Longrightarrow> set (rt # xs) \<inter> set (rt' # ys) = {} \<Longrightarrow>
          z \<notin> set (rt' # ys) \<Longrightarrow> repr (push rt z h) rt' ys"
    and unlink_frame: "repr h rt (xs @ z # xs') \<Longrightarrow> repr h rt' ys \<Longrightarrow>
          set (rt # xs @ z # xs') \<inter> set (rt' # ys) = {} \<Longrightarrow> repr (unlink z h) rt' ys"
    and repr_distinct: "repr h rt xs \<Longrightarrow> distinct (rt # xs)"
begin

text \<open>A family of lists in one store: \<open>ls rt\<close> is what the sentinel \<open>rt\<close> holds.\<close>

definition family :: "'h \<Rightarrow> nat set \<Rightarrow> (nat \<Rightarrow> nat list) \<Rightarrow> bool" where
  "family h roots ls \<longleftrightarrow> (\<forall>rt\<in>roots. repr h rt (ls rt))
     \<and> (\<forall>rt\<in>roots. \<forall>rt'\<in>roots. rt \<noteq> rt' \<longrightarrow> set (rt # ls rt) \<inter> set (rt' # ls rt') = {})"

lemma family_push:
  assumes "family h roots ls" "rt \<in> roots" "\<And>rt'. rt' \<in> roots \<Longrightarrow> z \<notin> set (rt' # ls rt')" "z \<noteq> 0"
  shows "family (push rt z h) roots (ls(rt := z # ls rt))"
proof -
  have 1: "repr (push rt z h) rt' ((ls(rt := z # ls rt)) rt')" if "rt' \<in> roots" for rt'
  proof (cases "rt' = rt")
    case True
    then show ?thesis using assms that by (auto simp: family_def intro: repr_push)
  next
    case False
    then have "set (rt # ls rt) \<inter> set (rt' # ls rt') = {}"
      using assms(1,2) that unfolding family_def by blast
    then show ?thesis
      using assms False that push_frame [of h rt "ls rt" rt' "ls rt'" z] by (simp add: family_def)
  qed
  have 2: "set (a # (ls(rt := z # ls rt)) a) \<inter> set (b # (ls(rt := z # ls rt)) b) = {}"
    if "a \<in> roots" "b \<in> roots" "a \<noteq> b" for a b
  proof -
    have "set (a # ls a) \<inter> set (b # ls b) = {}" using assms(1) that unfolding family_def by blast
    then show ?thesis using assms(3) [of a] assms(3) [of b] that by auto
  qed
  show ?thesis unfolding family_def using 1 2 by blast
qed

text \<open>\<open>unlink\<close> is not told the list: the element leaves the one list that holds it.\<close>

lemma family_unlink:
  assumes "family h roots ls" "rt \<in> roots" "z \<in> set (ls rt)"
  shows "family (unlink z h) roots (\<lambda>r. remove1 z (ls r))"
proof -
  obtain xs ys where s: "ls rt = xs @ z # ys" using assms(3) by (meson split_list)
  have rep: "repr h rt (xs @ z # ys)" using assms(1,2) s by (auto simp: family_def)
  then have "z \<notin> set xs" using repr_distinct by fastforce
  then have r1: "remove1 z (ls rt) = xs @ ys" by (simp add: s remove1_append)
  have 1: "repr (unlink z h) r (remove1 z (ls r))" if "r \<in> roots" for r
  proof (cases "r = rt")
    case True
    then show ?thesis using repr_unlink [OF rep] r1 by simp
  next
    case False
    then have d: "set (rt # ls rt) \<inter> set (r # ls r) = {}"
      using assms(1,2) that unfolding family_def by blast
    then have "z \<notin> set (ls r)" using assms(3) by auto
    moreover have "repr (unlink z h) r (ls r)"
      using assms(1) that d s by (intro unlink_frame [OF rep]) (auto simp: family_def)
    ultimately show ?thesis by (simp add: remove1_idem)
  qed
  have sub: "set (r # remove1 z (ls r)) \<subseteq> set (r # ls r)" for r
    using set_remove1_subset by fastforce
  show ?thesis
    unfolding family_def using 1 sub assms(1) unfolding family_def by (meson disjoint_iff subsetD)
qed

lemma family_cong:
  "family h roots ls \<Longrightarrow> (\<And>r. r \<in> roots \<Longrightarrow> ls' r = ls r) \<Longrightarrow> family h roots ls'"
  by (simp add: family_def)

lemma family_pop:
  assumes "family h roots ls" "rt \<in> roots"
  shows "case ls rt of [] \<Rightarrow> pop rt h = (None, h)
    | z # zs \<Rightarrow> fst (pop rt h) = Some z \<and> family (snd (pop rt h)) roots (ls(rt := zs))"
proof (cases "ls rt")
  case Nil
  then have "repr h rt []" using assms by (metis family_def)
  then show ?thesis using repr_pop_Nil by (simp add: Nil)
next
  case (Cons z zs)
  have rep: "repr h rt (z # zs)" using assms Cons by (metis family_def)
  have "(ls(rt := zs)) r = remove1 z (ls r)" if "r \<in> roots" for r
  proof (cases "r = rt")
    case False
    then have "set (rt # ls rt) \<inter> set (r # ls r) = {}"
      using assms that unfolding family_def by blast
    then have "z \<notin> set (ls r)" by (auto simp: Cons)
    then show ?thesis using False by (simp add: remove1_idem)
  qed (simp add: Cons)
  then have "family (unlink z h) roots (ls(rt := zs))"
    using family_unlink [OF assms, of z] by (auto simp: Cons intro: family_cong)
  then show ?thesis using repr_pop_Cons [OF rep] by (simp add: Cons)
qed

end

text \<open>Commands on a family of lists, run on the store and on plain lists.\<close>

datatype list_cmd = PushFront nat nat | PopFront nat | Unlink nat

fun run_links :: "list_cmd list \<Rightarrow> links \<Rightarrow> nat option list \<times> links" where
  "run_links [] h = ([], h)"
| "run_links (PushFront rt z # cs) h = run_links cs (SpanList_PushFront rt z h)"
| "run_links (PopFront rt # cs) h =
     (let (r, h) = SpanList_PopFront rt h; (rs, h) = run_links cs h in (r # rs, h))"
| "run_links (Unlink z # cs) h = run_links cs (Span_Remove z h)"

fun run_lists :: "list_cmd list \<Rightarrow> (nat \<Rightarrow> nat list) \<Rightarrow> nat option list \<times> (nat \<Rightarrow> nat list)" where
  "run_lists [] l = ([], l)"
| "run_lists (PushFront rt z # cs) l = run_lists cs (l(rt := z # l rt))"
| "run_lists (PopFront rt # cs) l =
     (let (r, l) = (case l rt of [] \<Rightarrow> (None, l) | z # zs \<Rightarrow> (Some z, l(rt := zs)));
          (rs, l) = run_lists cs l in (r # rs, l))"
| "run_lists (Unlink z # cs) l = run_lists cs (\<lambda>rt. remove1 z (l rt))"

text \<open>What callers ensure: pushed nodes are on no list, removed nodes are on some list.\<close>

fun cmds_ok :: "nat list \<Rightarrow> list_cmd list \<Rightarrow> (nat \<Rightarrow> nat list) \<Rightarrow> bool" where
  "cmds_ok roots [] l \<longleftrightarrow> True"
| "cmds_ok roots (PushFront rt z # cs) l \<longleftrightarrow> rt \<in> set roots \<and> z \<noteq> 0
     \<and> list_all (\<lambda>r. z \<notin> set (r # l r)) roots \<and> cmds_ok roots cs (l(rt := z # l rt))"
| "cmds_ok roots (PopFront rt # cs) l \<longleftrightarrow> rt \<in> set roots \<and> cmds_ok roots cs (l(rt := tl (l rt)))"
| "cmds_ok roots (Unlink z # cs) l \<longleftrightarrow> list_ex (\<lambda>r. z \<in> set (l r)) roots
     \<and> cmds_ok roots cs (\<lambda>r. remove1 z (l r))"

interpretation span_list: intrusive_list ring SpanList_init SpanList_PushFront SpanList_PopFront Span_Remove
proof unfold_locales
  fix rt z :: nat and h :: links and xs :: "nat list"
  assume r: "ring h rt (z # xs)"
  then have "SpanList_Begin h rt = z" "z \<noteq> rt" by (auto simp: ring_def SpanList_Begin_def)
  then show "SpanList_PopFront rt h = (Some z, Span_Remove z h)"
    using ring_Erase(4) [of h rt "[]" z xs] r by (simp add: SpanList_PopFront_def)
next
  fix h rt xs rt' ys z
  assume r: "ring h rt xs" "ring h rt' ys" "set (rt # xs) \<inter> set (rt' # ys) = {}" "z \<notin> set (rt' # ys)"
  show "ring (SpanList_PushFront rt z h) rt' ys"
    by (rule ring_cong [OF r(2)], rule SpanList_PushFront_frame [OF r(1)]) (use r(3,4) in auto)
next
  fix h rt xs z xs' rt' ys
  assume r: "ring h rt (xs @ z # xs')" "ring h rt' ys" "set (rt # xs @ z # xs') \<inter> set (rt' # ys) = {}"
  show "ring (Span_Remove z h) rt' ys"
    unfolding ring_Erase(4) [OF r(1)]
    by (rule ring_cong [OF r(2)], rule SpanList_Erase_frame [OF r(1)]) (use r(3) in auto)
next
  fix h rt
  assume "ring h rt []"
  then show "SpanList_PopFront rt h = (None, h)"
    by (simp add: ring_def SpanList_PopFront_def SpanList_Begin_def)
next
  fix h rt xs z ys
  assume "ring h rt (xs @ z # ys)"
  then show "ring (Span_Remove z h) rt (xs @ ys)"
    using ring_Erase(1,4) [of h rt xs z ys] by simp
next
  fix h :: links and rt xs
  assume "ring h rt xs"
  then show "distinct (rt # xs)" by (simp add: ring_def)
qed (simp_all add: ring_init ring_PushFront)

lemma run_links_refines:
  assumes "span_list.family h (set roots) ls" "cmds_ok roots cs ls"
  shows "fst (run_links cs h) = fst (run_lists cs ls)
    \<and> span_list.family (snd (run_links cs h)) (set roots) (snd (run_lists cs ls))"
  using assms
proof (induction cs ls arbitrary: h rule: run_lists.induct)
  case (2 rt z cs l)
  then have "span_list.family (SpanList_PushFront rt z h) (set roots) (l(rt := z # l rt))"
    by (intro span_list.family_push) (auto simp: list_all_iff)
  then show ?case using 2(1) 2(3) by (simp del: fun_upd_apply)
next
  case (3 rt cs l)
  have rt: "rt \<in> set roots" and ok: "cmds_ok roots cs (l(rt := tl (l rt)))" using 3(3) by simp_all
  show ?case
  proof (cases "l rt")
    case Nil
    then have l: "l(rt := tl (l rt)) = l" by auto
    have p: "SpanList_PopFront rt h = (None, h)" using span_list.family_pop [OF 3(2) rt] by (simp add: Nil)
    have "fst (run_links cs h) = fst (run_lists cs l)
        \<and> span_list.family (snd (run_links cs h)) (set roots) (snd (run_lists cs l))"
      using 3(1) [of "(None, l)" None l h] 3(2) ok l by (simp add: Nil)
    then show ?thesis by (simp add: Nil p split_beta)
  next
    case (Cons z zs)
    obtain h' where p: "SpanList_PopFront rt h = (Some z, h')"
        "span_list.family h' (set roots) (l(rt := zs))"
      using span_list.family_pop [OF 3(2) rt] Cons
      by (cases "SpanList_PopFront rt h") auto
    have "fst (run_links cs h') = fst (run_lists cs (l(rt := zs)))
        \<and> span_list.family (snd (run_links cs h')) (set roots) (snd (run_lists cs (l(rt := zs))))"
      using 3(1) [of "(Some z, l(rt := zs))" "Some z" "l(rt := zs)" h'] p(2) ok
      by (simp add: Cons del: fun_upd_apply)
    then show ?thesis by (simp add: Cons p split_beta)
  qed
next
  case (4 z cs l)
  then obtain r where "r \<in> set roots" "z \<in> set (l r)" by (auto simp: list_ex_iff)
  then have "span_list.family (Span_Remove z h) (set roots) (\<lambda>rt. remove1 z (l rt))"
    using 4(2) by (rule span_list.family_unlink [rotated])
  then show ?case using 4(1,3) by simp
qed simp

definition span_family :: "links \<Rightarrow> nat list \<Rightarrow> (nat \<Rightarrow> nat list) \<Rightarrow> bool" where
  "span_family h roots ls \<longleftrightarrow> list_all (\<lambda>rt. ring h rt (ls rt)) roots
     \<and> (\<forall>a \<in> set roots. \<forall>b \<in> set roots. a \<noteq> b \<longrightarrow> set (a # ls a) \<inter> set (b # ls b) = {})"

lemma span_family_iff: "span_family h roots ls \<longleftrightarrow> span_list.family h (set roots) ls"
  by (simp add: span_family_def span_list.family_def list_all_iff)

text \<open>
  C11. \<open>SpanList\<close> refines lists: on any store that holds a family of disjoint rings, a sequence of
  \<open>PushFront\<close>, \<open>PopFront\<close> and \<open>Span::Remove\<close> calls returns what the same calls return on
  plain lists and leaves a store that holds the resulting lists. In particular \<open>Remove\<close>, which
  is not told the list, takes the span out of the one list that holds it and disturbs no other.
\<close>

theorem SpanList_refines:
  assumes "span_family h roots ls" "cmds_ok roots cs ls"
  shows "fst (run_links cs h) = fst (run_lists cs ls)
    \<and> span_family (snd (run_links cs h)) roots (snd (run_lists cs ls))"
  using run_links_refines [of h roots ls cs] assms by (simp add: span_family_iff)

theorem SpanList_refines_witness:
  "let h = SpanList_init 1 (SpanList_init 2 \<lparr>nx = (\<lambda>_. 0), pv = (\<lambda>_. 0)\<rparr>);
       cs = [PushFront 1 10, PushFront 1 11, PushFront 2 12, Unlink 10, PopFront 1, PopFront 1]
   in fst (run_links cs h) = [Some 11, None]
      \<and> span_family (snd (run_links cs h)) [1, 2] ((\<lambda>_. [])(1 := [], 2 := [12]))"
proof -
  define h where "h = SpanList_init 1 (SpanList_init 2 \<lparr>nx = (\<lambda>_. 0), pv = (\<lambda>_. 0)\<rparr>)"
  define cs where
    "cs = [PushFront 1 10, PushFront 1 11, PushFront 2 12, Unlink 10, PopFront 1, PopFront 1]"
  have "span_family h [1, 2] (\<lambda>_. [])"
    by (simp add: span_family_def h_def ring_def SpanList_init_def)
  moreover have "cmds_ok [1, 2] cs (\<lambda>_. [])" by (simp add: cs_def)
  moreover have "fst (run_lists cs (\<lambda>_. [])) = [Some 11, None]" by (simp add: cs_def)
  moreover have "snd (run_lists cs (\<lambda>_. [])) = (\<lambda>_. [])(1 := [], 2 := [12])"
    by (simp add: cs_def fun_eq_iff)
  ultimately show ?thesis
    using SpanList_refines [of h "[1, 2]" "\<lambda>_. []" cs] by (simp add: h_def cs_def)
qed

end
