(* ===== verification/PageMap.thy ===== *)
theory PageMap
  imports Prelude
begin

text \<open>
  The three-level radix tree of \<open>KzAlloc/PageMap.h\<close> (the 64-bit layout), from page ids to spans.
  A node pointer is an optional node, a fresh node is all null, a span pointer is an optional
  address. \<open>AllocNode\<close> asks the operating system; its answers are a list of booleans in the
  state (an exhausted list answers yes), so that every out-of-memory branch of \<open>set\<close> is
  reachable. The locale \<open>page_table\<close> is what the page cache relies on.
\<close>

definition BITS_ROOT :: nat where "BITS_ROOT = 12"
definition BITS_INTERNAL :: nat where "BITS_INTERNAL = 12"
definition BITS_LEAF :: nat where "BITS_LEAF = 11"
definition BITS_INTERNAL_AND_LEAF :: nat where "BITS_INTERNAL_AND_LEAF = BITS_LEAF + BITS_INTERNAL"
definition LEN_ROOT :: nat where "LEN_ROOT = push_bit BITS_ROOT 1"
definition LEN_INTERNAL :: nat where "LEN_INTERNAL = push_bit BITS_INTERNAL 1"
definition LEN_INTERNAL_ROUND_UP_NUM :: nat where "LEN_INTERNAL_ROUND_UP_NUM = LEN_INTERNAL - 1"
definition LEN_LEAF :: nat where "LEN_LEAF = push_bit BITS_LEAF 1"
definition LEN_LEAF_ROUND_UP_NUM :: nat where "LEN_LEAF_ROUND_UP_NUM = LEN_LEAF - 1"

lemmas radix_consts = BITS_ROOT_def BITS_INTERNAL_def BITS_LEAF_def BITS_INTERNAL_AND_LEAF_def
  LEN_ROOT_def LEN_INTERNAL_def LEN_INTERNAL_ROUND_UP_NUM_def LEN_LEAF_def LEN_LEAF_ROUND_UP_NUM_def

type_synonym leaf = "nat \<rightharpoonup> nat"
type_synonym internal = "nat \<rightharpoonup> leaf"

record page_map =
  root :: "nat \<rightharpoonup> internal"
  answers :: "bool list"

definition PageMap_get :: "page_map \<Rightarrow> nat \<Rightarrow> nat option" where
  "PageMap_get m page =
     (let iRoot = drop_bit BITS_INTERNAL_AND_LEAF page
      in if iRoot \<ge> LEN_ROOT then None
         else case root m iRoot of None \<Rightarrow> None
         | Some rootNode \<Rightarrow>
           (let iInternal = drop_bit BITS_LEAF page AND LEN_INTERNAL_ROUND_UP_NUM
            in case rootNode iInternal of None \<Rightarrow> None
               | Some leafNode \<Rightarrow> leafNode (page AND LEN_LEAF_ROUND_UP_NUM)))"

definition AllocNode :: "page_map \<Rightarrow> bool \<times> page_map" where
  "AllocNode m = (case answers m of [] \<Rightarrow> (True, m) | a # as \<Rightarrow> (a, m\<lparr>answers := as\<rparr>))"

definition EnsureRoot :: "page_map \<Rightarrow> nat \<Rightarrow> bool \<times> page_map" where
  "EnsureRoot m index =
     (if index \<ge> LEN_ROOT then (False, m)
      else case root m index of
        Some _ \<Rightarrow> (True, m)
      | None \<Rightarrow> (let (ok, m) = AllocNode m
                 in if \<not> ok then (False, m)
                    else (True, m\<lparr>root := (root m)(index \<mapsto> Map.empty)\<rparr>)))"

definition EnsureInternal :: "page_map \<Rightarrow> nat \<Rightarrow> nat \<Rightarrow> bool \<times> page_map" where
  "EnsureInternal m iRoot iInternal =
     (let rootNode = the (root m iRoot)
      in case rootNode iInternal of
        Some _ \<Rightarrow> (True, m)
      | None \<Rightarrow> (let (ok, m) = AllocNode m
                 in if \<not> ok then (False, m)
                    else (True, m\<lparr>root := (root m)(iRoot \<mapsto> rootNode(iInternal \<mapsto> Map.empty))\<rparr>)))"

definition PageMap_set :: "page_map \<Rightarrow> nat \<Rightarrow> nat option \<Rightarrow> bool \<times> page_map" where
  "PageMap_set m page span =
     (let iRoot = drop_bit BITS_INTERNAL_AND_LEAF page;
          (ok, m) = EnsureRoot m iRoot
      in if \<not> ok then (False, m)
         else let iInternal = drop_bit BITS_LEAF page AND LEN_INTERNAL_ROUND_UP_NUM;
                  (ok, m) = EnsureInternal m iRoot iInternal
              in if \<not> ok then (False, m)
                 else let iLeaf = page AND LEN_LEAF_ROUND_UP_NUM;
                          rootNode = the (root m iRoot);
                          leafNode = the (rootNode iInternal);
                          leafNode = leafNode(iLeaf := span)
                      in (True, m\<lparr>root := (root m)(iRoot \<mapsto> rootNode(iInternal \<mapsto> leafNode))\<rparr>))"

text \<open>The nodes that hold a page exist.\<close>

definition PageMap_ready :: "page_map \<Rightarrow> nat \<Rightarrow> bool" where
  "PageMap_ready m page \<longleftrightarrow>
     drop_bit BITS_INTERNAL_AND_LEAF page < LEN_ROOT \<and>
     (case root m (drop_bit BITS_INTERNAL_AND_LEAF page) of None \<Rightarrow> False
      | Some node \<Rightarrow> node (drop_bit BITS_LEAF page AND LEN_INTERNAL_ROUND_UP_NUM) \<noteq> None)"

subsection \<open>What a page table promises\<close>

locale page_table =
  fixes get :: "'m \<Rightarrow> nat \<Rightarrow> nat option"
    and set :: "'m \<Rightarrow> nat \<Rightarrow> nat option \<Rightarrow> bool \<times> 'm"
    and ready :: "'m \<Rightarrow> nat \<Rightarrow> bool"
  assumes get_set: "set m p v = (True, m') \<Longrightarrow> get m' q = (if q = p then v else get m q)"
    and get_set_failed: "set m p v = (False, m') \<Longrightarrow> get m' q = get m q"
    and set_ready: "ready m p \<Longrightarrow> fst (set m p v)"
    and ready_set: "fst (set m p v) \<Longrightarrow> ready (snd (set m p v)) p"
    and ready_mono: "ready m q \<Longrightarrow> ready (snd (set m p v)) q"
    and get_ready: "get m p = Some x \<Longrightarrow> ready m p"
begin

definition put :: "nat \<Rightarrow> nat option \<Rightarrow> 'm \<Rightarrow> 'm" where
  "put p v m = snd (set m p v)"

lemma get_put: "ready m p \<Longrightarrow> get (put p v m) q = (if q = p then v else get m q)"
  using set_ready [of m p v] get_set [of m p v "snd (set m p v)" q]
  by (cases "set m p v") (simp add: put_def)

lemma ready_put: "ready m q \<Longrightarrow> ready (put p v m) q"
  by (simp add: put_def ready_mono)

lemma ready_put_all: "ready m q \<Longrightarrow> ready (fold (\<lambda>i. put (p + i) v) is m) q"
  by (induction "is" arbitrary: m) (simp_all add: ready_put)

lemma get_put_all:
  assumes "\<And>i. i < k \<Longrightarrow> ready m (p + i)"
  shows "get (fold (\<lambda>i. put (p + i) v) [0..<k] m) q = (if p \<le> q \<and> q < p + k then v else get m q)"
  using assms
proof (induction k)
  case (Suc k)
  have "ready (fold (\<lambda>i. put (p + i) v) [0..<k] m) (p + k)"
    using Suc.prems by (intro ready_put_all) simp
  then show ?case
    using Suc by (auto simp: get_put)
qed auto

end

subsection \<open>The radix tree is a page table\<close>

definition root_of :: "nat \<Rightarrow> nat" where "root_of p = p div 2 ^ 23"
definition internal_of :: "nat \<Rightarrow> nat" where "internal_of p = p div 2 ^ 11 mod 2 ^ 12"
definition leaf_of :: "nat \<Rightarrow> nat" where "leaf_of p = p mod 2 ^ 11"

lemma radix_index:
  "drop_bit BITS_INTERNAL_AND_LEAF p = root_of p"
  "drop_bit BITS_LEAF p AND LEN_INTERNAL_ROUND_UP_NUM = internal_of p"
  "p AND LEN_LEAF_ROUND_UP_NUM = leaf_of p"
  using and_pow2_minus_1 [of "p div 2 ^ 11" 12] and_pow2_minus_1 [of p 11]
  by (simp_all add: radix_consts drop_bit_eq_div push_bit_eq_mult root_of_def internal_of_def leaf_of_def)

lemma radix_index_inj:
  "p = q \<longleftrightarrow> root_of p = root_of q \<and> internal_of p = internal_of q \<and> leaf_of p = leaf_of q"
proof -
  have "a div 2 ^ 23 = a div 2 ^ 11 div 2 ^ 12" for a :: nat
    by (simp add: div_mult2_eq [symmetric] power_add [symmetric])
  then show ?thesis unfolding root_of_def internal_of_def leaf_of_def by (metis div_mult_mod_eq)
qed

lemma PageMap_get_alt:
  "PageMap_get m p = (if LEN_ROOT \<le> root_of p then None
     else Option.bind (root m (root_of p)) (\<lambda>node.
       Option.bind (node (internal_of p)) (\<lambda>leaf. leaf (leaf_of p))))"
  by (simp add: PageMap_get_def radix_index Let_def split: option.split bind_split)

text \<open>The two growth steps change no lookup and, when they succeed, leave the node there.\<close>

lemma AllocNode_root [simp]: "root (snd (AllocNode m)) = root m"
  by (simp add: AllocNode_def split: list.split)

lemma EnsureRoot_get: "PageMap_get (snd (EnsureRoot m r)) q = PageMap_get m q"
  by (auto simp: EnsureRoot_def PageMap_get_alt AllocNode_def
      split: option.split list.split if_splits bind_splits)

lemma EnsureRoot_root:
  "fst (EnsureRoot m r) \<Longrightarrow> r < LEN_ROOT \<and> (\<exists>node. root (snd (EnsureRoot m r)) r = Some node)"
  by (auto simp: EnsureRoot_def AllocNode_def split: option.splits list.splits if_splits)

lemma EnsureInternal_get:
  "root m r = Some node \<Longrightarrow> PageMap_get (snd (EnsureInternal m r i)) q = PageMap_get m q"
  by (auto simp: EnsureInternal_def PageMap_get_alt AllocNode_def
      split: option.split list.split if_splits)

lemma EnsureInternal_root:
  "root m r = Some node \<Longrightarrow> fst (EnsureInternal m r i) \<Longrightarrow>
   \<exists>node leaf. root (snd (EnsureInternal m r i)) r = Some node \<and> node i = Some leaf"
  by (auto simp: EnsureInternal_def AllocNode_def split: option.splits list.splits if_splits)

lemma PageMap_set_success:
  assumes "PageMap_set m p v = (True, m')"
  shows "PageMap_get m' q = (if q = p then v else PageMap_get m q)" "PageMap_ready m' p"
proof -
  let ?r = "root_of p" and ?i = "internal_of p" and ?l = "leaf_of p"
  obtain ok1 m1 where e1: "EnsureRoot m ?r = (ok1, m1)" by fastforce
  obtain ok2 m2 where e2: "EnsureInternal m1 ?r ?i = (ok2, m2)" by fastforce
  have ok: "ok1" "ok2"
    using assms by (auto simp: PageMap_set_def Let_def radix_index e1 e2 split: if_splits)
  obtain n1 where r: "?r < LEN_ROOT" and n1: "root m1 ?r = Some n1"
    using EnsureRoot_root [of m ?r] e1 ok by auto
  obtain node leaf where n2: "root m2 ?r = Some node" "node ?i = Some leaf"
    using EnsureInternal_root [OF n1, of ?i] e2 ok by auto
  have m': "m' = m2\<lparr>root := (root m2)(?r \<mapsto> node(?i \<mapsto> leaf(?l := v)))\<rparr>"
    using assms by (simp add: PageMap_set_def Let_def radix_index e1 e2 ok n2)
  have "PageMap_get m' q = (if q = p then v else PageMap_get m2 q)"
    using r unfolding radix_index_inj [of q p]
    by (auto simp: m' PageMap_get_alt n2)
  moreover have "PageMap_get m2 q = PageMap_get m q"
    using EnsureInternal_get [OF n1, of ?i q] EnsureRoot_get [of m ?r q] by (simp add: e1 e2)
  ultimately show "PageMap_get m' q = (if q = p then v else PageMap_get m q)" by simp
  show "PageMap_ready m' p" using r by (simp add: PageMap_ready_def radix_index m')
qed

lemma PageMap_set_failed:
  assumes "PageMap_set m p v = (False, m')"
  shows "PageMap_get m' q = PageMap_get m q"
proof -
  let ?r = "root_of p" and ?i = "internal_of p"
  obtain ok1 m1 where e1: "EnsureRoot m ?r = (ok1, m1)" by fastforce
  obtain ok2 m2 where e2: "EnsureInternal m1 ?r ?i = (ok2, m2)" by fastforce
  have g1: "PageMap_get m1 q = PageMap_get m q" using EnsureRoot_get [of m ?r q] by (simp add: e1)
  show ?thesis
  proof (cases ok1)
    case True
    then obtain n1 where n1: "root m1 ?r = Some n1" using EnsureRoot_root [of m ?r] e1 by auto
    have "m' = m2"
      using assms True by (auto simp: PageMap_set_def Let_def radix_index e1 e2 split: if_splits)
    then show ?thesis using EnsureInternal_get [OF n1, of ?i q] g1 by (simp add: e2)
  next
    case False
    then have "m' = m1" using assms by (auto simp: PageMap_set_def Let_def radix_index e1)
    then show ?thesis using g1 by simp
  qed
qed

lemma PageMap_ready_alt:
  "PageMap_ready m p \<longleftrightarrow> root_of p < LEN_ROOT
     \<and> (\<exists>node leaf. root m (root_of p) = Some node \<and> node (internal_of p) = Some leaf)"
  by (auto simp: PageMap_ready_def radix_index split: option.split)

lemma PageMap_set_ready: "PageMap_ready m p \<Longrightarrow> fst (PageMap_set m p v)"
  by (auto simp: PageMap_ready_alt PageMap_set_def Let_def radix_index EnsureRoot_def EnsureInternal_def)

text \<open>No operation removes a node.\<close>

definition nodes_kept :: "page_map \<Rightarrow> page_map \<Rightarrow> bool" where
  "nodes_kept m m' \<longleftrightarrow> (\<forall>r node. root m r = Some node \<longrightarrow>
     (\<exists>node'. root m' r = Some node' \<and> dom node \<subseteq> dom node'))"

lemma nodes_kept_ready: "nodes_kept m m' \<Longrightarrow> PageMap_ready m q \<Longrightarrow> PageMap_ready m' q"
  by (fastforce simp: nodes_kept_def PageMap_ready_alt dom_def)

lemma nodes_kept_trans: "nodes_kept a b \<Longrightarrow> nodes_kept b c \<Longrightarrow> nodes_kept a c"
  unfolding nodes_kept_def by (meson order_trans)

lemma nodes_kept_refl: "nodes_kept m m"
  by (simp add: nodes_kept_def)

lemma nodes_kept_EnsureRoot: "nodes_kept m (snd (EnsureRoot m r))"
  by (auto simp: EnsureRoot_def nodes_kept_def AllocNode_def split: option.split list.split)

lemma nodes_kept_EnsureInternal: "root m r = Some node \<Longrightarrow> nodes_kept m (snd (EnsureInternal m r i))"
  by (auto simp: EnsureInternal_def nodes_kept_def AllocNode_def split: option.split list.split)

lemma nodes_kept_set: "nodes_kept m (snd (PageMap_set m p v))"
proof -
  let ?r = "root_of p" and ?i = "internal_of p" and ?l = "leaf_of p"
  obtain ok1 m1 where e1: "EnsureRoot m ?r = (ok1, m1)" by fastforce
  obtain ok2 m2 where e2: "EnsureInternal m1 ?r ?i = (ok2, m2)" by fastforce
  have k1: "nodes_kept m m1" using nodes_kept_EnsureRoot [of m ?r] by (simp add: e1)
  show ?thesis
  proof (cases ok1)
    case True
    then obtain n1 where n1: "root m1 ?r = Some n1" using EnsureRoot_root [of m ?r] e1 by auto
    have k2: "nodes_kept m1 m2" using nodes_kept_EnsureInternal [OF n1, of ?i] by (simp add: e2)
    have "nodes_kept m2 (m2\<lparr>root := (root m2)(?r \<mapsto> node(?i \<mapsto> l))\<rparr>)"
      if "root m2 ?r = Some node" for node l
      using that by (auto simp: nodes_kept_def)
    moreover obtain n2 where "root m2 ?r = Some n2" using k2 n1 unfolding nodes_kept_def by blast
    ultimately have "nodes_kept m2 (snd (PageMap_set m p v))"
      using True by (auto simp: PageMap_set_def Let_def radix_index e1 e2 nodes_kept_refl)
    then show ?thesis using k1 k2 nodes_kept_trans by blast
  next
    case False
    then show ?thesis using k1 by (simp add: PageMap_set_def Let_def radix_index e1)
  qed
qed

interpretation radix: page_table PageMap_get PageMap_set PageMap_ready
proof unfold_locales
  fix m p v
  show "fst (PageMap_set m p v) \<Longrightarrow> PageMap_ready (snd (PageMap_set m p v)) p"
    using PageMap_set_success(2) [of m p v] by (cases "PageMap_set m p v") auto
  show "PageMap_ready m q \<Longrightarrow> PageMap_ready (snd (PageMap_set m p v)) q" for q
    using nodes_kept_ready nodes_kept_set by blast
  show "PageMap_ready m p \<Longrightarrow> fst (PageMap_set m p v)" by (rule PageMap_set_ready)
  show "PageMap_get m p = Some x \<Longrightarrow> PageMap_ready m p" for x
    by (auto simp: PageMap_get_alt PageMap_ready_alt split: if_splits bind_splits)
qed (simp_all add: PageMap_set_success PageMap_set_failed)

lemma root_of_less: "root_of p < LEN_ROOT \<longleftrightarrow> p < 2 ^ 35"
proof -
  have "LEN_ROOT = 2 ^ 12" by (simp add: radix_consts push_bit_eq_mult)
  then have "root_of p < LEN_ROOT \<longleftrightarrow> p < 2 ^ 12 * 2 ^ 23"
    by (simp only: root_of_def div_less_iff_less_mult zero_less_power zero_less_numeral)
  then show ?thesis by simp
qed

lemma PageMap_set_answers:
  assumes "p < 2 ^ 35" "answers m = []"
  shows "fst (PageMap_set m p v)"
  using assms root_of_less [of p]
  by (auto simp: PageMap_set_def Let_def radix_index EnsureRoot_def EnsureInternal_def AllocNode_def
      split: option.split)

lemma PageMap_set_large: "2 ^ 35 \<le> p \<Longrightarrow> PageMap_set m p v = (False, m)"
  using root_of_less [of p] by (simp add: PageMap_set_def radix_index EnsureRoot_def not_less)

lemma PageMap_get_large: "2 ^ 35 \<le> p \<Longrightarrow> PageMap_get m p = None"
  using root_of_less [of p] by (simp add: PageMap_get_alt not_less)

lemma PageMap_get_less: "PageMap_get m p = Some x \<Longrightarrow> p < 2 ^ 35"
  using PageMap_get_large [of p m] by (cases "p < 2 ^ 35") auto

text \<open>Nearby pages share their nodes: the end pages of a short range make the whole range ready.\<close>

lemma PageMap_ready_between:
  assumes "PageMap_ready m p" "PageMap_ready m q" "p \<le> r" "r \<le> q" "q - p < 2 ^ 11"
  shows "PageMap_ready m r"
proof -
  have "r div 2 ^ 11 = p div 2 ^ 11 \<or> r div 2 ^ 11 = q div 2 ^ 11"
  proof -
    have "q \<le> p + 2 ^ 11" using assms(5) by linarith
    then have "q div 2 ^ 11 \<le> (p + 2 ^ 11) div 2 ^ 11" by (rule div_le_mono)
    then have "q div 2 ^ 11 \<le> p div 2 ^ 11 + 1" by simp
    moreover have "p div 2 ^ 11 \<le> r div 2 ^ 11" "r div 2 ^ 11 \<le> q div 2 ^ 11"
      using assms(3,4) by (simp_all only: div_le_mono)
    ultimately show ?thesis by linarith
  qed
  moreover have "root_of a = root_of b \<and> internal_of a = internal_of b"
    if "a div 2 ^ 11 = b div 2 ^ 11" for a b :: nat
  proof -
    have "x div 2 ^ 23 = x div 2 ^ 11 div 2 ^ 12" for x :: nat
      by (simp add: div_mult2_eq [symmetric] power_add [symmetric])
    then show ?thesis using that by (simp only: root_of_def internal_of_def)
  qed
  ultimately show ?thesis using assms(1,2) unfolding PageMap_ready_alt by metis
qed

text \<open>
  C12. A \<open>PageMap::set\<close> that returns true changes the lookup of exactly its page, one that
  returns false changes no lookup; page ids from \<open>2^35\<close> on are refused and look up null, and
  below that bound \<open>set\<close> fails only when the system refuses a node.
\<close>

theorem PageMap_set_get:
  "case PageMap_set m p v of (ok, m') \<Rightarrow>
     PageMap_get m' q = (if ok \<and> q = p then v else PageMap_get m q)
     \<and> (2 ^ 35 \<le> p \<longrightarrow> \<not> ok \<and> PageMap_get m p = None)
     \<and> (p < 2 ^ 35 \<and> answers m = [] \<longrightarrow> ok)"
proof (cases "PageMap_set m p v")
  case (Pair ok m')
  then show ?thesis
    using radix.get_set [of m p v m' q] radix.get_set_failed [of m p v m' q]
      PageMap_set_answers [of p m v] PageMap_set_large [of p m v] PageMap_get_large [of p m]
    by (cases ok) auto
qed

theorem PageMap_set_get_witness:
  "PageMap_get (snd (PageMap_set \<lparr>root = Map.empty, answers = []\<rparr> 5000000 (Some 7))) 5000000 = Some 7
   \<and> \<not> fst (PageMap_set \<lparr>root = Map.empty, answers = []\<rparr> (2 ^ 35) (Some 7))"
  using PageMap_set_get [where m = "\<lparr>root = Map.empty, answers = []\<rparr>" and p = 5000000
      and v = "Some 7" and q = 5000000]
    PageMap_set_get [where m = "\<lparr>root = Map.empty, answers = []\<rparr>" and p = "2 ^ 35" and v = "Some 7"]
  by (simp add: split_beta)

end
