(* ===== verification/PageCache.thy ===== *)
theory PageCache
  imports PageMap SizeClasses "HOL-Library.Finite_Map"
begin

text \<open>
  One shard of the page cache (\<open>KzAlloc/PageCache.h\<close>, \<open>KzAlloc/PageCache.cpp\<close>) and the system
  allocation of \<open>KzAlloc/Common.h\<close>. Spans live in a finite map from span addresses; the span
  lists are lists of span addresses (justified by the refinement of \<open>SpanList\<close> on a store),
  \<open>std::map\<close> is an association list in key order. Reading a span that does not exist is
  undefined behaviour and makes the operation return \<open>None\<close>. The operating system is the
  parameter \<open>mmap\<close>: what \<open>mmap\<close> answers to a request of that many bytes. An operation is a function from
  state to state: the time in which \<open>NewSpan\<close> has given up the mutex of the shard around \<open>SystemAlloc\<close>, and changes of
  neighbouring spans of other shards while \<open>ReleaseSpan\<close> looks at them, are not modelled.
\<close>

definition NPAGES :: nat where "NPAGES = 129"

record span =
  pageId :: nat
  npages :: nat
  objSize :: nat
  useCount :: nat
  freeList :: nat
  isUse :: bool
  isCold :: bool
  shardId :: nat

definition new_span :: span where
  "new_span = \<lparr>pageId = 0, npages = 0, objSize = 0, useCount = 0, freeList = 0,
     isUse = False, isCold = False, shardId = 0\<rparr>"

type_synonym large_map = "(nat \<times> nat list) list"

record shard =
  spanLists :: "nat \<Rightarrow> nat list"
  largeSpanLists :: large_map
  releasedSpanLists :: "nat \<Rightarrow> nat list"
  releasedLargeSpanLists :: large_map
  poolFree :: "nat list"
  totalFreePages :: nat
  releaseThreshold :: nat
  shId :: nat

record heap =
  spans :: "(nat, span) fmap"
  pmap :: page_map
  shards :: "nat \<Rightarrow> shard"
  nextSpan :: nat

definition upd_shard :: "nat \<Rightarrow> (shard \<Rightarrow> shard) \<Rightarrow> heap \<Rightarrow> heap" where
  "upd_shard i f h = h\<lparr>shards := (shards h)(i := f (shards h i))\<rparr>"

definition upd_span :: "nat \<Rightarrow> span \<Rightarrow> heap \<Rightarrow> heap" where
  "upd_span x s h = h\<lparr>spans := fmupd x s (spans h)\<rparr>"

subsection \<open>System memory\<close>

text \<open>
  \<open>SystemAlloc\<close> reserves one page more than asked, keeps an aligned part and returns the rest.
  The result is the aligned address with the ranges handed to \<open>munmap\<close>.
\<close>

definition SystemAlloc :: "(nat \<Rightarrow> nat option) \<Rightarrow> nat \<Rightarrow> (nat \<times> (nat \<times> nat) list) option" where
  "SystemAlloc mmap kpage =
     (let sz = push_bit PAGE_SHIFT kpage mod W64;
          reserve_size = wadd sz PAGE_SIZE
      in case mmap reserve_size of
           None \<Rightarrow> None
         | Some raw_addr \<Rightarrow>
           (let aligned_addr = wadd raw_addr PAGE_ROUND_UP_NUM AND PAGE_ROUND_UP_NUM_NEGATE;
                prefix_len = wsub aligned_addr raw_addr;
                suffix_len = wsub (wsub reserve_size sz) prefix_len
            in Some (aligned_addr,
                 (if prefix_len > 0 then [(raw_addr, prefix_len)] else [])
                 @ (if suffix_len > 0 then [(wadd aligned_addr sz, suffix_len)] else []))))"

subsection \<open>The ordered map of large spans\<close>

fun large_push :: "nat \<Rightarrow> nat \<Rightarrow> large_map \<Rightarrow> large_map" where
  "large_push k x [] = [(k, [x])]"
| "large_push k x ((k', l) # m) =
     (if k = k' then (k', x # l) # m
      else if k < k' then (k, [x]) # (k', l) # m
      else (k', l) # large_push k x m)"

fun large_lower_bound :: "nat \<Rightarrow> large_map \<Rightarrow> (nat \<times> nat list) option" where
  "large_lower_bound k [] = None"
| "large_lower_bound k ((k', l) # m) = (if k \<le> k' then Some (k', l) else large_lower_bound k m)"

definition large_erase :: "nat \<Rightarrow> large_map \<Rightarrow> large_map" where
  "large_erase k m = filter (\<lambda>e. fst e \<noteq> k) m"

definition large_set :: "nat \<Rightarrow> nat list \<Rightarrow> large_map \<Rightarrow> large_map" where
  "large_set k l m = map (\<lambda>e. if fst e = k then (k, l) else e) m"

definition large_get :: "large_map \<Rightarrow> nat \<Rightarrow> nat list" where
  "large_get m k = (case map_of m k of None \<Rightarrow> [] | Some l \<Rightarrow> l)"

subsection \<open>The span pool and the page map\<close>

definition pool_New :: "nat \<Rightarrow> heap \<Rightarrow> nat \<times> heap" where
  "pool_New i h =
     (case poolFree (shards h i) of
        y # ys \<Rightarrow> (y, upd_span y new_span (upd_shard i (\<lambda>sh. sh\<lparr>poolFree := ys\<rparr>) h))
      | [] \<Rightarrow> (nextSpan h, upd_span (nextSpan h) new_span h\<lparr>nextSpan := Suc (nextSpan h)\<rparr>))"

definition pool_Delete :: "nat \<Rightarrow> nat \<Rightarrow> heap \<Rightarrow> heap" where
  "pool_Delete i x h =
     upd_shard i (\<lambda>sh. sh\<lparr>poolFree := x # poolFree sh\<rparr>) h\<lparr>spans := fmdrop x (spans h)\<rparr>"

definition map_page :: "nat \<Rightarrow> nat option \<Rightarrow> heap \<Rightarrow> heap" where
  "map_page p v h = h\<lparr>pmap := snd (PageMap_set (pmap h) p v)\<rparr>"

definition map_pages :: "nat \<Rightarrow> nat \<Rightarrow> nat option \<Rightarrow> heap \<Rightarrow> heap" where
  "map_pages p k v h = fold (\<lambda>i. map_page (p + i) v) [0..<k] h"

definition map_ends :: "nat \<Rightarrow> nat \<Rightarrow> nat \<Rightarrow> heap \<Rightarrow> heap" where
  "map_ends p k x h = map_page (p + k - 1) (Some x) (map_page p (Some x) h)"

subsection \<open>Lists of a shard\<close>

definition push_hot_list :: "nat \<Rightarrow> nat \<Rightarrow> nat \<Rightarrow> heap \<Rightarrow> heap" where
  "push_hot_list i n x = upd_shard i (\<lambda>sh. sh\<lparr>spanLists := (spanLists sh)(n := x # spanLists sh n)\<rparr>)"

definition push_hot :: "nat \<Rightarrow> nat \<Rightarrow> nat \<Rightarrow> heap \<Rightarrow> heap" where
  "push_hot i n x h =
     (if n < NPAGES then push_hot_list i n x h
      else upd_shard i (\<lambda>sh. sh\<lparr>largeSpanLists := large_push n x (largeSpanLists sh)\<rparr>) h)"

definition push_cold_list :: "nat \<Rightarrow> nat \<Rightarrow> nat \<Rightarrow> heap \<Rightarrow> heap" where
  "push_cold_list i n x =
     upd_shard i (\<lambda>sh. sh\<lparr>releasedSpanLists := (releasedSpanLists sh)(n := x # releasedSpanLists sh n)\<rparr>)"

definition push_cold :: "nat \<Rightarrow> nat \<Rightarrow> nat \<Rightarrow> heap \<Rightarrow> heap" where
  "push_cold i n x h =
     (if n < NPAGES then push_cold_list i n x h
      else upd_shard i (\<lambda>sh. sh\<lparr>releasedLargeSpanLists := large_push n x (releasedLargeSpanLists sh)\<rparr>) h)"

definition add_free :: "nat \<Rightarrow> nat \<Rightarrow> heap \<Rightarrow> heap" where
  "add_free i n = upd_shard i (\<lambda>sh. sh\<lparr>totalFreePages := totalFreePages sh + n\<rparr>)"

definition sub_free :: "nat \<Rightarrow> nat \<Rightarrow> heap \<Rightarrow> heap" where
  "sub_free i n = upd_shard i (\<lambda>sh. sh\<lparr>totalFreePages := totalFreePages sh - n\<rparr>)"

text \<open>\<open>Span::Remove\<close>: the span leaves whichever list holds it.\<close>

definition unlink_shard :: "nat \<Rightarrow> shard \<Rightarrow> shard" where
  "unlink_shard x sh = sh\<lparr>
     spanLists := (\<lambda>n. remove1 x (spanLists sh n)),
     largeSpanLists := map (\<lambda>(n, l). (n, remove1 x l)) (largeSpanLists sh),
     releasedSpanLists := (\<lambda>n. remove1 x (releasedSpanLists sh n)),
     releasedLargeSpanLists := map (\<lambda>(n, l). (n, remove1 x l)) (releasedLargeSpanLists sh)\<rparr>"

definition unlink_span :: "nat \<Rightarrow> heap \<Rightarrow> heap" where
  "unlink_span x h = h\<lparr>shards := (\<lambda>i. unlink_shard x (shards h i))\<rparr>"

subsection \<open>Taking a span off a list\<close>

text \<open>
  The second half of the three allocation functions: a new span object takes over the pages
  above the first \<open>k\<close>. The objects of \<open>ObjectPool::New\<close> are never null, so the branches that
  put the span back are dead.
\<close>

definition split_span :: "nat \<Rightarrow> nat \<Rightarrow> span \<Rightarrow> nat \<Rightarrow> bool \<Rightarrow> heap \<Rightarrow> nat \<times> heap" where
  "split_span i x s k cold h =
     (let (y, h) = pool_New i h;
          h = upd_span y (new_span\<lparr>pageId := pageId s + k, npages := npages s - k,
                isCold := cold, shardId := shId (shards h i)\<rparr>) h
      in (y, upd_span x (s\<lparr>npages := k\<rparr>) h))"

definition finish_alloc :: "nat \<Rightarrow> nat \<Rightarrow> heap \<Rightarrow> (nat \<times> heap) option" where
  "finish_alloc x k h =
     (case fmlookup (spans h) x of None \<Rightarrow> None
      | Some s \<Rightarrow> Some (x, upd_span x (s\<lparr>isUse := True, isCold := False\<rparr>)
                            (map_pages (pageId s) k (Some x) h)))"

definition AllocFromHotList :: "nat \<Rightarrow> nat \<Rightarrow> nat \<Rightarrow> heap \<Rightarrow> (nat \<times> heap) option" where
  "AllocFromHotList i n k h =
     (case spanLists (shards h i) n of [] \<Rightarrow> None
      | x # rest \<Rightarrow>
        (case fmlookup (spans h) x of None \<Rightarrow> None
         | Some s \<Rightarrow>
           (let h = upd_shard i (\<lambda>sh. sh\<lparr>spanLists := (spanLists sh)(n := rest)\<rparr>) h;
                h = sub_free i (npages s) h;
                h = (if npages s > k
                     then let (y, h) = split_span i x s k False h;
                              h = push_hot_list i (npages s - k) y h;
                              h = add_free i (npages s - k) h
                          in map_ends (pageId s + k) (npages s - k) y h
                     else h)
            in finish_alloc x k h)))"

definition AllocFromColdList :: "nat \<Rightarrow> nat \<Rightarrow> nat \<Rightarrow> heap \<Rightarrow> (nat \<times> heap) option" where
  "AllocFromColdList i n k h =
     (case releasedSpanLists (shards h i) n of [] \<Rightarrow> None
      | x # rest \<Rightarrow>
        (case fmlookup (spans h) x of None \<Rightarrow> None
         | Some s \<Rightarrow>
           (let h = upd_shard i (\<lambda>sh. sh\<lparr>releasedSpanLists := (releasedSpanLists sh)(n := rest)\<rparr>) h;
                h = (if npages s > k
                     then let (y, h) = split_span i x s k True h;
                              h = push_cold_list i (npages s - k) y h
                          in map_ends (pageId s + k) (npages s - k) y h
                     else h)
            in finish_alloc x k h)))"

definition large_of :: "bool \<Rightarrow> shard \<Rightarrow> large_map" where
  "large_of cold sh = (if cold then releasedLargeSpanLists sh else largeSpanLists sh)"

definition upd_large :: "bool \<Rightarrow> nat \<Rightarrow> (large_map \<Rightarrow> large_map) \<Rightarrow> heap \<Rightarrow> heap" where
  "upd_large cold i f =
     upd_shard i (\<lambda>sh. if cold then sh\<lparr>releasedLargeSpanLists := f (releasedLargeSpanLists sh)\<rparr>
                      else sh\<lparr>largeSpanLists := f (largeSpanLists sh)\<rparr>)"

definition AllocFromMap :: "nat \<Rightarrow> bool \<Rightarrow> nat \<Rightarrow> nat \<Rightarrow> heap \<Rightarrow> (nat \<times> heap) option" where
  "AllocFromMap i cold key k h =
     (case large_get (large_of cold (shards h i)) key of [] \<Rightarrow> None
      | x # rest \<Rightarrow>
        (case fmlookup (spans h) x of None \<Rightarrow> None
         | Some s \<Rightarrow>
           (let h = upd_large cold i (large_set key rest) h;
                h = (if cold then h else sub_free i (npages s) h);
                h = (if npages s > k
                     then let (y, h) = split_span i x s k cold h;
                              h = (if cold then push_cold i (npages s - k) y h
                                   else add_free i (npages s - k) (push_hot i (npages s - k) y h))
                          in map_ends (pageId s + k) (npages s - k) y h
                     else h)
            in case finish_alloc x k h of None \<Rightarrow> None
               | Some (x, h) \<Rightarrow>
                 Some (x, if large_get (large_of cold (shards h i)) key = []
                          then upd_large cold i (large_erase key) h else h))))"

subsection \<open>NewSpan\<close>

text \<open>Mapping every page of a fresh large span: the count mapped and whether all \<open>set\<close>s succeeded.\<close>

fun map_loop :: "nat \<Rightarrow> nat \<Rightarrow> nat \<Rightarrow> nat \<Rightarrow> page_map \<Rightarrow> nat \<times> bool \<times> page_map" where
  "map_loop p x n 0 m = (n, True, m)"
| "map_loop p x n (Suc left) m =
     (let (ok, m) = PageMap_set m (p + n) (Some x)
      in if ok then map_loop p x (Suc n) left m else (n, False, m))"

text \<open>The transactional mapping of a fresh span: all pages of a large one, the ends of a small one.\<close>

definition map_new :: "nat \<Rightarrow> nat \<Rightarrow> nat \<Rightarrow> nat \<Rightarrow> page_map \<Rightarrow> nat \<times> bool \<times> page_map" where
  "map_new k p x alloc_pages m =
     (if k \<ge> NPAGES then map_loop p x 0 alloc_pages m
      else let (ok, m) = PageMap_set m p (Some x)
           in if \<not> ok then (0, False, m)
              else let (ok, m) = PageMap_set m (p + alloc_pages - 1) (Some x)
                   in if \<not> ok then (1, False, m) else (2, True, m))"

definition unmap_new :: "nat \<Rightarrow> nat \<Rightarrow> nat \<Rightarrow> heap \<Rightarrow> heap" where
  "unmap_new k p mapped_count h =
     (if k \<ge> NPAGES then map_pages p mapped_count None h
      else if mapped_count \<ge> 1 then map_page p None h else h)"

text \<open>Phase 3 after \<open>SystemAlloc\<close> has answered: the new span, and whether the mapping succeeded.\<close>

definition commit_span :: "nat \<Rightarrow> nat \<Rightarrow> nat \<Rightarrow> nat \<Rightarrow> heap \<Rightarrow> nat \<times> bool \<times> heap" where
  "commit_span i k ptr alloc_pages h =
     (let (x, h) = pool_New i h;
          p = drop_bit PAGE_SHIFT ptr;
          s = new_span\<lparr>pageId := p, npages := alloc_pages, isCold := False,
                shardId := shId (shards h i)\<rparr>;
          h = upd_span x s h;
          (mapped_count, success, m) = map_new k p x alloc_pages (pmap h);
          h = h\<lparr>pmap := m\<rparr>
      in if \<not> success then (x, False, pool_Delete i x (unmap_new k p mapped_count h))
         else if k \<ge> NPAGES then (x, True, upd_span x (s\<lparr>isUse := True\<rparr>) h)
         else (x, True, add_free i alloc_pages (push_hot_list i alloc_pages x h)))"

datatype iteration = Return "nat option" heap | Continue heap

definition returning :: "(nat \<times> heap) option \<Rightarrow> iteration option" where
  "returning r = map_option (\<lambda>(x, h). Return (Some x) h) r"

text \<open>One round of the \<open>while (true)\<close> of \<open>NewSpan\<close>.\<close>

definition NewSpan_iter :: "(nat \<Rightarrow> nat option) \<Rightarrow> nat \<Rightarrow> nat \<Rightarrow> heap \<Rightarrow> iteration option" where
  "NewSpan_iter mmap i k h =
     (let sh = shards h i;
          hot = (if k < NPAGES then List.find (\<lambda>n. spanLists sh n \<noteq> []) (k # [k + 1..<NPAGES]) else None)
      in case hot of Some n \<Rightarrow> returning (AllocFromHotList i n k h)
      | None \<Rightarrow>
        (case large_lower_bound k (largeSpanLists sh) of
           Some (key, []) \<Rightarrow> Some (Continue (upd_large False i (large_erase key) h))
         | Some (key, _ # _) \<Rightarrow> returning (AllocFromMap i False key k h)
         | None \<Rightarrow>
           (let cold = (if k < NPAGES then List.find (\<lambda>n. releasedSpanLists sh n \<noteq> []) (k # [k + 1..<NPAGES])
                        else None)
            in case cold of Some n \<Rightarrow> returning (AllocFromColdList i n k h)
            | None \<Rightarrow>
              (case large_lower_bound k (releasedLargeSpanLists sh) of
                 Some (key, []) \<Rightarrow> Some (Continue (upd_large True i (large_erase key) h))
               | Some (key, _ # _) \<Rightarrow> returning (AllocFromMap i True key k h)
               | None \<Rightarrow>
                 (let alloc_pages = (if k \<ge> NPAGES then k else NPAGES - 1)
                  in case SystemAlloc mmap alloc_pages of
                       None \<Rightarrow> Some (Return None h)
                     | Some (ptr, _) \<Rightarrow>
                       (let (x, ok, h) = commit_span i k ptr alloc_pages h
                        in if \<not> ok then Some (Return None h)
                           else if k \<ge> NPAGES then Some (Return (Some x) h)
                           else Some (Continue h)))))))"

text \<open>\<open>None\<close> stands for undefined behaviour or exhausted fuel; theorems exclude both.\<close>

fun NewSpan :: "nat \<Rightarrow> (nat \<Rightarrow> nat option) \<Rightarrow> nat \<Rightarrow> nat \<Rightarrow> heap \<Rightarrow> (nat option \<times> heap) option" where
  "NewSpan 0 mmap i k h = None"
| "NewSpan (Suc fuel) mmap i k h =
     (case NewSpan_iter mmap i k h of None \<Rightarrow> None
      | Some (Return r h) \<Rightarrow> Some (r, h)
      | Some (Continue h) \<Rightarrow> NewSpan fuel mmap i k h)"

subsection \<open>ReleaseSpan\<close>

definition absorb_left :: "nat \<Rightarrow> nat \<Rightarrow> span \<Rightarrow> nat \<Rightarrow> span \<Rightarrow> heap \<Rightarrow> heap" where
  "absorb_left i x s y t h =
     (let h = unlink_span y h;
          h = (if \<not> isCold t then sub_free i (npages t) h else h);
          h = upd_span x (s\<lparr>pageId := pageId t, npages := npages s + npages t\<rparr>) h
      in pool_Delete i y h)"

definition absorb_right :: "nat \<Rightarrow> nat \<Rightarrow> span \<Rightarrow> nat \<Rightarrow> span \<Rightarrow> heap \<Rightarrow> heap" where
  "absorb_right i x s y t h =
     (let h = unlink_span y h;
          h = (if \<not> isCold t then sub_free i (npages t) h else h);
          h = upd_span x (s\<lparr>npages := npages s + npages t\<rparr>) h
      in pool_Delete i y h)"

lemma spans_upd_shard [simp]: "spans (upd_shard i f h) = spans h"
  by (simp add: upd_shard_def)

lemma spans_absorb:
  "spans (absorb_left i x s y t h)
     = fmdrop y (fmupd x (s\<lparr>pageId := pageId t, npages := npages s + npages t\<rparr>) (spans h))"
  "spans (absorb_right i x s y t h) = fmdrop y (fmupd x (s\<lparr>npages := npages s + npages t\<rparr>) (spans h))"
  by (simp_all add: absorb_left_def absorb_right_def Let_def pool_Delete_def upd_span_def
      unlink_span_def sub_free_def upd_shard_def)

lemma fcard_absorb:
  assumes "fmlookup m x = Some s" "fmlookup m y = Some t"
  shows "fcard (finsert x (fmdom m) |-| {|y|}) < fcard (fmdom m)"
proof -
  have "finsert x (fmdom m) = fmdom m" using assms(1) by (meson finsert_absorb fmdomI)
  moreover have "y |\<in>| fmdom m" using assms(2) by (rule fmdomI)
  ultimately show ?thesis by (metis fcard_fminus1_less)
qed

function merge_left :: "nat \<Rightarrow> nat \<Rightarrow> heap \<Rightarrow> heap option" where
  "merge_left i x h =
     (case fmlookup (spans h) x of None \<Rightarrow> None
      | Some s \<Rightarrow>
        (case PageMap_get (pmap h) (wsub (pageId s) 1) of None \<Rightarrow> Some h
         | Some y \<Rightarrow>
           (case fmlookup (spans h) y of None \<Rightarrow> None
            | Some t \<Rightarrow> if isUse t \<or> shardId t \<noteq> shId (shards h i) then Some h
                        else merge_left i x (absorb_left i x s y t h))))"
  by pat_completeness auto
termination
  by (relation "measure (\<lambda>(i, x, h). fcard (fmdom (spans h)))") (simp_all add: spans_absorb fcard_absorb)

function merge_right :: "nat \<Rightarrow> nat \<Rightarrow> heap \<Rightarrow> heap option" where
  "merge_right i x h =
     (case fmlookup (spans h) x of None \<Rightarrow> None
      | Some s \<Rightarrow>
        (case PageMap_get (pmap h) (wadd (pageId s) (npages s)) of None \<Rightarrow> Some h
         | Some y \<Rightarrow>
           (case fmlookup (spans h) y of None \<Rightarrow> None
            | Some t \<Rightarrow> if isUse t \<or> shardId t \<noteq> shId (shards h i) then Some h
                        else merge_right i x (absorb_right i x s y t h))))"
  by pat_completeness auto
termination
  by (relation "measure (\<lambda>(i, x, h). fcard (fmdom (spans h)))") (simp_all add: spans_absorb fcard_absorb)

declare merge_left.simps [simp del] merge_right.simps [simp del]

subsection \<open>Returning memory to the system\<close>

definition ReleaseSpanToCold :: "nat \<Rightarrow> nat \<Rightarrow> span \<Rightarrow> heap \<Rightarrow> heap" where
  "ReleaseSpanToCold i x s h =
     push_cold i (npages s) x (upd_span x (s\<lparr>isCold := True\<rparr>) (sub_free i (npages s) h))"

definition pop_hot_list :: "nat \<Rightarrow> nat \<Rightarrow> heap \<Rightarrow> heap" where
  "pop_hot_list i n = upd_shard i (\<lambda>sh. sh\<lparr>spanLists := (spanLists sh)(n := tl (spanLists sh n))\<rparr>)"

definition above_threshold :: "nat \<Rightarrow> heap \<Rightarrow> bool" where
  "above_threshold i h \<longleftrightarrow> totalFreePages (shards h i) > releaseThreshold (shards h i)"

text \<open>The first loop of \<open>ReleaseSomeSpansToSystem\<close>: largest spans first.\<close>

definition large_weight :: "large_map \<Rightarrow> nat" where
  "large_weight m = length m + sum_list (map (length \<circ> snd) m)"

function release_large :: "nat \<Rightarrow> heap \<Rightarrow> heap option" where
  "release_large i h =
     (if above_threshold i h \<and> largeSpanLists (shards h i) \<noteq> []
      then case last (largeSpanLists (shards h i)) of
             (key, []) \<Rightarrow> release_large i (upd_large False i butlast h)
           | (key, x # rest) \<Rightarrow>
             (case fmlookup (spans h) x of None \<Rightarrow> None
              | Some s \<Rightarrow>
                release_large i (ReleaseSpanToCold i x s
                  (upd_large False i (\<lambda>m. butlast m @ [(key, rest)]) h)))
      else Some h)"
  by pat_completeness auto

text \<open>The second loop: bucket by bucket, from 128 pages down.\<close>

function release_bucket :: "nat \<Rightarrow> nat \<Rightarrow> heap \<Rightarrow> heap option" where
  "release_bucket i n h =
     (if above_threshold i h \<and> spanLists (shards h i) n \<noteq> []
      then let x = hd (spanLists (shards h i) n)
           in case fmlookup (spans h) x of None \<Rightarrow> None
              | Some s \<Rightarrow> release_bucket i n (ReleaseSpanToCold i x s (pop_hot_list i n h))
      else Some h)"
  by pat_completeness auto

lemma ReleaseSpanToCold_lists [simp]:
  "largeSpanLists (shards (ReleaseSpanToCold i x s h) j) = largeSpanLists (shards h j)"
  "spanLists (shards (ReleaseSpanToCold i x s h) j) = spanLists (shards h j)"
  by (simp_all add: ReleaseSpanToCold_def push_cold_def push_cold_list_def upd_span_def sub_free_def
      upd_shard_def)

lemma large_weight_butlast:
  "m \<noteq> [] \<Longrightarrow> large_weight m = large_weight (butlast m) + 1 + length (snd (last m))"
  by (cases m rule: rev_cases) (simp_all add: large_weight_def)

lemma large_weight_snoc: "large_weight (m @ [(k, l)]) = large_weight m + 1 + length l"
  by (simp add: large_weight_def)

lemma large_weight_less:
  "(k, l) = last m \<Longrightarrow> m \<noteq> [] \<Longrightarrow> large_weight (butlast m) < large_weight m"
  "(k, x # l) = last m \<Longrightarrow> m \<noteq> [] \<Longrightarrow> large_weight (butlast m @ [(k, l)]) < large_weight m"
  using large_weight_butlast [of m] by (auto simp: large_weight_snoc dest!: sym [of _ "last m"])

termination release_large
  by (relation "measure (\<lambda>(i, h). large_weight (largeSpanLists (shards h i)))")
    (auto simp: large_weight_less upd_large_def upd_shard_def)

termination release_bucket
  by (relation "measure (\<lambda>(i, n, h). length (spanLists (shards h i) n))")
    (auto simp: pop_hot_list_def upd_shard_def)

declare release_large.simps [simp del] release_bucket.simps [simp del]

fun release_small :: "nat \<Rightarrow> nat list \<Rightarrow> heap \<Rightarrow> heap option" where
  "release_small i [] h = Some h"
| "release_small i (n # ns) h =
     (case release_bucket i n h of None \<Rightarrow> None
      | Some h \<Rightarrow> if \<not> above_threshold i h then Some h else release_small i ns h)"

definition ReleaseSomeSpansToSystem :: "nat \<Rightarrow> heap \<Rightarrow> heap option" where
  "ReleaseSomeSpansToSystem i h =
     (case release_large i h of None \<Rightarrow> None
      | Some h \<Rightarrow> if above_threshold i h then release_small i (rev [1..<NPAGES]) h else Some h)"

definition settle_span :: "nat \<Rightarrow> nat \<Rightarrow> heap \<Rightarrow> heap option" where
  "settle_span i x h =
     (case fmlookup (spans h) x of None \<Rightarrow> None
      | Some s \<Rightarrow>
        Some (add_free i (npages s)
          (push_hot i (npages s) x
            (map_ends (pageId s) (npages s) x
              (upd_span x (s\<lparr>isUse := False, isCold := False\<rparr>) h)))))"

definition ReleaseSpan :: "nat \<Rightarrow> nat \<Rightarrow> heap \<Rightarrow> heap option" where
  "ReleaseSpan i x h =
     (case merge_left i x h of None \<Rightarrow> None
      | Some h \<Rightarrow>
        (case merge_right i x h of None \<Rightarrow> None
         | Some h \<Rightarrow>
           (case settle_span i x h of None \<Rightarrow> None
            | Some h \<Rightarrow> if above_threshold i h then ReleaseSomeSpansToSystem i h else Some h)))"

end
