(* ===== verification/PageCacheInv.thy ===== *)
theory PageCacheInv
  imports PageCache
begin

text \<open>
  The invariant of a page cache shard and its preservation. A span is free, in use, or floating:
  the set \<open>X\<close> holds the spans an operation has taken off their list and not yet settled. Every
  part of the invariant names only the fields it reads, so that an operation on other fields
  keeps it by simplification.
\<close>

subsection \<open>The parts of the invariant\<close>

type_synonym spans = "(nat, span) fmap"

definition pages :: "span \<Rightarrow> nat set" where
  "pages s = {pageId s ..< pageId s + npages s}"

definition owned :: "spans \<Rightarrow> nat set" where
  "owned S = {p. \<exists>x s. fmlookup S x = Some s \<and> p \<in> pages s}"

definition free_list :: "shard \<Rightarrow> bool \<Rightarrow> nat \<Rightarrow> nat list" where
  "free_list sh c n =
     (if n < NPAGES then (if c then releasedSpanLists sh n else spanLists sh n)
      else large_get (large_of c sh) n)"

definition free_span :: "nat set \<Rightarrow> spans \<Rightarrow> nat \<Rightarrow> bool \<Rightarrow> nat \<Rightarrow> nat \<Rightarrow> bool" where
  "free_span X S j c n x \<longleftrightarrow> x \<notin> X \<and> (\<exists>s. fmlookup S x = Some s \<and> \<not> isUse s \<and> isCold s = c
     \<and> npages s = n \<and> shardId s = j)"

definition wf_large :: "large_map \<Rightarrow> bool" where
  "wf_large m \<longleftrightarrow> sorted_wrt (<) (map fst m) \<and> list_all (\<lambda>k. NPAGES \<le> k) (map fst m)"

definition wf_ranges :: "spans \<Rightarrow> bool" where
  "wf_ranges S \<longleftrightarrow>
     (\<forall>x s. fmlookup S x = Some s \<longrightarrow> 0 < npages s \<and> 0 < pageId s \<and> pageId s + npages s \<le> 2 ^ 35)
     \<and> (\<forall>x s y t. fmlookup S x = Some s \<and> fmlookup S y = Some t \<and> x \<noteq> y \<longrightarrow> pages s \<inter> pages t = {})"

definition tagged :: "page_map \<Rightarrow> nat \<Rightarrow> span \<Rightarrow> bool" where
  "tagged m x s \<longleftrightarrow> PageMap_get m (pageId s) = Some x
     \<and> PageMap_get m (pageId s + npages s - 1) = Some x
     \<and> (isUse s \<longrightarrow> (\<forall>p \<in> pages s. PageMap_get m p = Some x))"

definition wf_tags :: "nat set \<Rightarrow> spans \<Rightarrow> page_map \<Rightarrow> bool" where
  "wf_tags X S m \<longleftrightarrow>
     (\<forall>x s. fmlookup S x = Some s \<longrightarrow> (\<forall>p \<in> pages s. PageMap_ready m p) \<and> (x \<notin> X \<longrightarrow> tagged m x s))
     \<and> (\<forall>p v. PageMap_get m p = Some v \<longrightarrow> p \<in> owned S)"

definition wf_lists :: "nat set \<Rightarrow> spans \<Rightarrow> (nat \<Rightarrow> shard) \<Rightarrow> bool" where
  "wf_lists X S sh \<longleftrightarrow>
     (\<forall>j c n x. x \<in> set (free_list (sh j) c n) \<longleftrightarrow> free_span X S j c n x)
     \<and> (\<forall>j c n. distinct (free_list (sh j) c n))
     \<and> (\<forall>j c. wf_large (large_of c (sh j)))"

definition hot_set :: "nat set \<Rightarrow> spans \<Rightarrow> nat \<Rightarrow> nat set" where
  "hot_set X S j = {x. \<exists>n. free_span X S j False n x}"

definition hot_pages :: "nat set \<Rightarrow> spans \<Rightarrow> nat \<Rightarrow> nat" where
  "hot_pages X S j = (\<Sum>x\<in>hot_set X S j. npages (the (fmlookup S x)))"

definition wf_count :: "nat set \<Rightarrow> spans \<Rightarrow> (nat \<Rightarrow> shard) \<Rightarrow> bool" where
  "wf_count X S sh \<longleftrightarrow> (\<forall>j. totalFreePages (sh j) = hot_pages X S j)"

definition wf_pool :: "nat set \<Rightarrow> spans \<Rightarrow> (nat \<Rightarrow> shard) \<Rightarrow> nat \<Rightarrow> bool" where
  "wf_pool X S sh nxt \<longleftrightarrow> X \<subseteq> fset (fmdom S) \<and> (\<forall>x \<in> fset (fmdom S). x < nxt)
     \<and> (\<forall>j. distinct (poolFree (sh j)) \<and> (\<forall>x \<in> set (poolFree (sh j)). x < nxt \<and> x |\<notin>| fmdom S))
     \<and> (\<forall>i j. i \<noteq> j \<longrightarrow> set (poolFree (sh i)) \<inter> set (poolFree (sh j)) = {})"

definition wf_ids :: "spans \<Rightarrow> (nat \<Rightarrow> shard) \<Rightarrow> bool" where
  "wf_ids S sh \<longleftrightarrow> (\<forall>j < 256. shId (sh j) = j) \<and> (\<forall>x s. fmlookup S x = Some s \<longrightarrow> shardId s < 256)"

definition pc_inv :: "nat set \<Rightarrow> heap \<Rightarrow> bool" where
  "pc_inv X h \<longleftrightarrow> wf_ranges (spans h) \<and> wf_tags X (spans h) (pmap h) \<and> wf_lists X (spans h) (shards h)
     \<and> wf_count X (spans h) (shards h) \<and> wf_pool X (spans h) (shards h) (nextSpan h)
     \<and> wf_ids (spans h) (shards h)"

named_theorems heap_simps \<open>what each heap operation does to each field\<close>

lemma upd_shard_sel [heap_simps, simp]:
  "spans (upd_shard i f h) = spans h" "pmap (upd_shard i f h) = pmap h"
  "nextSpan (upd_shard i f h) = nextSpan h"
  "shards (upd_shard i f h) = (shards h)(i := f (shards h i))"
  by (simp_all add: upd_shard_def)

lemma upd_span_sel [heap_simps, simp]:
  "spans (upd_span x s h) = fmupd x s (spans h)" "pmap (upd_span x s h) = pmap h"
  "nextSpan (upd_span x s h) = nextSpan h" "shards (upd_span x s h) = shards h"
  by (simp_all add: upd_span_def)

lemma map_page_sel [heap_simps, simp]:
  "spans (map_page p v h) = spans h" "nextSpan (map_page p v h) = nextSpan h"
  "shards (map_page p v h) = shards h" "pmap (map_page p v h) = radix.put p v (pmap h)"
  by (simp_all add: map_page_def radix.put_def)

lemma map_pages_sel [heap_simps, simp]:
  "spans (map_pages p k v h) = spans h" "nextSpan (map_pages p k v h) = nextSpan h"
  "shards (map_pages p k v h) = shards h"
  "pmap (map_pages p k v h) = fold (\<lambda>i. radix.put (p + i) v) [0..<k] (pmap h)"
  by (induction k) (simp_all add: map_pages_def)

lemma map_ends_sel [heap_simps, simp]:
  "spans (map_ends p k x h) = spans h" "nextSpan (map_ends p k x h) = nextSpan h"
  "shards (map_ends p k x h) = shards h"
  "pmap (map_ends p k x h) = radix.put (p + k - 1) (Some x) (radix.put p (Some x) (pmap h))"
  by (simp_all add: map_ends_def)

subsection \<open>The ordered map\<close>

lemma large_push_fst: "set (map fst (large_push k x m)) = insert k (set (map fst m))"
  by (induction k x m rule: large_push.induct) auto

lemma large_push_sorted: "sorted_wrt (<) (map fst m) \<Longrightarrow> sorted_wrt (<) (map fst (large_push k x m))"
proof (induction k x m rule: large_push.induct)
  case (2 k x k' l m)
  then show ?case
    using large_push_fst [of k x m] by (auto simp del: map_map)
qed simp

lemma wf_large_push: "wf_large m \<Longrightarrow> NPAGES \<le> k \<Longrightarrow> wf_large (large_push k x m)"
  using large_push_fst [of k x m] by (auto simp: wf_large_def large_push_sorted list_all_iff)

lemma large_get_Nil [simp]: "large_get [] k = []"
  by (simp add: large_get_def)

lemma large_get_Cons: "large_get ((k', l) # m) k = (if k = k' then l else large_get m k)"
  by (simp add: large_get_def)

lemma large_get_absent: "k \<notin> fst ` set m \<Longrightarrow> large_get m k = []"
  by (induction m) (auto simp: large_get_Cons)

lemma large_get_push:
  "sorted_wrt (<) (map fst m) \<Longrightarrow>
   large_get (large_push k x m) n = (if n = k then x # large_get m k else large_get m n)"
proof (induction k x m rule: large_push.induct)
  case (2 k x k' l m)
  have "large_get m k = []" if "k < k'"
    using 2 that by (intro large_get_absent) auto
  then show ?case using 2 by (auto simp: large_get_Cons)
qed (simp add: large_get_Cons)

lemma large_get_erase: "large_get (large_erase k m) n = (if n = k then [] else large_get m n)"
  by (induction m) (auto simp: large_erase_def large_get_Cons)

lemma large_get_set:
  "large_get m k \<noteq> [] \<Longrightarrow> large_get (large_set k l m) n = (if n = k then l else large_get m n)"
proof (cases "n = k")
  case False
  have "large_get (large_set k l m) n = large_get m n"
    by (induction m) (use False in \<open>auto simp: large_set_def large_get_Cons\<close>)
  then show ?thesis using False by simp
next
  case True
  assume "large_get m k \<noteq> []"
  then show ?thesis
    unfolding True by (induction m) (auto simp: large_set_def large_get_Cons split: if_splits)
qed

lemma map_fst_large_set [simp]: "map fst (large_set k l m) = map fst m"
  by (simp add: large_set_def)

lemma wf_large_set: "wf_large m \<Longrightarrow> wf_large (large_set k l m)"
  by (simp add: wf_large_def del: map_map)

lemma wf_large_erase: "wf_large m \<Longrightarrow> wf_large (large_erase k m)"
  by (auto simp: wf_large_def large_erase_def list_all_iff sorted_wrt_map intro: sorted_wrt_filter)

lemma map_fst_unlink: "map fst (map (\<lambda>(n, l). (n, remove1 x l)) m) = map fst m"
  by (induction m) auto

lemma large_get_unlink: "large_get (map (\<lambda>(n, l). (n, remove1 x l)) m) n = remove1 x (large_get m n)"
  by (induction m) (auto simp: large_get_Cons)

lemma wf_large_unlink: "wf_large m \<Longrightarrow> wf_large (map (\<lambda>(n, l). (n, remove1 x l)) m)"
  by (simp only: wf_large_def map_fst_unlink)

lemma large_lower_bound_Some:
  "sorted_wrt (<) (map fst m) \<Longrightarrow> large_lower_bound k m = Some (k', l) \<Longrightarrow>
   k \<le> k' \<and> k' \<in> fst ` set m \<and> large_get m k' = l"
proof (induction k m rule: large_lower_bound.induct)
  case (2 k k0 l0 m)
  then show ?case by (auto simp: large_get_Cons split: if_splits)
qed simp

subsection \<open>Ranges\<close>

lemma pages_ends: "0 < npages s \<Longrightarrow> pageId s \<in> pages s \<and> pageId s + npages s - 1 \<in> pages s"
  by (simp add: pages_def)

lemma ownedI: "fmlookup S x = Some s \<Longrightarrow> p \<in> pages s \<Longrightarrow> p \<in> owned S"
  by (auto simp: owned_def)

lemma wf_ranges_pos: "wf_ranges S \<Longrightarrow> fmlookup S x = Some s \<Longrightarrow> 0 < npages s"
  by (simp add: wf_ranges_def)

lemma wf_ranges_bound: "wf_ranges S \<Longrightarrow> fmlookup S x = Some s \<Longrightarrow> pageId s + npages s \<le> 2 ^ 35"
  by (simp add: wf_ranges_def)

lemma wf_ranges_page0: "wf_ranges S \<Longrightarrow> fmlookup S x = Some s \<Longrightarrow> 0 < pageId s"
  by (simp add: wf_ranges_def)

lemma wf_ranges_same:
  "wf_ranges S \<Longrightarrow> fmlookup S x = Some s \<Longrightarrow> fmlookup S y = Some t \<Longrightarrow> p \<in> pages s \<Longrightarrow> p \<in> pages t \<Longrightarrow> x = y"
  by (force simp: wf_ranges_def)

text \<open>A page is owned by the span it lies in, so it can only be looked up as that span.\<close>

lemma wf_rangesI:
  assumes "\<And>x s. fmlookup S x = Some s \<Longrightarrow> 0 < npages s \<and> 0 < pageId s \<and> pageId s + npages s \<le> 2 ^ 35"
    "\<And>x s y t p. fmlookup S x = Some s \<Longrightarrow> fmlookup S y = Some t \<Longrightarrow> p \<in> pages s \<Longrightarrow> p \<in> pages t \<Longrightarrow> x = y"
  shows "wf_ranges S"
  using assms unfolding wf_ranges_def by fastforce

lemma wf_ranges_upd:
  assumes "wf_ranges S" "fmlookup S x = Some s" "pages s' \<subseteq> pages s" "0 < npages s'"
  shows "wf_ranges (fmupd x s' S)"
proof (rule wf_rangesI)
  have "pageId s' + npages s' - 1 \<in> pages s" using assms(3,4) pages_ends by blast
  then have b: "pageId s' + npages s' \<le> 2 ^ 35"
    using wf_ranges_bound [OF assms(1,2)] assms(4) by (auto simp: pages_def)
  have c: "0 < pageId s'"
    using wf_ranges_page0 [OF assms(1,2)] assms(3,4) pages_ends(1) by (force simp: pages_def)
  fix y t assume "fmlookup (fmupd x s' S) y = Some t"
  then show "0 < npages t \<and> 0 < pageId t \<and> pageId t + npages t \<le> 2 ^ 35"
    using assms b c by (auto simp: wf_ranges_def split: if_splits)
next
  fix y t z u p
  assume "fmlookup (fmupd x s' S) y = Some t" "fmlookup (fmupd x s' S) z = Some u" "p \<in> pages t" "p \<in> pages u"
  then show "y = z"
    using assms(3) wf_ranges_same [OF assms(1), of _ _ _ _ p] assms(2) by (auto split: if_splits)
qed

lemma wf_ranges_new:
  assumes "wf_ranges S" "0 < npages s" "0 < pageId s" "pageId s + npages s \<le> 2 ^ 35" "pages s \<inter> owned S = {}"
  shows "wf_ranges (fmupd x s S)"
proof (rule wf_rangesI)
  fix y t assume "fmlookup (fmupd x s S) y = Some t"
  then show "0 < npages t \<and> 0 < pageId t \<and> pageId t + npages t \<le> 2 ^ 35"
    using assms by (auto simp: wf_ranges_def split: if_splits)
next
  fix y t z u p
  assume "fmlookup (fmupd x s S) y = Some t" "fmlookup (fmupd x s S) z = Some u" "p \<in> pages t" "p \<in> pages u"
  then show "y = z"
    using assms(5) wf_ranges_same [OF assms(1), of _ _ _ _ p] ownedI [of S _ _ p] by (auto split: if_splits)
qed

lemma wf_ranges_drop: "wf_ranges S \<Longrightarrow> wf_ranges (fmdrop x S)"
  by (auto simp: wf_ranges_def)

lemma owned_drop:
  assumes "wf_ranges S" "fmlookup S x = Some s"
  shows "owned (fmdrop x S) = owned S - pages s"
proof -
  have "z = x" if "fmlookup S z = Some t" "p \<in> pages t" "p \<in> pages s" for z t p
    using wf_ranges_same [OF assms(1) that(1) assms(2) that(2,3)] .
  then show ?thesis using assms(2) by (auto simp: owned_def split: if_splits)
qed

lemma owned_upd:
  assumes "wf_ranges S" "fmlookup S x = Some s"
  shows "owned (fmupd x s' S) = (owned S - pages s) \<union> pages s'"
proof -
  have "owned (fmupd x s' S) = owned (fmdrop x S) \<union> pages s'"
    by (auto simp: owned_def split: if_splits)
  then show ?thesis by (simp add: owned_drop [OF assms])
qed

lemma owned_new: "x |\<notin>| fmdom S \<Longrightarrow> owned (fmupd x s S) = owned S \<union> pages s"
  by (auto simp: owned_def fmdom_notD split: if_splits)
    (metis fmdom_notD option.distinct(1))

lemma pages_subset_owned: "fmlookup S x = Some s \<Longrightarrow> pages s \<subseteq> owned S"
  by (auto simp: owned_def)

text \<open>Splitting: the upper part goes to a new span.\<close>

lemma split_ranges:
  assumes "wf_ranges S" "fmlookup S x = Some s" "y |\<notin>| fmdom S" "0 < k" "k < npages s"
    "pageId u = pageId s + k" "npages u = npages s - k" "pageId s' = pageId s" "npages s' = k"
  shows "wf_ranges (fmupd x s' (fmupd y u S))" "owned (fmupd x s' (fmupd y u S)) = owned S"
proof -
  have xy: "x \<noteq> y" using assms(2,3) fmdomI by force
  have p: "pages s' \<union> pages u = pages s" "pages s' \<inter> pages u = {}" "pages s' \<subseteq> pages s"
    using assms by (auto simp: pages_def)
  let ?S = "fmupd x s' S"
  have S: "wf_ranges ?S" using assms p(3) by (intro wf_ranges_upd) auto
  have o: "owned ?S = owned S - pages s \<union> pages s'" by (rule owned_upd [OF assms(1,2)])
  have y: "y |\<notin>| fmdom ?S" using assms(3) xy by simp
  have e: "fmupd x s' (fmupd y u S) = fmupd y u ?S"
    using xy by (intro fmap_ext) simp
  have "pageId u + npages u \<le> 2 ^ 35" using assms wf_ranges_bound [OF assms(1,2)] by simp
  moreover have "pages u \<inter> owned ?S = {}" using p o by blast
  moreover have "0 < npages u" "0 < pageId u" using assms by simp_all
  ultimately show "wf_ranges (fmupd x s' (fmupd y u S))" unfolding e by (intro wf_ranges_new [OF S])
  have "pages s \<subseteq> owned S" by (rule pages_subset_owned [OF assms(2)])
  then show "owned (fmupd x s' (fmupd y u S)) = owned S"
    unfolding e owned_new [OF y] o using p by blast
qed

text \<open>Merging: a span takes over the pages of an adjacent one.\<close>

lemma merge_ranges:
  assumes "wf_ranges S" "fmlookup S x = Some s" "fmlookup S y = Some t" "x \<noteq> y"
    "pages s' = pages s \<union> pages t" "0 < npages s'"
  shows "wf_ranges (fmdrop y (fmupd x s' S))" "owned (fmdrop y (fmupd x s' S)) = owned S"
proof -
  have e: "fmdrop y (fmupd x s' S) = fmupd x s' (fmdrop y S)"
    using assms(4) by (intro fmap_ext) simp
  let ?S = "fmdrop y S"
  have S: "wf_ranges ?S" by (rule wf_ranges_drop [OF assms(1)])
  have x: "fmlookup ?S x = Some s" using assms by simp
  have o: "owned ?S = owned S - pages t" by (rule owned_drop [OF assms(1,3)])
  have sub: "pages t \<subseteq> owned S" "pages s \<subseteq> owned S" using assms(2,3) by (blast intro: ownedI)+
  show "owned (fmdrop y (fmupd x s' S)) = owned S"
    unfolding e owned_upd [OF S x] o using assms(5) sub by blast
  have b: "pageId s' + npages s' \<le> 2 ^ 35"
  proof -
    have "pageId s' + npages s' - 1 \<in> pages s \<union> pages t" using assms(5,6) pages_ends by blast
    then have "pageId s' + npages s' - 1 < 2 ^ 35"
      using wf_ranges_bound [OF assms(1,2)] wf_ranges_bound [OF assms(1,3)] by (auto simp: pages_def)
    then show ?thesis by simp
  qed
  have c: "0 < pageId s'"
  proof -
    have "pageId s' \<in> pages s \<union> pages t" using assms(5,6) pages_ends by blast
    then show ?thesis
      using wf_ranges_page0 [OF assms(1,2)] wf_ranges_page0 [OF assms(1,3)] by (auto simp: pages_def)
  qed
  have dis: "pages s' \<inter> owned (fmdrop x ?S) = {}"
    unfolding owned_drop [OF S x] o using assms(5) by blast
  have "wf_ranges (fmupd x s' (fmdrop x ?S))"
    using wf_ranges_drop [OF S] assms(6) c b dis by (rule wf_ranges_new)
  moreover have "fmupd x s' (fmdrop x ?S) = fmupd x s' ?S" by (intro fmap_ext) simp
  ultimately show "wf_ranges (fmdrop y (fmupd x s' S))" unfolding e by simp
qed

subsection \<open>Tags\<close>

lemma wf_tags_ready: "wf_tags X S m \<Longrightarrow> fmlookup S x = Some s \<Longrightarrow> p \<in> pages s \<Longrightarrow> PageMap_ready m p"
  by (simp add: wf_tags_def)

lemma wf_tags_tagged: "wf_tags X S m \<Longrightarrow> fmlookup S x = Some s \<Longrightarrow> x \<notin> X \<Longrightarrow> tagged m x s"
  by (simp add: wf_tags_def)

lemma wf_tags_owned: "wf_tags X S m \<Longrightarrow> PageMap_get m p = Some v \<Longrightarrow> p \<in> owned S"
  by (auto simp: wf_tags_def)

lemma wf_tagsI:
  assumes "\<And>x s p. fmlookup S x = Some s \<Longrightarrow> p \<in> pages s \<Longrightarrow> PageMap_ready m p"
    "\<And>x s. fmlookup S x = Some s \<Longrightarrow> x \<notin> X \<Longrightarrow> tagged m x s"
    "\<And>p v. PageMap_get m p = Some v \<Longrightarrow> p \<in> owned S"
  shows "wf_tags X S m"
  using assms unfolding wf_tags_def by blast

lemma tagged_cong:
  "0 < npages s \<Longrightarrow> (\<And>p. p \<in> pages s \<Longrightarrow> PageMap_get m' p = PageMap_get m p) \<Longrightarrow>
   tagged m' x s \<longleftrightarrow> tagged m x s"
  using pages_ends [of s] by (simp add: tagged_def)

lemma wf_tags_mono: "wf_tags X S m \<Longrightarrow> X \<subseteq> Y \<Longrightarrow> wf_tags Y S m"
  unfolding wf_tags_def by blast

lemma wf_tags_settle:
  "wf_tags (insert x X) S m \<Longrightarrow> fmlookup S x = Some s \<Longrightarrow> tagged m x s \<Longrightarrow> wf_tags X S m"
  unfolding wf_tags_def by (metis insertE option.inject)

text \<open>Writing the page map inside a floating span touches nothing else.\<close>

lemma wf_tags_put:
  assumes "wf_ranges S" "wf_tags X S m" "fmlookup S x = Some s" "x \<in> X" "p \<in> pages s"
  shows "wf_tags X S (radix.put p v m)"
proof (rule wf_tagsI)
  note ready = wf_tags_ready [OF assms(2)]
  note get = radix.get_put [OF ready [OF assms(3,5)]]
  fix y t q assume y: "fmlookup S y = Some t"
  show "q \<in> pages t \<Longrightarrow> PageMap_ready (radix.put p v m) q" using ready [OF y] by (rule radix.ready_put)
  assume "y \<notin> X"
  then have "p \<notin> pages t" using wf_ranges_same [OF assms(1) y assms(3)] assms(4,5) by blast
  then show "tagged (radix.put p v m) y t"
    using wf_tags_tagged [OF assms(2) y \<open>y \<notin> X\<close>] wf_ranges_pos [OF assms(1) y]
    by (subst tagged_cong) (auto simp: get)
next
  fix q w assume "PageMap_get (radix.put p v m) q = Some w"
  then show "q \<in> owned S"
    using wf_tags_owned [OF assms(2)] ownedI [OF assms(3,5)]
    by (auto simp: radix.get_put [OF wf_tags_ready [OF assms(2,3,5)]] split: if_splits)
qed

lemma wf_tags_put_all:
  assumes "wf_ranges S" "wf_tags X S m" "fmlookup S x = Some s" "x \<in> X" "pageId s = p" "k \<le> npages s"
  shows "wf_tags X S (fold (\<lambda>i. radix.put (p + i) v) [0..<k] m)"
  using assms(6)
proof (induction k)
  case (Suc k)
  then show ?case
    using assms by (simp, intro wf_tags_put [OF assms(1) _ assms(3,4)]) (auto simp: pages_def)
qed (simp add: assms)

text \<open>Changing the span map without changing the union of the ranges.\<close>

lemma wf_tags_spans:
  assumes "wf_tags X S m" "owned S' = owned S" "wf_ranges S"
    "\<And>x s. fmlookup S' x = Some s \<Longrightarrow> x \<notin> Y \<Longrightarrow> fmlookup S x = Some s \<and> x \<notin> X"
  shows "wf_tags Y S' m"
proof (rule wf_tagsI)
  fix x s p assume "fmlookup S' x = Some s" "p \<in> pages s"
  then have "p \<in> owned S" using assms(2) ownedI by blast
  then show "PageMap_ready m p" using wf_tags_ready [OF assms(1)] by (auto simp: owned_def)
next
  fix x s assume "fmlookup S' x = Some s" "x \<notin> Y"
  then show "tagged m x s" using assms(4) wf_tags_tagged [OF assms(1)] by blast
next
  fix p v assume "PageMap_get m p = Some v"
  then show "p \<in> owned S'" using wf_tags_owned [OF assms(1)] assms(2) by simp
qed

text \<open>
  The page below a floating span, or above it, can only be looked up as the span it bounds: no
  stale entry is ever read by the merging loops.
\<close>

lemma lookup_left:
  assumes "wf_ranges S" "wf_tags X S m" "X \<subseteq> {x}" "fmlookup S x = Some s"
    "PageMap_get m (wsub (pageId s) 1) = Some y"
  shows "y \<noteq> x \<and> (\<exists>t. fmlookup S y = Some t \<and> pageId s = pageId t + npages t)"
proof -
  have pos: "0 < pageId s"
  proof (rule ccontr)
    assume "\<not> 0 < pageId s"
    then have "wsub (pageId s) 1 = W64 - 1" by (simp add: wsub_def W64_def)
    then show False
      using PageMap_get_less [OF assms(5)] by (simp add: W64_def)
  qed
  have "pageId s < W64" using wf_ranges_bound [OF assms(1,4)] by (simp add: W64_def)
  then have p: "wsub (pageId s) 1 = pageId s - 1" using pos by (intro wsub_small) auto
  obtain z t where z: "fmlookup S z = Some t" "pageId s - 1 \<in> pages t"
    using wf_tags_owned [OF assms(2,5)] unfolding owned_def p by blast
  have zx: "z \<noteq> x" using z assms(4) pos by (auto simp: pages_def)
  have "pageId s \<in> pages s" using wf_ranges_pos [OF assms(1,4)] by (simp add: pages_def)
  then have "pageId s \<notin> pages t" using wf_ranges_same [OF assms(1) z(1) assms(4)] zx by blast
  then have e: "pageId s = pageId t + npages t" using z(2) pos by (auto simp: pages_def)
  have "PageMap_get m (pageId s - 1) = Some z"
    using wf_tags_tagged [OF assms(2) z(1)] zx assms(3) by (auto simp: tagged_def e)
  then have "y = z" using assms(5) unfolding p by simp
  then show ?thesis using z(1) zx e by blast
qed

lemma lookup_right:
  assumes "wf_ranges S" "wf_tags X S m" "X \<subseteq> {x}" "fmlookup S x = Some s"
    "PageMap_get m (wadd (pageId s) (npages s)) = Some y"
  shows "y \<noteq> x \<and> (\<exists>t. fmlookup S y = Some t \<and> pageId t = pageId s + npages s)"
proof -
  have b: "pageId s + npages s \<le> 2 ^ 35" by (rule wf_ranges_bound [OF assms(1,4)])
  then have p: "wadd (pageId s) (npages s) = pageId s + npages s"
    by (intro wadd_small) (simp add: W64_def)
  obtain z t where z: "fmlookup S z = Some t" "pageId s + npages s \<in> pages t"
    using wf_tags_owned [OF assms(2,5)] by (auto simp: owned_def p)
  have zx: "z \<noteq> x" using z assms(4) by (auto simp: pages_def)
  have l: "pageId s + npages s - 1 \<in> pages s" using wf_ranges_pos [OF assms(1,4)] by (simp add: pages_def)
  then have "pageId s + npages s - 1 \<notin> pages t" using wf_ranges_same [OF assms(1) z(1) assms(4)] zx by blast
  then have e: "pageId t = pageId s + npages s" using z(2) l by (auto simp: pages_def)
  have "PageMap_get m (pageId s + npages s) = Some z"
    using wf_tags_tagged [OF assms(2) z(1)] zx assms(3) by (auto simp: tagged_def e)
  then have "y = z" using assms(5) by (simp add: p)
  then show ?thesis using z(1) zx e by blast
qed

subsection \<open>Free lists\<close>

lemma free_list_cong [simp]:
  "free_list (sh\<lparr>totalFreePages := a\<rparr>) c n = free_list sh c n"
  "free_list (sh\<lparr>poolFree := b\<rparr>) c n = free_list sh c n"
  "large_of c (sh\<lparr>totalFreePages := a\<rparr>) = large_of c sh"
  "large_of c (sh\<lparr>poolFree := b\<rparr>) = large_of c sh"
  by (simp_all add: free_list_def large_of_def)

lemma wf_lists_mem: "wf_lists X S sh \<Longrightarrow> x \<in> set (free_list (sh j) c n) \<longleftrightarrow> free_span X S j c n x"
  by (simp add: wf_lists_def)

lemma wf_lists_distinct: "wf_lists X S sh \<Longrightarrow> distinct (free_list (sh j) c n)"
  by (simp add: wf_lists_def)

lemma wf_lists_large: "wf_lists X S sh \<Longrightarrow> wf_large (large_of c (sh j))"
  by (simp add: wf_lists_def)

lemma wf_lists_cong:
  assumes "wf_lists X S sh" "\<And>j c n. free_list (sh' j) c n = free_list (sh j) c n"
    "\<And>j c. wf_large (large_of c (sh' j))"
    "\<And>j c n x. free_span X' S' j c n x = free_span X S j c n x"
  shows "wf_lists X' S' sh'"
  using assms by (simp add: wf_lists_def)

lemma free_span_unique:
  "free_span X S j c n x \<Longrightarrow> free_span X S j' c' n' x \<Longrightarrow> j' = j \<and> c' = c \<and> n' = n"
  by (auto simp: free_span_def)

text \<open>A list taken as the value that one list, of colour \<open>c\<close> and length \<open>n\<close>, gets.\<close>

definition upd_list :: "bool \<Rightarrow> nat \<Rightarrow> nat list \<Rightarrow> shard \<Rightarrow> shard \<Rightarrow> bool" where
  "upd_list c n l sh sh' \<longleftrightarrow> (\<forall>c' n'. free_list sh' c' n' = (if c' = c \<and> n' = n then l else free_list sh c' n'))
     \<and> (\<forall>c'. wf_large (large_of c' sh'))"

lemma wf_lists_push:
  assumes "wf_lists (insert x X) S sh" "x \<notin> X" "fmlookup S x = Some s" "\<not> isUse s"
    "upd_list (isCold s) (npages s) (x # free_list (sh i) (isCold s) (npages s)) (sh i) sh'" "shardId s = i"
  shows "wf_lists X S (sh(i := sh'))"
proof -
  have x: "free_span X S j c n x \<longleftrightarrow> j = i \<and> c = isCold s \<and> n = npages s" for j c n
    using assms by (auto simp: free_span_def)
  have nx: "x \<notin> set (free_list (sh j) c n)" for j c n
    using wf_lists_mem [OF assms(1), of x j c n] by (simp add: free_span_def)
  have y: "y \<noteq> x \<Longrightarrow> free_span X S j c n y \<longleftrightarrow> free_span (insert x X) S j c n y" for j c n y
    by (simp add: free_span_def)
  have "y \<in> set (free_list ((sh(i := sh')) j) c n) \<longleftrightarrow> free_span X S j c n y" for j c n y
    using assms(5) nx x y [of y j c n] wf_lists_mem [OF assms(1), of y j c n]
    by (cases "y = x") (auto simp: upd_list_def)
  moreover have "distinct (free_list ((sh(i := sh')) j) c n)" for j c n
    using assms(5) nx wf_lists_distinct [OF assms(1), of j c n] by (auto simp: upd_list_def)
  moreover have "wf_large (large_of c ((sh(i := sh')) j))" for j c
    using assms(5) wf_lists_large [OF assms(1), of c j] by (auto simp: upd_list_def)
  ultimately show ?thesis by (simp add: wf_lists_def)
qed

lemma wf_lists_pop:
  assumes "wf_lists X S sh" "free_list (sh i) c n = x # rest" "upd_list c n rest (sh i) sh'"
  shows "wf_lists (insert x X) S (sh(i := sh'))" "free_span X S i c n x"
proof -
  have "x \<in> set (free_list (sh i) c n)" by (simp add: assms(2))
  then show x: "free_span X S i c n x" using wf_lists_mem [OF assms(1)] by blast
  have nx: "x \<notin> set rest" using wf_lists_distinct [OF assms(1), of i c n] assms(2) by simp
  have uni: "free_span X S j c' n' x \<Longrightarrow> j = i \<and> c' = c \<and> n' = n" for j c' n'
    using free_span_unique [OF x] by blast
  have "y \<in> set (free_list ((sh(i := sh')) j) c' n') \<longleftrightarrow> free_span (insert x X) S j c' n' y" for j c' n' y
  proof (cases "y = x")
    case True
    then show ?thesis
      using assms(3) nx uni wf_lists_mem [OF assms(1), of x j c' n']
      by (auto simp: upd_list_def free_span_def)
  next
    case False
    then have "free_span (insert x X) S j c' n' y \<longleftrightarrow> y \<in> set (free_list (sh j) c' n')"
      using wf_lists_mem [OF assms(1), of y j c' n'] by (simp add: free_span_def)
    then show ?thesis using assms(2,3) False by (auto simp: upd_list_def)
  qed
  moreover have "distinct (free_list ((sh(i := sh')) j) c' n')" for j c' n'
    using assms(2,3) wf_lists_distinct [OF assms(1), of j c' n'] by (auto simp: upd_list_def)
  moreover have "wf_large (large_of c' ((sh(i := sh')) j))" for j c'
    using assms(3) wf_lists_large [OF assms(1), of c' j] by (auto simp: upd_list_def)
  ultimately show "wf_lists (insert x X) S (sh(i := sh'))" by (simp add: wf_lists_def)
qed

lemma free_list_unlink: "free_list (unlink_shard x sh) c n = remove1 x (free_list sh c n)"
  by (simp add: free_list_def unlink_shard_def large_of_def large_get_unlink)

lemma large_of_unlink: "large_of c (unlink_shard x sh) = map (\<lambda>(n, l). (n, remove1 x l)) (large_of c sh)"
  by (simp add: large_of_def unlink_shard_def)

lemma wf_lists_unlink:
  assumes "wf_lists X S sh"
  shows "wf_lists (insert x X) S (\<lambda>i. unlink_shard x (sh i))"
proof -
  have "y \<in> set (free_list (unlink_shard x (sh j)) c n) \<longleftrightarrow> free_span (insert x X) S j c n y" for j c n y
    using wf_lists_mem [OF assms, of y j c n] wf_lists_distinct [OF assms, of j c n]
    by (auto simp: free_list_unlink free_span_def)
  then show ?thesis
    using wf_lists_distinct [OF assms] wf_lists_large [OF assms]
    by (simp add: wf_lists_def free_list_unlink large_of_unlink wf_large_unlink)
qed

lemma wf_lists_floating:
  assumes "wf_lists X S sh" "\<And>y. y \<notin> Y \<Longrightarrow> fmlookup S' y = fmlookup S y \<and> y \<notin> X"
    "\<And>y s. y \<in> Y \<Longrightarrow> y \<notin> X \<Longrightarrow> fmlookup S y = Some s \<Longrightarrow> isUse s"
  shows "wf_lists Y S' sh"
proof -
  have "free_span Y S' j c n y = free_span X S j c n y" for j c n y
  proof (cases "y \<in> Y")
    case True
    then show ?thesis using assms(3) [of y] by (auto simp: free_span_def)
  qed (simp add: free_span_def assms(2))
  then show ?thesis using assms(1) by (simp add: wf_lists_def)
qed

subsection \<open>How the list operations of the code update a shard\<close>

lemma wf_large_sorted: "wf_large m \<Longrightarrow> sorted_wrt (<) (map fst m)"
  by (simp add: wf_large_def)

lemma free_list_fields [simp]:
  "free_list (sh\<lparr>spanLists := f\<rparr>) c n = (if n < NPAGES \<and> \<not> c then f n else free_list sh c n)"
  "free_list (sh\<lparr>releasedSpanLists := f\<rparr>) c n = (if n < NPAGES \<and> c then f n else free_list sh c n)"
  "free_list (sh\<lparr>largeSpanLists := m\<rparr>) c n = (if \<not> n < NPAGES \<and> \<not> c then large_get m n else free_list sh c n)"
  "free_list (sh\<lparr>releasedLargeSpanLists := m\<rparr>) c n = (if \<not> n < NPAGES \<and> c then large_get m n else free_list sh c n)"
  by (simp_all add: free_list_def large_of_def)

lemma large_of_fields [simp]:
  "large_of c (sh\<lparr>spanLists := f\<rparr>) = large_of c sh"
  "large_of c (sh\<lparr>releasedSpanLists := f\<rparr>) = large_of c sh"
  "large_of c (sh\<lparr>largeSpanLists := m\<rparr>) = (if c then large_of c sh else m)"
  "large_of c (sh\<lparr>releasedLargeSpanLists := m\<rparr>) = (if c then m else large_of c sh)"
  by (simp_all add: large_of_def)

definition push_shard :: "bool \<Rightarrow> nat \<Rightarrow> nat \<Rightarrow> shard \<Rightarrow> shard" where
  "push_shard c n x sh =
     (if n < NPAGES
      then if c then sh\<lparr>releasedSpanLists := (releasedSpanLists sh)(n := x # releasedSpanLists sh n)\<rparr>
           else sh\<lparr>spanLists := (spanLists sh)(n := x # spanLists sh n)\<rparr>
      else if c then sh\<lparr>releasedLargeSpanLists := large_push n x (releasedLargeSpanLists sh)\<rparr>
           else sh\<lparr>largeSpanLists := large_push n x (largeSpanLists sh)\<rparr>)"

lemma push_as_shard:
  "push_hot i n x = upd_shard i (push_shard False n x)"
  "push_cold i n x = upd_shard i (push_shard True n x)"
  "n < NPAGES \<Longrightarrow> push_hot_list i n x = upd_shard i (push_shard False n x)"
  "n < NPAGES \<Longrightarrow> push_cold_list i n x = upd_shard i (push_shard True n x)"
  by (auto simp: push_hot_def push_cold_def push_hot_list_def push_cold_list_def push_shard_def
      upd_shard_def fun_eq_iff)

lemma push_shard_sel [simp]:
  "totalFreePages (push_shard c n x sh) = totalFreePages sh" "poolFree (push_shard c n x sh) = poolFree sh"
  "shId (push_shard c n x sh) = shId sh" "releaseThreshold (push_shard c n x sh) = releaseThreshold sh"
  by (simp_all add: push_shard_def)

lemma upd_list_push:
  assumes "\<And>c. wf_large (large_of c sh)"
  shows "upd_list c n (x # free_list sh c n) sh (push_shard c n x sh)"
proof -
  have g: "large_get (large_push k x (large_of b sh)) m
      = (if m = k then x # large_get (large_of b sh) k else large_get (large_of b sh) m)" for k b m
    by (rule large_get_push [OF wf_large_sorted [OF assms]])
  have w: "wf_large (largeSpanLists sh)" "wf_large (releasedLargeSpanLists sh)"
    using assms [of False] assms [of True] by (simp_all add: large_of_def)
  show ?thesis
    using w g [where b = True] g [where b = False]
    by (cases "n < NPAGES"; cases c)
      (simp_all add: upd_list_def push_shard_def wf_large_push free_list_def large_of_def)
qed

definition pop_shard :: "bool \<Rightarrow> nat \<Rightarrow> nat list \<Rightarrow> shard \<Rightarrow> shard" where
  "pop_shard c n rest sh =
     (if n < NPAGES
      then if c then sh\<lparr>releasedSpanLists := (releasedSpanLists sh)(n := rest)\<rparr>
           else sh\<lparr>spanLists := (spanLists sh)(n := rest)\<rparr>
      else if c then sh\<lparr>releasedLargeSpanLists := large_set n rest (releasedLargeSpanLists sh)\<rparr>
           else sh\<lparr>largeSpanLists := large_set n rest (largeSpanLists sh)\<rparr>)"

lemma pop_shard_sel [simp]:
  "totalFreePages (pop_shard c n x sh) = totalFreePages sh" "poolFree (pop_shard c n x sh) = poolFree sh"
  "shId (pop_shard c n x sh) = shId sh" "releaseThreshold (pop_shard c n x sh) = releaseThreshold sh"
  by (simp_all add: pop_shard_def)

lemma upd_list_pop:
  assumes "\<And>c. wf_large (large_of c sh)" "free_list sh c n \<noteq> []"
  shows "upd_list c n rest sh (pop_shard c n rest sh)"
proof -
  have g: "large_get (large_set n rest (large_of c sh)) m
      = (if m = n then rest else large_get (large_of c sh) m)" if "\<not> n < NPAGES" for m
    using assms(2) that by (intro large_get_set) (simp add: free_list_def)
  have w: "wf_large (largeSpanLists sh)" "wf_large (releasedLargeSpanLists sh)"
    using assms(1) [of False] assms(1) [of True] by (simp_all add: large_of_def)
  show ?thesis
    using w g
    by (cases "n < NPAGES"; cases c)
      (simp_all add: upd_list_def pop_shard_def wf_large_set free_list_def large_of_def)
qed

text \<open>Erasing an empty entry changes no free list.\<close>

lemma wf_lists_erase:
  assumes "wf_lists X S sh" "large_get (large_of c (sh i)) key = []"
  shows "wf_lists X S (sh(i := if c then (sh i)\<lparr>releasedLargeSpanLists := large_erase key (releasedLargeSpanLists (sh i))\<rparr>
      else (sh i)\<lparr>largeSpanLists := large_erase key (largeSpanLists (sh i))\<rparr>))"
proof -
  have w: "wf_large (largeSpanLists (sh j))" "wf_large (releasedLargeSpanLists (sh j))" for j
    using wf_lists_large [OF assms(1), of False j] wf_lists_large [OF assms(1), of True j]
    by (simp_all add: large_of_def)
  show ?thesis
    by (rule wf_lists_cong [OF assms(1)])
      (use assms(2) w in \<open>auto simp: large_get_erase free_list_def large_of_def wf_large_erase split: if_splits\<close>)
qed

text \<open>The last entry, as \<open>rbegin\<close> gives it.\<close>

lemma wf_large_last:
  assumes "wf_large m" "m \<noteq> []" "last m = (key, l)"
  shows "large_get m key = l" "NPAGES \<le> key" "butlast m = large_erase key m"
    "butlast m @ [(key, r)] = large_set key r m"
proof -
  obtain m0 where m: "m = m0 @ [(key, l)]" using assms(2,3) by (metis append_butlast_last_id)
  have k: "key \<notin> fst ` set m0" using assms(1) by (fastforce simp: m wf_large_def sorted_wrt_append)
  then have a: "large_get (m0 @ r) key = large_get r key" for r
    by (induction m0) (auto simp: large_get_Cons)
  show "large_get m key = l" by (simp add: m a large_get_Cons)
  show "NPAGES \<le> key" using assms(1) by (simp add: wf_large_def m)
  have "filter (\<lambda>e. fst e \<noteq> key) m0 = m0" using k by (auto simp: filter_id_conv image_iff)
  then show "butlast m = large_erase key m" by (simp add: m large_erase_def)
  have "map (\<lambda>e. if fst e = key then (key, r) else e) m0 = m0"
    using k by (intro map_idI) (auto simp: image_iff)
  then show "butlast m @ [(key, r)] = large_set key r m" by (simp add: m large_set_def)
qed

subsection \<open>Counting the hot pages\<close>

lemma finite_hot_set [simp]: "finite (hot_set X S j)"
proof (rule finite_subset)
  show "hot_set X S j \<subseteq> fset (fmdom S)" by (auto simp: hot_set_def free_span_def intro: fmdomI)
qed simp

lemma hot_pages_insert:
  assumes "fmlookup S x = Some s" "x \<notin> X"
  shows "hot_pages X S j = hot_pages (insert x X) S j
    + (if \<not> isUse s \<and> \<not> isCold s \<and> shardId s = j then npages s else 0)"
proof -
  have e: "hot_set X S j = (if \<not> isUse s \<and> \<not> isCold s \<and> shardId s = j
      then insert x (hot_set (insert x X) S j) else hot_set (insert x X) S j)"
    using assms by (auto simp: hot_set_def free_span_def)
  have "x \<notin> hot_set (insert x X) S j" by (simp add: hot_set_def free_span_def)
  then show ?thesis by (simp add: hot_pages_def e assms)
qed

definition books :: "nat set \<Rightarrow> spans \<Rightarrow> (nat \<Rightarrow> shard) \<Rightarrow> bool" where
  "books X S sh \<longleftrightarrow> wf_lists X S sh \<and> wf_count X S sh"

definition hot_weight :: "span \<Rightarrow> nat" where
  "hot_weight s = (if isCold s then 0 else npages s)"

lemma books_push:
  assumes "books (insert x X) S sh" "x \<notin> X" "fmlookup S x = Some s" "\<not> isUse s" "shardId s = i"
    "upd_list (isCold s) (npages s) (x # free_list (sh i) (isCold s) (npages s)) (sh i) sh'"
    "totalFreePages sh' = totalFreePages (sh i) + hot_weight s"
  shows "books X S (sh(i := sh'))"
proof -
  have l: "wf_lists (insert x X) S sh" using assms(1) by (simp add: books_def)
  show ?thesis
    using assms wf_lists_push [OF l assms(2,3,4,6,5)] hot_pages_insert [OF assms(3,2)]
    by (auto simp: books_def wf_count_def hot_weight_def)
qed

lemma books_pop:
  assumes "books X S sh" "free_list (sh i) c n = x # rest" "upd_list c n rest (sh i) sh'"
    "totalFreePages sh' = totalFreePages (sh i) - (if c then 0 else n)"
  shows "books (insert x X) S (sh(i := sh'))" "free_span X S i c n x"
proof -
  have l0: "wf_lists X S sh" using assms(1) by (simp add: books_def)
  note l = wf_lists_pop [OF l0 assms(2,3)]
  show x: "free_span X S i c n x" by (rule l(2))
  then obtain s where s: "x \<notin> X" "fmlookup S x = Some s" "\<not> isUse s" "isCold s = c" "npages s = n"
      "shardId s = i" by (auto simp: free_span_def)
  show "books (insert x X) S (sh(i := sh'))"
    using assms(1,4) l(1) hot_pages_insert [OF s(2,1)] s
    by (auto simp: books_def wf_count_def)
qed

lemma books_unlink:
  assumes "books X S sh" "free_span X S i c n x" "\<And>j. shb j = unlink_shard x (sh j)"
    "sh' = (shb i)\<lparr>totalFreePages := totalFreePages (sh i) - (if c then 0 else n)\<rparr>"
  shows "books (insert x X) S (shb(i := sh'))"
proof -
  obtain s where s: "x \<notin> X" "fmlookup S x = Some s" "\<not> isUse s" "isCold s = c" "npages s = n"
      "shardId s = i" using assms(2) by (auto simp: free_span_def)
  have e: "shb = (\<lambda>j. unlink_shard x (sh j))" using assms(3) by auto
  have "wf_lists (insert x X) S shb"
    unfolding e using assms(1) by (intro wf_lists_unlink) (simp add: books_def)
  then have "wf_lists (insert x X) S (shb(i := sh'))"
    by (rule wf_lists_cong) (use assms(4) wf_lists_large [OF \<open>wf_lists (insert x X) S shb\<close>] in auto)
  moreover have "totalFreePages (shb j) = totalFreePages (sh j)" for j
    by (simp add: assms(3) unlink_shard_def)
  ultimately show ?thesis
    using assms(1) hot_pages_insert [OF s(2,1)] s
    by (auto simp: books_def wf_count_def assms(4))
qed

lemma books_floating:
  assumes "books X S sh" "\<And>y. y \<notin> Y \<Longrightarrow> fmlookup S' y = fmlookup S y \<and> y \<notin> X"
    "\<And>y s. y \<in> Y \<Longrightarrow> y \<notin> X \<Longrightarrow> fmlookup S y = Some s \<Longrightarrow> isUse s"
  shows "books Y S' sh"
proof -
  have l0: "wf_lists X S sh" using assms(1) by (simp add: books_def)
  have f: "free_span Y S' j c n y = free_span X S j c n y" for j c n y
  proof (cases "y \<in> Y")
    case True
    then show ?thesis using assms(3) [of y] by (auto simp: free_span_def)
  qed (simp add: free_span_def assms(2))
  then have h: "hot_set Y S' j = hot_set X S j" for j by (simp add: hot_set_def)
  have "hot_pages Y S' j = hot_pages X S j" for j
    unfolding hot_pages_def
  proof (rule sum.cong)
    fix y assume "y \<in> hot_set X S j"
    then have "y \<notin> Y" using h by (auto simp: hot_set_def free_span_def)
    then show "npages (the (fmlookup S' y)) = npages (the (fmlookup S y))" by (simp add: assms(2))
  qed (simp add: h)
  then show ?thesis
    using assms(1) wf_lists_floating [OF l0 assms(2,3)] by (simp add: books_def wf_count_def)
qed

lemma books_cong:
  assumes "books X S sh" "\<And>j. sh' j = (sh j)\<lparr>poolFree := f j\<rparr>"
  shows "books X S sh'"
  using assms wf_lists_large [of X S sh]
  by (auto simp: books_def wf_count_def intro!: wf_lists_cong [of X S sh])

lemma inv_alt:
  "pc_inv X h \<longleftrightarrow> wf_ranges (spans h) \<and> wf_tags X (spans h) (pmap h) \<and> books X (spans h) (shards h)
     \<and> wf_pool X (spans h) (shards h) (nextSpan h) \<and> wf_ids (spans h) (shards h)"
  by (auto simp: pc_inv_def books_def)

text \<open>Below, an operation that leaves the pool and the shard ids alone keeps these two parts.\<close>

lemma wf_pool_cong:
  "wf_pool X S sh nxt \<Longrightarrow> (\<And>j. poolFree (sh' j) = poolFree (sh j)) \<Longrightarrow> fmdom S' = fmdom S \<Longrightarrow>
   Y \<subseteq> fset (fmdom S) \<Longrightarrow> wf_pool Y S' sh' nxt"
  by (simp add: wf_pool_def)

lemma wf_pool_drop:
  assumes "wf_pool X S sh nxt" "x |\<in>| fmdom S" "\<And>j. poolFree (sh' j) = (if j = i then x # poolFree (sh i) else poolFree (sh j))"
    "Y \<subseteq> fset (fmdom S) - {x}"
  shows "wf_pool Y (fmdrop x S) sh' nxt"
  using assms unfolding wf_pool_def by (auto split: if_splits; blast)

lemma wf_ids_cong:
  "wf_ids S sh \<Longrightarrow> (\<And>j. shId (sh' j) = shId (sh j)) \<Longrightarrow>
   (\<And>x s. fmlookup S' x = Some s \<Longrightarrow> shardId s < 256) \<Longrightarrow> wf_ids S' sh'"
  by (simp add: wf_ids_def)

end
