(* ===== verification/PageCacheOps.thy ===== *)
theory PageCacheOps
  imports PageCacheInv
begin

text \<open>
  Every operation of a page cache shard keeps the invariant: allocation from each of the four
  kinds of list, the round of \<open>NewSpan\<close> and its loop, the two merging loops, settling a span and
  returning memory to the system.
\<close>

subsection \<open>Taking, splitting, settling\<close>

definition take_shard :: "bool \<Rightarrow> nat \<Rightarrow> nat list \<Rightarrow> shard \<Rightarrow> shard" where
  "take_shard c n rest sh =
     (pop_shard c n rest sh)\<lparr>totalFreePages := totalFreePages sh - (if c then 0 else n)\<rparr>"

definition give_shard :: "bool \<Rightarrow> nat \<Rightarrow> nat \<Rightarrow> shard \<Rightarrow> shard" where
  "give_shard c n x sh =
     (push_shard c n x sh)\<lparr>totalFreePages := totalFreePages sh + (if c then 0 else n)\<rparr>"

lemma take_give_sel [simp]:
  "poolFree (take_shard c n r sh) = poolFree sh" "shId (take_shard c n r sh) = shId sh"
  "releaseThreshold (take_shard c n r sh) = releaseThreshold sh"
  "poolFree (give_shard c n x sh) = poolFree sh" "shId (give_shard c n x sh) = shId sh"
  "releaseThreshold (give_shard c n x sh) = releaseThreshold sh"
  by (simp_all add: take_shard_def give_shard_def)

lemma upd_list_total: "upd_list c n l sh sh' \<Longrightarrow> upd_list c n l sh (sh'\<lparr>totalFreePages := a\<rparr>)"
  by (simp add: upd_list_def)

lemma free_span_dom: "free_span X S i c n x \<Longrightarrow> x \<in> fset (fmdom S)"
  by (auto simp: free_span_def intro: fmdomI)

lemma inv_take:
  assumes "pc_inv X h" "free_list (shards h i) c n = x # rest"
  shows "pc_inv (insert x X) (upd_shard i (take_shard c n rest) h)" "free_span X (spans h) i c n x"
proof -
  have b: "books X (spans h) (shards h)" and p: "wf_pool X (spans h) (shards h) (nextSpan h)"
    and ids: "wf_ids (spans h) (shards h)" using assms(1) by (simp_all add: inv_alt)
  have w: "wf_large (large_of c' (shards h i))" for c' using b by (simp add: books_def wf_lists_def)
  have u: "upd_list c n rest (shards h i) (take_shard c n rest (shards h i))"
    unfolding take_shard_def using assms(2) by (intro upd_list_total upd_list_pop [OF w]) simp
  note pop = books_pop [OF b assms(2) u]
  show x: "free_span X (spans h) i c n x" by (rule pop(2)) (simp add: take_shard_def)
  have "books (insert x X) (spans h) ((shards h)(i := take_shard c n rest (shards h i)))"
    by (rule pop(1)) (simp add: take_shard_def)
  moreover have "wf_pool (insert x X) (spans h) ((shards h)(i := take_shard c n rest (shards h i))) (nextSpan h)"
    using free_span_dom [OF x] p by (intro wf_pool_cong [OF p]) (auto simp: wf_pool_def)
  moreover have "wf_ids (spans h) ((shards h)(i := take_shard c n rest (shards h i)))"
    using ids by (intro wf_ids_cong [OF ids]) (auto simp: wf_ids_def)
  ultimately show "pc_inv (insert x X) (upd_shard i (take_shard c n rest) h)"
    using assms(1) by (auto simp: inv_alt intro: wf_tags_mono)
qed

lemma inv_give_tagged:
  assumes "pc_inv (insert x X) h" "x \<notin> X" "fmlookup (spans h) x = Some s" "\<not> isUse s" "shardId s = i"
    "tagged (pmap h) x s"
  shows "pc_inv X (upd_shard i (give_shard (isCold s) (npages s) x) h)"
proof -
  let ?S = "spans h" and ?sh = "(shards h)(i := give_shard (isCold s) (npages s) x (shards h i))"
  have T: "wf_tags (insert x X) ?S (pmap h)" and b: "books (insert x X) ?S (shards h)"
    and P: "wf_pool (insert x X) ?S (shards h) (nextSpan h)" and ids: "wf_ids ?S (shards h)"
    using assms(1) by (simp_all add: inv_alt)
  have "books X ?S ?sh"
  proof (rule books_push [OF b assms(2-5)])
    have w: "wf_large (large_of c' (shards h i))" for c' using b by (simp add: books_def wf_lists_def)
    show "upd_list (isCold s) (npages s) (x # free_list (shards h i) (isCold s) (npages s)) (shards h i)
        (give_shard (isCold s) (npages s) x (shards h i))"
      unfolding give_shard_def by (intro upd_list_total upd_list_push w)
  qed (simp add: give_shard_def hot_weight_def)
  moreover have "wf_pool X ?S ?sh (nextSpan h)"
    using P by (intro wf_pool_cong [OF P]) (auto simp: wf_pool_def)
  moreover have "wf_ids ?S ?sh"
    using ids by (intro wf_ids_cong [OF ids]) (auto simp: wf_ids_def)
  ultimately show ?thesis
    using assms(1) wf_tags_settle [OF T assms(3,6)] by (simp add: inv_alt)
qed

lemma inv_map_ends:
  assumes "pc_inv X h" "x \<in> X" "fmlookup (spans h) x = Some s"
  shows "pc_inv X (map_ends (pageId s) (npages s) y h)"
    "\<not> isUse s \<Longrightarrow> tagged (pmap (map_ends (pageId s) (npages s) x h)) x s"
proof -
  let ?S = "spans h" and ?m = "pmap h" and ?p = "pageId s" and ?q = "pageId s + npages s - 1"
  have R: "wf_ranges ?S" and T: "wf_tags X ?S ?m" using assms(1) by (simp_all add: inv_alt)
  have e: "?p \<in> pages s" "?q \<in> pages s" using pages_ends wf_ranges_pos [OF R assms(3)] by simp_all
  have T1: "wf_tags X ?S (radix.put ?p v ?m)" for v by (rule wf_tags_put [OF R T assms(3,2) e(1)])
  have "wf_tags X ?S (radix.put ?q v (radix.put ?p v ?m))" for v by (rule wf_tags_put [OF R T1 assms(3,2) e(2)])
  then show "pc_inv X (map_ends (pageId s) (npages s) y h)" using assms(1) by (simp add: inv_alt)
  show "\<not> isUse s \<Longrightarrow> tagged (pmap (map_ends (pageId s) (npages s) x h)) x s"
    using wf_tags_ready [OF T assms(3) e(1)] wf_tags_ready [OF T1 assms(3) e(2)]
    by (simp add: tagged_def radix.get_put)
qed

lemma inv_give:
  assumes "pc_inv (insert x X) h" "x \<notin> X" "fmlookup (spans h) x = Some s" "\<not> isUse s" "shardId s = i"
  shows "pc_inv X (upd_shard i (give_shard (isCold s) (npages s) x) (map_ends (pageId s) (npages s) x h))"
  using assms inv_map_ends [OF assms(1) _ assms(3)] by (intro inv_give_tagged) simp_all

lemma books_unfloat_used:
  assumes "books (insert x X) S sh" "fmlookup S x = Some s" "isUse s" "x \<notin> X"
  shows "books X S sh"
proof -
  have "free_span X S j c n y = free_span (insert x X) S j c n y" for j c n y
    using assms(2,3) by (auto simp: free_span_def)
  then have "wf_lists X S sh" using assms(1) by (simp add: books_def wf_lists_def)
  then show ?thesis
    using assms hot_pages_insert [OF assms(2,4)] by (simp add: books_def wf_count_def)
qed

lemma inv_finish:
  assumes "pc_inv (insert x X) h" "x \<notin> X" "fmlookup (spans h) x = Some s" "npages s = k"
  shows "\<exists>h'. finish_alloc x k h = Some (x, h') \<and> pc_inv X h' \<and> shards h' = shards h
    \<and> spans h' = fmupd x (s\<lparr>isUse := True, isCold := False\<rparr>) (spans h)"
proof -
  let ?s = "s\<lparr>isUse := True, isCold := False\<rparr>"
  let ?S = "spans h" and ?S' = "fmupd x ?s (spans h)" and ?m = "pmap h" and ?p = "pageId s"
  let ?m' = "fold (\<lambda>i. radix.put (?p + i) (Some x)) [0..<k] ?m"
  have R: "wf_ranges ?S" and T: "wf_tags (insert x X) ?S ?m" and b: "books (insert x X) ?S (shards h)"
    and P: "wf_pool (insert x X) ?S (shards h) (nextSpan h)" and ids: "wf_ids ?S (shards h)"
    using assms(1) by (simp_all add: inv_alt)
  have pg: "pages ?s = pages s" by (simp add: pages_def)
  have "0 < npages ?s" using wf_ranges_pos [OF R assms(3)] by simp
  then have R': "wf_ranges ?S'" using pg by (intro wf_ranges_upd [OF R assms(3)]) simp_all
  have o: "owned ?S' = owned ?S"
    using owned_upd [OF R assms(3), of ?s] pages_subset_owned [OF assms(3)] by (auto simp: pg)
  have T1: "wf_tags (insert x X) ?S' ?m"
    by (rule wf_tags_spans [OF T o R]) (auto split: if_splits)
  have x: "fmlookup ?S' x = Some ?s" by simp
  have T2: "wf_tags (insert x X) ?S' ?m'"
    using assms(4) by (intro wf_tags_put_all [OF R' T1 x]) simp_all
  have "PageMap_get ?m' p = Some x" if "p \<in> pages s" for p
  proof -
    have "PageMap_ready ?m (?p + i)" if "i < k" for i
      using that assms(4) by (intro wf_tags_ready [OF T assms(3)]) (simp add: pages_def)
    then show ?thesis
      using that assms(4) by (subst radix.get_put_all) (simp_all add: pages_def)
  qed
  then have "tagged ?m' x ?s"
    using pages_ends [of s] wf_ranges_pos [OF R assms(3)] by (simp add: tagged_def pg)
  then have "wf_tags X ?S' ?m'" by (rule wf_tags_settle [OF T2 x])
  moreover have "books X ?S' (shards h)"
  proof (rule books_unfloat_used [OF _ x _ assms(2)])
    show "books (insert x X) ?S' (shards h)" by (rule books_floating [OF b]) auto
  qed simp
  moreover have "wf_pool X ?S' (shards h) (nextSpan h)"
    using fmdomI [OF assms(3)] P by (intro wf_pool_cong [OF P]) (auto simp: wf_pool_def)
  moreover have "wf_ids ?S' (shards h)"
    using ids assms(3) by (intro wf_ids_cong [OF ids]) (auto simp: wf_ids_def split: if_splits)
  ultimately show ?thesis using R' by (simp add: finish_alloc_def assms(3) inv_alt)
qed

lemma wf_pool_fresh:
  assumes "wf_pool X S sh nxt" "fst (pool_New i h) = y" "S = spans h" "sh = shards h" "nxt = nextSpan h"
  shows "y |\<notin>| fmdom S"
proof (cases "poolFree (shards h i)")
  case Nil
  then show ?thesis using assms by (auto simp: wf_pool_def pool_New_def)
next
  case (Cons z l)
  then have "y \<in> set (poolFree (shards h i))" using assms(2) by (simp add: pool_New_def)
  then show ?thesis using assms(1,3-5) unfolding wf_pool_def by blast
qed

lemma pool_New_sel [simp]:
  "spans (snd (pool_New i h)) = fmupd (fst (pool_New i h)) new_span (spans h)"
  "pmap (snd (pool_New i h)) = pmap h"
  "shId (shards (snd (pool_New i h)) j) = shId (shards h j)"
  "releaseThreshold (shards (snd (pool_New i h)) j) = releaseThreshold (shards h j)"
  "\<exists>l. shards (snd (pool_New i h)) j = (shards h j)\<lparr>poolFree := l\<rparr>"
  by (auto simp: pool_New_def split: list.split intro: exI [of _ "poolFree (shards h j)"])

lemma pool_New_books: "books X S (shards (snd (pool_New i h))) \<longleftrightarrow> books X S (shards h)"
proof -
  define f where "f j = poolFree (shards (snd (pool_New i h)) j)" for j
  have e: "shards (snd (pool_New i h)) j = (shards h j)\<lparr>poolFree := f j\<rparr>" for j
  proof -
    obtain l where l: "shards (snd (pool_New i h)) j = (shards h j)\<lparr>poolFree := l\<rparr>"
      using pool_New_sel(5) [of i h j] by blast
    then show ?thesis by (simp add: f_def)
  qed
  have e': "shards h j = (shards (snd (pool_New i h)) j)\<lparr>poolFree := poolFree (shards h j)\<rparr>" for j
    by (simp add: e)
  show ?thesis
    using books_cong [where sh = "shards h" and f = f, OF _ e]
      books_cong [where sh = "shards (snd (pool_New i h))" and f = "\<lambda>j. poolFree (shards h j)", OF _ e']
    by blast
qed

lemma pool_New_wf:
  assumes "wf_pool X (spans h) (shards h) (nextSpan h)" "pool_New i h = (y, h')"
  shows "wf_pool (insert y X) (fmupd y u (spans h)) (shards h') (nextSpan h')" "y \<notin> X"
proof -
  have y: "y |\<notin>| fmdom (spans h)" using wf_pool_fresh [OF assms(1), of i h y] assms(2) by simp
  then show "y \<notin> X" using assms(1) by (auto simp: wf_pool_def)
  show "wf_pool (insert y X) (fmupd y u (spans h)) (shards h') (nextSpan h')"
  proof (cases "poolFree (shards h i)")
    case Nil
    then have "y = nextSpan h" "shards h' = shards h" "nextSpan h' = Suc (nextSpan h)"
      using assms(2) by (auto simp: pool_New_def)
    then show ?thesis using assms(1) by (auto simp: wf_pool_def less_Suc_eq)
  next
    case (Cons z l)
    then have e: "y = z" "shards h' = (shards h)(i := (shards h i)\<lparr>poolFree := l\<rparr>)" "nextSpan h' = nextSpan h"
      using assms(2) by (auto simp: pool_New_def)
    have d: "distinct (z # l)" and sub: "\<And>x. x \<in> set (z # l) \<Longrightarrow> x < nextSpan h \<and> x |\<notin>| fmdom (spans h)"
      using assms(1) Cons unfolding wf_pool_def by metis+
    have dj: "set (z # l) \<inter> set (poolFree (shards h j)) = {}" if "j \<noteq> i" for j
      using assms(1) Cons that unfolding wf_pool_def by metis
    have pf: "poolFree (shards h' j) = (if j = i then l else poolFree (shards h j))" for j
      by (simp add: e)
    show ?thesis
      unfolding wf_pool_def
    proof (intro conjI allI ballI impI)
      fix j show "distinct (poolFree (shards h' j))"
        using d assms(1) by (auto simp: pf wf_pool_def)
      fix x assume "x \<in> set (poolFree (shards h' j))"
      then show "x < nextSpan h'" "x |\<notin>| fmdom (fmupd y u (spans h))"
        using d sub dj [of j] assms(1) by (auto simp: pf e wf_pool_def split: if_splits)
    next
      fix a b :: nat assume "a \<noteq> b"
      then show "set (poolFree (shards h' a)) \<inter> set (poolFree (shards h' b)) = {}"
        using dj [of a] dj [of b] assms(1) by (auto simp: pf wf_pool_def)
    qed (use assms(1) sub e in \<open>auto simp: wf_pool_def\<close>)
  qed
qed

definition upper_part :: "span \<Rightarrow> nat \<Rightarrow> bool \<Rightarrow> nat \<Rightarrow> span" where
  "upper_part s k c i = new_span\<lparr>pageId := pageId s + k, npages := npages s - k, isCold := c, shardId := i\<rparr>"

lemma inv_split:
  assumes "pc_inv X h" "x \<in> X" "fmlookup (spans h) x = Some s" "0 < k" "k < npages s" "i < 256"
    "split_span i x s k c h = (y, h')"
  shows "pc_inv (insert y X) h'" "y \<notin> X" "y |\<notin>| fmdom (spans h)"
    "spans h' = fmupd x (s\<lparr>npages := k\<rparr>) (fmupd y (upper_part s k c i) (spans h))"
    "\<And>j. \<exists>l. shards h' j = (shards h j)\<lparr>poolFree := l\<rparr>"
proof -
  let ?S = "spans h" and ?s = "s\<lparr>npages := k\<rparr>" and ?u = "upper_part s k c i"
  obtain h1 where n: "pool_New i h = (y, h1)"
    using assms(7) by (auto simp: split_span_def Let_def split: prod.splits)
  have R: "wf_ranges ?S" and T: "wf_tags X ?S (pmap h)" and b: "books X ?S (shards h)"
    and P: "wf_pool X ?S (shards h) (nextSpan h)" and ids: "wf_ids ?S (shards h)"
    using assms(1) by (simp_all add: inv_alt)
  have h1: "spans h1 = fmupd y new_span ?S" "pmap h1 = pmap h" "shId (shards h1 i) = i"
    "\<And>j. shId (shards h1 j) = shId (shards h j)"
    using pool_New_sel(1-3) [of i h] n ids assms(6) by (simp_all add: wf_ids_def)
  show y: "y |\<notin>| fmdom ?S" using wf_pool_fresh [OF P, of i h y] n by simp
  then have xy: "x \<noteq> y" using fmdomI [OF assms(3)] by auto
  have h': "h' = upd_span x ?s (upd_span y ?u h1)"
    using assms(7) n h1(3) by (simp add: split_span_def upper_part_def Let_def)
  show S': "spans h' = fmupd x ?s (fmupd y ?u ?S)" by (simp add: h' h1)
  show sh': "\<exists>l. shards h' j = (shards h j)\<lparr>poolFree := l\<rparr>" for j
    using pool_New_sel(5) [of i h j] n by (simp add: h')
  show "y \<notin> X" by (rule pool_New_wf(2) [OF P n])
  have u: "pageId ?u = pageId s + k" "npages ?u = npages s - k" "shardId ?u = i"
    by (simp_all add: upper_part_def)
  note sr = split_ranges [OF R assms(3) y assms(4,5) u(1,2), of ?s, simplified]
  have "pmap h' = pmap h" by (simp add: h' h1)
  moreover have "wf_tags (insert y X) (spans h') (pmap h)"
    unfolding S' by (rule wf_tags_spans [OF T sr(2) R]) (use assms(2) in \<open>auto split: if_splits\<close>)
  moreover have "books (insert y X) (spans h') (shards h')"
  proof (rule books_floating)
    show "books X ?S (shards h')" using pool_New_books [of X ?S i h] n b by (simp add: h')
  qed (use assms(2) y in \<open>auto simp: h' h1 fmdom_notD\<close>)
  moreover have "wf_pool (insert y X) (spans h') (shards h') (nextSpan h')"
  proof (rule wf_pool_cong)
    show "wf_pool (insert y X) (fmupd y ?u ?S) (shards h1) (nextSpan h')"
      using pool_New_wf(1) [OF P n] by (simp add: h')
    show "fmdom (spans h') = fmdom (fmupd y ?u ?S)"
      using fmdomI [OF assms(3)] by (auto simp: h' h1)
    show "insert y X \<subseteq> fset (fmdom (fmupd y ?u ?S))" using P by (auto simp: wf_pool_def)
  qed (simp add: h')
  moreover have "wf_ids (spans h') (shards h')"
    using ids assms(3,6) u(3) by (intro wf_ids_cong [OF ids]) (auto simp: h' h1 wf_ids_def split: if_splits)
  ultimately show "pc_inv (insert y X) h'" using sr(1) by (simp add: inv_alt h' h1)
qed

subsection \<open>Allocation from a list\<close>

text \<open>The common shape of the three allocation functions.\<close>

definition alloc_gen :: "nat \<Rightarrow> bool \<Rightarrow> nat \<Rightarrow> nat \<Rightarrow> nat list \<Rightarrow> span \<Rightarrow> nat \<Rightarrow> heap \<Rightarrow> (nat \<times> heap) option" where
  "alloc_gen i c n x rest s k h =
     (let h = upd_shard i (take_shard c n rest) h
      in finish_alloc x k
        (if npages s > k
         then let (y, h) = split_span i x s k c h
              in upd_shard i (give_shard c (npages s - k) y) (map_ends (pageId s + k) (npages s - k) y h)
         else h))"

definition used_kept :: "nat \<Rightarrow> heap \<Rightarrow> heap \<Rightarrow> bool" where
  "used_kept x h h' \<longleftrightarrow> (\<forall>z t. fmlookup (spans h) z = Some t \<and> isUse t \<longrightarrow> z \<noteq> x \<and> fmlookup (spans h') z = Some t)"

definition allocated :: "nat \<Rightarrow> nat \<Rightarrow> nat \<Rightarrow> heap \<Rightarrow> heap \<Rightarrow> bool" where
  "allocated i k x h h' \<longleftrightarrow>
     (\<exists>s. fmlookup (spans h') x = Some s \<and> isUse s \<and> \<not> isCold s \<and> npages s = k \<and> shardId s = i)
     \<and> used_kept x h h'"

definition shard_ids :: "spans \<Rightarrow> nat set" where
  "shard_ids S = {j. \<exists>x s. fmlookup S x = Some s \<and> shardId s = j}"

lemma shard_ids_upd: "shard_ids (fmupd x s S) \<subseteq> insert (shardId s) (shard_ids S)"
  by (auto simp: shard_ids_def split: if_splits)

lemma shard_ids_drop: "shard_ids (fmdrop x S) \<subseteq> shard_ids S"
  by (auto simp: shard_ids_def split: if_splits)

lemma shard_idsI: "fmlookup S x = Some s \<Longrightarrow> shardId s \<in> shard_ids S"
  by (auto simp: shard_ids_def)

lemma alloc_gen_ok:
  assumes "pc_inv {} h" "free_list (shards h i) c n = x # rest" "fmlookup (spans h) x = Some s"
    "0 < k" "k \<le> n" "i < 256"
  shows "\<exists>h'. alloc_gen i c n x rest s k h = Some (x, h') \<and> pc_inv {} h' \<and> allocated i k x h h'
    \<and> owned (spans h') = owned (spans h) \<and> shard_ids (spans h') \<subseteq> insert i (shard_ids (spans h))"
proof -
  let ?h1 = "upd_shard i (take_shard c n rest) h"
  note tk = inv_take [OF assms(1,2)]
  have s: "\<not> isUse s" "isCold s = c" "npages s = n" "shardId s = i"
    using tk(2) assms(3) by (auto simp: free_span_def)
  have s1: "fmlookup (spans ?h1) x = Some s" using assms(3) by simp
  have R: "wf_ranges (spans h)" using assms(1) by (simp add: pc_inv_def)
  show ?thesis
  proof (cases "n > k")
    case False
    then have "npages s = k" using assms(5) s(3) by simp
    then obtain h' where h': "finish_alloc x k ?h1 = Some (x, h')" "pc_inv {} h'"
        "spans h' = fmupd x (s\<lparr>isUse := True, isCold := False\<rparr>) (spans h)"
      using inv_finish [of x "{}" ?h1 s k] tk(1) s1 by auto
    have "owned (spans h') = owned (spans h)"
      using owned_upd [OF R assms(3), of "s\<lparr>isUse := True, isCold := False\<rparr>"] pages_subset_owned [OF assms(3)]
      by (auto simp: h'(3) pages_def)
    moreover have "shard_ids (spans h') \<subseteq> insert i (shard_ids (spans h))"
      using shard_ids_upd [of x "s\<lparr>isUse := True, isCold := False\<rparr>" "spans h"] s(4) by (simp add: h'(3))
    ultimately show ?thesis
      using h' False s \<open>npages s = k\<close> assms(3)
      by (auto simp: alloc_gen_def allocated_def used_kept_def)
  next
    case True
    obtain y h2 where sp: "split_span i x s k c ?h1 = (y, h2)" by fastforce
    have ks: "k < npages s" using True s(3) by simp
    note spl = inv_split [OF tk(1) _ s1 assms(4) ks assms(6) sp, simplified]
    let ?u = "upper_part s k c i" and ?s = "s\<lparr>npages := k\<rparr>"
    have xy: "x \<noteq> y" using spl(2) by auto
    have u: "fmlookup (spans h2) y = Some ?u" "\<not> isUse ?u" "isCold ?u = c" "npages ?u = n - k"
        "pageId ?u = pageId s + k" "shardId ?u = i"
      using xy s by (auto simp: spl(4) upper_part_def new_span_def)
    let ?h3 = "upd_shard i (give_shard c (n - k) y) (map_ends (pageId s + k) (n - k) y h2)"
    have "pc_inv (insert y {x}) h2" using spl(1) by simp
    from inv_give [OF this _ u(1,2,6)] have inv3: "pc_inv {x} ?h3" using xy by (simp add: u)
    have x3: "fmlookup (spans ?h3) x = Some ?s" by (simp add: spl(4))
    obtain h' where h': "finish_alloc x k ?h3 = Some (x, h')" "pc_inv {} h'"
        "spans h' = fmupd x (?s\<lparr>isUse := True, isCold := False\<rparr>) (spans ?h3)"
      using inv_finish [of x "{}" ?h3 ?s k] inv3 x3 by auto
    let ?t = "?s\<lparr>isUse := True, isCold := False\<rparr>"
    have "owned (spans h') = owned (spans h)"
    proof -
      have R3: "wf_ranges (spans ?h3)" using inv3 by (simp add: pc_inv_def)
      have "owned (spans ?h3) = owned (spans h)"
        using split_ranges(2) [OF R assms(3) _ assms(4) ks, of y ?u ?s] spl(3) u s(3) by (simp add: spl(4))
      then show ?thesis
        using owned_upd [OF R3 x3, of ?t] pages_subset_owned [OF x3] by (auto simp: h'(3) pages_def)
    qed
    moreover have "allocated i k x h h'"
    proof -
      have "fmlookup (spans h') z = Some t \<and> z \<noteq> x" if "fmlookup (spans h) z = Some t" "isUse t" for z t
        using that assms(3) s(1) spl(3) by (auto simp: h'(3) spl(4) fmdom_notD)
      then show ?thesis using s by (simp add: allocated_def used_kept_def h'(3))
    qed
    moreover have "shard_ids (spans h') \<subseteq> insert i (shard_ids (spans h))"
      using s(4) u(6) by (auto simp: h'(3) spl(4) shard_ids_def split: if_splits)
    ultimately show ?thesis using h' ks sp s by (simp add: alloc_gen_def)
  qed
qed

lemma upd_shard_upd_shard: "upd_shard i f (upd_shard i g h) = upd_shard i (f \<circ> g) h"
  by (simp add: upd_shard_def)

lemma upd_shard_map_ends: "map_ends p k x (upd_shard i f h) = upd_shard i f (map_ends p k x h)"
  by (simp add: map_ends_def map_page_def upd_shard_def)

text \<open>The primitive updates, fused.\<close>

lemma take_fused:
  "n < NPAGES \<Longrightarrow> sub_free i n (upd_shard i (\<lambda>sh. sh\<lparr>spanLists := (spanLists sh)(n := rest)\<rparr>) h)
     = upd_shard i (take_shard False n rest) h"
  "n < NPAGES \<Longrightarrow> upd_shard i (\<lambda>sh. sh\<lparr>releasedSpanLists := (releasedSpanLists sh)(n := rest)\<rparr>) h
     = upd_shard i (take_shard True n rest) h"
  "\<not> n < NPAGES \<Longrightarrow> sub_free i n (upd_large False i (large_set n rest) h) = upd_shard i (take_shard False n rest) h"
  "\<not> n < NPAGES \<Longrightarrow> upd_large True i (large_set n rest) h = upd_shard i (take_shard True n rest) h"
  by (simp_all add: sub_free_def upd_large_def take_shard_def pop_shard_def upd_shard_def)

lemma give_fused:
  "add_free i n (push_hot i n x h) = upd_shard i (give_shard False n x) h"
  "push_cold i n x h = upd_shard i (give_shard True n x) h"
  "n < NPAGES \<Longrightarrow> add_free i n (push_hot_list i n x h) = upd_shard i (give_shard False n x) h"
  "n < NPAGES \<Longrightarrow> push_cold_list i n x h = upd_shard i (give_shard True n x) h"
  by (simp_all add: add_free_def push_as_shard give_shard_def upd_shard_def push_shard_def)

lemma AllocFromHotList_gen:
  assumes "n < NPAGES" "spanLists (shards h i) n = x # rest" "fmlookup (spans h) x = Some s" "npages s = n"
  shows "AllocFromHotList i n k h = alloc_gen i False n x rest s k h"
  using assms by (auto simp: AllocFromHotList_def alloc_gen_def Let_def take_fused give_fused
      upd_shard_map_ends split_beta)

lemma AllocFromColdList_gen:
  assumes "n < NPAGES" "releasedSpanLists (shards h i) n = x # rest" "fmlookup (spans h) x = Some s" "npages s = n"
  shows "AllocFromColdList i n k h = alloc_gen i True n x rest s k h"
  using assms by (auto simp: AllocFromColdList_def alloc_gen_def Let_def take_fused give_fused
      upd_shard_map_ends split_beta)

definition erase_empty :: "nat \<Rightarrow> bool \<Rightarrow> nat \<Rightarrow> heap \<Rightarrow> heap" where
  "erase_empty i c key h = (if large_get (large_of c (shards h i)) key = []
     then upd_large c i (large_erase key) h else h)"

lemma AllocFromMap_gen:
  assumes "\<not> n < NPAGES" "large_get (large_of c (shards h i)) n = x # rest" "fmlookup (spans h) x = Some s"
    "npages s = n"
  shows "AllocFromMap i c n k h = map_option (\<lambda>(x, h). (x, erase_empty i c n h)) (alloc_gen i c n x rest s k h)"
  using assms
  by (cases c) (auto simp: AllocFromMap_def alloc_gen_def Let_def take_fused give_fused erase_empty_def
      upd_shard_map_ends split_beta split: option.split)

lemma pc_inv_erase_empty:
  assumes "pc_inv X h"
  shows "pc_inv X (erase_empty i c key h)"
proof (cases "large_get (large_of c (shards h i)) key = []")
  case True
  let ?h = "upd_large c i (large_erase key) h"
  have e: "spans ?h = spans h" "pmap ?h = pmap h" "nextSpan ?h = nextSpan h"
    "shards ?h = (shards h)(i := if c then (shards h i)\<lparr>releasedLargeSpanLists := large_erase key (releasedLargeSpanLists (shards h i))\<rparr>
      else (shards h i)\<lparr>largeSpanLists := large_erase key (largeSpanLists (shards h i))\<rparr>)"
    by (simp_all add: upd_large_def)
  have f: "poolFree (shards ?h j) = poolFree (shards h j)" "shId (shards ?h j) = shId (shards h j)"
      "totalFreePages (shards ?h j) = totalFreePages (shards h j)" for j by (simp_all add: upd_large_def)
  have l: "wf_lists X (spans h) (shards h)" and P: "wf_pool X (spans h) (shards h) (nextSpan h)"
    and ids: "wf_ids (spans h) (shards h)" using assms by (simp_all add: pc_inv_def)
  have "wf_lists X (spans ?h) (shards ?h)" unfolding e by (rule wf_lists_erase [OF l True])
  moreover have "wf_pool X (spans ?h) (shards ?h) (nextSpan ?h)"
    unfolding e(1,3) by (rule wf_pool_cong [OF P]) (use P in \<open>simp_all add: f wf_pool_def\<close>)
  ultimately have "pc_inv X ?h"
    using assms by (simp add: pc_inv_def e(1-3) wf_count_def wf_ids_def f)
  then show ?thesis using True by (simp add: erase_empty_def)
qed (simp add: erase_empty_def assms)

lemma erase_empty_sel [simp]: "spans (erase_empty i c key h) = spans h"
  by (simp add: erase_empty_def upd_large_def)

subsection \<open>Committing system memory\<close>

lemma wf_tags_new:
  assumes "wf_tags X S m" "x |\<notin>| fmdom S" "\<And>q. q \<notin> pages s \<Longrightarrow> PageMap_get m' q = PageMap_get m q"
    "\<And>q. PageMap_ready m q \<Longrightarrow> PageMap_ready m' q" "\<And>q. q \<in> pages s \<Longrightarrow> PageMap_ready m' q"
    "pages s \<inter> owned S = {}" "wf_ranges S"
  shows "wf_tags (insert x X) (fmupd x s S) m'"
proof (rule wf_tagsI)
  fix y t p assume y: "fmlookup (fmupd x s S) y = Some t"
  show "p \<in> pages t \<Longrightarrow> PageMap_ready m' p"
    using y assms(4,5) wf_tags_ready [OF assms(1)] by (auto split: if_splits)
  assume "y \<notin> insert x X"
  then have y': "fmlookup S y = Some t" "y \<notin> X" using y by auto
  then have "pages t \<inter> pages s = {}" using assms(6) pages_subset_owned by blast
  then show "tagged m' y t"
    using wf_tags_tagged [OF assms(1) y'] wf_ranges_pos [OF assms(7) y'(1)] assms(3)
    by (subst tagged_cong) auto
next
  fix p v assume "PageMap_get m' p = Some v"
  then show "p \<in> owned (fmupd x s S)"
    using assms(3) wf_tags_owned [OF assms(1), of p] owned_new [OF assms(2), of s] by (cases "p \<in> pages s") auto
qed

lemma wf_tags_get_cong:
  assumes "wf_tags X S m" "wf_ranges S" "\<And>q. PageMap_get m' q = PageMap_get m q"
    "\<And>q. PageMap_ready m q \<Longrightarrow> PageMap_ready m' q"
  shows "wf_tags X S m'"
  using assms by (auto simp: wf_tags_def tagged_def)

lemma map_loop_spec:
  assumes "map_loop p x n left m = (c, ok, m')"
  shows "n \<le> c \<and> c \<le> n + left \<and> (ok \<longleftrightarrow> c = n + left)
    \<and> (\<forall>q. PageMap_get m' q = (if p + n \<le> q \<and> q < p + c then Some x else PageMap_get m q))
    \<and> (\<forall>q. PageMap_ready m q \<longrightarrow> PageMap_ready m' q) \<and> (\<forall>q. p + n \<le> q \<and> q < p + c \<longrightarrow> PageMap_ready m' q)"
  using assms
proof (induction left arbitrary: n m)
  case (Suc left)
  obtain ok1 m1 where s: "PageMap_set m (p + n) (Some x) = (ok1, m1)" by fastforce
  have mono: "PageMap_ready m q \<Longrightarrow> PageMap_ready m1 q" for q
    using radix.ready_mono [of m q "p + n" "Some x"] by (simp add: s)
  show ?case
  proof (cases ok1)
    case True
    have "PageMap_ready m1 (p + n)" using radix.ready_set [of m "p + n" "Some x"] by (simp add: s True)
    moreover have "p + n = q \<or> p + Suc n \<le> q \<longleftrightarrow> p + n \<le> q" for q by auto
    ultimately show ?thesis
      using Suc.IH [of "Suc n" m1] Suc.prems s True radix.get_set [of m "p + n" "Some x" m1] mono
      by (auto simp: Suc_le_eq) (metis add_Suc_right le_antisym not_less_eq_eq)+
  next
    case False
    then show ?thesis
      using Suc.prems s radix.get_set_failed [of m "p + n" "Some x" m1] mono by (auto simp: s)
  qed
qed auto

definition mapped_ends :: "nat \<Rightarrow> nat \<Rightarrow> nat \<Rightarrow> nat \<Rightarrow> nat set" where
  "mapped_ends k p n c = (if k \<ge> NPAGES then {p..<p + c}
     else if c = 0 then {} else if c = 1 then {p} else {p, p + n - 1})"

lemma map_new_spec:
  assumes "map_new k p x n m = (c, ok, m')" "0 < n"
  shows "(\<forall>q. PageMap_get m' q = (if q \<in> mapped_ends k p n c then Some x else PageMap_get m q))
    \<and> (\<forall>q. PageMap_ready m q \<longrightarrow> PageMap_ready m' q) \<and> (\<forall>q \<in> mapped_ends k p n c. PageMap_ready m' q)
    \<and> (ok \<longrightarrow> c = (if k \<ge> NPAGES then n else 2)) \<and> (\<not> ok \<and> k < NPAGES \<longrightarrow> c \<le> 1)
    \<and> (k \<ge> NPAGES \<longrightarrow> c \<le> n)"
proof (cases "k \<ge> NPAGES")
  case True
  then show ?thesis
    using map_loop_spec [of p x 0 n m c ok m'] assms(1) by (simp add: map_new_def mapped_ends_def)
next
  case False
  obtain ok1 m1 where s1: "PageMap_set m p (Some x) = (ok1, m1)" by fastforce
  obtain ok2 m2 where s2: "PageMap_set m1 (p + n - 1) (Some x) = (ok2, m2)" by fastforce
  have mono: "PageMap_ready m q \<Longrightarrow> PageMap_ready m1 q" "PageMap_ready m1 q \<Longrightarrow> PageMap_ready m2 q" for q
    using radix.ready_mono [of m q p "Some x"] radix.ready_mono [of m1 q "p + n - 1" "Some x"] s1 s2
    by simp_all
  show ?thesis
  proof (cases ok1)
    case t1: True
    have r1: "PageMap_ready m1 p" using radix.ready_set [of m p "Some x"] by (simp add: s1 t1)
    note g1 = radix.get_set [of m p "Some x" m1]
    show ?thesis
    proof (cases ok2)
      case True
      have "PageMap_ready m2 (p + n - 1)"
        using radix.ready_set [of m1 "p + n - 1" "Some x"] s2 True by simp
      then show ?thesis
        using assms(1) False s1 s2 t1 True g1 radix.get_set [of m1 "p + n - 1" "Some x" m2] mono r1
        by (auto simp: map_new_def mapped_ends_def)
    next
      case f2: False
      then show ?thesis
        using assms(1) False s1 s2 t1 g1 radix.get_set_failed [of m1 "p + n - 1" "Some x" m2] mono r1
        by (auto simp: map_new_def mapped_ends_def)
    qed
  next
    case f1: False
    then show ?thesis
      using assms(1) False s1 radix.get_set_failed [of m p "Some x" m1] mono
      by (auto simp: map_new_def mapped_ends_def)
  qed
qed

lemma unmap_new_spec:
  assumes "\<forall>q \<in> mapped_ends k p n c. PageMap_ready (pmap h) q" "k < NPAGES \<longrightarrow> c \<le> 1"
  shows "PageMap_get (pmap (unmap_new k p c h)) q
      = (if q \<in> mapped_ends k p n c then None else PageMap_get (pmap h) q)"
    "PageMap_ready (pmap h) q \<Longrightarrow> PageMap_ready (pmap (unmap_new k p c h)) q"
proof -
  show "PageMap_get (pmap (unmap_new k p c h)) q
      = (if q \<in> mapped_ends k p n c then None else PageMap_get (pmap h) q)"
    using assms by (auto simp: unmap_new_def mapped_ends_def radix.get_put_all radix.get_put)
  show "PageMap_ready (pmap h) q \<Longrightarrow> PageMap_ready (pmap (unmap_new k p c h)) q"
    by (auto simp: unmap_new_def intro: radix.ready_put_all radix.ready_put)
qed

lemma unmap_new_sel [simp]:
  "spans (unmap_new k p c h) = spans h" "shards (unmap_new k p c h) = shards h"
  "nextSpan (unmap_new k p c h) = nextSpan h"
  by (simp_all add: unmap_new_def)

definition fresh_span :: "nat \<Rightarrow> nat \<Rightarrow> nat \<Rightarrow> span" where
  "fresh_span p n i = new_span\<lparr>pageId := p, npages := n, isCold := False, shardId := i\<rparr>"

text \<open>A fresh span with its pages mapped floats.\<close>

lemma inv_fresh:
  assumes "pc_inv {} h" "pool_New i h = (x, h1)" "i < 256" "0 < n \<and> 0 < p" "p + n \<le> 2 ^ 35" "{p..<p + n} \<inter> owned (spans h) = {}"
    "\<And>q. q \<notin> {p..<p + n} \<Longrightarrow> PageMap_get m' q = PageMap_get (pmap h) q"
    "\<And>q. PageMap_ready (pmap h) q \<Longrightarrow> PageMap_ready m' q" "\<And>q. q \<in> {p..<p + n} \<Longrightarrow> PageMap_ready m' q"
  shows "pc_inv {x} ((upd_span x (fresh_span p n i) h1)\<lparr>pmap := m'\<rparr>)"
    "x |\<notin>| fmdom (spans h)" "spans (upd_span x (fresh_span p n i) h1) = fmupd x (fresh_span p n i) (spans h)"
    "owned (fmupd x (fresh_span p n i) (spans h)) = owned (spans h) \<union> {p..<p + n}"
proof -
  let ?S = "spans h" and ?s = "fresh_span p n i"
  have R: "wf_ranges ?S" and T: "wf_tags {} ?S (pmap h)" and b: "books {} ?S (shards h)"
    and P: "wf_pool {} ?S (shards h) (nextSpan h)" and ids: "wf_ids ?S (shards h)"
    using assms(1) by (simp_all add: inv_alt)
  show x: "x |\<notin>| fmdom ?S" using wf_pool_fresh [OF P, of i h x] assms(2) by simp
  have h1: "spans h1 = fmupd x new_span ?S" "\<And>j. shId (shards h1 j) = shId (shards h j)"
    using pool_New_sel [of i h] assms(2) by simp_all
  show S': "spans (upd_span x ?s h1) = fmupd x ?s ?S" by (simp add: h1)
  have pg: "pages ?s = {p..<p + n}" by (simp add: pages_def fresh_span_def)
  show "owned (fmupd x ?s ?S) = owned ?S \<union> {p..<p + n}" by (simp add: owned_new [OF x] pg)
  have "wf_ranges (fmupd x ?s ?S)"
    using assms(4-6) by (intro wf_ranges_new [OF R]) (auto simp: fresh_span_def pages_def)
  moreover have "wf_tags (insert x {}) (fmupd x ?s ?S) m'"
    by (rule wf_tags_new [OF T x]) (use assms(6-9) R in \<open>auto simp: pg\<close>)
  moreover have "books {x} (fmupd x ?s ?S) (shards h1)"
  proof (rule books_floating)
    show "books {} ?S (shards h1)" using pool_New_books [of "{}" ?S i h] assms(2) b by simp
  qed (use x in \<open>auto simp: fmdom_notD\<close>)
  moreover have "wf_pool {x} (fmupd x ?s ?S) (shards h1) (nextSpan h1)"
    using pool_New_wf(1) [OF P assms(2)] by simp
  moreover have "wf_ids (fmupd x ?s ?S) (shards h1)"
    using ids assms(3) h1(2) by (auto simp: wf_ids_def fresh_span_def split: if_splits)
  ultimately show "pc_inv {x} ((upd_span x ?s h1)\<lparr>pmap := m'\<rparr>)" by (simp add: inv_alt h1)
qed

lemma fmdrop_fresh: "x |\<notin>| fmdom S \<Longrightarrow> fmdrop x (fmupd x s S) = S"
  by (intro fmap_ext) (simp add: fmdom_notD)

text \<open>A failed mapping is rolled back completely.\<close>

lemma inv_rollback:
  assumes "pc_inv {} h" "x |\<notin>| fmdom (spans h)" "spans h2 = fmupd x s (spans h)"
    "wf_pool {x} (spans h2) (shards h2) (nextSpan h2)"
    "books {} (spans h) (shards h2)" "\<And>j. shId (shards h2 j) = shId (shards h j)"
    "\<And>q. PageMap_get (pmap h2) q = PageMap_get (pmap h) q"
    "\<And>q. PageMap_ready (pmap h) q \<Longrightarrow> PageMap_ready (pmap h2) q"
  shows "pc_inv {} (pool_Delete i x h2)" "spans (pool_Delete i x h2) = spans h"
proof -
  have d: "fmdrop x (spans h2) = spans h" by (simp only: assms(3) fmdrop_fresh [OF assms(2)])
  show S: "spans (pool_Delete i x h2) = spans h" by (simp add: pool_Delete_def d)
  have m: "pmap (pool_Delete i x h2) = pmap h2" "nextSpan (pool_Delete i x h2) = nextSpan h2"
    by (simp_all add: pool_Delete_def)
  have sh: "shards (pool_Delete i x h2) j = (shards h2 j)\<lparr>poolFree :=
      (if j = i then x # poolFree (shards h2 i) else poolFree (shards h2 j))\<rparr>" for j
    by (simp add: pool_Delete_def)
  have h: "wf_ranges (spans h)" "wf_tags {} (spans h) (pmap h)" "wf_ids (spans h) (shards h)"
    using assms(1) by (simp_all add: pc_inv_def)
  have "wf_tags {} (spans h) (pmap h2)"
    by (rule wf_tags_get_cong [OF h(2,1) assms(7,8)])
  moreover have "books {} (spans h) (shards (pool_Delete i x h2))"
    by (rule books_cong [OF assms(5) sh])
  moreover have "wf_pool {} (fmdrop x (spans h2)) (shards (pool_Delete i x h2)) (nextSpan h2)"
    by (rule wf_pool_drop [OF assms(4)]) (simp_all add: sh assms(3))
  moreover have "wf_ids (spans h) (shards (pool_Delete i x h2))"
    by (rule wf_ids_cong [OF h(3)]) (use h(3) in \<open>simp_all add: sh assms(6) wf_ids_def\<close>)
  ultimately show "pc_inv {} (pool_Delete i x h2)"
    using h(1) by (simp add: inv_alt S m d)
qed

lemma PageMap_ready_bound: "PageMap_ready m p \<Longrightarrow> p < 2 ^ 35"
  using root_of_less [of p] by (simp add: PageMap_ready_alt)

definition alloc_size :: "nat \<Rightarrow> nat" where
  "alloc_size k = (if k \<ge> NPAGES then k else NPAGES - 1)"

lemma commit_span_ok:
  assumes pc_inv: "pc_inv {} h" and i: "i < 256" and k: "0 < k" and n: "n = alloc_size k"
    and p: "p = drop_bit PAGE_SHIFT ptr" "p + n \<le> 2 ^ 35" "{p..<p + n} \<inter> owned (spans h) = {}" "0 < p"
    and c: "commit_span i k ptr n h = (x, ok, h')"
  shows "pc_inv {} h' \<and> shard_ids (spans h') \<subseteq> insert i (shard_ids (spans h))
    \<and> (\<not> ok \<longrightarrow> spans h' = spans h)
    \<and> (ok \<longrightarrow> owned (spans h') = owned (spans h) \<union> {p..<p + n} \<and> used_kept x h h'
         \<and> (if k \<ge> NPAGES then allocated i k x h h' else spanLists (shards h' i) (NPAGES - 1) \<noteq> []))"
proof -
  have n0: "0 < n" and nk: "k \<ge> NPAGES \<Longrightarrow> n = k" "k < NPAGES \<Longrightarrow> n = 128"
    using k by (auto simp: n alloc_size_def NPAGES_def)
  obtain h1 where h1: "pool_New i h = (x, h1)"
    using c by (auto simp: commit_span_def Let_def split: prod.splits if_splits)
  have si: "shId (shards h1 i) = i" and pm: "pmap h1 = pmap h"
    using pool_New_sel(2,3) [of i h] h1 pc_inv i by (auto simp: pc_inv_def wf_ids_def)
  let ?s = "fresh_span p n i"
  let ?h2 = "upd_span x ?s h1"
  obtain cnt ok' m where m: "map_new k p x n (pmap h) = (cnt, ok', m)" by (cases "map_new k p x n (pmap h)")
  note ms = map_new_spec [OF m n0]
  have m_get: "PageMap_get m q = (if q \<in> mapped_ends k p n cnt then Some x else PageMap_get (pmap h) q)"
    and m_mono: "PageMap_ready (pmap h) q \<Longrightarrow> PageMap_ready m q"
    and m_rdy: "q \<in> mapped_ends k p n cnt \<Longrightarrow> PageMap_ready m q" for q
    using ms by simp_all
  have m_ok: "ok' \<Longrightarrow> cnt = (if k \<ge> NPAGES then n else 2)" and m_fail: "\<not> ok' \<Longrightarrow> k < NPAGES \<longrightarrow> cnt \<le> 1"
    and m_le: "k \<ge> NPAGES \<Longrightarrow> cnt \<le> n" using ms by simp_all
  let ?h3 = "?h2\<lparr>pmap := m\<rparr>"
  have h': "(ok, h') = (if \<not> ok' then (False, pool_Delete i x (unmap_new k p cnt ?h3))
      else if k \<ge> NPAGES then (True, upd_span x (?s\<lparr>isUse := True\<rparr>) ?h3)
      else (True, add_free i n (push_hot_list i n x ?h3)))"
    using c by (simp add: commit_span_def h1 p(1) [symmetric] fresh_span_def si m pm Let_def split: if_splits)
  have sub: "mapped_ends k p n cnt \<subseteq> {p..<p + n}"
    using m_le n0 by (auto simp: mapped_ends_def)
  have none: "PageMap_get (pmap h) q = None" if "q \<in> {p..<p + n}" for q
    using pc_inv p(3) that wf_tags_owned [of "{}" "spans h" "pmap h" q] by (cases "PageMap_get (pmap h) q") (auto simp: pc_inv_def)
  have x: "x |\<notin>| fmdom (spans h)" using wf_pool_fresh [of "{}" "spans h" "shards h" "nextSpan h" i h x] pc_inv h1
    by (simp add: pc_inv_def)
  have S3: "spans ?h3 = fmupd x ?s (spans h)" using pool_New_sel(1) [of i h] h1 by simp
  have bk: "books {} (spans h) (shards ?h3)"
    using pool_New_books [of "{}" "spans h" i h] h1 pc_inv by (simp add: inv_alt)
  show ?thesis
  proof (cases ok')
    case False
    let ?h4 = "unmap_new k p cnt ?h3"
    note um = unmap_new_spec [of k p n cnt ?h3]
    have r: "\<forall>q\<in>mapped_ends k p n cnt. PageMap_ready (pmap ?h3) q" "k < NPAGES \<longrightarrow> cnt \<le> 1"
      using m_rdy m_fail [OF False] by simp_all
    have get: "PageMap_get (pmap ?h4) q = PageMap_get (pmap h) q" for q
      unfolding um(1) [OF r, of q] using m_get [of q] none [of q] sub by auto
    have rd: "PageMap_ready (pmap ?h4) q" if "PageMap_ready (pmap h) q" for q
      by (rule um(2) [OF r]) (simp add: m_mono [OF that])
    have P: "wf_pool {x} (spans ?h4) (shards ?h4) (nextSpan ?h4)"
      using pool_New_wf(1) [of "{}" h i x h1 ?s] pc_inv h1 S3 by (simp add: pc_inv_def)
    have e4: "spans ?h4 = fmupd x ?s (spans h)" unfolding unmap_new_sel S3 ..
    have b4: "books {} (spans h) (shards ?h4)" unfolding unmap_new_sel by (rule bk)
    have i4: "shId (shards ?h4 j) = shId (shards h j)" for j
      using pool_New_sel(3) [of i h j] h1 by simp
    note rb = inv_rollback [OF pc_inv x e4 P b4 i4 get rd]
    show ?thesis using h' False rb by auto
  next
    case True
    have rd: "PageMap_ready m q" if q: "q \<in> {p..<p + n}" for q
    proof (cases "k \<ge> NPAGES")
      case t: True
      then show ?thesis using m_ok [OF True] q by (intro m_rdy) (simp add: mapped_ends_def)
    next
      case f: False
      then have "PageMap_ready m p" "PageMap_ready m (p + n - 1)"
        using m_ok [OF True] by (auto intro!: m_rdy simp: mapped_ends_def)
      moreover have "p \<le> q" "q \<le> p + n - 1" "p + n - 1 - p < 2 ^ 11" using q nk(2) f by simp_all
      ultimately show ?thesis by (rule PageMap_ready_between)
    qed
    have get: "PageMap_get m q = PageMap_get (pmap h) q" if "q \<notin> {p..<p + n}" for q
      using m_get [of q] sub that by auto
    note fr = inv_fresh [OF pc_inv h1 i conjI [OF n0 p(4)] p(2,3) get m_mono rd]
    have inv3: "pc_inv {x} ?h3" by (rule fr(1))
    have kept: "used_kept x h h''" if "\<And>z t. z \<noteq> x \<Longrightarrow> fmlookup (spans h) z = Some t \<Longrightarrow> fmlookup (spans h'') z = Some t" for h''
      unfolding used_kept_def using x that by (metis fmdomI)
    have own: "owned (fmupd x ?s (spans h)) = owned (spans h) \<union> {p..<p + n}"
      by (rule fr(4))
    show ?thesis
    proof (cases "k \<ge> NPAGES")
      case t: True
      let ?t = "?s\<lparr>isUse := True\<rparr>"
      have ok: "ok" "h' = upd_span x ?t ?h3" using h' True t by simp_all
      have S': "spans h' = fmupd x ?t (spans h)" by (simp add: ok(2) S3)
      have gx: "PageMap_get m q = Some x" if "q \<in> {p..<p + n}" for q
        using m_get [of q] m_ok [OF True] t that by (simp add: mapped_ends_def)
      then have tg: "tagged m x ?t"
        using n0 by (auto simp: tagged_def fresh_span_def pages_def)
      have R3: "wf_ranges (fmupd x ?s (spans h))" and T3: "wf_tags {x} (fmupd x ?s (spans h)) m"
        and b3: "books {x} (fmupd x ?s (spans h)) (shards h1)"
        and P3: "wf_pool {x} (fmupd x ?s (spans h)) (shards h1) (nextSpan h1)"
        and I3: "wf_ids (fmupd x ?s (spans h)) (shards h1)"
        using inv3 S3 by (simp_all add: inv_alt)
      have o: "owned (fmupd x ?t (spans h)) = owned (fmupd x ?s (spans h))"
        by (simp add: owned_new [OF x] pages_def)
      have l: "fmlookup (fmupd x ?t (spans h)) x = Some ?t" by simp
      have "wf_ranges (fmupd x ?t (spans h))"
        using wf_ranges_upd [OF R3, of x ?s ?t] n0 by (simp add: pages_def fresh_span_def)
      moreover have "wf_tags {x} (fmupd x ?t (spans h)) m"
        by (rule wf_tags_spans [OF T3 o R3]) (auto split: if_splits)
      then have "wf_tags {} (fmupd x ?t (spans h)) m" by (rule wf_tags_settle [OF _ l tg])
      moreover have "books {x} (fmupd x ?t (spans h)) (shards h1)"
        by (rule books_floating [OF b3]) auto
      then have "books {} (fmupd x ?t (spans h)) (shards h1)" by (rule books_unfloat_used [OF _ l]) simp_all
      moreover have "wf_pool {} (fmupd x ?t (spans h)) (shards h1) (nextSpan h1)"
        using P3 by (simp add: wf_pool_def)
      moreover have "wf_ids (fmupd x ?t (spans h)) (shards h1)"
        using I3 by (auto simp: wf_ids_def fresh_span_def split: if_splits)
      ultimately have "pc_inv {} h'" using S' by (simp add: inv_alt ok(2))
      moreover have "allocated i k x h h'"
        using t nk(1) by (auto simp: allocated_def S' fresh_span_def intro!: kept)
      moreover have "shard_ids (spans h') \<subseteq> insert i (shard_ids (spans h))"
        using shard_ids_upd [of x ?t "spans h"] by (simp add: S' fresh_span_def)
      ultimately show ?thesis using ok t own o S' by (simp add: allocated_def)
    next
      case f: False
      have n128: "n = NPAGES - 1" using nk(2) f by (simp add: NPAGES_def)
      then have "n < NPAGES" by (simp add: NPAGES_def)
      then have ok: "ok" "h' = upd_shard i (give_shard False n x) ?h3"
        using h' True f by (simp_all add: give_fused)
      have u: "\<not> isUse ?s" "isCold ?s = False" "npages ?s = n" "shardId ?s = i" "pageId ?s = p"
        by (simp_all add: fresh_span_def new_span_def)
      have "tagged m x ?s"
        using m_get m_ok [OF True] f by (simp add: tagged_def u mapped_ends_def)
      then have "pc_inv {} h'"
        using inv_give_tagged [of x "{}" ?h3 ?s i] inv3 S3 u by (simp add: ok)
      moreover have S': "spans h' = fmupd x ?s (spans h)" by (simp add: ok S3 [simplified])
      moreover have "x \<in> set (spanLists (shards h' i) n)"
        using \<open>n < NPAGES\<close> by (simp add: ok give_shard_def push_shard_def)
      moreover have "shard_ids (spans h') \<subseteq> insert i (shard_ids (spans h))"
        using shard_ids_upd [of x ?s "spans h"] u(4) by (simp add: S')
      ultimately show ?thesis using ok(1) f own n128 kept by auto
    qed
  qed
qed

subsection \<open>System memory is fresh\<close>

text \<open>
  What \<open>mmap\<close> documents: a request of length 0 fails, a mapping lies in user space, and it does
  not overlap memory that is already mapped (here: the pages the shards manage).
\<close>

definition mmap_ok :: "(nat \<Rightarrow> nat option) \<Rightarrow> heap \<Rightarrow> bool" where
  "mmap_ok mmap h \<longleftrightarrow> mmap 0 = None
     \<and> (\<forall>sz raw. mmap sz = Some raw \<longrightarrow> 0 < raw \<and> raw + sz \<le> 2 ^ 47
          \<and> (\<forall>p \<in> owned (spans h). (p + 1) * PAGE_SIZE \<le> raw \<or> raw + sz \<le> p * PAGE_SIZE))"

lemma SystemAlloc_Some:
  assumes "SystemAlloc mmap n = Some (ptr, rest)" "n < 2 ^ 50" "mmap 0 = None"
  obtains raw where "mmap (n * PAGE_SIZE + PAGE_SIZE) = Some raw"
    "n * PAGE_SIZE + PAGE_SIZE < W64"
    "ptr = wadd raw PAGE_ROUND_UP_NUM AND PAGE_ROUND_UP_NUM_NEGATE"
    "rest = (let prefix_len = wsub ptr raw; suffix_len = wsub PAGE_SIZE prefix_len
       in (if prefix_len > 0 then [(raw, prefix_len)] else [])
          @ (if suffix_len > 0 then [(wadd ptr (n * PAGE_SIZE), suffix_len)] else []))"
proof -
  have sz: "push_bit PAGE_SHIFT n mod W64 = n * PAGE_SIZE"
    using assms(2) by (simp add: push_bit_eq_mult PAGE_SHIFT_def PAGE_SIZE_def W64_def)
  have lt: "n * PAGE_SIZE + PAGE_SIZE < W64"
  proof (rule ccontr)
    assume "\<not> n * PAGE_SIZE + PAGE_SIZE < W64"
    then have "n * PAGE_SIZE + PAGE_SIZE = W64"
      using assms(2) by (simp add: PAGE_SIZE_def W64_def)
    then show False using assms(1,3) by (simp add: SystemAlloc_def sz wadd_def)
  qed
  then have w: "wadd (n * PAGE_SIZE) PAGE_SIZE = n * PAGE_SIZE + PAGE_SIZE" by (rule wadd_small)
  have "wsub (n * PAGE_SIZE + PAGE_SIZE) (n * PAGE_SIZE) = PAGE_SIZE"
    using lt by (subst wsub_small) simp_all
  then show thesis
    using assms(1) lt that by (auto simp: SystemAlloc_def Let_def sz w split: option.splits)
qed

lemma aligned_bounds:
  assumes "raw + PAGE_SIZE < W64" "ptr = wadd raw PAGE_ROUND_UP_NUM AND PAGE_ROUND_UP_NUM_NEGATE"
  shows "ptr = ptr div PAGE_SIZE * PAGE_SIZE" "raw \<le> ptr" "ptr < raw + PAGE_SIZE"
proof -
  have w: "wadd raw 16383 = raw + 16383" using assms(1) by (intro wadd_small) (simp add: PAGE_SIZE_def)
  have e: "ptr = (raw + 16383) div 16384 * 16384"
    using RoundUpToPage_eq [of raw] unfolding w
    by (simp add: RoundUpToPage_def PAGE_ROUND_UP_NUM_def PAGE_SIZE_def assms(2) w)
  show "ptr = ptr div PAGE_SIZE * PAGE_SIZE" by (simp add: e PAGE_SIZE_def)
  show "raw \<le> ptr" "ptr < raw + PAGE_SIZE"
    using ceil_pages [of raw] by (cases "raw = 0"; simp add: e PAGE_SIZE_def)+
qed

lemma SystemAlloc_fresh:
  assumes "SystemAlloc mmap n = Some (ptr, rest)" "n < 2 ^ 50" "mmap_ok mmap h" "p = drop_bit PAGE_SHIFT ptr"
  shows "p + n \<le> 2 ^ 35" "{p..<p + n} \<inter> owned (spans h) = {}" "0 < p"
proof -
  have z: "mmap 0 = None" using assms(3) by (simp add: mmap_ok_def)
  obtain raw where raw: "mmap (n * PAGE_SIZE + PAGE_SIZE) = Some raw"
    "ptr = wadd raw PAGE_ROUND_UP_NUM AND PAGE_ROUND_UP_NUM_NEGATE"
    by (rule SystemAlloc_Some [OF assms(1,2) z]) blast
  have b: "raw + (n * PAGE_SIZE + PAGE_SIZE) \<le> 2 ^ 47" and pos: "0 < raw"
    and dis: "\<And>q. q \<in> owned (spans h) \<Longrightarrow> (q + 1) * PAGE_SIZE \<le> raw \<or> raw + (n * PAGE_SIZE + PAGE_SIZE) \<le> q * PAGE_SIZE"
    using assms(3) raw(1) by (auto simp: mmap_ok_def)
  have "raw + PAGE_SIZE < W64" using b by (simp add: W64_def)
  note al = aligned_bounds [OF this raw(2)]
  have p: "ptr = p * PAGE_SIZE"
    using al(1) by (simp add: assms(4) drop_bit_eq_div PAGE_SHIFT_def PAGE_SIZE_def)
  show "0 < p" using al(2) pos unfolding p by (cases "p = 0") simp_all
  have pn: "(p + n) * PAGE_SIZE \<le> raw + (n * PAGE_SIZE + PAGE_SIZE)"
    using al(3) by (simp add: p algebra_simps)
  then show "p + n \<le> 2 ^ 35" using b by (simp add: PAGE_SIZE_def)
  show "{p..<p + n} \<inter> owned (spans h) = {}"
  proof (rule ccontr)
    assume "{p..<p + n} \<inter> owned (spans h) \<noteq> {}"
    then obtain q where q: "p \<le> q" "q < p + n" "q \<in> owned (spans h)" by auto
    have "q + 1 \<le> p + n" using q(2) by simp
    then have "(q + 1) * PAGE_SIZE \<le> (p + n) * PAGE_SIZE" by (rule mult_le_mono1)
    moreover have "p * PAGE_SIZE \<le> q * PAGE_SIZE" using q(1) by (rule mult_le_mono1)
    ultimately show False using dis [OF q(3)] al(2) pn unfolding p by (auto simp: PAGE_SIZE_def)
  qed
qed

subsection \<open>One round of NewSpan\<close>

lemma PageMap_set_answers':
  "p < 2 ^ 35 \<Longrightarrow> answers m = [] \<Longrightarrow> \<exists>m'. PageMap_set m p v = (True, m') \<and> answers m' = []"
  using root_of_less [of p]
  by (auto simp: PageMap_set_def Let_def radix_index EnsureRoot_def EnsureInternal_def AllocNode_def
      split: option.split)

lemma map_loop_answers:
  "answers m = [] \<Longrightarrow> p + n + left \<le> 2 ^ 35 \<Longrightarrow> fst (snd (map_loop p x n left m))"
proof (induction left arbitrary: n m)
  case (Suc left)
  obtain m' where "PageMap_set m (p + n) (Some x) = (True, m')" "answers m' = []"
    using PageMap_set_answers' [of "p + n" m "Some x"] Suc.prems by auto
  then show ?case using Suc.IH [of m' "Suc n"] Suc.prems by simp
qed simp

lemma map_new_answers:
  assumes "answers m = []" "p + n \<le> 2 ^ 35" "0 < n"
  shows "fst (snd (map_new k p x n m))"
proof (cases "k \<ge> NPAGES")
  case True
  then show ?thesis using map_loop_answers [of m p 0 n x] assms by (simp add: map_new_def)
next
  case False
  obtain m1 where 1: "PageMap_set m p (Some x) = (True, m1)" "answers m1 = []"
    using PageMap_set_answers' [of p m "Some x"] assms by auto
  have "p + n - 1 < 2 ^ 35" using assms by simp
  then obtain m2 where "PageMap_set m1 (p + n - 1) (Some x) = (True, m2)"
    using PageMap_set_answers' [of "p + n - 1" m1 "Some x"] 1(2) by blast
  then show ?thesis using False 1(1) by (simp add: map_new_def)
qed

lemma commit_span_answers:
  assumes "commit_span i k ptr n h = (x, ok, h')" "answers (pmap h) = []"
    "drop_bit PAGE_SHIFT ptr + n \<le> 2 ^ 35" "0 < n"
  shows "ok"
proof -
  obtain y h1 where n: "pool_New i h = (y, h1)" by fastforce
  have "pmap h1 = pmap h" using pool_New_sel(2) [of i h] n by simp
  then show ?thesis
    using assms(1) map_new_answers [OF assms(2-4), of k y]
    by (auto simp: commit_span_def n Let_def split: prod.splits if_splits)
qed

definition used_sub :: "heap \<Rightarrow> heap \<Rightarrow> bool" where
  "used_sub h h' \<longleftrightarrow> (\<forall>z t. fmlookup (spans h) z = Some t \<and> isUse t \<longrightarrow> fmlookup (spans h') z = Some t)"

definition map_nodes :: "nat \<Rightarrow> heap \<Rightarrow> nat" where
  "map_nodes i h = length (largeSpanLists (shards h i)) + length (releasedLargeSpanLists (shards h i))"

definition kept :: "nat \<Rightarrow> heap \<Rightarrow> heap \<Rightarrow> bool" where
  "kept i h h' \<longleftrightarrow> used_sub h h' \<and> owned (spans h) \<subseteq> owned (spans h')
     \<and> shard_ids (spans h') \<subseteq> insert i (shard_ids (spans h))"

lemma kept_refl: "kept i h h" "spans h' = spans h \<Longrightarrow> kept i h h'"
  by (auto simp: kept_def used_sub_def)

lemma kept_trans: "kept i a b \<Longrightarrow> kept i b c \<Longrightarrow> kept i a c"
  by (auto simp: kept_def used_sub_def)

definition no_memory :: "(nat \<Rightarrow> nat option) \<Rightarrow> nat \<Rightarrow> heap \<Rightarrow> bool" where
  "no_memory mmap k h \<longleftrightarrow> SystemAlloc mmap (alloc_size k) = None \<or> answers (pmap h) \<noteq> []"

definition returned :: "(nat \<Rightarrow> nat option) \<Rightarrow> nat \<Rightarrow> nat \<Rightarrow> nat option \<Rightarrow> heap \<Rightarrow> heap \<Rightarrow> bool" where
  "returned mmap i k r h h' \<longleftrightarrow> pc_inv {} h' \<and> kept i h h'
     \<and> (case r of None \<Rightarrow> spans h' = spans h \<and> no_memory mmap k h | Some x \<Rightarrow> allocated i k x h h')"

lemma allocated_kept: "allocated i k x h h' \<Longrightarrow> owned (spans h) \<subseteq> owned (spans h') \<Longrightarrow>
  shard_ids (spans h') \<subseteq> insert i (shard_ids (spans h)) \<Longrightarrow> kept i h h'"
  by (auto simp: allocated_def used_kept_def kept_def used_sub_def)

lemma returning_alloc:
  assumes "pc_inv {} h" "free_list (shards h i) c n = x # rest" "0 < k" "k \<le> n" "i < 256"
    "\<And>s. fmlookup (spans h) x = Some s \<Longrightarrow> npages s = n \<Longrightarrow> f = map_option (\<lambda>(x, h). (x, g h)) (alloc_gen i c n x rest s k h)"
    "\<And>h. pc_inv {} h \<Longrightarrow> pc_inv {} (g h) \<and> spans (g h) = spans h"
  shows "\<exists>h'. returning f = Some (Return (Some x) h') \<and> returned mmap i k (Some x) h h'"
proof -
  have "books {} (spans h) (shards h)" using assms(1) by (simp add: inv_alt)
  then have "free_span {} (spans h) i c n x"
    using assms(2) by (metis books_def list.set_intros(1) wf_lists_mem)
  then obtain s where s: "fmlookup (spans h) x = Some s" "npages s = n" by (auto simp: free_span_def)
  obtain h' where h': "alloc_gen i c n x rest s k h = Some (x, h')" "pc_inv {} h'" "allocated i k x h h'"
    "owned (spans h') = owned (spans h)" "shard_ids (spans h') \<subseteq> insert i (shard_ids (spans h))"
    using alloc_gen_ok [OF assms(1,2) s(1) assms(3-5)] by blast
  have g: "pc_inv {} (g h')" "spans (g h') = spans h'" using assms(7) [OF h'(2)] by simp_all
  have "allocated i k x h (g h')" using h'(3) unfolding allocated_def used_kept_def g(2) .
  then have "returned mmap i k (Some x) h (g h')"
    using allocated_kept [of i k x h "g h'"] h'(4,5) g by (simp add: returned_def)
  then show ?thesis using assms(6) [OF s] h'(1) by (simp add: returning_def)
qed

lemma AllocFromHotList_returned:
  assumes "pc_inv {} h" "spanLists (shards h i) n \<noteq> []" "n < NPAGES" "0 < k" "k \<le> n" "i < 256"
  shows "\<exists>x h'. returning (AllocFromHotList i n k h) = Some (Return (Some x) h') \<and> returned mmap i k (Some x) h h'"
proof -
  obtain x rest where l: "spanLists (shards h i) n = x # rest" using assms(2) by (cases "spanLists (shards h i) n") auto
  have "free_list (shards h i) False n = x # rest" using l assms(3) by (simp add: free_list_def)
  from returning_alloc [OF assms(1) this assms(4-6), of "AllocFromHotList i n k h" "\<lambda>h. h" mmap]
  show ?thesis using AllocFromHotList_gen [of n h i x rest, OF assms(3) l] by (auto simp: option.map_id)
qed

lemma AllocFromColdList_returned:
  assumes "pc_inv {} h" "releasedSpanLists (shards h i) n \<noteq> []" "n < NPAGES" "0 < k" "k \<le> n" "i < 256"
  shows "\<exists>x h'. returning (AllocFromColdList i n k h) = Some (Return (Some x) h') \<and> returned mmap i k (Some x) h h'"
proof -
  obtain x rest where l: "releasedSpanLists (shards h i) n = x # rest"
    using assms(2) by (cases "releasedSpanLists (shards h i) n") auto
  have "free_list (shards h i) True n = x # rest" using l assms(3) by (simp add: free_list_def)
  from returning_alloc [OF assms(1) this assms(4-6), of "AllocFromColdList i n k h" "\<lambda>h. h" mmap]
  show ?thesis using AllocFromColdList_gen [of n h i x rest, OF assms(3) l] by (auto simp: option.map_id)
qed

lemma AllocFromMap_returned:
  assumes "pc_inv {} h" "large_get (large_of c (shards h i)) n = x # rest" "NPAGES \<le> n" "0 < k" "k \<le> n" "i < 256"
  shows "\<exists>h'. returning (AllocFromMap i c n k h) = Some (Return (Some x) h') \<and> returned mmap i k (Some x) h h'"
proof (rule returning_alloc [OF assms(1) _ assms(4-6)])
  show "free_list (shards h i) c n = x # rest" using assms(2,3) by (simp add: free_list_def)
  show "pc_inv {} h \<Longrightarrow> pc_inv {} (erase_empty i c n h) \<and> spans (erase_empty i c n h) = spans h" for h
    by (simp add: pc_inv_erase_empty)
qed (use AllocFromMap_gen [of n c h i x rest _ k] assms(2,3) in simp)

text \<open>What one round achieves: it returns, or it continues closer to returning.\<close>

definition round_ok :: "(nat \<Rightarrow> nat option) \<Rightarrow> nat \<Rightarrow> nat \<Rightarrow> heap \<Rightarrow> iteration \<Rightarrow> bool" where
  "round_ok mmap i k h r \<longleftrightarrow> (case r of
     Return ro h' \<Rightarrow> returned mmap i k ro h h'
   | Continue h' \<Rightarrow> pc_inv {} h' \<and> kept i h h' \<and>
       (spans h' = spans h \<and> pmap h' = pmap h \<and> map_nodes i h' < map_nodes i h
        \<or> k < NPAGES \<and> spanLists (shards h' i) (NPAGES - 1) \<noteq> []))"

lemma find_from:
  assumes "List.find P (k # [k + 1..<m]) = Some n" "k < m"
  shows "P n" "k \<le> n" "n < m"
proof -
  have "P n \<and> n \<in> set (k # [k + 1..<m])"
    using assms(1) by (metis (mono_tags, lifting) find_Some_iff nth_mem)
  then show "P n" "k \<le> n" "n < m" using assms(2) by auto
qed

lemma find_from_None:
  "List.find P (k # [k + 1..<m]) = None \<Longrightarrow> k \<le> n \<Longrightarrow> n < m \<Longrightarrow> \<not> P n"
  by (auto simp: find_None_iff le_eq_less_or_eq split: if_splits)

lemma length_large_erase:
  assumes "key \<in> fst ` set m"
  shows "length (large_erase key m) < length m"
proof -
  obtain e where "e \<in> set m" "fst e = key" using assms by auto
  then show ?thesis unfolding large_erase_def by (intro length_filter_less [of e]) simp_all
qed

lemma erase_round:
  assumes "pc_inv {} h" "large_lower_bound k (large_of c (shards h i)) = Some (key, [])"
  shows "round_ok mmap i k h (Continue (upd_large c i (large_erase key) h))"
proof -
  let ?h = "upd_large c i (large_erase key) h"
  have "wf_large (large_of c (shards h i))"
    using assms(1) by (simp add: pc_inv_def wf_lists_def)
  then have lb: "key \<in> fst ` set (large_of c (shards h i))" "large_get (large_of c (shards h i)) key = []"
    using large_lower_bound_Some [OF wf_large_sorted assms(2)] by simp_all
  then have e: "erase_empty i c key h = ?h" by (simp add: erase_empty_def)
  have "spans ?h = spans h" "pmap ?h = pmap h" by (simp_all add: upd_large_def)
  moreover have "map_nodes i ?h < map_nodes i h"
    using length_large_erase [OF lb(1)] by (cases c) (simp_all add: map_nodes_def upd_large_def large_of_def)
  moreover have "pc_inv {} ?h" using pc_inv_erase_empty assms(1) by (metis e)
  ultimately show ?thesis using kept_refl(2) by (simp add: round_ok_def)
qed

lemma map_round:
  assumes "pc_inv {} h" "large_lower_bound k (large_of c (shards h i)) = Some (key, x # rest)" "0 < k" "i < 256"
  shows "\<exists>r. returning (AllocFromMap i c key k h) = Some r \<and> round_ok mmap i k h r"
proof -
  have w: "wf_large (large_of c (shards h i))" using assms(1) by (simp add: pc_inv_def wf_lists_def)
  note lb = large_lower_bound_Some [OF wf_large_sorted [OF w] assms(2)]
  have "NPAGES \<le> key" using w lb by (auto simp: wf_large_def list_all_iff)
  then show ?thesis
    using AllocFromMap_returned [OF assms(1) _ _ assms(3) _ assms(4), of c key x rest mmap] lb
    by (fastforce simp: round_ok_def)
qed

lemma commit_round:
  assumes inv: "pc_inv {} h" and i: "i < 256" and k: "0 < k" "k < 2 ^ 50" and mm: "mmap_ok mmap h"
    and sa: "SystemAlloc mmap (alloc_size k) = Some (ptr, rest)"
    and c: "commit_span i k ptr (alloc_size k) h = (x, ok, h')"
  shows "round_ok mmap i k h (if \<not> ok then Return None h'
      else if k \<ge> NPAGES then Return (Some x) h' else Continue h')"
proof -
  have n: "alloc_size k < 2 ^ 50" "0 < alloc_size k" using k by (auto simp: alloc_size_def NPAGES_def)
  note fr = SystemAlloc_fresh [OF sa n(1) mm refl]
  note co = commit_span_ok [OF inv i k(1) refl refl fr c]
  have "\<not> ok \<Longrightarrow> answers (pmap h) \<noteq> []" using commit_span_answers [OF c _ fr(1) n(2)] by blast
  moreover have "used_kept x h h' \<Longrightarrow> used_sub h h'" by (simp add: used_kept_def used_sub_def)
  ultimately show ?thesis
    using co kept_refl(2) [of h' h] by (auto simp: round_ok_def returned_def no_memory_def kept_def)
qed

lemma NewSpan_round:
  assumes inv: "pc_inv {} h" and i: "i < 256" and k: "0 < k" "k < 2 ^ 50" and mm: "mmap_ok mmap h"
  shows "\<exists>r. NewSpan_iter mmap i k h = Some r \<and> round_ok mmap i k h r"
proof -
  let ?sh = "shards h i"
  define hot where "hot = (if k < NPAGES then List.find (\<lambda>n. spanLists ?sh n \<noteq> []) (k # [k + 1..<NPAGES]) else None)"
  define cold where "cold = (if k < NPAGES then List.find (\<lambda>n. releasedSpanLists ?sh n \<noteq> []) (k # [k + 1..<NPAGES]) else None)"
  note unf = NewSpan_iter_def Let_def hot_def [symmetric] cold_def [symmetric]
  consider n where "hot = Some n" | key l where "hot = None" "large_lower_bound k (large_of False ?sh) = Some (key, l)"
    | n where "hot = None" "large_lower_bound k (large_of False ?sh) = None" "cold = Some n"
    | key l where "hot = None" "large_lower_bound k (large_of False ?sh) = None" "cold = None"
        "large_lower_bound k (large_of True ?sh) = Some (key, l)"
    | "hot = None" "large_lower_bound k (large_of False ?sh) = None" "cold = None"
        "large_lower_bound k (large_of True ?sh) = None"
    by (metis not_None_eq old.prod.exhaust)
  then show ?thesis
  proof cases
    case 1
    then have "k < NPAGES" by (simp add: hot_def split: if_splits)
    note f = find_from [OF _ this, of "\<lambda>n. spanLists ?sh n \<noteq> []" n]
    have "spanLists ?sh n \<noteq> []" "k \<le> n" "n < NPAGES" using f 1 by (simp_all add: hot_def split: if_splits)
    from AllocFromHotList_returned [OF inv this(1,3) k(1) this(2) i, of mmap]
    show ?thesis using 1 by (auto simp: unf round_ok_def)
  next
    case (2 key l)
    then show ?thesis
      using erase_round [OF inv, of k False i key mmap] map_round [OF inv, of k False i key "hd l" "tl l" mmap] k i
      by (cases l) (auto simp: unf large_of_def)
  next
    case (3 n)
    then have "k < NPAGES" by (simp add: cold_def split: if_splits)
    note f = find_from [OF _ this, of "\<lambda>n. releasedSpanLists ?sh n \<noteq> []" n]
    have "releasedSpanLists ?sh n \<noteq> []" "k \<le> n" "n < NPAGES" using f 3 by (simp_all add: cold_def split: if_splits)
    from AllocFromColdList_returned [OF inv this(1,3) k(1) this(2) i, of mmap]
    show ?thesis using 3 by (auto simp: unf round_ok_def large_of_def)
  next
    case (4 key l)
    then show ?thesis
      using erase_round [OF inv, of k True i key mmap] map_round [OF inv, of k True i key "hd l" "tl l" mmap] k i
      by (cases l) (auto simp: unf large_of_def)
  next
    case 5
    show ?thesis
    proof (cases "SystemAlloc mmap (alloc_size k)")
      case None
      then have "NewSpan_iter mmap i k h = Some (Return None h)"
        using 5 by (simp add: unf large_of_def alloc_size_def)
      then show ?thesis
        using inv None kept_refl(1) by (simp add: round_ok_def returned_def no_memory_def)
    next
      case (Some p)
      obtain ptr rest where p: "p = (ptr, rest)" by fastforce
      obtain x ok h' where c: "commit_span i k ptr (alloc_size k) h = (x, ok, h')" by (metis prod_cases3)
      have "NewSpan_iter mmap i k h = Some (if \<not> ok then Return None h'
          else if k \<ge> NPAGES then Return (Some x) h' else Continue h')"
        using 5 Some c by (simp add: unf large_of_def alloc_size_def p)
      then show ?thesis using commit_round [OF inv i k mm Some [unfolded p] c] by simp
    qed
  qed
qed

lemma NewSpan_iter_hot:
  assumes "pc_inv {} h" "0 < k" "k < NPAGES" "i < 256" "spanLists (shards h i) (NPAGES - 1) \<noteq> []"
  shows "\<exists>x h'. NewSpan_iter mmap i k h = Some (Return (Some x) h') \<and> returned mmap i k (Some x) h h'"
proof -
  let ?f = "List.find (\<lambda>n. spanLists (shards h i) n \<noteq> []) (k # [k + 1..<NPAGES])"
  obtain n where n: "?f = Some n"
  proof (cases ?f)
    case None
    have "k \<le> NPAGES - 1" "NPAGES - 1 < NPAGES" using assms(3) by simp_all
    from find_from_None [OF None this] assms(5) show ?thesis by simp
  qed
  note f = find_from [OF n assms(3)]
  from AllocFromHotList_returned [OF assms(1) f(1,3) assms(2) f(2) assms(4), of mmap]
  show ?thesis using n assms(3) by (auto simp: NewSpan_iter_def Let_def)
qed

lemma allocated_step: "kept i h h' \<Longrightarrow> allocated i k x h' h0 \<Longrightarrow> allocated i k x h h0"
  unfolding kept_def used_sub_def allocated_def used_kept_def by blast

lemma returned_step:
  assumes "kept i h h'" "returned mmap i k r h' h0" "r = None \<Longrightarrow> spans h' = spans h \<and> pmap h' = pmap h"
  shows "returned mmap i k r h h0"
  using assms kept_trans [OF assms(1), of h0] allocated_step [OF assms(1)]
  by (cases r) (simp_all add: returned_def no_memory_def)

lemma NewSpan_returned:
  assumes "pc_inv {} h" "i < 256" "0 < k" "k < 2 ^ 50" "mmap_ok mmap h" "map_nodes i h + 2 \<le> fuel"
  shows "\<exists>r h'. NewSpan fuel mmap i k h = Some (r, h') \<and> returned mmap i k r h h'"
  using assms
proof (induction fuel arbitrary: h)
  case (Suc fuel)
  obtain r where r: "NewSpan_iter mmap i k h = Some r" "round_ok mmap i k h r"
    using NewSpan_round [OF Suc.prems(1-5)] by blast
  show ?case
  proof (cases r)
    case (Return ro h')
    then show ?thesis using r by (auto simp: round_ok_def)
  next
    case (Continue h')
    then consider "spans h' = spans h" "pmap h' = pmap h" "map_nodes i h' < map_nodes i h"
      | "k < NPAGES" "spanLists (shards h' i) (NPAGES - 1) \<noteq> []"
      using r(2) by (auto simp: round_ok_def)
    then show ?thesis
    proof cases
      case 1
      have inv: "pc_inv {} h'" "kept i h h'" using Continue r(2) by (simp_all add: round_ok_def)
      have "mmap_ok mmap h'" "map_nodes i h' + 2 \<le> fuel"
        using Suc.prems(5,6) 1 by (simp_all add: mmap_ok_def)
      from Suc.IH [OF inv(1) Suc.prems(2-4) this]
      obtain r0 h0 where "NewSpan fuel mmap i k h' = Some (r0, h0)" "returned mmap i k r0 h' h0" by blast
      moreover from this(2) have "returned mmap i k r0 h h0"
        by (rule returned_step [OF inv(2)]) (simp add: 1)
      ultimately show ?thesis using r(1) Continue by simp
    next
      case 2
      have inv: "pc_inv {} h'" "kept i h h'" using Continue r(2) by (simp_all add: round_ok_def)
      obtain x h0 where "NewSpan_iter mmap i k h' = Some (Return (Some x) h0)" "returned mmap i k (Some x) h' h0"
        using NewSpan_iter_hot [OF inv(1) Suc.prems(3) 2(1) Suc.prems(2) 2(2)] by blast
      moreover from this(2) have "returned mmap i k (Some x) h h0"
        by (rule returned_step [OF inv(2)]) simp
      moreover obtain fuel' where "fuel = Suc fuel'" using Suc.prems(6) by (cases fuel) auto
      ultimately show ?thesis using r(1) Continue by simp
    qed
  qed
qed simp

subsection \<open>Merging\<close>

definition absorb :: "nat \<Rightarrow> nat \<Rightarrow> span \<Rightarrow> nat \<Rightarrow> span \<Rightarrow> heap \<Rightarrow> heap" where
  "absorb i x s' y t h =
     (let h = unlink_span y h;
          h = (if \<not> isCold t then sub_free i (npages t) h else h)
      in pool_Delete i y (upd_span x s' h))"

lemma absorb_gen:
  "absorb_left i x s y t h = absorb i x (s\<lparr>pageId := pageId t, npages := npages s + npages t\<rparr>) y t h"
  "absorb_right i x s y t h = absorb i x (s\<lparr>npages := npages s + npages t\<rparr>) y t h"
  by (simp_all add: absorb_left_def absorb_right_def absorb_def Let_def)

lemma books_free_cong:
  assumes "books X S sh" "\<And>j c n y. free_span Y S' j c n y = free_span X S j c n y"
  shows "books Y S' sh"
proof -
  have "hot_pages Y S' j = hot_pages X S j" for j
    unfolding hot_pages_def hot_set_def assms(2)
  proof (rule sum.cong)
    fix y assume "y \<in> {y. \<exists>n. free_span X S j False n y}"
    then obtain n where "free_span X S j False n y" "free_span Y S' j False n y" using assms(2) by auto
    then show "npages (the (fmlookup S' y)) = npages (the (fmlookup S y))" by (auto simp: free_span_def)
  qed simp
  then show ?thesis using assms by (simp add: books_def wf_lists_def wf_count_def)
qed

lemma unlink_shards:
  "shards (if \<not> c then sub_free i n (unlink_span y h) else unlink_span y h)
     = (\<lambda>j. unlink_shard y (shards h j))(i := (unlink_shard y (shards h i))\<lparr>totalFreePages :=
         totalFreePages (shards h i) - (if c then 0 else n)\<rparr>)"
  by (auto simp: sub_free_def unlink_span_def fun_eq_iff unlink_shard_def)

lemma pc_inv_absorb:
  assumes inv: "pc_inv {x} h" and x: "fmlookup (spans h) x = Some s" and y: "fmlookup (spans h) y = Some t"
    and xy: "y \<noteq> x" and t: "\<not> isUse t" "shardId t = i"
    and s': "pages s' = pages s \<union> pages t" "0 < npages s'" "shardId s' = shardId s"
  shows "pc_inv {x} (absorb i x s' y t h)" "spans (absorb i x s' y t h) = fmdrop y (fmupd x s' (spans h))"
    "owned (spans (absorb i x s' y t h)) = owned (spans h)"
    "shId (shards (absorb i x s' y t h) j) = shId (shards h j)"
    "releaseThreshold (shards (absorb i x s' y t h) j) = releaseThreshold (shards h j)"
proof -
  let ?S = "spans h" and ?S' = "fmdrop y (fmupd x s' (spans h))"
  let ?h1 = "if \<not> isCold t then sub_free i (npages t) (unlink_span y h) else unlink_span y h"
  have R: "wf_ranges ?S" and T: "wf_tags {x} ?S (pmap h)" and b: "books {x} ?S (shards h)"
    and P: "wf_pool {x} ?S (shards h) (nextSpan h)" and ids: "wf_ids ?S (shards h)"
    using inv by (simp_all add: inv_alt)
  have h: "absorb i x s' y t h = pool_Delete i y (upd_span x s' ?h1)" by (simp add: absorb_def)
  have f1: "spans ?h1 = ?S" "pmap ?h1 = pmap h" "nextSpan ?h1 = nextSpan h"
    by (simp_all add: sub_free_def unlink_span_def)
  show S: "spans (absorb i x s' y t h) = ?S'" using f1 by (simp add: h pool_Delete_def)
  have m: "pmap (absorb i x s' y t h) = pmap h" "nextSpan (absorb i x s' y t h) = nextSpan h"
    using f1 by (simp_all add: h pool_Delete_def)
  have sh: "shards (absorb i x s' y t h) j = (shards ?h1 j)\<lparr>poolFree :=
      (if j = i then y # poolFree (shards h i) else poolFree (shards h j))\<rparr>" for j
    by (simp add: h pool_Delete_def sub_free_def unlink_span_def unlink_shard_def)
  show ids': "shId (shards (absorb i x s' y t h) j) = shId (shards h j)"
    "releaseThreshold (shards (absorb i x s' y t h) j) = releaseThreshold (shards h j)" for j
    by (simp_all add: sh) (simp_all add: sub_free_def unlink_span_def unlink_shard_def)
  have xy': "x \<noteq> y" using xy by simp
  note mr = merge_ranges [OF R x y xy' s'(1,2)]
  show "owned (spans (absorb i x s' y t h)) = owned ?S" unfolding S by (rule mr(2))
  have fy: "free_span {x} ?S i (isCold t) (npages t) y" using y t xy by (simp add: free_span_def)
  have "books (insert y {x}) ?S (shards ?h1)"
    unfolding unlink_shards by (rule books_unlink [OF b fy refl]) simp
  then have "books {x} ?S' (shards ?h1)"
    by (rule books_free_cong) (auto simp: free_span_def)
  then have "books {x} ?S' (shards (absorb i x s' y t h))" by (rule books_cong [OF _ sh])
  moreover have "wf_tags {x} ?S' (pmap h)"
    by (rule wf_tags_spans [OF T mr(2) R]) (auto split: if_splits)
  moreover have "wf_pool {x} ?S' (shards (absorb i x s' y t h)) (nextSpan h)"
  proof (rule wf_pool_drop)
    have d: "fmdom (fmupd x s' ?S) = fmdom ?S" using fmdomI [OF x] by auto
    show "wf_pool {x} (fmupd x s' ?S) (shards h) (nextSpan h)"
      using P by (intro wf_pool_cong [OF P _ d]) (simp_all add: wf_pool_def)
    show "y |\<in>| fmdom (fmupd x s' ?S)" "{x} \<subseteq> fset (fmdom (fmupd x s' ?S)) - {y}"
      using fmdomI [OF y] fmdomI [OF x] xy by auto
  qed (simp add: sh)
  moreover have "wf_ids ?S' (shards (absorb i x s' y t h))"
    using ids x s'(3) by (intro wf_ids_cong [OF ids ids'(1)]) (auto simp: wf_ids_def split: if_splits)
  ultimately show "pc_inv {x} (absorb i x s' y t h)" using mr(1) by (simp add: inv_alt S m)
qed

definition mergeable :: "nat \<Rightarrow> nat \<Rightarrow> heap \<Rightarrow> bool" where
  "mergeable i p h \<longleftrightarrow> (\<exists>y t. fmlookup (spans h) y = Some t \<and> \<not> isUse t \<and> shardId t = i \<and> p \<in> pages t)"

text \<open>What the merging loops keep and reach, for the floating span \<open>x\<close>.\<close>

definition used_off :: "nat \<Rightarrow> heap \<Rightarrow> heap \<Rightarrow> bool" where
  "used_off x h h' \<longleftrightarrow> (\<forall>z u. z \<noteq> x \<and> fmlookup (spans h) z = Some u \<and> isUse u \<longrightarrow> fmlookup (spans h') z = Some u)"

definition config_kept :: "heap \<Rightarrow> heap \<Rightarrow> bool" where
  "config_kept h h' \<longleftrightarrow> (\<forall>j. shId (shards h' j) = shId (shards h j)
     \<and> releaseThreshold (shards h' j) = releaseThreshold (shards h j))"

lemma used_off_trans: "used_off x a b \<Longrightarrow> used_off x b c \<Longrightarrow> used_off x a c"
  unfolding used_off_def by blast

lemma config_kept_trans: "config_kept a b \<Longrightarrow> config_kept b c \<Longrightarrow> config_kept a c"
  by (simp add: config_kept_def)

lemma off_refl [simp]: "used_off x h h" "config_kept h h"
  by (simp_all add: used_off_def config_kept_def)

definition merged :: "nat \<Rightarrow> span \<Rightarrow> heap \<Rightarrow> span \<Rightarrow> heap \<Rightarrow> bool" where
  "merged x s h s' h' \<longleftrightarrow> pc_inv {x} h' \<and> fmlookup (spans h') x = Some s'
     \<and> shardId s' = shardId s \<and> isUse s' = isUse s \<and> pages s \<subseteq> pages s'
     \<and> owned (spans h') = owned (spans h) \<and> used_off x h h' \<and> config_kept h h'
     \<and> shard_ids (spans h') \<subseteq> shard_ids (spans h)"

lemma merged_refl: "pc_inv {x} h \<Longrightarrow> fmlookup (spans h) x = Some s \<Longrightarrow> merged x s h s h"
  by (simp add: merged_def)

lemma merged_trans: "merged x s h s1 h1 \<Longrightarrow> merged x s1 h1 s2 h2 \<Longrightarrow> merged x s h s2 h2"
  unfolding merged_def by (auto intro: used_off_trans config_kept_trans)

lemma merged_absorb:
  assumes "pc_inv {x} h" "fmlookup (spans h) x = Some s" "fmlookup (spans h) y = Some t" "y \<noteq> x"
    "\<not> isUse t" "shardId t = i" "shardId s' = shardId s" "pages s' = pages s \<union> pages t" "0 < npages s'"
    "isUse s' = isUse s"
  shows "merged x s h s' (absorb i x s' y t h)"
proof -
  note a = pc_inv_absorb [OF assms(1-6,8,9,7)]
  have "fmlookup (spans (absorb i x s' y t h)) x = Some s'" using assms(4) by (simp add: a(2))
  moreover have "used_off x h (absorb i x s' y t h)"
    using assms(3,5) by (auto simp: used_off_def a(2))
  moreover have "shard_ids (spans (absorb i x s' y t h)) \<subseteq> shard_ids (spans h)"
    using shard_ids_drop [of y "fmupd x s' (spans h)"] shard_ids_upd [of x s' "spans h"] shard_idsI [OF assms(2)]
      assms(7) unfolding a(2) by auto
  ultimately show ?thesis
    using a assms(7,8,10) by (simp add: merged_def config_kept_def)
qed

lemma merge_left_ok:
  assumes "pc_inv {x} h" "fmlookup (spans h) x = Some s" "i < 256"
  shows "\<exists>s' h'. merge_left i x h = Some h' \<and> merged x s h s' h'
    \<and> pageId s' + npages s' = pageId s + npages s
    \<and> (0 < pageId s' \<longrightarrow> \<not> mergeable i (pageId s' - 1) h')"
  using assms
proof (induction i x h arbitrary: s rule: merge_left.induct)
  case (1 i x h)
  have R: "wf_ranges (spans h)" and T: "wf_tags {x} (spans h) (pmap h)" and shi: "shId (shards h i) = i"
    using 1(2,4) by (simp_all add: pc_inv_def wf_ids_def)
  let ?v = "PageMap_get (pmap h) (wsub (pageId s) 1)"
  have stop: "\<not> mergeable i (pageId s - 1) h" if p: "0 < pageId s"
    and "\<And>y t. ?v = Some y \<Longrightarrow> fmlookup (spans h) y = Some t \<Longrightarrow> isUse t \<or> shardId t \<noteq> i"
  proof
    assume "mergeable i (pageId s - 1) h"
    then obtain y t where y: "fmlookup (spans h) y = Some t" "\<not> isUse t" "shardId t = i" "pageId s - 1 \<in> pages t"
      by (auto simp: mergeable_def)
    have "pageId s < W64" using wf_ranges_bound [OF R 1(3)] by (simp add: W64_def)
    then have w: "wsub (pageId s) 1 = pageId s - 1" using p by (intro wsub_small) auto
    have yx: "y \<noteq> x" using y(1,4) 1(3) p by (auto simp: pages_def)
    have "pageId s \<in> pages s" using wf_ranges_pos [OF R 1(3)] by (simp add: pages_def)
    then have "pageId s \<notin> pages t" using wf_ranges_same [OF R y(1) 1(3)] yx by blast
    then have "pageId s - 1 = pageId t + npages t - 1" using y(4) p by (auto simp: pages_def)
    then have "?v = Some y"
      using wf_tags_tagged [OF T y(1)] yx unfolding w by (simp add: tagged_def)
    then show False using that(2) y by blast
  qed
  show ?case
  proof (cases ?v)
    case None
    then have "merge_left i x h = Some h" by (simp add: merge_left.simps [of i x h] 1(3))
    then show ?thesis using merged_refl [OF 1(2,3)] stop None by auto
  next
    case (Some y)
    obtain t where y: "y \<noteq> x" "fmlookup (spans h) y = Some t" "pageId s = pageId t + npages t"
      using lookup_left [OF R T _ 1(3) Some] by auto
    show ?thesis
    proof (cases "isUse t \<or> shardId t \<noteq> i")
      case True
      then have "merge_left i x h = Some h"
        using Some y(2) by (simp add: merge_left.simps [of i x h] 1(3) shi)
      moreover have "\<And>y' t'. ?v = Some y' \<Longrightarrow> fmlookup (spans h) y' = Some t' \<Longrightarrow> isUse t' \<or> shardId t' \<noteq> i"
        using Some y(2) True by auto
      ultimately show ?thesis
        using merged_refl [OF 1(2,3)] stop by (intro exI [of _ s] exI [of _ h]) simp
    next
      case False
      let ?s = "s\<lparr>pageId := pageId t, npages := npages s + npages t\<rparr>" and ?h = "absorb_left i x s y t h"
      have "pages ?s = pages s \<union> pages t" using y(3) by (auto simp: pages_def)
      moreover have "0 < npages ?s" using wf_ranges_pos [OF R 1(3)] by simp
      ultimately have m: "merged x s h ?s ?h"
        unfolding absorb_gen using False by (intro merged_absorb [OF 1(2,3) y(2,1)]) simp_all
      then have p: "pc_inv {x} ?h" "fmlookup (spans ?h) x = Some ?s" by (simp_all add: merged_def)
      have e: "merge_left i x h = merge_left i x ?h"
        using Some y(2) False by (subst merge_left.simps) (simp add: 1(3) shi)
      have g: "\<not> (isUse t \<or> shardId t \<noteq> shId (shards h i))" using False shi by simp
      obtain s' h' where "merge_left i x ?h = Some h'" "merged x ?s ?h s' h'"
          "pageId s' + npages s' = pageId ?s + npages ?s" "0 < pageId s' \<longrightarrow> \<not> mergeable i (pageId s' - 1) h'"
        using 1(1) [OF 1(3) Some y(2) g p 1(4)] by (elim exE conjE) (rule that)
      then show ?thesis
        using e merged_trans [OF m] y(3) by (intro exI [of _ s'] exI [of _ h']) simp
    qed
  qed
qed

lemma merge_right_ok:
  assumes "pc_inv {x} h" "fmlookup (spans h) x = Some s" "i < 256" "isUse s"
  shows "\<exists>s' h'. merge_right i x h = Some h' \<and> merged x s h s' h'
    \<and> pageId s' = pageId s \<and> \<not> mergeable i (pageId s' + npages s') h'
    \<and> (\<forall>p. mergeable i p h' \<longrightarrow> mergeable i p h)"
  using assms
proof (induction i x h arbitrary: s rule: merge_right.induct)
  case (1 i x h)
  have R: "wf_ranges (spans h)" and T: "wf_tags {x} (spans h) (pmap h)" and shi: "shId (shards h i) = i"
    using 1(2,4) by (simp_all add: pc_inv_def wf_ids_def)
  let ?v = "PageMap_get (pmap h) (wadd (pageId s) (npages s))"
  have stop: "\<not> mergeable i (pageId s + npages s) h"
    if "\<And>y t. ?v = Some y \<Longrightarrow> fmlookup (spans h) y = Some t \<Longrightarrow> isUse t \<or> shardId t \<noteq> i"
  proof
    assume "mergeable i (pageId s + npages s) h"
    then obtain y t where y: "fmlookup (spans h) y = Some t" "\<not> isUse t" "shardId t = i" "pageId s + npages s \<in> pages t"
      by (auto simp: mergeable_def)
    have w: "wadd (pageId s) (npages s) = pageId s + npages s"
      using wf_ranges_bound [OF R 1(3)] by (intro wadd_small) (simp add: W64_def)
    have yx: "y \<noteq> x" using y(1,4) 1(3) by (auto simp: pages_def)
    have l: "pageId s + npages s - 1 \<in> pages s" using wf_ranges_pos [OF R 1(3)] by (simp add: pages_def)
    then have "pageId s + npages s - 1 \<notin> pages t" using wf_ranges_same [OF R y(1) 1(3)] yx by blast
    then have "pageId t = pageId s + npages s" using y(4) l by (auto simp: pages_def)
    then have "?v = Some y"
      using wf_tags_tagged [OF T y(1)] yx unfolding w by (simp add: tagged_def)
    then show False using that y by blast
  qed
  show ?case
  proof (cases ?v)
    case None
    then have "merge_right i x h = Some h" by (simp add: merge_right.simps [of i x h] 1(3))
    then show ?thesis using merged_refl [OF 1(2,3)] stop None by auto
  next
    case (Some y)
    obtain t where y: "y \<noteq> x" "fmlookup (spans h) y = Some t" "pageId t = pageId s + npages s"
      using lookup_right [OF R T _ 1(3) Some] by auto
    show ?thesis
    proof (cases "isUse t \<or> shardId t \<noteq> i")
      case True
      then have "merge_right i x h = Some h"
        using Some y(2) by (simp add: merge_right.simps [of i x h] 1(3) shi)
      moreover have "\<And>y' t'. ?v = Some y' \<Longrightarrow> fmlookup (spans h) y' = Some t' \<Longrightarrow> isUse t' \<or> shardId t' \<noteq> i"
        using Some y(2) True by auto
      ultimately show ?thesis
        using merged_refl [OF 1(2,3)] stop by (intro exI [of _ s] exI [of _ h]) simp
    next
      case False
      let ?s = "s\<lparr>npages := npages s + npages t\<rparr>" and ?h = "absorb_right i x s y t h"
      have pg: "pages ?s = pages s \<union> pages t" using y(3) by (auto simp: pages_def)
      have pos: "0 < npages ?s" using wf_ranges_pos [OF R 1(3)] by simp
      have m: "merged x s h ?s ?h"
        unfolding absorb_gen using False pg pos by (intro merged_absorb [OF 1(2,3) y(2,1)]) simp_all
      then have p: "pc_inv {x} ?h" "fmlookup (spans ?h) x = Some ?s" by (simp_all add: merged_def)
      have e: "merge_right i x h = merge_right i x ?h"
        using Some y(2) False by (subst merge_right.simps) (simp add: 1(3) shi)
      have g: "\<not> (isUse t \<or> shardId t \<noteq> shId (shards h i))" using False shi by simp
      have mg: "mergeable i q ?h \<Longrightarrow> mergeable i q h" for q
        using 1(5) by (auto simp: mergeable_def spans_absorb split: if_splits)
      have u: "isUse ?s" using 1(5) by simp
      obtain s' h' where "merge_right i x ?h = Some h'" "merged x ?s ?h s' h'"
          "pageId s' = pageId ?s" "\<not> mergeable i (pageId s' + npages s') h'"
          "\<forall>p. mergeable i p h' \<longrightarrow> mergeable i p ?h"
        using 1(1) [OF 1(3) Some y(2) g p 1(4) u] by (elim exE conjE) (rule that)
      then show ?thesis
        using e merged_trans [OF m] mg by (intro exI [of _ s'] exI [of _ h']) simp
    qed
  qed
qed

subsection \<open>Settling and cooling\<close>

lemma pc_inv_upd_floating:
  assumes "pc_inv X h" "x \<in> X" "fmlookup (spans h) x = Some s" "pageId s' = pageId s" "npages s' = npages s"
    "shardId s' = shardId s"
  shows "pc_inv X (upd_span x s' h)" "owned (spans (upd_span x s' h)) = owned (spans h)"
proof -
  let ?S = "spans h" and ?S' = "fmupd x s' (spans h)"
  have R: "wf_ranges ?S" and T: "wf_tags X ?S (pmap h)" and b: "books X ?S (shards h)"
    and P: "wf_pool X ?S (shards h) (nextSpan h)" and ids: "wf_ids ?S (shards h)"
    using assms(1) by (simp_all add: inv_alt)
  have pg: "pages s' = pages s" using assms(4,5) by (simp add: pages_def)
  have o: "owned ?S' = owned ?S"
    using owned_upd [OF R assms(3), of s'] pages_subset_owned [OF assms(3)] by (auto simp: pg)
  then show "owned (spans (upd_span x s' h)) = owned ?S" by simp
  have "wf_ranges ?S'"
    using wf_ranges_pos [OF R assms(3)] assms(5) by (intro wf_ranges_upd [OF R assms(3)]) (simp_all add: pg)
  moreover have "wf_tags X ?S' (pmap h)"
    by (rule wf_tags_spans [OF T o R]) (use assms(2) in \<open>auto split: if_splits\<close>)
  moreover have "books X ?S' (shards h)"
    by (rule books_free_cong [OF b]) (use assms(2) in \<open>auto simp: free_span_def\<close>)
  moreover have "wf_pool X ?S' (shards h) (nextSpan h)"
    using fmdomI [OF assms(3)] P by (intro wf_pool_cong [OF P]) (auto simp: wf_pool_def)
  moreover have "wf_ids ?S' (shards h)"
    using ids assms(3,6) by (intro wf_ids_cong [OF ids]) (auto simp: wf_ids_def split: if_splits)
  ultimately show "pc_inv X (upd_span x s' h)" by (simp add: inv_alt)
qed

lemma settle_span_ok:
  assumes "pc_inv {x} h" "fmlookup (spans h) x = Some s" "shardId s = i"
  shows "\<exists>h'. settle_span i x h = Some h' \<and> pc_inv {} h' \<and> config_kept h h' \<and> owned (spans h') = owned (spans h)
    \<and> spans h' = fmupd x (s\<lparr>isUse := False, isCold := False\<rparr>) (spans h)"
proof -
  let ?s = "s\<lparr>isUse := False, isCold := False\<rparr>"
  let ?h1 = "upd_span x ?s h"
  let ?h' = "upd_shard i (give_shard False (npages s) x) (map_ends (pageId s) (npages s) x ?h1)"
  have u: "pc_inv {x} ?h1" "owned (spans ?h1) = owned (spans h)"
    by (rule pc_inv_upd_floating [OF assms(1) _ assms(2)]; simp)+
  have "pc_inv {} ?h'" using inv_give [of x "{}" ?h1 ?s i] u(1) assms(3) by simp
  moreover have "settle_span i x h = Some ?h'"
    by (simp add: settle_span_def assms(2) give_fused)
  ultimately show ?thesis using u(2) by (simp add: config_kept_def)
qed

text \<open>Cooling: nothing but the cold flag of free spans changes.\<close>

definition cooled :: "heap \<Rightarrow> heap \<Rightarrow> bool" where
  "cooled h h' \<longleftrightarrow> config_kept h h'
     \<and> (\<forall>z. map_option (isCold_update (\<lambda>_. False)) (fmlookup (spans h') z)
          = map_option (isCold_update (\<lambda>_. False)) (fmlookup (spans h) z))
     \<and> (\<forall>z u. fmlookup (spans h) z = Some u \<and> isUse u \<longrightarrow> fmlookup (spans h') z = Some u)"

lemma cooled_refl [simp]: "cooled h h"
  by (simp add: cooled_def)

lemma cooled_trans: "cooled a b \<Longrightarrow> cooled b c \<Longrightarrow> cooled a c"
  unfolding cooled_def using config_kept_trans by (metis (no_types, lifting))

lemma cooled_span:
  assumes "cooled h h'" "fmlookup (spans h') z = Some t"
  shows "\<exists>u. fmlookup (spans h) z = Some u \<and> isUse u = isUse t \<and> shardId u = shardId t \<and> pages u = pages t"
proof -
  have "map_option (isCold_update (\<lambda>_. False)) (fmlookup (spans h) z) = Some (t\<lparr>isCold := False\<rparr>)"
    using assms unfolding cooled_def by (metis (no_types, lifting) option.map(2))
  then obtain u where u: "fmlookup (spans h) z = Some u" "u\<lparr>isCold := False\<rparr> = t\<lparr>isCold := False\<rparr>" by auto
  have "isUse u = isUse t" "shardId u = shardId t" "pageId u = pageId t" "npages u = npages t"
    using u(2) by (metis span.select_convs(1-8) span.surjective span.update_convs(7))+
  then show ?thesis using u(1) by (simp add: pages_def)
qed

lemma cooled_sym_span:
  assumes "cooled h h'" "fmlookup (spans h) z = Some t"
  shows "\<exists>u. fmlookup (spans h') z = Some u \<and> isUse u = isUse t \<and> shardId u = shardId t \<and> pages u = pages t"
proof -
  have "map_option (isCold_update (\<lambda>_. False)) (fmlookup (spans h') z) = Some (t\<lparr>isCold := False\<rparr>)"
    using assms unfolding cooled_def by (metis (no_types, lifting) option.map(2))
  then obtain u where u: "fmlookup (spans h') z = Some u" by auto
  obtain t' where "fmlookup (spans h) z = Some t'" "isUse t' = isUse u \<and> shardId t' = shardId u \<and> pages t' = pages u"
    using cooled_span [OF assms(1) u] by blast
  then show ?thesis using u assms(2) by auto
qed

lemma cooled_owned:
  assumes "cooled h h'"
  shows "owned (spans h') = owned (spans h)"
proof (intro set_eqI iffI)
  fix p assume "p \<in> owned (spans h')"
  then show "p \<in> owned (spans h)" using cooled_span [OF assms] by (fastforce simp: owned_def)
next
  fix p assume "p \<in> owned (spans h)"
  then show "p \<in> owned (spans h')" using cooled_sym_span [OF assms] by (fastforce simp: owned_def)
qed

lemma cooled_mergeable:
  assumes "cooled h h'"
  shows "mergeable i p h' \<longleftrightarrow> mergeable i p h"
proof
  assume "mergeable i p h'"
  then show "mergeable i p h" using cooled_span [OF assms] by (fastforce simp: mergeable_def)
next
  assume "mergeable i p h"
  then show "mergeable i p h'" using cooled_sym_span [OF assms] by (fastforce simp: mergeable_def)
qed

lemma cooled_shard_ids: "cooled h h' \<Longrightarrow> shard_ids (spans h') \<subseteq> shard_ids (spans h)"
  using cooled_span unfolding shard_ids_def by fastforce

lemma cool_ok:
  assumes "pc_inv {} h" "free_list (shards h i) False n = x # rest" "fmlookup (spans h) x = Some s"
    "sub_free i (npages s) hp = upd_shard i (take_shard False n rest) h" "spans hp = spans h"
  shows "pc_inv {} (ReleaseSpanToCold i x s hp)" "cooled h (ReleaseSpanToCold i x s hp)"
proof -
  let ?s = "s\<lparr>isCold := True\<rparr>" and ?h1 = "upd_shard i (take_shard False n rest) h"
  let ?h2 = "upd_span x ?s ?h1"
  note tk = inv_take [OF assms(1,2)]
  have s: "\<not> isUse s" "npages s = n" "shardId s = i" using tk(2) assms(3) by (auto simp: free_span_def)
  have e: "ReleaseSpanToCold i x s hp = upd_shard i (give_shard True (npages s) x) ?h2"
    by (simp add: ReleaseSpanToCold_def assms(4) give_fused)
  have i2: "pc_inv {x} ?h2"
    by (rule pc_inv_upd_floating(1) [OF tk(1) _ _]) (use assms(3) in simp_all)
  have "tagged (pmap h) x s"
    using assms(1,3) wf_tags_tagged [of "{}" "spans h" "pmap h" x s] by (simp add: pc_inv_def)
  then have "tagged (pmap ?h2) x ?s" by (simp add: tagged_def pages_def)
  then show "pc_inv {} (ReleaseSpanToCold i x s hp)"
    using inv_give_tagged [of x "{}" ?h2 ?s i] i2 s unfolding e by simp
  show "cooled h (ReleaseSpanToCold i x s hp)"
    using s(1) assms(3) by (auto simp: e cooled_def config_kept_def)
qed

lemma release_large_ok:
  assumes "pc_inv {} h"
  shows "\<exists>h'. release_large i h = Some h' \<and> pc_inv {} h' \<and> cooled h h'
    \<and> (above_threshold i h' \<longrightarrow> largeSpanLists (shards h' i) = [])"
  using assms
proof (induction i h rule: release_large.induct)
  case (1 i h)
  let ?m = "largeSpanLists (shards h i)"
  have w: "wf_large ?m"
    using 1(3) wf_lists_large [of "{}" "spans h" "shards h" False i] by (simp add: pc_inv_def large_of_def)
  show ?case
  proof (cases "above_threshold i h \<and> ?m \<noteq> []")
    case False
    then show ?thesis using 1(3) by (auto simp: release_large.simps [of i h])
  next
    case True
    obtain key l where l: "last ?m = (key, l)" by fastforce
    note wl = wf_large_last [OF w _ l]
    show ?thesis
    proof (cases l)
      case Nil
      have "large_get (large_of False (shards h i)) key = []" using wl(1) True Nil by (simp add: large_of_def)
      then have e: "upd_large False i butlast h = erase_empty i False key h"
        using wl(3) True by (simp add: erase_empty_def upd_large_def upd_shard_def)
      have h1: "pc_inv {} (erase_empty i False key h)" by (rule pc_inv_erase_empty [OF 1(3)])
      have c: "cooled h (erase_empty i False key h)"
        by (simp add: cooled_def config_kept_def) (simp add: erase_empty_def upd_large_def)
      have r: "release_large i h = release_large i (erase_empty i False key h)"
        using True l Nil e by (subst release_large.simps) simp
      obtain h' where "release_large i (erase_empty i False key h) = Some h'" "pc_inv {} h'"
          "cooled (erase_empty i False key h) h'" "above_threshold i h' \<longrightarrow> largeSpanLists (shards h' i) = []"
        using 1(1) [OF True l [symmetric] Nil] h1 e by auto
      then show ?thesis using r cooled_trans [OF c] by (intro exI [of _ h']) simp
    next
      case (Cons x rest)
      have fl: "free_list (shards h i) False key = x # rest"
        using wl(1,2) True Cons by (simp add: free_list_def large_of_def)
      have "free_span {} (spans h) i False key x"
        using wf_lists_mem [of "{}" "spans h" "shards h" x i False key] 1(3) fl by (simp add: pc_inv_def)
      then obtain s where s: "fmlookup (spans h) x = Some s" "npages s = key" by (auto simp: free_span_def)
      let ?hp = "upd_large False i (\<lambda>m. butlast m @ [(key, rest)]) h"
      have "?hp = upd_large False i (large_set key rest) h"
        using wl(4) [of rest] True by (simp add: upd_large_def upd_shard_def)
      then have "sub_free i (npages s) ?hp = upd_shard i (take_shard False key rest) h" "spans ?hp = spans h"
        using take_fused(3) [of key i rest h] wl(2) True s(2) by (simp_all add: upd_large_def)
      note cl = cool_ok [OF 1(3) fl s(1) this]
      have r: "release_large i h = release_large i (ReleaseSpanToCold i x s ?hp)"
        using True l Cons s(1) by (subst release_large.simps) simp
      obtain h' where "release_large i (ReleaseSpanToCold i x s ?hp) = Some h'" "pc_inv {} h'"
          "cooled (ReleaseSpanToCold i x s ?hp) h'" "above_threshold i h' \<longrightarrow> largeSpanLists (shards h' i) = []"
        using 1(2) [OF True l [symmetric] Cons s(1) cl(1)] by auto
      then show ?thesis using r cooled_trans [OF cl(2)] by (intro exI [of _ h']) simp
    qed
  qed
qed

lemma release_bucket_ok:
  assumes "pc_inv {} h" "n < NPAGES"
  shows "\<exists>h'. release_bucket i n h = Some h' \<and> pc_inv {} h' \<and> cooled h h'
    \<and> (above_threshold i h' \<longrightarrow> spanLists (shards h' i) n = [])
    \<and> (\<forall>m. m \<noteq> n \<longrightarrow> spanLists (shards h' i) m = spanLists (shards h i) m)
    \<and> largeSpanLists (shards h' i) = largeSpanLists (shards h i)"
  using assms
proof (induction i n h rule: release_bucket.induct)
  case (1 i n h)
  show ?case
  proof (cases "above_threshold i h \<and> spanLists (shards h i) n \<noteq> []")
    case False
    then show ?thesis using 1(2) by (auto simp: release_bucket.simps [of i n h])
  next
    case True
    then obtain x rest where l: "spanLists (shards h i) n = x # rest" by (cases "spanLists (shards h i) n") auto
    have fl: "free_list (shards h i) False n = x # rest" using l 1(3) by (simp add: free_list_def)
    have "free_span {} (spans h) i False n x"
      using wf_lists_mem [of "{}" "spans h" "shards h" x i False n] 1(2) fl by (simp add: pc_inv_def)
    then obtain s where s: "fmlookup (spans h) x = Some s" "npages s = n" by (auto simp: free_span_def)
    have "sub_free i (npages s) (pop_hot_list i n h) = upd_shard i (take_shard False n rest) h"
        "spans (pop_hot_list i n h) = spans h"
      using l 1(3) s(2)
      by (simp_all add: pop_hot_list_def take_shard_def pop_shard_def sub_free_def upd_shard_def)
    note cl = cool_ok [OF 1(2) fl s(1) this]
    let ?h1 = "ReleaseSpanToCold i x s (pop_hot_list i n h)"
    have r: "release_bucket i n h = release_bucket i n ?h1"
      using True l s(1) by (subst release_bucket.simps) simp
    have o: "spanLists (shards ?h1 i) m = spanLists (shards h i) m" if "m \<noteq> n" for m
      using that by (simp add: pop_hot_list_def)
    have g: "largeSpanLists (shards ?h1 i) = largeSpanLists (shards h i)" by (simp add: pop_hot_list_def)
    obtain h' where "release_bucket i n ?h1 = Some h'" "pc_inv {} h'" "cooled ?h1 h'"
        "above_threshold i h' \<longrightarrow> spanLists (shards h' i) n = []"
        "\<forall>m. m \<noteq> n \<longrightarrow> spanLists (shards h' i) m = spanLists (shards ?h1 i) m"
        "largeSpanLists (shards h' i) = largeSpanLists (shards ?h1 i)"
      using 1(1) [OF True refl, of s] l s(1) cl(1) 1(3) by auto
    then show ?thesis using r cooled_trans [OF cl(2)] o g by (intro exI [of _ h']) simp
  qed
qed

lemma release_small_ok:
  assumes "pc_inv {} h" "\<forall>n \<in> set ns. n < NPAGES" "distinct ns"
  shows "\<exists>h'. release_small i ns h = Some h' \<and> pc_inv {} h' \<and> cooled h h'
    \<and> (above_threshold i h' \<longrightarrow> (\<forall>n \<in> set ns. spanLists (shards h' i) n = []))
    \<and> (\<forall>m. m \<notin> set ns \<longrightarrow> spanLists (shards h' i) m = spanLists (shards h i) m)
    \<and> largeSpanLists (shards h' i) = largeSpanLists (shards h i)"
  using assms
proof (induction ns arbitrary: h)
  case (Cons n ns)
  have n: "n < NPAGES" using Cons(3) by simp
  obtain h1 where b: "release_bucket i n h = Some h1" and h1: "pc_inv {} h1" "cooled h h1"
      "above_threshold i h1 \<longrightarrow> spanLists (shards h1 i) n = []"
      "\<forall>m. m \<noteq> n \<longrightarrow> spanLists (shards h1 i) m = spanLists (shards h i) m"
      "largeSpanLists (shards h1 i) = largeSpanLists (shards h i)"
    using release_bucket_ok [OF Cons(2) n, of i] by blast
  show ?case
  proof (cases "above_threshold i h1")
    case False
    then show ?thesis using b h1 by (intro exI [of _ h1]) simp
  next
    case True
    obtain h2 where "release_small i ns h1 = Some h2" "pc_inv {} h2" "cooled h1 h2"
        "above_threshold i h2 \<longrightarrow> (\<forall>n \<in> set ns. spanLists (shards h2 i) n = [])"
        "\<forall>m. m \<notin> set ns \<longrightarrow> spanLists (shards h2 i) m = spanLists (shards h1 i) m"
        "largeSpanLists (shards h2 i) = largeSpanLists (shards h1 i)"
      using Cons(1) [OF h1(1)] Cons(3,4) by auto
    then show ?thesis
      using b True h1 Cons(4) cooled_trans [OF h1(2)] by (intro exI [of _ h2]) simp
  qed
qed (simp add: exI [of _ h])

lemma no_hot_spans:
  assumes "pc_inv {} h" "largeSpanLists (shards h i) = []" "\<And>n. 0 < n \<Longrightarrow> n < NPAGES \<Longrightarrow> spanLists (shards h i) n = []"
  shows "\<not> above_threshold i h"
proof -
  have "\<not> free_span {} (spans h) i False n x" for n x
  proof
    assume f: "free_span {} (spans h) i False n x"
    then have "0 < n" using assms(1) by (auto simp: free_span_def pc_inv_def wf_ranges_def)
    then have "free_list (shards h i) False n = []"
      using assms(2,3) by (simp add: free_list_def large_of_def)
    then show False
      using f wf_lists_mem [of "{}" "spans h" "shards h" x i False n] assms(1) by (simp add: pc_inv_def)
  qed
  then have "hot_set {} (spans h) i = {}" by (simp add: hot_set_def)
  then have "totalFreePages (shards h i) = 0"
    using assms(1) by (simp add: pc_inv_def wf_count_def hot_pages_def)
  then show ?thesis by (simp add: above_threshold_def)
qed

lemma ReleaseSome_ok:
  assumes "pc_inv {} h"
  shows "\<exists>h'. ReleaseSomeSpansToSystem i h = Some h' \<and> pc_inv {} h' \<and> cooled h h' \<and> \<not> above_threshold i h'"
proof -
  obtain h1 where h1: "release_large i h = Some h1" "pc_inv {} h1" "cooled h h1"
      "above_threshold i h1 \<longrightarrow> largeSpanLists (shards h1 i) = []"
    using release_large_ok [OF assms, of i] by blast
  show ?thesis
  proof (cases "above_threshold i h1")
    case False
    then show ?thesis using h1 by (auto simp: ReleaseSomeSpansToSystem_def)
  next
    case True
    have d: "\<forall>n \<in> set (rev [1..<NPAGES]). n < NPAGES" "distinct (rev [1..<NPAGES])" by auto
    obtain h2 where h2: "release_small i (rev [1..<NPAGES]) h1 = Some h2" "pc_inv {} h2" "cooled h1 h2"
        "above_threshold i h2 \<longrightarrow> (\<forall>n \<in> set (rev [1..<NPAGES]). spanLists (shards h2 i) n = [])"
        "largeSpanLists (shards h2 i) = largeSpanLists (shards h1 i)"
      using release_small_ok [OF h1(2) d, of i] by blast
    have "\<not> above_threshold i h2"
    proof
      assume a: "above_threshold i h2"
      then have "\<not> above_threshold i h2"
        using h2(4,5) h1(4) True by (intro no_hot_spans [OF h2(2)]) auto
      then show False using a by simp
    qed
    then show ?thesis
      using True h1(1) h2 cooled_trans [OF h1(3) h2(3)] by (simp add: ReleaseSomeSpansToSystem_def)
  qed
qed

subsection \<open>ReleaseSpan\<close>

lemma pc_inv_float_used:
  assumes "pc_inv {} h" "fmlookup (spans h) x = Some s" "isUse s"
  shows "pc_inv {x} h"
proof -
  have "books {x} (spans h) (shards h)"
    by (rule books_free_cong [of "{}"]) (use assms in \<open>auto simp: inv_alt free_span_def\<close>)
  moreover have "wf_pool {x} (spans h) (shards h) (nextSpan h)"
    using assms(1) fmdomI [OF assms(2)] by (simp add: pc_inv_def wf_pool_def)
  moreover have "wf_tags {x} (spans h) (pmap h)"
    using assms(1) by (auto simp: pc_inv_def intro: wf_tags_mono)
  ultimately show ?thesis using assms(1) by (simp add: inv_alt)
qed

lemma ReleaseSpan_ok:
  assumes "pc_inv {} h" "fmlookup (spans h) x = Some s" "isUse s" "shardId s = i" "i < 256"
  shows "\<exists>h' s'. ReleaseSpan i x h = Some h' \<and> pc_inv {} h' \<and> owned (spans h') = owned (spans h)
    \<and> used_off x h h' \<and> config_kept h h' \<and> \<not> above_threshold i h'
    \<and> shard_ids (spans h') \<subseteq> shard_ids (spans h)
    \<and> fmlookup (spans h') x = Some s' \<and> \<not> isUse s' \<and> pages s \<subseteq> pages s'
    \<and> (0 < pageId s' \<longrightarrow> \<not> mergeable i (pageId s' - 1) h') \<and> \<not> mergeable i (pageId s' + npages s') h'"
proof -
  have x0: "pc_inv {x} h" by (rule pc_inv_float_used [OF assms(1-3)])
  obtain s1 h1 where l: "merge_left i x h = Some h1" "merged x s h s1 h1"
      "0 < pageId s1 \<longrightarrow> \<not> mergeable i (pageId s1 - 1) h1"
    using merge_left_ok [OF x0 assms(2,5)] by (elim exE conjE) (rule that)
  have p1: "pc_inv {x} h1" "fmlookup (spans h1) x = Some s1" "isUse s1"
    using l(2) assms(3) by (simp_all add: merged_def)
  obtain s2 h2 where r: "merge_right i x h1 = Some h2" "merged x s1 h1 s2 h2" "pageId s2 = pageId s1"
      "\<not> mergeable i (pageId s2 + npages s2) h2" "\<forall>p. mergeable i p h2 \<longrightarrow> mergeable i p h1"
    using merge_right_ok [OF p1(1,2) assms(5) p1(3)] by (elim exE conjE) (rule that)
  have m: "merged x s h s2 h2" by (rule merged_trans [OF l(2) r(2)])
  have p2: "pc_inv {x} h2" "fmlookup (spans h2) x = Some s2" "shardId s2 = i" "isUse s2"
    using m assms(3,4) by (simp_all add: merged_def)
  let ?s = "s2\<lparr>isUse := False, isCold := False\<rparr>"
  obtain h3 where t: "settle_span i x h2 = Some h3" "pc_inv {} h3" "config_kept h2 h3"
      "owned (spans h3) = owned (spans h2)" "spans h3 = fmupd x ?s (spans h2)"
    using settle_span_ok [OF p2(1-3)] by (elim exE conjE) (rule that)
  have mg: "mergeable i p h3 \<longleftrightarrow> mergeable i p h2 \<or> p \<in> pages s2" for p
  proof
    assume "mergeable i p h3"
    then show "mergeable i p h2 \<or> p \<in> pages s2"
      by (auto simp: mergeable_def t(5) pages_def split: if_splits)
  next
    assume "mergeable i p h2 \<or> p \<in> pages s2"
    then show "mergeable i p h3"
    proof
      assume "mergeable i p h2"
      then obtain y u where "fmlookup (spans h2) y = Some u" "\<not> isUse u" "shardId u = i" "p \<in> pages u"
        by (auto simp: mergeable_def)
      moreover from this have "y \<noteq> x" using p2(2,4) by auto
      ultimately show ?thesis unfolding mergeable_def t(5) by (intro exI [of _ y] exI [of _ u]) simp
    next
      assume "p \<in> pages s2"
      then show ?thesis
        unfolding mergeable_def t(5) using p2(3) by (intro exI [of _ x] exI [of _ ?s]) (simp add: pages_def)
    qed
  qed
  have uo: "used_off x h h3"
    using m by (rule_tac used_off_trans [of x h h2]) (auto simp: merged_def used_off_def t(5))
  obtain h4 where f: "(if above_threshold i h3 then ReleaseSomeSpansToSystem i h3 else Some h3) = Some h4"
      "pc_inv {} h4" "cooled h3 h4" "\<not> above_threshold i h4"
  proof (cases "above_threshold i h3")
    case True
    then show ?thesis using ReleaseSome_ok [OF t(2), of i] that by auto
  qed (use that t(2) cooled_refl in auto)
  have x3: "fmlookup (spans h3) x = Some ?s" by (simp add: t(5))
  obtain s' where s': "fmlookup (spans h4) x = Some s'" "isUse s' = isUse ?s" "shardId s' = i"
      "pages s' = pages ?s"
    using cooled_sym_span [OF f(3) x3] p2(3) by auto
  have pos: "0 < npages s'" "0 < npages ?s"
    using f(2) t(2) wf_ranges_pos [OF _ s'(1)] wf_ranges_pos [OF _ x3] by (simp_all add: pc_inv_def)
  have eq: "pageId s' = pageId s2" "npages s' = npages s2"
    using s'(4) pos by (auto simp: pages_def atLeastLessThan_eq_iff)
  have "ReleaseSpan i x h = Some h4" using l(1) r(1) t(1) f(1) by (simp add: ReleaseSpan_def)
  moreover have "owned (spans h4) = owned (spans h)"
    using cooled_owned [OF f(3)] t(4) m by (simp add: merged_def)
  moreover have "used_off x h h4" using uo f(3) unfolding used_off_def cooled_def by blast
  moreover have "config_kept h h4"
    using m t(3) f(3) by (auto simp: merged_def cooled_def intro: config_kept_trans)
  moreover have "pages s \<subseteq> pages s'" using m s'(4) by (simp add: merged_def pages_def)
  moreover have "0 < pageId s' \<longrightarrow> \<not> mergeable i (pageId s' - 1) h4"
    using l(3) r(3,5) by (auto simp: cooled_mergeable [OF f(3)] mg eq pages_def)
  moreover have "\<not> mergeable i (pageId s' + npages s') h4"
    using r(4) by (simp add: cooled_mergeable [OF f(3)] mg eq) (simp add: pages_def)
  moreover have "shard_ids (spans h4) \<subseteq> shard_ids (spans h)"
  proof -
    have "shard_ids (spans h3) \<subseteq> shard_ids (spans h2)"
      using shard_ids_upd [of x ?s "spans h2"] shard_idsI [OF p2(2)] by (auto simp: t(5))
    then show ?thesis using cooled_shard_ids [OF f(3)] m by (auto simp: merged_def)
  qed
  ultimately show ?thesis using f(2,4) s'(1,2) by (intro exI [of _ h4] exI [of _ s']) simp
qed

end
