(* ===== verification/PageHeap.thy ===== *)
theory PageHeap
  imports PageCacheOps
begin

text \<open>
  The global page heap (\<open>PageHeap\<close> in \<open>KzAlloc/PageCache.h\<close> and \<open>KzAlloc/PageCache.cpp\<close>):
  the shard count, routing of threads to shards, lazy construction of shards (as an atomic
  step, and as a step relation of competing threads), allocation and release through the
  routed shard. The properties of the page cache are stated here.
\<close>

subsection \<open>Construction and routing\<close>

text \<open>The doubling loop; the guard on 0 only makes the function total (the loop starts at 1).\<close>

function shard_count_loop :: "nat \<Rightarrow> nat \<Rightarrow> nat" where
  "shard_count_loop c target = (if c < target \<and> c \<noteq> 0 then shard_count_loop (push_bit 1 c) target else c)"
  by pat_completeness auto
termination
  by (relation "measure (\<lambda>(c, t). t - c)") (auto simp: push_bit_eq_mult)

declare shard_count_loop.simps [simp del]

definition target_shards :: "nat \<Rightarrow> nat" where
  "target_shards cores = (let cores = (if cores = 0 then 8 else cores)
     in if cores \<ge> 32 then cores * 4 else cores * 2)"

record page_heap =
  shardCount :: nat
  shardMask :: nat
  init_state :: "nat \<Rightarrow> nat"
  thread_index :: "nat \<rightharpoonup> nat"
  thread_counter :: nat
  ph_heap :: heap

definition GetSystemPhysicalMemory :: "int \<Rightarrow> int \<Rightarrow> nat" where
  "GetSystemPhysicalMemory phys_pages page_size =
     (if phys_pages > 0 \<and> page_size > 0 then (nat phys_pages * nat page_size) mod W64
      else 8 * 1024 * 1024 * 1024)"

definition new_shard :: "nat \<Rightarrow> nat \<Rightarrow> shard" where
  "new_shard thresholdPages i = \<lparr>spanLists = (\<lambda>_. []), largeSpanLists = [],
     releasedSpanLists = (\<lambda>_. []), releasedLargeSpanLists = [], poolFree = [],
     totalFreePages = 0, releaseThreshold = thresholdPages, shId = i\<rparr>"

definition PageHeap_init :: "nat \<Rightarrow> bool list \<Rightarrow> page_heap" where
  "PageHeap_init cores os_answers =
     (let shard_cnt = shard_count_loop 1 (target_shards cores)
      in \<lparr>shardCount = shard_cnt, shardMask = shard_cnt - 1, init_state = (\<lambda>_. 0),
          thread_index = Map.empty, thread_counter = 0,
          ph_heap = \<lparr>spans = fmempty, pmap = \<lparr>root = Map.empty, answers = os_answers\<rparr>,
                     shards = (\<lambda>i. new_shard 256 i), nextSpan = 0\<rparr>\<rparr>)"

definition shard_threshold :: "nat \<Rightarrow> nat \<Rightarrow> nat" where
  "shard_threshold totalRam shard_cnt =
     (let maxCacheBytes = totalRam div 4;
          hardLimit = 4 * 1024 * 1024 * 1024;
          maxCacheBytes = (if maxCacheBytes > hardLimit then hardLimit else maxCacheBytes);
          totalThresholdPages = drop_bit PAGE_SHIFT maxCacheBytes;
          shardThreshold = totalThresholdPages div shard_cnt
      in if shardThreshold < 4096 then 4096 else shardThreshold)"

definition GetShard :: "nat \<Rightarrow> nat \<Rightarrow> page_heap \<Rightarrow> page_heap" where
  "GetShard totalRam idx ph =
     (if init_state ph idx = 2 then ph
      else ph\<lparr>init_state := (init_state ph)(idx := 2),
              ph_heap := upd_shard idx
                (\<lambda>_. new_shard (shard_threshold totalRam (shardCount ph)) (idx mod 256)) (ph_heap ph)\<rparr>)"

definition GetShardIndex :: "nat \<Rightarrow> page_heap \<Rightarrow> nat \<times> page_heap" where
  "GetShardIndex tid ph =
     (case thread_index ph tid of Some i \<Rightarrow> (i, ph)
      | None \<Rightarrow> let i = thread_counter ph AND shardMask ph
                in (i, ph\<lparr>thread_index := (thread_index ph)(tid \<mapsto> i),
                          thread_counter := wadd (thread_counter ph) 1\<rparr>))"

text \<open>The fuel is one more than the number of rounds the loop can take.\<close>

definition PageHeap_NewSpan :: "(nat \<Rightarrow> nat option) \<Rightarrow> nat \<Rightarrow> nat \<Rightarrow> nat \<Rightarrow> page_heap \<Rightarrow> (nat option \<times> page_heap) option" where
  "PageHeap_NewSpan mmap totalRam tid k ph =
     (let (idx, ph) = GetShardIndex tid ph;
          ph = GetShard totalRam idx ph
      in case NewSpan (map_nodes idx (ph_heap ph) + 2) mmap idx k (ph_heap ph) of
           None \<Rightarrow> None
         | Some (None, h) \<Rightarrow> Some (None, ph\<lparr>ph_heap := h\<rparr>)
         | Some (Some x, h) \<Rightarrow>
           (case fmlookup (spans h) x of None \<Rightarrow> None
            | Some s \<Rightarrow> Some (Some x, ph\<lparr>ph_heap := upd_span x (s\<lparr>shardId := idx mod 256\<rparr>) h\<rparr>)))"

definition PageHeap_ReleaseSpan :: "nat \<Rightarrow> nat option \<Rightarrow> page_heap \<Rightarrow> page_heap option" where
  "PageHeap_ReleaseSpan totalRam sp ph =
     (case sp of None \<Rightarrow> Some ph
      | Some x \<Rightarrow>
        (case fmlookup (spans (ph_heap ph)) x of None \<Rightarrow> None
         | Some s \<Rightarrow>
           (let idx = shardId s; ph = GetShard totalRam idx ph
            in map_option (\<lambda>h. ph\<lparr>ph_heap := h\<rparr>) (ReleaseSpan idx x (ph_heap ph)))))"

subsection \<open>Routing lemmas\<close>

lemma shard_count_loop_spec:
  "c = 2 ^ a \<Longrightarrow> (\<exists>b. shard_count_loop c t = 2 ^ b) \<and> t \<le> shard_count_loop c t
     \<and> (shard_count_loop c t = c \<or> shard_count_loop c t < 2 * t)"
proof (induction c t arbitrary: a rule: shard_count_loop.induct)
  case (1 c t)
  show ?case
  proof (cases "c < t")
    case True
    have p: "push_bit 1 c = 2 ^ Suc a" by (simp add: push_bit_eq_mult 1(2))
    have c: "c \<noteq> 0" by (simp add: 1(2))
    have e: "shard_count_loop c t = shard_count_loop (push_bit 1 c) t"
      using True c by (subst shard_count_loop.simps) simp
    have "shard_count_loop (push_bit 1 c) t = push_bit 1 c \<Longrightarrow> shard_count_loop (push_bit 1 c) t < 2 * t"
      using True by (simp add: push_bit_eq_mult)
    then show ?thesis unfolding e using 1(1) [OF _ p] True c by blast
  next
    case False
    then have "shard_count_loop c t = c" by (subst shard_count_loop.simps) simp
    then show ?thesis using False 1(2) by auto
  qed
qed

lemma shard_count_loop_le:
  assumes "t \<le> 2 ^ n"
  shows "shard_count_loop 1 t \<le> 2 ^ n"
proof -
  obtain b where b: "shard_count_loop 1 t = 2 ^ b" "shard_count_loop 1 t = 1 \<or> shard_count_loop 1 t < 2 * t"
    using shard_count_loop_spec [of 1 0 t, OF power_0 [symmetric]] by blast
  show ?thesis
  proof (rule ccontr)
    assume "\<not> ?thesis"
    then have "(2::nat) ^ n < 2 ^ b" unfolding b(1) by simp
    then have "n < b" by simp
    then have "2 * 2 ^ n \<le> (2::nat) ^ b" by (metis Suc_leI power_Suc power_increasing one_le_numeral)
    then have "2 * t \<le> shard_count_loop 1 t" using assms b(1) by linarith
    moreover have "1 < shard_count_loop 1 t" unfolding b(1) using \<open>n < b\<close> by (intro one_less_power) simp_all
    ultimately show False using b(2) by simp
  qed
qed

lemma shard_count_256: "cores \<le> 64 \<Longrightarrow> shard_count_loop 1 (target_shards cores) \<le> 256"
  using shard_count_loop_le [of "target_shards cores" 8] by (simp add: target_shards_def Let_def split: if_splits)

subsection \<open>The invariant of the page heap\<close>

definition ph_inv :: "page_heap \<Rightarrow> bool" where
  "ph_inv ph \<longleftrightarrow> pc_inv {} (ph_heap ph) \<and> shardCount ph \<le> 256 \<and> 0 < shardCount ph
     \<and> pow2 (shardCount ph) \<and> shardMask ph = shardCount ph - 1
     \<and> (\<forall>j \<in> shard_ids (spans (ph_heap ph)). init_state ph j = 2)
     \<and> (\<forall>t i. thread_index ph t = Some i \<longrightarrow> i < shardCount ph)"

lemma pc_inv_start:
  "pc_inv {} \<lparr>spans = fmempty, pmap = \<lparr>root = Map.empty, answers = as\<rparr>, shards = (\<lambda>i. new_shard thr i), nextSpan = 0\<rparr>"
  by (simp add: pc_inv_def wf_ranges_def wf_tags_def wf_lists_def wf_count_def wf_pool_def wf_ids_def
      new_shard_def free_list_def large_of_def wf_large_def free_span_def hot_pages_def hot_set_def
      PageMap_get_alt)

lemma ph_inv_init: "cores \<le> 64 \<Longrightarrow> ph_inv (PageHeap_init cores as)"
proof -
  assume c: "cores \<le> 64"
  note sp = shard_count_loop_spec [of 1 0 "target_shards cores", OF power_0 [symmetric]]
  obtain b where "shard_count_loop 1 (target_shards cores) = 2 ^ b" using sp by blast
  then show ?thesis
    using shard_count_256 [OF c] pc_inv_start
    by (auto simp: ph_inv_def PageHeap_init_def Let_def pow2_def shard_ids_def)
qed

lemma books_new_shard:
  assumes "books X S sh" "\<And>x s. fmlookup S x = Some s \<Longrightarrow> shardId s \<noteq> j"
  shows "books X S (sh(j := new_shard thr j'))"
proof -
  have f: "\<not> free_span X S j c n x" for c n x using assms(2) by (auto simp: free_span_def)
  then have "hot_pages X S j = 0" by (simp add: hot_pages_def hot_set_def)
  then show ?thesis
    using assms(1) f
    by (auto simp: books_def wf_lists_def wf_count_def new_shard_def free_list_def large_of_def wf_large_def)
qed

lemma ph_inv_GetShard:
  assumes "ph_inv ph" "idx < shardCount ph"
  shows "ph_inv (GetShard ram idx ph)" "init_state (GetShard ram idx ph) idx = 2"
    "spans (ph_heap (GetShard ram idx ph)) = spans (ph_heap ph)"
    "pmap (ph_heap (GetShard ram idx ph)) = pmap (ph_heap ph)"
    "shardCount (GetShard ram idx ph) = shardCount ph"
proof -
  show "init_state (GetShard ram idx ph) idx = 2"
    "spans (ph_heap (GetShard ram idx ph)) = spans (ph_heap ph)"
    "pmap (ph_heap (GetShard ram idx ph)) = pmap (ph_heap ph)"
    "shardCount (GetShard ram idx ph) = shardCount ph"
    by (simp_all add: GetShard_def)
  show "ph_inv (GetShard ram idx ph)"
  proof (cases "init_state ph idx = 2")
    case False
    let ?h = "ph_heap ph" and ?n = "new_shard (shard_threshold ram (shardCount ph)) (idx mod 256)"
    have inv: "pc_inv {} ?h" and i: "idx < 256" using assms by (simp_all add: ph_inv_def)
    have none: "shardId s \<noteq> idx" if "fmlookup (spans ?h) x = Some s" for x s
      using assms(1) False shard_idsI [OF that] by (auto simp: ph_inv_def)
    have "books {} (spans ?h) ((shards ?h)(idx := ?n))"
      by (rule books_new_shard) (use inv none in \<open>auto simp: inv_alt\<close>)
    moreover have "wf_pool {} (spans ?h) ((shards ?h)(idx := ?n)) (nextSpan ?h)"
      using inv by (auto simp: pc_inv_def wf_pool_def new_shard_def)
    moreover have "wf_ids (spans ?h) ((shards ?h)(idx := ?n))"
      using inv i by (auto simp: pc_inv_def wf_ids_def new_shard_def)
    ultimately have "pc_inv {} (upd_shard idx (\<lambda>_. ?n) ?h)" using inv by (simp add: inv_alt)
    then show ?thesis using assms(1) False by (auto simp: ph_inv_def GetShard_def)
  qed (use assms(1) in \<open>simp add: GetShard_def\<close>)
qed

lemma ph_inv_GetShardIndex:
  assumes "ph_inv ph" "GetShardIndex tid ph = (idx, ph')"
  shows "ph_inv ph'" "idx < shardCount ph'" "ph_heap ph' = ph_heap ph"
proof -
  have "thread_counter ph AND shardMask ph < shardCount ph"
    using assms(1) pow2_and [of "shardCount ph" "thread_counter ph"] by (simp add: ph_inv_def)
  then show "ph_inv ph'" "idx < shardCount ph'" "ph_heap ph' = ph_heap ph"
    using assms by (auto simp: GetShardIndex_def ph_inv_def Let_def split: option.splits if_splits)
qed

lemma fmupd_same: "fmlookup S x = Some s \<Longrightarrow> fmupd x s S = S"
  by (intro fmap_ext) auto

lemma returned_cong:
  "spans h1 = spans h2 \<Longrightarrow> pmap h1 = pmap h2 \<Longrightarrow> returned mmap i k r h1 h' \<longleftrightarrow> returned mmap i k r h2 h'"
  unfolding returned_def kept_def used_sub_def no_memory_def allocated_def used_kept_def
  by (cases r) simp_all

text \<open>Allocation through the heap: what \<open>NewSpan\<close> of the routed shard does.\<close>

lemma PageHeap_NewSpan_ok:
  assumes "ph_inv ph" "0 < k" "k < 2 ^ 50" "mmap_ok mmap (ph_heap ph)"
  shows "\<exists>r ph' i. PageHeap_NewSpan mmap ram tid k ph = Some (r, ph') \<and> ph_inv ph'
    \<and> i < 256 \<and> returned mmap i k r (ph_heap ph) (ph_heap ph')"
proof -
  obtain idx ph1 where g: "GetShardIndex tid ph = (idx, ph1)" by fastforce
  note p1 = ph_inv_GetShardIndex [OF assms(1) g]
  let ?ph = "GetShard ram idx ph1"
  note p2 = ph_inv_GetShard [OF p1(1,2), of ram]
  have i: "idx < 256" using p1(1,2) by (simp add: ph_inv_def)
  have inv: "pc_inv {} (ph_heap ?ph)" using p2(1) by (simp add: ph_inv_def)
  have mm: "mmap_ok mmap (ph_heap ?ph)" using assms(4) p2(3) p1(3) by (simp add: mmap_ok_def)
  obtain r h where n: "NewSpan (map_nodes idx (ph_heap ?ph) + 2) mmap idx k (ph_heap ?ph) = Some (r, h)"
      "returned mmap idx k r (ph_heap ?ph) h"
    using NewSpan_returned [OF inv i assms(2,3) mm order_refl] by blast
  have ids: "shard_ids (spans h) \<subseteq> insert idx (shard_ids (spans (ph_heap ?ph)))"
    using n(2) by (simp add: returned_def kept_def)
  have phi: "ph_inv (?ph\<lparr>ph_heap := h\<rparr>)"
    using p2(1,2) ids n(2) by (auto simp: ph_inv_def returned_def)
  have ret: "returned mmap idx k r (ph_heap ph) h"
    using n(2) returned_cong [of "ph_heap ?ph" "ph_heap ph"] p2(3,4) p1(3) by simp
  show ?thesis
  proof (cases r)
    case None
    then show ?thesis
      using n(1) phi ret i by (intro exI [of _ r] exI [of _ "?ph\<lparr>ph_heap := h\<rparr>"] exI [of _ idx])
        (simp add: PageHeap_NewSpan_def g)
  next
    case (Some x)
    then obtain s where s: "fmlookup (spans h) x = Some s" "shardId s = idx"
      using n(2) by (auto simp: returned_def allocated_def)
    have "upd_span x (s\<lparr>shardId := idx mod 256\<rparr>) h = h"
      using s i by (simp add: upd_span_def fmupd_same)
    then show ?thesis
      using n(1) phi ret i s Some by (intro exI [of _ r] exI [of _ "?ph\<lparr>ph_heap := h\<rparr>"] exI [of _ idx])
        (simp add: PageHeap_NewSpan_def g)
  qed
qed

lemma PageHeap_ReleaseSpan_ok:
  assumes "ph_inv ph" "fmlookup (spans (ph_heap ph)) x = Some s" "isUse s"
  shows "\<exists>ph'. PageHeap_ReleaseSpan ram (Some x) ph = Some ph' \<and> ph_inv ph'
    \<and> ReleaseSpan (shardId s) x (ph_heap ph) = Some (ph_heap ph')"
proof -
  have st: "init_state ph (shardId s) = 2"
    using assms(1) shard_idsI [OF assms(2)] by (auto simp: ph_inv_def)
  have inv: "pc_inv {} (ph_heap ph)" and i: "shardId s < 256"
    using assms(1,2) by (auto simp: ph_inv_def pc_inv_def wf_ids_def)
  obtain h' where r: "ReleaseSpan (shardId s) x (ph_heap ph) = Some h'" "pc_inv {} h'"
      "shard_ids (spans h') \<subseteq> shard_ids (spans (ph_heap ph))"
    using ReleaseSpan_ok [OF inv assms(2,3) refl i] by (elim exE conjE) (rule that)
  then show ?thesis
    using assms st by (intro exI [of _ "ph\<lparr>ph_heap := h'\<rparr>"])
      (auto simp: PageHeap_ReleaseSpan_def GetShard_def ph_inv_def)
qed

subsection \<open>Histories of the page heap\<close>

text \<open>
  Any interleaving of allocations and releases by any threads; one call is one step, as the
  shard's mutex makes it. A release names a span that is in use.
\<close>

inductive ph_reachable :: "nat \<Rightarrow> page_heap \<Rightarrow> bool" for cores :: nat where
  start: "ph_reachable cores (PageHeap_init cores os_answers)"
| alloc: "ph_reachable cores ph \<Longrightarrow> 0 < k \<Longrightarrow> k < 2 ^ 50 \<Longrightarrow> mmap_ok mmap (ph_heap ph)
    \<Longrightarrow> PageHeap_NewSpan mmap ram tid k ph = Some (r, ph') \<Longrightarrow> ph_reachable cores ph'"
| release: "ph_reachable cores ph \<Longrightarrow> fmlookup (spans (ph_heap ph)) x = Some s \<Longrightarrow> isUse s
    \<Longrightarrow> PageHeap_ReleaseSpan ram (Some x) ph = Some ph' \<Longrightarrow> ph_reachable cores ph'"

lemma ph_reachable_inv: "ph_reachable cores ph \<Longrightarrow> cores \<le> 64 \<Longrightarrow> ph_inv ph"
proof (induction rule: ph_reachable.induct)
  case (start as)
  then show ?case by (rule ph_inv_init)
next
  case (alloc ph k mmap ram tid r ph')
  then show ?case using PageHeap_NewSpan_ok [of ph k mmap ram tid] by auto
next
  case (release ph x s ram ph')
  then show ?case using PageHeap_ReleaseSpan_ok [of ph x s ram] by auto
qed

subsection \<open>Competing first accesses to a shard\<close>

text \<open>
  \<open>GetShard\<close> called by many threads at once. \<open>first\<close> is the load before the fast path, the
  compare-and-swap either wins (state 0 becomes 1) or sends the thread to the spin loop; the
  winner constructs the shard and then stores 2.
\<close>

datatype get_pc = Entry | Checked | Building | Publishing | Spinning | Returned

record race =
  state_word :: nat
  builds :: nat
  pcs :: "nat \<Rightarrow> get_pc"

inductive race_step :: "race \<Rightarrow> race \<Rightarrow> bool" where
  fast: "pcs s t = Entry \<Longrightarrow> state_word s = 2 \<Longrightarrow> race_step s (s\<lparr>pcs := (pcs s)(t := Returned)\<rparr>)"
| slow: "pcs s t = Entry \<Longrightarrow> state_word s \<noteq> 2 \<Longrightarrow> race_step s (s\<lparr>pcs := (pcs s)(t := Checked)\<rparr>)"
| win: "pcs s t = Checked \<Longrightarrow> state_word s = 0 \<Longrightarrow>
    race_step s (s\<lparr>state_word := 1, pcs := (pcs s)(t := Building)\<rparr>)"
| lose: "pcs s t = Checked \<Longrightarrow> state_word s \<noteq> 0 \<Longrightarrow> race_step s (s\<lparr>pcs := (pcs s)(t := Spinning)\<rparr>)"
| build: "pcs s t = Building \<Longrightarrow>
    race_step s (s\<lparr>builds := builds s + 1, pcs := (pcs s)(t := Publishing)\<rparr>)"
| publish: "pcs s t = Publishing \<Longrightarrow>
    race_step s (s\<lparr>state_word := 2, pcs := (pcs s)(t := Returned)\<rparr>)"
| spin_done: "pcs s t = Spinning \<Longrightarrow> state_word s = 2 \<Longrightarrow> race_step s (s\<lparr>pcs := (pcs s)(t := Returned)\<rparr>)"
| spin: "pcs s t = Spinning \<Longrightarrow> state_word s \<noteq> 2 \<Longrightarrow> race_step s s"

inductive race_reachable :: "race \<Rightarrow> bool" where
  race_start: "race_reachable \<lparr>state_word = 0, builds = 0, pcs = (\<lambda>_. Entry)\<rparr>"
| race_next: "race_reachable s \<Longrightarrow> race_step s s' \<Longrightarrow> race_reachable s'"

definition race_inv :: "race \<Rightarrow> bool" where
  "race_inv s \<longleftrightarrow>
     (case state_word s of
        0 \<Rightarrow> builds s = 0 \<and> (\<forall>t. pcs s t \<notin> {Building, Publishing, Returned})
      | Suc 0 \<Rightarrow> (\<exists>w. (pcs s w = Building \<and> builds s = 0 \<or> pcs s w = Publishing \<and> builds s = 1)
                 \<and> (\<forall>t. t \<noteq> w \<longrightarrow> pcs s t \<notin> {Building, Publishing, Returned}) )
      | Suc (Suc n) \<Rightarrow> n = 0 \<and> builds s = 1 \<and> (\<forall>t. pcs s t \<notin> {Building, Publishing}))"

inductive_cases race_stepE: "race_step s s'"

lemma race_winner:
  assumes "race_inv s" "pcs s t \<in> {Building, Publishing}"
  shows "state_word s = 1" "\<And>u. u \<noteq> t \<Longrightarrow> pcs s u \<notin> {Building, Publishing, Returned}"
    "builds s = (if pcs s t = Building then 0 else 1)"
proof -
  show w: "state_word s = 1" using assms by (auto simp: race_inv_def split: nat.splits)
  then obtain v where v: "pcs s v = Building \<and> builds s = 0 \<or> pcs s v = Publishing \<and> builds s = 1"
      "\<forall>u. u \<noteq> v \<longrightarrow> pcs s u \<notin> {Building, Publishing, Returned}"
    using assms(1) by (auto simp: race_inv_def)
  then have "t = v" using assms(2) by (metis insertE insert_iff singletonD)
  then show "builds s = (if pcs s t = Building then 0 else 1)"
    "\<And>u. u \<noteq> t \<Longrightarrow> pcs s u \<notin> {Building, Publishing, Returned}" using v by auto
qed

lemma race_inv_quiet:
  assumes "race_inv s" "pcs s t \<in> {Entry, Checked, Spinning}" "q \<in> {Checked, Spinning}"
  shows "race_inv (s\<lparr>pcs := (pcs s)(t := q)\<rparr>)"
proof (cases "state_word s = Suc 0")
  case True
  then obtain v where v: "pcs s v = Building \<and> builds s = 0 \<or> pcs s v = Publishing \<and> builds s = 1"
      "\<forall>u. u \<noteq> v \<longrightarrow> pcs s u \<notin> {Building, Publishing, Returned}"
    using assms(1) by (auto simp: race_inv_def)
  then have "v \<noteq> t" using assms(2) by auto
  then show ?thesis using True v assms(3) by (auto simp: race_inv_def intro!: exI [of _ v])
next
  case False
  then show ?thesis using assms by (auto simp: race_inv_def split: nat.splits)
qed

lemma race_inv_step: "race_step s s' \<Longrightarrow> race_inv s \<Longrightarrow> race_inv s'"
proof (induction rule: race_step.induct)
  case (win s t)
  then show ?case by (auto simp: race_inv_def intro!: exI [of _ t])
next
  case (build s t)
  then show ?case
    using race_winner [OF build(2), of t] by (auto simp: race_inv_def [of "_\<lparr>pcs := _\<rparr>"] intro!: exI [of _ t])
next
  case (publish s t)
  then show ?case
    using race_winner [OF publish(2), of t]
    by (auto simp: race_inv_def [of "_\<lparr>pcs := _\<rparr>"] numeral_2_eq_2)
next
  case (slow s t)
  then show ?case using race_inv_quiet [of s t Checked] by simp
next
  case (lose s t)
  then show ?case using race_inv_quiet [of s t Spinning] by simp
qed (auto simp: race_inv_def numeral_2_eq_2)

lemma race_reachable_inv: "race_reachable s \<Longrightarrow> race_inv s"
proof (induction rule: race_reachable.induct)
  case (race_next s s')
  then show ?case using race_inv_step by blast
qed (simp add: race_inv_def)

subsection \<open>Properties\<close>

text \<open>
  C7. \<open>NewSpan(k)\<close> in any state that satisfies the shard invariant, with an \<open>mmap\<close> that keeps
  its documented behaviour, finishes within the fuel, never dereferences a missing span and
  keeps the invariant. Every span in use is untouched. It returns either a span of exactly \<open>k\<close>
  pages, in use, warm, owned by the shard, that was not in use before and to which the page map
  maps every one of its pages; or null with no span changed, and then only because the system
  refused the pages or a page map node. (The call is one step: what other threads do to the shard
  while its mutex is given up around \<open>SystemAlloc\<close> is not modelled.)
\<close>

theorem NewSpan_correct:
  assumes "pc_inv {} h" "i < 256" "0 < k" "k < 2 ^ 50" "mmap_ok mmap h" "map_nodes i h + 2 \<le> fuel"
  shows "\<exists>r h'. NewSpan fuel mmap i k h = Some (r, h') \<and> pc_inv {} h'
    \<and> (\<forall>z t. fmlookup (spans h) z = Some t \<and> isUse t \<longrightarrow> fmlookup (spans h') z = Some t)
    \<and> (case r of
         None \<Rightarrow> spans h' = spans h
           \<and> (SystemAlloc mmap (if k \<ge> NPAGES then k else NPAGES - 1) = None \<or> answers (pmap h) \<noteq> [])
       | Some x \<Rightarrow> (\<exists>s. fmlookup (spans h') x = Some s \<and> isUse s \<and> \<not> isCold s \<and> npages s = k \<and> shardId s = i
           \<and> (\<forall>p \<in> pages s. PageMap_get (pmap h') p = Some x))
           \<and> \<not> (\<exists>t. fmlookup (spans h) x = Some t \<and> isUse t))"
proof -
  obtain r h' where r: "NewSpan fuel mmap i k h = Some (r, h')" "returned mmap i k r h h'"
    using NewSpan_returned [OF assms] by blast
  then have inv: "pc_inv {} h'" and kept: "used_sub h h'" by (simp_all add: returned_def kept_def)
  have "PageMap_get (pmap h') p = Some x"
    if "fmlookup (spans h') x = Some s" "isUse s" "p \<in> pages s" for x s p
    using inv that wf_tags_tagged [of "{}" "spans h'" "pmap h'" x s] by (auto simp: pc_inv_def tagged_def)
  then show ?thesis
    using r inv kept
    by (intro exI [of _ r] exI [of _ h'])
      (fastforce simp: returned_def no_memory_def alloc_size_def allocated_def used_kept_def used_sub_def
        split: option.splits)
qed

text \<open>A sample system: one mapping at address 4096.\<close>

definition sample_mmap :: "nat \<Rightarrow> nat option" where
  "sample_mmap sz = (if sz = 0 \<or> sz > 2 ^ 40 then None else Some 4096)"

abbreviation "sample_heap \<equiv> ph_heap (PageHeap_init 4 [])"

lemma sample_heap_inv: "ph_inv (PageHeap_init 4 [])" "pc_inv {} sample_heap" "mmap_ok sample_mmap sample_heap"
  "map_nodes i sample_heap = 0" "spans sample_heap = fmempty" "answers (pmap sample_heap) = []"
proof -
  show "ph_inv (PageHeap_init 4 [])" by (rule ph_inv_init) simp
  then show "pc_inv {} sample_heap" by (simp add: ph_inv_def)
  show "mmap_ok sample_mmap sample_heap"
    by (simp add: mmap_ok_def sample_mmap_def owned_def PageHeap_init_def Let_def)
qed (simp_all add: PageHeap_init_def Let_def map_nodes_def new_shard_def)

theorem NewSpan_correct_witness:
  "\<exists>x h' s. NewSpan 2 sample_mmap 3 5 sample_heap = Some (Some x, h')
     \<and> fmlookup (spans h') x = Some s \<and> isUse s \<and> npages s = 5
     \<and> PageMap_get (pmap h') (pageId s + 4) = Some x"
proof -
  have "SystemAlloc sample_mmap 128 \<noteq> None"
    by (simp add: SystemAlloc_def Let_def sample_mmap_def push_bit_eq_mult PAGE_SHIFT_def PAGE_SIZE_def
        W64_def wadd_def)
  moreover obtain r h' where "NewSpan 2 sample_mmap 3 5 sample_heap = Some (r, h')"
    and r: "case r of
         None \<Rightarrow> spans h' = spans sample_heap
           \<and> (SystemAlloc sample_mmap (if 5 \<ge> NPAGES then 5 else NPAGES - 1) = None \<or> answers (pmap sample_heap) \<noteq> [])
       | Some x \<Rightarrow> (\<exists>s. fmlookup (spans h') x = Some s \<and> isUse s \<and> \<not> isCold s \<and> npages s = 5 \<and> shardId s = 3
           \<and> (\<forall>p \<in> pages s. PageMap_get (pmap h') p = Some x))
           \<and> \<not> (\<exists>t. fmlookup (spans sample_heap) x = Some t \<and> isUse t)"
    using NewSpan_correct [OF sample_heap_inv(2), of 3 5 sample_mmap 2] sample_heap_inv(3,4) by auto
  ultimately show ?thesis
    by (cases r) (auto simp: sample_heap_inv(6) NPAGES_def pages_def)
qed

text \<open>
  C6. \<open>ReleaseSpan\<close> of a span in use, in any state that satisfies the shard invariant, never
  reads a stale page map entry (both merging loops only meet existing, adjacent spans), keeps
  the invariant and the set of managed pages, and touches no other span in use. The span comes
  out free, contains its old pages, has no free neighbour of the same shard left on either
  side, and the shard's hot free pages are at or below the release threshold. (The call is one step: concurrent changes
  of spans of other shards, which the merging loops read, are not modelled.)
\<close>

theorem ReleaseSpan_correct:
  assumes "pc_inv {} h" "fmlookup (spans h) x = Some s" "isUse s" "shardId s = i" "i < 256"
  shows "\<exists>h' s'. ReleaseSpan i x h = Some h' \<and> pc_inv {} h' \<and> owned (spans h') = owned (spans h)
    \<and> (\<forall>z t. z \<noteq> x \<and> fmlookup (spans h) z = Some t \<and> isUse t \<longrightarrow> fmlookup (spans h') z = Some t)
    \<and> fmlookup (spans h') x = Some s' \<and> \<not> isUse s' \<and> pages s \<subseteq> pages s'
    \<and> (0 < pageId s' \<longrightarrow> \<not> mergeable i (pageId s' - 1) h') \<and> \<not> mergeable i (pageId s' + npages s') h'
    \<and> totalFreePages (shards h' i) \<le> releaseThreshold (shards h' i)"
  using ReleaseSpan_ok [OF assms] unfolding used_off_def above_threshold_def not_less
  by (elim exE conjE) (intro exI conjI; assumption)

theorem ReleaseSpan_correct_witness:
  "\<exists>x h h' s'. NewSpan 2 sample_mmap 3 5 sample_heap = Some (Some x, h) \<and> ReleaseSpan 3 x h = Some h'
     \<and> fmlookup (spans h') x = Some s' \<and> \<not> isUse s'"
proof -
  have "SystemAlloc sample_mmap 128 \<noteq> None"
    by (simp add: SystemAlloc_def Let_def sample_mmap_def push_bit_eq_mult PAGE_SHIFT_def PAGE_SIZE_def
        W64_def wadd_def)
  moreover obtain r h where n: "NewSpan 2 sample_mmap 3 5 sample_heap = Some (r, h)"
      "returned sample_mmap 3 5 r sample_heap h"
    using NewSpan_returned [OF sample_heap_inv(2), of 3 5 sample_mmap 2] sample_heap_inv(3,4) by auto
  ultimately obtain x where x: "r = Some x"
    by (cases r) (auto simp: returned_def no_memory_def alloc_size_def sample_heap_inv(6) NPAGES_def)
  then obtain s where s: "fmlookup (spans h) x = Some s" "isUse s" "shardId s = 3" "pc_inv {} h"
    using n(2) by (auto simp: returned_def allocated_def)
  then show ?thesis using ReleaseSpan_correct [OF s(4,1,2,3)] n(1) x by auto
qed

text \<open>
  C5. Safety of every history: whatever allocations and releases any threads have made, one call after the other, two
  spans in use never share a page, looking up any page of a span in use gives that span, each
  shard's count of hot free pages is exact, and the next allocation or release has a defined
  result. (The bound of 64 cores keeps the shard count within the 256 entries of \<open>_init_state\<close>.)
\<close>

theorem page_heap_safe:
  assumes "ph_reachable cores ph" "cores \<le> 64"
  shows "(\<forall>x y s t. fmlookup (spans (ph_heap ph)) x = Some s \<and> isUse s
      \<and> fmlookup (spans (ph_heap ph)) y = Some t \<and> isUse t \<and> x \<noteq> y \<longrightarrow> pages s \<inter> pages t = {})
    \<and> (\<forall>x s p. fmlookup (spans (ph_heap ph)) x = Some s \<and> isUse s \<and> p \<in> pages s
         \<longrightarrow> PageMap_get (pmap (ph_heap ph)) p = Some x)
    \<and> (\<forall>j. totalFreePages (shards (ph_heap ph) j) = hot_pages {} (spans (ph_heap ph)) j)
    \<and> (\<forall>x s. fmlookup (spans (ph_heap ph)) x = Some s \<and> isUse s
         \<longrightarrow> PageHeap_ReleaseSpan ram (Some x) ph \<noteq> None)
    \<and> (\<forall>k. 0 < k \<and> k < 2 ^ 50 \<and> mmap_ok mmap (ph_heap ph) \<longrightarrow> PageHeap_NewSpan mmap ram tid k ph \<noteq> None)"
proof -
  have inv: "ph_inv ph" by (rule ph_reachable_inv [OF assms])
  then have p: "pc_inv {} (ph_heap ph)" by (simp add: ph_inv_def)
  then have R: "wf_ranges (spans (ph_heap ph))" and T: "wf_tags {} (spans (ph_heap ph)) (pmap (ph_heap ph))"
    and C: "wf_count {} (spans (ph_heap ph)) (shards (ph_heap ph))" by (simp_all add: pc_inv_def)
  have "PageMap_get (pmap (ph_heap ph)) q = Some x"
    if "fmlookup (spans (ph_heap ph)) x = Some s" "isUse s" "q \<in> pages s" for x s q
    using wf_tags_tagged [OF T that(1)] that(2,3) by (simp add: tagged_def)
  moreover have "PageHeap_ReleaseSpan ram (Some x) ph \<noteq> None"
    if "fmlookup (spans (ph_heap ph)) x = Some s" "isUse s" for x s
    using PageHeap_ReleaseSpan_ok [OF inv that, of ram] by auto
  moreover have "PageHeap_NewSpan mmap ram tid k ph \<noteq> None"
    if "0 < k" "k < 2 ^ 50" "mmap_ok mmap (ph_heap ph)" for k
    using PageHeap_NewSpan_ok [OF inv that, of ram tid] by auto
  ultimately show ?thesis using R C unfolding wf_ranges_def wf_count_def by blast
qed

theorem page_heap_safe_witness:
  "ph_reachable 4 (PageHeap_init 4 [])
   \<and> totalFreePages (shards sample_heap 0) = hot_pages {} (spans sample_heap) 0
   \<and> PageHeap_NewSpan sample_mmap 0 7 5 (PageHeap_init 4 []) \<noteq> None"
  using page_heap_safe [OF ph_reachable.start, of 4 "[]" 0 sample_mmap 7] sample_heap_inv(3)
  by (simp add: ph_reachable.start)

text \<open>
  C28. First access race: however many threads call \<open>GetShard\<close> for one index at once and in
  whatever order they run, the shard is constructed at most once, and a thread returns only
  after it has been constructed and published.
\<close>

theorem shard_built_once:
  assumes "race_reachable s"
  shows "builds s \<le> 1 \<and> (pcs s t = Returned \<longrightarrow> builds s = 1 \<and> state_word s = 2)"
proof -
  have inv: "race_inv s" by (rule race_reachable_inv [OF assms])
  have "pcs s t \<noteq> Returned" if one: "state_word s = Suc 0"
  proof -
    obtain v where "pcs s v = Building \<and> builds s = 0 \<or> pcs s v = Publishing \<and> builds s = 1"
        "\<forall>u. u \<noteq> v \<longrightarrow> pcs s u \<notin> {Building, Publishing, Returned}"
      using inv one by (auto simp: race_inv_def)
    then show ?thesis by (cases "t = v") auto
  qed
  then show ?thesis using inv by (auto simp: race_inv_def numeral_2_eq_2 split: nat.splits)
qed

theorem shard_built_once_witness:
  "\<exists>s. race_reachable s \<and> pcs s 0 = Returned \<and> pcs s 1 = Spinning \<and> builds s = 1 \<and> state_word s = 2"
proof -
  define f where "f a b = (\<lambda>_::nat. Entry)(0 := a, Suc 0 := b)" for a b
  have f: "(\<lambda>_. Entry) = f Entry Entry" "(f a b)(0 := c) = f c b" "(f a b)(Suc 0 := c) = f a c"
      "f a b 0 = a" "f a b (Suc 0) = b" for a b c
    by (auto simp: f_def fun_eq_iff)
  have "race_reachable \<lparr>state_word = 0, builds = 0, pcs = f Entry Entry\<rparr>"
    using race_start by (simp add: f(1))
  from race_next [OF this slow [of _ 0]] have "race_reachable \<lparr>state_word = 0, builds = 0, pcs = f Checked Entry\<rparr>"
    by (simp add: f)
  from race_next [OF this slow [of _ 1]] have "race_reachable \<lparr>state_word = 0, builds = 0, pcs = f Checked Checked\<rparr>"
    by (simp add: f)
  from race_next [OF this win [of _ 0]] have "race_reachable \<lparr>state_word = 1, builds = 0, pcs = f Building Checked\<rparr>"
    by (simp add: f)
  from race_next [OF this lose [of _ 1]] have "race_reachable \<lparr>state_word = 1, builds = 0, pcs = f Building Spinning\<rparr>"
    by (simp add: f)
  from race_next [OF this build [of _ 0]] have "race_reachable \<lparr>state_word = 1, builds = 1, pcs = f Publishing Spinning\<rparr>"
    by (simp add: f)
  from race_next [OF this publish [of _ 0]] have r: "race_reachable \<lparr>state_word = 2, builds = 1, pcs = f Returned Spinning\<rparr>"
    by (simp add: f)
  show ?thesis
    using shard_built_once [OF r, of 0] r by (intro exI [of _ "\<lparr>state_word = 2, builds = 1, pcs = f Returned Spinning\<rparr>"]) (simp add: f)
qed

text \<open>
  \<open>SystemAlloc(n)\<close> returns a page-aligned block of \<open>n\<close> pages inside one reservation of
  \<open>n + 1\<close> pages, and the ranges it gives back to \<open>munmap\<close> are exactly the rest of the
  reservation: nothing is leaked and no byte of the block is unmapped.
\<close>

theorem SystemAlloc_exact:
  assumes "SystemAlloc mmap n = Some (ptr, unmapped)" "n < 2 ^ 50" "mmap 0 = None"
    "\<And>sz raw. mmap sz = Some raw \<Longrightarrow> raw + sz < W64"
  shows "\<exists>raw. mmap (n * PAGE_SIZE + PAGE_SIZE) = Some raw \<and> PAGE_SIZE dvd ptr
    \<and> {raw..<raw + (n * PAGE_SIZE + PAGE_SIZE)}
        = {ptr..<ptr + n * PAGE_SIZE} \<union> (\<Union>(a, l) \<in> set unmapped. {a..<a + l})
    \<and> {ptr..<ptr + n * PAGE_SIZE} \<inter> (\<Union>(a, l) \<in> set unmapped. {a..<a + l}) = {}"
proof -
  obtain raw where raw: "mmap (n * PAGE_SIZE + PAGE_SIZE) = Some raw"
    "ptr = wadd raw PAGE_ROUND_UP_NUM AND PAGE_ROUND_UP_NUM_NEGATE"
    "unmapped = (let prefix_len = wsub ptr raw; suffix_len = wsub PAGE_SIZE prefix_len
       in (if prefix_len > 0 then [(raw, prefix_len)] else [])
          @ (if suffix_len > 0 then [(wadd ptr (n * PAGE_SIZE), suffix_len)] else []))"
    by (rule SystemAlloc_Some [OF assms(1-3)]) blast
  have b: "raw + (n * PAGE_SIZE + PAGE_SIZE) < W64" using assms(4) raw(1) by blast
  then have "raw + PAGE_SIZE < W64" by simp
  note al = aligned_bounds [OF this raw(2)]
  have w: "wsub ptr raw = ptr - raw" "wadd ptr (n * PAGE_SIZE) = ptr + n * PAGE_SIZE"
    using al(2,3) b by (intro wsub_small wadd_small; simp)+
  have w2: "wsub PAGE_SIZE (ptr - raw) = PAGE_SIZE - (ptr - raw)"
    using al(2,3) by (intro wsub_small) (auto simp: PAGE_SIZE_def W64_def)
  have u: "(\<Union>(a, l) \<in> set unmapped. {a..<a + l})
      = {raw..<ptr} \<union> {ptr + n * PAGE_SIZE..<raw + (n * PAGE_SIZE + PAGE_SIZE)}"
    using al(2,3) by (auto simp: raw(3) Let_def w w2)
  have "PAGE_SIZE dvd ptr" using al(1) by (metis dvd_triv_right)
  then show ?thesis
    using raw(1) al(2,3) unfolding u by (intro exI [of _ raw]) auto
qed

theorem SystemAlloc_exact_witness:
  "PAGE_SIZE dvd fst (the (SystemAlloc sample_mmap 3))"
proof -
  have n: "SystemAlloc sample_mmap 3 \<noteq> None"
    by (simp add: SystemAlloc_def Let_def sample_mmap_def push_bit_eq_mult PAGE_SHIFT_def PAGE_SIZE_def
        W64_def wadd_def)
  then obtain ptr un where s: "SystemAlloc sample_mmap 3 = Some (ptr, un)" by auto
  have "raw + sz < W64" if "sample_mmap sz = Some raw" for sz raw
    using that by (simp add: sample_mmap_def W64_def split: if_splits)
  moreover have "sample_mmap 0 = None" by (simp add: sample_mmap_def)
  ultimately have "PAGE_SIZE dvd ptr" using SystemAlloc_exact [OF s] by fastforce
  then show ?thesis by (simp add: s)
qed

text \<open>
  The shard count is a power of two and at least the target (2 shards per core, 4 from 32
  cores on). Up to 64 cores it fits the 256 entries of \<open>_init_state\<close> and the 8-bit \<open>_shardId\<close>;
  from 65 cores on it does not, and routing indexes past the array.
\<close>

theorem shard_count_bounds:
  "pow2 (shardCount (PageHeap_init cores as)) \<and> target_shards cores \<le> shardCount (PageHeap_init cores as)
   \<and> (shardCount (PageHeap_init cores as) \<le> 256 \<longleftrightarrow> cores \<le> 64)"
proof -
  note sp = shard_count_loop_spec [of 1 0 "target_shards cores", OF power_0 [symmetric]]
  have e: "shardCount (PageHeap_init cores as) = shard_count_loop 1 (target_shards cores)"
    by (simp add: PageHeap_init_def Let_def)
  have "\<not> cores \<le> 64 \<Longrightarrow> 256 < target_shards cores" by (simp add: target_shards_def)
  then show ?thesis using sp shard_count_256 [of cores] unfolding e pow2_def by force
qed

end
