(* ===== verification/SpanUse.thy ===== *)
theory SpanUse
  imports PageHeap
begin

text \<open>
  What the page heap leaves alone, for its clients: it never puts a span in use that it does not
  return, and never raises the count of objects a span has handed out. The clients' fields of a
  span in use (\<open>_objSize\<close>, \<open>_useCount\<close>, \<open>_freeList\<close>) do not matter to the page heap.
\<close>

definition use_count :: "spans \<Rightarrow> nat \<Rightarrow> nat" where
  "use_count S x = (case fmlookup S x of None \<Rightarrow> 0 | Some s \<Rightarrow> useCount s)"

definition in_use :: "spans \<Rightarrow> nat \<Rightarrow> bool" where
  "in_use S x \<longleftrightarrow> (\<exists>s. fmlookup S x = Some s \<and> isUse s)"

definition tame :: "nat set \<Rightarrow> spans \<Rightarrow> spans \<Rightarrow> bool" where
  "tame X S S' \<longleftrightarrow> (\<forall>z. use_count S' z \<le> use_count S z \<and> (in_use S' z \<and> z \<notin> X \<longrightarrow> in_use S z))"

lemma tame_refl [simp]: "tame X S S"
  by (simp add: tame_def)

lemma tame_trans: "tame X S S' \<Longrightarrow> tame X S' S'' \<Longrightarrow> tame X S S''"
  unfolding tame_def using order_trans by blast

lemma tame_mono: "tame X S S' \<Longrightarrow> X \<subseteq> Y \<Longrightarrow> tame Y S S'"
  unfolding tame_def by blast

lemma tame_new: "useCount s = 0 \<Longrightarrow> \<not> isUse s \<or> x \<in> X \<Longrightarrow> tame X S (fmupd x s S)"
  by (auto simp: tame_def use_count_def in_use_def)

lemma tame_upd:
  "fmlookup S x = Some s \<Longrightarrow> useCount s' = useCount s \<Longrightarrow> (isUse s' \<longrightarrow> isUse s) \<or> x \<in> X \<Longrightarrow> tame X S (fmupd x s' S)"
  by (auto simp: tame_def use_count_def in_use_def)

lemma tame_drop: "tame X S (fmdrop x S)"
  by (auto simp: tame_def use_count_def in_use_def)

named_theorems tame_intros \<open>what keeps a step of the page heap tame\<close>

declare tame_new [tame_intros] tame_drop [tame_intros]

lemma pool_spans [simp]:
  "spans (snd (pool_New i h)) = fmupd (fst (pool_New i h)) new_span (spans h)"
  "spans (pool_Delete i x h) = fmdrop x (spans h)"
  by (simp_all add: pool_New_def pool_Delete_def upd_span_def upd_shard_def split: list.split)

lemma list_ops_spans [simp]:
  "spans (push_hot_list i n x h) = spans h" "spans (push_cold_list i n x h) = spans h"
  "spans (push_hot i n x h) = spans h" "spans (push_cold i n x h) = spans h"
  "spans (add_free i n h) = spans h" "spans (sub_free i n h) = spans h"
  "spans (upd_large c i f h) = spans h" "spans (unlink_span x h) = spans h" "spans (pop_hot_list i n h) = spans h"
  by (simp_all add: push_hot_list_def push_cold_list_def push_hot_def push_cold_def add_free_def sub_free_def
      upd_large_def unlink_span_def pop_hot_list_def)

lemma split_tame:
  assumes "fmlookup (spans h) x = Some s" "split_span i x s k c h = (y, h')"
  shows "tame {} (spans h) (spans h')" "\<exists>t. fmlookup (spans h') x = Some t"
proof -
  obtain z h1 where n: "pool_New i h = (z, h1)" by fastforce
  then have 1: "spans h1 = fmupd z new_span (spans h)" using pool_spans(1) [of i h] by simp
  then have S: "spans h' = fmupd x (s\<lparr>npages := k\<rparr>) (fmupd z (upper_part s k c (shId (shards h1 i))) (fmupd z new_span (spans h)))"
    using assms(2) n by (auto simp: split_span_def upper_part_def)
  show "\<exists>t. fmlookup (spans h') x = Some t" by (simp add: S)
  show "tame {} (spans h) (spans h')"
    using assms(1) by (auto simp: tame_def use_count_def in_use_def S upper_part_def new_span_def)
qed

lemma alloc_tame:
  assumes "fmlookup (spans h) x = Some s" "finish_alloc x k h1 = Some (r, h')"
    "spans h0 = spans h" "spans h1 = spans (if npages s > k then snd (split_span i x s k c h0) else h0)"
  shows "r = x \<and> tame {r} (spans h) (spans h')"
proof -
  have "tame {} (spans h) (spans h1)" using assms(1,3,4) split_tame(1) [of h0 x s i k c] by (cases "split_span i x s k c h0") auto
  moreover have "r = x \<and> tame {x} (spans h1) (spans h')"
    using assms(2) by (auto simp: finish_alloc_def tame_def use_count_def in_use_def split: option.splits if_splits)
  ultimately show ?thesis using tame_mono [of "{}" _ _ "{x}"] tame_trans by blast
qed

lemma Hot_tame:
  assumes "AllocFromHotList i n k h = Some (y, h')"
  shows "tame {y} (spans h) (spans h')"
proof -
  obtain x rest s where l: "spanLists (shards h i) n = x # rest" and s: "fmlookup (spans h) x = Some s"
    using assms by (auto simp: AllocFromHotList_def split: list.splits option.splits)
  let ?h0 = "sub_free i (npages s) (upd_shard i (\<lambda>sh. sh\<lparr>spanLists := (spanLists sh)(n := rest)\<rparr>) h)"
  obtain z h2 where sp: "split_span i x s k False ?h0 = (z, h2)" by fastforce
  let ?h1 = "if npages s > k then map_ends (pageId s + k) (npages s - k) z
      (add_free i (npages s - k) (push_hot_list i (npages s - k) z h2)) else ?h0"
  have f: "finish_alloc x k ?h1 = Some (y, h')" using assms l s sp by (cases "npages s > k") (simp_all add: AllocFromHotList_def Let_def)
  have "spans ?h0 = spans h" by simp
  moreover have "spans ?h1 = spans (if npages s > k then snd (split_span i x s k False ?h0) else ?h0)"
    using sp by (cases "npages s > k") simp_all
  ultimately show ?thesis using alloc_tame [OF s f] by blast
qed

lemma Cold_tame:
  assumes "AllocFromColdList i n k h = Some (y, h')"
  shows "tame {y} (spans h) (spans h')"
proof -
  obtain x rest s where l: "releasedSpanLists (shards h i) n = x # rest" and s: "fmlookup (spans h) x = Some s"
    using assms by (auto simp: AllocFromColdList_def split: list.splits option.splits)
  let ?h0 = "upd_shard i (\<lambda>sh. sh\<lparr>releasedSpanLists := (releasedSpanLists sh)(n := rest)\<rparr>) h"
  obtain z h2 where sp: "split_span i x s k True ?h0 = (z, h2)" by fastforce
  let ?h1 = "if npages s > k then map_ends (pageId s + k) (npages s - k) z
      (push_cold_list i (npages s - k) z h2) else ?h0"
  have f: "finish_alloc x k ?h1 = Some (y, h')" using assms l s sp by (cases "npages s > k") (simp_all add: AllocFromColdList_def Let_def)
  have "spans ?h0 = spans h" by simp
  moreover have "spans ?h1 = spans (if npages s > k then snd (split_span i x s k True ?h0) else ?h0)"
    using sp by (cases "npages s > k") simp_all
  ultimately show ?thesis using alloc_tame [OF s f] by blast
qed

lemma Map_tame:
  assumes "AllocFromMap i c key k h = Some (y, h')"
  shows "tame {y} (spans h) (spans h')"
proof -
  obtain x rest s where l: "large_get (large_of c (shards h i)) key = x # rest" and s: "fmlookup (spans h) x = Some s"
    using assms by (auto simp: AllocFromMap_def split: list.splits option.splits)
  let ?ha = "upd_large c i (large_set key rest) h"
  let ?h0 = "if c then ?ha else sub_free i (npages s) ?ha"
  obtain z h2 where sp: "split_span i x s k c ?h0 = (z, h2)" by fastforce
  let ?h1 = "if npages s > k then map_ends (pageId s + k) (npages s - k) z
      (if c then push_cold i (npages s - k) z h2
       else add_free i (npages s - k) (push_hot i (npages s - k) z h2)) else ?h0"
  obtain h3 where f: "finish_alloc x k ?h1 = Some (y, h3)" "spans h' = spans h3"
    using assms l s sp by (cases "npages s > k") (auto simp: AllocFromMap_def Let_def split: option.splits prod.splits if_splits)
  have "spans ?h0 = spans h" by simp
  moreover have "spans ?h1 = spans (if npages s > k then snd (split_span i x s k c ?h0) else ?h0)"
    using sp by (cases "npages s > k") simp_all
  ultimately show ?thesis using alloc_tame [OF s f(1)] f(2) by (metis)
qed

lemma commit_tame:
  assumes "commit_span i k ptr n h = (x, ok, h')"
  shows "tame (if ok \<and> k \<ge> NPAGES then {x} else {}) (spans h) (spans h')"
proof -
  obtain y h1 where p: "pool_New i h = (y, h1)" by fastforce
  then have 1: "spans h1 = fmupd y new_span (spans h)" using pool_spans(1) [of i h] by simp
  have x: "x = y" using assms p by (auto simp: commit_span_def Let_def split: prod.splits if_splits)
  have "use_count (spans h') z \<le> use_count (spans h) z" for z
    using assms by (auto simp: commit_span_def p 1 Let_def use_count_def new_span_def split: prod.splits if_splits)
  moreover have "in_use (spans h') z \<Longrightarrow> z \<noteq> x \<Longrightarrow> in_use (spans h) z" for z
    using assms x by (auto simp: commit_span_def p 1 Let_def in_use_def split: prod.splits if_splits)
  moreover have "in_use (spans h') x \<Longrightarrow> ok \<and> k \<ge> NPAGES"
    using assms x by (auto simp: commit_span_def p 1 Let_def in_use_def new_span_def split: prod.splits if_splits)
  ultimately show ?thesis unfolding tame_def by (metis empty_iff singleton_iff)
qed

definition tame_return :: "nat option \<Rightarrow> heap \<Rightarrow> heap \<Rightarrow> bool" where
  "tame_return r h h' \<longleftrightarrow> tame (set_option r) (spans h) (spans h')"

lemma NewSpan_iter_tame:
  assumes "NewSpan_iter mmap i k h = Some r"
  shows "case r of Return ro h' \<Rightarrow> tame_return ro h h' | Continue h' \<Rightarrow> tame {} (spans h) (spans h')"
proof -
  have R: "case r of Return ro h' \<Rightarrow> tame_return ro h h' | Continue h' \<Rightarrow> tame {} (spans h) (spans h')"
    if "returning p = Some r" "\<And>y h'. p = Some (y, h') \<Longrightarrow> tame {y} (spans h) (spans h')" for p
    using that by (auto simp: returning_def tame_return_def)
  note step = assms [unfolded NewSpan_iter_def Let_def]
  show ?thesis
    using step
    by (auto split: option.splits prod.splits list.splits if_splits simp: tame_return_def
        intro!: R intro: Hot_tame Cold_tame Map_tame dest!: commit_tame)
qed

lemma NewSpan_tame: "NewSpan fuel mmap i k h = Some (r, h') \<Longrightarrow> tame_return r h h'"
proof (induction fuel arbitrary: h)
  case (Suc fuel)
  then show ?case
    using NewSpan_iter_tame [of mmap i k h]
    by (auto simp: tame_return_def split: option.splits iteration.splits intro: tame_trans [OF tame_mono])
qed simp

subsection \<open>Releasing\<close>

lemma merge_left_tame: "merge_left i x h = Some h' \<Longrightarrow> tame {} (spans h) (spans h')"
proof (induction i x h rule: merge_left.induct)
  case (1 i x h)
  have a: "tame {} (spans h) (spans (absorb_left i x s y t h))" if "fmlookup (spans h) x = Some s" for s y t
    using that unfolding spans_absorb by (intro tame_trans [OF tame_upd tame_drop]) auto
  show ?case
    using 1(2) unfolding merge_left.simps [of i x h]
    by (auto split: option.splits if_splits dest: 1(1) intro: tame_trans [OF a] simp del: One_nat_def)
qed

lemma merge_right_tame: "merge_right i x h = Some h' \<Longrightarrow> tame {} (spans h) (spans h')"
proof (induction i x h rule: merge_right.induct)
  case (1 i x h)
  have a: "tame {} (spans h) (spans (absorb_right i x s y t h))" if "fmlookup (spans h) x = Some s" for s y t
    using that unfolding spans_absorb by (intro tame_trans [OF tame_upd tame_drop]) auto
  show ?case
    using 1(2) unfolding merge_right.simps [of i x h]
    by (auto split: option.splits if_splits dest: 1(1) intro: tame_trans [OF a] simp del: One_nat_def)
qed

lemma ReleaseSpanToCold_tame:
  "fmlookup (spans h) x = Some s \<Longrightarrow> tame {} (spans h) (spans (ReleaseSpanToCold i x s h))"
  by (simp add: ReleaseSpanToCold_def tame_upd)

lemma release_large_tame: "release_large i h = Some h' \<Longrightarrow> tame {} (spans h) (spans h')"
proof (induction i h rule: release_large.induct)
  case (1 i h)
  show ?case
  proof (cases "above_threshold i h \<and> largeSpanLists (shards h i) \<noteq> []")
    case True
    obtain key l where last: "last (largeSpanLists (shards h i)) = (key, l)" by fastforce
    show ?thesis
    proof (cases l)
      case Nil
      then have "release_large i (upd_large False i butlast h) = Some h'"
        using 1(3) True last by (subst (asm) release_large.simps) simp
      then show ?thesis using 1(1) [OF True last [symmetric] Nil] by simp
    next
      case (Cons x rest)
      obtain s where s: "fmlookup (spans h) x = Some s"
          "release_large i (ReleaseSpanToCold i x s (upd_large False i (\<lambda>m. butlast m @ [(key, rest)]) h)) = Some h'"
        using 1(3) True last Cons by (subst (asm) release_large.simps) (auto split: option.splits)
      from 1(2) [OF True last [symmetric] Cons s] show ?thesis
        by (rule tame_trans [rotated]) (use ReleaseSpanToCold_tame [of "upd_large False i _ h" x s i] s(1) in simp)
    qed
  qed (use 1(3) in \<open>auto simp: release_large.simps [of i h]\<close>)
qed

lemma release_bucket_tame: "release_bucket i n h = Some h' \<Longrightarrow> tame {} (spans h) (spans h')"
proof (induction i n h rule: release_bucket.induct)
  case (1 i n h)
  show ?case
  proof (cases "above_threshold i h \<and> spanLists (shards h i) n \<noteq> []")
    case True
    let ?x = "hd (spanLists (shards h i) n)"
    obtain s where s: "fmlookup (spans h) ?x = Some s"
        "release_bucket i n (ReleaseSpanToCold i ?x s (pop_hot_list i n h)) = Some h'"
      using 1(2) True by (subst (asm) release_bucket.simps) (auto simp: Let_def split: option.splits)
    from 1(1) [OF True refl s] show ?thesis
      by (rule tame_trans [rotated]) (use ReleaseSpanToCold_tame [of "pop_hot_list i n h" ?x s i] s(1) in simp)
  qed (use 1(2) in \<open>auto simp: release_bucket.simps [of i n h]\<close>)
qed

lemma release_small_tame: "release_small i ns h = Some h' \<Longrightarrow> tame {} (spans h) (spans h')"
  by (induction i ns h rule: release_small.induct)
    (auto split: option.splits if_splits dest!: release_bucket_tame dest: tame_trans)

lemma ReleaseSpan_tame:
  assumes "ReleaseSpan i x h = Some h'"
  shows "tame {} (spans h) (spans h')"
proof -
  have settle: "tame {} (spans h) (spans h')" if "settle_span i x h = Some h'" for h h'
    using that by (auto simp: settle_span_def tame_upd split: option.splits)
  have some: "tame {} (spans h) (spans h')" if "ReleaseSomeSpansToSystem i h = Some h'" for h h'
    using that by (auto simp: ReleaseSomeSpansToSystem_def split: option.splits if_splits
        dest!: release_large_tame release_small_tame dest: tame_trans)
  show ?thesis
    using assms by (auto simp: ReleaseSpan_def split: option.splits if_splits
        dest!: merge_left_tame merge_right_tame settle some dest: tame_trans)
qed

subsection \<open>Fields of the client\<close>

definition same_span :: "span \<Rightarrow> span \<Rightarrow> bool" where
  "same_span s s' \<longleftrightarrow> pageId s' = pageId s \<and> npages s' = npages s \<and> isUse s' = isUse s
     \<and> isCold s' = isCold s \<and> shardId s' = shardId s"

lemma pc_inv_client:
  assumes "pc_inv {} h" "fmlookup (spans h) x = Some s" "isUse s" "same_span s s'"
  shows "pc_inv {} (upd_span x s' h)"
proof -
  let ?S = "spans h" and ?S' = "fmupd x s' (spans h)"
  have pg: "pages s' = pages s" using assms(4) by (simp add: same_span_def pages_def)
  have R: "wf_ranges ?S" and T: "wf_tags {} ?S (pmap h)" and L: "wf_lists {} ?S (shards h)" and C: "wf_count {} ?S (shards h)"
    and P: "wf_pool {} ?S (shards h) (nextSpan h)" and I: "wf_ids ?S (shards h)"
    using assms(1) by (simp_all add: pc_inv_def)
  have dom: "fmdom ?S' = fmdom ?S" using assms(2) by (simp add: fmdomI finsert_absorb)
  have free: "free_span {} ?S' j c n y \<longleftrightarrow> free_span {} ?S j c n y" for j c n y
    using assms(2-4) by (auto simp: free_span_def same_span_def)
  have own: "owned ?S' = owned ?S"
    using owned_upd [OF R assms(2), of s'] pages_subset_owned [OF assms(2)] unfolding pg by blast
  have "wf_ranges ?S'"
    using wf_ranges_pos [OF R assms(2)] assms(4) by (intro wf_ranges_upd [OF R assms(2)]) (simp_all add: pg same_span_def)
  moreover have "wf_tags {} ?S' (pmap h)"
    using T assms(2-4) unfolding wf_tags_def own by (auto simp: pg tagged_def same_span_def)
  moreover have "wf_lists {} ?S' (shards h)" using L unfolding wf_lists_def free .
  moreover have "hot_pages {} ?S' j = hot_pages {} ?S j" for j
  proof -
    have "x \<notin> hot_set {} ?S j" using assms(2,3) by (auto simp: hot_set_def free_span_def)
    then show ?thesis unfolding hot_pages_def hot_set_def free by (intro sum.cong) (auto simp: hot_set_def)
  qed
  then have "wf_count {} ?S' (shards h)" using C by (simp add: wf_count_def)
  moreover have "wf_pool {} ?S' (shards h) (nextSpan h)" using P unfolding wf_pool_def dom .
  moreover have "wf_ids ?S' (shards h)" using I assms(2,4) by (auto simp: wf_ids_def same_span_def)
  ultimately show ?thesis by (simp add: pc_inv_def)
qed

definition upd_ph_span :: "nat \<Rightarrow> span \<Rightarrow> page_heap \<Rightarrow> page_heap" where
  "upd_ph_span x s ph = ph\<lparr>ph_heap := upd_span x s (ph_heap ph)\<rparr>"

abbreviation ph_spans :: "page_heap \<Rightarrow> spans" where
  "ph_spans p \<equiv> spans (ph_heap p)"

lemma ph_inv_client:
  assumes "ph_inv p" "fmlookup (ph_spans p) x = Some s" "isUse s" "same_span s s'"
  shows "ph_inv (upd_ph_span x s' p)" "ph_spans (upd_ph_span x s' p) = fmupd x s' (ph_spans p)"
    "pmap (ph_heap (upd_ph_span x s' p)) = pmap (ph_heap p)"
proof -
  have "shard_ids (fmupd x s' (ph_spans p)) \<subseteq> shard_ids (ph_spans p)"
    using shard_ids_upd [of x s' "ph_spans p"] shard_idsI [OF assms(2)] assms(4) by (auto simp: same_span_def)
  then show "ph_inv (upd_ph_span x s' p)"
    using assms pc_inv_client [of "ph_heap p" x s s'] by (auto simp: ph_inv_def upd_ph_span_def)
qed (simp_all add: upd_ph_span_def)

text \<open>The page heap as its clients see it.\<close>

lemma PageHeap_NewSpan_client:
  assumes "ph_inv p" "0 < k" "k < 2 ^ 50" "mmap_ok mmap (ph_heap p)"
  obtains r p' where "PageHeap_NewSpan mmap ram tid k p = Some (r, p')" "ph_inv p'"
    "tame (set_option r) (ph_spans p) (ph_spans p')"
    "\<And>z t. fmlookup (ph_spans p) z = Some t \<Longrightarrow> isUse t \<Longrightarrow> fmlookup (ph_spans p') z = Some t"
    "r = None \<Longrightarrow> ph_spans p' = ph_spans p
       \<and> (SystemAlloc mmap (alloc_size k) = None \<or> answers (pmap (ph_heap p)) \<noteq> [])"
    "\<And>x. r = Some x \<Longrightarrow> \<not> in_use (ph_spans p) x
       \<and> (\<exists>s. fmlookup (ph_spans p') x = Some s \<and> isUse s \<and> npages s = k)"
proof -
  obtain r p' i where n: "PageHeap_NewSpan mmap ram tid k p = Some (r, p')" "ph_inv p'"
    and ret: "returned mmap i k r (ph_heap p) (ph_heap p')"
    using PageHeap_NewSpan_ok [OF assms, of ram tid] by blast
  have t: "tame (set_option r) (ph_spans p) (ph_spans p')"
  proof -
    obtain idx p1 where g: "GetShardIndex tid p = (idx, p1)" by fastforce
    let ?p = "GetShard ram idx p1"
    note g1 = ph_inv_GetShardIndex [OF assms(1) g]
    have sp: "ph_spans ?p = ph_spans p" using ph_inv_GetShard(3) [OF g1(1,2)] g1(3) by simp
    obtain h where h: "NewSpan (map_nodes idx (ph_heap ?p) + 2) mmap idx k (ph_heap ?p) = Some (r, h)"
      and r: "case r of None \<Rightarrow> ph_heap p' = h | Some x \<Rightarrow>
        \<exists>s. fmlookup (spans h) x = Some s \<and> ph_heap p' = upd_span x (s\<lparr>shardId := idx mod 256\<rparr>) h"
      using n(1) by (auto simp: PageHeap_NewSpan_def g Let_def simp del: NewSpan.simps split: option.splits prod.splits)
    have "tame (set_option r) (ph_spans p) (spans h)" using NewSpan_tame [OF h] by (simp add: tame_return_def sp)
    then show ?thesis using r by (auto simp: tame_upd split: option.splits intro: tame_trans)
  qed
  show ?thesis
    by (rule that [OF n t])
      (use ret in \<open>auto simp: returned_def kept_def used_sub_def no_memory_def allocated_def used_kept_def in_use_def\<close>)
qed

lemma PageHeap_ReleaseSpan_client:
  assumes "ph_inv p" "fmlookup (ph_spans p) x = Some s" "isUse s"
  obtains p' where "PageHeap_ReleaseSpan ram (Some x) p = Some p'" "ph_inv p'"
    "tame {} (ph_spans p) (ph_spans p')" "\<not> in_use (ph_spans p') x"
    "\<And>z t. z \<noteq> x \<Longrightarrow> fmlookup (ph_spans p) z = Some t \<Longrightarrow> isUse t \<Longrightarrow> fmlookup (ph_spans p') z = Some t"
proof -
  obtain p' where p': "PageHeap_ReleaseSpan ram (Some x) p = Some p'" "ph_inv p'"
      "ReleaseSpan (shardId s) x (ph_heap p) = Some (ph_heap p')"
    using PageHeap_ReleaseSpan_ok [OF assms, of ram] by blast
  have inv: "pc_inv {} (ph_heap p)" and i: "shardId s < 256"
    using assms(1,2) by (auto simp: ph_inv_def pc_inv_def wf_ids_def)
  obtain h s' where h: "ReleaseSpan (shardId s) x (ph_heap p) = Some h"
    "used_off x (ph_heap p) h" "fmlookup (spans h) x = Some s'" "\<not> isUse s'"
    using ReleaseSpan_ok [OF inv assms(2,3) refl i] by (elim exE conjE) (rule that)
  have e: "h = ph_heap p'" using h(1) p'(3) by simp
  show ?thesis
    by (rule that [OF p'(1,2) ReleaseSpan_tame [OF p'(3)]]) (use h(2-4) e in \<open>auto simp: used_off_def in_use_def\<close>)
qed

end
