(* ===== verification/FreeLists.thy ===== *)
theory FreeLists
  imports PageHeap
begin

text \<open>
  The memory of free objects and the singly linked free list of \<open>KzAlloc/ThreadCache.h\<close>. The
  store maps an address to the pointer kept in its first word (\<open>GetNextObj\<close>, \<open>SetNextObj\<close> of
  \<open>KzAlloc/Common.h\<close>); every object is 8-byte aligned and at least 8 bytes long, so the words of
  distinct objects never overlap. Address 0 is the null pointer. A list on the store is related
  to a list of addresses by \<open>linked\<close>.
\<close>

type_synonym store = "nat \<Rightarrow> nat"

definition GetNextObj :: "store \<Rightarrow> nat \<Rightarrow> nat" where
  "GetNextObj m obj = m obj"

definition SetNextObj :: "nat \<Rightarrow> nat \<Rightarrow> store \<Rightarrow> store" where
  "SetNextObj obj nxt m = m(obj := nxt)"

record free_list =
  fl_head :: nat
  fl_tail :: nat
  fl_size :: nat
  fl_maxSize :: nat
  fl_maxNum :: nat

definition FreeList_init :: "nat \<Rightarrow> free_list" where
  "FreeList_init maxNum = \<lparr>fl_head = 0, fl_tail = 0, fl_size = 0, fl_maxSize = 1, fl_maxNum = maxNum\<rparr>"

definition Push :: "nat \<Rightarrow> free_list \<Rightarrow> store \<Rightarrow> free_list \<times> store" where
  "Push obj l m =
     (let m = SetNextObj obj (fl_head l) m;
          l = l\<lparr>fl_head := obj\<rparr>;
          l = (if fl_tail l = 0 then l\<lparr>fl_tail := obj\<rparr> else l)
      in (l\<lparr>fl_size := wadd (fl_size l) 1\<rparr>, m))"

definition Pop :: "free_list \<Rightarrow> store \<Rightarrow> nat \<times> free_list" where
  "Pop l m =
     (let obj = fl_head l;
          l = l\<lparr>fl_head := GetNextObj m obj\<rparr>;
          l = (if fl_head l = 0 then l\<lparr>fl_tail := 0\<rparr> else l)
      in (obj, l\<lparr>fl_size := wsub (fl_size l) 1\<rparr>))"

definition PushRange :: "nat \<Rightarrow> nat \<Rightarrow> nat \<Rightarrow> free_list \<Rightarrow> store \<Rightarrow> free_list \<times> store" where
  "PushRange start finish n l m =
     (let m = SetNextObj finish (fl_head l) m;
          l = l\<lparr>fl_head := start\<rparr>;
          l = (if fl_tail l = 0 then l\<lparr>fl_tail := finish\<rparr> else l)
      in (l\<lparr>fl_size := wadd (fl_size l) n\<rparr>, m))"

definition PopRange :: "nat \<Rightarrow> free_list \<Rightarrow> store \<Rightarrow> nat \<times> nat \<times> free_list \<times> store" where
  "PopRange n l m =
     (let start = fl_head l;
          finish = (GetNextObj m ^^ wsub n 1) start;
          l = l\<lparr>fl_head := GetNextObj m finish\<rparr>;
          m = SetNextObj finish 0 m;
          l = (if fl_head l = 0 then l\<lparr>fl_tail := 0\<rparr> else l)
      in (start, finish, l\<lparr>fl_size := wsub (fl_size l) n\<rparr>, m))"

definition Empty :: "free_list \<Rightarrow> bool" where
  "Empty l \<longleftrightarrow> fl_head l = 0"

subsection \<open>Linked lists on the store\<close>

primrec linked :: "store \<Rightarrow> nat \<Rightarrow> nat list \<Rightarrow> bool" where
  "linked m h [] \<longleftrightarrow> h = 0"
| "linked m h (x # xs) \<longleftrightarrow> h = x \<and> x \<noteq> 0 \<and> linked m (m x) xs"

named_theorems store_simps \<open>reading and writing linked lists\<close>

declare GetNextObj_def [store_simps] SetNextObj_def [store_simps]

lemma linked_null [simp]: "linked m 0 xs \<longleftrightarrow> xs = []"
  by (cases xs) auto

lemma linked_head: "linked m h xs \<Longrightarrow> xs \<noteq> [] \<Longrightarrow> h = hd xs \<and> h \<noteq> 0"
  by (cases xs) auto

lemma linked_empty: "linked m h xs \<Longrightarrow> h = 0 \<longleftrightarrow> xs = []"
  by (cases xs) auto

lemma linked_store_cong: "(\<And>x. x \<in> set xs \<Longrightarrow> m' x = m x) \<Longrightarrow> linked m' h xs \<longleftrightarrow> linked m h xs"
  by (induction xs arbitrary: h) auto

lemma linked_upd [store_simps]: "a \<notin> set xs \<Longrightarrow> linked (m(a := v)) h xs \<longleftrightarrow> linked m h xs"
  by (rule linked_store_cong) auto

lemma linked_not_null: "linked m h xs \<Longrightarrow> 0 \<notin> set xs"
  by (induction xs arbitrary: h) auto

lemma linked_unique: "linked m h xs \<Longrightarrow> linked m h ys \<Longrightarrow> xs = ys"
proof (induction xs arbitrary: h ys)
  case (Cons x xs)
  then show ?case by (cases ys) auto
qed simp

lemma linked_suffix: "linked m h (xs @ ys) \<Longrightarrow> xs \<noteq> [] \<Longrightarrow> linked m (m (last xs)) ys"
  by (induction xs arbitrary: h) (auto split: if_splits)

lemma linked_distinct: "linked m h xs \<Longrightarrow> distinct xs"
proof (induction xs arbitrary: h)
  case (Cons x xs)
  have "x \<notin> set xs"
  proof
    assume "x \<in> set xs"
    then obtain ys zs where xs: "xs = ys @ x # zs" by (auto simp: in_set_conv_decomp)
    then have "linked m h ((x # ys) @ x # zs)" using Cons.prems by simp
    then have "linked m (m (last (x # ys))) (x # zs)" by (rule linked_suffix) simp
    then have "linked m (m x) zs" by (cases "last (x # ys) = 0") auto
    moreover have "linked m (m x) (ys @ x # zs)" using Cons.prems xs by simp
    ultimately have "zs = ys @ x # zs" by (rule linked_unique)
    then show False by simp
  qed
  then show ?case using Cons by auto
qed simp

text \<open>Cutting a list after a prefix, and splicing one list in front of another.\<close>

lemma linked_cut: "linked m h (xs @ ys) \<Longrightarrow> xs \<noteq> [] \<Longrightarrow> linked (m(last xs := 0)) h xs"
proof (induction xs arbitrary: h)
  case (Cons x xs)
  have d: "distinct (x # xs @ ys)" using linked_distinct [OF Cons.prems(1)] by simp
  show ?case
  proof (cases "xs = []")
    case False
    then have "x \<noteq> last xs" using d last_in_set by fastforce
    then have "(m(last xs := 0)) x = m x" by simp
    then show ?thesis using Cons.IH [of "m x"] Cons.prems False by (auto simp del: fun_upd_apply)
  qed (use Cons.prems in simp)
qed simp

lemma linked_splice:
  "linked m h xs \<Longrightarrow> xs \<noteq> [] \<Longrightarrow> linked m k ys \<Longrightarrow> set xs \<inter> set ys = {} \<Longrightarrow> linked (m(last xs := k)) h (xs @ ys)"
proof (induction xs arbitrary: h)
  case (Cons x xs)
  have d: "distinct (x # xs)" using linked_distinct [OF Cons.prems(1)] .
  show ?case
  proof (cases "xs = []")
    case True
    then have "linked (m(x := k)) k ys" using Cons.prems by (subst linked_upd) auto
    then show ?thesis using True Cons.prems by (auto simp del: fun_upd_apply simp: fun_upd_same)
  next
    case False
    then have "x \<noteq> last xs" using d last_in_set by fastforce
    then have "(m(last xs := k)) x = m x" by simp
    then show ?thesis using Cons.IH [of "m x"] Cons.prems False by (auto simp del: fun_upd_apply)
  qed
qed simp

lemma linked_walk: "linked m h xs \<Longrightarrow> n < length xs \<Longrightarrow> (GetNextObj m ^^ n) h = xs ! n"
proof (induction n arbitrary: h xs)
  case 0
  then show ?case by (cases xs) auto
next
  case (Suc n)
  then obtain x ys where xs: "xs = x # ys" by (cases xs) auto
  then have "linked m (m h) ys" "n < length ys" using Suc.prems by auto
  from Suc.IH [OF this] show ?case by (simp add: xs funpow_swap1 GetNextObj_def)
qed

subsection \<open>The free list implements a list of objects\<close>

definition fl_ok :: "store \<Rightarrow> free_list \<Rightarrow> nat list \<Rightarrow> bool" where
  "fl_ok m l xs \<longleftrightarrow> linked m (fl_head l) xs \<and> fl_tail l = (if xs = [] then 0 else last xs)
     \<and> fl_size l = length xs \<and> length xs < 2 ^ 50"

lemma fl_ok_init: "fl_ok m (FreeList_init n) []"
  by (simp add: fl_ok_def FreeList_init_def)

lemma fl_ok_Empty: "fl_ok m l xs \<Longrightarrow> Empty l \<longleftrightarrow> xs = []"
  by (auto simp: fl_ok_def Empty_def linked_empty)

lemma fl_ok_cong: "(\<And>x. x \<in> set xs \<Longrightarrow> m' x = m x) \<Longrightarrow> fl_ok m l xs \<Longrightarrow> fl_ok m' l xs"
  using linked_store_cong [of xs m' m] by (simp add: fl_ok_def)

lemma Push_ok:
  assumes "fl_ok m l xs" "obj \<notin> set xs" "obj \<noteq> 0" "Push obj l m = (l', m')" "length xs < 2 ^ 50 - 1"
  shows "fl_ok m' l' (obj # xs)" "m' = m(obj := fl_head l)"
    "fl_maxSize l' = fl_maxSize l" "fl_maxNum l' = fl_maxNum l"
proof -
  have "wadd (length xs) 1 = Suc (length xs)" using assms(5) by (subst wadd_small) (simp_all add: W64_def)
  moreover have "0 < last xs" if "xs \<noteq> []"
    using linked_not_null [of m "fl_head l" xs] assms(1) that last_in_set by (metis fl_ok_def gr0I)
  ultimately show "fl_ok m' l' (obj # xs)" "m' = m(obj := fl_head l)"
    "fl_maxSize l' = fl_maxSize l" "fl_maxNum l' = fl_maxNum l"
    using assms by (auto simp: Push_def Let_def fl_ok_def store_simps)
qed

lemma Pop_ok:
  assumes "fl_ok m l (x # xs)" "Pop l m = (obj, l')"
  shows "obj = x" "fl_ok m l' xs" "fl_maxSize l' = fl_maxSize l" "fl_maxNum l' = fl_maxNum l"
proof -
  have "wsub (Suc (length xs)) 1 = length xs" using assms(1) by (subst wsub_small) (simp_all add: fl_ok_def W64_def)
  then show "obj = x" "fl_ok m l' xs" "fl_maxSize l' = fl_maxSize l" "fl_maxNum l' = fl_maxNum l"
    using assms by (auto simp: Pop_def Let_def fl_ok_def store_simps linked_empty)
qed

lemma PushRange_ok:
  assumes "fl_ok m l xs" "linked m start ys" "ys \<noteq> []" "finish = last ys" "n = length ys"
    "set xs \<inter> set ys = {}" "length xs + length ys < 2 ^ 50" "PushRange start finish n l m = (l', m')"
  shows "fl_ok m' l' (ys @ xs)" "m' = m(last ys := fl_head l)"
    "fl_maxSize l' = fl_maxSize l" "fl_maxNum l' = fl_maxNum l"
proof -
  have w: "wadd (length xs) (length ys) = length ys + length xs"
    using assms(7) by (subst wadd_small) (simp_all add: W64_def)
  show "m' = m(last ys := fl_head l)" "fl_maxSize l' = fl_maxSize l" "fl_maxNum l' = fl_maxNum l"
    using assms(4,8) by (auto simp: PushRange_def Let_def store_simps)
  have "linked (m(last ys := fl_head l)) start (ys @ xs)"
    using linked_splice [OF assms(2,3)] assms(1,6) by (auto simp: fl_ok_def)
  moreover have "0 < last xs" if "xs \<noteq> []"
    using linked_not_null [of m "fl_head l" xs] assms(1) that last_in_set by (metis fl_ok_def gr0I)
  ultimately show "fl_ok m' l' (ys @ xs)"
    using assms w by (auto simp: PushRange_def Let_def fl_ok_def store_simps)
qed

lemma PopRange_ok:
  assumes "fl_ok m l (ys @ xs)" "ys \<noteq> []" "n = length ys" "PopRange n l m = (start, finish, l', m')"
  shows "linked m' start ys" "finish = last ys" "fl_ok m' l' xs" "m' = m(last ys := 0)"
    "fl_maxSize l' = fl_maxSize l" "fl_maxNum l' = fl_maxNum l"
proof -
  have n: "0 < n" "n < 2 ^ 50" "n \<le> length (ys @ xs)" using assms(1-3) by (simp_all add: fl_ok_def)
  then have "wsub n 1 = n - 1" by (intro wsub_small) (simp_all add: W64_def)
  moreover have "(GetNextObj m ^^ (n - 1)) (fl_head l) = (ys @ xs) ! (n - 1)"
    using linked_walk [of m "fl_head l" "ys @ xs" "n - 1"] assms(1) n by (simp add: fl_ok_def)
  moreover have "(ys @ xs) ! (n - 1) = last ys" using assms(2,3) by (simp add: nth_append last_conv_nth)
  ultimately have w: "(GetNextObj m ^^ wsub n 1) (fl_head l) = last ys" by simp
  have sz: "wsub (length ys + length xs) (length ys) = length xs"
    using assms(1) by (subst wsub_small) (simp_all add: fl_ok_def W64_def)
  have f: "start = fl_head l" "finish = last ys" "m' = m(last ys := 0)"
    "l' = l\<lparr>fl_head := m (last ys), fl_tail := (if m (last ys) = 0 then 0 else fl_tail l),
            fl_size := wsub (fl_size l) n\<rparr>"
    using assms(4) w by (auto simp: PopRange_def Let_def store_simps)
  show "finish = last ys" "m' = m(last ys := 0)"
    "fl_maxSize l' = fl_maxSize l" "fl_maxNum l' = fl_maxNum l" by (simp_all add: f)
  have lk: "linked m (fl_head l) (ys @ xs)" using assms(1) by (simp add: fl_ok_def)
  show "linked m' start ys" using linked_cut [OF lk assms(2)] by (simp add: f)
  have r: "linked m (m (last ys)) xs" using linked_suffix [OF lk assms(2)] .
  moreover have "last ys \<notin> set xs" using linked_distinct [OF lk] last_in_set [OF assms(2)] by auto
  ultimately have "linked m' (m (last ys)) xs" by (simp add: f store_simps)
  then show "fl_ok m' l' xs"
    using assms(1,3) sz linked_empty [OF r] by (auto simp: fl_ok_def f)
qed

end
