(* ===== verification/CentralCache.thy ===== *)
theory CentralCache
  imports SpanUse FreeLists
begin

text \<open>
  The central cache (\<open>KzAlloc/CentralCache.h\<close>, \<open>KzAlloc/CentralCache.cpp\<close>): one list of spans per
  size class, each span cut into objects that are chained through the store. One call is one
  step (the bucket's spin lock; while \<open>GetOneSpan\<close> has released it the new span is private).
  Reading a span that does not exist makes an operation return \<open>None\<close>.
\<close>

record central =
  c_ph :: page_heap
  c_mem :: store
  c_lists :: "nat \<Rightarrow> nat list"

definition CentralCache_init :: "page_heap \<Rightarrow> store \<Rightarrow> central" where
  "CentralCache_init p m = \<lparr>c_ph = p, c_mem = m, c_lists = (\<lambda>_. [])\<rparr>"

abbreviation c_spans :: "central \<Rightarrow> spans" where
  "c_spans c \<equiv> ph_spans (c_ph c)"

definition c_upd_span :: "nat \<Rightarrow> span \<Rightarrow> central \<Rightarrow> central" where
  "c_upd_span x s c = c\<lparr>c_ph := upd_ph_span x s (c_ph c)\<rparr>"

subsection \<open>Fetching objects\<close>

text \<open>The first span of a bucket that has a free object.\<close>

primrec first_nonempty :: "nat list \<Rightarrow> spans \<Rightarrow> nat option option" where
  "first_nonempty [] S = Some None"
| "first_nonempty (x # xs) S =
     (case fmlookup S x of None \<Rightarrow> None
      | Some s \<Rightarrow> if freeList s \<noteq> 0 then Some (Some x) else first_nonempty xs S)"

text \<open>Chaining the objects of a fresh span, from \<open>cur\<close> up to \<open>finish\<close>; a size of 0 cannot occur.\<close>

function slice :: "nat \<Rightarrow> nat \<Rightarrow> nat \<Rightarrow> nat \<Rightarrow> store \<Rightarrow> store" where
  "slice sz finish tail cur m =
     (if cur \<le> finish \<and> sz \<noteq> 0 then slice sz finish cur (cur + sz) (SetNextObj tail cur m)
      else SetNextObj tail 0 m)"
  by pat_completeness auto
termination
  by (relation "measure (\<lambda>(sz, finish, tail, cur, m). Suc finish - cur)") auto

declare slice.simps [simp del]

definition GetOneSpan ::
  "(nat \<Rightarrow> nat option) \<Rightarrow> nat \<Rightarrow> nat \<Rightarrow> nat \<Rightarrow> nat \<Rightarrow> central \<Rightarrow> (nat option \<times> central) option" where
  "GetOneSpan mmap ram tid b sz c =
     (case first_nonempty (c_lists c b) (c_spans c) of None \<Rightarrow> None
      | Some (Some x) \<Rightarrow> Some (Some x, c)
      | Some None \<Rightarrow>
        (let aligned_size = RoundUp sz; kPages = CalculatePageNeed aligned_size
         in case PageHeap_NewSpan mmap ram tid kPages (c_ph c) of None \<Rightarrow> None
            | Some (None, p) \<Rightarrow> Some (None, c\<lparr>c_ph := p\<rparr>)
            | Some (Some x, p) \<Rightarrow>
              (case fmlookup (ph_spans p) x of None \<Rightarrow> None
               | Some s \<Rightarrow>
                 (let start = push_bit PAGE_SHIFT (pageId s);
                      bytes = push_bit PAGE_SHIFT (npages s);
                      finish = start + bytes - aligned_size;
                      s = s\<lparr>isUse := True, objSize := aligned_size, freeList := start\<rparr>;
                      m = slice aligned_size finish start (start + aligned_size) (c_mem c)
                  in Some (Some x, c\<lparr>c_ph := upd_ph_span x s p, c_mem := m,
                       c_lists := (c_lists c)(b := x # c_lists c b)\<rparr>)))))"

function take_range :: "store \<Rightarrow> nat \<Rightarrow> nat \<Rightarrow> nat \<Rightarrow> nat \<times> nat" where
  "take_range m n actualNum finish =
     (if actualNum < n \<and> GetNextObj m finish \<noteq> 0 then take_range m n (actualNum + 1) (GetNextObj m finish)
      else (finish, actualNum))"
  by pat_completeness auto
termination
  by (relation "measure (\<lambda>(m, n, a, e). n - a)") auto

declare take_range.simps [simp del]

text \<open>The result is the first and the last object and their number, 0 when there is no memory.\<close>

definition FetchRangeObj ::
  "(nat \<Rightarrow> nat option) \<Rightarrow> nat \<Rightarrow> nat \<Rightarrow> nat \<Rightarrow> nat \<Rightarrow> central \<Rightarrow> (nat \<times> nat \<times> nat \<times> central) option" where
  "FetchRangeObj mmap ram tid n sz c =
     (case GetOneSpan mmap ram tid (Index sz) sz c of None \<Rightarrow> None
      | Some (None, c) \<Rightarrow> Some (0, 0, 0, c)
      | Some (Some x, c) \<Rightarrow>
        (case fmlookup (c_spans c) x of None \<Rightarrow> None
         | Some s \<Rightarrow>
           (let start = freeList s;
                (finish, actualNum) = take_range (c_mem c) n 1 start;
                s = s\<lparr>freeList := GetNextObj (c_mem c) finish, useCount := wadd (useCount s) actualNum\<rparr>
            in Some (start, finish, actualNum,
                 c_upd_span x s (c\<lparr>c_mem := SetNextObj finish 0 (c_mem c)\<rparr>)))))"

subsection \<open>Releasing objects\<close>

record batch =
  b_span :: "nat option"
  b_head :: nat
  b_tail :: nat
  b_count :: nat

definition MAX_BATCH :: nat where "MAX_BATCH = 16"

text \<open>Hanging one batch back on its span; a span without handed-out objects leaves the bucket.\<close>

definition flush_one :: "nat \<Rightarrow> batch \<Rightarrow> central \<times> nat list \<Rightarrow> (central \<times> nat list) option" where
  "flush_one b bt st =
     (case st of (c, spans_to_release) \<Rightarrow>
       (case b_span bt of None \<Rightarrow> None
        | Some x \<Rightarrow>
          (case fmlookup (c_spans c) x of None \<Rightarrow> None
           | Some s \<Rightarrow>
             (let c = c\<lparr>c_mem := SetNextObj (b_tail bt) (freeList s) (c_mem c)\<rparr>;
                  s = s\<lparr>freeList := b_head bt, useCount := wsub (useCount s) (b_count bt)\<rparr>
              in if useCount s = 0
                 then Some (c_upd_span x (s\<lparr>freeList := 0\<rparr>) (c\<lparr>c_lists := (c_lists c)(b := remove1 x (c_lists c b))\<rparr>),
                        spans_to_release @ [x])
                 else Some (c_upd_span x s c, spans_to_release)))))"

primrec flush_all :: "nat \<Rightarrow> batch list \<Rightarrow> central \<times> nat list \<Rightarrow> (central \<times> nat list) option" where
  "flush_all b [] st = Some st"
| "flush_all b (bt # bs) st = (case flush_one b bt st of None \<Rightarrow> None | Some st \<Rightarrow> flush_all b bs st)"

primrec release_spans :: "nat \<Rightarrow> nat list \<Rightarrow> central \<Rightarrow> central option" where
  "release_spans ram [] c = Some c"
| "release_spans ram (x # xs) c =
     (case PageHeap_ReleaseSpan ram (Some x) (c_ph c) of None \<Rightarrow> None
      | Some p \<Rightarrow> release_spans ram xs (c\<lparr>c_ph := p\<rparr>))"

definition flush_batches :: "nat \<Rightarrow> nat \<Rightarrow> batch list \<Rightarrow> central \<Rightarrow> central option" where
  "flush_batches ram b batches c =
     (case flush_all b batches (c, []) of None \<Rightarrow> None
      | Some (c, spans_to_release) \<Rightarrow> release_spans ram spans_to_release c)"

text \<open>Adding an object to the batch of its span, if there is one.\<close>

primrec add_batch :: "nat option \<Rightarrow> nat \<Rightarrow> batch list \<Rightarrow> store \<Rightarrow> (batch list \<times> store) option" where
  "add_batch sp obj [] m = None"
| "add_batch sp obj (bt # bs) m =
     (if b_span bt = sp
      then Some (bt\<lparr>b_head := obj, b_count := b_count bt + 1\<rparr> # bs, SetNextObj obj (b_head bt) m)
      else map_option (\<lambda>(bs, m). (bt # bs, m)) (add_batch sp obj bs m))"

definition new_batch :: "nat option \<Rightarrow> nat \<Rightarrow> batch" where
  "new_batch sp obj = \<lparr>b_span = sp, b_head = obj, b_tail = obj, b_count = 1\<rparr>"

definition put_batch :: "nat \<Rightarrow> nat \<Rightarrow> nat option \<Rightarrow> nat \<Rightarrow> batch list \<Rightarrow> central \<Rightarrow> (batch list \<times> central) option" where
  "put_batch ram b sp obj batches c =
     (case add_batch sp obj batches (c_mem c) of
        Some (batches, m) \<Rightarrow> Some (batches, c\<lparr>c_mem := m\<rparr>)
      | None \<Rightarrow>
        if length batches = MAX_BATCH
        then map_option (\<lambda>c. ([new_batch sp obj], c)) (flush_batches ram b batches c)
        else Some (batches @ [new_batch sp obj], c))"

text \<open>The walk over the list that is returned, with the one-entry page cache. A cyclic list would
  make it run for ever, which is the value \<open>None\<close> of the partial function.\<close>

partial_function (option) release_loop ::
  "nat \<Rightarrow> nat \<Rightarrow> nat \<Rightarrow> nat \<Rightarrow> nat option \<Rightarrow> batch list \<Rightarrow> central \<Rightarrow> central option" where
  "release_loop ram b start last_id last_span batches c =
     (if start = 0 then flush_batches ram b batches c
      else
        let nxt = GetNextObj (c_mem c) start;
            c = c\<lparr>c_mem := SetNextObj start 0 (c_mem c)\<rparr>;
            pid = drop_bit PAGE_SHIFT start;
            sp = (if pid = last_id then last_span else PageMap_get (pmap (ph_heap (c_ph c))) pid)
        in case put_batch ram b sp start batches c of None \<Rightarrow> None
           | Some (batches, c) \<Rightarrow> release_loop ram b nxt pid sp batches c)"

definition ReleaseListToSpans :: "nat \<Rightarrow> nat \<Rightarrow> nat \<Rightarrow> central \<Rightarrow> central option" where
  "ReleaseListToSpans ram start sz c = release_loop ram (Index sz) start 0 None [] c"

subsection \<open>The invariant\<close>

text \<open>The objects of a span, and the state of a span that belongs to a bucket: \<open>xs\<close> are its free
  objects, \<open>U\<close> the objects of its class that the central cache has handed out.\<close>

definition base :: "span \<Rightarrow> nat" where
  "base s = pageId s * PAGE_SIZE"

definition nobj :: "span \<Rightarrow> nat" where
  "nobj s = npages s * PAGE_SIZE div objSize s"

definition obj_list :: "span \<Rightarrow> nat list" where
  "obj_list s = map (\<lambda>j. base s + j * objSize s) [0..<nobj s]"

definition span_ok :: "store \<Rightarrow> span \<Rightarrow> nat list \<Rightarrow> nat set \<Rightarrow> bool" where
  "span_ok m s xs U \<longleftrightarrow> linked m (freeList s) xs \<and> set xs \<subseteq> set (obj_list s) \<and> set xs \<inter> U = {}
     \<and> set (obj_list s) \<subseteq> set xs \<union> U \<and> useCount s + length xs = nobj s"

definition listed :: "central \<Rightarrow> nat \<Rightarrow> nat \<Rightarrow> span \<Rightarrow> bool" where
  "listed c b x s \<longleftrightarrow> x \<in> set (c_lists c b) \<and> fmlookup (c_spans c) x = Some s"

definition central_inv :: "central \<Rightarrow> (nat \<Rightarrow> nat list) \<Rightarrow> (nat \<Rightarrow> nat set) \<Rightarrow> bool" where
  "central_inv c fl U \<longleftrightarrow> ph_inv (c_ph c)
     \<and> (\<forall>b. distinct (c_lists c b) \<and> (MAX_NFREELISTS \<le> b \<longrightarrow> c_lists c b = []))
     \<and> (\<forall>b x. x \<in> set (c_lists c b) \<longrightarrow>
          (\<exists>s. fmlookup (c_spans c) x = Some s \<and> isUse s \<and> objSize s = class_size b \<and> span_ok (c_mem c) s (fl x) (U b)))
     \<and> (\<forall>b. \<forall>a \<in> U b. \<exists>x s. listed c b x s \<and> a \<in> set (obj_list s))
     \<and> (\<forall>x. 0 < use_count (c_spans c) x \<longrightarrow> (\<exists>b. x \<in> set (c_lists c b)))"

text \<open>The objects of all buckets; and every span of a bucket has handed out an object.\<close>

definition heads :: "central \<Rightarrow> nat set" where
  "heads c = {a. \<exists>b x s. listed c b x s \<and> a \<in> set (obj_list s)}"

definition busy :: "central \<Rightarrow> bool" where
  "busy c \<longleftrightarrow> (\<forall>b. \<forall>x \<in> set (c_lists c b). 0 < use_count (c_spans c) x)"

text \<open>The spans in use that are in no bucket, which belong to large blocks.\<close>

definition outside :: "central \<Rightarrow> nat \<Rightarrow> bool" where
  "outside c x \<longleftrightarrow> in_use (c_spans c) x \<and> (\<forall>b. x \<notin> set (c_lists c b))"

definition same_outside :: "central \<Rightarrow> central \<Rightarrow> bool" where
  "same_outside c c' \<longleftrightarrow> (\<forall>x. outside c' x \<longleftrightarrow> outside c x)
     \<and> (\<forall>x. outside c x \<longrightarrow> fmlookup (c_spans c') x = fmlookup (c_spans c) x)"

subsection \<open>Objects\<close>

lemma obj_bounds:
  assumes "a \<in> set (obj_list s)"
  shows "base s \<le> a" "a + objSize s \<le> (pageId s + npages s) * PAGE_SIZE" "0 < objSize s"
proof -
  obtain j where j: "a = base s + j * objSize s" "j < nobj s" using assms unfolding obj_list_def by fastforce
  show "base s \<le> a" by (simp add: j(1))
  show "0 < objSize s" using j(2) by (cases "objSize s = 0") (simp_all add: nobj_def)
  have "(j + 1) * objSize s \<le> nobj s * objSize s" using j(2) by (intro mult_le_mono1) simp
  also have "\<dots> \<le> npages s * PAGE_SIZE" by (simp add: nobj_def)
  finally show "a + objSize s \<le> (pageId s + npages s) * PAGE_SIZE"
    by (simp add: j(1) base_def algebra_simps)
qed

lemma obj_page:
  assumes "a \<in> set (obj_list s)"
  shows "drop_bit PAGE_SHIFT a \<in> pages s"
proof -
  note b = obj_bounds [OF assms]
  have "a < (pageId s + npages s) * PAGE_SIZE" using b(2,3) by linarith
  moreover have "pageId s * PAGE_SIZE \<le> a" using b(1) by (simp add: base_def)
  ultimately have "pageId s \<le> a div PAGE_SIZE" "a div PAGE_SIZE < pageId s + npages s"
    by (simp_all add: PAGE_SIZE_def less_eq_div_iff_mult_less_eq div_less_iff_less_mult)
  then show ?thesis by (simp add: pages_def drop_bit_eq_div PAGE_SHIFT_def PAGE_SIZE_def)
qed

lemma obj_list_distinct: "0 < objSize s \<Longrightarrow> distinct (obj_list s)"
  by (auto simp: obj_list_def distinct_map inj_on_def)

lemma length_obj_list [simp]: "length (obj_list s) = nobj s"
  by (simp add: obj_list_def)

lemma obj_list_cong: "pageId s' = pageId s \<Longrightarrow> npages s' = npages s \<Longrightarrow> objSize s' = objSize s \<Longrightarrow>
  obj_list s' = obj_list s \<and> nobj s' = nobj s"
  by (simp add: obj_list_def nobj_def base_def)

lemma obj_spacing:
  assumes "a \<in> set (obj_list s)" "a' \<in> set (obj_list s)" "a < a'"
  shows "a + objSize s \<le> a'"
proof -
  obtain j j' where j: "a = base s + j * objSize s" "a' = base s + j' * objSize s"
    using assms(1,2) by (auto simp: obj_list_def)
  then have "j < j'" using assms(3) by (metis add_less_cancel_left mult_less_cancel2)
  then have "(j + 1) * objSize s \<le> j' * objSize s" by (intro mult_le_mono1) simp
  then show ?thesis by (simp add: j)
qed

text \<open>What the invariant says of one object.\<close>

lemma central_listed:
  assumes "central_inv c fl U" "x \<in> set (c_lists c b)"
  obtains s where "fmlookup (c_spans c) x = Some s" "isUse s" "objSize s = class_size b"
    "span_ok (c_mem c) s (fl x) (U b)" "b < MAX_NFREELISTS"
proof -
  have "b < MAX_NFREELISTS"
    using assms by (cases "b < MAX_NFREELISTS") (auto simp: central_inv_def)
  then show ?thesis using assms that unfolding central_inv_def by blast
qed

lemma central_class:
  assumes "central_inv c fl U" "x \<in> set (c_lists c b)" "x \<in> set (c_lists c b')"
  shows "b = b'"
  using central_listed [OF assms(1,2)] central_listed [OF assms(1,3)] class_size_strict_mono
  by (metis option.inject strict_mono_eq)

lemma ph_ranges:
  assumes "ph_inv p"
  shows "wf_ranges (ph_spans p)" "wf_tags {} (ph_spans p) (pmap (ph_heap p))"
  using assms by (simp_all add: ph_inv_def pc_inv_def)

lemma page_lookup:
  assumes "ph_inv p" "fmlookup (ph_spans p) x = Some s" "isUse s" "q \<in> pages s"
  shows "PageMap_get (pmap (ph_heap p)) q = Some x" "0 < q" "q < 2 ^ 35"
proof -
  note R = ph_ranges [OF assms(1)]
  show "PageMap_get (pmap (ph_heap p)) q = Some x"
    using wf_tags_tagged [OF R(2) assms(2)] assms(3,4) by (simp add: tagged_def)
  show "0 < q" using wf_ranges_page0 [OF R(1) assms(2)] assms(4) by (auto simp: pages_def)
  show "q < 2 ^ 35" using wf_ranges_bound [OF R(1) assms(2)] assms(4) by (auto simp: pages_def)
qed

lemma obj_lookup:
  assumes "ph_inv p" "fmlookup (ph_spans p) x = Some s" "isUse s" "a \<in> set (obj_list s)"
  shows "PageMap_get (pmap (ph_heap p)) (drop_bit PAGE_SHIFT a) = Some x" "drop_bit PAGE_SHIFT a \<noteq> 0" "a \<noteq> 0"
  using page_lookup [OF assms(1-3) obj_page [OF assms(4)]] by (auto intro: gr0I)

lemma nobj_bound:
  assumes "ph_inv p" "fmlookup (ph_spans p) x = Some s" "8 \<le> objSize s"
  shows "nobj s < 2 ^ 47"
proof -
  have "npages s \<le> 2 ^ 35" using wf_ranges_bound [OF ph_ranges(1) [OF assms(1)] assms(2)] by simp
  then have "npages s * PAGE_SIZE \<le> 2 ^ 49" by (simp add: PAGE_SIZE_def)
  moreover have "nobj s \<le> npages s * PAGE_SIZE div 8" using assms(3) unfolding nobj_def by (rule div_le_mono2 [rotated]) simp
  ultimately show ?thesis by simp
qed

lemma class_size_ge_8: "8 \<le> class_size b"
  using class_size_strict_mono strict_mono_less_eq [of class_size 0 b] by simp

text \<open>Changing the store outside the free objects, and one span of a bucket with its objects.\<close>

lemma span_ok_mem: "span_ok m s xs U \<Longrightarrow> (\<And>a. a \<in> set xs \<Longrightarrow> m' a = m a) \<Longrightarrow> span_ok m' s xs U"
  using linked_store_cong [of xs m' m] by (simp add: span_ok_def)

lemma span_ok_used: "span_ok m s xs U \<Longrightarrow> U \<inter> set (obj_list s) = U' \<inter> set (obj_list s) \<Longrightarrow> span_ok m s xs U'"
  unfolding span_ok_def by blast

lemma objs_disjoint:
  assumes "ph_inv p" "fmlookup (ph_spans p) x = Some s" "fmlookup (ph_spans p) y = Some t" "isUse s" "isUse t"
    "a \<in> set (obj_list s)" "a \<in> set (obj_list t)"
  shows "x = y"
  using obj_lookup(1) [OF assms(1,2,4,6)] obj_lookup(1) [OF assms(1,3,5,7)] by simp

lemma central_mem:
  assumes "central_inv c fl U" "\<And>b x a. x \<in> set (c_lists c b) \<Longrightarrow> a \<in> set (fl x) \<Longrightarrow> m a = c_mem c a"
  shows "central_inv (c\<lparr>c_mem := m\<rparr>) fl U"
proof -
  have "\<exists>s. fmlookup (c_spans c) x = Some s \<and> isUse s \<and> objSize s = class_size b \<and> span_ok m s (fl x) (U b)"
    if x: "x \<in> set (c_lists c b)" for b x
  proof -
    obtain s where s: "fmlookup (c_spans c) x = Some s" "isUse s" "objSize s = class_size b" "span_ok (c_mem c) s (fl x) (U b)"
      by (rule central_listed [OF assms(1) x])
    then show ?thesis using span_ok_mem [OF s(4) assms(2) [OF x]] by blast
  qed
  then show ?thesis using assms(1) by (simp add: central_inv_def listed_def)
qed

lemma used_listed:
  assumes "central_inv c fl U" "a \<in> U b"
  obtains x s where "x \<in> set (c_lists c b)" "fmlookup (c_spans c) x = Some s" "isUse s" "objSize s = class_size b"
    "span_ok (c_mem c) s (fl x) (U b)" "a \<in> set (obj_list s)" "b < MAX_NFREELISTS"
proof -
  obtain x s where x: "x \<in> set (c_lists c b)" "fmlookup (c_spans c) x = Some s" "a \<in> set (obj_list s)"
    using assms unfolding central_inv_def listed_def by blast
  then show ?thesis using central_listed [OF assms(1) x(1)] that by (metis option.inject)
qed

lemma central_counted: "central_inv c fl U \<Longrightarrow> 0 < use_count (c_spans c) x \<Longrightarrow> \<exists>b. x \<in> set (c_lists c b)"
  by (simp add: central_inv_def)

lemma central_ph: "central_inv c fl U \<Longrightarrow> ph_inv (c_ph c)"
  by (simp add: central_inv_def)

text \<open>Objects that are handed out are not free, so writing to them is harmless.\<close>

lemma used_not_free:
  assumes "central_inv c fl U" "a \<in> U b" "x \<in> set (c_lists c b')"
  shows "a \<notin> set (fl x)"
proof
  assume a: "a \<in> set (fl x)"
  obtain y t where y: "y \<in> set (c_lists c b)" "fmlookup (c_spans c) y = Some t" "isUse t" "a \<in> set (obj_list t)"
    by (rule used_listed [OF assms(1,2)])
  obtain s where s: "fmlookup (c_spans c) x = Some s" "isUse s" "span_ok (c_mem c) s (fl x) (U b')"
    by (rule central_listed [OF assms(1,3)])
  have "a \<in> set (obj_list s)" using a s(3) by (auto simp: span_ok_def)
  then have "x = y" by (rule objs_disjoint [OF central_ph [OF assms(1)] s(1) y(2) s(2) y(3) _ y(4)])
  then have "b = b'" using central_class [OF assms(1) y(1)] assms(3) by simp
  then show False using a s(3) assms(2) by (auto simp: span_ok_def)
qed

lemma used_nonzero: "central_inv c fl U \<Longrightarrow> a \<in> U b \<Longrightarrow> a \<noteq> 0"
  using used_listed obj_lookup(3) [OF central_ph] by metis

lemma central_write:
  assumes "central_inv c fl U" "a \<in> U b"
  shows "central_inv (c\<lparr>c_mem := (c_mem c)(a := v)\<rparr>) fl U"
  using central_mem [OF assms(1)] used_not_free [OF assms] by (metis fun_upd_other)

text \<open>The general step on one span of a bucket: its objects move between free and handed out.\<close>

lemma central_update:
  assumes inv: "central_inv c fl U" and x: "x \<in> set (c_lists c b)" and s: "fmlookup (c_spans c) x = Some s"
    and same: "same_span s s'" "objSize s' = objSize s" and ok: "span_ok m s' xs U'"
    and mem: "\<And>y b' a. y \<in> set (c_lists c b') \<Longrightarrow> y \<noteq> x \<Longrightarrow> a \<in> set (fl y) \<Longrightarrow> m a = c_mem c a"
    and used: "U' - set (obj_list s) = U b - set (obj_list s)"
  shows "central_inv (c_upd_span x s' (c\<lparr>c_mem := m\<rparr>)) (fl(x := xs)) (U(b := U'))"
proof -
  let ?c = "c_upd_span x s' (c\<lparr>c_mem := m\<rparr>)"
  have su: "isUse s" "objSize s = class_size b" using central_listed [OF inv x] s by auto
  note cl = ph_inv_client [OF central_ph [OF inv] s su(1) same(1)]
  have c: "c_ph ?c = upd_ph_span x s' (c_ph c)" "c_spans ?c = fmupd x s' (c_spans c)" "c_mem ?c = m" "c_lists ?c = c_lists c"
    using cl by (simp_all add: c_upd_span_def)
  have objs: "obj_list s' = obj_list s"
    using same obj_list_cong [of s' s] by (simp add: same_span_def)
  have spans: "\<exists>t. fmlookup (c_spans ?c) y = Some t \<and> isUse t \<and> objSize t = class_size b'
      \<and> span_ok m t ((fl(x := xs)) y) ((U(b := U')) b')" if y: "y \<in> set (c_lists c b')" for y b'
  proof (cases "y = x")
    case True
    then have "b' = b" using central_class [OF inv _ x] y by simp
    then show ?thesis using True su ok same by (simp add: c(2) same_span_def)
  next
    case False
    obtain t where t: "fmlookup (c_spans c) y = Some t" "isUse t" "objSize t = class_size b'" "span_ok (c_mem c) t (fl y) (U b')"
      by (rule central_listed [OF inv y])
    have "set (obj_list t) \<inter> set (obj_list s) = {}"
      using objs_disjoint [OF central_ph [OF inv] t(1) s t(2) su(1)] False by blast
    then have "span_ok (c_mem c) t (fl y) ((U(b := U')) b')"
      using t(4) used by (cases "b' = b") (auto intro: span_ok_used)
    then have "span_ok m t (fl y) ((U(b := U')) b')" by (rule span_ok_mem) (rule mem [OF y False])
    then show ?thesis using False t by (simp add: c(2))
  qed
  have listed: "\<exists>y t. listed ?c b' y t \<and> a \<in> set (obj_list t)" if a: "a \<in> (U(b := U')) b'" for b' a
  proof (cases "b' = b \<and> a \<in> set (obj_list s)")
    case True
    then show ?thesis using x objs by (intro exI [of _ x] exI [of _ s']) (simp add: listed_def c(2,4))
  next
    case False
    then have "a \<in> U b'" using a used by (auto split: if_splits)
    then obtain y t where y: "y \<in> set (c_lists c b')" "fmlookup (c_spans c) y = Some t" "a \<in> set (obj_list t)"
      by (rule used_listed [OF inv])
    then show ?thesis
      using objs s x by (intro exI [of _ y] exI [of _ "if y = x then s' else t"]) (auto simp: listed_def c(2,4))
  qed
  show ?thesis
    using inv cl(1) spans listed x unfolding central_inv_def c by (auto simp: use_count_def cl(2) split: if_splits)
qed

subsection \<open>Cutting and taking\<close>

text \<open>Only first words of objects are written.\<close>

lemma slice_only:
  assumes "\<And>j. a = tail + j * sz \<Longrightarrow> finish < a" "a \<noteq> tail" "cur = tail + sz" "0 < sz"
  shows "slice sz finish tail cur m a = m a"
  using assms
proof (induction sz finish tail cur m rule: slice.induct)
  case (1 sz finish tail cur m)
  have "slice sz finish cur (cur + sz) (SetNextObj tail cur m) a = SetNextObj tail cur m a" if c: "cur \<le> finish"
  proof (rule 1(1))
    show "cur \<le> finish \<and> sz \<noteq> 0" "0 < sz" using c 1(5) by simp_all
    show "finish < a" if "a = cur + j * sz" for j using 1(2) [of "Suc j"] that 1(4) by simp
    show "a \<noteq> cur" using 1(2) [of 1] 1(4) c by auto
  qed simp
  then show ?case using 1(3,5) by (subst slice.simps) (simp add: SetNextObj_def)
qed

lemma slice_keep: "a \<noteq> tail \<Longrightarrow> a < tail \<or> finish < a \<Longrightarrow> 0 < sz \<Longrightarrow> tail < cur \<Longrightarrow> slice sz finish tail cur m a = m a"
proof (induction sz finish tail cur m rule: slice.induct)
  case (1 sz finish tail cur m)
  have "slice sz finish cur (cur + sz) (SetNextObj tail cur m) a = SetNextObj tail cur m a" if "cur \<le> finish"
    using that 1(2-5) by (intro 1(1)) auto
  then show ?case using 1(2,4) by (subst slice.simps) (simp add: SetNextObj_def)
qed

lemma slice_linked:
  assumes "0 < sz" "0 < tail" "cur = tail + sz"
  shows "linked (slice sz finish tail cur m) tail
    (map (\<lambda>j. tail + j * sz) [0..<(if tail \<le> finish then Suc ((finish - tail) div sz) else 1)])"
  using assms
proof (induction sz finish tail cur m rule: slice.induct)
  case (1 sz finish tail cur m)
  note cur = 1(4)
  show ?case
  proof (cases "tail + sz \<le> finish")
    case True
    let ?m = "SetNextObj tail cur m" and ?n = "(finish - cur) div sz"
    have c: "cur \<le> finish" "sz \<noteq> 0" "0 < cur" using True cur 1(2,3) by simp_all
    have s: "slice sz finish tail cur m = slice sz finish cur (cur + sz) ?m"
      using c by (subst slice.simps) simp
    have l: "linked (slice sz finish cur (cur + sz) ?m) cur (map (\<lambda>j. cur + j * sz) [0..<Suc ?n])"
      using 1(1) [OF conjI [OF c(1,2)] 1(2) c(3) refl] unfolding if_P [OF c(1)] .
    have t: "slice sz finish cur (cur + sz) ?m tail = cur"
      using slice_keep [of tail cur finish sz "cur + sz" ?m] 1(2) cur by (simp add: SetNextObj_def)
    have "finish - tail = finish - cur + sz" using True cur by simp
    then have n: "(finish - tail) div sz = Suc ?n" using 1(2) by (simp add: div_add_self2)
    have u: "map (\<lambda>j. tail + j * sz) [0..<Suc (Suc k)] = tail # map (\<lambda>j. cur + j * sz) [0..<Suc k]" for k
      by (simp add: cur upt_conv_Cons map_Suc_upt [symmetric] add.assoc del: upt_Suc)
    have "tail \<le> finish" using True by simp
    then show ?thesis unfolding s n u if_P [OF \<open>tail \<le> finish\<close>] using l t 1(3) by (simp del: upt_Suc)
  next
    case False
    then have "slice sz finish tail cur m = SetNextObj tail 0 m" unfolding cur by (subst slice.simps) simp
    moreover have "(finish - tail) div sz = 0" using False 1(2) by (intro div_less) linarith
    ultimately show ?thesis using 1(3) by (auto simp: SetNextObj_def)
  qed
qed

text \<open>A fresh span of at least one object, cut up.\<close>

lemma slice_span:
  assumes "0 < objSize s" "objSize s \<le> npages s * PAGE_SIZE" "0 < pageId s"
  shows "linked (slice (objSize s) (base s + npages s * PAGE_SIZE - objSize s) (base s) (base s + objSize s) m) (base s) (obj_list s)"
    "a \<notin> set (obj_list s) \<Longrightarrow>
      slice (objSize s) (base s + npages s * PAGE_SIZE - objSize s) (base s) (base s + objSize s) m a = m a"
proof -
  let ?f = "base s + npages s * PAGE_SIZE - objSize s"
  have "Suc ((npages s * PAGE_SIZE - objSize s) div objSize s) = nobj s"
    using assms(1,2) by (simp add: nobj_def le_div_geq)
  then have "obj_list s = map (\<lambda>j. base s + j * objSize s) [0..<(if base s \<le> ?f then Suc ((?f - base s) div objSize s) else 1)]"
    using assms(2) by (simp add: obj_list_def)
  then show "linked (slice (objSize s) ?f (base s) (base s + objSize s) m) (base s) (obj_list s)"
    using slice_linked [OF assms(1) _ refl, of "base s" ?f m] assms(3) by (simp add: base_def PAGE_SIZE_def)
  assume a: "a \<notin> set (obj_list s)"
  show "slice (objSize s) ?f (base s) (base s + objSize s) m a = m a"
  proof (rule slice_only [OF _ _ refl assms(1)])
    have *: "j < nobj s" if "base s + j * objSize s \<le> ?f" for j
    proof -
      have "(j + 1) * objSize s \<le> npages s * PAGE_SIZE" using that assms(2) by simp
      then have "j + 1 \<le> nobj s" unfolding nobj_def by (simp add: less_eq_div_iff_mult_less_eq assms(1))
      then show ?thesis by simp
    qed
    then show "?f < a" if "a = base s + j * objSize s" for j
      using a that by (fastforce simp: obj_list_def not_less [symmetric])
    show "a \<noteq> base s" using a * [of 0] assms(2) by (force simp: obj_list_def)
  qed
qed

lemma take_range_spec:
  "linked m e (e # ys) \<Longrightarrow> k = min (n - a) (length ys) \<Longrightarrow> take_range m n a e = (last (take (Suc k) (e # ys)), a + k)"
proof (induction ys arbitrary: e a k)
  case Nil
  then show ?case by (subst take_range.simps) (simp add: GetNextObj_def)
next
  case (Cons y ys)
  then have y: "m e = y" "y \<noteq> 0" "linked m y (y # ys)" by auto
  show ?case
  proof (cases "a < n")
    case True
    then have "take_range m n a e = take_range m n (a + 1) y"
      using y by (subst take_range.simps) (simp add: GetNextObj_def)
    also have "\<dots> = (last (take (Suc (k - 1)) (y # ys)), a + 1 + (k - 1))"
      using Cons.prems(2) True by (intro Cons.IH [OF y(3)]) auto
    finally show ?thesis using Cons.prems(2) True by (cases k) auto
  next
    case False
    then show ?thesis using Cons.prems(2) by (subst take_range.simps) simp
  qed
qed

subsection \<open>Fetching\<close>

lemma first_nonempty_ok:
  "\<forall>x \<in> set xs. fmlookup S x \<noteq> None \<Longrightarrow> first_nonempty xs S = Some None
     \<or> (\<exists>x s. first_nonempty xs S = Some (Some x) \<and> x \<in> set xs \<and> fmlookup S x = Some s \<and> freeList s \<noteq> 0)"
  by (induction xs) (auto split: option.splits)

lemma class_pages:
  assumes "sz \<le> MAX_BYTES"
  shows "RoundUp sz = class_size (Index sz)" "0 < CalculatePageNeed (RoundUp sz)" "CalculatePageNeed (RoundUp sz) < 2 ^ 50"
    "RoundUp sz \<le> CalculatePageNeed (RoundUp sz) * PAGE_SIZE"
proof -
  show r: "RoundUp sz = class_size (Index sz)" using assms by (rule RoundUp_class)
  have i: "Index sz \<le> 263" using Index_less [OF assms] by (simp add: MAX_NFREELISTS_def)
  have c: "0 < class_size (Index sz)" "class_size (Index sz) \<le> MAX_BYTES"
    using class_size_ge_8 [of "Index sz"] strict_mono_less_eq [OF class_size_strict_mono, of "Index sz" 263] i
    by (simp_all add: class_size_263)
  note b = batch_bounds [OF c]
  let ?x = "CalculateFetchBatchSize (class_size (Index sz)) * class_size (Index sz)"
  have n: "CalculatePageNeed (RoundUp sz) = (?x + 16383) div 16384" unfolding r by (rule CalculatePageNeed_eq [OF c])
  have le: "class_size (Index sz) \<le> ?x" using b(1) by simp
  then have x: "0 < ?x" using c(1) by linarith
  show "RoundUp sz \<le> CalculatePageNeed (RoundUp sz) * PAGE_SIZE"
    unfolding n unfolding r PAGE_SIZE_def by (rule order_trans [OF le conjunct2 [OF ceil_pages [OF x]]])
  show "0 < CalculatePageNeed (RoundUp sz)" using ceil_pages [OF x] x unfolding n by (intro gr0I) simp
  have "(?x + 16383) div 16384 \<le> ?x + 16383" by simp
  then show "CalculatePageNeed (RoundUp sz) < 2 ^ 50" using b(3) unfolding n by (simp add: MAX_BYTES_def)
qed

text \<open>Putting a span of the page heap into a bucket, with all its objects free.\<close>

lemma central_add:
  assumes inv: "central_inv c fl U" and b: "b < MAX_NFREELISTS" and p: "ph_inv p" and t: "tame {x} (c_spans c) (ph_spans p)"
    and kept: "\<And>z t. fmlookup (c_spans c) z = Some t \<Longrightarrow> isUse t \<Longrightarrow> fmlookup (ph_spans p) z = Some t"
    and new: "\<not> in_use (c_spans c) x" and s: "fmlookup (ph_spans p) x = Some s" "isUse s"
    and s': "same_span s s'" "objSize s' = class_size b" "useCount s' = useCount s" "freeList s' = base s"
    and len: "class_size b \<le> npages s * PAGE_SIZE"
    and m: "linked m (base s) (obj_list s')" "\<And>a. a \<notin> set (obj_list s') \<Longrightarrow> m a = c_mem c a"
    and c': "c' = c\<lparr>c_ph := upd_ph_span x s' p, c_mem := m, c_lists := (c_lists c)(b := x # c_lists c b)\<rparr>"
  shows "central_inv c' (fl(x := obj_list s')) U"
    "useCount s' = 0" "\<And>b'. x \<notin> set (c_lists c b')"
    "\<And>b' a. a \<in> U b' \<Longrightarrow> m a = c_mem c a"
    "same_outside c c'"
proof -
  note cl = ph_inv_client [OF p s s'(1)]
  have old: "\<exists>t. fmlookup (c_spans c) y = Some t \<and> isUse t \<and> y \<noteq> x" if "y \<in> set (c_lists c b')" for y b'
    using central_listed [OF inv that] new by (metis in_use_def)
  show fresh: "x \<notin> set (c_lists c b')" for b' using old by blast
  have "use_count (c_spans c) x = 0" using inv fresh by (auto simp: central_inv_def)
  moreover have "use_count (ph_spans p) x \<le> use_count (c_spans c) x" using t by (simp add: tame_def)
  ultimately show z: "useCount s' = 0" using s s'(3) by (simp add: use_count_def)
  have objs: "set (obj_list s') \<subseteq> {base s..<base s + npages s * PAGE_SIZE}"
  proof
    fix a assume "a \<in> set (obj_list s')"
    from obj_bounds [OF this] show "a \<in> {base s..<base s + npages s * PAGE_SIZE}"
      using s'(1) by (auto simp: base_def same_span_def algebra_simps)
  qed
  have apart: "a \<notin> {base s..<base s + npages s * PAGE_SIZE}"
    if "fmlookup (c_spans c) y = Some t" "isUse t" "y \<noteq> x" "a \<in> set (obj_list t)" for y t a
  proof
    assume "a \<in> {base s..<base s + npages s * PAGE_SIZE}"
    then have "drop_bit PAGE_SHIFT a \<in> pages s"
      by (auto simp: pages_def base_def drop_bit_eq_div PAGE_SHIFT_def PAGE_SIZE_def less_eq_div_iff_mult_less_eq
          div_less_iff_less_mult algebra_simps)
    then show False
      using page_lookup(1) [OF p s] page_lookup(1) [OF p kept [OF that(1,2)] that(2) obj_page [OF that(4)]] that(3) by simp
  qed
  have mem: "m a = c_mem c a" if y: "y \<in> set (c_lists c b')" and a: "fmlookup (c_spans c) y = Some t" "a \<in> set (obj_list t)" for y b' t a
    using apart [OF a(1) _ _ a(2)] old [OF y] a(1) objs by (intro m(2)) auto
  show used: "m a = c_mem c a" if u: "a \<in> U b'" for b' a
    by (rule used_listed [OF inv u]) (rule mem)
  have none: "U b' \<inter> set (obj_list s') = {}" for b'
  proof -
    have False if u: "a \<in> U b'" "a \<in> set (obj_list s')" for a
    proof -
      obtain y t where "y \<in> set (c_lists c b')" "fmlookup (c_spans c) y = Some t" "isUse t" "a \<in> set (obj_list t)"
        by (rule used_listed [OF inv u(1)])
      then show False using apart [of y t a] u(2) objs fresh by blast
    qed
    then show ?thesis by blast
  qed
  have e: "c_spans c' = fmupd x s' (ph_spans p)" and l': "c_lists c' = (c_lists c)(b := x # c_lists c b)"
    and m': "c_mem c' = m" and p': "ph_inv (c_ph c')" using cl(1,2) by (simp_all add: c')
  have "span_ok m s' (obj_list s') (U b)"
    using m(1) none [of b] z s'(4) by (auto simp: span_ok_def)
  moreover have "span_ok m t (fl y) (U b')" if y: "y \<in> set (c_lists c b')" "fmlookup (c_spans c) y = Some t" for y b' t
    using central_listed [OF inv y(1)] y(2) span_ok_mem [of "c_mem c" t "fl y" "U b'" m] mem [OF y]
    by (metis option.inject span_ok_def subsetD)
  ultimately have spans: "\<exists>t. fmlookup (c_spans c') y = Some t \<and> isUse t \<and> objSize t = class_size b' \<and> span_ok m t ((fl(x := obj_list s')) y) (U b')"
    if y: "y \<in> set (((c_lists c)(b := x # c_lists c b)) b')" for y b'
  proof (cases "y = x")
    case True
    then have "b' = b" using y fresh by (auto split: if_splits)
    then show ?thesis using True s' s(2) \<open>span_ok m s' (obj_list s') (U b)\<close> by (simp add: e same_span_def)
  next
    case False
    then have y: "y \<in> set (c_lists c b')" using y by (auto split: if_splits)
    obtain t where t: "fmlookup (c_spans c) y = Some t" "isUse t" "objSize t = class_size b'"
      by (rule central_listed [OF inv y])
    then show ?thesis
      using False kept [OF t(1,2)] \<open>\<And>y b' t. _ \<Longrightarrow> _ \<Longrightarrow> span_ok m t (fl y) (U b')\<close> [OF y t(1)] by (simp add: e)
  qed
  have listed: "\<exists>y t. listed c' b' y t \<and> a \<in> set (obj_list t)" if u: "a \<in> U b'" for b' a
  proof -
    obtain y t where y: "y \<in> set (c_lists c b')" "fmlookup (c_spans c) y = Some t" "isUse t" "a \<in> set (obj_list t)"
      by (rule used_listed [OF inv u])
    then show ?thesis using kept [OF y(2,3)] fresh [of b'] by (intro exI [of _ y] exI [of _ t]) (auto simp: listed_def e l')
  qed
  have cnt: "\<exists>b'. y \<in> set (((c_lists c)(b := x # c_lists c b)) b')" if "0 < use_count (c_spans c') y" for y
  proof (cases "y = x")
    case False
    then have "0 < use_count (c_spans c) y"
      using that t by (auto simp: e use_count_def tame_def) (metis (no_types, lifting) gr0I less_le_trans not_gr_zero)
    then obtain b' where "y \<in> set (c_lists c b')" using central_counted [OF inv] by blast
    then show ?thesis by (intro exI [of _ b']) auto
  qed (auto intro: exI [of _ b])
  have "distinct (((c_lists c)(b := x # c_lists c b)) b') \<and> (MAX_NFREELISTS \<le> b' \<longrightarrow> ((c_lists c)(b := x # c_lists c b)) b' = [])" for b'
    using inv fresh [of b] b by (auto simp: central_inv_def)
  then show "central_inv c' (fl(x := obj_list s')) U"
    unfolding central_inv_def l' m' using p' spans listed cnt by (intro conjI) auto
  have "in_use (c_spans c') y \<longleftrightarrow> in_use (c_spans c) y" if "y \<noteq> x" for y
    using that t kept by (auto simp: e in_use_def tame_def)
  moreover have "x \<in> set (c_lists c' b)" by (simp add: l')
  moreover have "y \<in> set (c_lists c' b') \<longleftrightarrow> y \<in> set (c_lists c b')" if "y \<noteq> x" for y b' using that by (simp add: l')
  ultimately have "outside c' y \<longleftrightarrow> outside c y" for y
    using new unfolding outside_def by (cases "y = x") auto
  moreover have "fmlookup (c_spans c') y = fmlookup (c_spans c) y" if "outside c y" for y
    using that kept new by (auto simp: e outside_def in_use_def)
  ultimately show "same_outside c c'" by (simp add: same_outside_def)
qed

end
