(* ===== verification/CentralOps.thy ===== *)
theory CentralOps
  imports CentralCache
begin

text \<open>
  What the two entry points of the central cache do: \<open>FetchRangeObj\<close> hands out objects of the class
  that were free, \<open>ReleaseListToSpans\<close> takes them back and gives every span without handed-out
  objects back to the page heap. Both keep the invariant of the central cache.
\<close>

lemma same_outside_refl [simp]: "same_outside c c"
  by (simp add: same_outside_def)

lemma same_outside_trans: "same_outside a b \<Longrightarrow> same_outside b c \<Longrightarrow> same_outside a c"
  by (simp add: same_outside_def)

lemma c_upd_span_sel [simp]:
  "c_spans (c_upd_span x s c) = fmupd x s (c_spans c)" "c_mem (c_upd_span x s c) = c_mem c"
  "c_lists (c_upd_span x s c) = c_lists c"
  by (simp_all add: c_upd_span_def upd_ph_span_def)

lemma same_outside_upd:
  "x \<in> set (c_lists c b) \<Longrightarrow> same_outside c (c_upd_span x s (c\<lparr>c_mem := m\<rparr>))"
  by (auto simp: same_outside_def outside_def in_use_def)

subsection \<open>Fetching\<close>

definition out_of_memory :: "(nat \<Rightarrow> nat option) \<Rightarrow> page_heap \<Rightarrow> nat \<Rightarrow> bool" where
  "out_of_memory mmap p k \<longleftrightarrow> SystemAlloc mmap (alloc_size k) = None \<or> answers (pmap (ph_heap p)) \<noteq> []"

definition one_span :: "nat \<Rightarrow> central \<Rightarrow> central \<Rightarrow> (nat \<Rightarrow> nat list) \<Rightarrow> (nat \<Rightarrow> nat set) \<Rightarrow> nat \<Rightarrow> bool" where
  "one_span b c c' fl U x \<longleftrightarrow> central_inv c' fl U \<and> x \<in> set (c_lists c' b) \<and> fl x \<noteq> []
     \<and> (\<forall>b'. \<forall>y \<in> set (c_lists c' b'). y \<noteq> x \<longrightarrow> 0 < use_count (c_spans c') y)
     \<and> same_outside c c' \<and> (\<forall>b'. \<forall>a \<in> U b'. c_mem c' a = c_mem c a)
     \<and> (\<forall>a. a \<notin> heads c' \<longrightarrow> c_mem c' a = c_mem c a)"

lemma GetOneSpan_ok:
  assumes inv: "central_inv c fl U" and busy: "busy c" and sz: "sz \<le> MAX_BYTES" and mm: "mmap_ok mmap (ph_heap (c_ph c))"
    and b: "b = Index sz"
  obtains (null) p where "GetOneSpan mmap ram tid b sz c = Some (None, c\<lparr>c_ph := p\<rparr>)"
      "central_inv (c\<lparr>c_ph := p\<rparr>) fl U" "ph_spans p = c_spans c"
      "out_of_memory mmap (c_ph c) (CalculatePageNeed (RoundUp sz))"
  | (span) x c' fl' where "GetOneSpan mmap ram tid b sz c = Some (Some x, c')" "one_span b c c' fl' U x"
proof -
  note cp = class_pages [OF sz]
  have "\<forall>x \<in> set (c_lists c b). fmlookup (c_spans c) x \<noteq> None"
    using central_listed [OF inv, of _ b] by (metis option.distinct(1))
  from first_nonempty_ok [OF this]
  consider (hit) x s where "first_nonempty (c_lists c b) (c_spans c) = Some (Some x)" "x \<in> set (c_lists c b)"
      "fmlookup (c_spans c) x = Some s" "freeList s \<noteq> 0"
    | (miss) "first_nonempty (c_lists c b) (c_spans c) = Some None" by blast
  then show thesis
  proof cases
    case hit
    have "span_ok (c_mem c) s (fl x) (U b)" using central_listed [OF inv hit(2)] hit(3) by (metis option.inject)
    then have "fl x \<noteq> []" using hit(4) by (auto simp: span_ok_def)
    then have "one_span b c c fl U x" using inv busy hit(2) by (simp add: one_span_def busy_def)
    then show ?thesis using span [of x c fl] hit(1) by (simp add: GetOneSpan_def)
  next
    case miss
    obtain r p where r: "PageHeap_NewSpan mmap ram tid (CalculatePageNeed (RoundUp sz)) (c_ph c) = Some (r, p)" "ph_inv p"
      and t: "tame (set_option r) (c_spans c) (ph_spans p)"
      and kept: "\<And>z t. fmlookup (c_spans c) z = Some t \<Longrightarrow> isUse t \<Longrightarrow> fmlookup (ph_spans p) z = Some t"
      and none: "r = None \<Longrightarrow> ph_spans p = c_spans c
         \<and> (SystemAlloc mmap (alloc_size (CalculatePageNeed (RoundUp sz))) = None \<or> answers (pmap (ph_heap (c_ph c))) \<noteq> [])"
      and some: "\<And>x. r = Some x \<Longrightarrow> \<not> in_use (c_spans c) x
         \<and> (\<exists>s. fmlookup (ph_spans p) x = Some s \<and> isUse s \<and> npages s = CalculatePageNeed (RoundUp sz))"
      by (rule PageHeap_NewSpan_client [OF central_ph [OF inv] cp(2,3) mm, of ram tid]) (blast intro: that)
    show ?thesis
    proof (cases r)
      case None
      have "central_inv (c\<lparr>c_ph := p\<rparr>) fl U"
        using inv r(2) none [OF None] by (simp add: central_inv_def listed_def)
      then show ?thesis
        using null [of p] miss r(1) none [OF None] None by (simp add: GetOneSpan_def Let_def out_of_memory_def)
    next
      case (Some x)
      then obtain s where s: "fmlookup (ph_spans p) x = Some s" "isUse s" "npages s = CalculatePageNeed (RoundUp sz)"
        and new: "\<not> in_use (c_spans c) x" using some [OF Some] by blast
      let ?s = "s\<lparr>isUse := True, objSize := RoundUp sz, freeList := push_bit PAGE_SHIFT (pageId s)\<rparr>"
      let ?m = "slice (RoundUp sz) (base s + npages s * PAGE_SIZE - RoundUp sz) (base s) (base s + RoundUp sz) (c_mem c)"
      let ?c = "c\<lparr>c_ph := upd_ph_span x ?s p, c_mem := ?m, c_lists := (c_lists c)(b := x # c_lists c b)\<rparr>"
      have bs: "push_bit PAGE_SHIFT (pageId s) = base s" "push_bit PAGE_SHIFT (npages s) = npages s * PAGE_SIZE" "base ?s = base s"
        by (simp_all add: base_def push_bit_eq_mult PAGE_SHIFT_def PAGE_SIZE_def)
      have e: "GetOneSpan mmap ram tid b sz c = Some (Some x, ?c)"
        using miss r(1) Some s(1) unfolding bs [symmetric] by (simp add: GetOneSpan_def Let_def)
      have sp: "0 < objSize ?s" "objSize ?s \<le> npages ?s * PAGE_SIZE" "0 < pageId ?s"
        using class_size_ge_8 [of "Index sz"] cp(1,4) s(3) wf_ranges_page0 [OF ph_ranges(1) [OF r(2)] s(1)] by simp_all
      have m: "linked ?m (base s) (obj_list ?s)" "a \<notin> set (obj_list ?s) \<Longrightarrow> ?m a = c_mem c a" for a
        using slice_span [OF sp] bs(3) by simp_all
      have bb: "b < MAX_NFREELISTS" using Index_less [OF sz] b by simp
      have tm: "tame {x} (c_spans c) (ph_spans p)" using t Some by simp
      have fields: "same_span s ?s" "objSize ?s = class_size b" "useCount ?s = useCount s" "freeList ?s = base s"
        "class_size b \<le> npages s * PAGE_SIZE"
        using s cp(1,4) bs(1) b by (simp_all add: same_span_def)
      note add = central_add [OF inv bb r(2) tm kept new s(1,2) fields m refl]
      have "x \<in> set (c_lists ?c b)" by simp
      moreover have "obj_list ?s \<noteq> []"
      proof -
        have "0 < nobj ?s" unfolding nobj_def using sp(1,2) by (simp add: div_greater_zero_iff)
        then show ?thesis by (metis length_obj_list list.size(3) less_numeral_extra(3))
      qed
      moreover have "0 < use_count (c_spans ?c) y" if y: "y \<in> set (c_lists ?c b')" "y \<noteq> x" for y b'
      proof -
        have y': "y \<in> set (c_lists c b')" using y by (auto split: if_splits)
        obtain t where t: "fmlookup (c_spans c) y = Some t" "isUse t" by (rule central_listed [OF inv y'])
        have "0 < use_count (c_spans c) y" using busy y' by (simp add: busy_def)
        then show ?thesis using t y(2) kept [OF t] by (simp add: use_count_def upd_ph_span_def)
      qed
      moreover have "?m a = c_mem c a" if "a \<notin> heads ?c" for a
      proof (rule m(2))
        have "listed ?c b x ?s" by (simp add: listed_def upd_ph_span_def)
        then show "a \<notin> set (obj_list ?s)" using that unfolding heads_def by blast
      qed
      ultimately have "one_span b c ?c (fl(x := obj_list ?s)) U x"
        using add(1,4,5) unfolding one_span_def by simp
      then show ?thesis using span e by blast
    qed
  qed
qed

text \<open>Handing out a prefix of the free objects of a span.\<close>

lemma span_ok_take:
  assumes "span_ok m s (ys @ zs) U" "ys \<noteq> []" "useCount s + length ys < W64"
  shows "linked (m(last ys := 0)) (freeList s) ys"
    "span_ok (m(last ys := 0)) (s\<lparr>freeList := m (last ys), useCount := wadd (useCount s) (length ys)\<rparr>) zs (U \<union> set ys)"
proof -
  have l: "linked m (freeList s) (ys @ zs)" using assms(1) by (simp add: span_ok_def)
  note d = linked_distinct [OF l]
  show "linked (m(last ys := 0)) (freeList s) ys" by (rule linked_cut [OF l assms(2)])
  have "last ys \<notin> set zs" using d last_in_set [OF assms(2)] by auto
  then have "linked (m(last ys := 0)) (m (last ys)) zs"
    using linked_suffix [OF l assms(2)] by (simp add: linked_upd)
  then show "span_ok (m(last ys := 0)) (s\<lparr>freeList := m (last ys), useCount := wadd (useCount s) (length ys)\<rparr>) zs (U \<union> set ys)"
    using assms(1,3) d by (auto simp: span_ok_def wadd_small obj_list_def nobj_def base_def)
qed

definition fetched :: "nat \<Rightarrow> nat \<Rightarrow> (nat \<Rightarrow> nat set) \<Rightarrow> central \<Rightarrow> nat list \<Rightarrow> nat \<Rightarrow> nat \<Rightarrow> central \<Rightarrow> bool" where
  "fetched b n U c xs start finish c' \<longleftrightarrow> xs \<noteq> [] \<and> length xs \<le> n \<and> length xs < 2 ^ 47 \<and> set xs \<inter> U b = {}
     \<and> linked (c_mem c') start xs \<and> finish = last xs
     \<and> (\<exists>fl'. central_inv c' fl' (U(b := U b \<union> set xs))) \<and> busy c' \<and> same_outside c c'
     \<and> (\<forall>b'. \<forall>a \<in> U b'. c_mem c' a = c_mem c a) \<and> (\<forall>a. a \<notin> heads c' \<longrightarrow> c_mem c' a = c_mem c a)"

lemma FetchRangeObj_ok:
  assumes inv: "central_inv c fl U" and busy: "busy c" and sz: "sz \<le> MAX_BYTES" and mm: "mmap_ok mmap (ph_heap (c_ph c))"
    and n: "0 < n"
  obtains (null) p where "FetchRangeObj mmap ram tid n sz c = Some (0, 0, 0, c\<lparr>c_ph := p\<rparr>)"
      "central_inv (c\<lparr>c_ph := p\<rparr>) fl U" "ph_spans p = c_spans c"
      "out_of_memory mmap (c_ph c) (CalculatePageNeed (RoundUp sz))"
  | (objs) xs start finish c' where "FetchRangeObj mmap ram tid n sz c = Some (start, finish, length xs, c')"
      "fetched (Index sz) n U c xs start finish c'"
proof (rule GetOneSpan_ok [OF inv busy sz mm refl, of ram tid])
  fix p assume "GetOneSpan mmap ram tid (Index sz) sz c = Some (None, c\<lparr>c_ph := p\<rparr>)"
    "central_inv (c\<lparr>c_ph := p\<rparr>) fl U" "ph_spans p = c_spans c" "out_of_memory mmap (c_ph c) (CalculatePageNeed (RoundUp sz))"
  then show thesis using null [of p] by (simp add: FetchRangeObj_def)
next
  fix x c1 fl1
  assume g: "GetOneSpan mmap ram tid (Index sz) sz c = Some (Some x, c1)" and o: "one_span (Index sz) c c1 fl1 U x"
  let ?b = "Index sz"
  have i1: "central_inv c1 fl1 U" and x: "x \<in> set (c_lists c1 ?b)" and ne: "fl1 x \<noteq> []" using o by (simp_all add: one_span_def)
  obtain s where s: "fmlookup (c_spans c1) x = Some s" "isUse s" "objSize s = class_size ?b" "span_ok (c_mem c1) s (fl1 x) (U ?b)"
    by (rule central_listed [OF i1 x])
  have l: "linked (c_mem c1) (freeList s) (fl1 x)" using s(4) by (simp add: span_ok_def)
  define k where "k = min (n - 1) (length (fl1 x) - 1)"
  define ys where "ys = take (Suc k) (fl1 x)"
  define zs where "zs = drop (Suc k) (fl1 x)"
  have yz: "fl1 x = ys @ zs" "ys \<noteq> []" using ne by (simp_all add: ys_def zs_def)
  have ly: "length ys = Suc k" "Suc k \<le> n" using ne n unfolding ys_def k_def by (cases "fl1 x"; simp)+
  have t: "take_range (c_mem c1) n 1 (freeList s) = (last ys, length ys)"
    using take_range_spec [of "c_mem c1" "freeList s" "tl (fl1 x)" k n 1] l ne ly(1) linked_head [OF l ne]
    by (simp add: k_def ys_def)
  have nb: "nobj s < 2 ^ 47" using nobj_bound [OF central_ph [OF i1] s(1)] s(3) class_size_ge_8 by simp
  have so: "span_ok (c_mem c1) s (ys @ zs) (U ?b)" using s(4) yz by simp
  then have cnt: "useCount s + length ys + length zs = nobj s" by (simp add: span_ok_def)
  then have w: "useCount s + length ys < W64" using nb by (simp add: W64_def)
  let ?m = "(c_mem c1)(last ys := 0)"
  let ?s = "s\<lparr>freeList := c_mem c1 (last ys), useCount := wadd (useCount s) (length ys)\<rparr>"
  let ?c = "c_upd_span x ?s (c1\<lparr>c_mem := ?m\<rparr>)"
  have e: "FetchRangeObj mmap ram tid n sz c = Some (freeList s, last ys, length ys, ?c)"
    using g s(1) t by (simp add: FetchRangeObj_def Let_def store_simps)
  note tk = span_ok_take [OF so yz(2) w]
  have ys_obj: "set ys \<subseteq> set (obj_list s)" and ys_new: "set ys \<inter> U ?b = {}" using so by (auto simp: span_ok_def)
  have mem: "?m a = c_mem c1 a" if y: "y \<in> set (c_lists c1 b')" "y \<noteq> x" "a \<in> set (fl1 y)" for y b' a
  proof -
    obtain t where t: "fmlookup (c_spans c1) y = Some t" "isUse t" "objSize t = class_size b'" "span_ok (c_mem c1) t (fl1 y) (U b')"
      by (rule central_listed [OF i1 y(1)])
    have "a \<in> set (obj_list t)" using t(4) y(3) by (auto simp: span_ok_def)
    moreover have "last ys \<in> set (obj_list s)" using ys_obj last_in_set [OF yz(2)] by blast
    ultimately have "a \<noteq> last ys" using objs_disjoint [OF central_ph [OF i1] t(1) s(1) t(2) s(2)] y(2) by metis
    then show ?thesis by simp
  qed
  have "central_inv ?c (fl1(x := zs)) (U(?b := U ?b \<union> set ys))"
    by (rule central_update [OF i1 x s(1) _ _ tk(2) mem]) (use ys_obj in \<open>auto simp: same_span_def\<close>)
  moreover have "busy ?c"
    using o yz(2) w by (auto simp: busy_def one_span_def use_count_def wadd_small)
  moreover have "same_outside c ?c"
    using same_outside_trans [OF _ same_outside_upd [OF x]] o by (simp add: one_span_def)
  moreover have "c_mem ?c a = c_mem c a" if "a \<in> U b'" for b' a
  proof -
    have "a \<notin> set (fl1 x)" by (rule used_not_free [OF i1 that x])
    then have "a \<noteq> last ys" using yz last_in_set [OF yz(2)] by auto
    then show ?thesis using o that by (auto simp: one_span_def)
  qed
  moreover have "c_mem ?c a = c_mem c a" if "a \<notin> heads ?c" for a
  proof -
    have sub: "heads c1 \<subseteq> heads ?c"
    proof
      fix a assume "a \<in> heads c1"
      then obtain b' y t where y: "listed c1 b' y t" "a \<in> set (obj_list t)" by (auto simp: heads_def)
      have "listed ?c b' y (if y = x then ?s else t)" using y(1) by (simp add: listed_def)
      moreover have "a \<in> set (obj_list (if y = x then ?s else t))"
        using y s(1) by (auto simp: listed_def obj_list_def nobj_def base_def)
      ultimately show "a \<in> heads ?c" unfolding heads_def by blast
    qed
    have "last ys \<in> heads c1"
      using ys_obj last_in_set [OF yz(2)] x s(1) unfolding heads_def listed_def by blast
    then have "a \<noteq> last ys" "a \<notin> heads c1" using sub that by blast+
    then show ?thesis using o by (simp add: one_span_def)
  qed
  ultimately have "fetched ?b n U c ys (freeList s) (last ys) ?c"
    using yz(2) ly nb cnt ys_new tk(1) unfolding fetched_def by auto
  then show thesis using objs e by blast
qed

subsection \<open>Hanging batches back on their spans\<close>

text \<open>A batch is a list of objects of one span of the bucket; \<open>pending\<close> collects the spans that have
  left their bucket and wait for their release.\<close>

definition batch_ok :: "nat \<Rightarrow> central \<Rightarrow> batch \<Rightarrow> nat list \<Rightarrow> bool" where
  "batch_ok b c bt zs \<longleftrightarrow> (\<exists>x s. b_span bt = Some x \<and> listed c b x s \<and> set zs \<subseteq> set (obj_list s))
     \<and> linked (c_mem c) (b_head bt) zs \<and> zs \<noteq> [] \<and> b_tail bt = last zs \<and> b_count bt = length zs"

definition pending_release :: "central \<Rightarrow> central \<Rightarrow> nat list \<Rightarrow> bool" where
  "pending_release c0 c rel \<longleftrightarrow> distinct rel \<and> (\<forall>y. outside c y \<longleftrightarrow> outside c0 y \<or> y \<in> set rel)
     \<and> (\<forall>y \<in> set rel. \<not> outside c0 y) \<and> (\<forall>y. outside c0 y \<longrightarrow> fmlookup (c_spans c) y = fmlookup (c_spans c0) y)"

definition shrunk :: "nat \<Rightarrow> central \<Rightarrow> central \<Rightarrow> bool" where
  "shrunk b c c' \<longleftrightarrow> (\<forall>y t. listed c' b y t \<longrightarrow> (\<exists>s. listed c b y s \<and> obj_list s = obj_list t))"

lemma shrunk_refl [simp]: "shrunk b c c"
  by (auto simp: shrunk_def)

lemma shrunk_trans: "shrunk b c1 c2 \<Longrightarrow> shrunk b c2 c3 \<Longrightarrow> shrunk b c1 c3"
  unfolding shrunk_def by metis

lemma listed_mem [simp]: "listed (c\<lparr>c_mem := m\<rparr>) b x s \<longleftrightarrow> listed c b x s"
  by (simp add: listed_def)

lemma batch_ok_mem:
  "batch_ok b c bt zs \<Longrightarrow> (\<And>a. a \<in> set zs \<Longrightarrow> m a = c_mem c a) \<Longrightarrow> batch_ok b (c\<lparr>c_mem := m\<rparr>) bt zs"
  using linked_store_cong [of zs m "c_mem c" "b_head bt"] by (simp add: batch_ok_def)

lemma span_ok_give:
  assumes "span_ok m s xs U" "linked m h zs" "zs \<noteq> []" "set zs \<subseteq> U" "set zs \<subseteq> set (obj_list s)" "nobj s < W64"
    "distinct (obj_list s)"
  shows "span_ok (m(last zs := freeList s)) (s\<lparr>freeList := h, useCount := wsub (useCount s) (length zs)\<rparr>) (zs @ xs) (U - set zs)"
    "wsub (useCount s) (length zs) = useCount s - length zs"
proof -
  have d: "set zs \<inter> set xs = {}" "distinct zs" "distinct xs"
    using assms(1,4) linked_distinct [OF assms(2)] linked_distinct [of m "freeList s" xs] by (auto simp: span_ok_def)
  have "length (zs @ xs) = card (set (zs @ xs))" using d by (simp add: distinct_card [symmetric] card_Un_disjoint)
  also have "\<dots> \<le> card (set (obj_list s))" using assms(1,5) by (intro card_mono) (auto simp: span_ok_def)
  also have "\<dots> = nobj s" using distinct_card [OF assms(7)] by simp
  finally have le: "length zs \<le> useCount s" using assms(1) by (simp add: span_ok_def)
  then show w: "wsub (useCount s) (length zs) = useCount s - length zs"
    using assms(1,6) by (intro wsub_small) (simp_all add: span_ok_def)
  have "linked (m(last zs := freeList s)) h (zs @ xs)"
    using assms(1) d by (intro linked_splice [OF assms(2,3)]) (simp_all add: span_ok_def)
  then show "span_ok (m(last zs := freeList s)) (s\<lparr>freeList := h, useCount := wsub (useCount s) (length zs)\<rparr>) (zs @ xs) (U - set zs)"
    using assms(1,4,5) le unfolding w by (auto simp: span_ok_def obj_list_def nobj_def base_def)
qed

text \<open>A span of a bucket without handed-out objects can leave it.\<close>

lemma central_unlist:
  assumes inv: "central_inv c fl U" and x: "listed c b x s" and z: "useCount s = 0"
    and c': "c' = c_upd_span x (s\<lparr>freeList := 0\<rparr>) (c\<lparr>c_lists := (c_lists c)(b := remove1 x (c_lists c b))\<rparr>)"
  shows "central_inv c' fl U" "outside c' x"
proof -
  have xb: "x \<in> set (c_lists c b)" and s: "fmlookup (c_spans c) x = Some s" using x by (simp_all add: listed_def)
  have su: "isUse s" "objSize s = class_size b" "span_ok (c_mem c) s (fl x) (U b)"
    using central_listed [OF inv xb] s by (metis option.inject)+
  have same: "same_span s (s\<lparr>freeList := 0\<rparr>)" by (simp add: same_span_def)
  note cl = ph_inv_client [OF central_ph [OF inv] s su(1) same]
  have sel: "ph_inv (c_ph c')" "c_spans c' = fmupd x (s\<lparr>freeList := 0\<rparr>) (c_spans c)" "c_mem c' = c_mem c"
    "c_lists c' = (c_lists c)(b := remove1 x (c_lists c b))"
    using cl by (simp_all add: c' c_upd_span_def)
  have d: "distinct (c_lists c b')" for b' using inv by (simp add: central_inv_def)
  have other: "y \<in> set (c_lists c' b') \<longleftrightarrow> y \<in> set (c_lists c b') \<and> y \<noteq> x" for y b'
    using d central_class [OF inv xb] by (auto simp: sel(4))
  have none: "U b' \<inter> set (obj_list s) = {}" for b'
  proof -
    have d2: "distinct (obj_list s)" using su(2) class_size_ge_8 [of b] by (intro obj_list_distinct) simp
    have "length (fl x) = nobj s" "set (fl x) \<subseteq> set (obj_list s)" "distinct (fl x)" "set (fl x) \<inter> U b = {}"
      using su(3) z linked_distinct by (auto simp: span_ok_def)
    then have "set (fl x) = set (obj_list s)"
      using d2 by (intro card_subset_eq) (simp_all add: distinct_card)
    moreover have "a \<notin> set (fl x)" if "a \<in> U b'" for a by (rule used_not_free [OF inv that xb])
    ultimately show ?thesis by blast
  qed
  have spans: "\<exists>t. fmlookup (c_spans c') y = Some t \<and> isUse t \<and> objSize t = class_size b' \<and> span_ok (c_mem c') t (fl y) (U b')"
    if y: "y \<in> set (c_lists c' b')" for y b'
  proof -
    have y': "y \<in> set (c_lists c b')" "y \<noteq> x" using y other by auto
    from central_listed [OF inv y'(1)] show ?thesis using y'(2) by (metis fmupd_lookup sel(2,3))
  qed
  have listed: "\<exists>y t. listed c' b' y t \<and> a \<in> set (obj_list t)" if u: "a \<in> U b'" for b' a
  proof -
    obtain y t where y: "y \<in> set (c_lists c b')" "fmlookup (c_spans c) y = Some t" "a \<in> set (obj_list t)"
      by (rule used_listed [OF inv u])
    then have "y \<noteq> x" using none [of b'] u s by auto
    then show ?thesis using y other by (intro exI [of _ y] exI [of _ t]) (simp add: listed_def sel(2))
  qed
  have cnt: "\<exists>b. y \<in> set (c_lists c' b)" if "0 < use_count (c_spans c') y" for y
    using that z central_counted [OF inv, of y] other by (auto simp: use_count_def sel(2) split: if_splits)
  have "distinct (c_lists c' b') \<and> (MAX_NFREELISTS \<le> b' \<longrightarrow> c_lists c' b' = [])" for b'
    using inv by (auto simp: sel(4) central_inv_def)
  then show "central_inv c' fl U" unfolding central_inv_def using sel(1) spans listed cnt by (intro conjI) auto
  show "outside c' x" using other su(1) by (simp add: outside_def in_use_def sel(2))
qed

lemma flush_one_ok:
  assumes inv: "central_inv c fl U" and busy: "busy c" and bt: "batch_ok b c bt zs" and zs: "set zs \<subseteq> U b"
    and pend: "pending_release c0 c rel"
  obtains c' rel' fl' x where "flush_one b bt (c, rel) = Some (c', rel')" "b_span bt = Some x"
    "central_inv c' fl' (U(b := U b - set zs))" "busy c'" "pending_release c0 c' rel'" "shrunk b c c'"
    "\<And>a. a \<notin> set zs \<Longrightarrow> c_mem c' a = c_mem c a"
    "\<And>y s. y \<noteq> x \<Longrightarrow> listed c b y s \<Longrightarrow> listed c' b y s"
proof -
  obtain x s where x: "b_span bt = Some x" "listed c b x s" "set zs \<subseteq> set (obj_list s)"
    and l: "linked (c_mem c) (b_head bt) zs" "zs \<noteq> []" "b_tail bt = last zs" "b_count bt = length zs"
    using bt by (auto simp: batch_ok_def)
  have xb: "x \<in> set (c_lists c b)" and s: "fmlookup (c_spans c) x = Some s" using x(2) by (simp_all add: listed_def)
  have su: "isUse s" "objSize s = class_size b" "span_ok (c_mem c) s (fl x) (U b)"
    using central_listed [OF inv xb] s by (metis option.inject)+
  have nb: "nobj s < W64" using nobj_bound [OF central_ph [OF inv] s] su(2) class_size_ge_8 by (simp add: W64_def)
  have d: "distinct (obj_list s)" using su(2) class_size_ge_8 [of b] by (intro obj_list_distinct) simp
  let ?m = "(c_mem c)(last zs := freeList s)"
  let ?s = "s\<lparr>freeList := b_head bt, useCount := wsub (useCount s) (length zs)\<rparr>"
  let ?c = "c_upd_span x ?s (c\<lparr>c_mem := ?m\<rparr>)"
  note gv = span_ok_give [OF su(3) l(1,2) zs x(3) nb d]
  have mem: "?m a = c_mem c a" if "y \<in> set (c_lists c b')" "a \<in> set (fl y)" for y b' a
    using used_not_free [OF inv, of "last zs" b y b'] that zs last_in_set [OF l(2)] by auto
  have i: "central_inv ?c (fl(x := zs @ fl x)) (U(b := U b - set zs))"
    by (rule central_update [OF inv xb s _ _ gv(1)]) (use x(3) mem in \<open>auto simp: same_span_def\<close>)
  have so: "same_outside c ?c" by (rule same_outside_upd [OF xb])
  have pend1: "pending_release c0 ?c rel"
    using pend so unfolding pending_release_def same_outside_def by metis
  have shr1: "shrunk b c ?c"
    using s xb by (auto simp: shrunk_def listed_def obj_list_def base_def nobj_def)
  have keep: "c_mem ?c a = c_mem c a" if "a \<notin> set zs" for a using that last_in_set [OF l(2)] by auto
  show thesis
  proof (cases "useCount s - length zs = 0")
    case False
    have e: "flush_one b bt (c, rel) = Some (?c, rel)"
      using x(1) s l(3,4) gv(2) False by (simp add: flush_one_def Let_def store_simps)
    have "busy ?c" using busy False gv(2) by (auto simp: busy_def use_count_def)
    then show ?thesis
      using that [OF e x(1) i _ pend1 shr1 keep] by (simp add: listed_def)
  next
    case True
    define c' where "c' = c_upd_span x (?s\<lparr>freeList := 0\<rparr>) (?c\<lparr>c_lists := (c_lists ?c)(b := remove1 x (c_lists ?c b))\<rparr>)"
    have lx: "listed ?c b x ?s" using xb by (simp add: listed_def)
    have z: "useCount ?s = 0" using True gv(2) by simp
    note un = central_unlist [OF i lx z c'_def]
    have sel: "c_spans c' = fmupd x (?s\<lparr>freeList := 0\<rparr>) (c_spans c)" "c_mem c' = ?m"
      "c_lists c' = (c_lists c)(b := remove1 x (c_lists c b))"
      by (simp_all add: c'_def)
    have e: "flush_one b bt (c, rel) = Some (c', rel @ [x])"
    proof -
      have "c_upd_span x (?s\<lparr>freeList := 0\<rparr>) (c\<lparr>c_mem := ?m, c_lists := (c_lists c)(b := remove1 x (c_lists c b))\<rparr>) = c'"
        unfolding c'_def by (simp add: c_upd_span_def upd_ph_span_def upd_span_def)
      then show ?thesis using x(1) s l(3,4) gv(2) True by (simp add: flush_one_def Let_def store_simps)
    qed
    have dl: "distinct (c_lists c b')" for b' using inv by (simp add: central_inv_def)
    have other: "y \<in> set (c_lists c' b') \<longleftrightarrow> y \<in> set (c_lists c b') \<and> y \<noteq> x" for y b'
      using dl central_class [OF inv xb] by (auto simp: sel(3))
    have bz: "busy c'" using busy other by (auto simp: busy_def use_count_def sel(1))
    have "in_use (c_spans c') y \<longleftrightarrow> in_use (c_spans c) y" for y
      using s su(1) by (auto simp: in_use_def sel(1))
    then have out: "outside c' y \<longleftrightarrow> outside c y \<or> y = x" for y
      using un(2) other by (auto simp: outside_def)
    have nx: "\<not> outside c x" using xb by (auto simp: outside_def)
    then have "x \<notin> set rel" "\<not> outside c0 x" using pend by (auto simp: pending_release_def)
    moreover have "fmlookup (c_spans c') y = fmlookup (c_spans c) y" if "y \<noteq> x" for y using that by (simp add: sel(1))
    ultimately have pd: "pending_release c0 c' (rel @ [x])"
      using pend out unfolding pending_release_def by (auto; metis)
    have shr: "shrunk b c c'" using other by (auto simp: shrunk_def listed_def sel(1))
    show ?thesis
    proof (rule that [OF e x(1) un(1) bz pd shr])
      show "c_mem c' a = c_mem c a" if "a \<notin> set zs" for a using keep [OF that] by (simp add: sel(2))
      show "listed c' b y t" if "y \<noteq> x" "listed c b y t" for y t using that other by (simp add: listed_def sel(1))
    qed
  qed
qed

lemma batch_ok_keep:
  assumes "batch_ok b c bt zs" "\<And>a. a \<in> set zs \<Longrightarrow> c_mem c' a = c_mem c a"
    "\<And>x s. b_span bt = Some x \<Longrightarrow> listed c b x s \<Longrightarrow> listed c' b x s"
  shows "batch_ok b c' bt zs"
  using assms linked_store_cong [of zs "c_mem c'" "c_mem c" "b_head bt"] unfolding batch_ok_def by blast

lemma flush_all_ok:
  assumes "central_inv c fl U" "busy c" "list_all2 (batch_ok b c) bs zss" "distinct (map b_span bs)"
    "distinct (concat zss)" "set (concat zss) \<subseteq> U b" "pending_release c0 c rel"
  shows "\<exists>c' rel' fl'. flush_all b bs (c, rel) = Some (c', rel')
    \<and> central_inv c' fl' (U(b := U b - set (concat zss))) \<and> busy c' \<and> pending_release c0 c' rel' \<and> shrunk b c c'
    \<and> (\<forall>a. a \<notin> set (concat zss) \<longrightarrow> c_mem c' a = c_mem c a)"
  using assms
proof (induction bs arbitrary: c fl U zss rel)
  case Nil
  then show ?case by (intro exI [of _ c] exI [of _ rel] exI [of _ fl]) simp
next
  case (Cons bt bs)
  obtain zs zss' where z: "zss = zs # zss'" "batch_ok b c bt zs" "list_all2 (batch_ok b c) bs zss'"
    using Cons.prems(3) by (auto simp: list_all2_Cons1)
  have sub: "set zs \<subseteq> U b" "set zs \<inter> set (concat zss') = {}" using Cons.prems(5,6) z(1) by auto
  obtain c1 rel1 fl1 x where f: "flush_one b bt (c, rel) = Some (c1, rel1)" "b_span bt = Some x"
    "central_inv c1 fl1 (U(b := U b - set zs))" "busy c1" "pending_release c0 c1 rel1" "shrunk b c c1"
    and mem: "\<And>a. a \<notin> set zs \<Longrightarrow> c_mem c1 a = c_mem c a"
    and keep: "\<And>y s. y \<noteq> x \<Longrightarrow> listed c b y s \<Longrightarrow> listed c1 b y s"
    by (rule flush_one_ok [OF Cons.prems(1,2) z(2) sub(1) Cons.prems(7)]) (blast intro: that)
  have "list_all2 (batch_ok b c1) bs zss'"
  proof (rule list_all2_all_nthI)
    show len: "length bs = length zss'" using z(3) by (rule list_all2_lengthD)
    fix n assume n: "n < length bs"
    show "batch_ok b c1 (bs ! n) (zss' ! n)"
    proof (rule batch_ok_keep)
      show "batch_ok b c (bs ! n) (zss' ! n)" using z(3) n by (rule list_all2_nthD)
      have "set (zss' ! n) \<subseteq> set (concat zss')" using n len by (auto intro: nth_mem)
      then show "c_mem c1 a = c_mem c a" if "a \<in> set (zss' ! n)" for a using mem that sub(2) by blast
      show "listed c1 b y s" if "b_span (bs ! n) = Some y" "listed c b y s" for y s
      proof (rule keep)
        have "b_span (bs ! n) \<in> b_span ` set bs" using n by simp
        then show "y \<noteq> x" using Cons.prems(4) f(2) that(1) by auto
      qed (rule that(2))
    qed
  qed
  moreover have "distinct (map b_span bs)" "distinct (concat zss')" using Cons.prems(4,5) z(1) by simp_all
  moreover have "set (concat zss') \<subseteq> (U(b := U b - set zs)) b" using Cons.prems(6) z(1) sub(2) by auto
  ultimately obtain c' rel' fl' where g: "flush_all b bs (c1, rel1) = Some (c', rel')"
    "central_inv c' fl' ((U(b := U b - set zs))(b := (U(b := U b - set zs)) b - set (concat zss')))" "busy c'"
    "pending_release c0 c' rel'" "shrunk b c1 c'" "\<forall>a. a \<notin> set (concat zss') \<longrightarrow> c_mem c' a = c_mem c1 a"
    using Cons.IH [OF f(3,4) _ _ _ _ f(5)] by blast
  have eq: "(U(b := U b - set zs))(b := (U(b := U b - set zs)) b - set (concat zss')) = U(b := U b - set (concat zss))"
    by (rule ext) (auto simp: z(1))
  show ?case
  proof (intro exI conjI)
    show "flush_all b (bt # bs) (c, rel) = Some (c', rel')" using f(1) g(1) by simp
    show "central_inv c' fl' (U(b := U b - set (concat zss)))" using g(2) by (simp only: eq)
    show "\<forall>a. a \<notin> set (concat zss) \<longrightarrow> c_mem c' a = c_mem c a" using g(6) mem z(1) by simp
  qed (fact g(3), fact g(4), rule shrunk_trans [OF f(6) g(5)])
qed

text \<open>The page heap works beside the central cache: what it does to spans outside the buckets is
  invisible there.\<close>

lemma central_frame:
  assumes inv: "central_inv c fl U" and p: "ph_inv p" and cnt: "\<And>z. use_count (ph_spans p) z \<le> use_count (c_spans c) z"
    and kept: "\<And>z t b. z \<in> set (c_lists c b) \<Longrightarrow> fmlookup (c_spans c) z = Some t \<Longrightarrow> isUse t \<Longrightarrow> fmlookup (ph_spans p) z = Some t"
  shows "central_inv (c\<lparr>c_ph := p\<rparr>) fl U" "busy c \<Longrightarrow> busy (c\<lparr>c_ph := p\<rparr>)"
    "listed (c\<lparr>c_ph := p\<rparr>) b x s \<longleftrightarrow> listed c b x s" "heads (c\<lparr>c_ph := p\<rparr>) = heads c"
proof -
  have kl: "\<exists>s. fmlookup (c_spans c) y = Some s \<and> fmlookup (ph_spans p) y = Some s \<and> isUse s \<and> objSize s = class_size b
      \<and> span_ok (c_mem c) s (fl y) (U b)" if y: "y \<in> set (c_lists c b)" for y b
    using central_listed [OF inv y] kept [OF y] by metis
  then show li: "listed (c\<lparr>c_ph := p\<rparr>) b x s \<longleftrightarrow> listed c b x s" for b x s
    unfolding listed_def by fastforce
  then show "heads (c\<lparr>c_ph := p\<rparr>) = heads c" by (simp add: heads_def)
  have "\<exists>s. fmlookup (ph_spans p) y = Some s \<and> isUse s \<and> objSize s = class_size b \<and> span_ok (c_mem c) s (fl y) (U b)"
    if "y \<in> set (c_lists c b)" for y b using kl [OF that] by auto
  moreover have "\<exists>b. y \<in> set (c_lists c b)" if "0 < use_count (ph_spans p) y" for y
    using that cnt [of y] central_counted [OF inv, of y] by simp
  ultimately show "central_inv (c\<lparr>c_ph := p\<rparr>) fl U" using inv p li by (simp add: central_inv_def)
  show "busy (c\<lparr>c_ph := p\<rparr>)" if "busy c" using that kl by (fastforce simp: busy_def use_count_def)
qed

text \<open>Releasing a span outside the buckets.\<close>

lemma central_release:
  assumes inv: "central_inv c fl U" and x: "outside c x"
  obtains p where "PageHeap_ReleaseSpan ram (Some x) (c_ph c) = Some p" "central_inv (c\<lparr>c_ph := p\<rparr>) fl U"
    "busy c \<Longrightarrow> busy (c\<lparr>c_ph := p\<rparr>)" "\<And>b y s. listed (c\<lparr>c_ph := p\<rparr>) b y s \<longleftrightarrow> listed c b y s"
    "\<And>y. outside (c\<lparr>c_ph := p\<rparr>) y \<longleftrightarrow> outside c y \<and> y \<noteq> x"
    "\<And>y. outside c y \<Longrightarrow> y \<noteq> x \<Longrightarrow> fmlookup (ph_spans p) y = fmlookup (c_spans c) y"
proof -
  obtain s where s: "fmlookup (c_spans c) x = Some s" "isUse s" using x by (auto simp: outside_def in_use_def)
  obtain p where p: "PageHeap_ReleaseSpan ram (Some x) (c_ph c) = Some p" "ph_inv p"
    "tame {} (c_spans c) (ph_spans p)" "\<not> in_use (ph_spans p) x"
    and kept: "\<And>z t. z \<noteq> x \<Longrightarrow> fmlookup (c_spans c) z = Some t \<Longrightarrow> isUse t \<Longrightarrow> fmlookup (ph_spans p) z = Some t"
    by (rule PageHeap_ReleaseSpan_client [OF central_ph [OF inv] s, of ram]) (blast intro: that)
  have cnt: "use_count (ph_spans p) z \<le> use_count (c_spans c) z" for z using p(3) by (simp add: tame_def)
  have kl: "fmlookup (ph_spans p) z = Some t" if "z \<in> set (c_lists c b)" "fmlookup (c_spans c) z = Some t" "isUse t" for z t b
    using that x by (intro kept) (auto simp: outside_def)
  note fr = central_frame [OF inv p(2) cnt kl]
  have iu: "in_use (ph_spans p) y \<longleftrightarrow> in_use (c_spans c) y \<and> y \<noteq> x" for y
    using p(3,4) kept by (auto simp: in_use_def tame_def)
  show thesis
    by (rule that [OF p(1) fr(1-3)]) (use iu kept in \<open>auto simp: outside_def in_use_def\<close>)
qed

lemma release_spans_ok:
  assumes "central_inv c fl U" "busy c" "pending_release c0 c rel"
  shows "\<exists>c'. release_spans ram rel c = Some c' \<and> central_inv c' fl U \<and> busy c' \<and> same_outside c0 c'
    \<and> c_mem c' = c_mem c \<and> (\<forall>b x s. listed c' b x s \<longleftrightarrow> listed c b x s)"
  using assms
proof (induction rel arbitrary: c)
  case Nil
  then show ?case by (intro exI [of _ c]) (auto simp: pending_release_def same_outside_def)
next
  case (Cons x rel)
  have x: "outside c x" using Cons.prems(3) by (simp add: pending_release_def)
  obtain p where p: "PageHeap_ReleaseSpan ram (Some x) (c_ph c) = Some p" "central_inv (c\<lparr>c_ph := p\<rparr>) fl U"
    "busy c \<Longrightarrow> busy (c\<lparr>c_ph := p\<rparr>)" "\<And>b y s. listed (c\<lparr>c_ph := p\<rparr>) b y s \<longleftrightarrow> listed c b y s"
    "\<And>y. outside (c\<lparr>c_ph := p\<rparr>) y \<longleftrightarrow> outside c y \<and> y \<noteq> x"
    and kept: "\<And>y. outside c y \<Longrightarrow> y \<noteq> x \<Longrightarrow> fmlookup (ph_spans p) y = fmlookup (c_spans c) y"
    by (rule central_release [OF Cons.prems(1) x, of ram]) (blast intro: that)
  have "fmlookup (ph_spans p) y = fmlookup (c_spans c) y" if "outside c0 y" for y
    using that Cons.prems(3) by (intro kept) (auto simp: pending_release_def)
  then have "pending_release c0 (c\<lparr>c_ph := p\<rparr>) rel"
    using Cons.prems(3) p(5) unfolding pending_release_def by auto
  from Cons.IH [OF p(2) p(3) [OF Cons.prems(2)] this] show ?case using p(1,4) by simp
qed

text \<open>Flushing the batches.\<close>

lemma flush_batches_ok:
  assumes "central_inv c fl U" "busy c" "list_all2 (batch_ok b c) bs zss" "distinct (map b_span bs)"
    "distinct (concat zss)" "set (concat zss) \<subseteq> U b"
  obtains c' fl' where "flush_batches ram b bs c = Some c'" "central_inv c' fl' (U(b := U b - set (concat zss)))"
    "busy c'" "same_outside c c'" "shrunk b c c'" "\<And>a. a \<notin> set (concat zss) \<Longrightarrow> c_mem c' a = c_mem c a"
proof -
  have "pending_release c c []" by (simp add: pending_release_def)
  from flush_all_ok [OF assms this]
  obtain c1 rel fl1 where f: "flush_all b bs (c, []) = Some (c1, rel)"
    "central_inv c1 fl1 (U(b := U b - set (concat zss)))" "busy c1" "pending_release c c1 rel" "shrunk b c c1"
    "\<forall>a. a \<notin> set (concat zss) \<longrightarrow> c_mem c1 a = c_mem c a" by blast
  obtain c' where r: "release_spans ram rel c1 = Some c'" "central_inv c' fl1 (U(b := U b - set (concat zss)))"
    "busy c'" "same_outside c c'" "c_mem c' = c_mem c1" "\<forall>b x s. listed c' b x s \<longleftrightarrow> listed c1 b x s"
    using release_spans_ok [OF f(2-4), of ram] by blast
  show thesis
    by (rule that [of c' fl1]) (use f r in \<open>auto simp: flush_batches_def shrunk_def\<close>)
qed

subsection \<open>Sorting objects into batches\<close>

lemma add_batch_None: "add_batch sp obj bs m = None \<Longrightarrow> sp \<notin> set (map b_span bs)"
  by (induction bs) (auto split: if_splits)

lemma add_batch_ok:
  assumes "list_all2 (batch_ok b c) bs zss" "obj \<notin> set (concat zss)" "obj \<noteq> 0" "listed c b x s" "obj \<in> set (obj_list s)"
    "add_batch (Some x) obj bs (c_mem c) = Some (bs', m)"
  shows "\<exists>zss' v. list_all2 (batch_ok b (c\<lparr>c_mem := m\<rparr>)) bs' zss' \<and> mset (concat zss') = mset (obj # concat zss)
    \<and> map b_span bs' = map b_span bs \<and> m = (c_mem c)(obj := v)"
  using assms
proof (induction bs arbitrary: zss bs')
  case (Cons bt bs)
  obtain zs zss1 where z: "zss = zs # zss1" "batch_ok b c bt zs" "list_all2 (batch_ok b c) bs zss1"
    using Cons.prems(1) by (auto simp: list_all2_Cons1)
  have n: "obj \<notin> set zs" "obj \<notin> set (concat zss1)" using Cons.prems(2) z(1) by auto
  have keep: "batch_ok b (c\<lparr>c_mem := (c_mem c)(obj := v)\<rparr>) bt' zs'" if "batch_ok b c bt' zs'" "obj \<notin> set zs'" for bt' zs' v
    using that by (intro batch_ok_mem) auto
  show ?case
  proof (cases "b_span bt = Some x")
    case True
    then have e: "bs' = bt\<lparr>b_head := obj, b_count := b_count bt + 1\<rparr> # bs" "m = (c_mem c)(obj := b_head bt)"
      using Cons.prems(6) by (auto simp: SetNextObj_def)
    have "linked m (b_head bt) zs" using z(2) n(1) by (simp add: e batch_ok_def linked_upd)
    then have "batch_ok b (c\<lparr>c_mem := m\<rparr>) (bt\<lparr>b_head := obj, b_count := b_count bt + 1\<rparr>) (obj # zs)"
      using z(2) True Cons.prems(3-5) by (auto simp: batch_ok_def listed_def e)
    moreover have "list_all2 (batch_ok b (c\<lparr>c_mem := m\<rparr>)) bs zss1"
      unfolding e by (rule list.rel_mono_strong [OF z(3)]) (use n(2) in \<open>auto intro: keep\<close>)
    ultimately show ?thesis using z(1) e by (intro exI [of _ "(obj # zs) # zss1"] exI [of _ "b_head bt"]) (simp del: fun_upd_apply)
  next
    case False
    then obtain bs1 where b1: "add_batch (Some x) obj bs (c_mem c) = Some (bs1, m)" "bs' = bt # bs1"
      using Cons.prems(6) by auto
    from Cons.IH [OF z(3) n(2) Cons.prems(3-5) b1(1)]
    obtain zss' v where i: "list_all2 (batch_ok b (c\<lparr>c_mem := m\<rparr>)) bs1 zss'" "mset (concat zss') = mset (obj # concat zss1)"
      "map b_span bs1 = map b_span bs" "m = (c_mem c)(obj := v)" by blast
    have "batch_ok b (c\<lparr>c_mem := m\<rparr>) bt zs" using keep [OF z(2) n(1)] i(4) by simp
    then show ?thesis using i z(1) b1(2) by (intro exI [of _ "zs # zss'"] exI [of _ v]) (simp del: fun_upd_apply)
  qed
qed simp

text \<open>One object goes into a batch; the batches that were flushed to make room are back in their spans.\<close>

lemma put_batch_ok:
  assumes inv: "central_inv c fl U" and busy: "busy c" and bs: "list_all2 (batch_ok b c) bs zss" "distinct (map b_span bs)"
    and d: "distinct (obj # concat zss)" "set (obj # concat zss) \<subseteq> U b" and null: "c_mem c obj = 0"
    and x: "listed c b x s" "obj \<in> set (obj_list s)"
  obtains bs' c' zss' fl' V where "put_batch ram b (Some x) obj bs c = Some (bs', c')" "central_inv c' fl' (U(b := U b - V))" "busy c'"
    "list_all2 (batch_ok b c') bs' zss'" "distinct (map b_span bs')" "V \<subseteq> set (concat zss)"
    "distinct (concat zss')" "set (concat zss') \<union> V = set (obj # concat zss)" "set (concat zss') \<inter> V = {}"
    "same_outside c c'" "shrunk b c c'" "\<And>a. a \<notin> set (obj # concat zss) \<Longrightarrow> c_mem c' a = c_mem c a"
proof (cases "add_batch (Some x) obj bs (c_mem c)")
  case (Some r)
  then obtain bs' m where r: "add_batch (Some x) obj bs (c_mem c) = Some (bs', m)" by (cases r) auto
  have "obj \<noteq> 0" using used_nonzero [OF inv, of obj b] d(2) by simp
  from add_batch_ok [OF bs(1) _ this x r] d(1)
  obtain zss' v where z: "list_all2 (batch_ok b (c\<lparr>c_mem := m\<rparr>)) bs' zss'" "mset (concat zss') = mset (obj # concat zss)"
      "map b_span bs' = map b_span bs" "m = (c_mem c)(obj := v)" by auto
  show ?thesis
  proof (rule that [of bs' "c\<lparr>c_mem := m\<rparr>" fl "{}" zss'])
    show "put_batch ram b (Some x) obj bs c = Some (bs', c\<lparr>c_mem := m\<rparr>)" using r by (simp add: put_batch_def)
    show "central_inv (c\<lparr>c_mem := m\<rparr>) fl (U(b := U b - {}))"
      using central_write [OF inv, of obj b v] d(2) unfolding z(4) by simp
    show "busy (c\<lparr>c_mem := m\<rparr>)" using busy by (simp add: busy_def)
    show "distinct (map b_span bs')" unfolding z(3) by (rule bs(2))
    show "set (concat zss') \<union> {} = set (obj # concat zss)" unfolding Un_empty_right by (rule mset_eq_setD [OF z(2)])
    show "distinct (concat zss')" unfolding mset_eq_imp_distinct_iff [OF z(2)] by (rule d(1))
    show "same_outside c (c\<lparr>c_mem := m\<rparr>)" by (simp add: same_outside_def outside_def)
    show "shrunk b c (c\<lparr>c_mem := m\<rparr>)" by (auto simp: shrunk_def)
    show "c_mem (c\<lparr>c_mem := m\<rparr>) a = c_mem c a" if "a \<notin> set (obj # concat zss)" for a
      using that unfolding z(4) by simp
  qed (use z(1) in simp_all)
next
  case None
  let ?n = "new_batch (Some x) obj"
  note new = add_batch_None [OF None]
  show ?thesis
  proof (cases "length bs = MAX_BATCH")
    case False
    have "batch_ok b c ?n [obj]"
      using x null used_nonzero [OF inv, of obj b] d(2) by (auto simp: batch_ok_def new_batch_def)
    then have "list_all2 (batch_ok b c) (bs @ [?n]) (zss @ [[obj]])" using bs(1) by (simp add: list_all2_appendI)
    then show ?thesis
      by (intro that [of "bs @ [?n]" c fl "{}" "zss @ [[obj]]"])
        (use None False new inv busy bs(2) d in \<open>auto simp: put_batch_def new_batch_def\<close>)
  next
    case True
    have dz: "distinct (concat zss)" "set (concat zss) \<subseteq> U b" "obj \<notin> set (concat zss)" using d by simp_all
    obtain c' fl' where f: "flush_batches ram b bs c = Some c'" "central_inv c' fl' (U(b := U b - set (concat zss)))"
      "busy c'" "same_outside c c'" "shrunk b c c'" "\<And>a. a \<notin> set (concat zss) \<Longrightarrow> c_mem c' a = c_mem c a"
      by (rule flush_batches_ok [OF inv busy bs dz(1,2), of ram]) (blast intro: that)
    have "obj \<in> (U(b := U b - set (concat zss))) b" using d(2) dz(3) by simp
    then obtain y t where y: "y \<in> set (c_lists c' b)" "fmlookup (c_spans c') y = Some t" "obj \<in> set (obj_list t)"
      by (rule used_listed [OF f(2)])
    then obtain s' where s': "listed c b y s'" "obj \<in> set (obj_list s')"
      using f(5) unfolding shrunk_def listed_def by metis
    have "y = x"
    proof (rule objs_disjoint [OF central_ph [OF inv] _ _ _ _ s'(2) x(2)])
      show "fmlookup (c_spans c) y = Some s'" "fmlookup (c_spans c) x = Some s" using s'(1) x(1) by (simp_all add: listed_def)
      then show "isUse s'" "isUse s" using central_listed [OF inv] s'(1) x(1) unfolding listed_def by (metis option.inject)+
    qed
    then have "batch_ok b c' ?n [obj]"
      using y null used_nonzero [OF inv, of obj b] d(2) f(6) [OF dz(3)] by (auto simp: batch_ok_def new_batch_def listed_def)
    then show ?thesis
      by (intro that [of "[?n]" c' fl' "set (concat zss)" "[[obj]]"])
        (use None True f dz(3) in \<open>auto simp: put_batch_def\<close>)
  qed
qed

text \<open>The page cache of one entry answers right for the objects still to come.\<close>

definition cached_page :: "central \<Rightarrow> nat \<Rightarrow> nat \<Rightarrow> nat option \<Rightarrow> nat list \<Rightarrow> bool" where
  "cached_page c b pid sp ys \<longleftrightarrow> pid = 0 \<or> (\<forall>a \<in> set ys. drop_bit PAGE_SHIFT a = pid \<longrightarrow>
     (\<exists>x s. sp = Some x \<and> listed c b x s \<and> a \<in> set (obj_list s)))"

lemma listed_same:
  assumes "central_inv c fl U" "listed c b x s" "listed c b y t" "a \<in> set (obj_list s)" "a \<in> set (obj_list t)"
  shows "x = y" "s = t"
proof -
  have l: "fmlookup (c_spans c) x = Some s" "fmlookup (c_spans c) y = Some t" "x \<in> set (c_lists c b)" "y \<in> set (c_lists c b)"
    using assms(2,3) by (simp_all add: listed_def)
  have "isUse s" "isUse t"
    using central_listed [OF assms(1) l(3)] central_listed [OF assms(1) l(4)] l(1,2) by (metis option.inject)+
  then show "x = y" by (rule objs_disjoint [OF central_ph [OF assms(1)] l(1,2) _ _ assms(4,5)])
  then show "s = t" using l by simp
qed

lemma cached_page_shrunk:
  assumes "cached_page c b pid sp ys" "central_inv c fl U" "central_inv c' fl' U'" "shrunk b c c'" "set ys \<subseteq> U' b"
  shows "cached_page c' b pid sp ys"
proof -
  have "\<exists>x s. sp = Some x \<and> listed c' b x s \<and> a \<in> set (obj_list s)"
    if a: "a \<in> set ys" "drop_bit PAGE_SHIFT a = pid" and p0: "pid \<noteq> 0" for a
  proof -
    obtain x s where x: "sp = Some x" "listed c b x s" "a \<in> set (obj_list s)"
      using assms(1) a p0 by (auto simp: cached_page_def)
    have "a \<in> U' b" using a(1) assms(5) by blast
    then obtain y t where y: "y \<in> set (c_lists c' b)" "fmlookup (c_spans c') y = Some t" "a \<in> set (obj_list t)"
      by (rule used_listed [OF assms(3)])
    then obtain s' where s': "listed c b y s'" "a \<in> set (obj_list s')"
      using assms(4) unfolding shrunk_def listed_def by metis
    have "x = y" by (rule listed_same(1) [OF assms(2) x(2) s'(1) x(3) s'(2)])
    then show ?thesis using x(1) y by (auto simp: listed_def)
  qed
  then show ?thesis unfolding cached_page_def by blast
qed

lemma released_diff: "(U(b := U b - V))(b := (U(b := U b - V)) b - W) = U(b := U b - (V \<union> W))"
  by (rule ext) auto

lemma release_loop_ok:
  assumes "central_inv c fl U" "busy c" "linked (c_mem c) start ys" "list_all2 (batch_ok b c) bs zss"
    "distinct (map b_span bs)" "distinct (ys @ concat zss)" "set (ys @ concat zss) \<subseteq> U b" "cached_page c b pid sp ys"
  shows "\<exists>c' fl'. release_loop ram b start pid sp bs c = Some c'
    \<and> central_inv c' fl' (U(b := U b - set (ys @ concat zss))) \<and> busy c' \<and> same_outside c c'
    \<and> (\<forall>a. a \<notin> set (ys @ concat zss) \<longrightarrow> c_mem c' a = c_mem c a)"
  using assms
proof (induction ys arbitrary: c fl U start bs zss pid sp)
  case Nil
  have d: "distinct (concat zss)" "set (concat zss) \<subseteq> U b" using Nil.prems by simp_all
  obtain c' fl' where "flush_batches ram b bs c = Some c'" "central_inv c' fl' (U(b := U b - set (concat zss)))"
    "busy c'" "same_outside c c'" "shrunk b c c'" "\<And>a. a \<notin> set (concat zss) \<Longrightarrow> c_mem c' a = c_mem c a"
    by (rule flush_batches_ok [OF Nil.prems(1,2,4,5) d, of ram]) (blast intro: that)
  moreover have "start = 0" using Nil.prems(3) by simp
  ultimately show ?case
    by (subst release_loop.simps) (intro exI [of _ c'] exI [of _ fl'], simp)
next
  case (Cons y ys)
  note inv = Cons.prems(1)
  have st: "start = y" "y \<noteq> 0" and ly: "linked (c_mem c) (c_mem c y) ys" using Cons.prems(3) by auto
  have yU: "y \<in> U b" and nd: "y \<notin> set ys" "y \<notin> set (concat zss)" using Cons.prems(6,7) by auto
  let ?m = "(c_mem c)(y := 0)"
  let ?c = "c\<lparr>c_mem := ?m\<rparr>"
  let ?pid = "drop_bit PAGE_SHIFT y"
  let ?sp = "if ?pid = pid then sp else PageMap_get (pmap (ph_heap (c_ph c))) ?pid"
  have i1: "central_inv ?c fl U" by (rule central_write [OF inv yU])
  have b1: "busy ?c" using Cons.prems(2) by (simp add: busy_def)
  have bs1: "list_all2 (batch_ok b ?c) bs zss"
    by (rule list.rel_mono_strong [OF Cons.prems(4)]) (use nd(2) in \<open>auto intro!: batch_ok_mem\<close>)
  obtain x s where x: "x \<in> set (c_lists c b)" "fmlookup (c_spans c) x = Some s" "isUse s" "y \<in> set (obj_list s)"
    by (rule used_listed [OF inv yU])
  have lx: "listed ?c b x s" using x by (simp add: listed_def)
  note pg = obj_lookup [OF central_ph [OF inv] x(2,3,4)]
  have sp: "?sp = Some x"
  proof (cases "?pid = pid")
    case True
    then obtain x' s' where "sp = Some x'" "listed c b x' s'" "y \<in> set (obj_list s')"
      using Cons.prems(8) pg(2) by (auto simp: cached_page_def)
    moreover from this have "x' = x" using listed_same(1) [OF inv _ _ _ x(4)] lx by (metis listed_mem)
    ultimately show ?thesis using True by simp
  qed (simp add: pg(1))
  have cp: "cached_page ?c b ?pid (Some x) ys"
  proof -
    have "\<exists>s. listed c b x s \<and> a \<in> set (obj_list s)" if a: "a \<in> set ys" "drop_bit PAGE_SHIFT a = ?pid" for a
    proof -
      have "a \<in> U b" using a(1) Cons.prems(7) by auto
      then obtain z t where z: "z \<in> set (c_lists c b)" "fmlookup (c_spans c) z = Some t" "isUse t" "a \<in> set (obj_list t)"
        by (rule used_listed [OF inv])
      have "z = x" using obj_lookup(1) [OF central_ph [OF inv] z(2-4)] pg(1) a(2) by simp
      then show ?thesis using z by (auto simp: listed_def)
    qed
    then show ?thesis by (auto simp: cached_page_def)
  qed
  have d: "distinct (y # concat zss)" "set (y # concat zss) \<subseteq> U b" "c_mem ?c y = 0" using Cons.prems(6,7) by auto
  obtain bs' c' zss' fl' V where p: "put_batch ram b (Some x) y bs ?c = Some (bs', c')"
    "central_inv c' fl' (U(b := U b - V))" "busy c'" "list_all2 (batch_ok b c') bs' zss'" "distinct (map b_span bs')"
    "V \<subseteq> set (concat zss)" "distinct (concat zss')" "set (concat zss') \<union> V = set (y # concat zss)" "set (concat zss') \<inter> V = {}"
    "same_outside ?c c'" "shrunk b ?c c'" "\<And>a. a \<notin> set (y # concat zss) \<Longrightarrow> c_mem c' a = c_mem ?c a"
    by (rule put_batch_ok [OF i1 b1 bs1 Cons.prems(5) d lx x(4), of ram]) (blast intro: that)
  have apart: "set ys \<inter> (set (concat zss') \<union> V) = {}" unfolding p(8) using Cons.prems(6) by auto
  have "c_mem c' a = c_mem c a" if "a \<in> set ys" for a
    using p(12) [of a] apart that nd(1) unfolding p(8) by auto
  then have l': "linked (c_mem c') (c_mem c y) ys" using ly linked_store_cong [of ys "c_mem c'" "c_mem c"] by simp
  have U': "set (ys @ concat zss') \<subseteq> (U(b := U b - V)) b"
  proof -
    have "set (concat zss') \<subseteq> U b" using p(8) d(2) by blast
    moreover have "set ys \<subseteq> U b" using Cons.prems(7) by simp
    ultimately show ?thesis using apart p(9) unfolding set_append fun_upd_same by blast
  qed
  have d': "distinct (ys @ concat zss')" using Cons.prems(6) apart p(7) by auto
  have cp': "cached_page c' b ?pid (Some x) ys"
    by (rule cached_page_shrunk [OF cp i1 p(2,11)]) (use U' in simp)
  from Cons.IH [OF p(2,3) l' p(4,5) d' U' cp']
  obtain c2 fl2 where c2: "release_loop ram b (c_mem c y) ?pid (Some x) bs' c' = Some c2"
    "central_inv c2 fl2 ((U(b := U b - V))(b := (U(b := U b - V)) b - set (ys @ concat zss')))" "busy c2"
    "same_outside c' c2" "\<forall>a. a \<notin> set (ys @ concat zss') \<longrightarrow> c_mem c2 a = c_mem c' a" by blast
  have V: "V \<union> set (ys @ concat zss') = set ((y # ys) @ concat zss)" using p(8) by auto
  show ?case
  proof (intro exI conjI)
    show "release_loop ram b start pid sp bs c = Some c2"
      using st sp p(1) c2(1)
      by (cases "?pid = pid"; subst release_loop.simps) (simp_all add: Let_def store_simps)
    show "central_inv c2 fl2 (U(b := U b - set ((y # ys) @ concat zss)))" using c2(2) unfolding released_diff V .
    show "same_outside c c2"
      using same_outside_trans [OF p(10) c2(4)] by (simp add: same_outside_def outside_def)
    show "\<forall>a. a \<notin> set ((y # ys) @ concat zss) \<longrightarrow> c_mem c2 a = c_mem c a"
      using c2(5) p(12) unfolding V [symmetric] using p(8) by auto
  qed (rule c2(3))
qed

lemma ReleaseListToSpans_ok:
  assumes "central_inv c fl U" "busy c" "linked (c_mem c) start ys" "set ys \<subseteq> U (Index sz)"
  obtains c' fl' where "ReleaseListToSpans ram start sz c = Some c'"
    "central_inv c' fl' (U(Index sz := U (Index sz) - set ys))" "busy c'" "same_outside c c'"
    "\<And>a. a \<notin> set ys \<Longrightarrow> c_mem c' a = c_mem c a"
proof -
  have "cached_page c (Index sz) 0 None ys" by (simp add: cached_page_def)
  then have "\<exists>c' fl'. release_loop ram (Index sz) start 0 None [] c = Some c'
    \<and> central_inv c' fl' (U(Index sz := U (Index sz) - set (ys @ concat []))) \<and> busy c' \<and> same_outside c c'
    \<and> (\<forall>a. a \<notin> set (ys @ concat []) \<longrightarrow> c_mem c' a = c_mem c a)"
    using assms linked_distinct [OF assms(3)] by (intro release_loop_ok) simp_all
  then show ?thesis using that unfolding ReleaseListToSpans_def by auto
qed

end
