(* ===== verification/Malloc.thy ===== *)
theory Malloc
  imports CentralOps
begin

text \<open>
  The thread caches (\<open>KzAlloc/ThreadCache.h\<close>, \<open>KzAlloc/ThreadCache.cpp\<close>) and the allocation
  interface (\<open>KzAlloc/ConcurrentAlloc.h\<close>): \<open>malloc\<close>, \<open>free\<close>, sized \<open>free\<close> and the end of a thread.
  A thread is a number; \<open>caches\<close> is its \<open>tls_cache\<close>.
\<close>

type_synonym thread_cache = "nat \<Rightarrow> free_list"

record allocator =
  cc :: central
  caches :: "nat \<rightharpoonup> thread_cache"

definition ThreadCache_init :: thread_cache where
  "ThreadCache_init = (\<lambda>i. FreeList_init (NumMoveSize i))"

subsection \<open>The thread cache\<close>

definition FetchFromCentralCache ::
  "(nat \<Rightarrow> nat option) \<Rightarrow> nat \<Rightarrow> nat \<Rightarrow> nat \<Rightarrow> nat \<Rightarrow> thread_cache \<Rightarrow> central \<Rightarrow> (nat \<times> thread_cache \<times> central) option" where
  "FetchFromCentralCache mmap ram tid index sz tc c =
     (let l = tc index;
          batchNum = min (push_bit 1 (fl_maxSize l) mod W64) (fl_maxNum l);
          l = l\<lparr>fl_maxSize := batchNum\<rparr>
      in case FetchRangeObj mmap ram tid batchNum sz c of None \<Rightarrow> None
         | Some (start, finish, fetchNum, c) \<Rightarrow>
           if fetchNum = 0 then Some (0, tc(index := l), c)
           else if fetchNum > 1
           then let (l, m) = PushRange (GetNextObj (c_mem c) start) finish (fetchNum - 1) l (c_mem c)
                in Some (start, tc(index := l), c\<lparr>c_mem := m\<rparr>)
           else Some (start, tc(index := l), c))"

definition ThreadCache_Allocate ::
  "(nat \<Rightarrow> nat option) \<Rightarrow> nat \<Rightarrow> nat \<Rightarrow> nat \<Rightarrow> thread_cache \<Rightarrow> central \<Rightarrow> (nat \<times> thread_cache \<times> central) option" where
  "ThreadCache_Allocate mmap ram tid sz tc c =
     (let index = Index sz; l = tc index
      in if \<not> Empty l then let (obj, l) = Pop l (c_mem c) in Some (obj, tc(index := l), c)
         else FetchFromCentralCache mmap ram tid index sz tc c)"

definition ListTooLong :: "nat \<Rightarrow> nat \<Rightarrow> nat \<Rightarrow> thread_cache \<Rightarrow> central \<Rightarrow> (thread_cache \<times> central) option" where
  "ListTooLong ram index sz tc c =
     (let l = tc index;
          popNum = fl_maxNum l;
          (start, finish, l, m) = PopRange popNum l (c_mem c)
      in map_option (\<lambda>c. (tc(index := l), c)) (ReleaseListToSpans ram start sz (c\<lparr>c_mem := m\<rparr>)))"

definition ThreadCache_Deallocate ::
  "nat \<Rightarrow> nat \<Rightarrow> nat \<Rightarrow> thread_cache \<Rightarrow> central \<Rightarrow> (thread_cache \<times> central) option" where
  "ThreadCache_Deallocate ram ptr sz tc c =
     (let index = Index sz;
          (l, m) = Push ptr (tc index) (c_mem c);
          tc = tc(index := l);
          c = c\<lparr>c_mem := m\<rparr>
      in if fl_size l \<ge> wadd (fl_maxSize l) (fl_maxNum l) then ListTooLong ram index sz tc c
         else Some (tc, c))"

text \<open>The destructor returns every list.\<close>

primrec ThreadCache_destroy :: "nat \<Rightarrow> nat list \<Rightarrow> thread_cache \<Rightarrow> central \<Rightarrow> central option" where
  "ThreadCache_destroy ram [] tc c = Some c"
| "ThreadCache_destroy ram (i # is) tc c =
     (if \<not> Empty (tc i)
      then let (start, finish, l, m) = PopRange (fl_size (tc i)) (tc i) (c_mem c)
           in case ReleaseListToSpans ram start (Size i) (c\<lparr>c_mem := m\<rparr>) of None \<Rightarrow> None
              | Some c \<Rightarrow> ThreadCache_destroy ram is tc c
      else ThreadCache_destroy ram is tc c)"

subsection \<open>The interface\<close>

text \<open>\<open>GetThreadCache\<close>: the cache of the thread, created at the first use.\<close>

definition GetThreadCache :: "nat \<Rightarrow> allocator \<Rightarrow> thread_cache" where
  "GetThreadCache tid st = (case caches st tid of Some tc \<Rightarrow> tc | None \<Rightarrow> ThreadCache_init)"

definition kz_malloc :: "(nat \<Rightarrow> nat option) \<Rightarrow> nat \<Rightarrow> nat \<Rightarrow> nat \<Rightarrow> allocator \<Rightarrow> (nat \<times> allocator) option" where
  "kz_malloc mmap ram tid sz st =
     (if sz > MAX_BYTES
      then let alignSize = RoundUp sz; kPages = drop_bit PAGE_SHIFT alignSize
           in case PageHeap_NewSpan mmap ram tid kPages (c_ph (cc st)) of None \<Rightarrow> None
              | Some (None, p) \<Rightarrow> Some (0, st\<lparr>cc := (cc st)\<lparr>c_ph := p\<rparr>\<rparr>)
              | Some (Some x, p) \<Rightarrow>
                (case fmlookup (ph_spans p) x of None \<Rightarrow> None
                 | Some s \<Rightarrow> Some (push_bit PAGE_SHIFT (pageId s),
                     st\<lparr>cc := (cc st)\<lparr>c_ph := upd_ph_span x (s\<lparr>objSize := alignSize, isUse := True\<rparr>) p\<rparr>\<rparr>))
      else case ThreadCache_Allocate mmap ram tid sz (GetThreadCache tid st) (cc st) of None \<Rightarrow> None
           | Some (ptr, tc, c) \<Rightarrow> Some (ptr, st\<lparr>cc := c, caches := (caches st)(tid \<mapsto> tc)\<rparr>))"

definition page_span :: "nat \<Rightarrow> allocator \<Rightarrow> nat option" where
  "page_span ptr st = PageMap_get (pmap (ph_heap (c_ph (cc st)))) (drop_bit PAGE_SHIFT ptr)"

definition release_large_block :: "nat \<Rightarrow> nat option \<Rightarrow> allocator \<Rightarrow> allocator option" where
  "release_large_block ram sp st =
     map_option (\<lambda>p. st\<lparr>cc := (cc st)\<lparr>c_ph := p\<rparr>\<rparr>) (PageHeap_ReleaseSpan ram sp (c_ph (cc st)))"

definition deallocate_small :: "nat \<Rightarrow> nat \<Rightarrow> nat \<Rightarrow> nat \<Rightarrow> allocator \<Rightarrow> allocator option" where
  "deallocate_small ram tid ptr sz st =
     map_option (\<lambda>(tc, c). st\<lparr>cc := c, caches := (caches st)(tid \<mapsto> tc)\<rparr>)
       (ThreadCache_Deallocate ram ptr sz (GetThreadCache tid st) (cc st))"

definition kz_free :: "nat \<Rightarrow> nat \<Rightarrow> nat \<Rightarrow> allocator \<Rightarrow> allocator option" where
  "kz_free ram tid ptr st =
     (if ptr = 0 then Some st
      else case page_span ptr st of None \<Rightarrow> None
         | Some x \<Rightarrow>
           (case fmlookup (c_spans (cc st)) x of None \<Rightarrow> None
            | Some s \<Rightarrow>
              if objSize s > MAX_BYTES then release_large_block ram (Some x) st
              else deallocate_small ram tid ptr (objSize s) st))"

definition kz_free_sized :: "nat \<Rightarrow> nat \<Rightarrow> nat \<Rightarrow> nat \<Rightarrow> allocator \<Rightarrow> allocator option" where
  "kz_free_sized ram tid ptr sz st =
     (if sz > MAX_BYTES then release_large_block ram (page_span ptr st) st
      else if caches st tid = None
      then map_option (\<lambda>c. st\<lparr>cc := c\<rparr>)
             (ReleaseListToSpans ram ptr sz ((cc st)\<lparr>c_mem := SetNextObj ptr 0 (c_mem (cc st))\<rparr>))
      else deallocate_small ram tid ptr sz st)"

definition GetAllocatedSize :: "nat \<Rightarrow> allocator \<Rightarrow> nat option" where
  "GetAllocatedSize ptr st =
     (case page_span ptr st of None \<Rightarrow> Some 0
      | Some x \<Rightarrow> map_option objSize (fmlookup (c_spans (cc st)) x))"

text \<open>The end of a thread: \<open>~ThreadCacheManager\<close>.\<close>

definition thread_exit :: "nat \<Rightarrow> nat \<Rightarrow> allocator \<Rightarrow> allocator option" where
  "thread_exit ram tid st =
     (case caches st tid of None \<Rightarrow> Some st
      | Some tc \<Rightarrow> map_option (\<lambda>c. st\<lparr>cc := c, caches := (caches st)(tid := None)\<rparr>)
          (ThreadCache_destroy ram [0..<MAX_NFREELISTS] tc (cc st)))"

definition allocator_init :: "nat \<Rightarrow> bool list \<Rightarrow> allocator" where
  "allocator_init cores os_answers =
     \<lparr>cc = CentralCache_init (PageHeap_init cores os_answers) (\<lambda>_. 0), caches = Map.empty\<rparr>"

end
