(* ===== verification/MallocInv.thy ===== *)
theory MallocInv
  imports Malloc
begin

text \<open>
  The invariant of the allocator and its preservation. \<open>L\<close> maps the address of every live block to
  the size that was asked for, \<open>ca t b\<close> are the objects of class \<open>b\<close> in the cache of thread \<open>t\<close>,
  \<open>fl x\<close> the free objects of the span \<open>x\<close>.
\<close>

type_synonym live = "nat \<rightharpoonup> nat"

definition live_in :: "live \<Rightarrow> nat \<Rightarrow> nat set" where
  "live_in L b = {a. \<exists>sz. L a = Some sz \<and> sz \<le> MAX_BYTES \<and> Index sz = b}"

definition used :: "(nat \<Rightarrow> nat \<Rightarrow> nat list) \<Rightarrow> live \<Rightarrow> nat \<Rightarrow> nat set" where
  "used ca L b = (\<Union>t. set (ca t b)) \<union> live_in L b"

definition cache_ok :: "store \<Rightarrow> free_list \<Rightarrow> nat \<Rightarrow> nat list \<Rightarrow> bool" where
  "cache_ok m l b xs \<longleftrightarrow> fl_ok m l xs \<and> 1 \<le> fl_maxSize l \<and> fl_maxSize l \<le> fl_maxNum l \<and> fl_maxNum l = NumMoveSize b
     \<and> length xs < fl_maxSize l + fl_maxNum l"

definition thread_ok :: "store \<Rightarrow> thread_cache \<Rightarrow> (nat \<Rightarrow> nat list) \<Rightarrow> bool" where
  "thread_ok m tc xs \<longleftrightarrow> (\<forall>b. if b < MAX_NFREELISTS then cache_ok m (tc b) b (xs b) else xs b = [])"

definition caches_ok :: "store \<Rightarrow> (nat \<rightharpoonup> thread_cache) \<Rightarrow> (nat \<Rightarrow> nat \<Rightarrow> nat list) \<Rightarrow> bool" where
  "caches_ok m cs ca \<longleftrightarrow> (\<forall>t. case cs t of None \<Rightarrow> ca t = (\<lambda>_. []) | Some tc \<Rightarrow> thread_ok m tc (ca t))"

definition large_ok :: "central \<Rightarrow> live \<Rightarrow> bool" where
  "large_ok c L \<longleftrightarrow> (\<forall>a sz. L a = Some sz \<and> MAX_BYTES < sz \<longrightarrow>
        (\<exists>x s. outside c x \<and> fmlookup (c_spans c) x = Some s \<and> base s = a \<and> objSize s = RoundUp sz
           \<and> npages s * PAGE_SIZE = RoundUp sz \<and> sz \<le> RoundUp sz))
     \<and> (\<forall>x. outside c x \<longrightarrow> (\<exists>sz s. fmlookup (c_spans c) x = Some s \<and> L (base s) = Some sz \<and> MAX_BYTES < sz))"

definition alloc_inv :: "allocator \<Rightarrow> (nat \<Rightarrow> nat list) \<Rightarrow> (nat \<Rightarrow> nat \<Rightarrow> nat list) \<Rightarrow> live \<Rightarrow> bool" where
  "alloc_inv st fl ca L \<longleftrightarrow> central_inv (cc st) fl (used ca L) \<and> busy (cc st) \<and> caches_ok (c_mem (cc st)) (caches st) ca
     \<and> (\<forall>t t' b. t \<noteq> t' \<longrightarrow> set (ca t b) \<inter> set (ca t' b) = {}) \<and> (\<forall>t b. set (ca t b) \<inter> dom L = {})
     \<and> large_ok (cc st) L"

text \<open>No word of a live block changes.\<close>

definition quiet :: "live \<Rightarrow> store \<Rightarrow> store \<Rightarrow> bool" where
  "quiet L m m' \<longleftrightarrow> (\<forall>q sz a. L q = Some sz \<and> a \<in> {q..<q + RoundUp sz} \<longrightarrow> m' a = m a)"

subsection \<open>Caches\<close>

lemma NumMoveSize_bounds: "b < MAX_NFREELISTS \<Longrightarrow> 2 \<le> NumMoveSize b \<and> NumMoveSize b \<le> 32768"
  by (simp add: NumMoveSize_def Let_def)

lemma FreeList_init_sel: "fl_maxSize (FreeList_init n) = 1" "fl_maxNum (FreeList_init n) = n"
  by (simp_all add: FreeList_init_def)

lemma thread_ok_init: "thread_ok m ThreadCache_init (\<lambda>_. [])"
proof -
  have "cache_ok m (ThreadCache_init b) b []" if "b < MAX_NFREELISTS" for b
    using NumMoveSize_bounds [OF that] by (simp add: cache_ok_def ThreadCache_init_def fl_ok_init FreeList_init_sel)
  then show ?thesis by (simp add: thread_ok_def)
qed

lemma GetThreadCache_ok: "caches_ok (c_mem (cc st)) (caches st) ca \<Longrightarrow> thread_ok (c_mem (cc st)) (GetThreadCache tid st) (ca tid)"
  unfolding caches_ok_def GetThreadCache_def using thread_ok_init by (auto split: option.splits dest!: spec [of _ tid])

lemma cache_ok_cong: "(\<And>a. a \<in> set xs \<Longrightarrow> m' a = m a) \<Longrightarrow> cache_ok m l b xs \<Longrightarrow> cache_ok m' l b xs"
  using fl_ok_cong unfolding cache_ok_def by blast

lemma thread_ok_cong: "(\<And>b a. a \<in> set (xs b) \<Longrightarrow> m' a = m a) \<Longrightarrow> thread_ok m tc xs \<Longrightarrow> thread_ok m' tc xs"
  unfolding thread_ok_def using cache_ok_cong [of _ m' m] by metis

lemma thread_ok_upd:
  "thread_ok m tc xs \<Longrightarrow> b < MAX_NFREELISTS \<Longrightarrow> cache_ok m l b ys \<Longrightarrow> thread_ok m (tc(b := l)) (xs(b := ys))"
  by (simp add: thread_ok_def)

lemma caches_ok_upd:
  assumes "caches_ok m cs ca" "thread_ok m' tc xs" "\<And>t b a. t \<noteq> tid \<Longrightarrow> a \<in> set (ca t b) \<Longrightarrow> m' a = m a"
  shows "caches_ok m' (cs(tid \<mapsto> tc)) (ca(tid := xs))"
proof -
  have "case (cs(tid \<mapsto> tc)) t of None \<Rightarrow> (ca(tid := xs)) t = (\<lambda>_. []) | Some tc \<Rightarrow> thread_ok m' tc ((ca(tid := xs)) t)" for t
  proof (cases "t = tid")
    case False
    have "thread_ok m tc' (ca t) \<Longrightarrow> thread_ok m' tc' (ca t)" for tc' by (rule thread_ok_cong) (rule assms(3) [OF False])
    then show ?thesis using assms(1) False by (auto simp: caches_ok_def split: option.splits dest!: spec [of _ t])
  qed (simp add: assms(2))
  then show ?thesis by (simp add: caches_ok_def)
qed

lemma thread_ok_list:
  assumes "thread_ok m tc xs" "b < MAX_NFREELISTS"
  shows "cache_ok m (tc b) b (xs b)"
  using assms by (auto simp: thread_ok_def dest!: spec [of _ b])

lemma thread_ok_upd_mem:
  assumes "thread_ok m tc xs" "b < MAX_NFREELISTS" "cache_ok m' l b ys" "\<And>b' a. b' \<noteq> b \<Longrightarrow> a \<in> set (xs b') \<Longrightarrow> m' a = m a"
  shows "thread_ok m' (tc(b := l)) (xs(b := ys))"
proof -
  have "cache_ok m' (tc b') b' (xs b')" if "b' < MAX_NFREELISTS" "b' \<noteq> b" for b'
    by (rule cache_ok_cong [OF _ thread_ok_list [OF assms(1) that(1)]]) (rule assms(4) [OF that(2)])
  then show ?thesis using assms by (auto simp: thread_ok_def)
qed

subsection \<open>Blocks\<close>

lemma used_unique:
  assumes "central_inv c fl U" "a \<in> U b" "a \<in> U b'"
  shows "b = b'"
proof -
  obtain x s where x: "x \<in> set (c_lists c b)" "fmlookup (c_spans c) x = Some s" "isUse s" "a \<in> set (obj_list s)"
    by (rule used_listed [OF assms(1,2)])
  obtain y t where y: "y \<in> set (c_lists c b')" "fmlookup (c_spans c) y = Some t" "isUse t" "a \<in> set (obj_list t)"
    by (rule used_listed [OF assms(1,3)])
  have "x = y" by (rule objs_disjoint [OF central_ph [OF assms(1)] x(2) y(2) x(3) y(3) x(4) y(4)])
  then show ?thesis using central_class [OF assms(1) x(1)] y(1) by simp
qed

lemma outside_pages:
  assumes "central_inv c fl U" "outside c x" "fmlookup (c_spans c) x = Some s" "a \<in> heads c"
  shows "drop_bit PAGE_SHIFT a \<notin> pages s"
proof
  assume p: "drop_bit PAGE_SHIFT a \<in> pages s"
  obtain b y t where y: "y \<in> set (c_lists c b)" "fmlookup (c_spans c) y = Some t" "a \<in> set (obj_list t)"
    using assms(4) by (auto simp: heads_def listed_def)
  have "isUse s" using assms(2,3) by (auto simp: outside_def in_use_def)
  moreover have "isUse t" using central_listed [OF assms(1) y(1)] y(2) by (metis option.inject)
  ultimately have "x = y"
    using page_lookup(1) [OF central_ph [OF assms(1)] assms(3) _ p] obj_lookup(1) [OF central_ph [OF assms(1)] y(2) _ y(3)] by simp
  then show False using assms(2) y(1) by (auto simp: outside_def)
qed

lemma base_page: "0 < npages s \<Longrightarrow> drop_bit PAGE_SHIFT (base s) \<in> pages s"
  by (simp add: base_def drop_bit_eq_div PAGE_SHIFT_def PAGE_SIZE_def pages_def)

lemma range_page:
  "base s \<le> a \<Longrightarrow> a < base s + npages s * PAGE_SIZE \<Longrightarrow> drop_bit PAGE_SHIFT a \<in> pages s"
  by (auto simp: base_def drop_bit_eq_div PAGE_SHIFT_def PAGE_SIZE_def pages_def less_eq_div_iff_mult_less_eq
      div_less_iff_less_mult algebra_simps)

lemma used_heads: "central_inv c fl U \<Longrightarrow> a \<in> U b \<Longrightarrow> a \<in> heads c"
  using used_listed [of c fl U a b] unfolding heads_def listed_def by blast

text \<open>Where a live block lies, and that it contains no first word of an object except its own.\<close>

lemma live_block:
  assumes "alloc_inv st fl ca L" "L q = Some sz"
  obtains x s where "fmlookup (c_spans (cc st)) x = Some s" "isUse s" "base s \<le> q"
    "q + RoundUp sz \<le> base s + npages s * PAGE_SIZE" "sz \<le> RoundUp sz" "0 < RoundUp sz" "objSize s = RoundUp sz"
    "sz \<le> MAX_BYTES \<longrightarrow> x \<in> set (c_lists (cc st) (Index sz)) \<and> q \<in> set (obj_list s)"
    "MAX_BYTES < sz \<longrightarrow> outside (cc st) x \<and> base s = q"
proof (cases "sz \<le> MAX_BYTES")
  case True
  have inv: "central_inv (cc st) fl (used ca L)" using assms(1) by (simp add: alloc_inv_def)
  have "q \<in> used ca L (Index sz)" using assms(2) True by (auto simp: used_def live_in_def)
  then obtain x s where x: "x \<in> set (c_lists (cc st) (Index sz))" "fmlookup (c_spans (cc st)) x = Some s" "isUse s"
    "objSize s = class_size (Index sz)" "q \<in> set (obj_list s)" by (rule used_listed [OF inv])
  have r: "RoundUp sz = class_size (Index sz)" by (rule RoundUp_class [OF True])
  note b = obj_bounds [OF x(5)]
  have "sz \<le> RoundUp sz"
    using r Index_bracket [of sz] True by (cases "sz = 0") simp_all
  then show ?thesis using that [of x s] x r b True by (simp add: base_def algebra_simps)
next
  case False
  then obtain x s where x: "outside (cc st) x" "fmlookup (c_spans (cc st)) x = Some s" "base s = q" "objSize s = RoundUp sz"
    "npages s * PAGE_SIZE = RoundUp sz" "sz \<le> RoundUp sz"
    using assms unfolding alloc_inv_def large_ok_def by (metis not_le)
  then have "isUse s" by (auto simp: outside_def in_use_def)
  then show ?thesis using that [of x s] x False by simp
qed

lemma live_heads:
  assumes "alloc_inv st fl ca L" "L q = Some sz" "a \<in> {q..<q + RoundUp sz}" "a \<in> heads (cc st)"
  shows "a = q \<and> sz \<le> MAX_BYTES"
proof -
  have inv: "central_inv (cc st) fl (used ca L)" using assms(1) by (simp add: alloc_inv_def)
  obtain x s where x: "fmlookup (c_spans (cc st)) x = Some s" "isUse s" "base s \<le> q"
    "q + RoundUp sz \<le> base s + npages s * PAGE_SIZE" "objSize s = RoundUp sz"
    "sz \<le> MAX_BYTES \<longrightarrow> x \<in> set (c_lists (cc st) (Index sz)) \<and> q \<in> set (obj_list s)"
    "MAX_BYTES < sz \<longrightarrow> outside (cc st) x \<and> base s = q"
    by (rule live_block [OF assms(1,2)])
  have p: "drop_bit PAGE_SHIFT a \<in> pages s" using assms(3) x(3,4) by (intro range_page) auto
  have small: "sz \<le> MAX_BYTES"
    using outside_pages [OF inv _ x(1) assms(4)] x(7) p by (auto simp: not_le [symmetric])
  obtain b y t where y: "y \<in> set (c_lists (cc st) b)" "fmlookup (c_spans (cc st)) y = Some t" "a \<in> set (obj_list t)"
    using assms(4) by (auto simp: heads_def listed_def)
  have "isUse t" using central_listed [OF inv y(1)] y(2) by (metis option.inject)
  then have "y = x"
    using page_lookup(1) [OF central_ph [OF inv] x(1,2) p] obj_lookup(1) [OF central_ph [OF inv] y(2) _ y(3)] by simp
  then have a: "a \<in> set (obj_list s)" using y x(1) by simp
  have "a = q"
  proof (rule ccontr)
    assume "a \<noteq> q"
    then have "q < a" using assms(3) by simp
    then show False using obj_spacing [of q s a] x(6) small a assms(3) x(5) by simp
  qed
  then show ?thesis using small by simp
qed

subsection \<open>Bookkeeping\<close>

definition others :: "(nat \<Rightarrow> nat \<Rightarrow> nat list) \<Rightarrow> nat \<Rightarrow> nat \<Rightarrow> nat set" where
  "others ca tid b = (\<Union>t \<in> - {tid}. set (ca t b))"

lemma used_split: "used ca L b = others ca tid b \<union> set (ca tid b) \<union> live_in L b"
  by (auto simp: used_def others_def)

lemma others_upd [simp]: "others (ca(tid := xs)) tid b = others ca tid b"
  by (auto simp: others_def)

lemma used_upd:
  "used (ca(tid := (ca tid)(b := ys))) L b' = (if b' = b then others ca tid b \<union> set ys \<union> live_in L b else used ca L b')"
  by (simp add: used_split [of _ _ _ tid])

lemma live_in_new:
  "L x = None \<Longrightarrow> sz \<le> MAX_BYTES \<Longrightarrow> live_in (L(x \<mapsto> sz)) b = (if b = Index sz then insert x (live_in L b) else live_in L b)"
  by (auto simp: live_in_def)

lemma live_in_old:
  "L x = Some sz \<Longrightarrow> sz \<le> MAX_BYTES \<Longrightarrow> live_in (L(x := None)) b = (if b = Index sz then live_in L b - {x} else live_in L b)"
  by (auto simp: live_in_def)

lemma live_in_large: "(\<forall>sz. L x = Some sz \<longrightarrow> MAX_BYTES < sz) \<Longrightarrow> (\<forall>sz. v = Some sz \<longrightarrow> MAX_BYTES < sz) \<Longrightarrow>
  live_in (L(x := v)) b = live_in L b"
  by (auto simp: live_in_def)

lemma live_in_dom: "live_in L b \<subseteq> dom L"
  by (auto simp: live_in_def)

lemma large_okD:
  assumes "large_ok c L" "L a = Some sz" "MAX_BYTES < sz"
  obtains x s where "outside c x" "fmlookup (c_spans c) x = Some s" "base s = a" "objSize s = RoundUp sz"
    "npages s * PAGE_SIZE = RoundUp sz" "sz \<le> RoundUp sz"
  using assms unfolding large_ok_def by blast

lemma large_ok_span:
  assumes "large_ok c L" "outside c x"
  obtains sz s where "fmlookup (c_spans c) x = Some s" "L (base s) = Some sz" "MAX_BYTES < sz"
  using assms unfolding large_ok_def by blast

lemma large_ok_small:
  assumes "large_ok c L" "\<forall>sz. L x = Some sz \<longrightarrow> sz \<le> MAX_BYTES" "\<forall>sz. v = Some sz \<longrightarrow> sz \<le> MAX_BYTES"
  shows "large_ok c (L(x := v))"
proof -
  have "\<exists>sz s. fmlookup (c_spans c) y = Some s \<and> (L(x := v)) (base s) = Some sz \<and> MAX_BYTES < sz" if "outside c y" for y
  proof -
    obtain sz s where s: "fmlookup (c_spans c) y = Some s" "L (base s) = Some sz" "MAX_BYTES < sz"
      using assms(1) \<open>outside c y\<close> unfolding large_ok_def by blast
    then have "base s \<noteq> x" using assms(2) by auto
    then show ?thesis using s by auto
  qed
  moreover have "L a = Some sz \<and> MAX_BYTES < sz" if "(L(x := v)) a = Some sz" "MAX_BYTES < sz" for a sz
    using that assms(3) by (auto split: if_splits)
  ultimately show ?thesis using assms(1) unfolding large_ok_def by blast
qed

lemma large_ok_outside:
  assumes "large_ok c L" "same_outside c c'"
  shows "large_ok c' L"
proof -
  have "\<And>x. outside c' x \<longleftrightarrow> outside c x" "\<And>x. outside c x \<Longrightarrow> fmlookup (c_spans c') x = fmlookup (c_spans c) x"
    using assms(2) by (simp_all add: same_outside_def)
  then show ?thesis using assms(1) unfolding large_ok_def by metis
qed

lemma same_outside_mem [simp]: "same_outside c (c\<lparr>c_mem := m\<rparr>)"
  by (simp add: same_outside_def outside_def)

lemma heads_mem [simp]: "heads (c\<lparr>c_mem := m\<rparr>) = heads c"
  by (simp add: heads_def)

lemma alloc_used:
  assumes "alloc_inv st fl ca L"
  shows "a \<in> set (ca t b) \<Longrightarrow> a \<in> used ca L b" "a \<in> set (ca t b) \<Longrightarrow> L a = None"
    "L a = Some sz \<Longrightarrow> sz \<le> MAX_BYTES \<Longrightarrow> a \<in> used ca L (Index sz)"
    "b \<ge> MAX_NFREELISTS \<Longrightarrow> ca t b = []"
proof -
  show "a \<in> set (ca t b) \<Longrightarrow> L a = None" using assms unfolding alloc_inv_def by (metis disjoint_iff domIff)
  show "b \<ge> MAX_NFREELISTS \<Longrightarrow> ca t b = []"
    using assms by (auto simp: alloc_inv_def caches_ok_def thread_ok_def dest!: spec [of _ t] split: option.splits)
qed (auto simp: used_def live_in_def)

text \<open>An object that is not handed out is not the address of a live block.\<close>

lemma unused_not_live:
  assumes "alloc_inv st fl ca L" "a \<in> heads c'" "a \<notin> used ca L b" "central_inv c' fl' U" "a \<in> U b"
    "\<And>b'. b' \<noteq> b \<Longrightarrow> used ca L b' \<subseteq> U b'" "same_outside (cc st) c'"
  shows "L a = None"
proof (rule ccontr)
  assume "L a \<noteq> None"
  then obtain sz where sz: "L a = Some sz" by auto
  show False
  proof (cases "sz \<le> MAX_BYTES")
    case True
    then have "a \<in> used ca L (Index sz)" by (rule alloc_used(3) [OF assms(1) sz])
    moreover from this have "Index sz \<noteq> b" using assms(3) by auto
    ultimately have "a \<in> U (Index sz)" using assms(6) by blast
    then show False using used_unique [OF assms(4,5)] \<open>Index sz \<noteq> b\<close> by blast
  next
    case False
    have "large_ok c' L" by (rule large_ok_outside [OF _ assms(7)]) (use assms(1) in \<open>simp add: alloc_inv_def\<close>)
    then obtain x s where x: "outside c' x" "fmlookup (c_spans c') x = Some s" "base s = a"
      using sz False unfolding large_ok_def by (metis not_le)
    have "0 < npages s" using wf_ranges_pos [OF ph_ranges(1) [OF central_ph [OF assms(4)]] x(2)] .
    then show False using outside_pages [OF assms(4) x(1,2) assms(2)] base_page x(3) by blast
  qed
qed

subsection \<open>Allocation from the thread cache\<close>

definition with_cache :: "allocator \<Rightarrow> nat \<Rightarrow> thread_cache \<Rightarrow> central \<Rightarrow> allocator" where
  "with_cache st tid tc c = st\<lparr>cc := c, caches := (caches st)(tid \<mapsto> tc)\<rparr>"

lemma with_cache_sel [simp]: "cc (with_cache st tid tc c) = c" "caches (with_cache st tid tc c) = (caches st)(tid \<mapsto> tc)"
  by (simp_all add: with_cache_def)

text \<open>One list of one thread changes, and with it what is handed out.\<close>

lemma alloc_inv_step:
  assumes inv: "alloc_inv st fl ca L" and tc: "thread_ok (c_mem (cc st)) tc (ca tid)" and b: "b < MAX_NFREELISTS"
    and c: "central_inv c fl' U" "busy c" "large_ok c L'" and U: "U = used (ca(tid := (ca tid)(b := ys))) L'"
    and l: "cache_ok (c_mem c) l b ys"
    and mem: "\<And>t b' a. a \<in> set (ca t b') \<Longrightarrow> (t, b') \<noteq> (tid, b) \<Longrightarrow> c_mem c a = c_mem (cc st) a"
    and ys: "set ys \<inter> others ca tid b = {}" "set ys \<inter> dom L' = {}"
    and L': "\<And>t b' a. a \<in> set (ca t b') \<Longrightarrow> (t, b') \<noteq> (tid, b) \<Longrightarrow> L' a = None"
  shows "alloc_inv (with_cache st tid (tc(b := l)) c) fl' (ca(tid := (ca tid)(b := ys))) L'"
proof -
  let ?ca = "ca(tid := (ca tid)(b := ys))"
  have C: "caches_ok (c_mem (cc st)) (caches st) ca" and D: "\<And>t t' b. t \<noteq> t' \<Longrightarrow> set (ca t b) \<inter> set (ca t' b) = {}"
    using inv by (simp_all add: alloc_inv_def)
  have "thread_ok (c_mem c) (tc(b := l)) ((ca tid)(b := ys))"
    by (rule thread_ok_upd_mem [OF tc b l]) (simp add: mem)
  then have "caches_ok (c_mem c) ((caches st)(tid \<mapsto> tc(b := l))) ?ca"
    by (rule caches_ok_upd [OF C]) (simp add: mem)
  moreover have "set (?ca t b') \<inter> set (?ca t' b') = {}" if tt: "t \<noteq> t'" for t t' b'
  proof (cases "b' = b \<and> (t = tid \<or> t' = tid)")
    case True
    then show ?thesis using ys(1) tt by (auto simp: others_def)
  next
    case False
    then show ?thesis using D [OF tt, of b'] by auto
  qed
  moreover have "set (?ca t b') \<inter> dom L' = {}" for t b'
  proof (cases "(t, b') = (tid, b)")
    case True
    then show ?thesis using ys(2) by simp
  next
    case False
    have "?ca t b' = ca t b'" using False by (cases "t = tid") auto
    moreover have "set (ca t b') \<inter> dom L' = {}" using L' [OF _ False] by auto
    ultimately show ?thesis by simp
  qed
  ultimately show ?thesis using c unfolding alloc_inv_def U by simp
qed

lemma Fetch_eq:
  assumes "n = min (push_bit 1 (fl_maxSize (tc b)) mod W64) (fl_maxNum (tc b))"
    "FetchRangeObj mmap ram tid n sz c = Some (start, finish, k, c')"
  shows "FetchFromCentralCache mmap ram tid b sz tc c =
    (let l = (tc b)\<lparr>fl_maxSize := n\<rparr>
     in if k = 0 then Some (0, tc(b := l), c')
        else if k > 1 then let (l, m) = PushRange (GetNextObj (c_mem c') start) finish (k - 1) l (c_mem c')
                           in Some (start, tc(b := l), c'\<lparr>c_mem := m\<rparr>)
        else Some (start, tc(b := l), c'))"
  using assms(2) unfolding FetchFromCentralCache_def Let_def assms(1) [symmetric] by simp

lemma Allocate_ok:
  assumes inv: "alloc_inv st fl ca L" and mm: "mmap_ok mmap (ph_heap (c_ph (cc st)))" and sz: "sz \<le> MAX_BYTES"
  obtains (null) tc c where "ThreadCache_Allocate mmap ram tid sz (GetThreadCache tid st) (cc st) = Some (0, tc, c)"
      "alloc_inv (with_cache st tid tc c) fl ca L" "c_mem c = c_mem (cc st)"
      "out_of_memory mmap (c_ph (cc st)) (CalculatePageNeed (RoundUp sz))"
  | (obj) p tc c fl' ca' where "ThreadCache_Allocate mmap ram tid sz (GetThreadCache tid st) (cc st) = Some (p, tc, c)"
      "p \<noteq> 0" "L p = None" "alloc_inv (with_cache st tid tc c) fl' ca' (L(p \<mapsto> sz))"
      "quiet L (c_mem (cc st)) (c_mem c)"
proof -
  let ?b = "Index sz" and ?tc = "GetThreadCache tid st" and ?m = "c_mem (cc st)"
  have cinv: "central_inv (cc st) fl (used ca L)" and bz: "busy (cc st)" and C: "caches_ok ?m (caches st) ca"
    and lg: "large_ok (cc st) L" and D: "\<And>t t' b. t \<noteq> t' \<Longrightarrow> set (ca t b) \<inter> set (ca t' b) = {}"
    using inv by (simp_all add: alloc_inv_def)
  have b: "?b < MAX_NFREELISTS" by (rule Index_less [OF sz])
  have tc: "thread_ok ?m ?tc (ca tid)" by (rule GetThreadCache_ok [OF C])
  note lst = thread_ok_list [OF tc b]
  then have fo: "fl_ok ?m (?tc ?b) (ca tid ?b)" by (simp add: cache_ok_def)
  have own: "set (ca tid ?b) \<inter> others ca tid ?b = {}" using D unfolding others_def by blast
  show thesis
  proof (cases "ca tid ?b")
    case (Cons x xs)
    obtain x' l where p: "Pop (?tc ?b) ?m = (x', l)" by fastforce
    note pk = Pop_ok [OF fo [unfolded Cons] p]
    have "distinct (ca tid ?b)" using fo linked_distinct unfolding fl_ok_def by blast
    then have x: "x \<in> set (ca tid ?b)" and d: "distinct (x # xs)" using Cons by simp_all
    have Lx: "L x = None" by (rule alloc_used(2) [OF inv x])
    have e: "ThreadCache_Allocate mmap ram tid sz ?tc (cc st) = Some (x, ?tc(?b := l), cc st)"
      using fl_ok_Empty [OF fo] Cons p pk(1) by (simp add: ThreadCache_Allocate_def)
    have U: "used ca L = used (ca(tid := (ca tid)(?b := xs))) (L(x \<mapsto> sz))"
      using Cons Lx sz by (auto simp: fun_eq_iff used_upd live_in_new used_split [of ca _ _ tid])
    have n: "x \<noteq> 0" using used_nonzero [OF cinv alloc_used(1) [OF inv x]] .
    have "alloc_inv (with_cache st tid (?tc(?b := l)) (cc st)) fl (ca(tid := (ca tid)(?b := xs))) (L(x \<mapsto> sz))"
    proof (rule alloc_inv_step [OF inv tc b cinv bz _ U])
      show "large_ok (cc st) (L(x \<mapsto> sz))" using lg Lx sz by (intro large_ok_small) auto
      show "cache_ok ?m l ?b xs" using lst Cons pk by (simp add: cache_ok_def)
      show "set xs \<inter> others ca tid ?b = {}" using own Cons by auto
      show "set xs \<inter> dom (L(x \<mapsto> sz)) = {}" using d alloc_used(2) [OF inv, of _ tid ?b] Cons by auto
      show "(L(x \<mapsto> sz)) a = None" if a: "a \<in> set (ca t b')" "(t, b') \<noteq> (tid, ?b)" for t b' a
      proof -
        have "a \<noteq> x"
          using a x D [of t tid ?b] used_unique [OF cinv alloc_used(1) [OF inv a(1)], of ?b] alloc_used(1) [OF inv x]
          by (cases "b' = ?b") auto
        then show ?thesis using alloc_used(2) [OF inv a(1)] by simp
      qed
    qed simp
    then show ?thesis using obj e n Lx by (simp add: quiet_def)
  next
    case Nil
    let ?l = "?tc ?b"
    define n where "n = min (push_bit 1 (fl_maxSize ?l) mod W64) (fl_maxNum ?l)"
    have bn: "1 \<le> fl_maxSize ?l" "fl_maxSize ?l \<le> fl_maxNum ?l" "2 \<le> fl_maxNum ?l" "fl_maxNum ?l \<le> 32768" "fl_maxNum ?l = NumMoveSize ?b"
      using lst NumMoveSize_bounds [OF b] by (simp_all add: cache_ok_def)
    have nb: "0 < n" "n \<le> fl_maxNum ?l" using bn by (simp_all add: n_def push_bit_eq_mult W64_def)
    have l0: "cache_ok m (?l\<lparr>fl_maxSize := n\<rparr>) ?b []" for m
      using lst nb bn Nil by (simp add: cache_ok_def fl_ok_def)
    have al: "ThreadCache_Allocate mmap ram tid sz ?tc (cc st) = FetchFromCentralCache mmap ram tid ?b sz ?tc (cc st)"
      using fl_ok_Empty [OF fo] Nil by (simp add: ThreadCache_Allocate_def)
    have same: "ca(tid := (ca tid)(?b := [])) = ca" using Nil by (auto simp: fun_eq_iff)
    show ?thesis
    proof (rule FetchRangeObj_ok [OF cinv bz sz mm nb(1), of ram tid])
      fix p assume f: "FetchRangeObj mmap ram tid n sz (cc st) = Some (0, 0, 0, (cc st)\<lparr>c_ph := p\<rparr>)"
        and i: "central_inv ((cc st)\<lparr>c_ph := p\<rparr>) fl (used ca L)" and sp: "ph_spans p = c_spans (cc st)"
        and oom: "out_of_memory mmap (c_ph (cc st)) (CalculatePageNeed (RoundUp sz))"
      let ?c = "(cc st)\<lparr>c_ph := p\<rparr>"
      have e: "ThreadCache_Allocate mmap ram tid sz ?tc (cc st) = Some (0, ?tc(?b := ?l\<lparr>fl_maxSize := n\<rparr>), ?c)"
        unfolding al using f by (simp add: FetchFromCentralCache_def Let_def n_def)
      have "busy ?c" "large_ok ?c L" using bz lg sp by (simp_all add: busy_def large_ok_def outside_def)
      then have "alloc_inv (with_cache st tid (?tc(?b := ?l\<lparr>fl_maxSize := n\<rparr>)) ?c) fl (ca(tid := (ca tid)(?b := []))) L"
        by (intro alloc_inv_step [OF inv tc b i]) (use l0 same alloc_used(2) [OF inv] in auto)
      then show thesis using null e oom unfolding same by simp
    next
      fix xs start finish c
      assume f: "FetchRangeObj mmap ram tid n sz (cc st) = Some (start, finish, length xs, c)"
        and ft: "fetched ?b n (used ca L) (cc st) xs start finish c"
      obtain fl' where i: "central_inv c fl' ((used ca L)(?b := used ca L ?b \<union> set xs))" using ft by (auto simp: fetched_def)
      let ?U = "(used ca L)(?b := used ca L ?b \<union> set xs)"
      have xs: "xs \<noteq> []" "length xs \<le> n" "set xs \<inter> used ca L ?b = {}" "linked (c_mem c) start xs" "finish = last xs"
        and bc: "busy c" "same_outside (cc st) c"
        and mem: "\<And>b' a. a \<in> used ca L b' \<Longrightarrow> c_mem c a = ?m a" "\<And>a. a \<notin> heads c \<Longrightarrow> c_mem c a = ?m a"
        using ft by (auto simp: fetched_def)
      obtain y ys where y: "xs = y # ys" "start = y" "y \<noteq> 0" "linked (c_mem c) (c_mem c y) ys"
        using xs(1,4) by (cases xs) auto
      have d: "distinct (y # ys)" using linked_distinct [OF xs(4)] y(1) by simp
      have xL: "L a = None" if "a \<in> set xs" for a
      proof (rule unused_not_live [OF inv _ _ i _ _ bc(2)])
        show "a \<in> ?U ?b" using that by simp
        then show "a \<in> heads c" by (rule used_heads [OF i])
        show "a \<notin> used ca L ?b" using that xs(3) by blast
      qed simp
      have fresh: "a \<notin> used ca L b'" if "a \<in> set xs" for a b'
      proof
        assume a: "a \<in> used ca L b'"
        then have "a \<in> ?U b'" by auto
        moreover have "a \<in> ?U ?b" using that by simp
        ultimately have "b' = ?b" by (rule used_unique [OF i])
        then show False using a that xs(3) by blast
      qed
      define lm where "lm = (if ys = [] then (?l\<lparr>fl_maxSize := n\<rparr>, c_mem c)
        else PushRange (GetNextObj (c_mem c) start) finish (length xs - 1) (?l\<lparr>fl_maxSize := n\<rparr>) (c_mem c))"
      obtain l m where lm: "lm = (l, m)" by fastforce
      have lys: "length ys < n" using xs(2) y(1) by simp
      have lo: "cache_ok m l ?b ys \<and> m = (c_mem c)(last xs := (if ys = [] then c_mem c (last xs) else 0))"
      proof (cases "ys = []")
        case True
        then show ?thesis using l0 lm by (auto simp: lm_def)
      next
        case False
        have e0: "fl_ok (c_mem c) (?l\<lparr>fl_maxSize := n\<rparr>) []" using l0 [of "c_mem c"] by (simp add: cache_ok_def)
        have pr: "PushRange (c_mem c y) (last ys) (length ys) (?l\<lparr>fl_maxSize := n\<rparr>) (c_mem c) = (l, m)"
          using lm False y xs(5) by (simp add: lm_def GetNextObj_def)
        have len: "length [] + length ys < 2 ^ 50" using lys nb(2) bn(4) by simp
        note po = PushRange_ok [OF e0 y(4) False refl refl _ len pr]
        have "fl_head ?l = 0" using fo Nil by (simp add: fl_ok_def)
        then show ?thesis using po bn nb lys False y(1) by (simp add: cache_ok_def)
      qed
      let ?c = "c\<lparr>c_mem := m\<rparr>"
      have al2: "ThreadCache_Allocate mmap ram tid sz ?tc (cc st) = Some (y, ?tc(?b := l), ?c)"
        unfolding al Fetch_eq [where tc = ?tc and b = ?b, OF n_def f] using y lm by (cases "ys = []") (simp_all add: lm_def)
      have lastU: "last xs \<in> ?U ?b" using last_in_set [OF xs(1)] by simp
      have i': "central_inv ?c fl' ?U" unfolding conjunct2 [OF lo] by (rule central_write [OF i lastU])
      have U: "?U = used (ca(tid := (ca tid)(?b := ys))) (L(y \<mapsto> sz))"
        using xL y(1) sz Nil by (force simp: fun_eq_iff used_upd live_in_new used_split [of ca _ _ tid])
      have mem': "m a = ?m a" if "a \<in> used ca L b'" for a b'
        using mem(1) [OF that] fresh [OF last_in_set [OF xs(1)], of b'] lo that by (auto split: if_splits)
      have ai: "alloc_inv (with_cache st tid (?tc(?b := l)) ?c) fl' (ca(tid := (ca tid)(?b := ys))) (L(y \<mapsto> sz))"
      proof (rule alloc_inv_step [OF inv tc b i' _ _ U])
        show "busy ?c" using bc(1) by (simp add: busy_def)
        have "large_ok ?c L" by (rule large_ok_outside [OF large_ok_outside [OF lg bc(2)]]) simp
        then show "large_ok ?c (L(y \<mapsto> sz))" using xL y(1) sz by (intro large_ok_small) auto
        show "cache_ok (c_mem ?c) l ?b ys" using conjunct1 [OF lo] by simp
        show "c_mem ?c a = ?m a" if "a \<in> set (ca t b')" for t b' a
          using mem' [OF alloc_used(1) [OF inv that]] by simp
        have "others ca tid ?b \<subseteq> used ca L ?b" by (auto simp: used_split [of ca L ?b tid])
        then show "set ys \<inter> others ca tid ?b = {}" using xs(3) y(1) by auto
        show "set ys \<inter> dom (L(y \<mapsto> sz)) = {}" using xL y(1) d by auto
        show "(L(y \<mapsto> sz)) a = None" if "a \<in> set (ca t b')" for t b' a
          using alloc_used(1,2) [OF inv that] fresh [of y b'] y(1) by auto
      qed
      have "m a = ?m a" if q: "L q = Some sz'" "a \<in> {q..<q + RoundUp sz'}" for q sz' a
      proof (cases "a \<in> heads c")
        case True
        have "q \<noteq> y" using xL [of y] y(1) q(1) by auto
        then have "a = q \<and> sz' \<le> MAX_BYTES" using live_heads [OF ai, of q sz' a] q True by simp
        then show ?thesis using mem' alloc_used(3) [OF inv q(1)] by blast
      next
        case False
        have "last xs \<in> heads c" by (rule used_heads [OF i lastU])
        then show ?thesis using False lo mem(2) by auto
      qed
      then have "quiet L ?m m" by (auto simp: quiet_def)
      then show thesis using obj al2 y(1,3) ai xL by simp
    qed
  qed
qed

subsection \<open>Malloc\<close>

lemma large_pages:
  assumes "MAX_BYTES < sz" "sz < 2 ^ 48"
  shows "RoundUp sz = drop_bit PAGE_SHIFT (RoundUp sz) * PAGE_SIZE" "0 < drop_bit PAGE_SHIFT (RoundUp sz)"
    "drop_bit PAGE_SHIFT (RoundUp sz) < 2 ^ 50" "sz \<le> RoundUp sz" "MAX_BYTES < RoundUp sz"
proof -
  have w: "sz < W64" "sz \<le> W64 - PAGE_SIZE" using assms(2) by (simp_all add: W64_def PAGE_SIZE_def)
  have r: "PAGE_SIZE dvd RoundUp sz" "sz \<le> RoundUp sz" "RoundUp sz < sz + PAGE_SIZE"
    using RoundUp_page [OF assms(1) w(1)] w(2) by simp_all
  show e: "RoundUp sz = drop_bit PAGE_SHIFT (RoundUp sz) * PAGE_SIZE"
    using r(1) by (simp add: drop_bit_eq_div PAGE_SHIFT_def PAGE_SIZE_def)
  show "sz \<le> RoundUp sz" by (rule r(2))
  show m: "MAX_BYTES < RoundUp sz" using assms(1) r(2) by linarith
  then show "0 < drop_bit PAGE_SHIFT (RoundUp sz)" using e by (intro gr0I) simp
  have "drop_bit PAGE_SHIFT (RoundUp sz) \<le> RoundUp sz" by (simp add: drop_bit_eq_div)
  then show "drop_bit PAGE_SHIFT (RoundUp sz) < 2 ^ 50" using r(3) assms(2) by (simp add: PAGE_SIZE_def)
qed

definition refused :: "(nat \<Rightarrow> nat option) \<Rightarrow> allocator \<Rightarrow> nat \<Rightarrow> bool" where
  "refused mmap st sz \<longleftrightarrow> out_of_memory mmap (c_ph (cc st))
     (if MAX_BYTES < sz then drop_bit PAGE_SHIFT (RoundUp sz) else CalculatePageNeed (RoundUp sz))"

lemma kz_malloc_large:
  assumes inv: "alloc_inv st fl ca L" and mm: "mmap_ok mmap (ph_heap (c_ph (cc st)))" and sz: "MAX_BYTES < sz" "sz < 2 ^ 48"
  obtains (null) st' where "kz_malloc mmap ram tid sz st = Some (0, st')" "alloc_inv st' fl ca L"
      "c_mem (cc st') = c_mem (cc st)" "refused mmap st sz"
  | (block) p st' where "kz_malloc mmap ram tid sz st = Some (p, st')" "p \<noteq> 0" "L p = None"
      "alloc_inv st' fl ca (L(p \<mapsto> sz))" "c_mem (cc st') = c_mem (cc st)"
proof -
  let ?c = "cc st" and ?k = "drop_bit PAGE_SHIFT (RoundUp sz)"
  note lp = large_pages [OF sz]
  have cinv: "central_inv ?c fl (used ca L)" and bz: "busy ?c" and C: "caches_ok (c_mem ?c) (caches st) ca"
    and lg: "large_ok ?c L" using inv by (simp_all add: alloc_inv_def)
  obtain r p where r: "PageHeap_NewSpan mmap ram tid ?k (c_ph ?c) = Some (r, p)" "ph_inv p"
    and t: "tame (set_option r) (c_spans ?c) (ph_spans p)"
    and kept: "\<And>z t. fmlookup (c_spans ?c) z = Some t \<Longrightarrow> isUse t \<Longrightarrow> fmlookup (ph_spans p) z = Some t"
    and none: "r = None \<Longrightarrow> ph_spans p = c_spans ?c
       \<and> (SystemAlloc mmap (alloc_size ?k) = None \<or> answers (pmap (ph_heap (c_ph ?c))) \<noteq> [])"
    and some: "\<And>x. r = Some x \<Longrightarrow> \<not> in_use (c_spans ?c) x \<and> (\<exists>s. fmlookup (ph_spans p) x = Some s \<and> isUse s \<and> npages s = ?k)"
    by (rule PageHeap_NewSpan_client [OF central_ph [OF cinv] lp(2,3) mm, of ram tid]) (blast intro: that)
  have cnt: "use_count (ph_spans p) z \<le> use_count (c_spans ?c) z" for z using t by (simp add: tame_def)
  show thesis
  proof (cases r)
    case None
    let ?st = "st\<lparr>cc := ?c\<lparr>c_ph := p\<rparr>\<rparr>"
    note fr = central_frame [OF cinv r(2) cnt kept]
    have "large_ok (?c\<lparr>c_ph := p\<rparr>) L" using lg none [OF None] by (simp add: large_ok_def outside_def)
    then have "alloc_inv ?st fl ca L" using inv fr(1,2) bz by (simp add: alloc_inv_def)
    moreover have "kz_malloc mmap ram tid sz st = Some (0, ?st)" using r(1) None sz by (simp add: kz_malloc_def Let_def)
    ultimately show ?thesis using null none [OF None] sz by (simp add: refused_def out_of_memory_def)
  next
    case (Some x)
    then obtain s where new: "\<not> in_use (c_spans ?c) x" and s: "fmlookup (ph_spans p) x = Some s" "isUse s" "npages s = ?k"
      using some by blast
    let ?s = "s\<lparr>objSize := RoundUp sz, isUse := True\<rparr>"
    let ?p = "upd_ph_span x ?s p"
    let ?st = "st\<lparr>cc := ?c\<lparr>c_ph := ?p\<rparr>\<rparr>"
    have "same_span s ?s" using s(2) by (simp add: same_span_def)
    note cl = ph_inv_client [OF r(2) s(1,2) this]
    have "use_count (ph_spans ?p) z \<le> use_count (c_spans ?c) z" for z
      using cnt [of z] s(1) by (auto simp: cl(2) use_count_def)
    moreover have nx: "z \<noteq> x" if "fmlookup (c_spans ?c) z = Some t" "isUse t" for z t
      using that new by (auto simp: in_use_def)
    then have kept': "fmlookup (ph_spans ?p) z = Some t" if "fmlookup (c_spans ?c) z = Some t" "isUse t" for z t
      using kept [OF that] that by (auto simp: cl(2))
    ultimately have fr: "central_inv (?c\<lparr>c_ph := ?p\<rparr>) fl (used ca L)" "busy (?c\<lparr>c_ph := ?p\<rparr>)"
      "listed (?c\<lparr>c_ph := ?p\<rparr>) b y t \<longleftrightarrow> listed ?c b y t" for b y t
      using central_frame [OF cinv cl(1)] bz by blast+
    have nl: "x \<notin> set (c_lists ?c b)" for b
      using central_listed [OF cinv, of x b] nx by metis
    have "in_use (ph_spans ?p) z \<longleftrightarrow> in_use (c_spans ?c) z \<or> z = x" for z
    proof -
      have "in_use (ph_spans ?p) z" if "in_use (c_spans ?c) z" using that kept' by (auto simp: in_use_def)
      moreover have "in_use (ph_spans ?p) x" by (simp add: cl(2) in_use_def)
      moreover have "in_use (c_spans ?c) z" if "in_use (ph_spans ?p) z" "z \<noteq> x"
        using that t Some by (auto simp: cl(2) in_use_def tame_def)
      ultimately show ?thesis by blast
    qed
    then have out: "outside (?c\<lparr>c_ph := ?p\<rparr>) z \<longleftrightarrow> outside ?c z \<or> z = x" for z
      using nl by (auto simp: outside_def)
    have lk: "fmlookup (ph_spans ?p) z = fmlookup (c_spans ?c) z" if "outside ?c z" for z
      using that kept' by (auto simp: outside_def in_use_def)
    have bs: "push_bit PAGE_SHIFT (pageId s) = base ?s"
      by (simp add: base_def push_bit_eq_mult PAGE_SHIFT_def PAGE_SIZE_def)
    have sx: "fmlookup (ph_spans ?p) x = Some ?s" by (simp add: cl(2))
    have fresh: "L (base ?s) = None"
    proof (rule ccontr)
      assume "L (base ?s) \<noteq> None"
      then obtain sz' where sz': "L (base ?s) = Some sz'" by auto
      obtain y t where y: "fmlookup (c_spans ?c) y = Some t" "isUse t" "base t \<le> base ?s"
        "base ?s + RoundUp sz' \<le> base t + npages t * PAGE_SIZE" "0 < RoundUp sz'"
        by (rule live_block [OF inv sz']) (blast intro: that)
      have "drop_bit PAGE_SHIFT (base ?s) \<in> pages t" using y(3-5) by (intro range_page) simp_all
      then have "PageMap_get (pmap (ph_heap ?p)) (drop_bit PAGE_SHIFT (base ?s)) = Some y"
        using page_lookup(1) [OF cl(1) kept' [OF y(1,2)] y(2)] by blast
      moreover have "drop_bit PAGE_SHIFT (base ?s) \<in> pages ?s" using s(3) lp(2) by (intro base_page) simp
      then have "PageMap_get (pmap (ph_heap ?p)) (drop_bit PAGE_SHIFT (base ?s)) = Some x"
        using page_lookup(1) [OF cl(1) sx] by simp
      ultimately show False using nx [OF y(1,2)] by simp
    qed
    have pos: "0 < base ?s"
      using wf_ranges_page0 [OF ph_ranges(1) [OF r(2)] s(1)] by (simp add: base_def PAGE_SIZE_def)
    have lU: "live_in (L(base ?s \<mapsto> sz)) b = live_in L b" for b
      using fresh sz by (intro live_in_large) auto
    then have "used ca (L(base ?s \<mapsto> sz)) = used ca L" by (simp add: used_def fun_eq_iff)
    moreover have "large_ok (?c\<lparr>c_ph := ?p\<rparr>) (L(base ?s \<mapsto> sz))"
    proof -
      have "\<exists>y t. outside (?c\<lparr>c_ph := ?p\<rparr>) y \<and> fmlookup (ph_spans ?p) y = Some t \<and> base t = a \<and> objSize t = RoundUp sz'
          \<and> npages t * PAGE_SIZE = RoundUp sz' \<and> sz' \<le> RoundUp sz'"
        if "(L(base ?s \<mapsto> sz)) a = Some sz'" "MAX_BYTES < sz'" for a sz'
      proof (cases "a = base ?s")
        case True
        then show ?thesis using that out sx s(3) lp(1,4) by (intro exI [of _ x] exI [of _ ?s]) simp
      next
        case False
        then have "L a = Some sz'" using that(1) by simp
        then obtain y t where "outside ?c y" "fmlookup (c_spans ?c) y = Some t" "base t = a" "objSize t = RoundUp sz'"
          "npages t * PAGE_SIZE = RoundUp sz'" "sz' \<le> RoundUp sz'"
          using \<open>MAX_BYTES < sz'\<close> by (rule large_okD [OF lg])
        then show ?thesis using out lk by (intro exI [of _ y] exI [of _ t]) simp
      qed
      moreover have "\<exists>sz' t. fmlookup (ph_spans ?p) y = Some t \<and> (L(base ?s \<mapsto> sz)) (base t) = Some sz' \<and> MAX_BYTES < sz'"
        if "outside (?c\<lparr>c_ph := ?p\<rparr>) y" for y
      proof (cases "y = x")
        case True
        then show ?thesis using sx sz by auto
      next
        case False
        then have o: "outside ?c y" using that out by simp
        obtain t sz' where "fmlookup (c_spans ?c) y = Some t" "L (base t) = Some sz'" "MAX_BYTES < sz'"
          by (rule large_ok_span [OF lg o])
        then show ?thesis using lk [OF o] fresh by (intro exI [of _ sz'] exI [of _ t]) auto
      qed
      ultimately show ?thesis by (simp add: large_ok_def)
    qed
    moreover have "set (ca t b) \<inter> dom (L(base ?s \<mapsto> sz)) = {}" for t b
    proof -
      have "base ?s \<notin> set (ca t b)"
      proof
        assume "base ?s \<in> set (ca t b)"
        then have "base ?s \<in> heads ?c" using used_heads [OF cinv] alloc_used(1) [OF inv] by blast
        then have "base ?s \<in> heads (?c\<lparr>c_ph := ?p\<rparr>)" using fr(3) by (simp add: heads_def)
        moreover have "drop_bit PAGE_SHIFT (base ?s) \<in> pages ?s" using s(3) lp(2) by (intro base_page) simp
        ultimately show False using outside_pages [OF fr(1), of x ?s] out sx by simp
      qed
      then show ?thesis using inv by (auto simp: alloc_inv_def)
    qed
    ultimately have "alloc_inv ?st fl ca (L(base ?s \<mapsto> sz))"
      using inv fr(1,2) by (simp add: alloc_inv_def)
    moreover have "kz_malloc mmap ram tid sz st = Some (base ?s, ?st)"
      using r(1) Some s(1) sz bs by (simp add: kz_malloc_def Let_def)
    ultimately show ?thesis using block fresh pos by simp
  qed
qed

end
