(* ===== verification/MallocFree.thy ===== *)
theory MallocFree
  imports MallocInv
begin

text \<open>
  Freeing: the return of a block to the cache of a thread and, when the cache is full, of a batch to
  the central cache (\<open>ThreadCache::Deallocate\<close>, \<open>ThreadCache::ListTooLong\<close>), the release of a large
  block, the end of a thread; and the whole of \<open>malloc\<close>.
\<close>

lemma kz_malloc_ok:
  assumes inv: "alloc_inv st fl ca L" and mm: "mmap_ok mmap (ph_heap (c_ph (cc st)))" and sz: "sz < 2 ^ 48"
  obtains (null) st' where "kz_malloc mmap ram tid sz st = Some (0, st')" "alloc_inv st' fl ca L"
      "c_mem (cc st') = c_mem (cc st)" "refused mmap st sz"
  | (block) p st' fl' ca' where "kz_malloc mmap ram tid sz st = Some (p, st')" "p \<noteq> 0" "L p = None"
      "alloc_inv st' fl' ca' (L(p \<mapsto> sz))" "quiet L (c_mem (cc st)) (c_mem (cc st'))"
proof (cases "MAX_BYTES < sz")
  case True
  show thesis
  proof (rule kz_malloc_large [OF inv mm True sz, of ram tid])
    fix st' assume "kz_malloc mmap ram tid sz st = Some (0, st')" "alloc_inv st' fl ca L"
      "c_mem (cc st') = c_mem (cc st)" "refused mmap st sz"
    then show thesis by (rule null)
  next
    fix p st' assume "kz_malloc mmap ram tid sz st = Some (p, st')" "p \<noteq> 0" "L p = None"
      "alloc_inv st' fl ca (L(p \<mapsto> sz))" "c_mem (cc st') = c_mem (cc st)"
    then show thesis using block by (simp add: quiet_def)
  qed
next
  case False
  then have s: "sz \<le> MAX_BYTES" by simp
  have e: "kz_malloc mmap ram tid sz st = Some (p, with_cache st tid tc c)"
    if "ThreadCache_Allocate mmap ram tid sz (GetThreadCache tid st) (cc st) = Some (p, tc, c)" for p tc c
    using that False by (simp add: kz_malloc_def with_cache_def)
  show thesis
  proof (rule Allocate_ok [OF inv mm s, of ram tid])
    fix tc c assume a: "ThreadCache_Allocate mmap ram tid sz (GetThreadCache tid st) (cc st) = Some (0, tc, c)"
      and r: "alloc_inv (with_cache st tid tc c) fl ca L" "c_mem c = c_mem (cc st)"
        "out_of_memory mmap (c_ph (cc st)) (CalculatePageNeed (RoundUp sz))"
    show thesis by (rule null [OF e [OF a] r(1)]) (use r False in \<open>simp_all add: refused_def\<close>)
  next
    fix p tc c fl' ca'
    assume a: "ThreadCache_Allocate mmap ram tid sz (GetThreadCache tid st) (cc st) = Some (p, tc, c)"
      and r: "p \<noteq> 0" "L p = None" "alloc_inv (with_cache st tid tc c) fl' ca' (L(p \<mapsto> sz))"
        "quiet L (c_mem (cc st)) (c_mem c)"
    show thesis by (rule block [OF e [OF a] r(1-3)]) (use r(4) in simp)
  qed
qed

subsection \<open>Which words a free may change\<close>

lemma quiet_freed:
  assumes inv: "alloc_inv st fl ca L"
    and ch: "\<And>a. m' a \<noteq> c_mem (cc st) a \<Longrightarrow> a \<in> heads (cc st) \<and> (L(p := None)) a = None"
  shows "quiet (L(p := None)) (c_mem (cc st)) m'"
proof -
  have "m' a = c_mem (cc st) a" if q: "(L(p := None)) q = Some sz" "a \<in> {q..<q + RoundUp sz}" for q sz a
  proof (rule ccontr)
    assume "m' a \<noteq> c_mem (cc st) a"
    from ch [OF this] have a: "a \<in> heads (cc st)" "(L(p := None)) a = None" by blast+
    have "L q = Some sz" using q(1) by (simp split: if_splits)
    then have "a = q" using live_heads [OF inv _ q(2) a(1)] by blast
    then show False using a(2) q(1) by simp
  qed
  then show ?thesis unfolding quiet_def by blast
qed

lemma used_freed:
  assumes "alloc_inv st fl ca L" "L p = Some sz" "sz \<le> MAX_BYTES"
  shows "used ca (L(p := None)) = (used ca L)(Index sz := used ca L (Index sz) - {p})"
proof -
  have "p \<notin> set (ca t b)" for t b using alloc_used(2) [OF assms(1)] assms(2) by auto
  then show ?thesis using assms(2,3) by (auto simp: fun_eq_iff used_def live_in_old)
qed

subsection \<open>Small blocks\<close>

lemma disjoint_domI: "(\<And>a. a \<in> A \<Longrightarrow> f a = None) \<Longrightarrow> A \<inter> dom f = {}"
  by auto

lemma cache_lists_apart:
  assumes inv: "alloc_inv st fl ca L" and a: "a \<in> set (ca t b')" and n: "(t, b') \<noteq> (tid, b)"
  shows "a \<notin> set (ca tid b)"
proof
  assume b: "a \<in> set (ca tid b)"
  have "central_inv (cc st) fl (used ca L)" and D: "\<And>t t' b. t \<noteq> t' \<Longrightarrow> set (ca t b) \<inter> set (ca t' b) = {}"
    using inv by (simp_all add: alloc_inv_def)
  then have "b' = b" using used_unique alloc_used(1) [OF inv a] alloc_used(1) [OF inv b] by blast
  then show False using D [of t tid b] a b n by blast
qed

lemma Deallocate_ok:
  assumes inv: "alloc_inv st fl ca L" and p: "L p = Some sz0" "sz0 \<le> MAX_BYTES" and sz: "Index sz = Index sz0"
  obtains tc c fl' ca' where "ThreadCache_Deallocate ram p sz (GetThreadCache tid st) (cc st) = Some (tc, c)"
    "alloc_inv (with_cache st tid tc c) fl' ca' (L(p := None))" "quiet (L(p := None)) (c_mem (cc st)) (c_mem c)"
proof -
  let ?b = "Index sz" and ?tc = "GetThreadCache tid st" and ?m = "c_mem (cc st)" and ?L = "L(p := None)"
  have cinv: "central_inv (cc st) fl (used ca L)" and bz: "busy (cc st)" and C: "caches_ok ?m (caches st) ca"
    and lg: "large_ok (cc st) L" and D: "\<And>t t' b. t \<noteq> t' \<Longrightarrow> set (ca t b) \<inter> set (ca t' b) = {}"
    using inv by (simp_all add: alloc_inv_def)
  have b: "?b < MAX_NFREELISTS" using Index_less [OF p(2)] sz by simp
  have tc: "thread_ok ?m ?tc (ca tid)" by (rule GetThreadCache_ok [OF C])
  note lst = thread_ok_list [OF tc b]
  let ?xs = "ca tid ?b"
  have fo: "fl_ok ?m (?tc ?b) ?xs" and lim: "length ?xs < fl_maxSize (?tc ?b) + fl_maxNum (?tc ?b)"
    and bn: "1 \<le> fl_maxSize (?tc ?b)" "fl_maxSize (?tc ?b) \<le> fl_maxNum (?tc ?b)" "2 \<le> fl_maxNum (?tc ?b)"
      "fl_maxNum (?tc ?b) \<le> 32768" "fl_maxNum (?tc ?b) = NumMoveSize ?b"
    using lst NumMoveSize_bounds [OF b] by (simp_all add: cache_ok_def)
  have pU: "p \<in> used ca L ?b" using alloc_used(3) [OF inv p] sz by simp
  have pc: "p \<notin> set (ca t b')" for t b' using alloc_used(2) [OF inv] p(1) by auto
  have p0: "p \<noteq> 0" using used_nonzero [OF cinv pU] .
  obtain l m where pu: "Push p (?tc ?b) ?m = (l, m)" by fastforce
  have len: "length ?xs < 2 ^ 50 - 1" using lim bn by simp
  note pk = Push_ok [OF fo pc p0 pu len]
  let ?c = "(cc st)\<lparr>c_mem := m\<rparr>"
  have ci: "central_inv ?c fl (used ca L)" unfolding pk(2) by (rule central_write [OF cinv pU])
  have lg': "large_ok ?c ?L"
    by (rule large_ok_small [OF large_ok_outside [OF lg]]) (use p in auto)
  have other: "a \<notin> insert p (set ?xs)" if "a \<in> set (ca t b')" "(t, b') \<noteq> (tid, ?b)" for t b' a
    using cache_lists_apart [OF inv that] that(1) pc by blast
  have Lc: "?L a = None" if "a \<in> set (ca t b')" for t b' a using alloc_used(2) [OF inv that] by simp
  have pL: "?L a = None" if "a \<in> insert p (set ?xs)" for a using that Lc [of a tid ?b] by auto
  have own: "insert p (set ?xs) \<inter> others ca tid ?b = {}" using D pc unfolding others_def by blast
  have w: "wadd (fl_maxSize l) (fl_maxNum l) = fl_maxSize l + fl_maxNum l"
    using pk(3,4) bn by (intro wadd_small) (simp add: W64_def)
  have len': "fl_size l = Suc (length ?xs)" using pk(1) by (simp add: fl_ok_def)
  show thesis
  proof (cases "fl_size l \<ge> wadd (fl_maxSize l) (fl_maxNum l)")
    case False
    let ?ca = "ca(tid := (ca tid)(?b := p # ?xs))"
    have U: "used ca L = used ?ca ?L"
      using p sz by (auto simp: fun_eq_iff used_upd live_in_old used_split [of ca _ _ tid] live_in_def)
    have "alloc_inv (with_cache st tid (?tc(?b := l)) ?c) fl ?ca ?L"
    proof (rule alloc_inv_step [OF inv tc b ci _ lg' U])
      show "busy ?c" using bz by (simp add: busy_def)
      show "cache_ok (c_mem ?c) l ?b (p # ?xs)" using pk bn False w len' by (simp add: cache_ok_def)
      show "c_mem ?c a = ?m a" if "a \<in> set (ca t b')" for t b' a using pk(2) pc [of t b'] that by auto
      show "set (p # ?xs) \<inter> others ca tid ?b = {}" using own by simp
      show "set (p # ?xs) \<inter> dom ?L = {}" by (rule disjoint_domI) (rule pL, simp)
    qed (rule Lc)
    moreover have "quiet ?L ?m m"
      by (rule quiet_freed [OF inv]) (use pk(2) used_heads [OF cinv pU] in \<open>auto split: if_splits\<close>)
    moreover have "ThreadCache_Deallocate ram p sz ?tc (cc st) = Some (?tc(?b := l), ?c)"
      using pu False by (simp add: ThreadCache_Deallocate_def Let_def)
    ultimately show thesis using that by simp
  next
    case True
    define k where "k = fl_maxNum l"
    define ys where "ys = take k (p # ?xs)"
    define zs where "zs = drop k (p # ?xs)"
    have k: "0 < k" "k \<le> Suc (length ?xs)" "Suc (length ?xs) \<le> fl_maxSize l + k" "k \<le> 32768"
      using True w len' bn lim pk(3,4) by (simp_all add: k_def)
    have ysz: "p # ?xs = ys @ zs" "ys \<noteq> []" "k = length ys" "length zs \<le> fl_maxSize l"
      using k by (auto simp: ys_def zs_def)
    have d: "distinct (ys @ zs)" using pk(1) linked_distinct unfolding ysz(1) fl_ok_def by blast
    have sub: "set ys \<union> set zs = insert p (set ?xs)" using ysz(1) by (metis set_append list.simps(15))
    obtain start finish l2 m2 where pr: "PopRange k l m = (start, finish, l2, m2)" by (metis prod_cases4)
    note po = PopRange_ok [OF pk(1) [unfolded ysz(1)] ysz(2,3) pr]
    let ?c2 = "(cc st)\<lparr>c_mem := m2\<rparr>"
    have xsU: "set ?xs \<subseteq> used ca L ?b" using alloc_used(1) [OF inv] by blast
    have ysx: "set ys \<subseteq> insert p (set ?xs)" and zsx: "set zs \<subseteq> insert p (set ?xs)"
      unfolding sub [symmetric] by simp_all
    have "insert p (set ?xs) \<subseteq> used ca L ?b" using pU xsU by (rule insert_subsetI)
    with ysx have ysU: "set ys \<subseteq> used ca L ?b" by (rule subset_trans)
    have lU: "last ys \<in> used ca L ?b" using last_in_set [OF ysz(2)] ysU by blast
    have ci2: "central_inv ?c2 fl (used ca L)"
      using central_write [OF ci lU, of 0] po(4) by simp
    have "busy ?c2" using bz by (simp add: busy_def)
    then obtain c3 fl3 where r: "ReleaseListToSpans ram start sz ?c2 = Some c3"
      and i3: "central_inv c3 fl3 ((used ca L)(?b := used ca L ?b - set ys))" "busy c3" "same_outside ?c2 c3"
      and m3: "\<And>a. a \<notin> set ys \<Longrightarrow> c_mem c3 a = c_mem ?c2 a"
      using ReleaseListToSpans_ok [OF ci2, of start ys sz ram] po(1) ysU by auto
    have m3': "c_mem c3 a = ?m a" if "a \<notin> insert p (set ys)" for a
      using m3 [of a] that last_in_set [OF ysz(2)] po(4) pk(2) by auto
    let ?ca = "ca(tid := (ca tid)(?b := zs))"
    have ots: "others ca tid ?b \<inter> set ys = {}" using own ysx by blast
    have lvs: "live_in L ?b \<inter> set ys \<subseteq> {p}" using ysx alloc_used(2) [OF inv] unfolding live_in_def by force
    have pin: "p \<in> set ys" using ysz by (cases ys) auto
    have U: "(used ca L)(?b := used ca L ?b - set ys) = used ?ca ?L"
    proof
      fix b'
      show "((used ca L)(?b := used ca L ?b - set ys)) b' = used ?ca ?L b'"
      proof (cases "b' = ?b")
        case True
        have "used ca L ?b - set ys = others ca tid ?b \<union> set zs \<union> (live_in L ?b - {p})"
          using ots lvs pin sub d by (auto simp: used_split [of ca L ?b tid])
        then show ?thesis using True p sz by (simp add: used_upd live_in_old)
      next
        case False
        then show ?thesis using p sz by (simp add: used_upd used_split [of ca _ _ tid] live_in_old)
      qed
    qed
    have "alloc_inv (with_cache st tid (?tc(?b := l2)) c3) fl3 ?ca ?L"
    proof (rule alloc_inv_step [OF inv tc b i3(1,2) _ U])
      have "large_ok c3 L" by (rule large_ok_outside [OF large_ok_outside [OF lg] i3(3)]) simp
      then show "large_ok c3 ?L" using p by (intro large_ok_small) auto
      have "a \<notin> set ys" if "a \<in> set zs" for a using d that by auto
      then have "fl_ok (c_mem c3) l2 zs" using m3 by (intro fl_ok_cong [OF _ po(3)]) simp
      then show "cache_ok (c_mem c3) l2 ?b zs"
        using po(5,6) pk(3,4) bn ysz(4) k by (simp add: cache_ok_def)
      show "c_mem c3 a = ?m a" if "a \<in> set (ca t b')" "(t, b') \<noteq> (tid, ?b)" for t b' a
        using m3' other [OF that] ysx by blast
      show "set zs \<inter> others ca tid ?b = {}" using own zsx by blast
      show "set zs \<inter> dom ?L = {}" by (rule disjoint_domI) (rule pL, use zsx in blast)
    qed (rule Lc)
    moreover have "quiet ?L ?m (c_mem c3)"
    proof (rule quiet_freed [OF inv])
      fix a assume "c_mem c3 a \<noteq> ?m a"
      then have "a \<in> insert p (set ys)" using m3' by blast
      then have ax: "a \<in> insert p (set ?xs)" using ysx by blast
      then have "a \<in> used ca L ?b" using pU xsU by blast
      then show "a \<in> heads (cc st) \<and> ?L a = None" using used_heads [OF cinv] pL [OF ax] by blast
    qed
    moreover have "ThreadCache_Deallocate ram p sz ?tc (cc st) = Some (?tc(?b := l2), c3)"
      using pu True pr r by (simp add: ThreadCache_Deallocate_def ListTooLong_def Let_def k_def)
    ultimately show thesis using that by simp
  qed
qed

text \<open>A step that leaves every cache alone.\<close>

lemma alloc_inv_central:
  assumes inv: "alloc_inv st fl ca L" and c: "central_inv c fl' (used ca L')" "busy c" "large_ok c L'"
    and mem: "\<And>t b a. a \<in> set (ca t b) \<Longrightarrow> c_mem c a = c_mem (cc st) a"
    and L': "\<And>t b a. a \<in> set (ca t b) \<Longrightarrow> L' a = None"
  shows "alloc_inv (st\<lparr>cc := c\<rparr>) fl' ca L'"
proof -
  have C: "caches_ok (c_mem (cc st)) (caches st) ca" using inv by (simp add: alloc_inv_def)
  have some: "thread_ok (c_mem c) tc (ca t)" if "caches st t = Some tc" for t tc
  proof -
    have "thread_ok (c_mem (cc st)) tc (ca t)" using C that by (auto simp: caches_ok_def dest!: spec [of _ t])
    then show ?thesis by (rule thread_ok_cong [rotated]) (rule mem)
  qed
  have none: "ca t = (\<lambda>_. [])" if "caches st t = None" for t
    using C [unfolded caches_ok_def, rule_format, of t] unfolding that option.case .
  have "case caches st t of None \<Rightarrow> ca t = (\<lambda>_. []) | Some tc \<Rightarrow> thread_ok (c_mem c) tc (ca t)" for t
  proof (cases "caches st t")
    case None
    show ?thesis unfolding None option.case by (rule none [OF None])
  next
    case (Some tc)
    show ?thesis unfolding Some option.case by (rule some [OF Some])
  qed
  then have "caches_ok (c_mem c) (caches st) ca" unfolding caches_ok_def by blast
  moreover have "set (ca t b) \<inter> dom L' = {}" for t b by (rule disjoint_domI) (rule L')
  ultimately show ?thesis using inv c by (simp add: alloc_inv_def)
qed

subsection \<open>The span of a live block\<close>

lemma live_span:
  assumes inv: "alloc_inv st fl ca L" and p: "L p = Some sz"
  obtains x s where "page_span p st = Some x" "fmlookup (c_spans (cc st)) x = Some s" "objSize s = RoundUp sz" "sz \<le> RoundUp sz"
    "MAX_BYTES < sz \<longrightarrow> outside (cc st) x \<and> base s = p"
proof -
  have cinv: "central_inv (cc st) fl (used ca L)" using inv by (simp add: alloc_inv_def)
  obtain x s where x: "fmlookup (c_spans (cc st)) x = Some s" "isUse s" "base s \<le> p"
    "p + RoundUp sz \<le> base s + npages s * PAGE_SIZE" "sz \<le> RoundUp sz" "0 < RoundUp sz" "objSize s = RoundUp sz"
    "MAX_BYTES < sz \<longrightarrow> outside (cc st) x \<and> base s = p"
    by (rule live_block [OF inv p]) (rule that)
  have "drop_bit PAGE_SHIFT p \<in> pages s" using x(3,4,6) by (intro range_page) simp_all
  then have "page_span p st = Some x"
    using page_lookup(1) [OF central_ph [OF cinv] x(1,2)] by (simp add: page_span_def)
  then show thesis using that x by blast
qed

lemma live_nonzero:
  assumes inv: "alloc_inv st fl ca L" and p: "L p = Some sz"
  shows "p \<noteq> 0"
proof -
  have cinv: "central_inv (cc st) fl (used ca L)" using inv by (simp add: alloc_inv_def)
  obtain x s where x: "fmlookup (c_spans (cc st)) x = Some s" "base s \<le> p"
    by (rule live_block [OF inv p]) (rule that)
  then show ?thesis
    using wf_ranges_page0 [OF ph_ranges(1) [OF central_ph [OF cinv]] x(1)] by (simp add: base_def PAGE_SIZE_def)
qed

lemma large_freed:
  assumes inv: "alloc_inv st fl ca L" and p: "L p = Some sz" "MAX_BYTES < sz"
  obtains st' where "release_large_block ram (page_span p st) st = Some st'" "alloc_inv st' fl ca (L(p := None))"
    "c_mem (cc st') = c_mem (cc st)"
proof -
  let ?c = "cc st"
  have cinv: "central_inv ?c fl (used ca L)" and bz: "busy ?c" and lg: "large_ok ?c L"
    using inv by (simp_all add: alloc_inv_def)
  obtain x s where x: "page_span p st = Some x" "fmlookup (c_spans ?c) x = Some s" "outside ?c x" "base s = p"
    by (rule live_span [OF inv p(1)]) (use p(2) in blast)
  obtain h where h: "PageHeap_ReleaseSpan ram (Some x) (c_ph ?c) = Some h" "central_inv (?c\<lparr>c_ph := h\<rparr>) fl (used ca L)"
      "busy (?c\<lparr>c_ph := h\<rparr>)" "\<And>y. outside (?c\<lparr>c_ph := h\<rparr>) y \<longleftrightarrow> outside ?c y \<and> y \<noteq> x"
      "\<And>y. outside ?c y \<Longrightarrow> y \<noteq> x \<Longrightarrow> fmlookup (ph_spans h) y = fmlookup (c_spans ?c) y"
    by (rule central_release [OF cinv x(3), of ram]) (use bz in blast)
  have "used ca (L(p := None)) = used ca L"
    using p by (simp add: used_def live_in_large fun_eq_iff)
  moreover have "large_ok (?c\<lparr>c_ph := h\<rparr>) (L(p := None))"
  proof -
    have "\<exists>y t. outside (?c\<lparr>c_ph := h\<rparr>) y \<and> fmlookup (ph_spans h) y = Some t \<and> base t = a \<and> objSize t = RoundUp sz'
        \<and> npages t * PAGE_SIZE = RoundUp sz' \<and> sz' \<le> RoundUp sz'"
      if a: "(L(p := None)) a = Some sz'" "MAX_BYTES < sz'" for a sz'
    proof -
      have "L a = Some sz'" and "a \<noteq> p" using a(1) by (simp_all split: if_splits)
      obtain y t where y: "outside ?c y" "fmlookup (c_spans ?c) y = Some t" "base t = a" "objSize t = RoundUp sz'"
          "npages t * PAGE_SIZE = RoundUp sz'" "sz' \<le> RoundUp sz'"
        by (rule large_okD [OF lg \<open>L a = Some sz'\<close> a(2)])
      have "y \<noteq> x" using y(2,3) x(2,4) \<open>a \<noteq> p\<close> by auto
      then show ?thesis using y h(4,5) by auto
    qed
    moreover have "\<exists>sz' t. fmlookup (ph_spans h) y = Some t \<and> (L(p := None)) (base t) = Some sz' \<and> MAX_BYTES < sz'"
      if "outside (?c\<lparr>c_ph := h\<rparr>) y" for y
    proof -
      have o: "outside ?c y" "y \<noteq> x" using that h(4) by auto
      obtain t sz' where t: "fmlookup (c_spans ?c) y = Some t" "L (base t) = Some sz'" "MAX_BYTES < sz'"
        by (rule large_ok_span [OF lg o(1)])
      have "base t \<noteq> p"
      proof
        assume "base t = p"
        moreover have "isUse t" "0 < npages t"
          using o(1) t(1) wf_ranges_pos [OF ph_ranges(1) [OF central_ph [OF cinv]] t(1)] by (auto simp: outside_def in_use_def)
        ultimately have "page_span p st = Some y"
          using page_lookup(1) [OF central_ph [OF cinv] t(1) _ base_page] by (simp add: page_span_def)
        then show False using x(1) o(2) by simp
      qed
      then show ?thesis using t h(5) [OF o] by auto
    qed
    ultimately show ?thesis by (simp add: large_ok_def)
  qed
  ultimately have "alloc_inv (st\<lparr>cc := ?c\<lparr>c_ph := h\<rparr>\<rparr>) fl ca (L(p := None))"
    using h(2,3) alloc_used(2) [OF inv] by (intro alloc_inv_central [OF inv]) simp_all
  moreover have "release_large_block ram (page_span p st) st = Some (st\<lparr>cc := ?c\<lparr>c_ph := h\<rparr>\<rparr>)"
    using x(1) h(1) by (simp add: release_large_block_def)
  ultimately show thesis using that by simp
qed

subsection \<open>The interface\<close>

lemma class_size_max: "b < MAX_NFREELISTS \<Longrightarrow> class_size b \<le> MAX_BYTES"
  using strict_mono_less_eq [OF class_size_strict_mono, of b 263] by (simp add: class_size_263 MAX_NFREELISTS_def)

lemma free_small:
  assumes inv: "alloc_inv st fl ca L" and p: "L p = Some sz0" "sz0 \<le> MAX_BYTES" and sz: "Index sz = Index sz0"
  obtains st' fl' ca' where "deallocate_small ram tid p sz st = Some st'" "alloc_inv st' fl' ca' (L(p := None))"
    "quiet (L(p := None)) (c_mem (cc st)) (c_mem (cc st'))"
proof -
  obtain tc c fl' ca' where d: "ThreadCache_Deallocate ram p sz (GetThreadCache tid st) (cc st) = Some (tc, c)"
    "alloc_inv (with_cache st tid tc c) fl' ca' (L(p := None))" "quiet (L(p := None)) (c_mem (cc st)) (c_mem c)"
    by (rule Deallocate_ok [OF inv p sz])
  have "deallocate_small ram tid p sz st = Some (with_cache st tid tc c)"
    using d(1) by (simp add: deallocate_small_def with_cache_def)
  then show thesis by (rule that [OF _ d(2)]) (use d(3) in simp)
qed

lemma kz_free_ok:
  assumes inv: "alloc_inv st fl ca L" and p: "L p = Some sz"
  obtains st' fl' ca' where "kz_free ram tid p st = Some st'" "alloc_inv st' fl' ca' (L(p := None))"
    "quiet (L(p := None)) (c_mem (cc st)) (c_mem (cc st'))"
proof -
  obtain x s where x: "page_span p st = Some x" "fmlookup (c_spans (cc st)) x = Some s" "objSize s = RoundUp sz" "sz \<le> RoundUp sz"
    by (rule live_span [OF inv p])
  note p0 = live_nonzero [OF inv p]
  show thesis
  proof (cases "sz \<le> MAX_BYTES")
    case True
    note b = Index_less [OF True] and r = RoundUp_class [OF True]
    have i: "Index (RoundUp sz) = Index sz" unfolding r by (rule Index_class_size [OF b])
    have "RoundUp sz \<le> MAX_BYTES" unfolding r by (rule class_size_max [OF b])
    then have e: "kz_free ram tid p st = deallocate_small ram tid p (RoundUp sz) st"
      using x p0 by (simp add: kz_free_def)
    show thesis by (rule free_small [OF inv p True i, of ram tid]) (rule that, simp_all add: e)
  next
    case False
    then have e: "kz_free ram tid p st = release_large_block ram (page_span p st) st"
      using x p0 by (simp add: kz_free_def)
    show thesis
      by (rule large_freed [OF inv p, of ram]) (use False e in \<open>auto intro!: that simp: quiet_def\<close>)
  qed
qed

lemma kz_free_sized_ok:
  assumes inv: "alloc_inv st fl ca L" and p: "L p = Some sz0" and sz: "same_class sz sz0"
  obtains st' fl' ca' where "kz_free_sized ram tid p sz st = Some st'" "alloc_inv st' fl' ca' (L(p := None))"
    "quiet (L(p := None)) (c_mem (cc st)) (c_mem (cc st'))"
proof (cases "sz \<le> MAX_BYTES")
  case False
  then have e: "kz_free_sized ram tid p sz st = release_large_block ram (page_span p st) st"
    by (simp add: kz_free_sized_def)
  show thesis
    by (rule large_freed [OF inv p, of ram]) (use False e sz in \<open>auto intro!: that simp: quiet_def same_class_def\<close>)
next
  case True
  then have p': "sz0 \<le> MAX_BYTES" and i: "Index sz = Index sz0" using sz by (simp_all add: same_class_def)
  show thesis
  proof (cases "caches st tid")
    case (Some tc)
    then have e: "kz_free_sized ram tid p sz st = deallocate_small ram tid p sz st"
      using True by (simp add: kz_free_sized_def)
    show thesis by (rule free_small [OF inv p p' i, of ram tid]) (rule that, simp_all add: e)
  next
    case None
    let ?c = "(cc st)\<lparr>c_mem := SetNextObj p 0 (c_mem (cc st))\<rparr>" and ?L = "L(p := None)"
    have cinv: "central_inv (cc st) fl (used ca L)" and bz: "busy (cc st)" and lg: "large_ok (cc st) L"
      using inv by (simp_all add: alloc_inv_def)
    have pU: "p \<in> used ca L (Index sz)" using alloc_used(3) [OF inv p p'] i by simp
    have ci: "central_inv ?c fl (used ca L)" unfolding SetNextObj_def by (rule central_write [OF cinv pU])
    have pc: "p \<notin> set (ca t b)" for t b using alloc_used(2) [OF inv] p by auto
    have "busy ?c" using bz by (simp add: busy_def)
    moreover have "linked (c_mem ?c) p [p]" using live_nonzero [OF inv p] by (simp add: SetNextObj_def)
    ultimately obtain c' fl' where r: "ReleaseListToSpans ram p sz ?c = Some c'"
      and i': "central_inv c' fl' ((used ca L)(Index sz := used ca L (Index sz) - set [p]))" "busy c'" "same_outside ?c c'"
      and m: "\<And>a. a \<notin> set [p] \<Longrightarrow> c_mem c' a = c_mem ?c a"
      by (rule ReleaseListToSpans_ok [OF ci]) (use pU in \<open>auto intro: that\<close>)
    have m': "c_mem c' a = c_mem (cc st) a" if "a \<noteq> p" for a using m [of a] that by (simp add: SetNextObj_def)
    have "alloc_inv (st\<lparr>cc := c'\<rparr>) fl' ca ?L"
    proof (rule alloc_inv_central [OF inv])
      show "central_inv c' fl' (used ca ?L)" using i'(1) used_freed [OF inv p p'] i by simp
      show "busy c'" by (rule i')
      have "large_ok c' L" by (rule large_ok_outside [OF large_ok_outside [OF lg] i'(3)]) simp
      then show "large_ok c' ?L" using p p' by (intro large_ok_small) auto
      show "c_mem c' a = c_mem (cc st) a" if "a \<in> set (ca t b)" for t b a using m' [of a] pc that by metis
      show "?L a = None" if "a \<in> set (ca t b)" for t b a using alloc_used(2) [OF inv that] by simp
    qed
    moreover have "quiet ?L (c_mem (cc st)) (c_mem c')"
      by (rule quiet_freed [OF inv]) (use m' used_heads [OF cinv pU] in auto)
    moreover have "kz_free_sized ram tid p sz st = Some (st\<lparr>cc := c'\<rparr>)"
      using True None r by (simp add: kz_free_sized_def)
    ultimately show thesis using that by simp
  qed
qed

end
