(* ===== verification/AllocRun.thy ===== *)
theory AllocRun
  imports MallocFree
begin

text \<open>
  Runs of the allocator: the end of a thread, writes of the program into its blocks, and the states
  reachable by any sequence of calls from any number of threads, each call running to its end.
\<close>

subsection \<open>The end of a thread\<close>

definition caches_apart :: "(nat \<Rightarrow> nat \<Rightarrow> nat list) \<Rightarrow> live \<Rightarrow> bool" where
  "caches_apart ca L \<longleftrightarrow> (\<forall>t t' b. t \<noteq> t' \<longrightarrow> set (ca t b) \<inter> set (ca t' b) = {}) \<and> (\<forall>t b a. a \<in> set (ca t b) \<longrightarrow> L a = None)"

lemma alloc_apart: "alloc_inv st fl ca L \<Longrightarrow> caches_apart ca L"
  using alloc_used(2) unfolding caches_apart_def by (simp add: alloc_inv_def)

lemma caches_apart_sub:
  "caches_apart ca L \<Longrightarrow> (\<And>t b. set (ca' t b) \<subseteq> set (ca t b)) \<Longrightarrow> caches_apart ca' L"
  unfolding caches_apart_def by blast

lemma used_return:
  assumes "caches_apart ca L"
  shows "(used ca L)(b := used ca L b - set (ca tid b)) = used (ca(tid := (ca tid)(b := []))) L"
proof
  fix b'
  have "others ca tid b \<inter> set (ca tid b) = {}" "live_in L b \<inter> set (ca tid b) = {}"
    using assms unfolding caches_apart_def others_def live_in_def by auto
  then show "((used ca L)(b := used ca L b - set (ca tid b))) b' = used (ca(tid := (ca tid)(b := []))) L b'"
    by (auto simp: used_upd used_split [of ca _ _ tid])
qed

lemma Size_class: "b < MAX_NFREELISTS \<Longrightarrow> Index (Size b) = b"
  by (simp add: Size_def class_to_size_nth Index_class_size)

lemma destroy_ok:
  assumes "distinct is" "set is \<subseteq> {..<MAX_NFREELISTS}" "central_inv c fl (used ca L)" "busy c" "caches_apart ca L"
    "\<And>b. b \<in> set is \<Longrightarrow> fl_ok (c_mem c) (tc b) (ca tid b)"
  shows "\<exists>c' fl'. ThreadCache_destroy ram is tc c = Some c'
    \<and> central_inv c' fl' (used (ca(tid := (\<lambda>b. if b \<in> set is then [] else ca tid b))) L) \<and> busy c' \<and> same_outside c c'
    \<and> (\<forall>a. (\<forall>b. a \<notin> set (ca tid b)) \<longrightarrow> c_mem c' a = c_mem c a)"
  using assms
proof (induction "is" arbitrary: c fl ca)
  case Nil
  then show ?case by auto
next
  case (Cons i js)
  have i: "i < MAX_NFREELISTS" and dj: "distinct js" "i \<notin> set js" "set js \<subseteq> {..<MAX_NFREELISTS}" using Cons.prems(1,2) by auto
  have fi: "fl_ok (c_mem c) (tc i) (ca tid i)" using Cons.prems(6) by simp
  have emp: "Empty (tc i) \<longleftrightarrow> ca tid i = []" by (rule fl_ok_Empty [OF fi])
  show ?case
  proof (cases "ca tid i")
    case Nil
    have "(\<lambda>b. if b \<in> set (i # js) then [] else ca tid b) = (\<lambda>b. if b \<in> set js then [] else ca tid b)"
      using Nil by auto
    then show ?thesis using Cons.IH [OF dj(1,3) Cons.prems(3-5)] Cons.prems(6) Nil emp by simp
  next
    case (Cons y ys)
    let ?xs = "ca tid i" and ?ca = "ca(tid := (ca tid)(i := []))"
    have ne: "?xs \<noteq> []" using Cons by simp
    obtain start finish l m where pr: "PopRange (fl_size (tc i)) (tc i) (c_mem c) = (start, finish, l, m)" by (metis prod_cases4)
    have sz: "fl_size (tc i) = length ?xs" using fi by (simp add: fl_ok_def)
    note po = PopRange_ok [OF _ ne sz pr, of "[]"]
    have m: "m = (c_mem c)(last ?xs := 0)" "linked m start ?xs" using po(1,4) fi by simp_all
    have xsU: "set ?xs \<subseteq> used ca L i" by (auto simp: used_def)
    have "last ?xs \<in> used ca L i" using last_in_set [OF ne] xsU by blast
    from central_write [OF Cons.prems(3) this] have ci: "central_inv (c\<lparr>c_mem := m\<rparr>) fl (used ca L)" using m(1) by simp
    have "busy (c\<lparr>c_mem := m\<rparr>)" using Cons.prems(4) by (simp add: busy_def)
    then obtain c1 fl1 where r: "ReleaseListToSpans ram start (Size i) (c\<lparr>c_mem := m\<rparr>) = Some c1"
      and i1: "central_inv c1 fl1 (used ?ca L)" "busy c1" "same_outside (c\<lparr>c_mem := m\<rparr>) c1"
      and m1: "\<And>a. a \<notin> set ?xs \<Longrightarrow> c_mem c1 a = m a"
      using ReleaseListToSpans_ok [OF ci, of start ?xs "Size i" ram] m(2) xsU
      unfolding Size_class [OF i] used_return [OF Cons.prems(5)] by auto
    have m1': "c_mem c1 a = c_mem c a" if "a \<notin> set ?xs" for a
      using m1 [OF that] that last_in_set [OF ne] m(1) by auto
    have ap: "caches_apart ?ca L" by (rule caches_apart_sub [OF Cons.prems(5)]) auto
    have "fl_ok (c_mem c1) (tc b) (?ca tid b)" if b: "b \<in> set js" for b
    proof -
      have "b \<noteq> i" using b dj(2) by auto
      moreover have "a \<notin> set ?xs" if "a \<in> set (ca tid b)" for a
        using used_unique [OF Cons.prems(3), of a b i] that xsU \<open>b \<noteq> i\<close> by (auto simp: used_def)
      ultimately show ?thesis using fl_ok_cong [OF m1' Cons.prems(6) [of b]] b by simp
    qed
    then obtain c' fl' where c': "ThreadCache_destroy ram js tc c1 = Some c'"
      "central_inv c' fl' (used (?ca(tid := (\<lambda>b. if b \<in> set js then [] else ?ca tid b))) L)" "busy c'" "same_outside c1 c'"
      "\<And>a. (\<forall>b. a \<notin> set (?ca tid b)) \<Longrightarrow> c_mem c' a = c_mem c1 a"
      using Cons.IH [OF dj(1,3) i1(1,2) ap] by blast
    have e: "?ca(tid := (\<lambda>b. if b \<in> set js then [] else ?ca tid b)) = ca(tid := (\<lambda>b. if b \<in> set (i # js) then [] else ca tid b))"
      by (auto simp: fun_eq_iff)
    have "same_outside c c1" using i1(3) same_outside_trans [OF same_outside_mem] by blast
    then have "same_outside c c'" using c'(4) same_outside_trans by blast
    moreover have "c_mem c' a = c_mem c a" if "\<forall>b. a \<notin> set (ca tid b)" for a
    proof -
      have "\<forall>b. a \<notin> set (?ca tid b)" using that by simp
      then show ?thesis using c'(5) m1' that by simp
    qed
    moreover have "ThreadCache_destroy ram (i # js) tc c = Some c'" using emp ne pr r c'(1) by simp
    ultimately show ?thesis using c'(2,3) unfolding e by blast
  qed
qed

lemma thread_exit_ok:
  assumes inv: "alloc_inv st fl ca L"
  obtains st' fl' where "thread_exit ram tid st = Some st'" "alloc_inv st' fl' (ca(tid := (\<lambda>_. []))) L"
    "caches st' = (caches st)(tid := None)" "quiet L (c_mem (cc st)) (c_mem (cc st'))"
proof (cases "caches st tid")
  case None
  have "ca tid = (\<lambda>_. [])" using inv unfolding alloc_inv_def caches_ok_def
    by (auto dest!: spec [of _ tid] simp: None split: option.splits)
  then have "ca(tid := (\<lambda>_. [])) = ca" by (metis fun_upd_triv)
  moreover have "(caches st)(tid := None) = caches st" using None by (metis fun_upd_triv)
  ultimately show thesis using that [of st fl] inv None by (simp add: thread_exit_def quiet_def)
next
  case (Some tc)
  let ?ca = "ca(tid := (\<lambda>_. []))"
  have cinv: "central_inv (cc st) fl (used ca L)" and bz: "busy (cc st)" and lg: "large_ok (cc st) L"
    and C: "caches_ok (c_mem (cc st)) (caches st) ca"
    using inv by (simp_all add: alloc_inv_def)
  have t: "thread_ok (c_mem (cc st)) tc (ca tid)" using GetThreadCache_ok [OF C, of tid] Some by (simp add: GetThreadCache_def)
  have fo: "fl_ok (c_mem (cc st)) (tc b) (ca tid b)" if "b \<in> set [0..<MAX_NFREELISTS]" for b
    using thread_ok_list [OF t, of b] that by (simp add: cache_ok_def)
  have big: "ca tid b = []" if "b \<notin> set [0..<MAX_NFREELISTS]" for b using alloc_used(4) [OF inv] that by simp
  then have e: "(\<lambda>b. if b \<in> set [0..<MAX_NFREELISTS] then [] else ca tid b) = (\<lambda>_. [])"
    by (intro ext) (metis)
  have "distinct [0..<MAX_NFREELISTS]" "set [0..<MAX_NFREELISTS] \<subseteq> {..<MAX_NFREELISTS}" by auto
  from destroy_ok [OF this cinv bz alloc_apart [OF inv] fo, of ram, unfolded e]
  obtain c fl' where c: "ThreadCache_destroy ram [0..<MAX_NFREELISTS] tc (cc st) = Some c"
    "central_inv c fl' (used ?ca L)" "busy c" "same_outside (cc st) c"
    and m: "\<And>a. (\<forall>b. a \<notin> set (ca tid b)) \<Longrightarrow> c_mem c a = c_mem (cc st) a" by blast
  have ap: "caches_apart ?ca L" by (rule caches_apart_sub [OF alloc_apart [OF inv]]) simp
  have mo: "c_mem c a = c_mem (cc st) a" if "t \<noteq> tid" "a \<in> set (ca t b)" for t b a
    using cache_lists_apart [OF inv that(2)] that(1) by (intro m) blast
  have "caches_ok (c_mem c) ((caches st)(tid := None)) ?ca"
  proof -
    have "case ((caches st)(tid := None)) t of None \<Rightarrow> ?ca t = (\<lambda>_. []) | Some tc \<Rightarrow> thread_ok (c_mem c) tc (?ca t)" for t
    proof (cases "t = tid")
      case False
      have k: "thread_ok (c_mem (cc st)) tc' (ca t) \<Longrightarrow> thread_ok (c_mem c) tc' (ca t)" for tc'
        by (rule thread_ok_cong) (rule mo [OF False])
      show ?thesis using C [unfolded caches_ok_def, rule_format, of t] k False by (cases "caches st t") simp_all
    qed simp
    then show ?thesis unfolding caches_ok_def by blast
  qed
  moreover have "large_ok c L" by (rule large_ok_outside [OF lg c(4)])
  moreover have "set (?ca t b) \<inter> dom L = {}" for t b by (rule disjoint_domI) (use ap in \<open>auto simp: caches_apart_def\<close>)
  ultimately have "alloc_inv (st\<lparr>cc := c, caches := (caches st)(tid := None)\<rparr>) fl' ?ca L"
    using c(2,3) ap unfolding alloc_inv_def caches_apart_def by simp
  moreover have "c_mem c a = c_mem (cc st) a" if q: "L q = Some sz" "a \<in> {q..<q + RoundUp sz}" for q sz a
  proof (rule m, rule ccontr)
    assume "\<not> (\<forall>b. a \<notin> set (ca tid b))"
    then obtain b where b: "a \<in> set (ca tid b)" by blast
    have "a = q" using live_heads [OF inv q used_heads [OF cinv alloc_used(1) [OF inv b]]] by simp
    then show False using alloc_used(2) [OF inv b] q(1) by simp
  qed
  then have "quiet L (c_mem (cc st)) (c_mem c)" unfolding quiet_def by blast
  moreover have "thread_exit ram tid st = Some (st\<lparr>cc := c, caches := (caches st)(tid := None)\<rparr>)"
    using Some c(1) by (simp add: thread_exit_def)
  ultimately show thesis using that by simp
qed

subsection \<open>The program writes into its blocks\<close>

definition user_write :: "nat \<Rightarrow> nat \<Rightarrow> allocator \<Rightarrow> allocator" where
  "user_write a v st = st\<lparr>cc := (cc st)\<lparr>c_mem := (c_mem (cc st))(a := v)\<rparr>\<rparr>"

lemma user_write_ok:
  assumes inv: "alloc_inv st fl ca L" and q: "L q = Some sz" "a \<in> {q..<q + RoundUp sz}"
  shows "alloc_inv (user_write a v st) fl ca L"
proof -
  let ?c = "(cc st)\<lparr>c_mem := (c_mem (cc st))(a := v)\<rparr>"
  have cinv: "central_inv (cc st) fl (used ca L)" and bz: "busy (cc st)" and lg: "large_ok (cc st) L"
    using inv by (simp_all add: alloc_inv_def)
  have nf: "a \<notin> set (fl x)" if x: "x \<in> set (c_lists (cc st) b)" for b x
  proof
    assume a: "a \<in> set (fl x)"
    obtain s where s: "fmlookup (c_spans (cc st)) x = Some s" "span_ok (c_mem (cc st)) s (fl x) (used ca L b)"
      by (rule central_listed [OF cinv x])
    then have "a \<in> heads (cc st)" using a x by (auto simp: span_ok_def heads_def listed_def)
    then have "a = q" "sz \<le> MAX_BYTES" using live_heads [OF inv q] by blast+
    then have "a \<in> used ca L (Index sz)" using alloc_used(3) [OF inv q(1)] by simp
    then show False using used_not_free [OF cinv _ x] a by blast
  qed
  have nc: "b' \<noteq> a" if "b' \<in> set (ca t b)" for t b b'
  proof
    assume "b' = a"
    then have "a = q" using live_heads [OF inv q] used_heads [OF cinv alloc_used(1) [OF inv that]] by simp
    then show False using alloc_used(2) [OF inv that] q(1) \<open>b' = a\<close> by simp
  qed
  have "alloc_inv (st\<lparr>cc := ?c\<rparr>) fl ca L"
  proof (rule alloc_inv_central [OF inv])
    show "central_inv ?c fl (used ca L)" by (rule central_mem [OF cinv]) (use nf in auto)
    show "busy ?c" using bz by (simp add: busy_def)
    show "large_ok ?c L" by (rule large_ok_outside [OF lg]) simp
    show "c_mem ?c b' = c_mem (cc st) b'" if "b' \<in> set (ca t b)" for t b b' using nc [OF that] by simp
    show "L b' = None" if "b' \<in> set (ca t b)" for t b b' by (rule alloc_used(2) [OF inv that])
  qed
  then show ?thesis by (simp add: user_write_def)
qed

subsection \<open>Runs\<close>

lemma alloc_inv_init:
  assumes "cores \<le> 64"
  shows "alloc_inv (allocator_init cores os_answers) (\<lambda>_. []) (\<lambda>_ _. []) Map.empty"
proof -
  let ?c = "CentralCache_init (PageHeap_init cores os_answers) (\<lambda>_. 0)"
  have sp: "c_spans ?c = fmempty" by (simp add: CentralCache_init_def PageHeap_init_def Let_def)
  have U: "used (\<lambda>_ _. []) Map.empty = (\<lambda>_. {})" by (simp add: fun_eq_iff used_def live_in_def)
  have "central_inv ?c (\<lambda>_. []) (\<lambda>_. {})"
    using ph_inv_init [OF assms] sp by (simp add: central_inv_def CentralCache_init_def use_count_def)
  moreover have "busy ?c" by (simp add: busy_def CentralCache_init_def)
  moreover have "large_ok ?c Map.empty" using sp by (simp add: large_ok_def outside_def in_use_def)
  ultimately show ?thesis by (simp add: alloc_inv_def allocator_init_def U caches_ok_def)
qed

text \<open>
  \<open>alloc_run cores st L\<close>: \<open>st\<close> is reached from the start of the program on \<open>cores\<close> cores by calls of
  any threads, every block freed at most once and with a size of its class, and \<open>L\<close> are the blocks
  that are live.
\<close>

inductive alloc_run :: "nat \<Rightarrow> allocator \<Rightarrow> live \<Rightarrow> bool" for cores where
  run_start: "alloc_run cores (allocator_init cores os_answers) Map.empty"
| run_malloc: "alloc_run cores st L \<Longrightarrow> mmap_ok mmap (ph_heap (c_ph (cc st))) \<Longrightarrow> sz < 2 ^ 48 \<Longrightarrow>
    kz_malloc mmap ram tid sz st = Some (p, st') \<Longrightarrow> alloc_run cores st' (if p = 0 then L else L(p \<mapsto> sz))"
| run_free: "alloc_run cores st L \<Longrightarrow> L p = Some sz \<Longrightarrow> kz_free ram tid p st = Some st' \<Longrightarrow> alloc_run cores st' (L(p := None))"
| run_free_sized: "alloc_run cores st L \<Longrightarrow> L p = Some sz0 \<Longrightarrow> same_class sz sz0 \<Longrightarrow>
    kz_free_sized ram tid p sz st = Some st' \<Longrightarrow> alloc_run cores st' (L(p := None))"
| run_exit: "alloc_run cores st L \<Longrightarrow> thread_exit ram tid st = Some st' \<Longrightarrow> alloc_run cores st' L"
| run_write: "alloc_run cores st L \<Longrightarrow> L q = Some sz \<Longrightarrow> a \<in> {q..<q + RoundUp sz} \<Longrightarrow> alloc_run cores (user_write a v st) L"

lemma alloc_run_inv:
  assumes "alloc_run cores st L" "cores \<le> 64"
  shows "\<exists>fl ca. alloc_inv st fl ca L"
  using assms
proof (induction rule: alloc_run.induct)
  case (run_start os_answers)
  then show ?case using alloc_inv_init by blast
next
  case (run_malloc st L mmap sz ram tid p st')
  then obtain fl ca where inv: "alloc_inv st fl ca L" by blast
  show ?case
    by (rule kz_malloc_ok [OF inv run_malloc(2,3), of ram tid]) (use run_malloc(4) in \<open>auto simp del: fun_upd_apply\<close>)
next
  case (run_free st L p sz ram tid st')
  then obtain fl ca where inv: "alloc_inv st fl ca L" by blast
  show ?case by (rule kz_free_ok [OF inv run_free(2), of ram tid]) (use run_free(3) in \<open>auto simp del: fun_upd_apply\<close>)
next
  case (run_free_sized st L p sz0 sz ram tid st')
  then obtain fl ca where inv: "alloc_inv st fl ca L" by blast
  show ?case by (rule kz_free_sized_ok [OF inv run_free_sized(2,3), of ram tid]) (use run_free_sized(4) in \<open>auto simp del: fun_upd_apply\<close>)
next
  case (run_exit st L ram tid st')
  then obtain fl ca where inv: "alloc_inv st fl ca L" by blast
  show ?case by (rule thread_exit_ok [OF inv, of ram tid]) (use run_exit(2) in \<open>auto simp del: fun_upd_apply\<close>)
next
  case (run_write st L q sz a v)
  then show ?case using user_write_ok by blast
qed

end
