(* ===== verification/AllocProps.thy ===== *)
theory AllocProps
  imports AllocRun
begin

text \<open>
  What the allocator promises to its callers, in every state reachable from the start of the
  program: \<open>malloc\<close>, both \<open>free\<close>s, the separation of live blocks, the return of all memory, and the
  bound on what a thread keeps.
\<close>

lemma run_inv:
  assumes "alloc_run cores st L" "cores \<le> 64"
  obtains fl ca where "alloc_inv st fl ca L"
  using alloc_run_inv [OF assms] by blast

text \<open>Two live blocks share no byte.\<close>

lemma blocks_disjoint:
  assumes inv: "alloc_inv st fl ca L" and p: "L p = Some a" and q: "L q = Some b" and ne: "p \<noteq> q"
  shows "{p..<p + RoundUp a} \<inter> {q..<q + RoundUp b} = {}"
proof (rule ccontr)
  assume "{p..<p + RoundUp a} \<inter> {q..<q + RoundUp b} \<noteq> {}"
  then obtain z where z: "z \<in> {p..<p + RoundUp a}" "z \<in> {q..<q + RoundUp b}" by blast
  have cinv: "central_inv (cc st) fl (used ca L)" using inv by (simp add: alloc_inv_def)
  obtain x s where x: "fmlookup (c_spans (cc st)) x = Some s" "isUse s" "base s \<le> p" "p + RoundUp a \<le> base s + npages s * PAGE_SIZE"
    "objSize s = RoundUp a" "a \<le> MAX_BYTES \<longrightarrow> x \<in> set (c_lists (cc st) (Index a)) \<and> p \<in> set (obj_list s)"
    "MAX_BYTES < a \<longrightarrow> outside (cc st) x \<and> base s = p"
    by (rule live_block [OF inv p])
  obtain y t where y: "fmlookup (c_spans (cc st)) y = Some t" "isUse t" "base t \<le> q" "q + RoundUp b \<le> base t + npages t * PAGE_SIZE"
    "objSize t = RoundUp b" "b \<le> MAX_BYTES \<longrightarrow> y \<in> set (c_lists (cc st) (Index b)) \<and> q \<in> set (obj_list t)"
    "MAX_BYTES < b \<longrightarrow> outside (cc st) y \<and> base t = q"
    by (rule live_block [OF inv q])
  have "drop_bit PAGE_SHIFT z \<in> pages s" "drop_bit PAGE_SHIFT z \<in> pages t"
    using x(3,4) y(3,4) z by (auto intro!: range_page)
  then have "PageMap_get (pmap (ph_heap (c_ph (cc st)))) (drop_bit PAGE_SHIFT z) = Some x"
    "PageMap_get (pmap (ph_heap (c_ph (cc st)))) (drop_bit PAGE_SHIFT z) = Some y"
    by (blast intro: page_lookup(1) [OF central_ph [OF cinv] x(1,2)] page_lookup(1) [OF central_ph [OF cinv] y(1,2)])+
  then have "x = y" by simp
  then have st: "s = t" "RoundUp a = RoundUp b" using x y by simp_all
  have "a \<le> MAX_BYTES \<longleftrightarrow> b \<le> MAX_BYTES" using x(6,7) y(6,7) \<open>x = y\<close> unfolding outside_def by (meson not_le)
  then show False
  proof (cases "a \<le> MAX_BYTES")
    case True
    then have "p \<in> set (obj_list s)" "q \<in> set (obj_list s)" using x(6) y(6) \<open>a \<le> MAX_BYTES \<longleftrightarrow> b \<le> MAX_BYTES\<close> st by simp_all
    then show False using obj_spacing [of p s q] obj_spacing [of q s p] ne z x(5) st(2) by (cases "p < q") auto
  next
    case False
    then show False using x(7) y(7) \<open>a \<le> MAX_BYTES \<longleftrightarrow> b \<le> MAX_BYTES\<close> st(1) ne by simp
  qed
qed

lemma GetAllocatedSize_live:
  assumes "alloc_inv st fl ca L" "L p = Some sz"
  shows "GetAllocatedSize p st = Some (RoundUp sz)" "sz \<le> RoundUp sz" "p \<noteq> 0"
  by (rule live_span [OF assms], simp add: GetAllocatedSize_def) (rule live_span [OF assms], simp, rule live_nonzero [OF assms])

lemma live_aligned:
  assumes inv: "alloc_inv st fl ca L" and p: "L p = Some sz"
  shows "8 dvd p" "p + RoundUp sz \<le> 2 ^ 49"
proof -
  have cinv: "central_inv (cc st) fl (used ca L)" using inv by (simp add: alloc_inv_def)
  obtain x s where x: "fmlookup (c_spans (cc st)) x = Some s" "p + RoundUp sz \<le> base s + npages s * PAGE_SIZE"
    "objSize s = RoundUp sz" "sz \<le> MAX_BYTES \<longrightarrow> x \<in> set (c_lists (cc st) (Index sz)) \<and> p \<in> set (obj_list s)"
    "MAX_BYTES < sz \<longrightarrow> outside (cc st) x \<and> base s = p"
    by (rule live_block [OF inv p]) (rule that)
  have b: "8 dvd base s" by (simp add: base_def PAGE_SIZE_def)
  show "8 dvd p"
  proof (cases "sz \<le> MAX_BYTES")
    case True
    then obtain j where "p = base s + j * objSize s" using x(4) by (auto simp: obj_list_def)
    then show ?thesis using b x(3) class_size_multiple_8 [of "Index sz"] by (simp add: RoundUp_class [OF True])
  next
    case False
    then show ?thesis using x(5) b by auto
  qed
  have "(pageId s + npages s) * PAGE_SIZE \<le> 2 ^ 35 * PAGE_SIZE"
    by (intro mult_le_mono1 wf_ranges_bound [OF ph_ranges(1) [OF central_ph [OF cinv]] x(1)])
  then show "p + RoundUp sz \<le> 2 ^ 49" using x(2) by (simp add: base_def PAGE_SIZE_def algebra_simps)
qed

text \<open>A call of one thread leaves the caches of the others alone.\<close>

lemma caches_frame:
  "kz_malloc mmap ram tid sz st = Some (p, st') \<Longrightarrow> t \<noteq> tid \<Longrightarrow> caches st' t = caches st t"
  "kz_free ram tid p st = Some st' \<Longrightarrow> t \<noteq> tid \<Longrightarrow> caches st' t = caches st t"
  by (auto simp: kz_malloc_def kz_free_def release_large_block_def deallocate_small_def Let_def
      split: if_splits option.splits prod.splits)

subsection \<open>A sample run\<close>

abbreviation "sample_start \<equiv> allocator_init 4 []"

lemma sample_run: "alloc_run 4 sample_start Map.empty" "mmap_ok sample_mmap (ph_heap (c_ph (cc sample_start)))"
  using run_start [of 4 "[]"] sample_heap_inv(3) by (simp_all add: allocator_init_def CentralCache_init_def)

lemma small_pages: "sz \<le> MAX_BYTES \<Longrightarrow> CalculatePageNeed (RoundUp sz) \<le> 16"
proof -
  assume a: "sz \<le> MAX_BYTES"
  let ?c = "class_size (Index sz)"
  have c: "0 < ?c" "?c \<le> MAX_BYTES"
    using class_size_ge_8 [of "Index sz"] class_size_max [OF Index_less [OF a]] by simp_all
  have "(CalculateFetchBatchSize ?c * ?c + 16383) div 16384 \<le> (262144 + 16383) div 16384"
    using batch_bounds(3) [OF c] by (intro div_le_mono) (simp add: MAX_BYTES_def)
  then show ?thesis unfolding RoundUp_class [OF a] CalculatePageNeed_eq [OF c] by simp
qed

lemma sample_not_refused: "\<not> refused sample_mmap sample_start 100"
proof -
  have "SystemAlloc sample_mmap 128 \<noteq> None"
    by (simp add: SystemAlloc_def Let_def sample_mmap_def push_bit_eq_mult PAGE_SHIFT_def PAGE_SIZE_def
        W64_def wadd_def)
  moreover have "alloc_size (CalculatePageNeed (RoundUp 100)) = 128"
    using small_pages [of 100] by (simp add: alloc_size_def NPAGES_def MAX_BYTES_def)
  ultimately show ?thesis using sample_heap_inv(6)
    by (simp add: refused_def out_of_memory_def MAX_BYTES_def allocator_init_def CentralCache_init_def)
qed

subsection \<open>Properties\<close>

text \<open>
  C2. \<open>malloc\<close> of fewer than \<open>2^48\<close> bytes, in every state reached by such requests on at most 64 cores, returns, and either gives null, because the system refused
  the memory, with every live block and every word as before; or gives the address of a new block
  of at least the size asked for, at a multiple of 8, which shares no byte with any live block, no word of which
  changes, and whose size the page map knows.
\<close>

theorem malloc_correct:
  assumes run: "alloc_run cores st L" and cores: "cores \<le> 64"
    and mm: "mmap_ok mmap (ph_heap (c_ph (cc st)))" and sz: "sz < 2 ^ 48"
  shows "\<exists>p st'. kz_malloc mmap ram tid sz st = Some (p, st')
    \<and> (if p = 0 then refused mmap st sz \<and> alloc_run cores st' L \<and> c_mem (cc st') = c_mem (cc st)
       else alloc_run cores st' (L(p \<mapsto> sz)) \<and> L p = None \<and> sz \<le> RoundUp sz \<and> 8 dvd p
         \<and> (\<forall>q sz'. L q = Some sz' \<longrightarrow> {p..<p + RoundUp sz} \<inter> {q..<q + RoundUp sz'} = {})
         \<and> quiet L (c_mem (cc st)) (c_mem (cc st')) \<and> GetAllocatedSize p st' = Some (RoundUp sz))"
proof -
  obtain fl ca where inv: "alloc_inv st fl ca L" by (rule run_inv [OF run cores])
  show ?thesis
  proof (rule kz_malloc_ok [OF inv mm sz, of ram tid])
    fix st' assume m: "kz_malloc mmap ram tid sz st = Some (0, st')" "c_mem (cc st') = c_mem (cc st)" "refused mmap st sz"
    then show ?thesis using run_malloc [OF run mm sz m(1)] by simp
  next
    fix p st' fl' ca' assume m: "kz_malloc mmap ram tid sz st = Some (p, st')" "p \<noteq> 0" "L p = None"
      "alloc_inv st' fl' ca' (L(p \<mapsto> sz))" "quiet L (c_mem (cc st)) (c_mem (cc st'))"
    have r: "alloc_run cores st' (L(p \<mapsto> sz))" using run_malloc [OF run mm sz m(1)] m(2) by simp
    have P: "(L(p \<mapsto> sz)) p = Some sz" by simp
    note z = GetAllocatedSize_live [OF m(4) P]
    have "{p..<p + RoundUp sz} \<inter> {q..<q + RoundUp sz'} = {}" if "L q = Some sz'" for q sz'
      by (rule blocks_disjoint [OF m(4) P]) (use that m(3) in auto)
    then show ?thesis using m(1-3,5) r z(1,2) live_aligned(1) [OF m(4) P]
      by (intro exI [of _ p] exI [of _ st']) (simp only: if_False, blast)
  qed
qed

theorem malloc_correct_witness:
  "\<exists>p st'. kz_malloc sample_mmap 0 7 100 sample_start = Some (p, st') \<and> p \<noteq> 0 \<and> GetAllocatedSize p st' = Some (RoundUp 100)"
proof -
  obtain p st' where "kz_malloc sample_mmap 0 7 100 sample_start = Some (p, st')"
    "if p = 0 then refused sample_mmap sample_start 100 else GetAllocatedSize p st' = Some (RoundUp 100)"
    using malloc_correct [OF sample_run(1) _ sample_run(2), of 100 0 7] by (auto split: if_splits)
  then show ?thesis using sample_not_refused by (auto split: if_splits)
qed

text \<open>
  C3. Both \<open>free\<close>s of a live block return in every reachable state (requests below \<open>2^48\<close> bytes, at most 64 cores), the sized one also in a thread
  that has no cache any more and for any size of the class of the block; the block is live no
  more, and no word of another live block changes.
\<close>

theorem free_correct:
  assumes "alloc_run cores st L" "cores \<le> 64" "L p = Some sz" "same_class sz' sz"
  shows "(\<exists>st'. kz_free ram tid p st = Some st' \<and> alloc_run cores st' (L(p := None))
      \<and> quiet (L(p := None)) (c_mem (cc st)) (c_mem (cc st')))
    \<and> (\<exists>st'. kz_free_sized ram tid p sz' st = Some st' \<and> alloc_run cores st' (L(p := None))
      \<and> quiet (L(p := None)) (c_mem (cc st)) (c_mem (cc st')))"
proof -
  obtain fl ca where inv: "alloc_inv st fl ca L" by (rule run_inv [OF assms(1,2)])
  show ?thesis
  proof
    show "\<exists>st'. kz_free ram tid p st = Some st' \<and> alloc_run cores st' (L(p := None))
      \<and> quiet (L(p := None)) (c_mem (cc st)) (c_mem (cc st'))"
      by (rule kz_free_ok [OF inv assms(3), of ram tid]) (blast intro: run_free [OF assms(1,3)])
    show "\<exists>st'. kz_free_sized ram tid p sz' st = Some st' \<and> alloc_run cores st' (L(p := None))
      \<and> quiet (L(p := None)) (c_mem (cc st)) (c_mem (cc st'))"
      by (rule kz_free_sized_ok [OF inv assms(3,4), of ram tid]) (blast intro: run_free_sized [OF assms(1,3,4)])
  qed
qed

lemma sample_block:
  obtains p st where "kz_malloc sample_mmap 0 7 100 sample_start = Some (p, st)" "alloc_run 4 st [p \<mapsto> 100]"
proof -
  obtain fl ca where inv: "alloc_inv sample_start fl ca Map.empty" by (rule run_inv [OF sample_run(1)]) simp
  show thesis
  proof (rule kz_malloc_ok [OF inv sample_run(2), of 100 0 7])
    fix p st' assume m: "kz_malloc sample_mmap 0 7 100 sample_start = Some (p, st')" "p \<noteq> 0"
    then show thesis using run_malloc [OF sample_run(1,2) _ m(1)] that by simp
  qed (use sample_not_refused in auto)
qed

theorem free_correct_witness:
  "\<exists>p st st'. kz_malloc sample_mmap 0 7 100 sample_start = Some (p, st) \<and> kz_free_sized 0 8 p 100 st = Some st'
     \<and> kz_free 0 7 p st \<noteq> None"
proof -
  obtain p st where p: "kz_malloc sample_mmap 0 7 100 sample_start = Some (p, st)" "alloc_run 4 st [p \<mapsto> 100]"
    by (rule sample_block)
  have "(\<exists>st'. kz_free 0 7 p st = Some st') \<and> (\<exists>st'. kz_free_sized 0 8 p 100 st = Some st')"
    using free_correct [OF p(2), of p 100 100 0 7] free_correct [OF p(2), of p 100 100 0 8] by (auto simp: same_class_def)
  then show ?thesis using p(1) by auto
qed

text \<open>
  C1. In every state reachable by calls of any threads (at most 64 cores, requests below \<open>2^48\<close> bytes, the bound of
  \<open>alloc_run\<close>, so that rounding up to pages does not wrap), every live block is an address other than
  null and a multiple of 8, with room for the size asked for, two live blocks share no byte, and the page map gives the
  size of each.
\<close>

theorem alloc_safe:
  assumes "alloc_run cores st L" "cores \<le> 64"
  shows "(\<forall>p sz. L p = Some sz \<longrightarrow> p \<noteq> 0 \<and> 8 dvd p \<and> sz \<le> RoundUp sz \<and> GetAllocatedSize p st = Some (RoundUp sz))
    \<and> (\<forall>p q a b. L p = Some a \<and> L q = Some b \<and> p \<noteq> q \<longrightarrow> {p..<p + RoundUp a} \<inter> {q..<q + RoundUp b} = {})"
proof -
  obtain fl ca where inv: "alloc_inv st fl ca L" by (rule run_inv [OF assms])
  show ?thesis using GetAllocatedSize_live [OF inv] live_aligned(1) [OF inv] blocks_disjoint [OF inv] by blast
qed

theorem alloc_safe_witness:
  "\<exists>p st. kz_malloc sample_mmap 0 7 100 sample_start = Some (p, st) \<and> p \<noteq> 0 \<and> 100 \<le> RoundUp 100"
proof -
  obtain p st where p: "kz_malloc sample_mmap 0 7 100 sample_start = Some (p, st)" "alloc_run 4 st [p \<mapsto> 100]"
    by (rule sample_block)
  then show ?thesis using alloc_safe [OF p(2)] by auto
qed

text \<open>
  C4. No memory is lost (requests below \<open>2^48\<close> bytes, at most 64 cores): once every block has been freed and every thread that had a cache has
  ended, in whatever order and by whichever threads, no bucket of the central cache holds a span
  and no span of the page heap is in use.
\<close>

theorem alloc_no_leak:
  assumes "alloc_run cores st Map.empty" "cores \<le> 64" "caches st = Map.empty"
  shows "c_lists (cc st) b = [] \<and> \<not> in_use (c_spans (cc st)) x"
proof -
  obtain fl ca where inv: "alloc_inv st fl ca Map.empty" by (rule run_inv [OF assms(1,2)])
  have cinv: "central_inv (cc st) fl (used ca Map.empty)" and bz: "busy (cc st)" and lg: "large_ok (cc st) Map.empty"
    and C: "caches_ok (c_mem (cc st)) (caches st) ca" using inv by (simp_all add: alloc_inv_def)
  have "ca t = (\<lambda>_. [])" for t using C [unfolded caches_ok_def, rule_format, of t] assms(3) by simp
  then have U: "used ca Map.empty b = {}" for b by (simp add: used_def live_in_def)
  have el: "c_lists (cc st) b = []" for b
  proof (rule ccontr)
    assume "c_lists (cc st) b \<noteq> []"
    then obtain y where y: "y \<in> set (c_lists (cc st) b)" by (cases "c_lists (cc st) b") auto
    obtain s where s: "fmlookup (c_spans (cc st)) y = Some s" "objSize s = class_size b" "span_ok (c_mem (cc st)) s (fl y) {}"
      by (rule central_listed [OF cinv y, unfolded U])
    have "distinct (obj_list s)" using s(2) class_size_ge_8 [of b] by (intro obj_list_distinct) simp
    then have "length (obj_list s) = card (set (obj_list s))" by (simp add: distinct_card)
    also have "\<dots> \<le> card (set (fl y))" using s(3) by (intro card_mono) (auto simp: span_ok_def)
    also have "\<dots> \<le> length (fl y)" by (rule card_length)
    finally have "useCount s = 0" using s(3) by (simp add: span_ok_def)
    then have "use_count (c_spans (cc st)) y = 0" using s(1) by (simp add: use_count_def)
    moreover have "0 < use_count (c_spans (cc st)) y" using bz y unfolding busy_def by blast
    ultimately show False by simp
  qed
  have "\<not> outside (cc st) x" using lg by (auto simp: large_ok_def)
  then show ?thesis using el by (simp add: outside_def)
qed

theorem alloc_no_leak_witness:
  "\<exists>p st st' st''. kz_malloc sample_mmap 0 7 100 sample_start = Some (p, st) \<and> kz_free 0 7 p st = Some st'
     \<and> thread_exit 0 7 st' = Some st'' \<and> c_lists (cc st'') (Index 100) = []"
proof -
  obtain p st where p: "kz_malloc sample_mmap 0 7 100 sample_start = Some (p, st)" "alloc_run 4 st [p \<mapsto> 100]"
    by (rule sample_block)
  obtain fl ca where inv: "alloc_inv st fl ca [p \<mapsto> 100]" by (rule run_inv [OF p(2)]) simp
  obtain st' where st': "kz_free 0 7 p st = Some st'" by (rule kz_free_ok [OF inv, of p 100 0 7]) auto
  have r': "alloc_run 4 st' Map.empty" using run_free [OF p(2) _ st', of 100] by simp
  obtain fl ca where inv': "alloc_inv st' fl ca Map.empty" by (rule run_inv [OF r']) simp
  obtain st'' where st'': "thread_exit 0 7 st' = Some st''" "caches st'' = (caches st')(7 := None)"
    by (rule thread_exit_ok [OF inv', of 0 7]) blast
  have "caches st' t = None" if "t \<noteq> 7" for t
    using caches_frame(1) [OF p(1) that] caches_frame(2) [OF st' that] by (simp add: allocator_init_def)
  then have "caches st'' = Map.empty" using st''(2) by auto
  then show ?thesis using alloc_no_leak [OF run_exit [OF r' st''(1)]] p(1) st' st''(1) by auto
qed

end
