(* ===== verification/Realloc.thy ===== *)
theory Realloc
  imports AllocProps
begin

text \<open>
  The calls built on \<open>malloc\<close> and \<open>free\<close> (\<open>KzAlloc/ConcurrentAlloc.h\<close>): both \<open>realloc\<close>s, aligned
  allocation with the address of the block kept in the word before it, and both \<open>realloc_aligned\<close>.
  \<open>copy_block\<close> is \<open>memcpy\<close> between blocks that do not overlap.
\<close>

definition copy_block :: "nat \<Rightarrow> nat \<Rightarrow> nat \<Rightarrow> allocator \<Rightarrow> allocator" where
  "copy_block dst src n st = (let m = c_mem (cc st) in
     st\<lparr>cc := (cc st)\<lparr>c_mem := (\<lambda>a. if dst \<le> a \<and> a < dst + n then m (src + (a - dst)) else m a)\<rparr>\<rparr>)"

definition kz_realloc_sized ::
  "(nat \<Rightarrow> nat option) \<Rightarrow> nat \<Rightarrow> nat \<Rightarrow> nat \<Rightarrow> nat \<Rightarrow> nat \<Rightarrow> allocator \<Rightarrow> (nat \<times> allocator) option" where
  "kz_realloc_sized mmap ram tid ptr old_size new_size st =
     (if ptr = 0 then kz_malloc mmap ram tid new_size st
      else if new_size = 0 then map_option (\<lambda>st. (0, st)) (kz_free_sized ram tid ptr old_size st)
      else let old_aligned = RoundUp old_size; new_aligned = RoundUp new_size
           in if new_aligned = old_aligned then Some (ptr, st)
              else if new_aligned < old_aligned then Some (ptr, st)
              else case kz_malloc mmap ram tid new_size st of None \<Rightarrow> None
                | Some (new_ptr, st) \<Rightarrow>
                  if new_ptr \<noteq> 0
                  then map_option (\<lambda>st. (new_ptr, st)) (kz_free_sized ram tid ptr old_size (copy_block new_ptr ptr old_size st))
                  else Some (new_ptr, st))"

definition kz_realloc ::
  "(nat \<Rightarrow> nat option) \<Rightarrow> nat \<Rightarrow> nat \<Rightarrow> nat \<Rightarrow> nat \<Rightarrow> allocator \<Rightarrow> (nat \<times> allocator) option" where
  "kz_realloc mmap ram tid ptr new_size st =
     (if ptr = 0 then kz_malloc mmap ram tid new_size st
      else if new_size = 0 then map_option (\<lambda>st. (0, st)) (kz_free ram tid ptr st)
      else case GetAllocatedSize ptr st of None \<Rightarrow> None
        | Some n \<Rightarrow> kz_realloc_sized mmap ram tid ptr n new_size st)"

definition GetAlignedRequestSize :: "nat \<Rightarrow> nat \<Rightarrow> nat" where
  "GetAlignedRequestSize sz alignment = wadd (wadd sz alignment) 8"

text \<open>\<open>(x + (alignment - 1)) & ~(alignment - 1)\<close>.\<close>

definition align_up :: "nat \<Rightarrow> nat \<Rightarrow> nat" where
  "align_up x alignment = wadd x (alignment - 1) AND (W64 - 1 - (alignment - 1))"

definition malloc_aligned ::
  "(nat \<Rightarrow> nat option) \<Rightarrow> nat \<Rightarrow> nat \<Rightarrow> nat \<Rightarrow> nat \<Rightarrow> allocator \<Rightarrow> (nat \<times> allocator) option" where
  "malloc_aligned mmap ram tid sz alignment st =
     (let alignment = (if alignment < 8 then 8 else alignment);
          request_size = GetAlignedRequestSize sz alignment
      in case kz_malloc mmap ram tid request_size st of None \<Rightarrow> None
         | Some (raw_ptr, st) \<Rightarrow>
           if raw_ptr = 0 then Some (0, st)
           else let aligned_addr = align_up (wadd raw_ptr 8) alignment
                in Some (aligned_addr, user_write (wsub aligned_addr 8) raw_ptr st))"

definition free_aligned :: "nat \<Rightarrow> nat \<Rightarrow> nat \<Rightarrow> allocator \<Rightarrow> allocator option" where
  "free_aligned ram tid ptr st = (if ptr = 0 then Some st else kz_free ram tid (c_mem (cc st) (wsub ptr 8)) st)"

definition free_aligned_sized :: "nat \<Rightarrow> nat \<Rightarrow> nat \<Rightarrow> nat \<Rightarrow> nat \<Rightarrow> allocator \<Rightarrow> allocator option" where
  "free_aligned_sized ram tid ptr sz alignment st =
     (if ptr = 0 then Some st
      else kz_free_sized ram tid (c_mem (cc st) (wsub ptr 8)) (GetAlignedRequestSize sz alignment) st)"

definition realloc_aligned ::
  "(nat \<Rightarrow> nat option) \<Rightarrow> nat \<Rightarrow> nat \<Rightarrow> nat \<Rightarrow> nat \<Rightarrow> nat \<Rightarrow> allocator \<Rightarrow> (nat \<times> allocator) option" where
  "realloc_aligned mmap ram tid ptr new_size alignment st =
     (if ptr = 0 then malloc_aligned mmap ram tid new_size alignment st
      else if new_size = 0 then map_option (\<lambda>st. (0, st)) (free_aligned ram tid ptr st)
      else let raw_ptr = c_mem (cc st) (wsub ptr 8)
           in case GetAllocatedSize raw_ptr st of None \<Rightarrow> None
              | Some total_block_size \<Rightarrow>
                let offset = wsub ptr raw_ptr;
                    available_capacity = wsub total_block_size offset
                in if new_size \<le> available_capacity then Some (ptr, st)
                   else case malloc_aligned mmap ram tid new_size alignment st of None \<Rightarrow> None
                     | Some (new_ptr, st) \<Rightarrow>
                       if new_ptr \<noteq> 0
                       then let copy_len = (if available_capacity < new_size then available_capacity else new_size)
                            in map_option (\<lambda>st. (new_ptr, st)) (free_aligned ram tid ptr (copy_block new_ptr ptr copy_len st))
                       else Some (new_ptr, st))"

definition realloc_aligned_sized ::
  "(nat \<Rightarrow> nat option) \<Rightarrow> nat \<Rightarrow> nat \<Rightarrow> nat \<Rightarrow> nat \<Rightarrow> nat \<Rightarrow> nat \<Rightarrow> allocator \<Rightarrow> (nat \<times> allocator) option" where
  "realloc_aligned_sized mmap ram tid ptr old_size new_size alignment st =
     (if ptr = 0 then malloc_aligned mmap ram tid new_size alignment st
      else if new_size = 0 then map_option (\<lambda>st. (0, st)) (free_aligned_sized ram tid ptr old_size alignment st)
      else let old_req = GetAlignedRequestSize old_size alignment;
               new_req = GetAlignedRequestSize new_size alignment;
               old_class_size = RoundUp old_req;
               new_class_size = RoundUp new_req
           in if new_class_size \<le> old_class_size then Some (ptr, st)
              else case malloc_aligned mmap ram tid new_size alignment st of None \<Rightarrow> None
                | Some (new_ptr, st) \<Rightarrow>
                  if new_ptr \<noteq> 0
                  then let copy_len = (if old_size < new_size then old_size else new_size)
                       in map_option (\<lambda>st. (new_ptr, st))
                            (free_aligned_sized ram tid ptr old_size alignment (copy_block new_ptr ptr copy_len st))
                  else Some (new_ptr, st))"

subsection \<open>Copying\<close>

lemma user_write_mem:
  "user_write a v (st\<lparr>cc := (cc st)\<lparr>c_mem := m\<rparr>\<rparr>) = st\<lparr>cc := (cc st)\<lparr>c_mem := m(a := v)\<rparr>\<rparr>"
  by (simp add: user_write_def)

lemma fill_block:
  assumes run: "alloc_run cores st L" and q: "L q = Some sz"
  shows "off + n \<le> RoundUp sz \<Longrightarrow>
    alloc_run cores (st\<lparr>cc := (cc st)\<lparr>c_mem := (\<lambda>a. if q + off \<le> a \<and> a < q + off + n then f a else c_mem (cc st) a)\<rparr>\<rparr>) L"
proof (induction n)
  case 0
  have "(\<lambda>a. if q + off \<le> a \<and> a < q + off + 0 then f a else c_mem (cc st) a) = c_mem (cc st)" by auto
  then show ?case using run by simp
next
  case (Suc n)
  let ?m = "\<lambda>n a. if q + off \<le> a \<and> a < q + off + n then f a else c_mem (cc st) a"
  have e: "(?m n)(q + off + n := f (q + off + n)) = ?m (Suc n)" by (auto simp: fun_eq_iff)
  have "alloc_run cores (user_write (q + off + n) (f (q + off + n)) (st\<lparr>cc := (cc st)\<lparr>c_mem := ?m n\<rparr>\<rparr>)) L"
    by (rule run_write [where q = q and sz = sz and L = L]) (use Suc q in simp_all)
  then show ?case unfolding user_write_mem e .
qed

lemma copy_block_run:
  assumes "alloc_run cores st L" "L q = Some sz" "q \<le> dst" "dst + n \<le> q + RoundUp sz"
  shows "alloc_run cores (copy_block dst src n st) L"
  using fill_block [OF assms(1,2), of "dst - q" n "\<lambda>a. c_mem (cc st) (src + (a - dst))"] assms(3,4)
  by (simp add: copy_block_def Let_def)

lemma copy_block_at:
  "i < n \<Longrightarrow> c_mem (cc (copy_block dst src n st)) (dst + i) = c_mem (cc st) (src + i)"
  "a \<notin> {dst..<dst + n} \<Longrightarrow> c_mem (cc (copy_block dst src n st)) a = c_mem (cc st) a"
  by (auto simp: copy_block_def Let_def)

subsection \<open>Sizes that mean the same block\<close>

definition fits :: "nat \<Rightarrow> nat \<Rightarrow> bool" where
  "fits n sz \<longleftrightarrow> same_class n sz \<and> RoundUp n = RoundUp sz \<and> n \<le> RoundUp sz"

lemma fits_refl: "alloc_inv st fl ca L \<Longrightarrow> L p = Some sz \<Longrightarrow> fits sz sz"
  using GetAllocatedSize_live(2) by (simp add: fits_def same_class_def)

lemma fits_RoundUp:
  assumes "sz < 2 ^ 48"
  shows "fits (RoundUp sz) sz"
proof (cases "sz \<le> MAX_BYTES")
  case True
  note i = Index_less [OF True] and r = RoundUp_class [OF True]
  have "class_size (Index sz) \<le> MAX_BYTES" by (rule class_size_max [OF i])
  then show ?thesis using True Index_class_size [OF i] RoundUp_class [of "class_size (Index sz)"]
    by (simp add: fits_def same_class_def r)
next
  case False
  then have l: "MAX_BYTES < sz" by simp
  note lp = large_pages [OF l assms]
  have "RoundUp sz < sz + PAGE_SIZE"
    using RoundUp_page [OF l] assms by (simp add: W64_def PAGE_SIZE_def)
  then have w: "RoundUp sz < W64" "RoundUp sz \<le> W64 - PAGE_SIZE" using assms by (simp_all add: W64_def PAGE_SIZE_def)
  have rr: "PAGE_SIZE dvd RoundUp (RoundUp sz)" "RoundUp sz \<le> RoundUp (RoundUp sz)" "RoundUp (RoundUp sz) < RoundUp sz + PAGE_SIZE"
    using RoundUp_page [OF lp(5) w(1)] w(2) by simp_all
  obtain j k where j: "RoundUp (RoundUp sz) = PAGE_SIZE * j" "RoundUp sz = PAGE_SIZE * k"
    using rr(1) lp(1) by (metis dvdE mult.commute)
  then have "k \<le> j" "j < Suc k" using rr(2,3) by (auto simp: PAGE_SIZE_def)
  then have "RoundUp (RoundUp sz) = RoundUp sz" using j by simp
  then show ?thesis using l lp(5) by (simp add: fits_def same_class_def)
qed

lemma quietD: "quiet L m m' \<Longrightarrow> L q = Some sz \<Longrightarrow> q \<le> a \<Longrightarrow> a < q + RoundUp sz \<Longrightarrow> m' a = m a"
  by (simp add: quiet_def)

text \<open>The move of a block: a new block, a copy, and the return of the old block.\<close>

lemma move_block:
  assumes run1: "alloc_run cores st1 (L(q \<mapsto> new))" and cores: "cores \<le> 64" and q: "L q = None" and p: "L p = Some sz"
    and quiet1: "quiet L m (c_mem (cc st1))" and dst: "q \<le> dst" "dst + n \<le> q + RoundUp new" and src: "p \<le> src" "src + n \<le> p + RoundUp sz"
  obtains fl ca where "alloc_inv (copy_block dst src n st1) fl ca (L(q \<mapsto> new))"
    "alloc_run cores (copy_block dst src n st1) (L(q \<mapsto> new))"
    "\<And>m3. quiet (L(p := None, q \<mapsto> new)) (c_mem (cc (copy_block dst src n st1))) m3 \<Longrightarrow>
       quiet (L(p := None)) m m3 \<and> (\<forall>i < n. m3 (dst + i) = m (src + i))"
proof -
  let ?c = "copy_block dst src n st1"
  have Q: "(L(q \<mapsto> new)) q = Some new" by simp
  have run2: "alloc_run cores ?c (L(q \<mapsto> new))" by (rule copy_block_run [OF run1 Q dst])
  obtain fl ca where inv: "alloc_inv ?c fl ca (L(q \<mapsto> new))" by (rule run_inv [OF run2 cores])
  have ne: "p \<noteq> q" using p q by auto
  have "quiet (L(p := None)) m m3 \<and> (\<forall>i < n. m3 (dst + i) = m (src + i))"
    if m3: "quiet (L(p := None, q \<mapsto> new)) (c_mem (cc ?c)) m3" for m3
  proof
    have "m3 a = m a" if r: "(L(p := None)) r = Some b" "a \<in> {r..<r + RoundUp b}" for r b a
    proof -
      have Lr: "L r = Some b" "r \<noteq> p" using r(1) by (simp_all split: if_splits)
      then have "r \<noteq> q" using q by auto
      have "m3 a = c_mem (cc ?c) a" by (rule quietD [OF m3, of r b]) (use r Lr \<open>r \<noteq> q\<close> in simp_all)
      moreover have "{r..<r + RoundUp b} \<inter> {q..<q + RoundUp new} = {}"
        by (rule blocks_disjoint [OF inv _ Q \<open>r \<noteq> q\<close>]) (use Lr \<open>r \<noteq> q\<close> in simp)
      then have "a \<notin> {q..<q + RoundUp new}" using r(2) by blast
      then have "a \<notin> {dst..<dst + n}" using dst by auto
      then have "c_mem (cc ?c) a = c_mem (cc st1) a" by (rule copy_block_at(2))
      moreover have "c_mem (cc st1) a = m a" by (rule quietD [OF quiet1 Lr(1)]) (use r(2) in simp_all)
      ultimately show ?thesis by simp
    qed
    then show "quiet (L(p := None)) m m3" unfolding quiet_def by blast
    have "m3 (dst + i) = m (src + i)" if "i < n" for i
    proof -
      have "m3 (dst + i) = c_mem (cc ?c) (dst + i)" by (rule quietD [OF m3, of q new]) (use that dst in simp_all)
      also have "\<dots> = c_mem (cc st1) (src + i)" by (rule copy_block_at(1) [OF that])
      also have "\<dots> = m (src + i)" by (rule quietD [OF quiet1 p]) (use that src in simp_all)
      finally show ?thesis .
    qed
    then show "\<forall>i < n. m3 (dst + i) = m (src + i)" by simp
  qed
  then show thesis by (rule that [OF inv run2])
qed

text \<open>
  C8. \<open>realloc\<close> of a live block, told its size: it returns; when the new size needs no larger block it
  gives the same address and changes nothing; otherwise it gives null with everything as before,
  because the system refused the memory, or a new live block that begins with the bytes of the old
  one, which is live no more, while no word of another live block changes. The \<open>realloc\<close> that looks
  the size up does the same with the size of the whole block.
\<close>

theorem realloc_correct:
  assumes run: "alloc_run cores st L" and cores: "cores \<le> 64" and mm: "mmap_ok mmap (ph_heap (c_ph (cc st)))"
    and p: "L p = Some sz" and old: "fits old sz" and new: "0 < new" "new < 2 ^ 48"
  shows "(\<exists>p' st'. kz_realloc_sized mmap ram tid p old new st = Some (p', st')
      \<and> (if RoundUp new \<le> RoundUp old then p' = p \<and> st' = st
         else if p' = 0 then refused mmap st new \<and> alloc_run cores st' L \<and> c_mem (cc st') = c_mem (cc st)
         else p' \<noteq> p \<and> alloc_run cores st' (L(p := None, p' \<mapsto> new))
           \<and> (\<forall>i < old. c_mem (cc st') (p' + i) = c_mem (cc st) (p + i))
           \<and> quiet (L(p := None)) (c_mem (cc st)) (c_mem (cc st'))))
    \<and> kz_realloc mmap ram tid p new st = kz_realloc_sized mmap ram tid p (RoundUp sz) new st"
proof -
  obtain fl ca where inv: "alloc_inv st fl ca L" by (rule run_inv [OF run cores])
  have p0: "p \<noteq> 0" by (rule live_nonzero [OF inv p])
  have r: "RoundUp old = RoundUp sz" "old \<le> RoundUp sz" "same_class old sz" using old by (simp_all add: fits_def)
  have "kz_realloc mmap ram tid p new st = kz_realloc_sized mmap ram tid p (RoundUp sz) new st"
    using p0 new(1) GetAllocatedSize_live(1) [OF inv p] by (simp add: kz_realloc_def)
  moreover have "\<exists>p' st'. kz_realloc_sized mmap ram tid p old new st = Some (p', st')
      \<and> (if RoundUp new \<le> RoundUp old then p' = p \<and> st' = st
         else if p' = 0 then refused mmap st new \<and> alloc_run cores st' L \<and> c_mem (cc st') = c_mem (cc st)
         else p' \<noteq> p \<and> alloc_run cores st' (L(p := None, p' \<mapsto> new))
           \<and> (\<forall>i < old. c_mem (cc st') (p' + i) = c_mem (cc st) (p + i))
           \<and> quiet (L(p := None)) (c_mem (cc st)) (c_mem (cc st')))"
  proof (cases "RoundUp new \<le> RoundUp old")
    case True
    then show ?thesis using p0 new(1) by (auto simp: kz_realloc_sized_def Let_def)
  next
    case False
    show ?thesis
    proof (rule kz_malloc_ok [OF inv mm new(2), of ram tid])
      fix st1 assume m: "kz_malloc mmap ram tid new st = Some (0, st1)" "c_mem (cc st1) = c_mem (cc st)" "refused mmap st new"
      then show ?thesis using False p0 new(1) run_malloc [OF run mm new(2) m(1)]
        by (auto simp: kz_realloc_sized_def Let_def)
    next
      fix q st1 fl1 ca1 assume m: "kz_malloc mmap ram tid new st = Some (q, st1)" "q \<noteq> 0" "L q = None"
        "quiet L (c_mem (cc st)) (c_mem (cc st1))"
      have run1: "alloc_run cores st1 (L(q \<mapsto> new))" using run_malloc [OF run mm new(2) m(1)] m(2) by simp
      have ne: "q \<noteq> p" using m(3) p by auto
      have dst: "q + old \<le> q + RoundUp new" and src: "p + old \<le> p + RoundUp sz" using False r by simp_all
      obtain fl2 ca2 where c: "alloc_inv (copy_block q p old st1) fl2 ca2 (L(q \<mapsto> new))"
          "alloc_run cores (copy_block q p old st1) (L(q \<mapsto> new))"
        and qu: "\<And>m3. quiet (L(p := None, q \<mapsto> new)) (c_mem (cc (copy_block q p old st1))) m3 \<Longrightarrow>
          quiet (L(p := None)) (c_mem (cc st)) m3 \<and> (\<forall>i < old. m3 (q + i) = c_mem (cc st) (p + i))"
        by (rule move_block [OF run1 cores m(3) p m(4) order_refl dst order_refl src]) (rule that)
      have P: "(L(q \<mapsto> new)) p = Some sz" using p ne by simp
      have tw: "L(q \<mapsto> new, p := None) = L(p := None, q \<mapsto> new)" using ne by (simp add: fun_upd_twist)
      obtain st3 fl3 ca3 where f: "kz_free_sized ram tid p old (copy_block q p old st1) = Some st3"
        "quiet (L(p := None, q \<mapsto> new)) (c_mem (cc (copy_block q p old st1))) (c_mem (cc st3))"
        by (rule kz_free_sized_ok [OF c(1) P r(3), of ram tid, unfolded tw]) (rule that)
      have "alloc_run cores st3 (L(p := None, q \<mapsto> new))" using run_free_sized [OF c(2) P r(3) f(1)] unfolding tw .
      moreover have "kz_realloc_sized mmap ram tid p old new st = Some (q, st3)"
        using False p0 new(1) m(1,2) f(1) by (simp add: kz_realloc_sized_def Let_def)
      ultimately show ?thesis using False m(2) ne qu [OF f(2)]
        by (intro exI [of _ q] exI [of _ st3]) (simp del: fun_upd_apply)
    qed
  qed
  ultimately show ?thesis by (intro conjI)
qed

theorem realloc_correct_witness:
  "\<exists>p st p' st'. kz_malloc sample_mmap 0 7 100 sample_start = Some (p, st)
     \<and> kz_realloc_sized (\<lambda>_. None) 0 7 p 100 100 st = Some (p, st)
     \<and> kz_realloc_sized (\<lambda>_. None) 0 8 p 100 3000 st = Some (p', st')"
proof -
  obtain p st where p: "kz_malloc sample_mmap 0 7 100 sample_start = Some (p, st)" "alloc_run 4 st [p \<mapsto> 100]"
    by (rule sample_block)
  have f: "fits 100 100" using RoundUp_class [of 100] Index_bracket [of 100] by (simp add: fits_def same_class_def MAX_BYTES_def)
  have m: "mmap_ok (\<lambda>_. None) (ph_heap (c_ph (cc st)))" by (simp add: mmap_ok_def)
  have "kz_realloc_sized (\<lambda>_. None) 0 7 p 100 100 st = Some (p, st)"
    using realloc_correct [OF p(2) _ m _ f, of p 100 0 7] by auto
  moreover have "\<exists>p' st'. kz_realloc_sized (\<lambda>_. None) 0 8 p 100 3000 st = Some (p', st')"
    using realloc_correct [OF p(2) _ m _ f, of p 3000 0 8] by auto
  ultimately show ?thesis using p(1) by blast
qed

subsection \<open>Aligned blocks\<close>

lemma align_up_pow2:
  assumes "x + 2 ^ k < W64" "k \<le> 64"
  shows "2 ^ k dvd align_up x (2 ^ k)" "x \<le> align_up x (2 ^ k)" "align_up x (2 ^ k) < x + 2 ^ k"
proof -
  have w: "wadd x (2 ^ k - 1) = x + (2 ^ k - 1)" using assms(1) by (intro wadd_small) simp
  have "(2 ^ k :: nat) \<le> 2 ^ 64" using assms(2) by (intro power_increasing) simp_all
  then have n: "W64 - 1 - (2 ^ k - 1) = W64 - 2 ^ k" by (simp add: W64_def)
  have "x + (2 ^ k - 1) < W64" using assms(1) by linarith
  from and_high_mask [OF this assms(2)]
  have e: "align_up x (2 ^ k) = (x + (2 ^ k - 1)) div 2 ^ k * 2 ^ k" by (simp only: align_up_def w n)
  have d: "(2 ^ k :: nat) * ((x + (2 ^ k - 1)) div 2 ^ k) \<le> x + (2 ^ k - 1)
      \<and> x + (2 ^ k - 1) < 2 ^ k * ((x + (2 ^ k - 1)) div 2 ^ k) + 2 ^ k"
    by (rule div_bracket) simp
  have p: "0 < (2 :: nat) ^ k" by simp
  show "2 ^ k dvd align_up x (2 ^ k)" unfolding e by simp
  show "x \<le> align_up x (2 ^ k)" "align_up x (2 ^ k) < x + 2 ^ k"
    using d p unfolding e mult.commute [of _ "2 ^ k"] by linarith+
qed

text \<open>The alignment that \<open>malloc_aligned\<close> uses.\<close>

lemma raised_alignment:
  obtains k' where "(if (2::nat) ^ k < 8 then 8 else 2 ^ k) = (2 :: nat) ^ k'" "3 \<le> k'" "k \<le> k'"
proof (cases "k < 3")
  case True
  then have "(2::nat) ^ k < 2 ^ 3" by (intro power_strict_increasing) simp_all
  then show thesis using that [of 3] True by simp
next
  case False
  then have "(2::nat) ^ 3 \<le> 2 ^ k" by (intro power_increasing) simp_all
  then show thesis using that [of k] False by simp
qed

lemma malloc_aligned_ok:
  assumes run: "alloc_run cores st L" and cores: "cores \<le> 64" and mm: "mmap_ok mmap (ph_heap (c_ph (cc st)))"
    and k: "alignment = 2 ^ k" and al: "al = (if alignment < 8 then 8 else alignment)" and sz: "sz + al + 8 < 2 ^ 48"
  obtains (null) st' where "malloc_aligned mmap ram tid sz alignment st = Some (0, st')" "alloc_run cores st' L"
      "c_mem (cc st') = c_mem (cc st)" "refused mmap st (sz + al + 8)"
  | (block) q raw st' where "malloc_aligned mmap ram tid sz alignment st = Some (q, st')" "alignment dvd q"
      "raw \<noteq> 0" "L raw = None" "alloc_run cores st' (L(raw \<mapsto> sz + al + 8))" "raw + 8 \<le> q" "q + sz \<le> raw + RoundUp (sz + al + 8)"
      "c_mem (cc st') (q - 8) = raw" "quiet L (c_mem (cc st)) (c_mem (cc st'))" "q < 2 ^ 49"
proof -
  obtain k' where k': "al = 2 ^ k'" "3 \<le> k'" "k \<le> k'" using raised_alignment [of k] unfolding al k by metis
  have "(8::nat) = 2 ^ 3" by simp
  also have "\<dots> \<le> 2 ^ k'" using k'(2) by (intro power_increasing) simp_all
  finally have a8: "8 \<le> al" unfolding k' .
  have kle: "k' \<le> 64"
  proof (rule ccontr)
    assume "\<not> k' \<le> 64"
    then have "(2::nat) ^ 64 \<le> al" unfolding k' by (intro power_increasing) simp_all
    then show False using sz by simp
  qed
  let ?r = "sz + al + 8"
  have req: "GetAlignedRequestSize sz al = ?r"
  proof -
    have "wadd sz al = sz + al" using sz by (intro wadd_small) (simp add: W64_def)
    moreover have "wadd (sz + al) 8 = ?r" using sz by (intro wadd_small) (simp add: W64_def)
    ultimately show ?thesis by (simp add: GetAlignedRequestSize_def)
  qed
  have e: "malloc_aligned mmap ram tid sz alignment st =
      (case kz_malloc mmap ram tid ?r st of None \<Rightarrow> None
       | Some (raw_ptr, st) \<Rightarrow> if raw_ptr = 0 then Some (0, st)
           else let aligned_addr = align_up (wadd raw_ptr 8) al
                in Some (aligned_addr, user_write (wsub aligned_addr 8) raw_ptr st))"
    by (simp only: malloc_aligned_def Let_def al [symmetric] req)
  obtain fl ca where inv: "alloc_inv st fl ca L" by (rule run_inv [OF run cores])
  show thesis
  proof (rule kz_malloc_ok [OF inv mm sz, of ram tid])
    fix st' assume m: "kz_malloc mmap ram tid ?r st = Some (0, st')" "c_mem (cc st') = c_mem (cc st)" "refused mmap st ?r"
    have "alloc_run cores st' L" using run_malloc [OF run mm sz m(1)] by simp
    then show thesis using null e m by simp
  next
    fix raw st1 fl1 ca1 assume m: "kz_malloc mmap ram tid ?r st = Some (raw, st1)" "raw \<noteq> 0" "L raw = None"
      "alloc_inv st1 fl1 ca1 (L(raw \<mapsto> ?r))" "quiet L (c_mem (cc st)) (c_mem (cc st1))"
    have run1: "alloc_run cores st1 (L(raw \<mapsto> ?r))" using run_malloc [OF run mm sz m(1)] m(2) by simp
    have R: "(L(raw \<mapsto> ?r)) raw = Some ?r" by simp
    note bd = live_aligned(2) [OF m(4) R] and big = GetAllocatedSize_live(2) [OF m(4) R]
    have w8: "wadd raw 8 = raw + 8" using bd big by (intro wadd_small) (simp add: W64_def)
    have bw: "raw + 8 + 2 ^ k' < W64" using bd big unfolding k'(1) [symmetric] by (simp add: W64_def)
    let ?q = "align_up (raw + 8) al"
    have q: "al dvd ?q" "raw + 8 \<le> ?q" "?q < raw + 8 + al" using align_up_pow2 [OF bw kle] unfolding k'(1) by simp_all
    have qb: "?q + sz \<le> raw + RoundUp ?r" "?q < 2 ^ 49" using q(3) big bd by linarith+
    have ws: "wsub ?q 8 = ?q - 8" using q(2) qb by (intro wsub_small) (simp_all add: W64_def)
    let ?st = "user_write (?q - 8) raw st1"
    have run2: "alloc_run cores ?st (L(raw \<mapsto> ?r))"
      by (rule run_write [where q = raw, OF run1 R]) (use q(2) qb in \<open>simp only: atLeastLessThan_iff; linarith\<close>)
    have "alignment dvd al" unfolding k k' using k'(3) by (rule le_imp_power_dvd)
    then have d: "alignment dvd ?q" using q(1) by (rule dvd_trans)
    have hd: "c_mem (cc ?st) (?q - 8) = raw" by (simp add: user_write_def)
    have "c_mem (cc ?st) a = c_mem (cc st) a" if a: "L r = Some b" "a \<in> {r..<r + RoundUp b}" for r b a
    proof -
      have "r \<noteq> raw" using a(1) m(3) by auto
      then have "{r..<r + RoundUp b} \<inter> {raw..<raw + RoundUp ?r} = {}"
        by (intro blocks_disjoint [OF m(4) _ R]) (use a(1) in auto)
      then have "a \<notin> {raw..<raw + RoundUp ?r}" using a(2) by blast
      moreover have "?q - 8 \<in> {raw..<raw + RoundUp ?r}" using q(2) qb by auto
      ultimately have "a \<noteq> ?q - 8" by metis
      moreover have "c_mem (cc st1) a = c_mem (cc st) a" by (rule quietD [OF m(5) a(1)]) (use a(2) in auto)
      ultimately show ?thesis by (simp add: user_write_def)
    qed
    then have qt: "quiet L (c_mem (cc st)) (c_mem (cc ?st))" unfolding quiet_def by blast
    have "malloc_aligned mmap ram tid sz alignment st = Some (?q, ?st)"
      unfolding e using m(1,2) by (simp add: w8 ws Let_def)
    then show thesis using d m(2,3) run2 q(2) qb(1) hd qt qb(2) by (rule block)
  qed
qed

text \<open>The header of an aligned block leads both frees to the block it lies in.\<close>

lemma free_aligned_ok:
  assumes run: "alloc_run cores st L" and cores: "cores \<le> 64" and raw: "L raw = Some r" "c_mem (cc st) (q - 8) = raw"
    and q: "8 \<le> q" "q < 2 ^ 50"
  obtains st' where "free_aligned ram tid q st = Some st'" "alloc_run cores st' (L(raw := None))"
    "quiet (L(raw := None)) (c_mem (cc st)) (c_mem (cc st'))"
proof -
  obtain fl ca where inv: "alloc_inv st fl ca L" by (rule run_inv [OF run cores])
  have "wsub q 8 = q - 8" using q by (intro wsub_small) (simp_all add: W64_def)
  then have e: "free_aligned ram tid q st = kz_free ram tid raw st" using q(1) raw(2) by (simp add: free_aligned_def)
  show thesis
    by (rule kz_free_ok [OF inv raw(1), of ram tid]) (use that run_free [OF run raw(1)] e in auto)
qed

lemma free_aligned_sized_ok:
  assumes run: "alloc_run cores st L" and cores: "cores \<le> 64" and raw: "L raw = Some r" "c_mem (cc st) (q - 8) = raw"
    and q: "8 \<le> q" "q < 2 ^ 50" and sz: "sz + alignment + 8 < 2 ^ 48" and s: "same_class (sz + alignment + 8) r"
  obtains st' where "free_aligned_sized ram tid q sz alignment st = Some st'" "alloc_run cores st' (L(raw := None))"
    "quiet (L(raw := None)) (c_mem (cc st)) (c_mem (cc st'))"
proof -
  obtain fl ca where inv: "alloc_inv st fl ca L" by (rule run_inv [OF run cores])
  have "wadd sz alignment = sz + alignment" "wadd (sz + alignment) 8 = sz + alignment + 8"
    using sz by (simp_all add: wadd_small W64_def)
  moreover have "wsub q 8 = q - 8" using q by (intro wsub_small) (simp_all add: W64_def)
  ultimately have e: "free_aligned_sized ram tid q sz alignment st = kz_free_sized ram tid raw (sz + alignment + 8) st"
    using q(1) raw(2) by (simp add: free_aligned_sized_def GetAlignedRequestSize_def)
  show thesis
    by (rule kz_free_sized_ok [OF inv raw(1) s, of ram tid]) (use that run_free_sized [OF run raw(1) s] e in auto)
qed

subsection \<open>A large block in an empty heap\<close>

text \<open>For the witnesses: the first large block is carved from memory of the system, and no other page is managed then.\<close>

lemma map_loop_all:
  "answers m = [] \<Longrightarrow> p + n + left \<le> 2 ^ 35 \<Longrightarrow> \<exists>c m'. map_loop p x n left m = (c, True, m') \<and> answers m' = []"
proof (induction left arbitrary: n m)
  case (Suc left)
  obtain m' where m': "PageMap_set m (p + n) (Some x) = (True, m')" "answers m' = []"
    using PageMap_set_answers' [of "p + n" m "Some x"] Suc.prems by auto
  then show ?case using Suc.IH [of m' "Suc n"] Suc.prems(2) by simp
qed simp

definition one_span_of :: "nat \<Rightarrow> nat \<Rightarrow> heap \<Rightarrow> bool" where
  "one_span_of p k h \<longleftrightarrow> answers (pmap h) = [] \<and> (\<forall>z t. fmlookup (spans h) z = Some t \<longrightarrow> pageId t = p \<and> npages t = k)"

lemma NewSpan_first:
  assumes h: "spans h = fmempty" "answers (pmap h) = []" "shards h i = new_shard thr j"
    and k: "NPAGES \<le> k" "SystemAlloc mmap k = Some (ptr, un)" "drop_bit PAGE_SHIFT ptr + k \<le> 2 ^ 35"
  shows "\<exists>x h' s. NewSpan (Suc n) mmap i k h = Some (Some x, h') \<and> one_span_of (drop_bit PAGE_SHIFT ptr) k h' \<and> fmlookup (spans h') x = Some s"
proof -
  let ?p = "drop_bit PAGE_SHIFT ptr"
  obtain c m where m: "map_loop ?p (nextSpan h) 0 k (pmap h) = (c, True, m)" "answers m = []"
    using map_loop_all [OF h(2), of ?p 0 k "nextSpan h"] k(3) by auto
  show ?thesis using h k m
    by (auto simp: NewSpan_iter_def Let_def new_shard_def commit_span_def pool_New_def map_new_def upd_span_def one_span_of_def new_span_def
        split: if_splits)
qed

lemma malloc_first:
  assumes sz: "MAX_BYTES < sz" "k = drop_bit PAGE_SHIFT (RoundUp sz)"
    and k: "NPAGES \<le> k" "SystemAlloc mmap k = Some (ptr, un)" "drop_bit PAGE_SHIFT ptr + k \<le> 2 ^ 35"
    and m: "kz_malloc mmap ram tid sz sample_start = Some (p, st)"
  shows "one_span_of (drop_bit PAGE_SHIFT ptr) k (ph_heap (c_ph (cc st)))"
proof -
  obtain idx ph where g: "GetShardIndex tid (PageHeap_init 4 []) = (idx, ph)" by fastforce
  let ?h = "ph_heap (GetShard ram idx ph)"
  have ph: "ph_heap ph = sample_heap" "init_state ph = (\<lambda>_. 0)"
    using g by (auto simp: GetShardIndex_def PageHeap_init_def Let_def split: option.splits)
  have h: "spans ?h = fmempty" "answers (pmap ?h) = []" "shards ?h idx = new_shard (shard_threshold ram (shardCount ph)) (idx mod 256)"
    by (simp_all add: GetShard_def ph upd_shard_def sample_heap_inv(5,6))
  obtain x h' s where n: "NewSpan (Suc (map_nodes idx ?h + 1)) mmap idx k ?h = Some (Some x, h')" "one_span_of (drop_bit PAGE_SHIFT ptr) k h'"
    "fmlookup (spans h') x = Some s"
    using NewSpan_first [OF h k] by blast
  have "PageHeap_NewSpan mmap ram tid k (PageHeap_init 4 []) = Some (Some x, (GetShard ram idx ph)\<lparr>ph_heap := upd_span x (s\<lparr>shardId := idx mod 256\<rparr>) h'\<rparr>)"
    using n by (simp add: PageHeap_NewSpan_def g)
  then show ?thesis using m sz n(2,3)
    by (auto simp: kz_malloc_def Let_def allocator_init_def CentralCache_init_def upd_span_def upd_ph_span_def one_span_of_def split: if_splits)
qed

lemma one_span_room:
  assumes "one_span_of p k h" "(p + k) * PAGE_SIZE \<le> 2 ^ 41"
  shows "mmap_ok (\<lambda>sz. if sz = 0 \<or> 2 ^ 40 < sz then None else Some (2 ^ 41)) h"
proof -
  have "(q + 1) * PAGE_SIZE \<le> 2 ^ 41" if "q \<in> owned (spans h)" for q
  proof -
    have "q + 1 \<le> p + k" using that assms(1) by (auto simp: owned_def one_span_of_def pages_def)
    then have "(q + 1) * PAGE_SIZE \<le> (p + k) * PAGE_SIZE" by (rule mult_right_mono) simp
    then show ?thesis using assms(2) by linarith
  qed
  then show ?thesis by (simp add: mmap_ok_def)
qed

subsection \<open>The properties of the aligned calls\<close>

text \<open>
  The sized \<open>free_aligned\<close> computes the size again without raising the alignment to 8 as
  \<open>malloc_aligned\<close> does, so below 8 it can name another class.
\<close>

lemma small_alignment_mismatch:
  "\<not> same_class (GetAlignedRequestSize 1 1) (1 + 8 + 8)"
  by (simp add: GetAlignedRequestSize_def wadd_def W64_def same_class_def MAX_BYTES_def Index_closed)

text \<open>
  C9. Aligned allocation and its release: for a power of two, \<open>malloc_aligned\<close> gives null because
  the system refused the memory, or a multiple of the alignment with room for the size asked for
  inside a new block, whose address is kept in the word before; and \<open>free_aligned\<close> of it, in any
  later state where the block is live and that word is as it was, returns and frees exactly that
  block. The sized \<open>free_aligned\<close> does so when the size it recomputes, \<open>sz + alignment + 8\<close>, is of the class of the
  block, which it is for every alignment of at least 8. For the alignments 1, 2 and 4, which \<open>malloc_aligned\<close>
  raises to 8 and the sized \<open>free_aligned\<close> does not, the class can be another one (the last part, with size 1 and
  alignment 1), and then nothing is promised.
\<close>

theorem malloc_aligned_correct:
  assumes "alloc_run cores st L" "cores \<le> 64" "mmap_ok mmap (ph_heap (c_ph (cc st)))"
    "alignment = 2 ^ k" "r = sz + (if alignment < 8 then 8 else alignment) + 8" "r < 2 ^ 48"
  shows "(\<exists>q st'. malloc_aligned mmap ram tid sz alignment st = Some (q, st')
    \<and> (if q = 0 then refused mmap st r \<and> alloc_run cores st' L
       else alignment dvd q \<and> quiet L (c_mem (cc st)) (c_mem (cc st'))
         \<and> (\<exists>raw. L raw = None \<and> alloc_run cores st' (L(raw \<mapsto> r)) \<and> raw + 8 \<le> q \<and> q + sz \<le> raw + RoundUp r
            \<and> c_mem (cc st') (q - 8) = raw
            \<and> (\<forall>st2 L2. alloc_run cores st2 L2 \<and> L2 raw = Some r \<and> c_mem (cc st2) (q - 8) = raw \<longrightarrow>
                (\<exists>st3. free_aligned ram tid q st2 = Some st3 \<and> alloc_run cores st3 (L2(raw := None)))
                \<and> (8 \<le> alignment \<or> same_class (sz + alignment + 8) r \<longrightarrow>
                   (\<exists>st3. free_aligned_sized ram tid q sz alignment st2 = Some st3 \<and> alloc_run cores st3 (L2(raw := None))))))))
    \<and> \<not> same_class (GetAlignedRequestSize 1 1) (1 + 8 + 8)"
    (is "?A \<and> _")
proof -
  let ?al = "if alignment < 8 then 8 else alignment"
  have sz: "sz + ?al + 8 < 2 ^ 48" using assms(5,6) by simp
  show ?thesis
  proof (rule conjI [OF _ small_alignment_mismatch], rule malloc_aligned_ok [OF assms(1-4) refl sz, of ram tid])
    fix st' assume "malloc_aligned mmap ram tid sz alignment st = Some (0, st')" "alloc_run cores st' L" "refused mmap st (sz + ?al + 8)"
    then show ?A using assms(5) by auto
  next
    fix q raw st' assume m: "malloc_aligned mmap ram tid sz alignment st = Some (q, st')" "alignment dvd q"
      "L raw = None" "alloc_run cores st' (L(raw \<mapsto> sz + ?al + 8))" "raw + 8 \<le> q" "q + sz \<le> raw + RoundUp (sz + ?al + 8)"
      "c_mem (cc st') (q - 8) = raw" "quiet L (c_mem (cc st)) (c_mem (cc st'))" "q < 2 ^ 49"
    have q8: "8 \<le> q" "q < 2 ^ 50" and q0: "q \<noteq> 0" using m(5,9) by simp_all
    have "\<exists>st3. free_aligned ram tid q st2 = Some st3 \<and> alloc_run cores st3 (L2(raw := None))"
      if "alloc_run cores st2 L2" "L2 raw = Some r" "c_mem (cc st2) (q - 8) = raw" for st2 L2
      by (rule free_aligned_ok [OF that(1) assms(2) that(2,3) q8, of ram tid]) blast
    moreover have "\<exists>st3. free_aligned_sized ram tid q sz alignment st2 = Some st3 \<and> alloc_run cores st3 (L2(raw := None))"
      if "alloc_run cores st2 L2" "L2 raw = Some r" "c_mem (cc st2) (q - 8) = raw" "8 \<le> alignment \<or> same_class (sz + alignment + 8) r"
      for st2 L2
    proof -
      have s: "same_class (sz + alignment + 8) r" using that(4) assms(5) by (auto simp: same_class_def)
      have "sz + alignment + 8 < 2 ^ 48" using assms(5,6) by (simp split: if_splits)
      then show ?thesis
        by (rule free_aligned_sized_ok [OF that(1) assms(2) that(2,3) q8 _ s, of ram tid]) blast
    qed
    ultimately show ?A using m q0 unfolding assms(5)
      by (intro exI [of _ q] exI [of _ st']) (simp only: if_False, blast)
  qed
qed

theorem malloc_aligned_correct_witness:
  "\<exists>q st' st3. malloc_aligned sample_mmap 0 7 28 64 sample_start = Some (q, st') \<and> q \<noteq> 0 \<and> 64 dvd q
     \<and> free_aligned_sized 0 7 q 28 64 st' = Some st3 \<and> alloc_run 4 st3 Map.empty"
proof -
  have n: "(4::nat) \<le> 64" "(64::nat) = 2 ^ 6" "(100::nat) = 28 + (if 64 < (8::nat) then 8 else 64) + 8" "(100::nat) < 2 ^ 48"
    by simp_all
  from malloc_aligned_correct [OF sample_run(1) n(1) sample_run(2) n(2-4), of 0 7, THEN conjunct1]
  obtain q st' where m: "malloc_aligned sample_mmap 0 7 28 64 sample_start = Some (q, st')"
    and r: "if q = 0 then refused sample_mmap sample_start 100 \<and> alloc_run 4 st' Map.empty
       else 64 dvd q \<and> quiet Map.empty (c_mem (cc sample_start)) (c_mem (cc st'))
         \<and> (\<exists>raw. (Map.empty :: nat \<rightharpoonup> nat) raw = None \<and> alloc_run 4 st' [raw \<mapsto> 100] \<and> raw + 8 \<le> q \<and> q + 28 \<le> raw + RoundUp 100
            \<and> c_mem (cc st') (q - 8) = raw
            \<and> (\<forall>st2 L2. alloc_run 4 st2 L2 \<and> L2 raw = Some 100 \<and> c_mem (cc st2) (q - 8) = raw \<longrightarrow>
                (\<exists>st3. free_aligned 0 7 q st2 = Some st3 \<and> alloc_run 4 st3 (L2(raw := None)))
                \<and> (8 \<le> (64::nat) \<or> same_class (28 + 64 + 8) 100 \<longrightarrow>
                   (\<exists>st3. free_aligned_sized 0 7 q 28 64 st2 = Some st3 \<and> alloc_run 4 st3 (L2(raw := None))))))"
    by (elim exE conjE) (rule that, assumption+)
  have q: "q \<noteq> 0" using r sample_not_refused by (auto split: if_splits)
  then obtain raw where raw: "64 dvd q" "alloc_run 4 st' [raw \<mapsto> 100]" "c_mem (cc st') (q - 8) = raw"
    and free: "\<And>st2 L2. alloc_run 4 st2 L2 \<and> L2 raw = Some 100 \<and> c_mem (cc st2) (q - 8) = raw \<Longrightarrow>
      \<exists>st3. free_aligned_sized 0 7 q 28 64 st2 = Some st3 \<and> alloc_run 4 st3 (L2(raw := None))"
    using r by auto
  obtain st3 where "free_aligned_sized 0 7 q 28 64 st' = Some st3" "alloc_run 4 st3 ([raw \<mapsto> 100](raw := None))"
    using free [of st' "[raw \<mapsto> 100]"] raw(2,3) by auto
  then show ?thesis using m q raw(1) by auto
qed

text \<open>
  C10. \<open>realloc_aligned\<close> of an aligned block whose size it looks up: it gives the same address and
  changes nothing when the rest of the block is large enough; otherwise null, because the system
  refused the memory, or a multiple of the alignment in a new block that begins with the bytes of
  the old one, which is live no more, while no word of another live block changes.
\<close>

theorem realloc_aligned_correct:
  assumes run: "alloc_run cores st L" and cores: "cores \<le> 64" and mm: "mmap_ok mmap (ph_heap (c_ph (cc st)))"
    and k: "alignment = 2 ^ k" and r': "r' = new + (if alignment < 8 then 8 else alignment) + 8" "r' < 2 ^ 48" "0 < new"
    and raw: "L raw = Some r" "c_mem (cc st) (q - 8) = raw" "raw + 8 \<le> q" "q \<le> raw + RoundUp r" and cap: "cap = raw + RoundUp r - q"
  shows "\<exists>q' st'. realloc_aligned mmap ram tid q new alignment st = Some (q', st')
    \<and> (if new \<le> cap then q' = q \<and> st' = st
       else if q' = 0 then refused mmap st r' \<and> alloc_run cores st' L
       else alignment dvd q' \<and> (\<forall>i < cap. c_mem (cc st') (q' + i) = c_mem (cc st) (q + i))
         \<and> quiet (L(raw := None)) (c_mem (cc st)) (c_mem (cc st'))
         \<and> (\<exists>raw'. L raw' = None \<and> alloc_run cores st' (L(raw := None, raw' \<mapsto> r')) \<and> raw' + 8 \<le> q'
            \<and> q' + new \<le> raw' + RoundUp r' \<and> c_mem (cc st') (q' - 8) = raw'))"
proof -
  let ?al = "if alignment < 8 then 8 else alignment"
  obtain fl ca where inv: "alloc_inv st fl ca L" by (rule run_inv [OF run cores])
  have bd: "raw + RoundUp r \<le> 2 ^ 49" by (rule live_aligned(2) [OF inv raw(1)])
  note gs = GetAllocatedSize_live(1) [OF inv raw(1)]
  have raw0: "raw \<noteq> 0" by (rule live_nonzero [OF inv raw(1)])
  have q: "8 \<le> q" "q \<noteq> 0" "q < 2 ^ 50" using raw(3,4) bd by simp_all
  have w: "wsub q 8 = q - 8" "wsub q raw = q - raw" "wsub (RoundUp r) (q - raw) = cap"
    using raw(3,4) bd q unfolding cap by (simp_all add: wsub_small W64_def)
  have e: "realloc_aligned mmap ram tid q new alignment st =
     (if new \<le> cap then Some (q, st)
      else case malloc_aligned mmap ram tid new alignment st of None \<Rightarrow> None
         | Some (p, st) \<Rightarrow> if p \<noteq> 0
             then map_option (\<lambda>st. (p, st)) (free_aligned ram tid q (copy_block p q (if cap < new then cap else new) st))
             else Some (p, st))"
    unfolding realloc_aligned_def Let_def w(1) raw(2) gs option.case w(2,3) using q(2) r'(3) by simp
  show ?thesis
  proof (cases "new \<le> cap")
    case True
    then show ?thesis by (simp add: e)
  next
    case False
    have sz: "new + ?al + 8 < 2 ^ 48" using r' by simp
    have qs: "q < 2 ^ 50" using raw(4) bd by simp
    show ?thesis
    proof (rule malloc_aligned_ok [OF run cores mm k refl sz, of ram tid])
      fix st1 assume "malloc_aligned mmap ram tid new alignment st = Some (0, st1)" "alloc_run cores st1 L" "refused mmap st (new + ?al + 8)"
      then show ?thesis using False r'(1) by (auto simp: e)
    next
      fix p raw' st1 assume m: "malloc_aligned mmap ram tid new alignment st = Some (p, st1)" "alignment dvd p" "raw' \<noteq> 0"
        "L raw' = None" "alloc_run cores st1 (L(raw' \<mapsto> new + ?al + 8))" "raw' + 8 \<le> p" "p + new \<le> raw' + RoundUp (new + ?al + 8)"
        "c_mem (cc st1) (p - 8) = raw'" "quiet L (c_mem (cc st)) (c_mem (cc st1))"
      note m = m [folded r'(1)]
      let ?c = "copy_block p q cap st1" and ?L = "L(raw := None, raw' \<mapsto> r')"
      have ne: "raw' \<noteq> raw" using m(4) raw(1) by auto
      have dst: "raw' \<le> p" "p + cap \<le> raw' + RoundUp r'" and src: "raw \<le> q" "q + cap \<le> raw + RoundUp r"
        using m(6,7) False raw(3,4) unfolding cap by simp_all
      obtain fl2 ca2 where c: "alloc_inv ?c fl2 ca2 (L(raw' \<mapsto> r'))" "alloc_run cores ?c (L(raw' \<mapsto> r'))"
        and qu: "\<And>m3. quiet ?L (c_mem (cc ?c)) m3 \<Longrightarrow>
          quiet (L(raw := None)) (c_mem (cc st)) m3 \<and> (\<forall>i < cap. m3 (p + i) = c_mem (cc st) (q + i))"
        by (rule move_block [OF m(5) cores m(4) raw(1) m(9) dst src]) (rule that)
      have P: "(L(raw' \<mapsto> r')) raw = Some r" and R: "(L(raw' \<mapsto> r')) raw' = Some r'" using raw(1) ne by simp_all
      have tw: "L(raw' \<mapsto> r', raw := None) = ?L" using ne by (simp add: fun_upd_twist)
      have dj: "{raw..<raw + RoundUp r} \<inter> {raw'..<raw' + RoundUp r'} = {}"
        by (rule blocks_disjoint [OF c(1) P R]) (use ne in simp)
      have "q - 8 \<in> {raw..<raw + RoundUp r}" using raw(3,4) by auto
      then have "q - 8 \<notin> {p..<p + cap}" using dj dst by fastforce
      then have "c_mem (cc ?c) (q - 8) = c_mem (cc st1) (q - 8)" by (rule copy_block_at(2))
      also have "\<dots> = raw" using quietD [OF m(9) raw(1), of "q - 8"] raw(2-4) q(1) by simp
      finally have hd: "c_mem (cc ?c) (q - 8) = raw" .
      obtain st3 where f: "free_aligned ram tid q ?c = Some st3" "alloc_run cores st3 ?L"
          "quiet ?L (c_mem (cc ?c)) (c_mem (cc st3))"
        by (rule free_aligned_ok [OF c(2) cores P hd q(1) qs, of ram tid, unfolded tw]) (rule that)
      have "c_mem (cc st3) (p - 8) = c_mem (cc ?c) (p - 8)"
        by (rule quietD [OF f(3), of raw' r']) (use m(6) dst in auto)
      also have "\<dots> = raw'" using copy_block_at(2) [of "p - 8" p cap q st1] m(6,8) by simp
      finally have hd': "c_mem (cc st3) (p - 8) = raw'" .
      have "realloc_aligned mmap ram tid q new alignment st = Some (p, st3)"
        using False m(1,6) f(1) by (simp add: e)
      moreover have "p \<noteq> 0" using m(6) by simp
      moreover have "\<exists>raw'. L raw' = None \<and> alloc_run cores st3 (L(raw := None, raw' \<mapsto> r')) \<and> raw' + 8 \<le> p
          \<and> p + new \<le> raw' + RoundUp r' \<and> c_mem (cc st3) (p - 8) = raw'"
        by (intro exI [of _ raw'] conjI m(4,6,7) f(2) hd')
      ultimately show ?thesis using False m(2) conjunct1 [OF qu [OF f(3)]] conjunct2 [OF qu [OF f(3)]]
        by (intro exI [of _ p] exI [of _ st3]) (simp only: if_False simp_thms, (intro conjI; assumption)?)
    qed
  qed
qed

text \<open>An aligned block of 3000000 bytes, more than the largest size class, in the empty heap, and its header.\<close>

abbreviation "later_mmap \<equiv> \<lambda>sz. if sz = 0 \<or> 2 ^ 40 < sz then None else Some (2 ^ 41)"

lemma big_blocks:
  "drop_bit PAGE_SHIFT (RoundUp 3000072) = 184" "RoundUp 3000072 = 3014656" "drop_bit PAGE_SHIFT (RoundUp 5000072) = 306"
  "SystemAlloc sample_mmap 184 = Some (16384, [(4096, 12288), (3031040, 4096)])" "SystemAlloc later_mmap 306 \<noteq> None"
  by (simp_all add: RoundUp_def RoundUpToPage_def MAX_BYTES_def drop_bit_eq_div PAGE_SHIFT_def SystemAlloc_def Let_def sample_mmap_def push_bit_eq_mult
      PAGE_SIZE_def W64_def wadd_def wsub_def PAGE_ROUND_UP_NUM_def PAGE_ROUND_UP_NUM_NEGATE_def)

lemma sample_aligned:
  obtains q raw st where "malloc_aligned sample_mmap 0 7 3000000 64 sample_start = Some (q, st)" "alloc_run 4 st [raw \<mapsto> 3000072]"
    "raw + 8 \<le> q" "q + 3000000 \<le> raw + RoundUp 3000072" "c_mem (cc st) (q - 8) = raw" "one_span_of 1 184 (ph_heap (c_ph (cc st)))"
proof -
  have n: "(4::nat) \<le> 64" "(64::nat) = 2 ^ 6" "3000000 + 64 + 8 < (2::nat) ^ 48" "64 = (if 64 < (8::nat) then 8 else 64)" by simp_all
  show thesis
  proof (rule malloc_aligned_ok [OF sample_run(1) n(1) sample_run(2) n(2,4,3), of 0 7])
    assume "refused sample_mmap sample_start (3000000 + 64 + 8)"
    then show thesis
      by (simp add: refused_def out_of_memory_def MAX_BYTES_def big_blocks(2,4) alloc_size_def NPAGES_def allocator_init_def CentralCache_init_def sample_heap_inv(6)
          drop_bit_eq_div PAGE_SHIFT_def)
  next
    fix q raw st
    assume m: "malloc_aligned sample_mmap 0 7 3000000 64 sample_start = Some (q, st)" "alloc_run 4 st [raw \<mapsto> 3000000 + 64 + 8]"
      "raw + 8 \<le> q" "q + 3000000 \<le> raw + RoundUp (3000000 + 64 + 8)" "c_mem (cc st) (q - 8) = raw"
    have "GetAlignedRequestSize 3000000 64 = 3000072" by (simp add: GetAlignedRequestSize_def wadd_def W64_def)
    then obtain p st0 where p: "kz_malloc sample_mmap 0 7 3000072 sample_start = Some (p, st0)" "c_ph (cc st) = c_ph (cc st0)"
      using m(1) by (auto simp: malloc_aligned_def Let_def user_write_def split: option.splits prod.splits if_splits)
    have "one_span_of 1 184 (ph_heap (c_ph (cc st0)))"
      using malloc_first [of 3000072 184 sample_mmap 16384 _ 0 7 p st0, OF _ _ _ big_blocks(4) _ p(1)]
      by (simp add: MAX_BYTES_def big_blocks(2) NPAGES_def drop_bit_eq_div PAGE_SHIFT_def)
    then show thesis using that [OF m(1) _ m(3) _ m(5)] m(2,4) p(2) by simp
  qed
qed

theorem realloc_aligned_correct_witness:
  "\<exists>q st raw q' st' raw'. malloc_aligned sample_mmap 0 7 3000000 64 sample_start = Some (q, st) \<and> q \<noteq> 0 \<and> alloc_run 4 st [raw \<mapsto> 3000072]
     \<and> realloc_aligned later_mmap 0 7 q 1000 64 st = Some (q, st)
     \<and> realloc_aligned later_mmap 0 7 q 5000000 64 st = Some (q', st') \<and> q' \<noteq> 0 \<and> 64 dvd q'
     \<and> raw' \<noteq> raw \<and> alloc_run 4 st' [raw' \<mapsto> 5000072]"
proof -
  obtain q raw st where m: "malloc_aligned sample_mmap 0 7 3000000 64 sample_start = Some (q, st)" "alloc_run 4 st [raw \<mapsto> 3000072]"
    "raw + 8 \<le> q" "q + 3000000 \<le> raw + RoundUp 3000072" "c_mem (cc st) (q - 8) = raw" "one_span_of 1 184 (ph_heap (c_ph (cc st)))"
    by (rule sample_aligned)
  have mm: "mmap_ok later_mmap (ph_heap (c_ph (cc st)))" by (rule one_span_room [OF m(6)]) (simp add: PAGE_SIZE_def)
  have nr: "\<not> refused later_mmap st 5000072"
    using m(6) big_blocks(5) by (simp add: refused_def out_of_memory_def MAX_BYTES_def big_blocks(3) alloc_size_def NPAGES_def one_span_of_def)
  have n: "(4::nat) \<le> 64" "(64::nat) = 2 ^ 6" "5000072 = 5000000 + (if 64 < (8::nat) then 8 else 64) + (8::nat)" "(5000072::nat) < 2 ^ 48" "0 < (5000000::nat)"
    "1072 = 1000 + (if 64 < (8::nat) then 8 else 64) + (8::nat)" "(1072::nat) < 2 ^ 48" "0 < (1000::nat)" "[raw \<mapsto> 3000072] raw = Some (3000072::nat)"
    by simp_all
  have q: "q \<le> raw + RoundUp 3000072" using m(4) by simp
  note run = realloc_aligned_correct [OF m(2) n(1) mm n(2) _ _ _ n(9) m(5,3) q refl, of _ _ 0 7]
  have cap: "\<not> 5000000 \<le> raw + RoundUp 3000072 - q" using m(3) by (simp add: big_blocks(2))
  from run [OF n(3-5)] obtain q' st' raw' where q': "realloc_aligned later_mmap 0 7 q 5000000 64 st = Some (q', st')" "q' \<noteq> 0" "64 dvd q'"
    "[raw \<mapsto> 3000072] raw' = (None :: nat option)" "alloc_run 4 st' ([raw \<mapsto> 3000072](raw := None, raw' \<mapsto> 5000072))"
    using cap nr by (elim exE conjE) (auto split: if_splits)
  have ne: "raw' \<noteq> raw" using q'(4) by auto
  have "alloc_run 4 st' [raw' \<mapsto> 5000072]" using q'(5) by simp
  moreover have "1000 \<le> raw + RoundUp 3000072 - q" using m(4) by simp
  then have "realloc_aligned later_mmap 0 7 q 1000 64 st = Some (q, st)"
    using run [OF n(6-8)] by (elim exE conjE) (simp only: if_True)
  moreover have "q \<noteq> 0" using m(3) by simp
  ultimately show ?thesis using m(1,2) q'(1-3) ne by blast
qed

subsection \<open>Where a size is not that of the block\<close>

text \<open>
  A block that \<open>realloc\<close> shrinks in place keeps its class, which the new size does not name: the
  sized \<open>free\<close> of a large block with the small size pushes it on a list of the thread and leaves its
  span in use.
\<close>

lemma shrunk_block_kept:
  assumes "p \<noteq> 0" "0 < new" "new \<le> MAX_BYTES" "RoundUp new < RoundUp old" "caches st tid = Some tc"
    "wadd (fl_size (tc (Index new))) 1 < wadd (fl_maxSize (tc (Index new))) (fl_maxNum (tc (Index new)))"
  shows "kz_realloc_sized mmap ram tid p old new st = Some (p, st)
    \<and> (\<exists>st'. kz_free_sized ram tid p new st = Some st' \<and> c_ph (cc st') = c_ph (cc st))"
  using assms
  by (auto simp: kz_realloc_sized_def kz_free_sized_def Let_def deallocate_small_def ThreadCache_Deallocate_def
      GetThreadCache_def Push_def)

end
