(* ===== verification/Digits.thy ===== *)
theory Digits
  imports Prelude
begin

text \<open>
  Integer formatting: \<open>KzAlgorithm/Jeaiii.h\<close> (decimal) and \<open>KzAlgorithm/Hex.h\<close>
  (hexadecimal). A buffer is a list of characters; a routine takes the position it writes at and
  returns the buffer with the new end, as the code returns the end pointer. The specification
  is the decimal numeral \<open>dec\<close>.
\<close>

definition chr :: "nat \<Rightarrow> char" where
  "chr n = char_of n"

definition code :: "char \<Rightarrow> nat" where
  "code c = of_char c"

lemma code_chr [simp]: "n < 256 \<Longrightarrow> code (chr n) = n"
  by (simp add: code_def chr_def)

lemma chr_code [simp]: "chr (code c) = c"
  by (simp add: code_def chr_def)

lemma chr_eq: "code c = n \<Longrightarrow> chr n = c"
  by auto

lemma code_less [simp]: "code c < 256"
  by (simp add: code_def)

definition g_powers_of_10 :: "nat list" where
  "g_powers_of_10 = 0 # map (\<lambda>k. 10 ^ k) [1..<20]"

text \<open>The portable fallback, which the builtin computes in one instruction.\<close>

function log2_loop :: "nat \<Rightarrow> nat" where
  "log2_loop n = (let n = drop_bit 1 n in if n \<noteq> 0 then 1 + log2_loop n else 0)"
  by pat_completeness auto
termination
  by (relation "measure id") (auto simp: drop_bit_eq_div)

declare log2_loop.simps [simp del]

definition count_leading_zeros :: "nat \<Rightarrow> nat" where
  "count_leading_zeros n = 63 - log2_loop n"

definition count_digits :: "nat \<Rightarrow> nat" where
  "count_digits n =
     (if n = 0 then 1
      else let bits = 64 - count_leading_zeros n;
               t = drop_bit 12 (bits * 1233)
           in t + (if n \<ge> g_powers_of_10 ! t then 1 else 0))"

text \<open>\<open>memcpy\<close> of a little-endian 16-bit value.\<close>

definition write_pair :: "string \<Rightarrow> nat \<Rightarrow> nat \<Rightarrow> string" where
  "write_pair buf p n =
     (let q = drop_bit 10 (n * 103);
          r = n - q * 10;
          val = (12336 OR q OR push_bit 8 r) mod 2 ^ 16
      in buf[p := chr (val mod 256), p + 1 := chr (val div 256)])"

function digits_loop :: "string \<Rightarrow> nat \<Rightarrow> nat \<Rightarrow> string" where
  "digits_loop buf pos n =
     (if n \<ge> 100 then digits_loop (write_pair buf (pos - 2) (n mod 100)) (pos - 2) (n div 100)
      else if n < 10 then buf[pos - 1 := chr (48 + n)]
      else write_pair buf (pos - 2) n)"
  by pat_completeness auto
termination
  by (relation "measure (\<lambda>(b, p, n). n)") auto

declare digits_loop.simps [simp del]

definition to_chars :: "string \<Rightarrow> nat \<Rightarrow> nat \<Rightarrow> string \<times> nat" where
  "to_chars buf p n =
     (if n = 0 then (buf[p := CHR ''0''], p + 1)
      else let len = count_digits n in (digits_loop buf (p + len) n, p + len))"

definition to_chars_int64 :: "string \<Rightarrow> nat \<Rightarrow> int \<Rightarrow> string \<times> nat" where
  "to_chars_int64 buf p n =
     (if n < 0 then to_chars (buf[p := CHR ''-'']) (p + 1) (wsub 0 (nat (n mod 2 ^ 64)))
      else to_chars buf p (nat n))"

definition to_chars_int :: "string \<Rightarrow> nat \<Rightarrow> int \<Rightarrow> string \<times> nat" where
  "to_chars_int buf p n = to_chars_int64 buf p n"

subsection \<open>Decimal numerals\<close>

definition digit :: "nat \<Rightarrow> char" where
  "digit d = chr (48 + d)"

fun dec :: "nat \<Rightarrow> string" where
  "dec n = (if n < 10 then [digit n] else dec (n div 10) @ [digit (n mod 10)])"

declare dec.simps [simp del]

lemma dec_less: "n < 10 \<Longrightarrow> dec n = [digit n]"
  by (simp add: dec.simps)

lemma dec_step: "10 \<le> n \<Longrightarrow> dec n = dec (n div 10) @ [digit (n mod 10)]"
  by (subst dec.simps) simp

lemma dec_snoc: "0 < n \<Longrightarrow> d < 10 \<Longrightarrow> dec (n * 10 + d) = dec n @ [digit d]"
  by (simp add: dec_step)

lemma dec_two: "100 \<le> n \<Longrightarrow> dec n = dec (n div 100) @ [digit (n mod 100 div 10), digit (n mod 10)]"
proof -
  assume n: "100 \<le> n"
  then have "dec n = dec (n div 10 div 10) @ [digit (n div 10 mod 10)] @ [digit (n mod 10)]"
    by (simp add: dec_step [of n] dec_step [of "n div 10"])
  moreover have "n div 10 mod 10 = n mod 100 div 10"
    using mod_mult2_eq [of n 10 10] by simp
  ultimately show ?thesis by (simp add: div_mult2_eq [symmetric])
qed

lemma dec_nonempty [simp]: "dec n \<noteq> []"
  by (cases "n < 10") (simp_all add: dec_less dec_step)

lemma length_dec: "k \<ge> 1 \<Longrightarrow> length (dec n) \<le> k \<longleftrightarrow> n < 10 ^ k"
proof (induction k arbitrary: n)
  case (Suc k)
  show ?case
  proof (cases "n < 10")
    case True
    then have "n < 10 ^ Suc k" by (rule less_le_trans) simp
    then show ?thesis using True by (simp add: dec_less)
  next
    case False
    show ?thesis
    proof (cases k)
      case 0
      have "0 < length (dec (n div 10))" by simp
      then have "\<not> length (dec n) \<le> 1" using False by (simp add: dec_step [of n] del: length_greater_0_conv length_0_conv)
      then show ?thesis using False 0 by simp
    next
      case (Suc m)
      then have "length (dec (n div 10)) \<le> k \<longleftrightarrow> n div 10 < 10 ^ k" using Suc.IH by simp
      also have "\<dots> \<longleftrightarrow> n < 10 ^ Suc k" by (simp add: div_less_iff_less_mult mult.commute)
      finally show ?thesis using False by (simp add: dec_step [of n])
    qed
  qed
qed simp

subsection \<open>Counting digits\<close>

lemma log2_loop_bounds: "0 < n \<Longrightarrow> 2 ^ log2_loop n \<le> n \<and> n < 2 ^ (log2_loop n + 1)"
proof (induction n rule: log2_loop.induct)
  case (1 n)
  show ?case
  proof (cases "n div 2 = 0")
    case True
    then have "log2_loop n = 0" by (simp add: log2_loop.simps [of n] drop_bit_eq_div)
    then show ?thesis using 1(2) True by simp
  next
    case False
    then have e: "log2_loop n = 1 + log2_loop (n div 2)"
      by (simp add: log2_loop.simps [of n] drop_bit_eq_div)
    define k where "k = (2::nat) ^ log2_loop (n div 2)"
    have "2 ^ log2_loop (n div 2) \<le> n div 2 \<and> n div 2 < 2 ^ (log2_loop (n div 2) + 1)"
      using 1(1) [OF refl] False by (simp add: drop_bit_eq_div)
    then have "k \<le> n div 2 \<and> n div 2 < 2 * k" by (simp add: k_def)
    then have "2 * k \<le> n \<and> n < 4 * k" by linarith
    then show ?thesis unfolding e by (simp add: k_def)
  qed
qed

definition estimate :: "nat \<Rightarrow> nat" where
  "estimate bits = drop_bit 12 (bits * 1233)"

text \<open>The fixed-point estimate is right for each of the 64 bit lengths.\<close>

lemma estimate_table:
  "list_all (\<lambda>b. let t = estimate b in t < 20 \<and> (0 < t \<longrightarrow> 10 ^ (t - 1) \<le> (2::nat) ^ (b - 1))
     \<and> (2::nat) ^ b \<le> 10 ^ (t + 1) \<and> (t = 0 \<longrightarrow> (2::nat) ^ b \<le> 10)) [1..<65]"
  by (simp add: estimate_def upt_rec)

lemma count_digits_dec:
  assumes "n < 2 ^ 64"
  shows "count_digits n = length (dec n)"
proof (cases "n = 0")
  case True
  then show ?thesis by (simp add: count_digits_def dec_less)
next
  case False
  let ?b = "log2_loop n + 1"
  have lb: "2 ^ log2_loop n \<le> n" "n < 2 ^ ?b" using log2_loop_bounds [of n] False by simp_all
  have "(2::nat) ^ log2_loop n < 2 ^ 64" using lb(1) assms by linarith
  then have l: "log2_loop n < 64" by (rule power_less_imp_less_exp [rotated]) simp
  then have b: "64 - count_leading_zeros n = ?b" by (simp add: count_leading_zeros_def)
  define t where "t = estimate ?b"
  have "?b \<in> set [1..<65]" using l by simp
  with estimate_table have t: "t < 20" "0 < t \<Longrightarrow> 10 ^ (t - 1) \<le> (2::nat) ^ (?b - 1)" "(2::nat) ^ ?b \<le> 10 ^ (t + 1)"
    unfolding list_all_iff t_def Let_def by blast+
  have c: "count_digits n = t + (if n \<ge> g_powers_of_10 ! t then 1 else 0)"
    using False by (simp add: count_digits_def b t_def estimate_def)
  have up: "length (dec n) \<le> t + 1" using lb(2) t(3) by (subst length_dec) simp_all
  show ?thesis
  proof (cases "t = 0")
    case True
    have "0 < length (dec n)" by simp
    then show ?thesis using up True by (simp add: c g_powers_of_10_def del: length_greater_0_conv)
  next
    case pos: False
    then have g: "g_powers_of_10 ! t = 10 ^ t" using t(1) by (simp add: g_powers_of_10_def nth_Cons')
    have "10 ^ (t - 1) \<le> n" using t(2) pos lb(1) by simp
    then have low: "\<not> length (dec n) \<le> t - 1"
    proof (cases "t = 1")
      case False
      then show ?thesis using \<open>10 ^ (t - 1) \<le> n\<close> pos by (subst length_dec) auto
    qed simp
    have "length (dec n) \<le> t \<longleftrightarrow> n < 10 ^ t" using pos by (intro length_dec) simp
    then show ?thesis using up low pos unfolding c g by (cases "10 ^ t \<le> n") simp_all
  qed
qed

subsection \<open>Writing digits\<close>

lemma div10_table: "list_all (\<lambda>n. drop_bit 10 (n * 103) = n div 10) [0..<100::nat]"
  by (simp add: upt_rec)

lemma ascii_pair_table:
  "list_all (\<lambda>q. list_all (\<lambda>r. 12336 OR q OR push_bit 8 r = 48 + q + (48 + r) * (256::nat))
     [0, 1, 2, 3, 4, 5, 6, 7, 8, 9]) [0, 1, 2, 3, 4, 5, 6, 7, 8, 9::nat]"
  unfolding push_bit_eq_mult by (simp del: One_nat_def)

lemma less_10_cases: "(n::nat) < 10 \<Longrightarrow> n \<in> set [0, 1, 2, 3, 4, 5, 6, 7, 8, 9]"
  by auto

lemma write_pair_eq:
  assumes "n < 100"
  shows "write_pair buf p n = buf[p := digit (n div 10), p + 1 := digit (n mod 10)]"
proof -
  have q: "drop_bit 10 (n * 103) = n div 10" using div10_table assms by (simp add: list_all_iff)
  have r: "n - n div 10 * 10 = n mod 10" by (simp add: minus_div_mult_eq_mod)
  have "12336 OR (n div 10) OR push_bit 8 (n mod 10) = 48 + n div 10 + (48 + n mod 10) * 256"
    using ascii_pair_table less_10_cases [of "n div 10"] less_10_cases [of "n mod 10"] assms
    unfolding list_all_iff by (simp del: set_simps)
  then have v: "(12336 OR (n div 10) OR push_bit 8 (n mod 10)) mod 2 ^ 16 = 48 + n div 10 + (48 + n mod 10) * 256"
    using assms by simp
  have lo: "(48 + n div 10 + (48 + n mod 10) * 256) mod 256 = 48 + n div 10"
    unfolding mod_mult_self1 using assms by (intro mod_less) simp
  have "(48 + n div 10) div 256 = 0" using assms by simp
  then have hi: "(48 + n div 10 + (48 + n mod 10) * 256) div 256 = 48 + n mod 10" by simp
  show ?thesis unfolding write_pair_def q r Let_def v lo hi digit_def ..
qed

lemma dec_pair: "10 \<le> n \<Longrightarrow> n < 100 \<Longrightarrow> dec n = [digit (n div 10), digit (n mod 10)]"
  by (simp add: dec_step dec_less)

lemma update_two:
  assumes "2 \<le> pos" "pos \<le> length buf"
  shows "buf[pos - 2 := a, pos - 2 + 1 := b] = take (pos - 2) buf @ [a, b] @ drop pos buf"
  using assms by (intro nth_equalityI) (auto simp: nth_append nth_list_update nth_Cons')

lemma update_one:
  assumes "1 \<le> pos" "pos \<le> length buf"
  shows "buf[pos - 1 := a] = take (pos - 1) buf @ [a] @ drop pos buf"
  using assms by (intro nth_equalityI) (auto simp: nth_append nth_list_update nth_Cons')

lemma digits_loop_dec:
  "length (dec n) \<le> pos \<Longrightarrow> pos \<le> length buf \<Longrightarrow>
   digits_loop buf pos n = take (pos - length (dec n)) buf @ dec n @ drop pos buf"
proof (induction buf pos n rule: digits_loop.induct)
  case (1 buf pos n)
  show ?case
  proof (cases "n \<ge> 100")
    case True
    let ?b = "write_pair buf (pos - 2) (n mod 100)"
    have d: "dec n = dec (n div 100) @ [digit (n mod 100 div 10), digit (n mod 10)]" by (rule dec_two [OF True])
    have m: "n mod 100 mod 10 = n mod 10" by (simp add: mod_mod_cancel)
    have two: "2 \<le> pos" "length (dec (n div 100)) \<le> pos - 2" using 1(2) by (simp_all add: d)
    have b: "?b = take (pos - 2) buf @ [digit (n mod 100 div 10), digit (n mod 10)] @ drop pos buf"
      using update_two [OF two(1) 1(3)] by (simp add: write_pair_eq m)
    have lb: "pos - 2 \<le> length ?b" using 1(3) by (simp add: b)
    have "digits_loop ?b (pos - 2) (n div 100)
        = take (pos - 2 - length (dec (n div 100))) ?b @ dec (n div 100) @ drop (pos - 2) ?b"
      by (rule 1(1) [OF True two(2) lb])
    moreover have "drop (pos - 2) ?b = [digit (n mod 100 div 10), digit (n mod 10)] @ drop pos buf"
      using 1(3) by (simp add: b)
    moreover have "take (pos - 2 - length (dec (n div 100))) ?b = take (pos - length (dec n)) buf"
      using 1(3) two by (auto simp: b d min_def)
    ultimately show ?thesis using True by (simp add: digits_loop.simps [of buf pos n] d)
  next
    case False
    show ?thesis
    proof (cases "n < 10")
      case True
      then show ?thesis
        using 1(2,3) update_one [of pos buf "digit n"]
        by (simp add: digits_loop.simps [of buf pos n] dec_less digit_def)
    next
      case ge: False
      then have "dec n = [digit (n div 10), digit (n mod 10)]" using False by (intro dec_pair) simp_all
      then show ?thesis
        using 1(2,3) False ge update_two [of pos buf "digit (n div 10)" "digit (n mod 10)"]
        by (simp add: digits_loop.simps [of buf pos n] write_pair_eq numeral_2_eq_2)
    qed
  qed
qed

text \<open>What a formatting routine promises: the text is written at the position, the end follows
  it, and the rest of the buffer is untouched.\<close>

definition puts :: "string \<Rightarrow> nat \<Rightarrow> string \<Rightarrow> string \<times> nat" where
  "puts buf p t = (take p buf @ t @ drop (p + length t) buf, p + length t)"

lemma to_chars_puts:
  assumes "n < 2 ^ 64" "p + length (dec n) \<le> length buf"
  shows "to_chars buf p n = puts buf p (dec n)"
proof (cases "n = 0")
  case True
  then show ?thesis
    using assms(2) update_one [of "p + 1" buf "CHR ''0''"]
    by (simp add: to_chars_def puts_def dec_less digit_def code_def chr_eq [of "CHR ''0''" 48])
next
  case False
  have "digits_loop buf (p + length (dec n)) n = take p buf @ dec n @ drop (p + length (dec n)) buf"
    using assms(2) by (simp add: digits_loop_dec)
  then show ?thesis using False assms(1) by (simp add: to_chars_def puts_def count_digits_dec Let_def)
qed

definition sdec :: "int \<Rightarrow> string" where
  "sdec n = (if n < 0 then CHR ''-'' # dec (nat (- n)) else dec (nat n))"

lemma wrap_neg:
  assumes "- (2 ^ 63) \<le> n" "n < 0"
  shows "wsub 0 (nat (n mod 2 ^ 64)) = nat (- n)"
proof -
  have "n mod 2 ^ 64 = (n + 2 ^ 64) mod 2 ^ 64" by simp
  also have "\<dots> = n + 2 ^ 64" using assms by (intro mod_pos_pos_trivial) simp_all
  finally have "n mod 2 ^ 64 = n + 2 ^ 64" .
  then have m: "nat (n mod 2 ^ 64) = W64 - nat (- n)" using assms by (simp add: W64_def nat_diff_distrib)
  have "nat (- n) \<le> 2 ^ 63" "0 < nat (- n)" using assms by simp_all
  then show ?thesis unfolding m wsub_def by (simp add: W64_def)
qed

text \<open>C40. A signed 64-bit integer is written as its decimal numeral, \<open>INT64_MIN\<close> included,
  with no leading zero; the end returned is just behind it and no other character of the buffer
  changes.\<close>

theorem to_chars_int_dec:
  assumes "- (2 ^ 63) \<le> n" "n < 2 ^ 63" "p + length (sdec n) \<le> length buf"
  shows "to_chars_int buf p n = puts buf p (sdec n)"
proof (cases "n < 0")
  case True
  have "nat (- n) \<le> 2 ^ 63" using assms True by simp
  then have "to_chars (buf[p := CHR ''-'']) (p + 1) (nat (- n))
      = puts (buf[p := CHR ''-'']) (p + 1) (dec (nat (- n)))"
    using assms True by (intro to_chars_puts) (simp_all add: sdec_def)
  moreover have "take (p + 1) (buf[p := CHR ''-'']) = take p buf @ ''-''"
    using assms True by (simp add: sdec_def take_Suc_nth)
  ultimately show ?thesis
    using True wrap_neg [OF assms(1) True]
    unfolding to_chars_int_def to_chars_int64_def by (simp add: puts_def sdec_def)
next
  case False
  then show ?thesis
    using assms by (simp add: to_chars_int_def to_chars_int64_def sdec_def to_chars_puts)
qed

theorem to_chars_int_dec_witness:
  "to_chars_int ''xxxxxxxx'' 1 (- 507) = (''x-507xxx'', 5)"
proof -
  have s: "sdec (- 507) = ''-507''" by (simp add: sdec_def dec.simps digit_def chr_eq code_def)
  show ?thesis
    by (subst to_chars_int_dec) (simp_all add: s puts_def)
qed

subsection \<open>Hexadecimal\<close>

definition g_hexDigits :: string where
  "g_hexDigits = concat
    [''000102030405060708090a0b0c0d0e0f'',
     ''101112131415161718191a1b1c1d1e1f'',
     ''202122232425262728292a2b2c2d2e2f'',
     ''303132333435363738393a3b3c3d3e3f'',
     ''404142434445464748494a4b4c4d4e4f'',
     ''505152535455565758595a5b5c5d5e5f'',
     ''606162636465666768696a6b6c6d6e6f'',
     ''707172737475767778797a7b7c7d7e7f'',
     ''808182838485868788898a8b8c8d8e8f'',
     ''909192939495969798999a9b9c9d9e9f'',
     ''a0a1a2a3a4a5a6a7a8a9aaabacadaeaf'',
     ''b0b1b2b3b4b5b6b7b8b9babbbcbdbebf'',
     ''c0c1c2c3c4c5c6c7c8c9cacbcccdcecf'',
     ''d0d1d2d3d4d5d6d7d8d9dadbdcdddedf'',
     ''e0e1e2e3e4e5e6e7e8e9eaebecedeeef'',
     ''f0f1f2f3f4f5f6f7f8f9fafbfcfdfeff'']"

function hex_loop :: "string \<Rightarrow> nat \<Rightarrow> nat \<Rightarrow> nat \<Rightarrow> string \<times> nat" where
  "hex_loop buf q shift p =
     (if shift > 0
      then let shift = shift - 8;
               byte = drop_bit shift p AND 255
           in hex_loop (buf[q := g_hexDigits ! (byte * 2), q + 1 := g_hexDigits ! (byte * 2 + 1)])
                (q + 2) shift p
      else (buf, q))"
  by pat_completeness auto
termination
  by (relation "measure (\<lambda>(b, q, s, p). s)") auto

declare hex_loop.simps [simp del]

definition to_hex :: "string \<Rightarrow> nat \<Rightarrow> nat \<Rightarrow> string \<times> nat" where
  "to_hex buf q p =
     (let buf = buf[q := CHR ''0'', q + 1 := CHR ''x'']; q = q + 2
      in if p = 0 then (buf[q := CHR ''0''], q + 1)
         else let zero_bits = count_leading_zeros p;
                  shift = 64 - zero_bits;
                  shift = (shift + 7) AND (2 ^ 32 - 2 ^ 3)
              in hex_loop buf q shift p)"

definition hexdigit :: "nat \<Rightarrow> char" where
  "hexdigit d = chr (if d < 10 then 48 + d else 87 + d)"

fun hexbytes :: "nat \<Rightarrow> nat \<Rightarrow> string" where
  "hexbytes 0 p = []"
| "hexbytes (Suc k) p = (let b = p div 256 ^ k mod 256 in [hexdigit (b div 16), hexdigit (b mod 16)]) @ hexbytes k p"

lemma hexdigit_table:
  "map hexdigit [0, 1, 2, 3, 4, 5, 6, 7, 8, 9, 10, 11, 12, 13, 14, 15] = ''0123456789abcdef''"
  by (simp add: hexdigit_def chr_eq code_def)

lemmas hexdigits = hexdigit_table [unfolded list.map list.inject simp_thms]

lemma upto_16: "[0..<16] = [0, 1, 2, 3, 4, 5, 6, 7, 8, 9, 10, 11, 12, 13, 14, 15]"
  by (simp add: upt_rec)

lemma g_hexDigits_rows:
  "g_hexDigits = concat (map (\<lambda>h. concat (map (\<lambda>l. [hexdigit h, hexdigit l]) [0..<16])) [0..<16])"
  unfolding g_hexDigits_def upto_16
  by (rule arg_cong [of _ _ concat]) (simp only: list.map concat.simps append.simps hexdigits)

lemma g_hexDigits_nth:
  assumes "b < 256" "j < 2"
  shows "g_hexDigits ! (b * 2 + j) = [hexdigit (b div 16), hexdigit (b mod 16)] ! j"
proof -
  let ?row = "\<lambda>h. concat (map (\<lambda>l. [hexdigit h, hexdigit l]) [0..<16])"
  have len: "length (?row h) = 32" for h by (simp add: upt_rec)
  have "b mod 16 < 16" by simp
  then have lt: "b mod 16 * 2 + j < 32" using assms(2) by linarith
  have "b = b div 16 * 16 + b mod 16" by simp
  then have i: "b * 2 + j = b div 16 * 32 + (b mod 16 * 2 + j)" by linarith
  have "b div 16 < 16" using assms(1) by simp
  then have "g_hexDigits ! (b * 2 + j) = ?row (b div 16) ! (b mod 16 * 2 + j)"
    unfolding g_hexDigits_rows i using len lt by (intro nth_concat_blocks)
  also have "\<dots> = [hexdigit (b div 16), hexdigit (b mod 16)] ! j"
    using assms(2) by (intro nth_concat_blocks) simp_all
  finally show ?thesis .
qed

lemma length_hexbytes [simp]: "length (hexbytes k p) = 2 * k"
  by (induction k) (simp_all add: Let_def)

lemma hex_loop_puts:
  "q + 2 * k \<le> length buf \<Longrightarrow> hex_loop buf q (8 * k) p = puts buf q (hexbytes k p)"
proof (induction k arbitrary: buf q)
  case 0
  then show ?case by (simp add: hex_loop.simps puts_def)
next
  case (Suc k)
  define b where "b = p div 256 ^ k mod 256"
  let ?u = "buf[q := hexdigit (b div 16), q + 1 := hexdigit (b mod 16)]"
  have byt: "drop_bit (8 * k) p AND 255 = b"
    using and_pow2_minus_1 [of "drop_bit (8 * k) p" 8]
    by (simp add: b_def drop_bit_eq_div power_mult)
  have g: "g_hexDigits ! (b * 2) = hexdigit (b div 16)" "g_hexDigits ! (b * 2 + 1) = hexdigit (b mod 16)"
    using g_hexDigits_nth [of b 0] g_hexDigits_nth [of b 1] by (simp_all add: b_def)
  have u: "?u = take q buf @ [hexdigit (b div 16), hexdigit (b mod 16)] @ drop (q + 2) buf"
    using update_two [of "q + 2" buf] Suc.prems by simp
  have "8 * Suc k - 8 = 8 * k" by simp
  then have "hex_loop buf q (8 * Suc k) p = hex_loop ?u (q + 2) (8 * k) p"
    by (subst hex_loop.simps) (simp add: Let_def byt g [simplified])
  also have "\<dots> = puts ?u (q + 2) (hexbytes k p)" using Suc by simp
  also have "\<dots> = puts buf q (hexbytes (Suc k) p)"
    using Suc.prems unfolding u by (simp add: puts_def Let_def b_def [symmetric] add.commute)
  finally show ?case .
qed

definition hex_bytes_of :: "nat \<Rightarrow> nat" where
  "hex_bytes_of p = (log2_loop p + 8) div 8"

lemma hex_bytes_bound:
  assumes "0 < p" "p < 2 ^ 64"
  shows "hex_bytes_of p \<le> 8" "256 ^ (hex_bytes_of p - 1) \<le> p" "p < 256 ^ hex_bytes_of p"
    "0 < hex_bytes_of p"
proof -
  let ?l = "log2_loop p"
  let ?k = "hex_bytes_of p"
  have lb: "2 ^ ?l \<le> p" "p < 2 ^ (?l + 1)" using log2_loop_bounds [OF assms(1)] by simp_all
  have "(2::nat) ^ ?l < 2 ^ 64" using lb(1) assms(2) by linarith
  then have l: "?l < 64" by (rule power_less_imp_less_exp [rotated]) simp
  show "?k \<le> 8" "0 < ?k" using l by (simp_all add: hex_bytes_of_def div_greater_zero_iff)
  have p256: "(256::nat) ^ j = 2 ^ (8 * j)" for j by (simp add: power_mult)
  have "8 * (?k - 1) \<le> ?l" "?l + 1 \<le> 8 * ?k" unfolding hex_bytes_of_def by presburger+
  then have "(2::nat) ^ (8 * (?k - 1)) \<le> 2 ^ ?l" "(2::nat) ^ (?l + 1) \<le> 2 ^ (8 * ?k)"
    by (intro power_increasing; simp)+
  then show "256 ^ (?k - 1) \<le> p" "p < 256 ^ ?k" using lb unfolding p256 by linarith+
qed

lemma to_hex_puts:
  assumes "p < 2 ^ 64" "q + 18 \<le> length buf"
  shows "to_hex buf q p = puts buf q (''0x'' @ (if p = 0 then ''0'' else hexbytes (hex_bytes_of p) p))"
proof -
  have u: "buf[q := c, q + 1 := d] = take q buf @ [c, d] @ drop (q + 2) buf" for c d
    using update_two [of "q + 2" buf c d] assms(2) by simp
  show ?thesis
  proof (cases "p = 0")
    case True
    have "(take q buf @ [CHR ''0'', CHR ''x''] @ drop (q + 2) buf)[q + 2 := CHR ''0'']
        = take q buf @ ''0x0'' @ drop (q + 3) buf"
      using assms(2) drop_nth_Cons [of "q + 2" buf]
      by (simp add: list_update_append numeral_2_eq_2 numeral_3_eq_3)
    then show ?thesis using True u by (simp add: to_hex_def puts_def Let_def numeral_3_eq_3)
  next
    case False
    have l: "log2_loop p < 64"
    proof (rule ccontr)
      assume "\<not> log2_loop p < 64"
      then have "(2::nat) ^ 64 \<le> 2 ^ log2_loop p" by (intro power_increasing) simp_all
      then show False using log2_loop_bounds [of p] False assms(1) by linarith
    qed
    then have z: "64 - count_leading_zeros p = log2_loop p + 1" by (simp add: count_leading_zeros_def)
    have "log2_loop p + 1 + 7 < 2 ^ 32" using l by simp
    then have s: "(log2_loop p + 1 + 7) AND (2 ^ 32 - 2 ^ 3) = 8 * hex_bytes_of p"
      by (subst and_clear_low) (simp_all add: hex_bytes_of_def add.commute)
    have k: "hex_bytes_of p \<le> 8" using hex_bytes_bound [of p] False assms(1) by simp
    have "to_hex buf q p = hex_loop (take q buf @ [CHR ''0'', CHR ''x''] @ drop (q + 2) buf) (q + 2) (8 * hex_bytes_of p) p"
      unfolding to_hex_def Let_def z s u using False by simp
    also have "\<dots> = puts (take q buf @ [CHR ''0'', CHR ''x''] @ drop (q + 2) buf) (q + 2) (hexbytes (hex_bytes_of p) p)"
      using assms(2) k by (intro hex_loop_puts) simp
    finally show ?thesis using False assms(2) k by (simp add: puts_def add.commute)
  qed
qed

end
