(* ===== verification/IpParse.thy ===== *)
theory IpParse
  imports Digits
begin

text \<open>
  Address parsing: \<open>KzNet/IpParser.h\<close>. A pointer range is the list of the characters left in it;
  addresses are bytes in memory (network) order. The IPv6 parser writes into the 16 bytes of the
  destination as it goes, so its result carries them with the verdict, on failure too.
\<close>

definition kHexTable :: "int list" where
  "kHexTable = replicate 48 (- 1) @ [0, 1, 2, 3, 4, 5, 6, 7, 8, 9] @ replicate 7 (- 1) @
     [10, 11, 12, 13, 14, 15] @ replicate 26 (- 1) @ [10, 11, 12, 13, 14, 15] @ replicate 25 (- 1)
     @ replicate 128 (- 1)"

fun parse4_loop :: "string \<Rightarrow> nat \<Rightarrow> nat \<Rightarrow> nat \<Rightarrow> bool \<Rightarrow> nat \<Rightarrow> nat option" where
  "parse4_loop [] val ip dots has_digit digits_in_part =
     (if dots \<noteq> 3 \<or> \<not> has_digit then None else Some ((push_bit 8 ip OR val) mod 2 ^ 32))"
| "parse4_loop (c # p) val ip dots has_digit digits_in_part =
     (if code CHR ''0'' \<le> code c \<and> code c \<le> code CHR ''9'' then
        (if digits_in_part > 0 \<and> val = 0 then None
         else let val = val * 10 + (code c - code CHR ''0'')
              in if val > 255 then None
                 else parse4_loop p val ip dots True (digits_in_part + 1))
      else if c = CHR ''.'' then
        (if \<not> has_digit \<or> dots \<ge> 3 then None
         else parse4_loop p 0 ((push_bit 8 ip OR val) mod 2 ^ 32) (dots + 1) False 0)
      else None)"

definition parseIPv4Raw :: "string \<Rightarrow> nat option" where
  "parseIPv4Raw p = parse4_loop p 0 0 0 False 0"

text \<open>The four bytes that \<open>htonl\<close> leaves in memory.\<close>

definition htonl_bytes :: "nat \<Rightarrow> nat list" where
  "htonl_bytes ip = [ip div 2 ^ 24 mod 256, ip div 2 ^ 16 mod 256, ip div 2 ^ 8 mod 256, ip mod 256]"

definition parseIPv4 :: "string \<Rightarrow> nat list \<Rightarrow> bool \<times> nat list" where
  "parseIPv4 s dst = (case parseIPv4Raw s of Some ip \<Rightarrow> (True, htonl_bytes ip) | None \<Rightarrow> (False, dst))"

definition parseIPv4Embedded :: "string \<Rightarrow> nat list \<Rightarrow> nat \<Rightarrow> nat list option" where
  "parseIPv4Embedded p buf tp =
     (case parseIPv4Raw p of Some ip \<Rightarrow> Some (wr buf tp (htonl_bytes ip)) | None \<Rightarrow> None)"

text \<open>The inner loop over the characters of one group: \<open>None\<close> is the early \<open>return false\<close>.\<close>

fun hex_group :: "string \<Rightarrow> nat \<Rightarrow> nat \<Rightarrow> bool \<Rightarrow> (string \<times> nat \<times> bool) option" where
  "hex_group [] val char_count seen_digit = Some ([], val, seen_digit)"
| "hex_group (c # p) val char_count seen_digit =
     (let digit = kHexTable ! code c
      in if digit \<ge> 0 then
           (if char_count + 1 > 4 then None
            else hex_group p ((push_bit 4 val OR nat digit) mod 2 ^ 32) (char_count + 1) True)
         else Some (c # p, val, seen_digit))"

lemma hex_group_length:
  "hex_group p v k s = Some (q, v', s') \<Longrightarrow> length q \<le> length p \<and> (s' \<longrightarrow> s \<or> length q < length p)"
  by (induction p v k s rule: hex_group.induct) (auto simp: Let_def split: if_splits)

type_synonym v6_state = "string \<times> nat list \<times> nat \<times> nat option"

function (sequential) v6_loop :: "string \<Rightarrow> nat list \<Rightarrow> nat \<Rightarrow> nat option \<Rightarrow> nat list + v6_state" where
  "v6_loop [] buf tp colonp = Inr ([], buf, tp, colonp)"
| "v6_loop (c # p) buf tp colonp =
     (if tp \<ge> 16 then Inr (c # p, buf, tp, colonp)
      else if c = CHR '':'' then
        (if colonp \<noteq> None then Inl buf
         else (case p of
                 [] \<Rightarrow> Inr ([], buf, tp, Some tp)
               | d # _ \<Rightarrow> if d = CHR '':'' then Inl buf else v6_loop p buf tp (Some tp)))
      else
        (case hex_group (c # p) 0 0 False of
           None \<Rightarrow> Inl buf
         | Some (q, val, seen_digit) \<Rightarrow>
             if \<not> seen_digit then Inl buf
             else if q \<noteq> [] \<and> hd q = CHR ''.'' then
               (if 16 - tp < 4 then Inl buf
                else (case parseIPv4Embedded (c # p) buf tp of
                        None \<Rightarrow> Inl buf
                      | Some buf \<Rightarrow> Inr ([], buf, tp + 4, colonp)))
             else
               let buf = buf[tp := drop_bit 8 val AND 255, tp + 1 := val AND 255]
               in if q \<noteq> [] \<and> hd q = CHR '':'' then
                    (if tl q = [] then Inl buf else v6_loop (tl q) buf (tp + 2) colonp)
                  else v6_loop q buf (tp + 2) colonp))"
  by pat_completeness auto
termination
  by (relation "measure (\<lambda>(p, b, t, c). length p)")
    (auto dest!: hex_group_length simp del: hex_group.simps)

declare v6_loop.simps(2) [simp del]

text \<open>Expanding \<open>::\<close>: the groups behind it move to the end of the buffer, zeros fill the gap.\<close>

definition v6_finish :: "v6_state \<Rightarrow> bool \<times> nat list" where
  "v6_finish st = (case st of (p, buf, tp, colonp) \<Rightarrow>
     (case colonp of
        Some cp \<Rightarrow>
          (let n = tp - cp
           in if tp = 16 then (False, buf)
              else let buf = wr buf (16 - n) (take n (drop cp buf));
                       buf = wr buf cp (replicate (16 - n - cp) 0)
                   in (True, buf))
      | None \<Rightarrow> (if tp \<noteq> 16 then (False, buf) else if p \<noteq> [] then (False, buf) else (True, buf))))"

definition parseIPv6 :: "string \<Rightarrow> nat list \<Rightarrow> bool \<times> nat list" where
  "parseIPv6 s buf =
     (let run = (\<lambda>p colonp. case v6_loop p buf 0 colonp of Inl b \<Rightarrow> (False, b) | Inr st \<Rightarrow> v6_finish st)
      in if s \<noteq> [] \<and> hd s = CHR '':'' then
           (if tl s \<noteq> [] \<and> hd (tl s) = CHR '':'' then run (tl (tl s)) (Some 0) else (False, buf))
         else run s None)"

subsection \<open>The tables of the program are inverse to each other\<close>

lemma length_kHexTable: "length kHexTable = 256"
  by (simp add: kHexTable_def)

lemma kHexTable_range: "n < 256 \<Longrightarrow> kHexTable ! n < 16"
  by (auto simp: kHexTable_def nth_append nth_Cons')

lemma kHexTable_hexdigit: "d < 16 \<Longrightarrow> kHexTable ! code (hexdigit d) = int d"
  by (simp add: hexdigit_def kHexTable_def nth_append nth_Cons')

definition hexval :: "string \<Rightarrow> nat" where
  "hexval t = foldl (\<lambda>v c. v * 16 + nat (kHexTable ! code c)) 0 t"

lemma hexval_snoc: "hexval (t @ [c]) = hexval t * 16 + nat (kHexTable ! code c)"
  by (simp add: hexval_def)

lemma foldl_hex: "foldl (\<lambda>v c. v * 16 + nat (kHexTable ! code c)) a t = a * 16 ^ length t + hexval t"
  unfolding hexval_def
  by (induction t rule: rev_induct) (simp_all add: algebra_simps)

lemma hexval_append: "hexval (s @ t) = hexval s * 16 ^ length t + hexval t"
  using foldl_hex [of "hexval s" t] by (simp add: hexval_def)

lemma hexval_hexbytes: "hexval (hexbytes k p) = p mod 256 ^ k"
proof (induction k)
  case 0
  then show ?case by (simp add: hexval_def)
next
  case (Suc k)
  define b where "b = p div 256 ^ k mod 256"
  have "b div 16 < 16" by (simp add: b_def)
  then have "hexval [hexdigit (b div 16), hexdigit (b mod 16)] = b div 16 * 16 + b mod 16"
    by (simp add: hexval_def kHexTable_hexdigit)
  also have "\<dots> = b" by simp
  finally have "hexval (hexbytes (Suc k) p) = b * 256 ^ k + p mod 256 ^ k"
    unfolding hexbytes.simps Let_def b_def [symmetric] hexval_append
    by (simp add: Suc.IH power_mult [of 16 2, simplified])
  also have "\<dots> = p mod 256 ^ Suc k"
    using mod_mult2_eq [of p "256 ^ k" 256] by (simp add: b_def mult.commute)
  finally show ?case .
qed

text \<open>A pointer value printed by the hexadecimal formatter is \<open>0x\<close> and whole bytes with no
  leading zero byte, and reading the digits back through the parser's table gives the value.\<close>

theorem to_hex_roundtrip:
  assumes "p < 2 ^ 64" "q + 18 \<le> length buf"
  shows "\<exists>t. to_hex buf q p = puts buf q (''0x'' @ t) \<and> hexval t = p \<and> length t \<le> 16
    \<and> (p \<noteq> 0 \<longrightarrow> even (length t) \<and> 16 ^ (length t - 2) \<le> p)"
proof (cases "p = 0")
  case True
  have "hexval ''0'' = 0" by (simp add: hexval_def code_def kHexTable_def nth_append)
  then show ?thesis using to_hex_puts [OF assms] True by (intro exI [of _ "''0''"]) simp
next
  case False
  let ?t = "hexbytes (hex_bytes_of p) p"
  note b = hex_bytes_bound [of p]
  have "2 * hex_bytes_of p - 2 = 2 * (hex_bytes_of p - 1)" by simp
  then have "(16::nat) ^ (length ?t - 2) = 256 ^ (hex_bytes_of p - 1)"
    by (simp add: power_mult del: One_nat_def)
  then show ?thesis
    using to_hex_puts [OF assms] False b assms(1)
    by (intro exI [of _ ?t]) (simp add: hexval_hexbytes)
qed

theorem to_hex_roundtrip_witness:
  "\<exists>t. to_hex (replicate 20 CHR ''.'') 1 47806 = puts (replicate 20 CHR ''.'') 1 (''0x'' @ t) \<and> hexval t = 47806"
  using to_hex_roundtrip [of 47806 1 "replicate 20 CHR ''.''"] by auto

subsection \<open>IPv4\<close>

definition print4 :: "nat \<Rightarrow> string" where
  "print4 ip = dec (ip div 2 ^ 24 mod 256) @ ''.'' @ dec (ip div 2 ^ 16 mod 256) @ ''.''
     @ dec (ip div 2 ^ 8 mod 256) @ ''.'' @ dec (ip mod 256)"

fun dotted :: "nat list \<Rightarrow> string" where
  "dotted [] = []"
| "dotted [v] = dec v"
| "dotted (v # w # vs) = dec v @ CHR ''.'' # dotted (w # vs)"

text \<open>The shift accumulates the parts, modulo the width of the address.\<close>

definition acc4 :: "nat \<Rightarrow> nat list \<Rightarrow> nat" where
  "acc4 = foldl (\<lambda>ip v. (push_bit 8 ip OR v) mod 2 ^ 32)"

lemma digit_range: "d < 10 \<Longrightarrow> code CHR ''0'' \<le> code (digit d) \<and> code (digit d) \<le> code CHR ''9''
    \<and> code (digit d) - code CHR ''0'' = d"
  by (simp add: digit_def code_def [of "CHR ''0''"] code_def [of "CHR ''9''"])

lemma digit_of_char:
  "code CHR ''0'' \<le> code c \<Longrightarrow> code c \<le> code CHR ''9'' \<Longrightarrow>
   c = digit (code c - code CHR ''0'') \<and> code c - code CHR ''0'' < 10"
  by (auto simp: digit_def code_def [of "CHR ''0''"] code_def [of "CHR ''9''"])

lemma dot_not_digit: "\<not> (code CHR ''0'' \<le> code CHR ''.'')"
  by (simp add: code_def)

text \<open>Consuming the numeral of a part.\<close>

lemma parse4_dec:
  "v < 256 \<Longrightarrow> parse4_loop (dec v @ s) 0 ip dots False 0 = parse4_loop s v ip dots True (length (dec v))"
proof (induction v arbitrary: s rule: dec.induct)
  case (1 n)
  show ?case
  proof (cases "n < 10")
    case True
    then show ?thesis using digit_range [OF True] by (simp add: dec_less)
  next
    case False
    have "n mod 10 < 10" by simp
    note d = digit_range [OF this]
    have e: "n div 10 * 10 + n mod 10 = n" by simp
    have "0 < n div 10" using False by simp
    then show ?thesis
      using 1 False d e by (simp add: dec_step [of n] Let_def)
  qed
qed

lemma parse4_dotted:
  assumes "vs \<noteq> []" "\<forall>v\<in>set vs. v < 256" "dots + length vs = 4"
  shows "parse4_loop (dotted vs) 0 ip dots False 0 = Some (acc4 ip vs)"
  using assms
proof (induction vs arbitrary: ip dots rule: dotted.induct)
  case (2 v)
  then show ?case using parse4_dec [of v "[]"] by (simp add: acc4_def)
next
  case (3 v w vs)
  then have "parse4_loop (dotted (w # vs)) 0 ((push_bit 8 ip OR v) mod 2 ^ 32) (dots + 1) False 0
      = Some (acc4 ((push_bit 8 ip OR v) mod 2 ^ 32) (w # vs))" by auto
  then show ?case
    using 3(2-) dot_not_digit by (simp add: parse4_dec acc4_def)
qed simp

text \<open>What has been read of the current part: nothing, or a numeral.\<close>

definition part_ok :: "string \<Rightarrow> nat \<Rightarrow> bool \<Rightarrow> nat \<Rightarrow> bool" where
  "part_ok w val has n \<longleftrightarrow> val < 256 \<and> n = length w \<and> (if has then w = dec val else w = [] \<and> val = 0)"

lemma part_ok_digit:
  assumes "part_ok w val has n" "\<not> (n > 0 \<and> val = 0)" "d < 10" "val * 10 + d < 256"
  shows "part_ok (w @ [digit d]) (val * 10 + d) True (n + 1)"
  using assms dec_snoc [of val d] by (cases "val = 0") (auto simp: part_ok_def dec_less split: if_splits)

lemma parse4_sound:
  assumes "parse4_loop s val ip dots has n = Some r" "part_ok w val has n" "dots \<le> 3"
  shows "\<exists>vs. w @ s = dotted vs \<and> vs \<noteq> [] \<and> (\<forall>v\<in>set vs. v < 256) \<and> dots + length vs = 4 \<and> r = acc4 ip vs"
  using assms
proof (induction s val ip dots has n arbitrary: w rule: parse4_loop.induct)
  case (1 val ip dots has n)
  then have "w = dec val" "dots = 3" "val < 256" "r = acc4 ip [val]"
    by (auto simp: part_ok_def acc4_def split: if_splits)
  then show ?case by (intro exI [of _ "[val]"]) simp
next
  case (2 c p val ip dots has n)
  show ?case
  proof (cases "code CHR ''0'' \<le> code c \<and> code c \<le> code CHR ''9''")
    case True
    let ?d = "code c - code CHR ''0''"
    have c: "c = digit ?d" "?d < 10" using digit_of_char True by auto
    have g: "\<not> (n > 0 \<and> val = 0)" "val * 10 + ?d < 256"
      "parse4_loop p (val * 10 + ?d) ip dots True (n + 1) = Some r"
      using 2(3) True by (auto simp: Let_def split: if_splits)
    have "part_ok (w @ [digit ?d]) (val * 10 + ?d) True (n + 1)"
      by (rule part_ok_digit [OF 2(4) g(1) c(2) g(2)])
    moreover have "\<not> 255 < val * 10 + ?d" using g(2) by simp
    ultimately have "\<exists>vs. (w @ [digit ?d]) @ p = dotted vs \<and> vs \<noteq> [] \<and> (\<forall>v\<in>set vs. v < 256)
        \<and> dots + length vs = 4 \<and> r = acc4 ip vs"
      by (intro 2(1) [OF True g(1) refl _ g(3)]) (use 2(5) in simp_all)
    then show ?thesis unfolding c(1) [symmetric] append.assoc by simp
  next
    case no: False
    then have dot: "c = CHR ''.''" and g: "has" "dots < 3"
      and r: "parse4_loop p 0 ((push_bit 8 ip OR val) mod 2 ^ 32) (dots + 1) False 0 = Some r"
      using 2(3) by (auto split: if_splits)
    have "part_ok [] 0 False 0" by (simp add: part_ok_def)
    then obtain vs where vs: "p = dotted vs" "vs \<noteq> []" "\<forall>v\<in>set vs. v < 256" "dots + 1 + length vs = 4"
      "r = acc4 ((push_bit 8 ip OR val) mod 2 ^ 32) vs"
      using 2(2) [OF no dot _ r, of "[]"] g by auto
    have w: "w = dec val" "val < 256" using 2(4) g by (simp_all add: part_ok_def)
    have "w @ c # p = dotted (val # vs)" using vs(2) by (cases vs) (simp_all add: w dot vs(1))
    then show ?thesis using vs w by (intro exI [of _ "val # vs"]) (simp add: acc4_def)
  qed
qed

lemma acc4_four:
  assumes "a < 256" "b < 256" "c < 256" "d < 256"
  shows "acc4 0 [a, b, c, d] = ((a * 256 + b) * 256 + c) * 256 + d"
proof -
  have s: "(push_bit 8 x OR v) mod 2 ^ 32 = x * 256 + v" if "x * 256 + v < 2 ^ 32" "v < 256" for x v :: nat
    using push_bit_or [of v 8 x] that by simp
  have "(push_bit 8 0 OR a) mod 2 ^ 32 = a" using s [of 0 a] assms by simp
  moreover have "(push_bit 8 a OR b) mod 2 ^ 32 = a * 256 + b" by (rule s) (use assms in simp_all)
  moreover have "(push_bit 8 (a * 256 + b) OR c) mod 2 ^ 32 = (a * 256 + b) * 256 + c"
    by (rule s) (use assms in simp_all)
  moreover have "(push_bit 8 ((a * 256 + b) * 256 + c) OR d) mod 2 ^ 32 = ((a * 256 + b) * 256 + c) * 256 + d"
    by (rule s) (use assms in simp_all)
  ultimately show ?thesis unfolding acc4_def foldl.simps by (simp only:)
qed

lemma bytes4_id:
  assumes "(ip::nat) < 2 ^ 32"
  shows "((ip div 2 ^ 24 mod 256 * 256 + ip div 2 ^ 16 mod 256) * 256 + ip div 2 ^ 8 mod 256) * 256 + ip mod 256 = ip"
proof -
  have dv: "ip div 2 ^ 16 = ip div 256 div 256" "ip div 2 ^ 24 = ip div 256 div 256 div 256" "ip div 2 ^ 8 = ip div 256"
    by (simp_all add: div_mult2_eq [symmetric])
  have top: "ip div 256 div 256 div 256 mod 256 = ip div 256 div 256 div 256"
    using assms by (simp add: div_mult2_eq [symmetric])
  show ?thesis unfolding dv top div_mult_mod_eq ..
qed

lemma parse4_print:
  assumes "ip < 2 ^ 32"
  shows "parseIPv4Raw (print4 ip) = Some ip"
proof -
  define vs where "vs = [ip div 2 ^ 24 mod 256, ip div 2 ^ 16 mod 256, ip div 2 ^ 8 mod 256, ip mod 256]"
  note id4 = bytes4_id [OF assms]
  have "print4 ip = dotted vs" by (simp add: vs_def print4_def)
  then have "parseIPv4Raw (print4 ip) = Some (acc4 0 vs)"
    unfolding parseIPv4Raw_def by (simp only:) (rule parse4_dotted; simp add: vs_def)
  also have "acc4 0 vs = ip"
    unfolding vs_def by (subst acc4_four; (rule id4 | simp only: mod_less_divisor zero_less_numeral))
  finally show ?thesis .
qed

lemma parse4_iff: "parseIPv4Raw s = Some ip \<longleftrightarrow> ip < 2 ^ 32 \<and> s = print4 ip"
proof
  assume "parseIPv4Raw s = Some ip"
  then obtain vs where vs: "s = dotted vs" "\<forall>v\<in>set vs. v < 256" "length vs = 4" "ip = acc4 0 vs"
    unfolding parseIPv4Raw_def using parse4_sound [of s 0 0 0 False 0 ip "[]"] by (auto simp: part_ok_def)
  then obtain a b c d where l: "vs = [a, b, c, d]"
    by (auto simp: length_Suc_conv numeral_eq_Suc)
  have lt: "a < 256" "b < 256" "c < 256" "d < 256" using vs(2) by (simp_all add: l)
  then have ip: "ip = ((a * 256 + b) * 256 + c) * 256 + d" using vs(4) by (simp add: l acc4_four)
  have m: "(x * 256 + y) mod 256 = y" "(x * 256 + y) div 256 = x" if "y < 256" for x y :: nat
    using that by simp_all
  have dv: "ip div 2 ^ 16 = ip div 256 div 256" "ip div 2 ^ 24 = ip div 256 div 256 div 256" "ip div 2 ^ 8 = ip div 256"
    by (simp_all add: div_mult2_eq [symmetric])
  have "ip div 2 ^ 24 mod 256 = a" "ip div 2 ^ 16 mod 256 = b" "ip div 2 ^ 8 mod 256 = c" "ip mod 256 = d"
    unfolding dv unfolding ip m [OF lt(4)] m [OF lt(3)] m [OF lt(2)] using lt by simp_all
  then show "ip < 2 ^ 32 \<and> s = print4 ip" using lt by (simp add: vs(1) l print4_def) (simp add: ip)
next
  assume "ip < 2 ^ 32 \<and> s = print4 ip"
  then show "parseIPv4Raw s = Some ip" by (simp add: parse4_print)
qed

text \<open>The IPv4 parser accepts exactly the canonical dotted quads: the text of an address below
  \<open>2 ^ 32\<close>, four parts without leading zeros, and returns that address.\<close>

theorem parseIPv4_canonical:
  "parseIPv4 s dst = (True, bs) \<longleftrightarrow> (\<exists>ip. ip < 2 ^ 32 \<and> s = print4 ip \<and> bs = htonl_bytes ip)"
proof (cases "parseIPv4Raw s")
  case None
  then show ?thesis by (auto simp: parseIPv4_def parse4_print)
next
  case (Some ip)
  then have "ip < 2 ^ 32" "s = print4 ip" by (simp_all add: parse4_iff)
  moreover have "ip' = ip" if "ip' < 2 ^ 32" "s = print4 ip'" for ip'
    using Some that by (simp add: parse4_print)
  ultimately show ?thesis using Some unfolding parseIPv4_def by auto
qed

subsection \<open>IPv6: the grammar\<close>

text \<open>An address text is a list of items: groups of one to four hexadecimal characters, and at the
  very end possibly a dotted quad.\<close>

datatype item = Grp string | V4 nat

definition hexchar :: "char \<Rightarrow> bool" where
  "hexchar c \<longleftrightarrow> kHexTable ! code c \<ge> 0"

fun item_ok :: "item \<Rightarrow> bool" where
  "item_ok (Grp t) \<longleftrightarrow> t \<noteq> [] \<and> length t \<le> 4 \<and> list_all hexchar t"
| "item_ok (V4 ip) \<longleftrightarrow> ip < 2 ^ 32"

fun item_text :: "item \<Rightarrow> string" where
  "item_text (Grp t) = t"
| "item_text (V4 ip) = print4 ip"

fun item_bytes :: "item \<Rightarrow> nat list" where
  "item_bytes (Grp t) = [hexval t div 256, hexval t mod 256]"
| "item_bytes (V4 ip) = htonl_bytes ip"

fun is_grp :: "item \<Rightarrow> bool" where
  "is_grp (Grp t) = True"
| "is_grp (V4 ip) = False"

fun items_ok :: "item list \<Rightarrow> bool" where
  "items_ok [] = True"
| "items_ok [i] = item_ok i"
| "items_ok (i # j # is) = (is_grp i \<and> item_ok i \<and> items_ok (j # is))"

fun colons :: "item list \<Rightarrow> string" where
  "colons [] = []"
| "colons [i] = item_text i"
| "colons (i # j # is) = item_text i @ CHR '':'' # colons (j # is)"

definition groups_ok :: "item list \<Rightarrow> bool" where
  "groups_ok = list_all (\<lambda>i. is_grp i \<and> item_ok i)"

definition addr_bytes :: "item list \<Rightarrow> nat list" where
  "addr_bytes is = concat (map item_bytes is)"

definition ended :: "item list \<Rightarrow> string" where
  "ended is = concat (map (\<lambda>i. item_text i @ '':'') is)"

lemma addr_bytes_simps [simp]:
  "addr_bytes [] = []" "addr_bytes (i # is) = item_bytes i @ addr_bytes is"
  "addr_bytes (is @ js) = addr_bytes is @ addr_bytes js"
  by (simp_all add: addr_bytes_def)

lemma groups_ok_simps [simp]:
  "groups_ok []" "groups_ok (i # is) \<longleftrightarrow> is_grp i \<and> item_ok i \<and> groups_ok is"
  by (simp_all add: groups_ok_def)

lemma ended_simps [simp]: "ended [] = []" "ended (i # is) = item_text i @ CHR '':'' # ended is"
  by (simp_all add: ended_def)

lemma colons_Cons: "is \<noteq> [] \<Longrightarrow> colons (i # is) = item_text i @ CHR '':'' # colons is"
  by (cases "is") simp_all

lemma items_ok_Cons: "is \<noteq> [] \<Longrightarrow> items_ok (i # is) \<longleftrightarrow> is_grp i \<and> item_ok i \<and> items_ok is"
  by (cases "is") simp_all

lemma ended_colons: "is \<noteq> [] \<Longrightarrow> ended is = colons is @ '':''"
  by (induction "is" rule: colons.induct) simp_all

lemma is_grpE: "is_grp i \<Longrightarrow> (\<And>t. i = Grp t \<Longrightarrow> P) \<Longrightarrow> P"
  by (cases i) auto

lemma not_hexchar: "\<not> hexchar CHR '':''" "\<not> hexchar CHR ''.''"
  by (simp_all add: hexchar_def kHexTable_def code_def nth_append nth_Cons')

lemma hexchar_digit: "d < 10 \<Longrightarrow> hexchar (digit d)"
  using kHexTable_hexdigit [of d] by (simp add: hexchar_def hexdigit_def digit_def)

lemma hexval_bound: "hexval t < 16 ^ length t"
proof (induction t rule: rev_induct)
  case (snoc c t)
  have "kHexTable ! code c < 16" by (rule kHexTable_range) simp
  then have "nat (kHexTable ! code c) < 16" by simp
  with snoc have "hexval t * 16 + nat (kHexTable ! code c) < (hexval t + 1) * 16" by simp
  also have "\<dots> \<le> 16 ^ length t * 16" using snoc by (intro mult_le_mono1) simp
  finally show ?case by (simp add: hexval_snoc)
qed (simp add: hexval_def)

definition group_end :: "string \<Rightarrow> bool" where
  "group_end r \<longleftrightarrow> (case r of [] \<Rightarrow> True | c # _ \<Rightarrow> \<not> hexchar c)"

lemma hex_step:
  assumes "v < 16 ^ k" "k < 4" "hexchar c"
  shows "(push_bit 4 v OR nat (kHexTable ! code c)) mod 2 ^ 32 = v * 16 + nat (kHexTable ! code c)"
    "v * 16 + nat (kHexTable ! code c) < 16 ^ (k + 1)"
proof -
  have "kHexTable ! code c < 16" by (rule kHexTable_range) simp
  then have d: "nat (kHexTable ! code c) < 16" by simp
  have "v * 16 + nat (kHexTable ! code c) < (v + 1) * 16" using d by simp
  also have "\<dots> \<le> 16 ^ k * 16" using assms(1) by (intro mult_le_mono1) simp
  finally show lt: "v * 16 + nat (kHexTable ! code c) < 16 ^ (k + 1)" by simp
  have "(16::nat) ^ (k + 1) \<le> 16 ^ 4" using assms(2) by (intro power_increasing) simp_all
  then have "v * 16 + nat (kHexTable ! code c) < 2 ^ 32" using lt by simp
  then show "(push_bit 4 v OR nat (kHexTable ! code c)) mod 2 ^ 32 = v * 16 + nat (kHexTable ! code c)"
    using push_bit_or [of "nat (kHexTable ! code c)" 4 v] d by simp
qed

lemma hex_group_eq:
  "list_all hexchar t \<Longrightarrow> k + length t \<le> 4 \<Longrightarrow> v < 16 ^ k \<Longrightarrow> group_end r \<Longrightarrow>
   hex_group (t @ r) v k sd = Some (r, v * 16 ^ length t + hexval t, sd \<or> t \<noteq> [])"
proof (induction t arbitrary: v k sd)
  case Nil
  then show ?case by (cases r) (simp_all add: group_end_def hexchar_def hexval_def)
next
  case (Cons c t)
  then have c: "hexchar c" "k < 4" by simp_all
  note st = hex_step [OF Cons.prems(3) c(2,1)]
  have "hexval (c # t) = nat (kHexTable ! code c) * 16 ^ length t + hexval t"
    using hexval_append [of "[c]" t] by (simp add: hexval_def)
  then show ?case
    using c Cons.IH [of "k + 1" "v * 16 + nat (kHexTable ! code c)" True] Cons.prems st
    by (simp add: hexchar_def Let_def algebra_simps)
qed

lemma hex_group_sound:
  "hex_group p v k sd = Some (q, v', sd') \<Longrightarrow> k \<le> 4 \<Longrightarrow>
   \<exists>t. p = t @ q \<and> list_all hexchar t \<and> k + length t \<le> 4 \<and> group_end q \<and> (sd' \<longleftrightarrow> sd \<or> t \<noteq> [])"
proof (induction p v k sd rule: hex_group.induct)
  case (1 v k sd)
  then show ?case by (auto simp: group_end_def)
next
  case (2 c p v k sd)
  show ?case
  proof (cases "hexchar c")
    case True
    then have g: "k < 4" "hex_group p ((push_bit 4 v OR nat (kHexTable ! code c)) mod 2 ^ 32) (k + 1) True
        = Some (q, v', sd')"
      using 2(2) by (auto simp: hexchar_def Let_def split: if_splits)
    then obtain t where "p = t @ q" "list_all hexchar t" "k + 1 + length t \<le> 4" "group_end q" "sd'"
      using 2(1) [OF refl] True unfolding hexchar_def [symmetric] by fastforce
    then show ?thesis using True by (intro exI [of _ "c # t"]) simp
  next
    case False
    then show ?thesis using 2(2,3) by (intro exI [of _ "[]"]) (auto simp: hexchar_def group_end_def Let_def)
  qed
qed

subsection \<open>IPv6: the loop reads the grammar\<close>

lemma group_val_bytes:
  assumes "length t \<le> 4" "tp + 2 \<le> length buf"
  shows "buf[tp := drop_bit 8 (hexval t) AND 255, tp + 1 := hexval t AND 255] = wr buf tp (item_bytes (Grp t))"
proof -
  have "hexval t < 16 ^ length t" by (rule hexval_bound)
  also have "(16::nat) ^ length t \<le> 16 ^ 4" using assms(1) by (intro power_increasing) simp_all
  finally have "hexval t div 256 < 256" by simp
  then show ?thesis
    using and_pow2_minus_1 [of "hexval t div 256" 8] and_pow2_minus_1 [of "hexval t" 8]
      wr_two [OF assms(2)] by (simp add: drop_bit_eq_div)
qed

lemma v6_group:
  assumes "item_ok (Grp t)" "group_end r" "r = [] \<or> hd r \<noteq> CHR ''.''" "tp + 2 \<le> 16" "length buf = 16"
  shows "v6_loop (t @ r) buf tp cp =
    (let buf' = wr buf tp (item_bytes (Grp t))
     in if r \<noteq> [] \<and> hd r = CHR '':''
        then (if tl r = [] then Inl buf' else v6_loop (tl r) buf' (tp + 2) cp)
        else v6_loop r buf' (tp + 2) cp)"
proof -
  obtain c u where t: "t = c # u" "hexchar c" using assms(1) by (cases t) auto
  have "hex_group (t @ r) 0 0 False = Some (r, hexval t, True)"
    using hex_group_eq [of t 0 0 r False] assms(1,2) by simp
  moreover have "c \<noteq> CHR '':''" using t(2) not_hexchar by auto
  moreover have "buf[tp := drop_bit 8 (hexval t) AND 255, tp + 1 := hexval t AND 255] = wr buf tp (item_bytes (Grp t))"
    using assms by (intro group_val_bytes) simp_all
  ultimately show ?thesis
    using assms(3,4) by (simp add: t(1) v6_loop.simps(2) Let_def split del: if_split del: hex_group.simps item_bytes.simps) auto
qed

lemma v6_quad:
  assumes "item_ok (Grp t)" "tp < 16"
  shows "v6_loop (t @ CHR ''.'' # r) buf tp cp =
    (if 16 - tp < 4 then Inl buf
     else (case parseIPv4Raw (t @ CHR ''.'' # r) of
             None \<Rightarrow> Inl buf
           | Some ip \<Rightarrow> Inr ([], wr buf tp (htonl_bytes ip), tp + 4, cp)))"
proof -
  obtain c u where t: "t = c # u" "hexchar c" using assms(1) by (cases t) auto
  have "hex_group (t @ CHR ''.'' # r) 0 0 False = Some (CHR ''.'' # r, hexval t, True)"
    using hex_group_eq [of t 0 0 "CHR ''.'' # r" False] assms(1) not_hexchar by (simp add: group_end_def)
  moreover have "c \<noteq> CHR '':''" using t(2) not_hexchar by auto
  ultimately show ?thesis
    using assms(2) by (simp add: t(1) v6_loop.simps(2) parseIPv4Embedded_def split: option.split)
qed

lemma v6_colon:
  assumes "tp < 16" "r = [] \<or> hd r \<noteq> CHR '':''"
  shows "v6_loop (CHR '':'' # r) buf tp None = v6_loop r buf tp (Some tp)"
  using assms by (cases r) (simp_all add: v6_loop.simps(2) [of "CHR '':''"])

lemma v6_bad:
  "\<not> hexchar c \<Longrightarrow> c \<noteq> CHR '':'' \<Longrightarrow> v6_loop (c # p) buf tp cp \<noteq> Inr ([], b)"
  by (cases b) (simp add: v6_loop.simps(2) hexchar_def)

lemma dec_group: "v < 256 \<Longrightarrow> item_ok (Grp (dec v))"
proof -
  have digits: "list_all hexchar (dec v)"
    by (induction v rule: dec.induct) (subst dec.simps, simp add: hexchar_digit)
  assume "v < 256"
  then have "length (dec v) \<le> 3" by (simp add: length_dec)
  then show ?thesis using digits by simp
qed

lemma print4_split: "\<exists>v r. v < 256 \<and> print4 ip = dec v @ CHR ''.'' # r"
  unfolding print4_def by (intro exI [of _ "ip div 2 ^ 24 mod 256"]) auto

lemma v6_print4:
  assumes "ip < 2 ^ 32" "tp + 4 \<le> 16"
  shows "v6_loop (print4 ip) buf tp cp = Inr ([], wr buf tp (htonl_bytes ip), tp + 4, cp)"
proof -
  obtain v r where vr: "v < 256" "print4 ip = dec v @ CHR ''.'' # r" using print4_split by blast
  have "parseIPv4Raw (print4 ip) = Some ip" using assms(1) by (subst parse4_print) simp_all
  then show ?thesis using v6_quad [OF dec_group [OF vr(1)], of tp r buf cp] assms(2) unfolding vr(2) by simp
qed

lemma length_item_bytes [simp]: "length (item_bytes i) = (if is_grp i then 2 else 4)"
  by (cases i) (simp_all add: htonl_bytes_def)

lemma item_text_nonempty: "item_ok i \<Longrightarrow> item_text i \<noteq> []"
  by (cases i) (simp_all add: print4_def)

lemma colons_nonempty: "items_ok is \<Longrightarrow> is \<noteq> [] \<Longrightarrow> colons is \<noteq> []"
  by (cases "is" rule: colons.cases) (simp_all add: item_text_nonempty)

lemma hd_item_text: "item_ok i \<Longrightarrow> hexchar (hd (item_text i))"
proof (cases i)
  case (Grp t)
  then show "item_ok i \<Longrightarrow> ?thesis" by (cases t) simp_all
next
  case (V4 ip)
  obtain v r where vr: "v < 256" "print4 ip = dec v @ CHR ''.'' # r" using print4_split by blast
  show ?thesis using dec_group [OF vr(1)] by (cases "dec v") (simp_all add: V4 vr(2))
qed

lemma hd_colons: "items_ok is \<Longrightarrow> is \<noteq> [] \<Longrightarrow> hexchar (hd (colons is))"
  by (cases "is" rule: colons.cases) (simp_all add: item_text_nonempty hd_item_text)

lemma v6_group_colon:
  assumes "item_ok (Grp t)" "r \<noteq> []" "tp + 2 \<le> 16" "length buf = 16"
  shows "v6_loop (t @ CHR '':'' # r) buf tp cp = v6_loop r (wr buf tp (item_bytes (Grp t))) (tp + 2) cp"
  using v6_group [OF assms(1) _ _ assms(3,4), of "CHR '':'' # r" cp] assms(2) not_hexchar
  by (simp add: group_end_def Let_def)

lemma v6_colons:
  assumes "items_ok is" "tp + length (addr_bytes is) \<le> 16" "length buf = 16"
  shows "v6_loop (colons is) buf tp cp = Inr ([], wr buf tp (addr_bytes is), tp + length (addr_bytes is), cp)"
  using assms
proof (induction "is" arbitrary: buf tp rule: colons.induct)
  case (2 i)
  then show ?case
    using v6_group [of _ "[]" tp buf cp]
    by (cases i) (auto simp: group_end_def Let_def v6_print4 htonl_bytes_def simp del: item_bytes.simps(1))
next
  case (3 i j "is")
  then obtain t where t: "i = Grp t" by (auto elim: is_grpE)
  have "colons (j # is) \<noteq> []" using 3(2) by (intro colons_nonempty) simp_all
  then have "v6_loop (colons (i # j # is)) buf tp cp = v6_loop (colons (j # is)) (wr buf tp (item_bytes i)) (tp + 2) cp"
    using 3(2,3,4) by (simp add: t v6_group_colon del: item_bytes.simps)
  also have "\<dots> = Inr ([], wr (wr buf tp (item_bytes i)) (tp + 2) (addr_bytes (j # is)), tp + 2 + length (addr_bytes (j # is)), cp)"
    using 3(2,3,4) by (intro 3(1)) (simp_all add: t del: item_bytes.simps)
  finally show ?case
    using wr_wr [of tp "item_bytes i" "addr_bytes (j # is)" buf] 3(3,4) by (simp add: t del: item_bytes.simps)
qed simp

lemma v6_double:
  assumes "groups_ok xs" "items_ok ys" "tp + length (addr_bytes (xs @ ys)) < 16" "length buf = 16"
  shows "v6_loop (ended xs @ CHR '':'' # colons ys) buf tp None
    = Inr ([], wr buf tp (addr_bytes (xs @ ys)), tp + length (addr_bytes (xs @ ys)), Some (tp + length (addr_bytes xs)))"
  using assms
proof (induction xs arbitrary: buf tp)
  case Nil
  have "colons ys = [] \<or> hd (colons ys) \<noteq> CHR '':''"
    using hd_colons [OF Nil(2)] not_hexchar by (cases "ys = []") auto
  then show ?case using Nil by (simp add: v6_colon v6_colons)
next
  case (Cons x xs)
  then obtain t where t: "x = Grp t" by (auto elim: is_grpE)
  have "v6_loop (ended (x # xs) @ CHR '':'' # colons ys) buf tp None
      = v6_loop (ended xs @ CHR '':'' # colons ys) (wr buf tp (item_bytes x)) (tp + 2) None"
    using Cons.prems by (simp add: t v6_group_colon del: item_bytes.simps)
  also have "\<dots> = Inr ([], wr (wr buf tp (item_bytes x)) (tp + 2) (addr_bytes (xs @ ys)),
      tp + 2 + length (addr_bytes (xs @ ys)), Some (tp + 2 + length (addr_bytes xs)))"
    using Cons.prems by (intro Cons.IH) (simp_all add: t del: item_bytes.simps)
  finally show ?case
    using wr_wr [of tp "item_bytes x" "addr_bytes (xs @ ys)" buf] Cons.prems by (simp add: t del: item_bytes.simps)
qed

text \<open>What a finished run has read from a point where a group may start.\<close>

definition v6_read :: "string \<Rightarrow> nat list \<Rightarrow> nat \<Rightarrow> nat option \<Rightarrow> nat list \<times> nat \<times> nat option \<Rightarrow> bool" where
  "v6_read p buf tp cp res \<longleftrightarrow>
     (\<exists>ys. items_ok ys \<and> p = colons ys \<and> tp + length (addr_bytes ys) \<le> 16
        \<and> res = (wr buf tp (addr_bytes ys), tp + length (addr_bytes ys), cp))
   \<or> (cp = None \<and> (\<exists>xs ys. groups_ok xs \<and> items_ok ys \<and> p = ended xs @ CHR '':'' # colons ys
        \<and> tp + length (addr_bytes (xs @ ys)) \<le> 16
        \<and> res = (wr buf tp (addr_bytes (xs @ ys)), tp + length (addr_bytes (xs @ ys)), Some (tp + length (addr_bytes xs)))))"

lemma v6_read_Nil: "tp \<le> 16 \<Longrightarrow> v6_read [] buf tp cp (buf, tp, cp)"
  unfolding v6_read_def by (intro disjI1 exI [of _ "[]"]) simp

lemma v6_read_one: "item_ok i \<Longrightarrow> tp + length (item_bytes i) \<le> 16 \<Longrightarrow>
    v6_read (item_text i) buf tp cp (wr buf tp (item_bytes i), tp + length (item_bytes i), cp)"
  unfolding v6_read_def by (intro disjI1 exI [of _ "[i]"]) (simp del: length_item_bytes item_bytes.simps)

lemma v6_read_colon:
  assumes "v6_read p buf tp (Some tp) res"
  shows "v6_read (CHR '':'' # p) buf tp None res"
proof -
  obtain ys where "items_ok ys" "p = colons ys" "tp + length (addr_bytes ys) \<le> 16"
    "res = (wr buf tp (addr_bytes ys), tp + length (addr_bytes ys), Some tp)"
    using assms by (auto simp: v6_read_def)
  then show ?thesis unfolding v6_read_def by (intro disjI2 conjI exI [of _ "[]"] exI [of _ ys]) simp_all
qed

lemma v6_read_group:
  assumes "v6_read r (wr buf tp (item_bytes (Grp t))) (tp + 2) cp res" "r \<noteq> []"
    "item_ok (Grp t)" "tp + 2 \<le> 16" "length buf = 16"
  shows "v6_read (t @ CHR '':'' # r) buf tp cp res"
proof -
  let ?g = "Grp t"
  have w: "wr (wr buf tp (item_bytes ?g)) (tp + 2) bs = wr buf tp (item_bytes ?g @ bs)"
    if "tp + 2 + length bs \<le> 16" for bs
    using wr_wr [of tp "item_bytes ?g" bs buf] that assms(5) by simp
  from assms(1) consider
    (plain) ys where "items_ok ys" "r = colons ys" "tp + 2 + length (addr_bytes ys) \<le> 16"
      "res = (wr (wr buf tp (item_bytes ?g)) (tp + 2) (addr_bytes ys), tp + 2 + length (addr_bytes ys), cp)"
  | (double) xs ys where "cp = None" "groups_ok xs" "items_ok ys" "r = ended xs @ CHR '':'' # colons ys"
      "tp + 2 + length (addr_bytes (xs @ ys)) \<le> 16"
      "res = (wr (wr buf tp (item_bytes ?g)) (tp + 2) (addr_bytes (xs @ ys)),
         tp + 2 + length (addr_bytes (xs @ ys)), Some (tp + 2 + length (addr_bytes xs)))"
    unfolding v6_read_def by blast
  then show ?thesis
  proof cases
    case plain
    then have "ys \<noteq> []" using assms(2) by auto
    then show ?thesis
      using plain assms(3) w [OF plain(3)] unfolding v6_read_def
      by (intro disjI1 exI [of _ "?g # ys"])
        (simp add: items_ok_Cons colons_Cons del: item_bytes.simps)
  next
    case double
    then show ?thesis
      using assms(3) w [OF double(5)] unfolding v6_read_def
      by (intro disjI2 conjI exI [of _ "?g # xs"] exI [of _ ys]) (simp_all del: item_bytes.simps)
  qed
qed

lemma v6_sound:
  assumes "v6_loop p buf tp cp = Inr ([], res)" "length buf = 16" "even tp" "tp \<le> 16"
  shows "v6_read p buf tp cp res"
  using assms
proof (induction p arbitrary: buf tp cp rule: length_induct)
  case (1 p)
  note IH = 1(1) and run = 1(2) and len = 1(3) and ev = 1(4) and le = 1(5)
  show ?case
  proof (cases p)
    case Nil
    then show ?thesis using run le by (auto intro: v6_read_Nil)
  next
    case (Cons c p')
    have tp: "tp < 16" using run Cons by (auto simp: v6_loop.simps(2) split: if_splits)
    then have tp2: "tp + 2 \<le> 16" "even (tp + 2)" using ev by presburger+
    show ?thesis
    proof (cases "c = CHR '':''")
      case True
      then have cp: "cp = None" "p' = [] \<or> hd p' \<noteq> CHR '':''"
        using run tp by (auto simp: Cons v6_loop.simps(2) split: if_splits list.splits)
      then have "v6_loop p' buf tp (Some tp) = Inr ([], res)" using run True tp by (simp add: Cons v6_colon)
      then have "v6_read p' buf tp (Some tp) res" using IH len ev le Cons by simp
      then show ?thesis by (simp add: Cons True cp v6_read_colon)
    next
      case False
      obtain q v sd where h: "hex_group p 0 0 False = Some (q, v, sd)" and sd: "sd"
        using run False tp by (auto simp: Cons v6_loop.simps(2) split: option.splits if_splits simp del: hex_group.simps)
      then obtain t where t: "p = t @ q" "list_all hexchar t" "length t \<le> 4" "group_end q" "t \<noteq> []"
        using hex_group_sound [OF h] by auto
      then have ok: "item_ok (Grp t)" by simp
      let ?b = "wr buf tp (item_bytes (Grp t))"
      have lb: "length ?b = 16" using tp2 len by simp
      show ?thesis
      proof (cases q)
        case Nil
        then have "res = (?b, tp + 2, cp)"
          using v6_group [OF ok, of "[]" tp buf cp] run t(1) tp2 len by (simp add: group_end_def Let_def)
        then show ?thesis using v6_read_one [OF ok, of tp buf cp] tp2 t(1) Nil by simp
      next
        case q: (Cons d r)
        consider (dot) "d = CHR ''.''" | (colon) "d = CHR '':''" | (other) "d \<noteq> CHR ''.''" "d \<noteq> CHR '':''" by blast
        then show ?thesis
        proof cases
          case dot
          then obtain ip where ip: "parseIPv4Raw p = Some ip" "tp + 4 \<le> 16"
            "res = (wr buf tp (htonl_bytes ip), tp + 4, cp)"
            using v6_quad [OF ok tp, of r buf cp] run tp by (auto simp: t(1) q split: if_splits option.splits)
          then have "ip < 2 ^ 32" "p = print4 ip" by (auto simp: parse4_iff)
          moreover have "length (htonl_bytes ip) = 4" by (simp add: htonl_bytes_def)
          ultimately show ?thesis
            using ip(2,3) v6_read_one [of "V4 ip" tp buf cp, unfolded item_text.simps item_bytes.simps] by simp
        next
          case colon
          then have "r \<noteq> []" "v6_loop r ?b (tp + 2) cp = Inr ([], res)"
            using v6_group [OF ok t(4) _ tp2(1) len, of cp] run t(1) q by (auto simp: Let_def split: if_splits)
          moreover have "length r < length p" using t(1) q by simp
          ultimately have "v6_read r ?b (tp + 2) cp res" using IH lb tp2 by blast
          then show ?thesis
            using v6_read_group [OF _ \<open>r \<noteq> []\<close> ok tp2(1) len] t(1) q colon by simp
        next
          case other
          then have "v6_loop q ?b (tp + 2) cp = Inr ([], res)"
            using v6_group [OF ok t(4) _ tp2(1) len, of cp] run t(1) q by (simp add: Let_def)
          moreover have "\<not> hexchar d" using t(4) q by (simp add: group_end_def)
          ultimately show ?thesis using v6_bad [of d r] other q by simp
        qed
      qed
    qed
  qed
qed

text \<open>The address denoted by a text with and without \<open>::\<close>.\<close>

definition full_address :: "string \<Rightarrow> nat list \<Rightarrow> bool" where
  "full_address s bs \<longleftrightarrow> (\<exists>ys. items_ok ys \<and> s = colons ys \<and> length (addr_bytes ys) = 16 \<and> bs = addr_bytes ys)"

definition short_address :: "string \<Rightarrow> nat list \<Rightarrow> bool" where
  "short_address s bs \<longleftrightarrow> (\<exists>xs ys. groups_ok xs \<and> items_ok ys \<and> s = colons xs @ ''::'' @ colons ys
     \<and> length (addr_bytes (xs @ ys)) < 16
     \<and> bs = addr_bytes xs @ replicate (16 - length (addr_bytes (xs @ ys))) 0 @ addr_bytes ys)"

lemma items_full: "items_ok ys \<Longrightarrow> ys \<noteq> [] \<Longrightarrow> colons ys \<noteq> [] \<and> hd (colons ys) \<noteq> CHR '':''"
  using hd_colons colons_nonempty not_hexchar by metis

lemma finish_double:
  assumes "length buf = 16" "length (a @ b) < 16"
  shows "v6_finish ([], wr buf 0 (a @ b), length (a @ b), Some (length a))
    = (True, a @ replicate (16 - length (a @ b)) 0 @ b)"
proof -
  let ?n = "length b"
  have "take ?n (drop (length a) (wr buf 0 (a @ b))) = b" by (simp add: wr_def)
  moreover have "wr (wr (wr buf 0 (a @ b)) (16 - ?n) b) (length a) (replicate (16 - ?n - length a) 0)
      = a @ replicate (16 - length (a @ b)) 0 @ b"
    using assms by (simp add: wr_def)
  ultimately show ?thesis using assms(2) by (simp add: v6_finish_def Let_def)
qed

lemma parse6_complete:
  assumes "length dst = 16" "full_address s bs \<or> short_address s bs"
  shows "parseIPv6 s dst = (True, bs)"
  using assms(2)
proof
  assume "full_address s bs"
  then obtain ys where ys: "items_ok ys" "s = colons ys" "length (addr_bytes ys) = 16" "bs = addr_bytes ys"
    by (auto simp: full_address_def)
  then have "ys \<noteq> []" by auto
  then have "v6_loop s dst 0 None = Inr ([], bs, 16, None)"
    using v6_colons [OF ys(1), of 0 dst None] ys assms(1) by (simp add: wr_def)
  then show ?thesis using items_full [OF ys(1) \<open>ys \<noteq> []\<close>] ys(2) by (simp add: parseIPv6_def v6_finish_def)
next
  assume "short_address s bs"
  then obtain xs ys where xy: "groups_ok xs" "items_ok ys" "s = colons xs @ ''::'' @ colons ys"
    "length (addr_bytes (xs @ ys)) < 16"
    "bs = addr_bytes xs @ replicate (16 - length (addr_bytes (xs @ ys))) 0 @ addr_bytes ys"
    by (auto simp: short_address_def)
  have fin: "v6_finish ([], wr dst 0 (addr_bytes (xs @ ys)), length (addr_bytes (xs @ ys)), Some (length (addr_bytes xs))) = (True, bs)"
    using finish_double [OF assms(1), of "addr_bytes xs" "addr_bytes ys"] xy(4,5) by simp
  show ?thesis
  proof (cases "xs = []")
    case True
    then have "v6_loop (colons ys) dst 0 (Some 0) = Inr ([], wr dst 0 (addr_bytes ys), length (addr_bytes ys), Some 0)"
      using v6_colons [OF xy(2), of 0 dst "Some 0"] xy(4) assms(1) by simp
    then show ?thesis using True xy(3) fin by (simp add: parseIPv6_def)
  next
    case False
    have "items_ok xs" using xy(1) by (induction xs rule: items_ok.induct) simp_all
    then have "hd s \<noteq> CHR '':''" using items_full [of xs] False by (simp add: xy(3))
    moreover have "s = ended xs @ CHR '':'' # colons ys" using xy(3) False by (simp add: ended_colons)
    ultimately show ?thesis
      using v6_double [OF xy(1,2), of 0 dst] xy(4) assms(1) fin by (simp add: parseIPv6_def)
  qed
qed

lemma v6_exit:
  assumes "v6_loop p buf tp cp = Inr (q, b, t, c)" "even tp" "tp \<le> 16"
  shows "t \<le> 16 \<and> (q = [] \<or> t = 16)"
  using assms
proof (induction p arbitrary: buf tp cp rule: length_induct)
  case (1 p)
  note IH = 1(1) and run = 1(2) and ev = 1(3) and le = 1(4)
  show ?case
  proof (cases "p = [] \<or> tp \<ge> 16")
    case True
    then show ?thesis using run le by (cases p) (auto simp: v6_loop.simps(2))
  next
    case False
    then obtain x p' where p: "p = x # p'" and tp: "tp < 16" by (cases p) auto
    then have tp2: "tp + 2 \<le> 16" "even (tp + 2)" using ev by presburger+
    show ?thesis
    proof (cases "x = CHR '':''")
      case True
      then have "p' = [] \<and> q = [] \<and> t = tp \<or> v6_loop p' buf tp (Some tp) = Inr (q, b, t, c)"
        using run tp by (auto simp: p v6_loop.simps(2) split: if_splits list.splits)
      then show ?thesis using IH ev le by (auto simp: p)
    next
      case False
      obtain r v sd where h: "hex_group p 0 0 False = Some (r, v, sd)" and sd: "sd"
        using run False tp by (auto simp: p v6_loop.simps(2) split: option.splits if_splits simp del: hex_group.simps)
      then have len: "length r < length p" using hex_group_length [OF h] by simp
      have "q = [] \<and> t = tp + 4 \<and> tp + 4 \<le> 16
          \<or> (\<exists>p' b'. length p' < length p \<and> v6_loop p' b' (tp + 2) cp = Inr (q, b, t, c))"
        using run False tp sd h len
        by (auto simp: p v6_loop.simps(2) Let_def split: if_splits option.splits simp del: hex_group.simps
            intro: exI [of _ r] exI [of _ "tl r"])
      then show ?thesis
      proof (elim disjE exE conjE)
        fix p' b'
        assume "length p' < length p" "v6_loop p' b' (tp + 2) cp = Inr (q, b, t, c)"
        then show ?thesis using IH tp2 by blast
      qed (use ev in auto)
    qed
  qed
qed

lemma v6_run:
  assumes "(case v6_loop p dst 0 cp of Inl b \<Rightarrow> (False, b) | Inr st \<Rightarrow> v6_finish st) = (True, bs)" "length dst = 16"
  obtains b t c where "v6_read p dst 0 cp (b, t, c)" "v6_finish ([], b, t, c) = (True, bs)"
    "c = None \<longleftrightarrow> t = 16"
proof -
  obtain q b t c where r: "v6_loop p dst 0 cp = Inr (q, b, t, c)" "v6_finish (q, b, t, c) = (True, bs)"
    using assms(1) by (cases "v6_loop p dst 0 cp") auto
  have "q = [] \<or> t = 16" using v6_exit [OF r(1)] by simp
  then have "q = []" "c = None \<longleftrightarrow> t = 16"
    using r(2) by (auto simp: v6_finish_def Let_def split: option.splits if_splits)
  then show ?thesis using that r v6_sound [of p dst 0 cp "(b, t, c)"] assms(2) by simp
qed

lemma parse6_sound:
  assumes "length dst = 16" "parseIPv6 s dst = (True, bs)"
  shows "full_address s bs \<or> short_address s bs"
proof (cases "s \<noteq> [] \<and> hd s = CHR '':''")
  case True
  then have two: "tl s \<noteq> []" "hd (tl s) = CHR '':''" using assms(2) by (auto simp: parseIPv6_def Let_def split: if_splits)
  define p where "p = tl (tl s)"
  have s: "s = ''::'' @ p" using True two by (cases s; cases "tl s") (auto simp: p_def)
  obtain b t c where r: "v6_read p dst 0 (Some 0) (b, t, c)" "v6_finish ([], b, t, c) = (True, bs)" "c = None \<longleftrightarrow> t = 16"
    using v6_run [of p dst "Some 0" bs] assms True two by (auto simp: parseIPv6_def p_def)
  then obtain ys where ys: "items_ok ys" "p = colons ys" "b = wr dst 0 (addr_bytes ys)" "t = length (addr_bytes ys)" "c = Some 0" "t \<le> 16"
    by (auto simp: v6_read_def)
  then have "bs = replicate (16 - length (addr_bytes ys)) 0 @ addr_bytes ys"
    using r(2,3) finish_double [OF assms(1), of "[]" "addr_bytes ys"] by simp
  then show ?thesis
    using ys r(3) s unfolding short_address_def by (intro disjI2 exI [of _ "[]"] exI [of _ ys]) simp
next
  case False
  obtain b t c where r: "v6_read s dst 0 None (b, t, c)" "v6_finish ([], b, t, c) = (True, bs)" "c = None \<longleftrightarrow> t = 16"
    using v6_run [of s dst None bs] assms False by (auto simp: parseIPv6_def Let_def split: if_splits)
  from r(1) consider
    (plain) ys where "items_ok ys" "s = colons ys" "b = wr dst 0 (addr_bytes ys)" "t = length (addr_bytes ys)" "c = None"
  | (double) xs ys where "groups_ok xs" "items_ok ys" "s = ended xs @ CHR '':'' # colons ys" "length (addr_bytes (xs @ ys)) \<le> 16"
      "b = wr dst 0 (addr_bytes (xs @ ys))" "t = length (addr_bytes (xs @ ys))" "c = Some (length (addr_bytes xs))"
    unfolding v6_read_def by auto
  then show ?thesis
  proof cases
    case plain
    then have "bs = addr_bytes ys" using r(2,3) assms(1) by (simp add: v6_finish_def wr_def)
    then show ?thesis using plain r(3) by (auto simp: full_address_def)
  next
    case double
    have "xs \<noteq> []" using False double(3) by auto
    then have "s = colons xs @ ''::'' @ colons ys" using double(3) by (simp add: ended_colons)
    moreover have "length (addr_bytes (xs @ ys)) < 16" using r(3) double by simp
    moreover from this have "bs = addr_bytes xs @ replicate (16 - length (addr_bytes (xs @ ys))) 0 @ addr_bytes ys"
      using finish_double [OF assms(1), of "addr_bytes xs" "addr_bytes ys"] double r(2) by simp
    ultimately show ?thesis using double(1,2) unfolding short_address_def by blast
  qed
qed

text \<open>C39. The IPv6 parser accepts exactly the address grammar - groups of one to four hexadecimal
  digits separated by colons, at most one \<open>::\<close>, and a dotted quad allowed only as the last item -
  when it denotes sixteen bytes, respectively fewer with a \<open>::\<close>; the destination then holds the
  bytes of the items in network order, with the zeros that \<open>::\<close> stands for in between.\<close>

theorem parseIPv6_grammar:
  assumes "length dst = 16"
  shows "parseIPv6 s dst = (True, bs) \<longleftrightarrow> full_address s bs \<or> short_address s bs"
  using parse6_complete [OF assms] parse6_sound [OF assms] by blast

theorem parseIPv6_grammar_witness:
  "parseIPv6 ''fe::0A:1.2.3.4'' (replicate 16 7) = (True, [0, 254, 0, 0, 0, 0, 0, 0, 0, 0, 0, 10, 1, 2, 3, 4])"
proof -
  have k: "kHexTable ! code CHR ''f'' = 15" "kHexTable ! code CHR ''e'' = 14"
    "kHexTable ! code CHR ''0'' = 0" "kHexTable ! code CHR ''A'' = 10"
    by (simp_all add: code_def kHexTable_def nth_append nth_Cons')
  have p: "print4 16909060 = ''1.2.3.4''"
    by (simp add: print4_def dec_less digit_def chr_eq code_def)
  let ?xs = "[Grp ''fe'']" and ?ys = "[Grp ''0A'', V4 16909060]"
  have ok: "groups_ok ?xs" "items_ok ?ys" by (simp_all add: hexchar_def k)
  have tx: "''fe::0A:1.2.3.4'' = colons ?xs @ ''::'' @ colons ?ys" by (simp add: p)
  have b: "addr_bytes ?xs = [0, 254]" "addr_bytes ?ys = [0, 10, 1, 2, 3, 4]"
    by (simp_all add: hexval_def k htonl_bytes_def)
  have "replicate (16 - length (addr_bytes (?xs @ ?ys))) 0 = [0, 0, 0, 0, 0, 0, 0, 0::nat]"
    by (simp only: addr_bytes_simps(3) b) (simp add: numeral_eq_Suc)
  then have "short_address ''fe::0A:1.2.3.4'' [0, 254, 0, 0, 0, 0, 0, 0, 0, 0, 0, 10, 1, 2, 3, 4]"
    unfolding short_address_def using ok tx b by (intro exI [of _ ?xs] exI [of _ ?ys]) simp
  then show ?thesis by (subst parseIPv6_grammar) simp_all
qed

end
