(* ===== verification/Codec.thy ===== *)
theory Codec
  imports Prelude
begin

text \<open>
  Serialisation: \<open>KzRpc/Serializer.h\<close>. A serializer is the byte buffer it appends to; a
  deserializer is a view, a position and a sticky error. A read returns \<open>None\<close> where the code
  returns \<open>false\<close>; the out parameter of a failed read is not modelled. The boolean template
  parameter \<open>UseVarint\<close> is an argument. Values of integral types are integers with the type
  beside them, and a string view is its offset and length in the buffer.
\<close>

subsection \<open>Integral types\<close>

datatype int_type = I8 | I16 | I32 | I64 | U8 | U16 | U32 | U64

fun sizeof :: "int_type \<Rightarrow> nat" where
  "sizeof I8 = 1" | "sizeof U8 = 1" | "sizeof I16 = 2" | "sizeof U16 = 2"
| "sizeof I32 = 4" | "sizeof U32 = 4" | "sizeof I64 = 8" | "sizeof U64 = 8"

fun is_signed :: "int_type \<Rightarrow> bool" where
  "is_signed I8 = True" | "is_signed I16 = True" | "is_signed I32 = True" | "is_signed I64 = True"
| "is_signed U8 = False" | "is_signed U16 = False" | "is_signed U32 = False" | "is_signed U64 = False"

definition bits :: "int_type \<Rightarrow> nat" where
  "bits t = sizeof t * 8"

definition in_range :: "int_type \<Rightarrow> int \<Rightarrow> bool" where
  "in_range t v \<longleftrightarrow>
     (if is_signed t then - (2 ^ (bits t - 1)) \<le> v \<and> v < 2 ^ (bits t - 1) else 0 \<le> v \<and> v < 2 ^ bits t)"

text \<open>\<open>static_cast\<close> to the unsigned type and back.\<close>

definition to_unsigned :: "int_type \<Rightarrow> int \<Rightarrow> nat" where
  "to_unsigned t v = nat (v mod 2 ^ bits t)"

definition of_unsigned :: "int_type \<Rightarrow> nat \<Rightarrow> int" where
  "of_unsigned t n = (if is_signed t \<and> n \<ge> 2 ^ (bits t - 1) then int n - 2 ^ bits t else int n)"

lemma bits_cases: "bits t \<in> {8, 16, 32, 64}"
  by (cases t) (simp_all add: bits_def)

lemma bits_pos [simp]: "0 < bits t"
  using bits_cases [of t] by auto

lemma pow_bits: "(2::int) ^ bits t = 2 * 2 ^ (bits t - 1)"
  by (metis bits_pos power_Suc Suc_pred')

lemma of_to_unsigned: "in_range t v \<Longrightarrow> of_unsigned t (to_unsigned t v) = v"
proof (cases "v < 0")
  case True
  assume r: "in_range t v"
  then have s: "is_signed t" "- (2 ^ (bits t - 1)) \<le> v" using True by (auto simp: in_range_def split: if_splits)
  have p: "0 < (2::int) ^ (bits t - 1)" by simp
  have "v mod 2 ^ bits t = (v + 2 ^ bits t) mod 2 ^ bits t" by simp
  also have "\<dots> = v + 2 ^ bits t" using s(2) p True pow_bits [of t] by (intro mod_pos_pos_trivial) linarith+
  finally have m: "v mod 2 ^ bits t = v + 2 ^ bits t" .
  have "2 ^ (bits t - 1) \<le> v + 2 ^ bits t" using s(2) pow_bits [of t] by linarith
  then have "2 ^ (bits t - 1) \<le> nat (v + 2 ^ bits t)" by (simp add: le_nat_iff)
  moreover have "0 \<le> v + 2 ^ bits t" using s(2) p pow_bits [of t] by linarith
  ultimately show ?thesis using s(1) by (simp add: of_unsigned_def to_unsigned_def m)
next
  case False
  assume r: "in_range t v"
  then have lt: "v < 2 ^ bits t" using False pow_bits [of t] by (auto simp: in_range_def split: if_splits)
  then have m: "v mod 2 ^ bits t = v" using False by (intro mod_pos_pos_trivial) simp_all
  have "\<not> (is_signed t \<and> 2 ^ (bits t - 1) \<le> nat v)"
    using r False by (auto simp: in_range_def le_nat_iff)
  then show ?thesis using False unfolding of_unsigned_def to_unsigned_def m by auto
qed

lemma to_unsigned_bound: "to_unsigned t v < 2 ^ bits t"
  by (simp add: to_unsigned_def nat_less_iff)

subsection \<open>Object representations\<close>

fun le_bytes :: "nat \<Rightarrow> nat \<Rightarrow> byte list" where
  "le_bytes 0 n = []"
| "le_bytes (Suc k) n = word_of_nat (n mod 256) # le_bytes k (n div 256)"

fun of_le :: "byte list \<Rightarrow> nat" where
  "of_le [] = 0"
| "of_le (b # bs) = unat b + 256 * of_le bs"

lemma byte_less: "unat (b :: byte) < 256"
  using unsigned_less [of b, where ?'a = nat] by simp

lemma length_le_bytes [simp]: "length (le_bytes k n) = k"
  by (induction k arbitrary: n) simp_all

lemma le_bytes_Nil [simp]: "le_bytes k n = [] \<longleftrightarrow> k = 0"
  by (cases k) simp_all

lemma of_le_le_bytes: "of_le (le_bytes k n) = n mod 256 ^ k"
proof (induction k arbitrary: n)
  case (Suc k)
  have "unat (word_of_nat (n mod 256) :: byte) = n mod 256" by (simp add: unat_of_nat)
  then show ?case using mod_mult2_eq [of n 256 "256 ^ k"] by (simp add: Suc.IH)
qed simp

lemma le_bytes_of_le: "le_bytes (length bs) (of_le bs) = bs"
proof (induction bs)
  case (Cons b bs)
  have "unat b < 256" by (rule byte_less)
  then have "(unat b + 256 * of_le bs) mod 256 = unat b" "(unat b + 256 * of_le bs) div 256 = of_le bs"
    by simp_all
  then show ?case using Cons by simp
qed simp

lemma of_le_bound: "of_le bs < 256 ^ length bs"
proof (induction bs)
  case (Cons b bs)
  have "unat b < 256" by (rule byte_less)
  moreover have "256 * (of_le bs + 1) \<le> 256 * 256 ^ length bs" using Cons by (intro mult_le_mono2) simp
  ultimately show ?case by simp
qed simp

subsection \<open>Serializer\<close>

type_synonym serializer = "byte list"

definition KZ_RPC_HEADER_SIZE :: nat where
  "KZ_RPC_HEADER_SIZE = 24"

definition Serializer :: serializer where
  "Serializer = replicate KZ_RPC_HEADER_SIZE 0"

definition write_bool :: "bool \<Rightarrow> serializer \<Rightarrow> serializer" where
  "write_bool val buf = buf @ [if val then 1 else 0]"

function varint_loop :: "nat \<Rightarrow> serializer \<Rightarrow> serializer" where
  "varint_loop n buf =
     (if n \<ge> 128 then varint_loop (drop_bit 7 n) (buf @ [word_of_nat ((n AND 127) OR 128)])
      else buf @ [word_of_nat n])"
  by pat_completeness auto
termination
  by (relation "measure fst") (auto simp: drop_bit_eq_div)

declare varint_loop.simps [simp del]

definition zigzag :: "int_type \<Rightarrow> int \<Rightarrow> nat" where
  "zigzag t value =
     (if is_signed t
      then nat ((push_bit 1 (value mod 2 ^ bits t) XOR drop_bit (sizeof t * 8 - 1) value) mod 2 ^ bits t)
      else to_unsigned t value)"

definition write_varint :: "int_type \<Rightarrow> int \<Rightarrow> serializer \<Rightarrow> serializer" where
  "write_varint t value buf = varint_loop (zigzag t value) buf"

definition write_fixed :: "int_type \<Rightarrow> int \<Rightarrow> serializer \<Rightarrow> serializer" where
  "write_fixed t value buf = buf @ le_bytes (sizeof t) (to_unsigned t value)"

definition write_int :: "bool \<Rightarrow> int_type \<Rightarrow> int \<Rightarrow> serializer \<Rightarrow> serializer" where
  "write_int UseVarint t val buf = (if UseVarint then write_varint t val buf else write_fixed t val buf)"

text \<open>A \<open>float\<close> and a \<open>double\<close> are their bit patterns.\<close>

definition write_float :: "32 word \<Rightarrow> serializer \<Rightarrow> serializer" where
  "write_float val buf = buf @ le_bytes 4 (unat val)"

definition write_double :: "64 word \<Rightarrow> serializer \<Rightarrow> serializer" where
  "write_double val buf = buf @ le_bytes 8 (unat val)"

definition write_size :: "bool \<Rightarrow> nat \<Rightarrow> serializer \<Rightarrow> serializer" where
  "write_size UseVarint n buf =
     (if UseVarint then write_varint U64 (int n) buf else write_fixed U32 (int (n mod 2 ^ 32)) buf)"

definition write_string :: "bool \<Rightarrow> byte list \<Rightarrow> serializer \<Rightarrow> serializer" where
  "write_string UseVarint sv buf = write_size UseVarint (length sv) buf @ sv"

text \<open>A C string is its characters before the terminator; the null pointer is \<open>None\<close>.\<close>

definition write_cstr :: "bool \<Rightarrow> byte list option \<Rightarrow> serializer \<Rightarrow> serializer" where
  "write_cstr UseVarint str buf = (case str of Some s \<Rightarrow> write_string UseVarint s buf | None \<Rightarrow> buf)"

text \<open>The representation of a trivially copyable element is a parameter \<open>rep\<close> (\<open>None\<close> for other
  types), the stream operator of an element the parameter \<open>put\<close>.\<close>

definition write_span ::
  "bool \<Rightarrow> ('a \<Rightarrow> byte list) option \<Rightarrow> ('a \<Rightarrow> serializer \<Rightarrow> serializer) \<Rightarrow> 'a list \<Rightarrow> serializer \<Rightarrow> serializer" where
  "write_span UseVarint rep put items buf =
     (if items = [] then buf
      else let buf = write_size UseVarint (length items) buf
           in (case rep of
                 Some r \<Rightarrow> if \<not> UseVarint then buf @ concat (map r items) else fold put items buf
               | None \<Rightarrow> fold put items buf))"

subsection \<open>Deserializer\<close>

datatype Error = Ok | EndOfBuffer | VarintOverflow

record dstate =
  view :: "byte list"
  dpos :: nat
  derr :: Error

type_synonym 'a reader = "dstate \<Rightarrow> 'a option \<times> dstate"

definition Deserializer :: "byte list \<Rightarrow> dstate" where
  "Deserializer buffer = \<lparr>view = buffer, dpos = 0, derr = Ok\<rparr>"

definition check_bounds :: "dstate \<Rightarrow> nat \<Rightarrow> bool" where
  "check_bounds s len \<longleftrightarrow> wadd (dpos s) len \<le> length (view s)"

definition skip :: "nat \<Rightarrow> dstate \<Rightarrow> dstate" where
  "skip n s = s\<lparr>dpos := wadd (dpos s) n\<rparr>"

definition bytes_at :: "dstate \<Rightarrow> nat \<Rightarrow> byte list" where
  "bytes_at s n = take n (drop (dpos s) (view s))"

definition fail_with :: "Error \<Rightarrow> 'a reader" where
  "fail_with e s = (None, s\<lparr>derr := e\<rparr>)"

definition guarded :: "'a reader \<Rightarrow> 'a reader" where
  "guarded r s = (if derr s \<noteq> Ok then (None, s) else r s)"

definition and_then :: "'a reader \<Rightarrow> ('a \<Rightarrow> 'b reader) \<Rightarrow> 'b reader" where
  "and_then r k s = (case r s of (None, s) \<Rightarrow> (None, s) | (Some x, s) \<Rightarrow> k x s)"

lemma and_then_None: "fst (r s) = None \<Longrightarrow> and_then r k s = (None, snd (r s))"
  by (cases "r s") (simp add: and_then_def)

lemma and_then_Some: "r s = (Some x, s') \<Longrightarrow> and_then r k s = k x s'"
  by (simp add: and_then_def)

definition read_bool :: "bool reader" where
  "read_bool = guarded (\<lambda>s.
     if \<not> check_bounds s 1 then fail_with EndOfBuffer s
     else (Some (view s ! dpos s \<noteq> 0), skip 1 s))"

function read_varint_loop :: "int_type \<Rightarrow> nat \<Rightarrow> nat \<Rightarrow> nat reader" where
  "read_varint_loop t result shift s =
     (if \<not> check_bounds s 1 then fail_with EndOfBuffer s
      else let byte = view s ! dpos s; s = skip 1 s
           in if shift \<ge> sizeof t * 8 then fail_with VarintOverflow s
              else let result = (result OR push_bit shift (unat (byte AND 127))) mod 2 ^ bits t
                   in if byte AND 128 = 0 then (Some result, s)
                      else read_varint_loop t result (shift + 7) s)"
  by pat_completeness auto
termination
  by (relation "measure (\<lambda>(t, r, sh, s). sizeof t * 8 + 7 - sh)") auto

declare read_varint_loop.simps [simp del]

definition unzigzag :: "int_type \<Rightarrow> nat \<Rightarrow> int" where
  "unzigzag t r =
     (if is_signed t
      then of_unsigned t (nat ((drop_bit 1 (int r) XOR (- (int r AND 1))) mod 2 ^ bits t))
      else int r)"

definition read_varint :: "int_type \<Rightarrow> int reader" where
  "read_varint t = and_then (read_varint_loop t 0 0) (\<lambda>result s. (Some (unzigzag t result), s))"

definition read_fixed :: "int_type \<Rightarrow> int reader" where
  "read_fixed t s =
     (if \<not> check_bounds s (sizeof t) then fail_with EndOfBuffer s
      else (Some (of_unsigned t (of_le (bytes_at s (sizeof t)))), skip (sizeof t) s))"

definition read_int :: "bool \<Rightarrow> int_type \<Rightarrow> int reader" where
  "read_int UseVarint t = guarded (if UseVarint then read_varint t else read_fixed t)"

definition read_float :: "32 word reader" where
  "read_float = guarded (\<lambda>s.
     if \<not> check_bounds s 4 then fail_with EndOfBuffer s
     else (Some (word_of_nat (of_le (bytes_at s 4))), skip 4 s))"

definition read_double :: "64 word reader" where
  "read_double = guarded (\<lambda>s.
     if \<not> check_bounds s 8 then fail_with EndOfBuffer s
     else (Some (word_of_nat (of_le (bytes_at s 8))), skip 8 s))"

definition read_size :: "bool \<Rightarrow> nat reader" where
  "read_size UseVarint =
     (if UseVarint then and_then (read_varint U64) (\<lambda>tmp s. (Some (nat tmp), s))
      else and_then (read_fixed U32) (\<lambda>tmp s. (Some (nat tmp), s)))"

text \<open>A string view: offset and length.\<close>

definition read_view :: "bool \<Rightarrow> (nat \<times> nat) reader" where
  "read_view UseVarint = guarded (and_then (read_size UseVarint) (\<lambda>len s.
     if \<not> check_bounds s len then fail_with EndOfBuffer s
     else (Some (dpos s, len), skip len s)))"

definition read_string :: "bool \<Rightarrow> byte list reader" where
  "read_string UseVarint = and_then (read_view UseVarint) (\<lambda>(p, len) s. (Some (take len (drop p (view s))), s))"

fun read_items :: "'a reader \<Rightarrow> nat \<Rightarrow> 'a list \<Rightarrow> 'a list reader" where
  "read_items get 0 vec s = (Some vec, s)"
| "read_items get (Suc n) vec s = and_then get (\<lambda>item. read_items get n (vec @ [item])) s"

text \<open>For a trivially copyable element the parameter is its size and the reading of its bytes.\<close>

definition read_vector ::
  "bool \<Rightarrow> (nat \<times> (byte list \<Rightarrow> 'a)) option \<Rightarrow> 'a reader \<Rightarrow> 'a list reader" where
  "read_vector UseVarint copy get = guarded (and_then (read_size UseVarint) (\<lambda>n s.
     let slow = (if n > length (view s) - dpos s then fail_with EndOfBuffer s else read_items get n [] s)
     in (case copy of
           Some (k, r) \<Rightarrow>
             if \<not> UseVarint then
               (let bytes_to_copy = n * k mod W64
                in if \<not> check_bounds s bytes_to_copy then fail_with EndOfBuffer s
                   else (Some (map (\<lambda>i. r (take k (drop (dpos s + i * k) (view s)))) [0..<n]), skip bytes_to_copy s))
             else slow
         | None \<Rightarrow> slow)))"

subsection \<open>Reading positions\<close>

text \<open>The unread bytes start with \<open>bs\<close>; the unread bytes are a proper prefix of \<open>bs\<close>.\<close>

definition at :: "dstate \<Rightarrow> byte list \<Rightarrow> bool" where
  "at s bs \<longleftrightarrow> derr s = Ok \<and> length (view s) < W64 \<and> dpos s \<le> length (view s)
     \<and> (\<exists>r. drop (dpos s) (view s) = bs @ r)"

definition cut :: "dstate \<Rightarrow> byte list \<Rightarrow> bool" where
  "cut s bs \<longleftrightarrow> derr s = Ok \<and> length (view s) + length bs < W64 \<and> dpos s \<le> length (view s)
     \<and> (\<exists>k<length bs. drop (dpos s) (view s) = take k bs)"

definition adv :: "dstate \<Rightarrow> nat \<Rightarrow> dstate" where
  "adv s n = s\<lparr>dpos := dpos s + n\<rparr>"

lemma adv_sel [simp]:
  "view (adv s n) = view s" "derr (adv s n) = derr s" "dpos (adv s n) = dpos s + n"
  "adv (adv s m) n = adv s (m + n)" "adv s 0 = s"
  by (simp_all add: adv_def add.assoc)

lemma at_len: "at s bs \<Longrightarrow> dpos s + length bs \<le> length (view s)"
  unfolding at_def by (metis add_diff_inverse_nat add_le_cancel_left length_append length_drop le_add1 not_le)

lemma at_append: "at s (a @ b) \<longleftrightarrow> at s a \<and> at (adv s (length a)) b"
proof
  assume l: "at s (a @ b)"
  then obtain r where r: "drop (dpos s) (view s) = a @ b @ r" by (auto simp: at_def)
  have "drop (length a) (drop (dpos s) (view s)) = b @ r" unfolding r by simp
  then have "drop (dpos s + length a) (view s) = b @ r" by (simp add: add.commute)
  then show "at s a \<and> at (adv s (length a)) b" using l at_len [OF l] r by (auto simp: at_def)
next
  assume l: "at s a \<and> at (adv s (length a)) b"
  then obtain r q where r: "drop (dpos s) (view s) = a @ r" "drop (dpos s + length a) (view s) = b @ q"
    by (auto simp: at_def)
  have "drop (length a) (drop (dpos s) (view s)) = r" unfolding r by simp
  then have "r = b @ q" using r(2) by (simp add: add.commute)
  then show "at s (a @ b)" using l r by (simp add: at_def)
qed

lemma at_check: "at s bs \<Longrightarrow> check_bounds s (length bs)"
  using at_len [of s bs] by (simp add: at_def check_bounds_def wadd_small)

lemma at_skip: "at s bs \<Longrightarrow> skip (length bs) s = adv s (length bs)"
  using at_len [of s bs] by (simp add: at_def skip_def adv_def wadd_small)

lemma at_bytes: "at s bs \<Longrightarrow> bytes_at s (length bs) = bs"
  by (auto simp: at_def bytes_at_def)

lemma at_Ok: "at s bs \<Longrightarrow> derr s = Ok"
  by (simp add: at_def)

lemma at_Nil: "at s bs \<Longrightarrow> at s []"
  by (simp add: at_def)

lemma at_nth: "at s (b # bs) \<Longrightarrow> view s ! dpos s = b"
  using at_len [of s "b # bs"] by (auto simp: at_def drop_nth_Cons)

lemma at_one: "at s (b # bs) \<Longrightarrow> at s [b] \<and> at (adv s 1) bs"
  using at_append [of s "[b]" bs] by simp

lemma cut_Ok: "cut s bs \<Longrightarrow> derr s = Ok"
  by (simp add: cut_def)

lemma cut_len: "cut s bs \<Longrightarrow> length (view s) < dpos s + length bs"
proof -
  assume "cut s bs"
  then obtain k where k: "k < length bs" "drop (dpos s) (view s) = take k bs" by (auto simp: cut_def)
  have "length (view s) - dpos s = k" using arg_cong [OF k(2), of length] k(1) by simp
  then show ?thesis using k(1) by linarith
qed

lemma cut_append: "cut s (a @ b) \<Longrightarrow> cut s a \<or> at s a \<and> cut (adv s (length a)) b"
proof -
  assume c: "cut s (a @ b)"
  then obtain k where k: "k < length (a @ b)" "drop (dpos s) (view s) = take k (a @ b)" by (auto simp: cut_def)
  show ?thesis
  proof (cases "k < length a")
    case True
    then show ?thesis using c k by (auto simp: cut_def)
  next
    case False
    have len: "length (view s) - dpos s = k" using arg_cong [OF k(2), of length] k(1) by simp
    have "drop (length a) (drop (dpos s) (view s)) = take (k - length a) b" unfolding k(2) using False by simp
    then have "drop (dpos s + length a) (view s) = take (k - length a) b" by (simp add: add.commute)
    moreover have "k - length a < length b" using k(1) False by simp
    moreover have "dpos s \<le> length (view s)" using c by (simp add: cut_def)
    then have "dpos s + length a \<le> length (view s)" using len False by linarith
    moreover have "drop (dpos s) (view s) = a @ take (k - length a) b" using k(2) False by simp
    ultimately show ?thesis using c unfolding cut_def at_def by auto
  qed
qed

lemma cut_short: "cut s bs \<Longrightarrow> \<not> check_bounds s (length bs)"
proof -
  assume c: "cut s bs"
  then have "dpos s + length bs < W64" by (simp add: cut_def)
  then show ?thesis using cut_len [OF c] by (simp add: check_bounds_def wadd_small)
qed

lemma cut_one: "cut s (b # bs) \<Longrightarrow> check_bounds s 1 \<Longrightarrow> at s [b] \<and> cut (adv s 1) bs"
  using cut_append [of s "[b]" bs] cut_short [of s "[b]"] by auto

lemma cut_Nil [simp]: "\<not> cut s []"
  by (simp add: cut_def)

subsection \<open>The codec interface\<close>

text \<open>What the stream operators of a type promise: writing only appends, a value read where it was
  written comes back with the position behind it, and a truncated value is \<open>EndOfBuffer\<close>. The
  public operators are guarded by the error state besides: a stream that has failed stays failed.\<close>

locale frame =
  fixes put :: "'a \<Rightarrow> serializer \<Rightarrow> serializer" and get :: "'a reader" and okv :: "'a \<Rightarrow> bool"
  assumes put_append: "put x buf = buf @ put x []"
    and put_nonempty: "okv x \<Longrightarrow> put x [] \<noteq> []"
    and get_at: "okv x \<Longrightarrow> at s (put x []) \<Longrightarrow> get s = (Some x, adv s (length (put x [])))"
    and get_cut: "okv x \<Longrightarrow> cut s (put x []) \<Longrightarrow> fst (get s) = None \<and> derr (snd (get s)) = EndOfBuffer"
begin

lemma put_nil_len: "okv x \<Longrightarrow> length (put x []) \<ge> 1"
  using put_nonempty [of x] by (cases "put x []") auto

text \<open>A value written anywhere in a stream is read back.\<close>

lemma get_written:
  assumes "okv x" "length (pre @ put x [] @ post) < W64"
  shows "get \<lparr>view = put x pre @ post, dpos = length pre, derr = Ok\<rparr>
    = (Some x, \<lparr>view = put x pre @ post, dpos = length (put x pre), derr = Ok\<rparr>)"
proof -
  let ?s = "\<lparr>view = put x pre @ post, dpos = length pre, derr = Ok\<rparr>"
  have "at ?s (put x [])" using assms(2) by (simp add: at_def put_append [of x pre])
  then show ?thesis using get_at [OF assms(1)] by (simp add: adv_def put_append [of x pre])
qed

definition encs :: "'a list \<Rightarrow> byte list" where
  "encs xs = concat (map (\<lambda>x. put x []) xs)"

lemma fold_put: "fold put xs buf = buf @ encs xs"
proof (induction xs arbitrary: buf)
  case (Cons x xs)
  then show ?case using put_append [of x buf] by (simp add: encs_def)
qed (simp add: encs_def)

lemma encs_simps: "encs [] = []" "encs (x # xs) = put x [] @ encs xs"
  by (simp_all add: encs_def)

lemma length_encs: "list_all okv xs \<Longrightarrow> length xs \<le> length (encs xs)"
proof (induction xs)
  case (Cons x xs)
  then show ?case using put_nil_len [of x] by (simp add: encs_simps)
qed simp

lemma read_items_at:
  "list_all okv xs \<Longrightarrow> at s (encs xs) \<Longrightarrow>
   read_items get (length xs) acc s = (Some (acc @ xs), adv s (length (encs xs)))"
proof (induction xs arbitrary: acc s)
  case (Cons x xs)
  then have "at s (put x [])" "at (adv s (length (put x []))) (encs xs)" by (simp_all add: encs_simps at_append)
  then show ?case
    using Cons.IH [of "adv s (length (put x []))" "acc @ [x]"] Cons.prems(1) get_at [of x s]
    by (simp add: and_then_def encs_simps)
qed (simp add: encs_simps)

lemma read_items_cut:
  "list_all okv xs \<Longrightarrow> cut s (encs xs) \<Longrightarrow>
   fst (read_items get (length xs) acc s) = None \<and> derr (snd (read_items get (length xs) acc s)) = EndOfBuffer"
proof (induction xs arbitrary: acc s)
  case (Cons x xs)
  then consider "cut s (put x [])" | "at s (put x [])" "cut (adv s (length (put x []))) (encs xs)"
    using cut_append [of s "put x []" "encs xs"] by (auto simp: encs_simps)
  then show ?case
  proof cases
    case 1
    then show ?thesis
      using get_cut [of x s] Cons.prems by (cases "get s") (auto simp: and_then_def)
  next
    case 2
    then show ?thesis
      using Cons.IH [of "adv s (length (put x []))" "acc @ [x]"] Cons.prems(1) get_at [of x s]
      by (simp add: and_then_def)
  qed
qed (simp add: encs_simps)

end

locale codec = frame +
  assumes get_sticky: "derr s \<noteq> Ok \<Longrightarrow> get s = (None, s)"

text \<open>The guard turns a frame into a codec.\<close>

context frame
begin

lemma guarded_codec: "codec put (guarded get) okv"
  by unfold_locales
    (auto simp: guarded_def put_append [symmetric] put_nonempty get_at get_cut dest: at_Ok cut_Ok)

end

subsection \<open>Variable-length integers\<close>

lemma varint_append: "varint_loop n buf = buf @ varint_loop n []"
proof (induction n arbitrary: buf rule: less_induct)
  case (less n)
  show ?case
  proof (cases "n \<ge> 128")
    case True
    have lt: "drop_bit 7 n < n" using True by (simp add: drop_bit_eq_div)
    let ?b = "word_of_nat ((n AND 127) OR 128) :: byte"
    have "varint_loop n buf = (buf @ [?b]) @ varint_loop (drop_bit 7 n) []"
      using True less [OF lt, of "buf @ [?b]"] by (simp add: varint_loop.simps [of n buf])
    moreover have "varint_loop n [] = [?b] @ varint_loop (drop_bit 7 n) []"
      using True less [OF lt, of "[?b]"] by (simp add: varint_loop.simps [of n "[]"])
    ultimately show ?thesis by simp
  qed (simp add: varint_loop.simps)
qed

definition varint :: "nat \<Rightarrow> byte list" where
  "varint n = varint_loop n []"

lemma varint_last: "n < 128 \<Longrightarrow> varint n = [word_of_nat n]"
  by (simp add: varint_def varint_loop.simps)

lemma varint_step: "128 \<le> n \<Longrightarrow> varint n = word_of_nat (n mod 128 + 128) # varint (n div 128)"
proof -
  assume n: "128 \<le> n"
  have "n AND 127 = n mod 128" using and_pow2_minus_1 [of n 7] by simp
  moreover have "(n mod 128) OR 128 = n mod 128 + 128" using push_bit_or [of "n mod 128" 7 1] by (simp add: or.commute)
  ultimately show ?thesis
    using n varint_append [of "drop_bit 7 n" "[word_of_nat (n mod 128 + 128)]"]
    by (simp add: varint_def varint_loop.simps [of n] drop_bit_eq_div)
qed

lemma unat_small: "n < 256 \<Longrightarrow> unat (word_of_nat n :: byte) = n"
  by (simp add: unat_of_nat)

lemma varint_byte:
  assumes "128 \<le> n"
  obtains c where "varint n = c # varint (n div 128)" "unat c = n mod 128 + 128"
proof -
  have "n mod 128 < 128" by simp
  then have "unat (word_of_nat (n mod 128 + 128) :: byte) = n mod 128 + 128" by (intro unat_small) linarith
  then show ?thesis using that varint_step [OF assms] by blast
qed

lemma varint_nonempty [simp]: "varint n \<noteq> []"
  by (cases "n < 128") (simp_all add: varint_last varint_step)

lemma byte_low: "unat (b AND 127 :: byte) = unat b mod 128"
  using and_pow2_minus_1 [of "unat b" 7] by (simp add: unsigned_and_eq)

lemma byte_high: "(b AND 128 :: byte) = 0 \<longleftrightarrow> unat b < 128"
proof -
  have "unat (b AND 128) = unat b div 128 * 128"
    using and_clear_low [of "unat b" 8 7] byte_less [of b] by (simp add: unsigned_and_eq)
  then show ?thesis by (simp add: unat_eq_0 [symmetric] div_eq_0_iff)
qed

text \<open>One iteration of the reading loop.\<close>

lemma read_varint_step:
  assumes "at s [b]" "shift < bits t"
  shows "read_varint_loop t r shift s =
    (let r' = (r OR push_bit shift (unat b mod 128)) mod 2 ^ bits t
     in if unat b < 128 then (Some r', adv s 1) else read_varint_loop t r' (shift + 7) (adv s 1))"
proof -
  have "check_bounds s 1" "skip 1 s = adv s 1" using at_check [OF assms(1)] at_skip [OF assms(1)] by simp_all
  then show ?thesis
    using assms(2) at_nth [OF assms(1)]
    by (subst read_varint_loop.simps) (simp add: Let_def byte_low byte_high bits_def)
qed

lemma varint_acc:
  assumes "(r::nat) < 2 ^ sh" "n * 2 ^ sh < 2 ^ w" "0 < n \<or> sh < w"
  shows "(r OR push_bit sh (n mod 128)) mod 2 ^ w = r + n mod 128 * 2 ^ sh"
    "r + n mod 128 * 2 ^ sh < 2 ^ (sh + 7)"
proof -
  have or: "r OR push_bit sh (n mod 128) = r + n mod 128 * 2 ^ sh"
    using push_bit_or [OF assms(1), of "n mod 128"] by (simp add: or.commute)
  have sw: "sh < w"
  proof (rule ccontr)
    assume "\<not> sh < w"
    then have "0 < n" "(2::nat) ^ w \<le> 2 ^ sh" using assms(3) by (auto intro: power_increasing)
    moreover have "1 * 2 ^ sh \<le> n * 2 ^ sh" using \<open>0 < n\<close> by (intro mult_le_mono1) simp
    ultimately show False using assms(2) by linarith
  qed
  have "(2::nat) ^ w = 2 ^ (w - sh) * 2 ^ sh" using sw by (simp add: power_add [symmetric])
  then have "n < 2 ^ (w - sh)" using assms(2) by simp
  then have "n mod 128 < 2 ^ (w - sh)" using mod_less_eq_dividend [of n 128] by (rule le_less_trans [rotated])
  then have "n mod 128 + 1 \<le> 2 ^ (w - sh)" by simp
  then have "(n mod 128 + 1) * 2 ^ sh \<le> 2 ^ (w - sh) * 2 ^ sh" by (rule mult_le_mono1)
  then have "r + n mod 128 * 2 ^ sh < 2 ^ w" using assms(1) sw by (simp add: power_add [symmetric])
  then show "(r OR push_bit sh (n mod 128)) mod 2 ^ w = r + n mod 128 * 2 ^ sh" by (simp add: or)
  have "n mod 128 < 128" by simp
  then have "(n mod 128 + 1) * 2 ^ sh \<le> 128 * 2 ^ sh" by (intro mult_le_mono1) linarith
  then have "r + n mod 128 * 2 ^ sh < 128 * 2 ^ sh" using assms(1) unfolding add_mult_distrib by linarith
  then show "r + n mod 128 * 2 ^ sh < 2 ^ (sh + 7)" by (simp add: power_add mult.commute)
qed

lemma varint_rest:
  assumes "(n::nat) * 2 ^ sh < 2 ^ w" "128 \<le> n"
  shows "n div 128 * 2 ^ (sh + 7) < 2 ^ w" "sh + 7 < w"
proof -
  have "n div 128 * 128 \<le> n" by simp
  then have "n div 128 * 128 * 2 ^ sh \<le> n * 2 ^ sh" by (rule mult_le_mono1)
  moreover have "n div 128 * 128 * 2 ^ sh = n div 128 * 2 ^ (sh + 7)" by (simp add: power_add)
  ultimately show lt: "n div 128 * 2 ^ (sh + 7) < 2 ^ w" using assms(1) by linarith
  have "1 * 2 ^ (sh + 7) \<le> n div 128 * 2 ^ (sh + 7)" using assms(2) by (intro mult_le_mono1) (simp add: div_greater_zero_iff Suc_le_eq)
  then have "(2::nat) ^ (sh + 7) < 2 ^ w" using lt by linarith
  then show "sh + 7 < w" by (rule power_less_imp_less_exp [rotated]) simp
qed

lemma read_varint_at:
  "at s (varint n) \<Longrightarrow> r < 2 ^ sh \<Longrightarrow> n * 2 ^ sh < 2 ^ bits t \<Longrightarrow> sh < bits t \<Longrightarrow>
   read_varint_loop t r sh s = (Some (r + n * 2 ^ sh), adv s (length (varint n)))"
proof (induction n arbitrary: s r sh rule: less_induct)
  case (less n)
  note acc = varint_acc [OF less.prems(2,3) disjI2 [OF less.prems(4)]]
  show ?case
  proof (cases "n < 128")
    case True
    then show ?thesis
      using less.prems acc by (simp add: varint_last read_varint_step unat_small)
  next
    case False
    then obtain c where v: "varint n = c # varint (n div 128)" and b: "unat c = n mod 128 + 128"
      using varint_byte [of n] by (metis not_less)
    have here: "at s [c]" "at (adv s 1) (varint (n div 128))"
      using at_one [of s c "varint (n div 128)"] less.prems(1) v by simp_all
    note rest = varint_rest [OF less.prems(3)]
    have "read_varint_loop t r sh s = read_varint_loop t (r + n mod 128 * 2 ^ sh) (sh + 7) (adv s 1)"
      using read_varint_step [OF here(1) less.prems(4)] acc(1) by (simp add: b)
    also have "\<dots> = (Some (r + n mod 128 * 2 ^ sh + n div 128 * 2 ^ (sh + 7)), adv (adv s 1) (length (varint (n div 128))))"
      using False here(2) acc(2) rest by (intro less.IH) simp_all
    also have "r + n mod 128 * 2 ^ sh + n div 128 * 2 ^ (sh + 7) = r + (n mod 128 + n div 128 * 128) * 2 ^ sh"
      unfolding add_mult_distrib by (simp add: power_add)
    also have "n mod 128 + n div 128 * 128 = n" by simp
    finally show ?thesis by (simp add: v)
  qed
qed

lemma read_varint_cut:
  "cut s (varint n) \<Longrightarrow> n * 2 ^ sh < 2 ^ bits t \<Longrightarrow> sh < bits t \<Longrightarrow>
   fst (read_varint_loop t r sh s) = None \<and> derr (snd (read_varint_loop t r sh s)) = EndOfBuffer"
proof (induction n arbitrary: s r sh rule: less_induct)
  case (less n)
  show ?case
  proof (cases "check_bounds s 1")
    case False
    then show ?thesis by (subst (1 2) read_varint_loop.simps) (simp add: fail_with_def)
  next
    case True
    have big: "\<not> n < 128" using cut_short [of s "varint n"] True less.prems(1) by (auto simp: varint_last)
    then obtain c where v: "varint n = c # varint (n div 128)" and b: "unat c = n mod 128 + 128"
      using varint_byte [of n] by (metis not_less)
    have here: "at s [c]" "cut (adv s 1) (varint (n div 128))"
      using cut_one [of s c "varint (n div 128)"] less.prems(1) True v by simp_all
    show ?thesis
      using less.IH [of "n div 128" "adv s 1" "sh + 7"] here varint_rest [OF less.prems(2)] big
        read_varint_step [OF here(1) less.prems(3)] by (simp add: b)
  qed
qed

text \<open>The zigzag map of signed values: non-negative to even, negative to odd.\<close>

lemma signed_range:
  assumes "in_range t v" "is_signed t"
  shows "- (2 ^ bits t) \<le> 2 * v" "2 * v < 2 ^ bits t"
  using assms pow_bits [of t] by (auto simp: in_range_def)

lemma zigzag_eq:
  assumes "in_range t v" "is_signed t"
  shows "int (zigzag t v) = (if v < 0 then - 2 * v - 1 else 2 * v)"
proof -
  note r = signed_range [OF assms]
  have l: "- (2 ^ (bits t - 1)) \<le> v" "v < 2 ^ (bits t - 1)" using assms by (auto simp: in_range_def)
  show ?thesis
  proof (cases "v < 0")
    case True
    have m: "v mod 2 ^ bits t = v + 2 ^ bits t"
    proof -
      have "v mod 2 ^ bits t = (v + 2 ^ bits t) mod 2 ^ bits t" by simp
      also have "\<dots> = v + 2 ^ bits t" using True r by (intro mod_pos_pos_trivial) linarith+
      finally show ?thesis .
    qed
    have "v div 2 ^ (bits t - 1) = - 1"
      by (rule int_div_pos_eq [where r = "v + 2 ^ (bits t - 1)"]) (use True l in simp_all)
    then have d: "drop_bit (sizeof t * 8 - 1) v = - 1" by (simp add: drop_bit_eq_div bits_def)
    have "(push_bit 1 (v + 2 ^ bits t) XOR - 1) mod 2 ^ bits t = (- 2 * v - 1 + 2 ^ bits t * (- 2)) mod 2 ^ bits t"
      by (simp add: push_bit_eq_mult not_int_def algebra_simps)
    also have "\<dots> = (- 2 * v - 1) mod 2 ^ bits t" by (rule mod_mult_self2)
    also have "\<dots> = - 2 * v - 1" using True r by (intro mod_pos_pos_trivial) linarith+
    finally show ?thesis using True assms(2) by (simp only: zigzag_def m d if_True)
  next
    case False
    have m: "v mod 2 ^ bits t = v" using False r by (intro mod_pos_pos_trivial) linarith+
    have "drop_bit (sizeof t * 8 - 1) v = 0"
      using False l by (simp add: drop_bit_eq_div bits_def div_pos_pos_trivial)
    moreover have "(2 * v) mod 2 ^ bits t = 2 * v" using False r by (intro mod_pos_pos_trivial) linarith+
    ultimately show ?thesis using False assms(2) by (simp add: zigzag_def m push_bit_eq_mult mult.commute)
  qed
qed

lemma zigzag_bound: "in_range t v \<Longrightarrow> zigzag t v < 2 ^ bits t"
proof (cases "is_signed t")
  case True
  assume "in_range t v"
  then have "int (zigzag t v) < 2 ^ bits t"
    using zigzag_eq [OF _ True, of v] signed_range [OF _ True, of v] by (auto split: if_splits)
  then show ?thesis by (metis of_nat_less_iff of_nat_numeral of_nat_power)
qed (simp add: zigzag_def to_unsigned_bound)

lemma unzigzag_zigzag: "in_range t v \<Longrightarrow> unzigzag t (zigzag t v) = v"
proof (cases "is_signed t")
  case True
  assume r: "in_range t v"
  note z = zigzag_eq [OF r True]
  have "drop_bit 1 (int (zigzag t v)) XOR - (int (zigzag t v) AND 1) = v"
  proof (cases "v < 0")
    case True
    then have e: "int (zigzag t v) = 2 * (- v - 1) + 1" using z by simp
    have "drop_bit 1 (int (zigzag t v)) = - v - 1" unfolding e by (simp add: drop_bit_eq_div)
    moreover have "int (zigzag t v) AND 1 = 1" unfolding e and_one_eq by presburger
    ultimately show ?thesis by (simp add: not_int_def)
  next
    case False
    then have e: "int (zigzag t v) = 2 * v" using z by simp
    show ?thesis unfolding e and_one_eq by (simp add: drop_bit_eq_div)
  qed
  then show ?thesis using of_to_unsigned [OF r] unfolding unzigzag_def to_unsigned_def if_P [OF True] by (simp only:)
next
  case False
  assume r: "in_range t v"
  then have "v mod 2 ^ bits t = v" using False by (auto simp: in_range_def)
  then show ?thesis using False r by (simp add: unzigzag_def zigzag_def to_unsigned_def in_range_def)
qed

subsection \<open>The frames and codecs of the program\<close>

interpretation vint: frame "write_varint t" "read_varint t" "in_range t"
proof
  fix x buf s
  show "write_varint t x buf = buf @ write_varint t x []" unfolding write_varint_def by (rule varint_append)
  show "write_varint t x [] \<noteq> []" unfolding write_varint_def varint_def [symmetric] by simp
  assume x: "in_range t x"
  note b = zigzag_bound [OF x]
  show "read_varint t s = (Some x, adv s (length (write_varint t x [])))" if "at s (write_varint t x [])"
    using read_varint_at [of s "zigzag t x" 0 0 t] that b unzigzag_zigzag [OF x]
    by (simp add: write_varint_def varint_def read_varint_def and_then_def)
  show "fst (read_varint t s) = None \<and> derr (snd (read_varint t s)) = EndOfBuffer" if "cut s (write_varint t x [])"
    using read_varint_cut [of s "zigzag t x" 0 t 0] that b
    by (simp add: write_varint_def varint_def read_varint_def and_then_None)
qed

lemma fixed_at:
  assumes "at s bs"
  shows "check_bounds s (length bs)" "bytes_at s (length bs) = bs" "skip (length bs) s = adv s (length bs)"
  using assms by (simp_all add: at_check at_bytes at_skip)

interpretation fint: frame "write_fixed t" "read_fixed t" "in_range t"
proof
  fix x buf s
  let ?bs = "le_bytes (sizeof t) (to_unsigned t x)"
  have w: "write_fixed t x b = b @ ?bs" for b by (simp add: write_fixed_def)
  have p: "256 ^ sizeof t = (2::nat) ^ bits t" by (cases t) (simp_all add: bits_def)
  show "write_fixed t x buf = buf @ write_fixed t x []" by (simp add: w)
  have "sizeof t \<noteq> 0" by (cases t) simp_all
  then show "write_fixed t x [] \<noteq> []" by (simp add: w)
  assume x: "in_range t x"
  show "read_fixed t s = (Some x, adv s (length (write_fixed t x [])))" if "at s (write_fixed t x [])"
    using fixed_at [of s ?bs] that of_to_unsigned [OF x] to_unsigned_bound [of t x]
    by (simp add: read_fixed_def w of_le_le_bytes p)
  show "fst (read_fixed t s) = None \<and> derr (snd (read_fixed t s)) = EndOfBuffer" if "cut s (write_fixed t x [])"
    using cut_short [of s ?bs] that by (simp add: read_fixed_def w fail_with_def)
qed

interpretation integer: codec "write_int uv t" "read_int uv t" "in_range t"
proof -
  have "codec (write_varint t) (guarded (read_varint t)) (in_range t)" by (rule vint.guarded_codec)
  moreover have "codec (write_fixed t) (guarded (read_fixed t)) (in_range t)" by (rule fint.guarded_codec)
  moreover have "write_int uv t = (if uv then write_varint t else write_fixed t)" by (auto simp: write_int_def fun_eq_iff)
  ultimately show "codec (write_int uv t) (read_int uv t) (in_range t)"
    by (cases uv) (simp_all add: read_int_def)
qed

interpretation boolean: codec write_bool read_bool "\<lambda>_. True"
proof
  fix x :: bool and buf s
  show "write_bool x buf = buf @ write_bool x []" "write_bool x [] \<noteq> []" by (simp_all add: write_bool_def)
  show "read_bool s = (Some x, adv s (length (write_bool x [])))" if "at s (write_bool x [])"
    using fixed_at [of s "write_bool x []"] at_nth [of s _ "[]"] at_Ok [OF that] that
    by (cases x) (simp_all add: write_bool_def read_bool_def guarded_def)
  show "fst (read_bool s) = None \<and> derr (snd (read_bool s)) = EndOfBuffer" if "cut s (write_bool x [])"
    using cut_short [OF that] cut_Ok [OF that] by (simp add: write_bool_def read_bool_def guarded_def fail_with_def)
  show "read_bool s = (None, s)" if "derr s \<noteq> Ok" using that by (simp add: read_bool_def guarded_def)
qed

interpretation float: codec write_float read_float "\<lambda>_. True"
proof
  fix x :: "32 word" and buf s
  have "unat x < 256 ^ 4" using unsigned_less [of x, where ?'a = nat] by simp
  then have b: "of_le (le_bytes 4 (unat x)) = unat x" by (simp only: of_le_le_bytes mod_less)
  show "write_float x buf = buf @ write_float x []" "write_float x [] \<noteq> []"
    by (simp_all add: write_float_def)
  show "read_float s = (Some x, adv s (length (write_float x [])))" if "at s (write_float x [])"
    using fixed_at [OF that] at_Ok [OF that]
    by (simp add: write_float_def read_float_def guarded_def b)
  show "fst (read_float s) = None \<and> derr (snd (read_float s)) = EndOfBuffer" if "cut s (write_float x [])"
    using cut_short [OF that] cut_Ok [OF that] by (simp add: write_float_def read_float_def guarded_def fail_with_def)
  show "read_float s = (None, s)" if "derr s \<noteq> Ok" using that by (simp add: read_float_def guarded_def)
qed

interpretation double: codec write_double read_double "\<lambda>_. True"
proof
  fix x :: "64 word" and buf s
  have "unat x < 256 ^ 8" using unsigned_less [of x, where ?'a = nat] by simp
  then have b: "of_le (le_bytes 8 (unat x)) = unat x" by (simp only: of_le_le_bytes mod_less)
  show "write_double x buf = buf @ write_double x []" "write_double x [] \<noteq> []"
    by (simp_all add: write_double_def)
  show "read_double s = (Some x, adv s (length (write_double x [])))" if "at s (write_double x [])"
    using fixed_at [OF that] at_Ok [OF that]
    by (simp add: write_double_def read_double_def guarded_def b)
  show "fst (read_double s) = None \<and> derr (snd (read_double s)) = EndOfBuffer" if "cut s (write_double x [])"
    using cut_short [OF that] cut_Ok [OF that] by (simp add: write_double_def read_double_def guarded_def fail_with_def)
  show "read_double s = (None, s)" if "derr s \<noteq> Ok" using that by (simp add: read_double_def guarded_def)
qed

definition size_ok :: "bool \<Rightarrow> nat \<Rightarrow> bool" where
  "size_ok uv n \<longleftrightarrow> n < (if uv then 2 ^ 64 else 2 ^ 32)"

lemma size_int:
  "size_ok True n \<Longrightarrow> in_range U64 (int n)" "size_ok False n \<Longrightarrow> in_range U32 (int n)"
  by (simp_all add: size_ok_def in_range_def bits_def)

lemma write_size_True: "write_size True n b = write_varint U64 (int n) b"
  by (simp add: write_size_def)

lemma write_size_False: "size_ok False n \<Longrightarrow> write_size False n b = write_fixed U32 (int n) b"
  by (simp add: write_size_def size_ok_def)

interpretation length_field: frame "write_size uv" "read_size uv" "size_ok uv"
proof
  fix x buf s
  show "write_size uv x buf = buf @ write_size uv x []"
    using vint.put_append [of U64 "int x" buf] fint.put_append [of U32 "int (x mod 2 ^ 32)" buf]
    by (simp add: write_size_def)
  assume x: "size_ok uv x"
  note e = write_size_True write_size_False
  show "write_size uv x [] \<noteq> []"
    using vint.put_nonempty [OF size_int(1)] fint.put_nonempty [OF size_int(2)] x by (cases uv) (simp_all add: e)
  show "read_size uv s = (Some x, adv s (length (write_size uv x [])))" if "at s (write_size uv x [])"
    using vint.get_at [OF size_int(1)] fint.get_at [OF size_int(2)] x that
    by (cases uv) (simp_all add: e read_size_def and_then_Some)
  show "fst (read_size uv s) = None \<and> derr (snd (read_size uv s)) = EndOfBuffer" if "cut s (write_size uv x [])"
    using vint.get_cut [OF size_int(1)] fint.get_cut [OF size_int(2)] x that
    by (cases uv) (simp_all add: e read_size_def and_then_None)
qed

lemma read_view_at:
  assumes "size_ok uv (length bs)" "at s (write_string uv bs [])"
  shows "read_view uv s = (Some (dpos s + length (write_size uv (length bs) []), length bs),
     adv s (length (write_string uv bs [])))"
proof -
  let ?h = "write_size uv (length bs) []"
  have l: "at s ?h" "at (adv s (length ?h)) bs" using assms(2) by (simp_all add: write_string_def at_append)
  then show ?thesis
    using length_field.get_at [OF assms(1) l(1)] fixed_at [OF l(2)] at_Ok [OF l(1)]
    by (simp add: read_view_def guarded_def and_then_Some write_string_def)
qed

interpretation str: codec "write_string uv" "read_string uv" "\<lambda>bs. size_ok uv (length bs)"
proof
  fix x buf s
  show "write_string uv x buf = buf @ write_string uv x []"
    using length_field.put_append [of uv "length x" buf] by (simp add: write_string_def)
  assume x: "size_ok uv (length x)"
  show "write_string uv x [] \<noteq> []" using length_field.put_nonempty [OF x] by (simp add: write_string_def)
  let ?h = "write_size uv (length x) []"
  show "read_string uv s = (Some x, adv s (length (write_string uv x [])))" if "at s (write_string uv x [])"
  proof -
    have "at (adv s (length ?h)) x" using that by (simp add: write_string_def at_append)
    then have "take (length x) (drop (dpos s + length ?h) (view s)) = x" by (auto simp: at_def)
    then show ?thesis using read_view_at [OF x that] by (simp add: read_string_def and_then_Some)
  qed
  show "fst (read_string uv s) = None \<and> derr (snd (read_string uv s)) = EndOfBuffer" if "cut s (write_string uv x [])"
  proof -
    have ok: "derr s = Ok" by (rule cut_Ok [OF that])
    from that consider "cut s ?h" | "at s ?h" "cut (adv s (length ?h)) x"
      using cut_append [of s ?h x] by (auto simp: write_string_def)
    then have "fst (read_view uv s) = None \<and> derr (snd (read_view uv s)) = EndOfBuffer"
    proof cases
      case 1
      then show ?thesis using length_field.get_cut [OF x 1] ok by (simp add: read_view_def guarded_def and_then_None)
    next
      case 2
      then show ?thesis using length_field.get_at [OF x 2(1)] cut_short [OF 2(2)] ok
        by (simp add: read_view_def guarded_def and_then_Some fail_with_def)
    qed
    then show ?thesis by (simp add: read_string_def and_then_None)
  qed
next
  fix s
  show "read_string uv s = (None, s)" if "derr s \<noteq> Ok" using that by (simp add: read_string_def read_view_def guarded_def and_then_def)
qed

subsection \<open>Vectors\<close>

context codec
begin

text \<open>Element by element: a non-empty sequence is a codec again.\<close>

lemma slow_vector:
  "codec (write_span uv None put) (read_vector uv None get) (\<lambda>xs. xs \<noteq> [] \<and> list_all okv xs \<and> size_ok uv (length xs))"
proof
  fix xs :: "'a list" and buf s
  have w: "write_span uv None put xs b = (if xs = [] then b else write_size uv (length xs) b @ encs xs)" for b
    by (simp add: write_span_def fold_put)
  show "write_span uv None put xs buf = buf @ write_span uv None put xs []"
    using length_field.put_append [of uv "length xs" buf] by (simp add: w)
  show "read_vector uv None get s = (None, s)" if "derr s \<noteq> Ok" using that by (simp add: read_vector_def guarded_def)
  assume "xs \<noteq> [] \<and> list_all okv xs \<and> size_ok uv (length xs)"
  then have x: "xs \<noteq> []" "list_all okv xs" "size_ok uv (length xs)" by simp_all
  let ?h = "write_size uv (length xs) []"
  show "write_span uv None put xs [] \<noteq> []" using length_field.put_nonempty [OF x(3)] x(1) by (simp add: w)
  show "read_vector uv None get s = (Some xs, adv s (length (write_span uv None put xs [])))"
    if "at s (write_span uv None put xs [])"
  proof -
    have l: "at s ?h" "at (adv s (length ?h)) (encs xs)" using that x(1) by (simp_all add: w at_append)
    have "length xs \<le> length (view s) - (dpos s + length ?h)"
      using at_len [OF l(2)] length_encs [OF x(2)] by simp
    then show ?thesis
      using length_field.get_at [OF x(3) l(1)] at_Ok [OF l(1)] read_items_at [OF x(2) l(2), of "[]"] x(1)
      by (simp add: read_vector_def guarded_def and_then_Some Let_def w)
  qed
  show "fst (read_vector uv None get s) = None \<and> derr (snd (read_vector uv None get s)) = EndOfBuffer"
    if "cut s (write_span uv None put xs [])"
  proof -
    have ok: "derr s = Ok" by (rule cut_Ok [OF that])
    from that x(1) consider "cut s ?h" | "at s ?h" "cut (adv s (length ?h)) (encs xs)"
      using cut_append [of s ?h "encs xs"] by (auto simp: w)
    then show ?thesis
    proof cases
      case 1
      then show ?thesis using length_field.get_cut [OF x(3) 1] ok by (simp add: read_vector_def guarded_def and_then_None)
    next
      case 2
      then show ?thesis
        using length_field.get_at [OF x(3) 2(1)] read_items_cut [OF x(2) 2(2), of "[]"] ok
        by (simp add: read_vector_def guarded_def and_then_Some fail_with_def Let_def)
    qed
  qed
qed

end

text \<open>The single copy of a trivially copyable element type of size \<open>k\<close>.\<close>

locale trivially_copyable =
  fixes rep :: "'a \<Rightarrow> byte list" and k :: nat and unrep :: "byte list \<Rightarrow> 'a" and okv :: "'a \<Rightarrow> bool"
  assumes rep_length: "length (rep x) = k"
    and unrep_rep: "okv x \<Longrightarrow> unrep (rep x) = x"
begin

lemma blocks_nth:
  "i < length xs \<Longrightarrow> take k (drop (i * k) (concat (map rep xs) @ r)) = rep (xs ! i)"
proof (induction xs arbitrary: i)
  case (Cons x xs)
  show ?case
  proof (cases i)
    case 0
    then show ?thesis using rep_length [of x] by simp
  next
    case (Suc j)
    have "drop (Suc j * k) (rep x @ concat (map rep xs) @ r) = drop (j * k) (concat (map rep xs) @ r)"
      using rep_length [of x] by simp
    then show ?thesis using Cons Suc by simp
  qed
qed simp

lemma blocks_length: "length (concat (map rep xs)) = length xs * k"
  by (induction xs) (simp_all add: rep_length)

lemma copied_items:
  assumes "at s (concat (map rep xs))" "list_all okv xs"
  shows "map (\<lambda>i. unrep (take k (drop (dpos s + i * k) (view s)))) [0..<length xs] = xs"
proof (intro nth_equalityI)
  fix i
  assume "i < length (map (\<lambda>i. unrep (take k (drop (dpos s + i * k) (view s)))) [0..<length xs])"
  then have i: "i < length xs" by simp
  obtain r where r: "drop (dpos s) (view s) = concat (map rep xs) @ r" using assms(1) by (auto simp: at_def)
  have "take k (drop (dpos s + i * k) (view s)) = take k (drop (i * k) (drop (dpos s) (view s)))"
    by (simp add: add.commute)
  also have "\<dots> = rep (xs ! i)" unfolding r by (rule blocks_nth [OF i])
  finally show "map (\<lambda>i. unrep (take k (drop (dpos s + i * k) (view s)))) [0..<length xs] ! i = xs ! i"
    using assms(2) i by (simp add: unrep_rep list_all_length)
qed simp

lemma fast_vector:
  "codec (write_span False (Some rep) put) (read_vector False (Some (k, unrep)) get)
     (\<lambda>xs. xs \<noteq> [] \<and> list_all okv xs \<and> size_ok False (length xs))"
proof
  fix xs :: "'a list" and buf s
  let ?c = "concat (map rep xs)"
  have w: "write_span False (Some rep) put xs b = (if xs = [] then b else write_size False (length xs) b @ ?c)" for b
    by (simp add: write_span_def)
  show "write_span False (Some rep) put xs buf = buf @ write_span False (Some rep) put xs []"
    using length_field.put_append [of False "length xs" buf] by (simp add: w)
  show "read_vector False (Some (k, unrep)) get s = (None, s)" if "derr s \<noteq> Ok" using that by (simp add: read_vector_def guarded_def)
  assume "xs \<noteq> [] \<and> list_all okv xs \<and> size_ok False (length xs)"
  then have x: "xs \<noteq> []" "list_all okv xs" "size_ok False (length xs)" by simp_all
  let ?h = "write_size False (length xs) []"
  show "write_span False (Some rep) put xs [] \<noteq> []" using length_field.put_nonempty [OF x(3)] x(1) by (simp add: w)
  show "read_vector False (Some (k, unrep)) get s = (Some xs, adv s (length (write_span False (Some rep) put xs [])))"
    if "at s (write_span False (Some rep) put xs [])"
  proof -
    have l: "at s ?h" "at (adv s (length ?h)) ?c" using that x(1) by (simp_all add: w at_append)
    have "length xs * k mod W64 = length ?c"
      using at_len [OF l(2)] l(2) by (simp add: blocks_length at_def)
    then show ?thesis
      using length_field.get_at [OF x(3) l(1)] at_Ok [OF l(1)] fixed_at [OF l(2)] copied_items [OF l(2) x(2)] x(1)
      by (simp add: read_vector_def guarded_def and_then_Some Let_def w)
  qed
  show "fst (read_vector False (Some (k, unrep)) get s) = None \<and> derr (snd (read_vector False (Some (k, unrep)) get s)) = EndOfBuffer"
    if "cut s (write_span False (Some rep) put xs [])"
  proof -
    have ok: "derr s = Ok" by (rule cut_Ok [OF that])
    from that x(1) consider "cut s ?h" | "at s ?h" "cut (adv s (length ?h)) ?c"
      using cut_append [of s ?h ?c] by (auto simp: w)
    then show ?thesis
    proof cases
      case 1
      then show ?thesis using length_field.get_cut [OF x(3) 1] ok by (simp add: read_vector_def guarded_def and_then_None)
    next
      case 2
      then have "length xs * k mod W64 = length ?c" by (simp add: cut_def blocks_length)
      then show ?thesis
        using length_field.get_at [OF x(3) 2(1)] cut_short [OF 2(2)] ok
        by (simp add: read_vector_def guarded_def and_then_Some fail_with_def Let_def)
    qed
  qed
qed

end

interpretation integer_copy: trivially_copyable "\<lambda>v. le_bytes (sizeof t) (to_unsigned t v)" "sizeof t"
  "\<lambda>bs. of_unsigned t (of_le bs)" "in_range t"
proof
  fix x
  have "256 ^ sizeof t = (2::nat) ^ bits t" by (cases t) (simp_all add: bits_def)
  then show "in_range t x \<Longrightarrow> of_unsigned t (of_le (le_bytes (sizeof t) (to_unsigned t x))) = x"
    using to_unsigned_bound [of t x] by (simp add: of_le_le_bytes of_to_unsigned)
qed simp

definition write_ints :: "bool \<Rightarrow> int_type \<Rightarrow> int list \<Rightarrow> serializer \<Rightarrow> serializer" where
  "write_ints uv t = write_span uv (Some (\<lambda>v. le_bytes (sizeof t) (to_unsigned t v))) (write_int uv t)"

definition read_ints :: "bool \<Rightarrow> int_type \<Rightarrow> int list reader" where
  "read_ints uv t = read_vector uv (Some (sizeof t, \<lambda>bs. of_unsigned t (of_le bs))) (read_int uv t)"

lemma span_varint: "write_span True (Some r) p = write_span True None p"
  by (intro ext) (simp add: write_span_def)

lemma vector_varint: "read_vector True (Some c) g = read_vector True None g"
  unfolding read_vector_def by (cases c) simp

interpretation ints: codec "write_ints uv t" "read_ints uv t"
  "\<lambda>xs. xs \<noteq> [] \<and> list_all (in_range t) xs \<and> size_ok uv (length xs)"
proof (cases uv)
  case True
  then show "codec (write_ints uv t) (read_ints uv t) (\<lambda>xs. xs \<noteq> [] \<and> list_all (in_range t) xs \<and> size_ok uv (length xs))"
    using integer.slow_vector [of True True t] by (simp add: write_ints_def read_ints_def span_varint vector_varint)
next
  case False
  then show "codec (write_ints uv t) (read_ints uv t) (\<lambda>xs. xs \<noteq> [] \<and> list_all (in_range t) xs \<and> size_ok uv (length xs))"
    using integer_copy.fast_vector [of t "write_int False t" "read_int False t"] by (simp add: write_ints_def read_ints_def)
qed

interpretation strings: codec "write_span uv None (write_string uv)" "read_vector uv None (read_string uv)"
  "\<lambda>xs. xs \<noteq> [] \<and> list_all (\<lambda>bs. size_ok uv (length bs)) xs \<and> size_ok uv (length xs)"
  by (rule str.slow_vector)

subsection \<open>Messages\<close>

text \<open>A message is a sequence of fields, written and read in the same order.\<close>

datatype field = FBool bool | FInt int_type int | FFloat "32 word" | FDouble "64 word" | FStr "byte list"
  | FInts int_type "int list" | FStrs "byte list list"

datatype shape = SBool | SInt int_type | SFloat | SDouble | SStr | SInts int_type | SStrs

fun shape_of :: "field \<Rightarrow> shape" where
  "shape_of (FBool b) = SBool" | "shape_of (FInt t v) = SInt t" | "shape_of (FFloat x) = SFloat"
| "shape_of (FDouble x) = SDouble" | "shape_of (FStr bs) = SStr" | "shape_of (FInts t vs) = SInts t"
| "shape_of (FStrs ss) = SStrs"

fun put_field :: "bool \<Rightarrow> field \<Rightarrow> serializer \<Rightarrow> serializer" where
  "put_field uv (FBool b) = write_bool b"
| "put_field uv (FInt t v) = write_int uv t v"
| "put_field uv (FFloat x) = write_float x"
| "put_field uv (FDouble x) = write_double x"
| "put_field uv (FStr bs) = write_string uv bs"
| "put_field uv (FInts t vs) = write_ints uv t vs"
| "put_field uv (FStrs ss) = write_span uv None (write_string uv) ss"

definition tagged :: "('a \<Rightarrow> field) \<Rightarrow> 'a reader \<Rightarrow> field reader" where
  "tagged c r = and_then r (\<lambda>x s. (Some (c x), s))"

fun get_field :: "bool \<Rightarrow> shape \<Rightarrow> field reader" where
  "get_field uv SBool = tagged FBool read_bool"
| "get_field uv (SInt t) = tagged (FInt t) (read_int uv t)"
| "get_field uv SFloat = tagged FFloat read_float"
| "get_field uv SDouble = tagged FDouble read_double"
| "get_field uv SStr = tagged FStr (read_string uv)"
| "get_field uv (SInts t) = tagged (FInts t) (read_ints uv t)"
| "get_field uv SStrs = tagged FStrs (read_vector uv None (read_string uv))"

text \<open>What the types of C++ promise of a field: its value is in the range of its type and its count in the range
  of the length.\<close>

fun value_ok :: "bool \<Rightarrow> field \<Rightarrow> bool" where
  "value_ok uv (FInt t v) \<longleftrightarrow> in_range t v"
| "value_ok uv (FStr bs) \<longleftrightarrow> size_ok uv (length bs)"
| "value_ok uv (FInts t vs) \<longleftrightarrow> list_all (in_range t) vs \<and> size_ok uv (length vs)"
| "value_ok uv (FStrs ss) \<longleftrightarrow> list_all (\<lambda>bs. size_ok uv (length bs)) ss \<and> size_ok uv (length ss)"
| "value_ok uv _ \<longleftrightarrow> True"

text \<open>The empty sequences, for which the writer emits no count.\<close>

fun empty_field :: "field \<Rightarrow> bool" where
  "empty_field (FInts t vs) \<longleftrightarrow> vs = []"
| "empty_field (FStrs ss) \<longleftrightarrow> ss = []"
| "empty_field _ \<longleftrightarrow> False"

text \<open>The fields that can be carried.\<close>

fun field_ok :: "bool \<Rightarrow> field \<Rightarrow> bool" where
  "field_ok uv (FInt t v) \<longleftrightarrow> in_range t v"
| "field_ok uv (FStr bs) \<longleftrightarrow> size_ok uv (length bs)"
| "field_ok uv (FInts t vs) \<longleftrightarrow> vs \<noteq> [] \<and> list_all (in_range t) vs \<and> size_ok uv (length vs)"
| "field_ok uv (FStrs ss) \<longleftrightarrow> ss \<noteq> [] \<and> list_all (\<lambda>bs. size_ok uv (length bs)) ss \<and> size_ok uv (length ss)"
| "field_ok uv _ \<longleftrightarrow> True"

lemma field_ok_iff: "field_ok uv f \<longleftrightarrow> value_ok uv f \<and> \<not> empty_field f"
  by (cases f) auto

lemma tagged_at: "r s = (Some x, s') \<Longrightarrow> tagged c r s = (Some (c x), s')"
  by (simp add: tagged_def and_then_Some)

lemma tagged_cut: "fst (r s) = None \<and> derr (snd (r s)) = e \<Longrightarrow>
    fst (tagged c r s) = None \<and> derr (snd (tagged c r s)) = e"
  by (simp add: tagged_def and_then_None)

lemma tagged_sticky: "r s = (None, s) \<Longrightarrow> tagged c r s = (None, s)"
  by (simp add: tagged_def and_then_def)

lemma field_append: "put_field uv f buf = buf @ put_field uv f []"
  by (cases f)
    (simp_all, (rule boolean.put_append integer.put_append float.put_append double.put_append
      str.put_append ints.put_append strings.put_append)+)

lemma field_at: "field_ok uv f \<Longrightarrow> at s (put_field uv f []) \<Longrightarrow>
    get_field uv (shape_of f) s = (Some f, adv s (length (put_field uv f [])))"
  by (cases f)
    (simp_all add: tagged_at boolean.get_at integer.get_at float.get_at double.get_at str.get_at ints.get_at strings.get_at)

lemma field_cut: "field_ok uv f \<Longrightarrow> cut s (put_field uv f []) \<Longrightarrow>
    fst (get_field uv (shape_of f) s) = None \<and> derr (snd (get_field uv (shape_of f) s)) = EndOfBuffer"
  by (cases f)
    (simp_all only: field_ok.simps put_field.simps shape_of.simps get_field.simps,
     (rule tagged_cut, erule boolean.get_cut integer.get_cut float.get_cut double.get_cut str.get_cut ints.get_cut
        strings.get_cut boolean.get_cut [OF TrueI] float.get_cut [OF TrueI] double.get_cut [OF TrueI], assumption?)+)

lemma field_sticky: "derr s \<noteq> Ok \<Longrightarrow> get_field uv sh s = (None, s)"
  by (cases sh)
    (simp_all add: tagged_sticky boolean.get_sticky integer.get_sticky float.get_sticky double.get_sticky
      str.get_sticky ints.get_sticky strings.get_sticky)

fun get_fields :: "bool \<Rightarrow> shape list \<Rightarrow> field list reader" where
  "get_fields uv [] s = (Some [], s)"
| "get_fields uv (sh # shs) s =
     and_then (get_field uv sh) (\<lambda>f. and_then (get_fields uv shs) (\<lambda>fs s. (Some (f # fs), s))) s"

definition field_bytes :: "bool \<Rightarrow> field list \<Rightarrow> byte list" where
  "field_bytes uv fs = concat (map (\<lambda>f. put_field uv f []) fs)"

lemma put_fields: "fold (put_field uv) fs buf = buf @ field_bytes uv fs"
proof (induction fs arbitrary: buf)
  case (Cons f fs)
  then show ?case using field_append [of uv f buf] by (simp add: field_bytes_def)
qed (simp add: field_bytes_def)

lemma get_fields_at:
  "list_all (field_ok uv) fs \<Longrightarrow> at s (field_bytes uv fs) \<Longrightarrow>
   get_fields uv (map shape_of fs) s = (Some fs, adv s (length (field_bytes uv fs)))"
proof (induction fs arbitrary: s)
  case (Cons f fs)
  have l: "at s (put_field uv f [])" "at (adv s (length (put_field uv f []))) (field_bytes uv fs)"
    using Cons.prems(2) by (simp_all add: field_bytes_def at_append)
  show ?case
    using Cons.IH [OF _ l(2)] Cons.prems(1) field_at [OF _ l(1)] by (simp add: and_then_Some field_bytes_def)
qed (simp add: field_bytes_def)

lemma get_fields_cut:
  "list_all (field_ok uv) fs \<Longrightarrow> cut s (field_bytes uv fs) \<Longrightarrow>
   fst (get_fields uv (map shape_of fs) s) = None \<and> derr (snd (get_fields uv (map shape_of fs) s)) = EndOfBuffer"
proof (induction fs arbitrary: s)
  case (Cons f fs)
  then consider "cut s (put_field uv f [])"
    | "at s (put_field uv f [])" "cut (adv s (length (put_field uv f []))) (field_bytes uv fs)"
    using cut_append [of s "put_field uv f []" "field_bytes uv fs"] by (auto simp: field_bytes_def)
  then show ?case
  proof cases
    case 1
    then show ?thesis using field_cut [OF _ 1] Cons.prems(1) by (simp add: and_then_None)
  next
    case 2
    then show ?thesis
      using Cons.IH [OF _ 2(2)] Cons.prems(1) field_at [OF _ 2(1)] by (simp add: and_then_Some and_then_None)
  qed
qed (simp add: field_bytes_def)

text \<open>An empty sequence is written as nothing, but read with a count.\<close>

lemma read_size_end: "fst (read_size uv (Deserializer [])) = None"
proof -
  have "\<not> check_bounds (Deserializer []) 1" "\<not> check_bounds (Deserializer []) 4"
    by (simp_all add: check_bounds_def Deserializer_def wadd_def W64_def)
  then show ?thesis
    by (cases uv)
      (simp_all add: read_size_def read_varint_def read_fixed_def and_then_def fail_with_def read_varint_loop.simps [of U64])
qed

lemma empty_field_lost:
  assumes "empty_field f"
  shows "put_field uv f buf = buf" "fst (get_field uv (shape_of f) (Deserializer [])) = None"
proof -
  have d: "derr (Deserializer []) = Ok" by (simp add: Deserializer_def)
  show "put_field uv f buf = buf" using assms by (cases f) (simp_all add: write_ints_def write_span_def)
  show "fst (get_field uv (shape_of f) (Deserializer [])) = None"
    using assms read_size_end [of uv] d
    by (cases f) (simp_all add: tagged_def read_ints_def read_vector_def guarded_def and_then_None)
qed

text \<open>C30. Round trip: the payload that a serializer has collected behind the reserved header, field by
  field in either encoding, is read back as the same fields, and the reader ends exactly at the end of
  the payload without an error, provided that no field is an empty sequence. An empty sequence does not come
  back: the writer emits nothing for it, while the reader asks for a count and fails at the end of the payload
  (second part).\<close>

theorem message_roundtrip:
  assumes "list_all (value_ok uv) fs" "\<forall>f \<in> set fs. \<not> empty_field f" "length (fold (put_field uv) fs Serializer) < W64"
    "payload = drop KZ_RPC_HEADER_SIZE (fold (put_field uv) fs Serializer)"
  shows "get_fields uv (map shape_of fs) (Deserializer payload)
      = (Some fs, \<lparr>view = payload, dpos = length payload, derr = Ok\<rparr>)
    \<and> (\<forall>f buf. empty_field f \<longrightarrow> put_field uv f buf = buf \<and> fst (get_field uv (shape_of f) (Deserializer [])) = None)"
proof -
  have ok: "list_all (field_ok uv) fs" using assms(1,2) by (simp add: list_all_iff field_ok_iff)
  have p: "payload = field_bytes uv fs" by (simp add: assms(4) put_fields Serializer_def)
  then have "at (Deserializer payload) (field_bytes uv fs)"
    using assms(3) by (simp add: at_def Deserializer_def put_fields)
  from get_fields_at [OF ok this] show ?thesis using empty_field_lost by (simp add: p adv_def Deserializer_def)
qed

theorem message_roundtrip_witness:
  "get_fields True [SInt I32, SStr, SInts U16, SBool]
      (Deserializer (drop KZ_RPC_HEADER_SIZE (fold (put_field True)
         [FInt I32 (- 300), FStr [75, 122], FInts U16 [65535, 0], FBool True] Serializer)))
    = (Some [FInt I32 (- 300), FStr [75, 122], FInts U16 [65535, 0], FBool True],
       \<lparr>view = [215, 4, 2, 75, 122, 2, 255, 255, 3, 0, 1], dpos = 11, derr = Ok\<rparr>)"
proof -
  let ?fs = "[FInt I32 (- 300), FStr [75, 122], FInts U16 [65535, 0], FBool True]"
  have z: "zigzag I32 (- 300) = 599" by (simp add: zigzag_def bits_def push_bit_eq_mult drop_bit_eq_div not_int_def)
  have b: "fold (put_field True) ?fs Serializer = Serializer @ [215, 4, 2, 75, 122, 2, 255, 255, 3, 0, 1]"
    by (simp add: write_int_def write_varint_def z write_string_def write_size_def write_ints_def write_span_def
        write_bool_def zigzag_def to_unsigned_def bits_def varint_loop.simps drop_bit_eq_div)
  show ?thesis
    using message_roundtrip [of True ?fs "[215, 4, 2, 75, 122, 2, 255, 255, 3, 0, 1]"]
    unfolding b by (simp add: size_ok_def in_range_def bits_def Serializer_def W64_def KZ_RPC_HEADER_SIZE_def)
qed

text \<open>A truncated payload is never read as a message: whatever proper prefix arrives, reading the
  fields fails with \<open>EndOfBuffer\<close>, and from then on every read fails and leaves the reader as it is.\<close>

theorem message_truncated:
  assumes "list_all (field_ok uv) fs" "k < length (fold (put_field uv) fs [])"
    "2 * length (fold (put_field uv) fs []) < W64"
    "s' = snd (get_fields uv (map shape_of fs) (Deserializer (take k (fold (put_field uv) fs []))))"
  shows "fst (get_fields uv (map shape_of fs) (Deserializer (take k (fold (put_field uv) fs [])))) = None
    \<and> derr s' = EndOfBuffer \<and> get_field uv sh s' = (None, s')"
proof -
  have p: "fold (put_field uv) fs [] = field_bytes uv fs" by (simp add: put_fields)
  have "cut (Deserializer (take k (field_bytes uv fs))) (field_bytes uv fs)"
    using assms(2,3) by (auto simp: cut_def Deserializer_def p)
  then show ?thesis
    using get_fields_cut [OF assms(1)] field_sticky [of s' uv sh] by (simp add: p assms(4))
qed

theorem message_truncated_witness:
  "fst (get_fields False [SInt U16, SBool] (Deserializer [1, 2])) = None"
proof -
  have b: "fold (put_field False) [FInt U16 513, FBool True] [] = [1, 2, 1]"
    by (simp add: write_int_def write_fixed_def write_bool_def to_unsigned_def bits_def numeral_2_eq_2)
  show ?thesis
    using message_truncated [of False "[FInt U16 513, FBool True]" 2 _ SBool, OF _ _ _ refl]
    unfolding b by (simp add: in_range_def bits_def W64_def)
qed

subsection \<open>Bounds\<close>

lemma varint_length: "length (varint n) \<le> k + 1 \<longleftrightarrow> n < 128 ^ (k + 1)"
proof (induction k arbitrary: n)
  case 0
  show ?case
  proof (cases "n < 128")
    case False
    then obtain c where "varint n = c # varint (n div 128)" using varint_byte [of n] by (metis not_less)
    then show ?thesis using False by simp
  qed (simp add: varint_last)
next
  case (Suc k)
  show ?case
  proof (cases "n < 128")
    case True
    then have "n < 128 ^ (Suc k + 1)" by (rule less_le_trans) simp
    then show ?thesis using True by (simp add: varint_last)
  next
    case False
    then obtain c where "varint n = c # varint (n div 128)" using varint_byte [of n] by (metis not_less)
    then have "length (varint n) \<le> Suc k + 1 \<longleftrightarrow> n div 128 < 128 ^ (k + 1)" using Suc by simp
    also have "\<dots> \<longleftrightarrow> n < 128 ^ (Suc k + 1)" by (simp add: div_less_iff_less_mult mult.commute)
    finally show ?thesis .
  qed
qed

text \<open>The variable-length form of a signed integer takes at most \<open>k + 1\<close> bytes exactly when its
  magnitude fits in \<open>7 (k + 1) - 1\<close> bits, so small values of either sign are short and a 64-bit value
  never takes more than ten bytes.\<close>

theorem varint_size:
  assumes "in_range t v" "is_signed t"
  shows "(length (write_varint t v []) \<le> k + 1 \<longleftrightarrow> - (64 * 128 ^ k) \<le> v \<and> v < 64 * 128 ^ k)
    \<and> length (write_varint t v []) \<le> 10"
proof (intro conjI)
  have l: "length (write_varint t v []) \<le> j + 1 \<longleftrightarrow> int (zigzag t v) < 128 ^ (j + 1)" for j
    unfolding write_varint_def varint_def [symmetric] varint_length by (metis of_nat_less_iff of_nat_numeral of_nat_power)
  show "length (write_varint t v []) \<le> k + 1 \<longleftrightarrow> - (64 * 128 ^ k) \<le> v \<and> v < 64 * 128 ^ k"
    unfolding l zigzag_eq [OF assms] by auto
  have "(2::nat) ^ bits t \<le> 2 ^ 64" using bits_cases [of t] by (intro power_increasing) auto
  then have "zigzag t v < 128 ^ 10" using zigzag_bound [OF assms(1)] by simp
  then show "length (write_varint t v []) \<le> 10"
    unfolding write_varint_def varint_def [symmetric] using varint_length [of "zigzag t v" 9] by simp
qed

theorem varint_size_witness: "length (write_varint I64 (- 64) []) = 1"
proof -
  have "length (write_varint I64 (- 64) []) \<le> 0 + 1"
    by (subst varint_size [THEN conjunct1]) (simp_all add: in_range_def bits_def)
  moreover have "write_varint I64 (- 64) [] \<noteq> []" by (rule vint.put_nonempty) (simp add: in_range_def bits_def)
  ultimately show ?thesis by (cases "write_varint I64 (- 64) []") simp_all
qed

text \<open>The length of a string is bounded against the view by an addition that wraps: a length of
  \<open>2 ^ 64 - 1\<close> is accepted, and the view returned reaches outside the buffer.\<close>

theorem view_length_wraps:
  "read_view True (Deserializer (varint (2 ^ 64 - 1)))
    = (Some (10, 2 ^ 64 - 1), \<lparr>view = varint (2 ^ 64 - 1), dpos = 9, derr = Ok\<rparr>)"
proof -
  let ?s = "Deserializer (varint (2 ^ 64 - 1))"
  have len: "length (varint (2 ^ 64 - 1)) = 10"
    using varint_length [of "2 ^ 64 - 1" 9] varint_length [of "2 ^ 64 - 1" 8] by simp
  have e: "write_size True (2 ^ 64 - 1) [] = varint (2 ^ 64 - 1)"
    by (simp add: write_size_def write_varint_def varint_def zigzag_def to_unsigned_def bits_def)
  have "at ?s (varint (2 ^ 64 - 1))" using len by (simp add: at_def Deserializer_def W64_def)
  then have "read_size True ?s = (Some (2 ^ 64 - 1), adv ?s 10)"
    using length_field.get_at [of True "2 ^ 64 - 1" ?s] unfolding e len by (simp add: size_ok_def)
  then show ?thesis
    by (simp add: read_view_def guarded_def and_then_Some Deserializer_def check_bounds_def len [simplified] adv_def skip_def wadd_def W64_def)
qed

end
