(* ===== verification/NetBuffer.thy ===== *)
theory NetBuffer
  imports SizeClasses
begin

text \<open>
  The connection buffer: \<open>KzNet/Buffer.h\<close> and \<open>KzNet/Buffer.cpp\<close>. The memory block is a list of
  bytes (empty for the null pointer of a moved-from buffer). The allocator is a parameter that
  returns a block or fails; a failed allocation (\<open>handleOOM\<close>) is the result \<open>None\<close>. The kernel
  is a script of answers, one per \<open>readv\<close>, over the bytes still in the socket.
\<close>

record buffer =
  bmem :: "byte list"
  capacity :: nat
  readerIndex :: nat
  writerIndex :: nat

type_synonym allocator = "nat \<Rightarrow> byte list option"

definition kInitialSize :: nat where "kInitialSize = 1024"
definition kReadOnce :: int where "kReadOnce = 1"
definition kReadLoopHybrid :: int where "kReadLoopHybrid = 16"
definition kReadUntilEAGAIN :: int where "kReadUntilEAGAIN = - 1"

definition Buffer :: "allocator \<Rightarrow> nat \<Rightarrow> buffer option" where
  "Buffer alloc initialSize =
     (case alloc initialSize of
        None \<Rightarrow> None
      | Some m \<Rightarrow> Some \<lparr>bmem = m, capacity = initialSize, readerIndex = 0, writerIndex = 0\<rparr>)"

definition moved_from :: buffer where
  "moved_from = \<lparr>bmem = [], capacity = 0, readerIndex = 0, writerIndex = 0\<rparr>"

text \<open>The move constructor: the new buffer and what is left of the old one.\<close>

definition Buffer_move :: "buffer \<Rightarrow> buffer \<times> buffer" where
  "Buffer_move other =
     (\<lparr>bmem = bmem other, capacity = capacity other, readerIndex = readerIndex other,
        writerIndex = writerIndex other\<rparr>, moved_from)"

text \<open>Move assignment between distinct buffers; the block released is named by the size passed.\<close>

definition Buffer_move_assign :: "buffer \<Rightarrow> buffer \<Rightarrow> buffer \<times> buffer \<times> nat option" where
  "Buffer_move_assign this other =
     (let released = (if bmem this \<noteq> [] then Some (capacity this) else None)
      in (this\<lparr>bmem := bmem other, capacity := capacity other, readerIndex := readerIndex other,
            writerIndex := writerIndex other\<rparr>, moved_from, released))"

definition readableBytes :: "buffer \<Rightarrow> nat" where
  "readableBytes b = writerIndex b - readerIndex b"

definition writableBytes :: "buffer \<Rightarrow> nat" where
  "writableBytes b = capacity b - writerIndex b"

definition peek :: "buffer \<Rightarrow> nat" where
  "peek b = readerIndex b"

definition retrieveAll :: "buffer \<Rightarrow> buffer" where
  "retrieveAll b = b\<lparr>readerIndex := 0, writerIndex := 0\<rparr>"

definition retrieve :: "nat \<Rightarrow> buffer \<Rightarrow> buffer" where
  "retrieve len b =
     (if len < readableBytes b then b\<lparr>readerIndex := readerIndex b + len\<rparr> else retrieveAll b)"

definition hasWritten :: "nat \<Rightarrow> buffer \<Rightarrow> buffer" where
  "hasWritten len b = b\<lparr>writerIndex := writerIndex b + len\<rparr>"

text \<open>The readable bytes.\<close>

definition content :: "buffer \<Rightarrow> byte list" where
  "content b = take (readableBytes b) (drop (peek b) (bmem b))"

definition makeSpace :: "allocator \<Rightarrow> nat \<Rightarrow> buffer \<Rightarrow> buffer option" where
  "makeSpace alloc len b =
     (if writableBytes b + readerIndex b < len then
        (let readable = readableBytes b;
             propSize = readable + len;
             newCapacity = capacity b * 2;
             newCapacity = (if newCapacity < propSize then propSize else newCapacity)
         in case alloc newCapacity of
              None \<Rightarrow> None
            | Some newBuf \<Rightarrow>
                Some \<lparr>bmem = wr newBuf 0 (content b), capacity = RoundUp newCapacity,
                  readerIndex = 0, writerIndex = readable\<rparr>)
      else
        (let readable = readableBytes b
         in Some (b\<lparr>bmem := wr (bmem b) 0 (content b), readerIndex := 0, writerIndex := readable\<rparr>)))"

text \<open>Copying behind the writer index, as both write paths do.\<close>

definition put_bytes :: "byte list \<Rightarrow> buffer \<Rightarrow> buffer" where
  "put_bytes sv b = b\<lparr>bmem := wr (bmem b) (writerIndex b) sv, writerIndex := writerIndex b + length sv\<rparr>"

definition appendSlow :: "allocator \<Rightarrow> byte list \<Rightarrow> buffer \<Rightarrow> buffer option" where
  "appendSlow alloc sv b = (case makeSpace alloc (length sv) b of None \<Rightarrow> None | Some b \<Rightarrow> Some (put_bytes sv b))"

definition append_bytes :: "allocator \<Rightarrow> byte list \<Rightarrow> buffer \<Rightarrow> buffer option" where
  "append_bytes alloc sv b =
     (if writableBytes b \<ge> length sv then Some (put_bytes sv b) else appendSlow alloc sv b)"

definition ensureWritableBytes :: "allocator \<Rightarrow> nat \<Rightarrow> buffer \<Rightarrow> buffer option" where
  "ensureWritableBytes alloc len b = (if writableBytes b < len then makeSpace alloc len b else Some b)"

text \<open>The placeholder is its offset in the block.\<close>

definition appendPlaceholder :: "allocator \<Rightarrow> nat \<Rightarrow> buffer \<Rightarrow> (nat \<times> buffer) option" where
  "appendPlaceholder alloc len b =
     (case ensureWritableBytes alloc len b of
        None \<Rightarrow> None
      | Some b \<Rightarrow> Some (writerIndex b, b\<lparr>writerIndex := writerIndex b + len\<rparr>))"

definition pokeInt32 :: "nat \<Rightarrow> byte list \<Rightarrow> buffer \<Rightarrow> buffer" where
  "pokeInt32 ptr value b = b\<lparr>bmem := wr (bmem b) ptr value\<rparr>"

definition retrieveAllAsKzString :: "buffer \<Rightarrow> byte list \<times> buffer" where
  "retrieveAllAsKzString b = (content b, retrieveAll b)"

text \<open>An answer of \<open>readv\<close>: up to \<open>k\<close> bytes (none left is end of file), or an error code.\<close>

datatype readv_answer = Bytes nat | EAGAIN | EINTR | EOther

definition extrabuf_size :: nat where
  "extrabuf_size = 65536"

fun readFd_loop :: "allocator \<Rightarrow> int \<Rightarrow> nat \<Rightarrow> nat \<Rightarrow> readv_answer list \<Rightarrow> byte list \<Rightarrow> buffer
    \<Rightarrow> (int \<times> byte list \<times> buffer) option" where
  "readFd_loop alloc maxLoopCount loop totalN [] inp b =
     (if maxLoopCount < 0 \<or> int loop < maxLoopCount then None else Some (int totalN, inp, b))"
| "readFd_loop alloc maxLoopCount loop totalN (r # script) inp b =
     (if maxLoopCount < 0 \<or> int loop < maxLoopCount then
        (let writable = writableBytes b;
             maxLen = writable + (if writable < extrabuf_size then extrabuf_size else 0)
         in case r of
              EINTR \<Rightarrow> readFd_loop alloc maxLoopCount loop totalN script inp b
            | EAGAIN \<Rightarrow> Some (if totalN > 0 then int totalN else - 1, inp, b)
            | EOther \<Rightarrow> Some (if totalN > 0 then int totalN else - 1, inp, b)
            | Bytes k \<Rightarrow>
                let chunk = take (min k maxLen) inp; n = length chunk; rest = drop n inp
                in if n = 0 then Some (int totalN, inp, b)
                   else
                     (case (if n \<le> writable then Some (put_bytes chunk b)
                            else append_bytes alloc (drop writable chunk)
                                   (b\<lparr>bmem := wr (bmem b) (writerIndex b) (take writable chunk), writerIndex := capacity b\<rparr>)) of
                        None \<Rightarrow> None
                      | Some b \<Rightarrow>
                          if n < maxLen then Some (int (totalN + n), rest, b)
                          else readFd_loop alloc maxLoopCount (loop + 1) (totalN + n) script rest b))
      else Some (int totalN, inp, b))"

definition readFd :: "allocator \<Rightarrow> int \<Rightarrow> readv_answer list \<Rightarrow> byte list \<Rightarrow> buffer
    \<Rightarrow> (int \<times> byte list \<times> buffer) option" where
  "readFd alloc maxLoopCount script inp b = readFd_loop alloc maxLoopCount 0 0 script inp b"

subsection \<open>Rounding is idempotent\<close>

lemma RoundUp_0: "RoundUp 0 = 8"
  by (simp add: RoundUp_class MAX_BYTES_def Index_def)

lemma RoundUp_idem:
  assumes "n \<le> RoundUp n" "n < W64"
  shows "RoundUp (RoundUp n) = RoundUp n"
proof (cases "n \<le> MAX_BYTES")
  case True
  have "Index n < MAX_NFREELISTS" using True by (rule Index_less)
  moreover from this have "class_size (Index n) \<le> MAX_BYTES"
    using class_size_263 strict_mono_less_eq [OF class_size_strict_mono, of "Index n" 263]
    by (simp add: MAX_NFREELISTS_def)
  ultimately show ?thesis using True by (simp add: RoundUp_class Index_class_size)
next
  case False
  then have e: "RoundUp n = wadd n 16383 div 16384 * 16384" by (simp add: RoundUp_def RoundUpToPage_eq)
  have "wadd n 16383 div 16384 < 2 ^ 50" using wadd_less [of n 16383] by (simp add: W64_def)
  then have "wadd n 16383 div 16384 * 16384 \<le> (2 ^ 50 - 1) * 16384" by (intro mult_le_mono1) simp
  then have "wadd (RoundUp n) 16383 = RoundUp n + 16383" by (intro wadd_small) (simp add: e W64_def)
  moreover have "(RoundUp n + 16383) div 16384 * 16384 = RoundUp n" unfolding e by simp
  moreover have "\<not> RoundUp n \<le> MAX_BYTES" using False assms(1) by simp
  ultimately show ?thesis by (simp add: RoundUp_def [of "RoundUp n"] RoundUpToPage_eq)
qed

subsection \<open>The buffer invariant\<close>

text \<open>What the code relies on from the allocator: a block of the rounded size, no smaller than
  requested.\<close>

definition alloc_ok :: "allocator \<Rightarrow> bool" where
  "alloc_ok alloc \<longleftrightarrow> (\<forall>n m. alloc n = Some m \<longrightarrow> length m = RoundUp n \<and> n \<le> length m \<and> n < W64)"

lemma alloc_okD: "alloc_ok alloc \<Longrightarrow> alloc n = Some m \<Longrightarrow> length m = RoundUp n \<and> n \<le> length m \<and> n < W64"
  unfolding alloc_ok_def by blast

text \<open>The indices are ordered and inside the block, and the capacity rounds to the size of the block,
  so that the sized \<open>free(_buffer, _capacity)\<close> names the class it came from.\<close>

definition buf_ok :: "buffer \<Rightarrow> bool" where
  "buf_ok b \<longleftrightarrow> readerIndex b \<le> writerIndex b \<and> writerIndex b \<le> capacity b \<and> capacity b \<le> length (bmem b)
     \<and> length (bmem b) = RoundUp (capacity b)"

lemma buf_okD:
  assumes "buf_ok b"
  shows "readerIndex b \<le> writerIndex b" "writerIndex b \<le> capacity b" "capacity b \<le> length (bmem b)"
    "length (bmem b) = RoundUp (capacity b)"
  using assms by (simp_all add: buf_ok_def)

lemma length_content: "buf_ok b \<Longrightarrow> length (content b) = readableBytes b"
  by (auto simp: buf_ok_def content_def readableBytes_def peek_def)

lemma Buffer_ok: "alloc_ok alloc \<Longrightarrow> Buffer alloc n = Some b \<Longrightarrow> buf_ok b \<and> content b = []"
  by (auto simp: Buffer_def buf_ok_def content_def readableBytes_def dest: alloc_okD split: option.splits)

lemma retrieve_ok: "buf_ok b \<Longrightarrow> buf_ok (retrieve n b) \<and> content (retrieve n b) = drop n (content b)"
  by (auto simp: buf_ok_def retrieve_def retrieveAll_def content_def readableBytes_def peek_def drop_take add.commute)

lemma put_bytes_ok:
  assumes "buf_ok b" "length sv \<le> writableBytes b"
  shows "buf_ok (put_bytes sv b) \<and> content (put_bytes sv b) = content b @ sv"
proof -
  note b = buf_okD [OF assms(1)]
  have s: "writerIndex b + length sv \<le> capacity b" using assms(2) b by (simp add: writableBytes_def)
  have "take (writerIndex b + length sv) (wr (bmem b) (writerIndex b) sv) = take (writerIndex b) (bmem b) @ sv"
    using s b by (intro take_wr) simp
  then have "drop (readerIndex b) (take (writerIndex b + length sv) (wr (bmem b) (writerIndex b) sv))
      = drop (readerIndex b) (take (writerIndex b) (bmem b)) @ sv" using b by simp
  then show ?thesis
    using s b by (simp add: put_bytes_def buf_ok_def content_def readableBytes_def peek_def drop_take)
qed

lemma makeSpace_ok:
  assumes "alloc_ok alloc" "buf_ok b" "makeSpace alloc len b = Some b'"
  shows "buf_ok b' \<and> content b' = content b \<and> len \<le> writableBytes b'"
proof -
  note b = buf_okD [OF assms(2)]
  have lc: "length (content b) = readableBytes b" by (rule length_content [OF assms(2)])
  have rc: "readableBytes b + readerIndex b \<le> capacity b" "readableBytes b + (writableBytes b + readerIndex b) = capacity b"
    using b by (simp_all add: readableBytes_def writableBytes_def)
  show ?thesis
  proof (cases "writableBytes b + readerIndex b < len")
    case True
    define n where "n = (if capacity b * 2 < readableBytes b + len then readableBytes b + len else capacity b * 2)"
    obtain m where m: "alloc n = Some m" and b': "b' = \<lparr>bmem = wr m 0 (content b), capacity = RoundUp n,
        readerIndex = 0, writerIndex = readableBytes b\<rparr>"
      using assms(3) True by (auto simp: makeSpace_def Let_def n_def split: option.splits if_splits)
    note a = alloc_okD [OF assms(1) m]
    have n: "readableBytes b + len \<le> n" by (simp add: n_def)
    have idem: "RoundUp (RoundUp n) = RoundUp n" using a by (intro RoundUp_idem) simp_all
    have "length (wr m 0 (content b)) = RoundUp n" using a n lc by (simp add: wr_def)
    moreover have "take (readableBytes b) (wr m 0 (content b)) = content b" using lc by (simp add: wr_def)
    moreover have "readableBytes b + len \<le> RoundUp n" using a n by simp
    ultimately show ?thesis
      using idem by (simp add: b' buf_ok_def content_def readableBytes_def peek_def writableBytes_def)
  next
    case False
    then have b': "b' = b\<lparr>bmem := wr (bmem b) 0 (content b), readerIndex := 0, writerIndex := readableBytes b\<rparr>"
      using assms(3) by (simp add: makeSpace_def Let_def)
    have "length (wr (bmem b) 0 (content b)) = length (bmem b)" using lc rc b by (simp add: wr_def)
    moreover have "take (readableBytes b) (wr (bmem b) 0 (content b)) = content b" using lc by (simp add: wr_def)
    ultimately show ?thesis
      using False b rc by (simp add: b' buf_ok_def content_def readableBytes_def peek_def writableBytes_def)
  qed
qed

lemma append_ok:
  assumes "alloc_ok alloc" "buf_ok b" "append_bytes alloc sv b = Some b'"
  shows "buf_ok b' \<and> content b' = content b @ sv"
proof (cases "writableBytes b \<ge> length sv")
  case True
  then show ?thesis using assms(3) put_bytes_ok [OF assms(2) True] by (simp add: append_bytes_def)
next
  case False
  then obtain c where "makeSpace alloc (length sv) b = Some c" "b' = put_bytes sv c"
    using assms(3) by (auto simp: append_bytes_def appendSlow_def split: option.splits)
  then show ?thesis using makeSpace_ok [OF assms(1,2)] put_bytes_ok by metis
qed

lemma readFd_loop_ok:
  assumes "readFd_loop alloc mx lp tn script inp b = Some (r, inp', b')" "alloc_ok alloc" "buf_ok b"
  shows "\<exists>got. inp = got @ inp' \<and> content b' = content b @ got \<and> buf_ok b'
    \<and> (r = int (tn + length got) \<or> r = - 1 \<and> tn + length got = 0)"
  using assms
proof (induction alloc mx lp tn script inp b rule: readFd_loop.induct)
  case (1 alloc mx lp tn inp b)
  then show ?case by (auto split: if_splits)
next
  case (2 alloc mx lp tn x script inp b)
  show ?case
  proof (cases "mx < 0 \<or> int lp < mx")
    case False
    then show ?thesis using 2(3-) by auto
  next
    case go: True
    show ?thesis
    proof (cases x)
      case EINTR
      then show ?thesis using 2(2) [OF go refl refl EINTR] 2(3-) go by (simp add: Let_def)
    next
      case EAGAIN
      then show ?thesis using 2(3-) go by (auto simp: Let_def split: if_splits)
    next
      case EOther
      then show ?thesis using 2(3-) go by (auto simp: Let_def split: if_splits)
    next
      case (Bytes k)
      let ?w = "writableBytes b"
      let ?max = "?w + (if ?w < extrabuf_size then extrabuf_size else 0)"
      define chunk where "chunk = take (min k ?max) inp"
      have inp: "inp = chunk @ drop (length chunk) inp"
        unfolding chunk_def by (metis append_take_drop_id length_take min.commute min.cobounded1 take_take drop_take take_all_iff
            min_def append_eq_conv_conj)
      let ?st = "if length chunk \<le> ?w then Some (put_bytes chunk b)
        else append_bytes alloc (drop ?w chunk) (b\<lparr>bmem := wr (bmem b) (writerIndex b) (take ?w chunk), writerIndex := capacity b\<rparr>)"
      have run: "(if length chunk = 0 then Some (int tn, inp, b)
          else case ?st of None \<Rightarrow> None
            | Some c \<Rightarrow> if length chunk < ?max then Some (int (tn + length chunk), drop (length chunk) inp, c)
                else readFd_loop alloc mx (lp + 1) (tn + length chunk) script (drop (length chunk) inp) c) = Some (r, inp', b')"
        using 2(3) unfolding readFd_loop.simps Let_def if_P [OF go] Bytes readv_answer.case chunk_def .
      show ?thesis
      proof (cases "chunk = []")
        case True
        then show ?thesis using run 2(5) by (intro exI [of _ "[]"]) simp
      next
        case False
        have len: "length chunk \<noteq> 0" using False by simp
        obtain c where c: "?st = Some c" using run len by (cases "?st") simp_all
        note run = run [unfolded if_not_P [OF len] c option.case]
        have bc: "buf_ok c \<and> content c = content b @ chunk"
        proof (cases "length chunk \<le> ?w")
          case True
          then show ?thesis using c put_bytes_ok [OF 2(5) True] by simp
        next
          case long: False
          let ?p = "put_bytes (take ?w chunk) b"
          have full: "b\<lparr>bmem := wr (bmem b) (writerIndex b) (take ?w chunk), writerIndex := capacity b\<rparr> = ?p"
            using long buf_okD(2) [OF 2(5)] by (simp add: put_bytes_def writableBytes_def)
          have "buf_ok ?p \<and> content ?p = content b @ take ?w chunk" using 2(5) by (intro put_bytes_ok) simp_all
          moreover have "append_bytes alloc (drop ?w chunk) ?p = Some c" using c long full by simp
          ultimately show ?thesis using append_ok [OF 2(4)] by (metis append_assoc append_take_drop_id)
        qed
        show ?thesis
        proof (cases "length chunk < ?max")
          case True
          then have "r = int (tn + length chunk)" "inp' = drop (length chunk) inp" "b' = c"
            using run by simp_all
          then show ?thesis using bc inp by auto
        next
          case False
          then have "readFd_loop alloc mx (lp + 1) (tn + length chunk) script (drop (length chunk) inp) c = Some (r, inp', b')"
            using run by simp
          then obtain got where g: "drop (length chunk) inp = got @ inp'" "content b' = content c @ got" "buf_ok b'"
            "r = int (tn + length chunk + length got) \<or> r = - 1 \<and> tn + length chunk + length got = 0"
            using 2(1) [OF go refl refl Bytes chunk_def refl refl len c False _ 2(4)] bc by blast
          then show ?thesis using inp bc by (intro exI [of _ "chunk @ got"]) auto
        qed
      qed
    qed
  qed
qed

subsection \<open>The interface of a byte stream\<close>

text \<open>What a protocol decoder relies on: the number of bytes available, and consuming from the front.\<close>

locale byte_stream =
  fixes ok :: "'b \<Rightarrow> bool" and unread :: "'b \<Rightarrow> byte list" and avail :: "'b \<Rightarrow> nat" and pop :: "nat \<Rightarrow> 'b \<Rightarrow> 'b"
  assumes avail_length: "ok b \<Longrightarrow> avail b = length (unread b)"
    and pop_ok: "ok b \<Longrightarrow> ok (pop n b)"
    and pop_unread: "ok b \<Longrightarrow> unread (pop n b) = drop n (unread b)"
begin

lemma pop_less: "ok b \<Longrightarrow> 0 < n \<Longrightarrow> n \<le> avail b \<Longrightarrow> avail (pop n b) < avail b"
  by (simp add: avail_length pop_ok pop_unread)

lemma pop_pop: "ok b \<Longrightarrow> unread (pop m (pop n b)) = drop (n + m) (unread b)"
  by (simp add: pop_ok pop_unread add.commute)

end

interpretation conn: byte_stream buf_ok content readableBytes retrieve
  using retrieve_ok length_content by unfold_locales auto

subsection \<open>Properties\<close>

lemma makeSpace_room: "buf_ok b \<Longrightarrow> readableBytes b + len \<le> capacity b \<Longrightarrow> makeSpace alloc len b \<noteq> None"
  by (auto simp: buf_ok_def makeSpace_def readableBytes_def writableBytes_def)

lemma append_room: "buf_ok b \<Longrightarrow> readableBytes b + length sv \<le> capacity b \<Longrightarrow> append_bytes alloc sv b \<noteq> None"
  using makeSpace_room [of b "length sv" alloc]
  by (auto simp: append_bytes_def appendSlow_def split: option.splits)

text \<open>C33. Refinement: the buffer is a queue of bytes. Appending adds behind the readable bytes, whether
  the text fits, the readable bytes are moved to the front, or the block is reallocated; retrieving
  drops from the front; the invariant, with the sized release of the block in it, is kept; and an
  allocation (so the out-of-memory exit) happens only when the bytes cannot fit in the block.\<close>

theorem Buffer_queue:
  assumes "alloc_ok alloc" "buf_ok b"
  shows "buf_ok (retrieve n b) \<and> content (retrieve n b) = drop n (content b)
    \<and> (readableBytes b + length sv \<le> capacity b \<longrightarrow> append_bytes alloc sv b \<noteq> None)
    \<and> (case append_bytes alloc sv b of None \<Rightarrow> True
       | Some b' \<Rightarrow> buf_ok b' \<and> content b' = content b @ sv \<and> length (bmem b') = RoundUp (capacity b'))"
proof (intro conjI impI)
  show "append_bytes alloc sv b \<noteq> None" if "readableBytes b + length sv \<le> capacity b"
    by (rule append_room [OF assms(2) that])
  show "case append_bytes alloc sv b of None \<Rightarrow> True
       | Some b' \<Rightarrow> buf_ok b' \<and> content b' = content b @ sv \<and> length (bmem b') = RoundUp (capacity b')"
    using append_ok [OF assms] buf_okD(4) by (auto split: option.splits)
qed (use retrieve_ok [OF assms(2)] in simp_all)

definition sample_alloc :: allocator where
  "sample_alloc n = (if n \<le> 4096 then Some (replicate (RoundUp n) 0) else None)"

lemma sample_alloc_ok: "alloc_ok sample_alloc"
  unfolding alloc_ok_def sample_alloc_def
proof (intro allI impI)
  fix n m
  assume "(if n \<le> 4096 then Some (replicate (RoundUp n) 0) else None) = Some (m :: byte list)"
  then have n: "n \<le> 4096" "m = replicate (RoundUp n) 0" by (auto split: if_splits)
  have "n \<le> RoundUp n"
  proof (cases "n = 0")
    case False
    then show ?thesis using Index_bracket [of n] n(1) by (simp add: RoundUp_class MAX_BYTES_def)
  qed simp
  then show "length m = RoundUp n \<and> n \<le> length m \<and> n < W64" using n by (simp add: W64_def)
qed

lemma RoundUp_8: "RoundUp 8 = 8"
  using RoundUp_idem [of 0] by (simp add: RoundUp_0)

definition sample_buffer :: buffer where
  "sample_buffer = \<lparr>bmem = [0, 0, 0, 1, 2, 3, 0, 0], capacity = 8, readerIndex = 3, writerIndex = 6\<rparr>"

lemma sample_buffer_ok: "buf_ok sample_buffer" "content sample_buffer = [1, 2, 3]"
  by (simp_all add: sample_buffer_def buf_ok_def content_def readableBytes_def peek_def RoundUp_8)

theorem Buffer_queue_witness:
  "content (retrieve 2 sample_buffer) = [3]
   \<and> (case append_bytes sample_alloc [4, 5, 6, 7] sample_buffer of None \<Rightarrow> False | Some b' \<Rightarrow> content b' = [1, 2, 3, 4, 5, 6, 7])"
proof -
  note q = Buffer_queue [OF sample_alloc_ok sample_buffer_ok(1), of 2 "[4, 5, 6, 7]", unfolded sample_buffer_ok(2)]
  have "readableBytes sample_buffer + length [4, 5, 6, 7 :: byte] \<le> capacity sample_buffer"
    by (simp add: sample_buffer_def readableBytes_def)
  then show ?thesis using q by (auto split: option.splits)
qed

text \<open>Reading from the socket loses and reorders nothing: whatever the kernel answers, across the
  spill buffer and the growth of the block, the readable bytes are extended by exactly the bytes
  taken from the socket, and the result is their number, or \<open>-1\<close> only when none was taken.\<close>

theorem readFd_lossless:
  assumes "alloc_ok alloc" "buf_ok b" "readFd alloc maxLoopCount script inp b = Some (r, inp', b')"
  shows "buf_ok b' \<and> content b' @ inp' = content b @ inp
    \<and> (r = int (length inp) - int (length inp') \<or> r = - 1 \<and> inp' = inp)"
proof -
  obtain got where "inp = got @ inp'" "content b' = content b @ got" "buf_ok b'"
    "r = int (length got) \<or> r = - 1 \<and> length got = 0"
    using readFd_loop_ok [OF assms(3) [unfolded readFd_def] assms(1,2)] by auto
  then show ?thesis by auto
qed

theorem readFd_lossless_witness:
  "\<exists>b'. readFd sample_alloc kReadLoopHybrid [EINTR, Bytes 4] [7, 8, 9, 10, 11] sample_buffer = Some (4, [11], b')
    \<and> content b' @ [11] = [1, 2, 3, 7, 8, 9, 10, 11]"
proof -
  have "append_bytes sample_alloc [9, 10] (sample_buffer\<lparr>bmem := wr (bmem sample_buffer) 6 [7, 8], writerIndex := 8\<rparr>) \<noteq> None"
    by (simp add: append_bytes_def appendSlow_def makeSpace_def sample_buffer_def writableBytes_def readableBytes_def Let_def)
  then obtain b' where "append_bytes sample_alloc [9, 10] (sample_buffer\<lparr>bmem := wr (bmem sample_buffer) 6 [7, 8], writerIndex := 8\<rparr>) = Some b'"
    by blast
  moreover have "writableBytes sample_buffer = 2" "capacity sample_buffer = 8" "writerIndex sample_buffer = 6"
    by (simp_all add: sample_buffer_def writableBytes_def)
  ultimately have "readFd sample_alloc kReadLoopHybrid [EINTR, Bytes 4] [7, 8, 9, 10, 11] sample_buffer = Some (4, [11], b')"
    by (simp add: readFd_def kReadLoopHybrid_def extrabuf_size_def Let_def)
  then show ?thesis
    using readFd_lossless [OF sample_alloc_ok sample_buffer_ok(1), of _ _ _ 4 "[11]" b'] sample_buffer_ok(2)
    by (intro exI [of _ b']) (simp del: append_eq_append_conv)
qed

end
