(* ===== verification/RpcWire.thy ===== *)
theory RpcWire
  imports Codec NetBuffer
begin

text \<open>
  The RPC wire protocol and the server: \<open>KzRpc/RpcProtocol.h\<close> and \<open>KzRpc/RpcServer.h\<close>. A header
  is a record of words at the widths of the struct; \<open>memcpy\<close> of it is its little-endian object
  representation, which has no padding. Handlers, service objects and connections are values of
  type parameters; what a coroutine is started on is an event.
\<close>

definition KZ_RPC_MAGIC :: "byte list" where
  "KZ_RPC_MAGIC = [75, 90, 82, 80]"

definition KZ_RPC_VERSION :: byte where "KZ_RPC_VERSION = 1"
definition KZ_RPC_MAX_LENGTH :: nat where "KZ_RPC_MAX_LENGTH = 64 * 1024 * 1024"

record RpcHeader =
  request_id :: "64 word"
  magic :: "byte list"
  msg_length :: "32 word"
  method_id :: "32 word"
  version :: byte
  flags :: byte
  status :: byte
  reserved :: byte

definition zero_header :: RpcHeader where
  "zero_header = \<lparr>request_id = 0, magic = [0, 0, 0, 0], msg_length = 0, method_id = 0, version = 0,
     flags = 0, status = 0, reserved = 0\<rparr>"

datatype MessageType = Request | Response | Heartbeat

fun message_type :: "MessageType \<Rightarrow> byte" where
  "message_type Request = 0" | "message_type Response = 1" | "message_type Heartbeat = 2"

datatype CompressionType = NoCompression | Gzip | Snappy

fun compression_type :: "CompressionType \<Rightarrow> byte" where
  "compression_type NoCompression = 0" | "compression_type Gzip = 1" | "compression_type Snappy = 2"

datatype SerializationType = Custom | Proto | Json

fun serialization_type :: "SerializationType \<Rightarrow> byte" where
  "serialization_type Custom = 0" | "serialization_type Proto = 1" | "serialization_type Json = 2"

definition MASK_MSG_TYPE :: byte where "MASK_MSG_TYPE = 0x03"
definition SHIFT_MSG_TYPE :: nat where "SHIFT_MSG_TYPE = 0"
definition MASK_ONEWAY :: byte where "MASK_ONEWAY = 0x04"
definition MASK_VARINT :: byte where "MASK_VARINT = 0x08"
definition MASK_COMPRESSION_TYPE :: byte where "MASK_COMPRESSION_TYPE = 0x30"
definition MASK_SERIALIZATION_TYPE :: byte where "MASK_SERIALIZATION_TYPE = 0xC0"

lemmas flag_consts = MASK_MSG_TYPE_def SHIFT_MSG_TYPE_def MASK_ONEWAY_def MASK_VARINT_def
  MASK_COMPRESSION_TYPE_def MASK_SERIALIZATION_TYPE_def

datatype StatusCode = OK | ERR_INVALID_REQUEST | ERR_SERVICE_NOT_FOUND | ERR_METHOD_NOT_FOUND
  | ERR_DESERIALIZE | ERR_TIMEOUT | ERR_NETWORK_CLOSED | ERR_UNKNOWN | ERR_BUSINESS

fun status_code :: "StatusCode \<Rightarrow> byte" where
  "status_code OK = 0" | "status_code ERR_INVALID_REQUEST = 1" | "status_code ERR_SERVICE_NOT_FOUND = 2"
| "status_code ERR_METHOD_NOT_FOUND = 3" | "status_code ERR_DESERIALIZE = 4" | "status_code ERR_TIMEOUT = 5"
| "status_code ERR_NETWORK_CLOSED = 6" | "status_code ERR_UNKNOWN = 7" | "status_code ERR_BUSINESS = 128"

definition header_bytes :: "RpcHeader \<Rightarrow> byte list" where
  "header_bytes h = le_bytes 8 (unat (request_id h)) @ magic h @ le_bytes 4 (unat (msg_length h))
     @ le_bytes 4 (unat (method_id h)) @ [version h, flags h, status h, reserved h]"

definition EncodeHeader :: "RpcHeader \<Rightarrow> byte list \<Rightarrow> byte list" where
  "EncodeHeader header buf = wr buf 0 (header_bytes header)"

definition DecodeHeader :: "byte list \<Rightarrow> RpcHeader" where
  "DecodeHeader buf =
     \<lparr>request_id = word_of_nat (of_le (take 8 buf)),
      magic = take 4 (drop 8 buf),
      msg_length = word_of_nat (of_le (take 4 (drop 12 buf))),
      method_id = word_of_nat (of_le (take 4 (drop 16 buf))),
      version = buf ! 20, flags = buf ! 21, status = buf ! 22, reserved = buf ! 23\<rparr>"

definition IsHeaderValid :: "RpcHeader option \<Rightarrow> bool" where
  "IsHeaderValid header = (case header of
     None \<Rightarrow> False
   | Some h \<Rightarrow>
       (if magic h \<noteq> KZ_RPC_MAGIC then False
        else if version h \<noteq> KZ_RPC_VERSION then False
        else if unat (msg_length h) < KZ_RPC_HEADER_SIZE \<or> unat (msg_length h) > KZ_RPC_MAX_LENGTH then False
        else True))"

subsection \<open>Responses\<close>

text \<open>\<open>resize\<close> of the payload string.\<close>

definition resized :: "nat \<Rightarrow> byte list \<Rightarrow> byte list" where
  "resized n s = take n s @ replicate (n - length s) 0"

definition response_flags :: "byte \<Rightarrow> bool \<Rightarrow> byte" where
  "response_flags req_flags is_varint =
     (let flags = 0 OR push_bit SHIFT_MSG_TYPE (message_type Response);
          flags = flags OR (req_flags AND MASK_SERIALIZATION_TYPE);
          flags = flags OR (req_flags AND MASK_COMPRESSION_TYPE)
      in if is_varint then flags OR MASK_VARINT else flags)"

text \<open>The bytes handed to the connection.\<close>

definition sendResponseAsync :: "RpcHeader \<Rightarrow> byte \<Rightarrow> byte list \<Rightarrow> bool \<Rightarrow> byte list" where
  "sendResponseAsync req_header st payload is_varint =
     (let payload = (if length payload < KZ_RPC_HEADER_SIZE then resized KZ_RPC_HEADER_SIZE payload else payload);
          resp_header = zero_header\<lparr>magic := KZ_RPC_MAGIC, version := KZ_RPC_VERSION,
             flags := response_flags (flags req_header) is_varint, status := st,
             request_id := request_id req_header, msg_length := word_of_nat (length payload)\<rparr>
      in EncodeHeader resp_header payload)"

text \<open>The request parser and the business function come from the application; the function gets the
  service object and the serializer, and returns an error code or success. The result is the new
  service object and the response, if one is sent.\<close>

definition MethodWrapper ::
  "bool \<Rightarrow> (byte list \<Rightarrow> 'req option) \<Rightarrow> ('s \<Rightarrow> 'req \<Rightarrow> serializer \<Rightarrow> byte option \<times> serializer \<times> 's)
   \<Rightarrow> 's \<Rightarrow> byte list \<Rightarrow> RpcHeader \<Rightarrow> 's \<times> byte list option" where
  "MethodWrapper UseVarint parse func service req_buf header =
     (case parse req_buf of
        None \<Rightarrow> (service, Some (sendResponseAsync header (status_code ERR_DESERIALIZE) [] UseVarint))
      | Some req \<Rightarrow>
          (case func service req Serializer of
             (err, ser, service) \<Rightarrow>
               let (ser, out_status) =
                 (case err of
                    None \<Rightarrow> (ser, status_code OK)
                  | Some e \<Rightarrow> (write_int UseVarint U8 (int (unat e)) [], status_code ERR_BUSINESS))
               in (service,
                   if flags header AND MASK_ONEWAY = 0
                   then Some (sendResponseAsync header out_status ser UseVarint) else None)))"

subsection \<open>Routing\<close>

record 'h MethodHandlers =
  fixed_handler :: "'h option"
  varint_handler :: "'h option"

record ('h, 's) ServiceEntry =
  service_instance :: "'s option"
  handlers :: "'h MethodHandlers list"

type_synonym ('h, 's) services = "nat \<Rightarrow> ('h, 's) ServiceEntry"

definition no_handlers :: "'h MethodHandlers" where
  "no_handlers = \<lparr>fixed_handler = None, varint_handler = None\<rparr>"

definition empty_services :: "('h, 's) services" where
  "empty_services = (\<lambda>_. \<lparr>service_instance = None, handlers = []\<rparr>)"

definition registerMethod :: "bool \<Rightarrow> nat \<Rightarrow> nat \<Rightarrow> 's \<Rightarrow> 'h \<Rightarrow> ('h, 's) services \<Rightarrow> ('h, 's) services" where
  "registerMethod UseVarint service_id mtd_id service wrapper srv =
     (let entry = (srv service_id)\<lparr>service_instance := Some service\<rparr>;
          hs = handlers entry;
          hs = (if mtd_id \<ge> length hs then hs @ replicate (mtd_id + 16 - length hs) no_handlers else hs);
          hs = (if UseVarint then hs[mtd_id := (hs ! mtd_id)\<lparr>varint_handler := Some wrapper\<rparr>]
                else hs[mtd_id := (hs ! mtd_id)\<lparr>fixed_handler := Some wrapper\<rparr>])
      in srv(service_id := entry\<lparr>handlers := hs\<rparr>))"

datatype ('h, 's) server_event =
    Dispatch 'h 's "byte list" RpcHeader
  | ErrReply RpcHeader byte bool
  | ForceClose

definition route :: "('h, 's) services \<Rightarrow> RpcHeader \<Rightarrow> byte list \<Rightarrow> ('h, 's) server_event" where
  "route srv header payload =
     (let svc_id = unat (drop_bit 16 (method_id header));
          mtd_id = unat (method_id header AND 0xFFFF);
          is_varint_req = (flags header AND MASK_VARINT \<noteq> 0);
          entry = srv svc_id
      in case service_instance entry of
           None \<Rightarrow> ErrReply header (status_code ERR_SERVICE_NOT_FOUND) is_varint_req
         | Some inst \<Rightarrow>
             if mtd_id < length (handlers entry) then
               (case (if is_varint_req then varint_handler (handlers entry ! mtd_id)
                      else fixed_handler (handlers entry ! mtd_id)) of
                  Some h \<Rightarrow> Dispatch h inst payload header
                | None \<Rightarrow> ErrReply header (status_code ERR_METHOD_NOT_FOUND) is_varint_req)
             else ErrReply header (status_code ERR_METHOD_NOT_FOUND) is_varint_req)"

lemma readable_retrieve: "0 < n \<Longrightarrow> 0 < readableBytes b \<Longrightarrow> readableBytes (retrieve n b) < readableBytes b"
  by (auto simp: retrieve_def retrieveAll_def readableBytes_def)

lemma valid_length: "IsHeaderValid (Some h) \<Longrightarrow> 24 \<le> unat (msg_length h)"
  by (auto simp: IsHeaderValid_def KZ_RPC_HEADER_SIZE_def split: if_splits)

definition bytes_from :: "buffer \<Rightarrow> nat \<Rightarrow> nat \<Rightarrow> byte list" where
  "bytes_from b off n = take n (drop (peek b + off) (bmem b))"

function (sequential) onMessage :: "('h, 's) services \<Rightarrow> buffer \<Rightarrow> ('h, 's) server_event list \<times> buffer" where
  "onMessage srv buf =
     (if readableBytes buf \<ge> KZ_RPC_HEADER_SIZE then
        (let header = DecodeHeader (bytes_from buf 0 KZ_RPC_HEADER_SIZE)
         in if \<not> IsHeaderValid (Some header) then ([ForceClose], buf)
            else if readableBytes buf < unat (msg_length header) then ([], buf)
            else
              let payload_len = unat (msg_length header) - KZ_RPC_HEADER_SIZE;
                  payload_copy = bytes_from buf KZ_RPC_HEADER_SIZE payload_len;
                  (evs, buf') = onMessage srv (retrieve (unat (msg_length header)) buf)
              in (route srv header payload_copy # evs, buf'))
      else ([], buf))"
  by pat_completeness auto
termination
  by (relation "measure (\<lambda>(srv, b). readableBytes b)")
    (auto simp: KZ_RPC_HEADER_SIZE_def intro!: readable_retrieve dest!: valid_length)

declare onMessage.simps [simp del]

text \<open>The coroutines: the handler on the worker pool, and the error reply on the I/O thread.\<close>

type_synonym 's rpc_handler = "'s \<Rightarrow> byte list \<Rightarrow> RpcHeader \<Rightarrow> 's \<times> byte list option"

definition dispatch_coro_func :: "'s rpc_handler \<Rightarrow> 's \<Rightarrow> byte list \<Rightarrow> RpcHeader \<Rightarrow> 's \<times> byte list option" where
  "dispatch_coro_func h s p hdr = h s p hdr"

definition err_coro_func :: "RpcHeader \<Rightarrow> byte \<Rightarrow> bool \<Rightarrow> byte list" where
  "err_coro_func header st is_varint_req = sendResponseAsync header st [] is_varint_req"

subsection \<open>The header codec\<close>

lemma word_le_bytes:
  "word_of_nat (of_le (le_bytes 8 (unat (w :: 64 word)))) = w"
  "word_of_nat (of_le (le_bytes 4 (unat (v :: 32 word)))) = v"
proof -
  have "unat w < 256 ^ 8" "unat v < 256 ^ 4" using unsigned_less [of w, where ?'a = nat] unsigned_less [of v, where ?'a = nat] by simp_all
  then have "of_le (le_bytes 8 (unat w)) = unat w" "of_le (le_bytes 4 (unat v)) = unat v"
    by (simp_all only: of_le_le_bytes mod_less)
  then show "word_of_nat (of_le (le_bytes 8 (unat w))) = w" "word_of_nat (of_le (le_bytes 4 (unat v))) = v" by simp_all
qed

lemma length_header_bytes: "length (magic h) = 4 \<Longrightarrow> length (header_bytes h) = 24"
  by (simp add: header_bytes_def)

lemma Decode_header_bytes:
  assumes "length (magic h) = 4"
  shows "DecodeHeader (header_bytes h @ r) = h"
proof -
  let ?a = "le_bytes 8 (unat (request_id h))" and ?l = "le_bytes 4 (unat (msg_length h))"
    and ?m = "le_bytes 4 (unat (method_id h))" and ?z = "[version h, flags h, status h, reserved h] @ r"
  let ?B = "header_bytes h @ r"
  have B: "?B = ?a @ magic h @ ?l @ ?m @ ?z" by (simp add: header_bytes_def)
  have d: "drop 8 ?B = magic h @ ?l @ ?m @ ?z" "drop 12 ?B = ?l @ ?m @ ?z" "drop 16 ?B = ?m @ ?z" "drop 20 ?B = ?z"
    unfolding B using assms by simp_all
  have t: "take 8 ?B = ?a" "take 4 (drop 8 ?B) = magic h" "take 4 (drop 12 ?B) = ?l" "take 4 (drop 16 ?B) = ?m"
    unfolding d using assms by (simp_all add: B)
  have "?B = (?a @ magic h @ ?l @ ?m) @ ?z" by (simp add: B)
  moreover have "length (?a @ magic h @ ?l @ ?m) = 20" using assms by simp
  ultimately have nth: "?B ! (20 + i) = ?z ! i" for i by (metis nth_append_length_plus)
  have n: "?B ! 20 = version h" "?B ! 21 = flags h" "?B ! 22 = status h" "?B ! 23 = reserved h"
    using nth [of 0] nth [of 1] nth [of 2] nth [of 3] by simp_all
  show ?thesis unfolding DecodeHeader_def t n word_le_bytes by simp
qed

subsection \<open>Framing\<close>

text \<open>The stream of a connection cut into messages: the complete frames, the bytes of an incomplete
  one, and whether an invalid header was met.\<close>

function frames :: "byte list \<Rightarrow> (RpcHeader \<times> byte list) list \<times> byte list \<times> bool" where
  "frames bs =
     (if length bs < KZ_RPC_HEADER_SIZE then ([], bs, False)
      else let h = DecodeHeader (take KZ_RPC_HEADER_SIZE bs)
           in if \<not> IsHeaderValid (Some h) then ([], bs, True)
              else if length bs < unat (msg_length h) then ([], bs, False)
              else case frames (drop (unat (msg_length h)) bs) of
                     (fs, rest, bad) \<Rightarrow>
                       ((h, drop KZ_RPC_HEADER_SIZE (take (unat (msg_length h)) bs)) # fs, rest, bad))"
  by pat_completeness auto
termination
  by (relation "measure length") (auto simp: KZ_RPC_HEADER_SIZE_def dest!: valid_length)

declare frames.simps [simp del]

text \<open>A message loop over the connection buffer, as the server and the client have it.\<close>

locale frame_loop =
  fixes run :: "buffer \<Rightarrow> 's \<Rightarrow> 's \<times> buffer" and handle :: "RpcHeader \<Rightarrow> byte list \<Rightarrow> 's \<Rightarrow> 's" and reject :: "'s \<Rightarrow> 's"
  assumes run_eq: "run b s =
    (if readableBytes b \<ge> KZ_RPC_HEADER_SIZE then
       (let header = DecodeHeader (bytes_from b 0 KZ_RPC_HEADER_SIZE)
        in if \<not> IsHeaderValid (Some header) then (reject s, b)
           else if readableBytes b < unat (msg_length header) then (s, b)
           else run (retrieve (unat (msg_length header)) b)
                  (handle header (bytes_from b KZ_RPC_HEADER_SIZE (unat (msg_length header) - KZ_RPC_HEADER_SIZE)) s))
     else (s, b))"
begin

definition handle_all :: "(RpcHeader \<times> byte list) list \<Rightarrow> 's \<Rightarrow> 's" where
  "handle_all fs s = fold (\<lambda>(h, p). handle h p) fs s"

lemma handle_all_Cons: "handle_all ((h, p) # fs) s = handle_all fs (handle h p s)"
  by (simp add: handle_all_def)

lemma bytes_from_content:
  assumes "buf_ok b" "off + n \<le> readableBytes b"
  shows "bytes_from b off n = take n (drop off (content b))"
  using assms(2) by (simp add: bytes_from_def content_def drop_take add.commute min_absorb1)

lemma run_frames:
  assumes "buf_ok b" "frames (content b) = (fs, rest, bad)"
  shows "\<exists>b'. run b s = ((if bad then reject (handle_all fs s) else handle_all fs s), b') \<and> buf_ok b' \<and> content b' = rest"
  using assms
proof (induction "readableBytes b" arbitrary: b s fs rest bad rule: less_induct)
  case less
  note ok = less.prems(1) and len = conn.avail_length [OF less.prems(1)]
  define h where "h = DecodeHeader (take KZ_RPC_HEADER_SIZE (content b))"
  show ?case
  proof (cases "readableBytes b \<ge> KZ_RPC_HEADER_SIZE")
    case False
    then show ?thesis
      using ok less.prems(2) len by (subst run_eq) (simp add: frames.simps [of "content b"] handle_all_def)
  next
    case True
    have hd: "DecodeHeader (bytes_from b 0 KZ_RPC_HEADER_SIZE) = h" using ok True by (simp add: bytes_from_content h_def)
    show ?thesis
    proof (cases "IsHeaderValid (Some h) \<and> unat (msg_length h) \<le> readableBytes b")
      case False
      then show ?thesis
        using ok less.prems(2) len True
        by (subst run_eq) (auto simp: frames.simps [of "content b"] hd Let_def h_def [symmetric] handle_all_def)
    next
      case v: True
      let ?n = "unat (msg_length h)" and ?b = "retrieve (unat (msg_length h)) b"
      let ?p = "drop KZ_RPC_HEADER_SIZE (take ?n (content b))"
      have n24: "KZ_RPC_HEADER_SIZE \<le> ?n" using v valid_length by (simp add: KZ_RPC_HEADER_SIZE_def)
      obtain fs' where fs: "frames (drop ?n (content b)) = (fs', rest, bad)" "fs = (h, ?p) # fs'"
        using less.prems(2) v True len
        by (auto simp: frames.simps [of "content b"] Let_def h_def [symmetric] split: prod.splits)
      have pl: "bytes_from b KZ_RPC_HEADER_SIZE (?n - KZ_RPC_HEADER_SIZE) = ?p"
        using ok v n24 by (simp add: bytes_from_content drop_take)
      have lt: "readableBytes ?b < readableBytes b"
        using v n24 True by (intro readable_retrieve) (simp_all add: KZ_RPC_HEADER_SIZE_def)
      have "frames (content ?b) = (fs', rest, bad)" using fs(1) ok by (simp add: conn.pop_unread)
      from less.hyps [OF lt conn.pop_ok [OF ok] this, of "handle h ?p s"]
      show ?thesis using v True by (cases bad) (subst run_eq, simp add: hd pl Let_def fs(2) handle_all_Cons)+
    qed
  qed
qed

end

lemma frames_append:
  assumes "frames a = (fs, rest, bad)"
  shows "frames (a @ c) = (if bad then (fs, rest @ c, True)
    else case frames (rest @ c) of (fs', rest', bad') \<Rightarrow> (fs @ fs', rest', bad'))"
  using assms
proof (induction a arbitrary: fs rest bad rule: frames.induct)
  case (1 a)
  define h where "h = DecodeHeader (take KZ_RPC_HEADER_SIZE a)"
  show ?case
  proof (cases "length a < KZ_RPC_HEADER_SIZE \<or> \<not> IsHeaderValid (Some h) \<or> length a < unat (msg_length h)")
    case True
    show ?thesis
    proof (cases "length a < KZ_RPC_HEADER_SIZE \<or> IsHeaderValid (Some h)")
      case True
      then have "fs = []" "rest = a" "\<not> bad"
        using 1(2) \<open>_ \<or> _ \<or> _\<close> by (auto simp: frames.simps [of a] Let_def h_def [symmetric] split: if_splits)
      then show ?thesis by (simp split: prod.split)
    next
      case inv: False
      then have "fs = []" "rest = a" "bad"
        using 1(2) by (auto simp: frames.simps [of a] Let_def h_def [symmetric])
      moreover have "frames (a @ c) = ([], a @ c, True)"
        using inv by (subst frames.simps) (simp add: h_def Let_def)
      ultimately show ?thesis by simp
    qed
  next
    case False
    then obtain fs' where f: "frames (drop (unat (msg_length h)) a) = (fs', rest, bad)"
      "fs = (h, drop KZ_RPC_HEADER_SIZE (take (unat (msg_length h)) a)) # fs'"
      using 1(2) by (auto simp: frames.simps [of a] Let_def h_def split: prod.splits)
    have "frames (drop (unat (msg_length h)) a @ c) = (if bad then (fs', rest @ c, True)
        else case frames (rest @ c) of (fs'', rest', bad') \<Rightarrow> (fs' @ fs'', rest', bad'))"
      using False by (intro 1(1) [OF _ h_def]) (simp_all add: f(1))
    then show ?thesis
      using False by (subst frames.simps) (simp add: Let_def h_def [symmetric] f(2) split: prod.split)
  qed
qed

text \<open>A well-formed message.\<close>

definition message :: "RpcHeader \<Rightarrow> byte list \<Rightarrow> byte list" where
  "message h payload = header_bytes h @ payload"

definition message_ok :: "RpcHeader \<Rightarrow> byte list \<Rightarrow> bool" where
  "message_ok h payload \<longleftrightarrow> IsHeaderValid (Some h) \<and> unat (msg_length h) = KZ_RPC_HEADER_SIZE + length payload"

lemma frames_message:
  assumes "message_ok h p" "frames r = (fs, rest, bad)"
  shows "frames (message h p @ r) = ((h, p) # fs, rest, bad)"
proof -
  have m: "length (magic h) = 4" using assms(1) by (auto simp: message_ok_def IsHeaderValid_def KZ_RPC_MAGIC_def split: if_splits)
  note l = length_header_bytes [OF m]
  have "take KZ_RPC_HEADER_SIZE (message h p @ r) = header_bytes h" using l by (simp add: message_def KZ_RPC_HEADER_SIZE_def)
  then have "DecodeHeader (take KZ_RPC_HEADER_SIZE (message h p @ r)) = h" using Decode_header_bytes [OF m, of "[]"] by simp
  then show ?thesis
    using assms l by (subst frames.simps) (simp add: message_ok_def message_def Let_def KZ_RPC_HEADER_SIZE_def)
qed

text \<open>The server loop with its events accumulated is such a loop.\<close>

definition server_run :: "('h, 's) services \<Rightarrow> buffer \<Rightarrow> ('h, 's) server_event list \<Rightarrow> ('h, 's) server_event list \<times> buffer" where
  "server_run srv b evs = (case onMessage srv b of (es, b') \<Rightarrow> (evs @ es, b'))"

interpretation server: frame_loop "server_run srv" "\<lambda>h p evs. evs @ [route srv h p]" "\<lambda>evs. evs @ [ForceClose]"
  unfolding server_run_def
  by unfold_locales (subst onMessage.simps, simp add: Let_def split: prod.split)

lemma server_handle_all: "server.handle_all srv fs evs = evs @ map (\<lambda>(h, p). route srv h p) fs"
  by (induction fs arbitrary: evs) (auto simp: server.handle_all_def)

lemma onMessage_frames:
  assumes "buf_ok b" "frames (content b) = (fs, rest, bad)"
  shows "\<exists>b'. onMessage srv b = (map (\<lambda>(h, p). route srv h p) fs @ (if bad then [ForceClose] else []), b')
    \<and> buf_ok b' \<and> content b' = rest"
  using server.run_frames [OF assms, of srv "[]"]
  by (cases "onMessage srv b") (auto simp: server_run_def server_handle_all split: if_splits)

text \<open>A connection: segments arrive one after the other, each followed by the message callback, until
  the connection is closed by force. \<open>None\<close> is the out-of-memory exit.\<close>

fun serve :: "('h, 's) services \<Rightarrow> allocator \<Rightarrow> byte list list \<Rightarrow> buffer \<Rightarrow> ('h, 's) server_event list option" where
  "serve srv alloc [] b = Some []"
| "serve srv alloc (seg # segs) b =
     (case append_bytes alloc seg b of
        None \<Rightarrow> None
      | Some b \<Rightarrow>
          (case onMessage srv b of (evs, b) \<Rightarrow>
             if evs \<noteq> [] \<and> last evs = ForceClose then Some evs
             else (case serve srv alloc segs b of None \<Rightarrow> None | Some evs' \<Rightarrow> Some (evs @ evs'))))"

lemma route_not_close: "route srv h p \<noteq> ForceClose"
  by (simp add: route_def Let_def split: option.split)

lemma last_routes:
  "(map (\<lambda>(h, p). route srv h p) fs @ (if bad then [ForceClose] else []) \<noteq> []
    \<and> last (map (\<lambda>(h, p). route srv h p) fs @ (if bad then [ForceClose] else [])) = ForceClose) \<longleftrightarrow> bad"
  by (cases fs rule: rev_cases) (auto simp: route_not_close)

lemma serve_frames:
  "alloc_ok alloc \<Longrightarrow> buf_ok b \<Longrightarrow> frames (content b) = ([], content b, False) \<Longrightarrow>
   serve srv alloc segs b = Some evs \<Longrightarrow> frames (content b @ concat segs) = (fs, rest, bad) \<Longrightarrow>
   evs = map (\<lambda>(h, p). route srv h p) fs @ (if bad then [ForceClose] else [])"
proof (induction segs arbitrary: b evs fs rest bad)
  case Nil
  then show ?case by simp
next
  case (Cons seg segs)
  obtain c where c: "append_bytes alloc seg b = Some c" using Cons.prems(4) by (auto split: option.splits)
  have cok: "buf_ok c" "content c = content b @ seg" using append_ok [OF Cons.prems(1,2) c] by simp_all
  obtain gs r bd where g: "frames (content c) = (gs, r, bd)" by (cases "frames (content c)")
  obtain d where d: "onMessage srv c = (map (\<lambda>(h, p). route srv h p) gs @ (if bd then [ForceClose] else []), d)"
    "buf_ok d" "content d = r" using onMessage_frames [OF cok(1) g] by blast
  have all: "frames (content b @ seg @ concat segs) = (if bd then (gs, r @ concat segs, True)
      else case frames (r @ concat segs) of (fs', rest', bad') \<Rightarrow> (gs @ fs', rest', bad'))"
    using frames_append [OF g, of "concat segs"] by (simp add: cok(2))
  show ?case
  proof (cases bd)
    case True
    then show ?thesis using Cons.prems(4,5) all last_routes [of srv gs bd] by (simp add: c d(1))
  next
    case False
    have nc: "\<not> (map (\<lambda>(h, p). route srv h p) gs \<noteq> [] \<and> last (map (\<lambda>(h, p). route srv h p) gs) = ForceClose)"
      using last_routes [of srv gs bd] False by simp
    then obtain es where es: "serve srv alloc segs d = Some es" "evs = map (\<lambda>(h, p). route srv h p) gs @ es"
      using Cons.prems(4) False by (auto simp: c d(1) split: option.splits if_splits)
    obtain gs' where f: "frames (r @ concat segs) = (gs', rest, bad)" "fs = gs @ gs'"
      using all Cons.prems(5) False by (auto split: prod.splits)
    have "frames (content d) = ([], content d, False)"
      using frames_append [OF g, of "[]"] g d(3) False by (auto split: prod.splits)
    from Cons.IH [OF Cons.prems(1) d(2) this es(1), of gs' rest bad] show ?thesis
      using f es(2) d(3) by simp
  qed
qed

text \<open>C31. Framing is independent of segmentation: however TCP cuts the byte stream, the server
  dispatches exactly the messages of the stream in order, keeps an incomplete one for later, and
  closes the connection exactly when the stream contains an invalid header, having dispatched the
  messages before it and nothing behind it.\<close>

theorem serve_stream:
  assumes "alloc_ok alloc" "Buffer alloc kInitialSize = Some b" "serve srv alloc segs b = Some evs"
    "frames (concat segs) = (fs, rest, bad)"
  shows "evs = map (\<lambda>(h, p). route srv h p) fs @ (if bad then [ForceClose] else [])"
proof -
  have "buf_ok b" "content b = []" using Buffer_ok [OF assms(1,2)] by simp_all
  moreover have "frames [] = ([], [], False)" by (simp add: frames.simps KZ_RPC_HEADER_SIZE_def)
  ultimately show ?thesis using serve_frames [OF assms(1) _ _ assms(3), of fs rest bad] assms(4) by simp
qed

definition sample_header :: RpcHeader where
  "sample_header = zero_header\<lparr>request_id := 7, magic := KZ_RPC_MAGIC, version := 1, msg_length := 26, method_id := 0x00010002\<rparr>"

lemma sample_message_ok: "message_ok sample_header [5, 6]"
  by (simp add: message_ok_def IsHeaderValid_def sample_header_def zero_header_def KZ_RPC_VERSION_def
      KZ_RPC_HEADER_SIZE_def KZ_RPC_MAX_LENGTH_def)

theorem serve_stream_witness:
  "serve (empty_services :: (char, char) services) sample_alloc [message sample_header [5, 6]] (the (Buffer sample_alloc kInitialSize))
    = Some [ErrReply sample_header 2 False]"
proof -
  let ?srv = "empty_services :: (char, char) services"
  obtain b where b: "Buffer sample_alloc kInitialSize = Some b" "capacity b = 1024"
    by (simp add: Buffer_def sample_alloc_def kInitialSize_def)
  then have ok: "buf_ok b" "content b = []" using Buffer_ok [OF sample_alloc_ok b(1)] by simp_all
  have "length (message sample_header [5, 6]) = 26"
    using length_header_bytes [of sample_header] by (simp add: message_def sample_header_def KZ_RPC_MAGIC_def)
  then obtain c where "append_bytes sample_alloc (message sample_header [5, 6]) b = Some c"
    using append_room [OF ok(1), of "message sample_header [5, 6]" sample_alloc] ok b(2) conn.avail_length [OF ok(1)] by auto
  then have "\<exists>evs. serve ?srv sample_alloc [message sample_header [5, 6]] b = Some evs"
    by (simp split: prod.split)
  then obtain evs where e: "serve ?srv sample_alloc [message sample_header [5, 6]] b = Some evs" ..
  have "frames (message sample_header [5, 6] @ []) = ([(sample_header, [5, 6])], [], False)"
    by (intro frames_message sample_message_ok) (simp add: frames.simps KZ_RPC_HEADER_SIZE_def)
  then have "frames (concat [message sample_header [5, 6]]) = ([(sample_header, [5, 6])], [], False)" by simp
  from serve_stream [OF sample_alloc_ok b(1) e this]
  have "evs = [route ?srv sample_header [5, 6]]" by simp
  also have "route ?srv sample_header [5, 6] = ErrReply sample_header 2 False"
    by (simp add: route_def empty_services_def sample_header_def zero_header_def flag_consts Let_def)
  finally show ?thesis using e b(1) by (simp del: serve.simps)
qed

lemma unat_32: "n < 2 ^ 32 \<Longrightarrow> unat (word_of_nat n :: 32 word) = n"
  by (simp add: unat_of_nat)

text \<open>A response is a well-formed message: the client's framing recovers the body that the handler
  serialised, under the request's id, with the given status, marked as a response, with the varint
  bit of the handler and the serialisation and compression bits of the request.\<close>

theorem response_wellformed:
  assumes "KZ_RPC_HEADER_SIZE + length body \<le> KZ_RPC_MAX_LENGTH" "frames r = (fs, rest, bad)"
  shows "\<exists>h. frames (sendResponseAsync req st (Serializer @ body) uv @ r) = ((h, body) # fs, rest, bad)
    \<and> request_id h = request_id req \<and> status h = st
    \<and> flags h AND MASK_MSG_TYPE = message_type Response \<and> (flags h AND MASK_VARINT \<noteq> 0 \<longleftrightarrow> uv)
    \<and> flags h AND MASK_SERIALIZATION_TYPE = flags req AND MASK_SERIALIZATION_TYPE
    \<and> flags h AND MASK_COMPRESSION_TYPE = flags req AND MASK_COMPRESSION_TYPE"
proof -
  define h where "h = zero_header\<lparr>magic := KZ_RPC_MAGIC, version := KZ_RPC_VERSION,
     flags := response_flags (flags req) uv, status := st, request_id := request_id req,
     msg_length := word_of_nat (KZ_RPC_HEADER_SIZE + length body)\<rparr>"
  have ln: "unat (word_of_nat (KZ_RPC_HEADER_SIZE + length body) :: 32 word) = KZ_RPC_HEADER_SIZE + length body"
    using assms(1) by (intro unat_32) (simp add: KZ_RPC_MAX_LENGTH_def)
  have "length (header_bytes h) = 24" by (intro length_header_bytes) (simp add: h_def KZ_RPC_MAGIC_def)
  then have "sendResponseAsync req st (Serializer @ body) uv = message h body"
    by (simp add: sendResponseAsync_def Let_def Serializer_def EncodeHeader_def wr_def message_def h_def KZ_RPC_HEADER_SIZE_def)
  moreover have "message_ok h body"
    using assms(1) ln by (simp add: message_ok_def IsHeaderValid_def h_def)
  moreover have "flags h = response_flags (flags req) uv" "request_id h = request_id req" "status h = st"
    by (simp_all add: h_def)
  ultimately show ?thesis
    using frames_message [OF _ assms(2)]
    by (intro exI [of _ h])
      (auto simp: response_flags_def flag_consts Let_def bit.conj_disj_distrib2 and.assoc split: if_splits)
qed

theorem response_wellformed_witness:
  "\<exists>h. frames (sendResponseAsync sample_header 0 (Serializer @ [1, 2]) True @ []) = ([(h, [1, 2])], [], False)
    \<and> request_id h = 7"
proof -
  have "frames [] = ([], [], False)" by (simp add: frames.simps KZ_RPC_HEADER_SIZE_def)
  moreover have "KZ_RPC_HEADER_SIZE + length [1, 2 :: byte] \<le> KZ_RPC_MAX_LENGTH"
    by (simp add: KZ_RPC_HEADER_SIZE_def KZ_RPC_MAX_LENGTH_def)
  ultimately show ?thesis
    using response_wellformed [of "[1, 2]" "[]" "[]" "[]" False sample_header 0 True] by (auto simp: sample_header_def)
qed

text \<open>A business error is reported by its status alone: the error code that the wrapper serialises lies
  in the bytes that the header then overwrites, so every code gives the same response with an empty
  body.\<close>

theorem business_error_code_lost:
  assumes "parse buf = Some req" "func service req Serializer = (Some e, ser, service')"
    "flags header AND MASK_ONEWAY = 0"
  shows "MethodWrapper False parse func service buf header
    = (service', Some (sendResponseAsync header (status_code ERR_BUSINESS) Serializer False))"
proof -
  define h where "h = zero_header\<lparr>magic := KZ_RPC_MAGIC, version := KZ_RPC_VERSION,
     flags := response_flags (flags header) False, status := 128, request_id := request_id header,
     msg_length := 24\<rparr>"
  have l: "length (header_bytes h) = 24" by (intro length_header_bytes) (simp add: h_def KZ_RPC_MAGIC_def)
  have w: "wr p 0 (header_bytes h) = header_bytes h" if "length p = 24" for p
    using that l by (simp add: wr_def)
  have "length (write_int False U8 (int (unat e)) []) = 1" by (simp add: write_int_def write_fixed_def)
  then show ?thesis
    using assms w
    by (simp add: MethodWrapper_def sendResponseAsync_def EncodeHeader_def resized_def KZ_RPC_HEADER_SIZE_def Serializer_def
        h_def [symmetric] Let_def)
qed

subsection \<open>Registration\<close>

definition request_to :: "nat \<Rightarrow> nat \<Rightarrow> bool \<Rightarrow> RpcHeader \<Rightarrow> bool" where
  "request_to sid mid uv h \<longleftrightarrow> unat (drop_bit 16 (method_id h)) = sid \<and> unat (method_id h AND 0xFFFF) = mid
     \<and> (flags h AND MASK_VARINT \<noteq> 0 \<longleftrightarrow> uv)"

definition lookup_handler :: "'h MethodHandlers list \<Rightarrow> nat \<Rightarrow> bool \<Rightarrow> 'h option" where
  "lookup_handler hs mid uv =
     (if mid < length hs then (if uv then varint_handler (hs ! mid) else fixed_handler (hs ! mid)) else None)"

lemma route_lookup:
  "request_to sid mid uv h \<Longrightarrow> route srv h p =
    (case service_instance (srv sid) of
       None \<Rightarrow> ErrReply h (status_code ERR_SERVICE_NOT_FOUND) uv
     | Some inst \<Rightarrow>
         (case lookup_handler (handlers (srv sid)) mid uv of
            Some f \<Rightarrow> Dispatch f inst p h
          | None \<Rightarrow> ErrReply h (status_code ERR_METHOD_NOT_FOUND) uv))"
  by (auto simp: route_def request_to_def lookup_handler_def Let_def split: option.split)

lemma register_entry:
  "service_instance (registerMethod uv' sid' mid' inst w srv sid) = (if sid = sid' then Some inst else service_instance (srv sid))"
  "lookup_handler (handlers (registerMethod uv' sid' mid' inst w srv sid)) mid uv
    = (if sid = sid' \<and> mid = mid' \<and> uv = uv' then Some w else lookup_handler (handlers (srv sid)) mid uv)"
  by (auto simp: registerMethod_def Let_def lookup_handler_def nth_list_update nth_append no_handlers_def)

text \<open>Routing: after a registration, requests for that service, method and encoding are dispatched to
  the registered wrapper with the service object; requests for other services are routed as before,
  and a method of the same service keeps its wrapper but gets the object registered last.\<close>

theorem register_route:
  assumes "request_to sid mid uv h" "srv' = registerMethod uv' sid' mid' inst w srv"
  shows "route srv' h p =
    (if sid \<noteq> sid' then route srv h p
     else if mid = mid' \<and> uv = uv' then Dispatch w inst p h
     else case lookup_handler (handlers (srv sid)) mid uv of
            Some f \<Rightarrow> Dispatch f inst p h
          | None \<Rightarrow> ErrReply h (status_code ERR_METHOD_NOT_FOUND) uv)"
  unfolding assms(2) route_lookup [OF assms(1)] register_entry by simp

theorem register_route_witness:
  "route (registerMethod False 1 2 CHR ''s'' CHR ''w'' empty_services) sample_header [5] = Dispatch CHR ''w'' CHR ''s'' [5] sample_header"
proof -
  have "request_to 1 2 False sample_header"
    by (simp add: request_to_def sample_header_def zero_header_def flag_consts)
  from register_route [OF this refl, of False 1 2 "CHR ''s''" "CHR ''w''" empty_services "[5]"] show ?thesis by simp
qed

end
