(* ===== verification/RpcClient.thy ===== *)
theory RpcClient
  imports RpcWire
begin

text \<open>
  The RPC client: \<open>KzRpc/RpcChannel.h\<close>. Pending calls live in a slot map: a vector of slots whose
  free ones are chained through \<open>next_free\<close>, with a version per slot that a request rid carries.
  Coroutine handles, result objects, function pointers, timers and connections are numbers; what
  the channel does to them is an event.
\<close>

definition kSlotExpandSize :: nat where "kSlotExpandSize = 1024"

record PendingCall =
  handle :: "nat option"
  output_ptr :: nat
  decoder :: nat
  setErrorFunc :: "nat option"
  timer_id :: nat
  conn_of :: "nat option"

definition null_call :: PendingCall where
  "null_call = \<lparr>handle = None, output_ptr = 0, decoder = 0, setErrorFunc = None, timer_id = 0, conn_of = None\<rparr>"

record Slot =
  call :: PendingCall
  sversion :: "32 word"
  next_free :: int

definition new_slot :: Slot where
  "new_slot = \<lparr>call = null_call, sversion = 1, next_free = - 1\<rparr>"

record channel =
  slots :: "Slot list"
  free_head :: int

definition empty_channel :: channel where
  "empty_channel = \<lparr>slots = [], free_head = - 1\<rparr>"

datatype client_event =
    CancelTimer nat
  | SetError nat byte
  | Deserialize nat "byte list" nat
  | Resume nat
  | CloseConn

subsection \<open>The slot map\<close>

definition request_id_of :: "32 word \<Rightarrow> nat \<Rightarrow> 64 word" where
  "request_id_of v index = push_bit 32 (ucast v) OR word_of_nat index"

definition id_index :: "64 word \<Rightarrow> nat" where
  "id_index req_id = unat (req_id AND 0xFFFFFFFF)"

definition id_version :: "64 word \<Rightarrow> 32 word" where
  "id_version req_id = ucast (drop_bit 32 req_id)"

definition expand_slots :: "channel \<Rightarrow> channel" where
  "expand_slots ch =
     (let old_size = length (slots ch);
          sl = slots ch @ replicate kSlotExpandSize new_slot;
          sl = fold (\<lambda>i sl. sl[i := (sl ! i)\<lparr>next_free := int (i + 1)\<rparr>]) [old_size..<length sl - 1] sl
      in ch\<lparr>slots := sl, free_head := int old_size\<rparr>)"

definition allocateSlot :: "PendingCall \<Rightarrow> channel \<Rightarrow> 64 word \<times> channel" where
  "allocateSlot c ch =
     (let ch = (if free_head ch = - 1 then expand_slots ch else ch);
          index = nat (free_head ch);
          slot = slots ch ! index
      in (request_id_of (sversion slot) index,
          ch\<lparr>free_head := next_free slot, slots := (slots ch)[index := slot\<lparr>call := c, next_free := - 1\<rparr>]\<rparr>))"

definition release_slot :: "nat \<Rightarrow> channel \<Rightarrow> channel" where
  "release_slot i ch =
     (let slot = slots ch ! i
      in ch\<lparr>slots := (slots ch)[i := slot\<lparr>sversion := sversion slot + 1, next_free := free_head ch\<rparr>],
           free_head := int i\<rparr>)"

definition findAndRemoveSlot :: "64 word \<Rightarrow> channel \<Rightarrow> PendingCall option \<times> channel" where
  "findAndRemoveSlot req_id ch =
     (let index = id_index req_id; ver = id_version req_id
      in if index \<ge> length (slots ch) then (None, ch)
         else let slot = slots ch ! index
              in if next_free slot \<noteq> - 1 \<or> sversion slot \<noteq> ver then (None, ch)
                 else (Some (call slot), release_slot index ch))"

subsection \<open>Failing calls\<close>

definition fail_call :: "byte \<Rightarrow> PendingCall \<Rightarrow> client_event list" where
  "fail_call code c =
     CancelTimer (timer_id c) # (case setErrorFunc c of Some f \<Rightarrow> [SetError (output_ptr c) code] | None \<Rightarrow> [])
     @ (case handle c of Some h \<Rightarrow> [Resume h] | None \<Rightarrow> [])"

fun collect_slots :: "(Slot \<Rightarrow> bool) \<Rightarrow> nat list \<Rightarrow> channel \<Rightarrow> PendingCall list \<Rightarrow> PendingCall list \<times> channel" where
  "collect_slots P [] ch to_fail = (to_fail, ch)"
| "collect_slots P (i # is) ch to_fail =
     (if P (slots ch ! i)
      then collect_slots P is (release_slot i ch) (to_fail @ [call (slots ch ! i)])
      else collect_slots P is ch to_fail)"

definition forceFailAllPending :: "StatusCode \<Rightarrow> channel \<Rightarrow> client_event list \<times> channel" where
  "forceFailAllPending code ch =
     (case collect_slots (\<lambda>s. next_free s = - 1) [0..<length (slots ch)] ch [] of
        (to_fail, ch) \<Rightarrow> (concat (map (fail_call (status_code code)) to_fail), ch))"

definition failPendingOnConnection :: "nat \<Rightarrow> StatusCode \<Rightarrow> channel \<Rightarrow> client_event list \<times> channel" where
  "failPendingOnConnection broken_conn code ch =
     (case collect_slots (\<lambda>s. next_free s = - 1 \<and> conn_of (call s) = Some broken_conn) [0..<length (slots ch)] ch [] of
        (to_fail, ch) \<Rightarrow> (concat (map (fail_call (status_code code)) to_fail), ch))"

definition onConnection :: "nat \<Rightarrow> bool \<Rightarrow> channel \<Rightarrow> client_event list \<times> channel" where
  "onConnection c connected ch =
     (if \<not> connected then failPendingOnConnection c ERR_NETWORK_CLOSED ch else ([], ch))"

definition handleTimeout :: "64 word \<Rightarrow> channel \<Rightarrow> client_event list \<times> channel" where
  "handleTimeout req_id ch =
     (case findAndRemoveSlot req_id ch of
        (None, ch) \<Rightarrow> ([], ch)
      | (Some c, ch) \<Rightarrow>
          (SetError (output_ptr c) (status_code ERR_TIMEOUT) # (case handle c of Some h \<Rightarrow> [Resume h] | None \<Rightarrow> []), ch))"

subsection \<open>Sending\<close>

text \<open>The connections of the pool with their connected flag; the round-robin counter is thread local.\<close>

fun pick_loop :: "nat \<Rightarrow> nat list \<Rightarrow> (nat \<times> bool) option list \<Rightarrow> nat option" where
  "pick_loop idx [] clients = None"
| "pick_loop idx (i # is) clients =
     (let poolsize = length clients;
          real_idx = (if poolsize AND (poolsize - 1) = 0 then wadd idx i AND (poolsize - 1) else wadd idx i mod poolsize)
      in case clients ! real_idx of
           Some (c, connected) \<Rightarrow> if connected then Some c else pick_loop idx is clients
         | None \<Rightarrow> pick_loop idx is clients)"

definition pickConnection :: "nat \<Rightarrow> (nat \<times> bool) option list \<Rightarrow> nat option \<times> nat" where
  "pickConnection tls_idx clients = (pick_loop tls_idx [0..<length clients] clients, wadd tls_idx 1)"

definition request_bytes :: "bool \<Rightarrow> nat \<Rightarrow> nat \<Rightarrow> 64 word \<Rightarrow> byte list \<Rightarrow> byte list" where
  "request_bytes UseVarint service_id mtd_id req_id str =
     (let header = zero_header\<lparr>magic := KZ_RPC_MAGIC, version := KZ_RPC_VERSION,
            flags := push_bit SHIFT_MSG_TYPE (message_type Request)\<rparr>;
          header = (if UseVarint then header\<lparr>flags := flags header OR MASK_VARINT\<rparr> else header);
          header = header\<lparr>request_id := req_id,
            method_id := push_bit 16 (word_of_nat service_id) OR word_of_nat mtd_id,
            msg_length := word_of_nat (length str)\<rparr>
      in EncodeHeader header str)"

text \<open>Suspending a call: the result is the error that resumes it at once, or the connection and the
  bytes that are sent. The serialised request is given by the request's stream operator.\<close>

datatype suspend = Immediate byte | Suspended nat "byte list"

definition await_suspend ::
  "bool \<Rightarrow> nat \<Rightarrow> nat \<Rightarrow> (serializer \<Rightarrow> serializer) \<Rightarrow> PendingCall \<Rightarrow> nat \<Rightarrow> (nat \<times> bool) option list \<Rightarrow> channel
   \<Rightarrow> suspend \<times> nat \<times> channel" where
  "await_suspend UseVarint service_id mtd_id put_req c tls_idx clients ch =
     (case pickConnection tls_idx clients of
        (None, tls_idx) \<Rightarrow> (Immediate (status_code ERR_NETWORK_CLOSED), tls_idx, ch)
      | (Some conn, tls_idx) \<Rightarrow>
          (case allocateSlot (c\<lparr>conn_of := Some conn\<rparr>) ch of
             (req_id, ch) \<Rightarrow>
               (Suspended conn (request_bytes UseVarint service_id mtd_id req_id (put_req Serializer)), tls_idx, ch)))"

subsection \<open>Receiving\<close>

definition complete :: "RpcHeader \<Rightarrow> byte list \<Rightarrow> PendingCall \<Rightarrow> client_event list" where
  "complete header payload c =
     (if status header = status_code OK then Deserialize (decoder c) payload (output_ptr c)
      else SetError (output_ptr c) (status header)) # (case handle c of Some h \<Rightarrow> [Resume h] | None \<Rightarrow> [])"

definition deliver :: "RpcHeader \<Rightarrow> byte list \<Rightarrow> client_event list \<times> channel \<Rightarrow> client_event list \<times> channel" where
  "deliver header payload st =
     (case st of (evs, ch) \<Rightarrow>
       (case findAndRemoveSlot (request_id header) ch of
          (None, ch) \<Rightarrow> (evs, ch)
        | (Some c, ch) \<Rightarrow> (evs @ complete header payload c, ch)))"

function (sequential) client_onMessage :: "buffer \<Rightarrow> client_event list \<times> channel \<Rightarrow> (client_event list \<times> channel) \<times> buffer" where
  "client_onMessage buf st =
     (if readableBytes buf \<ge> KZ_RPC_HEADER_SIZE then
        (let header = DecodeHeader (bytes_from buf 0 KZ_RPC_HEADER_SIZE)
         in if \<not> IsHeaderValid (Some header) then ((fst st @ [CloseConn], snd st), buf)
            else if readableBytes buf < unat (msg_length header) then (st, buf)
            else
              let payload_len = unat (msg_length header) - KZ_RPC_HEADER_SIZE;
                  resp_payload = bytes_from buf KZ_RPC_HEADER_SIZE payload_len
              in client_onMessage (retrieve (unat (msg_length header)) buf) (deliver header resp_payload st))
      else (st, buf))"
  by pat_completeness auto
termination
  by (relation "measure (\<lambda>(b, st). readableBytes b)")
    (auto simp: KZ_RPC_HEADER_SIZE_def intro!: readable_retrieve dest!: valid_length)

declare client_onMessage.simps [simp del]

interpretation client: frame_loop client_onMessage deliver "\<lambda>st. (fst st @ [CloseConn], snd st)"
  by unfold_locales (subst client_onMessage.simps, simp add: Let_def)

subsection \<open>The invariant of the slot map\<close>

text \<open>The free slots are the chain from \<open>free_head\<close>; every other slot is marked occupied.\<close>

fun chain :: "int \<Rightarrow> nat list \<Rightarrow> Slot list \<Rightarrow> bool" where
  "chain h [] sl \<longleftrightarrow> h = - 1"
| "chain h (i # is) sl \<longleftrightarrow> h = int i \<and> i < length sl \<and> chain (next_free (sl ! i)) is sl"

definition slot_inv :: "channel \<Rightarrow> nat list \<Rightarrow> bool" where
  "slot_inv ch fl \<longleftrightarrow> distinct fl \<and> chain (free_head ch) fl (slots ch) \<and> length (slots ch) < 2 ^ 31
     \<and> (\<forall>i<length (slots ch). i \<notin> set fl \<longrightarrow> next_free (slots ch ! i) = - 1)"

definition pending :: "channel \<Rightarrow> nat list \<Rightarrow> 64 word \<Rightarrow> PendingCall option" where
  "pending ch fl req_id =
     (let i = id_index req_id
      in if i < length (slots ch) \<and> i \<notin> set fl \<and> sversion (slots ch ! i) = id_version req_id
         then Some (call (slots ch ! i)) else None)"

lemma chain_bound: "chain h fl sl \<Longrightarrow> i \<in> set fl \<Longrightarrow> i < length sl"
  by (induction h fl sl rule: chain.induct) auto

lemma chain_cong:
  "chain h fl sl \<Longrightarrow> length sl' = length sl \<Longrightarrow> (\<And>i. i \<in> set fl \<Longrightarrow> next_free (sl' ! i) = next_free (sl ! i)) \<Longrightarrow> chain h fl sl'"
  by (induction h fl sl rule: chain.induct) auto

lemma chain_update: "chain h fl sl \<Longrightarrow> i \<notin> set fl \<Longrightarrow> chain h fl (sl[i := x])"
  by (rule chain_cong, assumption, simp) (metis nth_list_update_neq)

lemma chain_last: "chain h fl sl \<Longrightarrow> fl \<noteq> [] \<Longrightarrow> next_free (sl ! last fl) = - 1"
proof (induction h fl sl rule: chain.induct)
  case (2 h i "is" sl)
  then show ?case by (cases "is") auto
qed simp

lemma chain_not_last: "chain h fl sl \<Longrightarrow> i \<in> set fl \<Longrightarrow> distinct fl \<Longrightarrow> i \<noteq> last fl \<Longrightarrow> next_free (sl ! i) \<noteq> - 1"
proof (induction h fl sl rule: chain.induct)
  case (2 h j "is" sl)
  then show ?case by (cases "is") (auto split: if_splits)
qed simp

text \<open>Ids and their parts.\<close>

lemma unat_request_id:
  assumes "i < 2 ^ 32"
  shows "unat (request_id_of v i) = unat v * 2 ^ 32 + i"
proof -
  have vl: "unat v < 2 ^ 32" using unsigned_less [of v, where ?'a = nat] by simp
  then have v: "unat (ucast v :: 64 word) = unat v" by (simp add: unsigned_ucast_eq take_bit_eq_mod)
  have "unat v * 2 ^ 32 < 2 ^ 32 * 2 ^ 32" using vl by simp
  then have p: "unat (push_bit 32 (ucast v) :: 64 word) = push_bit 32 (unat v)"
    unfolding unsigned_push_bit_eq v by (simp add: push_bit_eq_mult take_bit_eq_mod)
  have i: "unat (word_of_nat i :: 64 word) = i" using assms by (simp add: unat_of_nat)
  show ?thesis
    using push_bit_or [OF assms, of "unat v"] by (simp add: request_id_of_def unsigned_or_eq p i)
qed

lemma unat_drop32: "unat (drop_bit 32 (w :: 64 word)) = unat w div 2 ^ 32"
  using unsigned_less [of w, where ?'a = nat]
  unfolding unsigned_drop_bit_eq by (simp add: drop_bit_eq_div take_bit_eq_mod)

lemma id_parts:
  assumes "i < 2 ^ 32"
  shows "id_index (request_id_of v i) = i" "id_version (request_id_of v i) = v"
proof -
  note u = unat_request_id [OF assms, of v]
  have vl: "unat v < 2 ^ 32" using unsigned_less [of v, where ?'a = nat] by simp
  have "id_index (request_id_of v i) = unat (request_id_of v i) mod 2 ^ 32"
    using and_pow2_minus_1 [of "unat (request_id_of v i)" 32] by (simp add: id_index_def unsigned_and_eq)
  then show "id_index (request_id_of v i) = i" using assms by (simp add: u)
  have "unat (drop_bit 32 (request_id_of v i)) = unat (request_id_of v i) div 2 ^ 32"
    by (rule unat_drop32)
  also have "\<dots> = unat v" using assms by (simp add: u)
  finally show "id_version (request_id_of v i) = v"
    using vl by (intro unsigned_word_eqI [where ?'a = nat]) (simp add: id_version_def unsigned_ucast_eq take_bit_eq_mod)
qed

lemma id_recompose [simp]: "request_id_of (id_version rid) (id_index rid) = rid"
proof -
  have i: "id_index rid = unat rid mod 2 ^ 32"
    using and_pow2_minus_1 [of "unat rid" 32] by (simp add: id_index_def unsigned_and_eq)
  have lt: "unat rid < 2 ^ 64" using unsigned_less [of rid, where ?'a = nat] by simp
  have d: "unat (drop_bit 32 rid) = unat rid div 2 ^ 32" by (rule unat_drop32)
  then have "unat (id_version rid) = unat rid div 2 ^ 32"
    using lt by (simp add: id_version_def unsigned_ucast_eq take_bit_eq_mod less_mult_imp_div_less)
  then have "unat (request_id_of (id_version rid) (id_index rid)) = unat rid div 2 ^ 32 * 2 ^ 32 + unat rid mod 2 ^ 32"
    using unat_request_id [of "id_index rid" "id_version rid"] by (simp add: i)
  then have "unat (request_id_of (id_version rid) (id_index rid)) = unat rid" by simp
  then show ?thesis by (intro unsigned_word_eqI [where ?'a = nat])
qed

text \<open>Growing the slot vector.\<close>

lemma link_slots:
  "m \<le> length sl \<Longrightarrow> n \<le> m \<Longrightarrow>
   (let sl' = fold (\<lambda>i sl. sl[i := (sl ! i)\<lparr>next_free := int (i + 1)\<rparr>]) [n..<m] sl
    in length sl' = length sl
      \<and> (\<forall>i<length sl. sl' ! i = (if n \<le> i \<and> i < m then (sl ! i)\<lparr>next_free := int (i + 1)\<rparr> else sl ! i)))"
proof (induction m)
  case (Suc m)
  show ?case
  proof (cases "n = Suc m")
    case False
    then have "[n..<Suc m] = [n..<m] @ [m]" using Suc.prems by simp
    then show ?thesis using Suc False by (auto simp: Let_def nth_list_update)
  qed simp
qed simp

lemma chain_upto:
  "n \<le> m \<Longrightarrow> m < length sl \<Longrightarrow> (\<And>i. n \<le> i \<Longrightarrow> i < m \<Longrightarrow> next_free (sl ! i) = int (i + 1)) \<Longrightarrow> next_free (sl ! m) = - 1
   \<Longrightarrow> chain (int n) [n..<Suc m] sl"
proof (induction "m - n" arbitrary: n)
  case 0
  then show ?case by simp
next
  case (Suc k)
  then have "chain (int (Suc n)) [Suc n..<Suc m] sl" by (intro Suc.hyps(1)) simp_all
  moreover have "[n..<Suc m] = n # [Suc n..<Suc m]" using Suc.prems by (simp add: upt_rec)
  ultimately show ?case using Suc by simp
qed

lemma expand_slots_inv:
  assumes "slot_inv ch []" "length (slots ch) + kSlotExpandSize < 2 ^ 31"
  shows "\<exists>fl. slot_inv (expand_slots ch) fl \<and> fl \<noteq> [] \<and> pending (expand_slots ch) fl = pending ch []"
proof -
  define n where "n = length (slots ch)"
  define m where "m = n + 1023"
  define sl where "sl = slots ch @ replicate kSlotExpandSize new_slot"
  define sl' where "sl' = slots (expand_slots ch)"
  have len: "length sl = Suc m" by (simp add: sl_def n_def m_def kSlotExpandSize_def)
  have e: "sl' = fold (\<lambda>i sl. sl[i := (sl ! i)\<lparr>next_free := int (i + 1)\<rparr>]) [n..<m] sl" "free_head (expand_slots ch) = int n"
    using len by (simp_all add: sl'_def expand_slots_def Let_def sl_def [symmetric] n_def [symmetric])
  have l: "length sl' = Suc m" "\<And>i. i < Suc m \<Longrightarrow> sl' ! i = (if n \<le> i \<and> i < m then (sl ! i)\<lparr>next_free := int (i + 1)\<rparr> else sl ! i)"
    using link_slots [of m sl n] len unfolding e(1) Let_def by (simp_all add: m_def)
  have old: "sl' ! i = slots ch ! i" if "i < n" for i using that l(2) [of i] by (simp add: sl_def n_def m_def nth_append)
  have "sl ! m = new_slot" by (simp add: sl_def n_def m_def nth_append kSlotExpandSize_def)
  then have "next_free (sl' ! m) = - 1" using l(2) [of m] by (simp add: new_slot_def)
  then have "chain (int n) [n..<Suc m] sl'" using l by (intro chain_upto) (simp_all add: m_def)
  moreover have "next_free (sl' ! i) = - 1" if "i < n" for i
    using that assms(1) by (simp add: old slot_inv_def n_def)
  ultimately have "slot_inv (expand_slots ch) [n..<Suc m]"
    using assms(2) l(1) by (auto simp: slot_inv_def e(2) sl'_def [symmetric] n_def m_def kSlotExpandSize_def)
  moreover have "pending (expand_slots ch) [n..<Suc m] = pending ch []"
    by (intro ext) (auto simp: pending_def sl'_def [symmetric] Let_def l(1) old n_def [symmetric] m_def)
  moreover have "[n..<Suc m] \<noteq> []" by (simp add: m_def)
  ultimately show ?thesis by blast
qed

lemma allocate_cons:
  assumes "slot_inv ch (i # fl)"
  shows "let rid = request_id_of (sversion (slots ch ! i)) i;
      ch' = ch\<lparr>free_head := next_free (slots ch ! i), slots := (slots ch)[i := (slots ch ! i)\<lparr>call := c, next_free := - 1\<rparr>]\<rparr>
    in slot_inv ch' fl \<and> pending ch (i # fl) rid = None \<and> pending ch' fl = (pending ch (i # fl))(rid \<mapsto> c)"
proof -
  have i: "i < length (slots ch)" "i \<notin> set fl" "distinct fl" "chain (next_free (slots ch ! i)) fl (slots ch)"
    "length (slots ch) < 2 ^ 31" using assms by (simp_all add: slot_inv_def)
  then have i32: "i < 2 ^ 32" by simp
  have idx: "id_index rid = i \<and> id_version rid = sversion (slots ch ! i) \<longleftrightarrow> rid = request_id_of (sversion (slots ch ! i)) i" for rid
  proof
    assume "id_index rid = i \<and> id_version rid = sversion (slots ch ! i)"
    then show "rid = request_id_of (sversion (slots ch ! i)) i" using id_recompose [of rid] by simp
  qed (simp add: id_parts [OF i32])
  show ?thesis
    using assms i chain_update [OF i(4,2)] idx
    by (auto simp: Let_def slot_inv_def pending_def id_parts [OF i32] nth_list_update fun_eq_iff)
qed

lemma release_inv:
  assumes "slot_inv ch fl" "i < length (slots ch)" "i \<notin> set fl"
  shows "slot_inv (release_slot i ch) (i # fl)"
    "pending (release_slot i ch) (i # fl) = (\<lambda>rid. if id_index rid = i then None else pending ch fl rid)"
  using assms chain_update [of "free_head ch" fl "slots ch" i]
  by (auto simp: slot_inv_def release_slot_def Let_def pending_def nth_list_update)

subsection \<open>The interface of the call table\<close>

text \<open>A table of pending calls under generated ids: a fresh rid is not pending, and exactly that entry is
  added; taking a pending rid returns its call and removes exactly that entry.\<close>

locale call_table =
  fixes inv :: "'t \<Rightarrow> 'w \<Rightarrow> bool" and pend :: "'t \<Rightarrow> 'w \<Rightarrow> 'k \<Rightarrow> 'c option" and room :: "'t \<Rightarrow> bool"
    and alloc :: "'c \<Rightarrow> 't \<Rightarrow> 'k \<times> 't" and take :: "'k \<Rightarrow> 't \<Rightarrow> 'c option \<times> 't"
  assumes alloc_fresh: "inv t w \<Longrightarrow> room t \<Longrightarrow> alloc c t = (k, t') \<Longrightarrow>
      \<exists>w'. inv t' w' \<and> pend t w k = None \<and> pend t' w' = (pend t w)(k \<mapsto> c)"
    and take_pending: "inv t w \<Longrightarrow> pend t w k = Some c \<Longrightarrow>
      \<exists>t' w'. take k t = (Some c, t') \<and> inv t' w' \<and> pend t' w' = (pend t w)(k := None)"
begin

text \<open>Two calls in a row get different ids, and each is answered with its own call, in either order.\<close>

lemma two_calls:
  assumes "inv t w" "room t" "alloc c t = (k, t1)" "room t1" "alloc d t1 = (l, t2)"
  shows "k \<noteq> l \<and> (\<exists>w2 t3. inv t2 w2 \<and> take k t2 = (Some c, t3)
      \<and> (\<exists>w3 t4. inv t3 w3 \<and> pend t3 w3 k = None \<and> take l t3 = (Some d, t4)))"
proof -
  obtain w1 where w1: "inv t1 w1" "pend t1 w1 = (pend t w)(k \<mapsto> c)" using alloc_fresh [OF assms(1-3)] by blast
  obtain w2 where w2: "inv t2 w2" "pend t1 w1 l = None" "pend t2 w2 = (pend t1 w1)(l \<mapsto> d)"
    using alloc_fresh [OF w1(1) assms(4,5)] by blast
  have kl: "k \<noteq> l" using w1(2) w2(2) by auto
  then have "pend t2 w2 k = Some c" using w1(2) w2(3) by simp
  then obtain t3 w3 where t3: "take k t2 = (Some c, t3)" "inv t3 w3" "pend t3 w3 = (pend t2 w2)(k := None)"
    using take_pending [OF w2(1)] by blast
  then have "pend t3 w3 l = Some d" "pend t3 w3 k = None" using kl w2(3) by simp_all
  then show ?thesis using kl w2(1) t3 take_pending [OF t3(2)] by blast
qed

end

definition has_room :: "channel \<Rightarrow> bool" where
  "has_room ch \<longleftrightarrow> length (slots ch) + kSlotExpandSize < 2 ^ 31"

lemma allocate_pending:
  assumes "slot_inv ch fl" "has_room ch" "allocateSlot c ch = (rid, ch')"
  shows "\<exists>fl'. slot_inv ch' fl' \<and> pending ch fl rid = None \<and> pending ch' fl' = (pending ch fl)(rid \<mapsto> c)"
proof -
  define ch1 where "ch1 = (if free_head ch = - 1 then expand_slots ch else ch)"
  obtain i fs where f: "slot_inv ch1 (i # fs)" "pending ch1 (i # fs) = pending ch fl"
  proof (cases fl)
    case Nil
    then have "free_head ch = - 1" using assms(1) by (simp add: slot_inv_def)
    then obtain gl where "slot_inv ch1 gl" "gl \<noteq> []" "pending ch1 gl = pending ch fl"
      using expand_slots_inv [of ch] assms(1,2) by (auto simp: Nil ch1_def has_room_def)
    then show ?thesis using that by (cases gl) auto
  next
    case (Cons j js)
    then have "free_head ch \<noteq> - 1" using assms(1) by (simp add: slot_inv_def)
    then show ?thesis using that [of j js] assms(1) by (simp add: ch1_def Cons)
  qed
  have "free_head ch1 = int i" using f(1) by (simp add: slot_inv_def)
  then have "rid = request_id_of (sversion (slots ch1 ! i)) i"
    "ch' = ch1\<lparr>free_head := next_free (slots ch1 ! i), slots := (slots ch1)[i := (slots ch1 ! i)\<lparr>call := c, next_free := - 1\<rparr>]\<rparr>"
    using assms(3) by (simp_all add: allocateSlot_def ch1_def [symmetric] Let_def)
  then show ?thesis using allocate_cons [OF f(1), of c] f(2) by (auto simp: Let_def)
qed

lemma find_pending:
  assumes "slot_inv ch fl" "pending ch fl rid = Some c"
  shows "findAndRemoveSlot rid ch = (Some c, release_slot (id_index rid) ch)"
    "slot_inv (release_slot (id_index rid) ch) (id_index rid # fl)"
    "pending (release_slot (id_index rid) ch) (id_index rid # fl) = (pending ch fl)(rid := None)"
proof -
  have i: "id_index rid < length (slots ch)" "id_index rid \<notin> set fl" "sversion (slots ch ! id_index rid) = id_version rid"
    "c = call (slots ch ! id_index rid)" using assms(2) by (auto simp: pending_def Let_def split: if_splits)
  then have "next_free (slots ch ! id_index rid) = - 1" using assms(1) by (simp add: slot_inv_def)
  then show "findAndRemoveSlot rid ch = (Some c, release_slot (id_index rid) ch)"
    using i by (simp add: findAndRemoveSlot_def Let_def)
  show "slot_inv (release_slot (id_index rid) ch) (id_index rid # fl)" using release_inv(1) [OF assms(1) i(1,2)] .
  have "pending ch fl x = None" if "id_index x = id_index rid" "x \<noteq> rid" for x
  proof (rule ccontr)
    assume "pending ch fl x \<noteq> None"
    then have "id_version x = id_version rid" using that(1) i by (auto simp: pending_def Let_def split: if_splits)
    then show False using that id_recompose [of x] id_recompose [of rid] by metis
  qed
  then show "pending (release_slot (id_index rid) ch) (id_index rid # fl) = (pending ch fl)(rid := None)"
    unfolding release_inv(2) [OF assms(1) i(1,2)] by (intro ext) simp
qed

interpretation calls: call_table slot_inv pending has_room allocateSlot findAndRemoveSlot
proof
  fix t w c k t'
  assume "slot_inv t w" "has_room t" "allocateSlot c t = (k, t')"
  then show "\<exists>w'. slot_inv t' w' \<and> pending t w k = None \<and> pending t' w' = (pending t w)(k \<mapsto> c)" by (rule allocate_pending)
next
  fix t w k c
  assume "slot_inv t w" "pending t w k = Some c"
  then show "\<exists>t' w'. findAndRemoveSlot k t = (Some c, t') \<and> slot_inv t' w' \<and> pending t' w' = (pending t w)(k := None)"
    using find_pending by blast
qed

subsection \<open>Ids that are not pending\<close>

text \<open>The last slot of the free chain carries the mark of an occupied slot.\<close>

definition free_tail :: "channel \<Rightarrow> nat list \<Rightarrow> 64 word \<Rightarrow> bool" where
  "free_tail ch fl rid \<longleftrightarrow> fl \<noteq> [] \<and> id_index rid = last fl \<and> sversion (slots ch ! last fl) = id_version rid"

lemma find_not_pending:
  assumes "slot_inv ch fl" "pending ch fl rid = None" "\<not> free_tail ch fl rid"
  shows "findAndRemoveSlot rid ch = (None, ch)"
proof (cases "id_index rid \<in> set fl \<and> id_index rid \<noteq> last fl")
  case True
  then have "next_free (slots ch ! id_index rid) \<noteq> - 1"
    using assms(1) chain_not_last [of "free_head ch" fl "slots ch" "id_index rid"] by (auto simp: slot_inv_def)
  then show ?thesis by (simp add: findAndRemoveSlot_def Let_def)
next
  case False
  then show ?thesis
    using assms(2,3) by (auto simp: findAndRemoveSlot_def Let_def pending_def free_tail_def split: if_splits)
qed

lemma find_removed:
  assumes "slot_inv ch fl" "pending ch fl rid = Some c"
  shows "findAndRemoveSlot rid (release_slot (id_index rid) ch) = (None, release_slot (id_index rid) ch)"
proof -
  have i: "id_index rid < length (slots ch)" "sversion (slots ch ! id_index rid) = id_version rid"
    using assms(2) by (auto simp: pending_def Let_def split: if_splits)
  then show ?thesis by (auto simp: findAndRemoveSlot_def release_slot_def Let_def)
qed

lemma find_free_tail:
  assumes "slot_inv ch fl" "free_tail ch fl rid"
  shows "findAndRemoveSlot rid ch = (Some (call (slots ch ! last fl)), release_slot (last fl) ch)"
    "\<not> (\<exists>fl'. slot_inv (release_slot (last fl) ch) fl')"
proof -
  let ?t = "last fl" and ?ch = "release_slot (last fl) ch"
  have t: "fl \<noteq> []" "id_index rid = ?t" "sversion (slots ch ! ?t) = id_version rid" using assms(2) by (simp_all add: free_tail_def)
  have len: "?t < length (slots ch)" using t(1) assms(1) chain_bound [of _ fl "slots ch" ?t] by (auto simp: slot_inv_def)
  have "next_free (slots ch ! ?t) = - 1" using chain_last [of _ fl "slots ch"] t(1) assms(1) by (auto simp: slot_inv_def)
  then show "findAndRemoveSlot rid ch = (Some (call (slots ch ! ?t)), ?ch)"
    using t len by (simp add: findAndRemoveSlot_def Let_def)
  show "\<not> (\<exists>fl'. slot_inv ?ch fl')"
  proof
    assume "\<exists>fl'. slot_inv ?ch fl'"
    then obtain gl where g: "distinct gl" "chain (free_head ?ch) gl (slots ?ch)" by (auto simp: slot_inv_def)
    have h: "free_head ?ch = int ?t" "next_free (slots ?ch ! ?t) = free_head ch"
      using len by (simp_all add: release_slot_def Let_def)
    have same: "next_free (slots ?ch ! i) = next_free (slots ch ! i)" if "i \<noteq> ?t" for i
      using that by (simp add: release_slot_def Let_def)
    obtain gs where gs: "gl = ?t # gs" using g(2) h(1) by (cases gl) auto
    then have c: "chain (free_head ch) gs (slots ?ch)" "?t \<notin> set gs" using g h(2) by simp_all
    have "chain k gs (slots ?ch) \<Longrightarrow> chain k hs (slots ch) \<Longrightarrow> hs \<noteq> [] \<Longrightarrow> last hs = ?t \<Longrightarrow> ?t \<notin> set gs \<Longrightarrow> False" for k hs
    proof (induction gs arbitrary: k hs)
      case Nil
      then show ?case by (cases hs) auto
    next
      case (Cons i "is")
      then obtain hs' where hs: "hs = i # hs'" by (cases hs) auto
      then have "hs' \<noteq> []" using Cons.prems(4,5) by auto
      then show ?case using Cons.IH [of "next_free (slots ch ! i)" hs'] Cons.prems hs same [of i] by auto
    qed
    then show False using c t(1) assms(1) by (auto simp: slot_inv_def)
  qed
qed

subsection \<open>Collecting\<close>

lemma collect_slots_inv:
  "slot_inv ch fl \<Longrightarrow> distinct is \<Longrightarrow> (\<And>i. i \<in> set is \<Longrightarrow> i < length (slots ch) \<and> (i \<in> set fl \<longrightarrow> \<not> P (slots ch ! i))) \<Longrightarrow>
   \<exists>ch' fl'. collect_slots P is ch acc = (acc @ map (\<lambda>i. call (slots ch ! i)) (filter (\<lambda>i. P (slots ch ! i)) is), ch')
     \<and> slot_inv ch' fl'
     \<and> pending ch' fl' = (\<lambda>rid. if id_index rid \<in> set is \<and> P (slots ch ! id_index rid) then None else pending ch fl rid)"
proof (induction "is" arbitrary: ch fl acc)
  case Nil
  then show ?case by auto
next
  case (Cons i "is")
  show ?case
  proof (cases "P (slots ch ! i)")
    case False
    have "\<exists>ch' fl'. collect_slots P is ch acc = (acc @ map (\<lambda>i. call (slots ch ! i)) (filter (\<lambda>i. P (slots ch ! i)) is), ch')
     \<and> slot_inv ch' fl'
     \<and> pending ch' fl' = (\<lambda>rid. if id_index rid \<in> set is \<and> P (slots ch ! id_index rid) then None else pending ch fl rid)"
      using Cons.prems by (intro Cons.IH) auto
    moreover have "(\<lambda>rid. if id_index rid \<in> set is \<and> P (slots ch ! id_index rid) then None else pending ch fl rid)
        = (\<lambda>rid. if id_index rid \<in> set (i # is) \<and> P (slots ch ! id_index rid) then None else pending ch fl rid)"
      using False by (intro ext) auto
    ultimately show ?thesis using False by simp
  next
    case True
    then have i: "i < length (slots ch)" "i \<notin> set fl" "i \<notin> set is" using Cons.prems(2,3) by auto
    let ?ch = "release_slot i ch"
    note r = release_inv [OF Cons.prems(1) i(1,2)]
    have other: "slots ?ch ! j = slots ch ! j" if "j \<noteq> i" for j using that by (simp add: release_slot_def Let_def)
    have len: "length (slots ?ch) = length (slots ch)" by (simp add: release_slot_def Let_def)
    have "\<exists>ch' fl'. collect_slots P is ?ch (acc @ [call (slots ch ! i)])
        = ((acc @ [call (slots ch ! i)]) @ map (\<lambda>j. call (slots ?ch ! j)) (filter (\<lambda>j. P (slots ?ch ! j)) is), ch')
      \<and> slot_inv ch' fl'
      \<and> pending ch' fl' = (\<lambda>rid. if id_index rid \<in> set is \<and> P (slots ?ch ! id_index rid) then None else pending ?ch (i # fl) rid)"
    proof (rule Cons.IH [OF r(1)])
      show "distinct is" using Cons.prems(2) by simp
      show "j < length (slots ?ch) \<and> (j \<in> set (i # fl) \<longrightarrow> \<not> P (slots ?ch ! j))" if "j \<in> set is" for j
      proof -
        have "j \<noteq> i" using that i(3) by auto
        then show ?thesis using that Cons.prems(3) [of j] other [of j] len by simp
      qed
    qed
    then obtain ch' fl' where c: "collect_slots P is ?ch (acc @ [call (slots ch ! i)])
        = ((acc @ [call (slots ch ! i)]) @ map (\<lambda>j. call (slots ?ch ! j)) (filter (\<lambda>j. P (slots ?ch ! j)) is), ch')"
      "slot_inv ch' fl'" "pending ch' fl' = (\<lambda>rid. if id_index rid \<in> set is \<and> P (slots ?ch ! id_index rid) then None else pending ?ch (i # fl) rid)"
      by blast
    have mem: "slots ?ch ! j = slots ch ! j" if "j \<in> set is" for j using that i(3) other [of j] by metis
    have same: "filter (\<lambda>j. P (slots ?ch ! j)) is = filter (\<lambda>j. P (slots ch ! j)) is"
      "map (\<lambda>j. call (slots ?ch ! j)) (filter (\<lambda>j. P (slots ch ! j)) is) = map (\<lambda>j. call (slots ch ! j)) (filter (\<lambda>j. P (slots ch ! j)) is)"
      using mem by (auto intro!: filter_cong map_cong)
    have "pending ch' fl' = (\<lambda>rid. if id_index rid \<in> set (i # is) \<and> P (slots ch ! id_index rid) then None else pending ch fl rid)"
      unfolding c(3) r(2) using True i(3) other by (intro ext) auto
    then show ?thesis using True c(1,2) same by (intro exI [of _ ch'] exI [of _ fl']) simp
  qed
qed

subsection \<open>Properties\<close>

text \<open>C32. Refinement: the slot map is a table of pending calls. Allocating gives an id that is not
  pending, and adds exactly that entry, growing the vector when no slot is free; looking a pending id
  up returns its call and removes exactly that entry; any other id is refused and changes nothing,
  except the one id that names the last free slot.\<close>

theorem slot_map_refines:
  assumes "slot_inv ch fl"
  shows "(has_room ch \<longrightarrow> (\<exists>rid ch' fl'. allocateSlot c ch = (rid, ch') \<and> slot_inv ch' fl'
        \<and> pending ch fl rid = None \<and> pending ch' fl' = (pending ch fl)(rid \<mapsto> c)))
    \<and> (case pending ch fl rid of
         Some d \<Rightarrow> \<exists>ch' fl'. findAndRemoveSlot rid ch = (Some d, ch') \<and> slot_inv ch' fl' \<and> pending ch' fl' = (pending ch fl)(rid := None)
       | None \<Rightarrow> free_tail ch fl rid \<or> findAndRemoveSlot rid ch = (None, ch))"
proof (intro conjI impI)
  show "\<exists>rid ch' fl'. allocateSlot c ch = (rid, ch') \<and> slot_inv ch' fl'
        \<and> pending ch fl rid = None \<and> pending ch' fl' = (pending ch fl)(rid \<mapsto> c)" if "has_room ch"
    using calls.alloc_fresh [OF assms that] by (metis surj_pair)
  show "case pending ch fl rid of
         Some d \<Rightarrow> \<exists>ch' fl'. findAndRemoveSlot rid ch = (Some d, ch') \<and> slot_inv ch' fl' \<and> pending ch' fl' = (pending ch fl)(rid := None)
       | None \<Rightarrow> free_tail ch fl rid \<or> findAndRemoveSlot rid ch = (None, ch)"
    using calls.take_pending [OF assms] find_not_pending [OF assms] by (auto split: option.split)
qed

lemma empty_channel_inv: "slot_inv empty_channel []" "has_room empty_channel" "pending empty_channel [] rid = None"
  by (simp_all add: slot_inv_def empty_channel_def has_room_def kSlotExpandSize_def pending_def Let_def)

theorem slot_map_refines_witness:
  "\<exists>rid ch' fl'. allocateSlot null_call empty_channel = (rid, ch') \<and> slot_inv ch' fl' \<and> pending ch' fl' rid = Some null_call"
  using slot_map_refines [OF empty_channel_inv(1), of null_call 0] empty_channel_inv(2) by (metis fun_upd_same)

text \<open>C37. A response resumes its call once: when a response to a pending call and a copy of it are in
  the buffer, the call is completed with the payload of the first, and the second has no effect.\<close>

theorem response_once:
  assumes "buf_ok b" "slot_inv ch fl" "pending ch fl (request_id h) = Some c" "message_ok h p"
    "content b = message h p @ message h p"
  shows "\<exists>ch' fl' b'. client_onMessage b (evs, ch) = ((evs @ complete h p c, ch'), b') \<and> slot_inv ch' fl'
    \<and> pending ch' fl' = (pending ch fl)(request_id h := None) \<and> content b' = []"
proof -
  have "frames [] = ([], [], False)" by (simp add: frames.simps KZ_RPC_HEADER_SIZE_def)
  then have "frames (message h p @ message h p @ []) = ([(h, p), (h, p)], [], False)"
    by (intro frames_message assms(4))
  then obtain b' where b': "client_onMessage b (evs, ch) = (client.handle_all [(h, p), (h, p)] (evs, ch), b')" "content b' = []"
    using client.run_frames [OF assms(1), of _ _ _ "(evs, ch)"] assms(5) by fastforce
  note f = find_pending [OF assms(2,3)] and r = find_removed [OF assms(2,3)]
  have "client.handle_all [(h, p), (h, p)] (evs, ch) = (evs @ complete h p c, release_slot (id_index (request_id h)) ch)"
    by (simp add: client.handle_all_def deliver_def f(1) r)
  then have "client_onMessage b (evs, ch) = ((evs @ complete h p c, release_slot (id_index (request_id h)) ch), b')"
    using b'(1) by simp
  then show ?thesis using b'(2) f(2,3) by blast
qed

lemma sample_call:
  obtains rid ch fl where "slot_inv ch fl" "pending ch fl rid = Some (null_call\<lparr>handle := Some 9\<rparr>)"
  using calls.alloc_fresh [OF empty_channel_inv(1,2), of "null_call\<lparr>handle := Some 9\<rparr>"]
  by (metis fun_upd_same surj_pair)

theorem response_once_witness:
  "\<exists>ch h b ch' b'. client_onMessage b ([], ch) = (([Deserialize 0 [5, 6] 0, Resume 9], ch'), b')"
proof -
  obtain rid ch fl where ch: "slot_inv ch fl" "pending ch fl rid = Some (null_call\<lparr>handle := Some 9\<rparr>)" by (rule sample_call)
  define h where "h = sample_header\<lparr>request_id := rid\<rparr>"
  have ok: "message_ok h [5, 6]"
    by (simp add: h_def message_ok_def IsHeaderValid_def sample_header_def zero_header_def KZ_RPC_VERSION_def
        KZ_RPC_HEADER_SIZE_def KZ_RPC_MAX_LENGTH_def)
  have l: "length (message h [5, 6]) = 26"
    using length_header_bytes [of h] by (simp add: message_def h_def sample_header_def KZ_RPC_MAGIC_def)
  obtain b where b: "Buffer sample_alloc kInitialSize = Some b" "capacity b = 1024"
    by (simp add: Buffer_def sample_alloc_def kInitialSize_def)
  then have bo: "buf_ok b" "content b = []" using Buffer_ok [OF sample_alloc_ok b(1)] by simp_all
  then obtain d where d: "append_bytes sample_alloc (message h [5, 6] @ message h [5, 6]) b = Some d"
    using append_room [OF bo(1), of "message h [5, 6] @ message h [5, 6]" sample_alloc] l b(2) conn.avail_length [OF bo(1)] by auto
  note dk = append_ok [OF sample_alloc_ok bo(1) d, unfolded bo(2) append_Nil]
  have c: "complete h [5, 6] (null_call\<lparr>handle := Some 9\<rparr>) = [Deserialize 0 [5, 6] 0, Resume 9]"
    by (simp add: complete_def h_def sample_header_def zero_header_def null_call_def)
  show ?thesis
    using response_once [OF conjunct1 [OF dk] ch(1) _ ok conjunct2 [OF dk], of "null_call\<lparr>handle := Some 9\<rparr>" "[]"] ch(2) c
    by (auto simp: h_def)
qed

text \<open>Losing a connection fails exactly the calls that are pending on it, each once and with the given
  code, in slot order, and leaves the others pending - provided the stale call in the last free slot
  does not name that connection.\<close>

theorem connection_loss:
  assumes "slot_inv ch fl" "fl = [] \<or> conn_of (call (slots ch ! last fl)) \<noteq> Some k"
  shows "\<exists>ch' fl'. failPendingOnConnection k code ch
      = (concat (map (\<lambda>i. fail_call (status_code code) (call (slots ch ! i)))
           (filter (\<lambda>i. i \<notin> set fl \<and> conn_of (call (slots ch ! i)) = Some k) [0..<length (slots ch)])), ch')
    \<and> slot_inv ch' fl'
    \<and> pending ch' fl' = (\<lambda>rid. case pending ch fl rid of None \<Rightarrow> None
         | Some c \<Rightarrow> if conn_of c = Some k then None else Some c)"
proof -
  let ?P = "\<lambda>s. next_free s = - 1 \<and> conn_of (call s) = Some k"
  have free: "\<not> ?P (slots ch ! i)" if "i \<in> set fl" for i
    using that assms chain_not_last [of "free_head ch" fl "slots ch" i] by (cases "i = last fl") (auto simp: slot_inv_def)
  have occ: "next_free (slots ch ! i) = - 1" if "i < length (slots ch)" "i \<notin> set fl" for i
    using that assms(1) by (simp add: slot_inv_def)
  obtain ch' fl' where c: "collect_slots ?P [0..<length (slots ch)] ch []
      = (map (\<lambda>i. call (slots ch ! i)) (filter (\<lambda>i. ?P (slots ch ! i)) [0..<length (slots ch)]), ch')" "slot_inv ch' fl'"
    "pending ch' fl' = (\<lambda>rid. if id_index rid \<in> set [0..<length (slots ch)] \<and> ?P (slots ch ! id_index rid) then None else pending ch fl rid)"
    using collect_slots_inv [OF assms(1), of "[0..<length (slots ch)]" ?P "[]"] free by auto
  have "filter (\<lambda>i. ?P (slots ch ! i)) [0..<length (slots ch)]
      = filter (\<lambda>i. i \<notin> set fl \<and> conn_of (call (slots ch ! i)) = Some k) [0..<length (slots ch)]"
    using free occ by (intro filter_cong) auto
  moreover have "pending ch' fl' = (\<lambda>rid. case pending ch fl rid of None \<Rightarrow> None
         | Some c \<Rightarrow> if conn_of c = Some k then None else Some c)"
    unfolding c(3) using free occ by (intro ext) (auto simp: pending_def Let_def split: option.split)
  ultimately show ?thesis
    using c(1,2) by (intro exI [of _ ch'] exI [of _ fl']) (simp add: failPendingOnConnection_def comp_def)
qed

theorem connection_loss_witness:
  "\<exists>ch. fst (failPendingOnConnection 3 ERR_TIMEOUT ch) = []"
  using connection_loss [OF empty_channel_inv(1), of 3 ERR_TIMEOUT]
  by (intro exI [of _ empty_channel]) (auto simp: empty_channel_def)

text \<open>The exception of the slot map is real: an id that names the last free slot is accepted, a call
  that nobody waits for is completed, and the slot is chained in twice, after which no list of free
  slots exists any more.\<close>

theorem free_tail_corrupts:
  assumes "slot_inv ch fl" "free_tail ch fl rid" "pending ch fl rid = None"
  shows "fst (findAndRemoveSlot rid ch) \<noteq> None \<and> (\<nexists>fl'. slot_inv (snd (findAndRemoveSlot rid ch)) fl')"
  using find_free_tail [OF assms(1,2)] by simp

lemma pow2_of_and: "0 < n \<Longrightarrow> (n::nat) AND (n - 1) = 0 \<Longrightarrow> pow2 n"
proof (induction n rule: less_induct)
  case (less n)
  show ?case
  proof (cases "even n")
    case True
    then obtain m where m: "n = 2 * m" "0 < m" using less.prems(1) by auto
    have "m AND (m - 1) = 0"
    proof (rule bit_eqI)
      fix i
      have "bit n (Suc i) \<longleftrightarrow> bit m i" by (simp add: m bit_Suc)
      moreover have "(n - 1) div 2 = m - 1" using m by (cases m) simp_all
      then have "bit (n - 1) (Suc i) \<longleftrightarrow> bit (m - 1) i" by (simp add: bit_Suc)
      moreover have "\<not> bit (n AND (n - 1)) (Suc i)" using less.prems(2) by simp
      ultimately show "bit (m AND (m - 1)) i \<longleftrightarrow> bit 0 i" by (simp add: bit_and_iff)
    qed
    then obtain k where "m = 2 ^ k" using less.IH [of m] m by (auto simp: pow2_def)
    then have "n = 2 ^ Suc k" by (simp add: m)
    then show ?thesis unfolding pow2_def by blast
  next
    case False
    then obtain m where m: "n = 2 * m + 1" by (elim oddE)
    have "n AND (n - 1) = 2 * m"
    proof (rule bit_eqI)
      fix i
      have "bit n i \<or> \<not> bit (n - 1) i" unfolding m by (cases i) (simp_all add: bit_0 bit_Suc)
      then show "bit (n AND (n - 1)) i \<longleftrightarrow> bit (2 * m) i" unfolding bit_and_iff using m by auto
    qed
    then have "n = 2 ^ 0" using less.prems(2) m by simp
    then show ?thesis unfolding pow2_def by blast
  qed
qed

definition real_index :: "nat \<Rightarrow> nat \<Rightarrow> nat" where
  "real_index n j = (if n AND (n - 1) = 0 then j AND (n - 1) else j mod n)"

lemma real_index_mod: "0 < n \<Longrightarrow> real_index n j = j mod n"
  unfolding real_index_def using pow2_and [OF pow2_of_and, of n j] by presburger

lemma pick_loop_Cons: "pick_loop idx (i # is) clients =
    (case clients ! real_index (length clients) (wadd idx i) of
       Some (c, connected) \<Rightarrow> if connected then Some c else pick_loop idx is clients
     | None \<Rightarrow> pick_loop idx is clients)"
  unfolding pick_loop.simps Let_def real_index_def ..

lemma pick_loop_Some:
  "pick_loop idx is clients = Some c \<Longrightarrow> \<exists>i\<in>set is. clients ! real_index (length clients) (wadd idx i) = Some (c, True)"
  by (induction "is") (auto simp: pick_loop_Cons simp del: pick_loop.simps(2) split: option.splits if_splits)

lemma pick_loop_None:
  "pick_loop idx is clients = None \<Longrightarrow> i \<in> set is \<Longrightarrow> clients ! real_index (length clients) (wadd idx i) \<noteq> Some (c, True)"
  by (induction "is") (auto simp: pick_loop_Cons simp del: pick_loop.simps(2) split: option.splits if_splits)

text \<open>Load balancing: a call gets a connected connection whenever the pool has one, whatever the
  value of the round-robin counter and the size of the pool.\<close>

theorem pickConnection_live:
  assumes "tls_idx + length clients < W64"
  shows "case fst (pickConnection tls_idx clients) of
      Some c \<Rightarrow> Some (c, True) \<in> set clients | None \<Rightarrow> \<forall>c. Some (c, True) \<notin> set clients"
proof (cases "pick_loop tls_idx [0..<length clients] clients")
  case None
  have "Some (c, True) \<notin> set clients" for c
  proof
    assume "Some (c, True) \<in> set clients"
    then obtain j where j: "j < length clients" "clients ! j = Some (c, True)" by (auto simp: in_set_conv_nth)
    let ?n = "length clients"
    define i where "i = (j + (?n - tls_idx mod ?n)) mod ?n"
    have n: "0 < ?n" using j(1) by linarith
    have "(tls_idx + i) mod ?n = (tls_idx mod ?n + (j + (?n - tls_idx mod ?n))) mod ?n" unfolding i_def by (simp add: mod_simps)
    also have "tls_idx mod ?n + (j + (?n - tls_idx mod ?n)) = j + ?n" using mod_less_divisor [OF n, of tls_idx] by linarith
    also have "(j + ?n) mod ?n = j" using j by simp
    finally have m: "(tls_idx + i) mod ?n = j" .
    have i: "i < ?n" using n by (simp add: i_def)
    then have "wadd tls_idx i = tls_idx + i" using assms by (intro wadd_small) simp
    then have "real_index ?n (wadd tls_idx i) = j" using m n by (simp add: real_index_mod)
    then show False using pick_loop_None [OF None, of i c] i j by simp
  qed
  then show ?thesis by (simp add: pickConnection_def None)
next
  case (Some c)
  then obtain i where i: "i < length clients" "clients ! real_index (length clients) (wadd tls_idx i) = Some (c, True)"
    using pick_loop_Some by fastforce
  then have "0 < length clients" by linarith
  then have "real_index (length clients) (wadd tls_idx i) < length clients" by (simp add: real_index_mod)
  moreover note i(2)
  ultimately show ?thesis by (metis (no_types, lifting) Some fst_conv nth_mem option.simps(5) pickConnection_def)
qed

theorem pickConnection_live_witness: "fst (pickConnection 5 [None, Some (4, False), Some (7, True)]) = Some 7"
proof -
  have "case fst (pickConnection 5 [None, Some (4, False), Some (7, True)]) of
      Some c \<Rightarrow> Some (c, True) \<in> set [None, Some (4, False), Some (7, True)]
    | None \<Rightarrow> \<forall>c. Some (c, True) \<notin> set [None, Some (4, False), Some (7::nat, True)]"
    by (rule pickConnection_live) (simp add: W64_def)
  then show ?thesis by (auto split: option.splits)
qed

lemma method_word:
  assumes "sid < 65536" "mid < 65536"
  shows "unat (drop_bit 16 (push_bit 16 (word_of_nat sid) OR word_of_nat mid :: 32 word)) = sid"
    "unat ((push_bit 16 (word_of_nat sid) OR word_of_nat mid :: 32 word) AND 0xFFFF) = mid"
proof -
  let ?w = "push_bit 16 (word_of_nat sid) OR word_of_nat mid :: 32 word"
  have m: "unat (word_of_nat mid :: 32 word) = mid" "unat (word_of_nat sid :: 32 word) = sid"
    using assms by (simp_all add: unat_of_nat)
  have "unat (push_bit 16 (word_of_nat sid) :: 32 word) = push_bit 16 sid"
    unfolding unsigned_push_bit_eq m using assms by (simp add: push_bit_eq_mult take_bit_eq_mod)
  then have u: "unat ?w = sid * 2 ^ 16 + mid"
    using push_bit_or [of mid 16 sid] assms(2) unfolding unsigned_or_eq m by simp
  have "unat ?w < 2 ^ 32" using unsigned_less [of ?w, where ?'a = nat] by simp
  then show "unat (drop_bit 16 ?w) = sid"
    unfolding unsigned_drop_bit_eq using assms by (simp add: drop_bit_eq_div take_bit_eq_mod u)
  show "unat (?w AND 0xFFFF) = mid"
    using and_pow2_minus_1 [of "unat ?w" 16] assms unfolding unsigned_and_eq by (simp add: u)
qed

text \<open>C38. End to end: the request that a call sends is one well-formed message, and the server routes it
  to the wrapper registered for its service, method and encoding, with the serialised request as the
  payload and the id of the pending call in the header.\<close>

theorem request_dispatched:
  assumes "await_suspend uv sid mid put_req c tls_idx clients ch = (Suspended k bytes, tls_idx', ch')"
    "put_req Serializer = Serializer @ body" "sid < 65536" "mid < 65536"
    "KZ_RPC_HEADER_SIZE + length body \<le> KZ_RPC_MAX_LENGTH" "frames r = (fs, rest, bad)"
  shows "\<exists>h. frames (bytes @ r) = ((h, body) # fs, rest, bad)
    \<and> allocateSlot (c\<lparr>conn_of := Some k\<rparr>) ch = (request_id h, ch')
    \<and> route (registerMethod uv sid mid inst w srv) h body = Dispatch w inst body h"
proof -
  obtain rid where a: "allocateSlot (c\<lparr>conn_of := Some k\<rparr>) ch = (rid, ch')"
    "bytes = request_bytes uv sid mid rid (Serializer @ body)"
    using assms(1,2) by (auto simp: await_suspend_def split: prod.splits option.splits)
  define h where "h = zero_header\<lparr>magic := KZ_RPC_MAGIC, version := KZ_RPC_VERSION,
     flags := (if uv then MASK_VARINT else 0), request_id := rid,
     method_id := push_bit 16 (word_of_nat sid) OR word_of_nat mid,
     msg_length := word_of_nat (KZ_RPC_HEADER_SIZE + length body)\<rparr>"
  have ln: "unat (word_of_nat (KZ_RPC_HEADER_SIZE + length body) :: 32 word) = KZ_RPC_HEADER_SIZE + length body"
    using assms(5) by (intro unat_32) (simp add: KZ_RPC_MAX_LENGTH_def)
  have "length (header_bytes h) = 24" by (intro length_header_bytes) (simp add: h_def KZ_RPC_MAGIC_def)
  then have "bytes = message h body"
    unfolding a(2)
    by (cases uv) (simp_all add: request_bytes_def Let_def Serializer_def EncodeHeader_def wr_def message_def h_def
        KZ_RPC_HEADER_SIZE_def flag_consts)
  moreover have "message_ok h body" using assms(5) ln by (simp add: message_ok_def IsHeaderValid_def h_def)
  moreover have "request_to sid mid uv h"
    using method_word [OF assms(3,4)] by (simp add: request_to_def h_def flag_consts)
  ultimately show ?thesis
    using frames_message [OF _ assms(6)] a(1) by (intro exI [of _ h]) (simp add: route_lookup register_entry h_def)
qed

theorem request_dispatched_witness:
  "\<exists>bytes t ch. await_suspend True 1 2 (\<lambda>s. s @ [7]) null_call 0 [Some (4, True)] empty_channel = (Suspended 4 bytes, t, ch)
    \<and> (\<exists>h. frames (bytes @ []) = ([(h, [7])], [], False))"
proof -
  obtain rid ch where a: "allocateSlot (null_call\<lparr>conn_of := Some 4\<rparr>) empty_channel = (rid, ch)" by fastforce
  have p: "pickConnection 0 [Some (4, True)] = (Some 4, wadd 0 1)"
    by (simp add: pickConnection_def Let_def)
  define bytes where "bytes = request_bytes True 1 2 rid (Serializer @ [7])"
  have s: "await_suspend True 1 2 (\<lambda>s. s @ [7]) null_call 0 [Some (4, True)] empty_channel = (Suspended 4 bytes, wadd 0 1, ch)"
    unfolding await_suspend_def p prod.case option.case a bytes_def ..
  have e: "frames [] = ([], [], False)" by (simp add: frames.simps KZ_RPC_HEADER_SIZE_def)
  have "\<exists>h. frames (bytes @ []) = ((h, [7]) # [], [], False)"
    using request_dispatched [OF s refl _ _ _ e] by (fastforce simp: KZ_RPC_HEADER_SIZE_def KZ_RPC_MAX_LENGTH_def)
  then show ?thesis using s by blast
qed

end
