(* ===== verification/MpmcQueue.thy ===== *)
theory MpmcQueue
  imports Prelude
begin

text \<open>
  The bounded lock-free queue \<open>KzSTL/ArrayMpmcQueue.h\<close>: any number of threads enqueue and dequeue,
  one value or a batch, through a ring of slots with sequence numbers. A thread inside a call is a
  value of \<open>pc\<close>; \<open>mq_step\<close> is what it does up to and including its next access to shared memory,
  and a run interleaves such steps arbitrarily. The accesses are sequentially consistent. \<open>None\<close> in
  a slot is storage without an object; \<open>weak\<close> is a spurious failure of
  \<open>compare_exchange_weak\<close>. The fields \<open>q_hist\<close> (the values in the order in which their places
  were reserved) and \<open>q_got\<close> (what was taken from each place) record the history; no step reads
  them.
\<close>

record 'a mq =
  q_head :: nat
  q_tail :: nat
  q_seq :: "nat \<Rightarrow> nat"
  q_data :: "nat \<Rightarrow> 'a option"
  q_hist :: "'a list"
  q_got :: "nat \<Rightarrow> 'a option"

definition mq_init :: "'a mq" where
  "mq_init = \<lparr>q_head = 0, q_tail = 0, q_seq = (\<lambda>i. i), q_data = (\<lambda>_. None), q_hist = [], q_got = (\<lambda>_. None)\<rparr>"

text \<open>\<open>EFill\<close> and \<open>EPub\<close> construct and publish the \<open>i\<close>th reserved value, \<open>DTake\<close> and \<open>DRel\<close> move the
  \<open>i\<close>th value out and give its slot back.\<close>

datatype 'a pc =
    Idle
  | EOne 'a nat
  | EScan "'a list" nat nat
  | ERecheck "'a list" nat
  | ECas bool "'a list" nat nat
  | EFill "'a list" nat nat
  | EPub "'a list" nat nat
  | ERet nat
  | DOne nat
  | DScan nat nat nat
  | DRecheck nat nat
  | DCas bool nat nat nat
  | DTake nat nat nat "'a option list"
  | DRel nat nat nat "'a option list"
  | DRet "'a option list"

definition slot_of :: "nat \<Rightarrow> nat \<Rightarrow> nat" where
  "slot_of cap pos = pos AND (cap - 1)"

subsection \<open>Calls\<close>

definition start_enqueue :: "'a \<Rightarrow> 'a mq \<Rightarrow> 'a pc" where
  "start_enqueue v q = EOne v (q_tail q)"

definition start_enqueueBulk :: "'a list \<Rightarrow> 'a mq \<Rightarrow> 'a pc" where
  "start_enqueueBulk items q = (if items = [] then ERet 0 else EScan items (q_tail q) 0)"

definition start_dequeue :: "'a mq \<Rightarrow> 'a pc" where
  "start_dequeue q = DOne (q_head q)"

definition start_dequeueBulk :: "nat \<Rightarrow> 'a mq \<Rightarrow> 'a pc" where
  "start_dequeueBulk maxBatch q = DScan maxBatch (q_head q) 0"

subsection \<open>Steps\<close>

definition enqueue_step :: "nat \<Rightarrow> 'a \<Rightarrow> nat \<Rightarrow> 'a mq \<Rightarrow> 'a pc" where
  "enqueue_step cap v tail q =
     (let seq = q_seq q (slot_of cap tail)
      in if seq = tail then ECas False [v] tail 1 else if seq < tail then ERet 0 else EOne v (q_tail q))"

definition enqueueBulk_scan :: "nat \<Rightarrow> 'a list \<Rightarrow> nat \<Rightarrow> nat \<Rightarrow> 'a mq \<Rightarrow> 'a pc" where
  "enqueueBulk_scan cap items tail i q =
     (let maxTry = min (length items) cap; curPos = wadd tail i
      in if i < maxTry \<and> q_seq q (slot_of cap curPos) = curPos then EScan items tail (i + 1)
         else if i = 0 then ERecheck items tail else ECas True items tail i)"

definition enqueueBulk_recheck :: "nat \<Rightarrow> 'a list \<Rightarrow> nat \<Rightarrow> 'a mq \<Rightarrow> 'a pc" where
  "enqueueBulk_recheck cap items tail q =
     (if q_seq q (slot_of cap tail) < tail then ERet 0 else EScan items (q_tail q) 0)"

definition tail_cas :: "bool \<Rightarrow> bool \<Rightarrow> 'a list \<Rightarrow> nat \<Rightarrow> nat \<Rightarrow> 'a mq \<Rightarrow> 'a pc \<times> 'a mq" where
  "tail_cas weak bulk items tail n q =
     (if q_tail q = tail \<and> \<not> weak
      then (EFill (take n items) tail 0, q\<lparr>q_tail := wadd tail n, q_hist := q_hist q @ take n items\<rparr>)
      else (if bulk then EScan items (q_tail q) 0 else EOne (hd items) (q_tail q), q))"

definition construct :: "nat \<Rightarrow> 'a list \<Rightarrow> nat \<Rightarrow> nat \<Rightarrow> 'a mq \<Rightarrow> 'a pc \<times> 'a mq" where
  "construct cap items tail i q =
     (if i < length items
      then (EPub items tail i, q\<lparr>q_data := (q_data q)(slot_of cap (wadd tail i) := Some (items ! i))\<rparr>)
      else (ERet (length items), q))"

definition publish :: "nat \<Rightarrow> 'a list \<Rightarrow> nat \<Rightarrow> nat \<Rightarrow> 'a mq \<Rightarrow> 'a pc \<times> 'a mq" where
  "publish cap items tail i q =
     (let curPos = wadd tail i
      in (EFill items tail (i + 1), q\<lparr>q_seq := (q_seq q)(slot_of cap curPos := wadd curPos 1)\<rparr>))"

definition dequeue_step :: "nat \<Rightarrow> nat \<Rightarrow> 'a mq \<Rightarrow> 'a pc" where
  "dequeue_step cap head q =
     (let seq = q_seq q (slot_of cap head)
      in if seq = wadd head 1 then DCas False 1 head 1 else if seq < wadd head 1 then DRet [] else DOne (q_head q))"

definition dequeueBulk_scan :: "nat \<Rightarrow> nat \<Rightarrow> nat \<Rightarrow> nat \<Rightarrow> 'a mq \<Rightarrow> 'a pc" where
  "dequeueBulk_scan cap maxBatch head i q =
     (let curPos = wadd head i
      in if i < maxBatch \<and> q_seq q (slot_of cap curPos) = wadd curPos 1 then DScan maxBatch head (i + 1)
         else if i = 0 then DRecheck maxBatch head else DCas True maxBatch head i)"

definition dequeueBulk_recheck :: "nat \<Rightarrow> nat \<Rightarrow> nat \<Rightarrow> 'a mq \<Rightarrow> 'a pc" where
  "dequeueBulk_recheck cap maxBatch head q =
     (if q_seq q (slot_of cap head) < wadd head 1 then DRet [] else DScan maxBatch (q_head q) 0)"

definition head_cas :: "bool \<Rightarrow> bool \<Rightarrow> nat \<Rightarrow> nat \<Rightarrow> nat \<Rightarrow> 'a mq \<Rightarrow> 'a pc \<times> 'a mq" where
  "head_cas weak bulk maxBatch head n q =
     (if q_head q = head \<and> \<not> weak then (DTake head n 0 [], q\<lparr>q_head := wadd head n\<rparr>)
      else (if bulk then DScan maxBatch (q_head q) 0 else DOne (q_head q), q))"

definition move_out :: "nat \<Rightarrow> nat \<Rightarrow> nat \<Rightarrow> nat \<Rightarrow> 'a option list \<Rightarrow> 'a mq \<Rightarrow> 'a pc \<times> 'a mq" where
  "move_out cap head n i out q =
     (if i < n
      then let curPos = wadd head i; v = q_data q (slot_of cap curPos)
           in (DRel head n i (out @ [v]),
               q\<lparr>q_data := (q_data q)(slot_of cap curPos := None), q_got := (q_got q)(curPos := v)\<rparr>)
      else (DRet out, q))"

definition give_back :: "nat \<Rightarrow> nat \<Rightarrow> nat \<Rightarrow> nat \<Rightarrow> 'a option list \<Rightarrow> 'a mq \<Rightarrow> 'a pc \<times> 'a mq" where
  "give_back cap head n i out q =
     (let curPos = wadd head i
      in (DTake head n (i + 1) out, q\<lparr>q_seq := (q_seq q)(slot_of cap curPos := wadd curPos cap)\<rparr>))"

fun mq_step :: "nat \<Rightarrow> bool \<Rightarrow> 'a pc \<Rightarrow> 'a mq \<Rightarrow> 'a pc \<times> 'a mq" where
  "mq_step cap weak (EOne v t) q = (enqueue_step cap v t q, q)"
| "mq_step cap weak (EScan vs t i) q = (enqueueBulk_scan cap vs t i q, q)"
| "mq_step cap weak (ERecheck vs t) q = (enqueueBulk_recheck cap vs t q, q)"
| "mq_step cap weak (ECas bulk vs t n) q = tail_cas weak bulk vs t n q"
| "mq_step cap weak (EFill vs t i) q = construct cap vs t i q"
| "mq_step cap weak (EPub vs t i) q = publish cap vs t i q"
| "mq_step cap weak (DOne h) q = (dequeue_step cap h q, q)"
| "mq_step cap weak (DScan m h i) q = (dequeueBulk_scan cap m h i q, q)"
| "mq_step cap weak (DRecheck m h) q = (dequeueBulk_recheck cap m h q, q)"
| "mq_step cap weak (DCas bulk m h n) q = head_cas weak bulk m h n q"
| "mq_step cap weak (DTake h n i out) q = move_out cap h n i out q"
| "mq_step cap weak (DRel h n i out) q = give_back cap h n i out q"
| "mq_step cap weak pc q = (pc, q)"

text \<open>A thread outside a call.\<close>

fun at_rest :: "'a pc \<Rightarrow> bool" where
  "at_rest Idle = True"
| "at_rest (ERet n) = True"
| "at_rest (DRet out) = True"
| "at_rest _ = False"

inductive mq_run :: "nat \<Rightarrow> 'a mq \<Rightarrow> (nat \<Rightarrow> 'a pc) \<Rightarrow> bool" for cap where
  mq_start: "mq_run cap mq_init (\<lambda>_. Idle)"
| mq_enqueue: "mq_run cap q P \<Longrightarrow> at_rest (P t) \<Longrightarrow> mq_run cap q (P(t := start_enqueue v q))"
| mq_enqueueBulk: "mq_run cap q P \<Longrightarrow> at_rest (P t) \<Longrightarrow> mq_run cap q (P(t := start_enqueueBulk vs q))"
| mq_dequeue: "mq_run cap q P \<Longrightarrow> at_rest (P t) \<Longrightarrow> mq_run cap q (P(t := start_dequeue q))"
| mq_dequeueBulk: "mq_run cap q P \<Longrightarrow> at_rest (P t) \<Longrightarrow> mq_run cap q (P(t := start_dequeueBulk m q))"
| mq_move: "mq_run cap q P \<Longrightarrow> mq_step cap weak (P t) q = (pc, q') \<Longrightarrow> mq_run cap q' (P(t := pc))"

text \<open>\<open>sizeApprox\<close>, and the destructor, which runs when no thread is inside a call.\<close>

definition sizeApprox :: "'a mq \<Rightarrow> nat" where
  "sizeApprox q = (if q_tail q \<ge> q_head q then q_tail q - q_head q else 0)"

fun destroy_from :: "nat \<Rightarrow> nat \<Rightarrow> nat \<Rightarrow> 'a mq \<Rightarrow> 'a mq" where
  "destroy_from cap i 0 q = q"
| "destroy_from cap i (Suc n) q =
     destroy_from cap (wadd i 1) n
       (if q_seq q (slot_of cap i) = wadd i 1 then q\<lparr>q_data := (q_data q)(slot_of cap i := None)\<rparr> else q)"

definition mq_destroy :: "nat \<Rightarrow> 'a mq \<Rightarrow> 'a mq" where
  "mq_destroy cap q = destroy_from cap (q_head q) (wsub (q_tail q) (q_head q)) q"

end
