(* ===== verification/Threads.thy ===== *)
theory Threads
  imports MpmcQueue
begin

text \<open>
  What the proofs about the concurrent containers share: places of a ring of \<open>cap\<close> slots, and the
  union of what the threads of a program own, by the points they have reached.
\<close>

subsection \<open>Places and slots\<close>

lemma mod_Suc_neq: "2 \<le> cap \<Longrightarrow> (x + 1) mod cap \<noteq> x mod (cap::nat)"
  using mod_eq_close [of x cap "x + 1"] by auto

lemma slot_mod: "pow2 cap \<Longrightarrow> slot_of cap p = p mod cap"
  using pow2_and by (simp add: slot_of_def)

text \<open>The slots of a run of places.\<close>

definition live :: "nat \<Rightarrow> nat \<Rightarrow> nat \<Rightarrow> nat set" where
  "live cap a b = (\<lambda>p. p mod cap) ` {a..<b}"

lemma live_mem: "p mod cap \<in> live cap a b \<longleftrightarrow> (\<exists>p'. a \<le> p' \<and> p' < b \<and> p' mod cap = p mod cap)"
  unfolding live_def image_iff by (metis atLeastLessThan_iff)

lemma live_empty [simp]: "live cap a a = {}"
  by (simp add: live_def)

lemma live_first: "a < b \<Longrightarrow> live cap a b = insert (a mod cap) (live cap (a + 1) b)"
  using ivl_disj_un_singleton(3) [of a b] by (auto simp: live_def image_iff Bex_def Suc_le_eq) (metis le_neq_implies_less)

lemma live_last: "a \<le> b \<Longrightarrow> live cap a (b + 1) = insert (b mod cap) (live cap a b)"
  by (simp add: live_def atLeastLessThanSuc)

lemma live_join: "a \<le> b \<Longrightarrow> b \<le> c \<Longrightarrow> live cap a c = live cap a b \<union> live cap b c"
  unfolding live_def using ivl_disj_un_two(3) [of a b c] by (metis image_Un)

lemma live_apart: "b \<le> a + cap \<Longrightarrow> a mod cap \<notin> live cap (a + 1) b"
proof
  assume b: "b \<le> a + cap" and "a mod cap \<in> live cap (a + 1) b"
  then obtain p where "a + 1 \<le> p" "p < b" "p mod cap = a mod cap" unfolding live_mem by blast
  then show False using mod_eq_close [of a cap p] b by auto
qed

lemma live_apart_last: "b < a + cap \<Longrightarrow> b mod cap \<notin> live cap a b"
proof
  assume b: "b < a + cap" and "b mod cap \<in> live cap a b"
  then obtain p where "a \<le> p" "p < b" "p mod cap = b mod cap" unfolding live_mem by blast
  then show False using mod_eq_close [of p cap b] b by auto
qed

lemma live_disjoint: "c \<le> a + cap \<Longrightarrow> live cap a b \<inter> live cap b c = {}"
proof (rule ccontr)
  assume c: "c \<le> a + cap" and "live cap a b \<inter> live cap b c \<noteq> {}"
  then obtain p p' where p: "a \<le> p" "p < b" "b \<le> p'" "p' < c" "p mod cap = p' mod cap" unfolding live_def by auto
  then show False using mod_eq_close [of p cap p'] c by linarith
qed

lemma live_less: "0 < cap \<Longrightarrow> s \<in> live cap a b \<Longrightarrow> s < cap"
  by (auto simp: live_def)

lemma not_live:
  assumes "c \<le> a + cap" "b \<le> p" "p < c"
  shows "p mod cap \<notin> live cap a b"
proof
  assume "p mod cap \<in> live cap a b"
  then obtain p' where "a \<le> p'" "p' < b" "p' mod cap = p mod cap" unfolding live_mem by blast
  then show False using mod_eq_close [of p' cap p] assms by linarith
qed

subsection \<open>What threads own\<close>

definition rest :: "('p \<Rightarrow> 'b set) \<Rightarrow> (nat \<Rightarrow> 'p) \<Rightarrow> nat \<Rightarrow> 'b set" where
  "rest f P t = (\<Union>t' \<in> - {t}. f (P t'))"

definition of_all :: "('p \<Rightarrow> 'b set) \<Rightarrow> (nat \<Rightarrow> 'p) \<Rightarrow> 'b set" where
  "of_all f P = (\<Union>t. f (P t))"

lemma of_all_rest: "of_all f P = f (P t) \<union> rest f P t"
  by (auto simp: of_all_def rest_def)

lemma of_all_upd: "of_all f (P(t := pc)) = f pc \<union> rest f P t"
  by (auto simp: of_all_def rest_def split: if_splits)

end
