(* ===== verification/MpmcInv.thy ===== *)
theory MpmcInv
  imports Threads
begin

text \<open>
  The invariant of the queue. A place is a number, its slot the remainder; the places that slots
  currently stand for are the last \<open>cap\<close> reserved ones, \<open>window\<close>. \<open>E\<close> are the places reserved by
  enqueuers and not yet published, \<open>B\<close> those of them whose object is built; \<open>D\<close> the places acquired
  by dequeuers and not given back, \<open>K\<close> those of them whose object is moved out.
\<close>

definition window :: "nat \<Rightarrow> 'a mq \<Rightarrow> nat \<Rightarrow> bool" where
  "window cap q p \<longleftrightarrow> p < q_tail q \<and> q_tail q \<le> p + cap"

definition seq_val :: "nat \<Rightarrow> 'a mq \<Rightarrow> nat set \<Rightarrow> nat set \<Rightarrow> nat \<Rightarrow> nat" where
  "seq_val cap q E D p = (if p < q_head q then if p \<in> D then p + 1 else p + cap else if p \<in> E then p else p + 1)"

definition data_val :: "'a mq \<Rightarrow> nat set \<Rightarrow> nat set \<Rightarrow> nat set \<Rightarrow> nat set \<Rightarrow> nat \<Rightarrow> 'a option" where
  "data_val q E B D K p =
     (if if p < q_head q then p \<in> D \<and> p \<notin> K else p \<in> E \<longrightarrow> p \<in> B then Some (q_hist q ! p) else None)"

definition core :: "nat \<Rightarrow> 'a mq \<Rightarrow> nat set \<Rightarrow> nat set \<Rightarrow> nat set \<Rightarrow> nat set \<Rightarrow> bool" where
  "core cap q E B D K \<longleftrightarrow> q_tail q = length (q_hist q) \<and> q_head q \<le> q_tail q \<and> q_tail q \<le> q_head q + cap
     \<and> (\<forall>p \<in> E. q_head q \<le> p \<and> p < q_tail q) \<and> (\<forall>p \<in> D. p < q_head q \<and> q_tail q \<le> p + cap) \<and> B \<subseteq> E \<and> K \<subseteq> D
     \<and> (\<forall>p. window cap q p \<longrightarrow> q_seq q (p mod cap) = seq_val cap q E D p \<and> q_data q (p mod cap) = data_val q E B D K p)
     \<and> (\<forall>i < cap. q_tail q \<le> i \<longrightarrow> q_seq q i = i \<and> q_data q i = None)
     \<and> (\<forall>p. q_got q p = (if p < q_head q \<and> (p \<in> D \<longrightarrow> p \<in> K) then Some (q_hist q ! p) else None))"

subsection \<open>Slots and places\<close>

lemma window_unique: "window cap q p \<Longrightarrow> window cap q p' \<Longrightarrow> p mod cap = p' mod cap \<Longrightarrow> p = p'"
  using mod_eq_close [of p cap p'] mod_eq_close [of p' cap p] unfolding window_def by (cases "p \<le> p'") auto

lemma slot_cases:
  assumes "0 < cap"
  obtains (fresh) "q_tail q \<le> x mod cap" | (used) p where "window cap q p" "p mod cap = x mod cap"
proof (cases "q_tail q \<le> x mod cap")
  case False
  let ?i = "x mod cap"
  define d where "d = (q_tail q - 1 - ?i) div cap"
  have "cap * d \<le> q_tail q - 1 - ?i" "q_tail q - 1 - ?i < cap * d + cap"
    using assms unfolding d_def by (simp_all add: dividend_less_times_div) (metis add.commute dividend_less_times_div mult_Suc_right)
  then have "window cap q (?i + cap * d)" using False unfolding window_def by linarith
  moreover have "(?i + cap * d) mod cap = ?i" by simp
  ultimately show thesis by (rule used)
qed

text \<open>What a sequence number says about a place.\<close>

lemma seq_full:
  assumes "core cap q E B D K" "2 \<le> cap" "q_seq q (x mod cap) = x + 1"
  shows "window cap q x" "q_head q \<le> x \<Longrightarrow> x \<notin> E"
proof -
  have *: "window cap q x \<and> (q_head q \<le> x \<longrightarrow> x \<notin> E)"
  proof (rule slot_cases [of cap q x])
    assume "q_tail q \<le> x mod cap"
    then have "q_seq q (x mod cap) = x mod cap" using assms(1,2) by (simp add: core_def)
    then have "x mod cap = x + 1" using assms(3) by simp
    then show ?thesis using mod_less_eq_dividend [of x cap] by linarith
  next
    fix p assume p: "window cap q p" "p mod cap = x mod cap"
    have v: "seq_val cap q E D p = x + 1" using assms(1,3) p unfolding core_def by metis
    have "p \<noteq> x + 1" using mod_Suc_neq [OF assms(2), of x] p(2) by auto
    moreover have "p + cap \<noteq> x + 1"
      using mod_Suc_neq [OF assms(2), of x] p(2) by (metis mod_add_self2)
    ultimately have "p = x" "p < q_head q \<or> p \<notin> E" using v by (auto simp: seq_val_def split: if_splits)
    then show ?thesis using p by auto
  qed (use assms(2) in simp)
  then show "window cap q x" "q_head q \<le> x \<Longrightarrow> x \<notin> E" by auto
qed

lemma seq_free:
  assumes "core cap q E B D K" "2 \<le> cap" "q_seq q (x mod cap) = x" "q_tail q \<le> x"
  shows "q_data q (x mod cap) = None"
    "window cap q p \<Longrightarrow> p mod cap = x mod cap \<Longrightarrow> p + cap = x \<and> p < q_head q \<and> p \<notin> D"
proof -
  have *: "q_data q (x mod cap) = None \<and> (\<forall>p. window cap q p \<and> p mod cap = x mod cap \<longrightarrow> p + cap = x \<and> p < q_head q \<and> p \<notin> D)"
  proof (rule slot_cases [of cap q x])
    assume f: "q_tail q \<le> x mod cap"
    have "p mod cap \<noteq> x mod cap" if "window cap q p" for p
    proof -
      have "p mod cap \<le> p" by simp
      then show ?thesis using that f unfolding window_def by linarith
    qed
    then show ?thesis using assms(1,2) f by (auto simp: core_def)
  next
    fix p assume p: "window cap q p" "p mod cap = x mod cap"
    have v: "seq_val cap q E D p = x" "q_data q (x mod cap) = data_val q E B D K p"
      using assms(1,3) p unfolding core_def by metis+
    have "p + 1 \<noteq> x" using mod_Suc_neq [OF assms(2), of p] p(2) by auto
    moreover have "p \<noteq> x" using p(1) assms(4) by (simp add: window_def)
    ultimately have "p + cap = x" "p < q_head q" "p \<notin> D" using v(1) by (auto simp: seq_val_def split: if_splits)
    moreover have "p' = p" if "window cap q p'" "p' mod cap = x mod cap" for p'
      using window_unique [OF that(1) p(1)] that(2) p(2) by simp
    ultimately show ?thesis using v(2) by (auto simp: data_val_def)
  qed (use assms(2) in simp)
  then show "q_data q (x mod cap) = None"
    "window cap q p \<Longrightarrow> p mod cap = x mod cap \<Longrightarrow> p + cap = x \<and> p < q_head q \<and> p \<notin> D" by auto
qed

subsection \<open>The steps on the shared state\<close>

text \<open>What the other threads rely on: what they saw stays so while the counter stays.\<close>

definition evolves :: "nat \<Rightarrow> 'a mq \<Rightarrow> 'a mq \<Rightarrow> bool" where
  "evolves cap q q' \<longleftrightarrow> q_tail q \<le> q_tail q' \<and> q_head q \<le> q_head q' \<and> (\<exists>ws. q_hist q' = q_hist q @ ws)
     \<and> (q_tail q' = q_tail q \<longrightarrow> (\<forall>x. q_tail q \<le> x \<and> q_seq q (x mod cap) = x \<longrightarrow> q_seq q' (x mod cap) = x))
     \<and> (q_head q' = q_head q \<longrightarrow> (\<forall>x. q_head q \<le> x \<and> q_seq q (x mod cap) = x + 1 \<longrightarrow> q_seq q' (x mod cap) = x + 1))"

lemma evolves_refl: "evolves cap q q"
  by (simp add: evolves_def)

lemma core_reserve:
  assumes c: "core cap q E B D K" and cap: "2 \<le> cap" and n: "n \<le> cap" "0 < n" "length vs = n"
    and free: "\<forall>j < n. q_seq q ((q_tail q + j) mod cap) = q_tail q + j"
    and q': "q' = q\<lparr>q_tail := q_tail q + n, q_hist := q_hist q @ vs\<rparr>"
  shows "core cap q' (E \<union> {q_tail q..<q_tail q + n}) B D K" "evolves cap q q'"
proof -
  have fr: "q_data q (x mod cap) = None" "window cap q p \<Longrightarrow> p mod cap = x mod cap \<Longrightarrow> p + cap = x \<and> p < q_head q \<and> p \<notin> D"
    "q_seq q (x mod cap) = x" if "q_tail q \<le> x" "x < q_tail q + n" for x p
  proof -
    have "q_seq q (x mod cap) = x" using free [rule_format, of "x - q_tail q"] that by simp
    from this that(1) show "q_seq q (x mod cap) = x" "q_data q (x mod cap) = None"
      "window cap q p \<Longrightarrow> p mod cap = x mod cap \<Longrightarrow> p + cap = x \<and> p < q_head q \<and> p \<notin> D"
      using seq_free [OF c cap] by blast+
  qed
  have old: "p < q_head q \<and> p \<notin> D" if "p < q_tail q" "q_tail q \<le> p + cap" "p + cap < q_tail q + n" for p
    using fr(2) [of "p + cap" p] that by (simp add: window_def)
  have C: "q_tail q = length (q_hist q)" "q_head q \<le> q_tail q" "q_tail q \<le> q_head q + cap"
    "\<And>p. p \<in> E \<Longrightarrow> q_head q \<le> p \<and> p < q_tail q" "\<And>p. p \<in> D \<Longrightarrow> p < q_head q \<and> q_tail q \<le> p + cap" "B \<subseteq> E" "K \<subseteq> D"
    "\<And>p. window cap q p \<Longrightarrow> q_seq q (p mod cap) = seq_val cap q E D p \<and> q_data q (p mod cap) = data_val q E B D K p"
    "\<And>i. i < cap \<Longrightarrow> q_tail q \<le> i \<Longrightarrow> q_seq q i = i \<and> q_data q i = None"
    "\<And>p. q_got q p = (if p < q_head q \<and> (p \<in> D \<longrightarrow> p \<in> K) then Some (q_hist q ! p) else None)"
    using c unfolding core_def by blast+
  have room: "q_tail q + n \<le> q_head q + cap"
  proof (rule ccontr)
    assume a: "\<not> q_tail q + n \<le> q_head q + cap"
    have "q_head q < q_head q" using old [of "q_head q"] a C(1-3) n by (cases "q_head q < q_tail q") auto
    then show False by simp
  qed
  have D: "q_tail q + n \<le> p + cap" if "p \<in> D" for p
  proof (rule ccontr)
    assume "\<not> q_tail q + n \<le> p + cap"
    then show False using old [of p] C(5) [OF that] C(2) that by auto
  qed
  let ?E = "E \<union> {q_tail q..<q_tail q + n}"
  have "q_seq q (p mod cap) = seq_val cap q' ?E D p \<and> q_data q (p mod cap) = data_val q' ?E B D K p" if p: "window cap q' p" for p
  proof (cases "p < q_tail q")
    case True
    then have "window cap q p" using p by (simp add: window_def q')
    then show ?thesis using C(8) [of p] True C(1) by (auto simp: seq_val_def data_val_def q' nth_append)
  next
    case False
    then have b: "q_tail q \<le> p" "p < q_tail q + n" using p by (simp_all add: window_def q')
    have "p \<notin> E" using C(4) [of p] b(1) by auto
    then have "p \<notin> B" "q_head q \<le> p" using C(2,6) b(1) by auto
    then show ?thesis using fr(1,3) [OF b] b by (auto simp: seq_val_def data_val_def q')
  qed
  moreover have "q_got q p = (if p < q_head q \<and> (p \<in> D \<longrightarrow> p \<in> K) then Some (q_hist q' ! p) else None)" for p
    using C(1,2,10) by (auto simp: q' nth_append)
  moreover have "q_head q \<le> p \<and> p < q_tail q + n" if "p \<in> ?E" for p using C(4) [of p] C(2) that by auto
  moreover have "p < q_head q \<and> q_tail q + n \<le> p + cap" if "p \<in> D" for p using C(5) [OF that] D [OF that] by blast
  moreover have "q_seq q i = i \<and> q_data q i = None" if "i < cap" "q_tail q + n \<le> i" for i using C(9) [of i] that by simp
  moreover have "B \<subseteq> ?E" "q_tail q + n = length (q_hist q @ vs)" "q_head q \<le> q_tail q + n" using C(1,2,6) n by auto
  moreover have f: "q_tail q' = q_tail q + n" "q_head q' = q_head q" "q_hist q' = q_hist q @ vs" "q_seq q' = q_seq q" "q_data q' = q_data q"
    "q_got q' = q_got q" by (simp_all add: q')
  ultimately show "core cap q' ?E B D K" using C(7) room unfolding core_def f by blast
  show "evolves cap q q'" using n by (simp add: evolves_def q')
qed

text \<open>A step on the slot of one place of the window.\<close>

lemma core_slot:
  assumes c: "core cap q E B D K" and w: "window cap q p" and sets: "B' \<subseteq> E'" "K' \<subseteq> D'" "E' \<subseteq> E" "D' \<subseteq> D"
    and same: "\<And>x. x \<noteq> p \<Longrightarrow> (x \<in> E' \<longleftrightarrow> x \<in> E) \<and> (x \<in> B' \<longleftrightarrow> x \<in> B) \<and> (x \<in> D' \<longleftrightarrow> x \<in> D) \<and> (x \<in> K' \<longleftrightarrow> x \<in> K)"
    and at: "sq = seq_val cap q E' D' p" "dt = data_val q E' B' D' K' p"
      "gt = (if p < q_head q \<and> (p \<in> D' \<longrightarrow> p \<in> K') then Some (q_hist q ! p) else None)"
    and q': "q' = q\<lparr>q_seq := (q_seq q)(p mod cap := sq), q_data := (q_data q)(p mod cap := dt), q_got := (q_got q)(p := gt)\<rparr>"
  shows "core cap q' E' B' D' K'"
proof -
  have f: "q_tail q' = q_tail q" "q_head q' = q_head q" "q_hist q' = q_hist q" "window cap q' x \<longleftrightarrow> window cap q x" for x
    by (simp_all add: q' window_def)
  have "p mod cap \<le> p" by simp
  then have fresh: "i \<noteq> p mod cap" if "q_tail q \<le> i" for i using w that unfolding window_def by linarith
  have "q_seq q' (x mod cap) = seq_val cap q' E' D' x \<and> q_data q' (x mod cap) = data_val q' E' B' D' K' x" if x: "window cap q x" for x
  proof (cases "x = p")
    case True
    then show ?thesis using at(1,2) by (simp add: q' seq_val_def data_val_def)
  next
    case False
    then have "x mod cap \<noteq> p mod cap" using window_unique [OF x w] by auto
    then show ?thesis using c x same [OF False] by (auto simp: core_def q' seq_val_def data_val_def)
  qed
  moreover have "q_got q' x = (if x < q_head q \<and> (x \<in> D' \<longrightarrow> x \<in> K') then Some (q_hist q ! x) else None)" for x
  proof (cases "x = p")
    case False
    then show ?thesis using c same [OF False] by (simp add: core_def q')
  qed (simp add: at(3) q')
  moreover have "q_seq q' i = i \<and> q_data q' i = None" if "i < cap" "q_tail q \<le> i" for i
    using c fresh [OF that(2)] that by (simp add: core_def q')
  moreover have "\<forall>p \<in> E'. q_head q \<le> p \<and> p < q_tail q" "\<forall>p \<in> D'. p < q_head q \<and> q_tail q \<le> p + cap"
    "q_tail q = length (q_hist q)" "q_head q \<le> q_tail q" "q_tail q \<le> q_head q + cap"
    using c sets(3,4) unfolding core_def by blast+
  ultimately show ?thesis using sets(1,2) unfolding core_def f by blast
qed

lemma evolves_slot:
  assumes c: "core cap q E B D K" and cap: "2 \<le> cap" and p: "p \<in> E \<or> p \<in> D"
    and q': "q' = q\<lparr>q_seq := (q_seq q)(p mod cap := sq), q_data := dt, q_got := gt\<rparr>"
  shows "evolves cap q q'"
proof -
  have w: "window cap q p" using c p unfolding core_def window_def by fastforce
  have t: "x mod cap \<noteq> p mod cap" if "q_tail q \<le> x" "q_seq q (x mod cap) = x" for x
  proof (rule not_sym, rule notI)
    assume "p mod cap = x mod cap"
    then have "p < q_head q \<and> p \<notin> D" using seq_free(2) [OF c cap that(2,1) w] by blast
    then show False using c p unfolding core_def by fastforce
  qed
  have h: "x mod cap \<noteq> p mod cap" if "q_head q \<le> x" "q_seq q (x mod cap) = x + 1" for x
  proof (rule not_sym, rule notI)
    assume "p mod cap = x mod cap"
    then have "p = x" using window_unique [OF w seq_full(1) [OF c cap that(2)]] by blast
    then show False using seq_full(2) [OF c cap that(2,1)] c p that(1) unfolding core_def by fastforce
  qed
  have "q_seq q' (x mod cap) = x" if "q_tail q \<le> x" "q_seq q (x mod cap) = x" for x
    using t [OF that] that(2) by (simp add: q')
  moreover have "q_seq q' (x mod cap) = x + 1" if "q_head q \<le> x" "q_seq q (x mod cap) = x + 1" for x
    using h [OF that] that(2) by (simp add: q')
  ultimately show ?thesis unfolding evolves_def by (simp add: q')
qed

lemma core_window:
  assumes "core cap q E B D K"
  shows "p \<in> E \<Longrightarrow> window cap q p \<and> q_head q \<le> p" "p \<in> D \<Longrightarrow> window cap q p \<and> p < q_head q"
    "p \<in> B \<Longrightarrow> p \<in> E" "p \<in> K \<Longrightarrow> p \<in> D"
  using assms unfolding core_def window_def by fastforce+

lemma core_build:
  assumes c: "core cap q E B D K" and cap: "2 \<le> cap" and p: "p \<in> E" "p \<notin> B" "q_hist q ! p = v"
    and q': "q' = q\<lparr>q_data := (q_data q)(p mod cap := Some v)\<rparr>"
  shows "core cap q' E (insert p B) D K" "evolves cap q q'" "q_data q (p mod cap) = None"
proof -
  note w = core_window(1) [OF c p(1)]
  have at: "q_seq q (p mod cap) = seq_val cap q E D p" "q_data q (p mod cap) = data_val q E B D K p"
    "q_got q p = (if p < q_head q \<and> (p \<in> D \<longrightarrow> p \<in> K) then Some (q_hist q ! p) else None)"
    using c w unfolding core_def by blast+
  have e: "q' = q\<lparr>q_seq := (q_seq q)(p mod cap := q_seq q (p mod cap)), q_data := (q_data q)(p mod cap := Some v), q_got := (q_got q)(p := q_got q p)\<rparr>"
    by (simp add: q')
  show "core cap q' E (insert p B) D K"
    by (rule core_slot [OF c conjunct1 [OF w] _ _ _ _ _ at(1) _ at(3) e])
      (use p w core_window(3,4) [OF c] in \<open>auto simp: data_val_def\<close>)
  show "evolves cap q q'" by (rule evolves_slot [OF c cap _ e]) (use p in simp)
  show "q_data q (p mod cap) = None" using at(2) p w by (simp add: data_val_def)
qed

lemma core_publish:
  assumes c: "core cap q E B D K" and cap: "2 \<le> cap" and p: "p \<in> B"
    and q': "q' = q\<lparr>q_seq := (q_seq q)(p mod cap := p + 1)\<rparr>"
  shows "core cap q' (E - {p}) (B - {p}) D K" "evolves cap q q'"
proof -
  have pE: "p \<in> E" by (rule core_window(3) [OF c p])
  note w = core_window(1) [OF c pE]
  have at: "q_data q (p mod cap) = data_val q E B D K p"
    "q_got q p = (if p < q_head q \<and> (p \<in> D \<longrightarrow> p \<in> K) then Some (q_hist q ! p) else None)"
    using c w unfolding core_def by blast+
  have e: "q' = q\<lparr>q_seq := (q_seq q)(p mod cap := p + 1), q_data := (q_data q)(p mod cap := q_data q (p mod cap)), q_got := (q_got q)(p := q_got q p)\<rparr>"
    by (simp add: q')
  show "core cap q' (E - {p}) (B - {p}) D K"
    by (rule core_slot [OF c conjunct1 [OF w] _ _ _ _ _ _ _ at(2) e])
      (use p w core_window(3,4) [OF c] at(1) in \<open>auto simp: data_val_def seq_val_def\<close>)
  show "evolves cap q q'" by (rule evolves_slot [OF c cap _ e]) (use pE in simp)
qed

lemma core_take:
  assumes c: "core cap q E B D K" and cap: "2 \<le> cap" and p: "p \<in> D" "p \<notin> K"
    and q': "q' = q\<lparr>q_data := (q_data q)(p mod cap := None), q_got := (q_got q)(p := q_data q (p mod cap))\<rparr>"
  shows "core cap q' E B D (insert p K)" "evolves cap q q'" "q_data q (p mod cap) = Some (q_hist q ! p)"
proof -
  note w = core_window(2) [OF c p(1)]
  have at: "q_seq q (p mod cap) = seq_val cap q E D p" "q_data q (p mod cap) = data_val q E B D K p"
    using c w unfolding core_def by blast+
  then show v: "q_data q (p mod cap) = Some (q_hist q ! p)" using p w by (simp add: data_val_def)
  have e: "q' = q\<lparr>q_seq := (q_seq q)(p mod cap := q_seq q (p mod cap)), q_data := (q_data q)(p mod cap := None), q_got := (q_got q)(p := q_data q (p mod cap))\<rparr>"
    by (simp add: q')
  show "core cap q' E B D (insert p K)"
    by (rule core_slot [OF c conjunct1 [OF w] _ _ _ _ _ at(1) _ _ e])
      (use p w v core_window(3,4) [OF c] in \<open>auto simp: data_val_def\<close>)
  show "evolves cap q q'" by (rule evolves_slot [OF c cap _ e]) (use p in simp)
qed

lemma core_release:
  assumes c: "core cap q E B D K" and cap: "2 \<le> cap" and p: "p \<in> K"
    and q': "q' = q\<lparr>q_seq := (q_seq q)(p mod cap := p + cap)\<rparr>"
  shows "core cap q' E B (D - {p}) (K - {p})" "evolves cap q q'"
proof -
  have pD: "p \<in> D" by (rule core_window(4) [OF c p])
  note w = core_window(2) [OF c pD]
  have at: "q_data q (p mod cap) = data_val q E B D K p"
    "q_got q p = (if p < q_head q \<and> (p \<in> D \<longrightarrow> p \<in> K) then Some (q_hist q ! p) else None)"
    using c w unfolding core_def by blast+
  have e: "q' = q\<lparr>q_seq := (q_seq q)(p mod cap := p + cap), q_data := (q_data q)(p mod cap := q_data q (p mod cap)), q_got := (q_got q)(p := q_got q p)\<rparr>"
    by (simp add: q')
  show "core cap q' E B (D - {p}) (K - {p})"
    by (rule core_slot [OF c conjunct1 [OF w] _ _ _ _ _ _ _ _ e])
      (use p w core_window(3,4) [OF c] at in \<open>auto simp: data_val_def seq_val_def\<close>)
  show "evolves cap q q'" by (rule evolves_slot [OF c cap _ e]) (use pD in simp)
qed

lemma core_acquire:
  assumes c: "core cap q E B D K" and cap: "2 \<le> cap" and n: "0 < n"
    and full: "\<forall>j < n. q_seq q ((q_head q + j) mod cap) = q_head q + j + 1"
    and q': "q' = q\<lparr>q_head := q_head q + n\<rparr>"
  shows "core cap q' E B (D \<union> {q_head q..<q_head q + n}) K" "evolves cap q q'" "q_head q + n \<le> q_tail q"
proof -
  have fl: "window cap q x \<and> x \<notin> E" if "q_head q \<le> x" "x < q_head q + n" for x
    using seq_full [OF c cap, of x] full [rule_format, of "x - q_head q"] that by simp
  show le: "q_head q + n \<le> q_tail q" 
  proof -
    have "q_head q \<le> q_head q + n - 1" "q_head q + n - 1 < q_head q + n" using n by simp_all
    from fl [OF this] have "q_head q + n - 1 < q_tail q" by (simp add: window_def)
    then show ?thesis using n by linarith
  qed
  let ?D = "D \<union> {q_head q..<q_head q + n}"
  have C: "q_tail q = length (q_hist q)" "q_head q \<le> q_tail q" "q_tail q \<le> q_head q + cap"
    "\<And>p. p \<in> E \<Longrightarrow> q_head q \<le> p \<and> p < q_tail q" "\<And>p. p \<in> D \<Longrightarrow> p < q_head q \<and> q_tail q \<le> p + cap" "B \<subseteq> E" "K \<subseteq> D"
    "\<And>p. window cap q p \<Longrightarrow> q_seq q (p mod cap) = seq_val cap q E D p \<and> q_data q (p mod cap) = data_val q E B D K p"
    "\<And>i. i < cap \<Longrightarrow> q_tail q \<le> i \<Longrightarrow> q_seq q i = i \<and> q_data q i = None"
    "\<And>p. q_got q p = (if p < q_head q \<and> (p \<in> D \<longrightarrow> p \<in> K) then Some (q_hist q ! p) else None)"
    using c unfolding core_def by blast+
  have nK: "p \<notin> K" if "q_head q \<le> p" for p using C(5,7) that by fastforce
  have E: "q_head q + n \<le> p" if "p \<in> E" for p using fl [of p] C(4) [OF that] that by (meson not_le)
  have "q_seq q (p mod cap) = seq_val cap q' E ?D p \<and> q_data q (p mod cap) = data_val q' E B ?D K p" if p: "window cap q p" for p
    using C(8) [OF p] fl [of p] nK [of p] by (auto simp: seq_val_def data_val_def q')
  moreover have "q_got q p = (if p < q_head q + n \<and> (p \<in> ?D \<longrightarrow> p \<in> K) then Some (q_hist q ! p) else None)" for p
    using C(10) nK [of p] by auto
  moreover have "p < q_head q + n \<and> q_tail q \<le> p + cap" if "p \<in> ?D" for p using C(3) C(5) [of p] that by auto
  moreover have "q_head q + n \<le> p \<and> p < q_tail q" if "p \<in> E" for p using E [OF that] C(4) [OF that] by blast
  moreover have "K \<subseteq> ?D" "q_tail q \<le> q_head q + n + cap" using C(3,7) by auto
  moreover have f: "q_tail q' = q_tail q" "q_head q' = q_head q + n" "q_hist q' = q_hist q" "q_seq q' = q_seq q" "q_data q' = q_data q"
    "q_got q' = q_got q" "window cap q' x \<longleftrightarrow> window cap q x" for x by (simp_all add: q' window_def)
  ultimately show "core cap q' E B ?D K" using C(1,6,9) le unfolding core_def f by blast
  show "evolves cap q q'" using n by (simp add: evolves_def q')
qed

end
