(* ===== verification/MpmcProps.thy ===== *)
theory MpmcProps
  imports MpmcInv
begin

text \<open>
  Threads of the lock-free queue: what a thread inside a call owns and has seen, the invariant of
  all interleavings, and the properties of the queue.
\<close>

fun e_own :: "'a pc \<Rightarrow> nat set" where
  "e_own (EFill vs t i) = {t + i..<t + length vs}"
| "e_own (EPub vs t i) = {t + i..<t + length vs}"
| "e_own _ = {}"

fun e_built :: "'a pc \<Rightarrow> nat set" where
  "e_built (EPub vs t i) = {t + i}"
| "e_built _ = {}"

fun d_own :: "'a pc \<Rightarrow> nat set" where
  "d_own (DTake h n i out) = {h + i..<h + n}"
| "d_own (DRel h n i out) = {h + i..<h + n}"
| "d_own _ = {}"

fun d_took :: "'a pc \<Rightarrow> nat set" where
  "d_took (DRel h n i out) = {h + i}"
| "d_took _ = {}"

definition seen_free :: "nat \<Rightarrow> 'a mq \<Rightarrow> nat \<Rightarrow> nat \<Rightarrow> bool" where
  "seen_free cap q t i \<longleftrightarrow> t \<le> q_tail q \<and> (t = q_tail q \<longrightarrow> (\<forall>j < i. q_seq q ((t + j) mod cap) = t + j))"

definition seen_full :: "nat \<Rightarrow> 'a mq \<Rightarrow> nat \<Rightarrow> nat \<Rightarrow> bool" where
  "seen_full cap q h i \<longleftrightarrow> h \<le> q_head q \<and> h + i \<le> q_tail q
     \<and> (h = q_head q \<longrightarrow> (\<forall>j < i. q_seq q ((h + j) mod cap) = h + j + 1))"

definition reserved :: "'a mq \<Rightarrow> 'a list \<Rightarrow> nat \<Rightarrow> bool" where
  "reserved q vs t \<longleftrightarrow> t + length vs \<le> q_tail q \<and> (\<forall>j < length vs. q_hist q ! (t + j) = vs ! j)"

definition taken :: "'a mq \<Rightarrow> nat \<Rightarrow> nat \<Rightarrow> 'a option list" where
  "taken q h n = map (\<lambda>p. Some (q_hist q ! p)) [h..<h + n]"

fun pc_ok :: "nat \<Rightarrow> 'a mq \<Rightarrow> 'a pc \<Rightarrow> bool" where
  "pc_ok cap q Idle = True"
| "pc_ok cap q (EOne v t) = (t \<le> q_tail q)"
| "pc_ok cap q (EScan vs t i) = (vs \<noteq> [] \<and> i \<le> length vs \<and> i \<le> cap \<and> seen_free cap q t i)"
| "pc_ok cap q (ERecheck vs t) = (vs \<noteq> [] \<and> t \<le> q_tail q)"
| "pc_ok cap q (ECas bulk vs t n) = (0 < n \<and> n \<le> length vs \<and> n \<le> cap \<and> seen_free cap q t n)"
| "pc_ok cap q (EFill vs t i) = (vs \<noteq> [] \<and> i \<le> length vs \<and> reserved q vs t)"
| "pc_ok cap q (EPub vs t i) = (i < length vs \<and> reserved q vs t)"
| "pc_ok cap q (ERet n) = True"
| "pc_ok cap q (DOne h) = (h \<le> q_head q)"
| "pc_ok cap q (DScan m h i) = seen_full cap q h i"
| "pc_ok cap q (DRecheck m h) = (h \<le> q_head q)"
| "pc_ok cap q (DCas bulk m h n) = (0 < n \<and> seen_full cap q h n)"
| "pc_ok cap q (DTake h n i out) = (0 < n \<and> i \<le> n \<and> h + n \<le> q_head q \<and> out = taken q h i)"
| "pc_ok cap q (DRel h n i out) = (i < n \<and> h + n \<le> q_head q \<and> out = taken q h (i + 1))"
| "pc_ok cap q (DRet out) = (\<exists>h. h + length out \<le> q_head q \<and> out = taken q h (length out))"

definition mq_inv :: "nat \<Rightarrow> 'a mq \<Rightarrow> (nat \<Rightarrow> 'a pc) \<Rightarrow> bool" where
  "mq_inv cap q P \<longleftrightarrow> core cap q (of_all e_own P) (of_all e_built P) (of_all d_own P) (of_all d_took P)
     \<and> (\<forall>t t'. t \<noteq> t' \<longrightarrow> e_own (P t) \<inter> e_own (P t') = {} \<and> d_own (P t) \<inter> d_own (P t') = {}) \<and> (\<forall>t. pc_ok cap q (P t))"

subsection \<open>What a thread relies on\<close>

lemma taken_evolves:
  assumes "core cap q E B D K" "evolves cap q q'" "h + n \<le> q_tail q"
  shows "taken q' h n = taken q h n"
  using assms by (auto simp: taken_def evolves_def core_def nth_append)

lemma pc_ok_evolves:
  assumes c: "core cap q E B D K" and ev: "evolves cap q q'" and ok: "pc_ok cap q pc"
  shows "pc_ok cap q' pc"
proof -
  have t: "q_tail q \<le> q_tail q'" and h: "q_head q \<le> q_head q'" and ht: "q_head q \<le> q_tail q" and l: "q_tail q = length (q_hist q)"
    using ev c by (simp_all add: evolves_def core_def)
  have sf: "seen_free cap q' u i" if "seen_free cap q u i" for u i
  proof -
    have "q_seq q' ((u + j) mod cap) = u + j" if "u = q_tail q'" "j < i" for j
    proof -
      have e: "u = q_tail q" "q_tail q' = q_tail q" using that(1) t \<open>seen_free cap q u i\<close> by (simp_all add: seen_free_def)
      then show ?thesis using ev \<open>seen_free cap q u i\<close> that(2) unfolding seen_free_def evolves_def by simp
    qed
    then show ?thesis using that t by (simp add: seen_free_def)
  qed
  have sg: "seen_full cap q' u i" if "seen_full cap q u i" for u i
  proof -
    have "q_seq q' ((u + j) mod cap) = u + j + 1" if "u = q_head q'" "j < i" for j
    proof -
      have e: "u = q_head q" "q_head q' = q_head q" using that(1) h \<open>seen_full cap q u i\<close> by (simp_all add: seen_full_def)
      then show ?thesis using ev \<open>seen_full cap q u i\<close> that(2) unfolding seen_full_def evolves_def by simp
    qed
    then show ?thesis using that t h by (simp add: seen_full_def)
  qed
  have r: "reserved q' vs u" if "reserved q vs u" for vs u
    using that ev t l by (auto simp: reserved_def evolves_def nth_append)
  have tk: "taken q' u n = taken q u n" if "u + n \<le> q_head q" for u n
    using taken_evolves [OF c ev] that ht by simp
  show ?thesis
  proof (cases pc)
    case (DRet out)
    then obtain u where "u + length out \<le> q_head q" "out = taken q u (length out)" using ok by auto
    then show ?thesis using DRet h tk by (auto intro!: exI [of _ u])
  qed (use ok t h sf sg r tk in auto)
qed

lemma mq_inv_step:
  assumes inv: "mq_inv cap q P" and ev: "evolves cap q q'" and pc: "pc_ok cap q' pc"
    and core: "core cap q' (e_own pc \<union> rest e_own P t) (e_built pc \<union> rest e_built P t) (d_own pc \<union> rest d_own P t) (d_took pc \<union> rest d_took P t)"
    and dj: "e_own pc \<inter> rest e_own P t = {}" "d_own pc \<inter> rest d_own P t = {}"
  shows "mq_inv cap q' (P(t := pc))"
proof -
  have "pc_ok cap q' ((P(t := pc)) t')" for t'
    using pc pc_ok_evolves [OF _ ev] inv unfolding mq_inv_def by (cases "t' = t") auto
  moreover have "e_own ((P(t := pc)) a) \<inter> e_own ((P(t := pc)) b) = {} \<and> d_own ((P(t := pc)) a) \<inter> d_own ((P(t := pc)) b) = {}"
    if "a \<noteq> b" for a b
  proof -
    have new: "e_own pc \<inter> e_own (P x) = {} \<and> d_own pc \<inter> d_own (P x) = {}" if "x \<noteq> t" for x
      using dj that unfolding rest_def by blast
    have old: "e_own (P a) \<inter> e_own (P b) = {} \<and> d_own (P a) \<inter> d_own (P b) = {}" using inv that by (simp add: mq_inv_def)
    show ?thesis
      using new [of a] new [of b] old that by (cases "a = t"; cases "b = t") (simp_all add: Int_commute)
  qed
  ultimately show ?thesis using core unfolding mq_inv_def of_all_upd by blast
qed

lemma mq_inv_apart:
  assumes "mq_inv cap q P"
  shows "e_own (P t) \<inter> rest e_own P t = {}" "d_own (P t) \<inter> rest d_own P t = {}"
  using assms unfolding mq_inv_def rest_def by blast+

text \<open>A step that only reads.\<close>

lemma mq_inv_read:
  assumes inv: "mq_inv cap q P" and pc: "pc_ok cap q pc"
    and own: "e_own pc = e_own (P t)" "d_own pc = d_own (P t)" "e_built pc = e_built (P t)" "d_took pc = d_took (P t)"
  shows "mq_inv cap q (P(t := pc))"
proof (rule mq_inv_step [OF inv evolves_refl pc])
  show "core cap q (e_own pc \<union> rest e_own P t) (e_built pc \<union> rest e_built P t) (d_own pc \<union> rest d_own P t) (d_took pc \<union> rest d_took P t)"
    using inv unfolding mq_inv_def own of_all_rest [of _ _ t] by simp
qed (unfold own; rule mq_inv_apart [OF inv])+

subsection \<open>Every step keeps the invariant\<close>

lemma built_own: "pc_ok cap q pc \<Longrightarrow> e_built pc \<subseteq> e_own pc" "pc_ok cap q pc \<Longrightarrow> d_took pc \<subseteq> d_own pc"
  by (cases pc; auto)+

lemma mq_inv_own:
  assumes inv: "mq_inv cap q P"
  shows "rest e_built P t \<subseteq> rest e_own P t" "rest d_took P t \<subseteq> rest d_own P t"
    "core cap q (e_own (P t) \<union> rest e_own P t) (e_built (P t) \<union> rest e_built P t) (d_own (P t) \<union> rest d_own P t) (d_took (P t) \<union> rest d_took P t)"
    "pc_ok cap q (P t)"
proof -
  have ok: "pc_ok cap q (P x)" for x using inv by (simp add: mq_inv_def)
  show "rest e_built P t \<subseteq> rest e_own P t" "rest d_took P t \<subseteq> rest d_own P t"
    using built_own [OF ok] unfolding rest_def by blast+
  show "pc_ok cap q (P t)" by (rule ok)
qed (use inv in \<open>unfold mq_inv_def of_all_rest [of _ _ t], blast\<close>)

lemma step_ECas:
  assumes cap: "pow2 cap" "2 \<le> cap" and inv: "mq_inv cap q P" and pc: "P t = ECas bulk vs tail n" and bd: "length (q_hist q') + cap < W64"
    and st: "tail_cas weak bulk vs tail n q = (pc', q')"
  shows "mq_inv cap q' (P(t := pc'))"
proof -
  note o = mq_inv_own [OF inv, of t] and ap = mq_inv_apart [OF inv, of t]
  have ok: "0 < n" "n \<le> length vs" "n \<le> cap" "seen_free cap q tail n" using o(4) pc by simp_all
  have c: "core cap q (rest e_own P t) (rest e_built P t) (rest d_own P t) (rest d_took P t)" using o(3) pc by simp
  have ln: "q_tail q = length (q_hist q)" using c by (simp add: core_def)
  show ?thesis
  proof (cases "q_tail q = tail \<and> \<not> weak")
    case True
    have q0: "q' = q\<lparr>q_tail := wadd tail n, q_hist := q_hist q @ take n vs\<rparr>" and pc': "pc' = EFill (take n vs) tail 0"
      using st True by (simp_all add: tail_cas_def)
    have w: "wadd tail n = q_tail q + n" using bd ln ok(2) True unfolding q0 by (intro trans [OF wadd_small]) simp_all
    have fr: "\<forall>j < n. q_seq q ((q_tail q + j) mod cap) = q_tail q + j" using ok(4) True by (simp add: seen_free_def)
    have len: "length (take n vs) = n" using ok(2) by simp
    note r = core_reserve [OF c cap(2) ok(3,1) len fr q0 [unfolded w]]
    have lt: "p < q_tail q" if "p \<in> rest e_own P t" for p using c that unfolding core_def by blast
    show ?thesis unfolding pc'
    proof (rule mq_inv_step [OF inv r(2)])
      show "pc_ok cap q' (EFill (take n vs) tail 0)" using True len ln w ok(1,2) by (auto simp: reserved_def q0 nth_append)
      show "core cap q' (e_own (EFill (take n vs) tail 0) \<union> rest e_own P t) (e_built (EFill (take n vs) tail 0) \<union> rest e_built P t)
          (d_own (EFill (take n vs) tail 0) \<union> rest d_own P t) (d_took (EFill (take n vs) tail 0) \<union> rest d_took P t)"
        using r(1) True len by (simp add: Un_commute)
      show "e_own (EFill (take n vs) tail 0) \<inter> rest e_own P t = {}" using lt True by fastforce
    qed simp
  next
    case False
    then have q0: "q' = q" and pc': "pc' = (if bulk then EScan vs (q_tail q) 0 else EOne (hd vs) (q_tail q))"
      using st by (auto simp: tail_cas_def)
    have "vs \<noteq> []" using ok(1,2) by auto
    then show ?thesis unfolding q0 pc' by (intro mq_inv_read [OF inv]) (simp_all add: pc seen_free_def)
  qed
qed

lemma step_EFill:
  assumes cap: "pow2 cap" "2 \<le> cap" and inv: "mq_inv cap q P" and pc: "P t = EFill vs tail i" and bd: "length (q_hist q') + cap < W64"
    and st: "construct cap vs tail i q = (pc', q')"
  shows "mq_inv cap q' (P(t := pc'))" "i < length vs \<Longrightarrow> q_data q (slot_of cap (tail + i)) = None"
proof -
  note o = mq_inv_own [OF inv, of t] and ap = mq_inv_apart [OF inv, of t]
  have ok: "i \<le> length vs" "reserved q vs tail" "vs \<noteq> []" using o(4) pc by simp_all
  have c: "core cap q ({tail + i..<tail + length vs} \<union> rest e_own P t) (rest e_built P t) (rest d_own P t) (rest d_took P t)"
    using o(3) pc by simp
  have *: "mq_inv cap q' (P(t := pc')) \<and> (i < length vs \<longrightarrow> q_data q (slot_of cap (tail + i)) = None)"
  proof (cases "i < length vs")
    case True
    have ln: "q_tail q = length (q_hist q)" using c by (simp add: core_def)
    have h: "q_hist q' = q_hist q" using st True by (auto simp: construct_def)
    have "wadd tail i = tail + i"
      using ok(2) True ln bd unfolding h by (intro wadd_small) (simp add: reserved_def)
    then have q': "q' = q\<lparr>q_data := (q_data q)((tail + i) mod cap := Some (vs ! i))\<rparr>" and pc': "pc' = EPub vs tail i"
      using st True by (simp_all add: construct_def slot_mod [OF cap(1)])
    have pE: "tail + i \<in> {tail + i..<tail + length vs} \<union> rest e_own P t" using True by simp
    have "tail + i \<in> e_own (P t)" using pc True by simp
    then have pB: "tail + i \<notin> rest e_built P t" using ap(1) o(1) by blast
    have hv: "q_hist q ! (tail + i) = vs ! i" using ok(2) True by (simp add: reserved_def)
    note b = core_build [OF c cap(2) pE pB hv q']
    have "pc_ok cap q' pc'" using ok True unfolding pc' q' by (simp add: reserved_def)
    then have "mq_inv cap q' (P(t := pc'))"
      by (rule mq_inv_step [OF inv b(2)]) (use b(1) ap pc in \<open>simp_all add: pc'\<close>)
    then show ?thesis using b(3) by (simp add: slot_mod [OF cap(1)])
  next
    case False
    then have q': "q' = q" and pc': "pc' = ERet (length vs)" using st by (simp_all add: construct_def)
    have "mq_inv cap q (P(t := ERet (length vs)))" by (rule mq_inv_read [OF inv]) (use pc False in simp_all)
    then show ?thesis using False unfolding q' pc' by simp
  qed
  then show "mq_inv cap q' (P(t := pc'))" "i < length vs \<Longrightarrow> q_data q (slot_of cap (tail + i)) = None" by blast+
qed

lemma step_EPub:
  assumes cap: "pow2 cap" "2 \<le> cap" and inv: "mq_inv cap q P" and pc: "P t = EPub vs tail i" and bd: "length (q_hist q') + cap < W64"
    and st: "publish cap vs tail i q = (pc', q')"
  shows "mq_inv cap q' (P(t := pc'))"
proof -
  note o = mq_inv_own [OF inv, of t] and ap = mq_inv_apart [OF inv, of t]
  have ok: "i < length vs" "reserved q vs tail" using o(4) pc by simp_all
  then have ne: "vs \<noteq> []" by auto
  have c: "core cap q ({tail + i..<tail + length vs} \<union> rest e_own P t) (insert (tail + i) (rest e_built P t)) (rest d_own P t) (rest d_took P t)"
    using o(3) pc by simp
  have ln: "q_tail q = length (q_hist q)" using c by (simp add: core_def)
  have h: "q_hist q' = q_hist q" using st by (auto simp: publish_def Let_def)
  have b: "tail + i + 1 < W64" using ok ln bd unfolding h by (simp add: reserved_def)
  have "wadd tail i = tail + i" "wadd (tail + i) 1 = tail + i + 1" using b by (simp_all add: wadd_small)
  then have q': "q' = q\<lparr>q_seq := (q_seq q)((tail + i) mod cap := tail + i + 1)\<rparr>" and pc': "pc' = EFill vs tail (i + 1)"
    using st by (simp_all add: publish_def slot_mod [OF cap(1)] Let_def)
  note b = core_publish [OF c cap(2) _ q']
  have "tail + i \<in> e_own (P t)" using pc ok(1) by simp
  then have n: "tail + i \<notin> rest e_own P t" "tail + i \<notin> rest e_built P t" using ap(1) o(1) by blast+
  have e: "({tail + i..<tail + length vs} \<union> rest e_own P t) - {tail + i} = {tail + (i + 1)..<tail + length vs} \<union> rest e_own P t"
    "insert (tail + i) (rest e_built P t) - {tail + i} = rest e_built P t" using n by auto
  show ?thesis
  proof (rule mq_inv_step [OF inv b(2)])
    show "pc_ok cap q' pc'" using ok ne unfolding pc' q' by (simp add: reserved_def)
    show "core cap q' (e_own pc' \<union> rest e_own P t) (e_built pc' \<union> rest e_built P t) (d_own pc' \<union> rest d_own P t) (d_took pc' \<union> rest d_took P t)"
      using b(1) unfolding e pc' by simp
    have "e_own pc' \<subseteq> e_own (P t)" unfolding pc' pc by auto
    then show "e_own pc' \<inter> rest e_own P t = {}" using ap(1) by blast
  qed (simp_all add: pc')
qed

lemma step_DCas:
  assumes cap: "pow2 cap" "2 \<le> cap" and inv: "mq_inv cap q P" and pc: "P t = DCas bulk m head n" and bd: "length (q_hist q') + cap < W64"
    and st: "head_cas weak bulk m head n q = (pc', q')"
  shows "mq_inv cap q' (P(t := pc'))"
proof -
  note o = mq_inv_own [OF inv, of t]
  have ok: "0 < n" "seen_full cap q head n" using o(4) pc by simp_all
  have c: "core cap q (rest e_own P t) (rest e_built P t) (rest d_own P t) (rest d_took P t)" using o(3) pc by simp
  have ln: "q_tail q = length (q_hist q)" using c by (simp add: core_def)
  show ?thesis
  proof (cases "q_head q = head \<and> \<not> weak")
    case True
    have q0: "q' = q\<lparr>q_head := wadd head n\<rparr>" and pc': "pc' = DTake head n 0 []" using st True by (simp_all add: head_cas_def)
    have w: "wadd head n = q_head q + n"
      using bd ln ok(2) True unfolding q0 by (intro trans [OF wadd_small]) (simp_all add: seen_full_def)
    have fl: "\<forall>j < n. q_seq q ((q_head q + j) mod cap) = q_head q + j + 1" using ok(2) True by (simp add: seen_full_def)
    note r = core_acquire [OF c cap(2) ok(1) fl q0 [unfolded w]]
    have lt: "p < q_head q" if "p \<in> rest d_own P t" for p using c that unfolding core_def by blast
    show ?thesis unfolding pc'
    proof (rule mq_inv_step [OF inv r(2)])
      show "pc_ok cap q' (DTake head n 0 [])" using True w ok(1) by (simp add: q0 taken_def)
      show "core cap q' (e_own (DTake head n 0 []) \<union> rest e_own P t) (e_built (DTake head n 0 []) \<union> rest e_built P t)
          (d_own (DTake head n 0 []) \<union> rest d_own P t) (d_took (DTake head n 0 []) \<union> rest d_took P t)"
        using r(1) True by (simp add: Un_commute)
      show "d_own (DTake head n 0 []) \<inter> rest d_own P t = {}" using lt True by fastforce
    qed simp
  next
    case False
    then have q0: "q' = q" and pc': "pc' = (if bulk then DScan m (q_head q) 0 else DOne (q_head q))"
      using st by (auto simp: head_cas_def)
    have "q_head q \<le> q_tail q" using c by (simp add: core_def)
    then show ?thesis unfolding q0 pc' by (intro mq_inv_read [OF inv]) (simp_all add: pc seen_full_def)
  qed
qed

lemma taken_snoc: "taken q h (Suc i) = taken q h i @ [Some (q_hist q ! (h + i))]"
  by (simp add: taken_def)

lemma length_taken [simp]: "length (taken q h n) = n"
  by (simp add: taken_def)

lemma step_DTake:
  assumes cap: "pow2 cap" "2 \<le> cap" and inv: "mq_inv cap q P" and pc: "P t = DTake head n i out" and bd: "length (q_hist q') + cap < W64"
    and st: "move_out cap head n i out q = (pc', q')"
  shows "mq_inv cap q' (P(t := pc'))" "i < n \<Longrightarrow> q_data q (slot_of cap (head + i)) = Some (q_hist q ! (head + i))"
proof -
  note o = mq_inv_own [OF inv, of t] and ap = mq_inv_apart [OF inv, of t]
  have ok: "i \<le> n" "head + n \<le> q_head q" "out = taken q head i" using o(4) pc by simp_all
  have c: "core cap q (rest e_own P t) (rest e_built P t) ({head + i..<head + n} \<union> rest d_own P t) (rest d_took P t)"
    using o(3) pc by simp
  have ln: "q_tail q = length (q_hist q)" "q_head q \<le> q_tail q" using c by (simp_all add: core_def)
  have *: "mq_inv cap q' (P(t := pc')) \<and> (i < n \<longrightarrow> q_data q (slot_of cap (head + i)) = Some (q_hist q ! (head + i)))"
  proof (cases "i < n")
    case True
    have h: "q_hist q' = q_hist q" using st True by (auto simp: move_out_def Let_def)
    have w: "wadd head i = head + i" using ok(2) True ln bd unfolding h by (intro wadd_small) simp
    have q': "q' = q\<lparr>q_data := (q_data q)((head + i) mod cap := None), q_got := (q_got q)(head + i := q_data q ((head + i) mod cap))\<rparr>"
      and pc': "pc' = DRel head n i (out @ [q_data q ((head + i) mod cap)])"
      using st True by (simp_all add: move_out_def slot_mod [OF cap(1)] Let_def w)
    have pD: "head + i \<in> {head + i..<head + n} \<union> rest d_own P t" using True by simp
    have "head + i \<in> d_own (P t)" using pc True by simp
    then have pK: "head + i \<notin> rest d_took P t" using ap(2) o(2) by blast
    note b = core_take [OF c cap(2) pD pK q']
    have "taken q' head (Suc i) = taken q head (Suc i)" unfolding taken_def h ..
    then have "pc_ok cap q' pc'" using ok True b(3) unfolding pc' by (simp add: taken_snoc q')
    then have "mq_inv cap q' (P(t := pc'))"
      by (rule mq_inv_step [OF inv b(2)]) (use b(1) ap pc in \<open>simp_all add: pc'\<close>)
    then show ?thesis using b(3) by (simp add: slot_mod [OF cap(1)])
  next
    case False
    then have q': "q' = q" and pc': "pc' = DRet out" using st by (simp_all add: move_out_def)
    have "mq_inv cap q (P(t := DRet out))"
      by (rule mq_inv_read [OF inv]) (use pc False ok in \<open>auto intro!: exI [of _ head]\<close>)
    then show ?thesis using False unfolding q' pc' by simp
  qed
  then show "mq_inv cap q' (P(t := pc'))" "i < n \<Longrightarrow> q_data q (slot_of cap (head + i)) = Some (q_hist q ! (head + i))" by blast+
qed

lemma step_DRel:
  assumes cap: "pow2 cap" "2 \<le> cap" and inv: "mq_inv cap q P" and pc: "P t = DRel head n i out" and bd: "length (q_hist q') + cap < W64"
    and st: "give_back cap head n i out q = (pc', q')"
  shows "mq_inv cap q' (P(t := pc'))"
proof -
  note o = mq_inv_own [OF inv, of t] and ap = mq_inv_apart [OF inv, of t]
  have ok: "i < n" "head + n \<le> q_head q" "out = taken q head (i + 1)" using o(4) pc by simp_all
  have c: "core cap q (rest e_own P t) (rest e_built P t) ({head + i..<head + n} \<union> rest d_own P t) (insert (head + i) (rest d_took P t))"
    using o(3) pc by simp
  have ln: "q_tail q = length (q_hist q)" "q_head q \<le> q_tail q" using c by (simp_all add: core_def)
  have h: "q_hist q' = q_hist q" using st by (auto simp: give_back_def Let_def)
  have b: "head + i + cap < W64" using ok ln bd unfolding h by simp
  then have "wadd head i = head + i" "wadd (head + i) cap = head + i + cap" by (simp_all add: wadd_small)
  then have q': "q' = q\<lparr>q_seq := (q_seq q)((head + i) mod cap := head + i + cap)\<rparr>" and pc': "pc' = DTake head n (i + 1) out"
    using st by (simp_all add: give_back_def slot_mod [OF cap(1)] Let_def)
  note b = core_release [OF c cap(2) _ q']
  have "head + i \<in> d_own (P t)" using pc ok(1) by simp
  then have n: "head + i \<notin> rest d_own P t" "head + i \<notin> rest d_took P t" using ap(2) o(2) by blast+
  have e: "({head + i..<head + n} \<union> rest d_own P t) - {head + i} = {head + (i + 1)..<head + n} \<union> rest d_own P t"
    "insert (head + i) (rest d_took P t) - {head + i} = rest d_took P t" using n by auto
  show ?thesis
  proof (rule mq_inv_step [OF inv b(2)])
    have "taken q' head (i + 1) = taken q head (i + 1)" unfolding taken_def h ..
    then show "pc_ok cap q' pc'" using ok unfolding pc' by (simp add: q')
    show "core cap q' (e_own pc' \<union> rest e_own P t) (e_built pc' \<union> rest e_built P t) (d_own pc' \<union> rest d_own P t) (d_took pc' \<union> rest d_took P t)"
      using b(1) unfolding e pc' by simp
    have "d_own pc' \<subseteq> d_own (P t)" unfolding pc' pc by auto
    then show "d_own pc' \<inter> rest d_own P t = {}" using ap(2) by blast
  qed (simp_all add: pc')
qed

lemma seen_free_Suc:
  "seen_free cap q t i \<Longrightarrow> q_seq q ((t + i) mod cap) = t + i \<Longrightarrow> seen_free cap q t (Suc i)"
  by (auto simp: seen_free_def less_Suc_eq)

lemma seen_full_Suc:
  assumes c: "core cap q E B D K" and cap: "2 \<le> cap" and s: "seen_full cap q h i" "q_seq q ((h + i) mod cap) = h + i + 1"
  shows "seen_full cap q h (Suc i)"
  using s seq_full(1) [OF c cap s(2)] by (auto simp: seen_full_def less_Suc_eq window_def)

lemma step_all:
  assumes cap: "pow2 cap" "2 \<le> cap" and inv: "mq_inv cap q P" and bd: "length (q_hist q') + cap < W64"
    and st: "mq_step cap weak (P t) q = (pc', q')"
  shows "mq_inv cap q' (P(t := pc'))"
proof -
  note o = mq_inv_own [OF inv, of t]
  have ln: "q_tail q = length (q_hist q)" "q_head q \<le> q_tail q" using o(3) by (simp_all add: core_def)
  have sm: "slot_of cap p = p mod cap" for p by (rule slot_mod [OF cap(1)])
  show ?thesis
  proof (cases "P t")
    case Idle
    then have "pc' = P t" "q' = q" using st by simp_all
    then show ?thesis using inv by (simp only: fun_upd_triv)
  next
    case (EOne v u)
    have q: "q' = q" "pc' = enqueue_step cap v u q" using st EOne by auto
    have "u \<le> q_tail q" using o(4) EOne by simp
    then show ?thesis unfolding q using cap(2) EOne
      by (intro mq_inv_read [OF inv]) (auto simp: enqueue_step_def Let_def sm seen_free_def)
  next
    case (EScan vs u i)
    have q: "q' = q" "pc' = enqueueBulk_scan cap vs u i q" using st EScan by auto
    have ok: "vs \<noteq> []" "i \<le> length vs" "i \<le> cap" "seen_free cap q u i" using o(4) EScan by simp_all
    have "wadd u i = u + i" using ok(3,4) ln(1) bd unfolding q by (intro wadd_small) (simp add: seen_free_def)
    then show ?thesis unfolding q using ok EScan seen_free_Suc [OF ok(4)]
      by (intro mq_inv_read [OF inv]) (auto simp: enqueueBulk_scan_def Let_def sm seen_free_def)
  next
    case (ERecheck vs u)
    have q: "q' = q" "pc' = enqueueBulk_recheck cap vs u q" using st ERecheck by auto
    have "vs \<noteq> []" using o(4) ERecheck by simp
    then show ?thesis unfolding q using ERecheck
      by (intro mq_inv_read [OF inv]) (auto simp: enqueueBulk_recheck_def seen_free_def)
  next
    case (ECas bulk vs u n)
    then show ?thesis using st by (intro step_ECas [OF cap inv ECas bd]) simp
  next
    case (EFill vs u i)
    then show ?thesis using st by (intro step_EFill(1) [OF cap inv EFill bd]) simp
  next
    case (EPub vs u i)
    then show ?thesis using st by (intro step_EPub [OF cap inv EPub bd]) simp
  next
    case (ERet n)
    then have "pc' = P t" "q' = q" using st by simp_all
    then show ?thesis using inv by (simp only: fun_upd_triv)
  next
    case (DOne u)
    have q: "q' = q" "pc' = dequeue_step cap u q" using st DOne by auto
    have u: "u \<le> q_head q" using o(4) DOne by simp
    have "wadd u 1 = u + 1" using u ln bd cap(2) unfolding q by (intro wadd_small) simp
    then show ?thesis unfolding q using u DOne seen_full_Suc [OF o(3) cap(2), of u 0] ln
      by (intro mq_inv_read [OF inv]) (auto simp: dequeue_step_def Let_def sm seen_full_def taken_def)
  next
    case (DScan m u i)
    have q: "q' = q" "pc' = dequeueBulk_scan cap m u i q" using st DScan by auto
    have ok: "seen_full cap q u i" using o(4) DScan by simp
    have "wadd u i = u + i" "wadd (u + i) 1 = u + i + 1"
      using ok ln bd cap(2) unfolding q by (simp_all add: wadd_small seen_full_def)
    then show ?thesis unfolding q using ok DScan seen_full_Suc [OF o(3) cap(2) ok]
      by (intro mq_inv_read [OF inv]) (auto simp: dequeueBulk_scan_def Let_def sm seen_full_def)
  next
    case (DRecheck m u)
    have q: "q' = q" "pc' = dequeueBulk_recheck cap m u q" using st DRecheck by auto
    show ?thesis unfolding q using DRecheck ln(2)
      by (intro mq_inv_read [OF inv]) (auto simp: dequeueBulk_recheck_def seen_full_def taken_def)
  next
    case (DCas bulk m u n)
    then show ?thesis using st by (intro step_DCas [OF cap inv DCas bd]) simp
  next
    case (DTake u n i out)
    then show ?thesis using st by (intro step_DTake(1) [OF cap inv DTake bd]) simp
  next
    case (DRel u n i out)
    then show ?thesis using st by (intro step_DRel [OF cap inv DRel bd]) simp
  next
    case (DRet out)
    then have "pc' = P t" "q' = q" using st by simp_all
    then show ?thesis using inv by (simp only: fun_upd_triv)
  qed
qed

subsection \<open>Runs\<close>

lemma mq_inv_init: "mq_inv cap mq_init (\<lambda>_. Idle)"
  by (auto simp: mq_inv_def core_def mq_init_def of_all_def window_def)

lemma mq_step_hist: "mq_step cap weak pc q = (pc', q') \<Longrightarrow> length (q_hist q) \<le> length (q_hist q')"
  by (cases pc) (auto simp: tail_cas_def construct_def publish_def head_cas_def move_out_def give_back_def Let_def split: if_splits)

lemma at_rest_own: "at_rest pc \<Longrightarrow> e_own pc = {} \<and> d_own pc = {} \<and> e_built pc = {} \<and> d_took pc = {}"
  by (cases pc) auto

lemma mq_run_inv:
  assumes "mq_run cap q P" "pow2 cap" "2 \<le> cap" "length (q_hist q) + cap < W64"
  shows "mq_inv cap q P"
  using assms
proof (induction rule: mq_run.induct)
  case mq_start
  show ?case by (rule mq_inv_init)
next
  case (mq_enqueue q P t v)
  then show ?case using at_rest_own [of "P t"] by (intro mq_inv_read) (auto simp: start_enqueue_def)
next
  case (mq_enqueueBulk q P t vs)
  then show ?case using at_rest_own [of "P t"] by (intro mq_inv_read) (auto simp: start_enqueueBulk_def seen_free_def)
next
  case (mq_dequeue q P t)
  then show ?case using at_rest_own [of "P t"] by (intro mq_inv_read) (auto simp: start_dequeue_def)
next
  case (mq_dequeueBulk q P t m)
  then have inv: "mq_inv cap q P" by blast
  then have "q_head q \<le> q_tail q" by (simp add: mq_inv_def core_def)
  then show ?case using at_rest_own [of "P t"] mq_dequeueBulk inv
    by (intro mq_inv_read) (auto simp: start_dequeueBulk_def seen_full_def)
next
  case (mq_move q P weak t pc q')
  have "length (q_hist q) + cap < W64" using mq_step_hist [OF mq_move.hyps(2)] mq_move.prems(3) by linarith
  then show ?case using mq_move by (intro step_all) auto
qed

text \<open>
  C13. The lock-free queue is a bounded FIFO in every interleaving of any number of threads, each
  enqueueing and dequeueing single values and batches (capacity a power of two, at least 2, and
  fewer than \<open>2^64 - Capacity\<close> values in all). \<open>q_hist\<close> lists the values in the order in which
  their places were reserved. There are never more than the capacity of them in the queue. A call
  of \<open>dequeue\<close> that has returned gave consecutive values of that list, all of them real objects;
  the value at each place below the head is taken exactly once, unless a dequeuer still holds it,
  and none at or above the head; an object is only ever built in empty storage and only moved out
  of storage that holds the object of that place.
\<close>

theorem mpmc_fifo:
  assumes "mq_run cap q P" "pow2 cap" "2 \<le> cap" "length (q_hist q) + cap < W64"
  shows "q_tail q = length (q_hist q) \<and> q_head q \<le> q_tail q \<and> q_tail q - q_head q \<le> cap
    \<and> (\<forall>t out. P t = DRet out \<longrightarrow> (\<exists>h. h + length out \<le> q_head q \<and> out = map (\<lambda>p. Some (q_hist q ! p)) [h..<h + length out]))
    \<and> (\<forall>p. q_got q p \<noteq> None \<longrightarrow> p < q_head q \<and> q_got q p = Some (q_hist q ! p))
    \<and> (\<forall>p < q_head q. (\<forall>t. p \<notin> d_own (P t)) \<longrightarrow> q_got q p = Some (q_hist q ! p))
    \<and> (\<forall>t vs u i. P t = EFill vs u i \<and> i < length vs \<longrightarrow> q_data q (slot_of cap (u + i)) = None)
    \<and> (\<forall>t h n i out. P t = DTake h n i out \<and> i < n \<longrightarrow>
         q_got q (h + i) = None \<and> q_data q (slot_of cap (h + i)) = Some (q_hist q ! (h + i)))"
proof -
  have inv: "mq_inv cap q P" by (rule mq_run_inv [OF assms])
  have c: "core cap q (of_all e_own P) (of_all e_built P) (of_all d_own P) (of_all d_took P)" and ok: "pc_ok cap q (P t)" for t
    using inv by (simp_all add: mq_inv_def)
  have got: "q_got q p = (if p < q_head q \<and> (p \<in> of_all d_own P \<longrightarrow> p \<in> of_all d_took P) then Some (q_hist q ! p) else None)" for p
    using c unfolding core_def by blast
  have "\<exists>h. h + length out \<le> q_head q \<and> out = map (\<lambda>p. Some (q_hist q ! p)) [h..<h + length out]" if "P t = DRet out" for t out
    using ok [of t] that by (simp add: taken_def)
  moreover have "q_data q (slot_of cap (u + i)) = None" if "P t = EFill vs u i" "i < length vs" for t vs u i
  proof -
    have "length (q_hist (snd (construct cap vs u i q))) + cap < W64" using assms(4) that(2) by (simp add: construct_def)
    then show ?thesis using step_EFill(2) [OF assms(2,3) inv that(1) _ _ that(2)] by (metis prod.collapse)
  qed
  moreover have "q_got q (h + i) = None \<and> q_data q (slot_of cap (h + i)) = Some (q_hist q ! (h + i))"
    if "P t = DTake h n i out" "i < n" for t h n i out
  proof
    have "length (q_hist (snd (move_out cap h n i out q))) + cap < W64" using assms(4) that(2) by (simp add: move_out_def Let_def)
    then show "q_data q (slot_of cap (h + i)) = Some (q_hist q ! (h + i))"
      using step_DTake(2) [OF assms(2,3) inv that(1) _ _ that(2)] by (metis prod.collapse)
    have "h + i \<in> d_own (P t)" using that by simp
    then have "h + i \<in> of_all d_own P" "h + i \<notin> rest d_took P t"
      using mq_inv_own(2) [OF inv, of t] mq_inv_apart(2) [OF inv, of t] unfolding of_all_def by blast+
    then show "q_got q (h + i) = None" using that(1) by (simp add: got of_all_rest [of d_took P t])
  qed
  moreover have "q_got q p = Some (q_hist q ! p)" if "p < q_head q" "\<forall>t. p \<notin> d_own (P t)" for p
    using got [of p] that by (simp add: of_all_def)
  moreover have "p < q_head q \<and> q_got q p = Some (q_hist q ! p)" if "q_got q p \<noteq> None" for p
    using got [of p] that by (simp split: if_splits)
  moreover have "q_tail q \<le> q_head q + cap" using c by (simp add: core_def)
  then have "q_tail q - q_head q \<le> cap" by linarith
  moreover have "q_tail q = length (q_hist q)" "q_head q \<le> q_tail q" using c by (simp_all add: core_def)
  ultimately show ?thesis by blast
qed

lemma slot_ahead:
  assumes "u < q_tail q" "0 < cap"
  obtains p where "window cap q p" "p mod cap = u mod cap" "u \<le> p"
proof (rule slot_cases [OF assms(2), of q u])
  assume "q_tail q \<le> u mod cap"
  moreover have "u mod cap \<le> u" by simp
  ultimately show thesis using assms(1) by linarith
next
  fix p assume p: "window cap q p" "p mod cap = u mod cap"
  have "u \<le> p"
  proof (rule ccontr)
    assume "\<not> u \<le> p"
    then show False using mod_eq_close [OF p(2)] p(1) assms(1) by (auto simp: window_def)
  qed
  then show thesis by (rule that [OF p])
qed

text \<open>A slot that looks occupied to an enqueuer, or empty to a dequeuer.\<close>

lemma seen_occupied:
  assumes c: "core cap q E B D K" and cap: "2 \<le> cap" and u: "u \<le> q_tail q" "q_seq q (u mod cap) < u"
  shows "cap \<le> q_tail q \<and> (q_tail q = q_head q + cap \<or> q_tail q - cap \<in> D)"
proof -
  have val: "q_seq q (p mod cap) = seq_val cap q E D p" if "window cap q p" for p using c that unfolding core_def by blast
  have ut: "u = q_tail q"
  proof (rule ccontr)
    assume "u \<noteq> q_tail q"
    then obtain p where p: "window cap q p" "p mod cap = u mod cap" "u \<le> p"
      using slot_ahead [of u q cap] u(1) cap by auto
    then have "u \<le> q_seq q (u mod cap)" using val [OF p(1)] by (auto simp: seq_val_def)
    then show False using u(2) by simp
  qed
  show ?thesis
  proof (rule slot_cases [of cap q u])
    assume f: "q_tail q \<le> u mod cap"
    then have "q_seq q (u mod cap) = u mod cap" using c cap by (simp add: core_def)
    then show ?thesis using f u(2) ut by simp
  next
    fix p assume p: "window cap q p" "p mod cap = u mod cap"
    have "p + cap = u"
    proof (rule ccontr)
      assume "p + cap \<noteq> u"
      then have "p = u" using p ut by (intro mod_eq_close [OF p(2)]) (auto simp: window_def)
      then show False using p(1) ut by (simp add: window_def)
    qed
    moreover have "seq_val cap q E D p < u" using u(2) val [OF p(1)] p(2) by simp
    moreover have "q_tail q \<le> q_head q + cap" using c by (simp add: core_def)
    moreover from \<open>p + cap = u\<close> have "q_tail q - cap = p" using ut by simp
    ultimately show ?thesis using ut by (auto simp: seq_val_def split: if_splits)
  qed (use cap in simp)
qed

lemma seen_empty:
  assumes c: "core cap q E B D K" and cap: "2 \<le> cap" and u: "u \<le> q_head q" "q_seq q (u mod cap) < u + 1"
  shows "q_head q = q_tail q \<or> q_head q \<in> E"
proof (cases "q_head q = q_tail q")
  case False
  have val: "q_seq q (p mod cap) = seq_val cap q E D p" if "window cap q p" for p using c that unfolding core_def by blast
  have ht: "q_head q < q_tail q" "q_tail q \<le> q_head q + cap" using False c by (simp_all add: core_def)
  obtain p where p: "window cap q p" "p mod cap = u mod cap" "u \<le> p"
    using slot_ahead [of u q cap] u(1) ht cap by auto
  have "seq_val cap q E D p < u + 1" using u(2) val [OF p(1)] p(2) by simp
  then have "p = u" "q_head q \<le> p" "p \<in> E" using p(3) cap by (auto simp: seq_val_def split: if_splits)
  then show ?thesis using u(1) by simp
qed simp

text \<open>
  C14. A call of \<open>enqueue\<close> or \<open>enqueueBulk\<close> fails only when at that moment the slot of the next place, and it is
  only that slot that counts, still belongs to the place one turn before: either no dequeuer has acquired that place,
  and then all slots are taken, or one has and has not given the slot back yet, and then other slots may well
  be free. A call of \<open>dequeue\<close> or \<open>dequeueBulk\<close> comes back empty only when at that moment no place
  is waiting to be dequeued or the first one that is has not been published yet by its enqueuer (later ones may have been).
\<close>

theorem mpmc_failure:
  assumes "mq_run cap q P" "pow2 cap" "2 \<le> cap" "length (q_hist q) + cap < W64" "mq_step cap weak (P t) q = (pc, q')"
    "\<not> at_rest (P t)"
  shows "(pc = ERet 0 \<longrightarrow> cap \<le> q_tail q \<and> (q_tail q = q_head q + cap \<or> (\<exists>t'. q_tail q - cap \<in> d_own (P t'))))
    \<and> (pc = DRet [] \<longrightarrow> q_head q = q_tail q \<or> (\<exists>t'. q_head q \<in> e_own (P t')))"
proof -
  have inv: "mq_inv cap q P" by (rule mq_run_inv [OF assms(1-4)])
  have c: "core cap q (of_all e_own P) (of_all e_built P) (of_all d_own P) (of_all d_took P)" and ok: "pc_ok cap q (P t)"
    using inv by (simp_all add: mq_inv_def)
  have sm: "slot_of cap p = p mod cap" for p by (rule slot_mod [OF assms(2)])
  have w: "wadd u 1 = u + 1" if "u \<le> q_head q" for u
    using that c assms(3,4) by (intro wadd_small) (simp add: core_def)
  note occ = seen_occupied [OF c assms(3)] and emp = seen_empty [OF c assms(3)]
  have "cap \<le> q_tail q \<and> (q_tail q = q_head q + cap \<or> q_tail q - cap \<in> of_all d_own P)" if "pc = ERet 0"
    using assms(5,6) ok that occ
    by (cases "P t") (auto simp: enqueue_step_def enqueueBulk_scan_def enqueueBulk_recheck_def tail_cas_def construct_def publish_def
        dequeue_step_def dequeueBulk_scan_def dequeueBulk_recheck_def head_cas_def move_out_def give_back_def Let_def sm split: if_splits)
  moreover have "q_head q = q_tail q \<or> q_head q \<in> of_all e_own P" if "pc = DRet []"
    using assms(5,6) ok that emp w
    by (cases "P t") (auto simp: enqueue_step_def enqueueBulk_scan_def enqueueBulk_recheck_def tail_cas_def construct_def publish_def
        dequeue_step_def dequeueBulk_scan_def dequeueBulk_recheck_def head_cas_def move_out_def give_back_def Let_def sm taken_def split: if_splits)
  ultimately show ?thesis by (auto simp: of_all_def)
qed

subsection \<open>Sample runs\<close>

text \<open>One thread runs alone for some steps.\<close>

fun solo :: "nat \<Rightarrow> nat \<Rightarrow> 'a pc \<Rightarrow> 'a mq \<Rightarrow> 'a pc \<times> 'a mq" where
  "solo cap 0 pc q = (pc, q)"
| "solo cap (Suc n) pc q = (case mq_step cap False pc q of (pc, q) \<Rightarrow> solo cap n pc q)"

lemma solo_5: "solo cap 5 pc q = solo cap (Suc (Suc (Suc (Suc (Suc 0))))) pc q"
  by (simp add: eval_nat_numeral)

lemma solo_run: "mq_run cap q P \<Longrightarrow> solo cap n (P t) q = (pc, q') \<Longrightarrow> mq_run cap q' (P(t := pc))"
proof (induction n arbitrary: q P)
  case 0
  then have "P(t := pc) = P" "q' = q" by auto
  then show ?case using 0 by simp
next
  case (Suc n)
  obtain pc1 q1 where s: "mq_step cap False (P t) q = (pc1, q1)" by fastforce
  from Suc.IH [OF mq_move [OF Suc.prems(1) s]] show ?case using Suc.prems(2) s by (simp del: fun_upd_apply add: fun_upd_same)
qed

definition sample_queue :: "nat mq" where
  "sample_queue = snd (solo 2 5 (start_enqueue 7 mq_init) mq_init)"

lemmas mq_eval = enqueue_step_def dequeue_step_def tail_cas_def construct_def publish_def head_cas_def move_out_def give_back_def
  start_enqueue_def start_dequeue_def mq_init_def slot_of_def wadd_def W64_def solo_5 Let_def

lemma sample_enqueued: "solo 2 5 (start_enqueue 7 mq_init) mq_init = (ERet 1, sample_queue)"
  "q_head sample_queue = 0" "q_tail sample_queue = 1" "q_hist sample_queue = [7]" "q_seq sample_queue 0 = 1" "q_data sample_queue 0 = Some 7"
  by (simp_all add: sample_queue_def mq_eval)

lemma sample_mq_run: "mq_run 2 sample_queue ((\<lambda>_. Idle)(0 := ERet 1))"
proof -
  have "mq_run 2 mq_init ((\<lambda>_. Idle)(0 := start_enqueue (7::nat) mq_init))" by (rule mq_enqueue [OF mq_start]) simp
  from solo_run [OF this, of 5 0 "ERet 1" sample_queue] show ?thesis using sample_enqueued(1) by simp
qed

theorem mpmc_fifo_witness:
  "\<exists>q P. mq_run 2 q P \<and> P 1 = DRet [Some (7::nat)] \<and> (\<exists>h. h + 1 \<le> q_head q \<and> [Some 7] = map (\<lambda>p. Some (q_hist q ! p)) [h..<h + 1])"
proof -
  let ?P = "(\<lambda>_ :: nat. Idle :: nat pc)(0 := ERet 1)"
  obtain q where q: "solo 2 5 (start_dequeue sample_queue) sample_queue = (DRet [Some 7], q)" "q_hist q = [7]"
    using sample_enqueued by (simp add: mq_eval)
  have "mq_run 2 sample_queue (?P(1 := start_dequeue sample_queue))" by (rule mq_dequeue [OF sample_mq_run]) simp
  from solo_run [OF this, of 5 1 "DRet [Some 7]" q] q(1)
  have r: "mq_run 2 q (?P(1 := DRet [Some 7]))" by simp
  have l: "length (q_hist q) + 2 < W64" using q(2) by (simp add: W64_def)
  have "pow2 2" unfolding pow2_def by (rule exI [of _ 1]) simp
  then have "\<forall>t out. (?P(1 := DRet [Some 7])) t = DRet out \<longrightarrow> (\<exists>h. h + length out \<le> q_head q \<and> out = map (\<lambda>p. Some (q_hist q ! p)) [h..<h + length out])"
    using mpmc_fifo [OF r _ order_refl l] by blast
  from this [rule_format, of 1 "[Some 7]"] have "\<exists>h. h + 1 \<le> q_head q \<and> [Some 7] = map (\<lambda>p. Some (q_hist q ! p)) [h..<h + 1]" by simp
  then show ?thesis using r by (intro exI [of _ q] exI [of _ "?P(1 := DRet [Some 7])"]) simp
qed

theorem mpmc_failure_witness:
  "\<exists>P. mq_run 2 mq_init P \<and> mq_step 2 False (P 0) (mq_init :: nat mq) = (DRet [], mq_init) \<and> q_head (mq_init :: nat mq) = q_tail (mq_init :: nat mq)"
proof -
  let ?P = "(\<lambda>_. Idle)(0 := start_dequeue (mq_init :: nat mq))"
  have r: "mq_run 2 (mq_init :: nat mq) ?P" by (rule mq_dequeue [OF mq_start]) simp
  have s: "mq_step 2 False (?P 0) (mq_init :: nat mq) = (DRet [], mq_init)" by (simp add: mq_eval)
  have e: "e_own (?P t) = {}" for t by (simp add: start_dequeue_def)
  have "pow2 2" unfolding pow2_def by (rule exI [of _ 1]) simp
  then have "q_head (mq_init :: nat mq) = q_tail (mq_init :: nat mq)"
    using mpmc_failure [OF r _ _ _ s] e by (simp add: W64_def mq_init_def start_dequeue_def)
  then show ?thesis using r s by blast
qed

subsection \<open>What the interface allows and the queue does not survive\<close>

text \<open>
  A capacity of 1 passes the static assertion, but then the sequence number of a full slot is that of
  a free slot for the next place: a second \<open>enqueue\<close> succeeds and destroys the first value.
\<close>

lemma capacity_one_overwrites:
  "\<exists>q1 q. solo 1 5 (start_enqueue (7::nat) mq_init) mq_init = (ERet 1, q1) \<and> q_data q1 0 = Some 7
     \<and> solo 1 5 (start_enqueue 8 q1) q1 = (ERet 1, q) \<and> q_head q = 0 \<and> q_tail q = 2 \<and> q_data q 0 = Some 8"
  by (simp add: mq_eval)

text \<open>\<open>dequeueBulk\<close> of at most 0 values never returns while the queue has a value.\<close>

lemma dequeueBulk_zero_spins:
  assumes "q_seq q (slot_of cap (q_head q)) = wadd (q_head q) 1"
  shows "solo cap n (start_dequeueBulk 0 q) q \<in> {(DScan 0 (q_head q) 0, q), (DRecheck 0 (q_head q), q)}"
proof -
  have "solo cap n pc q \<in> {(DScan 0 (q_head q) 0, q), (DRecheck 0 (q_head q), q)}"
    if "pc = DScan 0 (q_head q) 0 \<or> pc = DRecheck 0 (q_head q)" for pc
    using that
  proof (induction n arbitrary: pc)
    case (Suc n)
    have "mq_step cap False pc q = ((if pc = DScan 0 (q_head q) 0 then DRecheck 0 (q_head q) else DScan 0 (q_head q) 0), q)"
      using Suc.prems assms by (auto simp: dequeueBulk_scan_def dequeueBulk_recheck_def)
    then show ?case using Suc.IH [of "if pc = DScan 0 (q_head q) 0 then DRecheck 0 (q_head q) else DScan 0 (q_head q) 0"] by simp
  qed auto
  then show ?thesis by (simp add: start_dequeueBulk_def)
qed

text \<open>The destructor destroys every object that is left, when no thread is inside a call.\<close>

lemma destroy_from_data:
  fixes q r :: "'a mq"
  assumes "core cap q {} {} {} {}" "pow2 cap" "2 \<le> cap" "q_tail q + cap < W64"
  shows "q_head q \<le> i \<Longrightarrow> i + n = q_tail q \<Longrightarrow> q_seq r = q_seq q \<Longrightarrow>
    q_data (destroy_from cap i n r) x = (if \<exists>p. i \<le> p \<and> p < q_tail q \<and> p mod cap = x then None else q_data r x)"
proof (induction n arbitrary: i r)
  case (Suc n)
  have w: "wadd i 1 = i + 1" using Suc.prems(2) assms(4) by (intro wadd_small) simp
  have "window cap q i" using Suc.prems assms(1) by (auto simp: window_def core_def)
  then have s: "q_seq r (slot_of cap i) = i + 1"
    using assms(1) Suc.prems(1,3) by (auto simp: core_def seq_val_def slot_mod [OF assms(2)])
  have ex: "(\<exists>p. i \<le> p \<and> p < q_tail q \<and> p mod cap = x) \<longleftrightarrow> i mod cap = x \<or> (\<exists>p. i + 1 \<le> p \<and> p < q_tail q \<and> p mod cap = x)"
  proof -
    have "i \<le> p \<and> p < q_tail q \<longleftrightarrow> p = i \<or> i + 1 \<le> p \<and> p < q_tail q" for p using Suc.prems(2) by auto
    then have "i \<le> p \<and> p < q_tail q \<and> p mod cap = x \<longleftrightarrow> (p = i \<or> i + 1 \<le> p \<and> p < q_tail q) \<and> p mod cap = x" for p by metis
    then show ?thesis by auto
  qed
  have ih: "q_data (destroy_from cap (i + 1) n (r\<lparr>q_data := (q_data r)(i mod cap := None)\<rparr>)) x =
      (if \<exists>p. i + 1 \<le> p \<and> p < q_tail q \<and> p mod cap = x then None
       else q_data (r\<lparr>q_data := (q_data r)(i mod cap := None)\<rparr>) x)"
    by (rule Suc.IH) (use Suc.prems in simp_all)
  have st: "destroy_from cap i (Suc n) r = destroy_from cap (i + 1) n (r\<lparr>q_data := (q_data r)(i mod cap := None)\<rparr>)"
    using w s by (simp add: slot_mod [OF assms(2)])
  have gen: "(if E then None else (f(a := None)) x) = (if a = x \<or> E then None else f x)" for E and f :: "nat \<Rightarrow> 'a option" and a by simp
  have upd: "q_data (r\<lparr>q_data := f\<rparr>) = f" for f by simp
  show ?case unfolding st ih ex upd by (rule gen)
qed auto

lemma mq_destroy_all:
  assumes "core cap q {} {} {} {}" "pow2 cap" "2 \<le> cap" "q_tail q + cap < W64" "x < cap"
  shows "q_data (mq_destroy cap q) x = None"
proof -
  have h: "q_head q \<le> q_tail q" "q_tail q \<le> q_head q + cap" using assms(1) by (simp_all add: core_def)
  have "wsub (q_tail q) (q_head q) = q_tail q - q_head q" using h assms(4) by (intro wsub_small) simp_all
  then have e: "q_data (mq_destroy cap q) x = (if \<exists>p. q_head q \<le> p \<and> p < q_tail q \<and> p mod cap = x then None else q_data q x)"
    using destroy_from_data [OF assms(1-4) order_refl, of "q_tail q - q_head q" q x] h by (simp add: mq_destroy_def)
  show ?thesis
  proof (rule slot_cases [of cap q x])
    assume "q_tail q \<le> x mod cap"
    then show ?thesis using assms(1,5) e by (auto simp: core_def)
  next
    fix p assume p: "window cap q p" "p mod cap = x mod cap"
    then have "p mod cap = x" using assms(5) by simp
    moreover have "q_data q (p mod cap) = data_val q {} {} {} {} p" using assms(1) p(1) unfolding core_def by blast
    ultimately show ?thesis using e p(1) by (auto simp: data_val_def window_def split: if_splits)
  qed (use assms(3) in simp)
qed

end
