(* ===== verification/TimerList.thy ===== *)
theory TimerList
  imports Prelude "HOL-Library.Monad_Syntax"
begin

text \<open>
  The intrusive list of timers, \<open>KzTimer/TimerList.h\<close>, at the level of its pointers. A node is the
  root of a slot of the timer wheel, the root of the local list of the timers that are being
  processed, or the node inside a timer. \<open>None\<close> as a link is the null pointer, \<open>None\<close> as a result
  is a dereferenced null pointer.

  \<open>push_back\<close> links the last node to the first one instead of the root (\<open>node.next = _root.next\<close>), so
  a list that has been filled is not a ring (\<open>filled\<close>); taking it over with the move constructor
  closes it (\<open>ring_take_over\<close>), and \<open>pop_front\<close> is right on the closed list (\<open>ring_pop\<close>) and wrong on the
  other (\<open>filled_pops_twice\<close>).
\<close>

datatype link = Wheel nat | Pending | Tm nat

record tlinks =
  l_next :: "link \<Rightarrow> link option"
  l_prev :: "link \<Rightarrow> link option"

definition list_empty :: "link \<Rightarrow> tlinks \<Rightarrow> bool" where
  "list_empty r L \<longleftrightarrow> l_next L r = Some r"

definition reset_list :: "link \<Rightarrow> tlinks \<Rightarrow> tlinks" where
  "reset_list r L = L\<lparr>l_prev := (l_prev L)(r := Some r), l_next := (l_next L)(r := Some r)\<rparr>"

definition set_next :: "link option \<Rightarrow> link option \<Rightarrow> tlinks \<Rightarrow> tlinks option" where
  "set_next p v L = (case p of None \<Rightarrow> None | Some n \<Rightarrow> Some (L\<lparr>l_next := (l_next L)(n := v)\<rparr>))"

definition set_prev :: "link option \<Rightarrow> link option \<Rightarrow> tlinks \<Rightarrow> tlinks option" where
  "set_prev p v L = (case p of None \<Rightarrow> None | Some n \<Rightarrow> Some (L\<lparr>l_prev := (l_prev L)(n := v)\<rparr>))"

text \<open>The move constructor, which the move assignment repeats after it has asserted that the target is empty.\<close>

definition move_list :: "link \<Rightarrow> link \<Rightarrow> tlinks \<Rightarrow> tlinks option" where
  "move_list this other L =
     (if list_empty other L then Some (reset_list this L)
      else do {
        let L = L\<lparr>l_next := (l_next L)(this := l_next L other)\<rparr>;
        let L = L\<lparr>l_prev := (l_prev L)(this := l_prev L other)\<rparr>;
        L \<leftarrow> set_prev (l_next L this) (Some this) L;
        L \<leftarrow> set_next (l_prev L this) (Some this) L;
        Some (reset_list other L)
      })"

definition push_back :: "link \<Rightarrow> link \<Rightarrow> tlinks \<Rightarrow> tlinks option" where
  "push_back r node L =
     do {
       let L = L\<lparr>l_next := (l_next L)(node := l_next L r)\<rparr>;
       let L = L\<lparr>l_prev := (l_prev L)(node := l_prev L r)\<rparr>;
       L \<leftarrow> set_next (l_prev L r) (Some node) L;
       set_prev (Some r) (Some node) L
     }"

definition null_node :: "link \<Rightarrow> tlinks \<Rightarrow> tlinks" where
  "null_node n L = L\<lparr>l_next := (l_next L)(n := None), l_prev := (l_prev L)(n := None)\<rparr>"

definition erase_node :: "link \<Rightarrow> tlinks \<Rightarrow> tlinks option" where
  "erase_node n L =
     (if l_prev L n \<noteq> None \<and> l_next L n \<noteq> None
      then do {
        L \<leftarrow> set_next (l_prev L n) (l_next L n) L;
        L \<leftarrow> set_prev (l_next L n) (l_prev L n) L;
        Some (null_node n L)
      }
      else Some L)"

definition pop_front :: "link \<Rightarrow> tlinks \<Rightarrow> (link option \<times> tlinks) option" where
  "pop_front r L =
     (if list_empty r L then Some (None, L)
      else do {
        node \<leftarrow> l_next L r;
        let L = L\<lparr>l_next := (l_next L)(r := l_next L node)\<rparr>;
        L \<leftarrow> set_prev (l_next L node) (Some r) L;
        Some (Some node, null_node node L)
      })"

subsection \<open>The shape of a list\<close>

fun seg :: "tlinks \<Rightarrow> link \<Rightarrow> link list \<Rightarrow> bool" where
  "seg L p [] \<longleftrightarrow> True"
| "seg L p (x # xs) \<longleftrightarrow> l_next L p = Some x \<and> l_prev L x = Some p \<and> seg L x xs"

definition tlist :: "tlinks \<Rightarrow> link \<Rightarrow> link list \<Rightarrow> link \<Rightarrow> bool" where
  "tlist L r xs z \<longleftrightarrow> distinct (r # xs) \<and> seg L r xs \<and> l_prev L r = Some (last (r # xs)) \<and> l_next L (last (r # xs)) = Some z"

definition ring :: "tlinks \<Rightarrow> link \<Rightarrow> link list \<Rightarrow> bool" where
  "ring L r xs \<longleftrightarrow> tlist L r xs r"

definition filled :: "tlinks \<Rightarrow> link \<Rightarrow> link list \<Rightarrow> bool" where
  "filled L r xs \<longleftrightarrow> tlist L r xs (if length xs \<le> 1 then r else hd xs)"

lemma seg_frame:
  "seg L p xs \<Longrightarrow> (\<And>n. n \<in> set (butlast (p # xs)) \<Longrightarrow> l_next L' n = l_next L n) \<Longrightarrow> (\<And>n. n \<in> set xs \<Longrightarrow> l_prev L' n = l_prev L n)
   \<Longrightarrow> seg L' p xs"
  by (induction xs arbitrary: p) auto

lemma tlist_frame:
  assumes "tlist L r xs z" "\<And>n. n \<in> set (r # xs) \<Longrightarrow> l_next L' n = l_next L n \<and> l_prev L' n = l_prev L n"
  shows "tlist L' r xs z"
proof -
  have sg: "seg L r xs" using assms(1) unfolding tlist_def by blast
  have "seg L' r xs"
  proof (rule seg_frame [OF sg])
    show "l_next L' n = l_next L n" if "n \<in> set (butlast (r # xs))" for n using assms(2) [OF in_set_butlastD [OF that]] ..
    show "l_prev L' n = l_prev L n" if "n \<in> set xs" for n using assms(2) [of n] that by simp
  qed
  moreover have "last (r # xs) \<in> set (r # xs)" by (rule last_in_set) simp
  then have "l_next L' (last (r # xs)) = l_next L (last (r # xs))" using assms(2) by blast
  moreover have "l_prev L' r = l_prev L r" using assms(2) [of r] by simp
  ultimately show ?thesis using assms(1) unfolding tlist_def by metis
qed

lemma seg_snoc: "seg L p (xs @ [x]) \<longleftrightarrow> seg L p xs \<and> l_next L (last (p # xs)) = Some x \<and> l_prev L x = Some (last (p # xs))"
  by (induction xs arbitrary: p) auto

lemma tlist_Nil: "tlist L r [] z \<longleftrightarrow> l_prev L r = Some r \<and> l_next L r = Some z"
  by (simp add: tlist_def)

lemma empty_iff:
  assumes "tlist L r xs z" "z \<in> set (r # xs)"
  shows "list_empty r L \<longleftrightarrow> xs = [] \<and> z = r"
  using assms by (cases xs) (auto simp: tlist_def list_empty_def)

lemma reset_ring: "ring (reset_list r L) r []"
  by (simp add: ring_def tlist_Nil reset_list_def)

subsection \<open>The operations\<close>

lemma tlist_push:
  assumes "tlist L r xs z" "t \<notin> set (r # xs)"
  obtains L' where "push_back r t L = Some L'" "tlist L' r (xs @ [t]) (if xs = [] then z else hd xs)"
    "\<And>n. n \<notin> set (t # r # xs) \<Longrightarrow> l_next L' n = l_next L n \<and> l_prev L' n = l_prev L n"
proof -
  let ?l = "last (r # xs)"
  have l: "?l \<in> set (r # xs)" by (rule last_in_set) simp
  have pr: "l_prev L r = Some ?l" and sg: "seg L r xs" and d: "distinct (r # xs)" and z: "l_next L ?l = Some z"
    using assms(1) unfolding tlist_def by blast+
  have tr: "t \<noteq> r" "t \<noteq> ?l" using assms(2) l by auto
  define L' where "L' = \<lparr>l_next = (l_next L)(t := l_next L r, ?l := Some t), l_prev = (l_prev L)(t := Some ?l, r := Some t)\<rparr>"
  have e: "push_back r t L = Some L'"
    using tr pr by (simp add: push_back_def L'_def set_next_def set_prev_def del: last.simps)
  have "?l \<notin> set (butlast (r # xs))"
    using d append_butlast_last_id [of "r # xs"] by (metis distinct_append disjoint_insert(1) list.distinct(1) list.simps(15))
  then have "n \<noteq> ?l" "n \<noteq> t" if "n \<in> set (butlast (r # xs))" for n using that assms(2) in_set_butlastD [OF that] by auto
  moreover have "n \<noteq> t" "n \<noteq> r" if "n \<in> set xs" for n using that assms(2) d by auto
  ultimately have "seg L' r xs" by (intro seg_frame [OF sg]) (simp_all add: L'_def del: last.simps)
  moreover have "l_next L' ?l = Some t" "l_prev L' t = Some ?l" "l_prev L' r = Some t" "l_next L' t = l_next L r"
    using tr by (simp_all add: L'_def del: last.simps)
  moreover have "l_next L r = Some (if xs = [] then z else hd xs)"
    using sg z by (cases xs) auto
  ultimately have "tlist L' r (xs @ [t]) (if xs = [] then z else hd xs)"
    using assms(2) d by (auto simp: tlist_def seg_snoc simp del: last.simps) (simp_all)
  moreover have "l_next L' n = l_next L n \<and> l_prev L' n = l_prev L n" if "n \<notin> set (t # r # xs)" for n
    using that l by (auto simp: L'_def simp del: last.simps)
  ultimately show ?thesis using that e by blast
qed

lemma filled_push:
  assumes "filled L r xs" "t \<notin> set (r # xs)"
  obtains L' where "push_back r t L = Some L'" "filled L' r (xs @ [t])"
    "\<And>n. n \<notin> set (t # r # xs) \<Longrightarrow> l_next L' n = l_next L n \<and> l_prev L' n = l_prev L n"
proof -
  obtain L' where L': "push_back r t L = Some L'"
      "tlist L' r (xs @ [t]) (if xs = [] then (if length xs \<le> 1 then r else hd xs) else hd xs)"
      "\<And>n. n \<notin> set (t # r # xs) \<Longrightarrow> l_next L' n = l_next L n \<and> l_prev L' n = l_prev L n"
    using tlist_push [OF assms(1) [unfolded filled_def] assms(2)] by blast
  have "(if length (xs @ [t]) \<le> 1 then r else hd (xs @ [t])) = (if xs = [] then (if length xs \<le> 1 then r else hd xs) else hd xs)"
    by (cases xs) simp_all
  then have "filled L' r (xs @ [t])" using L'(2) by (simp only: filled_def)
  then show ?thesis using that L' by blast
qed

lemma seg_shift:
  assumes "seg L r (x # ys)" "distinct (r # x # ys)" "q \<notin> set (x # ys)"
    "\<And>n. n \<in> set (butlast (x # ys)) \<Longrightarrow> l_next L' n = l_next L n" "\<And>n. n \<in> set ys \<Longrightarrow> l_prev L' n = l_prev L n"
    "l_next L' q = Some x" "l_prev L' x = Some q"
  shows "seg L' q (x # ys)"
proof -
  have "seg L x ys" using assms(1) by simp
  from seg_frame [OF this assms(4,5)] show ?thesis using assms(6,7) by simp
qed

lemma not_in_butlast: "distinct xs \<Longrightarrow> n \<in> set (butlast xs) \<Longrightarrow> n \<noteq> last xs"
proof (induction xs)
  case (Cons a xs)
  then show ?case using last_in_set [of xs] by (cases "xs = []") auto
qed simp

text \<open>Taking a filled list over closes it.\<close>

lemma ring_take_over:
  assumes "filled L src xs" "dst \<notin> set (src # xs)"
  obtains L' where "move_list dst src L = Some L'" "ring L' dst xs" "ring L' src []"
    "\<And>n. n \<notin> set (dst # src # xs) \<Longrightarrow> l_next L' n = l_next L n \<and> l_prev L' n = l_prev L n"
proof (cases xs)
  case Nil
  then have "list_empty src L" using assms(1) by (simp add: filled_def tlist_def list_empty_def)
  then have m: "move_list dst src L = Some (reset_list dst L)" by (simp add: move_list_def)
  have "ring (reset_list dst L) src []"
    using assms Nil by (simp add: ring_def filled_def tlist_def reset_list_def)
  then show ?thesis using Nil that [OF m] by (simp add: reset_ring) (simp add: reset_list_def)
next
  case (Cons x ys)
  let ?l = "last xs"
  have l: "?l \<in> set xs" "?l = last (src # xs)" using Cons by simp_all
  have d: "distinct (src # xs)" and sg: "seg L src xs" and pr: "l_prev L src = Some ?l"
    using assms(1) l(2) unfolding filled_def tlist_def by simp_all
  have nx: "l_next L src = Some x" using sg Cons by simp
  have ne: "x \<noteq> src" "x \<noteq> dst" "?l \<noteq> src" "?l \<noteq> dst" "dst \<noteq> src" "src \<notin> set xs" "dst \<notin> set xs"
    using d l(1) assms(2) Cons by auto
  define L' where "L' = \<lparr>l_next = (l_next L)(dst := Some x, ?l := Some dst, src := Some src),
      l_prev = (l_prev L)(dst := Some ?l, x := Some dst, src := Some src)\<rparr>"
  have e: "\<not> list_empty src L" using nx ne by (simp add: list_empty_def)
  have m: "move_list dst src L = Some L'"
    using e nx pr ne by (simp add: move_list_def L'_def set_prev_def set_next_def reset_list_def)
  have "seg L' dst (x # ys)"
  proof (rule seg_shift)
    show "seg L src (x # ys)" "distinct (src # x # ys)" "dst \<notin> set (x # ys)" using sg d ne Cons by simp_all
    show "l_next L' n = l_next L n" if "n \<in> set (butlast (x # ys))" for n
      using not_in_butlast [OF _ that] in_set_butlastD [OF that] d ne Cons by (auto simp: L'_def)
    show "l_prev L' n = l_prev L n" if "n \<in> set ys" for n using that d ne Cons by (auto simp: L'_def)
    show "l_next L' dst = Some x" "l_prev L' x = Some dst" using ne by (simp_all add: L'_def)
  qed
  then have "ring L' dst xs" using ne d l Cons by (auto simp: ring_def tlist_def L'_def)
  moreover have "ring L' src []" by (simp add: ring_def tlist_def L'_def)
  moreover have "l_next L' n = l_next L n \<and> l_prev L' n = l_prev L n" if "n \<notin> set (dst # src # xs)" for n
    using that l(1) Cons by (auto simp: L'_def)
  ultimately show ?thesis using that [OF m] by blast
qed

lemma tlist_pop:
  assumes "tlist L r (x # xs) z" "xs = [] \<longrightarrow> z = r"
  obtains L' where "pop_front r L = Some (Some x, L')" "tlist L' r xs z" "l_next L' x = None"
    "\<And>n. n \<notin> set (r # x # xs) \<Longrightarrow> l_next L' n = l_next L n \<and> l_prev L' n = l_prev L n"
proof -
  have d: "distinct (r # x # xs)" and sg: "seg L r (x # xs)" and lz: "l_prev L r = Some (last (x # xs))" "l_next L (last (x # xs)) = Some z"
    using assms(1) unfolding tlist_def by simp_all
  have nx: "l_next L r = Some x" "x \<noteq> r" using sg d by auto
  define h where "h = (if xs = [] then r else hd xs)"
  have h: "l_next L x = Some h" using sg lz assms(2) by (cases xs) (simp_all add: h_def)
  have hx: "h \<noteq> x" using d by (cases xs) (auto simp: h_def)
  define L' where "L' = \<lparr>l_next = (l_next L)(r := Some h, x := None), l_prev = (l_prev L)(h := Some r, x := None)\<rparr>"
  have p: "pop_front r L = Some (Some x, L')"
    using nx h hx by (simp add: pop_front_def list_empty_def L'_def set_prev_def null_node_def)
  have "tlist L' r xs z"
  proof (cases xs)
    case Nil
    then show ?thesis using d h assms(2) hx by (simp add: tlist_def L'_def h_def)
  next
    case (Cons y ys)
    have "seg L' r (y # ys)"
    proof (rule seg_shift)
      show "seg L x (y # ys)" "distinct (x # y # ys)" "r \<notin> set (y # ys)" using sg d Cons by simp_all
      show "l_next L' n = l_next L n" if "n \<in> set (butlast (y # ys))" for n
        using in_set_butlastD [OF that] d Cons by (auto simp: L'_def)
      show "l_prev L' n = l_prev L n" if "n \<in> set ys" for n using that d Cons by (auto simp: L'_def h_def)
      show "l_next L' r = Some y" "l_prev L' y = Some r" using nx hx d Cons by (auto simp: L'_def h_def)
    qed
    moreover have "last (y # ys) \<in> set (y # ys)" by (rule last_in_set) simp
    then have "last (y # ys) \<noteq> r" "last (y # ys) \<noteq> x" using d Cons by auto
    ultimately show ?thesis using d lz nx Cons by (simp add: tlist_def L'_def h_def)
  qed
  moreover have "h \<in> set (r # xs)" by (cases xs) (simp_all add: h_def)
  then have "l_next L' n = l_next L n \<and> l_prev L' n = l_prev L n" if "n \<notin> set (r # x # xs)" for n
    using that by (auto simp: L'_def)
  moreover have "l_next L' x = None" by (simp add: L'_def)
  ultimately show ?thesis using that [OF p] by blast
qed

lemma ring_pop:
  assumes "ring L r (x # xs)"
  obtains L' where "pop_front r L = Some (Some x, L')" "ring L' r xs" "l_next L' x = None"
    "\<And>n. n \<notin> set (r # x # xs) \<Longrightarrow> l_next L' n = l_next L n \<and> l_prev L' n = l_prev L n"
  using assms unfolding ring_def by (rule tlist_pop) (simp_all add: that ring_def)

lemma ring_pop_empty: "ring L r [] \<Longrightarrow> pop_front r L = Some (None, L)"
  by (simp add: ring_def tlist_def pop_front_def list_empty_def)

text \<open>Popping the last node of a list that does not end at its root brings the root to a node that
  has already been popped.\<close>

lemma last_pop_stale:
  assumes "tlist L r [x] z" "z \<noteq> r" "z \<noteq> x" "l_next L z = None"
  obtains L' where "pop_front r L = Some (Some x, L')" "l_next L' r = Some z" "pop_front r L' = None"
proof -
  let ?L = "\<lparr>l_next = (l_next L)(r := Some z, x := None), l_prev = (l_prev L)(z := Some r, x := None)\<rparr>"
  have "l_next L r = Some x" "x \<noteq> r" "l_next L x = Some z" using assms(1) by (auto simp: tlist_def)
  then have "pop_front r L = Some (Some x, ?L)"
    using assms(2-4) by (simp add: pop_front_def list_empty_def set_prev_def null_node_def)
  moreover have "l_next ?L r = Some z" using assms(1) by (simp add: tlist_def)
  moreover have "pop_front r ?L = None"
    using assms \<open>x \<noteq> r\<close> by (auto simp: pop_front_def list_empty_def set_prev_def)
  ultimately show ?thesis using that by blast
qed

end
