(* ===== verification/TimerQueue.thy ===== *)
theory TimerQueue
  imports TimerList "HOL-Library.Signed_Division"
begin

text \<open>
  The timer wheel \<open>KzNet/TimerQueue.h\<close>, \<open>TimerQueue.cpp\<close> with \<open>KzTimer/Timer.h\<close>: 4096 lists of
  timers, one tick of 10 ms per list, and a table of handles through which timers are cancelled.
  Timers live in a store of allocated blocks; \<open>new\<close> is the address that \<open>KzAlloc::malloc\<close> returns
  in a state. A callback is an opaque \<open>'j\<close>; \<open>act\<close> says which calls of the queue it makes. The result
  \<open>None\<close> is undefined behaviour: a null or freed timer, the wrong member of a union, or an overflow of
  \<open>int64_t\<close>, in which times are nanoseconds (\<open>i64\<close>; where the operands are quotients by the length of a tick or
  counters of ticks, no overflow is possible). The fields \<open>insertedAt\<close> (the tick at which the timer was
  last put into the wheel) and \<open>tlog\<close> record the history; no operation reads them.
\<close>

definition kWheelSize :: int where "kWheelSize = 4096"
definition kWheelMask :: int where "kWheelMask = kWheelSize - 1"
definition kTickNs :: int where "kTickNs = 10 * 1000 * 1000"

text \<open>The result of an operation on \<open>int64_t\<close>: overflow is undefined.\<close>

definition i64 :: "int \<Rightarrow> int option" where
  "i64 x = (if - (2 ^ 63) \<le> x \<and> x < 2 ^ 63 then Some x else None)"

record 'j timer =
  callback :: 'j
  expiration :: int
  intervalNs :: int
  t_sequence :: int
  slotIndex :: int
  rotationCount :: int
  handleIndex :: int
  repeat :: bool
  isStrict :: bool
  canceled :: bool
  insertedAt :: int

datatype handle_slot = HTimer nat | HFree int

record handle_entry =
  h_slot :: handle_slot
  h_seq :: int

text \<open>The history: a timer is created, asked to be cancelled, run (sequence number, tick of insertion,
  expiration, tick, repeating), dropped because it was cancelled.\<close>

datatype tevent = Created int | CancelAsked int | Fired int int int int bool | Dropped int

record 'j tq =
  lnk :: tlinks
  timers :: "nat \<Rightarrow> 'j timer option"
  startNs :: int
  currentTicks :: int
  timerCount :: nat
  freeHead :: int
  handles :: "handle_entry list"
  numCreated :: int
  tlog :: "tevent list"

definition tq_init :: "int \<Rightarrow> int \<Rightarrow> 'j tq" where
  "tq_init now created =
     \<lparr>lnk = \<lparr>l_next = (\<lambda>n. case n of Tm a \<Rightarrow> None | r \<Rightarrow> Some r), l_prev = (\<lambda>n. case n of Tm a \<Rightarrow> None | r \<Rightarrow> Some r)\<rparr>,
      timers = (\<lambda>_. None), startNs = now, currentTicks = 0, timerCount = 0, freeHead = - 1, handles = [],
      numCreated = created, tlog = []\<rparr>"

definition hasTimers :: "'j tq \<Rightarrow> bool" where
  "hasTimers q \<longleftrightarrow> timerCount q > 0"

subsection \<open>Timers\<close>

definition Timer :: "'j \<Rightarrow> int \<Rightarrow> int \<Rightarrow> bool \<Rightarrow> int \<Rightarrow> 'j timer" where
  "Timer cb when interval strict seq =
     \<lparr>callback = cb, expiration = when, intervalNs = interval, t_sequence = seq, slotIndex = - 1, rotationCount = 0,
      handleIndex = - 1, repeat = (interval > 0), isStrict = strict, canceled = False, insertedAt = 0\<rparr>"

definition restart :: "int \<Rightarrow> 'j timer \<Rightarrow> 'j timer option" where
  "restart now t =
     do {
       e \<leftarrow> i64 (if isStrict t then expiration t + intervalNs t else now + intervalNs t);
       Some (t\<lparr>expiration := e\<rparr>)
     }"

definition make_timer :: "('j tq \<Rightarrow> nat) \<Rightarrow> 'j \<Rightarrow> int \<Rightarrow> int \<Rightarrow> bool \<Rightarrow> 'j tq \<Rightarrow> nat \<times> 'j tq" where
  "make_timer new cb when interval strict q =
     (let a = new q
      in (a, q\<lparr>timers := (timers q)(a \<mapsto> Timer cb when interval strict (numCreated q)), lnk := null_node (Tm a) (lnk q),
               numCreated := numCreated q + 1, tlog := tlog q @ [Created (numCreated q)]\<rparr>))"

subsection \<open>The table of handles\<close>

definition allocSlot :: "nat \<Rightarrow> 'j tq \<Rightarrow> (int \<times> 'j tq) option" where
  "allocSlot a q =
     do {
       t \<leftarrow> timers q a;
       (index, q) \<leftarrow>
         (if freeHead q \<noteq> - 1
          then (case h_slot (handles q ! nat (freeHead q)) of
                  HFree n \<Rightarrow> Some (freeHead q, q\<lparr>freeHead := n\<rparr>)
                | HTimer _ \<Rightarrow> None)
          else Some (int (length (handles q)), q\<lparr>handles := handles q @ [\<lparr>h_slot = HFree 0, h_seq = 0\<rparr>]\<rparr>));
       Some (index, q\<lparr>handles := (handles q)[nat index := \<lparr>h_slot = HTimer a, h_seq = t_sequence t\<rparr>]\<rparr>)
     }"

definition freeSlot :: "int \<Rightarrow> 'j tq \<Rightarrow> 'j tq" where
  "freeSlot index q =
     q\<lparr>handles := (handles q)[nat index := \<lparr>h_slot = HFree (freeHead q), h_seq = - 1\<rparr>], freeHead := index\<rparr>"

definition freeTimer :: "nat \<Rightarrow> 'j tq \<Rightarrow> 'j tq option" where
  "freeTimer a q =
     do {
       t \<leftarrow> timers q a;
       let q = (if handleIndex t \<ge> 0 then freeSlot (handleIndex t) q else q);
       Some (q\<lparr>timers := (timers q)(a := None), lnk := null_node (Tm a) (lnk q)\<rparr>)
     }"

subsection \<open>Adding and cancelling\<close>

text \<open>The place of a timer in the wheel, which three functions compute with the same statements.\<close>

definition wheel_insert :: "nat \<Rightarrow> 'j tq \<Rightarrow> 'j tq option" where
  "wheel_insert a q =
     do {
       t \<leftarrow> timers q a;
       sinceStart \<leftarrow> i64 (expiration t - startNs q);
       let targetTicks = sinceStart sdiv kTickNs;
       let ticks = targetTicks - currentTicks q;
       let ticks = (if ticks \<le> 0 then 1 else ticks);
       let slot = (currentTicks q + ticks) AND kWheelMask;
       let t = t\<lparr>rotationCount := ticks sdiv kWheelSize, slotIndex := slot, insertedAt := currentTicks q\<rparr>;
       L \<leftarrow> push_back (Wheel (nat slot)) (Tm a) (lnk q);
       Some (q\<lparr>timers := (timers q)(a \<mapsto> t), lnk := L\<rparr>)
     }"

definition addTimerInLoop_timer :: "nat \<Rightarrow> 'j tq \<Rightarrow> ((int \<times> int) \<times> 'j tq) option" where
  "addTimerInLoop_timer a q =
     do {
       (idx, q) \<leftarrow> allocSlot a q;
       t \<leftarrow> timers q a;
       let q = q\<lparr>timers := (timers q)(a \<mapsto> t\<lparr>handleIndex := idx\<rparr>)\<rparr>;
       q \<leftarrow> wheel_insert a q;
       Some ((idx, t_sequence t), q\<lparr>timerCount := wadd (timerCount q) 1\<rparr>)
     }"

definition addTimerDetachedInLoop :: "nat \<Rightarrow> 'j tq \<Rightarrow> 'j tq option" where
  "addTimerDetachedInLoop a q =
     do {
       t \<leftarrow> timers q a;
       let q = q\<lparr>timers := (timers q)(a \<mapsto> t\<lparr>handleIndex := - 1\<rparr>)\<rparr>;
       q \<leftarrow> wheel_insert a q;
       Some (q\<lparr>timerCount := wadd (timerCount q) 1\<rparr>)
     }"

definition addTimerInLoop :: "('j tq \<Rightarrow> nat) \<Rightarrow> 'j \<Rightarrow> int \<Rightarrow> int \<Rightarrow> bool \<Rightarrow> 'j tq \<Rightarrow> ((int \<times> int) \<times> 'j tq) option" where
  "addTimerInLoop new cb when interval strict q =
     (case make_timer new cb when interval strict q of (a, q) \<Rightarrow> addTimerInLoop_timer a q)"

definition addTimerDetached :: "('j tq \<Rightarrow> nat) \<Rightarrow> 'j \<Rightarrow> int \<Rightarrow> int \<Rightarrow> bool \<Rightarrow> 'j tq \<Rightarrow> 'j tq option" where
  "addTimerDetached new cb when interval strict q =
     (case make_timer new cb when interval strict q of (a, q) \<Rightarrow> addTimerDetachedInLoop a q)"

definition cancel :: "int \<Rightarrow> int \<Rightarrow> 'j tq \<Rightarrow> 'j tq option" where
  "cancel idx seq q =
     (if idx < 0 \<or> idx \<ge> int (length (handles q)) \<or> seq \<noteq> h_seq (handles q ! nat idx) then Some q
      else (case h_slot (handles q ! nat idx) of
              HFree _ \<Rightarrow> None
            | HTimer a \<Rightarrow> do {
                t \<leftarrow> timers q a;
                Some (q\<lparr>timers := (timers q)(a \<mapsto> t\<lparr>canceled := True\<rparr>), tlog := tlog q @ [CancelAsked (t_sequence t)]\<rparr>)
              }))"

text \<open>The batches. A request is a callback, an expiration, an interval and the strict flag.\<close>

fun addTimersInLoop :: "('j tq \<Rightarrow> nat) \<Rightarrow> ('j \<times> int \<times> int \<times> bool) list \<Rightarrow> 'j tq \<Rightarrow> ((int \<times> int) list \<times> 'j tq) option" where
  "addTimersInLoop new [] q = Some ([], q)"
| "addTimersInLoop new ((cb, when, interval, strict) # reqs) q =
     do {
       (tid, q) \<leftarrow> addTimerInLoop new cb when interval strict q;
       (tids, q) \<leftarrow> addTimersInLoop new reqs q;
       Some (tid # tids, q)
     }"

fun addTimersDetachedInLoop :: "('j tq \<Rightarrow> nat) \<Rightarrow> ('j \<times> int \<times> int \<times> bool) list \<Rightarrow> 'j tq \<Rightarrow> 'j tq option" where
  "addTimersDetachedInLoop new [] q = Some q"
| "addTimersDetachedInLoop new ((cb, when, interval, strict) # reqs) q =
     addTimerDetached new cb when interval strict q \<bind> addTimersDetachedInLoop new reqs"

fun cancel_all :: "(int \<times> int) list \<Rightarrow> 'j tq \<Rightarrow> 'j tq option" where
  "cancel_all [] q = Some q"
| "cancel_all ((idx, seq) # tids) q = cancel idx seq q \<bind> cancel_all tids"

text \<open>The calls a callback, the owner of the loop or (through \<open>runInLoop\<close>) another thread makes.\<close>

datatype 'j call =
    AddInLoop 'j int int bool
  | AddDetached 'j int int bool
  | AddAll "('j \<times> int \<times> int \<times> bool) list"
  | AddAllDetached "('j \<times> int \<times> int \<times> bool) list"
  | Cancel int int
  | CancelAll "(int \<times> int) list"

fun do_call :: "('j tq \<Rightarrow> nat) \<Rightarrow> 'j call \<Rightarrow> 'j tq \<Rightarrow> 'j tq option" where
  "do_call new (AddInLoop cb when interval strict) q = map_option snd (addTimerInLoop new cb when interval strict q)"
| "do_call new (AddDetached cb when interval strict) q = addTimerDetached new cb when interval strict q"
| "do_call new (AddAll reqs) q = map_option snd (addTimersInLoop new reqs q)"
| "do_call new (AddAllDetached reqs) q = addTimersDetachedInLoop new reqs q"
| "do_call new (Cancel idx seq) q = cancel idx seq q"
| "do_call new (CancelAll tids) q = cancel_all tids q"

primrec do_calls :: "('j tq \<Rightarrow> nat) \<Rightarrow> 'j call list \<Rightarrow> 'j tq \<Rightarrow> 'j tq option" where
  "do_calls new [] q = Some q"
| "do_calls new (c # cs) q = do_call new c q \<bind> do_calls new cs"

subsection \<open>Expiry\<close>

definition discard :: "nat \<Rightarrow> 'j tq \<Rightarrow> 'j tq option" where
  "discard a q = freeTimer a (q\<lparr>timerCount := wsub (timerCount q) 1\<rparr>)"

definition discard_canceled :: "nat \<Rightarrow> 'j timer \<Rightarrow> 'j tq \<Rightarrow> 'j tq option" where
  "discard_canceled a t q = discard a (q\<lparr>tlog := tlog q @ [Dropped (t_sequence t)]\<rparr>)"

definition fire :: "('j tq \<Rightarrow> nat) \<Rightarrow> ('j \<Rightarrow> 'j tq \<Rightarrow> 'j call list) \<Rightarrow> 'j timer \<Rightarrow> 'j tq \<Rightarrow> 'j tq option" where
  "fire new act t q =
     (let q = q\<lparr>tlog := tlog q @ [Fired (t_sequence t) (insertedAt t) (expiration t) (currentTicks q) (repeat t)]\<rparr>
      in do_calls new (act (callback t) q) q)"

text \<open>What the loop does with a timer that it has popped; \<open>now\<close> is the logical time of the tick.\<close>

definition expire_one :: "('j tq \<Rightarrow> nat) \<Rightarrow> ('j \<Rightarrow> 'j tq \<Rightarrow> 'j call list) \<Rightarrow> nat \<Rightarrow> int \<Rightarrow> nat \<Rightarrow> 'j tq \<Rightarrow> 'j tq option" where
  "expire_one new act slot now a q =
     do {
       t \<leftarrow> timers q a;
       if canceled t then discard_canceled a t q
       else if rotationCount t > 0 then do {
         L \<leftarrow> push_back (Wheel slot) (Tm a) (lnk q);
         Some (q\<lparr>timers := (timers q)(a \<mapsto> t\<lparr>rotationCount := rotationCount t - 1\<rparr>), lnk := L\<rparr>)
       }
       else do {
         q \<leftarrow> fire new act t q;
         t \<leftarrow> timers q a;
         if canceled t then discard_canceled a t q
         else if repeat t then do {
           t \<leftarrow> restart now t;
           wheel_insert a (q\<lparr>timers := (timers q)(a \<mapsto> t)\<rparr>)
         }
         else discard a q
       }
     }"

partial_function (option) process_loop ::
  "('j tq \<Rightarrow> nat) \<Rightarrow> ('j \<Rightarrow> 'j tq \<Rightarrow> 'j call list) \<Rightarrow> nat \<Rightarrow> int \<Rightarrow> 'j tq \<Rightarrow> 'j tq option" where
  "process_loop new act slot now q =
     do {
       (node, L) \<leftarrow> pop_front Pending (lnk q);
       (case node of
          None \<Rightarrow> Some (q\<lparr>lnk := L\<rparr>)
        | Some n \<Rightarrow>
            (case n of
               Tm a \<Rightarrow> expire_one new act slot now a (q\<lparr>lnk := L\<rparr>) \<bind> process_loop new act slot now
             | Wheel s \<Rightarrow> None
             | Pending \<Rightarrow> None))
     }"

definition processExpiredTimers :: "('j tq \<Rightarrow> nat) \<Rightarrow> ('j \<Rightarrow> 'j tq \<Rightarrow> 'j call list) \<Rightarrow> 'j tq \<Rightarrow> 'j tq option" where
  "processExpiredTimers new act q =
     do {
       let slot = nat (currentTicks q AND kWheelMask);
       L \<leftarrow> move_list Pending (Wheel slot) (lnk q);
       elapsed \<leftarrow> i64 (currentTicks q * kTickNs);
       now \<leftarrow> i64 (startNs q + elapsed);
       process_loop new act slot now (q\<lparr>lnk := L\<rparr>)
     }"

text \<open>\<open>advanceTo\<close>: the loop runs while \<open>_currentTicks < targetTicks\<close>; only the loop moves \<open>_currentTicks\<close>.\<close>

primrec advance_ticks :: "('j tq \<Rightarrow> nat) \<Rightarrow> ('j \<Rightarrow> 'j tq \<Rightarrow> 'j call list) \<Rightarrow> nat \<Rightarrow> 'j tq \<Rightarrow> 'j tq option" where
  "advance_ticks new act 0 q = Some q"
| "advance_ticks new act (Suc n) q =
     processExpiredTimers new act (q\<lparr>currentTicks := currentTicks q + 1\<rparr>) \<bind> advance_ticks new act n"

definition advanceTo :: "('j tq \<Rightarrow> nat) \<Rightarrow> ('j \<Rightarrow> 'j tq \<Rightarrow> 'j call list) \<Rightarrow> int \<Rightarrow> 'j tq \<Rightarrow> 'j tq option" where
  "advanceTo new act now q =
     do {
       sinceStart \<leftarrow> i64 (now - startNs q);
       let targetTicks = sinceStart sdiv kTickNs;
       advance_ticks new act (nat (targetTicks - currentTicks q)) q
     }"

subsection \<open>Destruction\<close>

partial_function (option) destroy_list :: "link \<Rightarrow> 'j tq \<Rightarrow> 'j tq option" where
  "destroy_list r q =
     do {
       (node, L) \<leftarrow> pop_front r (lnk q);
       (case node of
          None \<Rightarrow> Some (q\<lparr>lnk := L\<rparr>)
        | Some n \<Rightarrow>
            (case n of
               Tm a \<Rightarrow> (if timers q a = None then None else destroy_list r (q\<lparr>lnk := L, timers := (timers q)(a := None)\<rparr>))
             | Wheel s \<Rightarrow> None
             | Pending \<Rightarrow> None))
     }"

primrec destroy_lists :: "nat \<Rightarrow> 'j tq \<Rightarrow> 'j tq option" where
  "destroy_lists 0 q = Some q"
| "destroy_lists (Suc n) q = destroy_lists n q \<bind> destroy_list (Wheel n)"

definition destroy_queue :: "'j tq \<Rightarrow> 'j tq option" where
  "destroy_queue q = destroy_lists (nat kWheelSize) q"

subsection \<open>Runs\<close>

text \<open>What \<open>malloc\<close> promises, and what may be passed: no sequence number is negative, an expiration is not
  before the epoch, and an interval is at most \<open>2^61\<close> nanoseconds (73 years); clocks show at most \<open>2^62\<close>
  nanoseconds (the year 2116).\<close>

definition fresh :: "('j tq \<Rightarrow> nat) \<Rightarrow> bool" where
  "fresh new \<longleftrightarrow> (\<forall>q. finite (dom (timers q)) \<longrightarrow> new q \<notin> dom (timers q))"

definition time_ok :: "int \<Rightarrow> int \<Rightarrow> bool" where
  "time_ok when interval \<longleftrightarrow> 0 \<le> when \<and> when < 2 ^ 63 \<and> interval \<le> 2 ^ 61"

definition clock_ok :: "int \<Rightarrow> bool" where
  "clock_ok now \<longleftrightarrow> 0 \<le> now \<and> now \<le> 2 ^ 62"

fun call_ok :: "'j call \<Rightarrow> bool" where
  "call_ok (AddInLoop cb when interval strict) = time_ok when interval"
| "call_ok (AddDetached cb when interval strict) = time_ok when interval"
| "call_ok (AddAll reqs) = list_all (\<lambda>(cb, when, interval, strict). time_ok when interval) reqs"
| "call_ok (AddAllDetached reqs) = list_all (\<lambda>(cb, when, interval, strict). time_ok when interval) reqs"
| "call_ok (Cancel idx seq) = (seq \<noteq> - 1)"
| "call_ok (CancelAll tids) = list_all (\<lambda>(idx, seq). seq \<noteq> - 1) tids"

text \<open>Any number of calls and advances, in any order, from the constructor; the numbers of timers are
  shared with the queues of the other event loops.\<close>

inductive tq_run :: "('j tq \<Rightarrow> nat) \<Rightarrow> ('j \<Rightarrow> 'j tq \<Rightarrow> 'j call list) \<Rightarrow> 'j tq \<Rightarrow> bool" for new act where
  tq_start: "0 \<le> n \<Longrightarrow> clock_ok now \<Longrightarrow> tq_run new act (tq_init now n)"
| tq_call: "tq_run new act q \<Longrightarrow> call_ok c \<Longrightarrow> do_call new c q = Some q' \<Longrightarrow> tq_run new act q'"
| tq_other: "tq_run new act q \<Longrightarrow> tq_run new act (q\<lparr>numCreated := numCreated q + 1\<rparr>)"
| tq_advance: "tq_run new act q \<Longrightarrow> clock_ok now \<Longrightarrow> advanceTo new act now q = Some q' \<Longrightarrow> tq_run new act q'"

end
