(* ===== verification/TimerInv.thy ===== *)
theory TimerInv
  imports TimerQueue
begin

text \<open>
  The invariant of the timer wheel. \<open>W s\<close> are the timers in the list of slot \<open>s\<close>, \<open>P\<close> the timers that
  are being processed, \<open>X\<close> the timers in no list (the one whose callback runs, or one just made) and
  \<open>fl\<close> the free handles. A timer that waits in slot \<open>s\<close> with \<open>r\<close> rotations left is run at the tick
  \<open>next_visit cur s + 4096 * r\<close>, and that is \<open>due_of\<close>: the tick its expiration asks for, or one turn of the
  wheel later when the distance is a multiple of the wheel.
\<close>

subsection \<open>Ticks\<close>

text \<open>The tick of an expiration; the tick that a timer inserted at tick \<open>ins\<close> asks for, its own or the next one
  when that is over; and the tick at which the wheel comes to run it.\<close>

definition tick_of :: "'j tq \<Rightarrow> int \<Rightarrow> int" where
  "tick_of q e = (e - startNs q) sdiv kTickNs"

definition asked_tick :: "int \<Rightarrow> int \<Rightarrow> int" where
  "asked_tick ins target = max (ins + 1) target"

definition due_of :: "int \<Rightarrow> int \<Rightarrow> int" where
  "due_of ins target =
     (let k = max 1 (target - ins) in ins + k + (if kWheelSize dvd k then kWheelSize else 0))"

definition next_visit :: "int \<Rightarrow> nat \<Rightarrow> int" where
  "next_visit cur s = cur + 1 + (int s - (cur + 1)) mod kWheelSize"

definition slot_at :: "int \<Rightarrow> nat" where
  "slot_at cur = nat (cur AND kWheelMask)"

lemma and_wheel_mask: "(x::int) AND kWheelMask = x mod kWheelSize"
proof -
  have "kWheelMask = mask 12" by (simp add: kWheelMask_def kWheelSize_def mask_eq_exp_minus_1)
  then show ?thesis unfolding \<open>kWheelMask = mask 12\<close> by (simp add: kWheelSize_def take_bit_eq_mask [symmetric] take_bit_eq_mod)
qed

lemma pred_mod:
  fixes k m :: int
  assumes "0 < m"
  shows "(k - 1) mod m = (if k mod m = 0 then m - 1 else k mod m - 1)"
proof (cases "k mod m = 0")
  case True
  then have "k - 1 = m * (k div m - 1) + (m - 1)" using mult_div_mod_eq [of m k] by (simp add: algebra_simps)
  then show ?thesis using True assms by (intro trans [OF int_mod_pos_eq [of _ _ "k div m - 1" "m - 1"]]) simp_all
next
  case False
  have "k - 1 = m * (k div m) + (k mod m - 1)" by simp
  moreover have "0 \<le> k mod m - 1" "k mod m - 1 < m"
    using False assms pos_mod_sign [of m k] pos_mod_bound [of m k] by linarith+
  ultimately show ?thesis using False by (intro trans [OF int_mod_pos_eq [of _ _ "k div m" "k mod m - 1"]]) simp_all
qed

lemma slot_at_bounds: "slot_at cur < 4096" "int (slot_at cur) = cur mod 4096"
  by (simp_all add: slot_at_def and_wheel_mask kWheelSize_def nat_less_iff)

lemma visit_insert:
  assumes "1 \<le> k"
  shows "next_visit cur (slot_at (cur + k)) + kWheelSize * (k sdiv kWheelSize)
    = cur + k + (if kWheelSize dvd k then kWheelSize else 0)"
proof -
  have d: "k sdiv kWheelSize = k div kWheelSize" using assms by (simp add: signed_divide_int_def kWheelSize_def sgn_if)
  have "(int (slot_at (cur + k)) - (cur + 1)) mod kWheelSize = (k - 1) mod kWheelSize"
    using slot_at_bounds(2) [of "cur + k"] by (simp add: kWheelSize_def mod_diff_left_eq)
  moreover have "(k - 1) mod kWheelSize = (if k mod kWheelSize = 0 then kWheelSize - 1 else k mod kWheelSize - 1)"
    by (rule pred_mod) (simp add: kWheelSize_def)
  moreover have "kWheelSize * (k div kWheelSize) + k mod kWheelSize = k" by simp
  ultimately show ?thesis
    unfolding d next_visit_def dvd_eq_mod_eq_0 by (simp only: split: if_split) linarith
qed

lemma visit_now: "next_visit (T - 1) (slot_at T) = T"
  using slot_at_bounds(2) [of T] by (simp add: next_visit_def kWheelSize_def mod_diff_left_eq)

lemma visit_again: "next_visit T (slot_at T) = T + kWheelSize"
proof -
  have "(int (slot_at T) - (T + 1)) mod 4096 = (T mod 4096 - (T + 1)) mod 4096" by (simp add: slot_at_bounds)
  also have "\<dots> = (- 1) mod 4096" by (simp add: mod_diff_left_eq)
  finally show ?thesis by (simp add: next_visit_def kWheelSize_def)
qed

lemma visit_other:
  assumes "s \<noteq> slot_at T" "s < 4096"
  shows "next_visit (T - 1) s = next_visit T s"
proof -
  have "int s \<noteq> T mod 4096" using assms(1) slot_at_bounds(2) [of T] by (metis of_nat_eq_iff)
  moreover have "int s mod 4096 = int s" using assms(2) by simp
  ultimately have "(int s - T) mod 4096 \<noteq> 0" by (metis mod_eq_dvd_iff dvd_eq_mod_eq_0)
  then have "(int s - T - 1) mod 4096 = (int s - T) mod 4096 - 1" by (subst pred_mod) simp_all
  then show ?thesis by (simp add: next_visit_def kWheelSize_def diff_diff_eq)
qed

subsection \<open>The invariant\<close>

definition waiting :: "'j tq \<Rightarrow> nat \<Rightarrow> int \<Rightarrow> nat \<Rightarrow> bool" where
  "waiting q s k a \<longleftrightarrow> (\<exists>t. timers q a = Some t \<and> slotIndex t = int s \<and> 0 \<le> rotationCount t
     \<and> due_of (insertedAt t) (tick_of q (expiration t)) = k + kWheelSize * rotationCount t)"

definition wheel_ok :: "'j tq \<Rightarrow> (nat \<Rightarrow> nat list) \<Rightarrow> nat list \<Rightarrow> nat set \<Rightarrow> bool" where
  "wheel_ok q W P X \<longleftrightarrow>
     (\<forall>s < 4096. filled (lnk q) (Wheel s) (map Tm (W s))) \<and> (\<forall>s \<ge> 4096. W s = [])
     \<and> ring (lnk q) Pending (map Tm P)
     \<and> (\<forall>s. \<forall>a \<in> set (W s). waiting q s (next_visit (currentTicks q) s) a)
     \<and> (\<forall>a \<in> set P. waiting q (slot_at (currentTicks q)) (currentTicks q) a)
     \<and> (\<forall>s. \<forall>a \<in> set P \<union> X. a \<notin> set (W s)) \<and> set P \<inter> X = {} \<and> finite X
     \<and> dom (timers q) = (\<Union>s. set (W s)) \<union> set P \<union> X"

fun handle_chain :: "int \<Rightarrow> nat list \<Rightarrow> handle_entry list \<Rightarrow> bool" where
  "handle_chain h [] hs \<longleftrightarrow> h = - 1"
| "handle_chain h (i # is) hs \<longleftrightarrow> h = int i \<and> i < length hs \<and> h_seq (hs ! i) = - 1
     \<and> (\<exists>n. h_slot (hs ! i) = HFree n \<and> handle_chain n is hs)"

text \<open>Handles: \<open>v\<close> gives a timer's sequence number and handle index, \<open>nc\<close> the number of timers created.\<close>

definition tid :: "'j tq \<Rightarrow> nat \<Rightarrow> (int \<times> int) option" where
  "tid q a = map_option (\<lambda>t. (t_sequence t, handleIndex t)) (timers q a)"

definition holds :: "(nat \<Rightarrow> (int \<times> int) option) \<Rightarrow> handle_entry list \<Rightarrow> nat list \<Rightarrow> nat \<Rightarrow> nat \<Rightarrow> bool" where
  "holds v hs fl i a \<longleftrightarrow> i < length hs \<and> i \<notin> set fl \<and> (\<exists>s. v a = Some (s, int i) \<and> hs ! i = \<lparr>h_slot = HTimer a, h_seq = s\<rparr>)"

definition ids_inv :: "(nat \<Rightarrow> (int \<times> int) option) \<Rightarrow> handle_entry list \<Rightarrow> int \<Rightarrow> int \<Rightarrow> nat list \<Rightarrow> bool" where
  "ids_inv v hs fh nc fl \<longleftrightarrow> distinct fl \<and> handle_chain fh fl hs
     \<and> (\<forall>i < length hs. i \<notin> set fl \<longrightarrow> (\<exists>a. holds v hs fl i a))
     \<and> (\<forall>a s h. v a = Some (s, h) \<longrightarrow> 0 \<le> s \<and> s < nc \<and> (h = - 1 \<or> (\<exists>i. h = int i \<and> holds v hs fl i a)))
     \<and> (\<forall>a b s h h'. v a = Some (s, h) \<longrightarrow> v b = Some (s, h') \<longrightarrow> a = b)"

definition ids_ok :: "'j tq \<Rightarrow> nat list \<Rightarrow> bool" where
  "ids_ok q fl \<longleftrightarrow> 0 \<le> numCreated q \<and> ids_inv (tid q) (handles q) (freeHead q) (numCreated q) fl"

definition one_shot :: "int \<Rightarrow> tevent \<Rightarrow> bool" where
  "one_shot s e \<longleftrightarrow> (\<exists>i x T. e = Fired s i x T False)"

text \<open>The history: \<open>v\<close> gives a timer's sequence number and whether it is cancelled, \<open>F\<close> are the
  timers that have been run for the last time and are not yet freed.\<close>

definition tlive :: "'j tq \<Rightarrow> nat \<Rightarrow> (int \<times> bool) option" where
  "tlive q a = map_option (\<lambda>t. (t_sequence t, canceled t)) (timers q a)"

text \<open>No timer is run after it was cancelled.\<close>

definition cancelled_stay :: "tevent list \<Rightarrow> bool" where
  "cancelled_stay es \<longleftrightarrow> (\<forall>xs ys s i x T r. es = xs @ Fired s i x T r # ys \<longrightarrow> CancelAsked s \<notin> set xs)"

definition log_inv :: "(nat \<Rightarrow> (int \<times> bool) option) \<Rightarrow> tevent list \<Rightarrow> (int \<Rightarrow> int) \<Rightarrow> int \<Rightarrow> int \<Rightarrow> nat set \<Rightarrow> bool" where
  "log_inv v es tick cur nc F \<longleftrightarrow>
     (\<forall>s i e T r. Fired s i e T r \<in> set es \<longrightarrow> T = due_of i (tick e) \<and> T \<le> cur)
     \<and> (\<forall>s. Created s \<in> set es \<longrightarrow>
          s < nc \<and> ((\<exists>a c. v a = Some (s, c)) \<or> Dropped s \<in> set es \<or> (\<exists>e \<in> set es. one_shot s e)))
     \<and> (\<forall>a s c. v a = Some (s, c) \<longrightarrow> Created s \<in> set es \<and> (c \<longleftrightarrow> CancelAsked s \<in> set es)
          \<and> (a \<notin> F \<longrightarrow> (\<forall>e \<in> set es. \<not> one_shot s e)))
     \<and> (\<forall>s. Dropped s \<in> set es \<longrightarrow> CancelAsked s \<in> set es)
     \<and> (\<forall>s. CancelAsked s \<in> set es \<longrightarrow> s < nc) \<and> cancelled_stay es
     \<and> (\<forall>s. length (filter (one_shot s) es) \<le> 1 \<and> (\<forall>e \<in> set es. one_shot s e \<longrightarrow> s < nc))"

definition log_ok :: "'j tq \<Rightarrow> nat set \<Rightarrow> bool" where
  "log_ok q F \<longleftrightarrow> log_inv (tlive q) (tlog q) (tick_of q) (currentTicks q) (numCreated q) F"

definition count_ok :: "'j tq \<Rightarrow> bool" where
  "count_ok q \<longleftrightarrow> timerCount q = card (dom (timers q)) mod W64"

text \<open>No time in use is near the bounds of \<open>int64_t\<close>.\<close>

definition timer_fits :: "'j timer \<Rightarrow> bool" where
  "timer_fits t \<longleftrightarrow> 0 \<le> expiration t \<and> expiration t < 2 ^ 63 \<and> intervalNs t \<le> 2 ^ 61 \<and> (repeat t \<longrightarrow> 0 < intervalNs t)"

definition times_ok :: "'j tq \<Rightarrow> bool" where
  "times_ok q \<longleftrightarrow> 0 \<le> startNs q \<and> 0 \<le> currentTicks q \<and> startNs q + currentTicks q * kTickNs \<le> 2 ^ 62
     \<and> (\<forall>a t. timers q a = Some t \<longrightarrow> timer_fits t)"

definition tq_ok :: "'j tq \<Rightarrow> (nat \<Rightarrow> nat list) \<Rightarrow> nat list \<Rightarrow> nat set \<Rightarrow> nat set \<Rightarrow> nat list \<Rightarrow> bool" where
  "tq_ok q W P X F fl \<longleftrightarrow> wheel_ok q W P X \<and> ids_ok q fl \<and> log_ok q F \<and> count_ok q \<and> times_ok q"

subsection \<open>Handles\<close>

lemma holdsD: "holds v hs fl i a \<Longrightarrow> i < length hs \<and> i \<notin> set fl \<and> (\<exists>s. v a = Some (s, int i) \<and> hs ! i = \<lparr>h_slot = HTimer a, h_seq = s\<rparr>)"
  by (simp add: holds_def)

lemma handle_chain_frame:
  "handle_chain h fl hs \<Longrightarrow> (\<And>i. i \<in> set fl \<Longrightarrow> i < length hs' \<and> hs' ! i = hs ! i) \<Longrightarrow> handle_chain h fl hs'"
  by (induction h fl hs rule: handle_chain.induct) auto

lemma handle_chain_mem: "handle_chain h fl hs \<Longrightarrow> i \<in> set fl \<Longrightarrow> i < length hs \<and> h_seq (hs ! i) = - 1 \<and> (\<exists>n. h_slot (hs ! i) = HFree n)"
  by (induction h fl hs rule: handle_chain.induct) auto

lemma handle_chain_update:
  assumes "handle_chain h fl hs" "i \<notin> set fl"
  shows "handle_chain h fl (hs[i := x])"
proof (rule handle_chain_frame [OF assms(1)])
  show "k < length (hs[i := x]) \<and> hs[i := x] ! k = hs ! k" if "k \<in> set fl" for k
    using handle_chain_mem [OF assms(1) that] assms(2) that by (metis length_list_update nth_list_update_neq)
qed

lemma not_holds [simp]: "\<not> holds v hs fl (length hs) b" "v a = None \<Longrightarrow> \<not> holds v hs fl i a" "v a = Some (s, - 1) \<Longrightarrow> \<not> holds v hs fl i a"
  by (simp_all add: holds_def)

lemma handle_chain_head: "handle_chain h fl hs \<Longrightarrow> h = (if fl = [] then - 1 else int (hd fl))"
  by (cases fl) auto

lemma ids_seq:
  assumes "ids_inv v hs fh nc fl" "v a = Some (s, h)"
  shows "0 \<le> s" "s < nc" "h = - 1 \<or> (\<exists>i. h = int i \<and> holds v hs fl i a)"
  using assms unfolding ids_inv_def by blast+

lemma ids_inj: "ids_inv v hs fh nc fl \<Longrightarrow> v a = Some (s, h) \<Longrightarrow> v b = Some (s, h') \<Longrightarrow> a = b"
  unfolding ids_inv_def by blast

lemma holds_unique:
  assumes "holds v hs fl i a" "holds v hs fl i b"
  shows "a = b"
  using assms by (auto simp: holds_def)

text \<open>Changing one entry of the table and one timer keeps the invariant of the others.\<close>

lemma ids_change:
  assumes "ids_inv v hs fh nc fl"
    and len: "length hs \<le> length hs'" and hs: "\<And>i. i < length hs \<Longrightarrow> i \<noteq> j \<Longrightarrow> hs' ! i = hs ! i"
    and v: "\<And>b. b \<noteq> a \<Longrightarrow> v' b = v b"
    and fl: "distinct fl'" "handle_chain fh' fl' hs'" "\<And>i. i < length hs \<Longrightarrow> i \<noteq> j \<Longrightarrow> i \<in> set fl' \<longleftrightarrow> i \<in> set fl"
    and j: "\<And>b. b \<noteq> a \<Longrightarrow> \<not> holds v hs fl j b" "\<And>i. i \<noteq> j \<Longrightarrow> \<not> holds v hs fl i a" "\<And>i. length hs \<le> i \<Longrightarrow> i < length hs' \<Longrightarrow> i = j"
    and jj: "j < length hs' \<Longrightarrow> j \<notin> set fl' \<Longrightarrow> holds v' hs' fl' j a"
    and a: "\<And>s h. v' a = Some (s, h) \<Longrightarrow> 0 \<le> s \<and> s < nc' \<and> (h = - 1 \<or> h = int j \<and> holds v' hs' fl' j a) \<and> (\<forall>b h'. b \<noteq> a \<longrightarrow> v b \<noteq> Some (s, h'))"
    and nc: "nc \<le> nc'"
  shows "ids_inv v' hs' fh' nc' fl'"
proof -
  have other: "holds v' hs' fl' i b" if "holds v hs fl i b" "i \<noteq> j" for i b
  proof -
    have "b \<noteq> a" using that j(2) by blast
    then show ?thesis using that hs [of i] v [of b] fl(3) [of i] len by (simp add: holds_def)
  qed
  have "\<exists>b. holds v' hs' fl' i b" if "i < length hs'" "i \<notin> set fl'" for i
  proof (cases "i = j")
    case True
    then show ?thesis using jj that by blast
  next
    case False
    then have i: "i < length hs" "i \<notin> set fl" using j(3) [of i] that fl(3) [of i] by force+
    then obtain b where "holds v hs fl i b" using assms(1) unfolding ids_inv_def by blast
    then show ?thesis using other False by blast
  qed
  moreover have "0 \<le> s \<and> s < nc' \<and> (h = - 1 \<or> (\<exists>i. h = int i \<and> holds v' hs' fl' i b))" if "v' b = Some (s, h)" for b s h
  proof (cases "b = a")
    case True
    then show ?thesis using a that by blast
  next
    case False
    then have vb: "v b = Some (s, h)" using v that by simp
    have "holds v' hs' fl' i b" if "holds v hs fl i b" for i using other that j(1) [OF False] by blast
    then show ?thesis using ids_seq [OF assms(1) vb] nc by fastforce
  qed
  moreover have "b = c" if "v' b = Some (s, h)" "v' c = Some (s, h')" for b c s h h'
  proof (cases "b = a \<or> c = a")
    case True
    then show ?thesis using that a v by metis
  next
    case False
    then show ?thesis using that v ids_inj [OF assms(1)] by metis
  qed
  ultimately show ?thesis unfolding ids_inv_def using fl(1,2) by blast
qed

lemma ids_new:
  assumes "ids_inv v hs fh nc fl" "v a = None" "0 \<le> nc"
  shows "ids_inv (v(a \<mapsto> (nc, - 1))) hs fh (nc + 1) fl"
proof (rule ids_change [OF assms(1), where j = "length hs" and a = a])
  show "distinct fl" "handle_chain fh fl hs" using assms(1) unfolding ids_inv_def by blast+
  show "0 \<le> s \<and> s < nc + 1 \<and> (h = - 1 \<or> h = int (length hs) \<and> holds (v(a \<mapsto> (nc, - 1))) hs fl (length hs) a)
      \<and> (\<forall>b h'. b \<noteq> a \<longrightarrow> v b \<noteq> Some (s, h'))" if "(v(a \<mapsto> (nc, - 1))) a = Some (s, h)" for s h
    using that assms(3) ids_seq(2) [OF assms(1)] by fastforce
qed (simp_all add: assms(2))

lemma ids_take:
  assumes "ids_inv v hs fh nc (i # fl)" "v a = Some (s, - 1)"
  obtains n where "fh = int i" "h_slot (hs ! i) = HFree n"
    "ids_inv (v(a \<mapsto> (s, int i))) (hs[i := \<lparr>h_slot = HTimer a, h_seq = s\<rparr>]) n nc fl"
proof -
  have ch: "handle_chain fh (i # fl) hs" and d: "distinct (i # fl)" using assms(1) unfolding ids_inv_def by blast+
  obtain n where n: "fh = int i" "i < length hs" "h_slot (hs ! i) = HFree n" "handle_chain n fl hs" using ch by auto
  let ?hs = "hs[i := \<lparr>h_slot = HTimer a, h_seq = s\<rparr>]" let ?v = "v(a \<mapsto> (s, int i))"
  have h: "holds ?v ?hs fl i a" using n d by (simp add: holds_def)
  have "ids_inv ?v ?hs n nc fl"
  proof (rule ids_change [OF assms(1), where j = i and a = a])
    show "distinct fl" "handle_chain n fl ?hs" using n(4) d by (simp_all add: handle_chain_update)
    show "holds ?v ?hs fl i a" by (rule h)
    show "\<not> holds v hs (i # fl) i b" for b by (simp add: holds_def)
    show "\<not> holds v hs (i # fl) k a" for k using assms(2) by simp
    show "0 \<le> r \<and> r < nc \<and> (h = - 1 \<or> h = int i \<and> holds ?v ?hs fl i a) \<and> (\<forall>b h'. b \<noteq> a \<longrightarrow> v b \<noteq> Some (r, h'))"
      if "?v a = Some (r, h)" for r h
    proof -
      have e: "r = s" "h = int i" using that by simp_all
      show ?thesis unfolding e using \<open>holds ?v ?hs fl i a\<close> ids_seq(1,2) [OF assms] ids_inj [OF assms(1,2)] by blast
    qed
  qed simp_all
  then show ?thesis using that n by blast
qed

lemma ids_extend:
  assumes "ids_inv v hs fh nc []" "v a = Some (s, - 1)"
  shows "fh = - 1" "ids_inv (v(a \<mapsto> (s, int (length hs)))) (hs @ [\<lparr>h_slot = HTimer a, h_seq = s\<rparr>]) fh nc []"
proof -
  show f: "fh = - 1" using assms(1) unfolding ids_inv_def by simp
  let ?hs = "hs @ [\<lparr>h_slot = HTimer a, h_seq = s\<rparr>]" let ?v = "v(a \<mapsto> (s, int (length hs)))"
  have h: "holds ?v ?hs [] (length hs) a" by (simp add: holds_def)
  show "ids_inv ?v ?hs fh nc []"
  proof (rule ids_change [OF assms(1), where j = "length hs" and a = a])
    show "0 \<le> r \<and> r < nc \<and> (h = - 1 \<or> h = int (length hs) \<and> holds ?v ?hs [] (length hs) a) \<and> (\<forall>b h'. b \<noteq> a \<longrightarrow> v b \<noteq> Some (r, h'))"
      if "?v a = Some (r, h)" for r h
    proof -
      have e: "r = s" "h = int (length hs)" using that by simp_all
      show ?thesis unfolding e using \<open>holds ?v ?hs [] (length hs) a\<close> ids_seq(1,2) [OF assms] ids_inj [OF assms(1,2)] by blast
    qed
    show "\<not> holds v hs [] k a" for k using assms(2) by simp
    show "holds ?v ?hs [] (length hs) a" by (rule h)
  qed (simp_all add: f nth_append)
qed

lemma ids_release:
  assumes "ids_inv v hs fh nc fl" "v a = Some (s, int i)"
  shows "ids_inv (v(a := None)) (hs[i := \<lparr>h_slot = HFree fh, h_seq = - 1\<rparr>]) (int i) nc (i # fl)"
proof -
  have ch: "handle_chain fh fl hs" and d: "distinct fl" using assms(1) unfolding ids_inv_def by blast+
  have h: "holds v hs fl i a" using ids_seq(3) [OF assms] by auto
  then have i: "i < length hs" "i \<notin> set fl" by (simp_all add: holds_def)
  let ?hs = "hs[i := \<lparr>h_slot = HFree fh, h_seq = - 1\<rparr>]"
  show ?thesis
  proof (rule ids_change [OF assms(1), where j = i and a = a])
    have "handle_chain fh fl ?hs" using handle_chain_update [OF ch i(2)] .
    then show "distinct (i # fl)" "handle_chain (int i) (i # fl) ?hs" using i d by simp_all
    show "\<not> holds v hs fl i b" if "b \<noteq> a" for b using holds_unique [OF h] that by blast
    show "\<not> holds v hs fl k a" if "k \<noteq> i" for k using that assms(2) by (auto simp: holds_def)
  qed simp_all
qed

lemma ids_forget:
  assumes "ids_inv v hs fh nc fl" "v a = Some (s, - 1)"
  shows "ids_inv (v(a := None)) hs fh nc fl"
proof (rule ids_change [OF assms(1), where j = "length hs" and a = a])
  show "distinct fl" "handle_chain fh fl hs" using assms(1) unfolding ids_inv_def by blast+
  show "\<not> holds v hs fl k a" for k using assms(2) by simp
qed simp_all

lemma ids_other:
  assumes "ids_inv v hs fh nc fl" "nc \<le> nc'"
  shows "ids_inv v hs fh nc' fl"
proof -
  have "0 \<le> s \<and> s < nc' \<and> (h = - 1 \<or> (\<exists>i. h = int i \<and> holds v hs fl i a))" if "v a = Some (s, h)" for a s h
    using ids_seq [OF assms(1) that] assms(2) by simp
  then show ?thesis using assms(1) unfolding ids_inv_def by blast
qed

subsection \<open>The history\<close>

lemma log_inv_intro:
  assumes "\<And>s i e T r. Fired s i e T r \<in> set es \<Longrightarrow> T = due_of i (tick e) \<and> T \<le> cur"
    "\<And>s. Created s \<in> set es \<Longrightarrow> s < nc \<and> ((\<exists>a c. v a = Some (s, c)) \<or> Dropped s \<in> set es \<or> (\<exists>e \<in> set es. one_shot s e))"
    "\<And>a s c. v a = Some (s, c) \<Longrightarrow> Created s \<in> set es \<and> (c \<longleftrightarrow> CancelAsked s \<in> set es) \<and> (a \<notin> F \<longrightarrow> (\<forall>e \<in> set es. \<not> one_shot s e))"
    "\<And>s. Dropped s \<in> set es \<Longrightarrow> CancelAsked s \<in> set es"
    "\<And>s. length (filter (one_shot s) es) \<le> 1" "\<And>s e. e \<in> set es \<Longrightarrow> one_shot s e \<Longrightarrow> s < nc"
    "\<And>s. CancelAsked s \<in> set es \<Longrightarrow> s < nc" "cancelled_stay es"
  shows "log_inv v es tick cur nc F"
  using assms unfolding log_inv_def by blast

lemma log_invD:
  assumes "log_inv v es tick cur nc F"
  shows "Fired s i e T r \<in> set es \<Longrightarrow> T = due_of i (tick e) \<and> T \<le> cur"
    "Created s \<in> set es \<Longrightarrow> s < nc \<and> ((\<exists>a c. v a = Some (s, c)) \<or> Dropped s \<in> set es \<or> (\<exists>e \<in> set es. one_shot s e))"
    "v a = Some (s, c) \<Longrightarrow> Created s \<in> set es \<and> (c \<longleftrightarrow> CancelAsked s \<in> set es) \<and> (a \<notin> F \<longrightarrow> (\<forall>e \<in> set es. \<not> one_shot s e))"
    "Dropped s \<in> set es \<Longrightarrow> CancelAsked s \<in> set es"
    "length (filter (one_shot s) es) \<le> 1" "ev \<in> set es \<Longrightarrow> one_shot s ev \<Longrightarrow> s < nc"
    "CancelAsked s \<in> set es \<Longrightarrow> s < nc" "cancelled_stay es"
  using assms unfolding log_inv_def by blast+

lemma one_shot_simps [simp]:
  "\<not> one_shot s (Created r)" "\<not> one_shot s (CancelAsked r)" "\<not> one_shot s (Dropped r)"
  "one_shot s (Fired r i e T b) \<longleftrightarrow> r = s \<and> \<not> b"
  by (auto simp: one_shot_def)

lemma stay_snoc:
  assumes "cancelled_stay es" "\<And>s i x T r. e = Fired s i x T r \<Longrightarrow> CancelAsked s \<notin> set es"
  shows "cancelled_stay (es @ [e])"
  unfolding cancelled_stay_def
proof (intro allI impI)
  fix xs ys s i x T r
  assume eq: "es @ [e] = xs @ Fired s i x T r # ys"
  show "CancelAsked s \<notin> set xs"
  proof (cases ys rule: rev_cases)
    case Nil
    then show ?thesis using eq assms(2) by auto
  next
    case (snoc zs z)
    then have "es = xs @ Fired s i x T r # zs" using eq by simp
    then show ?thesis using assms(1) unfolding cancelled_stay_def by blast
  qed
qed

lemma log_new:
  assumes "log_inv v es tick cur nc F" "v a = None" "\<And>b s c. v b = Some (s, c) \<Longrightarrow> s < nc"
  shows "log_inv (v(a \<mapsto> (nc, False))) (es @ [Created nc]) tick cur (nc + 1) F"
proof (rule log_inv_intro)
  show "s < nc + 1 \<and> ((\<exists>b c. (v(a \<mapsto> (nc, False))) b = Some (s, c)) \<or> Dropped s \<in> set (es @ [Created nc]) \<or> (\<exists>e \<in> set (es @ [Created nc]). one_shot s e))"
    if "Created s \<in> set (es @ [Created nc])" for s
  proof (cases "s = nc")
    case False
    then have "Created s \<in> set es" using that by auto
    from log_invD(2) [OF assms(1) this] assms(2) show ?thesis by (auto; metis option.distinct(1))
  qed auto
  show "Created s \<in> set (es @ [Created nc]) \<and> (c \<longleftrightarrow> CancelAsked s \<in> set (es @ [Created nc]))
      \<and> (b \<notin> F \<longrightarrow> (\<forall>e \<in> set (es @ [Created nc]). \<not> one_shot s e))"
    if "(v(a \<mapsto> (nc, False))) b = Some (s, c)" for b s c
  proof (cases "b = a")
    case True
    then have e: "s = nc" "c = False" using that by auto
    have "\<not> one_shot nc e" if "e \<in> set es" for e using log_invD(6) [OF assms(1) that, of nc] by auto
    moreover have "CancelAsked nc \<notin> set es" using log_invD(7) [OF assms(1), of nc] by auto
    ultimately show ?thesis unfolding e by auto
  next
    case False
    then show ?thesis using that log_invD(3) [OF assms(1), of b s c] by auto
  qed
  show "s < nc + 1" if "e \<in> set (es @ [Created nc])" "one_shot s e" for s e
    using that log_invD(6) [OF assms(1), of e s] by auto
  show "s < nc + 1" if "CancelAsked s \<in> set (es @ [Created nc])" for s
    using that log_invD(7) [OF assms(1), of s] by simp
  show "cancelled_stay (es @ [Created nc])" by (rule stay_snoc [OF log_invD(8) [OF assms(1)]]) simp
qed (use log_invD(1,4,5) [OF assms(1)] in auto)

lemma log_fire:
  assumes "log_inv v es tick cur nc F" "v a = Some (s, False)" "a \<notin> F" "cur = due_of i (tick x)" "\<And>b c'. v b = Some (s, c') \<Longrightarrow> b = a"
  shows "log_inv v (es @ [Fired s i x cur r]) tick cur nc (if r then F else insert a F)"
proof (rule log_inv_intro)
  let ?es = "es @ [Fired s i x cur r]"
  have no: "\<not> one_shot s e" if "e \<in> set es" for e using log_invD(3) [OF assms(1,2)] assms(3) that by blast
  show "length (filter (one_shot k) ?es) \<le> 1" for k
  proof (cases "k = s")
    case True
    then have "filter (one_shot k) es = []" using no by (simp add: filter_empty_conv)
    then show ?thesis by simp
  qed (use log_invD(5) [OF assms(1)] in auto)
  show "Created k \<in> set ?es \<and> (c' \<longleftrightarrow> CancelAsked k \<in> set ?es) \<and> (b \<notin> (if r then F else insert a F) \<longrightarrow> (\<forall>e \<in> set ?es. \<not> one_shot k e))"
    if "v b = Some (k, c')" for b k c'
    using log_invD(3) [OF assms(1) that] assms(5) [of b] that by auto
  show "k < nc" if "e \<in> set ?es" "one_shot k e" for k e
    using that log_invD(6) [OF assms(1)] log_invD(2,3) [OF assms(1)] assms(2) by auto
  show "k < nc \<and> ((\<exists>b c. v b = Some (k, c)) \<or> Dropped k \<in> set ?es \<or> (\<exists>e \<in> set ?es. one_shot k e))" if "Created k \<in> set ?es" for k
  proof -
    have "Created k \<in> set es" using that by simp
    from log_invD(2) [OF assms(1) this] show ?thesis by auto
  qed
  show "T = due_of i' (tick e) \<and> T \<le> cur" if "Fired k i' e T r' \<in> set ?es" for k i' e T r'
    using that log_invD(1) [OF assms(1), of k i' e T r'] assms(4) by auto
  show "k < nc" if "CancelAsked k \<in> set ?es" for k using that log_invD(7) [OF assms(1), of k] by simp
  show "cancelled_stay ?es"
    by (rule stay_snoc [OF log_invD(8) [OF assms(1)]]) (use log_invD(3) [OF assms(1,2)] in auto)
  show "CancelAsked k \<in> set ?es" if "Dropped k \<in> set ?es" for k using that log_invD(4) [OF assms(1), of k] by simp
qed

lemma log_cancel:
  assumes "log_inv v es tick cur nc F" "v a = Some (s, c)" "\<And>b c'. v b = Some (s, c') \<Longrightarrow> b = a"
  shows "log_inv (v(a \<mapsto> (s, True))) (es @ [CancelAsked s]) tick cur nc F"
proof (rule log_inv_intro)
  let ?es = "es @ [CancelAsked s]"
  show "k < nc \<and> ((\<exists>b c. (v(a \<mapsto> (s, True))) b = Some (k, c)) \<or> Dropped k \<in> set ?es \<or> (\<exists>e \<in> set ?es. one_shot k e))"
    if "Created k \<in> set ?es" for k
  proof -
    have "Created k \<in> set es" using that by simp
    from log_invD(2) [OF assms(1) this] have "k < nc" "(\<exists>b c. v b = Some (k, c)) \<or> Dropped k \<in> set es \<or> (\<exists>e \<in> set es. one_shot k e)" by blast+
    moreover have "\<exists>b c. (v(a \<mapsto> (s, True))) b = Some (k, c)" if "v b = Some (k, c')" for b c'
      using that assms(2) by (intro exI [of _ b] exI [of _ "if b = a then True else c'"]) auto
    ultimately have "k < nc" "(\<exists>b c. (v(a \<mapsto> (s, True))) b = Some (k, c)) \<or> Dropped k \<in> set es \<or> (\<exists>e \<in> set es. one_shot k e)" by blast+
    then show ?thesis by (auto simp del: fun_upd_apply)
  qed
  show "Created k \<in> set ?es \<and> (d \<longleftrightarrow> CancelAsked k \<in> set ?es) \<and> (b \<notin> F \<longrightarrow> (\<forall>e \<in> set ?es. \<not> one_shot k e))"
    if "(v(a \<mapsto> (s, True))) b = Some (k, d)" for b k d
  proof (cases "b = a")
    case True
    then show ?thesis using that log_invD(3) [OF assms(1,2)] by auto
  next
    case False
    then have "v b = Some (k, d)" "k \<noteq> s" using that assms(3) by auto
    then show ?thesis using log_invD(3) [OF assms(1)] by auto
  qed
  show "k < nc" if "CancelAsked k \<in> set ?es" for k
    using that log_invD(7) [OF assms(1), of k] log_invD(2,3) [OF assms(1)] assms(2) by auto
  show "cancelled_stay ?es" by (rule stay_snoc [OF log_invD(8) [OF assms(1)]]) simp
  show "T = due_of i' (tick e) \<and> T \<le> cur" if "Fired k i' e T r' \<in> set ?es" for k i' e T r'
    using that log_invD(1) [OF assms(1), of k i' e T r'] by simp
  show "CancelAsked k \<in> set ?es" if "Dropped k \<in> set ?es" for k using that log_invD(4) [OF assms(1), of k] by simp
  show "length (filter (one_shot k) ?es) \<le> 1" for k using log_invD(5) [OF assms(1), of k] by simp
  show "k < nc" if "e \<in> set ?es" "one_shot k e" for k e using that log_invD(6) [OF assms(1), of e k] by auto
qed

text \<open>A timer leaves: cancelled, or run for the last time.\<close>

lemma log_drop:
  assumes "log_inv v es tick cur nc F" "v a = Some (s, True)"
  shows "log_inv (v(a := None)) (es @ [Dropped s]) tick cur nc (F - {a})"
proof (rule log_inv_intro)
  let ?es = "es @ [Dropped s]"
  show "k < nc \<and> ((\<exists>b c. (v(a := None)) b = Some (k, c)) \<or> Dropped k \<in> set ?es \<or> (\<exists>e \<in> set ?es. one_shot k e))"
    if "Created k \<in> set ?es" for k
  proof (cases "k = s")
    case True
    then show ?thesis using that log_invD(2) [OF assms(1), of k] by simp
  next
    case False
    have "Created k \<in> set es" using that by simp
    from log_invD(2) [OF assms(1) this] have "k < nc" "(\<exists>b c. v b = Some (k, c)) \<or> Dropped k \<in> set es \<or> (\<exists>e \<in> set es. one_shot k e)" by blast+
    moreover have "\<exists>b c. (v(a := None)) b = Some (k, c)" if "v b = Some (k, c')" for b c'
      using that assms(2) False by (intro exI [of _ b] exI [of _ c']) auto
    ultimately have "k < nc" "(\<exists>b c. (v(a := None)) b = Some (k, c)) \<or> Dropped k \<in> set es \<or> (\<exists>e \<in> set es. one_shot k e)" by blast+
    then show ?thesis by (auto simp del: fun_upd_apply)
  qed
  show "Created k \<in> set ?es \<and> (d \<longleftrightarrow> CancelAsked k \<in> set ?es) \<and> (b \<notin> F - {a} \<longrightarrow> (\<forall>e \<in> set ?es. \<not> one_shot k e))"
    if "(v(a := None)) b = Some (k, d)" for b k d
    using that log_invD(3) [OF assms(1), of b k d] by (auto split: if_splits)
  show "T = due_of i' (tick e) \<and> T \<le> cur" if "Fired k i' e T r' \<in> set ?es" for k i' e T r'
    using that log_invD(1) [OF assms(1), of k i' e T r'] by simp
  show "CancelAsked k \<in> set ?es" if "Dropped k \<in> set ?es" for k
    using that log_invD(4) [OF assms(1), of k] log_invD(3) [OF assms] by auto
  show "k < nc" if "CancelAsked k \<in> set ?es" for k using that log_invD(7) [OF assms(1), of k] by simp
  show "cancelled_stay ?es" by (rule stay_snoc [OF log_invD(8) [OF assms(1)]]) simp
  show "length (filter (one_shot k) ?es) \<le> 1" for k using log_invD(5) [OF assms(1), of k] by simp
  show "k < nc" if "e \<in> set ?es" "one_shot k e" for k e using that log_invD(6) [OF assms(1), of e k] by auto
qed

lemma log_done:
  assumes "log_inv v es tick cur nc F" "v a = Some (s, c)" "e \<in> set es" "one_shot s e"
  shows "log_inv (v(a := None)) es tick cur nc (F - {a})"
proof (rule log_inv_intro)
  show "k < nc \<and> ((\<exists>b c. (v(a := None)) b = Some (k, c)) \<or> Dropped k \<in> set es \<or> (\<exists>e \<in> set es. one_shot k e))"
    if "Created k \<in> set es" for k
  proof (cases "k = s")
    case True
    then show ?thesis using that log_invD(2) [OF assms(1), of k] assms(3,4) by blast
  next
    case False
    from log_invD(2) [OF assms(1) that] have "k < nc" "(\<exists>b c. v b = Some (k, c)) \<or> Dropped k \<in> set es \<or> (\<exists>e \<in> set es. one_shot k e)" by blast+
    moreover have "\<exists>b c. (v(a := None)) b = Some (k, c)" if "v b = Some (k, c')" for b c'
      using that assms(2) False by (intro exI [of _ b] exI [of _ c']) auto
    ultimately have "k < nc" "(\<exists>b c. (v(a := None)) b = Some (k, c)) \<or> Dropped k \<in> set es \<or> (\<exists>e \<in> set es. one_shot k e)" by blast+
    then show ?thesis by (auto simp del: fun_upd_apply)
  qed
  show "Created k \<in> set es \<and> (d \<longleftrightarrow> CancelAsked k \<in> set es) \<and> (b \<notin> F - {a} \<longrightarrow> (\<forall>e \<in> set es. \<not> one_shot k e))"
    if "(v(a := None)) b = Some (k, d)" for b k d
    using that log_invD(3) [OF assms(1), of b k d] by (auto split: if_splits)
qed (use log_invD [OF assms(1)] in blast)+

lemma log_later:
  assumes "log_inv v es tick cur nc F" "cur \<le> cur'" "nc \<le> nc'"
  shows "log_inv v es tick cur' nc' F"
proof (rule log_inv_intro)
  show "T = due_of i' (tick e) \<and> T \<le> cur'" if "Fired k i' e T r' \<in> set es" for k i' e T r'
    using log_invD(1) [OF assms(1) that] assms(2) by simp
  show "k < nc' \<and> ((\<exists>b c. v b = Some (k, c)) \<or> Dropped k \<in> set es \<or> (\<exists>e \<in> set es. one_shot k e))" if "Created k \<in> set es" for k
    using log_invD(2) [OF assms(1) that] assms(3) by simp
  show "k < nc'" if "e \<in> set es" "one_shot k e" for k e using log_invD(6) [OF assms(1) that] assms(3) by simp
  show "k < nc'" if "CancelAsked k \<in> set es" for k using log_invD(7) [OF assms(1) that] assms(3) by simp
qed (use log_invD [OF assms(1)] in blast)+

end
