(* ===== verification/TimerOps.thy ===== *)
theory TimerOps
  imports TimerInv
begin

text \<open>
  Every operation of the timer wheel returns and keeps the invariant: adding, cancelling, the calls
  of a callback, one tick and a whole advance.
\<close>

subsection \<open>The wheel\<close>

definition held :: "(nat \<Rightarrow> nat list) \<Rightarrow> nat list \<Rightarrow> nat set" where
  "held W P = (\<Union>s. set (W s)) \<union> set P"

definition same_place :: "'j timer \<Rightarrow> 'j timer \<Rightarrow> bool" where
  "same_place t u \<longleftrightarrow> slotIndex u = slotIndex t \<and> rotationCount u = rotationCount t \<and> insertedAt u = insertedAt t \<and> expiration u = expiration t"

lemma same_place_refl [simp]: "same_place t t"
  by (simp add: same_place_def)

lemma waiting_same:
  assumes "waiting q s k a" "timers q a = Some t" "timers q' a = Some u" "same_place t u" "startNs q' = startNs q"
  shows "waiting q' s k a"
  using assms by (simp add: waiting_def same_place_def tick_of_def)

lemma wheel_okD:
  assumes "wheel_ok q W P X"
  shows "s < 4096 \<Longrightarrow> filled (lnk q) (Wheel s) (map Tm (W s))" "4096 \<le> s \<Longrightarrow> W s = []" "ring (lnk q) Pending (map Tm P)"
    "a \<in> set (W s) \<Longrightarrow> waiting q s (next_visit (currentTicks q) s) a"
    "a \<in> set P \<Longrightarrow> waiting q (slot_at (currentTicks q)) (currentTicks q) a"
    "a \<in> X \<Longrightarrow> a \<notin> held W P" "finite X" "dom (timers q) = held W P \<union> X" "a \<in> set (W s) \<Longrightarrow> a \<notin> set P"
  using assms unfolding wheel_ok_def held_def by auto

lemma wheel_okI:
  assumes "\<And>s. s < 4096 \<Longrightarrow> filled (lnk q) (Wheel s) (map Tm (W s))" "\<And>s. 4096 \<le> s \<Longrightarrow> W s = []" "ring (lnk q) Pending (map Tm P)"
    "\<And>a s. a \<in> set (W s) \<Longrightarrow> waiting q s (next_visit (currentTicks q) s) a"
    "\<And>a. a \<in> set P \<Longrightarrow> waiting q (slot_at (currentTicks q)) (currentTicks q) a"
    "\<And>a. a \<in> X \<Longrightarrow> a \<notin> held W P" "finite X" "dom (timers q) = held W P \<union> X" "\<And>a s. a \<in> set (W s) \<Longrightarrow> a \<notin> set P"
  shows "wheel_ok q W P X"
  using assms unfolding wheel_ok_def held_def by (intro conjI allI impI ballI) blast+

lemma wheel_apart:
  assumes "wheel_ok q W P X" "a \<in> set (W s)" "a \<in> set (W r)"
  shows "s = r"
  using wheel_okD(4) [OF assms(1,2)] wheel_okD(4) [OF assms(1,3)] by (auto simp: waiting_def)

lemma in_held: "a \<in> set (W s) \<Longrightarrow> a \<in> held W P" "a \<in> set P \<Longrightarrow> a \<in> held W P"
  by (auto simp: held_def)

lemma filled_frame:
  assumes "filled L r xs" "\<And>n. n \<in> set (r # xs) \<Longrightarrow> l_next L' n = l_next L n \<and> l_prev L' n = l_prev L n"
  shows "filled L' r xs"
  using assms tlist_frame unfolding filled_def by blast

lemma ring_frame:
  assumes "ring L r xs" "\<And>n. n \<in> set (r # xs) \<Longrightarrow> l_next L' n = l_next L n \<and> l_prev L' n = l_prev L n"
  shows "ring L' r xs"
  using assms tlist_frame unfolding ring_def by blast

lemma finite_held: "wheel_ok q W P X \<Longrightarrow> finite (held W P)"
proof -
  assume ok: "wheel_ok q W P X"
  have "held W P \<subseteq> (\<Union>s < 4096. set (W s)) \<union> set P"
  proof
    fix a assume "a \<in> held W P"
    then show "a \<in> (\<Union>s < 4096. set (W s)) \<union> set P"
    proof (cases "a \<in> set P")
      case False
      then obtain s where s: "a \<in> set (W s)" using \<open>a \<in> held W P\<close> by (auto simp: held_def)
      then have "s < 4096" using wheel_okD(2) [OF ok, of s] by (cases "s < 4096") auto
      then show ?thesis using s by blast
    qed simp
  qed
  then show ?thesis by (rule finite_subset) simp
qed

lemma finite_timers: "wheel_ok q W P X \<Longrightarrow> finite (dom (timers q))"
  using wheel_okD(7,8) finite_held by (metis finite_Un)

text \<open>Steps that touch no timer of a list, as far as its place is concerned.\<close>

lemma wheel_frame:
  assumes ok: "wheel_ok q W P X"
    and lnk: "\<And>n. (\<And>b. n = Tm b \<Longrightarrow> b \<in> held W P) \<Longrightarrow> l_next (lnk q') n = l_next (lnk q) n \<and> l_prev (lnk q') n = l_prev (lnk q) n"
    and same: "startNs q' = startNs q" "currentTicks q' = currentTicks q"
    and tm: "\<And>b t. b \<in> held W P \<Longrightarrow> timers q b = Some t \<Longrightarrow> \<exists>u. timers q' b = Some u \<and> same_place t u"
    and dm: "dom (timers q') = held W P \<union> X'" "\<And>b. b \<in> X' \<Longrightarrow> b \<notin> held W P" "finite X'"
  shows "wheel_ok q' W P X'"
proof (rule wheel_okI)
  have w: "waiting q' s k a" if "waiting q s k a" "a \<in> held W P" for s k a
  proof -
    from that(1) obtain t where t: "timers q a = Some t" by (auto simp: waiting_def)
    from tm [OF that(2) t] obtain u where "timers q' a = Some u" "same_place t u" by blast
    from waiting_same [OF that(1) t this same(1)] show ?thesis .
  qed
  show "filled (lnk q') (Wheel s) (map Tm (W s))" if "s < 4096" for s
  proof (rule filled_frame [OF wheel_okD(1) [OF ok that]])
    show "l_next (lnk q') n = l_next (lnk q) n \<and> l_prev (lnk q') n = l_prev (lnk q) n" if "n \<in> set (Wheel s # map Tm (W s))" for n
      by (rule lnk) (use that in_held(1) [of _ W s P] in auto)
  qed
  show "ring (lnk q') Pending (map Tm P)"
  proof (rule ring_frame [OF wheel_okD(3) [OF ok]])
    show "l_next (lnk q') n = l_next (lnk q) n \<and> l_prev (lnk q') n = l_prev (lnk q) n" if "n \<in> set (Pending # map Tm P)" for n
      by (rule lnk) (use that in_held(2) [of _ P W] in auto)
  qed
  show "waiting q' s (next_visit (currentTicks q') s) a" if "a \<in> set (W s)" for a s
    unfolding same using w [OF wheel_okD(4) [OF ok that] in_held(1) [of a W s P, OF that]] .
  show "waiting q' (slot_at (currentTicks q')) (currentTicks q') a" if "a \<in> set P" for a
    unfolding same using w [OF wheel_okD(5) [OF ok that] in_held(2) [of a P W, OF that]] .
qed (use dm wheel_okD(2,9) [OF ok] in blast)+

text \<open>A timer in no list is appended to the list of a slot.\<close>

lemma wheel_push:
  assumes ok: "wheel_ok q W P X" and a: "a \<in> X" "s < 4096"
  obtains L where "push_back (Wheel s) (Tm a) (lnk q) = Some L"
    "\<And>q'. lnk q' = L \<Longrightarrow> startNs q' = startNs q \<Longrightarrow> currentTicks q' = currentTicks q \<Longrightarrow> (\<And>b. b \<noteq> a \<Longrightarrow> timers q' b = timers q b)
       \<Longrightarrow> waiting q' s (next_visit (currentTicks q) s) a \<Longrightarrow> wheel_ok q' (W(s := W s @ [a])) P (X - {a})"
proof -
  have na: "a \<notin> held W P" using wheel_okD(6) [OF ok a(1)] .
  then have naW: "a \<notin> set (W r)" "a \<notin> set P" for r by (auto simp: held_def)
  have "Tm a \<notin> set (Wheel s # map Tm (W s))" using naW by auto
  then obtain L where L: "push_back (Wheel s) (Tm a) (lnk q) = Some L" "filled L (Wheel s) (map Tm (W s) @ [Tm a])"
      "\<And>n. n \<notin> set (Tm a # Wheel s # map Tm (W s)) \<Longrightarrow> l_next L n = l_next (lnk q) n \<and> l_prev L n = l_prev (lnk q) n"
    using filled_push [OF wheel_okD(1) [OF ok a(2)]] by blast
  have "wheel_ok q' (W(s := W s @ [a])) P (X - {a})"
    if q': "lnk q' = L" "startNs q' = startNs q" "currentTicks q' = currentTicks q" "\<And>b. b \<noteq> a \<Longrightarrow> timers q' b = timers q b"
      "waiting q' s (next_visit (currentTicks q) s) a" for q'
  proof (rule wheel_okI)
    let ?W = "W(s := W s @ [a])"
    have li: "held ?W P = insert a (held W P)" by (auto simp: held_def split: if_splits)
    have w: "waiting q' r k b" if "waiting q r k b" "b \<noteq> a" for r k b
      using that q'(2) q'(4) [OF that(2)] by (simp add: waiting_def tick_of_def)
    show "filled (lnk q') (Wheel r) (map Tm (?W r))" if "r < 4096" for r
    proof (cases "r = s")
      case True
      then show ?thesis using L(2) q'(1) by simp
    next
      case False
      have "n \<notin> set (Tm a # Wheel s # map Tm (W s))" if "n \<in> set (Wheel r # map Tm (W r))" for n
        using that False naW wheel_apart [OF ok, of _ r s] by auto
      then show ?thesis using filled_frame [OF wheel_okD(1) [OF ok that], of L] L(3) q'(1) False by simp
    qed
    show "ring (lnk q') Pending (map Tm P)"
    proof -
      have "n \<notin> set (Tm a # Wheel s # map Tm (W s))" if "n \<in> set (Pending # map Tm P)" for n
        using that naW wheel_okD(9) [OF ok] by auto
      then show ?thesis using ring_frame [OF wheel_okD(3) [OF ok], of L] L(3) q'(1) by blast
    qed
    show "waiting q' r (next_visit (currentTicks q') r) b" if "b \<in> set (?W r)" for b r
    proof (cases "b = a")
      case True
      then have "r = s" using that naW by (auto split: if_splits)
      then show ?thesis using q'(3,5) True by simp
    next
      case False
      then have "b \<in> set (W r)" using that by (auto split: if_splits)
      from w [OF wheel_okD(4) [OF ok this] False] show ?thesis by (simp add: q'(3))
    qed
    show "waiting q' (slot_at (currentTicks q')) (currentTicks q') b" if "b \<in> set P" for b
    proof -
      have "b \<noteq> a" using that naW by blast
      from w [OF wheel_okD(5) [OF ok that] this] show ?thesis by (simp add: q'(3))
    qed
    show "?W r = []" if "4096 \<le> r" for r using that wheel_okD(2) [OF ok that] a(2) by auto
    show "b \<notin> held ?W P" if "b \<in> X - {a}" for b using that wheel_okD(6) [OF ok, of b] li by blast
    show "finite (X - {a})" using wheel_okD(7) [OF ok] by simp
    have "b \<in> dom (timers q') \<longleftrightarrow> b \<in> dom (timers q)" for b
    proof (cases "b = a")
      case True
      have "a \<in> dom (timers q)" using wheel_okD(8) [OF ok] a(1) by blast
      moreover have "a \<in> dom (timers q')" using q'(5) by (auto simp: waiting_def)
      ultimately show ?thesis using True by blast
    next
      case False
      then show ?thesis using q'(4) by (simp add: domIff)
    qed
    then have "dom (timers q') = dom (timers q)" by blast
    then show "dom (timers q') = held ?W P \<union> (X - {a})" unfolding wheel_okD(8) [OF ok] li using a(1) by auto
    show "b \<notin> set P" if "b \<in> set (?W r)" for b r
      using that wheel_okD(9) [OF ok, of b r] naW by (auto split: if_splits)
  qed
  then show ?thesis using that L(1) by blast
qed

subsection \<open>The operations\<close>

text \<open>What a call leaves alone: the clock, and the timers \<open>X\<close> up to their cancelled flag.\<close>

definition keeps :: "nat set \<Rightarrow> 'j tq \<Rightarrow> 'j tq \<Rightarrow> bool" where
  "keeps X q q' \<longleftrightarrow> startNs q' = startNs q \<and> currentTicks q' = currentTicks q \<and> set (tlog q) \<subseteq> set (tlog q')
     \<and> (\<forall>b \<in> X. \<forall>t. timers q b = Some t \<longrightarrow> (\<exists>c. timers q' b = Some (t\<lparr>canceled := c\<rparr>)))"

lemma keeps_refl [simp]: "keeps X q q"
proof -
  have "\<exists>c. t = t\<lparr>canceled := c\<rparr>" for t :: "'a timer" by (rule exI [of _ "canceled t"]) simp
  then show ?thesis by (simp add: keeps_def)
qed

lemma keeps_trans: "keeps X q q1 \<Longrightarrow> keeps X q1 q2 \<Longrightarrow> keeps X q q2"
  unfolding keeps_def by (intro conjI) (force+)

lemma tid_simps [simp]: "timers q a = None \<Longrightarrow> tid q a = None" "timers q a = Some t \<Longrightarrow> tid q a = Some (t_sequence t, handleIndex t)"
  by (simp_all add: tid_def)

lemma tlive_simps [simp]: "timers q a = None \<Longrightarrow> tlive q a = None" "timers q a = Some t \<Longrightarrow> tlive q a = Some (t_sequence t, canceled t)"
  by (simp_all add: tlive_def)

lemma tid_Some: "tid q a = Some (s, h) \<longleftrightarrow> (\<exists>t. timers q a = Some t \<and> t_sequence t = s \<and> handleIndex t = h)"
  by (auto simp: tid_def)

lemma tlive_Some: "tlive q a = Some (s, c) \<longleftrightarrow> (\<exists>t. timers q a = Some t \<and> t_sequence t = s \<and> canceled t = c)"
  by (auto simp: tlive_def)

lemma tid_upd: "tid (q\<lparr>timers := (timers q)(a \<mapsto> t)\<rparr>) = (tid q)(a \<mapsto> (t_sequence t, handleIndex t))"
  "tid (q\<lparr>timers := (timers q)(a := None)\<rparr>) = (tid q)(a := None)"
  by (auto simp: tid_def)

lemma tlive_upd: "tlive (q\<lparr>timers := (timers q)(a \<mapsto> t)\<rparr>) = (tlive q)(a \<mapsto> (t_sequence t, canceled t))"
  "tlive (q\<lparr>timers := (timers q)(a := None)\<rparr>) = (tlive q)(a := None)"
  by (auto simp: tlive_def)

lemma ids_okD: "ids_ok q fl \<Longrightarrow> 0 \<le> numCreated q" "ids_ok q fl \<Longrightarrow> ids_inv (tid q) (handles q) (freeHead q) (numCreated q) fl"
  by (simp_all add: ids_ok_def)

lemma seq_bound: "ids_ok q fl \<Longrightarrow> timers q a = Some t \<Longrightarrow> 0 \<le> t_sequence t \<and> t_sequence t < numCreated q"
  using ids_seq(1,2) [OF ids_okD(2)] tid_simps(2) by metis

lemma seq_inj:
  assumes "ids_ok q fl" "tlive q a = Some (s, c)" "tlive q b = Some (s, c')"
  shows "b = a"
proof -
  obtain t u where "timers q a = Some t" "t_sequence t = s" "timers q b = Some u" "t_sequence u = s" using assms(2,3) by (auto simp: tlive_Some)
  then show ?thesis using ids_inj [OF ids_okD(2) [OF assms(1)], of b s "handleIndex u" a "handleIndex t"] by simp
qed

text \<open>The place computed for a timer is the one at which it waits for its tick.\<close>

lemma waiting_inserted:
  fixes q :: "'j tq"
  assumes "k = max 1 (tick_of q (expiration t) - currentTicks q)" "timers q' a = Some (t\<lparr>rotationCount := k sdiv kWheelSize,
      slotIndex := (currentTicks q + k) AND kWheelMask, insertedAt := currentTicks q\<rparr>)" "startNs q' = startNs q"
  shows "waiting q' (slot_at (currentTicks q + k)) (next_visit (currentTicks q) (slot_at (currentTicks q + k))) a"
proof -
  have k: "1 \<le> k" using assms(1) by simp
  have "0 \<le> k sdiv kWheelSize" using k by (simp add: signed_divide_int_def kWheelSize_def sgn_if)
  moreover have "(currentTicks q + k) AND kWheelMask = int (slot_at (currentTicks q + k))"
    using slot_at_bounds(2) [of "currentTicks q + k"] by (simp add: and_wheel_mask kWheelSize_def)
  moreover have "due_of (currentTicks q) (tick_of q (expiration t)) = next_visit (currentTicks q) (slot_at (currentTicks q + k)) + kWheelSize * (k sdiv kWheelSize)"
    using visit_insert [OF k, of "currentTicks q"] assms(1) by (simp add: due_of_def Let_def)
  moreover have "tick_of q' (expiration t) = tick_of q (expiration t)" using assms(3) by (simp add: tick_of_def)
  ultimately show ?thesis using assms(2) by (simp add: waiting_def)
qed

lemma i64_in: "- (2 ^ 63) \<le> x \<Longrightarrow> x < 2 ^ 63 \<Longrightarrow> i64 x = Some x"
  by (simp add: i64_def)

lemma times_okD:
  assumes "times_ok q"
  shows "0 \<le> startNs q" "0 \<le> currentTicks q" "startNs q + currentTicks q * kTickNs \<le> 2 ^ 62" "startNs q \<le> 2 ^ 62"
    "timers q a = Some t \<Longrightarrow> timer_fits t"
  using assms unfolding times_ok_def by (auto simp: kTickNs_def)

lemma times_okI:
  assumes "times_ok q" "startNs q' = startNs q" "currentTicks q' = currentTicks q" "\<And>a t. timers q' a = Some t \<Longrightarrow> timer_fits t"
  shows "times_ok q'"
  using assms by (simp add: times_ok_def)

lemma timer_fits_simps [simp]:
  "timer_fits (t\<lparr>canceled := c\<rparr>) = timer_fits t" "timer_fits (t\<lparr>handleIndex := h\<rparr>) = timer_fits t"
  "timer_fits (t\<lparr>rotationCount := r\<rparr>) = timer_fits t" "timer_fits (t\<lparr>slotIndex := s\<rparr>) = timer_fits t"
  "timer_fits (t\<lparr>insertedAt := i\<rparr>) = timer_fits t"
  by (simp_all add: timer_fits_def)

lemma since_start: "times_ok q \<Longrightarrow> timer_fits t \<Longrightarrow> i64 (expiration t - startNs q) = Some (expiration t - startNs q)"
  using times_okD(1,4) [of q] by (intro i64_in) (auto simp: timer_fits_def)

lemma wheel_insert_ok:
  assumes ok: "wheel_ok q W P X" and a: "a \<in> X" "timers q a = Some t" and tm: "times_ok q"
  obtains q' s r L where "wheel_insert a q = Some q'" "wheel_ok q' (W(s := W s @ [a])) P (X - {a})"
    "q' = q\<lparr>timers := (timers q)(a \<mapsto> t\<lparr>rotationCount := r, slotIndex := int s, insertedAt := currentTicks q\<rparr>), lnk := L\<rparr>"
proof -
  define k where "k = max 1 (tick_of q (expiration t) - currentTicks q)"
  define s where "s = slot_at (currentTicks q + k)"
  have s: "s < 4096" "(currentTicks q + k) AND kWheelMask = int s"
    using slot_at_bounds [of "currentTicks q + k"] by (simp_all add: s_def and_wheel_mask kWheelSize_def)
  obtain L where L: "push_back (Wheel s) (Tm a) (lnk q) = Some L"
    "\<And>q'. lnk q' = L \<Longrightarrow> startNs q' = startNs q \<Longrightarrow> currentTicks q' = currentTicks q \<Longrightarrow> (\<And>b. b \<noteq> a \<Longrightarrow> timers q' b = timers q b)
       \<Longrightarrow> waiting q' s (next_visit (currentTicks q) s) a \<Longrightarrow> wheel_ok q' (W(s := W s @ [a])) P (X - {a})"
    using wheel_push [OF ok a(1) s(1)] by metis
  define q' where "q' = q\<lparr>timers := (timers q)(a \<mapsto> t\<lparr>rotationCount := k sdiv kWheelSize, slotIndex := int s, insertedAt := currentTicks q\<rparr>), lnk := L\<rparr>"
  have kk: "(if tick_of q (expiration t) - currentTicks q \<le> 0 then 1 else tick_of q (expiration t) - currentTicks q) = k"
    by (simp add: k_def)
  have e: "wheel_insert a q = Some q'"
    by (simp only: wheel_insert_def a(2) since_start [OF tm times_okD(5) [OF tm a(2)]] Let_def tick_of_def [symmetric] kk s(2) nat_int L(1)
        Option.bind.simps q'_def)
  have "waiting q' s (next_visit (currentTicks q) s) a"
    unfolding s_def by (rule waiting_inserted [OF k_def]) (simp_all add: q'_def s(2) [symmetric])
  then have "wheel_ok q' (W(s := W s @ [a])) P (X - {a})"
    by (intro L(2)) (simp_all add: q'_def)
  then show ?thesis using that e q'_def by blast
qed

text \<open>Putting a timer into the wheel changes neither handles nor history.\<close>

lemma insert_keeps_books:
  assumes "timers q a = Some t"
    "q' = q\<lparr>timers := (timers q)(a \<mapsto> t\<lparr>rotationCount := r, slotIndex := s, insertedAt := i\<rparr>), lnk := L\<rparr>"
  shows "tid q' = tid q" "tlive q' = tlive q" "tick_of q' = tick_of q" "dom (timers q') = dom (timers q)"
    "ids_ok q' fl = ids_ok q fl" "log_ok q' F = log_ok q F" "times_ok q' = times_ok q"
proof -
  show "times_ok q' = times_ok q" using assms by (auto simp: times_ok_def)
  show v: "tid q' = tid q" "tlive q' = tlive q" using assms by (auto simp: tid_def tlive_def)
  show t: "tick_of q' = tick_of q" using assms(2) by (intro ext) (simp add: tick_of_def)
  show "dom (timers q') = dom (timers q)" using assms by auto
  show "ids_ok q' fl = ids_ok q fl" unfolding ids_ok_def v using assms(2) by simp
  show "log_ok q' F = log_ok q F" unfolding log_ok_def v t using assms(2) by simp
qed

lemma null_node_other: "n \<noteq> Tm a \<Longrightarrow> l_next (null_node (Tm a) L) n = l_next L n \<and> l_prev (null_node (Tm a) L) n = l_prev L n"
  by (simp add: null_node_def)

lemma wheel_alloc:
  assumes ok: "wheel_ok q W P X" and a: "a \<notin> dom (timers q)"
    and q': "lnk q' = null_node (Tm a) (lnk q)" "startNs q' = startNs q" "currentTicks q' = currentTicks q" "timers q' = (timers q)(a \<mapsto> t)"
  shows "wheel_ok q' W P (insert a X)"
proof (rule wheel_frame [OF ok _ q'(2,3)])
  have na: "a \<notin> held W P" using a wheel_okD(8) [OF ok] by blast
  show "l_next (lnk q') n = l_next (lnk q) n \<and> l_prev (lnk q') n = l_prev (lnk q) n" if "\<And>b. n = Tm b \<Longrightarrow> b \<in> held W P" for n
    unfolding q'(1) by (rule null_node_other) (use that na in blast)
  show "\<exists>u'. timers q' b = Some u' \<and> same_place u u'" if "b \<in> held W P" "timers q b = Some u" for b u
    using that na q'(4) by (intro exI [of _ u]) auto
  have "dom (timers q') = insert a (dom (timers q))" unfolding q'(4) by simp
  then show "dom (timers q') = held W P \<union> insert a X" unfolding wheel_okD(8) [OF ok] by simp
  show "b \<notin> held W P" if "b \<in> insert a X" for b using that na wheel_okD(6) [OF ok] by blast
  show "finite (insert a X)" using wheel_okD(7) [OF ok] by simp
qed

lemma wheel_free:
  assumes ok: "wheel_ok q W P X" and a: "a \<in> X"
    and q': "lnk q' = null_node (Tm a) (lnk q)" "startNs q' = startNs q" "currentTicks q' = currentTicks q" "timers q' = (timers q)(a := None)"
  shows "wheel_ok q' W P (X - {a})"
proof (rule wheel_frame [OF ok _ q'(2,3)])
  have na: "a \<notin> held W P" by (rule wheel_okD(6) [OF ok a])
  show "l_next (lnk q') n = l_next (lnk q) n \<and> l_prev (lnk q') n = l_prev (lnk q) n" if "\<And>b. n = Tm b \<Longrightarrow> b \<in> held W P" for n
    unfolding q'(1) by (rule null_node_other) (use that na in blast)
  show "\<exists>u'. timers q' b = Some u' \<and> same_place u u'" if "b \<in> held W P" "timers q b = Some u" for b u
    using that na q'(4) by (intro exI [of _ u]) auto
  have "dom (timers q') = dom (timers q) - {a}" using q'(4) by auto
  then show "dom (timers q') = held W P \<union> (X - {a})" unfolding wheel_okD(8) [OF ok] using na by auto
  show "b \<notin> held W P" if "b \<in> X - {a}" for b using that wheel_okD(6) [OF ok] by blast
  show "finite (X - {a})" using wheel_okD(7) [OF ok] by simp
qed

lemma wheel_same:
  assumes ok: "wheel_ok q W P X"
    and q': "lnk q' = lnk q" "startNs q' = startNs q" "currentTicks q' = currentTicks q"
    and tm: "\<And>b. b \<in> held W P \<Longrightarrow> rel_option same_place (timers q b) (timers q' b)" "dom (timers q') = dom (timers q)"
  shows "wheel_ok q' W P X"
proof (rule wheel_frame [OF ok _ q'(2,3)])
  show "\<exists>u'. timers q' b = Some u' \<and> same_place u u'" if "b \<in> held W P" "timers q b = Some u" for b u
    using tm(1) [OF that(1)] that(2) by (auto simp: option_rel_Some1)
qed (use q'(1) tm(2) wheel_okD(6,7,8) [OF ok] in \<open>simp_all\<close>)

lemma wsub_card: "0 < n \<Longrightarrow> wsub (n mod W64) 1 = (n - 1) mod W64"
proof -
  assume n: "0 < n"
  have one: "W64 - 1 mod W64 = W64 - 1" by (simp add: W64_def)
  have "(n mod W64 + (W64 - 1)) mod W64 = (n + (W64 - 1)) mod W64" by (rule mod_add_left_eq)
  also have "n + (W64 - 1) = (n - 1) + W64" using n W64_pos by linarith
  finally show ?thesis unfolding wsub_def one by simp
qed

lemma wadd_card: "wadd (n mod W64) 1 = (n + 1) mod W64"
  by (simp add: wadd_def mod_simps)

lemma freeTimer_ok:
  assumes "ids_ok q fl" "timers q a = Some t"
  obtains q' fl' where "freeTimer a q = Some q'" "ids_ok q' fl'" "timers q' = (timers q)(a := None)" "lnk q' = null_node (Tm a) (lnk q)"
    "startNs q' = startNs q" "currentTicks q' = currentTicks q" "timerCount q' = timerCount q" "tlog q' = tlog q" "numCreated q' = numCreated q"
proof -
  note inv = ids_okD(2) [OF assms(1)]
  let ?q = "(if handleIndex t \<ge> 0 then freeSlot (handleIndex t) q else q)"
  let ?q' = "?q\<lparr>timers := (timers ?q)(a := None), lnk := null_node (Tm a) (lnk ?q)\<rparr>"
  have e: "freeTimer a q = Some ?q'" using assms(2) by (simp add: freeTimer_def Let_def)
  have t: "tid ?q' = (tid q)(a := None)" by (auto simp: tid_def freeSlot_def)
  have "\<exists>fl'. ids_ok ?q' fl'"
  proof (cases "handleIndex t \<ge> 0")
    case True
    then obtain i where i: "handleIndex t = int i" by (metis nonneg_int_cases)
    have "ids_inv ((tid q)(a := None)) ((handles q)[i := \<lparr>h_slot = HFree (freeHead q), h_seq = - 1\<rparr>]) (int i) (numCreated q) (i # fl)"
      by (rule ids_release [OF inv]) (use assms(2) i in simp)
    then have "ids_ok ?q' (i # fl)" unfolding ids_ok_def t using ids_okD(1) [OF assms(1)] i by (simp add: freeSlot_def)
    then show ?thesis by blast
  next
    case False
    then have "tid q a = Some (t_sequence t, - 1)" using ids_seq(3) [OF inv, of a "t_sequence t" "handleIndex t"] assms(2) by auto
    from ids_forget [OF inv this] False have "ids_ok ?q' fl" unfolding ids_ok_def t using ids_okD(1) [OF assms(1)] by simp
    then show ?thesis by blast
  qed
  then obtain fl' where "ids_ok ?q' fl'" by blast
  from that [OF e this] show ?thesis by (simp add: freeSlot_def)
qed

lemma discard_ok:
  assumes "wheel_ok q W P X" "ids_ok q fl" "count_ok q \<and> times_ok q" "a \<in> X" "timers q a = Some t"
    "log_inv ((tlive q)(a := None)) (tlog q) (tick_of q) (currentTicks q) (numCreated q) F"
  obtains q' fl' where "discard a q = Some q'" "tq_ok q' W P (X - {a}) F fl'" "startNs q' = startNs q" "currentTicks q' = currentTicks q"
    "tlog q' = tlog q"
proof -
  let ?q = "q\<lparr>timerCount := wsub (timerCount q) 1\<rparr>"
  have "ids_ok ?q fl" using assms(2) by (simp add: ids_ok_def tid_def [abs_def])
  moreover have "timers ?q a = Some t" using assms(5) by simp
  ultimately obtain q' fl' where q': "freeTimer a ?q = Some q'" "ids_ok q' fl'" "timers q' = (timers q)(a := None)" "lnk q' = null_node (Tm a) (lnk q)"
    "startNs q' = startNs q" "currentTicks q' = currentTicks q" "timerCount q' = wsub (timerCount q) 1" "tlog q' = tlog q" "numCreated q' = numCreated q"
    by (rule freeTimer_ok) simp
  have "wheel_ok q' W P (X - {a})" by (rule wheel_free [OF assms(1,4) q'(4-6,3)])
  moreover have "tick_of q' = tick_of q" by (intro ext) (simp add: tick_of_def q'(5))
  moreover have "tlive q' = (tlive q)(a := None)" using q'(3) by (auto simp: tlive_def)
  ultimately have "log_ok q' F" using assms(6) q'(6,8,9) by (simp add: log_ok_def)
  have fin: "finite (dom (timers q))" by (rule finite_timers [OF assms(1)])
  have m: "a \<in> dom (timers q)" using assms(5) by blast
  have "dom (timers q) \<noteq> {}" using m by blast
  then have "0 < card (dom (timers q))" using fin by (simp only: card_gt_0_iff simp_thms)
  moreover have "card (dom (timers q')) = card (dom (timers q)) - 1" using fin m q'(3) by simp
  ultimately have "count_ok q'" using assms(3) q'(7) wsub_card by (simp add: count_ok_def)
  moreover have "times_ok q'" by (rule times_okI [of q]) (use assms(3) times_okD(5) q'(3,5,6) in \<open>auto split: if_splits\<close>)
  ultimately show ?thesis using that q'(1,2,5,6,8) \<open>wheel_ok q' W P (X - {a})\<close> \<open>log_ok q' F\<close> by (simp add: discard_def tq_ok_def)
qed

subsection \<open>Adding\<close>

lemma Timer_simps [simp]:
  "t_sequence (Timer cb when interval strict seq) = seq" "handleIndex (Timer cb when interval strict seq) = - 1"
  "canceled (Timer cb when interval strict seq) = False" "expiration (Timer cb when interval strict seq) = when"
  "callback (Timer cb when interval strict seq) = cb" "repeat (Timer cb when interval strict seq) = (interval > 0)"
  by (simp_all add: Timer_def)

lemma make_timer_ok:
  assumes ok: "tq_ok q W P X F fl" and a: "new q \<notin> dom (timers q)" and tm: "time_ok when interval"
  obtains q1 where "make_timer new cb when interval strict q = (new q, q1)" "wheel_ok q1 W P (insert (new q) X)" "ids_ok q1 fl" "log_ok q1 F"
    "timers q1 = (timers q)(new q \<mapsto> Timer cb when interval strict (numCreated q))" "timerCount q1 = timerCount q"
    "startNs q1 = startNs q" "currentTicks q1 = currentTicks q" "set (tlog q) \<subseteq> set (tlog q1)" "times_ok q1"
proof -
  let ?t = "Timer cb when interval strict (numCreated q)"
  let ?q1 = "q\<lparr>timers := (timers q)(new q \<mapsto> ?t), lnk := null_node (Tm (new q)) (lnk q), numCreated := numCreated q + 1, tlog := tlog q @ [Created (numCreated q)]\<rparr>"
  have w: "wheel_ok q W P X" and i: "ids_ok q fl" and l: "log_ok q F" using ok by (simp_all add: tq_ok_def)
  have none: "timers q (new q) = None" using a by blast
  have m: "make_timer new cb when interval strict q = (new q, ?q1)" by (simp add: make_timer_def Let_def)
  have "wheel_ok ?q1 W P (insert (new q) X)" by (rule wheel_alloc [OF w a]) simp_all
  moreover have t: "tid ?q1 = (tid q)(new q \<mapsto> (numCreated q, - 1))" by (auto simp: tid_def)
  have "ids_ok ?q1 fl"
    unfolding ids_ok_def t using ids_new [OF ids_okD(2) [OF i], of "new q"] ids_okD(1) [OF i] none by simp
  moreover have v: "tlive ?q1 = (tlive q)(new q \<mapsto> (numCreated q, False))" by (auto simp: tlive_def)
  have tk: "tick_of ?q1 = tick_of q" by (intro ext) (simp add: tick_of_def)
  have "log_inv ((tlive q)(new q \<mapsto> (numCreated q, False))) (tlog q @ [Created (numCreated q)]) (tick_of q) (currentTicks q) (numCreated q + 1) F"
  proof (rule log_new)
    show "log_inv (tlive q) (tlog q) (tick_of q) (currentTicks q) (numCreated q) F" using l by (simp add: log_ok_def)
    show "s < numCreated q" if "tlive q b = Some (s, c)" for b s c using that seq_bound [OF i] by (auto simp: tlive_Some)
  qed (use none in simp)
  then have "log_ok ?q1 F" unfolding log_ok_def v tk by simp
  moreover have "times_ok ?q1"
    by (rule times_okI [of q])
       (use ok tm times_okD(5) in \<open>auto simp: tq_ok_def timer_fits_def Timer_def time_ok_def split: if_splits\<close>)
  ultimately show ?thesis using that [OF m] by auto
qed

lemma allocSlot_ok:
  assumes i: "ids_ok q fl" and t: "timers q a = Some t" "handleIndex t = - 1"
  obtains idx hs fh fl' where "allocSlot a q = Some (idx, q\<lparr>handles := hs, freeHead := fh\<rparr>)"
    "ids_ok (q\<lparr>handles := hs, freeHead := fh, timers := (timers q)(a \<mapsto> t\<lparr>handleIndex := idx\<rparr>)\<rparr>) fl'" "0 \<le> idx"
proof -
  note inv = ids_okD(2) [OF i]
  have v: "tid q a = Some (t_sequence t, - 1)" using t by simp
  have u: "tid (q\<lparr>handles := hs, freeHead := fh, timers := (timers q)(a \<mapsto> t\<lparr>handleIndex := idx\<rparr>)\<rparr>) = (tid q)(a \<mapsto> (t_sequence t, idx))" for hs fh idx
    by (auto simp: tid_def)
  show ?thesis
  proof (cases fl)
    case Nil
    note e = ids_extend [OF inv [unfolded Nil] v]
    let ?hs = "handles q @ [\<lparr>h_slot = HTimer a, h_seq = t_sequence t\<rparr>]"
    have "allocSlot a q = Some (int (length (handles q)), q\<lparr>handles := ?hs, freeHead := freeHead q\<rparr>)"
      using e(1) t(1) by (simp add: allocSlot_def)
    moreover have "ids_ok (q\<lparr>handles := ?hs, freeHead := freeHead q, timers := (timers q)(a \<mapsto> t\<lparr>handleIndex := int (length (handles q))\<rparr>)\<rparr>) []"
      unfolding ids_ok_def u using e(2) ids_okD(1) [OF i] by simp
    ultimately show ?thesis using that by (metis of_nat_0_le_iff)
  next
    case (Cons j fl')
    obtain n where n: "freeHead q = int j" "h_slot (handles q ! j) = HFree n"
      "ids_inv ((tid q)(a \<mapsto> (t_sequence t, int j))) ((handles q)[j := \<lparr>h_slot = HTimer a, h_seq = t_sequence t\<rparr>]) n (numCreated q) fl'"
      using ids_take [OF inv [unfolded Cons] v] by blast
    let ?hs = "(handles q)[j := \<lparr>h_slot = HTimer a, h_seq = t_sequence t\<rparr>]"
    have "allocSlot a q = Some (int j, q\<lparr>handles := ?hs, freeHead := n\<rparr>)" using n(1,2) t(1) by (simp add: allocSlot_def)
    moreover have "ids_ok (q\<lparr>handles := ?hs, freeHead := n, timers := (timers q)(a \<mapsto> t\<lparr>handleIndex := int j\<rparr>)\<rparr>) fl'"
      unfolding ids_ok_def u using n(3) ids_okD(1) [OF i] by simp
    ultimately show ?thesis using that by (metis of_nat_0_le_iff)
  qed
qed

text \<open>The last part of both ways to add: the timer goes into the wheel and is counted.\<close>

lemma insert_counted:
  assumes w: "wheel_ok q W P (insert a X)" "a \<notin> X" and i: "ids_ok q fl" and l: "log_ok q F" and t: "timers q a = Some t"
    and c: "timerCount q = (card (dom (timers q)) - 1) mod W64" and tm: "times_ok q"
  obtains q' s r L where "wheel_insert a q = Some q'" "tq_ok (q'\<lparr>timerCount := wadd (timerCount q') 1\<rparr>) (W(s := W s @ [a])) P X F fl"
    "q' = q\<lparr>timers := (timers q)(a \<mapsto> t\<lparr>rotationCount := r, slotIndex := int s, insertedAt := currentTicks q\<rparr>), lnk := L\<rparr>"
proof -
  have m: "a \<in> insert a X" by simp
  obtain q' s r L where q': "wheel_insert a q = Some q'" "wheel_ok q' (W(s := W s @ [a])) P (insert a X - {a})"
    "q' = q\<lparr>timers := (timers q)(a \<mapsto> t\<lparr>rotationCount := r, slotIndex := int s, insertedAt := currentTicks q\<rparr>), lnk := L\<rparr>"
    by (rule wheel_insert_ok [OF w(1) m t tm])
  let ?q = "q'\<lparr>timerCount := wadd (timerCount q') 1\<rparr>"
  note b = insert_keeps_books [OF t q'(3)]
  have x: "insert a X - {a} = X" using w(2) by blast
  have "wheel_ok ?q (W(s := W s @ [a])) P X" by (rule wheel_same [OF q'(2) [unfolded x]]) (simp_all add: option.rel_refl)
  moreover have "ids_ok ?q fl" using b(5) i by (simp add: ids_ok_def tid_def [abs_def])
  moreover have "log_ok ?q F" using b(6) l by (simp add: log_ok_def tlive_def [abs_def] tick_of_def [abs_def])
  moreover have "count_ok ?q"
  proof -
    have "finite (dom (timers q))" "dom (timers q) \<noteq> {}" using finite_timers [OF w(1)] t by blast+
    then have p: "0 < card (dom (timers q))" by (simp only: card_gt_0_iff simp_thms)
    have "timerCount q' = timerCount q" using q'(3) by simp
    then show ?thesis using c b(4) p wadd_card [of "card (dom (timers q)) - 1"] by (simp add: count_ok_def)
  qed
  moreover have "times_ok ?q" using b(7) tm by (simp add: times_ok_def)
  ultimately show ?thesis using that q'(1,3) by (simp add: tq_ok_def)
qed

definition made :: "'j \<Rightarrow> int \<Rightarrow> int \<Rightarrow> bool \<Rightarrow> int \<Rightarrow> int \<Rightarrow> 'j timer \<Rightarrow> bool" where
  "made cb when interval strict seq idx t \<longleftrightarrow> callback t = cb \<and> expiration t = when \<and> intervalNs t = interval \<and> isStrict t = strict
     \<and> repeat t = (interval > 0) \<and> t_sequence t = seq \<and> handleIndex t = idx \<and> \<not> canceled t"

lemma keeps_fresh:
  assumes "startNs q' = startNs q" "currentTicks q' = currentTicks q" "set (tlog q) \<subseteq> set (tlog q')" "\<And>b. b \<in> X \<Longrightarrow> timers q' b = timers q b"
  shows "keeps X q q'"
proof -
  have "\<exists>c. t = t\<lparr>canceled := c\<rparr>" for t :: "'a timer" by (rule exI [of _ "canceled t"]) simp
  then show ?thesis using assms by (simp add: keeps_def)
qed

lemma addTimerInLoop_ok:
  assumes ok: "tq_ok q W P X F fl" and a: "new q \<notin> dom (timers q)" and tm: "time_ok when interval"
  obtains idx q' s fl' where "addTimerInLoop new cb when interval strict q = Some ((idx, numCreated q), q')"
    "tq_ok q' (W(s := W s @ [new q])) P X F fl'" "keeps X q q'" "0 \<le> idx"
    "\<exists>t. timers q' = (timers q)(new q \<mapsto> t) \<and> made cb when interval strict (numCreated q) idx t"
proof -
  let ?t = "Timer cb when interval strict (numCreated q)"
  have w: "wheel_ok q W P X" and c: "count_ok q" using ok by (simp_all add: tq_ok_def)
  have nX: "new q \<notin> X" using a wheel_okD(8) [OF w] by blast
  obtain q1 where q1: "make_timer new cb when interval strict q = (new q, q1)" "wheel_ok q1 W P (insert (new q) X)" "ids_ok q1 fl" "log_ok q1 F"
    "timers q1 = (timers q)(new q \<mapsto> ?t)" "timerCount q1 = timerCount q"
    "startNs q1 = startNs q" "currentTicks q1 = currentTicks q" "set (tlog q) \<subseteq> set (tlog q1)" "times_ok q1"
    by (rule make_timer_ok [where new = new, OF ok a tm])
  have t1: "timers q1 (new q) = Some ?t" using q1(5) by simp
  obtain idx hs fh fl' where s: "allocSlot (new q) q1 = Some (idx, q1\<lparr>handles := hs, freeHead := fh\<rparr>)"
    "ids_ok (q1\<lparr>handles := hs, freeHead := fh, timers := (timers q1)(new q \<mapsto> ?t\<lparr>handleIndex := idx\<rparr>)\<rparr>) fl'" "0 \<le> idx"
    by (rule allocSlot_ok [OF q1(3) t1 Timer_simps(2)])
  let ?q2 = "q1\<lparr>handles := hs, freeHead := fh, timers := (timers q1)(new q \<mapsto> ?t\<lparr>handleIndex := idx\<rparr>)\<rparr>"
  have t2: "timers ?q2 (new q) = Some (?t\<lparr>handleIndex := idx\<rparr>)" by simp
  have na: "new q \<notin> held W P" using a wheel_okD(8) [OF w] by blast
  have w2: "wheel_ok ?q2 W P (insert (new q) X)"
    by (rule wheel_same [OF q1(2)]) (use na t1 in \<open>auto simp: option.rel_refl\<close>)
  have "tlive ?q2 = tlive q1" using t1 by (auto simp: tlive_def)
  then have l2: "log_ok ?q2 F" using q1(4) by (simp add: log_ok_def tick_of_def [abs_def])
  have "card (dom (timers ?q2)) = card (dom (timers q)) + 1" using q1(5) a finite_timers [OF w] by simp
  then have c2: "timerCount ?q2 = (card (dom (timers ?q2)) - 1) mod W64" using c q1(6) by (simp add: count_ok_def)
  obtain q3 r L p where q3: "wheel_insert (new q) ?q2 = Some q3"
    "tq_ok (q3\<lparr>timerCount := wadd (timerCount q3) 1\<rparr>) (W(p := W p @ [new q])) P X F fl'"
    "q3 = ?q2\<lparr>timers := (timers ?q2)(new q \<mapsto> ?t\<lparr>handleIndex := idx, rotationCount := r, slotIndex := int p, insertedAt := currentTicks ?q2\<rparr>), lnk := L\<rparr>"
  proof (rule insert_counted [OF w2 nX s(2) l2 t2 c2])
    show "times_ok ?q2" by (rule times_okI [OF q1(10)]) (use times_okD(5) [OF q1(10)] t1 in \<open>auto split: if_splits\<close>)
  qed
  let ?q' = "q3\<lparr>timerCount := wadd (timerCount q3) 1\<rparr>"
  have "addTimerInLoop new cb when interval strict q = Some ((idx, numCreated q), ?q')"
    using q1(1) s(1) t1 q3(1) by (simp add: addTimerInLoop_def addTimerInLoop_timer_def)
  moreover have "keeps X q ?q'"
    by (rule keeps_fresh) (use q1(5,7-9) q3(3) nX in auto)
  moreover have "\<exists>t. timers ?q' = (timers q)(new q \<mapsto> t) \<and> made cb when interval strict (numCreated q) idx t"
  proof (intro exI conjI)
    show "timers ?q' = (timers q)(new q \<mapsto> ?t\<lparr>handleIndex := idx, rotationCount := r, slotIndex := int p, insertedAt := currentTicks q1\<rparr>)"
      using q1(5) q3(3) by simp
  qed (simp add: made_def Timer_def)
  ultimately show ?thesis using that q3(2) s(3) by blast
qed

lemma addTimerDetached_ok:
  assumes ok: "tq_ok q W P X F fl" and a: "new q \<notin> dom (timers q)" and tm: "time_ok when interval"
  obtains q' s where "addTimerDetached new cb when interval strict q = Some q'"
    "tq_ok q' (W(s := W s @ [new q])) P X F fl" "keeps X q q'"
    "\<exists>t. timers q' = (timers q)(new q \<mapsto> t) \<and> made cb when interval strict (numCreated q) (- 1) t"
proof -
  let ?t = "Timer cb when interval strict (numCreated q)"
  have w: "wheel_ok q W P X" and c: "count_ok q" using ok by (simp_all add: tq_ok_def)
  have nX: "new q \<notin> X" using a wheel_okD(8) [OF w] by blast
  obtain q1 where q1: "make_timer new cb when interval strict q = (new q, q1)" "wheel_ok q1 W P (insert (new q) X)" "ids_ok q1 fl" "log_ok q1 F"
    "timers q1 = (timers q)(new q \<mapsto> ?t)" "timerCount q1 = timerCount q"
    "startNs q1 = startNs q" "currentTicks q1 = currentTicks q" "set (tlog q) \<subseteq> set (tlog q1)" "times_ok q1"
    by (rule make_timer_ok [where new = new, OF ok a tm])
  have t1: "timers q1 (new q) = Some ?t" using q1(5) by simp
  have "?t\<lparr>handleIndex := - 1\<rparr> = ?t" by (simp add: Timer_def)
  then have same: "q1\<lparr>timers := (timers q1)(new q \<mapsto> ?t\<lparr>handleIndex := - 1\<rparr>)\<rparr> = q1" using t1 by (simp add: fun_upd_idem)
  have "card (dom (timers q1)) = card (dom (timers q)) + 1" using q1(5) a finite_timers [OF w] by simp
  then have c1: "timerCount q1 = (card (dom (timers q1)) - 1) mod W64" using c q1(6) by (simp add: count_ok_def)
  obtain q3 p r L where q3: "wheel_insert (new q) q1 = Some q3"
    "tq_ok (q3\<lparr>timerCount := wadd (timerCount q3) 1\<rparr>) (W(p := W p @ [new q])) P X F fl"
    "q3 = q1\<lparr>timers := (timers q1)(new q \<mapsto> ?t\<lparr>rotationCount := r, slotIndex := int p, insertedAt := currentTicks q1\<rparr>), lnk := L\<rparr>"
    by (rule insert_counted [OF q1(2) nX q1(3,4) t1 c1 q1(10)])
  let ?q' = "q3\<lparr>timerCount := wadd (timerCount q3) 1\<rparr>"
  have "addTimerDetached new cb when interval strict q = Some ?q'"
    using q1(1) t1 q3(1) same by (simp add: addTimerDetached_def addTimerDetachedInLoop_def Let_def)
  moreover have "keeps X q ?q'"
    by (rule keeps_fresh) (use q1(5,7-9) q3(3) nX in auto)
  moreover have "\<exists>t. timers ?q' = (timers q)(new q \<mapsto> t) \<and> made cb when interval strict (numCreated q) (- 1) t"
  proof (intro exI conjI)
    show "timers ?q' = (timers q)(new q \<mapsto> ?t\<lparr>rotationCount := r, slotIndex := int p, insertedAt := currentTicks q1\<rparr>)"
      using q1(5) q3(3) by simp
  qed (simp add: made_def Timer_def)
  ultimately show ?thesis using that q3(2) by blast
qed

subsection \<open>Cancelling\<close>

text \<open>The entry of a live handle names its timer; every other handle with a sequence number is refused.\<close>

lemma entry_cases:
  assumes i: "ids_ok q fl" and s: "seq \<noteq> - 1"
  shows "(\<exists>a t. timers q a = Some t \<and> handleIndex t = idx \<and> 0 \<le> idx \<and> t_sequence t = seq
       \<and> idx < int (length (handles q)) \<and> handles q ! nat idx = \<lparr>h_slot = HTimer a, h_seq = seq\<rparr>)
    \<or> (idx < 0 \<or> idx \<ge> int (length (handles q)) \<or> seq \<noteq> h_seq (handles q ! nat idx))
      \<and> (\<forall>a t. timers q a = Some t \<longrightarrow> t_sequence t = seq \<longrightarrow> handleIndex t = idx \<longrightarrow> idx < 0)"
proof (cases "idx < 0 \<or> idx \<ge> int (length (handles q)) \<or> seq \<noteq> h_seq (handles q ! nat idx)")
  case True
  have "idx < 0" if "timers q a = Some t" "t_sequence t = seq" "handleIndex t = idx" for a t
  proof (rule ccontr)
    assume "\<not> idx < 0"
    moreover have "tid q a = Some (seq, idx)" using that by simp
    ultimately obtain k where "idx = int k" "holds (tid q) (handles q) fl k a"
      using ids_seq(3) [OF ids_okD(2) [OF i], of a seq idx] by auto
    then show False using True that by (auto simp: holds_def)
  qed
  then show ?thesis using True by blast
next
  case False
  then obtain k where k: "idx = int k" "k < length (handles q)" by (metis linorder_not_less nat_0_le nat_less_iff)
  note inv = ids_okD(2) [OF i]
  have ch: "handle_chain (freeHead q) fl (handles q)" using inv unfolding ids_inv_def by blast
  have "k \<notin> set fl" using handle_chain_mem [OF ch, of k] False k s by auto
  then obtain a where "holds (tid q) (handles q) fl k a" using inv k(2) unfolding ids_inv_def by blast
  then show ?thesis using False k by (auto simp: holds_def tid_Some)
qed

lemma cancel_ok:
  assumes ok: "tq_ok q W P X F fl" and s: "seq \<noteq> - 1"
  obtains q' where "cancel idx seq q = Some q'" "tq_ok q' W P X F fl" "keeps X q q'"
    "(\<exists>a t. timers q a = Some t \<and> handleIndex t = idx \<and> 0 \<le> idx \<and> t_sequence t = seq
         \<and> q' = q\<lparr>timers := (timers q)(a \<mapsto> t\<lparr>canceled := True\<rparr>), tlog := tlog q @ [CancelAsked seq]\<rparr>)
     \<or> q' = q \<and> (\<forall>a t. timers q a = Some t \<longrightarrow> t_sequence t = seq \<longrightarrow> handleIndex t = idx \<longrightarrow> idx < 0)"
proof -
  have w: "wheel_ok q W P X" and i: "ids_ok q fl" and l: "log_ok q F" and c: "count_ok q" and tm: "times_ok q" using ok by (simp_all add: tq_ok_def)
  from entry_cases [OF i s, of idx] show ?thesis
  proof
    assume "\<exists>a t. timers q a = Some t \<and> handleIndex t = idx \<and> 0 \<le> idx \<and> t_sequence t = seq
       \<and> idx < int (length (handles q)) \<and> handles q ! nat idx = \<lparr>h_slot = HTimer a, h_seq = seq\<rparr>"
    then obtain a t where t: "timers q a = Some t" "handleIndex t = idx" "0 \<le> idx" "t_sequence t = seq"
       "idx < int (length (handles q))" "handles q ! nat idx = \<lparr>h_slot = HTimer a, h_seq = seq\<rparr>" by blast
    let ?q = "q\<lparr>timers := (timers q)(a \<mapsto> t\<lparr>canceled := True\<rparr>), tlog := tlog q @ [CancelAsked seq]\<rparr>"
    have e: "cancel idx seq q = Some ?q" using t by (simp add: cancel_def)
    have w': "wheel_ok ?q W P X"
      by (rule wheel_same [OF w]) (use t(1) in \<open>auto simp: option.rel_refl same_place_def\<close>)
    have "tid ?q = tid q" using t(1) by (auto simp: tid_def)
    then have i': "ids_ok ?q fl" using i by (simp add: ids_ok_def)
    have v: "tlive ?q = (tlive q)(a \<mapsto> (seq, True))" using t(4) by (auto simp: tlive_def)
    have tk: "tick_of ?q = tick_of q" by (intro ext) (simp add: tick_of_def)
    have "log_ok ?q F" unfolding log_ok_def v tk using log_cancel [OF l [unfolded log_ok_def], of a seq "canceled t"] t seq_inj [OF i] by simp
    moreover have "dom (timers ?q) = dom (timers q)" using t(1) by auto
    then have "count_ok ?q" using c by (simp add: count_ok_def)
    moreover have "keeps X q ?q"
    proof -
      have "\<exists>c. u = u\<lparr>canceled := c\<rparr>" for u :: "'a timer" by (rule exI [of _ "canceled u"]) simp
      then show ?thesis using t(1) by (auto simp: keeps_def)
    qed
    moreover have "times_ok ?q" by (rule times_okI [OF tm]) (use times_okD(5) [OF tm] t(1) in \<open>auto split: if_splits\<close>)
    ultimately show ?thesis using that [OF e] w' i' t by (auto simp: tq_ok_def)
  next
    assume n: "(idx < 0 \<or> idx \<ge> int (length (handles q)) \<or> seq \<noteq> h_seq (handles q ! nat idx))
      \<and> (\<forall>a t. timers q a = Some t \<longrightarrow> t_sequence t = seq \<longrightarrow> handleIndex t = idx \<longrightarrow> idx < 0)"
    then have "cancel idx seq q = Some q" by (auto simp: cancel_def)
    then show ?thesis using that ok n by simp
  qed
qed

subsection \<open>Calls\<close>

lemma freshD: "fresh new \<Longrightarrow> tq_ok q W P X F fl \<Longrightarrow> new q \<notin> dom (timers q)"
  using finite_timers unfolding fresh_def tq_ok_def by blast

definition continues :: "nat list \<Rightarrow> nat set \<Rightarrow> nat set \<Rightarrow> 'j tq \<Rightarrow> 'j tq option \<Rightarrow> bool" where
  "continues P X F q r \<longleftrightarrow> (\<exists>q' W fl. r = Some q' \<and> tq_ok q' W P X F fl \<and> keeps X q q')"

lemma continuesI: "r = Some q' \<Longrightarrow> tq_ok q' W P X F fl \<Longrightarrow> keeps X q q' \<Longrightarrow> continues P X F q r"
  unfolding continues_def by blast

lemma continues_bind:
  assumes "continues P X F q r" "\<And>q' W fl. r = Some q' \<Longrightarrow> tq_ok q' W P X F fl \<Longrightarrow> continues P X F q' (f q')"
  shows "continues P X F q (r \<bind> f)"
proof -
  obtain q' W fl where q': "r = Some q'" "tq_ok q' W P X F fl" "keeps X q q'" using assms(1) unfolding continues_def by blast
  from assms(2) [OF q'(1,2)] obtain q2 W2 fl2 where "f q' = Some q2" "tq_ok q2 W2 P X F fl2" "keeps X q' q2" unfolding continues_def by blast
  then show ?thesis using q' keeps_trans continuesI by (metis bind.bind_lunit)
qed

lemma addTimersInLoop_ok:
  "fresh new \<Longrightarrow> tq_ok q W P X F fl \<Longrightarrow> list_all (\<lambda>(cb, when, interval, strict). time_ok when interval) reqs \<Longrightarrow>
   continues P X F q (map_option snd (addTimersInLoop new reqs q))"
proof (induction reqs arbitrary: q W fl)
  case Nil
  then show ?case by (auto intro: continuesI)
next
  case (Cons r reqs)
  obtain cb wh interval strict where r: "r = (cb, wh, interval, strict)" by (metis surj_pair)
  obtain idx q' s fl' where a: "addTimerInLoop new cb wh interval strict q = Some ((idx, numCreated q), q')"
    "tq_ok q' (W(s := W s @ [new q])) P X F fl'" "keeps X q q'"
    by (rule addTimerInLoop_ok [where new = new, OF Cons.prems(2) freshD [OF Cons.prems(1,2)], of wh interval]) (use Cons.prems(3) r in auto)
  have e: "map_option snd (addTimersInLoop new (r # reqs) q) = Some q' \<bind> (\<lambda>q. map_option snd (addTimersInLoop new reqs q))"
    using a(1) r by (cases "addTimersInLoop new reqs q'") (auto split: prod.splits)
  show ?case unfolding e
  proof (rule continues_bind)
    show "continues P X F q (Some q')" using a continuesI by blast
  qed (use Cons.IH Cons.prems(1,3) in auto)
qed

lemma addTimersDetachedInLoop_ok:
  "fresh new \<Longrightarrow> tq_ok q W P X F fl \<Longrightarrow> list_all (\<lambda>(cb, when, interval, strict). time_ok when interval) reqs \<Longrightarrow>
   continues P X F q (addTimersDetachedInLoop new reqs q)"
proof (induction reqs arbitrary: q W fl)
  case Nil
  then show ?case by (auto intro: continuesI)
next
  case (Cons r reqs)
  obtain cb wh interval strict where r: "r = (cb, wh, interval, strict)" by (metis surj_pair)
  obtain q' s where a: "addTimerDetached new cb wh interval strict q = Some q'" "tq_ok q' (W(s := W s @ [new q])) P X F fl" "keeps X q q'"
    by (rule addTimerDetached_ok [where new = new, OF Cons.prems(2) freshD [OF Cons.prems(1,2)], of wh interval]) (use Cons.prems(3) r in auto)
  show ?case unfolding r addTimersDetachedInLoop.simps
  proof (rule continues_bind)
    show "continues P X F q (addTimerDetached new cb wh interval strict q)" using a continuesI by blast
  qed (use Cons.IH Cons.prems(1,3) in auto)
qed

lemma cancel_continues: "tq_ok q W P X F fl \<Longrightarrow> seq \<noteq> - 1 \<Longrightarrow> continues P X F q (cancel idx seq q)"
  by (rule cancel_ok) (auto intro: continuesI)

lemma cancel_all_ok:
  "tq_ok q W P X F fl \<Longrightarrow> list_all (\<lambda>(idx, seq). seq \<noteq> - 1) tids \<Longrightarrow> continues P X F q (cancel_all tids q)"
proof (induction tids arbitrary: q W fl)
  case Nil
  then show ?case by (auto intro: continuesI)
next
  case (Cons r tids)
  obtain idx seq where r: "r = (idx, seq)" by force
  show ?case unfolding r cancel_all.simps
    by (rule continues_bind) (use Cons r cancel_continues in auto)
qed

lemma do_call_ok:
  assumes "fresh new" "tq_ok q W P X F fl" "call_ok c"
  shows "continues P X F q (do_call new c q)"
proof (cases c)
  case (AddInLoop cb wh interval strict)
  obtain idx q' s fl' where "addTimerInLoop new cb wh interval strict q = Some ((idx, numCreated q), q')"
    "tq_ok q' (W(s := W s @ [new q])) P X F fl'" "keeps X q q'"
    by (rule addTimerInLoop_ok [where new = new, OF assms(2) freshD [OF assms(1,2)], of wh interval]) (use assms(3) AddInLoop in auto)
  then show ?thesis using AddInLoop by (simp add: continuesI)
next
  case (AddDetached cb wh interval strict)
  obtain q' s where "addTimerDetached new cb wh interval strict q = Some q'" "tq_ok q' (W(s := W s @ [new q])) P X F fl" "keeps X q q'"
    by (rule addTimerDetached_ok [where new = new, OF assms(2) freshD [OF assms(1,2)], of wh interval]) (use assms(3) AddDetached in auto)
  then show ?thesis using AddDetached by (simp add: continuesI)
qed (use assms addTimersInLoop_ok addTimersDetachedInLoop_ok cancel_continues cancel_all_ok in auto)

lemma do_calls_ok:
  "fresh new \<Longrightarrow> tq_ok q W P X F fl \<Longrightarrow> list_all call_ok cs \<Longrightarrow> continues P X F q (do_calls new cs q)"
proof (induction cs arbitrary: q W fl)
  case Nil
  then show ?case by (auto intro: continuesI)
next
  case (Cons c cs)
  show ?case unfolding do_calls.simps
    by (rule continues_bind) (use Cons do_call_ok in auto)
qed

subsection \<open>Expiry\<close>

text \<open>What a step of the processing loop, a tick or an advance does, for the history.\<close>

definition proceeds :: "'j tq \<Rightarrow> 'j tq \<Rightarrow> bool" where
  "proceeds q q' \<longleftrightarrow> startNs q' = startNs q \<and> currentTicks q' = currentTicks q \<and> set (tlog q) \<subseteq> set (tlog q')"

lemma proceeds_trans: "proceeds q q1 \<Longrightarrow> proceeds q1 q2 \<Longrightarrow> proceeds q q2"
  unfolding proceeds_def by auto

lemma log_tq: "wheel_ok q W P X \<Longrightarrow> ids_ok q fl \<Longrightarrow> count_ok q \<and> times_ok q \<Longrightarrow>
    log_inv (tlive q) es (tick_of q) (currentTicks q) (numCreated q) F \<Longrightarrow> tq_ok (q\<lparr>tlog := es\<rparr>) W P X F fl"
  by (auto simp: tq_ok_def wheel_ok_def waiting_def ids_ok_def log_ok_def count_ok_def times_ok_def tid_def [abs_def] tlive_def [abs_def] tick_of_def [abs_def])

lemma discard_canceled_ok:
  assumes "tq_ok q W P {a} F fl" "timers q a = Some t" "canceled t" "F \<subseteq> {a}"
  obtains q' fl' where "discard_canceled a t q = Some q'" "tq_ok q' W P {} {} fl'" "proceeds q q'"
proof -
  let ?q = "q\<lparr>tlog := tlog q @ [Dropped (t_sequence t)]\<rparr>"
  have w: "wheel_ok q W P {a}" and i: "ids_ok q fl" and l: "log_ok q F" and c: "count_ok q \<and> times_ok q" using assms(1) by (simp_all add: tq_ok_def)
  have "log_inv ((tlive q)(a := None)) (tlog q @ [Dropped (t_sequence t)]) (tick_of q) (currentTicks q) (numCreated q) (F - {a})"
    by (rule log_drop) (use l assms(2,3) in \<open>simp_all add: log_ok_def\<close>)
  moreover have "F - {a} = {}" using assms(4) by blast
  ultimately have l': "log_inv ((tlive ?q)(a := None)) (tlog ?q) (tick_of ?q) (currentTicks ?q) (numCreated ?q) {}"
    by (simp add: tlive_def [abs_def] tick_of_def [abs_def])
  have "wheel_ok ?q W P {a}" "ids_ok ?q fl" "count_ok ?q \<and> times_ok ?q" "timers ?q a = Some t"
    using w i c assms(2) by (auto simp: wheel_ok_def waiting_def ids_ok_def count_ok_def times_ok_def tid_def [abs_def] tick_of_def [abs_def])
  from discard_ok [OF this(1-3) _ this(4) l'] obtain q' fl' where "discard a ?q = Some q'" "tq_ok q' W P ({a} - {a}) {} fl'"
    "startNs q' = startNs ?q" "currentTicks q' = currentTicks ?q" "tlog q' = tlog ?q" by auto
  then have "discard_canceled a t q = Some q'" "tq_ok q' W P {} {} fl'" "proceeds q q'"
    by (simp_all add: discard_canceled_def proceeds_def) blast
  then show ?thesis by (rule that)
qed

text \<open>The next expiration of a repeating timer that is run at its due tick.\<close>

lemma restart_fits:
  assumes tm: "times_ok q" and t: "timer_fits t" "repeat t" and due: "currentTicks q = due_of (insertedAt t) (tick_of q (expiration t))"
    and now: "0 \<le> now" "now \<le> 2 ^ 62"
  obtains e where "restart now t = Some (t\<lparr>expiration := e\<rparr>)" "timer_fits (t\<lparr>expiration := e\<rparr>)"
proof -
  let ?e = "if isStrict t then expiration t + intervalNs t else now + intervalNs t"
  have "tick_of q (expiration t) \<le> currentTicks q" unfolding due by (auto simp: due_of_def Let_def kWheelSize_def)
  then have "(expiration t - startNs q) sdiv kTickNs \<le> currentTicks q" by (simp add: tick_of_def)
  then have "expiration t - startNs q < currentTicks q * kTickNs + kTickNs"
    using times_okD(2) [OF tm] by (auto simp: signed_divide_int_def kTickNs_def sgn_if split: if_splits)
  then have "expiration t < 2 ^ 62 + kTickNs" using times_okD(3) [OF tm] by linarith
  then have r: "0 \<le> ?e" "?e < 2 ^ 63" using t now by (auto simp: timer_fits_def kTickNs_def)
  then have "i64 ?e = Some ?e" by (intro i64_in) linarith+
  then have "restart now t = Some (t\<lparr>expiration := ?e\<rparr>)" by (simp add: restart_def)
  moreover have "timer_fits (t\<lparr>expiration := ?e\<rparr>)" using r t by (simp add: timer_fits_def)
  ultimately show ?thesis by (rule that)
qed

lemma restart_place:
  assumes "timers q a = Some t" "wheel_ok q W P {a}" "q' = q\<lparr>timers := (timers q)(a \<mapsto> t\<lparr>expiration := e\<rparr>)\<rparr>"
  shows "wheel_ok q' W P {a}" "ids_ok q' fl = ids_ok q fl" "log_ok q' F = log_ok q F" "count_ok q' = count_ok q"
proof -
  have na: "a \<notin> held W P" using wheel_okD(6) [OF assms(2)] by blast
  have d: "dom (timers q') = dom (timers q)" using assms(1,3) by auto
  show "wheel_ok q' W P {a}" by (rule wheel_same [OF assms(2)]) (use assms(3) na d in \<open>auto simp: option.rel_refl\<close>)
  have v: "tid q' = tid q" "tlive q' = tlive q" using assms by (auto simp: tid_def tlive_def)
  have tk: "tick_of q' = tick_of q" using assms(3) by (intro ext) (simp add: tick_of_def)
  show "ids_ok q' fl = ids_ok q fl" "log_ok q' F = log_ok q F" "count_ok q' = count_ok q"
    unfolding ids_ok_def log_ok_def count_ok_def v tk d using assms(3) by simp_all
qed

lemma reinsert_ok:
  assumes "tq_ok q W P {a} {} fl" "timers q a = Some t" "timer_fits (t\<lparr>expiration := e\<rparr>)"
  obtains q' s where "wheel_insert a (q\<lparr>timers := (timers q)(a \<mapsto> t\<lparr>expiration := e\<rparr>)\<rparr>) = Some q'"
    "tq_ok q' (W(s := W s @ [a])) P {} {} fl" "proceeds q q'"
proof -
  let ?q = "q\<lparr>timers := (timers q)(a \<mapsto> t\<lparr>expiration := e\<rparr>)\<rparr>"
  have w: "wheel_ok q W P {a}" using assms(1) by (simp add: tq_ok_def)
  note r = restart_place [OF assms(2) w refl, of e]
  have t: "timers ?q a = Some (t\<lparr>expiration := e\<rparr>)" by simp
  have tm: "times_ok q" using assms(1) by (simp add: tq_ok_def)
  have tm': "times_ok ?q" by (rule times_okI [OF tm]) (use times_okD(5) [OF tm] assms(3) in \<open>auto split: if_splits\<close>)
  have m: "a \<in> {a}" by simp
  obtain q' s r' L where q': "wheel_insert a ?q = Some q'" "wheel_ok q' (W(s := W s @ [a])) P ({a} - {a})"
    "q' = ?q\<lparr>timers := (timers ?q)(a \<mapsto> t\<lparr>expiration := e, rotationCount := r', slotIndex := int s, insertedAt := currentTicks ?q\<rparr>), lnk := L\<rparr>"
    by (rule wheel_insert_ok [OF r(1) m t tm'])
  note b = insert_keeps_books [OF t q'(3)]
  have "count_ok q' = count_ok ?q" unfolding count_ok_def b(4) using q'(3) by simp
  then have "tq_ok q' (W(s := W s @ [a])) P {} {} fl" using q'(2) b(5-7) r tm' assms(1) by (simp add: tq_ok_def)
  moreover have "proceeds q q'" using q'(3) by (simp add: proceeds_def)
  ultimately show ?thesis using that [OF q'(1)] by blast
qed

text \<open>The timer is run: one more event in the history, then the calls of its callback.\<close>

lemma fire_ok:
  assumes f: "fresh new" and act: "\<And>cb q. list_all call_ok (act cb q)"
    and ok: "tq_ok q W P {a} {} fl" and t: "timers q a = Some t" "\<not> canceled t" and due: "currentTicks q = due_of (insertedAt t) (tick_of q (expiration t))"
  obtains q' W' fl' c where "fire new act t q = Some q'" "tq_ok q' W' P {a} (if repeat t then {} else {a}) fl'"
    "timers q' a = Some (t\<lparr>canceled := c\<rparr>)" "proceeds q q'"
    "Fired (t_sequence t) (insertedAt t) (expiration t) (currentTicks q) (repeat t) \<in> set (tlog q')"
proof -
  let ?e = "Fired (t_sequence t) (insertedAt t) (expiration t) (currentTicks q) (repeat t)"
  let ?F = "if repeat t then {} else {a}"
  let ?q = "q\<lparr>tlog := tlog q @ [?e]\<rparr>"
  have i: "ids_ok q fl" and l: "log_ok q {}" using ok by (simp_all add: tq_ok_def)
  have v: "tlive q a = Some (t_sequence t, False)" using t by simp
  have inj: "b = a" if "tlive q b = Some (t_sequence t, c')" for b c' by (rule seq_inj [OF i v that])
  have "log_inv (tlive q) (tlog q @ [?e]) (tick_of q) (currentTicks q) (numCreated q) ?F"
    using log_fire [where F = "{}" and v = "tlive q" and a = a and cur = "currentTicks q" and tick = "tick_of q" and x = "expiration t" and i = "insertedAt t" and r = "repeat t" and es = "tlog q"
        and nc = "numCreated q", OF _ v _ due inj] l by (simp add: log_ok_def)
  moreover have "wheel_ok q W P {a}" "ids_ok q fl" "count_ok q \<and> times_ok q" using ok by (simp_all add: tq_ok_def)
  ultimately have "tq_ok ?q W P {a} ?F fl" by (intro log_tq)
  from do_calls_ok [OF f this act, of "callback t" ?q] obtain q' W' fl' where
    q': "do_calls new (act (callback t) ?q) ?q = Some q'" "tq_ok q' W' P {a} ?F fl'" "keeps {a} ?q q'"
    unfolding continues_def by blast
  have "fire new act t q = Some q'" using q'(1) by (simp add: fire_def Let_def)
  moreover obtain c where "timers q' a = Some (t\<lparr>canceled := c\<rparr>)" using q'(3) t unfolding keeps_def by auto
  moreover have "proceeds q q'" "?e \<in> set (tlog q')" using q'(3) by (auto simp: keeps_def proceeds_def)
  ultimately show ?thesis using that q'(2) by blast
qed

lemma expire_one_ok:
  assumes f: "fresh new" and act: "\<And>cb q. list_all call_ok (act cb q)"
    and ok: "tq_ok q W P {a} {} fl" and wait: "waiting q (slot_at (currentTicks q)) (currentTicks q) a" and now: "0 \<le> now" "now \<le> 2 ^ 62"
  shows "\<exists>q' W' fl'. expire_one new act (slot_at (currentTicks q)) now a q = Some q' \<and> tq_ok q' W' P {} {} fl' \<and> proceeds q q'"
proof -
  let ?s = "slot_at (currentTicks q)"
  from wait obtain t where t: "timers q a = Some t" "slotIndex t = int ?s" "0 \<le> rotationCount t"
      "due_of (insertedAt t) (tick_of q (expiration t)) = currentTicks q + kWheelSize * rotationCount t"
    unfolding waiting_def by blast
  have w: "wheel_ok q W P {a}" using ok by (simp add: tq_ok_def)
  consider (c) "canceled t" | (r) "\<not> canceled t" "rotationCount t > 0" | (f) "\<not> canceled t" "rotationCount t = 0" using t(3) by linarith
  then show ?thesis
  proof cases
    case c
    obtain q' fl' where "discard_canceled a t q = Some q'" "tq_ok q' W P {} {} fl'" "proceeds q q'"
      by (rule discard_canceled_ok [OF ok t(1) c]) simp
    then show ?thesis using t(1) c by (auto simp: expire_one_def)
  next
    case r
    have m: "a \<in> {a}" by simp
    obtain L where L: "push_back (Wheel ?s) (Tm a) (lnk q) = Some L"
      "\<And>q'. lnk q' = L \<Longrightarrow> startNs q' = startNs q \<Longrightarrow> currentTicks q' = currentTicks q \<Longrightarrow> (\<And>b. b \<noteq> a \<Longrightarrow> timers q' b = timers q b)
       \<Longrightarrow> waiting q' ?s (next_visit (currentTicks q) ?s) a \<Longrightarrow> wheel_ok q' (W(?s := W ?s @ [a])) P ({a} - {a})"
      by (rule wheel_push [OF w m slot_at_bounds(1) [of "currentTicks q"]]) (rule that, assumption, blast)
    let ?t = "t\<lparr>rotationCount := rotationCount t - 1\<rparr>"
    let ?q = "q\<lparr>timers := (timers q)(a \<mapsto> ?t), lnk := L\<rparr>"
    have "waiting ?q ?s (next_visit (currentTicks q) ?s) a"
      using t r by (simp add: waiting_def tick_of_def visit_again right_diff_distrib)
    then have "wheel_ok ?q (W(?s := W ?s @ [a])) P ({a} - {a})" by (intro L(2)) simp_all
    moreover have "tid ?q = tid q" "tlive ?q = tlive q" "dom (timers ?q) = dom (timers q)" using t(1) by (auto simp: tid_def tlive_def)
    moreover have "tick_of ?q = tick_of q" by (intro ext) (simp add: tick_of_def)
    moreover have "times_ok ?q" using ok t(1) by (auto simp: tq_ok_def times_ok_def)
    ultimately have "tq_ok ?q (W(?s := W ?s @ [a])) P {} {} fl" using ok by (simp add: tq_ok_def ids_ok_def log_ok_def count_ok_def)
    moreover have "expire_one new act ?s now a q = Some ?q" using t(1) r L(1) by (simp add: expire_one_def)
    ultimately show ?thesis by (auto simp: proceeds_def)
  next
    case f
    have due: "currentTicks q = due_of (insertedAt t) (tick_of q (expiration t))" using t(4) f(2) by simp
    obtain q1 W1 fl1 c where q1: "fire new act t q = Some q1" "tq_ok q1 W1 P {a} (if repeat t then {} else {a}) fl1"
      "timers q1 a = Some (t\<lparr>canceled := c\<rparr>)" "proceeds q q1"
      "Fired (t_sequence t) (insertedAt t) (expiration t) (currentTicks q) (repeat t) \<in> set (tlog q1)"
      by (rule fire_ok [OF assms(1) act ok t(1) f(1) due])
    have e: "expire_one new act ?s now a q = (if c then discard_canceled a (t\<lparr>canceled := c\<rparr>) q1
        else if repeat t then restart now (t\<lparr>canceled := c\<rparr>) \<bind> (\<lambda>t. wheel_insert a (q1\<lparr>timers := (timers q1)(a \<mapsto> t)\<rparr>))
        else discard a q1)"
      using t(1) f q1(1,3) by (simp add: expire_one_def)
    have "\<exists>q' W' fl'. expire_one new act ?s now a q = Some q' \<and> tq_ok q' W' P {} {} fl' \<and> proceeds q1 q'"
    proof (cases c)
      case True
      obtain q' fl' where "discard_canceled a (t\<lparr>canceled := c\<rparr>) q1 = Some q'" "tq_ok q' W1 P {} {} fl'" "proceeds q1 q'"
        by (rule discard_canceled_ok [OF q1(2,3)]) (use True in auto)
      then show ?thesis using e True by auto
    next
      case False
      show ?thesis
      proof (cases "repeat t")
        case True
        then have ok1: "tq_ok q1 W1 P {a} {} fl1" using q1(2) by simp
        have tm: "times_ok q1" using ok1 by (simp add: tq_ok_def)
        have "currentTicks q1 = due_of (insertedAt (t\<lparr>canceled := c\<rparr>)) (tick_of q1 (expiration (t\<lparr>canceled := c\<rparr>)))"
          using due q1(4) by (simp add: proceeds_def tick_of_def)
        from restart_fits [OF tm times_okD(5) [OF tm q1(3)] _ this now] True obtain x where
          x: "restart now (t\<lparr>canceled := c\<rparr>) = Some (t\<lparr>canceled := c, expiration := x\<rparr>)" "timer_fits (t\<lparr>canceled := c, expiration := x\<rparr>)" by auto
        obtain q' s where "wheel_insert a (q1\<lparr>timers := (timers q1)(a \<mapsto> t\<lparr>canceled := c, expiration := x\<rparr>)\<rparr>) = Some q'"
          "tq_ok q' (W1(s := W1 s @ [a])) P {} {} fl1" "proceeds q1 q'" by (rule reinsert_ok [OF ok1 q1(3) x(2)])
        then show ?thesis using e False True x(1) by auto
      next
        case once: False
        have x: "wheel_ok q1 W1 P {a}" "ids_ok q1 fl1" "count_ok q1 \<and> times_ok q1" and l: "log_ok q1 {a}" using q1(2) once by (simp_all add: tq_ok_def)
        have "log_inv ((tlive q1)(a := None)) (tlog q1) (tick_of q1) (currentTicks q1) (numCreated q1) ({a} - {a})"
          by (rule log_done [OF l [unfolded log_ok_def] _ q1(5)]) (use q1(3) once in simp_all)
        then obtain q' fl' where "discard a q1 = Some q'" "tq_ok q' W1 P ({a} - {a}) {} fl'" "startNs q' = startNs q1" "currentTicks q' = currentTicks q1" "tlog q' = tlog q1"
          using discard_ok [OF x _ q1(3), of "{}"] by auto
        then show ?thesis using e False once by (auto simp: proceeds_def)
      qed
    qed
    then show ?thesis using proceeds_trans [OF q1(4)] by blast
  qed
qed

text \<open>The loop empties the list that has been taken over.\<close>

lemma wheel_pop:
  assumes ok: "wheel_ok q W (a # P) {}"
  obtains L where "pop_front Pending (lnk q) = Some (Some (Tm a), L)" "wheel_ok (q\<lparr>lnk := L\<rparr>) W P {a}"
    "waiting (q\<lparr>lnk := L\<rparr>) (slot_at (currentTicks q)) (currentTicks q) a"
proof -
  have rg: "ring (lnk q) Pending (Tm a # map Tm P)" using wheel_okD(3) [OF ok] by simp
  obtain L where L: "pop_front Pending (lnk q) = Some (Some (Tm a), L)" "ring L Pending (map Tm P)"
    "\<And>n. n \<notin> set (Pending # Tm a # map Tm P) \<Longrightarrow> l_next L n = l_next (lnk q) n \<and> l_prev L n = l_prev (lnk q) n"
    by (rule ring_pop [OF rg]) blast
  have d: "a \<notin> set P" using rg by (auto simp: ring_def tlist_def)
  have li: "held W (a # P) = insert a (held W P)" by (auto simp: held_def)
  have naW: "a \<notin> set (W s)" for s using wheel_okD(9) [OF ok, of a s] by auto
  let ?q = "q\<lparr>lnk := L\<rparr>"
  have same: "waiting ?q s k b = waiting q s k b" for s k b by (simp add: waiting_def tick_of_def)
  have "wheel_ok ?q W P {a}"
  proof (rule wheel_okI)
    show "filled (lnk ?q) (Wheel s) (map Tm (W s))" if "s < 4096" for s
    proof -
      have "n \<notin> set (Pending # Tm a # map Tm P)" if "n \<in> set (Wheel s # map Tm (W s))" for n
        using that naW wheel_okD(9) [OF ok, of _ s] by auto
      then show ?thesis using filled_frame [OF wheel_okD(1) [OF ok that], of L] L(3) by simp
    qed
    show "b \<notin> held W P" if "b \<in> {a}" for b using that naW d by (auto simp: held_def)
    show "dom (timers ?q) = held W P \<union> {a}" using wheel_okD(8) [OF ok] li by simp
    show "waiting ?q s (next_visit (currentTicks ?q) s) b" if "b \<in> set (W s)" for b s
      unfolding same using wheel_okD(4) [OF ok that] by simp
    show "waiting ?q (slot_at (currentTicks ?q)) (currentTicks ?q) b" if "b \<in> set P" for b
      unfolding same using wheel_okD(5) [OF ok, of b] that by simp
    show "b \<notin> set P" if "b \<in> set (W s)" for b s using wheel_okD(9) [OF ok that] by simp
  qed (use L(2) wheel_okD(2) [OF ok] in simp_all)
  then show ?thesis using that L(1) same wheel_okD(5) [OF ok, of a] by simp
qed

lemma process_loop_ok:
  assumes f: "fresh new" and act: "\<And>cb q. list_all call_ok (act cb q)" and now: "0 \<le> now" "now \<le> 2 ^ 62"
  shows "tq_ok q W P {} {} fl \<Longrightarrow>
    \<exists>q' W' fl'. process_loop new act (slot_at (currentTicks q)) now q = Some q' \<and> tq_ok q' W' [] {} {} fl' \<and> proceeds q q'"
proof (induction P arbitrary: q W fl)
  case Nil
  then have "ring (lnk q) Pending []" using wheel_okD(3) [of q W "[]" "{}"] by (simp add: tq_ok_def)
  from ring_pop_empty [OF this] have "process_loop new act (slot_at (currentTicks q)) now q = Some q"
    by (subst process_loop.simps) simp
  then show ?case using Nil by (auto simp: proceeds_def)
next
  case (Cons a P)
  have w: "wheel_ok q W (a # P) {}" using Cons.prems by (simp add: tq_ok_def)
  obtain L where L: "pop_front Pending (lnk q) = Some (Some (Tm a), L)" "wheel_ok (q\<lparr>lnk := L\<rparr>) W P {a}"
    "waiting (q\<lparr>lnk := L\<rparr>) (slot_at (currentTicks q)) (currentTicks q) a" by (rule wheel_pop [OF w])
  let ?q = "q\<lparr>lnk := L\<rparr>"
  have "tq_ok ?q W P {a} {} fl" using L(2) Cons.prems
    by (simp add: tq_ok_def ids_ok_def log_ok_def count_ok_def times_ok_def tid_def [abs_def] tlive_def [abs_def] tick_of_def [abs_def])
  from expire_one_ok [where act = act, OF f act this _ now] L(3) obtain q1 W1 fl1 where
    q1: "expire_one new act (slot_at (currentTicks q)) now a ?q = Some q1" "tq_ok q1 W1 P {} {} fl1" "proceeds ?q q1" by auto
  from q1(3) have c: "currentTicks q1 = currentTicks q" by (simp add: proceeds_def)
  from Cons.IH [OF q1(2)] obtain q' W' fl' where q': "process_loop new act (slot_at (currentTicks q)) now q1 = Some q'" "tq_ok q' W' [] {} {} fl'" "proceeds q1 q'"
    unfolding c by blast
  have "process_loop new act (slot_at (currentTicks q)) now q = Some q'"
    by (subst process_loop.simps) (simp add: L(1) q1(1) q'(1))
  moreover have "proceeds q q'" using q1(3) q'(3) by (auto simp: proceeds_def)
  ultimately show ?case using q'(2) by blast
qed

end
