(* ===== verification/TimerProps.thy ===== *)
theory TimerProps
  imports TimerOps
begin

text \<open>
  The properties of the timer wheel: whole ticks and advances, every reachable state, and the
  destructor.
\<close>

subsection \<open>Ticks\<close>

lemma take_over_ok:
  assumes ok: "tq_ok q W [] {} {} fl" and T: "T = currentTicks q + 1" and now: "startNs q + T * kTickNs \<le> 2 ^ 62"
  obtains L where "move_list Pending (Wheel (slot_at T)) (lnk q) = Some L"
    "tq_ok (q\<lparr>currentTicks := T, lnk := L\<rparr>) (W(slot_at T := [])) (W (slot_at T)) {} {} fl"
proof -
  let ?s = "slot_at T" let ?W = "W(?s := [])" let ?P = "W ?s"
  have w: "wheel_ok q W [] {}" and l: "log_ok q {}" using ok by (simp_all add: tq_ok_def)
  have s: "?s < 4096" by (rule slot_at_bounds)
  obtain L where L: "move_list Pending (Wheel ?s) (lnk q) = Some L" "ring L Pending (map Tm ?P)" "ring L (Wheel ?s) []"
    "\<And>n. n \<notin> set (Pending # Wheel ?s # map Tm ?P) \<Longrightarrow> l_next L n = l_next (lnk q) n \<and> l_prev L n = l_prev (lnk q) n"
    by (rule ring_take_over [OF wheel_okD(1) [OF w s], of Pending]) auto
  let ?q = "q\<lparr>currentTicks := T, lnk := L\<rparr>"
  have li: "held ?W ?P = held W []" by (auto simp: held_def split: if_splits)
  have same: "waiting ?q r k b = waiting q r k b" for r k b by (simp add: waiting_def tick_of_def)
  have "wheel_ok ?q ?W ?P {}"
  proof (rule wheel_okI)
    show "filled (lnk ?q) (Wheel r) (map Tm (?W r))" if "r < 4096" for r
    proof (cases "r = ?s")
      case True
      then show ?thesis using L(3) by (simp add: filled_def ring_def)
    next
      case False
      have "n \<notin> set (Pending # Wheel ?s # map Tm ?P)" if "n \<in> set (Wheel r # map Tm (W r))" for n
        using that False wheel_apart [OF w, of _ r ?s] by auto
      then show ?thesis using filled_frame [OF wheel_okD(1) [OF w that], of L] L(4) False by simp
    qed
    show "waiting ?q r (next_visit (currentTicks ?q) r) b" if "b \<in> set (?W r)" for b r
    proof -
      have r: "b \<in> set (W r)" "r \<noteq> ?s" using that by (auto split: if_splits)
      then have "r < 4096" using wheel_okD(2) [OF w, of r] by (cases "r < 4096") auto
      from visit_other [OF r(2) this] show ?thesis unfolding same using wheel_okD(4) [OF w r(1)] T by simp
    qed
    show "waiting ?q (slot_at (currentTicks ?q)) (currentTicks ?q) b" if "b \<in> set ?P" for b
      unfolding same using wheel_okD(4) [OF w that] visit_now [of T] T by simp
    show "b \<notin> set ?P" if "b \<in> set (?W r)" for b r using that wheel_apart [OF w, of b r ?s] by (auto split: if_splits)
    show "dom (timers ?q) = held ?W ?P \<union> {}" unfolding li using wheel_okD(8) [OF w] by simp
  qed (use L(2) wheel_okD(2) [OF w] in simp_all)
  moreover have "log_ok ?q {}"
  proof -
    have "tlive ?q = tlive q" "tick_of ?q = tick_of q" by (simp_all add: tlive_def [abs_def] tick_of_def [abs_def])
    then show ?thesis using log_later [OF l [unfolded log_ok_def], of T "numCreated q"] T by (simp add: log_ok_def)
  qed
  moreover have "times_ok ?q" using ok now T by (simp add: tq_ok_def times_ok_def)
  ultimately have "tq_ok ?q ?W ?P {} {} fl" using ok by (simp add: tq_ok_def ids_ok_def count_ok_def tid_def [abs_def])
  then show ?thesis using that L(1) by blast
qed

lemma tick_ok:
  assumes f: "fresh new" and act: "\<And>cb q. list_all call_ok (act cb q)" and ok: "tq_ok q W [] {} {} fl"
    and now: "startNs q + (currentTicks q + 1) * kTickNs \<le> 2 ^ 62"
  shows "\<exists>q' W' fl'. processExpiredTimers new act (q\<lparr>currentTicks := currentTicks q + 1\<rparr>) = Some q' \<and> tq_ok q' W' [] {} {} fl'
    \<and> startNs q' = startNs q \<and> currentTicks q' = currentTicks q + 1 \<and> set (tlog q) \<subseteq> set (tlog q')"
proof -
  let ?T = "currentTicks q + 1"
  obtain L where L: "move_list Pending (Wheel (slot_at ?T)) (lnk q) = Some L"
    "tq_ok (q\<lparr>currentTicks := ?T, lnk := L\<rparr>) (W(slot_at ?T := [])) (W (slot_at ?T)) {} {} fl"
    by (rule take_over_ok [OF ok refl now])
  have "times_ok q" using ok by (simp add: tq_ok_def)
  note c = times_okD(1,2) [OF this]
  then have t: "i64 (?T * kTickNs) = Some (?T * kTickNs)" "i64 (startNs q + ?T * kTickNs) = Some (startNs q + ?T * kTickNs)"
    "0 \<le> startNs q + ?T * kTickNs" using now by (auto intro!: i64_in simp: kTickNs_def)
  from process_loop_ok [where act = act, OF f act t(3) now L(2)] obtain q' W' fl' where
    q': "process_loop new act (slot_at ?T) (startNs q + ?T * kTickNs) (q\<lparr>currentTicks := ?T, lnk := L\<rparr>) = Some q'" "tq_ok q' W' [] {} {} fl'"
    "proceeds (q\<lparr>currentTicks := ?T, lnk := L\<rparr>) q'" by auto
  have "processExpiredTimers new act (q\<lparr>currentTicks := ?T\<rparr>) = Some q'"
    using L(1) q'(1) t(1,2) by (simp add: processExpiredTimers_def slot_at_def Let_def)
  then show ?thesis using q'(2,3) by (auto simp: proceeds_def)
qed

lemma advance_ticks_ok:
  assumes f: "fresh new" and act: "\<And>cb q. list_all call_ok (act cb q)"
  shows "tq_ok q W [] {} {} fl \<Longrightarrow> startNs q + (currentTicks q + int n) * kTickNs \<le> 2 ^ 62 \<Longrightarrow> \<exists>q' W' fl'. advance_ticks new act n q = Some q' \<and> tq_ok q' W' [] {} {} fl'
    \<and> startNs q' = startNs q \<and> currentTicks q' = currentTicks q + int n \<and> set (tlog q) \<subseteq> set (tlog q')"
proof (induction n arbitrary: q W fl)
  case 0
  then show ?case by auto
next
  case (Suc n)
  have "(currentTicks q + 1) * kTickNs \<le> (currentTicks q + int (Suc n)) * kTickNs" by (intro mult_right_mono) (simp_all add: kTickNs_def)
  then have now: "startNs q + (currentTicks q + 1) * kTickNs \<le> 2 ^ 62" using Suc.prems(2) by linarith
  from tick_ok [where act = act, OF f act Suc.prems(1) now] obtain q1 W1 fl1 where
    q1: "processExpiredTimers new act (q\<lparr>currentTicks := currentTicks q + 1\<rparr>) = Some q1" "tq_ok q1 W1 [] {} {} fl1"
    "startNs q1 = startNs q" "currentTicks q1 = currentTicks q + 1" "set (tlog q) \<subseteq> set (tlog q1)" by blast
  have "startNs q1 + (currentTicks q1 + int n) * kTickNs \<le> 2 ^ 62" using Suc.prems(2) q1(3,4) by (simp add: add.assoc)
  from Suc.IH [OF q1(2) this] obtain q' W' fl' where q': "advance_ticks new act n q1 = Some q'" "tq_ok q' W' [] {} {} fl'"
    "startNs q' = startNs q1" "currentTicks q' = currentTicks q1 + int n" "set (tlog q1) \<subseteq> set (tlog q')" by blast
  have "advance_ticks new act (Suc n) q = Some q'" using q1(1) q'(1) by simp
  then show ?case using q1(3-5) q' by (intro exI [of _ q'] exI [of _ W'] exI [of _ fl']) auto
qed

lemma advanceTo_ok:
  assumes "fresh new" "\<And>cb q. list_all call_ok (act cb q)" "tq_ok q W [] {} {} fl" "clock_ok now"
  shows "\<exists>q' W' fl'. advanceTo new act now q = Some q' \<and> tq_ok q' W' [] {} {} fl'
    \<and> currentTicks q' = max (currentTicks q) (tick_of q now) \<and> set (tlog q) \<subseteq> set (tlog q')"
proof -
  have m: "currentTicks q + int (nat (tick_of q now - currentTicks q)) = max (currentTicks q) (tick_of q now)" by simp
  have tm: "times_ok q" using assms(3) by (simp add: tq_ok_def)
  have i: "i64 (now - startNs q) = Some (now - startNs q)"
    using times_okD(1,4) [OF tm] assms(4) by (intro i64_in) (auto simp: clock_ok_def)
  have "tick_of q now * kTickNs \<le> now - startNs q \<or> tick_of q now \<le> 0"
    by (auto simp: tick_of_def signed_divide_int_def kTickNs_def sgn_if)
  then have "startNs q + max (currentTicks q) (tick_of q now) * kTickNs \<le> 2 ^ 62"
  proof
    assume "tick_of q now * kTickNs \<le> now - startNs q"
    then show ?thesis using times_okD(3) [OF tm] assms(4) by (simp add: clock_ok_def max_def)
  next
    assume "tick_of q now \<le> 0"
    then have "max (currentTicks q) (tick_of q now) = currentTicks q" using times_okD(2) [OF tm] by simp
    then show ?thesis using times_okD(3) [OF tm] by simp
  qed
  then show ?thesis
    using advance_ticks_ok [where act = act and n = "nat (tick_of q now - currentTicks q)", OF assms(1-3)] i unfolding m
    by (auto simp: advanceTo_def tick_of_def Let_def)
qed

subsection \<open>Every reachable state\<close>

lemma init_ok: "0 \<le> n \<Longrightarrow> clock_ok now \<Longrightarrow> tq_ok (tq_init now n) (\<lambda>_. []) [] {} {} []"
  by (simp add: tq_ok_def wheel_ok_def filled_def ring_def tlist_def tq_init_def ids_ok_def ids_inv_def tid_def log_ok_def log_inv_def
      tlive_def count_ok_def cancelled_stay_def times_ok_def clock_ok_def)

theorem tq_run_ok:
  assumes "tq_run new act q" "fresh new" "\<And>cb q. list_all call_ok (act cb q)"
  shows "\<exists>W fl. tq_ok q W [] {} {} fl"
  using assms(1)
proof induction
  case (tq_start n now)
  then show ?case using init_ok by blast
next
  case (tq_call q c q')
  then show ?case using do_call_ok [OF assms(2) _ tq_call.hyps(2)] unfolding continues_def by force
next
  case (tq_other q)
  then obtain W fl where ok: "tq_ok q W [] {} {} fl" by blast
  let ?q = "q\<lparr>numCreated := numCreated q + 1\<rparr>"
  have v: "tid ?q = tid q" "tlive ?q = tlive q" "tick_of ?q = tick_of q" by (simp_all add: tid_def [abs_def] tlive_def [abs_def] tick_of_def [abs_def])
  have "ids_ok ?q fl" using ok ids_other [of "tid q" _ _ "numCreated q" fl "numCreated q + 1"] by (simp add: tq_ok_def ids_ok_def v)
  moreover have "log_ok ?q {}" using ok log_later [of "tlive q" "tlog q" "tick_of q" "currentTicks q" "numCreated q" "{}" "currentTicks q" "numCreated q + 1"]
    by (simp add: tq_ok_def log_ok_def v)
  moreover have "times_ok ?q" using ok by (simp add: tq_ok_def times_ok_def)
  moreover have "wheel_ok ?q W [] {}" using ok by (simp add: tq_ok_def wheel_ok_def waiting_def tick_of_def)
  ultimately show ?case using ok by (auto simp: tq_ok_def count_ok_def)
next
  case (tq_advance q now q')
  then obtain W fl where ok: "tq_ok q W [] {} {} fl" by blast
  from advanceTo_ok [where act = act, OF assms(2,3) ok tq_advance.hyps(2)] tq_advance.hyps(3) show ?case by auto
qed

text \<open>Of the two ticks, the one asked for and the one that comes: they agree unless the distance is a multiple of
  the wheel, when the timer is run one turn (40.96 s) late.\<close>

lemma due_of_asked: "due_of ins target = asked_tick ins target + (if kWheelSize dvd asked_tick ins target - ins then kWheelSize else 0)"
proof -
  have "max 1 (target - ins) = asked_tick ins target - ins" by (simp add: asked_tick_def max_def)
  then show ?thesis by (simp add: due_of_def Let_def)
qed

text \<open>
  C24. When timers are run: in every reachable state, whatever the callbacks do, a timer was never run
  before the tick it asks for (the tick of its expiration at that moment, or the next one when it was put into the wheel
  after that); it was run exactly then, unless that tick lies a multiple of 4096 ticks after the one at which the timer was put
  into the wheel: such a timer was run exactly one turn of the wheel, 40.96 s, too late. Every timer made is
  either still waiting for that tick, or was dropped because it was cancelled, or was a
  one-shot timer that has been run; a one-shot timer was run at most once; and no timer was run after
  the call that cancelled it.
\<close>

theorem timers_on_time:
  assumes "tq_run new act q" "fresh new" "\<And>cb q. list_all call_ok (act cb q)"
  shows "(\<forall>s i e T r. Fired s i e T r \<in> set (tlog q) \<longrightarrow> T \<le> currentTicks q
          \<and> (\<not> kWheelSize dvd asked_tick i (tick_of q e) - i \<longrightarrow> T = asked_tick i (tick_of q e))
          \<and> (kWheelSize dvd asked_tick i (tick_of q e) - i \<longrightarrow> T = asked_tick i (tick_of q e) + kWheelSize))
    \<and> (\<forall>s. Created s \<in> set (tlog q) \<longrightarrow>
          (\<exists>a t. timers q a = Some t \<and> t_sequence t = s
             \<and> currentTicks q < asked_tick (insertedAt t) (tick_of q (expiration t))
                 + (if kWheelSize dvd asked_tick (insertedAt t) (tick_of q (expiration t)) - insertedAt t then kWheelSize else 0))
          \<or> Dropped s \<in> set (tlog q) \<and> CancelAsked s \<in> set (tlog q)
          \<or> (\<exists>i e T. Fired s i e T False \<in> set (tlog q)))
    \<and> (\<forall>s. length (filter (one_shot s) (tlog q)) \<le> 1)
    \<and> (\<forall>xs ys s i e T r. tlog q = xs @ Fired s i e T r # ys \<longrightarrow> CancelAsked s \<notin> set xs)"
proof -
  obtain W fl where ok: "tq_ok q W [] {} {} fl" using tq_run_ok [where act = act, OF assms] by blast
  then have w: "wheel_ok q W [] {}" and l: "log_inv (tlive q) (tlog q) (tick_of q) (currentTicks q) (numCreated q) {}"
    by (simp_all add: tq_ok_def log_ok_def)
  have wait: "currentTicks q < due_of (insertedAt t) (tick_of q (expiration t))" if "timers q a = Some t" for a t
  proof -
    have "a \<in> held W []" using wheel_okD(8) [OF w] that by auto
    then obtain s where "a \<in> set (W s)" by (auto simp: held_def)
    from wheel_okD(4) [OF w this] that have "0 \<le> rotationCount t"
      "due_of (insertedAt t) (tick_of q (expiration t)) = next_visit (currentTicks q) s + kWheelSize * rotationCount t"
      by (auto simp: waiting_def)
    moreover have "currentTicks q < next_visit (currentTicks q) s" by (simp add: next_visit_def kWheelSize_def add_strict_increasing)
    ultimately show ?thesis by (simp add: kWheelSize_def)
  qed
  have "(\<exists>a t. timers q a = Some t \<and> t_sequence t = s \<and> currentTicks q < due_of (insertedAt t) (tick_of q (expiration t)))
      \<or> Dropped s \<in> set (tlog q) \<and> CancelAsked s \<in> set (tlog q) \<or> (\<exists>i e T. Fired s i e T False \<in> set (tlog q))"
    if "Created s \<in> set (tlog q)" for s
  proof -
    from log_invD(2) [OF l that] consider a c where "tlive q a = Some (s, c)" | "Dropped s \<in> set (tlog q)" | e where "e \<in> set (tlog q)" "one_shot s e" by blast
    then show ?thesis
    proof cases
      case 1
      then show ?thesis using wait by (auto simp: tlive_Some)
    next
      case 2
      then show ?thesis using log_invD(4) [OF l] by blast
    qed (auto simp: one_shot_def)
  qed
  moreover have "CancelAsked s \<notin> set xs" if "tlog q = xs @ Fired s i e T r # ys" for xs ys s i e T r
    using log_invD(8) [OF l] that unfolding cancelled_stay_def by blast
  moreover have "T \<le> currentTicks q
      \<and> (\<not> kWheelSize dvd asked_tick i (tick_of q e) - i \<longrightarrow> T = asked_tick i (tick_of q e))
      \<and> (kWheelSize dvd asked_tick i (tick_of q e) - i \<longrightarrow> T = asked_tick i (tick_of q e) + kWheelSize)"
    if "Fired s i e T r \<in> set (tlog q)" for s i e T r
  proof -
    have "T = due_of i (tick_of q e)" "T \<le> currentTicks q" using log_invD(1) [OF l that] by blast+
    then show ?thesis unfolding due_of_asked by simp
  qed
  ultimately show ?thesis using log_invD(5) [OF l] unfolding due_of_asked by blast
qed

text \<open>An allocator, and a run: a timer for the second tick.\<close>

definition next_address :: "'j tq \<Rightarrow> nat" where
  "next_address q = Suc (Max (insert 0 (dom (timers q))))"

lemma fresh_next_address: "fresh next_address"
proof -
  have "Suc (Max (insert 0 A)) \<notin> A" if "finite A" for A :: "nat set"
  proof
    assume "Suc (Max (insert 0 A)) \<in> A"
    then have "Suc (Max (insert 0 A)) \<le> Max (insert 0 A)" using that by (intro Max_ge) simp_all
    then show False by simp
  qed
  then show ?thesis unfolding fresh_def next_address_def by blast
qed

lemmas timer_eval = addTimerDetached_def addTimerDetachedInLoop_def make_timer_def wheel_insert_def push_back_def null_node_def tq_init_def
  set_next_def set_prev_def kTickNs_def kWheelSize_def kWheelMask_def signed_divide_int_def Timer_def next_address_def wadd_def wsub_def W64_def
  i64_def restart_def processExpiredTimers_def move_list_def list_empty_def reset_list_def pop_front_def expire_one_def fire_def discard_def freeTimer_def

definition sample_timer :: "int \<Rightarrow> nat timer" where
  "sample_timer s = \<lparr>callback = 7, expiration = 20000000, intervalNs = 0, t_sequence = s, slotIndex = 2, rotationCount = 0,
     handleIndex = - 1, repeat = False, isStrict = False, canceled = False, insertedAt = 0\<rparr>"

definition sample_wheel :: "nat tq" where
  "sample_wheel = \<lparr>lnk = \<lparr>l_next = (\<lambda>n. case n of Tm a \<Rightarrow> None | r \<Rightarrow> Some r)(Tm 1 := Some (Wheel 2), Wheel 2 := Some (Tm 1)),
        l_prev = (\<lambda>n. case n of Tm a \<Rightarrow> None | r \<Rightarrow> Some r)(Tm 1 := Some (Wheel 2), Wheel 2 := Some (Tm 1))\<rparr>,
      timers = [1 \<mapsto> sample_timer 0], startNs = 0, currentTicks = 0, timerCount = 1, freeHead = - 1, handles = [], numCreated = 1, tlog = [Created 0]\<rparr>"

lemma sample_wheel_made: "addTimerDetached next_address 7 20000000 0 False (tq_init 0 0) = Some sample_wheel"
  by (simp add: sample_wheel_def sample_timer_def timer_eval)

lemma sample_tick1: "processExpiredTimers next_address (\<lambda>_ _. []) (sample_wheel\<lparr>currentTicks := 1\<rparr>) = Some (sample_wheel\<lparr>currentTicks := 1\<rparr>)"
  by (simp add: sample_wheel_def sample_timer_def timer_eval process_loop.simps) (simp add: fun_eq_iff)

lemma sample_tick2: "\<exists>q. processExpiredTimers next_address (\<lambda>_ _. []) (sample_wheel\<lparr>currentTicks := 2\<rparr>) = Some q \<and> Fired 0 0 20000000 2 False \<in> set (tlog q)"
  by (simp add: sample_wheel_def sample_timer_def timer_eval process_loop.simps)

lemma bind_done: "r \<bind> advance_ticks new act 0 = r"
  by (cases r) simp_all

lemma sample_loop: "\<exists>q. advanceTo next_address (\<lambda>_ _. []) 20000000 sample_wheel = Some q \<and> Fired 0 0 20000000 2 False \<in> set (tlog q)"
proof -
  have c: "currentTicks sample_wheel = 0" "startNs sample_wheel = 0" by (simp_all add: sample_wheel_def)
  have "nat ((20000000 - 0) sdiv kTickNs - 0) = Suc (Suc 0)" by (simp add: kTickNs_def signed_divide_int_def numeral_2_eq_2)
  then have "advanceTo next_address (\<lambda>_ _. []) 20000000 sample_wheel = processExpiredTimers next_address (\<lambda>_ _. []) (sample_wheel\<lparr>currentTicks := 2\<rparr>)"
    using sample_tick1 by (simp add: advanceTo_def c bind_done i64_def)
  then show ?thesis using sample_tick2 by simp
qed

lemma sample_wheel_run: "tq_run next_address act sample_wheel"
  using tq_call [OF tq_start [of 0 0], of "AddDetached 7 20000000 0 False"] sample_wheel_made by (simp add: clock_ok_def time_ok_def)

theorem timers_on_time_witness:
  "\<exists>q :: nat tq. tq_run next_address (\<lambda>_ _. []) q \<and> Fired 0 0 20000000 2 False \<in> set (tlog q)
     \<and> \<not> kWheelSize dvd asked_tick 0 (tick_of q 20000000) - 0 \<and> asked_tick 0 (tick_of q 20000000) = 2"
proof -
  obtain q where q: "advanceTo next_address (\<lambda>_ _. []) 20000000 sample_wheel = Some q" "Fired 0 0 20000000 2 False \<in> set (tlog q)"
    using sample_loop by blast
  have r: "tq_run next_address (\<lambda>_ _. []) q" by (rule tq_advance [OF sample_wheel_run _ q(1)]) (simp add: clock_ok_def)
  let ?A = "asked_tick 0 (tick_of q 20000000)"
  have "2 \<le> currentTicks q \<and> (\<not> kWheelSize dvd ?A - 0 \<longrightarrow> 2 = ?A) \<and> (kWheelSize dvd ?A - 0 \<longrightarrow> 2 = ?A + kWheelSize)"
    by (rule timers_on_time [OF r fresh_next_address, THEN conjunct1, rule_format, OF _ q(2)]) simp
  moreover have "1 \<le> ?A" by (simp add: asked_tick_def)
  ultimately have "\<not> kWheelSize dvd ?A - 0" "?A = 2" by (auto simp: kWheelSize_def)
  then show ?thesis using r q(2) by blast
qed

subsection \<open>No operation fails\<close>

text \<open>
  C25. No call of the timer queue and no advance of its clock reaches undefined behaviour or loops for
  ever, provided that every clock reading is between 0 and \<open>2^62\<close> ns, every expiration between 0 and \<open>2^63 - 1\<close> ns and
  every interval at most \<open>2^61\<close> ns: from every state reached within these bounds every call within them returns and
  \<open>advanceTo\<close> returns with the clock at the tick of \<open>now\<close>, whatever the callbacks that it runs add (within the
  bounds) or cancel. So no null link is followed, no freed timer is touched, no \<open>int64_t\<close> overflows and the lists are closed
  when they are popped, although \<open>push_back\<close> leaves them open. The bounds matter: the code checks none of them, and
  a repeating timer with the interval \<open>INT64_MAX\<close> overflows when it is run and restarted (last part).
\<close>

theorem timer_queue_returns:
  assumes "tq_run new act q" "fresh new" "\<And>cb q. list_all call_ok (act cb q)" "call_ok c" "clock_ok now"
  shows "(\<exists>q'. do_call new c q = Some q')
    \<and> (\<exists>q'. advanceTo new act now q = Some q' \<and> currentTicks q' = max (currentTicks q) (tick_of q now))
    \<and> (0 < now \<longrightarrow> restart now (Timer cb when (2 ^ 63 - 1) False s) = None)"
proof -
  obtain W fl where ok: "tq_ok q W [] {} {} fl" using tq_run_ok [where act = act, OF assms(1-3)] by blast
  show ?thesis
    using do_call_ok [OF assms(2) ok assms(4)] advanceTo_ok [where act = act, OF assms(2,3) ok assms(5)] unfolding continues_def
    by (auto simp: restart_def Timer_def i64_def)
qed

theorem timer_queue_returns_witness:
  "\<exists>q1 q2 :: nat tq. do_call next_address (Cancel 3 5) sample_wheel = Some q1
     \<and> advanceTo next_address (\<lambda>cb q. [AddInLoop cb 0 1 True]) 90000000 sample_wheel = Some q2 \<and> currentTicks q2 = max (currentTicks sample_wheel) (tick_of sample_wheel 90000000)
     \<and> restart 90000000 (Timer (0 :: nat) 0 (2 ^ 63 - 1) False 0) = None"
proof -
  have "list_all call_ok [AddInLoop cb 0 1 True]" for cb :: nat by (simp add: time_ok_def)
  moreover have "call_ok (Cancel 3 5 :: nat call)" "clock_ok 90000000" "(0 :: int) < 90000000" by (simp_all add: clock_ok_def)
  ultimately show ?thesis
    using timer_queue_returns [OF sample_wheel_run fresh_next_address, of "\<lambda>cb q. [AddInLoop cb 0 1 True]" "Cancel 3 5" 90000000 "0 :: nat" 0 0]
    by blast
qed

subsection \<open>Cancelling\<close>

text \<open>
  C34. Handles name timers exactly: the id that \<open>addTimerInLoop\<close> returns (for an expiration and an interval
  within the bounds of \<open>time_ok\<close>, so that no \<open>int64_t\<close> overflows) cancels the timer it was
  returned for and changes nothing else, and in every reachable state an id that names no live timer
  (never given out, already used up, or of a timer that has gone, even if its slot is in use again)
  changes nothing at all.
\<close>

theorem cancel_exact:
  assumes "tq_run new act q" "fresh new" "\<And>cb q. list_all call_ok (act cb q)"
  shows "(time_ok when interval \<longrightarrow> (\<exists>i q1 t. addTimerInLoop new cb when interval strict q = Some ((i, numCreated q), q1)
        \<and> timers q1 = (timers q)(new q \<mapsto> t) \<and> callback t = cb \<and> \<not> canceled t
        \<and> cancel i (numCreated q) q1 = Some (q1\<lparr>timers := (timers q1)(new q \<mapsto> t\<lparr>canceled := True\<rparr>), tlog := tlog q1 @ [CancelAsked (numCreated q)]\<rparr>)))
    \<and> (seq \<noteq> - 1 \<longrightarrow> (\<nexists>a t. timers q a = Some t \<and> handleIndex t = idx \<and> 0 \<le> idx \<and> t_sequence t = seq) \<longrightarrow> cancel idx seq q = Some q)"
proof (intro conjI impI)
  assume tm: "time_ok when interval"
  obtain W fl where ok: "tq_ok q W [] {} {} fl" using tq_run_ok [where act = act, OF assms] by blast
  obtain i q1 s fl' where q1: "addTimerInLoop new cb when interval strict q = Some ((i, numCreated q), q1)"
    "tq_ok q1 (W(s := W s @ [new q])) [] {} {} fl'" "0 \<le> i"
    "\<exists>t. timers q1 = (timers q)(new q \<mapsto> t) \<and> made cb when interval strict (numCreated q) i t"
    by (rule addTimerInLoop_ok [where new = new, OF ok freshD [OF assms(2) ok] tm])
  then obtain t where t: "timers q1 = (timers q)(new q \<mapsto> t)" "made cb when interval strict (numCreated q) i t" by blast
  have t1: "timers q1 (new q) = Some t" "t_sequence t = numCreated q" "handleIndex t = i" using t by (simp_all add: made_def)
  have nn: "numCreated q \<noteq> - 1" using ok ids_okD(1) [of q fl] by (simp add: tq_ok_def)
  have ids: "ids_ok q1 fl'" using q1(2) by (simp add: tq_ok_def)
  obtain q2 where q2: "cancel i (numCreated q) q1 = Some q2"
    "(\<exists>a u. timers q1 a = Some u \<and> handleIndex u = i \<and> 0 \<le> i \<and> t_sequence u = numCreated q
         \<and> q2 = q1\<lparr>timers := (timers q1)(a \<mapsto> u\<lparr>canceled := True\<rparr>), tlog := tlog q1 @ [CancelAsked (numCreated q)]\<rparr>)
     \<or> q2 = q1 \<and> (\<forall>a u. timers q1 a = Some u \<longrightarrow> t_sequence u = numCreated q \<longrightarrow> handleIndex u = i \<longrightarrow> i < 0)"
    by (rule cancel_ok [OF q1(2) nn])
  then obtain a u where u: "timers q1 a = Some u" "t_sequence u = numCreated q"
      "q2 = q1\<lparr>timers := (timers q1)(a \<mapsto> u\<lparr>canceled := True\<rparr>), tlog := tlog q1 @ [CancelAsked (numCreated q)]\<rparr>"
    using t1 q1(3) by fastforce
  have "a = new q" by (rule seq_inj [OF ids, of "new q" "numCreated q" "canceled t" a "canceled u"]) (use t1 u(1,2) in simp_all)
  then have "u = t" using u(1) t1(1) by simp
  then show "\<exists>i q1 t. addTimerInLoop new cb when interval strict q = Some ((i, numCreated q), q1)
        \<and> timers q1 = (timers q)(new q \<mapsto> t) \<and> callback t = cb \<and> \<not> canceled t
        \<and> cancel i (numCreated q) q1 = Some (q1\<lparr>timers := (timers q1)(new q \<mapsto> t\<lparr>canceled := True\<rparr>), tlog := tlog q1 @ [CancelAsked (numCreated q)]\<rparr>)"
    using q1(1) t q2(1) u(3) \<open>a = new q\<close> by (intro exI [of _ i] exI [of _ q1] exI [of _ t]) (simp add: made_def)
next
  assume s: "seq \<noteq> - 1" and no: "\<nexists>a t. timers q a = Some t \<and> handleIndex t = idx \<and> 0 \<le> idx \<and> t_sequence t = seq"
  obtain W fl where ok: "tq_ok q W [] {} {} fl" using tq_run_ok [where act = act, OF assms] by blast
  show "cancel idx seq q = Some q" by (rule cancel_ok [OF ok s, of idx]) (use no in auto)
qed

theorem cancel_exact_witness:
  "(\<exists>i q1 t. addTimerInLoop next_address 9 50 60 False sample_wheel = Some ((i, numCreated sample_wheel), q1)
        \<and> callback t = 9 \<and> cancel i (numCreated sample_wheel) q1
          = Some (q1\<lparr>timers := (timers q1)(next_address sample_wheel \<mapsto> t\<lparr>canceled := True\<rparr>), tlog := tlog q1 @ [CancelAsked (numCreated sample_wheel)]\<rparr>))
   \<and> cancel 0 0 sample_wheel = Some sample_wheel"
proof -
  have "\<nexists>a t. timers sample_wheel a = Some t \<and> handleIndex t = 0 \<and> (0::int) \<le> 0 \<and> t_sequence t = 0"
    by (simp add: sample_wheel_def sample_timer_def)
  then show ?thesis
    using cancel_exact [OF sample_wheel_run fresh_next_address, of "\<lambda>_ _. []" 50 60 9 False 0 0] by (fastforce simp: time_ok_def)
qed

subsection \<open>The destructor\<close>

text \<open>A list of at most one timer is emptied; a longer one, which nothing has closed, is popped past its end.\<close>

lemma destroy_short:
  assumes "filled (lnk q) r (map Tm xs)" "length xs \<le> 1" "set xs \<subseteq> dom (timers q)"
  shows "\<exists>q'. destroy_list r q = Some q'
    \<and> (\<forall>n. n \<notin> set (r # map Tm xs) \<longrightarrow> l_next (lnk q') n = l_next (lnk q) n \<and> l_prev (lnk q') n = l_prev (lnk q) n)
    \<and> (\<forall>b. b \<notin> set xs \<longrightarrow> timers q' b = timers q b)"
proof (cases xs)
  case Nil
  have "ring (lnk q) r []" using assms(1) Nil by (simp add: filled_def ring_def)
  from ring_pop_empty [OF this] have "destroy_list r q = Some q" by (subst destroy_list.simps) simp
  then show ?thesis by simp
next
  case (Cons a ys)
  then have xs: "xs = [a]" using assms(2) by simp
  have "ring (lnk q) r [Tm a]" using assms(1) xs by (simp add: filled_def ring_def)
  then obtain L where L: "pop_front r (lnk q) = Some (Some (Tm a), L)" "ring L r []"
    "\<And>n. n \<notin> set [r, Tm a] \<Longrightarrow> l_next L n = l_next (lnk q) n \<and> l_prev L n = l_prev (lnk q) n"
    using ring_pop [of "lnk q" r "Tm a" "[]"] by metis
  let ?q = "q\<lparr>lnk := L, timers := (timers q)(a := None)\<rparr>"
  have p: "pop_front r L = Some (None, L)" by (rule ring_pop_empty [OF L(2)])
  have "destroy_list r ?q = Some ?q" by (subst destroy_list.simps) (simp add: p)
  moreover have "timers q a \<noteq> None" using assms(3) xs by auto
  ultimately have "destroy_list r q = Some ?q" by (subst destroy_list.simps) (simp add: L(1))
  then show ?thesis using L(3) xs by (intro exI [of _ ?q]) auto
qed

lemma destroy_stale:
  "xs \<noteq> [] \<Longrightarrow> tlist (lnk q) r (map Tm xs) z \<Longrightarrow> z \<notin> set (r # map Tm xs) \<Longrightarrow> l_next (lnk q) z = None \<Longrightarrow> destroy_list r q = None"
proof (induction xs arbitrary: q)
  case (Cons a xs)
  show ?case
  proof (cases "xs = []")
    case True
    then have tl: "tlist (lnk q) r [Tm a] z" and z: "z \<noteq> r" "z \<noteq> Tm a" using Cons.prems by simp_all
    obtain L where L: "pop_front r (lnk q) = Some (Some (Tm a), L)" "pop_front r L = None"
      by (rule last_pop_stale [OF tl z Cons.prems(4)]) blast
    have "destroy_list r (q\<lparr>lnk := L, timers := (timers q)(a := None)\<rparr>) = None" by (subst destroy_list.simps) (simp add: L(2))
    then show ?thesis by (subst destroy_list.simps) (simp add: L(1))
  next
    case False
    have tl: "tlist (lnk q) r (Tm a # map Tm xs) z" and ne: "map Tm xs = [] \<longrightarrow> z = r" using Cons.prems(2) False by simp_all
    obtain L where L: "pop_front r (lnk q) = Some (Some (Tm a), L)" "tlist L r (map Tm xs) z"
      "\<And>n. n \<notin> set (r # Tm a # map Tm xs) \<Longrightarrow> l_next L n = l_next (lnk q) n \<and> l_prev L n = l_prev (lnk q) n"
      by (rule tlist_pop [OF tl ne]) blast
    have "z \<notin> set (r # Tm a # map Tm xs)" using Cons.prems(3) by simp
    then have "l_next L z = None" using L(3) Cons.prems(4) by simp
    then have "destroy_list r (q\<lparr>lnk := L, timers := (timers q)(a := None)\<rparr>) = None"
      using L(2) Cons.prems(3) False by (intro Cons.IH) simp_all
    then show ?thesis by (subst destroy_list.simps) (simp add: L(1))
  qed
qed simp

lemma destroy_long:
  assumes "filled (lnk q) r (map Tm xs)" "2 \<le> length xs"
  shows "destroy_list r q = None"
proof -
  obtain a ys where xs: "xs = a # ys" using assms(2) by (cases xs) auto
  then have ne: "ys \<noteq> []" using assms(2) by auto
  have tl: "tlist (lnk q) r (Tm a # map Tm ys) (Tm a)" and nil: "map Tm ys = [] \<longrightarrow> Tm a = r"
    using assms xs ne by (simp_all add: filled_def)
  obtain L where L: "pop_front r (lnk q) = Some (Some (Tm a), L)" "tlist L r (map Tm ys) (Tm a)" "l_next L (Tm a) = None"
    by (rule tlist_pop [OF tl nil]) blast
  have "Tm a \<notin> set (r # map Tm ys)" using tl by (auto simp: tlist_def)
  then have "destroy_list r (q\<lparr>lnk := L, timers := (timers q)(a := None)\<rparr>) = None"
    using L ne by (intro destroy_stale [of ys _ r "Tm a"]) simp_all
  then show ?thesis by (subst destroy_list.simps) (simp add: L(1))
qed

lemma destroy_lists_iff:
  assumes w: "wheel_ok q W [] {}"
  shows "n \<le> 4096 \<Longrightarrow> (if \<forall>s < n. length (W s) \<le> 1
      then \<exists>q'. destroy_lists n q = Some q' \<and> (\<forall>s < 4096. n \<le> s \<longrightarrow> filled (lnk q') (Wheel s) (map Tm (W s)) \<and> set (W s) \<subseteq> dom (timers q'))
      else destroy_lists n q = None)"
proof (induction n)
  case 0
  then show ?case using wheel_okD(1,8) [OF w] by (auto simp: held_def)
next
  case (Suc n)
  show ?case
  proof (cases "\<forall>s < n. length (W s) \<le> 1")
    case False
    then have nf: "(\<forall>s < Suc n. length (W s) \<le> 1) = False" by (meson less_SucI)
    have "destroy_lists n q = None" using False Suc by (simp del: One_nat_def)
    then show ?thesis unfolding nf by simp
  next
    case True
    then obtain q1 where q1: "destroy_lists n q = Some q1"
      "\<And>s. s < 4096 \<Longrightarrow> n \<le> s \<Longrightarrow> filled (lnk q1) (Wheel s) (map Tm (W s)) \<and> set (W s) \<subseteq> dom (timers q1)" using Suc by auto
    have here: "filled (lnk q1) (Wheel n) (map Tm (W n))" "set (W n) \<subseteq> dom (timers q1)" using q1(2) [of n] Suc.prems by simp_all
    show ?thesis
    proof (cases "length (W n) \<le> 1")
      case False
      then have "destroy_list (Wheel n) q1 = None" by (intro destroy_long [OF here(1)]) simp
      then show ?thesis using False q1(1) by auto
    next
      case short: True
      obtain q' where q': "destroy_list (Wheel n) q1 = Some q'"
        "\<And>m. m \<notin> set (Wheel n # map Tm (W n)) \<Longrightarrow> l_next (lnk q') m = l_next (lnk q1) m \<and> l_prev (lnk q') m = l_prev (lnk q1) m"
        "\<And>b. b \<notin> set (W n) \<Longrightarrow> timers q' b = timers q1 b" using destroy_short [OF here(1) short here(2)] by blast
      have "filled (lnk q') (Wheel s) (map Tm (W s)) \<and> set (W s) \<subseteq> dom (timers q')" if "s < 4096" "Suc n \<le> s" for s
      proof
        have dis: "b \<notin> set (W n)" if "b \<in> set (W s)" for b using wheel_apart [OF w that, of n] \<open>Suc n \<le> s\<close> by auto
        have "m \<notin> set (Wheel n # map Tm (W n))" if "m \<in> set (Wheel s # map Tm (W s))" for m
          using that dis \<open>Suc n \<le> s\<close> by auto
        then show "filled (lnk q') (Wheel s) (map Tm (W s))"
          using filled_frame [of "lnk q1" "Wheel s" "map Tm (W s)" "lnk q'"] q1(2) [of s] q'(2) that by simp
        show "set (W s) \<subseteq> dom (timers q')" using q1(2) [of s] q'(3) dis that by (auto simp: domIff subset_iff)
      qed
      moreover have "destroy_lists (Suc n) q = Some q'" using q1(1) q'(1) by simp
      moreover have "\<forall>s < Suc n. length (W s) \<le> 1" using True short by (simp add: less_Suc_eq)
      ultimately show ?thesis by simp
    qed
  qed
qed

text \<open>
  C35. The destructor of the queue releases every timer exactly when no slot of the wheel holds two:
  with two timers in one slot, whose list \<open>push_back\<close> has not closed, it frees both and then pops a
  timer that it has already freed.
\<close>

theorem destroy_queue_iff:
  assumes "tq_run new act q" "fresh new" "\<And>cb q. list_all call_ok (act cb q)"
  shows "(\<exists>q'. destroy_queue q = Some q') \<longleftrightarrow> (\<forall>s < 4096. card {a. \<exists>t. timers q a = Some t \<and> slotIndex t = int s} \<le> 1)"
proof -
  obtain W fl where ok: "tq_ok q W [] {} {} fl" using tq_run_ok [where act = act, OF assms] by blast
  then have w: "wheel_ok q W [] {}" by (simp add: tq_ok_def)
  have c: "card {a. \<exists>t. timers q a = Some t \<and> slotIndex t = int s} = length (W s)" if "s < 4096" for s
  proof -
    have "a \<in> set (W s)" if "timers q a = Some t" "slotIndex t = int s" for a t
    proof -
      have "a \<in> held W []" using wheel_okD(8) [OF w] that(1) by auto
      then obtain r where "a \<in> set (W r)" by (auto simp: held_def)
      moreover from wheel_okD(4) [OF w this] that have "r = s" by (auto simp: waiting_def)
      ultimately show ?thesis by simp
    qed
    moreover have "\<exists>t. timers q a = Some t \<and> slotIndex t = int s" if "a \<in> set (W s)" for a
      using wheel_okD(4) [OF w that] by (auto simp: waiting_def)
    ultimately have "{a. \<exists>t. timers q a = Some t \<and> slotIndex t = int s} = set (W s)" by blast
    moreover have "distinct (W s)" using wheel_okD(1) [OF w that] by (simp add: filled_def tlist_def distinct_map)
    ultimately show ?thesis using distinct_card by metis
  qed
  have "(\<exists>q'. destroy_queue q = Some q') \<longleftrightarrow> (\<forall>s < 4096. length (W s) \<le> 1)"
    using destroy_lists_iff [OF w, of 4096] by (auto simp: destroy_queue_def kWheelSize_def split: if_splits)
  then show ?thesis using c by simp
qed

definition sample_two :: "nat tq" where
  "sample_two = \<lparr>lnk = \<lparr>l_next = (\<lambda>n. case n of Tm a \<Rightarrow> None | r \<Rightarrow> Some r)(Tm 1 := Some (Tm 2), Wheel 2 := Some (Tm 1), Tm 2 := Some (Tm 1)),
        l_prev = (\<lambda>n. case n of Tm a \<Rightarrow> None | r \<Rightarrow> Some r)(Tm 1 := Some (Wheel 2), Wheel 2 := Some (Tm 2), Tm 2 := Some (Tm 1))\<rparr>,
      timers = [1 \<mapsto> sample_timer 0, 2 \<mapsto> sample_timer 1], startNs = 0, currentTicks = 0, timerCount = 2, freeHead = - 1, handles = [],
      numCreated = 2, tlog = [Created 0, Created 1]\<rparr>"

lemma sample_two_made:
  "addTimersDetachedInLoop next_address [(7, 20000000, 0, False)] sample_wheel = Some sample_two"
  by (simp add: sample_two_def sample_wheel_def sample_timer_def timer_eval numeral_2_eq_2, simp add: fun_eq_iff, simp flip: numeral_2_eq_2)

lemma sample_two_slots: "{1, 2} \<subseteq> {a. \<exists>t. timers sample_two a = Some t \<and> slotIndex t = 2}" "finite (dom (timers sample_two))"
  by (auto simp: sample_two_def sample_timer_def)

theorem destroy_queue_iff_witness:
  "addTimersDetachedInLoop next_address [(7, 20000000, 0, False)] sample_wheel = Some sample_two \<and> destroy_queue sample_two = None"
proof -
  let ?q2 = sample_two
  note q2 = sample_two_made sample_two_slots
  have r: "tq_run next_address (\<lambda>_ _. []) ?q2"
    by (rule tq_call [OF sample_wheel_run, of "AddAllDetached [(7, 20000000, 0, False)]"]) (use q2(1) in \<open>simp_all add: time_ok_def\<close>)
  have "finite {a. \<exists>t. timers ?q2 a = Some t \<and> slotIndex t = 2}" by (rule finite_subset [OF _ q2(3)]) auto
  from card_mono [OF this q2(2)] have "\<not> card {a. \<exists>t. timers ?q2 a = Some t \<and> slotIndex t = int 2} \<le> 1" by simp
  moreover have "(\<exists>q'. destroy_queue ?q2 = Some q') \<longleftrightarrow> (\<forall>s < 4096. card {a. \<exists>t. timers ?q2 a = Some t \<and> slotIndex t = int s} \<le> 1)"
    by (rule destroy_queue_iff [OF r fresh_next_address]) simp
  ultimately have "destroy_queue ?q2 = None" by (cases "destroy_queue ?q2") (auto dest!: spec [of _ 2])
  then show ?thesis using q2(1) by blast
qed

end
