(* ===== verification/KzString.thy ===== *)
theory KzString
  imports Codec SizeClasses "HOL-Library.Monad_Syntax"
begin

text \<open>
  The small-string-optimised string \<open>KzSTL/KzString.h\<close>, \<open>KzString.cpp\<close> at the level of its bytes: a
  string object is 24 bytes, read as a length byte and 23 characters (short) or as three
  little-endian words, capacity with two flag bits, size and pointer (long). Characters of a long
  string are in a block of the heap, which knows who allocated it (\<open>Kz\<close> or \<open>Sys\<close>). \<open>new\<close> is what
  \<open>KzAlloc::malloc\<close> returns: an address and the uninitialised bytes of the block. A \<open>string_view\<close>
  points elsewhere (\<open>Ext\<close>) or into the string it is passed to (\<open>Own\<close>). The result \<open>None\<close> is undefined
  behaviour: an access outside a block, a block freed twice, by the wrong allocator or with a size of another class
  than that of the block (what \<open>KzAlloc\<close> requires of the sized \<open>free\<close>; the size itself only matters for the class,
  and above \<open>MAX_BYTES\<close> not at all). Sizes and addresses are \<open>nat\<close>, written into their fields modulo \<open>2^64\<close>.
\<close>

datatype owner = Kz | Sys

type_synonym kheap = "nat \<Rightarrow> (owner \<times> byte list) option"
type_synonym rep = "byte list"
type_synonym kmalloc = "kheap \<Rightarrow> nat \<Rightarrow> nat \<times> byte list"

datatype sview = Ext "byte list" | Own nat nat

definition kMaxShortSize :: nat where "kMaxShortSize = 22"
definition kLongFlag :: nat where "kLongFlag = 1"
definition kMallocFlag :: nat where "kMallocFlag = 2"

subsection \<open>The allocators\<close>

definition kz_malloc :: "kmalloc \<Rightarrow> nat \<Rightarrow> kheap \<Rightarrow> nat \<times> kheap" where
  "kz_malloc new n h = (case new h n of (a, junk) \<Rightarrow> (a, h(a \<mapsto> (Kz, junk))))"

definition kz_free :: "nat \<Rightarrow> nat \<Rightarrow> kheap \<Rightarrow> kheap option" where
  "kz_free a n h = (case h a of Some (Kz, bs) \<Rightarrow> if same_class n (length bs) then Some (h(a := None)) else None | _ \<Rightarrow> None)"

definition sys_free :: "nat \<Rightarrow> kheap \<Rightarrow> kheap option" where
  "sys_free a h = (case h a of Some (Sys, bs) \<Rightarrow> Some (h(a := None)) | _ \<Rightarrow> None)"

text \<open>\<open>KzAlloc::realloc\<close> gives the old block back and returns one that holds its first bytes (it may be the same).\<close>

definition kz_reallocate :: "kmalloc \<Rightarrow> nat \<Rightarrow> nat \<Rightarrow> nat \<Rightarrow> kheap \<Rightarrow> (nat \<times> kheap) option" where
  "kz_reallocate new a old n h =
     (case h a of
        Some (Kz, bs) \<Rightarrow>
          if same_class old (length bs) then
            (let kept = take (min old n) bs
             in case new (h(a := None)) n of
                  (b, junk) \<Rightarrow> Some (b, (h(a := None))(b \<mapsto> (Kz, kept @ drop (length kept) junk))))
          else None
      | _ \<Rightarrow> None)"

definition heap_write :: "nat \<Rightarrow> nat \<Rightarrow> byte list \<Rightarrow> kheap \<Rightarrow> kheap option" where
  "heap_write a i bs h =
     (case h a of Some (own, block) \<Rightarrow> if i + length bs \<le> length block then Some (h(a \<mapsto> (own, wr block i bs))) else None | None \<Rightarrow> None)"

definition heap_read :: "nat \<Rightarrow> nat \<Rightarrow> nat \<Rightarrow> kheap \<Rightarrow> byte list option" where
  "heap_read a i n h =
     (case h a of Some (own, block) \<Rightarrow> if i + n \<le> length block then Some (take n (drop i block)) else None | None \<Rightarrow> None)"

subsection \<open>The fields\<close>

definition field :: "nat \<Rightarrow> rep \<Rightarrow> nat" where
  "field i r = of_le (take 8 (drop i r))"

definition set_field :: "nat \<Rightarrow> nat \<Rightarrow> rep \<Rightarrow> rep" where
  "set_field i v r = wr r i (le_bytes 8 v)"

definition isLong :: "rep \<Rightarrow> bool" where
  "isLong r \<longleftrightarrow> unat (r ! 0) AND kLongFlag \<noteq> 0"

definition isMallocPtr :: "rep \<Rightarrow> bool" where
  "isMallocPtr r \<longleftrightarrow> unat (r ! 0) AND kMallocFlag \<noteq> 0"

definition getLongCap :: "rep \<Rightarrow> nat" where
  "getLongCap r = drop_bit 2 (field 0 r)"

definition getLongSize :: "rep \<Rightarrow> nat" where
  "getLongSize r = field 8 r"

definition getLongPtr :: "rep \<Rightarrow> nat" where
  "getLongPtr r = field 16 r"

definition setLongCap :: "nat \<Rightarrow> rep \<Rightarrow> rep" where
  "setLongCap c r = set_field 0 (push_bit 2 c OR kLongFlag) r"

definition setLongCapWithMalloc :: "nat \<Rightarrow> bool \<Rightarrow> rep \<Rightarrow> rep" where
  "setLongCapWithMalloc c is_malloc r = set_field 0 (push_bit 2 c OR kLongFlag OR (if is_malloc then kMallocFlag else 0)) r"

definition setLongSize :: "nat \<Rightarrow> rep \<Rightarrow> rep" where
  "setLongSize s r = set_field 8 s r"

definition setLongPtr :: "nat \<Rightarrow> rep \<Rightarrow> rep" where
  "setLongPtr p r = set_field 16 p r"

definition getShortSize :: "rep \<Rightarrow> nat" where
  "getShortSize r = drop_bit 1 (unat (r ! 0))"

definition setShortSize :: "nat \<Rightarrow> rep \<Rightarrow> rep" where
  "setShortSize s r = r[0 := word_of_nat (push_bit 1 s)]"

definition str_size :: "rep \<Rightarrow> nat" where
  "str_size r = (if isLong r then getLongSize r else getShortSize r)"

definition str_capacity :: "rep \<Rightarrow> nat" where
  "str_capacity r = (if isLong r then getLongCap r else kMaxShortSize)"

definition str_empty :: "rep \<Rightarrow> bool" where
  "str_empty r \<longleftrightarrow> str_size r = 0"

definition set_size :: "nat \<Rightarrow> rep \<Rightarrow> rep" where
  "set_size n r = (if isLong r then setLongSize n r else setShortSize n r)"

text \<open>Reading and writing at \<open>data()\<close>: in the block of a long string, in the object of a short one.\<close>

definition data_write :: "nat \<Rightarrow> byte list \<Rightarrow> rep \<times> kheap \<Rightarrow> (rep \<times> kheap) option" where
  "data_write i bs s =
     (case s of (r, h) \<Rightarrow>
       if isLong r then map_option (Pair r) (heap_write (getLongPtr r) i bs h)
       else if 1 + i + length bs \<le> 24 then Some (wr r (1 + i) bs, h) else None)"

definition data_read :: "nat \<Rightarrow> nat \<Rightarrow> rep \<times> kheap \<Rightarrow> byte list option" where
  "data_read i n s =
     (case s of (r, h) \<Rightarrow>
       if isLong r then heap_read (getLongPtr r) i n h
       else if 1 + i + n \<le> 24 then Some (take n (drop (1 + i) r)) else None)"

fun view_size :: "sview \<Rightarrow> nat" where
  "view_size (Ext bs) = length bs"
| "view_size (Own off len) = len"

fun view_read :: "sview \<Rightarrow> rep \<times> kheap \<Rightarrow> byte list option" where
  "view_read (Ext bs) s = Some bs"
| "view_read (Own off len) s = data_read off len s"

subsection \<open>Construction and destruction\<close>

definition KzString_empty :: rep where
  "KzString_empty = replicate 24 0"

definition initFromBytes :: "kmalloc \<Rightarrow> byte list \<Rightarrow> rep \<times> kheap \<Rightarrow> (rep \<times> kheap) option" where
  "initFromBytes new sv s =
     (case s of (r, h) \<Rightarrow>
       if length sv \<le> kMaxShortSize then
         (let r = setShortSize (length sv) r;
              r = wr r 1 sv;
              r = wr r (1 + length sv) [0];
              r = wr r (1 + length sv) (replicate (kMaxShortSize - length sv + 1) 0)
          in Some (r, h))
       else
         (case kz_malloc new (length sv + 1) h of (ptr, h) \<Rightarrow>
           do {
             h \<leftarrow> heap_write ptr 0 sv h;
             h \<leftarrow> heap_write ptr (length sv) [0] h;
             Some (setLongCap (length sv) (setLongSize (length sv) (setLongPtr ptr r)), h)
           }))"

text \<open>Move construction: the bytes are copied and the source is zeroed.\<close>

definition move_construct :: "rep \<Rightarrow> rep \<times> rep" where
  "move_construct other = (other, KzString_empty)"

definition free_long :: "rep \<Rightarrow> kheap \<Rightarrow> kheap option" where
  "free_long r h = (if isMallocPtr r then sys_free (getLongPtr r) h else kz_free (getLongPtr r) (getLongCap r + 1) h)"

definition destroy_string :: "rep \<Rightarrow> kheap \<Rightarrow> kheap option" where
  "destroy_string r h = (if isLong r then free_long r h else Some h)"

text \<open>\<open>adopt\<close> and \<open>adoptMalloc\<close>: the capacity is stored without the shift that \<open>getLongCap\<close> undoes.\<close>

definition adopt_raw :: "kmalloc \<Rightarrow> nat \<Rightarrow> nat \<Rightarrow> nat \<Rightarrow> bool \<Rightarrow> rep \<times> kheap \<Rightarrow> (rep \<times> kheap) option" where
  "adopt_raw new ptr len cap is_malloc s =
     (case s of (r, h) \<Rightarrow>
       if cap \<le> kMaxShortSize then
         do {
           sv \<leftarrow> heap_read ptr 0 len h;
           (r, h) \<leftarrow> initFromBytes new sv (r, h);
           h \<leftarrow> (if is_malloc then sys_free ptr h else kz_free ptr (cap + 1) h);
           Some (r, h)
         }
       else
         (let r = setLongPtr ptr r;
              r = setLongSize len r
          in Some (set_field 0 (cap OR kLongFlag OR (if is_malloc then kMallocFlag else 0)) r, h)))"

subsection \<open>Assignment\<close>

definition assign_raw :: "kmalloc \<Rightarrow> sview \<Rightarrow> rep \<times> kheap \<Rightarrow> (rep \<times> kheap) option" where
  "assign_raw new sv s =
     (if view_size sv \<le> str_capacity (fst s) then
        do {
          bs \<leftarrow> view_read sv s;
          s \<leftarrow> data_write 0 bs s;
          s \<leftarrow> data_write (view_size sv) [0] s;
          Some (set_size (view_size sv) (fst s), snd s)
        }
      else
        (case s of (r, h) \<Rightarrow>
         (case kz_malloc new (view_size sv + 1) h of (newPtr, h) \<Rightarrow>
           do {
             bs \<leftarrow> view_read sv (r, h);
             h \<leftarrow> heap_write newPtr 0 bs h;
             h \<leftarrow> heap_write newPtr (view_size sv) [0] h;
             h \<leftarrow> (if isLong r then free_long r h else Some h);
             Some (setLongCap (view_size sv) (setLongSize (view_size sv) (setLongPtr newPtr r)), h)
           })))"

text \<open>Move assignment from another object.\<close>

definition assign_move :: "rep \<Rightarrow> rep \<times> kheap \<Rightarrow> (rep \<times> rep \<times> kheap) option" where
  "assign_move other s =
     (case s of (r, h) \<Rightarrow>
       do {
         h \<leftarrow> (if isLong r then free_long r h else Some h);
         Some (other, KzString_empty, h)
       })"

definition str_clear :: "rep \<times> kheap \<Rightarrow> (rep \<times> kheap) option" where
  "str_clear s = data_write 0 [0] (set_size 0 (fst s), snd s)"

text \<open>\<open>swap\<close> exchanges the three words of the objects.\<close>

definition str_swap :: "rep \<Rightarrow> rep \<Rightarrow> rep \<times> rep" where
  "str_swap r other =
     (let swap_word = (\<lambda>i (r, q). (set_field i (field i q) r, set_field i (field i r) q))
      in swap_word 16 (swap_word 8 (swap_word 0 (r, other))))"

subsection \<open>Growing\<close>

definition round4 :: "nat \<Rightarrow> nat" where
  "round4 n = wadd n 3 AND (W64 - 4)"

definition str_reserve :: "kmalloc \<Rightarrow> nat \<Rightarrow> rep \<times> kheap \<Rightarrow> (rep \<times> kheap) option" where
  "str_reserve new want s =
     (case s of (r, h) \<Rightarrow>
       let newCap = round4 want;
           currentCap = str_capacity r
       in if newCap \<le> currentCap then Some (r, h)
          else if isLong r then
            (if isMallocPtr r then
               (case kz_malloc new (newCap + 1) h of (newPtr, h) \<Rightarrow>
                 do {
                   bs \<leftarrow> heap_read (getLongPtr r) 0 (str_size r + 1) h;
                   h \<leftarrow> heap_write newPtr 0 bs h;
                   h \<leftarrow> sys_free (getLongPtr r) h;
                   Some (setLongCap newCap (setLongPtr newPtr r), h)
                 })
             else
               do {
                 (newPtr, h) \<leftarrow> kz_reallocate new (getLongPtr r) (currentCap + 1) (newCap + 1) h;
                 Some (setLongCap newCap (setLongPtr newPtr r), h)
               })
          else
            (case kz_malloc new (newCap + 1) h of (newPtr, h) \<Rightarrow>
              do {
                bs \<leftarrow> data_read 0 (getShortSize r) (r, h);
                h \<leftarrow> heap_write newPtr 0 bs h;
                h \<leftarrow> heap_write newPtr (getShortSize r) [0] h;
                let oldSize = getShortSize r;
                Some (setLongCap newCap (setLongSize oldSize (setLongPtr newPtr r)), h)
              }))"

fun isAliasing :: "sview \<Rightarrow> nat \<Rightarrow> bool" where
  "isAliasing (Ext bs) sz = False"
| "isAliasing (Own off len) sz = (off < sz)"

text \<open>The three ways to grow in \<open>append_raw\<close>. After the reallocation the old buffer is gone: a view of it
  can only be read if it is empty.\<close>

definition append_move :: "kmalloc \<Rightarrow> sview \<Rightarrow> nat \<Rightarrow> rep \<times> kheap \<Rightarrow> (rep \<times> kheap) option" where
  "append_move new sv newCap s =
     (case s of (r, h) \<Rightarrow>
       let sz = str_size r; cap = str_capacity r; req = wadd sz (view_size sv)
       in (case kz_malloc new (newCap + 1) h of (newPtr, h) \<Rightarrow>
            do {
              old \<leftarrow> heap_read (getLongPtr r) 0 sz h;
              h \<leftarrow> heap_write newPtr 0 old h;
              bs \<leftarrow> view_read sv (r, h);
              h \<leftarrow> heap_write newPtr sz bs h;
              h \<leftarrow> heap_write newPtr req [0] h;
              h \<leftarrow> (if isMallocPtr r then sys_free (getLongPtr r) h else kz_free (getLongPtr r) (cap + 1) h);
              Some (setLongPtr newPtr r, h)
            }))"

definition append_realloc :: "kmalloc \<Rightarrow> sview \<Rightarrow> nat \<Rightarrow> rep \<times> kheap \<Rightarrow> (rep \<times> kheap) option" where
  "append_realloc new sv newCap s =
     (case s of (r, h) \<Rightarrow>
       let sz = str_size r; cap = str_capacity r; req = wadd sz (view_size sv)
       in do {
            (newPtr, h) \<leftarrow> kz_reallocate new (getLongPtr r) (cap + 1) (newCap + 1) h;
            bs \<leftarrow> (case sv of Ext bs \<Rightarrow> Some bs | Own off len \<Rightarrow> if len = 0 then Some [] else None);
            h \<leftarrow> heap_write newPtr sz bs h;
            h \<leftarrow> heap_write newPtr req [0] h;
            Some (setLongPtr newPtr r, h)
          })"

definition append_spill :: "kmalloc \<Rightarrow> sview \<Rightarrow> nat \<Rightarrow> rep \<times> kheap \<Rightarrow> (rep \<times> kheap) option" where
  "append_spill new sv newCap s =
     (case s of (r, h) \<Rightarrow>
       let sz = str_size r; req = wadd sz (view_size sv)
       in (case kz_malloc new (newCap + 1) h of (newPtr, h) \<Rightarrow>
            do {
              old \<leftarrow> data_read 0 sz (r, h);
              h \<leftarrow> heap_write newPtr 0 old h;
              bs \<leftarrow> view_read sv (r, h);
              h \<leftarrow> heap_write newPtr sz bs h;
              h \<leftarrow> heap_write newPtr req [0] h;
              Some (setLongPtr newPtr r, h)
            }))"

definition append_raw :: "kmalloc \<Rightarrow> sview \<Rightarrow> rep \<times> kheap \<Rightarrow> (rep \<times> kheap) option" where
  "append_raw new sv s =
     (let r = fst s; sz = str_size r; cap = str_capacity r; req = wadd sz (view_size sv)
      in if req \<le> cap then
           do {
             bs \<leftarrow> view_read sv s;
             s \<leftarrow> data_write sz bs s;
             s \<leftarrow> data_write req [0] s;
             Some (set_size req (fst s), snd s)
           }
         else
           (let newCap = round4 (max (push_bit 1 cap mod W64) req)
            in do {
                 s \<leftarrow> (if isLong r then
                         (if isMallocPtr r \<or> isAliasing sv sz then append_move new sv newCap s else append_realloc new sv newCap s)
                       else append_spill new sv newCap s);
                 Some (setLongCap newCap (setLongSize req (fst s)), snd s)
               }))"

definition str_push_back :: "kmalloc \<Rightarrow> byte \<Rightarrow> rep \<times> kheap \<Rightarrow> (rep \<times> kheap) option" where
  "str_push_back new c s =
     (let sz = str_size (fst s)
      in if sz < str_capacity (fst s) then
           do {
             s \<leftarrow> data_write sz [c] s;
             s \<leftarrow> data_write (sz + 1) [0] s;
             Some (set_size (sz + 1) (fst s), snd s)
           }
         else append_raw new (Ext [c]) s)"

definition str_resize :: "kmalloc \<Rightarrow> nat \<Rightarrow> byte \<Rightarrow> rep \<times> kheap \<Rightarrow> (rep \<times> kheap) option" where
  "str_resize new n c s =
     (let currentSize = str_size (fst s)
      in if n < currentSize then data_write n [0] (set_size n (fst s), snd s)
         else if n > currentSize then
           do {
             s \<leftarrow> str_reserve new n s;
             s \<leftarrow> data_write currentSize (replicate (n - currentSize) c) s;
             s \<leftarrow> data_write n [0] s;
             Some (set_size n (fst s), snd s)
           }
         else Some s)"

text \<open>\<open>operator+\<close>: a new string, of the characters of this one and of the argument.\<close>

definition str_plus :: "kmalloc \<Rightarrow> byte list \<Rightarrow> rep \<times> kheap \<Rightarrow> (rep \<times> kheap) option" where
  "str_plus new sv s =
     do {
       this \<leftarrow> data_read 0 (str_size (fst s)) s;
       s \<leftarrow> str_reserve new (wadd (str_size (fst s)) (length sv)) (KzString_empty, snd s);
       s \<leftarrow> append_raw new (Ext this) s;
       append_raw new (Ext sv) s
     }"

subsection \<open>Comparison\<close>

text \<open>\<open>std::string_view::compare\<close>: the first difference of unsigned characters, then the lengths.\<close>

fun sv_compare :: "byte list \<Rightarrow> byte list \<Rightarrow> int" where
  "sv_compare [] [] = 0"
| "sv_compare [] (y # ys) = - 1"
| "sv_compare (x # xs) [] = 1"
| "sv_compare (x # xs) (y # ys) = (if x < y then - 1 else if y < x then 1 else sv_compare xs ys)"

definition str_compare :: "rep \<times> kheap \<Rightarrow> byte list \<Rightarrow> int option" where
  "str_compare s sv = map_option (\<lambda>this. sv_compare this sv) (data_read 0 (str_size (fst s)) s)"

end
