(* ===== verification/KzStringProps.thy ===== *)
theory KzStringProps
  imports KzString
begin

text \<open>
  The string object as an abstract list of characters: \<open>is_str (r, h) xs\<close> says that the object \<open>r\<close>
  over the heap \<open>h\<close> holds \<open>xs\<close>, terminated by NUL, inside its capacity. Every operation is total on
  such objects, has the effect of the list operation, and changes no other block of the heap.
\<close>

lemma same_class_refl [simp]: "same_class n n"
  by (simp add: same_class_def)

subsection \<open>Long and short objects\<close>

definition long_rep :: "nat \<Rightarrow> nat \<Rightarrow> nat \<Rightarrow> bool \<Rightarrow> rep" where
  "long_rep c z p m = le_bytes 8 (4 * c + 1 + (if m then 2 else 0)) @ le_bytes 8 z @ le_bytes 8 p"

definition long_ok :: "rep \<Rightarrow> kheap \<Rightarrow> byte list \<Rightarrow> nat \<Rightarrow> nat \<Rightarrow> bool \<Rightarrow> bool" where
  "long_ok r h xs c p m \<longleftrightarrow> r = long_rep c (length xs) p m \<and> c < 2 ^ 62 \<and> p < W64
     \<and> (\<exists>t. h p = Some (if m then Sys else Kz, xs @ [0] @ t) \<and> length (xs @ [0] @ t) = c + 1)"

definition short_ok :: "rep \<Rightarrow> byte list \<Rightarrow> bool" where
  "short_ok r xs \<longleftrightarrow> (\<exists>t. r = word_of_nat (2 * length xs) # xs @ [0] @ t \<and> length xs + length t = kMaxShortSize)"

definition is_str :: "rep \<times> kheap \<Rightarrow> byte list \<Rightarrow> bool" where
  "is_str s xs \<longleftrightarrow> short_ok (fst s) xs \<or> (\<exists>c p m. long_ok (fst s) (snd s) xs c p m)"

lemma and1: "(n::nat) AND kLongFlag \<noteq> 0 \<longleftrightarrow> odd n"
  by (simp add: kLongFlag_def and_one_eq odd_iff_mod_2_eq_one)

lemma and2: "(n::nat) AND kMallocFlag \<noteq> 0 \<longleftrightarrow> odd (n div 2)"
proof -
  have "n AND 2 ^ 1 = 0 \<longleftrightarrow> \<not> bit n 1" by (rule and_exp_eq_0_iff_not_bit)
  then show ?thesis by (simp add: kMallocFlag_def bit_iff_odd)
qed

lemma length_long [simp]: "length (long_rep c z p m) = 24"
  by (simp add: long_rep_def)

lemma hd_long: "unat (long_rep c z p m ! 0) = (4 * c + 1 + (if m then 2 else 0)) mod 256"
proof -
  have h: "le_bytes 8 n ! 0 = word_of_nat (n mod 256)" for n using le_bytes.simps(2) [of 7 n] by simp
  have u: "unat (word_of_nat (n mod 256) :: byte) = n mod 256" for n by (simp only: unat_of_nat) simp
  have "long_rep c z p m ! 0 = le_bytes 8 (4 * c + 1 + (if m then 2 else 0)) ! 0"
    by (simp only: long_rep_def nth_append length_le_bytes) simp
  then show ?thesis by (simp only: h u)
qed

lemma long_flags [simp]: "isLong (long_rep c z p m)" "isMallocPtr (long_rep c z p m) = m"
proof -
  let ?n = "4 * c + 1 + (if m then 2 else 0)"
  have b: "odd (n mod 256) \<longleftrightarrow> odd n" "odd (n mod 256 div 2) \<longleftrightarrow> odd (n div 2)" for n :: nat
    using bit_take_bit_iff [of 8 n 0] bit_take_bit_iff [of 8 n 1] by (simp_all add: take_bit_eq_mod bit_iff_odd)
  have "odd ?n" "odd (?n div 2) \<longleftrightarrow> m" by (cases m; simp)+
  then show "isLong (long_rep c z p m)" "isMallocPtr (long_rep c z p m) = m"
    unfolding isLong_def isMallocPtr_def and1 and2 hd_long b by blast+
qed

lemma long_fields:
  assumes "c < 2 ^ 62" "z < W64" "p < W64"
  shows "getLongCap (long_rep c z p m) = c" "getLongSize (long_rep c z p m) = z" "getLongPtr (long_rep c z p m) = p"
proof -
  have "4 * c + 1 + (if m then 2 else 0) < 256 ^ 8" using assms(1) by (simp split: if_splits)
  then have "of_le (le_bytes 8 (4 * c + 1 + (if m then 2 else 0))) = 4 * c + 1 + (if m then 2 else 0)" by (simp only: of_le_le_bytes mod_less)
  moreover have "(4 * c + k) div 4 = c" if "k < 4" for k using that by simp
  from this [of "1 + (if m then 2 else 0)"] have "(4 * c + 1 + (if m then 2 else 0)) div 4 = c" by (simp only: add.assoc) (simp split: if_splits)
  ultimately show "getLongCap (long_rep c z p m) = c"
    by (simp only: getLongCap_def field_def long_rep_def drop_bit_eq_div drop_0 take_append length_le_bytes) simp
  show "getLongSize (long_rep c z p m) = z" "getLongPtr (long_rep c z p m) = p"
    using assms(2,3) by (simp_all add: getLongSize_def getLongPtr_def field_def long_rep_def of_le_le_bytes W64_def)
qed

lemma push2: "push_bit 2 c OR kLongFlag = 4 * c + (1::nat)"
  using push_bit_or [of 1 2 c] by (simp add: kLongFlag_def mult.commute)

lemma set_all:
  assumes "length r = 24"
  shows "setLongCap c (setLongSize z (setLongPtr p r)) = long_rep c z p False"
  using assms by (simp add: setLongCap_def setLongSize_def setLongPtr_def set_field_def wr_def long_rep_def push2)

lemma set_long [simp]:
  "setLongSize z' (long_rep c z p m) = long_rep c z' p m" "setLongPtr p' (long_rep c z p m) = long_rep c z p' m"
  "setLongCap c' (long_rep c z p m) = long_rep c' z p False"
  by (simp_all add: setLongCap_def setLongSize_def setLongPtr_def set_field_def wr_def long_rep_def push2)

lemma short_flags:
  assumes "short_ok r xs"
  shows "\<not> isLong r" "getShortSize r = length xs" "length r = 24" "r ! 0 = word_of_nat (2 * length xs)" "length xs \<le> 22"
proof -
  obtain t where t: "r = word_of_nat (2 * length xs) # xs @ [0] @ t" "length xs + length t = 22"
    using assms by (auto simp: short_ok_def kMaxShortSize_def)
  then show l: "length xs \<le> 22" "r ! 0 = word_of_nat (2 * length xs)" "length r = 24" by simp_all
  have "unat (word_of_nat (2 * length xs) :: byte) = 2 * length xs" using l(1) by (simp only: unat_of_nat) simp
  then have u: "unat (r ! 0) = 2 * length xs" using l(2) by simp
  then show "\<not> isLong r" using and1 [of "2 * length xs"] by (simp add: isLong_def)
  show "getShortSize r = length xs" using u by (simp add: getShortSize_def drop_bit_eq_div)
qed

lemma long_facts:
  assumes "long_ok r h xs c p m"
  shows "isLong r" "isMallocPtr r = m" "getLongCap r = c" "getLongSize r = length xs" "getLongPtr r = p" "length xs \<le> c" "length r = 24"
proof -
  obtain t where t: "r = long_rep c (length xs) p m" "c < 2 ^ 62" "p < W64" "length (xs @ [0] @ t) = c + 1"
    using assms unfolding long_ok_def by blast
  then show "length xs \<le> c" "isLong r" "isMallocPtr r = m" "length r = 24" by simp_all
  then have "length xs < W64" using t(2) by (simp add: W64_def)
  from long_fields [OF t(2) this t(3)] show "getLongCap r = c" "getLongSize r = length xs" "getLongPtr r = p" by (simp_all add: t(1))
qed

lemma str_cases:
  assumes "is_str (r, h) xs"
  obtains (short) "short_ok r xs" "str_size r = length xs" "str_capacity r = 22"
  | (long) c p m where "long_ok r h xs c p m" "str_size r = length xs" "str_capacity r = c"
  using assms
proof (unfold is_str_def, elim disjE exE)
  assume "short_ok (fst (r, h)) xs"
  then show thesis using short short_flags by (simp add: str_size_def str_capacity_def kMaxShortSize_def)
next
  fix c p m assume "long_ok (fst (r, h)) (snd (r, h)) xs c p m"
  then show thesis using long [of c p m] long_facts by (simp add: str_size_def str_capacity_def)
qed

lemma is_str_size: "is_str (r, h) xs \<Longrightarrow> str_size r = length xs" "is_str (r, h) xs \<Longrightarrow> length xs \<le> str_capacity r"
  "is_str (r, h) xs \<Longrightarrow> str_capacity r < 2 ^ 62" "is_str (r, h) xs \<Longrightarrow> length r = 24"
proof -
  assume s: "is_str (r, h) xs"
  from s have "str_size r = length xs \<and> length xs \<le> str_capacity r \<and> str_capacity r < 2 ^ 62 \<and> length r = 24"
  proof (cases rule: str_cases)
    case short
    then show ?thesis using short_flags(3,5) [OF short(1)] by simp
  next
    case (long c p m)
    then show ?thesis using long_facts(6,7) [OF long(1)] by (simp add: long_ok_def)
  qed
  then show "str_size r = length xs" "length xs \<le> str_capacity r" "str_capacity r < 2 ^ 62" "length r = 24" by simp_all
qed

subsection \<open>Reading and overwriting the characters\<close>

definition own :: "rep \<Rightarrow> nat set" where
  "own r = (if isLong r then {getLongPtr r} else {})"

text \<open>Nothing outside the block of the string changes; a new block was free before, an old one is free afterwards.\<close>

definition local_change :: "rep \<Rightarrow> kheap \<Rightarrow> rep \<Rightarrow> kheap \<Rightarrow> bool" where
  "local_change r h r' h' \<longleftrightarrow> (\<forall>a. (a \<notin> own r \<union> own r' \<longrightarrow> h' a = h a) \<and> (a \<in> own r' - own r \<longrightarrow> h a = None) \<and> (a \<in> own r - own r' \<longrightarrow> h' a = None))"

lemma own_simps: "short_ok r xs \<Longrightarrow> own r = {}" "long_ok r h xs c p m \<Longrightarrow> own r = {p}"
  by (simp_all add: own_def short_flags long_facts)

lemma wr_Cons: "wr (b # bs) (Suc i) xs = b # wr bs i xs"
  by (simp add: wr_def)

lemma wr_text: "i \<le> length xs \<Longrightarrow> i + length bs \<le> length xs + length t \<Longrightarrow>
    \<exists>t'. wr (xs @ [z] @ t) i (bs @ [0]) = (take i xs @ bs) @ [0] @ t' \<and> length t' = length xs + length t - (i + length bs)"
  by (intro exI [of _ "drop (i + length bs + 1) (xs @ [z] @ t)"]) (simp add: wr_def)

lemma data_read_ok:
  assumes s: "is_str (r, h) xs" and b: "off + len \<le> length xs"
  shows "data_read off len (r, h) = Some (take len (drop off xs))"
  using s
proof (cases rule: str_cases)
  case short
  then obtain t where "r = word_of_nat (2 * length xs) # xs @ [0] @ t" "length xs + length t = 22" by (auto simp: short_ok_def kMaxShortSize_def)
  then show ?thesis using b short_flags(1) [OF short(1)] by (simp add: data_read_def)
next
  case (long c p m)
  then show ?thesis using b long_facts(1,5) [OF long(1)] by (auto simp: long_ok_def data_read_def heap_read_def)
qed

lemma overwrite_ok:
  assumes s: "is_str (r, h) xs" and i: "i \<le> length xs" "i + length bs \<le> str_capacity r"
  obtains r' h' where "(data_write i bs (r, h) \<bind> (\<lambda>s. data_write (i + length bs) [0] s \<bind> (\<lambda>s. Some (set_size (i + length bs) (fst s), snd s)))) = Some (r', h')"
    "is_str (r', h') (take i xs @ bs)" "local_change r h r' h'" "str_capacity r' = str_capacity r" "own r' = own r"
  using s
proof (cases rule: str_cases)
  case short
  then obtain t where t: "r = word_of_nat (2 * length xs) # xs @ [0] @ t" "length xs + length t = 22" by (auto simp: short_ok_def kMaxShortSize_def)
  have n: "i + length bs \<le> 22" using i(2) short(3) by simp
  let ?D = "xs @ [0] @ t"
  let ?n = "i + length bs"
  obtain t' where t': "wr ?D i (bs @ [0]) = (take i xs @ bs) @ [0] @ t'" "length t' = 22 - ?n"
    using wr_text [of i xs bs t 0] i(1) n t(2) by auto
  have w: "wr (wr r (1 + i) bs) (1 + ?n) [0] = word_of_nat (2 * length xs) # (take i xs @ bs) @ [0] @ t'"
  proof -
    have "wr (wr r (1 + i) bs) (1 + i + length bs) [0] = wr r (1 + i) (bs @ [0])" using t n by (intro wr_wr) simp
    then show ?thesis unfolding t(1) t'(1) [symmetric] using wr_Cons by (simp add: add.assoc)
  qed
  have "\<not> isLong (wr r (1 + i) bs)" using short_flags(1) [OF short(1)] t(1) by (simp add: isLong_def wr_Cons)
  moreover have nl: "\<not> isLong (word_of_nat (2 * length xs) # (take i xs @ bs) @ [0] @ t')" using short_flags(1) [OF short(1)] t(1) by (simp add: isLong_def)
  let ?r = "word_of_nat (2 * ?n) # (take i xs @ bs) @ [0] @ t'"
  have "set_size ?n (word_of_nat (2 * length xs) # (take i xs @ bs) @ [0] @ t') = ?r"
    unfolding set_size_def using nl by (simp only: if_False setShortSize_def list_update_code push_bit_eq_mult) (simp add: mult.commute)
  ultimately have e: "(data_write i bs (r, h) \<bind> (\<lambda>s. data_write ?n [0] s \<bind> (\<lambda>s. Some (set_size ?n (fst s), snd s)))) = Some (?r, h)"
    using short_flags(1) [OF short(1)] n w by (simp add: data_write_def)
  have ok: "short_ok ?r (take i xs @ bs)"
    using i(1) n t'(2) by (simp only: short_ok_def length_append length_take kMaxShortSize_def) (intro exI [of _ t'], simp)
  then have st: "is_str (?r, h) (take i xs @ bs)" by (simp add: is_str_def)
  moreover have "local_change r h ?r h" "own ?r = own r" using own_simps(1) [OF ok] own_simps(1) [OF short(1)] by (simp_all add: local_change_def)
  moreover have "str_capacity ?r = str_capacity r" using short_flags(1) [OF ok] short_flags(1) [OF short(1)] by (simp add: str_capacity_def)
  ultimately show ?thesis using that e by blast
next
  case (long c p m)
  let ?o = "if m then Sys else Kz"
  obtain t where t: "r = long_rep c (length xs) p m" "c < 2 ^ 62" "p < W64" "h p = Some (?o, xs @ [0] @ t)" "length xs + length t = c"
    using long(1) by (auto simp: long_ok_def)
  note f = long_facts [OF long(1)]
  let ?n = "i + length bs"
  have n: "?n \<le> c" using i(2) long(3) by simp
  obtain t' where t': "wr (xs @ [0] @ t) i (bs @ [0]) = (take i xs @ bs) @ [0] @ t'" "length t' = c - ?n"
    using wr_text [of i xs bs t 0] i(1) n t(5) by auto
  have w: "wr (wr (xs @ [0] @ t) i bs) ?n [0] = (take i xs @ bs) @ [0] @ t'"
    unfolding t'(1) [symmetric] using n t(5) by (intro wr_wr) simp
  let ?h = "h(p \<mapsto> (?o, (take i xs @ bs) @ [0] @ t'))"
  let ?r = "long_rep c ?n p m"
  have l: "length (wr (xs @ [0] @ t) i bs) = c + 1" using n t(5) by simp
  have "(data_write i bs (r, h) \<bind> (\<lambda>s. data_write ?n [0] s \<bind> (\<lambda>s. Some (set_size ?n (fst s), snd s)))) = Some (?r, ?h)"
    using f(1,5) t(1,4,5) n l w by (simp add: data_write_def heap_write_def set_size_def)
  moreover have ok: "long_ok ?r ?h (take i xs @ bs) c p m" using t(2,3) i(1) n t'(2) by (auto simp: long_ok_def)
  moreover have "local_change r h ?r ?h" "own ?r = own r" using own_simps(2) [OF ok] own_simps(2) [OF long(1)] by (auto simp: local_change_def)
  moreover have "str_capacity ?r = str_capacity r" using long_facts(1,3) [OF ok] f(1,3) by (simp add: str_capacity_def)
  ultimately show ?thesis using that by (auto simp: is_str_def)
qed

subsection \<open>New blocks\<close>

text \<open>What \<open>KzAlloc::malloc\<close> promises while there are addresses left.\<close>

definition malloc_ok :: "kmalloc \<Rightarrow> bool" where
  "malloc_ok new \<longleftrightarrow> (\<forall>h n. finite (dom h) \<longrightarrow> card (dom h) < W64 \<longrightarrow>
     h (fst (new h n)) = None \<and> fst (new h n) < W64 \<and> length (snd (new h n)) = n)"

definition roomy :: "kheap \<Rightarrow> bool" where
  "roomy h \<longleftrightarrow> finite (dom h) \<and> card (dom h) + 2 < W64"

lemma new_block:
  assumes "malloc_ok new" "roomy h"
  obtains a junk where "new h n = (a, junk)" "h a = None" "a < W64" "length junk = n"
proof -
  have "h (fst (new h n)) = None \<and> fst (new h n) < W64 \<and> length (snd (new h n)) = n"
    using assms by (simp add: malloc_ok_def roomy_def)
  then show ?thesis using that [of "fst (new h n)" "snd (new h n)"] by simp
qed

lemma is_str_other:
  assumes "is_str (r, h) xs" "\<And>a. a \<in> own r \<Longrightarrow> h' a = h a"
  shows "is_str (r, h') xs"
  using assms(1)
proof (cases rule: str_cases)
  case (long c p m)
  then have "h' p = h p" using assms(2) own_simps(2) [OF long(1)] by simp
  then have "long_ok r h' xs c p m" using long(1) unfolding long_ok_def by simp
  then show ?thesis by (auto simp: is_str_def)
qed (simp add: is_str_def)

lemma own_alloc: "is_str (r, h) xs \<Longrightarrow> a \<in> own r \<Longrightarrow> h a \<noteq> None"
proof (erule str_cases)
  fix c p m assume a: "a \<in> own r" and l: "long_ok r h xs c p m"
  have "a = p" using a own_simps(2) [OF l] by simp
  then show "h a \<noteq> None" using l by (auto simp: long_ok_def)
qed (simp add: own_simps)

lemma wr_fill:
  assumes "length junk = n + 1" "length xs + length bs \<le> n"
  obtains t where "wr (wr (wr junk 0 xs) (length xs) bs) (length xs + length bs) [0] = (xs @ bs) @ [0] @ t" "length ((xs @ bs) @ [0] @ t) = n + 1"
proof -
  have a: "wr (wr junk 0 xs) (0 + length xs) bs = wr junk 0 (xs @ bs)" using assms by (intro wr_wr) simp
  have b: "wr (wr junk 0 (xs @ bs)) (0 + length (xs @ bs)) [0] = wr junk 0 ((xs @ bs) @ [0])" using assms by (intro wr_wr) simp
  show ?thesis
    using that [of "drop (length xs + length bs + 1) junk"] a b assms by (simp add: wr_def add.commute)
qed

lemma new_string:
  assumes "h a = Some (Kz, ys @ [0] @ t)" "length (ys @ [0] @ t) = n + 1" "n < 2 ^ 62" "a < W64"
  shows "long_ok (long_rep n (length ys) a False) h ys n a False"
  using assms by (auto simp: long_ok_def)

lemma free_long_ok:
  assumes "long_ok r h xs c p m" "h' p = h p"
  shows "free_long r h' = Some (h'(p := None))"
proof -
  obtain t where "h p = Some (if m then Sys else Kz, xs @ [0] @ t)" "length (xs @ [0] @ t) = c + 1"
    using assms(1) unfolding long_ok_def by blast
  then show ?thesis using long_facts [OF assms(1)] assms(2) by (cases m) (simp_all add: free_long_def sys_free_def kz_free_def)
qed

text \<open>Three writes fill a new block with two strings and the NUL.\<close>

lemma fill_string_block:
  assumes "length junk = n + 1" "length xs + length bs \<le> n"
  obtains t where "(heap_write a 0 xs (h(a \<mapsto> (Kz, junk))) \<bind> (\<lambda>h. heap_write a (length xs) bs h \<bind> (\<lambda>h. heap_write a (length xs + length bs) [0] h)))
      = Some (h(a \<mapsto> (Kz, (xs @ bs) @ [0] @ t)))" "length ((xs @ bs) @ [0] @ t) = n + 1"
proof -
  obtain t where t: "wr (wr (wr junk 0 xs) (length xs) bs) (length xs + length bs) [0] = (xs @ bs) @ [0] @ t" "length ((xs @ bs) @ [0] @ t) = n + 1"
    by (rule wr_fill [OF assms])
  have l: "length (wr junk 0 xs) = n + 1" "length (wr (wr junk 0 xs) (length xs) bs) = n + 1" using assms by simp_all
  show ?thesis using that [OF _ t(2)] assms l t(1) by (simp add: heap_write_def)
qed

lemma initFromBytes_ok:
  assumes "malloc_ok new" "roomy h" "length r = 24" "length sv < 2 ^ 62"
  obtains r' h' where "initFromBytes new sv (r, h) = Some (r', h')" "is_str (r', h') sv" "local_change KzString_empty h r' h'"
proof (cases "length sv \<le> 22")
  case True
  let ?z = "replicate (22 - length sv) (0 :: byte)"
  let ?r = "word_of_nat (2 * length sv) # sv @ [0] @ ?z"
  obtain b D where r: "r = b # D" "length D = 23" using assms(3) by (cases r) auto
  have z: "replicate (Suc (22 - length sv)) (0 :: byte) = [0] @ ?z" by simp
  have "wr (wr (wr (setShortSize (length sv) r) 1 sv) (1 + length sv) [0]) (1 + length sv) (replicate (Suc (22 - length sv)) 0) = ?r"
    unfolding z r(1) setShortSize_def using r(2) True by (simp add: wr_def push_bit_eq_mult mult.commute)
  then have e: "initFromBytes new sv (r, h) = Some (?r, h)" using True by (simp add: initFromBytes_def kMaxShortSize_def Let_def)
  have ok: "short_ok ?r sv" unfolding short_ok_def using True by (intro exI [of _ ?z]) (simp add: kMaxShortSize_def)
  have "own KzString_empty = {}" by (simp add: own_def isLong_def KzString_empty_def)
  then have "local_change KzString_empty h ?r h" using own_simps(1) [OF ok] by (simp add: local_change_def)
  then show ?thesis using that [OF e] ok by (simp add: is_str_def)
next
  case False
  obtain a junk where a: "new h (length sv + 1) = (a, junk)" "h a = None" "a < W64" "length junk = length sv + 1"
    by (rule new_block [OF assms(1,2)])
  obtain t where t: "(heap_write a 0 sv (h(a \<mapsto> (Kz, junk))) \<bind> (\<lambda>h. heap_write a (length sv) [] h \<bind> (\<lambda>h. heap_write a (length sv + length []) [0] h)))
      = Some (h(a \<mapsto> (Kz, (sv @ []) @ [0] @ t)))" "length ((sv @ []) @ [0] @ t) = length sv + 1"
    by (rule fill_string_block [OF a(4), of sv "[]"]) simp_all
  have no: "heap_write a i [] k \<bind> f = f k" if "i \<le> length x" "k a = Some (Kz, x)" for i k f x
    using that by (simp add: heap_write_def fun_upd_idem)
  let ?h = "h(a \<mapsto> (Kz, sv @ [0] @ t))" let ?r = "long_rep (length sv) (length sv) a False"
  have w: "heap_write a 0 sv (h(a \<mapsto> (Kz, junk))) \<bind> (\<lambda>h. heap_write a (length sv) [0] h) = Some ?h"
    using t(1) a(4) by (simp add: heap_write_def fun_upd_idem)
  have "initFromBytes new sv (r, h) = (heap_write a 0 sv (h(a \<mapsto> (Kz, junk))) \<bind> (\<lambda>h. heap_write a (length sv) [0] h))
      \<bind> (\<lambda>h. Some (setLongCap (length sv) (setLongSize (length sv) (setLongPtr a r)), h))"
    using False a(1) by (simp add: initFromBytes_def kMaxShortSize_def kz_malloc_def)
  then have e: "initFromBytes new sv (r, h) = Some (?r, ?h)" unfolding w by (simp add: set_all [OF assms(3)])
  have ok: "long_ok ?r ?h sv (length sv) a False" by (rule new_string) (use t(2) assms(4) a(3) in simp_all)
  have "own KzString_empty = {}" by (simp add: own_def isLong_def KzString_empty_def)
  then have "local_change KzString_empty h ?r ?h" using own_simps(2) [OF ok] a(2) by (simp add: local_change_def)
  then show ?thesis using that [OF e] ok by (auto simp: is_str_def)
qed

subsection \<open>Views\<close>

text \<open>What a view denotes while the string it may point into holds \<open>xs\<close>.\<close>

fun denotes :: "sview \<Rightarrow> byte list \<Rightarrow> byte list \<Rightarrow> bool" where
  "denotes (Ext bs) xs ys = (ys = bs)"
| "denotes (Own off len) xs ys = (off + len \<le> length xs \<and> ys = take len (drop off xs))"

lemma denotes_size: "denotes v xs ys \<Longrightarrow> view_size v = length ys"
  by (cases v) auto

lemma view_read_ok: "is_str (r, h) xs \<Longrightarrow> denotes v xs ys \<Longrightarrow> view_read v (r, h) = Some ys"
  by (cases v) (auto simp: data_read_ok)

subsection \<open>Growing\<close>

lemma round4_eq:
  assumes "n + 3 < W64"
  shows "round4 n = (n + 3) div 4 * 4"
proof -
  have "(n + 3) AND (W64 - 2 ^ 2) = (n + 3) div 2 ^ 2 * 2 ^ 2" by (rule and_high_mask) (use assms in simp_all)
  then show ?thesis using assms by (simp add: round4_def wadd_small)
qed

lemma round4_bounds: "n + 3 < W64 \<Longrightarrow> n \<le> round4 n \<and> round4 n \<le> n + 3"
  unfolding round4_eq by presburger

lemma roomy_fewer: "roomy h \<Longrightarrow> roomy (h(p := None))"
proof -
  assume r: "roomy h"
  have d: "dom (h(p := None)) = dom h - {p}" by auto
  have "card (dom h - {p}) \<le> card (dom h)" using r by (intro card_mono) (auto simp: roomy_def)
  then show "roomy (h(p := None))" using r by (simp add: roomy_def d)
qed

text \<open>A new block takes the place of the old one.\<close>

lemma replaced:
  assumes "long_ok r' h' ys n a False" "a \<notin> own r \<longrightarrow> h a = None" "own r \<subseteq> {p}" "a \<noteq> p \<longrightarrow> p \<in> own r \<longrightarrow> h' p = None"
    "\<And>b. b \<noteq> a \<Longrightarrow> b \<notin> own r \<Longrightarrow> h' b = h b"
  shows "local_change r h r' h'"
  using assms own_simps(2) [OF assms(1)] by (auto simp: local_change_def)

lemma kz_reallocate_ok:
  assumes "malloc_ok new" "roomy h" "h p = Some (Kz, bs)" "length bs \<le> n"
  obtains a junk where "kz_reallocate new p (length bs) n h = Some (a, (h(p := None))(a \<mapsto> (Kz, junk)))"
    "length junk = n" "take (length bs) junk = bs" "a < W64" "(h(p := None)) a = None"
proof -
  obtain a junk where a: "new (h(p := None)) n = (a, junk)" "(h(p := None)) a = None" "a < W64" "length junk = n"
    by (rule new_block [OF assms(1) roomy_fewer [OF assms(2), of p]])
  let ?j = "bs @ drop (length bs) junk"
  have "kz_reallocate new p (length bs) n h = Some (a, (h(p := None))(a \<mapsto> (Kz, ?j)))"
    using assms(3,4) a(1) by (simp add: kz_reallocate_def)
  then show ?thesis using that a assms(4) by simp
qed

lemma append_spill_ok:
  assumes "malloc_ok new" "roomy h" and s: "short_ok r xs" and v: "denotes v xs ys" and n: "length xs + length ys \<le> n" "n < 2 ^ 62"
  obtains r1 r' h' where "append_spill new v n (r, h) = Some (r1, h')" "setLongCap n (setLongSize (length xs + length ys) r1) = r'"
    "long_ok r' h' (xs @ ys) n (getLongPtr r') False" "local_change r h r' h'"
proof -
  have st: "is_str (r, k) xs" for k using s by (simp add: is_str_def)
  have sz: "str_size r = length xs" using is_str_size(1) [OF st] .
  obtain a junk where a: "new h (n + 1) = (a, junk)" "h a = None" "a < W64" "length junk = n + 1" by (rule new_block [OF assms(1,2)])
  let ?start = "h(a \<mapsto> (Kz, junk))"
  obtain t where t: "(heap_write a 0 xs ?start \<bind> (\<lambda>h. heap_write a (length xs) ys h \<bind> (\<lambda>h. heap_write a (length xs + length ys) [0] h)))
      = Some (h(a \<mapsto> (Kz, (xs @ ys) @ [0] @ t)))" "length ((xs @ ys) @ [0] @ t) = n + 1" by (rule fill_string_block [OF a(4) n(1)])
  let ?h = "h(a \<mapsto> (Kz, (xs @ ys) @ [0] @ t))" let ?r = "long_rep n (length (xs @ ys)) a False"
  have w: "wadd (length xs) (length ys) = length xs + length ys" using n by (intro wadd_small) (simp add: W64_def)
  have rd: "data_read 0 (length xs) (r, k) = Some xs" for k using data_read_ok [OF st, of 0 "length xs" k] by simp
  have vr: "view_read v (r, k) = Some ys" for k using view_read_ok [OF st v] .
  have m: "kz_malloc new (Suc n) h = (a, ?start)" using a(1) by (simp add: kz_malloc_def)
  have "append_spill new v n (r, h) = (heap_write a 0 xs ?start \<bind> (\<lambda>h. heap_write a (length xs) ys h \<bind> (\<lambda>h. heap_write a (length xs + length ys) [0] h)))
      \<bind> (\<lambda>h. Some (setLongPtr a r, h))"
    by (simp add: append_spill_def sz denotes_size [OF v] w m rd vr Let_def)
  then have e: "append_spill new v n (r, h) = Some (setLongPtr a r, ?h)" unfolding t(1) by simp
  have "setLongCap n (setLongSize (length xs + length ys) (setLongPtr a r)) = ?r" using set_all short_flags(3) [OF s] by simp
  moreover have ok: "long_ok ?r ?h (xs @ ys) n a False" by (rule new_string) (use t(2) n(2) a(3) in simp_all)
  moreover have "local_change r h ?r ?h" by (rule replaced [OF ok]) (use a(2) own_simps(1) [OF s] in auto)
  ultimately show ?thesis using that [OF e] long_facts(5) [OF ok] by simp
qed

lemma append_move_ok:
  assumes "malloc_ok new" "roomy h" and s: "long_ok r h xs c p m" and v: "denotes v xs ys" and n: "length xs + length ys \<le> n" "n < 2 ^ 62"
  obtains r1 r' h' where "append_move new v n (r, h) = Some (r1, h')" "setLongCap n (setLongSize (length xs + length ys) r1) = r'"
    "long_ok r' h' (xs @ ys) n (getLongPtr r') False" "local_change r h r' h'"
proof -
  have st: "is_str (r, h) xs" using s by (auto simp: is_str_def)
  note f = long_facts [OF s]
  have sz: "str_size r = length xs" "str_capacity r = c" using is_str_size(1) [OF st] f by (simp_all add: str_capacity_def)
  obtain a junk where a: "new h (n + 1) = (a, junk)" "h a = None" "a < W64" "length junk = n + 1" by (rule new_block [OF assms(1,2)])
  have hp: "h p \<noteq> None" using own_alloc [OF st] own_simps(2) [OF s] by simp
  then have pa: "p \<noteq> a" using a(2) by auto
  let ?start = "h(a \<mapsto> (Kz, junk))"
  obtain t where t: "(heap_write a 0 xs ?start \<bind> (\<lambda>h. heap_write a (length xs) ys h \<bind> (\<lambda>h. heap_write a (length xs + length ys) [0] h)))
      = Some (h(a \<mapsto> (Kz, (xs @ ys) @ [0] @ t)))" "length ((xs @ ys) @ [0] @ t) = n + 1" by (rule fill_string_block [OF a(4) n(1)])
  let ?filled = "h(a \<mapsto> (Kz, (xs @ ys) @ [0] @ t))" let ?h = "?filled(p := None)" let ?r = "long_rep n (length (xs @ ys)) a False"
  have w: "wadd (length xs) (length ys) = length xs + length ys" using n by (intro wadd_small) (simp add: W64_def)
  have st': "is_str (r, h(a \<mapsto> x)) xs" for x by (rule is_str_other [OF st]) (use own_simps(2) [OF s] pa in simp)
  have rd: "heap_read p 0 (length xs) (h(a \<mapsto> x)) = Some xs" for x
    using data_read_ok [OF st', of 0 "length xs" x] f by (simp add: data_read_def)
  have vr: "view_read v (r, h(a \<mapsto> x)) = Some ys" for x using view_read_ok [OF st' v] .
  have al: "kz_malloc new (Suc n) h = (a, ?start)" using a(1) by (simp add: kz_malloc_def)
  have x: "heap_write a 0 xs ?start = Some (h(a \<mapsto> (Kz, wr junk 0 xs)))" using a(4) n(1) by (simp add: heap_write_def)
  have fr: "(if m then sys_free p ?filled else kz_free p (Suc c) ?filled) = Some ?h"
    using free_long_ok [OF s, of ?filled] pa unfolding free_long_def f(2,3,5) by (cases m) simp_all
  have "append_move new v n (r, h) = (heap_write a 0 xs ?start \<bind> (\<lambda>h. heap_write a (length xs) ys h \<bind> (\<lambda>h. heap_write a (length xs + length ys) [0] h)))
      \<bind> (\<lambda>h. (if m then sys_free p h else kz_free p (Suc c) h) \<bind> (\<lambda>h. Some (setLongPtr a r, h)))"
    using sz denotes_size [OF v] w al rd x vr f by (cases m) (simp_all add: append_move_def Let_def)
  then have e: "append_move new v n (r, h) = Some (setLongPtr a r, ?h)" unfolding t(1) Option.bind.simps fr by simp
  have "setLongCap n (setLongSize (length xs + length ys) (setLongPtr a r)) = ?r" using set_all f(7) by simp
  moreover have ok: "long_ok ?r ?h (xs @ ys) n a False" by (rule new_string) (use t(2) n(2) a(3) pa in simp_all)
  moreover have "local_change r h ?r ?h" by (rule replaced [OF ok, where p = p]) (use a(2) own_simps(2) [OF s] in auto)
  ultimately show ?thesis using that [OF e] long_facts(5) [OF ok] by simp
qed

lemma append_realloc_ok:
  assumes "malloc_ok new" "roomy h" and s: "long_ok r h xs c p False" and v: "denotes v xs ys" "\<not> isAliasing v (length xs)"
    and n: "length xs + length ys \<le> n" "n < 2 ^ 62" "c \<le> n"
  obtains r1 r' h' where "append_realloc new v n (r, h) = Some (r1, h')" "setLongCap n (setLongSize (length xs + length ys) r1) = r'"
    "long_ok r' h' (xs @ ys) n (getLongPtr r') False" "local_change r h r' h'"
proof -
  have st: "is_str (r, h) xs" using s by (auto simp: is_str_def)
  note f = long_facts [OF s]
  have sz: "str_size r = length xs" "str_capacity r = c" using is_str_size(1) [OF st] f by (simp_all add: str_capacity_def)
  obtain t where t: "h p = Some (Kz, xs @ [0] @ t)" "length (xs @ [0] @ t) = c + 1" using s by (auto simp: long_ok_def)
  obtain a junk where a: "kz_reallocate new p (length (xs @ [0] @ t)) (n + 1) h = Some (a, (h(p := None))(a \<mapsto> (Kz, junk)))"
    "length junk = n + 1" "take (length (xs @ [0] @ t)) junk = xs @ [0] @ t" "a < W64" "(h(p := None)) a = None"
    by (rule kz_reallocate_ok [where new = new, OF assms(1,2) t(1), of "n + 1"]) (use t(2) n(3) in simp_all)
  have w: "wadd (length xs) (length ys) = length xs + length ys" using n by (intro wadd_small) (simp add: W64_def)
  have bs: "(case v of Ext bs \<Rightarrow> Some bs | Own off len \<Rightarrow> if len = 0 then Some [] else None) = Some ys"
    using v by (cases v) auto
  have tk: "take (length xs) junk = xs" using arg_cong [OF a(3), of "take (length xs)"] t(2) by (simp add: min_def)
  have start: "wr junk 0 xs = junk" using tk by (simp add: wr_def) (metis append_take_drop_id)
  obtain u where u: "wr (wr (wr junk 0 xs) (length xs) ys) (length xs + length ys) [0] = (xs @ ys) @ [0] @ u" "length ((xs @ ys) @ [0] @ u) = n + 1"
    by (rule wr_fill [OF a(2) n(1)])
  let ?h = "(h(p := None))(a \<mapsto> (Kz, (xs @ ys) @ [0] @ u))" let ?r = "long_rep n (length (xs @ ys)) a False"
  have "length (wr junk (length xs) ys) = n + 1" using a(2) n(1) by simp
  then have e: "append_realloc new v n (r, h) = Some (setLongPtr a r, ?h)"
    using a(1,2) t(2) n(1) u(1) by (simp add: append_realloc_def sz denotes_size [OF v(1)] w f bs heap_write_def start Let_def)
  have "setLongCap n (setLongSize (length xs + length ys) (setLongPtr a r)) = ?r" using set_all f(7) by simp
  moreover have ok: "long_ok ?r ?h (xs @ ys) n a False" by (rule new_string) (use u(2) n(2) a(4) in simp_all)
  moreover have "local_change r h ?r ?h"
    by (rule replaced [OF ok, where p = p]) (use a(5) own_simps(2) [OF s] in \<open>auto split: if_splits\<close>)
  ultimately show ?thesis using that [OF e] long_facts(5) [OF ok] by simp
qed

lemma append_raw_ok:
  assumes "malloc_ok new" "roomy h" and s: "is_str (r, h) xs" and v: "denotes v xs ys"
    and n: "str_capacity r < 2 ^ 60" "length ys < 2 ^ 60"
  obtains r' h' where "append_raw new v (r, h) = Some (r', h')" "is_str (r', h') (xs @ ys)" "local_change r h r' h'"
    "str_capacity r \<le> str_capacity r'" "str_capacity r' \<le> max (str_capacity r) (2 * str_capacity r + length ys + 3)"
proof -
  note sz = is_str_size [OF s]
  let ?req = "length xs + length ys" let ?cap = "str_capacity r"
  have w: "wadd (length xs) (length ys) = ?req" using sz(2) n by (intro wadd_small) (simp add: W64_def)
  show ?thesis
  proof (cases "?req \<le> ?cap")
    case True
    obtain r' h' where o: "(data_write (length xs) ys (r, h) \<bind> (\<lambda>s. data_write ?req [0] s \<bind> (\<lambda>s. Some (set_size ?req (fst s), snd s)))) = Some (r', h')"
      "is_str (r', h') (take (length xs) xs @ ys)" "local_change r h r' h'" "str_capacity r' = str_capacity r"
      by (rule overwrite_ok [OF s order_refl True])
    have "append_raw new v (r, h) = Some (r', h')"
      using o(1) True by (simp add: append_raw_def sz(1) denotes_size [OF v] w view_read_ok [OF s v])
    then show ?thesis using that o(2-4) by simp
  next
    case False
    let ?m = "max (2 * ?cap) ?req" let ?n = "round4 ?m"
    have m: "push_bit 1 ?cap mod W64 = 2 * ?cap" using n(1) by (simp add: push_bit_eq_mult W64_def)
    have "?m + 3 < W64" using n sz(2) by (simp add: W64_def)
    then have b: "?m \<le> ?n" "?n \<le> ?m + 3" using round4_bounds by blast+
    then have nn: "?req \<le> ?n" "?n < 2 ^ 62" "?cap \<le> ?n" using n sz(2) by simp_all
    have "\<exists>r1 h' r'. (if isLong r then (if isMallocPtr r \<or> isAliasing v (length xs) then append_move new v ?n (r, h) else append_realloc new v ?n (r, h))
            else append_spill new v ?n (r, h)) = Some (r1, h') \<and> setLongCap ?n (setLongSize ?req r1) = r'
        \<and> long_ok r' h' (xs @ ys) ?n (getLongPtr r') False \<and> local_change r h r' h'"
      using s
    proof (cases rule: str_cases)
      case short
      obtain r1 r' h' where "append_spill new v ?n (r, h) = Some (r1, h')" "setLongCap ?n (setLongSize ?req r1) = r'"
        "long_ok r' h' (xs @ ys) ?n (getLongPtr r') False" "local_change r h r' h'" by (rule append_spill_ok [OF assms(1,2) short(1) v nn(1,2)])
      then show ?thesis using short_flags(1) [OF short(1)] by auto
    next
      case (long c p k)
      note f = long_facts [OF long(1)]
      show ?thesis
      proof (cases "k \<or> isAliasing v (length xs)")
        case True
        obtain r1 r' h' where "append_move new v ?n (r, h) = Some (r1, h')" "setLongCap ?n (setLongSize ?req r1) = r'"
          "long_ok r' h' (xs @ ys) ?n (getLongPtr r') False" "local_change r h r' h'" by (rule append_move_ok [OF assms(1,2) long(1) v nn(1,2)])
        then show ?thesis using True f(1,2) by auto
      next
        case False
        then have k: "\<not> k" and al: "\<not> isAliasing v (length xs)" by simp_all
        have l: "long_ok r h xs c p False" using long(1) k by simp
        obtain r1 r' h' where "append_realloc new v ?n (r, h) = Some (r1, h')" "setLongCap ?n (setLongSize ?req r1) = r'"
          "long_ok r' h' (xs @ ys) ?n (getLongPtr r') False" "local_change r h r' h'"
          by (rule append_realloc_ok [OF assms(1,2) l v al nn(1,2)]) (use nn(3) long(3) in simp)
        then show ?thesis using k al f(1,2) by auto
      qed
    qed
    then obtain r1 h' r' where g: "(if isLong r then (if isMallocPtr r \<or> isAliasing v (length xs) then append_move new v ?n (r, h) else append_realloc new v ?n (r, h))
            else append_spill new v ?n (r, h)) = Some (r1, h')" "setLongCap ?n (setLongSize ?req r1) = r'"
        "long_ok r' h' (xs @ ys) ?n (getLongPtr r') False" "local_change r h r' h'" by blast
    have "append_raw new v (r, h) = Some (r', h')"
      using False g(1,2) by (simp only: append_raw_def fst_conv sz(1) denotes_size [OF v] w Let_def m if_False) simp
    moreover have "str_capacity r' = ?n" using long_facts(1,3) [OF g(3)] by (simp add: str_capacity_def)
    moreover have "?n \<le> max ?cap (2 * ?cap + length ys + 3)" using b sz(2) False by simp
    ultimately show ?thesis using that g(3,4) nn(3) by (auto simp: is_str_def)
  qed
qed

lemma assign_raw_ok:
  assumes "malloc_ok new" "roomy h" and s: "is_str (r, h) xs" and v: "denotes v xs ys" and n: "length ys < 2 ^ 62"
  obtains r' h' where "assign_raw new v (r, h) = Some (r', h')" "is_str (r', h') ys" "local_change r h r' h'"
proof (cases "length ys \<le> str_capacity r")
  case True
  obtain r' h' where o: "(data_write 0 ys (r, h) \<bind> (\<lambda>s. data_write (0 + length ys) [0] s \<bind> (\<lambda>s. Some (set_size (0 + length ys) (fst s), snd s)))) = Some (r', h')"
    "is_str (r', h') (take 0 xs @ ys)" "local_change r h r' h'"
    by (rule overwrite_ok [OF s, of 0 ys]) (use True in simp_all)
  have "assign_raw new v (r, h) = Some (r', h')"
    using o(1) True by (simp add: assign_raw_def denotes_size [OF v] view_read_ok [OF s v])
  then show ?thesis using that o(2,3) by simp
next
  case False
  note sz = is_str_size [OF s]
  obtain bs where bs: "v = Ext bs" "bs = ys"
  proof (cases v)
    case (Own off len)
    then have "length ys \<le> length xs" using v by simp
    then show ?thesis using False sz(2) by simp
  qed (use v in simp)
  obtain a junk where a: "new h (length ys + 1) = (a, junk)" "h a = None" "a < W64" "length junk = length ys + 1" by (rule new_block [OF assms(1,2)])
  let ?start = "h(a \<mapsto> (Kz, junk))"
  let ?full = "h(a \<mapsto> (Kz, ys @ [0]))"
  have w: "heap_write a 0 ys ?start \<bind> (\<lambda>h. heap_write a (length ys) [0] h \<bind> f) = f ?full" for f
    using a(4) by (simp add: heap_write_def wr_def)
  have na: "a \<notin> own r" using own_alloc [OF s] a(2) by blast
  have "\<exists>h'. (if isLong r then free_long r ?full else Some ?full) = Some h' \<and> h' a = Some (Kz, ys @ [0]) \<and> (\<forall>b. b \<noteq> a \<longrightarrow> b \<notin> own r \<longrightarrow> h' b = h b)
      \<and> (\<forall>b \<in> own r. h' b = None)"
    using s
  proof (cases rule: str_cases)
    case short
    then show ?thesis using short_flags(1) own_simps(1) by simp
  next
    case (long c p m)
    have "p \<noteq> a" using na own_simps(2) [OF long(1)] by auto
    then have "free_long r ?full = Some (?full(p := None))" by (intro free_long_ok [OF long(1)]) simp
    then show ?thesis using long_facts(1) [OF long(1)] own_simps(2) [OF long(1)] \<open>p \<noteq> a\<close> by auto
  qed
  then obtain h' where h': "(if isLong r then free_long r ?full else Some ?full) = Some h'" "h' a = Some (Kz, ys @ [0])"
      "\<And>b. b \<noteq> a \<Longrightarrow> b \<notin> own r \<Longrightarrow> h' b = h b" "\<And>b. b \<in> own r \<Longrightarrow> h' b = None" by blast
  let ?r = "long_rep (length ys) (length ys) a False"
  have "assign_raw new v (r, h) = heap_write a 0 ys ?start \<bind> (\<lambda>h. heap_write a (length ys) [0] h \<bind>
      (\<lambda>h. (if isLong r then free_long r h else Some h) \<bind> (\<lambda>h. Some (?r, h))))"
    using False a(1) by (simp add: assign_raw_def bs kz_malloc_def set_all [OF sz(4)])
  then have "assign_raw new v (r, h) = Some (?r, h')" unfolding w h'(1) by simp
  moreover have ok: "long_ok ?r h' ys (length ys) a False"
    by (rule new_string [where t = "[]"]) (use h'(2) a(3) n in simp_all)
  moreover have "local_change r h ?r h'"
    using h'(3,4) a(2) own_simps(2) [OF ok] na by (auto simp: local_change_def)
  ultimately show ?thesis using that by (auto simp: is_str_def)
qed

lemma str_reserve_ok:
  assumes "malloc_ok new" "roomy h" and s: "is_str (r, h) xs" and n: "n < 2 ^ 61"
  obtains r' h' where "str_reserve new n (r, h) = Some (r', h')" "is_str (r', h') xs" "local_change r h r' h'"
    "n \<le> str_capacity r'" "str_capacity r \<le> str_capacity r'" "str_capacity r' \<le> max (str_capacity r) (n + 3)"
proof (cases "round4 n \<le> str_capacity r")
  case True
  have "n + 3 < W64" using n by (simp add: W64_def)
  then have "n \<le> str_capacity r" using True round4_bounds le_trans by blast
  moreover have "str_reserve new n (r, h) = Some (r, h)" using True by (simp add: str_reserve_def Let_def)
  moreover have "local_change r h r h" by (simp add: local_change_def)
  ultimately show ?thesis using that s by simp
next
  case False
  have "n + 3 < W64" using n by (simp add: W64_def)
  then have b: "n \<le> round4 n" "round4 n \<le> n + 3" using round4_bounds by blast+
  let ?n = "round4 n"
  note sz = is_str_size [OF s]
  have nn: "?n < 2 ^ 62" "length xs \<le> ?n" "str_capacity r \<le> ?n" using b n False sz(2) by simp_all
  have "\<exists>r' h'. str_reserve new n (r, h) = Some (r', h') \<and> long_ok r' h' xs ?n (getLongPtr r') False \<and> local_change r h r' h'"
    using s
  proof (cases rule: str_cases)
    case short
    note f = short_flags [OF short(1)]
    obtain a junk where a: "new h (?n + 1) = (a, junk)" "h a = None" "a < W64" "length junk = ?n + 1" by (rule new_block [OF assms(1,2)])
    obtain t where t: "(heap_write a 0 xs (h(a \<mapsto> (Kz, junk))) \<bind> (\<lambda>h. heap_write a (length xs) [] h \<bind> (\<lambda>h. heap_write a (length xs + length []) [0] h)))
      = Some (h(a \<mapsto> (Kz, (xs @ []) @ [0] @ t)))" "length ((xs @ []) @ [0] @ t) = ?n + 1" by (rule fill_string_block [OF a(4), of xs "[]"]) (use nn(2) in simp_all)
    let ?h = "h(a \<mapsto> (Kz, xs @ [0] @ t))" let ?r = "long_rep ?n (length xs) a False"
    have w: "heap_write a 0 xs (h(a \<mapsto> (Kz, junk))) \<bind> (\<lambda>h. heap_write a (length xs) [0] h) = Some ?h"
      using t(1) a(4) nn(2) by (simp add: heap_write_def fun_upd_idem)
    have rd: "data_read 0 (length xs) (r, k) = Some xs" for k
    proof -
      have "is_str (r, k) xs" using short(1) by (simp add: is_str_def)
      then show ?thesis using data_read_ok [of r k xs 0 "length xs"] by simp
    qed
    have "str_reserve new n (r, h) = (heap_write a 0 xs (h(a \<mapsto> (Kz, junk))) \<bind> (\<lambda>h. heap_write a (length xs) [0] h))
        \<bind> (\<lambda>h. Some (setLongCap ?n (setLongSize (length xs) (setLongPtr a r)), h))"
      using False f(1,2) a(1) rd by (simp add: str_reserve_def kz_malloc_def Let_def)
    then have e: "str_reserve new n (r, h) = Some (?r, ?h)" unfolding w by (simp add: set_all [OF f(3)])
    have ok: "long_ok ?r ?h xs ?n a False" by (rule new_string) (use t(2) nn(1) a(3) in simp_all)
    have "local_change r h ?r ?h" by (rule replaced [OF ok]) (use a(2) own_simps(1) [OF short(1)] in auto)
    then show ?thesis using e ok long_facts(5) [OF ok] by auto
  next
    case (long c p m)
    note f = long_facts [OF long(1)]
    obtain t where t: "r = long_rep c (length xs) p m" "h p = Some (if m then Sys else Kz, xs @ [0] @ t)" "length (xs @ [0] @ t) = c + 1"
      using long(1) by (auto simp: long_ok_def)
    have cn: "c < ?n" using False long(3) by simp
    show ?thesis
    proof (cases m)
      case True
      obtain a junk where a: "new h (?n + 1) = (a, junk)" "h a = None" "a < W64" "length junk = ?n + 1" by (rule new_block [OF assms(1,2)])
      have pa: "p \<noteq> a" using t(2) a(2) by auto
      let ?u = "drop (length xs + 1) junk"
      let ?h = "(h(a \<mapsto> (Kz, xs @ [0] @ ?u)))(p := None)" let ?r = "long_rep ?n (length xs) a False"
      have "str_reserve new n (r, h) = Some (?r, ?h)"
        using False f(1,2,5) True long(2) a(1,4) t pa nn(2) cn
        by (simp add: str_reserve_def kz_malloc_def Let_def heap_read_def heap_write_def sys_free_def wr_def)
      moreover have ok: "long_ok ?r ?h xs ?n a False" 
      proof (rule new_string)
        show "length (xs @ [0] @ ?u) = ?n + 1" using a(4) nn(2) by simp
      qed (use nn(1) a(3) pa in simp_all)
      moreover have "local_change r h ?r ?h" by (rule replaced [OF ok, where p = p]) (use a(2) own_simps(2) [OF long(1)] in auto)
      ultimately show ?thesis using long_facts(5) [OF ok] by auto
    next
      case False
      have hp: "h p = Some (Kz, xs @ [0] @ t)" using t(2) False by simp
      obtain a junk where a: "kz_reallocate new p (length (xs @ [0] @ t)) (?n + 1) h = Some (a, (h(p := None))(a \<mapsto> (Kz, junk)))"
        "length junk = ?n + 1" "take (length (xs @ [0] @ t)) junk = xs @ [0] @ t" "a < W64" "(h(p := None)) a = None"
        by (rule kz_reallocate_ok [where new = new, OF assms(1,2) hp, of "?n + 1"]) (use t(3) cn in simp_all)
      let ?u = "t @ drop (c + 1) junk"
      have "take (c + 1) junk = xs @ [0] @ t" using a(3) t(3) by simp
      then have "junk = (xs @ [0] @ t) @ drop (c + 1) junk" using append_take_drop_id [of "c + 1" junk] by simp
      then have j: "junk = xs @ [0] @ ?u" by simp
      let ?h = "(h(p := None))(a \<mapsto> (Kz, junk))" let ?r = "long_rep ?n (length xs) a False"
      have "\<not> ?n \<le> c" using cn by simp
      then have "str_reserve new n (r, h) = Some (?r, ?h)"
        using f(1,2,5) False long(3) a(1) t(1,3) by (simp add: str_reserve_def Let_def)
      moreover have ok: "long_ok ?r ?h xs ?n a False"
      proof (rule new_string [where t = ?u])
        show "?h a = Some (Kz, xs @ [0] @ ?u)" by (subst j [symmetric]) simp
        show "length (xs @ [0] @ ?u) = ?n + 1" by (subst j [symmetric]) (rule a(2))
      qed (use nn(1) a(4) in simp_all)
      moreover have "local_change r h ?r ?h"
        by (rule replaced [OF ok, where p = p]) (use a(5) own_simps(2) [OF long(1)] in \<open>auto split: if_splits\<close>)
      ultimately show ?thesis using long_facts(5) [OF ok] by auto
    qed
  qed
  then obtain r' h' where r': "str_reserve new n (r, h) = Some (r', h')" "long_ok r' h' xs ?n (getLongPtr r') False" "local_change r h r' h'" by blast
  have "str_capacity r' = ?n" using long_facts(1,3) [OF r'(2)] by (simp add: str_capacity_def)
  then show ?thesis using that r' b nn(3) by (auto simp: is_str_def)
qed

lemma str_push_back_ok:
  assumes "malloc_ok new" "roomy h" and s: "is_str (r, h) xs" and n: "str_capacity r < 2 ^ 60"
  obtains r' h' where "str_push_back new c (r, h) = Some (r', h')" "is_str (r', h') (xs @ [c])" "local_change r h r' h'"
proof (cases "length xs < str_capacity r")
  case True
  obtain r' h' where o: "(data_write (length xs) [c] (r, h) \<bind> (\<lambda>s. data_write (length xs + length [c]) [0] s \<bind> (\<lambda>s. Some (set_size (length xs + length [c]) (fst s), snd s)))) = Some (r', h')"
    "is_str (r', h') (take (length xs) xs @ [c])" "local_change r h r' h'"
    by (rule overwrite_ok [OF s order_refl, of "[c]"]) (use True in simp_all)
  have "str_push_back new c (r, h) = Some (r', h')" using o(1) True by (simp add: str_push_back_def is_str_size(1) [OF s])
  then show ?thesis using that o(2,3) by simp
next
  case False
  obtain r' h' where "append_raw new (Ext [c]) (r, h) = Some (r', h')" "is_str (r', h') (xs @ [c])" "local_change r h r' h'"
    by (rule append_raw_ok [OF assms(1,2) s, of "Ext [c]" "[c]"]) (use n in simp_all)
  moreover have "str_push_back new c (r, h) = append_raw new (Ext [c]) (r, h)" using False by (simp add: str_push_back_def is_str_size(1) [OF s])
  ultimately show ?thesis using that by simp
qed

text \<open>Cutting: the size is set first, then the NUL is written.\<close>

lemma cut_ok:
  assumes s: "is_str (r, h) xs" and n: "n \<le> length xs"
  obtains r' h' where "data_write n [0] (set_size n r, h) = Some (r', h')" "is_str (r', h') (take n xs)" "local_change r h r' h'"
proof -
  obtain r' h' where o: "(data_write n [] (r, h) \<bind> (\<lambda>s. data_write (n + length []) [0] s \<bind> (\<lambda>s. Some (set_size (n + length []) (fst s), snd s)))) = Some (r', h')"
    "is_str (r', h') (take n xs @ [])" "local_change r h r' h'"
    by (rule overwrite_ok [OF s n, of "[]"]) (use n is_str_size(2) [OF s] in simp_all)
  have e: "data_write n [] (r, h) = Some (r, h)"
    using s
  proof (cases rule: str_cases)
    case short
    then show ?thesis using short_flags [OF short(1)] n by (simp add: data_write_def)
  next
    case (long c p m)
    then show ?thesis using long_facts [OF long(1)] n by (auto simp: data_write_def heap_write_def long_ok_def fun_upd_idem)
  qed
  have "data_write n [0] (r, h) \<bind> (\<lambda>s. Some (set_size n (fst s), snd s)) = data_write n [0] (set_size n r, h)"
    using s
  proof (cases rule: str_cases)
    case short
    note f = short_flags [OF short(1)]
    have l: "\<not> isLong (setShortSize n r)"
    proof -
      have "unat (word_of_nat (2 * n) :: byte) = 2 * n" using f(5) n by (simp only: unat_of_nat) simp
      then have "unat (setShortSize n r ! 0) = 2 * n" using f(3) by (simp add: setShortSize_def push_bit_eq_mult mult.commute)
      then show ?thesis using and1 [of "2 * n"] by (simp add: isLong_def)
    qed
    have "\<not> isLong (wr r (1 + n) [0])" using f(1,3) by (cases r) (simp_all add: isLong_def wr_Cons)
    moreover have "setShortSize n (wr r (1 + n) [0]) = wr (setShortSize n r) (1 + n) [0]"
      using f(3) by (cases r) (simp_all add: setShortSize_def wr_Cons)
    ultimately show ?thesis using f l n by (simp add: data_write_def set_size_def)
  next
    case (long c p m)
    note f = long_facts [OF long(1)]
    obtain t where t: "r = long_rep c (length xs) p m" "c < 2 ^ 62" "p < W64" "h p = Some (if m then Sys else Kz, xs @ [0] @ t)"
      using long(1) by (auto simp: long_ok_def)
    have "n < W64" using n f(6) t(2) by (simp add: W64_def)
    from long_fields(3) [OF t(2) this t(3)] show ?thesis
      using f(5) t(1,4) n by (simp add: data_write_def set_size_def heap_write_def)
  qed
  then show ?thesis using that o e by simp
qed

lemma str_resize_ok:
  assumes "malloc_ok new" "roomy h" and s: "is_str (r, h) xs" and n: "n < 2 ^ 61"
  obtains r' h' where "str_resize new n c (r, h) = Some (r', h')" "is_str (r', h') (take n xs @ replicate (n - length xs) c)" "local_change r h r' h'"
proof -
  consider "n < length xs" | "n = length xs" | "length xs < n" by linarith
  then show ?thesis
  proof cases
    case 1
    then have le: "n \<le> length xs" by simp
    obtain r' h' where "data_write n [0] (set_size n r, h) = Some (r', h')" "is_str (r', h') (take n xs)" "local_change r h r' h'"
      by (rule cut_ok [OF s le])
    then show ?thesis using that 1 by (simp add: str_resize_def is_str_size(1) [OF s])
  next
    case 2
    then have "str_resize new n c (r, h) = Some (r, h)" by (simp add: str_resize_def is_str_size(1) [OF s])
    moreover have "local_change r h r h" by (simp add: local_change_def)
    ultimately show ?thesis using that s 2 by simp
  next
    case 3
    obtain r1 h1 where r1: "str_reserve new n (r, h) = Some (r1, h1)" "is_str (r1, h1) xs" "local_change r h r1 h1" "n \<le> str_capacity r1"
      by (rule str_reserve_ok [OF assms(1,2) s n])
    let ?bs = "replicate (n - length xs) c"
    have ln: "length xs + length ?bs = n" using 3 by simp
    obtain r' h' where o: "(data_write (length xs) ?bs (r1, h1) \<bind> (\<lambda>s. data_write (length xs + length ?bs) [0] s \<bind> (\<lambda>s. Some (set_size (length xs + length ?bs) (fst s), snd s)))) = Some (r', h')"
      "is_str (r', h') (take (length xs) xs @ ?bs)" "local_change r1 h1 r' h'" "own r' = own r1"
      by (rule overwrite_ok [OF r1(2) order_refl, of ?bs]) (use r1(4) ln in simp_all)
    have "str_resize new n c (r, h) = Some (r', h')"
      using r1(1) o(1) 3 unfolding ln by (simp add: str_resize_def is_str_size(1) [OF s])
    moreover have "local_change r h r' h'" using r1(3) o(3,4) by (auto simp: local_change_def)
    ultimately show ?thesis using that o(2) 3 by simp
  qed
qed

lemma destroy_string_ok:
  assumes "is_str (r, h) xs"
  shows "\<exists>h'. destroy_string r h = Some h' \<and> (\<forall>a. h' a = (if a \<in> own r then None else h a))"
  using assms
proof (cases rule: str_cases)
  case short
  then show ?thesis using short_flags(1) own_simps(1) by (simp add: destroy_string_def)
next
  case (long c p m)
  then show ?thesis using long_facts(1) [OF long(1)] own_simps(2) [OF long(1)] free_long_ok [OF long(1), of h, OF refl] by (simp add: destroy_string_def)
qed

lemma empty_str: "is_str (KzString_empty, h) []" "str_capacity KzString_empty = 22"
proof -
  have "short_ok KzString_empty []"
    by (simp add: short_ok_def KzString_empty_def kMaxShortSize_def) (simp add: numeral_eq_Suc)
  then show "is_str (KzString_empty, h) []" "str_capacity KzString_empty = 22"
    using short_flags(1) by (simp_all add: is_str_def str_capacity_def kMaxShortSize_def)
qed

subsection \<open>The string refines a list of characters\<close>

text \<open>
  C26. The small-string-optimised string implements a list of bytes: on an object that holds \<open>xs\<close>,
  short or long, of either allocator, with any view that points elsewhere or into the object itself,
  \<open>assign\<close>, \<open>append\<close>, \<open>push_back\<close>, \<open>resize\<close>, \<open>reserve\<close> and \<open>clear\<close> return, leave an object that holds
  the assigned, appended, cut or filled list, NUL-terminated inside its capacity, release the block
  they replace to the allocator it came from with the size it was allocated with, and touch no other
  block.
\<close>

theorem KzString_refines:
  assumes "malloc_ok new" "roomy h" "is_str (r, h) xs" "denotes v xs ys" "str_capacity r < 2 ^ 60" "length ys < 2 ^ 60" "n < 2 ^ 60"
  shows "(\<exists>r' h'. assign_raw new v (r, h) = Some (r', h') \<and> is_str (r', h') ys \<and> local_change r h r' h')
    \<and> (\<exists>r' h'. append_raw new v (r, h) = Some (r', h') \<and> is_str (r', h') (xs @ ys) \<and> local_change r h r' h')
    \<and> (\<exists>r' h'. str_push_back new c (r, h) = Some (r', h') \<and> is_str (r', h') (xs @ [c]) \<and> local_change r h r' h')
    \<and> (\<exists>r' h'. str_resize new n c (r, h) = Some (r', h') \<and> is_str (r', h') (take n xs @ replicate (n - length xs) c) \<and> local_change r h r' h')
    \<and> (\<exists>r' h'. str_reserve new n (r, h) = Some (r', h') \<and> is_str (r', h') xs \<and> local_change r h r' h' \<and> n \<le> str_capacity r')
    \<and> (\<exists>r' h'. str_clear (r, h) = Some (r', h') \<and> is_str (r', h') [] \<and> local_change r h r' h')"
proof (intro conjI)
  note a = assms(1-3)
  show "\<exists>r' h'. assign_raw new v (r, h) = Some (r', h') \<and> is_str (r', h') ys \<and> local_change r h r' h'"
    by (rule assign_raw_ok [OF a assms(4)]) (use assms(6) in auto)
  show "\<exists>r' h'. append_raw new v (r, h) = Some (r', h') \<and> is_str (r', h') (xs @ ys) \<and> local_change r h r' h'"
    by (rule append_raw_ok [OF a assms(4-6)]) auto
  show "\<exists>r' h'. str_push_back new c (r, h) = Some (r', h') \<and> is_str (r', h') (xs @ [c]) \<and> local_change r h r' h'"
    by (rule str_push_back_ok [OF a assms(5)]) auto
  show "\<exists>r' h'. str_resize new n c (r, h) = Some (r', h') \<and> is_str (r', h') (take n xs @ replicate (n - length xs) c) \<and> local_change r h r' h'"
    by (rule str_resize_ok [OF a, of n]) (use assms(7) in auto)
  show "\<exists>r' h'. str_reserve new n (r, h) = Some (r', h') \<and> is_str (r', h') xs \<and> local_change r h r' h' \<and> n \<le> str_capacity r'"
    by (rule str_reserve_ok [OF a, of n]) (use assms(7) in auto)
  show "\<exists>r' h'. str_clear (r, h) = Some (r', h') \<and> is_str (r', h') [] \<and> local_change r h r' h'"
    by (rule cut_ok [OF a(3), of 0]) (auto simp: str_clear_def)
qed

text \<open>An allocator that hands out the next free address, and a string that appends itself.\<close>

definition first_free :: kmalloc where
  "first_free h n = (LEAST a. h a = None, replicate n 0)"

lemma first_free_ok: "malloc_ok first_free"
  unfolding malloc_ok_def
proof (intro allI impI)
  fix h :: kheap and n
  assume fin: "finite (dom h)" and c: "card (dom h) < W64"
  have "\<exists>a < W64. h a = None"
  proof (rule ccontr)
    assume "\<not> (\<exists>a < W64. h a = None)"
    then have "{..<W64} \<subseteq> dom h" by auto
    from card_mono [OF fin this] show False using c by simp
  qed
  then obtain a where a: "a < W64" "h a = None" by blast
  have "h (LEAST a. h a = None) = None" by (rule LeastI [of "\<lambda>a. h a = None", OF a(2)])
  moreover have "(LEAST a. h a = None) \<le> a" by (rule Least_le [of "\<lambda>a. h a = None", OF a(2)])
  ultimately show "h (fst (first_free h n)) = None \<and> fst (first_free h n) < W64 \<and> length (snd (first_free h n)) = n"
    using a(1) by (simp add: first_free_def)
qed

theorem KzString_refines_witness:
  "\<exists>r1 h1 r2 h2. append_raw first_free (Ext (replicate 20 7)) (KzString_empty, Map.empty) = Some (r1, h1) \<and> is_str (r1, h1) (replicate 20 7)
     \<and> append_raw first_free (Own 5 15) (r1, h1) = Some (r2, h2) \<and> is_str (r2, h2) (replicate 35 7)"
proof -
  have e: "roomy Map.empty" by (simp add: roomy_def W64_def)
  obtain r1 h1 where 1: "append_raw first_free (Ext (replicate 20 7)) (KzString_empty, Map.empty) = Some (r1, h1)" "is_str (r1, h1) ([] @ replicate 20 7)"
    "local_change KzString_empty Map.empty r1 h1" "str_capacity r1 \<le> max 22 (2 * 22 + 20 + 3)"
    by (rule append_raw_ok [OF first_free_ok e empty_str(1), of "Ext (replicate 20 7)" "replicate 20 7"]) (use empty_str(2) in simp_all)
  have "dom h1 \<subseteq> own r1"
  proof
    fix a assume a: "a \<in> dom h1"
    show "a \<in> own r1"
    proof (rule ccontr)
      assume "a \<notin> own r1"
      moreover have "a \<notin> own KzString_empty" by (simp add: own_def isLong_def KzString_empty_def)
      ultimately have "h1 a = None" using 1(3) unfolding local_change_def by simp
      then show False using a by auto
    qed
  qed
  moreover have "finite (own r1)" "card (own r1) \<le> 1" by (simp_all add: own_def)
  ultimately have "finite (dom h1)" "card (dom h1) \<le> 1" using finite_subset card_mono le_trans by metis+
  then have r: "roomy h1" by (simp add: roomy_def W64_def)
  have s: "is_str (r1, h1) (replicate 20 7)" using 1(2) by simp
  have d: "denotes (Own 5 15) (replicate 20 7) (replicate 15 7)" by simp
  have "\<exists>r' h'. append_raw first_free (Own 5 15) (r1, h1) = Some (r', h') \<and> is_str (r', h') (replicate 20 7 @ replicate 15 7) \<and> local_change r1 h1 r' h'"
    using KzString_refines [OF first_free_ok r s d, of 0 0] 1(4) by simp
  then obtain r2 h2 where "append_raw first_free (Own 5 15) (r1, h1) = Some (r2, h2)" "is_str (r2, h2) (replicate 20 7 @ replicate 15 7)" by blast
  then show ?thesis using 1(1) s by (auto simp: replicate_add [symmetric])
qed

subsection \<open>Construction, moving, destruction\<close>

lemma set_field_roundtrip:
  assumes "length r = 24" "length q = 24"
  shows "str_swap r q = (q, r)"
proof -
  have e: "le_bytes 8 (of_le (take 8 (drop i x))) = take 8 (drop i x)" if "i + 8 \<le> length x" for i and x :: rep
  proof -
    have "length (take 8 (drop i x)) = 8" using that by simp
    then show ?thesis using le_bytes_of_le [of "take 8 (drop i x)"] by simp
  qed
  have split: "x = take 8 x @ take 8 (drop 8 x) @ take 8 (drop 16 x)" if "length x = 24" for x :: rep
  proof -
    have "drop 8 x = take 8 (drop 8 x) @ drop 8 (drop 8 x)" by (rule append_take_drop_id [symmetric])
    moreover have "drop 8 (drop 8 x) = take 8 (drop 16 x)" using that by simp
    ultimately show ?thesis using append_take_drop_id [of 8 x] by metis
  qed
  obtain r0 r1 r2 where r: "r = r0 @ r1 @ r2" "length r0 = 8" "length r1 = 8" "length r2 = 8"
    using split [OF assms(1)] assms(1) that [of "take 8 r" "take 8 (drop 8 r)" "take 8 (drop 16 r)"] by simp
  obtain q0 q1 q2 where q: "q = q0 @ q1 @ q2" "length q0 = 8" "length q1 = 8" "length q2 = 8"
    using split [OF assms(2)] assms(2) that [of "take 8 q" "take 8 (drop 8 q)" "take 8 (drop 16 q)"] by simp
  have b: "le_bytes 8 (of_le x) = x" if "length x = 8" for x using le_bytes_of_le [of x] that by simp
  show ?thesis using r q b by (simp add: str_swap_def set_field_def field_def wr_def Let_def)
qed

text \<open>
  C27. Strings own their memory: constructing one from bytes takes at most one fresh block and holds
  exactly those bytes; destroying one gives exactly its block back, to the allocator it came from;
  moving leaves an empty string behind and transfers the block, with no allocation; \<open>swap\<close> exchanges
  two strings word by word; and \<open>operator+\<close> builds the concatenation in a new object and leaves its
  argument as it was.
\<close>

theorem KzString_owns:
  assumes "malloc_ok new" "roomy h" "is_str (r, h) xs" "length junk = 24" "length ys < 2 ^ 59" "length xs < 2 ^ 59"
  shows "(\<exists>r' h'. initFromBytes new ys (junk, h) = Some (r', h') \<and> is_str (r', h') ys \<and> is_str (r, h') xs \<and> own r \<inter> own r' = {})
    \<and> (\<exists>h'. destroy_string r h = Some h' \<and> (\<forall>a. h' a = (if a \<in> own r then None else h a)))
    \<and> (case move_construct r of (r', r0) \<Rightarrow> is_str (r', h) xs \<and> is_str (r0, h) [] \<and> own r' = own r \<and> own r0 = {})
    \<and> (length q = 24 \<longrightarrow> str_swap r q = (q, r))
    \<and> (\<exists>r' h'. str_plus new ys (r, h) = Some (r', h') \<and> is_str (r', h') (xs @ ys) \<and> is_str (r, h') xs \<and> own r \<inter> own r' = {})"
proof (intro conjI)
  have z: "own KzString_empty = {}" by (simp add: own_def isLong_def KzString_empty_def)
  have apart: "is_str (r, h') xs \<and> own r \<inter> own r' = {}" if "local_change KzString_empty h r' h'" for r' h'
  proof -
    have d: "own r \<inter> own r' = {}" using that own_alloc [OF assms(3)] unfolding local_change_def z by blast
    have "h' a = h a" if "a \<in> own r" for a using that d \<open>local_change KzString_empty h r' h'\<close> unfolding local_change_def z by blast
    then show ?thesis using is_str_other [OF assms(3)] d by blast
  qed
  show "\<exists>r' h'. initFromBytes new ys (junk, h) = Some (r', h') \<and> is_str (r', h') ys \<and> is_str (r, h') xs \<and> own r \<inter> own r' = {}"
    by (rule initFromBytes_ok [OF assms(1,2,4), of ys]) (use assms(5) apart in auto)
  show "\<exists>h'. destroy_string r h = Some h' \<and> (\<forall>a. h' a = (if a \<in> own r then None else h a))"
    by (rule destroy_string_ok [OF assms(3)])
  show "case move_construct r of (r', r0) \<Rightarrow> is_str (r', h) xs \<and> is_str (r0, h) [] \<and> own r' = own r \<and> own r0 = {}"
    using assms(3) empty_str(1) z by (simp add: move_construct_def)
  show "length q = 24 \<longrightarrow> str_swap r q = (q, r)"
    using set_field_roundtrip is_str_size(4) [OF assms(3)] by blast
  show "\<exists>r' h'. str_plus new ys (r, h) = Some (r', h') \<and> is_str (r', h') (xs @ ys) \<and> is_str (r, h') xs \<and> own r \<inter> own r' = {}"
  proof -
    let ?n = "length xs + length ys"
    have w: "wadd (length xs) (length ys) = ?n" using assms(5,6) by (intro wadd_small) (simp add: W64_def)
    have rd: "data_read 0 (length xs) (r, h) = Some xs" using data_read_ok [OF assms(3), of 0 "length xs"] by simp
    obtain r1 h1 where 1: "str_reserve new ?n (KzString_empty, h) = Some (r1, h1)" "is_str (r1, h1) []" "local_change KzString_empty h r1 h1"
      "?n \<le> str_capacity r1" "str_capacity r1 \<le> max (str_capacity KzString_empty) (?n + 3)"
      by (rule str_reserve_ok [OF assms(1,2) empty_str(1), of ?n]) (use assms(5,6) in simp_all)
    obtain r2 h2 where 2: "(data_write 0 xs (r1, h1) \<bind> (\<lambda>s. data_write (0 + length xs) [0] s \<bind> (\<lambda>s. Some (set_size (0 + length xs) (fst s), snd s)))) = Some (r2, h2)"
      "is_str (r2, h2) (take 0 [] @ xs)" "local_change r1 h1 r2 h2" "str_capacity r2 = str_capacity r1" "own r2 = own r1"
      by (rule overwrite_ok [OF 1(2), of 0 xs]) (use 1(4) in simp_all)
    have s2: "is_str (r2, h2) xs" using 2(2) by simp
    have a2: "append_raw new (Ext xs) (r1, h1) = Some (r2, h2)"
      using 2(1) 1(4) assms(6) is_str_size(1) [OF 1(2)] by (simp add: append_raw_def wadd_small W64_def)
    obtain r3 h3 where 3: "(data_write (length xs) ys (r2, h2) \<bind> (\<lambda>s. data_write (length xs + length ys) [0] s \<bind> (\<lambda>s. Some (set_size (length xs + length ys) (fst s), snd s)))) = Some (r3, h3)"
      "is_str (r3, h3) (take (length xs) xs @ ys)" "local_change r2 h2 r3 h3" "str_capacity r3 = str_capacity r2" "own r3 = own r2"
      by (rule overwrite_ok [OF s2 order_refl, of ys]) (use 1(4) 2(4) in simp_all)
    have a3: "append_raw new (Ext ys) (r2, h2) = Some (r3, h3)"
      using 3(1) 1(4) 2(4) w is_str_size(1) [OF s2] by (simp add: append_raw_def)
    have "str_plus new ys (r, h) = Some (r3, h3)"
      using rd 1(1) a2 a3 w by (simp add: str_plus_def is_str_size(1) [OF assms(3)])
    moreover have "local_change KzString_empty h r3 h3"
      using 1(3) 2(3,5) 3(3,5) unfolding local_change_def z by simp
    ultimately show ?thesis using 3(2) apart by auto
  qed
qed

theorem KzString_owns_witness:
  "\<exists>r' h'. str_plus first_free (replicate 30 1) (KzString_empty, Map.empty) = Some (r', h') \<and> is_str (r', h') (replicate 30 1)"
proof -
  have e: "roomy Map.empty" by (simp add: roomy_def W64_def)
  have "\<exists>r' h'. str_plus first_free (replicate 30 1) (KzString_empty, Map.empty) = Some (r', h') \<and> is_str (r', h') ([] @ replicate 30 1)"
    using KzString_owns [where q = KzString_empty and ys = "replicate 30 1" and junk = "replicate 24 0", OF first_free_ok e empty_str(1)] by auto
  then show ?thesis by simp
qed

subsection \<open>Adopted memory\<close>

text \<open>
  C36. \<open>adopt\<close> stores the capacity of a long string where the shifted capacity belongs: the adopted
  string reports a quarter of its capacity. Destroying a string that has adopted a block of \<open>KzAlloc\<close> gives this
  block back, and nothing else, exactly when bit 1 of the capacity is clear (else it goes to the wrong allocator) and the
  capacity is at least \<open>4 * MAX_BYTES\<close>, 1 MiB, where the allocator ignores the size; below that the size that is passed
  is of another class than the block.
\<close>

theorem adopt_misreports:
  assumes "length r = 24" "kMaxShortSize < cap" "cap < 2 ^ 62" "p < W64" "len < W64" "h p = Some (Kz, bs)" "length bs = cap + 1"
  shows "\<exists>r'. adopt_raw new p len cap False (r, h) = Some (r', h) \<and> str_capacity r' = cap div 4
    \<and> destroy_string r' h = (if even (cap div 2) \<and> 4 * MAX_BYTES \<le> cap then Some (h(p := None)) else None)"
proof -
  let ?v = "cap OR kLongFlag" let ?r = "le_bytes 8 ?v @ le_bytes 8 len @ le_bytes 8 p"
  have e: "adopt_raw new p len cap False (r, h) = Some (?r, h)"
    using assms(1,2) by (simp add: adopt_raw_def set_field_def setLongSize_def setLongPtr_def wr_def Let_def)
  have v: "odd ?v" "?v div 4 = cap div 4" "?v div 2 = cap div 2" "?v \<le> cap + 1"
  proof -
    have "?v = (if even cap then cap + 1 else cap)" unfolding kLongFlag_def or_one_eq by simp
    then show "odd ?v" "?v div 4 = cap div 4" "?v div 2 = cap div 2" "?v \<le> cap + 1" by (auto split: if_splits)
  qed
  have f: "field 0 ?r = ?v" "field 16 ?r = p" using v(4) assms(3,4) by (simp_all add: field_def of_le_le_bytes W64_def)
  have "?r ! 0 = word_of_nat (?v mod 256)" using le_bytes.simps(2) [of 7 ?v] by (simp add: nth_append)
  then have u: "unat (?r ! 0) = ?v mod 256" by (simp only: unat_of_nat) simp
  have b: "odd (?v mod 256) \<longleftrightarrow> odd ?v" "odd (?v mod 256 div 2) \<longleftrightarrow> odd (?v div 2)"
    using bit_take_bit_iff [of 8 ?v 0] bit_take_bit_iff [of 8 ?v 1] by (simp_all add: take_bit_eq_mod bit_iff_odd)
  have l: "isLong ?r" "isMallocPtr ?r \<longleftrightarrow> odd (cap div 2)"
    unfolding isLong_def isMallocPtr_def and1 and2 u b v(3) using v(1) by blast+
  have g: "getLongCap ?r = cap div 4" using f(1) v(2) by (simp add: getLongCap_def drop_bit_eq_div)
  have "same_class (cap div 4 + 1) (cap + 1) \<longleftrightarrow> 4 * MAX_BYTES \<le> cap"
    using quarter_class [of cap] assms(2) by (auto simp: kMaxShortSize_def)
  then have "destroy_string ?r h = (if even (cap div 2) \<and> 4 * MAX_BYTES \<le> cap then Some (h(p := None)) else None)"
    using l g f(2) assms(6,7) by (simp add: destroy_string_def free_long_def sys_free_def kz_free_def getLongPtr_def)
  moreover have "str_capacity ?r = cap div 4" using l(1) g by (simp add: str_capacity_def)
  ultimately show ?thesis using e by blast
qed

theorem adopt_misreports_witness:
  "(\<exists>r'. adopt_raw first_free 5 10 40 False (replicate 24 0, [5 \<mapsto> (Kz, replicate 41 0)]) = Some (r', [5 \<mapsto> (Kz, replicate 41 0)])
      \<and> str_capacity r' = 10 \<and> destroy_string r' [5 \<mapsto> (Kz, replicate 41 0)] = None)
   \<and> (\<exists>r'. adopt_raw first_free 5 10 (2 ^ 20) False (replicate 24 0, [5 \<mapsto> (Kz, replicate (2 ^ 20 + 1) 0)])
        = Some (r', [5 \<mapsto> (Kz, replicate (2 ^ 20 + 1) 0)])
      \<and> destroy_string r' [5 \<mapsto> (Kz, replicate (2 ^ 20 + 1) 0)] = Some Map.empty)"
proof -
  have z: "length (replicate 24 (0 :: byte)) = 24" "(5 :: nat) < W64" "(10 :: nat) < W64" "kMaxShortSize < 40" "kMaxShortSize < 2 ^ 20"
    "(40 :: nat) < 2 ^ 62" "(2 :: nat) ^ 20 < 2 ^ 62" by (simp_all add: kMaxShortSize_def W64_def)
  have l: "length (replicate (n + 1) (0 :: byte)) = n + 1" for n by simp
  have m: "\<not> (even ((40 :: nat) div 2) \<and> 4 * MAX_BYTES \<le> 40)" "even ((2 :: nat) ^ 20 div 2) \<and> 4 * MAX_BYTES \<le> 2 ^ 20" "(40 :: nat) div 4 = 10"
    by (simp_all add: MAX_BYTES_def)
  let ?h = "\<lambda>n :: nat. [5 :: nat \<mapsto> (Kz, replicate (n + 1) (0 :: byte))]"
  have at: "?h n 5 = Some (Kz, replicate (n + 1) 0)" "(?h n)(5 := None) = Map.empty" for n by simp_all
  have "(\<exists>r'. adopt_raw first_free 5 10 40 False (replicate 24 0, ?h 40) = Some (r', ?h 40) \<and> str_capacity r' = 10 \<and> destroy_string r' (?h 40) = None)"
    using adopt_misreports [where h = "?h 40", OF z(1,4,6,2,3) at(1) l, of first_free] unfolding m(3) if_not_P [OF m(1)] .
  moreover have "\<exists>r'. adopt_raw first_free 5 10 (2 ^ 20) False (replicate 24 0, ?h (2 ^ 20)) = Some (r', ?h (2 ^ 20))
      \<and> destroy_string r' (?h (2 ^ 20)) = Some Map.empty"
    using adopt_misreports [where h = "?h (2 ^ 20)", OF z(1,5,7,2,3) at(1) l, of first_free] unfolding if_P [OF m(2)] at(2) by blast
  moreover have "?h 40 = [5 \<mapsto> (Kz, replicate 41 0)]" by (rule arg_cong [where f = "\<lambda>k. [5 \<mapsto> (Kz, replicate k 0)]"]) simp
  ultimately show ?thesis by (simp only: simp_thms)
qed

subsection \<open>Comparison\<close>

text \<open>A view as a type of its own: \<open>compare\<close> makes it a linear order, the one \<open>std::map\<close> keys rely on.\<close>

datatype string_view = View (chars: "byte list")

lemma compare_range: "sv_compare xs ys \<in> {- 1, 0, 1}"
  by (induction xs ys rule: sv_compare.induct) auto

lemma compare_zero: "sv_compare xs ys = 0 \<longleftrightarrow> xs = ys"
  by (induction xs ys rule: sv_compare.induct) auto

lemma compare_swap: "sv_compare ys xs = - sv_compare xs ys"
  by (induction xs ys rule: sv_compare.induct) auto

lemma compare_trans: "sv_compare xs ys < 0 \<Longrightarrow> sv_compare ys zs < 0 \<Longrightarrow> sv_compare xs zs < 0"
proof (induction xs zs arbitrary: ys rule: sv_compare.induct)
  case (1 ys)
  then show ?case by (cases ys) auto
next
  case (2 z zs)
  then show ?case by simp
next
  case (3 x xs)
  then show ?case by (cases ys) auto
next
  case (4 x xs z zs)
  then show ?case by (cases ys) (auto split: if_splits)
qed

instantiation string_view :: linorder
begin

definition less_string_view :: "string_view \<Rightarrow> string_view \<Rightarrow> bool" where
  "less_string_view v w \<longleftrightarrow> sv_compare (chars v) (chars w) < 0"

definition less_eq_string_view :: "string_view \<Rightarrow> string_view \<Rightarrow> bool" where
  "less_eq_string_view v w \<longleftrightarrow> sv_compare (chars v) (chars w) \<le> 0"

instance
proof
  fix u v w :: string_view
  note d = less_string_view_def less_eq_string_view_def
  show "u < v \<longleftrightarrow> u \<le> v \<and> \<not> v \<le> u" using compare_swap [of "chars v" "chars u"] by (auto simp: d)
  show "u \<le> u" using compare_zero [of "chars u" "chars u"] by (simp add: d)
  show "u \<le> w" if "u \<le> v" "v \<le> w"
    using that compare_trans [of "chars u" "chars v" "chars w"] compare_zero [of "chars u" "chars v"] compare_zero [of "chars v" "chars w"]
    by (auto simp: d le_less)
  show "u = v" if "u \<le> v" "v \<le> u"
    using that compare_swap [of "chars v" "chars u"] compare_zero [of "chars u" "chars v"] by (cases u; cases v) (simp add: d)
  show "u \<le> v \<or> v \<le> u" using compare_swap [of "chars v" "chars u"] by (auto simp: d)
qed

end

text \<open>
  The comparison operators of strings are those of a linear order on their contents: \<open>compare\<close>
  returns a negative number, zero or a positive number exactly when the content of the string is
  before, equal to or after the argument, where a proper prefix comes first and otherwise the first
  differing character decides, taken as unsigned.
\<close>

theorem compare_linear:
  assumes "is_str (r, h) xs"
  shows "\<exists>c. str_compare (r, h) ys = Some c \<and> (c < 0 \<longleftrightarrow> View xs < View ys) \<and> (c = 0 \<longleftrightarrow> xs = ys) \<and> (c > 0 \<longleftrightarrow> View ys < View xs)
    \<and> (View xs < View ys \<longleftrightarrow> (\<exists>zs. zs \<noteq> [] \<and> ys = xs @ zs)
         \<or> (\<exists>i < min (length xs) (length ys). take i xs = take i ys \<and> xs ! i < ys ! i))"
proof -
  have d: "data_read 0 (length xs) (r, h) = Some xs" using data_read_ok [OF assms, of 0 "length xs"] by simp
  have lex: "sv_compare xs ys < 0 \<longleftrightarrow> (\<exists>zs. zs \<noteq> [] \<and> ys = xs @ zs) \<or> (\<exists>i < min (length xs) (length ys). take i xs = take i ys \<and> xs ! i < ys ! i)" for xs ys
  proof (induction xs ys rule: sv_compare.induct)
    case (4 x xs y ys)
    have e: "(\<exists>i < min (length (x # xs)) (length (y # ys)). take i (x # xs) = take i (y # ys) \<and> (x # xs) ! i < (y # ys) ! i)
      \<longleftrightarrow> x < y \<or> x = y \<and> (\<exists>i < min (length xs) (length ys). take i xs = take i ys \<and> xs ! i < ys ! i)" (is "?l \<longleftrightarrow> ?r")
    proof
      assume ?l
      then obtain i where "i < min (length (x # xs)) (length (y # ys))" "take i (x # xs) = take i (y # ys)" "(x # xs) ! i < (y # ys) ! i" by blast
      then show ?r by (cases i) auto
    next
      assume ?r
      then show ?l
      proof
        assume "x < y"
        then show ?l by (intro exI [of _ 0]) simp
      next
        assume "x = y \<and> (\<exists>i < min (length xs) (length ys). take i xs = take i ys \<and> xs ! i < ys ! i)"
        then obtain i where "x = y" "i < min (length xs) (length ys)" "take i xs = take i ys" "xs ! i < ys ! i" by blast
        then show ?l by (intro exI [of _ "Suc i"]) simp
      qed
    qed
    show ?case unfolding e using 4 by auto
  qed auto
  have "str_compare (r, h) ys = Some (sv_compare xs ys)" using d is_str_size(1) [OF assms] by (simp add: str_compare_def)
  then show ?thesis
    using compare_zero [of xs ys] compare_swap [of ys xs] lex [of xs ys] by (simp add: less_string_view_def)
qed

theorem compare_linear_witness:
  "\<exists>c. str_compare (KzString_empty, Map.empty) [1] = Some c \<and> c < 0 \<and> View [] < View [1]"
  using compare_linear [OF empty_str(1), of Map.empty "[1]"] by auto

end
