(* ===== verification/WorkDeque.thy ===== *)
theory WorkDeque
  imports MpmcQueue
begin

text \<open>
  The work-stealing deque \<open>KzSTL/WorkStealingDeque.h\<close>: its owner, thread \<open>0\<close>, pushes and pops at the
  tail without compare-exchange except for the last value; any thread steals at the head. A thread
  inside a call is a value of \<open>wpc\<close>; \<open>w_step\<close> is what it does up to and including its next access to
  shared memory, and a run interleaves such steps arbitrarily, sequentially consistently. \<open>None\<close> in
  a slot is storage without an object. The field \<open>w_trace\<close> is a history that no step reads: the calls
  (\<open>Inv\<close>) and, for each, the moment at which it takes effect with its result (\<open>Lin\<close>).
\<close>

datatype 'a wop = OPush "'a list" | OPop | OSteal
datatype 'a wres = RCount nat | RVal "'a option"
datatype 'a wevent = Inv nat "'a wop" | Lin nat "'a wop" "'a wres"

record 'a wsd =
  w_head :: nat
  w_tail :: nat
  w_out :: "nat \<Rightarrow> bool"
  w_data :: "nat \<Rightarrow> 'a option"
  w_trace :: "'a wevent list"

definition wsd_init :: "'a wsd" where
  "wsd_init = \<lparr>w_head = 0, w_tail = 0, w_out = (\<lambda>_. True), w_data = (\<lambda>_. None), w_trace = []\<rparr>"

definition logged :: "'a wevent \<Rightarrow> 'a wsd \<Rightarrow> 'a wsd" where
  "logged e q = q\<lparr>w_trace := w_trace q @ [e]\<rparr>"

text \<open>\<open>PHead\<close> loads the head, \<open>PWait\<close> reads the flag of the slot of the \<open>i\<close>th value or stores the tail
  when all are built, \<open>PBuild\<close> constructs it and \<open>PMark\<close> clears the flag. A pop stores the tail,
  loads the head, competes for the last value, moves the value out, sets the flag and stores the
  tail back. A steal loads head and tail, competes, moves the value out and sets the flag.\<close>

datatype 'a wpc =
    WIdle
  | PHead bool "'a list" nat
  | PWait "'a list" "'a list" nat nat
  | PBuild "'a list" "'a list" nat nat
  | PMark "'a list" "'a list" nat nat
  | PopStore nat
  | PopHead nat
  | PopCas nat
  | PopTake nat bool
  | PopRel nat bool "'a option"
  | PopRestore nat "'a option"
  | SHead
  | STail nat
  | SCas nat
  | STake nat
  | SRel nat "'a option"
  | WRet "'a wres"

subsection \<open>Calls\<close>

definition start_push :: "'a \<Rightarrow> 'a wsd \<Rightarrow> 'a wpc \<times> 'a wsd" where
  "start_push v q = (PHead False [v] (w_tail q), logged (Inv 0 (OPush [v])) q)"

definition start_pushBulk :: "'a list \<Rightarrow> 'a wsd \<Rightarrow> 'a wpc \<times> 'a wsd" where
  "start_pushBulk items q =
     (let q = logged (Inv 0 (OPush items)) q
      in if items = [] then (WRet (RCount 0), logged (Lin 0 (OPush []) (RCount 0)) q) else (PHead True items (w_tail q), q))"

definition start_pop :: "'a wsd \<Rightarrow> 'a wpc \<times> 'a wsd" where
  "start_pop q =
     (let q = logged (Inv 0 OPop) q
      in if w_tail q = 0 then (WRet (RVal None), logged (Lin 0 OPop (RVal None)) q) else (PopStore (w_tail q - 1), q))"

definition start_steal :: "nat \<Rightarrow> 'a wsd \<Rightarrow> 'a wpc \<times> 'a wsd" where
  "start_steal t q = (SHead, logged (Inv t OSteal) q)"

subsection \<open>Steps\<close>

definition push_head :: "nat \<Rightarrow> bool \<Rightarrow> 'a list \<Rightarrow> nat \<Rightarrow> 'a wsd \<Rightarrow> 'a wpc \<times> 'a wsd" where
  "push_head cap bulk items tail q =
     (let used = wsub tail (w_head q);
          count = (if bulk then min (length items) (wsub cap used) else if used \<ge> cap then 0 else 1)
      in if count = 0 then (WRet (RCount 0), logged (Lin 0 (OPush items) (RCount 0)) q)
         else (PWait items (take count items) tail 0, q))"

definition push_wait :: "nat \<Rightarrow> 'a list \<Rightarrow> 'a list \<Rightarrow> nat \<Rightarrow> nat \<Rightarrow> 'a wsd \<Rightarrow> 'a wpc \<times> 'a wsd" where
  "push_wait cap all items tail i q =
     (if i < length items
      then (if w_out q (slot_of cap (wadd tail i)) then PBuild all items tail i else PWait all items tail i, q)
      else (WRet (RCount (length items)), logged (Lin 0 (OPush all) (RCount (length items))) (q\<lparr>w_tail := wadd tail (length items)\<rparr>)))"

definition push_build :: "nat \<Rightarrow> 'a list \<Rightarrow> 'a list \<Rightarrow> nat \<Rightarrow> nat \<Rightarrow> 'a wsd \<Rightarrow> 'a wpc \<times> 'a wsd" where
  "push_build cap all items tail i q =
     (PMark all items tail i, q\<lparr>w_data := (w_data q)(slot_of cap (wadd tail i) := Some (items ! i))\<rparr>)"

definition push_mark :: "nat \<Rightarrow> 'a list \<Rightarrow> 'a list \<Rightarrow> nat \<Rightarrow> nat \<Rightarrow> 'a wsd \<Rightarrow> 'a wpc \<times> 'a wsd" where
  "push_mark cap all items tail i q =
     (PWait all items tail (i + 1), q\<lparr>w_out := (w_out q)(slot_of cap (wadd tail i) := False)\<rparr>)"

definition pop_store :: "nat \<Rightarrow> 'a wsd \<Rightarrow> 'a wpc \<times> 'a wsd" where
  "pop_store tail q = (PopHead tail, q\<lparr>w_tail := tail\<rparr>)"

definition pop_head :: "nat \<Rightarrow> nat \<Rightarrow> 'a wsd \<Rightarrow> 'a wpc \<times> 'a wsd" where
  "pop_head cap tail q =
     (if w_head q \<le> tail then
        (if w_head q = tail then (PopCas tail, q)
         else (PopTake tail False, logged (Lin 0 OPop (RVal (w_data q (slot_of cap tail)))) q))
      else (PopRestore tail None, logged (Lin 0 OPop (RVal None)) q))"

definition pop_cas :: "nat \<Rightarrow> nat \<Rightarrow> 'a wsd \<Rightarrow> 'a wpc \<times> 'a wsd" where
  "pop_cas cap tail q =
     (if w_head q = tail
      then (PopTake tail True, logged (Lin 0 OPop (RVal (w_data q (slot_of cap tail)))) (q\<lparr>w_head := wadd tail 1\<rparr>))
      else (PopRestore tail None, logged (Lin 0 OPop (RVal None)) q))"

definition pop_take :: "nat \<Rightarrow> nat \<Rightarrow> bool \<Rightarrow> 'a wsd \<Rightarrow> 'a wpc \<times> 'a wsd" where
  "pop_take cap tail last_one q =
     (PopRel tail last_one (w_data q (slot_of cap tail)), q\<lparr>w_data := (w_data q)(slot_of cap tail := None)\<rparr>)"

definition pop_release :: "nat \<Rightarrow> nat \<Rightarrow> bool \<Rightarrow> 'a option \<Rightarrow> 'a wsd \<Rightarrow> 'a wpc \<times> 'a wsd" where
  "pop_release cap tail last_one result q =
     (if last_one then PopRestore tail result else WRet (RVal result), q\<lparr>w_out := (w_out q)(slot_of cap tail := True)\<rparr>)"

definition pop_restore :: "nat \<Rightarrow> 'a option \<Rightarrow> 'a wsd \<Rightarrow> 'a wpc \<times> 'a wsd" where
  "pop_restore tail result q = (WRet (RVal result), q\<lparr>w_tail := wadd tail 1\<rparr>)"

definition steal_tail :: "nat \<Rightarrow> nat \<Rightarrow> 'a wsd \<Rightarrow> 'a wpc \<times> 'a wsd" where
  "steal_tail t head q =
     (if head < w_tail q then (SCas head, q) else (WRet (RVal None), logged (Lin t OSteal (RVal None)) q))"

definition steal_cas :: "nat \<Rightarrow> nat \<Rightarrow> nat \<Rightarrow> 'a wsd \<Rightarrow> 'a wpc \<times> 'a wsd" where
  "steal_cas cap t head q =
     (if w_head q = head
      then (STake head, logged (Lin t OSteal (RVal (w_data q (slot_of cap head)))) (q\<lparr>w_head := wadd head 1\<rparr>))
      else (WRet (RVal None), logged (Lin t OSteal (RVal None)) q))"

definition steal_take :: "nat \<Rightarrow> nat \<Rightarrow> 'a wsd \<Rightarrow> 'a wpc \<times> 'a wsd" where
  "steal_take cap head q =
     (SRel head (w_data q (slot_of cap head)), q\<lparr>w_data := (w_data q)(slot_of cap head := None)\<rparr>)"

definition steal_release :: "nat \<Rightarrow> nat \<Rightarrow> 'a option \<Rightarrow> 'a wsd \<Rightarrow> 'a wpc \<times> 'a wsd" where
  "steal_release cap head result q = (WRet (RVal result), q\<lparr>w_out := (w_out q)(slot_of cap head := True)\<rparr>)"

fun w_step :: "nat \<Rightarrow> nat \<Rightarrow> 'a wpc \<Rightarrow> 'a wsd \<Rightarrow> 'a wpc \<times> 'a wsd" where
  "w_step cap t (PHead bulk items tail) q = push_head cap bulk items tail q"
| "w_step cap t (PWait all items tail i) q = push_wait cap all items tail i q"
| "w_step cap t (PBuild all items tail i) q = push_build cap all items tail i q"
| "w_step cap t (PMark all items tail i) q = push_mark cap all items tail i q"
| "w_step cap t (PopStore tail) q = pop_store tail q"
| "w_step cap t (PopHead tail) q = pop_head cap tail q"
| "w_step cap t (PopCas tail) q = pop_cas cap tail q"
| "w_step cap t (PopTake tail l) q = pop_take cap tail l q"
| "w_step cap t (PopRel tail l v) q = pop_release cap tail l v q"
| "w_step cap t (PopRestore tail v) q = pop_restore tail v q"
| "w_step cap t SHead q = (STail (w_head q), q)"
| "w_step cap t (STail head) q = steal_tail t head q"
| "w_step cap t (SCas head) q = steal_cas cap t head q"
| "w_step cap t (STake head) q = steal_take cap head q"
| "w_step cap t (SRel head v) q = steal_release cap head v q"
| "w_step cap t pc q = (pc, q)"

fun resting :: "'a wpc \<Rightarrow> bool" where
  "resting WIdle = True"
| "resting (WRet r) = True"
| "resting _ = False"

inductive w_run :: "nat \<Rightarrow> 'a wsd \<Rightarrow> (nat \<Rightarrow> 'a wpc) \<Rightarrow> bool" for cap where
  w_init: "w_run cap wsd_init (\<lambda>_. WIdle)"
| w_push: "w_run cap q P \<Longrightarrow> resting (P 0) \<Longrightarrow> start_push v q = (pc, q') \<Longrightarrow> w_run cap q' (P(0 := pc))"
| w_pushBulk: "w_run cap q P \<Longrightarrow> resting (P 0) \<Longrightarrow> start_pushBulk vs q = (pc, q') \<Longrightarrow> w_run cap q' (P(0 := pc))"
| w_pop: "w_run cap q P \<Longrightarrow> resting (P 0) \<Longrightarrow> start_pop q = (pc, q') \<Longrightarrow> w_run cap q' (P(0 := pc))"
| w_steal: "w_run cap q P \<Longrightarrow> resting (P t) \<Longrightarrow> start_steal t q = (pc, q') \<Longrightarrow> w_run cap q' (P(t := pc))"
| w_move: "w_run cap q P \<Longrightarrow> w_step cap t (P t) q = (pc, q') \<Longrightarrow> w_run cap q' (P(t := pc))"

definition deque_sizeApprox :: "'a wsd \<Rightarrow> nat" where
  "deque_sizeApprox q = (if w_tail q \<ge> w_head q then w_tail q - w_head q else 0)"

text \<open>The destructor, which runs when no thread is inside a call.\<close>

fun destroy_slots :: "nat \<Rightarrow> nat \<Rightarrow> nat \<Rightarrow> 'a wsd \<Rightarrow> 'a wsd" where
  "destroy_slots cap i 0 q = q"
| "destroy_slots cap i (Suc n) q =
     destroy_slots cap (i + 1) n (if w_out q (slot_of cap i) then q else q\<lparr>w_data := (w_data q)(slot_of cap i := None)\<rparr>)"

definition wsd_destroy :: "nat \<Rightarrow> 'a wsd \<Rightarrow> 'a wsd" where
  "wsd_destroy cap q = destroy_slots cap (w_head q) (w_tail q - w_head q) q"

subsection \<open>The abstract deque\<close>

text \<open>
  What a history must satisfy. Calls and their effects alternate in every thread. A push appends as
  many of its values as there was room for at some moment since its call, a pop takes the last value or finds
  nothing, a steal takes the first; a steal that returns nothing found the deque empty, or a value
  was taken since its call, or the only value is being popped.
\<close>

record 'a dspec =
  content :: "'a list"
  opened :: "nat \<Rightarrow> 'a wop option"
  answer :: "nat \<Rightarrow> 'a wres option"
  since :: "nat \<Rightarrow> nat"

definition dspec_init :: "'a dspec" where
  "dspec_init = \<lparr>content = [], opened = (\<lambda>_. None), answer = (\<lambda>_. None), since = (\<lambda>_. 0)\<rparr>"

fun effect :: "nat \<Rightarrow> 'a dspec \<Rightarrow> nat \<Rightarrow> 'a wop \<Rightarrow> 'a wres \<Rightarrow> 'a list option" where
  "effect cap d t (OPush vs) (RCount n) =
     (if n \<le> length vs \<and> length (content d) + n \<le> cap \<and> (n < length vs \<longrightarrow> cap \<le> length (content d) + n + since d t)
      then Some (content d @ take n vs) else None)"
| "effect cap d t OPop (RVal (Some v)) = (if content d \<noteq> [] \<and> last (content d) = v then Some (butlast (content d)) else None)"
| "effect cap d t OPop (RVal None) = (if content d = [] then Some [] else None)"
| "effect cap d t OSteal (RVal (Some v)) = (if content d \<noteq> [] \<and> hd (content d) = v then Some (tl (content d)) else None)"
| "effect cap d t OSteal (RVal None) =
     (if content d = [] \<or> 0 < since d t \<or> length (content d) = 1 \<and> opened d 0 = Some OPop then Some (content d) else None)"
| "effect cap d t _ _ = None"

fun spec_step :: "nat \<Rightarrow> 'a wevent \<Rightarrow> 'a dspec \<Rightarrow> 'a dspec option" where
  "spec_step cap (Inv t op) d =
     (if opened d t = None then Some (d\<lparr>opened := (opened d)(t := Some op), since := (since d)(t := 0)\<rparr>) else None)"
| "spec_step cap (Lin t op r) d =
     (if opened d t = Some op then
        (case effect cap d t op r of
           None \<Rightarrow> None
         | Some xs \<Rightarrow>
             Some (d\<lparr>content := xs, opened := (opened d)(t := None), answer := (answer d)(t := Some r),
                     since := (\<lambda>u. since d u + (length (content d) - length xs))\<rparr>))
      else None)"

fun replay :: "nat \<Rightarrow> 'a wevent list \<Rightarrow> 'a dspec \<Rightarrow> 'a dspec option" where
  "replay cap [] d = Some d"
| "replay cap (e # es) d = (case spec_step cap e d of None \<Rightarrow> None | Some d' \<Rightarrow> replay cap es d')"

fun put_of :: "'a wevent \<Rightarrow> 'a list" where
  "put_of (Lin t (OPush vs) (RCount n)) = take n vs"
| "put_of _ = []"

fun taken_of :: "'a wevent \<Rightarrow> 'a list" where
  "taken_of (Lin t op (RVal (Some v))) = [v]"
| "taken_of _ = []"

definition puts :: "'a wevent list \<Rightarrow> 'a list" where
  "puts tr = concat (map put_of tr)"

definition takes :: "'a wevent list \<Rightarrow> 'a list" where
  "takes tr = concat (map taken_of tr)"

end
