(* ===== verification/WorkDequeInv.thy ===== *)
theory WorkDequeInv
  imports WorkDeque Threads
begin

text \<open>
  The invariant of the deque. The values are in the places from the head to \<open>T\<close>, the tail that the
  owner has not yet given up; \<open>A\<close> the slots whose value has been taken by a thread that has not
  set the flag again, \<open>B\<close> those in which the owner has built values it has not published, \<open>X\<close> the
  one in which it has built a value and not yet cleared the flag. All other slots are free.
\<close>

definition dcore :: "nat \<Rightarrow> 'a wsd \<Rightarrow> nat \<Rightarrow> nat set \<Rightarrow> nat set \<Rightarrow> nat set \<Rightarrow> 'a list \<Rightarrow> bool" where
  "dcore cap q T A B X xs \<longleftrightarrow> w_head q \<le> T \<and> T \<le> w_head q + cap \<and> length xs = T - w_head q
     \<and> (\<forall>p. w_head q \<le> p \<and> p < T \<longrightarrow> w_data q (p mod cap) = Some (xs ! (p - w_head q)))
     \<and> (\<forall>s < cap. w_out q s \<longleftrightarrow> s \<notin> live cap (w_head q) T \<union> A \<union> B)
     \<and> live cap (w_head q) T \<inter> A = {} \<and> (live cap (w_head q) T \<union> A) \<inter> B = {}
     \<and> (\<forall>s < cap. w_out q s \<and> s \<notin> X \<longrightarrow> w_data q s = None)"

subsection \<open>The steps on the shared state\<close>

text \<open>Taking the first value.\<close>

lemma dcore_take_first:
  assumes c: "dcore cap q T A B X xs" and h: "w_head q < T" and cap: "0 < cap"
    and q': "w_head q' = w_head q + 1" "w_out q' = w_out q" "w_data q' = w_data q"
  shows "dcore cap q' T (insert (w_head q mod cap) A) B X (tl xs)"
    "w_data q (w_head q mod cap) = Some (hd xs)" "xs \<noteq> []" "w_head q mod cap \<notin> A \<union> B" "\<not> w_out q (w_head q mod cap)"
proof -
  let ?s = "w_head q mod cap"
  have C: "T \<le> w_head q + cap" "length xs = T - w_head q"
    "\<And>p. w_head q \<le> p \<Longrightarrow> p < T \<Longrightarrow> w_data q (p mod cap) = Some (xs ! (p - w_head q))"
    "\<And>s. s < cap \<Longrightarrow> w_out q s \<longleftrightarrow> s \<notin> live cap (w_head q) T \<union> A \<union> B"
    "live cap (w_head q) T \<inter> A = {}" "(live cap (w_head q) T \<union> A) \<inter> B = {}"
    "\<And>s. s < cap \<Longrightarrow> w_out q s \<Longrightarrow> s \<notin> X \<Longrightarrow> w_data q s = None"
    using c unfolding dcore_def by blast+
  note l = live_first [OF h, of cap]
  have n: "?s \<notin> live cap (w_head q + 1) T" using live_apart [of T "w_head q" cap] C(1) h by blast
  show x: "xs \<noteq> []" using C(2) h by auto
  show "?s \<notin> A \<union> B" using C(5,6) l by blast
  then show "\<not> w_out q ?s" using C(4) [of ?s] l cap by simp
  show "w_data q ?s = Some (hd xs)" using C(3) [of "w_head q"] h x by (simp add: hd_conv_nth)
  have "w_data q (p mod cap) = Some (tl xs ! (p - (w_head q + 1)))" if "w_head q + 1 \<le> p" "p < T" for p
  proof -
    have "p - w_head q = Suc (p - (w_head q + 1))" using that by simp
    then show ?thesis using C(2) C(3) [of p] that x by (simp add: nth_tl)
  qed
  moreover have "w_out q s \<longleftrightarrow> s \<notin> live cap (w_head q + 1) T \<union> insert ?s A \<union> B" if "s < cap" for s
    using C(4) [OF that] l by blast
  ultimately show "dcore cap q' T (insert ?s A) B X (tl xs)"
    unfolding dcore_def q' using C h n l by auto
qed

text \<open>Taking the last value.\<close>

lemma dcore_take_last:
  assumes c: "dcore cap q (T + 1) A B X xs" and h: "w_head q \<le> T" and cap: "0 < cap"
    and q': "w_head q' = w_head q" "w_out q' = w_out q" "w_data q' = w_data q"
  shows "dcore cap q' T (insert (T mod cap) A) B X (butlast xs)"
    "w_data q (T mod cap) = Some (last xs)" "xs \<noteq> []" "T mod cap \<notin> A \<union> B" "\<not> w_out q (T mod cap)"
proof -
  have C: "T + 1 \<le> w_head q + cap" "length xs = T + 1 - w_head q"
    "\<And>p. w_head q \<le> p \<Longrightarrow> p < T + 1 \<Longrightarrow> w_data q (p mod cap) = Some (xs ! (p - w_head q))"
    "\<And>s. s < cap \<Longrightarrow> w_out q s \<longleftrightarrow> s \<notin> live cap (w_head q) (T + 1) \<union> A \<union> B"
    "live cap (w_head q) (T + 1) \<inter> A = {}" "(live cap (w_head q) (T + 1) \<union> A) \<inter> B = {}"
    "\<And>s. s < cap \<Longrightarrow> w_out q s \<Longrightarrow> s \<notin> X \<Longrightarrow> w_data q s = None"
    using c unfolding dcore_def by blast+
  note l = live_last [OF h, of cap]
  have n: "T mod cap \<notin> live cap (w_head q) T" using live_apart_last [of T "w_head q" cap] C(1) by simp
  show x: "xs \<noteq> []" using C(2) h by auto
  show "T mod cap \<notin> A \<union> B" using C(5,6) l by blast
  then show "\<not> w_out q (T mod cap)" using C(4) [of "T mod cap"] l cap by simp
  have "T - w_head q = length xs - 1" using C(2) h by simp
  then show "w_data q (T mod cap) = Some (last xs)" using C(3) [of T] h x by (simp add: last_conv_nth)
  have "w_data q (p mod cap) = Some (butlast xs ! (p - w_head q))" if "w_head q \<le> p" "p < T" for p
    using C(2) C(3) [of p] that by (simp add: nth_butlast)
  moreover have "w_out q s \<longleftrightarrow> s \<notin> live cap (w_head q) T \<union> insert (T mod cap) A \<union> B" if "s < cap" for s
    using C(4) [OF that] l by blast
  ultimately show "dcore cap q' T (insert (T mod cap) A) B X (butlast xs)"
    unfolding dcore_def q' using C h n l by auto
qed

text \<open>Moving a taken value out, and giving its slot back.\<close>

lemma dcore_move_out:
  assumes c: "dcore cap q T A B X xs" and s: "s \<in> A" "s < cap"
    and q': "w_head q' = w_head q" "w_out q' = w_out q" "w_data q' = (w_data q)(s := None)"
  shows "dcore cap q' T A B X xs"
proof -
  have "p mod cap \<noteq> s" if "w_head q \<le> p" "p < T" for p
  proof -
    have "p mod cap \<in> live cap (w_head q) T" using that unfolding live_mem by blast
    then show ?thesis using c s(1) unfolding dcore_def by blast
  qed
  then show ?thesis using c unfolding dcore_def q' by simp
qed

lemma dcore_give_back:
  assumes c: "dcore cap q T (insert s A) B X xs" and s: "s \<notin> A" "w_data q s = None"
    and q': "w_head q' = w_head q" "w_out q' = (w_out q)(s := True)" "w_data q' = w_data q"
  shows "dcore cap q' T A B X xs"
  using c s unfolding dcore_def q' by auto

text \<open>Building a value in a free slot, clearing its flag, and publishing what has been built.\<close>

lemma dcore_build:
  assumes c: "dcore cap q T A B {} xs" and s: "w_out q s" "s < cap" and cap: "0 < cap"
    and q': "w_head q' = w_head q" "w_out q' = w_out q" "w_data q' = (w_data q)(s := Some v)"
  shows "dcore cap q' T A B {s} xs" "s \<notin> live cap (w_head q) T \<union> A \<union> B" "w_data q s = None"
proof -
  show n: "s \<notin> live cap (w_head q) T \<union> A \<union> B" "w_data q s = None" using c s unfolding dcore_def by blast+
  then have "p mod cap \<noteq> s" if "w_head q \<le> p" "p < T" for p using that unfolding live_def by auto
  then show "dcore cap q' T A B {s} xs" using c unfolding dcore_def q' by simp
qed

lemma dcore_mark:
  assumes c: "dcore cap q T A B {s} xs" and s: "w_out q s" "s < cap"
    and q': "w_head q' = w_head q" "w_out q' = (w_out q)(s := False)" "w_data q' = w_data q"
  shows "dcore cap q' T A (insert s B) {} xs"
proof -
  have "s \<notin> live cap (w_head q) T \<union> A" using c s unfolding dcore_def by blast
  then show ?thesis using c unfolding dcore_def q' by auto
qed

lemma dcore_publish:
  assumes c: "dcore cap q T A (live cap T (T + n)) {} xs" and room: "T + n \<le> w_head q + cap" and n: "length ys = n"
    and at: "\<And>j. j < n \<Longrightarrow> w_data q ((T + j) mod cap) = Some (ys ! j)"
    and q': "w_head q' = w_head q" "w_out q' = w_out q" "w_data q' = w_data q"
  shows "dcore cap q' (T + n) A {} {} (xs @ ys)"
proof -
  have C: "w_head q \<le> T" "length xs = T - w_head q"
    "\<And>p. w_head q \<le> p \<Longrightarrow> p < T \<Longrightarrow> w_data q (p mod cap) = Some (xs ! (p - w_head q))"
    using c unfolding dcore_def by blast+
  note l = live_join [of "w_head q" T "T + n" cap]
  have "w_data q (p mod cap) = Some ((xs @ ys) ! (p - w_head q))" if "w_head q \<le> p" "p < T + n" for p
  proof (cases "p < T")
    case True
    then have "p - w_head q < length xs" using C(2) that by simp
    then show ?thesis using C(3) [of p] True that by (simp add: nth_append)
  next
    case False
    then have "p = T + (p - T)" "p - T < n" "p - w_head q = length xs + (p - T)" using C that by auto
    then show ?thesis using at [of "p - T"] by (metis nth_append_length_plus)
  qed
  then show ?thesis using c l C(1) room n unfolding dcore_def q' by auto
qed

end
