(* ===== verification/WorkDequeSteps.thy ===== *)
theory WorkDequeSteps
  imports WorkDequeInv
begin

text \<open>
  The invariant over all threads, \<open>dinv\<close>: what a thread at each point of its call owns and relies on,
  and that every call and every step preserves it.
\<close>

fun claim :: "nat \<Rightarrow> 'a wpc \<Rightarrow> nat set" where
  "claim cap (STake h) = {h mod cap}"
| "claim cap (SRel h v) = {h mod cap}"
| "claim cap (PopTake T l) = {T mod cap}"
| "claim cap (PopRel T l v) = {T mod cap}"
| "claim cap _ = {}"

fun built :: "nat \<Rightarrow> 'a wpc \<Rightarrow> nat set" where
  "built cap (PWait all items tail i) = live cap tail (tail + i)"
| "built cap (PBuild all items tail i) = live cap tail (tail + i)"
| "built cap (PMark all items tail i) = live cap tail (tail + i)"
| "built cap _ = {}"

fun fresh :: "nat \<Rightarrow> 'a wpc \<Rightarrow> nat set" where
  "fresh cap (PMark all items tail i) = {(tail + i) mod cap}"
| "fresh cap _ = {}"

fun eff :: "'a wpc \<Rightarrow> nat \<Rightarrow> nat" where
  "eff (PopHead T) tail = T + 1"
| "eff (PopCas T) tail = T + 1"
| "eff (PopTake T l) tail = (if l then T + 1 else T)"
| "eff (PopRel T l v) tail = (if l then T + 1 else T)"
| "eff (PopRestore T v) tail = T + 1"
| "eff _ tail = tail"

definition owns :: "nat \<Rightarrow> 'a wpc \<Rightarrow> nat set" where
  "owns cap pc = claim cap pc \<union> built cap pc \<union> fresh cap pc"

definition pushing :: "nat \<Rightarrow> nat \<Rightarrow> 'a wsd \<Rightarrow> 'a dspec \<Rightarrow> 'a list \<Rightarrow> 'a list \<Rightarrow> nat \<Rightarrow> nat \<Rightarrow> bool" where
  "pushing cap t q d all items tail i \<longleftrightarrow> t = 0 \<and> tail = w_tail q \<and> opened d 0 = Some (OPush all) \<and> items = take (length items) all
     \<and> i \<le> length items \<and> tail + length items \<le> w_head q + cap \<and> w_head q \<le> tail
     \<and> (length items < length all \<longrightarrow> cap \<le> (tail - w_head q) + length items + since d 0)
     \<and> (\<forall>j < i. w_data q ((tail + j) mod cap) = Some (items ! j))"

fun wok :: "nat \<Rightarrow> nat \<Rightarrow> 'a wsd \<Rightarrow> 'a dspec \<Rightarrow> nat \<Rightarrow> 'a wpc \<Rightarrow> bool" where
  "wok cap t q d E WIdle = (opened d t = None)"
| "wok cap t q d E (WRet r) = (opened d t = None \<and> answer d t = Some r)"
| "wok cap t q d E (PHead bulk items tail) =
     (t = 0 \<and> tail = w_tail q \<and> opened d 0 = Some (OPush items) \<and> items \<noteq> [] \<and> (\<not> bulk \<longrightarrow> length items = 1))"
| "wok cap t q d E (PWait all items tail i) = pushing cap t q d all items tail i"
| "wok cap t q d E (PBuild all items tail i) =
     (pushing cap t q d all items tail i \<and> i < length items \<and> w_out q ((tail + i) mod cap))"
| "wok cap t q d E (PMark all items tail i) =
     (pushing cap t q d all items tail i \<and> i < length items \<and> w_out q ((tail + i) mod cap)
       \<and> w_data q ((tail + i) mod cap) = Some (items ! i))"
| "wok cap t q d E (PopStore T) = (t = 0 \<and> w_tail q = T + 1 \<and> opened d 0 = Some OPop)"
| "wok cap t q d E (PopHead T) = (t = 0 \<and> w_tail q = T \<and> opened d 0 = Some OPop)"
| "wok cap t q d E (PopCas T) = (t = 0 \<and> w_tail q = T \<and> opened d 0 = Some OPop \<and> T \<le> w_head q)"
| "wok cap t q d E (PopTake T l) =
     (t = 0 \<and> w_tail q = T \<and> opened d 0 = None \<and> (l \<longrightarrow> T < w_head q)
       \<and> (\<exists>v. w_data q (T mod cap) = Some v \<and> answer d 0 = Some (RVal (Some v))))"
| "wok cap t q d E (PopRel T l v) =
     (t = 0 \<and> w_tail q = T \<and> opened d 0 = None \<and> (l \<longrightarrow> T < w_head q) \<and> w_data q (T mod cap) = None \<and> answer d 0 = Some (RVal v))"
| "wok cap t q d E (PopRestore T v) =
     (t = 0 \<and> w_tail q = T \<and> opened d 0 = None \<and> T < w_head q \<and> answer d 0 = Some (RVal v))"
| "wok cap t q d E SHead = (opened d t = Some OSteal)"
| "wok cap t q d E (STail h) = (opened d t = Some OSteal \<and> h \<le> w_head q \<and> w_head q \<le> h + since d t)"
| "wok cap t q d E (SCas h) = (opened d t = Some OSteal \<and> h \<le> w_head q \<and> w_head q \<le> h + since d t
     \<and> (w_head q = h \<longrightarrow> h < E))"
| "wok cap t q d E (STake h) =
     (opened d t = None \<and> (\<exists>v. w_data q (h mod cap) = Some v \<and> answer d t = Some (RVal (Some v))))"
| "wok cap t q d E (SRel h v) = (opened d t = None \<and> w_data q (h mod cap) = None \<and> answer d t = Some (RVal v))"

definition dinv :: "nat \<Rightarrow> 'a wsd \<Rightarrow> (nat \<Rightarrow> 'a wpc) \<Rightarrow> 'a dspec \<Rightarrow> bool" where
  "dinv cap q P d \<longleftrightarrow> replay cap (w_trace q) dspec_init = Some d
     \<and> dcore cap q (eff (P 0) (w_tail q)) (of_all (claim cap) P) (built cap (P 0)) (fresh cap (P 0)) (content d)
     \<and> (\<forall>t t'. t \<noteq> t' \<longrightarrow> owns cap (P t) \<inter> claim cap (P t') = {})
     \<and> (\<forall>t. wok cap t q d (eff (P 0) (w_tail q)) (P t)) \<and> eff (P 0) (w_tail q) \<le> length (puts (w_trace q))"

subsection \<open>Histories\<close>

lemma replay_snoc: "replay cap (tr @ [e]) d = (case replay cap tr d of None \<Rightarrow> None | Some d' \<Rightarrow> spec_step cap e d')"
  by (induction tr arbitrary: d) (auto split: option.splits)

lemma puts_snoc [simp]: "puts (tr @ [e]) = puts tr @ put_of e"
  by (simp add: puts_def)

lemma takes_snoc [simp]: "takes (tr @ [e]) = takes tr @ taken_of e"
  by (simp add: takes_def)

lemma logged_simps [simp]:
  "w_head (logged e q) = w_head q" "w_tail (logged e q) = w_tail q" "w_out (logged e q) = w_out q" "w_data (logged e q) = w_data q"
  "w_trace (logged e q) = w_trace q @ [e]"
  by (simp_all add: logged_def)

text \<open>The state of the specification after an effect.\<close>

definition after_lin :: "nat \<Rightarrow> 'a wres \<Rightarrow> 'a list \<Rightarrow> 'a dspec \<Rightarrow> 'a dspec" where
  "after_lin t r xs d = d\<lparr>content := xs, opened := (opened d)(t := None), answer := (answer d)(t := Some r),
                     since := (\<lambda>u. since d u + (length (content d) - length xs))\<rparr>"

definition after_inv :: "nat \<Rightarrow> 'a wop \<Rightarrow> 'a dspec \<Rightarrow> 'a dspec" where
  "after_inv t op d = d\<lparr>opened := (opened d)(t := Some op), since := (since d)(t := 0)\<rparr>"

lemma after_simps [simp]:
  "content (after_lin t r xs d) = xs" "opened (after_lin t r xs d) = (opened d)(t := None)" "answer (after_lin t r xs d) = (answer d)(t := Some r)"
  "since (after_lin t r xs d) u = since d u + (length (content d) - length xs)"
  "content (after_inv t op d) = content d" "opened (after_inv t op d) = (opened d)(t := Some op)" "answer (after_inv t op d) = answer d"
  "since (after_inv t op d) = (since d)(t := 0)"
  by (simp_all add: after_lin_def after_inv_def)

lemma replay_lin:
  assumes "replay cap tr d0 = Some d" "opened d t = Some op" "effect cap d t op r = Some xs"
  shows "replay cap (tr @ [Lin t op r]) d0 = Some (after_lin t r xs d)"
  using assms by (simp add: replay_snoc after_lin_def)

lemma replay_inv:
  assumes "replay cap tr d0 = Some d" "opened d t = None"
  shows "replay cap (tr @ [Inv t op]) d0 = Some (after_inv t op d)"
  using assms by (simp add: replay_snoc after_inv_def)

subsection \<open>What a thread relies on\<close>

lemma wok_owner:
  assumes "wok cap t q d E pc" "t \<noteq> 0"
  shows "built cap pc = {}" "fresh cap pc = {}" "owns cap pc = claim cap pc"
  using assms by (cases pc; simp add: pushing_def owns_def)+

lemma wok_stable:
  assumes ok: "wok cap t q d E pc" and h: "w_head q \<le> w_head q'" and t0: "t = 0 \<Longrightarrow> w_head q' \<le> eff pc (w_tail q)"
    and d: "opened d' t = opened d t" "answer d' t = answer d t" "since d t + (w_head q' - w_head q) \<le> since d' t"
    and data: "\<And>s. s \<in> owns cap pc \<Longrightarrow> w_data q' s = w_data q s"
    and own: "t = 0 \<Longrightarrow> w_tail q' = w_tail q" "\<And>s. t = 0 \<Longrightarrow> w_out q s \<Longrightarrow> w_out q' s"
    and E: "w_head q' = w_head q \<Longrightarrow> w_head q < E \<Longrightarrow> w_head q < E'"
  shows "wok cap t q' d' E' pc"
proof -
  have p: "pushing cap t q' d' all items tail i"
    if a: "pushing cap t q d all items tail i" "w_head q' \<le> w_tail q" "live cap tail (tail + i) \<subseteq> owns cap pc" for all items tail i
  proof -
    have "w_data q' ((tail + j) mod cap) = w_data q ((tail + j) mod cap)" if "j < i" for j
    proof -
      have "(tail + j) mod cap \<in> live cap tail (tail + i)" unfolding live_mem using that by (intro exI [of _ "tail + j"]) simp
      then show ?thesis using a(3) by (intro data) blast
    qed
    then show ?thesis using a(1,2) h d own(1) unfolding pushing_def by auto
  qed
  show ?thesis
  proof (cases pc)
    case (PWait all items tail i)
    then have a: "pushing cap t q d all items tail i" using ok by simp
    then have "t = 0" by (simp add: pushing_def)
    then show ?thesis using p [OF a] t0 PWait by (simp add: owns_def)
  next
    case (PBuild all items tail i)
    then have a: "pushing cap t q d all items tail i" using ok by simp
    then have "t = 0" by (simp add: pushing_def)
    then show ?thesis using p [OF a] t0 PBuild own(2) ok by (simp add: owns_def)
  next
    case (PMark all items tail i)
    then have a: "pushing cap t q d all items tail i" using ok by simp
    then have "t = 0" by (simp add: pushing_def)
    then show ?thesis using p [OF a] t0 PMark own(2) ok data [of "(tail + i) mod cap"] by (auto simp: owns_def)
  next
    case (SCas h0)
    then show ?thesis using ok h d E by auto
  qed (use ok h t0 d own data in \<open>auto simp: owns_def\<close>)
qed

lemma dinv_step:
  assumes inv: "dinv cap q P d" and re: "replay cap (w_trace q') dspec_init = Some d'"
    and core: "dcore cap q' E' (claim cap pc \<union> rest (claim cap) P t) (built cap ((P(t := pc)) 0)) (fresh cap ((P(t := pc)) 0)) (content d')"
    and E': "E' = eff ((P(t := pc)) 0) (w_tail q')" and ok: "wok cap t q' d' E' pc"
    and dj: "owns cap pc \<inter> rest (claim cap) P t = {}" "claim cap pc \<inter> rest (owns cap) P t = {}"
    and others: "\<And>u. u \<noteq> t \<Longrightarrow> opened d' u = opened d u \<and> answer d' u = answer d u \<and> since d u + (w_head q' - w_head q) \<le> since d' u"
    and data: "\<And>s. w_data q' s \<noteq> w_data q s \<Longrightarrow> s \<notin> rest (owns cap) P t"
    and h: "w_head q \<le> w_head q'" and own: "t \<noteq> 0 \<Longrightarrow> w_tail q' = w_tail q" "\<And>s. t \<noteq> 0 \<Longrightarrow> w_out q s \<Longrightarrow> w_out q' s"
    and E: "w_head q' = w_head q \<Longrightarrow> w_head q < eff (P 0) (w_tail q) \<Longrightarrow> w_head q < E'"
    and bound: "E' \<le> length (puts (w_trace q'))"
  shows "dinv cap q' (P(t := pc)) d'"
proof -
  have oks: "wok cap u q' d' E' ((P(t := pc)) u)" for u
  proof (cases "u = t")
    case True
    then show ?thesis using ok by simp
  next
    case False
    have "wok cap u q d (eff (P 0) (w_tail q)) (P u)" using inv by (simp add: dinv_def)
    then have "wok cap u q' d' E' (P u)"
    proof (rule wok_stable [OF _ h])
      show "w_head q' \<le> eff (P u) (w_tail q)" if "u = 0"
      proof -
        have "w_head q' \<le> E'" using core by (simp add: dcore_def)
        then show ?thesis using False that own(1) by (simp add: E')
      qed
      show "w_data q' s = w_data q s" if "s \<in> owns cap (P u)" for s
        using data [of s] that False unfolding rest_def by blast
    qed (use others [OF False] own False E in auto)
    then show ?thesis using False by simp
  qed
  have apart: "owns cap ((P(t := pc)) a) \<inter> claim cap ((P(t := pc)) b) = {}" if ab: "a \<noteq> b" for a b
  proof -
    have "owns cap (P a) \<inter> claim cap (P b) = {}" using inv ab by (simp add: dinv_def)
    moreover have "owns cap pc \<inter> claim cap (P x) = {}" "claim cap pc \<inter> owns cap (P x) = {}" if "x \<noteq> t" for x
      using dj that unfolding rest_def by blast+
    ultimately show ?thesis using ab by (cases "a = t"; cases "b = t") (auto simp: Int_commute)
  qed
  have "dcore cap q' (eff ((P(t := pc)) 0) (w_tail q')) (of_all (claim cap) (P(t := pc))) (built cap ((P(t := pc)) 0)) (fresh cap ((P(t := pc)) 0)) (content d')"
    using core unfolding of_all_upd E' .
  moreover have "eff ((P(t := pc)) 0) (w_tail q') \<le> length (puts (w_trace q'))" using bound unfolding E' .
  moreover have "\<forall>u. wok cap u q' d' (eff ((P(t := pc)) 0) (w_tail q')) ((P(t := pc)) u)" using oks unfolding E' by blast
  moreover have "\<forall>a b. a \<noteq> b \<longrightarrow> owns cap ((P(t := pc)) a) \<inter> claim cap ((P(t := pc)) b) = {}" using apart by blast
  ultimately show ?thesis using re unfolding dinv_def by (intro conjI)
qed

lemma dinvD:
  assumes "dinv cap q P d"
  shows "replay cap (w_trace q) dspec_init = Some d" "wok cap t q d (eff (P 0) (w_tail q)) (P t)"
    "dcore cap q (eff (P 0) (w_tail q)) (claim cap (P t) \<union> rest (claim cap) P t) (built cap (P 0)) (fresh cap (P 0)) (content d)"
    "owns cap (P t) \<inter> rest (claim cap) P t = {}" "claim cap (P t) \<inter> rest (owns cap) P t = {}"
    "eff (P 0) (w_tail q) \<le> length (puts (w_trace q))" "w_head q \<le> eff (P 0) (w_tail q)" "eff (P 0) (w_tail q) \<le> w_head q + cap"
    "length (content d) = eff (P 0) (w_tail q) - w_head q"
proof -
  show "replay cap (w_trace q) dspec_init = Some d" "wok cap t q d (eff (P 0) (w_tail q)) (P t)" "eff (P 0) (w_tail q) \<le> length (puts (w_trace q))"
    using assms by (simp_all add: dinv_def)
  show "dcore cap q (eff (P 0) (w_tail q)) (claim cap (P t) \<union> rest (claim cap) P t) (built cap (P 0)) (fresh cap (P 0)) (content d)"
    using assms by (simp add: dinv_def of_all_rest [of _ _ t])
  show "owns cap (P t) \<inter> rest (claim cap) P t = {}" "claim cap (P t) \<inter> rest (owns cap) P t = {}"
  proof -
    have a: "owns cap (P a) \<inter> claim cap (P b) = {}" if "a \<noteq> b" for a b using assms that by (simp add: dinv_def)
    then have "\<forall>b \<in> - {t}. owns cap (P t) \<inter> claim cap (P b) = {} \<and> claim cap (P t) \<inter> owns cap (P b) = {}"
      by (metis Compl_iff Int_commute singletonI)
    then show "owns cap (P t) \<inter> rest (claim cap) P t = {}" "claim cap (P t) \<inter> rest (owns cap) P t = {}"
      by (simp_all add: rest_def Int_UN_distrib)
  qed
  show "w_head q \<le> eff (P 0) (w_tail q)" "eff (P 0) (w_tail q) \<le> w_head q + cap" "length (content d) = eff (P 0) (w_tail q) - w_head q"
    using assms by (simp_all add: dinv_def dcore_def)
qed

subsection \<open>Steps that leave the slots alone\<close>

lemma dinv_quiet:
  assumes inv: "dinv cap q P d" and q': "w_head q' = w_head q" "w_out q' = w_out q" "w_data q' = w_data q"
    and re: "replay cap (w_trace q') dspec_init = Some d'" and c: "content d' = content d"
    and same: "claim cap pc = claim cap (P t)" "built cap pc = built cap (P t)" "fresh cap pc = fresh cap (P t)"
    and E: "t = 0 \<Longrightarrow> eff pc (w_tail q') = eff (P 0) (w_tail q)" "t \<noteq> 0 \<Longrightarrow> w_tail q' = w_tail q"
    and ok: "wok cap t q' d' (eff (P 0) (w_tail q)) pc"
    and others: "\<And>u. u \<noteq> t \<Longrightarrow> opened d' u = opened d u \<and> answer d' u = answer d u \<and> since d u \<le> since d' u"
    and more: "length (puts (w_trace q)) \<le> length (puts (w_trace q'))"
  shows "dinv cap q' (P(t := pc)) d'"
proof -
  note D = dinvD [OF inv]
  have o: "owns cap pc = owns cap (P t)" using same by (simp add: owns_def)
  have b: "built cap ((P(t := pc)) 0) = built cap (P 0)" "fresh cap ((P(t := pc)) 0) = fresh cap (P 0)"
    "eff ((P(t := pc)) 0) (w_tail q') = eff (P 0) (w_tail q)" using same(2,3) E by (cases "t = 0"; simp)+
  have core: "dcore cap q' (eff (P 0) (w_tail q)) (claim cap pc \<union> rest (claim cap) P t) (built cap ((P(t := pc)) 0)) (fresh cap ((P(t := pc)) 0)) (content d')"
    unfolding b(1,2) c same(1) using D(3) [of t] by (simp add: dcore_def q')
  have dj: "owns cap pc \<inter> rest (claim cap) P t = {}" "claim cap pc \<inter> rest (owns cap) P t = {}"
    unfolding o same(1) by (rule D(4), rule D(5))
  show ?thesis
    by (rule dinv_step [OF inv re core b(3) [symmetric] ok dj]) (use others q' E(2) more D(6) in auto)
qed

lemma dinv_rest:
  assumes "dinv cap q P d" "resting (P t)"
  shows "opened d t = None" "claim cap (P t) = {}" "built cap (P t) = {}" "fresh cap (P t) = {}" "t = 0 \<Longrightarrow> eff (P 0) (w_tail q) = w_tail q"
  using dinvD(2) [OF assms(1), of t] assms(2) by (cases "P t"; simp)+

text \<open>A call begins; one that ends at once has taken effect.\<close>

lemma dinv_start:
  assumes inv: "dinv cap q P d" and r: "resting (P t)"
    and pc: "claim cap pc = {}" "built cap pc = {}" "fresh cap pc = {}" "t = 0 \<Longrightarrow> eff pc (w_tail q) = w_tail q"
    and ok: "wok cap t q (after_inv t op d) (eff (P 0) (w_tail q)) pc" and ev: "put_of (Inv t op) = []"
  shows "dinv cap (logged (Inv t op) q) (P(t := pc)) (after_inv t op d)"
proof (rule dinv_quiet [OF inv])
  show "replay cap (w_trace (logged (Inv t op) q)) dspec_init = Some (after_inv t op d)"
    using replay_inv [OF dinvD(1) [OF inv] dinv_rest(1) [OF inv r]] by simp
  show "wok cap t (logged (Inv t op) q) (after_inv t op d) (eff (P 0) (w_tail q)) pc"
    by (rule wok_stable [OF ok]) (use dinv_rest(5) [OF inv r] pc dinvD(7) [OF inv] in auto)
qed (use dinv_rest [OF inv r] pc in auto)

lemma dinv_lin:
  assumes inv: "dinv cap q P d" and o: "opened d t = Some op" and e: "effect cap d t op r = Some (content d)" "put_of (Lin t op r) = []"
    and same: "claim cap pc = claim cap (P t)" "built cap pc = built cap (P t)" "fresh cap pc = fresh cap (P t)"
    and E: "t = 0 \<Longrightarrow> eff pc (w_tail q) = eff (P 0) (w_tail q)"
    and ok: "wok cap t q (after_lin t r (content d) d) (eff (P 0) (w_tail q)) pc"
  shows "dinv cap (logged (Lin t op r) q) (P(t := pc)) (after_lin t r (content d) d)"
proof (rule dinv_quiet [OF inv])
  show "replay cap (w_trace (logged (Lin t op r) q)) dspec_init = Some (after_lin t r (content d) d)"
    using replay_lin [OF dinvD(1) [OF inv] o e(1)] by simp
  show "wok cap t (logged (Lin t op r) q) (after_lin t r (content d) d) (eff (P 0) (w_tail q)) pc"
    by (rule wok_stable [OF ok]) (use E dinvD(7) [OF inv] in auto)
qed (use same E e(2) in auto)

lemma step_start_push:
  assumes "dinv cap q P d" "resting (P 0)" "start_push v q = (pc, q')"
  shows "\<exists>d. dinv cap q' (P(0 := pc)) d"
  using dinv_start [OF assms(1,2), of pc "OPush [v]"] assms(3) by (auto simp: start_push_def)

lemma step_start_steal:
  assumes "dinv cap q P d" "resting (P t)" "start_steal t q = (pc, q')"
  shows "\<exists>d. dinv cap q' (P(t := pc)) d"
  using dinv_start [OF assms(1,2), of pc OSteal] assms(3) by (auto simp: start_steal_def)

lemma step_start_pushBulk:
  assumes inv: "dinv cap q P d" and r: "resting (P 0)" and s: "start_pushBulk vs q = (pc, q')"
  shows "\<exists>d. dinv cap q' (P(0 := pc)) d"
proof (cases "vs = []")
  case False
  then show ?thesis using dinv_start [OF inv r, of pc "OPush vs"] s by (auto simp: start_pushBulk_def Let_def)
next
  case True
  let ?d = "after_inv 0 (OPush []) d" let ?q = "logged (Inv 0 (OPush [])) q" let ?P = "P(0 := PHead True [] (w_tail q))"
  let ?d' = "after_lin 0 (RCount 0) (content d) ?d"
  note R = dinv_rest [OF inv r]
  have "replay cap (w_trace q') dspec_init = Some ?d'"
    using replay_lin [OF replay_inv [OF dinvD(1) [OF inv] R(1), of "OPush []"], of 0 "OPush []" "RCount 0" "content d"]
      dinvD(7-9) [OF inv] s True by (simp add: start_pushBulk_def Let_def) (auto simp: after_inv_def)
  then have "dinv cap q' (P(0 := pc)) ?d'"
    by (rule dinv_quiet [OF inv, rotated 3]) (use s True R in \<open>auto simp: start_pushBulk_def Let_def puts_def\<close>)
  then show ?thesis by blast
qed

lemma step_start_pop:
  assumes inv: "dinv cap q P d" and r: "resting (P 0)" and s: "start_pop q = (pc, q')"
  shows "\<exists>d. dinv cap q' (P(0 := pc)) d"
proof (cases "w_tail q = 0")
  case False
  then show ?thesis using dinv_start [OF inv r, of pc OPop] s by (auto simp: start_pop_def Let_def)
next
  case True
  let ?d = "after_inv 0 OPop d" let ?d' = "after_lin 0 (RVal None) (content d) ?d"
  note R = dinv_rest [OF inv r]
  have "content d = []" using dinvD(9) [OF inv] R(5) True by simp
  then have "replay cap (w_trace q') dspec_init = Some ?d'"
    using replay_lin [OF replay_inv [OF dinvD(1) [OF inv] R(1), of OPop], of 0 OPop "RVal None" "[]"] s True
    by (auto simp: start_pop_def Let_def)
  then have "dinv cap q' (P(0 := pc)) ?d'"
    by (rule dinv_quiet [OF inv, rotated 3]) (use s True R in \<open>auto simp: start_pop_def Let_def puts_def\<close>)
  then show ?thesis by blast
qed

subsection \<open>The steps of a push\<close>

lemma wadd_lt: "a + b < W64 \<Longrightarrow> wadd a b = a + b"
  by (rule wadd_small)

lemma step_push_head:
  assumes inv: "dinv cap q P d" and pc: "P t = PHead bulk items tail" and s: "push_head cap bulk items tail q = (pc', q')"
    and b: "length (puts (w_trace q)) + cap < W64"
  shows "\<exists>d. dinv cap q' (P(t := pc')) d"
proof -
  have w: "t = 0" "tail = w_tail q" "opened d 0 = Some (OPush items)" "items \<noteq> []" "\<not> bulk \<Longrightarrow> length items = 1"
    using dinvD(2) [OF inv, of t] pc by simp_all
  have e: "eff (P 0) (w_tail q) = tail" using pc w(1,2) by simp
  note D = dinvD [OF inv, unfolded e]
  have u: "wsub tail (w_head q) = tail - w_head q" using D(6,7) b by (intro wsub_small) auto
  have v: "wsub cap (tail - w_head q) = cap - (tail - w_head q)" using D(7,8) b by (intro wsub_small) auto
  define n where "n = (if bulk then min (length items) (cap - (tail - w_head q)) else if tail - w_head q \<ge> cap then 0 else 1)"
  have ph: "push_head cap bulk items tail q =
      (if n = 0 then (WRet (RCount 0), logged (Lin 0 (OPush items) (RCount 0)) q) else (PWait items (take n items) tail 0, q))"
    unfolding push_head_def Let_def u v n_def by (rule refl)
  show ?thesis
  proof (cases "n = 0")
    case True
    then have q': "pc' = WRet (RCount 0)" "q' = logged (Lin 0 (OPush items) (RCount 0)) q" using s unfolding ph by simp_all
    have "cap \<le> tail - w_head q" using True w(4) by (auto simp: n_def min_def split: if_splits)
    then have "length (content d) = cap" using D(7-9) by linarith
    then have "effect cap d 0 (OPush items) (RCount 0) = Some (content d)" by simp
    from dinv_lin [OF inv, of 0, OF w(3) this, of pc']
    have "dinv cap q' (P(t := pc')) (after_lin 0 (RCount 0) (content d) d)" using pc w q' by simp
    then show ?thesis by blast
  next
    case False
    then have q': "pc' = PWait items (take n items) tail 0" "q' = q" using s unfolding ph by simp_all
    have n: "n \<le> length items" "tail + n \<le> w_head q + cap" "n < length items \<longrightarrow> cap \<le> (tail - w_head q) + n + since d 0"
      using w(5) D(7,8) False by (auto simp: n_def split: if_splits)
    have l: "length (take n items) = n" using n(1) by simp
    have "pushing cap t q d items (take n items) tail 0" using w n D(7) unfolding pushing_def l by simp
    then have "dinv cap q (P(t := pc')) d"
      by (intro dinv_quiet [OF inv _ _ _ D(1)]) (use pc w e q' in auto)
    then show ?thesis using q' by blast
  qed
qed

lemma step_push_wait:
  assumes cap: "pow2 cap" and inv: "dinv cap q P d" and pc: "P t = PWait all items tail i" and s: "push_wait cap all items tail i q = (pc', q')"
    and b: "length (puts (w_trace q)) + cap < W64"
  shows "\<exists>d. dinv cap q' (P(t := pc')) d"
proof -
  have p: "pushing cap t q d all items tail i" using dinvD(2) [OF inv, of t] pc by simp
  then have w: "t = 0" "tail = w_tail q" "opened d 0 = Some (OPush all)" "items = take (length items) all" "i \<le> length items"
    "tail + length items \<le> w_head q + cap" "length items < length all \<longrightarrow> cap \<le> (tail - w_head q) + length items + since d 0"
    unfolding pushing_def by blast+
  have e: "eff (P 0) (w_tail q) = tail" using pc w(1,2) by simp
  note D = dinvD [OF inv, unfolded e]
  have sm: "slot_of cap (wadd tail i) = (tail + i) mod cap"
    using slot_mod [OF cap] wadd_small [of tail i] w(5,6) D(6,7) b by simp
  show ?thesis
  proof (cases "i < length items")
    case True
    then have q': "pc' = (if w_out q ((tail + i) mod cap) then PBuild all items tail i else PWait all items tail i)" "q' = q"
      using s by (auto simp: push_wait_def sm)
    have "dinv cap q (P(t := pc')) d"
      by (rule dinv_quiet [OF inv _ _ _ D(1)]) (use p pc w e q' True in auto)
    then show ?thesis using q' by blast
  next
    case False
    then have i: "i = length items" using w(5) by simp
    have wa: "wadd tail (length items) = tail + length items" using w(6) D(6,7) b by (intro wadd_small) simp
    have q': "pc' = WRet (RCount (length items))"
      "q' = logged (Lin 0 (OPush all) (RCount (length items))) (q\<lparr>w_tail := tail + length items\<rparr>)"
      using s False by (simp_all add: push_wait_def wa)
    have le: "length items \<le> length all" using w(4) by (metis length_take min.cobounded1)
    have eff: "effect cap d 0 (OPush all) (RCount (length items)) = Some (content d @ items)"
      using w(4,6,7) D(7-9) le by auto
    have core: "dcore cap q tail (claim cap (P t) \<union> rest (claim cap) P t) (live cap tail (tail + length items)) {} (content d)"
      using D(3) [of t] pc w(1) i by simp
    have core': "dcore cap q' (tail + length items) ({} \<union> rest (claim cap) P t) {} {} (content d @ items)"
      by (rule dcore_publish [of cap q tail _ "length items"]) (use core p w(6) i pc in \<open>auto simp: q' pushing_def\<close>)
    have pl: "length (take (length items) all) = length items" using le by simp
    have "dinv cap q' (P(t := pc')) (after_lin 0 (RCount (length items)) (content d @ items) d)"
      by (rule dinv_step [OF inv, where E' = "tail + length items"])
        (use core' replay_lin [OF D(1) w(3) eff] pc w(1,2,3) e q' D(6) pl in \<open>auto simp: owns_def\<close>)
    then show ?thesis by blast
  qed
qed

lemma step_push_build:
  assumes cap: "pow2 cap" and inv: "dinv cap q P d" and pc: "P t = PBuild all items tail i" and s: "push_build cap all items tail i q = (pc', q')"
    and b: "length (puts (w_trace q)) + cap < W64"
  shows "\<exists>d. dinv cap q' (P(t := pc')) d" "w_data q (slot_of cap (wadd tail i)) = None"
proof -
  have p: "pushing cap t q d all items tail i" "i < length items" "w_out q ((tail + i) mod cap)" using dinvD(2) [OF inv, of t] pc by simp_all
  then have w: "t = 0" "tail = w_tail q" "opened d 0 = Some (OPush all)" "tail + length items \<le> w_head q + cap" by (simp_all add: pushing_def)
  have e: "eff (P 0) (w_tail q) = tail" using pc w(1,2) by simp
  note D = dinvD [OF inv, unfolded e]
  let ?s = "(tail + i) mod cap"
  have sm: "slot_of cap (wadd tail i) = ?s" using slot_mod [OF cap] wadd_small [of tail i] w(4) D(6,7) b p(2) by simp
  have q': "pc' = PMark all items tail i" "q' = q\<lparr>w_data := (w_data q)(?s := Some (items ! i))\<rparr>"
    using s by (simp_all add: push_build_def sm)
  have c0: "0 < cap" using cap by simp
  then have s0: "?s < cap" by simp
  have core: "dcore cap q tail (claim cap (P t) \<union> rest (claim cap) P t) (live cap tail (tail + i)) {} (content d)"
    using D(3) [of t] pc w(1) by simp
  have B: "dcore cap q' tail (claim cap (P t) \<union> rest (claim cap) P t) (live cap tail (tail + i)) {?s} (content d)"
    "?s \<notin> live cap (w_head q) tail \<union> (claim cap (P t) \<union> rest (claim cap) P t) \<union> live cap tail (tail + i)" "w_data q ?s = None"
    using dcore_build [OF core p(3) s0 c0, of q' "items ! i"] by (auto simp: q')
  show "w_data q (slot_of cap (wadd tail i)) = None" unfolding sm by (rule B(3))
  have others: "?s \<notin> rest (owns cap) P t"
  proof -
    have "owns cap (P u) = claim cap (P u)" if "u \<noteq> t" for u
      using wok_owner(3) [OF dinvD(2) [OF inv, of u]] that w(1) by simp
    then have "rest (owns cap) P t = rest (claim cap) P t" unfolding rest_def by simp
    then show ?thesis using B(2) by simp
  qed
  have j: "(tail + j) mod cap \<noteq> ?s" if "j < i" for j
  proof -
    have "(tail + j) mod cap \<in> live cap tail (tail + i)" unfolding live_mem using that by (intro exI [of _ "tail + j"]) simp
    then show ?thesis using B(2) by auto
  qed
  have ok: "wok cap t q' d tail pc'" using p j by (auto simp: q' pushing_def)
  have "dinv cap q' (P(t := pc')) d"
  proof (rule dinv_step [OF inv _ _ _ ok])
    show "owns cap pc' \<inter> rest (claim cap) P t = {}" using D(4) [of t] B(2) pc by (auto simp: owns_def q')
    show "s \<notin> rest (owns cap) P t" if "w_data q' s \<noteq> w_data q s" for s using that others by (auto simp: q' split: if_splits)
  qed (use B(1) D(1,6) pc w e q' in auto)
  then show "\<exists>d. dinv cap q' (P(t := pc')) d" by blast
qed

lemma step_push_mark:
  assumes cap: "pow2 cap" and inv: "dinv cap q P d" and pc: "P t = PMark all items tail i" and s: "push_mark cap all items tail i q = (pc', q')"
    and b: "length (puts (w_trace q)) + cap < W64"
  shows "\<exists>d. dinv cap q' (P(t := pc')) d"
proof -
  have p: "pushing cap t q d all items tail i" "i < length items" "w_out q ((tail + i) mod cap)"
    "w_data q ((tail + i) mod cap) = Some (items ! i)" using dinvD(2) [OF inv, of t] pc by simp_all
  then have w: "t = 0" "tail = w_tail q" "opened d 0 = Some (OPush all)" "tail + length items \<le> w_head q + cap" by (simp_all add: pushing_def)
  have e: "eff (P 0) (w_tail q) = tail" using pc w(1,2) by simp
  note D = dinvD [OF inv, unfolded e]
  let ?s = "(tail + i) mod cap"
  have sm: "slot_of cap (wadd tail i) = ?s" using slot_mod [OF cap] wadd_small [of tail i] w(4) D(6,7) b p(2) by simp
  have q': "pc' = PWait all items tail (i + 1)" "q' = q\<lparr>w_out := (w_out q)(?s := False)\<rparr>"
    using s by (simp_all add: push_mark_def sm)
  have s0: "?s < cap" using cap by simp
  have core: "dcore cap q tail (claim cap (P t) \<union> rest (claim cap) P t) (live cap tail (tail + i)) {?s} (content d)"
    using D(3) [of t] pc w(1) by simp
  have l: "live cap tail (tail + (i + 1)) = insert ?s (live cap tail (tail + i))" using live_last [of tail "tail + i" cap] by simp
  have core': "dcore cap q' tail (claim cap pc' \<union> rest (claim cap) P t) (live cap tail (tail + (i + 1))) {} (content d)"
    using dcore_mark [OF core p(3) s0, of q'] pc unfolding l by (simp add: q')
  have ok: "wok cap t q' d tail pc'" using p by (auto simp: q' pushing_def less_Suc_eq)
  have o: "owns cap pc' = owns cap (P t)" using l pc by (auto simp: owns_def q')
  have "dinv cap q' (P(t := pc')) d"
  proof (rule dinv_step [OF inv _ _ _ ok])
    show "owns cap pc' \<inter> rest (claim cap) P t = {}" unfolding o by (rule D(4))
  qed (use core' D(1,6) pc w e q' in auto)
  then show ?thesis by blast
qed

subsection \<open>Taking a value\<close>

lemma rest_owns:
  assumes "dinv cap q P d" "s \<notin> rest (claim cap) P t" "s \<notin> built cap (P 0) \<union> fresh cap (P 0)"
  shows "s \<notin> rest (owns cap) P t"
proof -
  have "s \<notin> owns cap (P u)" if "u \<noteq> t" for u
  proof (cases "u = 0")
    case True
    then show ?thesis using assms(2,3) that unfolding owns_def rest_def by blast
  next
    case False
    then have "owns cap (P u) = claim cap (P u)" by (rule wok_owner(3) [OF dinvD(2) [OF assms(1), of u]])
    then show ?thesis using assms(2) that unfolding rest_def by blast
  qed
  then show ?thesis unfolding rest_def by blast
qed

lemma fresh_out:
  assumes "dinv cap q P d" "s \<in> fresh cap (P 0)"
  shows "w_out q s"
  using assms(2) dinvD(2) [OF assms(1), of 0] by (cases "P 0") auto

lemma dinv_take_first:
  assumes inv: "dinv cap q P d" and cap: "0 < cap" and h: "w_head q < eff (P 0) (w_tail q)" and o: "opened d t = Some op"
    and e: "effect cap d t op (RVal (Some (hd (content d)))) = Some (tl (content d))"
    and q': "q' = logged (Lin t op (RVal (w_data q (w_head q mod cap)))) (q\<lparr>w_head := w_head q + 1\<rparr>)"
    and was: "claim cap (P t) = {}" "built cap (P t) = {}" "fresh cap (P t) = {}"
    and pc: "claim cap pc = {w_head q mod cap}" "built cap pc = {}" "fresh cap pc = {}" "t = 0 \<Longrightarrow> eff pc (w_tail q) = eff (P 0) (w_tail q)"
    and ok: "\<And>v d'. w_data q (w_head q mod cap) = Some v \<Longrightarrow> answer d' t = Some (RVal (Some v)) \<Longrightarrow> opened d' t = None
      \<Longrightarrow> wok cap t q' d' (eff (P 0) (w_tail q)) pc"
  shows "\<exists>d. dinv cap q' (P(t := pc)) d"
proof -
  note D = dinvD [OF inv]
  let ?s = "w_head q mod cap" let ?E = "eff (P 0) (w_tail q)"
  have core: "dcore cap q ?E (rest (claim cap) P t) (built cap (P 0)) (fresh cap (P 0)) (content d)" using D(3) [of t] was(1) by simp
  have f: "w_head q' = w_head q + 1" "w_out q' = w_out q" "w_data q' = w_data q" by (simp_all add: q')
  note T = dcore_take_first [OF core h cap f]
  let ?d' = "after_lin t (RVal (Some (hd (content d)))) (tl (content d)) d"
  have b: "built cap ((P(t := pc)) 0) = built cap (P 0)" "fresh cap ((P(t := pc)) 0) = fresh cap (P 0)"
    "eff ((P(t := pc)) 0) (w_tail q') = ?E" using was pc by (cases "t = 0"; simp add: q')+
  have own: "owns cap pc = {?s}" using pc by (simp add: owns_def)
  have nf: "?s \<notin> fresh cap (P 0)" using fresh_out [OF inv] T(5) by blast
  have re: "replay cap (w_trace q') dspec_init = Some ?d'" using replay_lin [OF D(1) o e] T(2) by (simp add: q')
  have ok': "wok cap t q' ?d' ?E pc" using ok [OF T(2), of ?d'] by simp
  have "dinv cap q' (P(t := pc)) ?d'"
  proof (rule dinv_step [OF inv re _ b(3) [symmetric] ok'])
    show "dcore cap q' ?E (claim cap pc \<union> rest (claim cap) P t) (built cap ((P(t := pc)) 0)) (fresh cap ((P(t := pc)) 0)) (content ?d')"
      unfolding b(1,2) using T(1) pc(1) by simp
    show "owns cap pc \<inter> rest (claim cap) P t = {}" unfolding own using T(4) by simp
    show "claim cap pc \<inter> rest (owns cap) P t = {}" unfolding pc(1) using rest_owns [OF inv, of ?s t] T(4) nf by simp
    show "opened ?d' u = opened d u \<and> answer ?d' u = answer d u \<and> since d u + (w_head q' - w_head q) \<le> since ?d' u" if "u \<noteq> t" for u
      using that T(3) f(1) by (cases "content d") auto
    show "?E \<le> length (puts (w_trace q'))" using D(6) by (simp add: q')
  qed (auto simp: q')
  then show ?thesis by blast
qed

lemma dinv_move_out:
  assumes inv: "dinv cap q P d" and s: "s \<in> claim cap (P t)" "s < cap" and q': "q' = q\<lparr>w_data := (w_data q)(s := None)\<rparr>"
    and same: "claim cap pc = claim cap (P t)" "built cap pc = built cap (P t)" "fresh cap pc = fresh cap (P t)"
      "t = 0 \<Longrightarrow> eff pc (w_tail q) = eff (P 0) (w_tail q)"
    and ok: "wok cap t q' d (eff (P 0) (w_tail q)) pc"
  shows "dinv cap q' (P(t := pc)) d"
proof -
  note D = dinvD [OF inv]
  let ?E = "eff (P 0) (w_tail q)"
  have b: "built cap ((P(t := pc)) 0) = built cap (P 0)" "fresh cap ((P(t := pc)) 0) = fresh cap (P 0)"
    "eff ((P(t := pc)) 0) (w_tail q') = ?E" using same by (cases "t = 0"; simp add: q')+
  have o: "owns cap pc = owns cap (P t)" using same by (simp add: owns_def)
  have re: "replay cap (w_trace q') dspec_init = Some d" using D(1) by (simp add: q')
  have core: "dcore cap q' ?E (claim cap (P t) \<union> rest (claim cap) P t) (built cap (P 0)) (fresh cap (P 0)) (content d)"
    by (rule dcore_move_out [OF D(3) [of t]]) (use s q' in auto)
  show ?thesis
  proof (rule dinv_step [OF inv re _ b(3) [symmetric] ok])
    show "dcore cap q' ?E (claim cap pc \<union> rest (claim cap) P t) (built cap ((P(t := pc)) 0)) (fresh cap ((P(t := pc)) 0)) (content d)"
      unfolding b same(1) by (rule core)
    show "owns cap pc \<inter> rest (claim cap) P t = {}" "claim cap pc \<inter> rest (owns cap) P t = {}" unfolding o same(1) by (rule D(4), rule D(5))
    show "s' \<notin> rest (owns cap) P t" if "w_data q' s' \<noteq> w_data q s'" for s'
      using that D(5) [of t] s(1) by (auto simp: q' split: if_splits)
  qed (use D(6) q' in auto)
qed

lemma dinv_release:
  assumes inv: "dinv cap q P d" and s: "claim cap (P t) = {s}" "w_data q s = None" and q': "q' = q\<lparr>w_out := (w_out q)(s := True)\<rparr>"
    and was: "built cap (P t) = {}" "fresh cap (P t) = {}"
    and pc: "claim cap pc = {}" "built cap pc = {}" "fresh cap pc = {}" "t = 0 \<Longrightarrow> eff pc (w_tail q) = eff (P 0) (w_tail q)"
    and ok: "wok cap t q' d (eff (P 0) (w_tail q)) pc"
  shows "dinv cap q' (P(t := pc)) d"
proof -
  note D = dinvD [OF inv]
  let ?E = "eff (P 0) (w_tail q)"
  have b: "built cap ((P(t := pc)) 0) = built cap (P 0)" "fresh cap ((P(t := pc)) 0) = fresh cap (P 0)"
    "eff ((P(t := pc)) 0) (w_tail q') = ?E" using was pc by (cases "t = 0"; simp add: q')+
  have "s \<in> owns cap (P t)" using s(1) by (simp add: owns_def)
  then have n: "s \<notin> rest (claim cap) P t" using D(4) [of t] by blast
  have re: "replay cap (w_trace q') dspec_init = Some d" using D(1) by (simp add: q')
  have "dcore cap q ?E (insert s (rest (claim cap) P t)) (built cap (P 0)) (fresh cap (P 0)) (content d)" using D(3) [of t] s(1) by simp
  then have core: "dcore cap q' ?E (rest (claim cap) P t) (built cap (P 0)) (fresh cap (P 0)) (content d)"
    by (rule dcore_give_back) (use n s q' in auto)
  show ?thesis
  proof (rule dinv_step [OF inv re _ b(3) [symmetric] ok])
    show "dcore cap q' ?E (claim cap pc \<union> rest (claim cap) P t) (built cap ((P(t := pc)) 0)) (fresh cap ((P(t := pc)) 0)) (content d)"
      unfolding b pc(1) using core by simp
  qed (use D(6) q' pc in \<open>auto simp: owns_def\<close>)
qed

subsection \<open>The steps of a pop\<close>

lemma step_pop_store:
  assumes inv: "dinv cap q P d" and pc: "P t = PopStore T" and s: "pop_store T q = (pc', q')"
  shows "\<exists>d. dinv cap q' (P(t := pc')) d"
proof -
  have w: "t = 0" "w_tail q = T + 1" "opened d 0 = Some OPop" using dinvD(2) [OF inv, of t] pc by simp_all
  have q': "pc' = PopHead T" "q' = q\<lparr>w_tail := T\<rparr>" using s by (simp_all add: pop_store_def)
  have "dinv cap q' (P(t := pc')) d"
    by (rule dinv_quiet [OF inv]) (use dinvD(1) [OF inv] pc w q' in auto)
  then show ?thesis by blast
qed

lemma pop_none:
  assumes inv: "dinv cap q P d" and o: "t = 0" "opened d 0 = Some OPop" and T: "w_tail q = T" "T < w_head q" and e: "eff (P 0) (w_tail q) = T + 1"
    and was: "claim cap (P 0) = {}" "built cap (P 0) = {}" "fresh cap (P 0) = {}"
  shows "\<exists>d. dinv cap (logged (Lin 0 OPop (RVal None)) q) (P(t := PopRestore T None)) d"
proof -
  have "content d = []" using dinvD(9) [OF inv] T(2) by (simp add: e)
  then have "effect cap d 0 OPop (RVal None) = Some (content d)" by simp
  from dinv_lin [OF inv, of 0, OF o(2) this, of "PopRestore T None"] show ?thesis using o T e was by auto
qed

lemma step_pop_head:
  assumes cap: "pow2 cap" and inv: "dinv cap q P d" and pc: "P t = PopHead T" and s: "pop_head cap T q = (pc', q')"
  shows "\<exists>d. dinv cap q' (P(t := pc')) d"
proof -
  have w: "t = 0" "w_tail q = T" "opened d 0 = Some OPop" using dinvD(2) [OF inv, of t] pc by simp_all
  have e: "eff (P 0) (w_tail q) = T + 1" using pc w(1) by simp
  note D = dinvD [OF inv, unfolded e]
  consider "w_head q = T" | "w_head q < T" | "T < w_head q" by linarith
  then show ?thesis
  proof cases
    case 1
    then have q': "pc' = PopCas T" "q' = q" using s by (simp_all add: pop_head_def)
    have "dinv cap q (P(t := pc')) d" by (rule dinv_quiet [OF inv _ _ _ D(1)]) (use pc w q' 1 in auto)
    then show ?thesis using q' by blast
  next
    case 3
    then have q': "pc' = PopRestore T None" "q' = logged (Lin 0 OPop (RVal None)) q" using s by (simp_all add: pop_head_def)
    show ?thesis unfolding q' by (rule pop_none [OF inv w(1,3,2) 3 e]) (use pc w in auto)
  next
    case 2
    let ?s = "T mod cap"
    have q': "pc' = PopTake T False" "q' = logged (Lin 0 OPop (RVal (w_data q ?s))) q"
      using s 2 by (simp_all add: pop_head_def slot_mod [OF cap])
    have core: "dcore cap q (T + 1) (rest (claim cap) P t) {} {} (content d)" using D(3) [of t] pc w(1) by simp
    have f: "w_head q' = w_head q" "w_out q' = w_out q" "w_data q' = w_data q" by (simp_all add: q')
    have c0: "0 < cap" using cap by simp
    note L = dcore_take_last [OF core less_imp_le [OF 2] c0 f]
    have eff: "effect cap d 0 OPop (RVal (Some (last (content d)))) = Some (butlast (content d))" using L(3) by simp
    let ?d' = "after_lin 0 (RVal (Some (last (content d)))) (butlast (content d)) d"
    have re: "replay cap (w_trace q') dspec_init = Some ?d'" using replay_lin [OF D(1) w(3) eff] L(2) by (simp add: q')
    have nf: "?s \<notin> rest (owns cap) P t" using rest_owns [OF inv, of ?s t] L(4) pc w(1) by simp
    have ok: "wok cap t q' ?d' T pc'" using w L(2) by (simp add: q')
    have "dinv cap q' (P(t := pc')) ?d'"
    proof (rule dinv_step [OF inv re _ _ ok])
      show "dcore cap q' T (claim cap pc' \<union> rest (claim cap) P t) (built cap ((P(t := pc')) 0)) (fresh cap ((P(t := pc')) 0)) (content ?d')"
        using L(1) w(1) by (simp add: q'(1))
      show "owns cap pc' \<inter> rest (claim cap) P t = {}" "claim cap pc' \<inter> rest (owns cap) P t = {}"
        using L(4) nf by (simp_all add: owns_def q'(1))
    qed (use D(6) w 2 in \<open>auto simp: q'\<close>)
    then show ?thesis by blast
  qed
qed

lemma step_pop_cas:
  assumes cap: "pow2 cap" and inv: "dinv cap q P d" and pc: "P t = PopCas T" and s: "pop_cas cap T q = (pc', q')"
    and b: "length (puts (w_trace q)) + cap < W64"
  shows "\<exists>d. dinv cap q' (P(t := pc')) d"
proof -
  have w: "t = 0" "w_tail q = T" "opened d 0 = Some OPop" "T \<le> w_head q" using dinvD(2) [OF inv, of t] pc by simp_all
  have e: "eff (P 0) (w_tail q) = T + 1" using pc w(1) by simp
  note D = dinvD [OF inv, unfolded e]
  show ?thesis
  proof (cases "w_head q = T")
    case False
    then have q': "pc' = PopRestore T None" "q' = logged (Lin 0 OPop (RVal None)) q" using s by (simp_all add: pop_cas_def)
    show ?thesis unfolding q' by (rule pop_none [OF inv w(1,3,2) _ e]) (use False pc w in auto)
  next
    case True
    have wa: "wadd T 1 = T + 1" using D(6) b by (intro wadd_small) simp
    have q': "pc' = PopTake T True" "q' = logged (Lin 0 OPop (RVal (w_data q (T mod cap)))) (q\<lparr>w_head := T + 1\<rparr>)"
      using s True by (auto simp: pop_cas_def slot_mod [OF cap] wa [simplified])
    have "length (content d) = 1" using D(9) True by simp
    then obtain x where x: "content d = [x]" by (auto simp: length_Suc_conv)
    show ?thesis by (rule dinv_take_first [OF inv, of t OPop]) (use cap True pc w e x q' in auto)
  qed
qed

lemma step_pop_take:
  assumes cap: "pow2 cap" and inv: "dinv cap q P d" and pc: "P t = PopTake T l" and s: "pop_take cap T l q = (pc', q')"
  shows "\<exists>d. dinv cap q' (P(t := pc')) d"
proof -
  have w: "t = 0" "w_tail q = T" "opened d 0 = None" "l \<longrightarrow> T < w_head q" "\<exists>v. w_data q (T mod cap) = Some v \<and> answer d 0 = Some (RVal (Some v))"
    using dinvD(2) [OF inv, of t] pc by simp_all
  have "dinv cap q' (P(t := pc')) d"
    by (rule dinv_move_out [OF inv, of "T mod cap"]) (use s pc w cap in \<open>auto simp: pop_take_def slot_mod [OF cap]\<close>)
  then show ?thesis by blast
qed

lemma step_pop_release:
  assumes cap: "pow2 cap" and inv: "dinv cap q P d" and pc: "P t = PopRel T l v" and s: "pop_release cap T l v q = (pc', q')"
  shows "\<exists>d. dinv cap q' (P(t := pc')) d"
proof -
  have w: "t = 0" "w_tail q = T" "opened d 0 = None" "l \<longrightarrow> T < w_head q" "w_data q (T mod cap) = None" "answer d 0 = Some (RVal v)"
    using dinvD(2) [OF inv, of t] pc by simp_all
  have "dinv cap q' (P(t := pc')) d"
    by (rule dinv_release [OF inv, of t "T mod cap"]) (use s pc w in \<open>cases l; auto simp: pop_release_def slot_mod [OF cap]\<close>)+
  then show ?thesis by blast
qed

lemma step_pop_restore:
  assumes inv: "dinv cap q P d" and pc: "P t = PopRestore T v" and s: "pop_restore T v q = (pc', q')"
    and b: "length (puts (w_trace q)) + cap < W64"
  shows "\<exists>d. dinv cap q' (P(t := pc')) d"
proof -
  have w: "t = 0" "w_tail q = T" "opened d 0 = None" "T < w_head q" "answer d 0 = Some (RVal v)" using dinvD(2) [OF inv, of t] pc by simp_all
  have e: "eff (P 0) (w_tail q) = T + 1" using pc w(1) by simp
  have "wadd T 1 = T + 1" using dinvD(6) [OF inv] b by (intro wadd_small) (simp add: e)
  then have q': "pc' = WRet (RVal v)" "q' = q\<lparr>w_tail := T + 1\<rparr>" using s by (simp_all add: pop_restore_def)
  have "dinv cap q' (P(t := pc')) d" by (rule dinv_quiet [OF inv]) (use dinvD(1) [OF inv] pc w e q' in auto)
  then show ?thesis by blast
qed

subsection \<open>The steps of a steal\<close>

lemma eff_cases:
  assumes "dinv cap q P d"
  shows "eff (P 0) (w_tail q) = w_tail q \<or> eff (P 0) (w_tail q) = w_tail q + 1 \<and> (opened d 0 = Some OPop \<or> w_tail q < w_head q)"
  using dinvD(2) [OF assms, of 0] by (cases "P 0") auto

lemma step_steal_head:
  assumes inv: "dinv cap q P d" and pc: "P t = SHead"
  shows "\<exists>d. dinv cap q (P(t := STail (w_head q))) d"
proof -
  have "dinv cap q (P(t := STail (w_head q))) d"
    by (rule dinv_quiet [OF inv _ _ _ dinvD(1) [OF inv]]) (use dinvD(2) [OF inv, of t] pc in auto)
  then show ?thesis by blast
qed

lemma step_steal_tail:
  assumes inv: "dinv cap q P d" and pc: "P t = STail h" and s: "steal_tail t h q = (pc', q')"
  shows "\<exists>d. dinv cap q' (P(t := pc')) d"
proof -
  have w: "opened d t = Some OSteal" "h \<le> w_head q" "w_head q \<le> h + since d t" using dinvD(2) [OF inv, of t] pc by simp_all
  note D = dinvD [OF inv]
  show ?thesis
  proof (cases "h < w_tail q")
    case True
    then have q': "pc' = SCas h" "q' = q" using s by (simp_all add: steal_tail_def)
    have "dinv cap q (P(t := pc')) d"
      by (rule dinv_quiet [OF inv _ _ _ D(1)]) (use eff_cases [OF inv] pc w q' True in auto)
    then show ?thesis using q' by blast
  next
    case False
    then have q': "pc' = WRet (RVal None)" "q' = logged (Lin t OSteal (RVal None)) q" using s by (simp_all add: steal_tail_def)
    have "content d = [] \<or> 0 < since d t \<or> length (content d) = 1 \<and> opened d 0 = Some OPop"
      using eff_cases [OF inv] D(7-9) w False by (cases "content d") auto
    then have "effect cap d t OSteal (RVal None) = Some (content d)" by simp
    from dinv_lin [OF inv w(1) this, of pc'] have "dinv cap q' (P(t := pc')) (after_lin t (RVal None) (content d) d)"
      using pc q' by (cases "t = 0") simp_all
    then show ?thesis by blast
  qed
qed

lemma step_steal_cas:
  assumes cap: "pow2 cap" and inv: "dinv cap q P d" and pc: "P t = SCas h" and s: "steal_cas cap t h q = (pc', q')"
    and b: "length (puts (w_trace q)) + cap < W64"
  shows "\<exists>d. dinv cap q' (P(t := pc')) d"
proof -
  have w: "opened d t = Some OSteal" "h \<le> w_head q" "w_head q \<le> h + since d t" "w_head q = h \<longrightarrow> h < eff (P 0) (w_tail q)"
    using dinvD(2) [OF inv, of t] pc by simp_all
  note D = dinvD [OF inv]
  show ?thesis
  proof (cases "w_head q = h")
    case False
    then have q': "pc' = WRet (RVal None)" "q' = logged (Lin t OSteal (RVal None)) q" using s by (simp_all add: steal_cas_def)
    have "effect cap d t OSteal (RVal None) = Some (content d)" using w False by simp
    from dinv_lin [OF inv w(1) this, of pc'] have "dinv cap q' (P(t := pc')) (after_lin t (RVal None) (content d) d)"
      using pc q' by (cases "t = 0") simp_all
    then show ?thesis by blast
  next
    case True
    have wa: "wadd h 1 = h + 1" using D(6,7) b w True by (intro wadd_small) simp
    have q': "pc' = STake h" "q' = logged (Lin t OSteal (RVal (w_data q (h mod cap)))) (q\<lparr>w_head := h + 1\<rparr>)"
      using s True by (auto simp: steal_cas_def slot_mod [OF cap] wa [simplified])
    have x: "content d \<noteq> []" using D(9) w(4) True by auto
    show ?thesis by (rule dinv_take_first [OF inv, of t OSteal]) (use cap True pc w x q' in auto)
  qed
qed

lemma step_steal_take:
  assumes cap: "pow2 cap" and inv: "dinv cap q P d" and pc: "P t = STake h" and s: "steal_take cap h q = (pc', q')"
  shows "\<exists>d. dinv cap q' (P(t := pc')) d"
proof -
  have w: "opened d t = None" "\<exists>v. w_data q (h mod cap) = Some v \<and> answer d t = Some (RVal (Some v))" using dinvD(2) [OF inv, of t] pc by simp_all
  have "dinv cap q' (P(t := pc')) d"
    by (rule dinv_move_out [OF inv, of "h mod cap"]) (use s pc w cap in \<open>auto simp: steal_take_def slot_mod [OF cap]\<close>)
  then show ?thesis by blast
qed

lemma step_steal_release:
  assumes cap: "pow2 cap" and inv: "dinv cap q P d" and pc: "P t = SRel h v" and s: "steal_release cap h v q = (pc', q')"
  shows "\<exists>d. dinv cap q' (P(t := pc')) d"
proof -
  have w: "opened d t = None" "w_data q (h mod cap) = None" "answer d t = Some (RVal v)" using dinvD(2) [OF inv, of t] pc by simp_all
  have "dinv cap q' (P(t := pc')) d"
    by (rule dinv_release [OF inv, of t "h mod cap"]) (use s pc w in \<open>auto simp: steal_release_def slot_mod [OF cap]\<close>)
  then show ?thesis by blast
qed

end
