(* ===== verification/WorkDequeProps.thy ===== *)
theory WorkDequeProps
  imports WorkDequeSteps
begin

text \<open>
  The properties of the deque: linearisability against the abstract deque, no loss and no
  duplication, what the owner waits for, and the destructor.
\<close>

subsection \<open>Every reachable state\<close>

lemma w_step_puts:
  assumes "w_step cap t pc q = (pc', q')"
  shows "length (puts (w_trace q)) \<le> length (puts (w_trace q'))"
  using assms
  by (cases pc)
    (auto simp: push_head_def push_wait_def push_build_def push_mark_def pop_store_def pop_head_def pop_cas_def pop_take_def pop_release_def
      pop_restore_def steal_tail_def steal_cas_def steal_take_def steal_release_def Let_def logged_def split: if_splits)

lemma dinv_move:
  assumes cap: "pow2 cap" and inv: "dinv cap q P d" and s: "w_step cap t (P t) q = (pc', q')" and b: "length (puts (w_trace q)) + cap < W64"
  shows "\<exists>d. dinv cap q' (P(t := pc')) d"
proof (cases "P t")
  case (PHead bulk items tail)
  then show ?thesis using step_push_head [OF inv PHead _ b] s by simp
next
  case (PWait all items tail i)
  then show ?thesis using step_push_wait [OF cap inv PWait _ b] s by simp
next
  case (PBuild all items tail i)
  then show ?thesis using step_push_build(1) [OF cap inv PBuild _ b] s by simp
next
  case (PMark all items tail i)
  then show ?thesis using step_push_mark [OF cap inv PMark _ b] s by simp
next
  case (PopStore T)
  then show ?thesis using step_pop_store [OF inv PopStore] s by simp
next
  case (PopHead T)
  then show ?thesis using step_pop_head [OF cap inv PopHead] s by simp
next
  case (PopCas T)
  then show ?thesis using step_pop_cas [OF cap inv PopCas _ b] s by simp
next
  case (PopTake T l)
  then show ?thesis using step_pop_take [OF cap inv PopTake] s by simp
next
  case (PopRel T l v)
  then show ?thesis using step_pop_release [OF cap inv PopRel] s by simp
next
  case (PopRestore T v)
  then show ?thesis using step_pop_restore [OF inv PopRestore _ b] s by simp
next
  case SHead
  then show ?thesis using step_steal_head [OF inv SHead] s by auto
next
  case (STail h)
  then show ?thesis using step_steal_tail [OF inv STail] s by simp
next
  case (SCas h)
  then show ?thesis using step_steal_cas [OF cap inv SCas _ b] s by simp
next
  case (STake h)
  then show ?thesis using step_steal_take [OF cap inv STake] s by simp
next
  case (SRel h v)
  then show ?thesis using step_steal_release [OF cap inv SRel] s by simp
qed (use s inv in \<open>auto simp: fun_upd_idem\<close>)

lemma dinv_run:
  assumes "w_run cap q P" "pow2 cap" "length (puts (w_trace q)) + cap < W64"
  shows "\<exists>d. dinv cap q P d"
  using assms(1,3)
proof (induction rule: w_run.induct)
  case w_init
  have "dinv cap wsd_init (\<lambda>_. WIdle) dspec_init"
    by (simp add: dinv_def dcore_def wsd_init_def dspec_init_def of_all_def)
  then show ?case by blast
next
  case (w_push q P v pc q')
  then have "length (puts (w_trace q)) + cap < W64" by (auto simp: start_push_def)
  then show ?case using w_push step_start_push by metis
next
  case (w_pushBulk q P vs pc q')
  then have "length (puts (w_trace q)) + cap < W64" by (auto simp: start_pushBulk_def Let_def puts_def split: if_splits)
  then show ?case using w_pushBulk step_start_pushBulk by metis
next
  case (w_pop q P pc q')
  then have "length (puts (w_trace q)) + cap < W64" by (auto simp: start_pop_def Let_def puts_def split: if_splits)
  then show ?case using w_pop step_start_pop by metis
next
  case (w_steal q P t pc q')
  then have "length (puts (w_trace q)) + cap < W64" by (auto simp: start_steal_def)
  then show ?case using w_steal step_start_steal by metis
next
  case (w_move q P t pc q')
  have "length (puts (w_trace q)) + cap < W64" using w_step_puts [OF w_move.hyps(2)] w_move.prems by simp
  then obtain d where "dinv cap q P d" using w_move.IH by blast
  then show ?case using dinv_move [of cap q P d t pc q'] assms(2) w_move.hyps(2) \<open>length (puts (w_trace q)) + cap < W64\<close> by blast
qed

lemma effect_conserves:
  assumes "effect cap d t op r = Some xs"
  shows "mset (content d) + mset (put_of (Lin t op r)) = mset (taken_of (Lin t op r)) + mset xs" "length (content d) \<le> cap \<Longrightarrow> length xs \<le> cap"
proof -
  have *: "mset (content d) + mset (put_of (Lin t op r)) = mset (taken_of (Lin t op r)) + mset xs \<and> (length (content d) \<le> cap \<longrightarrow> length xs \<le> cap)"
    using assms
  proof (induction cap d t op r rule: effect.induct)
    case (2 cap d t v)
    then have "content d = butlast (content d) @ [v]" "xs = butlast (content d)" by (auto split: if_splits simp: append_butlast_last_id)
    then have "mset (content d) = {#v#} + mset xs" "length xs \<le> length (content d)" by (metis mset_append add.commute mset_single_iff_right, simp)
    then show ?case by simp
  next
    case (4 cap d t v)
    then obtain ys where "content d = v # ys" "xs = ys" by (cases "content d") (auto split: if_splits)
    then show ?case by auto
  qed (auto split: if_splits)
  then show "mset (content d) + mset (put_of (Lin t op r)) = mset (taken_of (Lin t op r)) + mset xs"
    "length (content d) \<le> cap \<Longrightarrow> length xs \<le> cap" by blast+
qed

lemma replay_conserves:
  assumes "replay cap tr d = Some d'"
  shows "mset (content d) + mset (puts tr) = mset (takes tr) + mset (content d')" "length (content d) \<le> cap \<Longrightarrow> length (content d') \<le> cap"
proof -
  have "mset (content d) + mset (puts tr) = mset (takes tr) + mset (content d') \<and> (length (content d) \<le> cap \<longrightarrow> length (content d') \<le> cap)"
    using assms
  proof (induction tr arbitrary: d)
    case (Cons e tr)
    obtain d1 where 1: "spec_step cap e d = Some d1" "replay cap tr d1 = Some d'" using Cons.prems by (auto split: option.splits)
    have "mset (content d) + mset (put_of e) = mset (taken_of e) + mset (content d1) \<and> (length (content d) \<le> cap \<longrightarrow> length (content d1) \<le> cap)"
    proof (cases e)
      case (Lin t op r)
      then obtain xs where "effect cap d t op r = Some xs" "content d1 = xs" using 1(1) by (auto split: if_splits option.splits)
      then show ?thesis using effect_conserves [of cap d t op r xs] Lin by simp
    qed (use 1(1) in \<open>auto split: if_splits\<close>)
    moreover note Cons.IH [OF 1(2)]
    moreover have "mset (puts (e # tr)) = mset (put_of e) + mset (puts tr)" "mset (takes (e # tr)) = mset (taken_of e) + mset (takes tr)"
      by (simp_all add: puts_def takes_def)
    ultimately show ?case by (simp add: add.assoc [symmetric])
  qed (simp add: puts_def takes_def)
  then show "mset (content d) + mset (puts tr) = mset (takes tr) + mset (content d')" "length (content d) \<le> cap \<Longrightarrow> length (content d') \<le> cap"
    by blast+
qed

subsection \<open>The properties\<close>

text \<open>
  C15. The deque is linearisable: however the owner's pushes and pops and any number of steals
  interleave, the history of their effects, each taken between the call and the return, is one of
  the abstract deque. A push appends exactly the values there was room for at some moment of the
  call, a pop takes the newest value and fails only on an empty deque, a steal takes the oldest and
  fails only on an empty deque or when it loses a race. Every call returns the result recorded for
  it, the deque never holds more than its capacity, and no value is lost or duplicated.
\<close>

theorem deque_linearizable:
  assumes "w_run cap q P" "pow2 cap" "length (puts (w_trace q)) + cap < W64"
  shows "\<exists>d. replay cap (w_trace q) dspec_init = Some d \<and> length (content d) \<le> cap
    \<and> mset (puts (w_trace q)) = mset (takes (w_trace q)) + mset (content d)
    \<and> (\<forall>t r. P t = WRet r \<longrightarrow> opened d t = None \<and> answer d t = Some r)"
proof -
  obtain d where inv: "dinv cap q P d" using dinv_run [OF assms] by blast
  have "mset (puts (w_trace q)) = mset (takes (w_trace q)) + mset (content d)" "length (content d) \<le> cap"
    using replay_conserves [OF dinvD(1) [OF inv]] by (simp_all add: dspec_init_def)
  moreover have "opened d t = None \<and> answer d t = Some r" if "P t = WRet r" for t r
    using dinvD(2) [OF inv, of t] that by simp
  ultimately show ?thesis using dinvD(1) [OF inv] by blast
qed

text \<open>Running a schedule: a call that a busy thread is asked for is skipped.\<close>

datatype 'a wcmd = CPush 'a | CPop | CSteal nat | CMove nat

fun w_exec :: "nat \<Rightarrow> 'a wcmd list \<Rightarrow> 'a wsd \<Rightarrow> (nat \<Rightarrow> 'a wpc) \<Rightarrow> 'a wsd \<times> (nat \<Rightarrow> 'a wpc)" where
  "w_exec cap [] q P = (q, P)"
| "w_exec cap (CPush v # cs) q P = (if resting (P 0) then case start_push v q of (pc, q') \<Rightarrow> w_exec cap cs q' (P(0 := pc)) else w_exec cap cs q P)"
| "w_exec cap (CPop # cs) q P = (if resting (P 0) then case start_pop q of (pc, q') \<Rightarrow> w_exec cap cs q' (P(0 := pc)) else w_exec cap cs q P)"
| "w_exec cap (CSteal t # cs) q P = (if resting (P t) then case start_steal t q of (pc, q') \<Rightarrow> w_exec cap cs q' (P(t := pc)) else w_exec cap cs q P)"
| "w_exec cap (CMove t # cs) q P = (case w_step cap t (P t) q of (pc, q') \<Rightarrow> w_exec cap cs q' (P(t := pc)))"

lemma w_exec_run: "w_run cap q P \<Longrightarrow> w_exec cap cs q P = (q', P') \<Longrightarrow> w_run cap q' P'"
proof (induction cap cs q P rule: w_exec.induct)
  case (1 cap q P)
  then show ?case by simp
next
  case (2 cap v cs q P)
  obtain pc q1 where s: "start_push v q = (pc, q1)" by fastforce
  then show ?case using 2 w_run.w_push [OF 2(3) _ s] by (cases "resting (P 0)") (simp_all add: fun_upd_def)
next
  case (3 cap cs q P)
  obtain pc q1 where s: "start_pop q = (pc, q1)" by fastforce
  then show ?case using 3 w_run.w_pop [OF 3(3) _ s] by (cases "resting (P 0)") (simp_all add: fun_upd_def)
next
  case (4 cap t cs q P)
  obtain pc q1 where s: "start_steal t q = (pc, q1)" by fastforce
  then show ?case using 4 w_run.w_steal [OF 4(3) _ s] by (cases "resting (P t)") (simp_all add: fun_upd_def)
next
  case (5 cap t cs q P)
  obtain pc q1 where s: "w_step cap t (P t) q = (pc, q1)" by fastforce
  then show ?case using 5 w_run.w_move [OF 5(2) s] by (simp add: fun_upd_def)
qed

text \<open>The owner and a thief compete for the only value; the thief wins.\<close>

definition race_schedule :: "nat wcmd list" where
  "race_schedule = [CPush 7, CMove 0, CMove 0, CMove 0, CMove 0, CMove 0, CSteal 1, CMove 1, CMove 1, CPop, CMove 0, CMove 0, CMove 1, CMove 0, CMove 1, CMove 0, CMove 1]"

lemma race_run:
  "w_exec 2 race_schedule wsd_init (\<lambda>_. WIdle) =
    (\<lparr>w_head = 1, w_tail = 1, w_out = (\<lambda>_. True)(0 := False, 0 := True), w_data = (\<lambda>_. None)(0 := Some 7, 0 := None),
       w_trace = [Inv 0 (OPush [7]), Lin 0 (OPush [7]) (RCount 1), Inv 1 OSteal, Inv 0 OPop, Lin 1 OSteal (RVal (Some 7)), Lin 0 OPop (RVal None)]\<rparr>,
     (\<lambda>_. WIdle)(0 := WRet (RVal None), 1 := WRet (RVal (Some 7))))"
  by (simp add: race_schedule_def wsd_init_def start_push_def start_pop_def start_steal_def push_head_def push_wait_def push_build_def push_mark_def
      pop_store_def pop_head_def pop_cas_def pop_restore_def steal_tail_def steal_cas_def steal_take_def steal_release_def
      wsub_def wadd_def W64_def slot_of_def logged_def)

lemma race_reachable:
  obtains q P where "w_run 2 q P" "P 0 = WRet (RVal None)" "P 1 = WRet (RVal (Some (7 :: nat)))" "length (puts (w_trace q)) = 1"
    "w_head q = 1" "w_tail q = 1"
  using w_exec_run [OF w_run.w_init race_run] by (rule that) (simp_all add: puts_def)

theorem deque_linearizable_witness:
  "\<exists>q P d. w_run 2 q P \<and> P 0 = WRet (RVal None) \<and> P 1 = WRet (RVal (Some (7 :: nat))) \<and> replay 2 (w_trace q) dspec_init = Some d
     \<and> answer d 0 = Some (RVal None) \<and> answer d 1 = Some (RVal (Some 7))"
proof -
  obtain q P where r: "w_run 2 q P" "P 0 = WRet (RVal None)" "P 1 = WRet (RVal (Some (7 :: nat)))" "length (puts (w_trace q)) = 1"
    by (rule race_reachable)
  have "pow2 2" unfolding pow2_def by (intro exI [of _ 1]) simp
  then have "\<exists>d. replay 2 (w_trace q) dspec_init = Some d \<and> length (content d) \<le> 2
    \<and> mset (puts (w_trace q)) = mset (takes (w_trace q)) + mset (content d)
    \<and> (\<forall>t r. P t = WRet r \<longrightarrow> opened d t = None \<and> answer d t = Some r)"
    by (rule deque_linearizable [OF r(1)]) (simp add: r(4) W64_def)
  then show ?thesis using r by blast
qed

text \<open>The destructor.\<close>

lemma destroy_slots_data:
  "w_data (destroy_slots cap i n q) s = (if \<exists>k < n. slot_of cap (i + k) = s \<and> \<not> w_out q s then None else w_data q s)"
proof (induction n arbitrary: i q)
  case (Suc n)
  have k: "(\<exists>k < Suc n. slot_of cap (i + k) = s) \<longleftrightarrow> slot_of cap i = s \<or> (\<exists>k < n. slot_of cap (i + 1 + k) = s)"
    by (simp add: Ex_less_Suc2)
  show ?case by (cases "w_out q s"; cases "slot_of cap i = s"; use k Suc.IH in auto)
qed simp

lemma deque_slots:
  assumes "w_run cap q P" "pow2 cap" "length (puts (w_trace q)) + cap < W64"
  shows "\<forall>t all items tail i. P t = PBuild all items tail i \<longrightarrow> w_data q (slot_of cap (wadd tail i)) = None"
    "\<forall>t p l. P t = STake p \<or> P t = PopTake p l \<longrightarrow> w_data q (slot_of cap p) \<noteq> None"
    "\<forall>t all items tail i. P t = PWait all items tail i \<and> i < length items \<and> \<not> w_out q (slot_of cap (wadd tail i)) \<longrightarrow>
       (\<exists>u p. u \<noteq> t \<and> (P u = STake p \<or> (\<exists>v. P u = SRel p v)) \<and> slot_of cap p = slot_of cap (wadd tail i))"
    "(\<forall>t. resting (P t)) \<longrightarrow> (\<forall>s < cap. w_data (wsd_destroy cap q) s = None)"
proof -
  obtain d where inv: "dinv cap q P d" using dinv_run [OF assms] by blast
  note b = assms(3) and sm = slot_mod [OF assms(2)] and D = dinvD [OF inv]
  show "\<forall>t all items tail i. P t = PBuild all items tail i \<longrightarrow> w_data q (slot_of cap (wadd tail i)) = None"
    using step_push_build(2) [OF assms(2) inv _ prod.collapse [symmetric] b] by blast
  show "\<forall>t p l. P t = STake p \<or> P t = PopTake p l \<longrightarrow> w_data q (slot_of cap p) \<noteq> None"
  proof (intro allI impI)
    fix t p l assume "P t = STake p \<or> P t = PopTake p l"
    then show "w_data q (slot_of cap p) \<noteq> None" using D(2) [of t] unfolding sm by auto
  qed
  show "\<forall>t all items tail i. P t = PWait all items tail i \<and> i < length items \<and> \<not> w_out q (slot_of cap (wadd tail i)) \<longrightarrow>
       (\<exists>u p. u \<noteq> t \<and> (P u = STake p \<or> (\<exists>v. P u = SRel p v)) \<and> slot_of cap p = slot_of cap (wadd tail i))"
  proof (intro allI impI, elim conjE)
    fix t all items tail i assume pc: "P t = PWait all items tail i" and i: "i < length items" and f: "\<not> w_out q (slot_of cap (wadd tail i))"
    have p: "pushing cap t q d all items tail i" using D(2) [of t] pc by simp
    then have w: "t = 0" "tail = w_tail q" "tail + length items \<le> w_head q + cap" "w_head q \<le> tail" by (simp_all add: pushing_def)
    have e: "eff (P 0) (w_tail q) = tail" using pc w(1,2) by simp
    have s: "slot_of cap (wadd tail i) = (tail + i) mod cap" unfolding sm using wadd_small [of tail i] w(3) D(6,7) b i e by simp
    let ?s = "(tail + i) mod cap"
    have "?s < cap" using assms(2) by simp
    then have "?s \<in> live cap (w_head q) tail \<union> (claim cap (P t) \<union> rest (claim cap) P t) \<union> live cap tail (tail + i)"
      using D(3) [of t] f s e pc w(1) unfolding dcore_def by auto
    moreover have "?s \<notin> live cap (w_head q) tail" using w(3,4) i by (intro not_live [of "tail + i + 1"]) auto
    moreover have "?s \<notin> live cap tail (tail + i)" using w(3,4) i by (intro not_live [of "tail + i + 1"]) auto
    moreover have "claim cap (P t) = {}" using pc by simp
    ultimately obtain u where u: "u \<noteq> t" "?s \<in> claim cap (P u)" unfolding rest_def by auto
    then show "\<exists>u p. u \<noteq> t \<and> (P u = STake p \<or> (\<exists>v. P u = SRel p v)) \<and> slot_of cap p = slot_of cap (wadd tail i)"
      using D(2) [of u] w(1) unfolding s unfolding sm by (cases "P u") auto
  qed
  show "(\<forall>t. resting (P t)) \<longrightarrow> (\<forall>s < cap. w_data (wsd_destroy cap q) s = None)"
  proof (intro impI allI)
    fix s assume r: "\<forall>t. resting (P t)" and s: "s < cap"
    have n: "claim cap (P t) = {}" "built cap (P 0) = {}" "fresh cap (P 0) = {}" "eff (P 0) (w_tail q) = w_tail q" for t
      using dinv_rest [OF inv] r by simp_all
    have core: "dcore cap q (w_tail q) {} {} {} (content d)" using D(3) [of 0] n by (simp add: rest_def)
    show "w_data (wsd_destroy cap q) s = None"
    proof (cases "w_out q s")
      case True
      then have "w_data q s = None" using core s unfolding dcore_def by blast
      then show ?thesis by (simp add: wsd_destroy_def destroy_slots_data)
    next
      case False
      then have "s \<in> live cap (w_head q) (w_tail q)" using core s unfolding dcore_def by blast
      then obtain p where p: "w_head q \<le> p" "p < w_tail q" "p mod cap = s" unfolding live_def by auto
      have "\<exists>k < w_tail q - w_head q. slot_of cap (w_head q + k) = s \<and> \<not> w_out q s"
        unfolding sm using p False by (intro exI [of _ "p - w_head q"]) auto
      then show ?thesis by (simp add: wsd_destroy_def destroy_slots_data)
    qed
  qed
qed

text \<open>
  C16. The slots of the deque are used safely in every interleaving: a value is only built in storage
  that holds no object and only moved out of storage that holds one; an owner that waits for a slot
  waits for a thread that is between winning that slot and releasing it, which takes two steps; and
  when no thread is inside a call the destructor leaves no object behind.
\<close>

theorem deque_slots_safe:
  assumes "w_run cap q P" "pow2 cap" "length (puts (w_trace q)) + cap < W64"
  shows "(\<forall>t all items tail i. P t = PBuild all items tail i \<longrightarrow> w_data q (slot_of cap (wadd tail i)) = None)
    \<and> (\<forall>t p l. P t = STake p \<or> P t = PopTake p l \<longrightarrow> w_data q (slot_of cap p) \<noteq> None)
    \<and> (\<forall>t all items tail i. P t = PWait all items tail i \<and> i < length items \<and> \<not> w_out q (slot_of cap (wadd tail i)) \<longrightarrow>
       (\<exists>u p. u \<noteq> t \<and> (P u = STake p \<or> (\<exists>v. P u = SRel p v)) \<and> slot_of cap p = slot_of cap (wadd tail i)))
    \<and> ((\<forall>t. resting (P t)) \<longrightarrow> (\<forall>s < cap. w_data (wsd_destroy cap q) s = None))"
  by (intro conjI deque_slots [OF assms])

theorem deque_slots_safe_witness:
  "\<exists>q P. w_run 2 q P \<and> P 1 = WRet (RVal (Some (7 :: nat))) \<and> (\<forall>s < 2. (\<forall>t. resting (P t)) \<longrightarrow> w_data (wsd_destroy 2 q) s = None)"
proof -
  obtain q P where r: "w_run 2 q P" "P 1 = WRet (RVal (Some (7 :: nat)))" "length (puts (w_trace q)) = 1"
    by (rule race_reachable)
  have "pow2 2" unfolding pow2_def by (intro exI [of _ 1]) simp
  note deque_slots_safe [OF r(1) this]
  then have "(\<forall>t. resting (P t)) \<longrightarrow> (\<forall>s < 2. w_data (wsd_destroy 2 q) s = None)" by (simp add: r(3) W64_def)
  then show ?thesis using r by blast
qed

end
