(* ===== verification/MpscQueue.thy ===== *)
theory MpscQueue
  imports MpmcQueue
begin

text \<open>
  The bounded queue of many producers and one consumer \<open>KzSTL/ArrayMpscQueue.h\<close>. Producers reserve
  places by moving the tail with compare-exchange, wait for the flag of the slot, build the value and
  set the flag; the consumer, thread \<open>0\<close>, takes the values at the head as long as the flags are
  set and clears them. A thread inside a call is a value of \<open>spc\<close>; \<open>s_step\<close> is what it does up to and
  including its next access to shared memory, and a run interleaves such steps arbitrarily,
  sequentially consistently; \<open>weak\<close> is a spurious failure of \<open>compare_exchange_weak\<close>. \<open>None\<close> in a slot
  is storage without an object. The fields \<open>s_hist\<close> (the values in the order in which their places
  were reserved) and \<open>s_got\<close> (the values taken, in order) are history that no step reads.
\<close>

record 'a mpsc =
  s_head :: nat
  s_tail :: nat
  s_written :: "nat \<Rightarrow> bool"
  s_data :: "nat \<Rightarrow> 'a option"
  s_hist :: "'a list"
  s_got :: "'a option list"

definition mpsc_init :: "'a mpsc" where
  "mpsc_init = \<lparr>s_head = 0, s_tail = 0, s_written = (\<lambda>_. False), s_data = (\<lambda>_. None), s_hist = [], s_got = []\<rparr>"

text \<open>\<open>QHead\<close> loads the head, \<open>QReload\<close> loads it again, \<open>QCas\<close> reserves, \<open>QWait\<close> reads the flag of the
  \<open>i\<close>th place, \<open>QBuild\<close> and \<open>QPub\<close> construct and publish; \<open>CRead\<close> reads the flag of the \<open>i\<close>th value,
  \<open>CTake\<close> moves it out, \<open>CClear\<close> clears the flag and \<open>CStore\<close> moves the head past \<open>i\<close> values.\<close>

datatype 'a spc =
    SIdle
  | QHead bool "'a list" nat
  | QReload bool "'a list" nat
  | QCas bool "'a list" nat nat nat
  | QWait "'a list" nat nat
  | QBuild "'a list" nat nat
  | QPub "'a list" nat nat
  | QRet nat
  | CRead nat nat nat "'a option list"
  | CTake nat nat nat "'a option list"
  | CClear nat nat nat "'a option list"
  | CStore nat nat "'a option list"
  | CRet "'a option list"

subsection \<open>Calls\<close>

definition mpsc_push :: "'a \<Rightarrow> 'a mpsc \<Rightarrow> 'a spc" where
  "mpsc_push v q = QHead False [v] (s_tail q)"

definition mpsc_pushBulk :: "'a list \<Rightarrow> 'a mpsc \<Rightarrow> 'a spc" where
  "mpsc_pushBulk items q = (if items = [] then QRet 0 else QHead True items (s_tail q))"

definition mpsc_pop :: "'a mpsc \<Rightarrow> 'a spc" where
  "mpsc_pop q = CRead 1 (s_head q) 0 []"

definition mpsc_popBulk :: "nat \<Rightarrow> 'a mpsc \<Rightarrow> 'a spc" where
  "mpsc_popBulk want q = (if want = 0 then CRet [] else CRead want (s_head q) 0 [])"

subsection \<open>Steps\<close>

definition available :: "nat \<Rightarrow> nat \<Rightarrow> nat \<Rightarrow> nat" where
  "available cap tail head = (let size = wsub tail head in if size \<ge> cap then 0 else cap - size)"

text \<open>The head of the loop: is there room, going by the head last loaded?\<close>

definition reserve_check :: "nat \<Rightarrow> bool \<Rightarrow> 'a list \<Rightarrow> nat \<Rightarrow> nat \<Rightarrow> 'a spc" where
  "reserve_check cap bulk items tail head =
     (if available cap tail head < (if bulk then length items else 1) then QReload bulk items tail
      else QCas bulk items tail head (min (length items) (available cap tail head)))"

definition reserve_reload :: "nat \<Rightarrow> bool \<Rightarrow> 'a list \<Rightarrow> nat \<Rightarrow> 'a mpsc \<Rightarrow> 'a spc" where
  "reserve_reload cap bulk items tail q =
     (if available cap tail (s_head q) = 0 then QRet 0
      else QCas bulk items tail (s_head q) (min (length items) (available cap tail (s_head q))))"

definition reserve_cas :: "nat \<Rightarrow> bool \<Rightarrow> bool \<Rightarrow> 'a list \<Rightarrow> nat \<Rightarrow> nat \<Rightarrow> nat \<Rightarrow> 'a mpsc \<Rightarrow> 'a spc \<times> 'a mpsc" where
  "reserve_cas cap weak bulk items tail head n q =
     (if s_tail q = tail \<and> \<not> weak
      then (QWait (take n items) tail 0, q\<lparr>s_tail := wadd tail n, s_hist := s_hist q @ take n items\<rparr>)
      else (reserve_check cap bulk items (s_tail q) head, q))"

definition place_wait :: "nat \<Rightarrow> 'a list \<Rightarrow> nat \<Rightarrow> nat \<Rightarrow> 'a mpsc \<Rightarrow> 'a spc" where
  "place_wait cap items tail i q =
     (if i < length items then (if s_written q (slot_of cap (wadd tail i)) then QWait items tail i else QBuild items tail i)
      else QRet (length items))"

definition place_build :: "nat \<Rightarrow> 'a list \<Rightarrow> nat \<Rightarrow> nat \<Rightarrow> 'a mpsc \<Rightarrow> 'a spc \<times> 'a mpsc" where
  "place_build cap items tail i q =
     (QPub items tail i, q\<lparr>s_data := (s_data q)(slot_of cap (wadd tail i) := Some (items ! i))\<rparr>)"

definition place_publish :: "nat \<Rightarrow> 'a list \<Rightarrow> nat \<Rightarrow> nat \<Rightarrow> 'a mpsc \<Rightarrow> 'a spc \<times> 'a mpsc" where
  "place_publish cap items tail i q =
     (QWait items tail (i + 1), q\<lparr>s_written := (s_written q)(slot_of cap (wadd tail i) := True)\<rparr>)"

definition consume_read :: "nat \<Rightarrow> nat \<Rightarrow> nat \<Rightarrow> nat \<Rightarrow> 'a option list \<Rightarrow> 'a mpsc \<Rightarrow> 'a spc" where
  "consume_read cap want head i out q =
     (if i < want \<and> s_written q (slot_of cap (wadd head i)) then CTake want head i out
      else if i > 0 then CStore head i out else CRet out)"

definition consume_take :: "nat \<Rightarrow> nat \<Rightarrow> nat \<Rightarrow> nat \<Rightarrow> 'a option list \<Rightarrow> 'a mpsc \<Rightarrow> 'a spc \<times> 'a mpsc" where
  "consume_take cap want head i out q =
     (let s = slot_of cap (wadd head i); v = s_data q s
      in (CClear want head i (out @ [v]), q\<lparr>s_data := (s_data q)(s := None), s_got := s_got q @ [v]\<rparr>))"

definition consume_clear :: "nat \<Rightarrow> nat \<Rightarrow> nat \<Rightarrow> nat \<Rightarrow> 'a option list \<Rightarrow> 'a mpsc \<Rightarrow> 'a spc \<times> 'a mpsc" where
  "consume_clear cap want head i out q =
     (CRead want head (i + 1) out, q\<lparr>s_written := (s_written q)(slot_of cap (wadd head i) := False)\<rparr>)"

definition consume_store :: "nat \<Rightarrow> nat \<Rightarrow> 'a option list \<Rightarrow> 'a mpsc \<Rightarrow> 'a spc \<times> 'a mpsc" where
  "consume_store head i out q = (CRet out, q\<lparr>s_head := wadd head i\<rparr>)"

fun s_step :: "nat \<Rightarrow> bool \<Rightarrow> 'a spc \<Rightarrow> 'a mpsc \<Rightarrow> 'a spc \<times> 'a mpsc" where
  "s_step cap weak (QHead bulk items tail) q = (reserve_check cap bulk items tail (s_head q), q)"
| "s_step cap weak (QReload bulk items tail) q = (reserve_reload cap bulk items tail q, q)"
| "s_step cap weak (QCas bulk items tail head n) q = reserve_cas cap weak bulk items tail head n q"
| "s_step cap weak (QWait items tail i) q = (place_wait cap items tail i q, q)"
| "s_step cap weak (QBuild items tail i) q = place_build cap items tail i q"
| "s_step cap weak (QPub items tail i) q = place_publish cap items tail i q"
| "s_step cap weak (CRead want head i out) q = (consume_read cap want head i out q, q)"
| "s_step cap weak (CTake want head i out) q = consume_take cap want head i out q"
| "s_step cap weak (CClear want head i out) q = consume_clear cap want head i out q"
| "s_step cap weak (CStore head i out) q = consume_store head i out q"
| "s_step cap weak pc q = (pc, q)"

fun s_rest :: "'a spc \<Rightarrow> bool" where
  "s_rest SIdle = True"
| "s_rest (QRet n) = True"
| "s_rest (CRet out) = True"
| "s_rest _ = False"

inductive s_run :: "nat \<Rightarrow> 'a mpsc \<Rightarrow> (nat \<Rightarrow> 'a spc) \<Rightarrow> bool" for cap where
  s_init: "s_run cap mpsc_init (\<lambda>_. SIdle)"
| s_push: "s_run cap q P \<Longrightarrow> s_rest (P t) \<Longrightarrow> s_run cap q (P(t := mpsc_push v q))"
| s_pushBulk: "s_run cap q P \<Longrightarrow> s_rest (P t) \<Longrightarrow> s_run cap q (P(t := mpsc_pushBulk vs q))"
| s_pop: "s_run cap q P \<Longrightarrow> s_rest (P 0) \<Longrightarrow> s_run cap q (P(0 := mpsc_pop q))"
| s_popBulk: "s_run cap q P \<Longrightarrow> s_rest (P 0) \<Longrightarrow> s_run cap q (P(0 := mpsc_popBulk want q))"
| s_move: "s_run cap q P \<Longrightarrow> s_step cap weak (P t) q = (pc, q') \<Longrightarrow> s_run cap q' (P(t := pc))"

definition mpsc_sizeApprox :: "'a mpsc \<Rightarrow> nat" where
  "mpsc_sizeApprox q = (if s_tail q \<ge> s_head q then s_tail q - s_head q else 0)"

text \<open>The destructor, which runs when no thread is inside a call.\<close>

fun destroy_written :: "nat \<Rightarrow> nat \<Rightarrow> nat \<Rightarrow> 'a mpsc \<Rightarrow> 'a mpsc" where
  "destroy_written cap i 0 q = q"
| "destroy_written cap i (Suc n) q =
     destroy_written cap (i + 1) n (if s_written q (slot_of cap i) then q\<lparr>s_data := (s_data q)(slot_of cap i := None)\<rparr> else q)"

definition mpsc_destroy :: "nat \<Rightarrow> 'a mpsc \<Rightarrow> 'a mpsc" where
  "mpsc_destroy cap q = destroy_written cap (s_head q) (s_tail q - s_head q) q"

end
