(* ===== verification/MpscProps.thy ===== *)
theory MpscProps
  imports MpscQueue Threads
begin

text \<open>
  The invariant of the queue of many producers and one consumer, its preservation by every step, and
  what follows: first in first out without loss, no waiting, and a push that fails on an empty queue.
  The values not yet consumed are in the places from \<open>H\<close>, where the consumer is, to the tail. \<open>E\<close> are
  the places reserved and not published, \<open>B\<close> those of them that are built; \<open>K\<close> says that the value at
  \<open>H\<close> is moved out and its flag not yet cleared.
\<close>

definition score :: "nat \<Rightarrow> 'a mpsc \<Rightarrow> nat \<Rightarrow> nat set \<Rightarrow> nat set \<Rightarrow> bool \<Rightarrow> bool" where
  "score cap q H E B K \<longleftrightarrow> s_tail q = length (s_hist q) \<and> s_head q \<le> H \<and> H \<le> s_tail q \<and> s_tail q \<le> s_head q + cap
     \<and> (\<forall>p \<in> E. H \<le> p \<and> p < s_tail q) \<and> B \<subseteq> E \<and> (K \<longrightarrow> H < s_tail q \<and> H \<notin> E)
     \<and> (\<forall>p. H \<le> p \<and> p < s_tail q \<longrightarrow> (s_written q (p mod cap) \<longleftrightarrow> p \<notin> E)
          \<and> s_data q (p mod cap) = (if (p \<in> E \<longrightarrow> p \<in> B) \<and> \<not> (K \<and> p = H) then Some (s_hist q ! p) else None))
     \<and> (\<forall>s < cap. s \<notin> live cap H (s_tail q) \<longrightarrow> \<not> s_written q s \<and> s_data q s = None)
     \<and> s_got q = map Some (take (if K then H + 1 else H) (s_hist q))"

lemma scoreD:
  assumes "score cap q H E B K"
  shows "s_tail q = length (s_hist q)" "s_head q \<le> H" "H \<le> s_tail q" "s_tail q \<le> s_head q + cap"
    "\<And>p. p \<in> E \<Longrightarrow> H \<le> p \<and> p < s_tail q" "B \<subseteq> E" "K \<Longrightarrow> H < s_tail q \<and> H \<notin> E"
    "\<And>p. H \<le> p \<Longrightarrow> p < s_tail q \<Longrightarrow> s_written q (p mod cap) \<longleftrightarrow> p \<notin> E"
    "\<And>p. H \<le> p \<Longrightarrow> p < s_tail q \<Longrightarrow> s_data q (p mod cap) = (if (p \<in> E \<longrightarrow> p \<in> B) \<and> \<not> (K \<and> p = H) then Some (s_hist q ! p) else None)"
    "\<And>s. s < cap \<Longrightarrow> s \<notin> live cap H (s_tail q) \<Longrightarrow> \<not> s_written q s \<and> s_data q s = None"
    "s_got q = map Some (take (if K then H + 1 else H) (s_hist q))"
proof -
  show "s_tail q = length (s_hist q)" "s_head q \<le> H" "H \<le> s_tail q" "s_tail q \<le> s_head q + cap" "B \<subseteq> E" "K \<Longrightarrow> H < s_tail q \<and> H \<notin> E"
    "s_got q = map Some (take (if K then H + 1 else H) (s_hist q))"
    using assms unfolding score_def by blast+
  show "H \<le> p \<and> p < s_tail q" if "p \<in> E" for p
    using assms that unfolding score_def by blast
  show "s_written q (p mod cap) \<longleftrightarrow> p \<notin> E" "s_data q (p mod cap) = (if (p \<in> E \<longrightarrow> p \<in> B) \<and> \<not> (K \<and> p = H) then Some (s_hist q ! p) else None)"
    if "H \<le> p" "p < s_tail q" for p
    using assms that unfolding score_def by blast+
  show "\<not> s_written q s \<and> s_data q s = None" if "s < cap" "s \<notin> live cap H (s_tail q)" for s
    using assms that unfolding score_def by blast
qed

lemma score_reserve:
  assumes c: "score cap q H E B K" and cap: "0 < cap" and n: "s_tail q + n \<le> s_head q + cap" "length vs = n"
    and q': "q' = q\<lparr>s_tail := s_tail q + n, s_hist := s_hist q @ vs\<rparr>"
  shows "score cap q' H (E \<union> {s_tail q..<s_tail q + n}) B K"
proof -
  note C = scoreD [OF c]
  have l: "live cap H (s_tail q + n) = live cap H (s_tail q) \<union> live cap (s_tail q) (s_tail q + n)" by (rule live_join [OF C(3)]) simp
  have new: "\<not> s_written q (p mod cap) \<and> s_data q (p mod cap) = None" if "s_tail q \<le> p" "p < s_tail q + n" for p
    using C(10) [of "p mod cap"] not_live [of "s_tail q + n" H cap "s_tail q" p] that n(1) C(2) cap by simp
  have nE: "p \<notin> E" if "s_tail q \<le> p" for p using C(5) [of p] that by auto
  have a: "(s_written q (p mod cap) \<longleftrightarrow> p \<notin> E \<union> {s_tail q..<s_tail q + n})
      \<and> s_data q (p mod cap) = (if (p \<in> E \<union> {s_tail q..<s_tail q + n} \<longrightarrow> p \<in> B) \<and> \<not> (K \<and> p = H) then Some ((s_hist q @ vs) ! p) else None)"
    if p: "H \<le> p" "p < s_tail q + n" for p
  proof (cases "p < s_tail q")
    case True
    then show ?thesis using C(8,9) [OF p(1)] C(1) by (auto simp: nth_append)
  next
    case False
    then have "p \<notin> B" "p \<in> {s_tail q..<s_tail q + n}" using nE [of p] C(6) p(2) by auto
    then show ?thesis using new [of p] by auto
  qed
  have b: "H \<le> p \<and> p < s_tail q + n" if "p \<in> E \<union> {s_tail q..<s_tail q + n}" for p using that C(5) [of p] C(3) by auto
  have g: "s_got q = map Some (take (if K then H + 1 else H) (s_hist q @ vs))" using C(1,3,7,11) by auto
  have k: "K \<longrightarrow> H < s_tail q + n \<and> H \<notin> E \<union> {s_tail q..<s_tail q + n}" using C(7) by auto
  have f: "s_tail q' = s_tail q + n" "s_head q' = s_head q" "s_hist q' = s_hist q @ vs" "s_written q' = s_written q" "s_data q' = s_data q" "s_got q' = s_got q"
    by (simp_all add: q')
  have "B \<subseteq> E \<union> {s_tail q..<s_tail q + n}" "H \<le> s_tail q + n" "s_tail q + n = length (s_hist q @ vs)" using C(1,3,6) n by auto
  moreover have "\<forall>s < cap. s \<notin> live cap H (s_tail q + n) \<longrightarrow> \<not> s_written q s \<and> s_data q s = None" using C(10) unfolding l by blast
  ultimately show ?thesis using a b g k C(2) n(1) unfolding score_def f by (intro conjI) blast+
qed

text \<open>A step on the slot of one place.\<close>

lemma score_slot:
  assumes c: "score cap q H E B K" and p: "H \<le> p" "p < s_tail q" and sets: "E' \<subseteq> E" "B' \<subseteq> E'" "K' \<Longrightarrow> H \<notin> E'"
    and same: "\<And>x. x \<noteq> p \<Longrightarrow> (x \<in> E' \<longleftrightarrow> x \<in> E) \<and> (x \<in> B' \<longleftrightarrow> x \<in> B)" "p \<noteq> H \<Longrightarrow> K' = K"
    and at: "w \<longleftrightarrow> p \<notin> E'" "dt = (if (p \<in> E' \<longrightarrow> p \<in> B') \<and> \<not> (K' \<and> p = H) then Some (s_hist q ! p) else None)"
      "gt = map Some (take (if K' then H + 1 else H) (s_hist q))"
    and q': "q' = q\<lparr>s_written := (s_written q)(p mod cap := w), s_data := (s_data q)(p mod cap := dt), s_got := gt\<rparr>"
  shows "score cap q' H E' B' K'"
proof -
  note C = scoreD [OF c]
  have pl: "p mod cap \<in> live cap H (s_tail q)" unfolding live_mem using p by blast
  have "(s_written q' (x mod cap) \<longleftrightarrow> x \<notin> E')
      \<and> s_data q' (x mod cap) = (if (x \<in> E' \<longrightarrow> x \<in> B') \<and> \<not> (K' \<and> x = H) then Some (s_hist q ! x) else None)"
    if x: "H \<le> x" "x < s_tail q" for x
  proof (cases "x = p")
    case True
    then show ?thesis using at(1,2) by (simp add: q')
  next
    case False
    have "x mod cap \<noteq> p mod cap"
      using mod_eq_close [of x cap p] mod_eq_close [of p cap x] False x p C(2,4) by (cases "x \<le> p") fastforce+
    moreover have "K' = K \<or> x \<noteq> H" using same(2) False by auto
    ultimately show ?thesis using C(8,9) [OF x] same(1) [OF False] False by (auto simp: q')
  qed
  moreover have "\<not> s_written q' s \<and> s_data q' s = None" if "s < cap" "s \<notin> live cap H (s_tail q)" for s
    using C(10) [OF that] pl that(2) by (auto simp: q')
  moreover have "K' \<Longrightarrow> H < s_tail q" using p by simp
  moreover have "\<forall>x \<in> E'. H \<le> x \<and> x < s_tail q" using C(5) sets(1) by blast
  moreover have f: "s_tail q' = s_tail q" "s_head q' = s_head q" "s_hist q' = s_hist q" "s_got q' = gt" by (simp_all add: q')
  ultimately show ?thesis using C(1-4) sets(2,3) at(3) unfolding score_def f by (intro conjI allI impI) blast+
qed

lemma score_build:
  assumes c: "score cap q H E B K" and p: "p \<in> E" "p \<notin> B" "s_hist q ! p = v"
    and q': "q' = q\<lparr>s_data := (s_data q)(p mod cap := Some v)\<rparr>"
  shows "score cap q' H E (insert p B) K" "s_data q (p mod cap) = None"
proof -
  note C = scoreD [OF c]
  have b: "H \<le> p" "p < s_tail q" using C(5) [OF p(1)] by simp_all
  have "p \<noteq> H \<or> \<not> K" using C(7) p(1) by auto
  then show "s_data q (p mod cap) = None" using C(9) [OF b] p by simp
  have w: "s_written q (p mod cap) \<longleftrightarrow> p \<notin> E" by (rule C(8) [OF b])
  show "score cap q' H E (insert p B) K"
  proof (rule score_slot [OF c b _ _ _ _ _ w _ C(11)])
    show "q' = q\<lparr>s_written := (s_written q)(p mod cap := s_written q (p mod cap)), s_data := (s_data q)(p mod cap := Some v), s_got := s_got q\<rparr>"
      by (simp add: q')
  qed (use C(6,7) p in auto)
qed

lemma score_publish:
  assumes c: "score cap q H E B K" and p: "p \<in> B" and q': "q' = q\<lparr>s_written := (s_written q)(p mod cap := True)\<rparr>"
  shows "score cap q' H (E - {p}) (B - {p}) K"
proof -
  note C = scoreD [OF c]
  have pE: "p \<in> E" using C(6) p by blast
  have b: "H \<le> p" "p < s_tail q" using C(5) [OF pE] by simp_all
  have "p \<noteq> H \<or> \<not> K" using C(7) pE by auto
  then have d: "s_data q (p mod cap) = Some (s_hist q ! p)" "\<not> (K \<and> p = H)" using C(9) [OF b] p by auto
  show ?thesis
  proof (rule score_slot [OF c b _ _ _ _ _ _ _ C(11)])
    show "q' = q\<lparr>s_written := (s_written q)(p mod cap := True), s_data := (s_data q)(p mod cap := s_data q (p mod cap)), s_got := s_got q\<rparr>"
      by (simp add: q')
  qed (use C(6,7) d in auto)
qed

lemma score_take:
  assumes c: "score cap q H E B False" and cap: "0 < cap" and w: "s_written q (H mod cap)"
    and q': "q' = q\<lparr>s_data := (s_data q)(H mod cap := None), s_got := s_got q @ [s_data q (H mod cap)]\<rparr>"
  shows "score cap q' H E B True" "s_data q (H mod cap) = Some (s_hist q ! H)"
proof -
  note C = scoreD [OF c]
  have h: "H < s_tail q"
  proof (rule ccontr)
    assume "\<not> H < s_tail q"
    then have "live cap H (s_tail q) = {}" using C(3) by simp
    then show False using C(10) [of "H mod cap"] cap w by simp
  qed
  have nE: "H \<notin> E" using C(8) [OF order_refl h] w by simp
  then show d: "s_data q (H mod cap) = Some (s_hist q ! H)" using C(9) [OF order_refl h] by simp
  show "score cap q' H E B True"
  proof (rule score_slot [OF c order_refl h])
    show "q' = q\<lparr>s_written := (s_written q)(H mod cap := s_written q (H mod cap)), s_data := (s_data q)(H mod cap := None),
        s_got := s_got q @ [s_data q (H mod cap)]\<rparr>"
      by (simp add: q')
    show "s_got q @ [s_data q (H mod cap)] = map Some (take (if True then H + 1 else H) (s_hist q))"
      using C(1,11) d h by (simp add: take_Suc_conv_app_nth)
  qed (use C(6) nE w in auto)
qed

lemma score_clear:
  assumes c: "score cap q H E B True" and q': "q' = q\<lparr>s_written := (s_written q)(H mod cap := False)\<rparr>"
  shows "score cap q' (H + 1) E B False"
proof -
  note C = scoreD [OF c]
  have h: "H < s_tail q" "H \<notin> E" using C(7) by simp_all
  have l: "live cap H (s_tail q) = insert (H mod cap) (live cap (H + 1) (s_tail q))" by (rule live_first [OF h(1)])
  have n: "H mod cap \<notin> live cap (H + 1) (s_tail q)" using C(2,4) by (intro live_apart) simp
  have "s_data q (H mod cap) = None" using C(9) [OF order_refl h(1)] by simp
  then have "\<not> s_written q' s \<and> s_data q s = None" if "s < cap" "s \<notin> live cap (H + 1) (s_tail q)" for s
    using C(10) [OF that(1)] that(2) l by (auto simp: q')
  moreover have "(s_written q' (x mod cap) \<longleftrightarrow> x \<notin> E)
      \<and> s_data q (x mod cap) = (if x \<in> E \<longrightarrow> x \<in> B then Some (s_hist q ! x) else None)" if x: "H + 1 \<le> x" "x < s_tail q" for x
  proof -
    have "x mod cap \<in> live cap (H + 1) (s_tail q)" unfolding live_mem using x by blast
    then have "x mod cap \<noteq> H mod cap" using n by auto
    then show ?thesis using C(8,9) [of x] x by (auto simp: q')
  qed
  moreover have "H + 1 \<le> x \<and> x < s_tail q" if "x \<in> E" for x using C(5) [OF that] h(2) that by (cases "x = H") auto
  moreover have f: "s_tail q' = s_tail q" "s_head q' = s_head q" "s_hist q' = s_hist q" "s_got q' = s_got q" "s_data q' = s_data q" by (simp_all add: q')
  ultimately show ?thesis using C(1-4,6,11) h(1) unfolding score_def f by (intro conjI allI impI) (simp_all | blast)+
qed

lemma score_store:
  assumes c: "score cap q H E B False" and q': "q' = q\<lparr>s_head := H\<rparr>"
  shows "score cap q' H E B False"
proof -
  have "H \<le> s_tail q" "s_tail q \<le> H + cap" using scoreD(2-4) [OF c] by simp_all
  moreover have f: "s_tail q' = s_tail q" "s_head q' = H" "s_hist q' = s_hist q" "s_written q' = s_written q" "s_data q' = s_data q" "s_got q' = s_got q"
    by (simp_all add: q')
  ultimately show ?thesis using c unfolding score_def f by blast
qed

subsection \<open>What the threads own and rely on\<close>

fun s_own :: "'a spc \<Rightarrow> nat set" where
  "s_own (QWait items tail i) = {tail + i..<tail + length items}"
| "s_own (QBuild items tail i) = {tail + i..<tail + length items}"
| "s_own (QPub items tail i) = {tail + i..<tail + length items}"
| "s_own _ = {}"

fun s_built :: "'a spc \<Rightarrow> nat set" where
  "s_built (QPub items tail i) = {tail + i}"
| "s_built _ = {}"

fun consumed :: "'a spc \<Rightarrow> nat \<Rightarrow> nat" where
  "consumed (CRead want h i out) head = h + i"
| "consumed (CTake want h i out) head = h + i"
| "consumed (CClear want h i out) head = h + i"
| "consumed (CStore h i out) head = h + i"
| "consumed _ head = head"

fun moved_out :: "'a spc \<Rightarrow> bool" where
  "moved_out (CClear want h i out) = True"
| "moved_out _ = False"

definition placed :: "'a mpsc \<Rightarrow> 'a list \<Rightarrow> nat \<Rightarrow> bool" where
  "placed q items tail \<longleftrightarrow> tail + length items \<le> length (s_hist q) \<and> (\<forall>j < length items. s_hist q ! (tail + j) = items ! j)"

definition taking :: "nat \<Rightarrow> 'a mpsc \<Rightarrow> nat \<Rightarrow> nat \<Rightarrow> 'a option list \<Rightarrow> bool" where
  "taking t q h i out \<longleftrightarrow> t = 0 \<and> h = s_head q \<and> length out = i \<and> (\<exists>pre. s_got q = pre @ out)"

fun sok :: "nat \<Rightarrow> nat \<Rightarrow> 'a mpsc \<Rightarrow> 'a spc \<Rightarrow> bool" where
  "sok cap t q SIdle = True"
| "sok cap t q (QHead bulk items tail) = (items \<noteq> [] \<and> (\<not> bulk \<longrightarrow> length items = 1) \<and> tail \<le> s_tail q)"
| "sok cap t q (QReload bulk items tail) = (items \<noteq> [] \<and> (\<not> bulk \<longrightarrow> length items = 1) \<and> tail \<le> s_tail q)"
| "sok cap t q (QCas bulk items tail head n) = (items \<noteq> [] \<and> (\<not> bulk \<longrightarrow> length items = 1) \<and> tail \<le> s_tail q
     \<and> head \<le> s_head q \<and> 0 < n \<and> n \<le> length items \<and> tail + n \<le> head + cap)"
| "sok cap t q (QWait items tail i) = (i \<le> length items \<and> placed q items tail)"
| "sok cap t q (QBuild items tail i) = (i < length items \<and> placed q items tail)"
| "sok cap t q (QPub items tail i) = (i < length items \<and> placed q items tail)"
| "sok cap t q (QRet n) = True"
| "sok cap t q (CRead want h i out) = taking t q h i out"
| "sok cap t q (CTake want h i out) = (taking t q h i out \<and> s_written q ((h + i) mod cap))"
| "sok cap t q (CClear want h i out) = taking t q h (i + 1) out"
| "sok cap t q (CStore h i out) = (0 < i \<and> taking t q h i out)"
| "sok cap t q (CRet out) = (t = 0 \<and> (\<exists>pre. s_got q = pre @ out))"

definition sinv :: "nat \<Rightarrow> 'a mpsc \<Rightarrow> (nat \<Rightarrow> 'a spc) \<Rightarrow> bool" where
  "sinv cap q P \<longleftrightarrow> score cap q (consumed (P 0) (s_head q)) (of_all s_own P) (of_all s_built P) (moved_out (P 0))
     \<and> (\<forall>t t'. t \<noteq> t' \<longrightarrow> s_own (P t) \<inter> s_own (P t') = {}) \<and> (\<forall>t. sok cap t q (P t))"

lemma sinvD:
  assumes "sinv cap q P"
  shows "sok cap t q (P t)" "s_own (P t) \<inter> rest s_own P t = {}"
    "score cap q (consumed (P 0) (s_head q)) (s_own (P t) \<union> rest s_own P t) (s_built (P t) \<union> rest s_built P t) (moved_out (P 0))"
proof -
  show "sok cap t q (P t)" using assms by (simp add: sinv_def)
  show "score cap q (consumed (P 0) (s_head q)) (s_own (P t) \<union> rest s_own P t) (s_built (P t) \<union> rest s_built P t) (moved_out (P 0))"
    using assms by (simp add: sinv_def of_all_rest [of _ _ t])
  have "\<forall>b \<in> - {t}. s_own (P t) \<inter> s_own (P b) = {}" using assms by (simp add: sinv_def)
  then show "s_own (P t) \<inter> rest s_own P t = {}" by (simp add: rest_def Int_UN_distrib)
qed

lemma built_in_own: "sok cap t q pc \<Longrightarrow> s_built pc \<subseteq> s_own pc"
  by (cases pc) auto

lemma rest_built_own: "sinv cap q P \<Longrightarrow> rest s_built P t \<subseteq> rest s_own P t"
  unfolding rest_def using built_in_own sinvD(1) by (metis (no_types, lifting) SUP_mono')

text \<open>The state other threads see only grows, except that the consumer alone moves the head and clears flags.\<close>

definition grows :: "nat \<Rightarrow> nat \<Rightarrow> 'a mpsc \<Rightarrow> 'a mpsc \<Rightarrow> bool" where
  "grows cap t q q' \<longleftrightarrow> s_tail q \<le> s_tail q' \<and> s_head q \<le> s_head q' \<and> (\<exists>ws. s_hist q' = s_hist q @ ws)
     \<and> (t \<noteq> 0 \<longrightarrow> s_head q' = s_head q \<and> s_got q' = s_got q \<and> (\<forall>s. s_written q s \<longrightarrow> s_written q' s))"

lemma sok_grows:
  assumes ok: "sok cap u q pc" and g: "grows cap t q q'" and u: "u \<noteq> t"
  shows "sok cap u q' pc"
proof -
  have p: "placed q' items tail" if "placed q items tail" for items tail
    using that g by (auto simp: placed_def grows_def nth_append)
  have k: "taking u q' h i out" if "taking u q h i out" for h i out
    using that g u by (auto simp: taking_def grows_def)
  show ?thesis using ok g u p k by (cases pc) (auto simp: grows_def taking_def)
qed

lemma sinv_step:
  assumes inv: "sinv cap q P" and g: "grows cap t q q'" and ok: "sok cap t q' pc"
    and core: "score cap q' (consumed ((P(t := pc)) 0) (s_head q')) (s_own pc \<union> rest s_own P t) (s_built pc \<union> rest s_built P t) (moved_out ((P(t := pc)) 0))"
    and dj: "s_own pc \<inter> rest s_own P t = {}"
  shows "sinv cap q' (P(t := pc))"
proof -
  have "sok cap u q' ((P(t := pc)) u)" for u
    using ok sok_grows [OF sinvD(1) [OF inv, of u] g] by (cases "u = t") auto
  moreover have "s_own ((P(t := pc)) a) \<inter> s_own ((P(t := pc)) b) = {}" if "a \<noteq> b" for a b
  proof -
    have "s_own (P a) \<inter> s_own (P b) = {}" using inv that by (simp add: sinv_def)
    moreover have "s_own pc \<inter> s_own (P x) = {}" if "x \<noteq> t" for x using dj that unfolding rest_def by blast
    ultimately show ?thesis using that by (cases "a = t"; cases "b = t") (auto simp: Int_commute)
  qed
  moreover have "score cap q' (consumed ((P(t := pc)) 0) (s_head q')) (of_all s_own (P(t := pc))) (of_all s_built (P(t := pc))) (moved_out ((P(t := pc)) 0))"
    using core unfolding of_all_upd .
  ultimately show ?thesis unfolding sinv_def by (intro conjI) simp_all
qed

text \<open>A step that only changes the thread's control state.\<close>

lemma sinv_quiet:
  assumes inv: "sinv cap q P" and ok: "sok cap t q pc" and same: "s_own pc = s_own (P t)" "s_built pc = s_built (P t)"
    and c: "t = 0 \<Longrightarrow> consumed pc (s_head q) = consumed (P 0) (s_head q) \<and> moved_out pc = moved_out (P 0)"
  shows "sinv cap q (P(t := pc))"
proof (rule sinv_step [OF inv _ ok])
  have "consumed ((P(t := pc)) 0) (s_head q) = consumed (P 0) (s_head q)" "moved_out ((P(t := pc)) 0) = moved_out (P 0)" using c by auto
  then show "score cap q (consumed ((P(t := pc)) 0) (s_head q)) (s_own pc \<union> rest s_own P t) (s_built pc \<union> rest s_built P t) (moved_out ((P(t := pc)) 0))"
    using sinvD(3) [OF inv, of t] unfolding same by simp
  show "s_own pc \<inter> rest s_own P t = {}" unfolding same by (rule sinvD(2) [OF inv])
qed (simp add: grows_def)

subsection \<open>The steps\<close>

lemma available_cases:
  assumes "tail < W64 - cap" "head < W64 - cap"
  shows "available cap tail head = (if head \<le> tail then cap - (tail - head) else 0)"
proof (cases "head \<le> tail")
  case True
  then show ?thesis using assms wsub_small [of head tail] by (auto simp: available_def Let_def)
next
  case False
  have m: "head mod W64 = head" using assms by simp
  have "tail + (W64 - head) < W64" using False assms by linarith
  then have "wsub tail head = tail + (W64 - head)" unfolding wsub_def m by simp
  moreover have "cap \<le> tail + (W64 - head)" using assms by linarith
  ultimately show ?thesis using False by (simp add: available_def)
qed

lemma inv_bounds:
  assumes "sinv cap q P" "length (s_hist q) + cap < W64"
  shows "s_tail q < W64 - cap" "s_head q \<le> s_tail q" "s_tail q \<le> s_head q + cap" "s_tail q = length (s_hist q)"
    "s_head q \<le> consumed (P 0) (s_head q)" "consumed (P 0) (s_head q) \<le> s_tail q"
proof -
  note C = scoreD(1-4) [OF sinvD(3) [OF assms(1)]]
  show "s_head q \<le> consumed (P 0) (s_head q)" "consumed (P 0) (s_head q) \<le> s_tail q" "s_tail q = length (s_hist q)" "s_tail q \<le> s_head q + cap" by (fact C)+
  then show "s_tail q < W64 - cap" "s_head q \<le> s_tail q" using assms(2) by simp_all
qed

lemma sok_check:
  assumes b: "s_tail q < W64 - cap" and items: "items \<noteq> []" "\<not> bulk \<longrightarrow> length items = 1" and tail: "tail \<le> s_tail q"
    and h: "head \<le> s_head q" "s_head q \<le> s_tail q"
  shows "sok cap t q (reserve_check cap bulk items tail head)"
    "0 < available cap tail head \<Longrightarrow> sok cap t q (QCas bulk items tail head (min (length items) (available cap tail head)))"
proof -
  have a: "available cap tail head = (if head \<le> tail then cap - (tail - head) else 0)" using b tail h by (intro available_cases) auto
  show c: "sok cap t q (QCas bulk items tail head (min (length items) (available cap tail head)))" if "0 < available cap tail head"
  proof -
    have "tail + min (length items) (available cap tail head) \<le> head + cap" using that unfolding a by (auto split: if_splits)
    then show ?thesis using that items tail h by simp
  qed
  have "0 < (if bulk then length items else 1)" using items(1) by simp
  then show "sok cap t q (reserve_check cap bulk items tail head)"
    using c items tail unfolding reserve_check_def by (cases "available cap tail head < (if bulk then length items else 1)") auto
qed

lemma step_reserve:
  assumes inv: "sinv cap q P" and cap: "0 < cap" and pc: "P t = QCas bulk items tail head n" and s: "reserve_cas cap weak bulk items tail head n q = (pc', q')"
    and b: "length (s_hist q') + cap < W64"
  shows "sinv cap q' (P(t := pc'))"
proof -
  have w: "items \<noteq> []" "\<not> bulk \<longrightarrow> length items = 1" "tail \<le> s_tail q" "head \<le> s_head q" "0 < n" "n \<le> length items" "tail + n \<le> head + cap"
    using sinvD(1) [OF inv, of t] pc by simp_all
  have hq: "length (s_hist q) \<le> length (s_hist q')" using s by (auto simp: reserve_cas_def split: if_splits)
  note B = inv_bounds [OF inv, of, OF le_less_trans [OF add_right_mono [OF hq] b]]
  note core = sinvD(3) [OF inv, of t]
  show ?thesis
  proof (cases "s_tail q = tail \<and> \<not> weak")
    case False
    then have q': "q' = q" "pc' = reserve_check cap bulk items (s_tail q) head" using s unfolding reserve_cas_def by auto
    have "s_own pc' = {}" "s_built pc' = {}" "\<And>h. consumed pc' h = h" "\<not> moved_out pc'" unfolding q' reserve_check_def by (simp_all split: if_split)
    then show ?thesis using sinv_quiet [OF inv, of t pc'] sok_check(1) [OF B(1) w(1,2) order_refl w(4) B(2)] pc q' by (cases "t = 0") auto
  next
    case True
    have "s_tail q + n < W64" using w(4,7) True B(1,2) by linarith
    then have wa: "wadd tail n = s_tail q + n" using True by (simp add: wadd_small)
    have q': "pc' = QWait (take n items) tail 0" "q' = q\<lparr>s_tail := s_tail q + n, s_hist := s_hist q @ take n items\<rparr>"
      using s True wa by (simp_all add: reserve_cas_def)
    have room: "s_tail q + n \<le> s_head q + cap" using w(4,7) True by simp
    have len: "length (take n items) = n" using w(6) by simp
    have "score cap q' (consumed (P 0) (s_head q)) ((s_own (P t) \<union> rest s_own P t) \<union> {s_tail q..<s_tail q + n}) (s_built (P t) \<union> rest s_built P t) (moved_out (P 0))"
      by (rule score_reserve [OF core cap room len q'(2)])
    moreover have "consumed ((P(t := pc')) 0) (s_head q') = consumed (P 0) (s_head q)" "moved_out ((P(t := pc')) 0) = moved_out (P 0)"
      using pc by (auto simp: q')
    ultimately have core': "score cap q' (consumed ((P(t := pc')) 0) (s_head q')) (s_own pc' \<union> rest s_own P t) (s_built pc' \<union> rest s_built P t) (moved_out ((P(t := pc')) 0))"
      using pc True len by (simp add: q'(1) Un_commute)
    have lt: "p < s_tail q" if "p \<in> rest s_own P t" for p using scoreD(5) [OF core, of p] that by simp
    have dj: "s_own pc' \<inter> rest s_own P t = {}" using True by (auto simp: q' dest: lt)
    show ?thesis
      by (rule sinv_step [OF inv _ _ core' dj]) (use B(4) True w(6) in \<open>auto simp: grows_def q' placed_def nth_append\<close>)
  qed
qed

lemma not_written:
  assumes cap: "pow2 cap" and inv: "sinv cap q P" and b: "length (s_hist q) + cap < W64"
    and p: "placed q items tail" "i < length items" and own: "tail + i \<in> s_own (P t)"
  shows "slot_of cap (wadd tail i) = (tail + i) mod cap" "\<not> s_written q ((tail + i) mod cap)"
proof -
  note core = sinvD(3) [OF inv, of t] and B = inv_bounds [OF inv b]
  have "tail + i < W64" using p B(1,4) unfolding placed_def by linarith
  then show "slot_of cap (wadd tail i) = (tail + i) mod cap" using slot_mod [OF cap] by (simp add: wadd_small)
  have "tail + i \<in> s_own (P t) \<union> rest s_own P t" using own by simp
  then show "\<not> s_written q ((tail + i) mod cap)" using scoreD(5,8) [OF core] by blast
qed

lemma step_wait:
  assumes cap: "pow2 cap" and inv: "sinv cap q P" and b: "length (s_hist q) + cap < W64"
    and pc: "P t = QWait items tail i"
  shows "sinv cap q (P(t := place_wait cap items tail i q))" "i < length items \<Longrightarrow> \<not> s_written q (slot_of cap (wadd tail i))"
proof -
  have w: "i \<le> length items" "placed q items tail" using sinvD(1) [OF inv, of t] pc by simp_all
  show n: "\<not> s_written q (slot_of cap (wadd tail i))" if "i < length items"
    using not_written [OF cap inv b w(2) that, of t] pc that by simp
  show "sinv cap q (P(t := place_wait cap items tail i q))"
    by (rule sinv_quiet [OF inv]) (use w n pc in \<open>auto simp: place_wait_def\<close>)
qed

lemma step_build:
  assumes cap: "pow2 cap" and inv: "sinv cap q P" and b: "length (s_hist q) + cap < W64"
    and pc: "P t = QBuild items tail i" and s: "place_build cap items tail i q = (pc', q')"
  shows "sinv cap q' (P(t := pc'))" "s_data q (slot_of cap (wadd tail i)) = None"
proof -
  have w: "i < length items" "placed q items tail" using sinvD(1) [OF inv, of t] pc by simp_all
  note sl = not_written(1) [OF cap inv b w(2,1), of t] and core = sinvD(3) [OF inv, of t]
  have o: "tail + i \<in> s_own (P t)" using pc w(1) by simp
  have nB: "tail + i \<notin> s_built (P t) \<union> rest s_built P t" using o sinvD(2) [OF inv, of t] rest_built_own [OF inv, of t] unfolding pc s_built.simps by blast
  have h: "s_hist q ! (tail + i) = items ! i" using w by (simp add: placed_def)
  have q': "pc' = QPub items tail i" "q' = q\<lparr>s_data := (s_data q)((tail + i) mod cap := Some (items ! i))\<rparr>"
    using s sl [OF o] by (simp_all add: place_build_def)
  have T: "score cap q' (consumed (P 0) (s_head q)) (s_own (P t) \<union> rest s_own P t) (insert (tail + i) (s_built (P t) \<union> rest s_built P t)) (moved_out (P 0))"
    "s_data q ((tail + i) mod cap) = None"
    using score_build [OF core _ nB h q'(2)] o by auto
  show "s_data q (slot_of cap (wadd tail i)) = None" using T(2) sl [OF o] by simp
  have core': "score cap q' (consumed ((P(t := pc')) 0) (s_head q')) (s_own pc' \<union> rest s_own P t) (s_built pc' \<union> rest s_built P t) (moved_out ((P(t := pc')) 0))"
    using T(1) pc by (cases "t = 0") (simp_all add: q')
  show "sinv cap q' (P(t := pc'))"
    by (rule sinv_step [OF inv _ _ core']) (use sinvD(2) [OF inv, of t] pc w in \<open>auto simp: grows_def q' placed_def\<close>)
qed

lemma step_publish:
  assumes cap: "pow2 cap" and inv: "sinv cap q P" and b: "length (s_hist q) + cap < W64"
    and pc: "P t = QPub items tail i" and s: "place_publish cap items tail i q = (pc', q')"
  shows "sinv cap q' (P(t := pc'))"
proof -
  have w: "i < length items" "placed q items tail" using sinvD(1) [OF inv, of t] pc by simp_all
  note sl = not_written(1) [OF cap inv b w(2,1), of t] and core = sinvD(3) [OF inv, of t]
  have o: "tail + i \<in> s_own (P t)" using pc w(1) by simp
  have n: "tail + i \<notin> rest s_own P t" using o sinvD(2) [OF inv, of t] by blast
  then have nb: "tail + i \<notin> rest s_built P t" using rest_built_own [OF inv, of t] by blast
  have q': "pc' = QWait items tail (i + 1)" "q' = q\<lparr>s_written := (s_written q)((tail + i) mod cap := True)\<rparr>"
    using s sl [OF o] by (simp_all add: place_publish_def)
  have "tail + i \<in> s_built (P t) \<union> rest s_built P t" using pc by simp
  from score_publish [OF core this q'(2)]
  have "score cap q' (consumed (P 0) (s_head q)) (s_own (P t) \<union> rest s_own P t - {tail + i}) (s_built (P t) \<union> rest s_built P t - {tail + i}) (moved_out (P 0))" .
  moreover have "s_own (P t) \<union> rest s_own P t - {tail + i} = s_own pc' \<union> rest s_own P t" using n pc by (auto simp: q')
  moreover have "s_built (P t) \<union> rest s_built P t - {tail + i} = s_built pc' \<union> rest s_built P t" using nb pc by (auto simp: q')
  ultimately have core': "score cap q' (consumed ((P(t := pc')) 0) (s_head q')) (s_own pc' \<union> rest s_own P t) (s_built pc' \<union> rest s_built P t) (moved_out ((P(t := pc')) 0))"
    using pc by (cases "t = 0") (simp_all add: q')
  have "s_own pc' \<subseteq> s_own (P t)" using pc by (auto simp: q')
  then have dj: "s_own pc' \<inter> rest s_own P t = {}" using sinvD(2) [OF inv, of t] by blast
  show ?thesis
    by (rule sinv_step [OF inv _ _ core' dj]) (use pc w in \<open>auto simp: grows_def q' placed_def\<close>)
qed

lemma consumer_slot:
  assumes cap: "pow2 cap" and inv: "sinv cap q P" and b: "length (s_hist q) + cap < W64" and h: "consumed (P 0) (s_head q) = h + i"
  shows "slot_of cap (wadd h i) = (h + i) mod cap"
proof -
  have "h + i < W64" using inv_bounds [OF inv b] h by linarith
  then show ?thesis using slot_mod [OF cap] by (simp add: wadd_small)
qed

lemma step_read:
  assumes cap: "pow2 cap" and inv: "sinv cap q P" and b: "length (s_hist q) + cap < W64" and pc: "P t = CRead want h i out"
  shows "sinv cap q (P(t := consume_read cap want h i out q))"
proof -
  have w: "taking t q h i out" using sinvD(1) [OF inv, of t] pc by simp
  then have t: "t = 0" "h = s_head q" "length out = i" by (simp_all add: taking_def)
  have sl: "slot_of cap (wadd h i) = (h + i) mod cap" using consumer_slot [OF cap inv b] pc t(1) by simp
  have cr: "consume_read cap want h i out q =
      (if i < want \<and> s_written q ((h + i) mod cap) then CTake want h i out else if i > 0 then CStore h i out else CRet out)"
    by (simp add: consume_read_def sl)
  show ?thesis unfolding cr by (rule sinv_quiet [OF inv]) (use w t pc in \<open>auto simp: taking_def\<close>)
qed

lemma step_take:
  assumes cap: "pow2 cap" and inv: "sinv cap q P" and b: "length (s_hist q) + cap < W64" and pc: "P t = CTake want h i out"
    and s: "consume_take cap want h i out q = (pc', q')"
  shows "sinv cap q' (P(t := pc'))" "s_data q (slot_of cap (wadd h i)) = Some (s_hist q ! (h + i))"
proof -
  have w: "taking t q h i out" "s_written q ((h + i) mod cap)" using sinvD(1) [OF inv, of t] pc by simp_all
  then have t: "t = 0" "h = s_head q" "length out = i" by (simp_all add: taking_def)
  have sl: "slot_of cap (wadd h i) = (h + i) mod cap" using consumer_slot [OF cap inv b] pc t(1) by simp
  let ?v = "s_data q ((h + i) mod cap)"
  have q': "pc' = CClear want h i (out @ [?v])" "q' = q\<lparr>s_data := (s_data q)((h + i) mod cap := None), s_got := s_got q @ [?v]\<rparr>"
    using s by (simp_all add: consume_take_def sl Let_def)
  have c0: "0 < cap" using cap by simp
  have core: "score cap q (h + i) (s_own (P t) \<union> rest s_own P t) (s_built (P t) \<union> rest s_built P t) False" using sinvD(3) [OF inv, of t] pc t(1) by simp
  note T = score_take [OF core c0 w(2) q'(2)]
  show "s_data q (slot_of cap (wadd h i)) = Some (s_hist q ! (h + i))" unfolding sl by (rule T(2))
  have core': "score cap q' (consumed ((P(t := pc')) 0) (s_head q')) (s_own pc' \<union> rest s_own P t) (s_built pc' \<union> rest s_built P t) (moved_out ((P(t := pc')) 0))"
    using T(1) pc t(1) by (simp add: q')
  show "sinv cap q' (P(t := pc'))"
    by (rule sinv_step [OF inv _ _ core']) (use w t in \<open>auto simp: grows_def q' taking_def\<close>)
qed

lemma step_clear:
  assumes cap: "pow2 cap" and inv: "sinv cap q P" and b: "length (s_hist q) + cap < W64" and pc: "P t = CClear want h i out"
    and s: "consume_clear cap want h i out q = (pc', q')"
  shows "sinv cap q' (P(t := pc'))"
proof -
  have w: "taking t q h (i + 1) out" using sinvD(1) [OF inv, of t] pc by simp
  then have t: "t = 0" "h = s_head q" "length out = i + 1" by (simp_all add: taking_def)
  have sl: "slot_of cap (wadd h i) = (h + i) mod cap" using consumer_slot [OF cap inv b] pc t(1) by simp
  have q': "pc' = CRead want h (i + 1) out" "q' = q\<lparr>s_written := (s_written q)((h + i) mod cap := False)\<rparr>"
    using s by (simp_all add: consume_clear_def sl)
  have core: "score cap q (h + i) (s_own (P t) \<union> rest s_own P t) (s_built (P t) \<union> rest s_built P t) True" using sinvD(3) [OF inv, of t] pc t(1) by simp
  have core': "score cap q' (consumed ((P(t := pc')) 0) (s_head q')) (s_own pc' \<union> rest s_own P t) (s_built pc' \<union> rest s_built P t) (moved_out ((P(t := pc')) 0))"
    using score_clear [OF core q'(2)] pc t(1) by (simp add: q')
  show ?thesis by (rule sinv_step [OF inv _ _ core']) (use w t in \<open>auto simp: grows_def q' taking_def\<close>)
qed

lemma step_store:
  assumes inv: "sinv cap q P" and b: "length (s_hist q) + cap < W64" and pc: "P t = CStore h i out" and s: "consume_store h i out q = (pc', q')"
  shows "sinv cap q' (P(t := pc'))"
proof -
  have w: "taking t q h i out" using sinvD(1) [OF inv, of t] pc by simp
  then have t: "t = 0" "h = s_head q" "length out = i" by (simp_all add: taking_def)
  have "h + i < W64" using inv_bounds [OF inv b] pc t(1) by simp
  then have q': "pc' = CRet out" "q' = q\<lparr>s_head := h + i\<rparr>" using s by (simp_all add: consume_store_def wadd_small)
  have core: "score cap q (h + i) (s_own (P t) \<union> rest s_own P t) (s_built (P t) \<union> rest s_built P t) False" using sinvD(3) [OF inv, of t] pc t(1) by simp
  have core': "score cap q' (consumed ((P(t := pc')) 0) (s_head q')) (s_own pc' \<union> rest s_own P t) (s_built pc' \<union> rest s_built P t) (moved_out ((P(t := pc')) 0))"
    using score_store [OF core q'(2)] pc t(1) by (simp add: q')
  show ?thesis by (rule sinv_step [OF inv _ _ core']) (use w t in \<open>auto simp: grows_def q' taking_def\<close>)
qed

lemma s_step_hist:
  assumes "s_step cap weak pc q = (pc', q')"
  shows "length (s_hist q) \<le> length (s_hist q')"
  using assms by (cases pc) (auto simp: reserve_cas_def place_build_def place_publish_def consume_take_def consume_clear_def consume_store_def Let_def split: if_splits)

lemma sinv_move:
  assumes cap: "pow2 cap" and inv: "sinv cap q P" and s: "s_step cap weak (P t) q = (pc', q')" and b: "length (s_hist q') + cap < W64"
  shows "sinv cap q' (P(t := pc'))"
proof -
  have b0: "length (s_hist q) + cap < W64" using s_step_hist [OF s] b by simp
  have c0: "0 < cap" using cap by simp
  note B = inv_bounds [OF inv b0] and ok = sinvD(1) [OF inv, of t]
  show ?thesis
  proof (cases "P t")
    case (QHead bulk items tail)
    then have q': "q' = q" "pc' = reserve_check cap bulk items tail (s_head q)" using s by auto
    have "s_own pc' = {}" "s_built pc' = {}" "\<And>h. consumed pc' h = h" "\<not> moved_out pc'" unfolding q' reserve_check_def by (simp_all split: if_split)
    then show ?thesis using sinv_quiet [OF inv, of t pc'] sok_check(1) [OF B(1) _ _ _ order_refl B(2)] ok QHead q' by (cases "t = 0") auto
  next
    case (QReload bulk items tail)
    then have q': "q' = q" "pc' = reserve_reload cap bulk items tail q" using s by auto
    have "s_own pc' = {}" "s_built pc' = {}" "\<And>h. consumed pc' h = h" "\<not> moved_out pc'" unfolding q' reserve_reload_def by (simp_all split: if_split)
    moreover have "sok cap t q pc'"
      using sok_check(2) [OF B(1) _ _ _ order_refl B(2), of items bulk tail] ok QReload unfolding q' reserve_reload_def by auto
    ultimately show ?thesis using sinv_quiet [OF inv, of t pc'] QReload q' by (cases "t = 0") auto
  next
    case (QCas bulk items tail head n)
    then show ?thesis using step_reserve [OF inv c0 QCas _ b] s by simp
  next
    case (QWait items tail i)
    then show ?thesis using step_wait(1) [OF cap inv b0 QWait] s by auto
  next
    case (QBuild items tail i)
    then show ?thesis using step_build(1) [OF cap inv b0 QBuild] s by simp
  next
    case (QPub items tail i)
    then show ?thesis using step_publish [OF cap inv b0 QPub] s by simp
  next
    case (CRead want h i out)
    then show ?thesis using step_read [OF cap inv b0 CRead] s by auto
  next
    case (CTake want h i out)
    then show ?thesis using step_take(1) [OF cap inv b0 CTake] s by simp
  next
    case (CClear want h i out)
    then show ?thesis using step_clear [OF cap inv b0 CClear] s by simp
  next
    case (CStore h i out)
    then show ?thesis using step_store [OF inv b0 CStore] s by simp
  qed (use s inv in \<open>auto simp: fun_upd_idem\<close>)
qed

lemma s_rest_owns: "s_rest pc \<Longrightarrow> s_own pc = {} \<and> s_built pc = {} \<and> consumed pc h = h \<and> \<not> moved_out pc"
  by (cases pc) auto

lemma sinv_run:
  assumes "s_run cap q P" "pow2 cap" "length (s_hist q) + cap < W64"
  shows "sinv cap q P"
  using assms(1,3)
proof (induction rule: s_run.induct)
  case s_init
  then show ?case by (simp add: sinv_def score_def mpsc_init_def of_all_def)
next
  case (s_push q P t v)
  then show ?case using sinv_quiet [of cap q P t "mpsc_push v q"] s_rest_owns [of "P t"] by (cases "t = 0") (auto simp: mpsc_push_def fun_upd_def)
next
  case (s_pushBulk q P t vs)
  then show ?case using sinv_quiet [of cap q P t "mpsc_pushBulk vs q"] s_rest_owns [of "P t"] by (cases "t = 0") (auto simp: mpsc_pushBulk_def fun_upd_def)
next
  case (s_pop q P)
  then show ?case using sinv_quiet [of cap q P 0 "mpsc_pop q"] s_rest_owns [of "P 0"] by (auto simp: mpsc_pop_def taking_def fun_upd_def)
next
  case (s_popBulk q P want)
  then show ?case using sinv_quiet [of cap q P 0 "mpsc_popBulk want q"] s_rest_owns [of "P 0"] by (auto simp: mpsc_popBulk_def taking_def fun_upd_def)
next
  case (s_move q P weak t pc q')
  then have "sinv cap q P" using s_step_hist [OF s_move.hyps(2)] by simp
  then show ?case using sinv_move [OF assms(2), of q P weak t pc q'] s_move by (simp add: fun_upd_def)
qed

subsection \<open>The properties\<close>

lemma destroy_written_data:
  "s_data (destroy_written cap i n q) s = (if \<exists>k < n. slot_of cap (i + k) = s \<and> s_written q s then None else s_data q s)"
proof (induction n arbitrary: i q)
  case (Suc n)
  have k: "(\<exists>k < Suc n. slot_of cap (i + k) = s) \<longleftrightarrow> slot_of cap i = s \<or> (\<exists>k < n. slot_of cap (i + 1 + k) = s)"
    by (simp add: Ex_less_Suc2)
  show ?case by (cases "s_written q s"; cases "slot_of cap i = s"; use k Suc.IH in auto)
qed simp

lemma mpsc_destroy_clears:
  assumes "sinv cap q P" "pow2 cap" "\<forall>t. s_rest (P t)" "s < cap"
  shows "s_data (mpsc_destroy cap q) s = None" "length (s_got q) = s_head q"
proof -
  have n: "s_own (P t) = {}" "s_built (P t) = {}" "consumed (P 0) (s_head q) = s_head q" "\<not> moved_out (P 0)" for t
    using s_rest_owns assms(3) by blast+
  have core: "score cap q (s_head q) {} {} False" using sinvD(3) [OF assms(1), of 0] n by (simp add: rest_def)
  note C = scoreD [OF core]
  show "length (s_got q) = s_head q" using C(1,3,11) by simp
  show "s_data (mpsc_destroy cap q) s = None"
  proof (cases "s \<in> live cap (s_head q) (s_tail q)")
    case False
    then have "s_data q s = None" using C(10) assms(4) by blast
    then show ?thesis by (simp add: mpsc_destroy_def destroy_written_data)
  next
    case True
    then obtain p where p: "s_head q \<le> p" "p < s_tail q" "p mod cap = s" unfolding live_def by auto
    then have "s_written q s" using C(8) [OF p(1,2)] by simp
    then have "\<exists>k < s_tail q - s_head q. slot_of cap (s_head q + k) = s \<and> s_written q s"
      unfolding slot_mod [OF assms(2)] using p by (intro exI [of _ "p - s_head q"]) auto
    then show ?thesis by (simp add: mpsc_destroy_def destroy_written_data)
  qed
qed

text \<open>
  C17. The queue of many producers and one consumer is first in, first out, in every interleaving: the
  values the consumer has taken are those first reserved, in that order, each taken once; the values
  of one call keep consecutive places; a call of the consumer returns the values it took last; the
  queue never holds more than its capacity. A value is only built in storage that holds no object
  and only moved out of storage that holds the right one, a producer never waits for its slot, and
  when no thread is inside a call the destructor leaves no object behind.
\<close>

theorem mpsc_fifo:
  assumes "s_run cap q P" "pow2 cap" "length (s_hist q) + cap < W64"
  shows "(\<exists>k. s_got q = map Some (take k (s_hist q)) \<and> s_head q \<le> k \<and> k \<le> length (s_hist q))
    \<and> s_tail q = length (s_hist q) \<and> s_tail q \<le> s_head q + cap
    \<and> (\<forall>t out. P t = CRet out \<longrightarrow> (\<exists>pre. s_got q = pre @ out))
    \<and> (\<forall>t vs u i. P t = QWait vs u i \<longrightarrow> take (length vs) (drop u (s_hist q)) = vs \<and> (i < length vs \<longrightarrow> \<not> s_written q (slot_of cap (wadd u i))))
    \<and> (\<forall>t vs u i. P t = QBuild vs u i \<longrightarrow> s_data q (slot_of cap (wadd u i)) = None)
    \<and> (\<forall>t want h i out. P t = CTake want h i out \<longrightarrow> s_data q (slot_of cap (wadd h i)) = Some (s_hist q ! (h + i)))
    \<and> ((\<forall>t. s_rest (P t)) \<longrightarrow> length (s_got q) = s_head q \<and> (\<forall>s < cap. s_data (mpsc_destroy cap q) s = None))"
proof -
  have inv: "sinv cap q P" by (rule sinv_run [OF assms])
  note C = scoreD [OF sinvD(3) [OF inv, of 0]] and ok = sinvD(1) [OF inv]
  let ?k = "if moved_out (P 0) then consumed (P 0) (s_head q) + 1 else consumed (P 0) (s_head q)"
  have k: "s_got q = map Some (take ?k (s_hist q)) \<and> s_head q \<le> ?k \<and> ?k \<le> length (s_hist q)" using C(1-3,7,11) by auto
  have pl: "take (length vs) (drop u (s_hist q)) = vs" if "placed q vs u" for vs u
    using that by (auto simp: placed_def intro!: nth_equalityI)
  have "take (length vs) (drop u (s_hist q)) = vs \<and> (i < length vs \<longrightarrow> \<not> s_written q (slot_of cap (wadd u i)))" if "P t = QWait vs u i" for t vs u i
    using step_wait(2) [OF assms(2) inv assms(3) that] pl ok [of t] that by simp
  moreover have "s_data q (slot_of cap (wadd u i)) = None" if "P t = QBuild vs u i" for t vs u i
    using step_build(2) [OF assms(2) inv assms(3) that prod.collapse [symmetric]] .
  moreover have "s_data q (slot_of cap (wadd h i)) = Some (s_hist q ! (h + i))" if "P t = CTake want h i out" for t want h i out
    using step_take(2) [OF assms(2) inv assms(3) that prod.collapse [symmetric]] .
  moreover have "\<exists>pre. s_got q = pre @ out" if "P t = CRet out" for t out using ok [of t] that by simp
  moreover have "length (s_got q) = s_head q \<and> (\<forall>s < cap. s_data (mpsc_destroy cap q) s = None)" if "\<forall>t. s_rest (P t)"
    using mpsc_destroy_clears [OF inv assms(2) that] assms(2) pow2_pos by blast
  ultimately show ?thesis using k C(1,4) by blast
qed

text \<open>A producer reads the tail, another one pushes a value, the consumer takes it, and the first
  producer goes on: the queue is empty and its push fails.\<close>

definition overtaken :: "(nat \<Rightarrow> nat spc)" where
  "overtaken = (\<lambda>_. SIdle)(1 := QReload False [5] 0, 2 := QRet 1, 0 := CRet [Some 7])"

definition overtaken_queue :: "nat mpsc" where
  "overtaken_queue = \<lparr>s_head = 1, s_tail = 1, s_written = (\<lambda>_. False)(0 := True, 0 := False), s_data = (\<lambda>_. None)(0 := Some 7, 0 := None),
     s_hist = [7], s_got = [Some 7]\<rparr>"

definition mv :: "nat \<Rightarrow> nat mpsc \<times> (nat \<Rightarrow> nat spc) \<Rightarrow> nat mpsc \<times> (nat \<Rightarrow> nat spc)" where
  "mv t s = (case s_step 1024 False (snd s t) (fst s) of (pc, q) \<Rightarrow> (q, (snd s)(t := pc)))"

lemma mv_run: "s_run 1024 (fst s) (snd s) \<Longrightarrow> s_run 1024 (fst (mv t s)) (snd (mv t s))"
  using s_run.s_move [of 1024 "fst s" "snd s" False t] by (cases "s_step 1024 False (snd s t) (fst s)") (auto simp: mv_def)

lemma overtaken_run: "s_run 1024 overtaken_queue overtaken"
proof -
  have "s_run 1024 mpsc_init (\<lambda>_. SIdle :: nat spc)" by (rule s_run.s_init)
  then have "s_run 1024 mpsc_init ((\<lambda>_. SIdle)(1 := mpsc_push (5 :: nat) mpsc_init))" by (rule s_run.s_push) simp
  then have "s_run 1024 mpsc_init ((\<lambda>_. SIdle)(1 := mpsc_push (5 :: nat) mpsc_init, 2 := mpsc_push 7 mpsc_init))" by (rule s_run.s_push) simp
  then have "s_run 1024 (fst (mpsc_init, (\<lambda>_. SIdle)(1 := mpsc_push (5 :: nat) mpsc_init, 2 := mpsc_push 7 mpsc_init)))
      (snd (mpsc_init, (\<lambda>_. SIdle)(1 := mpsc_push (5 :: nat) mpsc_init, 2 := mpsc_push 7 mpsc_init)))" by simp
  note mv_run [OF mv_run [OF mv_run [OF mv_run [OF mv_run [OF mv_run [OF this]]]]], of 2 2 2 2 2 2]
  moreover have "mv 2 (mv 2 (mv 2 (mv 2 (mv 2 (mv 2 (mpsc_init, (\<lambda>_. SIdle)(1 := mpsc_push (5 :: nat) mpsc_init, 2 := mpsc_push 7 mpsc_init)))))))
    = (\<lparr>s_head = 0, s_tail = 1, s_written = (\<lambda>_. False)(0 := True), s_data = (\<lambda>_. None)(0 := Some 7), s_hist = [7], s_got = []\<rparr>,
       (\<lambda>_. SIdle)(1 := QHead False [5] 0, 2 := QRet 1))" (is "_ = (?q, ?P)")
    by (simp add: mv_def mpsc_init_def mpsc_push_def reserve_check_def reserve_cas_def available_def place_wait_def place_build_def place_publish_def
        wsub_def wadd_def W64_def slot_of_def)
  ultimately have "s_run 1024 ?q ?P" by simp
  then have "s_run 1024 ?q (?P(0 := mpsc_pop ?q))" by (rule s_run.s_pop) simp
  then have "s_run 1024 (fst (?q, ?P(0 := mpsc_pop ?q))) (snd (?q, ?P(0 := mpsc_pop ?q)))" by simp
  note mv_run [OF mv_run [OF mv_run [OF mv_run [OF mv_run [OF mv_run [OF this]]]]], of 1 0 0 0 0 0]
  moreover have "mv 1 (mv 0 (mv 0 (mv 0 (mv 0 (mv 0 (?q, ?P(0 := mpsc_pop ?q))))))) = (overtaken_queue, overtaken)"
    by (simp add: mv_def mpsc_pop_def reserve_check_def available_def consume_read_def consume_take_def consume_clear_def consume_store_def
        wsub_def wadd_def W64_def slot_of_def overtaken_def overtaken_queue_def fun_upd_twist Let_def)
  ultimately show ?thesis by simp
qed

text \<open>
  C18. A push fails exactly when, at its second look at the head, every slot holds a value or the
  consumer has passed the tail the push began with. In the second case the queue need not be full: a
  push into an empty queue fails when another thread has pushed and the consumer has popped since it
  read the tail.
\<close>

theorem mpsc_push_failure:
  assumes "s_run cap q P" "pow2 cap" "length (s_hist q) + cap < W64" "P t = QReload bulk items tail"
  shows "reserve_reload cap bulk items tail q = QRet 0 \<longleftrightarrow> tail = s_tail q \<and> s_tail q = s_head q + cap \<or> tail < s_head q"
proof -
  have inv: "sinv cap q P" by (rule sinv_run [OF assms(1-3)])
  note B = inv_bounds [OF inv assms(3)]
  have t: "tail \<le> s_tail q" using sinvD(1) [OF inv, of t] assms(4) by simp
  have "available cap tail (s_head q) = (if s_head q \<le> tail then cap - (tail - s_head q) else 0)"
    using B(1,2) t by (intro available_cases) auto
  then show ?thesis using B(2,3) t assms(2) pow2_pos [of cap] by (auto simp: reserve_reload_def)
qed

theorem mpsc_push_failure_witness:
  "s_run 1024 overtaken_queue overtaken \<and> s_head overtaken_queue = s_tail overtaken_queue \<and> overtaken 1 = QReload False [5] 0
     \<and> reserve_reload 1024 False [5] 0 overtaken_queue = QRet 0"
proof -
  have p: "pow2 1024" unfolding pow2_def by (intro exI [of _ 10]) simp
  have "reserve_reload 1024 False [5] 0 overtaken_queue = QRet 0"
    using mpsc_push_failure [OF overtaken_run p, of 1 False "[5]" 0] by (simp add: overtaken_queue_def overtaken_def W64_def)
  then show ?thesis using overtaken_run by (simp add: overtaken_queue_def overtaken_def)
qed

theorem mpsc_fifo_witness:
  "s_got overtaken_queue = map Some (s_hist overtaken_queue) \<and> (\<exists>k. s_got overtaken_queue = map Some (take k (s_hist overtaken_queue)))"
proof -
  have p: "pow2 1024" unfolding pow2_def by (intro exI [of _ 10]) simp
  have "length (s_hist overtaken_queue) + 1024 < W64" by (simp add: overtaken_queue_def W64_def)
  from conjunct1 [OF mpsc_fifo [OF overtaken_run p this]]
  have "\<exists>k. s_got overtaken_queue = map Some (take k (s_hist overtaken_queue))" by blast
  then show ?thesis by (simp add: overtaken_queue_def)
qed

end
