(* ===== verification/LoopJobs.thy ===== *)
theory LoopJobs
  imports Prelude
begin

text \<open>
  The task queue of the event loop (\<open>KzNet/EventLoop.h\<close>, \<open>KzNet/EventLoop.cpp\<close>): jobs come from any
  thread through a bounded lock-free queue (its own model is \<open>MpscQueue\<close>; here it is the list of its
  reserved places, each published or not yet) or, when that is full, through a locked overflow
  vector; the loop thread, number \<open>0\<close>, runs them in passes and sleeps in \<open>epoll_wait\<close> in between,
  from which writes to an event descriptor wake it. Jobs are numbers. A thread inside
  \<open>queueInLoop\<close> is a value of \<open>call\<close>, the loop thread one of \<open>lpc\<close>, and a run interleaves their steps
  arbitrarily. The constants of the code are the record \<open>limits\<close>, with a switch: a push that runs while the loop
  pops may take the lock-free queue for fuller than it is (\<open>MpscProps.mpsc_push_failure\<close>), so with \<open>early_full\<close> it may
  find any smaller number of free places, at any time; without it a push finds exactly the places that are
  free, as it does when nothing else runs. What holds in every state is proved for both, what can happen without
  it. The fields \<open>accepted\<close> and \<open>ran\<close>
  (the jobs in the order in which they entered a queue and in which they were run, with \<open>True\<close> for
  the lock-free queue) and \<open>passes\<close> are history that no step reads.
\<close>

record limits =
  kMpscCapacity :: nat
  kBatchSize :: nat
  kMaxTasks :: nat
  early_full :: bool

definition evl_limits :: limits where
  "evl_limits = \<lparr>kMpscCapacity = 65536, kBatchSize = 1024, kMaxTasks = 65536, early_full = False\<rparr>"

text \<open>\<open>CPublish p n rest\<close> has \<open>n\<close> of its reserved places left to publish, from the place \<open>p\<close> on, and
  \<open>rest\<close> to put into the overflow queue; \<open>CCas\<close> and \<open>CWrite\<close> are the two accesses of the wake-up.\<close>

datatype call = CIdle | CPublish nat nat "nat list" | COver "nat list" | CCas | CWrite

text \<open>\<open>Handling b\<close> is the part of a round before the pending jobs, in which the wake-up channel still
  has to be read when \<open>b\<close>; \<open>ResetFlag\<close> is between that read and the store to \<open>_isWakingUp\<close>.
  \<open>PopL1 js\<close> has moved \<open>js\<close> to the local array, \<open>RunL1 n js\<close> has \<open>js\<close> left of a batch of \<open>n\<close>,
  \<open>RunL2 k i\<close> has \<open>i\<close> left of \<open>k\<close> cached jobs.\<close>

datatype lpc =
    Start
  | Top
  | Polling
  | Handling bool
  | ResetFlag
  | PopL1 "nat list"
  | RunL1 nat "nat list"
  | FetchL2
  | RunL2 nat nat
  | CheckLeft
  | LoopCas
  | LoopWrite
  | DrainCheck
  | Returned

record evl =
  looping :: bool
  quitFlag :: bool
  callingPendingJobs :: bool
  isWakingUp :: bool
  wakeupFd :: nat
  popped :: nat
  pendingQueue :: "(nat \<times> bool) list"
  overflowQueue :: "nat list"
  l2Cache :: "nat list"
  l2CacheIndex :: nat
  processedCount :: int
  loop_pc :: lpc
  calls :: "nat \<Rightarrow> call"
  ran :: "(nat \<times> bool) list"
  accepted :: "(nat \<times> bool) list"
  passes :: nat

definition evl_init :: evl where
  "evl_init = \<lparr>looping = False, quitFlag = False, callingPendingJobs = False, isWakingUp = False,
     wakeupFd = 0, popped = 0, pendingQueue = [], overflowQueue = [], l2Cache = [], l2CacheIndex = 0,
     processedCount = 0, loop_pc = Start, calls = (\<lambda>_. CIdle), ran = [], accepted = [], passes = 0\<rparr>"

abbreviation set_call :: "nat \<Rightarrow> call \<Rightarrow> evl \<Rightarrow> evl" where
  "set_call t c s \<equiv> s\<lparr>calls := (calls s)(t := c)\<rparr>"

subsection \<open>Queueing a job\<close>

text \<open>The end of \<open>queueInLoop\<close> and \<open>queueInLoopBatch\<close>: whether to wake the loop.\<close>

definition wake_check :: "nat \<Rightarrow> evl \<Rightarrow> evl" where
  "wake_check t s = set_call t (if t \<noteq> 0 \<or> callingPendingJobs s then CCas else CIdle) s"

text \<open>What follows the push to the lock-free queue: the jobs that found no room go to the overflow
  queue.\<close>

definition after_push :: "nat \<Rightarrow> nat list \<Rightarrow> evl \<Rightarrow> evl" where
  "after_push t rest s = (if rest = [] then wake_check t s else set_call t (COver rest) s)"

text \<open>The push reserves \<open>k\<close> places at once; \<open>k\<close> is what \<open>pushBulk\<close> found free (the steps below say which \<open>k\<close>).\<close>

definition queueInLoopBatch :: "nat \<Rightarrow> nat list \<Rightarrow> nat \<Rightarrow> evl \<Rightarrow> evl" where
  "queueInLoopBatch t fs k s =
     (if k = 0 then after_push t fs s
      else set_call t (CPublish (popped s + length (pendingQueue s)) k (drop k fs))
             (s\<lparr>pendingQueue := pendingQueue s @ map (\<lambda>f. (f, False)) (take k fs),
                accepted := accepted s @ map (\<lambda>f. (f, True)) (take k fs)\<rparr>))"

definition queueInLoop :: "nat \<Rightarrow> nat \<Rightarrow> bool \<Rightarrow> evl \<Rightarrow> evl" where
  "queueInLoop t f room s = queueInLoopBatch t [f] (if room then 1 else 0) s"

text \<open>In the loop thread the job runs at once; it is not a step of the queue.\<close>

definition runInLoop :: "nat \<Rightarrow> nat \<Rightarrow> bool \<Rightarrow> evl \<Rightarrow> evl" where
  "runInLoop t f room s =
     (if t = 0 then s else queueInLoop t f room s)"

definition publish_job :: "nat \<Rightarrow> evl \<Rightarrow> evl" where
  "publish_job p s = s\<lparr>pendingQueue := (pendingQueue s)[p - popped s := (fst (pendingQueue s ! (p - popped s)), True)]\<rparr>"

definition wakeup :: "evl \<Rightarrow> evl" where
  "wakeup s = s\<lparr>wakeupFd := wakeupFd s + 1\<rparr>"

text \<open>One access to shared memory of a thread inside the call.\<close>

fun call_step :: "nat \<Rightarrow> call \<Rightarrow> evl \<Rightarrow> evl" where
  "call_step t (CPublish p n rest) s =
     (if n \<le> 1 then after_push t rest (publish_job p s) else set_call t (CPublish (p + 1) (n - 1) rest) (publish_job p s))"
| "call_step t (COver rest) s = wake_check t (s\<lparr>overflowQueue := overflowQueue s @ rest, accepted := accepted s @ map (\<lambda>f. (f, False)) rest\<rparr>)"
| "call_step t CCas s = (if isWakingUp s then set_call t CIdle s else set_call t CWrite (s\<lparr>isWakingUp := True\<rparr>))"
| "call_step t CWrite s = set_call t CIdle (wakeup s)"
| "call_step t CIdle s = s"

definition quit :: "nat \<Rightarrow> evl \<Rightarrow> evl" where
  "quit t s = (let s' = s\<lparr>quitFlag := True\<rparr> in if t \<noteq> 0 then set_call t CWrite s' else s')"

subsection \<open>The loop thread\<close>

definition start_loop :: "evl \<Rightarrow> evl" where
  "start_loop s = s\<lparr>looping := True, quitFlag := False, loop_pc := Top\<rparr>"

text \<open>\<open>doPendingJobs\<close>, from its entry to its exit.\<close>

definition begin_jobs :: "evl \<Rightarrow> evl" where
  "begin_jobs s = s\<lparr>callingPendingJobs := True, processedCount := 0, loop_pc := PopL1 [], passes := passes s + 1\<rparr>"

definition pop_l1 :: "limits \<Rightarrow> nat list \<Rightarrow> evl \<Rightarrow> evl" where
  "pop_l1 L js s =
     (case pendingQueue s of
        (j, True) # q \<Rightarrow>
          if length js < kBatchSize L
          then s\<lparr>pendingQueue := q, popped := popped s + 1, loop_pc := PopL1 (js @ [j])\<rparr>
          else s\<lparr>loop_pc := RunL1 (length js) js\<rparr>
      | _ \<Rightarrow> s\<lparr>loop_pc := (if js = [] then FetchL2 else RunL1 (length js) js)\<rparr>)"

text \<open>\<open>processedCount\<close> is an \<open>int\<close>; sums with a \<open>size_t\<close> wrap to it.\<close>

definition add_int :: "int \<Rightarrow> nat \<Rightarrow> int" where
  "add_int c n = sint (word_of_int (c + int n) :: 32 word)"

fun run_l1 :: "limits \<Rightarrow> nat \<Rightarrow> nat list \<Rightarrow> evl \<Rightarrow> evl" where
  "run_l1 L n (j # js) s = s\<lparr>ran := ran s @ [(j, True)], loop_pc := RunL1 n js\<rparr>"
| "run_l1 L n [] s =
     (let c = add_int (processedCount s) n
      in s\<lparr>processedCount := c, loop_pc := (if c < int (kMaxTasks L) then PopL1 [] else FetchL2)\<rparr>)"

text \<open>\<open>static_cast<size_t>(kMaxTasks - processedCount)\<close>: negative differences become huge.\<close>

definition quota :: "limits \<Rightarrow> int \<Rightarrow> nat" where
  "quota L c = unat (word_of_int (int (kMaxTasks L) - c) :: 64 word)"

definition fetch_l2 :: "limits \<Rightarrow> evl \<Rightarrow> evl" where
  "fetch_l2 L s =
     (if l2CacheIndex s \<ge> length (l2Cache s)
      then (let s' = s\<lparr>l2Cache := [], l2CacheIndex := 0\<rparr>
            in if overflowQueue s = [] then s'\<lparr>loop_pc := CheckLeft\<rparr>
               else (let k = min (length (overflowQueue s)) (quota L (processedCount s))
                     in s'\<lparr>l2Cache := overflowQueue s, overflowQueue := [], loop_pc := RunL2 k k\<rparr>))
      else (let k = min (length (l2Cache s) - l2CacheIndex s) (quota L (processedCount s))
            in s\<lparr>loop_pc := RunL2 k k\<rparr>))"

fun run_l2 :: "limits \<Rightarrow> nat \<Rightarrow> nat \<Rightarrow> evl \<Rightarrow> evl" where
  "run_l2 L k (Suc i) s =
     s\<lparr>ran := ran s @ [(l2Cache s ! l2CacheIndex s, False)], l2CacheIndex := l2CacheIndex s + 1, loop_pc := RunL2 k i\<rparr>"
| "run_l2 L k 0 s =
     (let c = add_int (processedCount s) k
      in s\<lparr>processedCount := c, loop_pc := (if c < int (kMaxTasks L) then PopL1 [] else CheckLeft)\<rparr>)"

definition leave_jobs :: "evl \<Rightarrow> evl" where
  "leave_jobs s = s\<lparr>callingPendingJobs := False, loop_pc := (if looping s then Top else DrainCheck)\<rparr>"

definition check_left :: "evl \<Rightarrow> evl" where
  "check_left s =
     (if pendingQueue s \<noteq> [] \<or> l2CacheIndex s < length (l2Cache s) then s\<lparr>loop_pc := LoopCas\<rparr> else leave_jobs s)"

definition loop_cas :: "evl \<Rightarrow> evl" where
  "loop_cas s = (if isWakingUp s then leave_jobs s else s\<lparr>isWakingUp := True, loop_pc := LoopWrite\<rparr>)"

text \<open>The main loop. \<open>poll\<close> returns for the event descriptor when it is readable, and for other
  descriptors or its time limit at any time. The handlers of the other channels and the timers run in
  \<open>Handling False\<close>; they may queue jobs.\<close>

definition loop_top :: "evl \<Rightarrow> evl" where
  "loop_top s = (if quitFlag s then begin_jobs (s\<lparr>looping := False\<rparr>) else s\<lparr>loop_pc := Polling\<rparr>)"

definition poll_return :: "bool \<Rightarrow> evl \<Rightarrow> evl" where
  "poll_return wake s = s\<lparr>loop_pc := Handling wake\<rparr>"

definition handleRead_read :: "evl \<Rightarrow> evl" where
  "handleRead_read s = s\<lparr>wakeupFd := 0, loop_pc := ResetFlag\<rparr>"

definition handleRead_store :: "evl \<Rightarrow> evl" where
  "handleRead_store s = s\<lparr>isWakingUp := False, loop_pc := Handling False\<rparr>"

definition drain_check :: "evl \<Rightarrow> evl" where
  "drain_check s =
     (if pendingQueue s \<noteq> [] \<or> overflowQueue s \<noteq> [] \<or> l2CacheIndex s < length (l2Cache s)
      then begin_jobs s else s\<lparr>loop_pc := Returned\<rparr>)"

fun loop_step :: "limits \<Rightarrow> lpc \<Rightarrow> evl \<Rightarrow> evl" where
  "loop_step L Start s = start_loop s"
| "loop_step L Top s = loop_top s"
| "loop_step L Polling s = (if wakeupFd s > 0 then poll_return True s else s)"
| "loop_step L (Handling True) s = handleRead_read s"
| "loop_step L (Handling False) s = begin_jobs s"
| "loop_step L ResetFlag s = handleRead_store s"
| "loop_step L (PopL1 js) s = pop_l1 L js s"
| "loop_step L (RunL1 n js) s = run_l1 L n js s"
| "loop_step L FetchL2 s = fetch_l2 L s"
| "loop_step L (RunL2 k i) s = run_l2 L k i s"
| "loop_step L CheckLeft s = check_left s"
| "loop_step L LoopCas s = loop_cas s"
| "loop_step L LoopWrite s = leave_jobs (wakeup s)"
| "loop_step L DrainCheck s = drain_check s"
| "loop_step L Returned s = s"

text \<open>Where code of the program runs in the loop thread, which may call the loop: before the loop starts, in a handler
  and in a job.\<close>

fun in_user :: "lpc \<Rightarrow> bool" where
  "in_user Start = True"
| "in_user (Handling w) = True"
| "in_user (RunL1 n js) = (length js < n)"
| "in_user (RunL2 k i) = (i < k)"
| "in_user pc = False"

definition may_call :: "nat \<Rightarrow> evl \<Rightarrow> bool" where
  "may_call t s \<longleftrightarrow> calls s t = CIdle \<and> (t = 0 \<longrightarrow> in_user (loop_pc s))"

text \<open>The steps of the system; \<open>ev_poll\<close> is a return from \<open>epoll_wait\<close> for anything else.\<close>

inductive evl_step :: "limits \<Rightarrow> evl \<Rightarrow> evl \<Rightarrow> bool" for L where
  ev_batch: "may_call t s \<Longrightarrow> k \<le> length fs \<Longrightarrow> length (pendingQueue s) + k \<le> kMpscCapacity L \<Longrightarrow>
     early_full L \<or> k = min (length fs) (kMpscCapacity L - length (pendingQueue s)) \<Longrightarrow> evl_step L s (queueInLoopBatch t fs k s)"
| ev_run: "may_call t s \<Longrightarrow> room \<longrightarrow> length (pendingQueue s) < kMpscCapacity L \<Longrightarrow>
     early_full L \<or> room = (length (pendingQueue s) < kMpscCapacity L) \<Longrightarrow> evl_step L s (runInLoop t f room s)"
| ev_quit: "may_call t s \<Longrightarrow> evl_step L s (quit t s)"
| ev_call: "calls s t \<noteq> CIdle \<Longrightarrow> evl_step L s (call_step t (calls s t) s)"
| ev_loop: "calls s 0 = CIdle \<Longrightarrow> evl_step L s (loop_step L (loop_pc s) s)"
| ev_poll: "calls s 0 = CIdle \<Longrightarrow> loop_pc s = Polling \<Longrightarrow> evl_step L s (poll_return False s)"

inductive evl_run :: "limits \<Rightarrow> evl \<Rightarrow> bool" for L where
  evl_start: "evl_run L evl_init"
| evl_next: "evl_run L s \<Longrightarrow> evl_step L s s' \<Longrightarrow> evl_run L s'"

end
