(* ===== verification/LoopProps.thy ===== *)
theory LoopProps
  imports LoopJobs
begin

text \<open>
  What the task queue of the event loop promises: every job runs once and in the order of its queue,
  nothing is left when the loop returns, and when a job can wait while the loop sleeps.
\<close>

subsection \<open>Every job once\<close>

definition lane :: "bool \<Rightarrow> (nat \<times> bool) list \<Rightarrow> nat list" where
  "lane b xs = map fst (filter (\<lambda>x. snd x = b) xs)"

lemma lane_simps [simp]:
  "lane b [] = []"
  "lane b (xs @ ys) = lane b xs @ lane b ys"
  "lane b ((j, c) # xs) = (if b = c then j # lane b xs else lane b xs)"
  "lane b (map (\<lambda>f. (f, c)) fs) = (if b = c then fs else [])"
  by (induct fs) (auto simp: lane_def)

fun carried :: "lpc \<Rightarrow> nat list" where
  "carried (PopL1 js) = js"
| "carried (RunL1 n js) = js"
| "carried pc = []"

fun cached_left :: "lpc \<Rightarrow> nat" where
  "cached_left (RunL2 k i) = i"
| "cached_left pc = 0"

definition fifo_inv :: "evl \<Rightarrow> bool" where
  "fifo_inv s \<longleftrightarrow>
     lane True (ran s) @ carried (loop_pc s) @ map fst (pendingQueue s) = lane True (accepted s) \<and>
     lane False (ran s) @ drop (l2CacheIndex s) (l2Cache s) @ overflowQueue s = lane False (accepted s) \<and>
     cached_left (loop_pc s) \<le> length (l2Cache s) - l2CacheIndex s"

lemma map_fst_publish [simp]: "map fst (xs[i := (fst (xs ! i), b)]) = map fst xs"
  by (cases "i < length xs") (simp_all add: map_update list_update_beyond, metis list_update_id nth_map)

lemmas call_defs = wake_check_def after_push_def queueInLoopBatch_def queueInLoop_def runInLoop_def
  publish_job_def wakeup_def quit_def

lemmas loop_defs = start_loop_def begin_jobs_def pop_l1_def fetch_l2_def leave_jobs_def check_left_def
  loop_cas_def loop_top_def poll_return_def handleRead_read_def handleRead_store_def drain_check_def wakeup_def

lemma fifo_call: "fifo_inv s \<Longrightarrow> fifo_inv (call_step t c s)"
  by (cases c) (auto simp: fifo_inv_def call_defs Let_def)

lemma fifo_loop:
  assumes "fifo_inv s"
  shows "fifo_inv (loop_step L (loop_pc s) s)"
proof (cases "loop_pc s")
  case (Handling w)
  then show ?thesis using assms by (cases w) (simp_all add: fifo_inv_def loop_defs)
next
  case (PopL1 js)
  then show ?thesis using assms by (auto simp: fifo_inv_def loop_defs split: list.splits bool.splits)
next
  case (RunL1 n js)
  then show ?thesis using assms by (cases js) (simp_all add: fifo_inv_def Let_def)
next
  case (RunL2 k i)
  show ?thesis
  proof (cases i)
    case (Suc i')
    then have "l2CacheIndex s < length (l2Cache s)" using assms RunL2 by (auto simp: fifo_inv_def)
    then show ?thesis using assms RunL2 Suc by (auto simp: fifo_inv_def Cons_nth_drop_Suc [symmetric])
  qed (use assms RunL2 in \<open>simp add: fifo_inv_def Let_def\<close>)
qed (use assms in \<open>auto simp: fifo_inv_def loop_defs Let_def\<close>)

lemma map_fst_tag [simp]: "map (fst \<circ> (\<lambda>f. (f, b))) xs = xs"
  by (induct xs) auto

lemma append3: "a @ c @ q = r \<Longrightarrow> a @ c @ q @ x = r @ x"
  by auto

lemma fifo_step: "evl_step L s s' \<Longrightarrow> fifo_inv s \<Longrightarrow> fifo_inv s'"
  by (induct rule: evl_step.induct)
     (auto simp: fifo_call fifo_loop, auto simp: fifo_inv_def call_defs Let_def poll_return_def intro: append3)

lemma fifo_run: "evl_run L s \<Longrightarrow> fifo_inv s"
  by (induct rule: evl_run.induct) (auto simp: fifo_step, simp add: fifo_inv_def evl_init_def)

lemma run_not_returned [simp]: "loop_pc (run_l1 L n js s) \<noteq> Returned" "loop_pc (run_l2 L k i s) \<noteq> Returned"
  by (cases js; simp add: Let_def) (cases i; simp add: Let_def)

lemma returned_only:
  "evl_step L s s' \<Longrightarrow> loop_pc s \<noteq> Returned \<Longrightarrow> loop_pc s' = Returned \<Longrightarrow>
   loop_pc s = DrainCheck \<and> s' = drain_check s \<and> pendingQueue s = [] \<and> overflowQueue s = [] \<and> length (l2Cache s) \<le> l2CacheIndex s"
proof (induct rule: evl_step.induct)
  case (ev_call s t)
  then show ?case by (cases "calls s t") (auto simp: call_defs)
next
  case (ev_loop s)
  then show ?case
    by (cases "(L, loop_pc s, s)" rule: loop_step.cases)
       (auto simp: loop_defs Let_def split: if_splits list.splits bool.splits)
qed (auto simp: call_defs Let_def poll_return_def split: if_splits)

text \<open>Concrete runs: the threads of a list move one step each.\<close>

fun drive :: "limits \<Rightarrow> nat list \<Rightarrow> evl \<Rightarrow> evl" where
  "drive L [] s = s"
| "drive L (t # ts) s =
     drive L ts (if t = 0 then (if calls s 0 = CIdle then loop_step L (loop_pc s) s else s)
                 else (if calls s t = CIdle then s else call_step t (calls s t) s))"

lemma drive_run: "evl_run L s \<Longrightarrow> evl_run L (drive L ts s)"
proof (induct ts arbitrary: s)
  case (Cons t ts)
  then show ?case using evl_next [OF Cons.prems ev_loop] evl_next [OF Cons.prems ev_call] by simp
qed simp

lemma queue_run: "evl_run L s \<Longrightarrow> may_call t s \<Longrightarrow> k \<le> length fs \<Longrightarrow> length (pendingQueue s) + k \<le> kMpscCapacity L \<Longrightarrow>
    k = min (length fs) (kMpscCapacity L - length (pendingQueue s)) \<Longrightarrow> evl_run L (queueInLoopBatch t fs k s)"
  by (blast intro: evl_next ev_batch)

lemma quit_run: "evl_run L s \<Longrightarrow> may_call t s \<Longrightarrow> evl_run L (quit t s)"
  by (blast intro: evl_next ev_quit)

lemmas eval_defs = queueInLoopBatch_def after_push_def wake_check_def publish_job_def wakeup_def quit_def start_loop_def
  begin_jobs_def pop_l1_def fetch_l2_def leave_jobs_def check_left_def loop_cas_def loop_top_def poll_return_def
  handleRead_read_def handleRead_store_def drain_check_def evl_init_def may_call_def quota_def

definition small :: limits where
  "small = \<lparr>kMpscCapacity = 2, kBatchSize = 2, kMaxTasks = 2, early_full = False\<rparr>"

text \<open>C19. Every job that entered one of the two queues is run exactly once and in the order of its
  queue: in every reachable state the jobs already run, those of the batch in hand and those still
  queued are, in this order, all the jobs accepted, for the lock-free queue and for the overflow
  queue. At the moment \<open>loop\<close> returns nothing is left: every job accepted so far has run.\<close>

theorem jobs_run_once:
  assumes "evl_run L s"
  shows "lane True (ran s) @ carried (loop_pc s) @ map fst (pendingQueue s) = lane True (accepted s) \<and>
    lane False (ran s) @ drop (l2CacheIndex s) (l2Cache s) @ overflowQueue s = lane False (accepted s) \<and>
    (evl_step L s s' \<longrightarrow> loop_pc s \<noteq> Returned \<longrightarrow> loop_pc s' = Returned \<longrightarrow> lane b (ran s') = lane b (accepted s'))"
proof (intro conjI impI)
  have inv: "fifo_inv s" using fifo_run [OF assms] .
  then show "lane True (ran s) @ carried (loop_pc s) @ map fst (pendingQueue s) = lane True (accepted s)"
    and "lane False (ran s) @ drop (l2CacheIndex s) (l2Cache s) @ overflowQueue s = lane False (accepted s)"
    by (simp_all add: fifo_inv_def)
  assume "evl_step L s s'" "loop_pc s \<noteq> Returned" "loop_pc s' = Returned"
  from returned_only [OF this] show "lane b (ran s') = lane b (accepted s')"
    using inv by (cases b) (auto simp: fifo_inv_def drain_check_def)
qed

theorem jobs_run_once_witness:
  "\<exists>s s'. evl_run small s \<and> evl_step small s s' \<and> loop_pc s \<noteq> Returned \<and> loop_pc s' = Returned \<and>
     lane True (ran s') = [7, 8] \<and> lane True (accepted s') = [7, 8] \<and> lane False (ran s') = [9] \<and> lane False (accepted s') = [9]"
proof -
  let ?a = "queueInLoopBatch 1 [7, 8, 9] 2 (drive small [0] evl_init)"
  let ?b = "quit 1 (drive small [1, 1, 1, 1, 1] ?a)"
  let ?s = "drive small (1 # replicate 19 0) ?b"
  have a: "may_call 1 (drive small [0] evl_init)" "length (pendingQueue (drive small [0] evl_init)) + 2 \<le> kMpscCapacity small"
      "2 = min (length [7, 8, 9 :: nat]) (kMpscCapacity small - length (pendingQueue (drive small [0] evl_init)))"
    and b: "may_call 1 (drive small [1, 1, 1, 1, 1] ?a)" and pc: "loop_pc ?s = DrainCheck" and idle: "calls ?s 0 = CIdle"
    by code_simp+
  have s: "evl_run small ?s"
    by (rule drive_run [OF quit_run [OF drive_run [OF queue_run [OF drive_run [OF evl_start] a(1) _ a(2,3)]] b]]) simp
  have step: "evl_step small ?s (loop_step small (loop_pc ?s) ?s)" by (rule ev_loop [OF idle])
  let ?s' = "loop_step small (loop_pc ?s) ?s"
  have r: "loop_pc ?s' = Returned" "lane True (ran ?s') = [7, 8]" "lane False (ran ?s') = [9]" by code_simp+
  have busy: "loop_pc ?s \<noteq> Returned" unfolding pc by simp
  have acc: "lane b (ran ?s') = lane b (accepted ?s')" for b
    using jobs_run_once [OF s, of ?s' b] step busy r(1) by blast
  have "lane True (accepted ?s') = [7, 8]" "lane False (accepted ?s') = [9]"
    using acc [of True] acc [of False] unfolding r(2,3) by metis+
  then show ?thesis using s step busy r by blast
qed

subsection \<open>Waking the loop\<close>

text \<open>A thread that has queued a job and not yet looked at the wake-up flag.\<close>

fun before_cas :: "call \<Rightarrow> bool" where
  "before_cas (CPublish p n rest) = True"
| "before_cas (COver rest) = True"
| "before_cas CCas = True"
| "before_cas c = False"

definition waking :: "evl \<Rightarrow> bool" where
  "waking s \<longleftrightarrow> isWakingUp s \<or> (\<exists>t. before_cas (calls s t))"

definition jobs_left :: "evl \<Rightarrow> bool" where
  "jobs_left s \<longleftrightarrow> pendingQueue s \<noteq> [] \<or> l2CacheIndex s < length (l2Cache s)"

fun settled :: "lpc \<Rightarrow> bool" where
  "settled Top = True"
| "settled Polling = True"
| "settled pc = False"

fun at_check :: "lpc \<Rightarrow> bool" where
  "at_check CheckLeft = True"
| "at_check LoopCas = True"
| "at_check LoopWrite = True"
| "at_check pc = settled pc"

definition signalled :: "evl \<Rightarrow> bool" where
  "signalled s \<longleftrightarrow> wakeupFd s > 0 \<or> (\<exists>t. calls s t = CWrite) \<or> loop_pc s = LoopWrite \<or> loop_pc s = ResetFlag"

definition wake_inv :: "limits \<Rightarrow> evl \<Rightarrow> bool" where
  "wake_inv L s \<longleftrightarrow>
     (isWakingUp s \<longrightarrow> signalled s) \<and> (loop_pc s = Start \<longrightarrow> passes s = 0) \<and>
     (calls s 0 \<noteq> CIdle \<longrightarrow> in_user (loop_pc s)) \<and>
     (loop_pc s = LoopWrite \<longrightarrow> isWakingUp s) \<and>
     (passes s > 0 \<longrightarrow> settled (loop_pc s) \<longrightarrow> jobs_left s \<longrightarrow> waking s) \<and>
     (passes s > 0 \<longrightarrow> at_check (loop_pc s) \<longrightarrow> overflowQueue s \<noteq> [] \<longrightarrow> waking s \<or> int (kMaxTasks L) \<le> processedCount s)"

lemma in_user_busy: "in_user pc \<Longrightarrow> \<not> settled pc \<and> \<not> at_check pc \<and> pc \<noteq> LoopWrite"
  by (cases pc) auto

lemma settled_check: "settled pc \<Longrightarrow> at_check pc"
  by (cases pc) auto

text \<open>A thread enters the call or moves on in it, up to its look at the flag.\<close>

lemma wake_enter:
  assumes inv: "wake_inv L s" and t: "t = 0 \<longrightarrow> in_user (loop_pc s)" "calls s t \<noteq> CWrite"
    and s': "isWakingUp s' = isWakingUp s" "wakeupFd s' = wakeupFd s" "loop_pc s' = loop_pc s" "passes s' = passes s"
      "calls s' = (calls s)(t := c)" "before_cas c \<or> t = 0 \<and> c = CIdle"
  shows "wake_inv L s'"
proof -
  have sig: "isWakingUp s' \<longrightarrow> signalled s'"
  proof
    assume "isWakingUp s'"
    then have "signalled s" using inv s'(1) by (simp add: wake_inv_def)
    moreover have "calls s' u = CWrite" if "calls s u = CWrite" for u using that t(2) s'(5) by (cases "u = t") auto
    ultimately show "signalled s'" using s'(2,3) unfolding signalled_def by metis
  qed
  show ?thesis
  proof (cases "t = 0")
    case True
    then show ?thesis using t(1) in_user_busy [of "loop_pc s"] sig s' inv by (simp add: wake_inv_def)
  next
    case False
    then have "waking s'" using s' by (auto simp: waking_def)
    then show ?thesis using False inv sig s' by (simp add: wake_inv_def)
  qed
qed

lemma wake_call:
  assumes inv: "wake_inv L s" and c: "calls s t \<noteq> CIdle"
  shows "wake_inv L (call_step t (calls s t) s)"
proof -
  have t: "t = 0 \<longrightarrow> in_user (loop_pc s)" using inv c by (auto simp: wake_inv_def)
  show ?thesis
  proof (cases "calls s t")
    case (CPublish p n rest)
    then show ?thesis
      by (intro wake_enter [OF inv t, where c = "calls (call_step t (calls s t) s) t"]) (auto simp: call_defs)
  next
    case (COver rest)
    then show ?thesis
      by (intro wake_enter [OF inv t, where c = "calls (call_step t (calls s t) s) t"]) (auto simp: call_defs)
  next
    case CCas
    have sig: "signalled (call_step t CCas s)" if "\<not> isWakingUp s" using that by (auto simp: signalled_def)
    have sig': "signalled (call_step t CCas s)" if "isWakingUp s"
    proof -
      have "signalled s" using inv that by (simp add: wake_inv_def)
      then show ?thesis using that CCas by (auto simp: signalled_def) (metis fun_upd_other call.distinct(19))
    qed
    show ?thesis using CCas sig sig' inv c t by (cases "isWakingUp s") (auto simp: wake_inv_def waking_def jobs_left_def)
  next
    case CWrite
    have sig: "signalled (call_step t CWrite s)" by (simp add: signalled_def wakeup_def)
    have w: "waking (call_step t CWrite s)" if "waking s"
      using that CWrite by (auto simp: waking_def wakeup_def) (metis before_cas.simps(5))
    show ?thesis using CWrite inv sig w by (auto simp: wake_inv_def wakeup_def jobs_left_def)
  qed (use c in simp)
qed

lemma wake_loop:
  assumes inv: "wake_inv L s" and c: "calls s 0 = CIdle"
  shows "wake_inv L (loop_step L (loop_pc s) s)"
proof -
  have keep: "signalled s'" if "signalled s" "wakeupFd s' = wakeupFd s" "calls s' = calls s"
    "loop_pc s \<noteq> LoopWrite" "loop_pc s \<noteq> ResetFlag" for s'
    using that by (auto simp: signalled_def)
  show ?thesis
  proof (cases "loop_pc s")
    case (Handling w)
    show ?thesis
    proof (cases w)
      case True
      then show ?thesis using Handling c inv by (auto simp: wake_inv_def loop_defs signalled_def)
    next
      case False
      have "isWakingUp s \<longrightarrow> signalled (begin_jobs s)"
        using inv Handling keep [of "begin_jobs s"] by (simp add: wake_inv_def begin_jobs_def)
      then show ?thesis using False Handling c inv by (auto simp: wake_inv_def loop_defs)
    qed
  next
    case ResetFlag
    then show ?thesis using c by (simp add: wake_inv_def loop_defs)
  next
    case CheckLeft
    have k: "isWakingUp s \<longrightarrow> signalled (check_left s)"
      using inv CheckLeft keep [of "check_left s"] by (simp add: wake_inv_def check_left_def leave_jobs_def)
    show ?thesis using k CheckLeft c inv
      by (auto simp: wake_inv_def check_left_def leave_jobs_def waking_def jobs_left_def)
  next
    case LoopCas
    show ?thesis
    proof (cases "isWakingUp s")
      case True
      then have "signalled (leave_jobs s)"
        using inv LoopCas keep [of "leave_jobs s"] by (simp add: wake_inv_def leave_jobs_def)
      then show ?thesis using True LoopCas c inv by (auto simp: wake_inv_def loop_cas_def leave_jobs_def waking_def)
    next
      case False
      then show ?thesis using LoopCas c inv by (auto simp: wake_inv_def loop_cas_def waking_def signalled_def)
    qed
  next
    case LoopWrite
    then show ?thesis using c inv by (auto simp: wake_inv_def leave_jobs_def wakeup_def waking_def signalled_def)
  next
    case FetchL2
    have k: "isWakingUp s \<longrightarrow> signalled (fetch_l2 L s)"
      using inv FetchL2 keep [of "fetch_l2 L s"] by (simp add: wake_inv_def fetch_l2_def Let_def)
    then show ?thesis using FetchL2 c inv by (auto simp: wake_inv_def fetch_l2_def Let_def)
  next
    case (PopL1 js)
    have k: "isWakingUp s \<longrightarrow> signalled (pop_l1 L js s)"
      using inv PopL1 keep [of "pop_l1 L js s"] by (simp add: wake_inv_def pop_l1_def split: list.splits bool.splits)
    then show ?thesis using PopL1 c inv by (auto simp: wake_inv_def pop_l1_def split: list.splits bool.splits)
  next
    case (RunL1 n js)
    have k: "isWakingUp s \<longrightarrow> signalled (run_l1 L n js s)"
      using inv RunL1 keep [of "run_l1 L n js s"] by (cases js) (simp_all add: wake_inv_def Let_def)
    then show ?thesis using RunL1 c inv by (cases js) (auto simp: wake_inv_def Let_def)
  next
    case (RunL2 k i)
    have k: "isWakingUp s \<longrightarrow> signalled (run_l2 L k i s)"
      using inv RunL2 keep [of "run_l2 L k i s"] by (cases i) (simp_all add: wake_inv_def Let_def)
    then show ?thesis using RunL2 c inv by (cases i) (auto simp: wake_inv_def Let_def)
  next
    case Top
    have "isWakingUp s \<longrightarrow> signalled (loop_top s)"
      using inv Top keep [of "loop_top s"] by (simp add: wake_inv_def loop_top_def begin_jobs_def)
    then show ?thesis using Top c inv by (auto simp: wake_inv_def loop_top_def begin_jobs_def waking_def jobs_left_def)
  next
    case Start
    have "isWakingUp s \<longrightarrow> signalled (start_loop s)"
      using inv Start keep [of "start_loop s"] by (simp add: wake_inv_def start_loop_def)
    then show ?thesis using Start c inv by (auto simp: wake_inv_def start_loop_def waking_def)
  next
    case DrainCheck
    have "isWakingUp s \<longrightarrow> signalled (drain_check s)"
      using inv DrainCheck keep [of "drain_check s"] by (simp add: wake_inv_def drain_check_def begin_jobs_def)
    then show ?thesis using DrainCheck c inv by (auto simp: wake_inv_def drain_check_def begin_jobs_def)
  next
    case Polling
    have "isWakingUp s \<longrightarrow> signalled (poll_return True s)"
      using inv Polling keep [of "poll_return True s"] by (simp add: wake_inv_def poll_return_def)
    then show ?thesis using Polling c inv by (auto simp: wake_inv_def poll_return_def)
  qed (use c inv in simp)
qed

lemma wake_batch:
  assumes "may_call t s" "wake_inv L s"
  shows "wake_inv L (queueInLoopBatch t fs k s)"
proof (rule wake_enter [OF assms(2), of t _ "calls (queueInLoopBatch t fs k s) t"])
  show "before_cas (calls (queueInLoopBatch t fs k s) t) \<or> t = 0 \<and> calls (queueInLoopBatch t fs k s) t = CIdle"
    by (cases "k = 0"; cases "fs = []") (simp_all add: call_defs)
qed (use assms(1) in \<open>simp_all add: call_defs may_call_def\<close>)

lemma wake_step: "evl_step L s s' \<Longrightarrow> wake_inv L s \<Longrightarrow> wake_inv L s'"
proof (induct rule: evl_step.induct)
  case (ev_batch t s k fs)
  then show ?case by (simp add: wake_batch)
next
  case (ev_run t s room f)
  then show ?case by (simp add: runInLoop_def queueInLoop_def wake_batch)
next
  case (ev_quit t s)
  have idle: "calls s t = CIdle" and t: "t = 0 \<longrightarrow> in_user (loop_pc s)" using ev_quit(1) by (simp_all add: may_call_def)
  have other: "calls (quit t s) u = calls s u" if "calls s u \<noteq> CIdle" for u
    using that idle by (cases "u = t") (auto simp: quit_def Let_def)
  have same: "isWakingUp (quit t s) = isWakingUp s" "wakeupFd (quit t s) = wakeupFd s" "loop_pc (quit t s) = loop_pc s"
    "passes (quit t s) = passes s" "processedCount (quit t s) = processedCount s" "overflowQueue (quit t s) = overflowQueue s"
    "jobs_left (quit t s) = jobs_left s"
    by (simp_all add: quit_def Let_def jobs_left_def)
  have "signalled (quit t s)" if "signalled s"
  proof -
    have "calls (quit t s) u = CWrite" if "calls s u = CWrite" for u using that other [of u] by simp
    then show ?thesis using that unfolding signalled_def same by blast
  qed
  moreover have "waking (quit t s)" if "waking s"
  proof -
    have "before_cas (calls (quit t s) u)" if "before_cas (calls s u)" for u
      using that other [of u] by (cases "calls s u") auto
    then show ?thesis using that unfolding waking_def same by blast
  qed
  ultimately show ?case using ev_quit(2) t same idle
    by (cases "t = 0") (auto simp: wake_inv_def quit_def Let_def)
next
  case (ev_poll s)
  have "signalled (poll_return False s)" if "signalled s" using that ev_poll(2) by (auto simp: signalled_def poll_return_def)
  then show ?case using ev_poll by (auto simp: wake_inv_def poll_return_def)
qed (simp_all add: wake_call wake_loop)

lemma wake_run: "evl_run L s \<Longrightarrow> wake_inv L s"
  by (induct rule: evl_run.induct) (auto simp: wake_step, simp add: wake_inv_def evl_init_def)

text \<open>C20. No wake-up is lost, except in one case: after its first pass the loop enters \<open>epoll_wait\<close> with
  jobs waiting only when the event descriptor is readable, so that it returns at once, or a thread
  is still inside \<open>queueInLoop\<close> or \<open>quit\<close>, or only the overflow queue holds jobs and the last pass ended at
  its limit of \<open>kMaxTasks\<close> jobs.\<close>

theorem wakeup_not_lost:
  assumes "evl_run L s" "loop_pc s = Polling" "passes s > 0"
    and "pendingQueue s \<noteq> [] \<or> l2CacheIndex s < length (l2Cache s) \<or> overflowQueue s \<noteq> []"
  shows "wakeupFd s > 0 \<or> (\<exists>t > 0. calls s t \<noteq> CIdle) \<or>
    pendingQueue s = [] \<and> length (l2Cache s) \<le> l2CacheIndex s \<and> overflowQueue s \<noteq> [] \<and> int (kMaxTasks L) \<le> processedCount s"
proof -
  have inv: "wake_inv L s" by (rule wake_run [OF assms(1)])
  then have c0: "calls s 0 = CIdle" using assms(2) by (auto simp: wake_inv_def)
  have busy: "wakeupFd s > 0 \<or> (\<exists>t > 0. calls s t \<noteq> CIdle)" if "waking s"
  proof (rule ccontr)
    assume *: "\<not> (wakeupFd s > 0 \<or> (\<exists>t > 0. calls s t \<noteq> CIdle))"
    have idle: "calls s t = CIdle" for t
    proof (cases "t = 0")
      case False
      then show ?thesis using * by blast
    qed (simp add: c0)
    then have "isWakingUp s" using that unfolding waking_def by simp
    then have "signalled s" using inv by (simp add: wake_inv_def)
    then show False using * idle assms(2) by (simp add: signalled_def)
  qed
  have "jobs_left s \<Longrightarrow> waking s" "overflowQueue s \<noteq> [] \<Longrightarrow> waking s \<or> int (kMaxTasks L) \<le> processedCount s"
    using inv assms(2,3) by (simp_all add: wake_inv_def)
  then show ?thesis using busy assms(4) unfolding jobs_left_def by (meson linorder_not_less)
qed

theorem wakeup_not_lost_witness:
  "\<exists>s. evl_run small s \<and> loop_pc s = Polling \<and> passes s = 1 \<and> map fst (pendingQueue s) = [7] \<and>
     (wakeupFd s > 0 \<or> (\<exists>t > 0. calls s t \<noteq> CIdle))"
proof -
  let ?a = "drive small [0, 0] evl_init"
  let ?b = "poll_return False ?a"
  let ?c = "queueInLoopBatch 1 [7] 1 (drive small [0, 0, 0, 0, 0] ?b)"
  let ?s = "drive small [1, 1, 1] ?c"
  have b: "calls ?a 0 = CIdle" "loop_pc ?a = Polling"
    and c: "may_call 1 (drive small [0, 0, 0, 0, 0] ?b)" "length (pendingQueue (drive small [0, 0, 0, 0, 0] ?b)) + 1 \<le> kMpscCapacity small"
      "1 = min (length [7 :: nat]) (kMpscCapacity small - length (pendingQueue (drive small [0, 0, 0, 0, 0] ?b)))"
    and s: "loop_pc ?s = Polling" "passes ?s = 1" "map fst (pendingQueue ?s) = [7]" "overflowQueue ?s = []"
    by code_simp+
  have run: "evl_run small ?s"
    by (rule drive_run [OF queue_run [OF drive_run [OF evl_next [OF drive_run [OF evl_start] ev_poll [OF b]]] c(1) _ c(2,3)]]) simp
  have "0 < wakeupFd ?s \<or> (\<exists>t>0. calls ?s t \<noteq> CIdle)"
  proof -
    have ne: "pendingQueue ?s \<noteq> []" using s(3) by (metis list.map_disc_iff list.discI)
    have pos: "0 < passes ?s" unfolding s(2) by (rule zero_less_one)
    from wakeup_not_lost [OF run s(1) pos disjI1 [OF ne]] show ?thesis using ne by blast
  qed
  then show ?thesis by (intro exI [of _ ?s] conjI run s(1,2,3))
qed

subsection \<open>Runs\<close>

text \<open>The states of the example runs: no call in flight, the jobs of the lock-free queue published.\<close>

definition quiet :: "evl \<Rightarrow> lpc \<Rightarrow> bool \<Rightarrow> nat \<Rightarrow> nat list \<Rightarrow> nat list \<Rightarrow> nat list \<Rightarrow> nat \<Rightarrow> int \<Rightarrow> (nat \<times> bool) list \<Rightarrow> bool" where
  "quiet s pc w fd q ov ca ix c r \<longleftrightarrow>
     loop_pc s = pc \<and> calls s = (\<lambda>_. CIdle) \<and> looping s \<and> \<not> quitFlag s \<and> isWakingUp s = w \<and> wakeupFd s = fd \<and>
     pendingQueue s = map (\<lambda>f. (f, True)) q \<and> overflowQueue s = ov \<and> l2Cache s = ca \<and> l2CacheIndex s = ix \<and>
     processedCount s = c \<and> ran s = r"

text \<open>What the steps of the loop thread do to the history.\<close>

abbreviation stamp :: "evl \<Rightarrow> nat \<times> (nat \<times> bool) list" where
  "stamp s \<equiv> (passes s, accepted s)"

lemma run_loop: "evl_run L s \<Longrightarrow> calls s 0 = CIdle \<Longrightarrow> evl_run L (loop_step L (loop_pc s) s)"
  by (blast intro: evl_next ev_loop)

lemma run_call: "evl_run L s \<Longrightarrow> calls s t \<noteq> CIdle \<Longrightarrow> evl_run L (call_step t (calls s t) s)"
  by (blast intro: evl_next ev_call)

lemma upd_upd [simp]: "(\<lambda>x. if x = (a::nat) then b else if x = a then c else d) = (\<lambda>x. if x = a then b else d)"
  by auto

text \<open>Thread \<open>1\<close> publishes its places and wakes the loop.\<close>

lemma run_publish:
  "evl_run L s \<Longrightarrow> calls s = (\<lambda>_. CIdle)(1 := CPublish (popped s + length q) (length fs) rest) \<Longrightarrow> fs \<noteq> [] \<Longrightarrow>
   pendingQueue s = map (\<lambda>f. (f, True)) q @ map (\<lambda>f. (f, False)) fs \<Longrightarrow>
   evl_run L (after_push 1 rest (s\<lparr>pendingQueue := map (\<lambda>f. (f, True)) (q @ fs)\<rparr>))"
proof (induct fs arbitrary: s q)
  case (Cons f fs)
  have pub: "publish_job (popped s + length q) s = s\<lparr>pendingQueue := map (\<lambda>f. (f, True)) (q @ [f]) @ map (\<lambda>f. (f, False)) fs\<rparr>"
    using Cons.prems(4) by (simp add: publish_job_def nth_append list_update_append)
  have step: "evl_run L (call_step 1 (calls s 1) s)" using run_call [OF Cons.prems(1), of 1] Cons.prems(2) by simp
  show ?case
  proof (cases "fs = []")
    case True
    then show ?thesis using step Cons.prems(2) pub by simp
  next
    case False
    let ?s = "set_call 1 (CPublish (popped s + length q + 1) (length fs) rest) (publish_job (popped s + length q) s)"
    have "evl_run L ?s" using step Cons.prems(2) False by (cases fs) simp_all
    moreover have "calls ?s = (\<lambda>_. CIdle)(1 := CPublish (popped ?s + length (q @ [f])) (length fs) rest)"
      using Cons.prems(2) pub by (simp add: fun_upd_def)
    moreover have "pendingQueue ?s = map (\<lambda>f. (f, True)) (q @ [f]) @ map (\<lambda>f. (f, False)) fs" by (simp add: pub)
    ultimately have "evl_run L (after_push 1 rest (?s\<lparr>pendingQueue := map (\<lambda>f. (f, True)) ((q @ [f]) @ fs)\<rparr>))"
      using Cons.hyps False by blast
    then show ?thesis using Cons.prems(2) pub by (simp add: after_push_def wake_check_def split: if_splits)
  qed
qed simp

text \<open>The wake-up of thread \<open>1\<close> after it has queued.\<close>

lemma run_wake:
  assumes "evl_run L s" "calls s = (\<lambda>_. CIdle)(1 := CCas)"
  shows "evl_run L (s\<lparr>isWakingUp := True, wakeupFd := wakeupFd s + (if isWakingUp s then 0 else 1), calls := \<lambda>_. CIdle\<rparr>)"
proof (cases "isWakingUp s")
  case True
  then have "call_step 1 (calls s 1) s = s\<lparr>isWakingUp := True, calls := \<lambda>_. CIdle\<rparr>"
    using assms(2) by (cases s) (simp add: fun_upd_def)
  then show ?thesis using run_call [OF assms(1), of 1] assms(2) True by simp
next
  case False
  let ?s = "set_call 1 CWrite (s\<lparr>isWakingUp := True\<rparr>)"
  have "evl_run L ?s" using run_call [OF assms(1), of 1] assms(2) False by simp
  then have "evl_run L (call_step 1 (calls ?s 1) ?s)" by (rule run_call) simp
  then show ?thesis using assms(2) False by (simp add: wakeup_def fun_upd_def)
qed

text \<open>Thread \<open>1\<close> queues the jobs \<open>fs\<close> while the loop sleeps or is in its pass.\<close>

lemma run_push:
  assumes run: "evl_run L s" and q: "quiet s pc w fd [] ov ca ix c r" and fs: "fs \<noteq> []" "length fs \<le> kMpscCapacity L"
  shows "\<exists>s'. evl_run L s' \<and> quiet s' pc True (fd + (if w then 0 else 1)) fs ov ca ix c r \<and> stamp s' = (passes s, accepted s @ map (\<lambda>f. (f, True)) fs)"
proof -
  let ?s = "queueInLoopBatch 1 fs (length fs) s"
  have "may_call 1 s" "pendingQueue s = []" using q by (simp_all add: quiet_def may_call_def)
  then have "evl_run L ?s" using run fs by (intro evl_next [OF run ev_batch]) simp_all
  moreover have "calls ?s = (\<lambda>_. CIdle)(1 := CPublish (popped ?s + length []) (length fs) [])"
    "pendingQueue ?s = map (\<lambda>f. (f, True)) [] @ map (\<lambda>f. (f, False)) fs"
    using fs q by (simp_all add: queueInLoopBatch_def quiet_def)
  ultimately have "evl_run L (after_push 1 [] (?s\<lparr>pendingQueue := map (\<lambda>f. (f, True)) ([] @ fs)\<rparr>))"
    using fs(1) by (intro run_publish)
  then have "evl_run L (set_call 1 CCas (?s\<lparr>pendingQueue := map (\<lambda>f. (f, True)) fs\<rparr>))" (is "evl_run L ?t")
    by (simp add: after_push_def wake_check_def)
  moreover have "calls ?t = (\<lambda>_. CIdle)(1 := CCas)"
    using fs q by (simp add: queueInLoopBatch_def quiet_def fun_upd_def)
  ultimately have "evl_run L (?t\<lparr>isWakingUp := True, wakeupFd := wakeupFd ?t + (if isWakingUp ?t then 0 else 1), calls := \<lambda>_. CIdle\<rparr>)"
    by (rule run_wake)
  moreover have "quiet (?t\<lparr>isWakingUp := True, wakeupFd := wakeupFd ?t + (if isWakingUp ?t then 0 else 1), calls := \<lambda>_. CIdle\<rparr>)
      pc True (fd + (if w then 0 else 1)) fs ov ca ix c r"
    using fs q by (simp add: queueInLoopBatch_def quiet_def)
  ultimately show ?thesis using fs by (intro exI conjI) (assumption, assumption, simp add: queueInLoopBatch_def)
qed

text \<open>The same when the lock-free queue is full.\<close>

lemma run_overflow:
  assumes run: "evl_run L s" and q: "quiet s pc w fd q ov ca ix c r" and fs: "fs \<noteq> []" "length q = kMpscCapacity L"
  shows "\<exists>s'. evl_run L s' \<and> quiet s' pc True (fd + (if w then 0 else 1)) q (ov @ fs) ca ix c r \<and> stamp s' = (passes s, accepted s @ map (\<lambda>f. (f, False)) fs)"
proof -
  let ?s = "queueInLoopBatch 1 fs 0 s"
  have "may_call 1 s" "length (pendingQueue s) = kMpscCapacity L" using q fs by (simp_all add: quiet_def may_call_def)
  then have "evl_run L ?s" using run fs by (intro evl_next [OF run ev_batch]) simp_all
  moreover have c: "calls ?s = (\<lambda>_. CIdle)(1 := COver fs)" using fs q by (simp add: queueInLoopBatch_def after_push_def quiet_def)
  ultimately have "evl_run L (call_step 1 (calls ?s 1) ?s)" by (intro run_call) simp_all
  then have "evl_run L (set_call 1 CCas (?s\<lparr>overflowQueue := ov @ fs, accepted := accepted s @ map (\<lambda>f. (f, False)) fs\<rparr>))" (is "evl_run L ?t")
    using c fs q by (simp add: wake_check_def queueInLoopBatch_def after_push_def quiet_def)
  moreover have "calls ?t = (\<lambda>_. CIdle)(1 := CCas)" using c by (simp add: fun_upd_def)
  ultimately have "evl_run L (?t\<lparr>isWakingUp := True, wakeupFd := wakeupFd ?t + (if isWakingUp ?t then 0 else 1), calls := \<lambda>_. CIdle\<rparr>)"
    by (rule run_wake)
  moreover have "quiet (?t\<lparr>isWakingUp := True, wakeupFd := wakeupFd ?t + (if isWakingUp ?t then 0 else 1), calls := \<lambda>_. CIdle\<rparr>)
      pc True (fd + (if w then 0 else 1)) q (ov @ fs) ca ix c r"
    using fs q by (simp add: queueInLoopBatch_def after_push_def quiet_def)
  ultimately show ?thesis using fs by (intro exI conjI) (assumption, assumption, simp add: queueInLoopBatch_def after_push_def)
qed

text \<open>Steps of the loop thread between such states.\<close>

lemma quiet_step:
  assumes "evl_run L s" "quiet s pc w fd q ov ca ix c r"
    and "quiet (loop_step L pc s) pc' w' fd' q' ov' ca' ix' c' r'" "stamp (loop_step L pc s) = n"
  shows "\<exists>s'. evl_run L s' \<and> quiet s' pc' w' fd' q' ov' ca' ix' c' r' \<and> stamp s' = n"
proof -
  have "loop_pc s = pc" "calls s 0 = CIdle" using assms(2) by (simp_all add: quiet_def)
  then show ?thesis using run_loop [OF assms(1)] assms(3,4) by auto
qed

lemma run_pop:
  "evl_run L s \<Longrightarrow> quiet s (PopL1 acc) w fd (js @ q) ov ca ix c r \<Longrightarrow> length acc + length js \<le> kBatchSize L \<Longrightarrow>
   \<exists>s'. evl_run L s' \<and> quiet s' (PopL1 (acc @ js)) w fd q ov ca ix c r \<and> stamp s' = stamp s"
proof (induct js arbitrary: s acc)
  case (Cons j js)
  have "\<exists>s'. evl_run L s' \<and> quiet s' (PopL1 (acc @ [j])) w fd (js @ q) ov ca ix c r \<and> stamp s' = stamp s"
    by (rule quiet_step [OF Cons.prems(1,2)]) (use Cons.prems in \<open>simp_all add: quiet_def pop_l1_def\<close>)
  then obtain s' where s': "evl_run L s'" "quiet s' (PopL1 (acc @ [j])) w fd (js @ q) ov ca ix c r" "stamp s' = stamp s" by blast
  from Cons.hyps [OF s'(1,2)] Cons.prems(3) show ?case by (simp add: s'(3))
qed auto

lemma run_jobs:
  "evl_run L s \<Longrightarrow> quiet s (RunL1 n js) w fd q ov ca ix c r \<Longrightarrow>
   \<exists>s'. evl_run L s' \<and> quiet s' (RunL1 n []) w fd q ov ca ix c (r @ map (\<lambda>f. (f, True)) js) \<and> stamp s' = stamp s"
proof (induct js arbitrary: s r)
  case (Cons j js)
  have "\<exists>s'. evl_run L s' \<and> quiet s' (RunL1 n js) w fd q ov ca ix c (r @ [(j, True)]) \<and> stamp s' = stamp s"
    by (rule quiet_step [OF Cons.prems]) (use Cons.prems in \<open>simp_all add: quiet_def\<close>)
  then obtain s' where s': "evl_run L s'" "quiet s' (RunL1 n js) w fd q ov ca ix c (r @ [(j, True)])" "stamp s' = stamp s" by blast
  from Cons.hyps [OF s'(1,2)] show ?case by (simp add: s'(3))
qed auto

lemma run_cached:
  "evl_run L s \<Longrightarrow> quiet s (RunL2 k i) w fd q ov ca ix c r \<Longrightarrow> ix + i \<le> length ca \<Longrightarrow>
   \<exists>s'. evl_run L s' \<and> quiet s' (RunL2 k 0) w fd q ov ca (ix + i) c (r @ map (\<lambda>f. (f, False)) (take i (drop ix ca))) \<and> stamp s' = stamp s"
proof (induct i arbitrary: s r ix)
  case (Suc i)
  have "\<exists>s'. evl_run L s' \<and> quiet s' (RunL2 k i) w fd q ov ca (ix + 1) c (r @ [(ca ! ix, False)]) \<and> stamp s' = stamp s"
    by (rule quiet_step [OF Suc.prems(1,2)]) (use Suc.prems in \<open>simp_all add: quiet_def\<close>)
  then obtain s' where s': "evl_run L s'" "quiet s' (RunL2 k i) w fd q ov ca (ix + 1) c (r @ [(ca ! ix, False)])" "stamp s' = stamp s" by blast
  have "drop ix ca = ca ! ix # drop (ix + 1) ca" using Suc.prems(3) by (simp add: Cons_nth_drop_Suc)
  with Suc.hyps [OF s'(1,2)] Suc.prems(3) show ?case by (simp add: s'(3))
qed auto

lemma add_int_small: "0 \<le> c \<Longrightarrow> c + int n < 2 ^ 31 \<Longrightarrow> add_int c n = c + int n"
  using signed_take_bit_int_eq_self [of 31 "c + int n"] unfolding add_int_def sint_sbintrunc' by simp

lemma run_batch:
  assumes "evl_run L s" "quiet s (PopL1 []) w fd (js @ q) ov ca ix c r"
    and js: "js \<noteq> []" "length js = kBatchSize L \<or> length js < kBatchSize L \<and> q = []"
    and c: "0 \<le> c" "c + int (length js) < 2 ^ 31"
  shows "\<exists>s'. evl_run L s' \<and> quiet s' (if c + int (length js) < int (kMaxTasks L) then PopL1 [] else FetchL2) w fd q ov ca ix
      (c + int (length js)) (r @ map (\<lambda>f. (f, True)) js) \<and> stamp s' = stamp s"
proof -
  have le: "length ([]::nat list) + length js \<le> kBatchSize L" using js(2) by auto
  from run_pop [OF assms(1,2) le] obtain s1
    where s1: "evl_run L s1" "quiet s1 (PopL1 js) w fd q ov ca ix c r" "stamp s1 = stamp s" by auto
  have "\<exists>s'. evl_run L s' \<and> quiet s' (RunL1 (length js) js) w fd q ov ca ix c r \<and> stamp s' = stamp s"
    by (rule quiet_step [OF s1(1,2)]) (use s1 js in \<open>cases q; auto simp: quiet_def pop_l1_def\<close>)+
  then obtain s2 where s2: "evl_run L s2" "quiet s2 (RunL1 (length js) js) w fd q ov ca ix c r" "stamp s2 = stamp s" by blast
  from run_jobs [OF s2(1,2)] obtain s3 where s3: "evl_run L s3"
    "quiet s3 (RunL1 (length js) []) w fd q ov ca ix c (r @ map (\<lambda>f. (f, True)) js)" "stamp s3 = stamp s" by (auto simp: s2(3))
  show ?thesis
    by (rule quiet_step [OF s3(1,2)]) (use s3 c in \<open>simp_all add: quiet_def add_int_small Let_def\<close>)
qed

lemma run_batches:
  "evl_run L s \<Longrightarrow> quiet s (PopL1 []) w fd js ov ca ix c r \<Longrightarrow> length js = Suc m * kBatchSize L \<Longrightarrow> 0 < kBatchSize L \<Longrightarrow>
   0 \<le> c \<Longrightarrow> c + int (length js) = int (kMaxTasks L) \<Longrightarrow> kMaxTasks L < 2 ^ 31 \<Longrightarrow>
   \<exists>s'. evl_run L s' \<and> quiet s' FetchL2 w fd [] ov ca ix (int (kMaxTasks L)) (r @ map (\<lambda>f. (f, True)) js) \<and> stamp s' = stamp s"
proof (induct m arbitrary: s js c r)
  case 0
  then have *: "quiet s (PopL1 []) w fd (js @ []) ov ca ix c r" "js \<noteq> []" "c + int (length js) < 2 ^ 31" by auto
  show ?case using run_batch [OF 0(1) *(1,2) _ 0(5) *(3)] 0 by auto
next
  case (Suc m)
  define a b where "a = take (kBatchSize L) js" and "b = drop (kBatchSize L) js"
  have ab: "js = a @ b" "length a = kBatchSize L" "length b = Suc m * kBatchSize L"
    using Suc.prems(3) by (simp_all add: a_def b_def)
  have sum: "c + int (length a) + int (length b) = int (kMaxTasks L)" and "0 < length b"
    using Suc.prems(4,6) ab by simp_all
  then have "c + int (length a) < int (kMaxTasks L)" by linarith
  with sum have *: "quiet s (PopL1 []) w fd (a @ b) ov ca ix c r" "a \<noteq> []" "c + int (length a) < int (kMaxTasks L)"
    "c + int (length a) < 2 ^ 31" "c + int (length a) + int (length b) = int (kMaxTasks L)"
    using Suc.prems(2,4,7) ab(1,2) by auto
  from run_batch [OF Suc.prems(1) *(1,2) _ Suc.prems(5) *(4)] ab(2) *(3) obtain s1 where
    s1: "evl_run L s1" "quiet s1 (PopL1 []) w fd b ov ca ix (c + int (length a)) (r @ map (\<lambda>f. (f, True)) a)" "stamp s1 = stamp s"
    by auto
  from Suc.hyps [OF s1(1,2) ab(3) Suc.prems(4) _ *(5) Suc.prems(7)] Suc.prems(5) show ?case by (simp add: ab(1) s1(3))
qed

lemma quiet_poll: "evl_run L (start_loop evl_init) \<and> quiet (loop_top (start_loop evl_init)) Polling False 0 [] [] [] 0 0 [] \<and>
   evl_run L (loop_top (start_loop evl_init))"
  using run_loop [OF evl_start, of L] run_loop [of L "start_loop evl_init"]
  by (simp add: evl_init_def start_loop_def loop_top_def quiet_def)

text \<open>The loop wakes up and begins its pass.\<close>

lemma run_round:
  assumes "evl_run L s" "quiet s Polling w (Suc fd) q ov ca ix c r"
  shows "\<exists>s'. evl_run L s' \<and> quiet s' (PopL1 []) False 0 q ov ca ix 0 r \<and> stamp s' = (passes s + 1, accepted s)"
proof -
  have "\<exists>s'. evl_run L s' \<and> quiet s' (Handling True) w (Suc fd) q ov ca ix c r \<and> stamp s' = stamp s"
    by (rule quiet_step [OF assms]) (use assms in \<open>simp_all add: quiet_def poll_return_def\<close>)
  then obtain s1 where s1: "evl_run L s1" "quiet s1 (Handling True) w (Suc fd) q ov ca ix c r" "stamp s1 = stamp s" by blast
  have "\<exists>s'. evl_run L s' \<and> quiet s' ResetFlag w 0 q ov ca ix c r \<and> stamp s' = stamp s"
    by (rule quiet_step [OF s1(1,2)]) (use s1 in \<open>simp_all add: quiet_def handleRead_read_def\<close>)
  then obtain s2 where s2: "evl_run L s2" "quiet s2 ResetFlag w 0 q ov ca ix c r" "stamp s2 = stamp s" by blast
  have "\<exists>s'. evl_run L s' \<and> quiet s' (Handling False) False 0 q ov ca ix c r \<and> stamp s' = stamp s"
    by (rule quiet_step [OF s2(1,2)]) (use s2 in \<open>simp_all add: quiet_def handleRead_store_def\<close>)
  then obtain s3 where s3: "evl_run L s3" "quiet s3 (Handling False) False 0 q ov ca ix c r" "stamp s3 = stamp s" by blast
  show ?thesis by (rule quiet_step [OF s3(1,2)]) (use s3 in \<open>simp_all add: quiet_def begin_jobs_def\<close>)
qed

text \<open>The pass reaches its limit: it fetches from the overflow queue, runs nothing of it, and wakes
  itself.\<close>

lemma run_limit:
  assumes "evl_run L s" "quiet s FetchL2 False fd q ov ca ix (int (kMaxTasks L)) r" "kMaxTasks L < 2 ^ 31"
    and f: "(ca', ix', ov') = (if length ca \<le> ix then (ov, 0, []) else (ca, ix, ov))" "ix' < length ca'"
  shows "\<exists>s'. evl_run L s' \<and> quiet s' Polling True (Suc fd) q ov' ca' ix' (int (kMaxTasks L)) r \<and> stamp s' = stamp s"
proof -
  let ?c = "int (kMaxTasks L)"
  have q0: "quota L ?c = 0" by (simp add: quota_def)
  have add: "add_int ?c 0 = ?c" using assms(3) by (simp add: add_int_small)
  have "\<exists>s'. evl_run L s' \<and> quiet s' (RunL2 0 0) False fd q ov' ca' ix' ?c r \<and> stamp s' = stamp s"
    by (rule quiet_step [OF assms(1,2)]) (use assms(2) f q0 in \<open>auto simp: quiet_def fetch_l2_def Let_def split: if_splits\<close>)
  then obtain s1 where s1: "evl_run L s1" "quiet s1 (RunL2 0 0) False fd q ov' ca' ix' ?c r" "stamp s1 = stamp s" by blast
  have "\<exists>s'. evl_run L s' \<and> quiet s' CheckLeft False fd q ov' ca' ix' ?c r \<and> stamp s' = stamp s"
    by (rule quiet_step [OF s1(1,2)]) (use s1 add in \<open>simp_all add: quiet_def\<close>)
  then obtain s2 where s2: "evl_run L s2" "quiet s2 CheckLeft False fd q ov' ca' ix' ?c r" "stamp s2 = stamp s" by blast
  have "\<exists>s'. evl_run L s' \<and> quiet s' LoopCas False fd q ov' ca' ix' ?c r \<and> stamp s' = stamp s"
    by (rule quiet_step [OF s2(1,2)]) (use s2 f(2) in \<open>simp_all add: quiet_def check_left_def\<close>)
  then obtain s3 where s3: "evl_run L s3" "quiet s3 LoopCas False fd q ov' ca' ix' ?c r" "stamp s3 = stamp s" by blast
  have "\<exists>s'. evl_run L s' \<and> quiet s' LoopWrite True fd q ov' ca' ix' ?c r \<and> stamp s' = stamp s"
    by (rule quiet_step [OF s3(1,2)]) (use s3 in \<open>simp_all add: quiet_def loop_cas_def\<close>)
  then obtain s4 where s4: "evl_run L s4" "quiet s4 LoopWrite True fd q ov' ca' ix' ?c r" "stamp s4 = stamp s" by blast
  have "\<exists>s'. evl_run L s' \<and> quiet s' Top True (Suc fd) q ov' ca' ix' ?c r \<and> stamp s' = stamp s"
    by (rule quiet_step [OF s4(1,2)]) (use s4 in \<open>simp_all add: quiet_def leave_jobs_def wakeup_def\<close>)
  then obtain s5 where s5: "evl_run L s5" "quiet s5 Top True (Suc fd) q ov' ca' ix' ?c r" "stamp s5 = stamp s" by blast
  show ?thesis by (rule quiet_step [OF s5(1,2)]) (use s5 in \<open>simp_all add: quiet_def loop_top_def\<close>)
qed

text \<open>A pass over a cache of exactly \<open>kMaxTasks\<close> jobs.\<close>

lemma run_cache_out:
  assumes "evl_run L s" "quiet s (PopL1 []) False fd [] ov ca 0 0 r" "length ca = kMaxTasks L" "0 < kMaxTasks L" "kMaxTasks L < 2 ^ 31"
  shows "\<exists>s'. evl_run L s' \<and> quiet s' Polling False fd [] ov ca (length ca) (int (kMaxTasks L)) (r @ map (\<lambda>f. (f, False)) ca) \<and> stamp s' = stamp s"
proof -
  let ?n = "length ca" let ?c = "int (kMaxTasks L)" let ?r = "r @ map (\<lambda>f. (f, False)) ca"
  have q0: "quota L 0 = ?n" using assms(3,5) by (simp add: quota_def unat_of_nat take_bit_nat_eq_self)
  have add: "add_int 0 ?n = ?c" using assms(3,5) by (simp add: add_int_small)
  have "\<exists>s'. evl_run L s' \<and> quiet s' FetchL2 False fd [] ov ca 0 0 r \<and> stamp s' = stamp s"
    by (rule quiet_step [OF assms(1,2)]) (use assms(2) in \<open>simp_all add: quiet_def pop_l1_def\<close>)
  then obtain s1 where s1: "evl_run L s1" "quiet s1 FetchL2 False fd [] ov ca 0 0 r" "stamp s1 = stamp s" by blast
  have "\<exists>s'. evl_run L s' \<and> quiet s' (RunL2 ?n ?n) False fd [] ov ca 0 0 r \<and> stamp s' = stamp s"
    by (rule quiet_step [OF s1(1,2)]) (use s1 q0 assms(3,4) in \<open>simp_all add: quiet_def fetch_l2_def Let_def\<close>)
  then obtain s2 where s2: "evl_run L s2" "quiet s2 (RunL2 ?n ?n) False fd [] ov ca 0 0 r" "stamp s2 = stamp s" by blast
  from run_cached [OF s2(1,2)] obtain s3 where s3: "evl_run L s3" "quiet s3 (RunL2 ?n 0) False fd [] ov ca ?n 0 ?r" "stamp s3 = stamp s"
    by (auto simp: s2(3))
  have "\<exists>s'. evl_run L s' \<and> quiet s' CheckLeft False fd [] ov ca ?n ?c ?r \<and> stamp s' = stamp s"
    by (rule quiet_step [OF s3(1,2)]) (use s3 add in \<open>simp_all add: quiet_def\<close>)
  then obtain s4 where s4: "evl_run L s4" "quiet s4 CheckLeft False fd [] ov ca ?n ?c ?r" "stamp s4 = stamp s" by blast
  have "\<exists>s'. evl_run L s' \<and> quiet s' Top False fd [] ov ca ?n ?c ?r \<and> stamp s' = stamp s"
    by (rule quiet_step [OF s4(1,2)]) (use s4 in \<open>simp_all add: quiet_def check_left_def leave_jobs_def\<close>)
  then obtain s5 where s5: "evl_run L s5" "quiet s5 Top False fd [] ov ca ?n ?c ?r" "stamp s5 = stamp s" by blast
  show ?thesis by (rule quiet_step [OF s5(1,2)]) (use s5 in \<open>simp_all add: quiet_def loop_top_def\<close>)
qed

text \<open>One whole pass over a full lock-free queue, from waking to sleeping.\<close>

lemma run_full_pass:
  assumes "evl_run L s" "quiet s Polling True (Suc fd) js ov ca ix c r"
    and L: "kMaxTasks L = Suc m * kBatchSize L" "0 < kBatchSize L" "kMaxTasks L < 2 ^ 31" "length js = kMaxTasks L"
    and f: "(ca', ix', ov') = (if length ca \<le> ix then (ov, 0, []) else (ca, ix, ov))" "ix' < length ca'"
  shows "\<exists>s'. evl_run L s' \<and> quiet s' Polling True 1 [] ov' ca' ix' (int (kMaxTasks L)) (r @ map (\<lambda>f. (f, True)) js) \<and> stamp s' = (passes s + 1, accepted s)"
proof -
  from run_round [OF assms(1,2)] obtain s1 where s1: "evl_run L s1" "quiet s1 (PopL1 []) False 0 js ov ca ix 0 r" "stamp s1 = (passes s + 1, accepted s)" by blast
  have "length js = Suc m * kBatchSize L" "0 + int (length js) = int (kMaxTasks L)" using L by simp_all
  from run_batches [OF s1(1,2) this(1) L(2) _ this(2) L(3)]
  obtain s2 where s2: "evl_run L s2" "quiet s2 FetchL2 False 0 [] ov ca ix (int (kMaxTasks L)) (r @ map (\<lambda>f. (f, True)) js)" "stamp s2 = (passes s + 1, accepted s)"
    by (auto simp: s1(3))
  from run_limit [OF s2(1,2) L(3) f] show ?thesis by (simp add: s2(3))
qed

lemma lost_run:
  assumes L: "kMaxTasks L = Suc m * kBatchSize L" "0 < kBatchSize L" "kMaxTasks L < 2 ^ 31" "kMpscCapacity L = kMaxTasks L"
    and js: "length js = kMaxTasks L"
  shows "\<exists>s r. evl_run L s \<and> quiet s Polling False 0 [] [x] js (length js) (int (kMaxTasks L)) r \<and> passes s = 3"
proof -
  have n: "js \<noteq> []" "length js \<le> kMpscCapacity L" "length js = kMpscCapacity L" "0 < kMaxTasks L" using L js by auto
  let ?s0 = "loop_top (start_loop evl_init)"
  have s0: "evl_run L ?s0" "quiet ?s0 Polling False 0 [] [] [] 0 0 []" using quiet_poll by blast+
  have p0: "passes ?s0 = 0" by (simp add: evl_init_def start_loop_def loop_top_def)
  from run_push [OF s0 n(1,2)] obtain s1
    where s1: "evl_run L s1" "quiet s1 Polling True 1 js [] [] 0 0 []" "passes s1 = 0" by (auto simp: p0)
  from run_overflow [OF s1(1,2) n(1,3)] obtain s2
    where s2: "evl_run L s2" "quiet s2 Polling True (Suc 0) js js [] 0 0 []" "passes s2 = 0" by (auto simp: s1(3))
  from run_full_pass [OF s2(1,2) L(1-3) js, of js 0 "[]"] n(1) obtain s3 r
    where s3: "evl_run L s3" "quiet s3 Polling True 1 [] [] js 0 (int (kMaxTasks L)) r" "passes s3 = 1" by (auto simp: s2(3))
  from run_push [OF s3(1,2) n(1,2)] obtain s4
    where s4: "evl_run L s4" "quiet s4 Polling True 1 js [] js 0 (int (kMaxTasks L)) r" "passes s4 = 1" by (auto simp: s3(3))
  from run_overflow [OF s4(1,2) _ n(3), of "[x]"] obtain s5
    where s5: "evl_run L s5" "quiet s5 Polling True (Suc 0) js [x] js 0 (int (kMaxTasks L)) r" "passes s5 = 1" by (auto simp: s4(3))
  from run_full_pass [OF s5(1,2) L(1-3) js, of js 0 "[x]"] n(1) obtain s6 r'
    where s6: "evl_run L s6" "quiet s6 Polling True (Suc 0) [] [x] js 0 (int (kMaxTasks L)) r'" "passes s6 = 2" by (auto simp: s5(3))
  from run_round [OF s6(1,2)] obtain s7 where s7: "evl_run L s7" "quiet s7 (PopL1 []) False 0 [] [x] js 0 0 r'" "passes s7 = 3" by (auto simp: s6(3))
  from run_cache_out [OF s7(1,2) js n(4) L(3)] show ?thesis by (auto simp: s7(3))
qed

text \<open>C21. A wake-up can be lost: with the sizes of the code there is a reachable state in which the
  loop sleeps in \<open>epoll_wait\<close>, no thread is inside a call, the event descriptor is not readable, and a
  job waits in the overflow queue. Nothing but another event or the time limit of ten seconds will
  run it.\<close>

theorem wakeup_can_be_lost:
  "\<exists>s. evl_run evl_limits s \<and> loop_pc s = Polling \<and> \<not> quitFlag s \<and> (\<forall>t. calls s t = CIdle) \<and> wakeupFd s = 0 \<and>
     overflowQueue s = [x] \<and> loop_step evl_limits (loop_pc s) s = s"
proof -
  have "\<exists>s r. evl_run evl_limits s \<and>
      quiet s Polling False 0 [] [x] (replicate 65536 0) (length (replicate 65536 (0::nat))) (int (kMaxTasks evl_limits)) r \<and> passes s = 3"
    by (rule lost_run [where m = 63]) (simp_all add: evl_limits_def)
  then show ?thesis by (auto simp: quiet_def)
qed

lemma overtake_run:
  assumes L: "kMaxTasks L = Suc m * kBatchSize L" "1 < kBatchSize L" "kMaxTasks L < 2 ^ 31" "kMpscCapacity L = kMaxTasks L"
    and js: "length js = kMaxTasks L"
  shows "\<exists>s. evl_run L s \<and> quiet s (PopL1 []) False 0 [] [] [x] 0 1 (map (\<lambda>f. (f, True)) js @ [(y, True)]) \<and>
    accepted s = map (\<lambda>f. (f, True)) js @ [(x, False), (y, True)]"
proof -
  have n: "js \<noteq> []" "length js \<le> kMpscCapacity L" "length js = kMpscCapacity L" "0 < kMaxTasks L" "0 < kBatchSize L"
    "1 \<le> kMpscCapacity L" "1 < kMaxTasks L" using L js by auto
  let ?s0 = "loop_top (start_loop evl_init)"
  have s0: "evl_run L ?s0" "quiet ?s0 Polling False 0 [] [] [] 0 0 []" using quiet_poll by blast+
  have a0: "accepted ?s0 = []" by (simp add: eval_defs)
  from run_push [OF s0 n(1,2)] obtain s1
    where s1: "evl_run L s1" "quiet s1 Polling True 1 js [] [] 0 0 []" "accepted s1 = map (\<lambda>f. (f, True)) js" by (auto simp: a0)
  from run_overflow [OF s1(1,2) _ n(3), of "[x]"] obtain s2
    where s2: "evl_run L s2" "quiet s2 Polling True (Suc 0) js [x] [] 0 0 []" "accepted s2 = accepted s1 @ [(x, False)]" by auto
  from run_full_pass [OF s2(1,2) L(1) n(5) L(3) js, of "[x]" 0 "[]"] obtain s3
    where s3: "evl_run L s3" "quiet s3 Polling True 1 [] [] [x] 0 (int (kMaxTasks L)) (map (\<lambda>f. (f, True)) js)" "accepted s3 = accepted s2"
    by auto
  from run_push [OF s3(1,2), of "[y]"] n(6) obtain s4
    where s4: "evl_run L s4" "quiet s4 Polling True (Suc 0) [y] [] [x] 0 (int (kMaxTasks L)) (map (\<lambda>f. (f, True)) js)"
      "accepted s4 = accepted s3 @ [(y, True)]" by auto
  from run_round [OF s4(1,2)] obtain s5
    where s5: "evl_run L s5" "quiet s5 (PopL1 []) False 0 ([y] @ []) [] [x] 0 0 (map (\<lambda>f. (f, True)) js)" "accepted s5 = accepted s4" by auto
  from run_batch [OF s5(1,2)] L(2) n(7) obtain s6
    where "evl_run L s6" "quiet s6 (PopL1 []) False 0 [] [] [x] 0 1 (map (\<lambda>f. (f, True)) js @ [(y, True)])" "accepted s6 = accepted s5" by auto
  then show ?thesis using s1(3) s2(3) s3(3) s4(3) s5(3) by auto
qed

text \<open>C22. Jobs overtake each other: with the sizes of the code there is a reachable state in which 65538
  different jobs have been accepted, the last but one by the overflow queue and the others by the lock-free
  queue, and exactly all but the last but one have been run, the last one included: job 65537 has overtaken job
  65536, which was accepted before it. (Job 65536 came while the lock-free queue was full, 65537 when it had room
  again; two messages that another thread sends on a connection are such jobs.)\<close>

theorem jobs_overtake:
  "\<exists>s. evl_run evl_limits s \<and> distinct (map fst (accepted s)) \<and>
     accepted s = map (\<lambda>j. (j, True)) [0..<65536] @ [(65536, False), (65537, True)] \<and>
     ran s = map (\<lambda>j. (j, True)) [0..<65536] @ [(65537, True)]"
proof -
  have "\<exists>s. evl_run evl_limits s \<and>
      quiet s (PopL1 []) False 0 [] [] [65536] 0 1 (map (\<lambda>j. (j, True)) [0..<65536] @ [(65537, True)]) \<and>
      accepted s = map (\<lambda>j. (j, True)) [0..<65536] @ [(65536, False), (65537, True)]"
    by (rule overtake_run [where m = 63]) (simp_all add: evl_limits_def del: upt_rec_numeral)
  moreover have "distinct (map fst (map (\<lambda>j. (j, True)) [0..<65536] @ [(65536, False), (65537, True)]))"
    by (simp add: comp_def del: upt_rec_numeral)
  ultimately show ?thesis unfolding quiet_def by metis
qed

subsection \<open>The limit of a pass\<close>

lemma quota_within: "0 \<le> c \<Longrightarrow> c \<le> int (kMaxTasks L) \<Longrightarrow> kMaxTasks L < 2 ^ 31 \<Longrightarrow> int (quota L c) = int (kMaxTasks L) - c"
  using uint_word_of_int [of "int (kMaxTasks L) - c", where ?'a = 64] unfolding quota_def by simp

lemma quota_beyond:
  assumes "int (kMaxTasks L) < c" "c < 2 ^ 31"
  shows "2 ^ 63 \<le> quota L c"
proof -
  have eq: "word_of_int (int (kMaxTasks L) - c) = (word_of_int (2 ^ 64 + (int (kMaxTasks L) - c)) :: 64 word)"
    by (simp add: word_of_int_eq_iff take_bit_eq_mod)
  have "uint (word_of_int (2 ^ 64 + (int (kMaxTasks L) - c)) :: 64 word) = 2 ^ 64 + (int (kMaxTasks L) - c)"
    by (rule word_of_int_inverse [OF refl]) (use assms in simp_all)
  then have "int (quota L c) = 2 ^ 64 + (int (kMaxTasks L) - c)" unfolding quota_def eq by (simp only: uint_nat)
  then have "int (2 ^ 63) \<le> int (quota L c)" using assms by simp
  then show ?thesis by (simp only: of_nat_le_iff)
qed

lemma run_below_limit:
  "evl_run L s \<Longrightarrow> quiet s (PopL1 []) w fd (js @ q) ov ca ix c r \<Longrightarrow> length js = m * kBatchSize L \<Longrightarrow> 0 < kBatchSize L \<Longrightarrow>
   0 \<le> c \<Longrightarrow> c + int (length js) < int (kMaxTasks L) \<Longrightarrow> kMaxTasks L < 2 ^ 31 \<Longrightarrow>
   \<exists>s'. evl_run L s' \<and> quiet s' (PopL1 []) w fd q ov ca ix (c + int (length js)) (r @ map (\<lambda>f. (f, True)) js) \<and> stamp s' = stamp s"
proof (induct m arbitrary: s js c r)
  case 0
  then show ?case by (intro exI [of _ s]) simp
next
  case (Suc m)
  define a b where "a = take (kBatchSize L) js" and "b = drop (kBatchSize L) js"
  have ab: "js = a @ b" "length a = kBatchSize L" "length b = m * kBatchSize L"
    using Suc.prems(3) by (simp_all add: a_def b_def)
  have lt: "c + int (length a) + int (length b) < int (kMaxTasks L)" using Suc.prems(6) ab(1) by simp
  then have lt': "c + int (length a) < int (kMaxTasks L)" by linarith
  then have *: "quiet s (PopL1 []) w fd (a @ b @ q) ov ca ix c r" "a \<noteq> []" "c + int (length a) < 2 ^ 31"
    using Suc.prems(2,4,7) ab(1,2) by auto
  from run_batch [OF Suc.prems(1) *(1,2) _ Suc.prems(5) *(3)] ab(2) lt' obtain s1 where
    s1: "evl_run L s1" "quiet s1 (PopL1 []) w fd (b @ q) ov ca ix (c + int (length a)) (r @ map (\<lambda>f. (f, True)) a)" "stamp s1 = stamp s"
    by auto
  from Suc.hyps [OF s1(1,2) ab(3) Suc.prems(4) _ lt Suc.prems(7)] Suc.prems(5) show ?case by (simp add: ab(1) s1(3) add.assoc)
qed

lemma exceed_run:
  fixes js js' js'' b :: "nat list"
  assumes L: "kMaxTasks L = Suc m * kBatchSize L" "1 < kBatchSize L" "kMaxTasks L < 2 ^ 29" "kMpscCapacity L = kMaxTasks L"
    and js: "length js = kMaxTasks L" and last: "length js' = m * kBatchSize L" "length js'' = kBatchSize L - 1" "length b = kBatchSize L"
  shows "\<exists>s r. evl_run L s \<and> quiet s CheckLeft True 1 [] [] js (length js) (2 * int (kMaxTasks L) + int (kBatchSize L) - 1) r"
proof -
  let ?N = "int (kMaxTasks L)" and ?B = "int (kBatchSize L)"
  have n: "js \<noteq> []" "length js \<le> kMpscCapacity L" "length js = kMpscCapacity L" "0 < kMaxTasks L" "0 < kBatchSize L"
    "js' @ js'' \<noteq> []" "length (js' @ js'') \<le> kMpscCapacity L" "b \<noteq> []" "length b \<le> kMpscCapacity L" "js'' \<noteq> []"
    using L js last by auto
  have "?N < 536870912" "kMaxTasks L < 2 ^ 31" using L(3) by simp_all
  moreover have "?B \<le> ?N" "int (m * kBatchSize L) + ?B = ?N" using L(1) by simp_all
  ultimately have N: "?N < 536870912" "?B \<le> ?N" "int (m * kBatchSize L) + ?B = ?N" "kMaxTasks L < 2 ^ 31" by blast+
  let ?s0 = "loop_top (start_loop evl_init)"
  have s0: "evl_run L ?s0" "quiet ?s0 Polling False 0 [] [] [] 0 0 []" using quiet_poll by blast+
  from run_push [OF s0 n(1,2)] obtain s1 where s1: "evl_run L s1" "quiet s1 Polling True 1 js [] [] 0 0 []" by auto
  from run_overflow [OF s1 n(1,3)] obtain s2 where s2: "evl_run L s2" "quiet s2 Polling True (Suc 0) js js [] 0 0 []" by auto
  from run_full_pass [OF s2 L(1) n(5) N(4) js, of js 0 "[]"] n(1) obtain s3 r
    where s3: "evl_run L s3" "quiet s3 Polling True 1 [] [] js 0 ?N r" by auto
  from run_push [OF s3 n(6,7)] obtain s4 where s4: "evl_run L s4" "quiet s4 Polling True (Suc 0) (js' @ js'') [] js 0 ?N r" by auto
  from run_round [OF s4] obtain s5 where s5: "evl_run L s5" "quiet s5 (PopL1 []) False 0 (js' @ js'') [] js 0 0 r" by auto
  have "0 + int (length js') < ?N" using last(1) N(3) n(5) by simp
  from run_below_limit [OF s5 last(1) n(5) _ this N(4)] obtain s6 r6
    where s6: "evl_run L s6" "quiet s6 (PopL1 []) False 0 (js'' @ []) [] js 0 (int (length js')) r6" by auto
  have c7: "int (length js') + int (length js'') = ?N - 1" using last N(3) n(5) by (simp add: of_nat_diff)
  with N have "int (length js') + int (length js'') < 2 ^ 31" by simp
  from run_batch [OF s6 n(10) _ _ this, unfolded c7] last(2) L(2) obtain s7 r7
    where s7: "evl_run L s7" "quiet s7 (PopL1 []) False 0 [] [] js 0 (?N - 1) r7" by auto
  from run_push [OF s7 n(8,9)] obtain s8 where s8: "evl_run L s8" "quiet s8 (PopL1 []) True 1 (b @ []) [] js 0 (?N - 1) r7" by auto
  have "?N - 1 + int (length b) < 1073741824" using N(1,2) last(3) by linarith
  then have "0 \<le> ?N - 1" "?N - 1 + int (length b) < 2 ^ 31" using n(4) by simp_all
  from run_batch [OF s8 n(8) _ this] last(3) L(2) obtain s9 r9
    where s9: "evl_run L s9" "quiet s9 FetchL2 True 1 [] [] js 0 (?N - 1 + ?B) r9" by auto
  have "?N - 1 + ?B < 1073741824" using N(1,2) by linarith
  then have "2 ^ 63 \<le> quota L (?N - 1 + ?B)" using L(2) by (intro quota_beyond) simp_all
  then have "quota L (?N - 1 + ?B) \<ge> length js" using N(1) js by simp
  then have k: "min (length js - 0) (quota L (?N - 1 + ?B)) = length js" by simp
  have "\<exists>s'. evl_run L s' \<and> quiet s' (RunL2 (length js) (length js)) True 1 [] [] js 0 (?N - 1 + ?B) r9 \<and> stamp s' = stamp s9"
    by (rule quiet_step [OF s9]) (use s9 k n(1) in \<open>simp_all add: quiet_def fetch_l2_def Let_def\<close>)
  then obtain s10 where s10: "evl_run L s10" "quiet s10 (RunL2 (length js) (length js)) True 1 [] [] js 0 (?N - 1 + ?B) r9" by blast
  from run_cached [OF s10] obtain s11 r11 where s11: "evl_run L s11" "quiet s11 (RunL2 (length js) 0) True 1 [] [] js (length js) (?N - 1 + ?B) r11" by auto
  have "?N - 1 + ?B + ?N < 1610612736" "0 \<le> ?N - 1 + ?B" using N(1,2) n(4) by linarith+
  then have "add_int (?N - 1 + ?B) (length js) = 2 * ?N + ?B - 1" using js add_int_small [of "?N - 1 + ?B" "length js"] by simp
  then have add: "add_int (?N - 1 + ?B) (length js) = 2 * ?N + ?B - 1" "\<not> 2 * ?N + ?B - 1 < ?N" using n(4) by simp_all
  have "\<exists>s'. evl_run L s' \<and> quiet s' CheckLeft True 1 [] [] js (length js) (2 * ?N + ?B - 1) r11 \<and> stamp s' = stamp s11"
    by (rule quiet_step [OF s11]) (use s11 add in \<open>simp_all add: quiet_def\<close>)
  then show ?thesis by blast
qed

text \<open>C23. The limit of a pass: as long as a pass has run at most \<open>kMaxTasks\<close> jobs, what it takes from the
  cached overflow jobs stays within the limit. But once the last batch has carried the count beyond the limit, the
  difference is negative, its conversion to \<open>size_t\<close> is huge, and all cached jobs are run; with the sizes of the
  code a single pass can run 132095 jobs, twice its limit.\<close>

theorem pass_limit:
  assumes "loop_pc (fetch_l2 L s) = RunL2 k i" "0 \<le> processedCount s" "processedCount s < 2 ^ 31" "kMaxTasks L < 2 ^ 31"
    and "length (l2Cache s) < 2 ^ 63" "length (overflowQueue s) < 2 ^ 63"
  shows "(processedCount s \<le> int (kMaxTasks L) \<longrightarrow> processedCount s + int k \<le> int (kMaxTasks L)) \<and>
    (processedCount s > int (kMaxTasks L) \<longrightarrow> k = length (l2Cache (fetch_l2 L s)) - l2CacheIndex (fetch_l2 L s)) \<and>
    (\<exists>s. evl_run evl_limits s \<and> loop_pc s = CheckLeft \<and> processedCount s = 132095)"
proof (intro conjI impI)
  have k: "k = min (length (l2Cache (fetch_l2 L s)) - l2CacheIndex (fetch_l2 L s)) (quota L (processedCount s))"
    and le: "length (l2Cache (fetch_l2 L s)) < 2 ^ 63"
    using assms(1,5,6) by (auto simp: fetch_l2_def Let_def split: if_splits)
  show "processedCount s + int k \<le> int (kMaxTasks L)" if "processedCount s \<le> int (kMaxTasks L)"
    using quota_within [OF assms(2) that assms(4)] k by linarith
  show "k = length (l2Cache (fetch_l2 L s)) - l2CacheIndex (fetch_l2 L s)" if "processedCount s > int (kMaxTasks L)"
    using quota_beyond [OF that assms(3)] k le by linarith
  have "\<exists>s r. evl_run evl_limits s \<and> quiet s CheckLeft True 1 [] [] (replicate 65536 0) (length (replicate 65536 (0::nat)))
      (2 * int (kMaxTasks evl_limits) + int (kBatchSize evl_limits) - 1) r"
    by (rule exceed_run [where m = 63 and js' = "replicate 64512 0" and js'' = "replicate 1023 0" and b = "replicate 1024 0"])
       (simp_all add: evl_limits_def)
  then show "\<exists>s. evl_run evl_limits s \<and> loop_pc s = CheckLeft \<and> processedCount s = 132095"
    by (auto simp: quiet_def evl_limits_def)
qed

theorem pass_limit_witness:
  "\<exists>s. loop_pc (fetch_l2 evl_limits s) = RunL2 3 3 \<and> processedCount s = 65537 \<and>
     3 = length (l2Cache (fetch_l2 evl_limits s)) - l2CacheIndex (fetch_l2 evl_limits s)"
proof -
  let ?s = "evl_init\<lparr>processedCount := 65537, overflowQueue := [7, 8, 9]\<rparr>"
  have "(2::nat) ^ 63 \<le> quota evl_limits 65537" by (rule quota_beyond) (simp_all add: evl_limits_def)
  then have pc: "loop_pc (fetch_l2 evl_limits ?s) = RunL2 3 3" by (simp add: fetch_l2_def evl_init_def)
  have "3 = length (l2Cache (fetch_l2 evl_limits ?s)) - l2CacheIndex (fetch_l2 evl_limits ?s)"
    using pass_limit [OF pc] by (simp add: evl_limits_def evl_init_def)
  with pc show ?thesis by (intro exI [of _ ?s]) simp
qed

end
