(* ===== verification/Spec2Isabelle.thy ===== *)
theory Spec2Isabelle
  imports Prelude SizeClasses SpanRing PageMap PageHeap Realloc Digits IpParse Codec NetBuffer RpcWire RpcClient MpmcProps TimerProps KzStringProps WorkDequeProps MpscProps LoopProps
begin

text \<open>
  Verification development for KzCore, a C++20 networking core for Linux: a thread-caching memory allocator
  (\<open>KzAlloc\<close>), containers, lock-free queues and tasks (\<open>KzSTL\<close>), an epoll event loop with timers and TCP connections
  (\<open>KzNet\<close>, \<open>KzTimer\<close>), RPC over them (\<open>KzRpc\<close>), a thread pool (\<open>KzThread\<close>) and asynchronous logging (\<open>KzLog\<close>). All paths
  below are under \<open>src/\<close>.

  \<^bold>\<open>How the program fits together.\<close> Every other part allocates through \<open>KzAlloc\<close>: a thread cache per thread takes objects in
  batches from the central cache, which carves them out of spans of pages from the page heap, whose shards get
  memory from \<open>mmap\<close>; a radix tree maps a page back to its span. The event loop thread sleeps in \<open>epoll_wait\<close>, runs
  channel handlers, due timers and the jobs that other threads queued. Connections collect bytes in a \<open>Buffer\<close>, from
  which the RPC server and client cut frames; the client matches responses to waiting calls through a slot map and times
  them out with timers. The work-stealing deque and the two array queues carry jobs between threads.

  \<^bold>\<open>Conventions.\<close> \<open>size_t\<close> values are \<open>nat\<close> with the wrap-around written out (\<open>wadd\<close>, \<open>wsub\<close> of \<open>Prelude\<close>), bytes and
  bit patterns are words, signed times are \<open>int\<close> with an explicit check for overflow (\<open>i64\<close> of \<open>TimerQueue\<close>). An operation that can
  reach undefined behaviour of C++, or a loop that need not end, has an \<open>option\<close> result in which \<open>None\<close> stands for
  that; the properties show when it cannot occur, and three of them when it does. Memory that the code reaches through pointers
  is an explicit store. Code that is not the program's (\<open>mmap\<close>, \<open>malloc\<close> for the components above the allocator,
  \<open>readv\<close>, callbacks of the user) is a parameter, and what is relied on is a named hypothesis: \<open>mmap_ok\<close> (fresh ranges below \<open>2^47\<close>),
  \<open>fresh\<close>, \<open>malloc_ok\<close> and \<open>alloc_ok\<close> (a block that is not in use).
\<close>

text \<open>
  \<^bold>\<open>The theories, in the order of the dependencies.\<close>

  \<^item> \<open>Prelude\<close>: 64-bit arithmetic, little-endian bytes, list and store lemmas. \<open>Threads\<close>: sets of places owned by threads, for
    the queues.
  \<^item> \<open>SizeClasses\<close>: \<open>KzAlloc/SizeUtils.h\<close> and the batch sizes of \<open>CentralCache.h\<close>. The generated tables are computed and shown to agree
    with the closed forms; \<open>RoundUp\<close> is the least class.
  \<^item> \<open>SpanRing\<close>: the intrusive ring of \<open>KzAlloc/Span.h\<close> on a store of links, refining plain lists (locale \<open>intrusive_list\<close>).
  \<^item> \<open>PageMap\<close>: the radix tree of \<open>KzAlloc/PageMap.h\<close> with failing node allocation (locale \<open>page_table\<close>).
  \<^item> \<open>PageCache\<close>: one shard of \<open>KzAlloc/PageCache.h\<close>, \<open>PageCache.cpp\<close>, and \<open>SystemAlloc\<close> of \<open>Common.h\<close>. The state \<open>heap\<close> holds the spans of all
    shards by number, the page map, and per shard the four kinds of list, the pool and the count of
    hot pages. \<open>PageCacheInv\<close> has the invariant \<open>pc_inv\<close>, \<open>PageCacheOps\<close> its preservation by every operation, \<open>PageHeap\<close> the routing of
    threads to shards, the race of the first access (\<open>race_step\<close>, one step per atomic access), and the properties. \<open>SpanUse\<close> is the page heap as
    its clients see it.
  \<^item> \<open>FreeLists\<close>: free objects chained through their first words and the free list of \<open>KzAlloc/ThreadCache.h\<close>. \<open>CentralCache\<close>, \<open>CentralOps\<close>:
    \<open>KzAlloc/CentralCache.h\<close>, \<open>CentralCache.cpp\<close> over the page heap. \<open>Malloc\<close>: the thread caches (\<open>ThreadCache.cpp\<close>) and \<open>malloc\<close>, \<open>free\<close> of
    \<open>KzAlloc/ConcurrentAlloc.h\<close>. \<open>MallocInv\<close>, \<open>MallocFree\<close>: the invariant \<open>alloc_inv\<close>, in which \<open>L\<close> is the ghost map of live
    blocks. \<open>AllocRun\<close>: the reachable states \<open>alloc_run\<close>. \<open>AllocProps\<close>: the properties of \<open>malloc\<close> and \<open>free\<close>. \<open>Realloc\<close>: \<open>realloc\<close> and
    the aligned calls with their properties.
  \<^item> \<open>Digits\<close>: \<open>KzAlgorithm/Jeaiii.h\<close>, \<open>Hex.h\<close>. \<open>IpParse\<close>: \<open>KzNet/IpParser.h\<close> against grammars of the addresses.
  \<^item> \<open>Codec\<close>: \<open>KzRpc/Serializer.h\<close>, every type in both encodings (locales \<open>frame\<close>, \<open>codec\<close>, \<open>trivially_copyable\<close>, interpreted for every type).
    \<open>NetBuffer\<close>: \<open>KzNet/Buffer.h\<close>, \<open>Buffer.cpp\<close> as a byte queue (locale \<open>byte_stream\<close>). \<open>RpcWire\<close>: \<open>KzRpc/RpcProtocol.h\<close>, \<open>RpcServer.h\<close> (locale
    \<open>frame_loop\<close>). \<open>RpcClient\<close>: \<open>KzRpc/RpcChannel.h\<close> (locale \<open>call_table\<close>).
  \<^item> \<open>MpmcQueue\<close>, \<open>MpmcInv\<close>, \<open>MpmcProps\<close>: \<open>KzSTL/ArrayMpmcQueue.h\<close>. \<open>WorkDeque\<close>, \<open>WorkDequeInv\<close>, \<open>WorkDequeSteps\<close>, \<open>WorkDequeProps\<close>:
    \<open>KzSTL/WorkStealingDeque.h\<close>. \<open>MpscQueue\<close>, \<open>MpscProps\<close>: \<open>KzSTL/ArrayMpscQueue.h\<close>. In each the control state of a thread inside a call is a datatype, a
    step is one access to shared memory, and a run interleaves the steps of any number of threads.
  \<^item> \<open>TimerList\<close>: the intrusive list of \<open>KzTimer/TimerList.h\<close> on its pointers, \<open>push_back\<close> leaving it open as the code does. \<open>TimerQueue\<close>:
    \<open>KzNet/TimerQueue.h\<close>, \<open>TimerQueue.cpp\<close>, \<open>KzTimer/Timer.h\<close>; \<open>TimerInv\<close>, \<open>TimerOps\<close>, \<open>TimerProps\<close>: the invariant of the wheel, every operation,
    and the properties.
  \<^item> \<open>KzString\<close>, \<open>KzStringProps\<close>: \<open>KzSTL/KzString.h\<close>, \<open>KzString.cpp\<close> on the 24 bytes of an object and the blocks of the heap.
  \<^item> \<open>LoopJobs\<close>, \<open>LoopProps\<close>: the task queue of \<open>KzNet/EventLoop.h\<close>, \<open>EventLoop.cpp\<close>, its wake-ups and its passes, interleaved with the threads that
    queue jobs.
\<close>

text \<open>
  \<^bold>\<open>What is shown.\<close>

  \<^item> Allocator: live blocks never overlap, are aligned, big enough and known to the page map, in every interleaving of whole calls
    of any threads; \<open>malloc\<close>, both \<open>free\<close>s, both \<open>realloc\<close>s and the aligned calls return with the effect they promise; when all is
    freed and all threads have ended no span is in use; the page heap merges, counts and looks up exactly; a shard is built once.
    The sized \<open>free_aligned\<close> is only right for alignments of at least 8.
  \<^item> Queues: the queue of many producers and consumers is first in first out, loses nothing, and fails only when the next slot is not free or not
    filled; the deque is linearizable and its slots are built and taken in turn; the queue of one consumer is first in first out, and a
    push can fail on an empty queue.
  \<^item> Event loop: every job runs once, in the order of its queue; a wake-up is not lost except for overflow jobs after
    a pass that ended at its limit, which does happen; a later job can overtake an earlier one; the limit of a pass fails once a batch
    has carried the count beyond it.
  \<^item> Timers: no timer is run early, missed, run twice or run after it was cancelled; it is run at the tick it asks for, or exactly one turn of the wheel
    (40.96 s) later when that is a multiple of 4096 ticks away; ids cancel exactly their timer; the destructor is undefined exactly when
    a slot holds two timers.
  \<^item> Strings: every growing operation refines the list operation, also for views into the string itself; ownership of the block; adopting a block
    misstates its capacity.
  \<^item> Wire and parsers: round trips of the serializer (empty sequences excepted, which do not come back), frames cut independently of
    segmentation, one completion per call, the slot map as a finite map, the buffer as a byte queue, IPv6 against its grammar,
    decimal digits of every \<open>int64_t\<close>.

  \<^bold>\<open>Bounds.\<close> Allocator runs have at most 64 cores (shard numbers fit in a byte) and requests below \<open>2^48\<close> bytes: beyond that \<open>RoundUpToPage\<close> can wrap
  (\<open>KzAlloc/SizeUtils.h:41\<close>), which is not explored; addresses stay below \<open>2^49\<close> and page numbers below \<open>2^35\<close>, as \<open>mmap_ok\<close> gives. The loop of
  \<open>NewSpan\<close> has the fuel \<open>map_nodes + 2\<close>: each round but the last erases an empty node of one of the two maps or refills the list that the next round
  finds, so it always suffices (\<open>NewSpan_returned\<close>). The queues hold fewer than \<open>2^64\<close> values over their whole life (less the capacity), so that
  their counters do not wrap. Strings have capacities and views below \<open>2^60\<close> bytes, below \<open>2^59\<close> where two lengths are added. Timer clocks show 0 to \<open>2^62\<close> ns, expirations are from 0
  to \<open>2^63 - 1\<close> ns, intervals at most \<open>2^61\<close> ns; the code checks none of this, and outside of it \<open>int64_t\<close> overflows.
  The example runs of the event loop use the sizes of the code (65536 places, 65536 jobs per pass, batches of 1024).

  \<^bold>\<open>Granularity.\<close> The queues and the event loop interleave single accesses to shared memory, sequentially consistent; the acquire and
  release orderings are not modelled. In the allocator one call is one step. That is what the locks give except in three
  places, whose interleavings are not explored: \<open>NewSpan\<close> gives up the shard mutex around \<open>SystemAlloc\<close> (\<open>PageCache.cpp:172\<close>), the
  merging loops of \<open>ReleaseSpan\<close> read neighbouring spans that may belong to another shard without that shard's mutex
  (\<open>PageCache.cpp:250\<close>), and \<open>GetOneSpan\<close> carves up a new span without the lock of the bucket. An address holds one word in the store of the
  allocator; its program-written contents are words at single addresses.

  \<^bold>\<open>Not modelled.\<close> TCP connections, sockets, channels, poller, acceptor, connector, server and client wiring (system calls, callbacks and coroutine
  resumption; \<open>TcpServer.h\<close> uses members it does not declare); event loop threads, the thread pool and the spin lock (threads, semaphores, pinning); \<open>Job\<close>, \<open>Function\<close>,
  \<open>Task\<close>, \<open>KzAny\<close> and \<open>Expected\<close> (C++ object lifetimes and compiler-generated coroutine frames); logging to files; the bootstrap
  allocator and the object pool; time stamps; the Windows and 32-bit branches; benchmarks.
\<close>

end
